(* ===== verification/Xen_Prelude.thy ===== *)
theory Xen_Prelude
  imports Main "HOL-Library.Word"
begin

text \<open>
  Shared vocabulary of the development: names for the C integer types, the error
  numbers the drivers return, and the generic facts on words, lists and chains that the
  component theories rest on. Nothing here models a particular file.
\<close>

section \<open>Machine types and errors\<close>

unbundle bit_operations_syntax

type_synonym u8 = "8 word"
type_synonym u16 = "16 word"
type_synonym u32 = "32 word"
type_synonym u64 = "64 word"

text \<open>
  The drivers return \<open>0\<close> or a value on success and \<open>- errno\<close> on failure; the model keeps
  that convention with \<open>int\<close> results. \<open>BUG()\<close>, \<open>BUG_ON\<close> and a wild memory access stop the
  kernel: an operation that can meet one returns an \<open>option\<close> and is \<open>None\<close> there.
\<close>

abbreviation (input) ENOENT :: int where "ENOENT \<equiv> 2"
abbreviation (input) EPERM :: int where "EPERM \<equiv> 1"
abbreviation (input) ENXIO :: int where "ENXIO \<equiv> 6"
abbreviation (input) EIO :: int where "EIO \<equiv> 5"
abbreviation (input) EAGAIN :: int where "EAGAIN \<equiv> 11"
abbreviation (input) ENOMEM :: int where "ENOMEM \<equiv> 12"
abbreviation (input) EACCES :: int where "EACCES \<equiv> 13"
abbreviation (input) EFAULT :: int where "EFAULT \<equiv> 14"
abbreviation (input) EEXIST :: int where "EEXIST \<equiv> 17"
abbreviation (input) EBUSY :: int where "EBUSY \<equiv> 16"
abbreviation (input) ENODEV :: int where "ENODEV \<equiv> 19"
abbreviation (input) EINVAL :: int where "EINVAL \<equiv> 22"
abbreviation (input) ENOSPC :: int where "ENOSPC \<equiv> 28"
abbreviation (input) ERANGE :: int where "ERANGE \<equiv> 34"
abbreviation (input) E2BIG :: int where "E2BIG \<equiv> 7"
abbreviation (input) EBADR :: int where "EBADR \<equiv> 53"
abbreviation (input) EPROTO :: int where "EPROTO \<equiv> 71"
abbreviation (input) ENOSYS :: int where "ENOSYS \<equiv> 38"
abbreviation (input) EOPNOTSUPP :: int where "EOPNOTSUPP \<equiv> 95"
abbreviation (input) ENOBUFS :: int where "ENOBUFS \<equiv> 105"
abbreviation (input) ERESTARTSYS :: int where "ERESTARTSYS \<equiv> 512"

named_theorems word_dist
named_theorems chain_rules

section \<open>Distances between free-running 32-bit counters\<close>

text \<open>
  Producer and consumer indices are free-running \<open>unsigned int\<close>s that are only ever
  compared by subtraction. Against unbounded ghost counters the subtraction reads off the
  true distance as long as it is below \<open>2\<^sup>3\<^sup>2\<close>.
\<close>

lemma unat_dist [word_dist]:
  assumes "b \<le> a" and "a - b < 2 ^ 32"
  shows "unat ((of_nat a :: u32) - of_nat b) = a - b"
proof -
  have "(of_nat a :: u32) - of_nat b = of_nat (a - b)"
    using assms(1) by simp
  then show ?thesis
    using assms(2) by (simp add: unat_of_nat take_bit_nat_eq_self_iff del: of_nat_diff)
qed

lemma unat_drop_bit_div [simp]: "unat (drop_bit n (x :: 'a::len word)) = unat x div 2 ^ n"
  by (subst unat_drop_bit_eq) (simp add: drop_bit_eq_div)

lemma unat_and_mask_mod: "unat ((x :: 'a::len word) AND mask n) = unat x mod 2 ^ n"
  by (simp only: take_bit_eq_mask [symmetric] unsigned_take_bit_eq) (simp add: take_bit_eq_mod)

lemma unat_lt32: "unat (x :: u32) < 2 ^ 32"
  using unsigned_less [of x, where ?'a = nat] by simp

lemma unat_lt16: "unat (x :: u16) < 2 ^ 16"
  using unsigned_less [of x, where ?'a = nat] by simp

lemma u32_eq_iff: "(x :: u32) = y \<longleftrightarrow> unat x = unat y"
  by (simp add: word_unat_eq_iff)

lemma unat_of_nat32 [simp]: "n < 2 ^ 32 \<Longrightarrow> unat (of_nat n :: u32) = n"
  by (simp add: unat_of_nat take_bit_nat_eq_self_iff)

section \<open>64-bit counters that do not wrap\<close>

lemma unat_of_nat64 [simp]: "n < 2 ^ 64 \<Longrightarrow> unat (of_nat n :: u64) = n"
  by (simp add: unat_of_nat take_bit_nat_eq_self_iff)

lemma unat64_add: "unat a + unat b < 2 ^ 64 \<Longrightarrow> unat (a + b :: u64) = unat a + unat b"
  by (simp add: unat_plus_if')

lemma unat64_add_nat: "unat a + k < 2 ^ 64 \<Longrightarrow> unat (a + of_nat k :: u64) = unat a + k"
  using unat64_add [of a "of_nat k"] by simp

lemma unat64_sub_nat: "k \<le> unat a \<Longrightarrow> unat (a - of_nat k :: u64) = unat a - k"
  using unsigned_less [of a, where ?'a = nat] by (simp add: unat_sub_if')

lemma sint64_of_int: "- (2 ^ 63) \<le> i \<Longrightarrow> i < 2 ^ 63 \<Longrightarrow> sint (word_of_int i :: u64) = i"
  by (simp add: signed_of_int signed_take_bit_int_eq_self)

lemma sint64_diff:
  assumes "unat a < 2 ^ 62" and "unat b < 2 ^ 62"
  shows "sint (a - b :: u64) = int (unat a) - int (unat b)"
proof -
  have bounds: "int (unat a) < 2 ^ 62" "int (unat b) < 2 ^ 62"
    using assms by (simp_all only: of_nat_less_numeral_power_cancel_iff)
  have range: "- (2 ^ 63) \<le> x - y \<and> x - y < 2 ^ 63" if "0 \<le> x" "0 \<le> y" "x < 2 ^ 62" "y < 2 ^ 62" for x y :: int
    using that by simp
  have "- (2 ^ 63) \<le> int (unat a) - int (unat b)" "int (unat a) - int (unat b) < 2 ^ 63"
    using range [OF _ _ bounds] by simp_all
  then have "sint (word_of_int (int (unat a) - int (unat b)) :: u64) = int (unat a) - int (unat b)"
    by (rule sint64_of_int)
  moreover have "word_of_int (int (unat a) - int (unat b)) = a - b" by simp
  ultimately show ?thesis by metis
qed

end
