(* ===== verification/Ring.thy ===== *)
theory Ring
  imports Xen_Prelude
begin

text \<open>
  The shared I/O ring of \<^verbatim>\<open>include/xen/interface/io/ring.h\<close>: the ring page, the private halves
  of the front and the back end, and every macro that works on them. The macros are C
  expressions over a ring pointer \<open>_r\<close>, whose \<open>sring\<close> field points to the shared page; here
  a macro takes the private half and the page and returns what it changes. Both ends and the
  page together form \<open>ring_sys\<close>, on which \<open>ring_step\<close> states how a front and a back end
  that follow the macros' contract move.
\<close>

section \<open>The ring page and its two halves\<close>

type_synonym ring_idx = u32

text \<open>A slot is a C union: it holds the request or the response written last.\<close>

datatype ('q, 'p) sring_entry = Req 'q | Rsp 'p

record ('q, 'p) sring =
  req_prod :: ring_idx
  req_event :: ring_idx
  rsp_prod :: ring_idx
  rsp_event :: ring_idx
  pvt_pad :: "u8 list"
  pad44 :: "u8 list"
  ring :: "('q, 'p) sring_entry list"

record front_ring =
  req_prod_pvt :: ring_idx
  rsp_cons :: ring_idx
  f_nr_ents :: u32

record back_ring =
  rsp_prod_pvt :: ring_idx
  req_cons :: ring_idx
  b_nr_ents :: u32

section \<open>Ring size\<close>

definition RD2 :: "u32 \<Rightarrow> u32" where
  "RD2 x = (if x AND 0x2 \<noteq> 0 then 0x2 else x AND 0x1)"

definition RD4 :: "u32 \<Rightarrow> u32" where
  "RD4 x = (if x AND 0xc \<noteq> 0 then push_bit 2 (RD2 (drop_bit 2 x)) else RD2 x)"

definition RD8 :: "u32 \<Rightarrow> u32" where
  "RD8 x = (if x AND 0xf0 \<noteq> 0 then push_bit 4 (RD4 (drop_bit 4 x)) else RD4 x)"

definition RD16 :: "u32 \<Rightarrow> u32" where
  "RD16 x = (if x AND 0xff00 \<noteq> 0 then push_bit 8 (RD8 (drop_bit 8 x)) else RD8 x)"

definition RD32 :: "u32 \<Rightarrow> u32" where
  "RD32 x = (if x AND 0xffff0000 \<noteq> 0 then push_bit 16 (RD16 (drop_bit 16 x)) else RD16 x)"

text \<open>
  \<open>__CONST_RING_SIZE\<close> and \<open>__RING_SIZE\<close> are the same computation; \<open>ring\<close> lies 64 bytes
  into the page (four indices, 4 private bytes, 44 bytes of padding), \<open>esz\<close> is the size of a
  slot.
\<close>

definition sring_header :: u32 where
  "sring_header = 64"

definition RING_SIZE_of :: "u32 \<Rightarrow> u32 \<Rightarrow> u32" where
  "RING_SIZE_of esz sz = RD32 ((sz - sring_header) div esz)"

section \<open>Initialisation\<close>

definition SHARED_RING_INIT :: "('q, 'p) sring \<Rightarrow> ('q, 'p) sring" where
  "SHARED_RING_INIT s =
     s\<lparr>req_prod := 0, rsp_prod := 0, req_event := 1, rsp_event := 1,
       pvt_pad := replicate 4 0, pad44 := replicate 44 0\<rparr>"

definition FRONT_RING_INIT :: "u32 \<Rightarrow> u32 \<Rightarrow> front_ring" where
  "FRONT_RING_INIT esz sz =
     \<lparr>req_prod_pvt = 0, rsp_cons = 0, f_nr_ents = RING_SIZE_of esz sz\<rparr>"

definition BACK_RING_INIT :: "u32 \<Rightarrow> u32 \<Rightarrow> back_ring" where
  "BACK_RING_INIT esz sz =
     \<lparr>rsp_prod_pvt = 0, req_cons = 0, b_nr_ents = RING_SIZE_of esz sz\<rparr>"

section \<open>Occupancy\<close>

definition RING_FREE_REQUESTS :: "front_ring \<Rightarrow> u32" where
  "RING_FREE_REQUESTS r = f_nr_ents r - (req_prod_pvt r - rsp_cons r)"

definition RING_FULL :: "front_ring \<Rightarrow> bool" where
  "RING_FULL r \<longleftrightarrow> RING_FREE_REQUESTS r = 0"

definition RING_HAS_UNCONSUMED_RESPONSES :: "front_ring \<Rightarrow> ('q, 'p) sring \<Rightarrow> u32" where
  "RING_HAS_UNCONSUMED_RESPONSES r s = rsp_prod s - rsp_cons r"

definition RING_HAS_UNCONSUMED_REQUESTS :: "back_ring \<Rightarrow> ('q, 'p) sring \<Rightarrow> u32" where
  "RING_HAS_UNCONSUMED_REQUESTS r s =
     (let req = req_prod s - req_cons r;
          rsp = b_nr_ents r - (req_cons r - rsp_prod_pvt r)
      in if req < rsp then req else rsp)"

definition ring_slot :: "u32 \<Rightarrow> ring_idx \<Rightarrow> nat" where
  "ring_slot nr idx = unat (idx AND (nr - 1))"

text \<open>
  \<open>RING_GET_REQUEST\<close> and \<open>RING_GET_RESPONSE\<close> are pointers into the page. Reading through one
  is \<open>None\<close> when the slot holds the other member of the union or lies beyond the page;
  \<open>ring_put\<close> is the store through such a pointer.
\<close>

definition RING_GET_REQUEST :: "u32 \<Rightarrow> ('q, 'p) sring \<Rightarrow> ring_idx \<Rightarrow> 'q option" where
  "RING_GET_REQUEST nr s idx =
     (if ring_slot nr idx < length (ring s)
      then (case ring s ! ring_slot nr idx of Req q \<Rightarrow> Some q | Rsp _ \<Rightarrow> None)
      else None)"

definition RING_GET_RESPONSE :: "u32 \<Rightarrow> ('q, 'p) sring \<Rightarrow> ring_idx \<Rightarrow> 'p option" where
  "RING_GET_RESPONSE nr s idx =
     (if ring_slot nr idx < length (ring s)
      then (case ring s ! ring_slot nr idx of Rsp p \<Rightarrow> Some p | Req _ \<Rightarrow> None)
      else None)"

definition ring_put :: "u32 \<Rightarrow> ring_idx \<Rightarrow> ('q, 'p) sring_entry \<Rightarrow> ('q, 'p) sring \<Rightarrow> ('q, 'p) sring" where
  "ring_put nr idx e s = s\<lparr>ring := (ring s)[ring_slot nr idx := e]\<rparr>"

definition RING_REQUEST_CONS_OVERFLOW :: "back_ring \<Rightarrow> ring_idx \<Rightarrow> bool" where
  "RING_REQUEST_CONS_OVERFLOW r c \<longleftrightarrow> c - rsp_prod_pvt r \<ge> b_nr_ents r"

definition RING_REQUEST_PROD_OVERFLOW :: "back_ring \<Rightarrow> ring_idx \<Rightarrow> bool" where
  "RING_REQUEST_PROD_OVERFLOW r p \<longleftrightarrow> p - rsp_prod_pvt r > b_nr_ents r"

section \<open>Publishing and notification\<close>

definition RING_PUSH_REQUESTS :: "front_ring \<Rightarrow> ('q, 'p) sring \<Rightarrow> ('q, 'p) sring" where
  "RING_PUSH_REQUESTS r s = s\<lparr>req_prod := req_prod_pvt r\<rparr>"

definition RING_PUSH_RESPONSES :: "back_ring \<Rightarrow> ('q, 'p) sring \<Rightarrow> ('q, 'p) sring" where
  "RING_PUSH_RESPONSES r s = s\<lparr>rsp_prod := rsp_prod_pvt r\<rparr>"

definition RING_PUSH_REQUESTS_AND_CHECK_NOTIFY ::
    "front_ring \<Rightarrow> ('q, 'p) sring \<Rightarrow> bool \<times> ('q, 'p) sring" where
  "RING_PUSH_REQUESTS_AND_CHECK_NOTIFY r s =
     (let old = req_prod s; new = req_prod_pvt r; s' = s\<lparr>req_prod := new\<rparr>
      in (new - req_event s' < new - old, s'))"

definition RING_PUSH_RESPONSES_AND_CHECK_NOTIFY ::
    "back_ring \<Rightarrow> ('q, 'p) sring \<Rightarrow> bool \<times> ('q, 'p) sring" where
  "RING_PUSH_RESPONSES_AND_CHECK_NOTIFY r s =
     (let old = rsp_prod s; new = rsp_prod_pvt r; s' = s\<lparr>rsp_prod := new\<rparr>
      in (new - rsp_event s' < new - old, s'))"

text \<open>
  The final checks re-read the producer index after arming the event; \<open>peer\<close> is what the
  other end does to the page between the two reads (\<open>id\<close> when it does nothing).
\<close>

definition RING_FINAL_CHECK_FOR_REQUESTS ::
    "(('q, 'p) sring \<Rightarrow> ('q, 'p) sring) \<Rightarrow> back_ring \<Rightarrow> ('q, 'p) sring \<Rightarrow> u32 \<times> ('q, 'p) sring" where
  "RING_FINAL_CHECK_FOR_REQUESTS peer r s =
     (let w = RING_HAS_UNCONSUMED_REQUESTS r s
      in if w \<noteq> 0 then (w, s)
         else let s' = peer (s\<lparr>req_event := req_cons r + 1\<rparr>)
              in (RING_HAS_UNCONSUMED_REQUESTS r s', s'))"

definition RING_FINAL_CHECK_FOR_RESPONSES ::
    "(('q, 'p) sring \<Rightarrow> ('q, 'p) sring) \<Rightarrow> front_ring \<Rightarrow> ('q, 'p) sring \<Rightarrow> u32 \<times> ('q, 'p) sring" where
  "RING_FINAL_CHECK_FOR_RESPONSES peer r s =
     (let w = RING_HAS_UNCONSUMED_RESPONSES r s
      in if w \<noteq> 0 then (w, s)
         else let s' = peer (s\<lparr>rsp_event := rsp_cons r + 1\<rparr>)
              in (RING_HAS_UNCONSUMED_RESPONSES r s', s'))"

section \<open>The size is the largest power of two that fits\<close>

definition pow2_floor :: "u32 \<Rightarrow> u32 \<Rightarrow> bool" where
  "pow2_floor y x \<longleftrightarrow> (\<exists>k<32. y = 2 ^ k \<and> 2 ^ k \<le> unat x \<and> unat x < 2 ^ Suc k)"

lemma push_drop_split:
  fixes x :: u32
  assumes "unat x < 2 ^ (2 * n)" and "n \<le> 16"
  shows "(x AND push_bit n (mask n) \<noteq> 0) \<longleftrightarrow> unat x \<ge> 2 ^ n"
proof -
  have "x AND push_bit n (mask n) = push_bit n (take_bit n (drop_bit n x))"
    by (rule bit_word_eqI) (auto simp: bit_simps)
  moreover have "unat (drop_bit n x) < 2 ^ n"
    using assms(1) by (simp add: less_mult_imp_div_less mult_2 power_add)
  then have "take_bit n (drop_bit n x) = drop_bit n x"
    by (metis take_bit_nat_eq_self unsigned_take_bit_eq word_unat_eq_iff)
  moreover have "(push_bit n (drop_bit n x) = 0) \<longleftrightarrow> unat x < 2 ^ n"
  proof -
    have "unat (push_bit n (drop_bit n x)) = unat x div 2 ^ n * 2 ^ n"
    proof -
      have "unat x div 2 ^ n * 2 ^ n \<le> unat x" by (simp add: div_times_less_eq_dividend)
      also have "\<dots> < 2 ^ 32" using unat_lt32 [of x] by simp
      finally have "unat x div 2 ^ n * 2 ^ n < 2 ^ 32" .
      then show ?thesis
        by (simp only: unsigned_push_bit_eq) (simp add: push_bit_eq_mult take_bit_nat_eq_self)
    qed
    then have "(push_bit n (drop_bit n x) = 0) \<longleftrightarrow> unat x div 2 ^ n = 0"
      by (metis mult_is_0 power_not_zero unat_0 word_unat_eq_iff zero_neq_numeral)
    then show ?thesis by (simp add: div_eq_0_iff)
  qed
  ultimately show ?thesis by (simp add: not_less)
qed

lemma pow2_floor_step:
  fixes x :: u32
  assumes "unat x < 2 ^ (2 * n)" and "n \<le> 16" and "x \<noteq> 0"
    and R: "\<And>z. unat z < 2 ^ n \<Longrightarrow> z \<noteq> 0 \<Longrightarrow> pow2_floor (R z) z"
  shows "pow2_floor (if x AND push_bit n (mask n) \<noteq> 0 then push_bit n (R (drop_bit n x)) else R x) x"
proof (cases "unat x \<ge> 2 ^ n")
  case True
  let ?h = "drop_bit n x"
  have h: "unat ?h = unat x div 2 ^ n"
    by simp
  have "unat ?h < 2 ^ n"
    using assms(1) by (simp add: h less_mult_imp_div_less mult_2 power_add)
  moreover have "?h \<noteq> 0"
    using True h by (metis div_eq_0_iff not_le power_not_zero unat_0 zero_neq_numeral)
  ultimately obtain k where k: "k < 32" "R ?h = 2 ^ k" "2 ^ k \<le> unat ?h" "unat ?h < 2 ^ Suc k"
    using R unfolding pow2_floor_def by blast
  have lo: "2 ^ (n + k) \<le> unat x"
    using k(3) by (simp add: h power_add less_eq_div_iff_mult_less_eq mult.commute)
  have hi: "unat x < 2 ^ Suc (n + k)"
    using k(4) by (simp add: h power_add div_less_iff_less_mult mult.commute mult.left_commute)
  have "(2::nat) ^ (n + k) < 2 ^ 32"
    using lo unat_lt32 [of x] by (simp add: order_le_less_trans)
  then have "n + k < 32" by (rule power_less_imp_less_exp [rotated]) simp
  moreover have "push_bit n (R ?h) = 2 ^ (n + k)"
    by (simp add: k(2) push_bit_eq_mult power_add mult.commute)
  ultimately show ?thesis
    using lo hi push_drop_split [OF assms(1,2)] True unfolding pow2_floor_def by auto
next
  case False
  then show ?thesis
    using push_drop_split [OF assms(1,2)] R [of x] assms(3) by simp
qed

text \<open>The four nested macros are the step at widths 2, 4, 8 and 16.\<close>

lemma RD2_floor: "unat x < 4 \<Longrightarrow> x \<noteq> 0 \<Longrightarrow> pow2_floor (RD2 x) x"
proof -
  assume "unat x < 4" and "x \<noteq> 0"
  then have "unat x = 1 \<or> unat x = 2 \<or> unat x = 3"
    by (metis One_nat_def less_Suc_eq numeral_2_eq_2 numeral_3_eq_3 numeral_eq_Suc pred_numeral_simps(2)
        less_one semiring_norm(26,27) unat_eq_0 not_less_eq less_nat_zero_code zero_less_Suc numeral_One)
  then have "x = 1 \<or> x = 2 \<or> x = 3" by (simp add: u32_eq_iff)
  then show ?thesis
    by (elim disjE) (auto simp: RD2_def pow2_floor_def intro: exI [of _ 0] exI [of _ 1])
qed

lemma RD4_floor: "unat x < 16 \<Longrightarrow> x \<noteq> 0 \<Longrightarrow> pow2_floor (RD4 x) x"
  using pow2_floor_step [of x 2 RD2] RD2_floor by (simp add: RD4_def mask_eq_decr_exp)

lemma RD8_floor: "unat x < 256 \<Longrightarrow> x \<noteq> 0 \<Longrightarrow> pow2_floor (RD8 x) x"
  using pow2_floor_step [of x 4 RD4] RD4_floor by (simp add: RD8_def mask_eq_decr_exp)

lemma RD16_floor: "unat x < 65536 \<Longrightarrow> x \<noteq> 0 \<Longrightarrow> pow2_floor (RD16 x) x"
  using pow2_floor_step [of x 8 RD8] RD8_floor by (simp add: RD16_def mask_eq_decr_exp)

lemma RD32_floor: "x \<noteq> 0 \<Longrightarrow> pow2_floor (RD32 x) x"
  using pow2_floor_step [of x 16 RD16] RD16_floor unat_lt32 [of x] by (simp add: RD32_def mask_eq_decr_exp)

section \<open>Both ends at work\<close>

text \<open>
  The front end queues requests while the ring is not full, publishes them and takes
  responses; the back end takes published requests, answers each request it has taken at
  most once, and publishes the answers. The four lists and the two published counts are
  ghosts that record what has gone through the ring since it was set up.
\<close>

record ('q, 'p) ring_sys =
  page :: "('q, 'p) sring"
  fr :: front_ring
  bk :: back_ring
  produced :: "'q list"
  pub_req :: nat
  consumed :: "'q list"
  answered :: "'p list"
  pub_rsp :: nat
  received :: "'p list"

definition ring_sys_init :: "u32 \<Rightarrow> u32 \<Rightarrow> ('q, 'p) sring \<Rightarrow> ('q, 'p) ring_sys" where
  "ring_sys_init esz sz raw =
     \<lparr>page = SHARED_RING_INIT raw, fr = FRONT_RING_INIT esz sz, bk = BACK_RING_INIT esz sz,
      produced = [], pub_req = 0, consumed = [], answered = [], pub_rsp = 0, received = []\<rparr>"

inductive ring_step :: "('q, 'p) ring_sys \<Rightarrow> ('q, 'p) ring_sys \<Rightarrow> bool" where
  front_queue:
    "\<not> RING_FULL (fr s) \<Longrightarrow>
     ring_step s (s\<lparr>page := ring_put (f_nr_ents (fr s)) (req_prod_pvt (fr s)) (Req q) (page s),
                    fr := (fr s)\<lparr>req_prod_pvt := req_prod_pvt (fr s) + 1\<rparr>,
                    produced := produced s @ [q]\<rparr>)"
| front_push:
    "RING_PUSH_REQUESTS_AND_CHECK_NOTIFY (fr s) (page s) = (n, pg) \<Longrightarrow>
     ring_step s (s\<lparr>page := pg, pub_req := length (produced s)\<rparr>)"
| back_take:
    "RING_HAS_UNCONSUMED_REQUESTS (bk s) (page s) \<noteq> 0 \<Longrightarrow>
     RING_GET_REQUEST (b_nr_ents (bk s)) (page s) (req_cons (bk s)) = Some q \<Longrightarrow>
     ring_step s (s\<lparr>bk := (bk s)\<lparr>req_cons := req_cons (bk s) + 1\<rparr>,
                    consumed := consumed s @ [q]\<rparr>)"
| back_answer:
    "rsp_prod_pvt (bk s) \<noteq> req_cons (bk s) \<Longrightarrow>
     ring_step s (s\<lparr>page := ring_put (b_nr_ents (bk s)) (rsp_prod_pvt (bk s)) (Rsp p) (page s),
                    bk := (bk s)\<lparr>rsp_prod_pvt := rsp_prod_pvt (bk s) + 1\<rparr>,
                    answered := answered s @ [p]\<rparr>)"
| back_push:
    "RING_PUSH_RESPONSES_AND_CHECK_NOTIFY (bk s) (page s) = (n, pg) \<Longrightarrow>
     ring_step s (s\<lparr>page := pg, pub_rsp := length (answered s)\<rparr>)"
| front_take:
    "RING_HAS_UNCONSUMED_RESPONSES (fr s) (page s) \<noteq> 0 \<Longrightarrow>
     RING_GET_RESPONSE (f_nr_ents (fr s)) (page s) (rsp_cons (fr s)) = Some p \<Longrightarrow>
     ring_step s (s\<lparr>fr := (fr s)\<lparr>rsp_cons := rsp_cons (fr s) + 1\<rparr>,
                    received := received s @ [p]\<rparr>)"
| front_sleep:
    "RING_FINAL_CHECK_FOR_RESPONSES id (fr s) (page s) = (w, pg) \<Longrightarrow>
     ring_step s (s\<lparr>page := pg\<rparr>)"
| back_sleep:
    "RING_FINAL_CHECK_FOR_REQUESTS id (bk s) (page s) = (w, pg) \<Longrightarrow>
     ring_step s (s\<lparr>page := pg\<rparr>)"

inductive ring_reach :: "('q, 'p) ring_sys \<Rightarrow> ('q, 'p) ring_sys \<Rightarrow> bool" for s0 where
  reach_init: "ring_reach s0 s0"
| reach_step: "ring_reach s0 s \<Longrightarrow> ring_step s t \<Longrightarrow> ring_reach s0 t"

definition ring_pos_inv :: "nat \<Rightarrow> ('q, 'p) ring_sys \<Rightarrow> bool" where
  "ring_pos_inv k s \<longleftrightarrow>
     k < 32 \<and> f_nr_ents (fr s) = 2 ^ k \<and> b_nr_ents (bk s) = 2 ^ k \<and> length (ring (page s)) = 2 ^ k \<and>
     req_prod_pvt (fr s) = of_nat (length (produced s)) \<and> req_prod (page s) = of_nat (pub_req s) \<and>
     req_cons (bk s) = of_nat (length (consumed s)) \<and>
     rsp_prod_pvt (bk s) = of_nat (length (answered s)) \<and> rsp_prod (page s) = of_nat (pub_rsp s) \<and>
     rsp_cons (fr s) = of_nat (length (received s)) \<and>
     length (received s) \<le> pub_rsp s \<and> pub_rsp s \<le> length (answered s) \<and>
     length (answered s) \<le> length (consumed s) \<and> length (consumed s) \<le> pub_req s \<and>
     pub_req s \<le> length (produced s) \<and> length (produced s) \<le> length (received s) + 2 ^ k"

definition ring_data_inv :: "nat \<Rightarrow> ('q, 'p) ring_sys \<Rightarrow> bool" where
  "ring_data_inv k s \<longleftrightarrow>
     (\<forall>i. length (consumed s) \<le> i \<and> i < length (produced s) \<longrightarrow>
        ring (page s) ! (i mod 2 ^ k) = Req (produced s ! i)) \<and>
     (\<forall>i. length (received s) \<le> i \<and> i < length (answered s) \<longrightarrow>
        ring (page s) ! (i mod 2 ^ k) = Rsp (answered s ! i)) \<and>
     consumed s = take (length (consumed s)) (produced s) \<and>
     received s = take (length (received s)) (answered s)"

definition ring_inv :: "nat \<Rightarrow> ('q, 'p) ring_sys \<Rightarrow> bool" where
  "ring_inv k s \<longleftrightarrow> ring_pos_inv k s \<and> ring_data_inv k s"

lemma ring_slot_pow2: "k < 32 \<Longrightarrow> ring_slot (2 ^ k) (of_nat i) = i mod 2 ^ k"
proof -
  assume "k < 32"
  then have "(2::nat) ^ k dvd 2 ^ 32" by (intro le_imp_power_dvd) simp
  then have "i mod 2 ^ 32 mod 2 ^ k = i mod 2 ^ k" by (rule mod_mod_cancel)
  then show ?thesis
    unfolding ring_slot_def mask_eq_exp_minus_1 [symmetric] unat_and_mask_mod
    by (simp add: unat_of_nat take_bit_eq_mod)
qed

lemma mod_window_neq:
  fixes i j n :: nat
  assumes "i < j" and "j < i + n"
  shows "i mod n \<noteq> j mod n"
proof
  assume "i mod n = j mod n"
  then have "n dvd j - i" using assms(1) by (metis less_imp_le_nat mod_eq_dvd_iff_nat)
  moreover have "0 < j - i" "j - i < n" using assms by auto
  ultimately show False by (auto dest: dvd_imp_le)
qed

lemma pow2_lt32: "k < 32 \<Longrightarrow> (2::nat) ^ k < 2 ^ 32"
  by (rule power_strict_increasing) auto

lemma ring_pos_bounds:
  assumes "ring_pos_inv k s"
  shows "length (produced s) - length (received s) < 2 ^ 32"
    and "(2::nat) ^ k < 2 ^ 32"
  using assms pow2_lt32 [of k] unfolding ring_pos_inv_def by auto

text \<open>What each occupancy macro computes, in terms of the ghost counts.\<close>

lemma pow2_word_nat: "(2 :: u32) ^ k = of_nat (2 ^ k)"
  by simp

lemma free_requests_count:
  assumes "ring_pos_inv k s"
  shows "unat (RING_FREE_REQUESTS (fr s)) = 2 ^ k - (length (produced s) - length (received s))"
proof -
  let ?P = "length (produced s)" and ?R = "length (received s)"
  have i: "?R \<le> ?P" "?P - ?R \<le> 2 ^ k" using assms unfolding ring_pos_inv_def by auto
  then have "(of_nat ?P :: u32) - of_nat ?R = of_nat (?P - ?R)" by simp
  then have "RING_FREE_REQUESTS (fr s) = of_nat (2 ^ k) - of_nat (?P - ?R)"
    using assms unfolding ring_pos_inv_def RING_FREE_REQUESTS_def by (simp only: pow2_word_nat)
  then show ?thesis
    using i ring_pos_bounds(2) [OF assms] by (simp only: unat_dist less_imp_diff_less)
qed

lemma unconsumed_responses_count:
  assumes "ring_pos_inv k s"
  shows "unat (RING_HAS_UNCONSUMED_RESPONSES (fr s) (page s)) = pub_rsp s - length (received s)"
proof -
  have "length (received s) \<le> pub_rsp s" "pub_rsp s - length (received s) < 2 ^ 32"
    using assms ring_pos_bounds [OF assms] unfolding ring_pos_inv_def by auto
  then show ?thesis
    using assms unfolding ring_pos_inv_def RING_HAS_UNCONSUMED_RESPONSES_def
    by (simp only: unat_dist)
qed

lemma unconsumed_requests_count:
  assumes "ring_pos_inv k s"
  shows "unat (RING_HAS_UNCONSUMED_REQUESTS (bk s) (page s)) = pub_req s - length (consumed s)"
proof -
  let ?A = "length (answered s)" and ?C = "length (consumed s)" and ?N = "pub_req s"
  have i: "?A \<le> ?C" "?C \<le> ?N" "?N \<le> ?A + 2 ^ k" using assms unfolding ring_pos_inv_def by auto
  note b = ring_pos_bounds(2) [OF assms]
  have req: "unat (req_prod (page s) - req_cons (bk s)) = ?N - ?C"
  proof -
    have "?N - ?C < 2 ^ 32" using i b by auto
    then show ?thesis using assms i unfolding ring_pos_inv_def by (simp only: unat_dist)
  qed
  have "req_cons (bk s) - rsp_prod_pvt (bk s) = of_nat (?C - ?A)"
    using assms i unfolding ring_pos_inv_def by simp
  then have rsp: "unat (b_nr_ents (bk s) - (req_cons (bk s) - rsp_prod_pvt (bk s))) = 2 ^ k - (?C - ?A)"
    using assms i b unfolding ring_pos_inv_def by (simp only: pow2_word_nat unat_dist less_imp_diff_less)
  show ?thesis
    unfolding RING_HAS_UNCONSUMED_REQUESTS_def Let_def
    using req rsp i by (auto simp: word_less_nat_alt)
qed

lemma get_request_next:
  assumes "ring_inv k s" and "length (consumed s) < pub_req s"
  shows "RING_GET_REQUEST (b_nr_ents (bk s)) (page s) (req_cons (bk s)) =
         Some (produced s ! length (consumed s))"
  using assms unfolding ring_inv_def ring_pos_inv_def ring_data_inv_def RING_GET_REQUEST_def
  by (auto simp: ring_slot_pow2)

lemma get_response_next:
  assumes "ring_inv k s" and "length (received s) < pub_rsp s"
  shows "RING_GET_RESPONSE (f_nr_ents (fr s)) (page s) (rsp_cons (fr s)) =
         Some (answered s ! length (received s))"
  using assms unfolding ring_inv_def ring_pos_inv_def ring_data_inv_def RING_GET_RESPONSE_def
  by (auto simp: ring_slot_pow2)

lemma ring_not_full_count:
  "ring_pos_inv k s \<Longrightarrow> \<not> RING_FULL (fr s) \<Longrightarrow>
     length (produced s) < length (received s) + 2 ^ k"
  using free_requests_count [of k s]
  unfolding RING_FULL_def ring_pos_inv_def by (auto simp: unat_eq_0 [symmetric])

section \<open>Every step keeps the ring consistent\<close>

lemma inv_front_queue:
  assumes inv: "ring_inv k s" and nf: "\<not> RING_FULL (fr s)"
  shows "ring_inv k (s\<lparr>page := ring_put (f_nr_ents (fr s)) (req_prod_pvt (fr s)) (Req q) (page s),
            fr := (fr s)\<lparr>req_prod_pvt := req_prod_pvt (fr s) + 1\<rparr>, produced := produced s @ [q]\<rparr>)"
proof -
  let ?P = "length (produced s)"
  have p: "ring_pos_inv k s" and d: "ring_data_inv k s" using inv by (auto simp: ring_inv_def)
  have room: "?P < length (received s) + 2 ^ k" by (rule ring_not_full_count [OF p nf])
  have old: "(ring (page s))[?P mod 2 ^ k := e] ! (i mod 2 ^ k) = ring (page s) ! (i mod 2 ^ k)"
    if "length (received s) \<le> i" "i < ?P" for i e
    using mod_window_neq [of i ?P "2 ^ k"] that room by (auto intro: nth_list_update_neq)
  have le: "length (received s) \<le> length (consumed s)" "length (answered s) \<le> ?P"
      "length (consumed s) \<le> ?P"
    using p unfolding ring_pos_inv_def by auto
  show ?thesis
    unfolding ring_inv_def
  proof
    show "ring_pos_inv k (s\<lparr>page := ring_put (f_nr_ents (fr s)) (req_prod_pvt (fr s)) (Req q) (page s),
            fr := (fr s)\<lparr>req_prod_pvt := req_prod_pvt (fr s) + 1\<rparr>, produced := produced s @ [q]\<rparr>)"
      using p room unfolding ring_pos_inv_def ring_put_def by (auto simp: add.commute)
    show "ring_data_inv k (s\<lparr>page := ring_put (f_nr_ents (fr s)) (req_prod_pvt (fr s)) (Req q) (page s),
            fr := (fr s)\<lparr>req_prod_pvt := req_prod_pvt (fr s) + 1\<rparr>, produced := produced s @ [q]\<rparr>)"
      using d p old le unfolding ring_data_inv_def ring_pos_inv_def
      by (auto simp: ring_put_def ring_slot_pow2 nth_append less_Suc_eq)
  qed
qed

lemma inv_back_answer:
  assumes inv: "ring_inv k s" and ne: "rsp_prod_pvt (bk s) \<noteq> req_cons (bk s)"
  shows "ring_inv k (s\<lparr>page := ring_put (b_nr_ents (bk s)) (rsp_prod_pvt (bk s)) (Rsp p) (page s),
            bk := (bk s)\<lparr>rsp_prod_pvt := rsp_prod_pvt (bk s) + 1\<rparr>, answered := answered s @ [p]\<rparr>)"
proof -
  let ?A = "length (answered s)"
  have p: "ring_pos_inv k s" and d: "ring_data_inv k s" using inv by (auto simp: ring_inv_def)
  have "?A \<noteq> length (consumed s)" using p ne unfolding ring_pos_inv_def by auto
  then have room: "?A < length (consumed s)" using p unfolding ring_pos_inv_def by auto
  have near: "length (produced s) \<le> length (received s) + 2 ^ k" "?A \<le> length (produced s)"
      "length (received s) \<le> ?A"
    using p unfolding ring_pos_inv_def by auto
  have old: "(ring (page s))[?A mod 2 ^ k := e] ! (i mod 2 ^ k) = ring (page s) ! (i mod 2 ^ k)"
    if "length (received s) \<le> i" "i < ?A" for i e
    using mod_window_neq [of i ?A "2 ^ k"] that near room p
    unfolding ring_pos_inv_def by (auto intro: nth_list_update_neq)
  have req: "(ring (page s))[?A mod 2 ^ k := e] ! (i mod 2 ^ k) = ring (page s) ! (i mod 2 ^ k)"
    if "length (consumed s) \<le> i" "i < length (produced s)" for i e
    using mod_window_neq [of ?A i "2 ^ k"] that near room by (auto intro: nth_list_update_neq)
  show ?thesis
    unfolding ring_inv_def
  proof
    show "ring_pos_inv k (s\<lparr>page := ring_put (b_nr_ents (bk s)) (rsp_prod_pvt (bk s)) (Rsp p) (page s),
            bk := (bk s)\<lparr>rsp_prod_pvt := rsp_prod_pvt (bk s) + 1\<rparr>, answered := answered s @ [p]\<rparr>)"
      using p room unfolding ring_pos_inv_def ring_put_def by (auto simp: add.commute)
    show "ring_data_inv k (s\<lparr>page := ring_put (b_nr_ents (bk s)) (rsp_prod_pvt (bk s)) (Rsp p) (page s),
            bk := (bk s)\<lparr>rsp_prod_pvt := rsp_prod_pvt (bk s) + 1\<rparr>, answered := answered s @ [p]\<rparr>)"
      using d p old req unfolding ring_data_inv_def ring_pos_inv_def
      by (auto simp: ring_put_def ring_slot_pow2 nth_append less_Suc_eq)
  qed
qed

lemma inv_back_take:
  assumes inv: "ring_inv k s"
    and has: "RING_HAS_UNCONSUMED_REQUESTS (bk s) (page s) \<noteq> 0"
    and q: "RING_GET_REQUEST (b_nr_ents (bk s)) (page s) (req_cons (bk s)) = Some q"
  shows "ring_inv k (s\<lparr>bk := (bk s)\<lparr>req_cons := req_cons (bk s) + 1\<rparr>, consumed := consumed s @ [q]\<rparr>)"
proof -
  have p: "ring_pos_inv k s" and d: "ring_data_inv k s" using inv by (auto simp: ring_inv_def)
  have lt: "length (consumed s) < pub_req s"
    using unconsumed_requests_count [OF p] has by (metis unat_eq_0 zero_less_diff gr0I)
  then have "q = produced s ! length (consumed s)"
    using get_request_next [OF inv] q by simp
  then show ?thesis
    using p d lt unfolding ring_inv_def ring_pos_inv_def ring_data_inv_def
    by (auto simp: add.commute take_Suc_conv_app_nth)
qed

lemma inv_front_take:
  assumes inv: "ring_inv k s"
    and has: "RING_HAS_UNCONSUMED_RESPONSES (fr s) (page s) \<noteq> 0"
    and q: "RING_GET_RESPONSE (f_nr_ents (fr s)) (page s) (rsp_cons (fr s)) = Some p"
  shows "ring_inv k (s\<lparr>fr := (fr s)\<lparr>rsp_cons := rsp_cons (fr s) + 1\<rparr>, received := received s @ [p]\<rparr>)"
proof -
  have p: "ring_pos_inv k s" and d: "ring_data_inv k s" using inv by (auto simp: ring_inv_def)
  have lt: "length (received s) < pub_rsp s"
    using unconsumed_responses_count [OF p] has by (metis unat_eq_0 zero_less_diff gr0I)
  then have "p = answered s ! length (received s)"
    using get_response_next [OF inv] q by simp
  then show ?thesis
    using p d lt unfolding ring_inv_def ring_pos_inv_def ring_data_inv_def
    by (auto simp: add.commute take_Suc_conv_app_nth)
qed

lemma ring_step_inv: "ring_step s t \<Longrightarrow> ring_inv k s \<Longrightarrow> ring_inv k t"
proof (induction rule: ring_step.induct)
  case (front_queue s q)
  then show ?case by (blast intro: inv_front_queue)
next
  case (front_push s n pg)
  then show ?case
    unfolding ring_inv_def ring_pos_inv_def ring_data_inv_def
      RING_PUSH_REQUESTS_AND_CHECK_NOTIFY_def Let_def by auto
next
  case (back_take s q)
  then show ?case by (blast intro: inv_back_take)
next
  case (back_answer s p)
  then show ?case by (blast intro: inv_back_answer)
next
  case (back_push s n pg)
  then show ?case
    unfolding ring_inv_def ring_pos_inv_def ring_data_inv_def
      RING_PUSH_RESPONSES_AND_CHECK_NOTIFY_def Let_def by auto
next
  case (front_take s p)
  then show ?case by (blast intro: inv_front_take)
next
  case (front_sleep s w pg)
  then show ?case
    unfolding ring_inv_def ring_pos_inv_def ring_data_inv_def
      RING_FINAL_CHECK_FOR_RESPONSES_def Let_def by (auto split: if_splits)
next
  case (back_sleep s w pg)
  then show ?case
    unfolding ring_inv_def ring_pos_inv_def ring_data_inv_def
      RING_FINAL_CHECK_FOR_REQUESTS_def Let_def by (auto split: if_splits)
qed

lemma ring_reach_inv: "ring_reach s0 s \<Longrightarrow> ring_inv k s0 \<Longrightarrow> ring_inv k s"
  by (induction rule: ring_reach.induct) (auto intro: ring_step_inv)

text \<open>A page that has been set up for the size both ends compute is consistent.\<close>

lemma ring_inv_init:
  assumes "(sz - sring_header) div esz \<noteq> 0"
    and "length (ring raw) = unat (RING_SIZE_of esz sz)"
  shows "\<exists>k. ring_inv k (ring_sys_init esz sz raw)"
proof -
  obtain k where k: "k < 32" "RING_SIZE_of esz sz = 2 ^ k"
    using RD32_floor [OF assms(1)] unfolding pow2_floor_def RING_SIZE_of_def by blast
  then have "length (ring raw) = 2 ^ k"
    using assms(2) by (simp only: pow2_word_nat unat_of_nat32 pow2_lt32)
  then have "ring_inv k (ring_sys_init esz sz raw)"
    using k by (auto simp: ring_inv_def ring_pos_inv_def ring_data_inv_def ring_sys_init_def
        SHARED_RING_INIT_def FRONT_RING_INIT_def BACK_RING_INIT_def)
  then show ?thesis ..
qed

section \<open>Properties\<close>

lemma word_pred_less: "(d :: u32) \<noteq> 0 \<Longrightarrow> d - 1 < d"
  by (metis diff_add_cancel measure_unat unat_eq_0 word_less_nat_alt)

lemma armed_event_notifies:
  "(new :: u32) \<noteq> old \<Longrightarrow> new - (old + 1) < new - old"
  using word_pred_less [of "new - old"] by (simp add: diff_diff_eq)

text \<open>
  C2: In every state a front and a back end can reach from a freshly initialised ring, the back
  end has taken a prefix of the requests in the order they were queued and the front end a
  prefix of the responses in order; whatever is published and not yet taken is read back
  intact; and the number of free slots is exactly the ring size less what is outstanding,
  although all four indices are 32-bit counters that wrap.
\<close>

theorem ring_fifo:
  assumes "ring_reach (ring_sys_init esz sz raw) s"
    and "(sz - sring_header) div esz \<noteq> 0"
    and "length (ring raw) = unat (RING_SIZE_of esz sz)"
  shows "consumed s = take (length (consumed s)) (produced s) \<and>
         received s = take (length (received s)) (answered s) \<and>
         (RING_HAS_UNCONSUMED_REQUESTS (bk s) (page s) \<noteq> 0 \<longrightarrow>
            RING_GET_REQUEST (b_nr_ents (bk s)) (page s) (req_cons (bk s)) =
              Some (produced s ! length (consumed s))) \<and>
         (RING_HAS_UNCONSUMED_RESPONSES (fr s) (page s) \<noteq> 0 \<longrightarrow>
            RING_GET_RESPONSE (f_nr_ents (fr s)) (page s) (rsp_cons (fr s)) =
              Some (answered s ! length (received s))) \<and>
         unat (RING_FREE_REQUESTS (fr s)) + (length (produced s) - length (received s)) =
           unat (f_nr_ents (fr s))"
proof -
  obtain k where inv: "ring_inv k s"
    using ring_inv_init [OF assms(2,3)] ring_reach_inv [OF assms(1)] by blast
  then have p: "ring_pos_inv k s" and d: "ring_data_inv k s" by (auto simp: ring_inv_def)
  have "RING_HAS_UNCONSUMED_REQUESTS (bk s) (page s) \<noteq> 0 \<Longrightarrow> length (consumed s) < pub_req s"
    using unconsumed_requests_count [OF p] by (metis unat_eq_0 zero_less_diff gr0I)
  moreover have "RING_HAS_UNCONSUMED_RESPONSES (fr s) (page s) \<noteq> 0 \<Longrightarrow> length (received s) < pub_rsp s"
    using unconsumed_responses_count [OF p] by (metis unat_eq_0 zero_less_diff gr0I)
  moreover have "unat (f_nr_ents (fr s)) = 2 ^ k" "length (produced s) - length (received s) \<le> 2 ^ k"
    using p ring_pos_bounds(2) [OF p] unfolding ring_pos_inv_def
    by (simp_all only: pow2_word_nat unat_of_nat32) auto
  ultimately show ?thesis
    using d free_requests_count [OF p] get_request_next [OF inv] get_response_next [OF inv]
    by (auto simp: ring_data_inv_def)
qed

definition ring_page32 :: "(nat, nat) sring" where
  "ring_page32 = \<lparr>req_prod = 7, req_event = 0, rsp_prod = 9, rsp_event = 0, pvt_pad = [],
     pad44 = [], ring = replicate 32 (Req 0)\<rparr>"

lemma ring_size_blkif: "RING_SIZE_of 112 4096 = 32"
  by (simp add: RING_SIZE_of_def sring_header_def RD32_def RD16_def RD8_def RD4_def RD2_def)

lemma ring_fifo_witness:
  "\<exists>s :: (nat, nat) ring_sys. ring_reach (ring_sys_init 112 4096 ring_page32) s \<and>
     produced s = [5] \<and> consumed s = take (length (consumed s)) (produced s)"
proof -
  let ?i = "ring_sys_init 112 4096 ring_page32"
  let ?s = "?i\<lparr>page := ring_put (f_nr_ents (fr ?i)) (req_prod_pvt (fr ?i)) (Req 5) (page ?i),
      fr := (fr ?i)\<lparr>req_prod_pvt := req_prod_pvt (fr ?i) + 1\<rparr>, produced := produced ?i @ [5]\<rparr>"
  have "\<not> RING_FULL (fr ?i)"
    by (simp add: ring_sys_init_def FRONT_RING_INIT_def RING_FULL_def RING_FREE_REQUESTS_def ring_size_blkif)
  then have r: "ring_reach ?i ?s" by (intro reach_step [OF reach_init] front_queue)
  have "(4096 - sring_header) div 112 \<noteq> 0" by (simp add: sring_header_def)
  moreover have "length (ring ring_page32) = unat (RING_SIZE_of 112 4096)"
    by (simp add: ring_page32_def ring_size_blkif)
  ultimately have "consumed ?s = take (length (consumed ?s)) (produced ?s)"
    using ring_fifo [OF r] by blast
  then show ?thesis using r by (intro exI [of _ ?s]) (simp add: ring_sys_init_def)
qed

text \<open>
  A ring gets as many slots as fit into the shared area, rounded down to a power of two:
  that many slots and the header fit, and twice as many do not.
\<close>

theorem ring_size_largest:
  assumes "unat sring_header + unat esz \<le> unat sz" and "esz \<noteq> 0"
  shows "\<exists>k. RING_SIZE_of esz sz = 2 ^ k \<and>
             unat sring_header + 2 ^ k * unat esz \<le> unat sz \<and>
             unat sz < unat sring_header + 2 ^ Suc k * unat esz"
proof -
  let ?n = "(sz - sring_header) div esz"
  have "sring_header \<le> sz" using assms(1) by (simp add: word_le_nat_alt)
  then have n: "unat ?n = (unat sz - unat sring_header) div unat esz"
    by (simp add: unat_div_distrib unat_sub)
  have pos: "0 < unat esz" using assms(2) by (simp add: unat_gt_0)
  have "1 \<le> unat ?n"
    using assms(1) pos by (simp add: n less_eq_div_iff_mult_less_eq)
  then have "?n \<noteq> 0" by (metis not_one_le_zero unat_0)
  then obtain k where k: "RING_SIZE_of esz sz = 2 ^ k" "2 ^ k \<le> unat ?n" "unat ?n < 2 ^ Suc k"
    using RD32_floor unfolding pow2_floor_def RING_SIZE_of_def by blast
  have "2 ^ k * unat esz \<le> unat sz - unat sring_header"
    using k(2) pos by (simp only: n less_eq_div_iff_mult_less_eq)
  moreover have "unat sz - unat sring_header < 2 ^ Suc k * unat esz"
    using k(3) pos by (simp only: n div_less_iff_less_mult)
  ultimately show ?thesis using k(1) assms(1) by (intro exI [of _ k]) auto
qed

lemma ring_size_largest_witness:
  "RING_SIZE_of 112 4096 = 32 \<and> (\<exists>k. RING_SIZE_of 112 4096 = 2 ^ k)"
proof -
  have "\<exists>k. RING_SIZE_of 112 4096 = 2 ^ k \<and> unat sring_header + 2 ^ k * unat (112::u32) \<le> unat (4096::u32) \<and>
      unat (4096::u32) < unat sring_header + 2 ^ Suc k * unat (112::u32)"
    by (rule ring_size_largest) (simp_all add: sring_header_def)
  then show ?thesis using ring_size_blkif by blast
qed



end
