(* ===== verification/Xs_Ring.thy ===== *)
theory Xs_Ring
  imports Xen_Prelude
begin

text \<open>
  The byte rings to the store daemon, \<^verbatim>\<open>xen-platform-pci/xenbus_comms.c\<close>: the shared page
  \<open>xenstore_domain_interface\<close>, the chunk computations, \<open>xb_write\<close>, \<open>xb_read\<close> and
  \<open>xb_init_comms\<close>. The daemon runs concurrently: a call takes the schedule of what the daemon
  does and of the signals that arrive while it waits.
\<close>

section \<open>The shared page\<close>

definition XENSTORE_RING_SIZE :: u32 where
  "XENSTORE_RING_SIZE = 1024"

definition MASK_XENSTORE_IDX :: "u32 \<Rightarrow> u32" where
  "MASK_XENSTORE_IDX idx = idx AND (XENSTORE_RING_SIZE - 1)"

text \<open>
  The first six fields are the shared page. \<open>evtchn_sent\<close> counts the notifications sent on
  \<open>xen_store_evtchn\<close>; \<open>drained\<close> and \<open>supplied\<close> are ghosts, the bytes the daemon has taken
  off the request ring and the bytes it has put on the response ring.
\<close>

record xs_intf =
  req :: "u8 list"
  rsp :: "u8 list"
  xs_req_cons :: u32
  xs_req_prod :: u32
  xs_rsp_cons :: u32
  xs_rsp_prod :: u32
  evtchn_sent :: nat
  drained :: "u8 list"
  supplied :: "u8 list"

definition check_indexes :: "u32 \<Rightarrow> u32 \<Rightarrow> bool" where
  "check_indexes cons prd \<longleftrightarrow> prd - cons \<le> XENSTORE_RING_SIZE"

text \<open>The offset of the chunk in the ring, and its length.\<close>

definition get_output_chunk :: "u32 \<Rightarrow> u32 \<Rightarrow> nat \<times> u32" where
  "get_output_chunk cons prd =
     (let len = XENSTORE_RING_SIZE - MASK_XENSTORE_IDX prd;
          len = (if XENSTORE_RING_SIZE - (prd - cons) < len
                 then XENSTORE_RING_SIZE - (prd - cons) else len)
      in (unat (MASK_XENSTORE_IDX prd), len))"

definition get_input_chunk :: "u32 \<Rightarrow> u32 \<Rightarrow> nat \<times> u32" where
  "get_input_chunk cons prd =
     (let len = XENSTORE_RING_SIZE - MASK_XENSTORE_IDX cons;
          len = (if prd - cons < len then prd - cons else len)
      in (unat (MASK_XENSTORE_IDX cons), len))"

section \<open>Waiting\<close>

text \<open>
  While a caller sleeps, the daemon may act on the page (\<open>Peer\<close>) or a signal may arrive. A
  caller whose schedule runs out while its condition is false sleeps for good.
\<close>

datatype xb_event = Peer "xs_intf \<Rightarrow> xs_intf" | Signal

datatype xb_wait_result = Ready xs_intf "xb_event list" | Interrupted xs_intf "xb_event list" | Asleep

fun wait_event_interruptible :: "(xs_intf \<Rightarrow> bool) \<Rightarrow> xb_event list \<Rightarrow> xs_intf \<Rightarrow> xb_wait_result" where
  "wait_event_interruptible c [] s = (if c s then Ready s [] else Asleep)"
| "wait_event_interruptible c (Signal # es) s = (if c s then Ready s (Signal # es) else Interrupted s es)"
| "wait_event_interruptible c (Peer f # es) s =
     (if c s then Ready s (Peer f # es) else wait_event_interruptible c es (f s))"

text \<open>The daemon may also act between the wake-up and the reading of the indices.\<close>

fun xb_race :: "xb_event list \<Rightarrow> xs_intf \<Rightarrow> xs_intf \<times> xb_event list" where
  "xb_race (Peer f # es) s = (f s, es)"
| "xb_race es s = (s, es)"

definition notify_store :: "xs_intf \<Rightarrow> xs_intf" where
  "notify_store s = s\<lparr>evtchn_sent := evtchn_sent s + 1\<rparr>"

definition blit :: "nat \<Rightarrow> 'a list \<Rightarrow> 'a list \<Rightarrow> 'a list" where
  "blit off bs xs = take off xs @ bs @ drop (off + length bs) xs"

section \<open>Writing\<close>

datatype 'a xb_result = Done int 'a xs_intf "xb_event list" | Blocked

definition xb_write_ready :: "xs_intf \<Rightarrow> bool" where
  "xb_write_ready s \<longleftrightarrow> xs_req_prod s - xs_req_cons s \<noteq> XENSTORE_RING_SIZE"

definition xb_write_chunk :: "nat \<Rightarrow> u8 list \<Rightarrow> xs_intf \<Rightarrow> xs_intf" where
  "xb_write_chunk off bs s =
     notify_store (s\<lparr>req := blit off bs (req s),
                     xs_req_prod := xs_req_prod s + of_nat (length bs)\<rparr>)"

lemma wait_Ready_cond: "wait_event_interruptible c es s = Ready t es' \<Longrightarrow> c t"
  by (induction c es s rule: wait_event_interruptible.induct) (auto split: if_splits)

lemma wait_Ready_len: "wait_event_interruptible c es s = Ready t es' \<Longrightarrow> length es' \<le> length es"
  by (induction c es s rule: wait_event_interruptible.induct) (auto split: if_splits)

lemma race_len: "xb_race es s = (t, es') \<Longrightarrow> length es' \<le> length es"
  by (cases "(es, s)" rule: xb_race.cases) auto

lemma race_same_len: "xb_race es s = (t, es') \<Longrightarrow> length es \<le> length es' \<Longrightarrow> t = s"
  by (cases "(es, s)" rule: xb_race.cases) auto

lemma unat_mask_idx: "unat (MASK_XENSTORE_IDX i) = unat i mod 1024"
proof -
  have "XENSTORE_RING_SIZE - 1 = mask 10"
    by (simp add: XENSTORE_RING_SIZE_def mask_eq_decr_exp)
  then show ?thesis
    unfolding MASK_XENSTORE_IDX_def by (simp only: unat_and_mask_mod) simp
qed

lemma mask_idx_small: "MASK_XENSTORE_IDX i < 1024"
  by (simp add: word_less_nat_alt unat_mask_idx)

lemma ring_minus_unat: "(x :: u32) \<le> 1024 \<Longrightarrow> unat (XENSTORE_RING_SIZE - x) = 1024 - unat x"
  by (simp add: XENSTORE_RING_SIZE_def unat_sub)

lemma output_chunk_len:
  assumes "check_indexes c p"
  shows "unat (snd (get_output_chunk c p)) = min (1024 - unat p mod 1024) (1024 - unat (p - c))"
proof -
  have a: "unat (XENSTORE_RING_SIZE - MASK_XENSTORE_IDX p) = 1024 - unat p mod 1024"
    using mask_idx_small [of p] by (simp add: ring_minus_unat unat_mask_idx less_imp_le)
  have b: "unat (XENSTORE_RING_SIZE - (p - c)) = 1024 - unat (p - c)"
    using assms by (intro ring_minus_unat) (simp add: check_indexes_def XENSTORE_RING_SIZE_def)
  show ?thesis
    unfolding get_output_chunk_def Let_def by (auto simp: word_less_nat_alt a b)
qed

lemma input_chunk_len:
  "unat (snd (get_input_chunk c p)) = min (1024 - unat c mod 1024) (unat (p - c))"
proof -
  have a: "unat (XENSTORE_RING_SIZE - MASK_XENSTORE_IDX c) = 1024 - unat c mod 1024"
    using mask_idx_small [of c] by (simp add: ring_minus_unat unat_mask_idx less_imp_le)
  show ?thesis
    unfolding get_input_chunk_def Let_def by (auto simp: word_less_nat_alt a)
qed

lemma output_chunk_pos:
  "check_indexes c p \<Longrightarrow> p - c \<noteq> XENSTORE_RING_SIZE \<Longrightarrow> snd (get_output_chunk c p) \<noteq> 0"
proof
  assume ok: "check_indexes c p" and ne: "p - c \<noteq> XENSTORE_RING_SIZE" and z: "snd (get_output_chunk c p) = 0"
  then have "unat (p - c) < 1024"
    by (auto simp: check_indexes_def XENSTORE_RING_SIZE_def word_le_nat_alt u32_eq_iff)
  then show False using output_chunk_len [OF ok] z by (auto simp: min_def split: if_splits)
qed

function xb_write :: "xb_event list \<Rightarrow> u8 list \<Rightarrow> xs_intf \<Rightarrow> unit xb_result" where
  "xb_write es data s =
     (if data = [] then Done 0 () s es
      else (case wait_event_interruptible xb_write_ready es s of
              Asleep \<Rightarrow> Blocked
            | Interrupted t es1 \<Rightarrow> Done (- ERESTARTSYS) () t es1
            | Ready s1 es1 \<Rightarrow>
                let (t, es2) = xb_race es1 s1;
                    cons = xs_req_cons t; prd = xs_req_prod t
                in if \<not> check_indexes cons prd
                   then Done (- EIO) () (t\<lparr>xs_req_cons := 0, xs_req_prod := 0\<rparr>) es2
                   else let (off, avail) = get_output_chunk cons prd
                        in if avail = 0 then xb_write es2 data t
                           else let n = min (unat avail) (length data)
                                in xb_write es2 (drop n data) (xb_write_chunk off (take n data) t)))"
  by pat_completeness auto
termination
proof (relation "measure (\<lambda>(es, data, s). length es + length data)", goal_cases)
  case 1
  then show ?case by simp
next
  case (2 es data s s1 es1 x t es2 cons prd y off avail)
  then have es: "length es1 \<le> length es" "length es2 \<le> length es1"
    using wait_Ready_len race_len by (metis, metis)
  have "length es2 < length es1"
  proof (rule ccontr)
    assume "\<not> length es2 < length es1"
    then have "t = s1" using 2(3,4) race_same_len by (metis not_less)
    then have "xb_write_ready t" using 2(2) wait_Ready_cond by blast
    then have "snd (get_output_chunk cons prd) \<noteq> 0"
      using 2 by (intro output_chunk_pos) (auto simp: xb_write_ready_def)
    then show False using 2(8,9,10) by (metis snd_conv)
  qed
  then show ?case using es by simp
next
  case (3 es data s s1 es1 x t es2 cons prd y off avail n)
  then have "length es1 \<le> length es" "length es2 \<le> length es1"
    using wait_Ready_len race_len by (metis, metis)
  moreover have "0 < n" using 3 by (simp add: unat_gt_0)
  moreover have "data \<noteq> []" using 3 by simp
  ultimately show ?case by (cases data) auto
qed

declare xb_write.simps [simp del]

lemma xb_write_Nil [simp]: "xb_write es [] s = Done 0 () s es"
  by (simp add: xb_write.simps)

section \<open>Reading\<close>

definition xb_data_to_read :: "xs_intf \<Rightarrow> bool" where
  "xb_data_to_read s \<longleftrightarrow> xs_rsp_cons s \<noteq> xs_rsp_prod s"

definition xb_wait_for_data_to_read :: "xb_event list \<Rightarrow> xs_intf \<Rightarrow> xb_wait_result" where
  "xb_wait_for_data_to_read es s = wait_event_interruptible xb_data_to_read es s"

definition xb_read_chunk :: "nat \<Rightarrow> xs_intf \<Rightarrow> xs_intf" where
  "xb_read_chunk n s = notify_store (s\<lparr>xs_rsp_cons := xs_rsp_cons s + of_nat n\<rparr>)"

lemma input_chunk_pos: "c \<noteq> p \<Longrightarrow> snd (get_input_chunk c p) \<noteq> 0"
proof
  assume ne: "c \<noteq> p" and z: "snd (get_input_chunk c p) = 0"
  have "unat (p - c) \<noteq> 0" using ne by (simp add: unat_eq_0)
  then show False using input_chunk_len [of c p] z by (auto simp: min_def split: if_splits)
qed

text \<open>
  \<open>acc\<close> is what has been copied into the caller's buffer, \<open>len\<close> what is still to come. A
  call that fails leaves the bytes copied before the failure in the buffer.
\<close>

function xb_read :: "xb_event list \<Rightarrow> nat \<Rightarrow> u8 list \<Rightarrow> xs_intf \<Rightarrow> u8 list xb_result" where
  "xb_read es len acc s =
     (if len = 0 then Done 0 acc s es
      else (case xb_wait_for_data_to_read es s of
              Asleep \<Rightarrow> Blocked
            | Interrupted t es1 \<Rightarrow> Done (- ERESTARTSYS) acc t es1
            | Ready s1 es1 \<Rightarrow>
                let (t, es2) = xb_race es1 s1;
                    cons = xs_rsp_cons t; prd = xs_rsp_prod t
                in if \<not> check_indexes cons prd
                   then Done (- EIO) acc (t\<lparr>xs_rsp_cons := 0, xs_rsp_prod := 0\<rparr>) es2
                   else let (off, avail) = get_input_chunk cons prd
                        in if avail = 0 then xb_read es2 len acc t
                           else let n = min (unat avail) len
                                in xb_read es2 (len - n) (acc @ take n (drop off (rsp t)))
                                     (xb_read_chunk n t)))"
  by pat_completeness auto
termination
proof (relation "measure (\<lambda>(es, len, acc, s). length es + len)", goal_cases)
  case 1
  then show ?case by simp
next
  case (2 es len acc s s1 es1 x t es2 cons prd y off avail)
  then have w: "wait_event_interruptible xb_data_to_read es s = Ready s1 es1"
    by (simp add: xb_wait_for_data_to_read_def)
  then have es: "length es1 \<le> length es" "length es2 \<le> length es1"
    using 2 wait_Ready_len race_len by (metis, metis)
  have "length es2 < length es1"
  proof (rule ccontr)
    assume "\<not> length es2 < length es1"
    then have "t = s1" using 2(3,4) race_same_len by (metis not_less)
    then have "xb_data_to_read t" using w wait_Ready_cond by blast
    then have "snd (get_input_chunk cons prd) \<noteq> 0"
      using 2 by (intro input_chunk_pos) (auto simp: xb_data_to_read_def)
    then show False using 2(8,9,10) by (metis snd_conv)
  qed
  then show ?case using es by simp
next
  case (3 es len acc s s1 es1 x t es2 cons prd y off avail n)
  then have "wait_event_interruptible xb_data_to_read es s = Ready s1 es1"
    by (simp add: xb_wait_for_data_to_read_def)
  then have "length es1 \<le> length es" "length es2 \<le> length es1"
    using 3 wait_Ready_len race_len by (metis, metis)
  moreover have "0 < n" using 3 by (simp add: unat_gt_0)
  ultimately show ?case using 3(1) by simp
qed

declare xb_read.simps [simp del]

lemma xb_read_0 [simp]: "xb_read es 0 acc s = Done 0 acc s es"
  by (simp add: xb_read.simps)

section \<open>Setting the channel up\<close>

text \<open>
  \<open>bind\<close> is the result of \<open>bind_caller_port_to_irqhandler\<close> on the store's event channel. The
  result is the return value, the page, the new \<open>xenbus_irq\<close> and the interrupt that was
  unbound, if any.
\<close>

definition xb_init_comms :: "bool \<Rightarrow> int \<Rightarrow> xs_intf \<Rightarrow> int \<Rightarrow> int \<times> xs_intf \<times> int \<times> int option" where
  "xb_init_comms reset_devices bind s irq =
     (let s = (if xs_rsp_prod s \<noteq> xs_rsp_cons s \<and> \<not> reset_devices
               then s\<lparr>xs_rsp_cons := xs_rsp_prod s\<rparr> else s);
          unbound = (if irq \<noteq> 0 then Some irq else None)
      in if bind \<le> 0 then (bind, s, irq, unbound) else (0, s, bind, unbound))"

section \<open>The bytes in a ring\<close>

text \<open>What lies between the indices, oldest first.\<close>

definition ring_bytes :: "u8 list \<Rightarrow> u32 \<Rightarrow> u32 \<Rightarrow> u8 list" where
  "ring_bytes r c p = map (\<lambda>i. r ! ((unat c + i) mod 1024)) [0..<unat (p - c)]"

lemma length_ring_bytes [simp]: "length (ring_bytes r c p) = unat (p - c)"
  by (simp add: ring_bytes_def)

lemma nth_ring_bytes [simp]: "i < unat (p - c) \<Longrightarrow> ring_bytes r c p ! i = r ! ((unat c + i) mod 1024)"
  by (simp add: ring_bytes_def)

lemma unat_plus_mod: "unat ((c :: u32) + d) mod 1024 = (unat c + unat d) mod 1024"
proof -
  have "(1024::nat) dvd 2 ^ 32" by simp
  then show ?thesis by (simp add: unat_word_ariths mod_mod_cancel)
qed

lemma unat_plus_of_nat_mod: "(unat ((c :: u32) + of_nat n) + i) mod 1024 = (unat c + n + i) mod 1024"
proof -
  have n: "unat (of_nat n :: u32) mod 1024 = n mod 1024"
    by (simp add: unat_of_nat take_bit_eq_mod mod_mod_cancel)
  have "unat (c + of_nat n) mod 1024 = (unat c + unat (of_nat n :: u32)) mod 1024"
    by (rule unat_plus_mod)
  also have "\<dots> = (unat c + n) mod 1024" by (rule mod_add_cong [OF refl n])
  finally have "(unat (c + of_nat n) + i) mod 1024 = ((unat c + n) + i) mod 1024"
    by (rule mod_add_cong [OF _ refl])
  then show ?thesis by simp
qed

lemma unat_grow:
  assumes "unat ((p :: u32) - c) + n < 2 ^ 32"
  shows "unat (p + of_nat n - c) = unat (p - c) + n"
proof -
  define d where "d = p - c"
  have e: "p + of_nat n - c = d + of_nat n" by (simp add: d_def)
  have "unat (d + of_nat n) = unat d + n"
    using assms by (simp add: unat_word_ariths(1) d_def [symmetric])
  then show ?thesis by (simp only: e d_def [symmetric])
qed

lemma unat_shrink:
  assumes "n \<le> unat ((p :: u32) - c)"
  shows "unat (p - (c + of_nat n)) = unat (p - c) - n"
proof -
  have n: "n < 2 ^ 32" using assms unat_lt32 [of "p - c"] by simp
  define d where "d = p - c"
  have e: "p - (c + of_nat n) = d - of_nat n" by (simp add: d_def)
  have "unat (d - of_nat n) = unat d - n"
    using assms n by (subst unat_sub) (simp_all add: word_le_nat_alt d_def [symmetric])
  then show ?thesis by (simp only: e d_def [symmetric])
qed

lemma length_blit [simp]: "off + length bs \<le> length xs \<Longrightarrow> length (blit off bs xs) = length xs"
  by (simp add: blit_def)

lemma nth_blit:
  "off + length bs \<le> length xs \<Longrightarrow> i < length xs \<Longrightarrow>
   blit off bs xs ! i = (if off \<le> i \<and> i < off + length bs then bs ! (i - off) else xs ! i)"
  by (auto simp: blit_def nth_append min_def)

lemma mod_window_neq':
  fixes d o' :: nat
  assumes "0 < d" "d < 1024" "o' < 1024"
  shows "(o' + d) mod 1024 \<noteq> o'"
  using assms by (cases "o' + d < 1024") (auto simp: mod_if)

text \<open>A chunk within the free space at the producer appends to the bytes in the ring.\<close>

lemma mod_window_nat:
  fixes i n N :: nat
  assumes "i < n" "n \<le> N" "b mod N + n \<le> N"
  shows "(b + i) mod N = b mod N + i"
  using assms by (metis add.commute add_less_le_mono le_add2 less_le_trans mod_add_left_eq mod_less
      nat_add_left_cancel_less)

lemma ring_bytes_append:
  assumes r: "length r = 1024"
    and used: "unat (p - c) + length bs \<le> 1024"
    and fit: "unat p mod 1024 + length bs \<le> 1024"
  shows "ring_bytes (blit (unat p mod 1024) bs r) c (p + of_nat (length bs)) = ring_bytes r c p @ bs"
proof (rule nth_equalityI)
  let ?n = "length bs" and ?o = "unat p mod 1024"
  have len: "unat (p + of_nat ?n - c) = unat (p - c) + ?n"
    by (rule unat_grow) (use used in auto)
  show "length (ring_bytes (blit ?o bs r) c (p + of_nat ?n)) = length (ring_bytes r c p @ bs)"
    by (simp add: len)
  have pc: "(unat c + unat (p - c) + j) mod 1024 = (unat p + j) mod 1024" for j
  proof -
    have "(unat c + unat (p - c)) mod 1024 = unat p mod 1024"
      using unat_plus_mod [of c "p - c"] by simp
    then show ?thesis by (rule mod_add_cong [OF _ refl])
  qed
  fix i
  assume "i < length (ring_bytes (blit ?o bs r) c (p + of_nat ?n))"
  then have i: "i < unat (p - c) + ?n" by (simp add: len)
  then have l: "ring_bytes (blit ?o bs r) c (p + of_nat ?n) ! i = blit ?o bs r ! ((unat c + i) mod 1024)"
    by (simp add: len)
  show "ring_bytes (blit ?o bs r) c (p + of_nat ?n) ! i = (ring_bytes r c p @ bs) ! i"
  proof (cases "i < unat (p - c)")
    case True
    define k where "k = unat (p - c) - i"
    have k: "0 < k" "k + ?n \<le> 1024" using True used by (auto simp: k_def)
    have shift: "(unat c + i + (k + j)) mod 1024 = (unat p + j) mod 1024" for j
      using pc [of j] True by (simp add: k_def add.assoc)
    have ne: "(unat c + i) mod 1024 \<noteq> ?o + j" if "j < ?n" for j
    proof
      assume e: "(unat c + i) mod 1024 = ?o + j"
      have "(unat p + 0) mod 1024 = ((unat c + i) + (k + 0)) mod 1024"
        by (rule shift [symmetric])
      also have "\<dots> = ((unat c + i) mod 1024 + k) mod 1024" by (simp add: mod_add_left_eq)
      also have "\<dots> = (?o + (j + k)) mod 1024" by (simp only: e add.assoc)
      finally have "(?o + (j + k)) mod 1024 = ?o" by simp
      moreover have "0 < j + k" "j + k < 1024" using k that by auto
      ultimately show False
        using mod_window_neq' [of "j + k" ?o] by simp
    qed
    have "blit ?o bs r ! ((unat c + i) mod 1024) = r ! ((unat c + i) mod 1024)"
    proof -
      let ?x = "(unat c + i) mod 1024"
      have "\<not> (?o \<le> ?x \<and> ?x < ?o + ?n)"
        using ne [of "?x - ?o"] by linarith
      then show ?thesis using r fit by (auto simp: nth_blit)
    qed
    then show ?thesis using True l by (simp add: nth_append)
  next
    case False
    define j where "j = i - unat (p - c)"
    have j: "j < ?n" "i = unat (p - c) + j" using False i by (auto simp: j_def)
    have "(unat c + i) mod 1024 = ?o + j"
      using pc [of j] j fit mod_window_nat [of j ?n 1024 "unat p"] by (simp add: add.assoc)
    then show ?thesis using False l j r fit by (simp add: nth_append nth_blit)
  qed
qed

lemma ring_bytes_drop:
  "n \<le> unat (p - c) \<Longrightarrow> ring_bytes r (c + of_nat n) p = drop n (ring_bytes r c p)"
  by (rule nth_equalityI) (simp_all add: unat_shrink unat_plus_of_nat_mod add.assoc)

lemma ring_bytes_take:
  assumes "length r = 1024" and "n \<le> unat (p - c)" and "unat c mod 1024 + n \<le> 1024"
  shows "take n (drop (unat c mod 1024) r) = take n (ring_bytes r c p)"
  using assms by (intro nth_equalityI) (auto simp: mod_window_nat [of _ n 1024 "unat c"])

section \<open>A daemon that keeps to the protocol\<close>

abbreviation out_bytes :: "xs_intf \<Rightarrow> u8 list" where
  "out_bytes s \<equiv> ring_bytes (req s) (xs_req_cons s) (xs_req_prod s)"

abbreviation in_bytes :: "xs_intf \<Rightarrow> u8 list" where
  "in_bytes s \<equiv> ring_bytes (rsp s) (xs_rsp_cons s) (xs_rsp_prod s)"

text \<open>
  The daemon takes at most what is in the request ring, and puts a chunk into the free space
  of the response ring at its producer index.
\<close>

definition peer_take :: "nat \<Rightarrow> xs_intf \<Rightarrow> xs_intf" where
  "peer_take n s =
     (let k = min n (length (out_bytes s))
      in s\<lparr>xs_req_cons := xs_req_cons s + of_nat k, drained := drained s @ take k (out_bytes s)\<rparr>)"

definition peer_put :: "u8 list \<Rightarrow> xs_intf \<Rightarrow> xs_intf" where
  "peer_put bs s =
     (let o' = unat (xs_rsp_prod s) mod 1024;
          k = min (1024 - o') (1024 - length (in_bytes s)); cs = take k bs
      in s\<lparr>rsp := blit o' cs (rsp s), xs_rsp_prod := xs_rsp_prod s + of_nat (length cs),
           supplied := supplied s @ cs\<rparr>)"

fun polite :: "xb_event \<Rightarrow> bool" where
  "polite Signal \<longleftrightarrow> True"
| "polite (Peer f) \<longleftrightarrow> (\<exists>n. f = peer_take n) \<or> (\<exists>bs. f = peer_put bs)"

definition xs_wf :: "xs_intf \<Rightarrow> bool" where
  "xs_wf s \<longleftrightarrow> length (req s) = 1024 \<and> length (rsp s) = 1024 \<and>
     length (out_bytes s) \<le> 1024 \<and> length (in_bytes s) \<le> 1024"

text \<open>Everything ever written, and the relation between a reader's bytes and what was put.\<close>

definition out_stream :: "xs_intf \<Rightarrow> u8 list" where
  "out_stream s = drained s @ out_bytes s"

definition in_moved :: "u8 list \<Rightarrow> xs_intf \<Rightarrow> u8 list \<Rightarrow> xs_intf \<Rightarrow> bool" where
  "in_moved acc s acc' s' \<longleftrightarrow>
     (\<exists>new. supplied s' = supplied s @ new \<and> acc' @ in_bytes s' = acc @ in_bytes s @ new)"

lemma in_moved_refl [simp]: "in_moved acc s acc s"
  by (simp add: in_moved_def)

lemma in_moved_trans: "in_moved a s b t \<Longrightarrow> in_moved b t c u \<Longrightarrow> in_moved a s c u"
  unfolding in_moved_def by (metis append_assoc)

definition peer_kept :: "xs_intf \<Rightarrow> xs_intf \<Rightarrow> bool" where
  "peer_kept s t \<longleftrightarrow> xs_wf t \<and> out_stream t = out_stream s \<and> (\<forall>acc. in_moved acc s acc t)"

lemma peer_kept_refl [simp]: "xs_wf s \<Longrightarrow> peer_kept s s"
  by (simp add: peer_kept_def)

lemma peer_kept_trans: "peer_kept s t \<Longrightarrow> peer_kept t u \<Longrightarrow> peer_kept s u"
  unfolding peer_kept_def by (metis in_moved_trans)

lemma peer_take_kept:
  assumes "xs_wf s"
  shows "peer_kept s (peer_take n s)"
proof -
  define k where "k = min n (length (out_bytes s))"
  have k: "k \<le> unat (xs_req_prod s - xs_req_cons s)" by (simp add: k_def)
  let ?t = "s\<lparr>xs_req_cons := xs_req_cons s + of_nat k, drained := drained s @ take k (out_bytes s)\<rparr>"
  have "out_bytes ?t = drop k (out_bytes s)" using ring_bytes_drop [OF k] by simp
  moreover have "peer_take n s = ?t" by (simp add: peer_take_def Let_def k_def)
  ultimately show ?thesis
    using assms unat_shrink [OF k] by (auto simp: peer_kept_def xs_wf_def out_stream_def in_moved_def)
qed

lemma peer_put_kept:
  assumes "xs_wf s"
  shows "peer_kept s (peer_put bs s)"
proof -
  define o' where "o' = unat (xs_rsp_prod s) mod 1024"
  define cs where "cs = take (min (1024 - o') (1024 - length (in_bytes s))) bs"
  let ?t = "s\<lparr>rsp := blit o' cs (rsp s), xs_rsp_prod := xs_rsp_prod s + of_nat (length cs),
              supplied := supplied s @ cs\<rparr>"
  have eq: "peer_put bs s = ?t" by (simp add: peer_put_def Let_def o'_def cs_def)
  have "o' < 1024" by (simp add: o'_def)
  then have fit: "o' + length cs \<le> 1024" "length (in_bytes s) + length cs \<le> 1024"
    using assms by (auto simp: cs_def xs_wf_def)
  then have "in_bytes ?t = in_bytes s @ cs"
    using ring_bytes_append [of "rsp s" "xs_rsp_prod s" "xs_rsp_cons s" cs] assms
    by (simp add: xs_wf_def o'_def)
  moreover have "length (in_bytes ?t) = length (in_bytes s) + length cs"
    using calculation by (metis length_append)
  ultimately show ?thesis
    using assms fit unfolding eq
    by (auto simp: peer_kept_def xs_wf_def out_stream_def in_moved_def)
qed

lemma polite_kept: "polite (Peer f) \<Longrightarrow> xs_wf s \<Longrightarrow> peer_kept s (f s)"
  using peer_take_kept peer_put_kept by auto

lemma wait_kept:
  "wait_event_interruptible c es s = r \<Longrightarrow> \<forall>e \<in> set es. polite e \<Longrightarrow> xs_wf s \<Longrightarrow>
   (\<forall>t es'. r = Ready t es' \<or> r = Interrupted t es' \<longrightarrow>
      peer_kept s t \<and> set es' \<subseteq> set es)"
proof (induction c es s rule: wait_event_interruptible.induct)
  case (3 c f es s)
  show ?case
  proof (cases "c s")
    case True
    then show ?thesis using 3 by auto
  next
    case False
    have k: "peer_kept s (f s)" using 3(3,4) polite_kept by auto
    then have "xs_wf (f s)" by (simp add: peer_kept_def)
    then have "\<forall>t es'. r = Ready t es' \<or> r = Interrupted t es' \<longrightarrow> peer_kept (f s) t \<and> set es' \<subseteq> set es"
      using 3 False by auto
    then show ?thesis using k peer_kept_trans by fastforce
  qed
qed (auto split: if_splits)

lemma race_kept:
  "xb_race es s = (t, es') \<Longrightarrow> \<forall>e \<in> set es. polite e \<Longrightarrow> xs_wf s \<Longrightarrow>
   peer_kept s t \<and> set es' \<subseteq> set es"
  by (cases "(es, s)" rule: xb_race.cases) (auto intro: peer_take_kept peer_put_kept)

section \<open>What a call moves\<close>

lemma wf_check_indexes: "xs_wf s \<Longrightarrow> check_indexes (xs_req_cons s) (xs_req_prod s) \<and>
    check_indexes (xs_rsp_cons s) (xs_rsp_prod s)"
  by (simp add: xs_wf_def check_indexes_def XENSTORE_RING_SIZE_def word_le_nat_alt)

lemma write_chunk_stream:
  assumes wf: "xs_wf t"
    and c: "(off, avail) = get_output_chunk (xs_req_cons t) (xs_req_prod t)"
    and n: "length bs \<le> unat avail"
  shows "xs_wf (xb_write_chunk off bs t) \<and> out_stream (xb_write_chunk off bs t) = out_stream t @ bs \<and>
         supplied (xb_write_chunk off bs t) = supplied t \<and> in_bytes (xb_write_chunk off bs t) = in_bytes t"
proof -
  have off: "off = unat (xs_req_prod t) mod 1024"
    using c by (simp add: get_output_chunk_def Let_def unat_mask_idx)
  have "unat avail = min (1024 - off) (1024 - length (out_bytes t))"
    using output_chunk_len c wf_check_indexes [OF wf] by (metis length_ring_bytes off snd_conv)
  moreover have "off < 1024" by (simp add: off)
  ultimately have fit: "off + length bs \<le> 1024" "length (out_bytes t) + length bs \<le> 1024"
    using n wf by (auto simp: xs_wf_def)
  let ?u = "xb_write_chunk off bs t"
  have app: "out_bytes ?u = out_bytes t @ bs"
    using ring_bytes_append [of "req t" "xs_req_prod t" "xs_req_cons t" bs] wf fit
    by (simp add: xb_write_chunk_def notify_store_def xs_wf_def off)
  then have "length (out_bytes ?u) = length (out_bytes t) + length bs" by (metis length_append)
  then show ?thesis
    using app wf fit by (auto simp: xs_wf_def out_stream_def xb_write_chunk_def notify_store_def)
qed

lemma read_chunk_moved:
  assumes wf: "xs_wf t"
    and c: "(off, avail) = get_input_chunk (xs_rsp_cons t) (xs_rsp_prod t)"
    and n: "n \<le> unat avail"
  shows "xs_wf (xb_read_chunk n t) \<and> out_stream (xb_read_chunk n t) = out_stream t \<and>
         in_moved acc t (acc @ take n (drop off (rsp t))) (xb_read_chunk n t) \<and>
         length (take n (drop off (rsp t))) = n"
proof -
  have off: "off = unat (xs_rsp_cons t) mod 1024"
    using c by (simp add: get_input_chunk_def Let_def unat_mask_idx)
  have "unat avail = min (1024 - off) (length (in_bytes t))"
    using input_chunk_len c by (metis length_ring_bytes off snd_conv)
  then have fit: "off + n \<le> 1024" "n \<le> unat (xs_rsp_prod t - xs_rsp_cons t)"
    using n off by auto
  have tk: "take n (drop off (rsp t)) = take n (in_bytes t)"
    using ring_bytes_take [of "rsp t" n] wf fit by (simp add: xs_wf_def off)
  have dr: "in_bytes (xb_read_chunk n t) = drop n (in_bytes t)"
    using ring_bytes_drop [OF fit(2)] by (simp add: xb_read_chunk_def notify_store_def)
  have "length (in_bytes (xb_read_chunk n t)) \<le> length (in_bytes t)" unfolding dr by simp
  then show ?thesis
    using wf fit dr tk
    by (auto simp: xs_wf_def out_stream_def in_moved_def xb_read_chunk_def notify_store_def)
qed

lemma xb_write_polite:
  "xb_write es data s = Done rc u s' es' \<Longrightarrow> \<forall>e \<in> set es. polite e \<Longrightarrow> xs_wf s \<Longrightarrow>
   xs_wf s' \<and> set es' \<subseteq> set es \<and> in_moved acc s acc s' \<and> (rc = 0 \<or> rc = - ERESTARTSYS) \<and>
   (\<exists>k. out_stream s' = out_stream s @ take k data \<and> (rc = 0 \<longrightarrow> length data \<le> k))"
proof (induction es data s rule: xb_write.induct)
  case (1 es data s)
  note prems = 1(3,4,5) and IH0 = 1(1) and IH = 1(2)
  show ?case
  proof (cases "data = []")
    case True
    then show ?thesis using prems by auto
  next
    case ne: False
    show ?thesis
    proof (cases "wait_event_interruptible xb_write_ready es s")
      case (Ready s1 es1)
      obtain t es2 where race: "xb_race es1 s1 = (t, es2)" by (cases "xb_race es1 s1")
      obtain off avail where ch: "get_output_chunk (xs_req_cons t) (xs_req_prod t) = (off, avail)"
        by (cases "get_output_chunk (xs_req_cons t) (xs_req_prod t)")
      have w: "peer_kept s s1 \<and> set es1 \<subseteq> set es"
        using wait_kept [OF Ready prems(2,3)] by blast
      then have "peer_kept s1 t \<and> set es2 \<subseteq> set es1"
        using prems(2) by (intro race_kept [OF race]) (auto simp: peer_kept_def)
      then have kept: "peer_kept s t" "set es2 \<subseteq> set es" and pol: "\<forall>e \<in> set es2. polite e"
        using w prems(2) peer_kept_trans by blast+
      then have t: "xs_wf t" "out_stream t = out_stream s" "in_moved acc s acc t"
        by (auto simp: peer_kept_def)
      have ok: "check_indexes (xs_req_cons t) (xs_req_prod t)" using wf_check_indexes t by blast
      show ?thesis
      proof (cases "avail = 0")
        case True
        then have "xb_write es2 data t = Done rc u s' es'"
          using prems(1) ne Ready race ch ok by (simp add: xb_write.simps [of es data s])
        then have "xs_wf s' \<and> set es' \<subseteq> set es2 \<and> in_moved acc t acc s' \<and> (rc = 0 \<or> rc = - ERESTARTSYS) \<and>
            (\<exists>k. out_stream s' = out_stream t @ take k data \<and> (rc = 0 \<longrightarrow> length data \<le> k))"
          using IH0 [OF ne Ready refl race [symmetric] refl refl _ refl ch [symmetric]] ok ch True pol t by auto
        then show ?thesis
          using t kept in_moved_trans [of acc s acc t acc s'] by auto
      next
        case False
        define n where "n = min (unat avail) (length data)"
        define v where "v = xb_write_chunk off (take n data) t"
        have v: "xs_wf v" "out_stream v = out_stream s @ take n data" "in_moved acc s acc v"
          using write_chunk_stream [OF t(1) ch [symmetric], of "take n data"] t
          by (auto simp: v_def n_def in_moved_def)
        have "xb_write es2 (drop n data) v = Done rc u s' es'"
          using prems(1) ne Ready race ch ok False
          by (simp add: xb_write.simps [of es data s] n_def v_def Let_def)
        then have "xs_wf s' \<and> set es' \<subseteq> set es2 \<and> in_moved acc v acc s' \<and> (rc = 0 \<or> rc = - ERESTARTSYS) \<and>
            (\<exists>k. out_stream s' = out_stream v @ take k (drop n data) \<and> (rc = 0 \<longrightarrow> length (drop n data) \<le> k))"
          using IH [OF ne Ready refl race [symmetric] refl refl _ refl ch [symmetric] False n_def] ok pol v(1)
          by (auto simp: v_def)
        then obtain k where r: "xs_wf s'" "set es' \<subseteq> set es2" "in_moved acc v acc s'"
            "rc = 0 \<or> rc = - ERESTARTSYS" "out_stream s' = out_stream v @ take k (drop n data)"
            "rc = 0 \<longrightarrow> length (drop n data) \<le> k" by blast
        have "out_stream s' = out_stream s @ take (n + k) data" using r(5) v(2) by (simp add: take_add)
        moreover have "rc = 0 \<longrightarrow> length data \<le> n + k" using r(6) by auto
        ultimately show ?thesis
          using r(1-4) v kept in_moved_trans [of acc s acc v acc s'] by blast
      qed
    qed (use prems ne wait_kept [OF _ prems(2,3)] in
        \<open>auto simp: xb_write.simps [of es data s] peer_kept_def intro!: exI [of _ 0]\<close>)
  qed
qed

lemma xb_read_polite:
  "xb_read es len acc s = Done rc out s' es' \<Longrightarrow> \<forall>e \<in> set es. polite e \<Longrightarrow> xs_wf s \<Longrightarrow>
   xs_wf s' \<and> set es' \<subseteq> set es \<and> out_stream s' = out_stream s \<and> in_moved acc s out s' \<and>
   (rc = 0 \<and> length out = length acc + len \<or> rc = - ERESTARTSYS \<and> length out < length acc + len)"
proof (induction es len acc s rule: xb_read.induct)
  case (1 es len acc s)
  note prems = 1(3,4,5) and IH0 = 1(1) and IH = 1(2)
  show ?case
  proof (cases "len = 0")
    case True
    then show ?thesis using prems by auto
  next
    case ne: False
    show ?thesis
    proof (cases "xb_wait_for_data_to_read es s")
      case (Ready s1 es1)
      note wt = Ready [unfolded xb_wait_for_data_to_read_def]
      obtain t es2 where race: "xb_race es1 s1 = (t, es2)" by (cases "xb_race es1 s1")
      obtain off avail where ch: "get_input_chunk (xs_rsp_cons t) (xs_rsp_prod t) = (off, avail)"
        by (cases "get_input_chunk (xs_rsp_cons t) (xs_rsp_prod t)")
      have w: "peer_kept s s1 \<and> set es1 \<subseteq> set es"
        using wait_kept [OF wt prems(2,3)] by blast
      then have "peer_kept s1 t \<and> set es2 \<subseteq> set es1"
        using prems(2) by (intro race_kept [OF race]) (auto simp: peer_kept_def)
      then have kept: "peer_kept s t" "set es2 \<subseteq> set es" and pol: "\<forall>e \<in> set es2. polite e"
        using w prems(2) peer_kept_trans by blast+
      then have t: "xs_wf t" "out_stream t = out_stream s" "in_moved acc s acc t"
        by (auto simp: peer_kept_def)
      have ok: "check_indexes (xs_rsp_cons t) (xs_rsp_prod t)" using wf_check_indexes t by blast
      show ?thesis
      proof (cases "avail = 0")
        case True
        then have "xb_read es2 len acc t = Done rc out s' es'"
          using prems(1) ne Ready race ch ok by (simp add: xb_read.simps [of es len acc s])
        then have "xs_wf s' \<and> set es' \<subseteq> set es2 \<and> out_stream s' = out_stream t \<and> in_moved acc t out s' \<and>
            (rc = 0 \<and> length out = length acc + len \<or> rc = - ERESTARTSYS \<and> length out < length acc + len)"
          using IH0 [OF ne Ready refl race [symmetric] refl refl _ refl ch [symmetric]] ok ch True pol t by auto
        then show ?thesis
          using t kept in_moved_trans [of acc s acc t out s'] by auto
      next
        case False
        define n where "n = min (unat avail) len"
        define v where "v = xb_read_chunk n t"
        define ac where "ac = acc @ take n (drop off (rsp t))"
        have v: "xs_wf v" "out_stream v = out_stream s" "in_moved acc s ac v" "length ac = length acc + n"
          using read_chunk_moved [OF t(1) ch [symmetric], of n acc] t in_moved_trans [of acc s acc t ac v]
          by (auto simp: v_def n_def ac_def)
        have "xb_read es2 (len - n) ac v = Done rc out s' es'"
          using prems(1) ne Ready race ch ok False
          by (simp add: xb_read.simps [of es len acc s] n_def v_def ac_def Let_def)
        then have "xs_wf s' \<and> set es' \<subseteq> set es2 \<and> out_stream s' = out_stream v \<and> in_moved ac v out s' \<and>
            (rc = 0 \<and> length out = length ac + (len - n) \<or> rc = - ERESTARTSYS \<and> length out < length ac + (len - n))"
          using IH [OF ne Ready refl race [symmetric] refl refl _ refl ch [symmetric] False n_def] ok pol v(1)
          by (auto simp: v_def ac_def)
        moreover have "n \<le> len" by (simp add: n_def)
        ultimately show ?thesis
          using v kept in_moved_trans [of acc s ac v out s'] by auto
      qed
    qed (use prems ne wait_kept [OF _ prems(2,3)] in
        \<open>auto simp: xb_read.simps [of es len acc s] xb_wait_for_data_to_read_def peer_kept_def\<close>)
  qed
qed

section \<open>Properties\<close>

text \<open>
  C8: With a daemon that keeps to the protocol, whatever it does while the call runs and however
  often the ring wraps, \<open>xb_write\<close> never reports an I/O error, and the bytes that have ever
  entered the request ring are what was there before followed by a prefix of the data, which
  is all of it when the call returns 0: nothing is lost, repeated or reordered.
\<close>

theorem xb_write_stream:
  assumes "xb_write es data s = Done rc () s' es'"
    and "\<forall>e \<in> set es. polite e" and "xs_wf s"
  shows "(rc = 0 \<or> rc = - ERESTARTSYS) \<and>
         (\<exists>k. drained s' @ out_bytes s' = drained s @ out_bytes s @ take k data \<and>
              (rc = 0 \<longrightarrow> take k data = data))"
  using xb_write_polite [OF assms] by (auto simp: out_stream_def)

definition xs_intf0 :: xs_intf where
  "xs_intf0 = \<lparr>req = replicate 1024 0, rsp = replicate 1024 0, xs_req_cons = 5, xs_req_prod = 5,
     xs_rsp_cons = 0xfffffffe, xs_rsp_prod = 0xfffffffe, evtchn_sent = 0, drained = [], supplied = []\<rparr>"

lemma xs_wf0: "xs_wf xs_intf0"
  by (simp add: xs_wf_def xs_intf0_def)

lemma xb_write_stream_witness:
  "\<exists>s' es'. xb_write [Peer (peer_take 3)] [1, 2] xs_intf0 = Done 0 () s' es' \<and> xs_wf xs_intf0 \<and>
     drained s' @ out_bytes s' = [1, 2]"
proof -
  have "\<exists>s' es'. xb_write [Peer (peer_take 3)] [1, 2] xs_intf0 = Done 0 () s' es'"
    by (simp add: xb_write.simps [of _ "_ # _"] xs_intf0_def xb_write_ready_def peer_take_def check_indexes_def
        XENSTORE_RING_SIZE_def get_output_chunk_def MASK_XENSTORE_IDX_def ring_bytes_def)
  then obtain s' es' where w: "xb_write [Peer (peer_take 3)] [1, 2] xs_intf0 = Done 0 () s' es'" by blast
  have "drained s' @ out_bytes s' = drained xs_intf0 @ out_bytes xs_intf0 @ [1, 2]"
  proof -
    have "\<forall>e \<in> set [Peer (peer_take 3)]. polite e" by auto
    then show ?thesis using xb_write_stream [OF w _ xs_wf0] by fastforce
  qed
  then show ?thesis
    using w xs_wf0 by (auto simp: xs_intf0_def ring_bytes_def)
qed

text \<open>
  C19: Symmetrically, \<open>xb_read\<close> with such a daemon returns either the whole length asked for or,
  when a signal interrupts it, fewer bytes; and the bytes it returns followed by what is left
  in the response ring are exactly what was in the ring followed by what the daemon put there
  meanwhile.
\<close>

theorem xb_read_stream:
  assumes "xb_read es len [] s = Done rc out s' es'"
    and "\<forall>e \<in> set es. polite e" and "xs_wf s"
  shows "(rc = 0 \<and> length out = len \<or> rc = - ERESTARTSYS \<and> length out < len) \<and>
         (\<exists>new. supplied s' = supplied s @ new \<and> out @ in_bytes s' = in_bytes s @ new)"
  using xb_read_polite [OF assms] by (auto simp: in_moved_def)

lemma xb_read_fits:
  assumes "xs_wf s" and "len \<le> length (in_bytes s)"
  shows "\<exists>s'. xb_read [] len acc s = Done 0 (acc @ take len (in_bytes s)) s' [] \<and> xs_wf s' \<and>
              in_bytes s' = drop len (in_bytes s) \<and> out_bytes s' = out_bytes s \<and>
              supplied s' = supplied s \<and> drained s' = drained s"
  using assms
proof (induction len arbitrary: acc s rule: less_induct)
  case (less len)
  show ?case
  proof (cases "len = 0")
    case True
    then show ?thesis using less by simp
  next
    case ne: False
    obtain off avail where ch: "get_input_chunk (xs_rsp_cons s) (xs_rsp_prod s) = (off, avail)"
      by (cases "get_input_chunk (xs_rsp_cons s) (xs_rsp_prod s)")
    have ok: "check_indexes (xs_rsp_cons s) (xs_rsp_prod s)" using wf_check_indexes less(2) by blast
    have rdy: "xb_data_to_read s" using ne less(3) by (auto simp: xb_data_to_read_def)
    then have av: "avail \<noteq> 0"
      using input_chunk_pos [of "xs_rsp_cons s" "xs_rsp_prod s"] ch by (auto simp: xb_data_to_read_def)
    define n where "n = min (unat avail) len"
    define v where "v = xb_read_chunk n s"
    define bs where "bs = take n (drop off (rsp s))"
    have n: "0 < n" "n \<le> len" using av ne by (auto simp: n_def unat_gt_0)
    have v: "xs_wf v" "in_moved acc s (acc @ bs) v" "length bs = n"
      using read_chunk_moved [OF less(2) ch [symmetric], of n acc] by (auto simp: v_def n_def bs_def)
    have fr: "out_bytes v = out_bytes s" "supplied v = supplied s" "drained v = drained s"
      by (simp_all add: v_def xb_read_chunk_def notify_store_def)
    then have ib: "bs @ in_bytes v = in_bytes s" using v(2) by (auto simp: in_moved_def)
    then have "in_bytes v = drop n (in_bytes s)" "bs = take n (in_bytes s)"
      using v(3) by (metis append_eq_conv_conj)+
    note vb = this
    have "len - n \<le> length (in_bytes v)" unfolding vb using less(3) by simp
    then obtain s' where "xb_read [] (len - n) (acc @ bs) v =
          Done 0 ((acc @ bs) @ take (len - n) (in_bytes v)) s' []" "xs_wf s'"
        "in_bytes s' = drop (len - n) (in_bytes v)" "out_bytes s' = out_bytes v"
        "supplied s' = supplied v" "drained s' = drained v"
      using less(1) [OF _ v(1), of "len - n" "acc @ bs"] n by auto
    moreover have "xb_read [] len acc s = xb_read [] (len - n) (acc @ bs) v"
      using ne rdy ok ch av
      by (subst xb_read.simps) (simp add: n_def v_def bs_def Let_def xb_wait_for_data_to_read_def)
    moreover have "take n (in_bytes s) @ take (len - n) (drop n (in_bytes s)) = take len (in_bytes s)"
      using n by (metis le_add_diff_inverse take_add)
    moreover have "drop (len - n) (drop n (in_bytes s)) = drop len (in_bytes s)" using n by simp
    ultimately show ?thesis using fr unfolding vb by auto
  qed
qed

lemma xb_read_stream_witness:
  "\<exists>out s' es'. xb_read [] 2 [] (xs_intf0\<lparr>xs_rsp_prod := 1\<rparr>) = Done 0 out s' es' \<and> length out = 2 \<and>
     length (in_bytes s') = 1"
proof -
  let ?s = "xs_intf0\<lparr>xs_rsp_prod := 1\<rparr>"
  have wf: "xs_wf ?s" and three: "length (in_bytes ?s) = 3"
    by (simp_all add: xs_wf_def xs_intf0_def)
  then obtain s' where w: "xb_read [] 2 [] ?s = Done 0 (take 2 (in_bytes ?s)) s' []" "supplied s' = supplied ?s"
    using xb_read_fits [OF wf, of 2 "[]"] by auto
  define o' where "o' = take 2 (in_bytes ?s)"
  note w1 = w(1) [folded o'_def]
  obtain new where "length o' = 2" "supplied s' = supplied ?s @ new" "o' @ in_bytes s' = in_bytes ?s @ new"
    using xb_read_stream [OF w1 _ wf] by auto
  moreover from this w(2) have "new = []" by simp
  ultimately have "length o' + length (in_bytes s') = 3" using three by (metis append_Nil2 length_append)
  then show ?thesis using w1 \<open>length o' = 2\<close> by auto
qed

text \<open>With room for all of it, a write finishes at once and asks nothing of the daemon.\<close>

lemma xb_write_fits:
  assumes "xs_wf s" and "length data + length (out_bytes s) \<le> 1024"
  shows "\<exists>s'. xb_write [] data s = Done 0 () s' [] \<and> xs_wf s' \<and> out_stream s' = out_stream s @ data \<and>
              out_bytes s' = out_bytes s @ data \<and> in_bytes s' = in_bytes s \<and> drained s' = drained s"
  using assms
proof (induction "length data" arbitrary: data s rule: less_induct)
  case less
  show ?case
  proof (cases "data = []")
    case True
    then show ?thesis using less by simp
  next
    case ne: False
    obtain off avail where ch: "get_output_chunk (xs_req_cons s) (xs_req_prod s) = (off, avail)"
      by (cases "get_output_chunk (xs_req_cons s) (xs_req_prod s)")
    have ok: "check_indexes (xs_req_cons s) (xs_req_prod s)" using wf_check_indexes less(2) by blast
    have "0 < length data" using ne by simp
    then have "unat (xs_req_prod s - xs_req_cons s) < 1024" using less(3) by (simp del: length_greater_0_conv)
    then have rdy: "xb_write_ready s" by (auto simp: xb_write_ready_def XENSTORE_RING_SIZE_def)
    then have av: "avail \<noteq> 0"
      using output_chunk_pos [OF ok] ch by (auto simp: xb_write_ready_def)
    define n where "n = min (unat avail) (length data)"
    define v where "v = xb_write_chunk off (take n data) s"
    have n: "0 < n" "n \<le> length data" using av ne by (auto simp: n_def unat_gt_0)
    have v: "xs_wf v" "out_stream v = out_stream s @ take n data" "in_bytes v = in_bytes s"
      using write_chunk_stream [OF less(2) ch [symmetric], of "take n data"] by (auto simp: v_def n_def)
    have dr: "drained v = drained s" by (simp add: v_def xb_write_chunk_def notify_store_def)
    then have ob: "out_bytes v = out_bytes s @ take n data" using v(2) by (simp add: out_stream_def)
    have "length (drop n data) + length (out_bytes v) \<le> 1024"
      using less(3) n by (simp only: ob length_append length_drop length_take)
    moreover have lt: "length (drop n data) < length data" using n by (simp only: length_drop)
    ultimately obtain s' where "xb_write [] (drop n data) v = Done 0 () s' []" "xs_wf s'"
        "out_stream s' = out_stream v @ drop n data" "out_bytes s' = out_bytes v @ drop n data"
        "in_bytes s' = in_bytes v" "drained s' = drained v"
      using less(1) [OF _ v(1), of "drop n data"] lt by blast
    moreover have "xb_write [] data s = xb_write [] (drop n data) v"
      using ne rdy ok ch av by (subst xb_write.simps) (simp add: n_def v_def Let_def)
    ultimately show ?thesis using v dr ob by simp
  qed
qed

end
