(* ===== verification/Freelist.thy ===== *)
theory Freelist
  imports Xen_Prelude
begin

text \<open>
  Several drivers keep their free identifiers in a list threaded through an array: the entry
  of a free identifier holds the next free one (grant references, request identifiers of the
  disk and the network front end, ring descriptors). This theory has the facts on such chains
  and the interface an allocator of identifiers offers, with what follows from it for any
  sequence of allocations and releases.
\<close>

section \<open>Chains threaded through an array\<close>

fun linked :: "('a \<Rightarrow> 'a) \<Rightarrow> 'a \<Rightarrow> 'a \<Rightarrow> 'a list \<Rightarrow> bool" where
  "linked nx h e [] \<longleftrightarrow> h = e"
| "linked nx h e (x # xs) \<longleftrightarrow> h = x \<and> x \<noteq> e \<and> linked nx (nx x) e xs"

fun chain_list :: "('a \<Rightarrow> 'a) \<Rightarrow> nat \<Rightarrow> 'a \<Rightarrow> 'a list" where
  "chain_list nx 0 h = []"
| "chain_list nx (Suc n) h = h # chain_list nx n (nx h)"

lemma length_chain_list [simp]: "length (chain_list nx n h) = n"
  by (induction n arbitrary: h) auto

lemma linked_chain_list: "linked nx h e xs \<Longrightarrow> chain_list nx (length xs) h = xs"
  by (induction xs arbitrary: h) auto

lemma linked_head: "linked nx h e xs \<Longrightarrow> h = (case xs of [] \<Rightarrow> e | x # _ \<Rightarrow> x)"
  by (cases xs) auto

lemma linked_not_end: "linked nx h e xs \<Longrightarrow> e \<notin> set xs"
  by (induction xs arbitrary: h) auto

lemma linked_cong: "(\<And>x. x \<in> set xs \<Longrightarrow> nx x = ny x) \<Longrightarrow> linked nx h e xs = linked ny h e xs"
  by (induction xs arbitrary: h) auto

lemma linked_fun_upd [simp]: "y \<notin> set xs \<Longrightarrow> linked (nx(y := v)) h e xs = linked nx h e xs"
  by (rule linked_cong) auto

lemma linked_append:
  "linked nx h e (xs @ y # ys) \<longleftrightarrow> linked nx h y xs \<and> y \<noteq> e \<and> e \<notin> set xs \<and> linked nx (nx y) e ys"
  if "y \<notin> set xs"
  using that by (induction xs arbitrary: h) auto

lemma linked_snoc_upd:
  assumes "linked nx h e (xs @ [y])" and "distinct (xs @ [y])" and "linked nx g e ys"
    and "y \<notin> set ys"
  shows "linked (nx(y := g)) h e ((xs @ [y]) @ ys)"
  using assms
proof (induction xs arbitrary: h)
  case Nil
  then have "h = y" "y \<noteq> e" by auto
  moreover have "linked (nx(y := g)) ((nx(y := g)) y) e ys"
    by (simp only: fun_upd_same linked_fun_upd [OF Nil(4)] Nil(3))
  ultimately show ?case by (simp only: append_Nil append_Cons linked.simps simp_thms)
next
  case (Cons x xs)
  then show ?case by auto
qed

lemma linked_take_cut:
  assumes "linked nx h e (xs @ y # ys)" and "distinct (xs @ [y])"
  shows "linked (nx(y := e)) h e (xs @ [y])"
  using assms by (induction xs arbitrary: h) auto

lemma linked_drop:
  "linked nx h e (xs @ y # ys) \<Longrightarrow> linked nx (nx y) e ys"
  by (induction xs arbitrary: h) auto

section \<open>The allocator interface\<close>

text \<open>
  A client holds identifiers. It allocates (\<open>None\<close>) only while one is free, and releases any of
  those it holds (\<open>Some k\<close>, the one at place \<open>k\<close>); \<open>id_run\<close> is any sequence of such operations,
  \<open>None\<close> where the discipline is broken.
\<close>

fun id_run :: "('s \<Rightarrow> 'a list) \<Rightarrow> ('s \<Rightarrow> 'a \<times> 's) \<Rightarrow> ('a \<Rightarrow> 's \<Rightarrow> 's) \<Rightarrow> nat option list \<Rightarrow> 's \<times> 'a list \<Rightarrow>
    ('s \<times> 'a list) option" where
  "id_run fr al rl [] (s, held) = Some (s, held)"
| "id_run fr al rl (None # ops) (s, held) =
     (if fr s = [] then None else id_run fr al rl ops (snd (al s), fst (al s) # held))"
| "id_run fr al rl (Some k # ops) (s, held) =
     (if length held \<le> k then None else id_run fr al rl ops (rl (held ! k) s, take k held @ drop (Suc k) held))"

locale id_allocator =
  fixes inv :: "'s \<Rightarrow> bool"
    and free_ids :: "'s \<Rightarrow> 'a list"
    and ids :: "'s \<Rightarrow> 'a set"
    and alloc :: "'s \<Rightarrow> 'a \<times> 's"
    and release :: "'a \<Rightarrow> 's \<Rightarrow> 's"
  assumes free_distinct: "inv s \<Longrightarrow> distinct (free_ids s)"
    and free_valid: "inv s \<Longrightarrow> set (free_ids s) \<subseteq> ids s"
    and alloc_law: "inv s \<Longrightarrow> free_ids s = x # xs \<Longrightarrow>
      fst (alloc s) = x \<and> inv (snd (alloc s)) \<and> free_ids (snd (alloc s)) = xs \<and>
      ids (snd (alloc s)) = ids s"
    and release_law: "inv s \<Longrightarrow> x \<in> ids s \<Longrightarrow> x \<notin> set (free_ids s) \<Longrightarrow>
      inv (release x s) \<and> free_ids (release x s) = x # free_ids s \<and> ids (release x s) = ids s"
begin

definition owned :: "'s \<Rightarrow> 'a list \<Rightarrow> bool" where
  "owned s held \<longleftrightarrow> inv s \<and> distinct held \<and> set held \<subseteq> ids s \<and> set held \<inter> set (free_ids s) = {}"

lemma owned_alloc:
  assumes "owned s held" and "free_ids s \<noteq> []"
  shows "owned (snd (alloc s)) (fst (alloc s) # held) \<and>
         set (fst (alloc s) # held) \<union> set (free_ids (snd (alloc s))) = set held \<union> set (free_ids s) \<and>
         fst (alloc s) \<notin> set held \<and> ids (snd (alloc s)) = ids s"
proof -
  obtain x xs where f: "free_ids s = x # xs" using assms(2) by (cases "free_ids s") auto
  have i: "inv s" using assms(1) by (simp add: owned_def)
  show ?thesis
    using assms(1) f alloc_law [OF i f] free_distinct [OF i] free_valid [OF i]
    by (auto simp: owned_def)
qed

lemma owned_release:
  assumes "owned s held" and "k < length held"
  shows "owned (release (held ! k) s) (take k held @ drop (Suc k) held) \<and>
         set (take k held @ drop (Suc k) held) \<union> set (free_ids (release (held ! k) s)) = set held \<union> set (free_ids s) \<and>
         length (free_ids (release (held ! k) s)) = Suc (length (free_ids s)) \<and> ids (release (held ! k) s) = ids s"
proof -
  obtain ys zs where h: "held = ys @ held ! k # zs" "length ys = k"
    using assms(2) id_take_nth_drop [of k held] by (metis length_take min.absorb2 order_less_imp_le)
  have "take k held = ys" "drop (Suc k) held = zs"
    using arg_cong [OF h(1), of "take k"] arg_cong [OF h(1), of "drop (Suc k)"] h(2) by auto
  then have hs: "take k held @ drop (Suc k) held = ys @ zs" by simp
  have x: "inv s" "held ! k \<in> ids s" "held ! k \<notin> set (free_ids s)"
    using assms(1) nth_mem [OF assms(2)] unfolding owned_def by (blast, blast, blast)
  have st: "set held = insert (held ! k) (set (ys @ zs))" "distinct (held ! k # ys @ zs)"
    using arg_cong [OF h(1), of set] arg_cong [OF h(1), of distinct] assms(1) by (auto simp: owned_def)
  show ?thesis using assms(1) st(2) release_law [OF x] unfolding owned_def hs st(1) by auto
qed

lemma run_conserves:
  "id_run free_ids alloc release ops (s, held) = Some (t, held') \<Longrightarrow> owned s held \<Longrightarrow>
   owned t held' \<and> set held' \<union> set (free_ids t) = set held \<union> set (free_ids s) \<and>
   length held' + length (free_ids t) = length held + length (free_ids s)"
proof (induction ops arbitrary: s held)
  case Nil
  then show ?case by auto
next
  case (Cons op ops)
  show ?case
  proof (cases op)
    case None
    then have ne: "free_ids s \<noteq> []"
      and r: "id_run free_ids alloc release ops (snd (alloc s), fst (alloc s) # held) = Some (t, held')"
      using Cons.prems(1) by (auto split: if_splits)
    note o = owned_alloc [OF Cons.prems(2) ne]
    have "length (free_ids s) = Suc (length (free_ids (snd (alloc s))))"
      using alloc_law [of s "hd (free_ids s)" "tl (free_ids s)"] Cons.prems(2) ne by (auto simp: owned_def)
    then show ?thesis using Cons.IH [OF r] o by auto
  next
    case (Some k)
    then have k: "k < length held"
      and r: "id_run free_ids alloc release ops (release (held ! k) s, take k held @ drop (Suc k) held) = Some (t, held')"
      using Cons.prems(1) by (auto split: if_splits)
    note o = owned_release [OF Cons.prems(2) k]
    show ?thesis using Cons.IH [OF r] o k by simp
  qed
qed

end

end
