(* ===== verification/Gnttab.thy ===== *)
theory Gnttab
  imports Freelist
begin

text \<open>
  Grant references, \<^verbatim>\<open>xen-platform-pci/gnttab.c\<close> as built for the module (\<open>CONFIG_XEN\<close> not
  defined): the list of free references threaded through \<open>gnttab_list\<close>, its growth, the
  callbacks waiting for references, granting and ending foreign access and transfers, and the
  entries whose release is deferred while the remote domain still uses them. Every function
  that takes \<open>gnttab_list_lock\<close> is one atomic step. A reference is a \<open>nat\<close>: the code computes
  only \<open>i + 1\<close> on references below the table size.
\<close>

section \<open>State\<close>

definition GNTTAB_LIST_END :: nat where "GNTTAB_LIST_END = 0xffffffff"
definition NR_RESERVED_ENTRIES :: nat where "NR_RESERVED_ENTRIES = 8"
definition ENTRIES_PER_GRANT_FRAME :: nat where "ENTRIES_PER_GRANT_FRAME = 512"
definition RPP :: nat where "RPP = 1024"
definition GRANT_INVALID_REF :: nat where "GRANT_INVALID_REF = 0"

definition GTF_permit_access :: u16 where "GTF_permit_access = 1"
definition GTF_accept_transfer :: u16 where "GTF_accept_transfer = 2"
definition GTF_readonly :: u16 where "GTF_readonly = 4"
definition GTF_reading :: u16 where "GTF_reading = 8"
definition GTF_writing :: u16 where "GTF_writing = 16"
definition GTF_transfer_committed :: u16 where "GTF_transfer_committed = 4"
definition GTF_transfer_completed :: u16 where "GTF_transfer_completed = 8"

lemmas gnt_consts = GNTTAB_LIST_END_def NR_RESERVED_ENTRIES_def ENTRIES_PER_GRANT_FRAME_def RPP_def
  GRANT_INVALID_REF_def

record grant_entry_v1 =
  flags :: u16
  domid :: u16
  frame :: u32

text \<open>
  A callback structure belongs to its caller; the list threads through the structures, and is
  the list of their addresses here.
\<close>

record gnttab_free_callback =
  cb_fn :: nat
  cb_arg :: nat
  cb_count :: u16
  cb_queued :: bool

record deferred_entry =
  de_addr :: nat
  de_ref :: nat
  de_warn_delay :: u16
  de_page :: "nat option"

text \<open>
  \<open>gnttab_list i\<close> is the \<open>i\<close>-th page of the list's array, \<open>None\<close> where no page was allocated.
  The last fields record what the code does to its surroundings: the callbacks it has called,
  the pages it has freed, the frames it has mapped.
\<close>

record gnttab =
  gnttab_list :: "nat \<Rightarrow> (nat \<Rightarrow> nat) option"
  nr_grant_frames :: nat
  boot_max_nr_grant_frames :: nat
  gnttab_free_count :: int
  gnttab_free_head :: nat
  shared :: "nat \<Rightarrow> grant_entry_v1"
  gnttab_free_callback_list :: "nat list"
  callbacks :: "nat \<Rightarrow> gnttab_free_callback"
  deferred_list :: "deferred_entry list"
  deferred_timer_pending :: bool
  resume_frames :: nat
  called :: "(nat \<times> nat) list"
  freed_pages :: "nat list"
  physmap_calls :: "(nat \<times> nat) list"

text \<open>
  What the code asks of the hypervisor and of the kernel: the result of
  \<open>GNTTABOP_query_size\<close> (return code, status, \<open>max_nr_frames\<close>), of adding frame \<open>i\<close> to the
  physmap, of allocating page \<open>i\<close> of the list, and of the calls \<open>gnttab_init\<close> makes.
\<close>

record gnt_env =
  query_size :: "int \<times> int \<times> nat"
  add_to_physmap :: "nat \<Rightarrow> int"
  get_free_page :: "nat \<Rightarrow> (nat \<Rightarrow> nat) option"
  running_on_xen :: bool
  kmalloc_list :: bool
  mmio :: nat
  ioremap_ok :: bool

definition gnttab_entry :: "gnttab \<Rightarrow> nat \<Rightarrow> nat option" where
  "gnttab_entry s r = map_option (\<lambda>p. p (r mod RPP)) (gnttab_list s (r div RPP))"

definition set_gnttab_entry :: "nat \<Rightarrow> nat \<Rightarrow> gnttab \<Rightarrow> gnttab option" where
  "set_gnttab_entry r v s =
     (case gnttab_list s (r div RPP) of None \<Rightarrow> None
      | Some p \<Rightarrow> Some (s\<lparr>gnttab_list := (gnttab_list s)(r div RPP \<mapsto> p(r mod RPP := v))\<rparr>))"

definition nr_freelist_frames :: "nat \<Rightarrow> nat" where
  "nr_freelist_frames n = (n * ENTRIES_PER_GRANT_FRAME + RPP - 1) div RPP"

section \<open>Callbacks\<close>

text \<open>The list is taken off and walked; a callback that must wait longer is pushed back.\<close>

fun free_callbacks_loop :: "nat list \<Rightarrow> gnttab \<Rightarrow> gnttab" where
  "free_callbacks_loop [] s = s"
| "free_callbacks_loop (c # cs) s =
     (let cb = callbacks s c
      in if gnttab_free_count s \<ge> int (unat (cb_count cb))
         then free_callbacks_loop cs
                (s\<lparr>callbacks := (callbacks s)(c := cb\<lparr>cb_queued := False\<rparr>),
                   called := called s @ [(cb_fn cb, cb_arg cb)]\<rparr>)
         else free_callbacks_loop cs
                (s\<lparr>gnttab_free_callback_list := c # gnttab_free_callback_list s\<rparr>))"

definition do_free_callbacks :: "gnttab \<Rightarrow> gnttab" where
  "do_free_callbacks s =
     free_callbacks_loop (gnttab_free_callback_list s) (s\<lparr>gnttab_free_callback_list := []\<rparr>)"

definition check_free_callbacks :: "gnttab \<Rightarrow> gnttab" where
  "check_free_callbacks s = (if gnttab_free_callback_list s \<noteq> [] then do_free_callbacks s else s)"

definition gnttab_request_free_callback ::
    "nat \<Rightarrow> nat \<Rightarrow> nat \<Rightarrow> u16 \<Rightarrow> gnttab \<Rightarrow> gnttab" where
  "gnttab_request_free_callback c fn arg count s =
     (if cb_queued (callbacks s c) then s
      else check_free_callbacks
             (s\<lparr>callbacks := (callbacks s)(c := \<lparr>cb_fn = fn, cb_arg = arg, cb_count = count, cb_queued = True\<rparr>),
                gnttab_free_callback_list := c # gnttab_free_callback_list s\<rparr>))"

definition gnttab_cancel_free_callback :: "nat \<Rightarrow> gnttab \<Rightarrow> gnttab" where
  "gnttab_cancel_free_callback c s =
     (if c \<in> set (gnttab_free_callback_list s)
      then s\<lparr>gnttab_free_callback_list := remove1 c (gnttab_free_callback_list s),
             callbacks := (callbacks s)(c := (callbacks s c)\<lparr>cb_queued := False\<rparr>)\<rparr>
      else s)"

section \<open>Growing the list\<close>

definition raw_max_nr_grant_frames :: "gnt_env \<Rightarrow> nat" where
  "raw_max_nr_grant_frames e =
     (case query_size e of (rc, status, n) \<Rightarrow> if rc < 0 \<or> status \<noteq> 0 then 4 else n)"

definition max_nr_grant_frames :: "gnt_env \<Rightarrow> gnttab \<Rightarrow> nat" where
  "max_nr_grant_frames e s =
     (let xen_max = raw_max_nr_grant_frames e
      in if xen_max > boot_max_nr_grant_frames s then boot_max_nr_grant_frames s else xen_max)"

text \<open>Frames are mapped from the last one down; a failing hypercall is \<open>BUG()\<close>.\<close>

fun gnttab_map_from :: "gnt_env \<Rightarrow> nat \<Rightarrow> nat \<Rightarrow> gnttab \<Rightarrow> gnttab option" where
  "gnttab_map_from e start 0 s =
     (if add_to_physmap e start \<noteq> 0 then None
      else Some (s\<lparr>physmap_calls := physmap_calls s @ [(start, resume_frames s div 4096 + start)]\<rparr>))"
| "gnttab_map_from e start (Suc n) s =
     (let i = start + Suc n
      in if add_to_physmap e i \<noteq> 0 then None
         else gnttab_map_from e start n
                (s\<lparr>physmap_calls := physmap_calls s @ [(i, resume_frames s div 4096 + i)]\<rparr>))"

definition gnttab_map :: "gnt_env \<Rightarrow> nat \<Rightarrow> nat \<Rightarrow> gnttab \<Rightarrow> (int \<times> gnttab) option" where
  "gnttab_map e start_idx end_idx s =
     map_option (Pair 0) (gnttab_map_from e start_idx (end_idx - start_idx) s)"

definition gnttab_resume :: "gnt_env \<Rightarrow> gnttab \<Rightarrow> (int \<times> gnttab) option" where
  "gnttab_resume e s =
     (let nr = nr_grant_frames s; mx = max_nr_grant_frames e s
      in if mx < nr then Some (- ENOSYS, s)
         else if resume_frames s = 0 \<and> \<not> ioremap_ok e then Some (-1, s\<lparr>resume_frames := mmio e\<rparr>)
         else let s = (if resume_frames s = 0 then s\<lparr>resume_frames := mmio e\<rparr> else s)
              in map_option (\<lambda>(_, s). (0, s)) (gnttab_map e 0 (nr - 1) s))"

text \<open>Allocate pages for the list; on failure the index that failed.\<close>

fun grow_pages :: "gnt_env \<Rightarrow> nat list \<Rightarrow> gnttab \<Rightarrow> nat option \<times> gnttab" where
  "grow_pages e [] s = (None, s)"
| "grow_pages e (i # is) s =
     (case get_free_page e i of
        None \<Rightarrow> (Some i, s\<lparr>gnttab_list := (gnttab_list s)(i := None)\<rparr>)
      | Some p \<Rightarrow> grow_pages e is (s\<lparr>gnttab_list := (gnttab_list s)(i \<mapsto> p)\<rparr>))"

text \<open>On failure the pages obtained so far are given back, from the failing index down.\<close>

fun drop_pages :: "nat list \<Rightarrow> gnttab \<Rightarrow> gnttab" where
  "drop_pages [] s = s"
| "drop_pages (i # is) s = drop_pages is (s\<lparr>gnttab_list := (gnttab_list s)(i := None)\<rparr>)"

text \<open>\<open>gnttab_entry(i) = i + 1\<close> for \<open>n\<close> entries from \<open>i\<close> on.\<close>

fun link_entries :: "nat \<Rightarrow> nat \<Rightarrow> gnttab \<Rightarrow> gnttab option" where
  "link_entries i 0 s = Some s"
| "link_entries i (Suc n) s =
     (case set_gnttab_entry i (i + 1) s of None \<Rightarrow> None | Some s \<Rightarrow> link_entries (i + 1) n s)"

definition grow_gnttab_list :: "gnt_env \<Rightarrow> nat \<Rightarrow> gnttab \<Rightarrow> (int \<times> gnttab) option" where
  "grow_gnttab_list e more_frames s =
     (let new_nr = nr_grant_frames s + more_frames;
          extra_entries = more_frames * ENTRIES_PER_GRANT_FRAME;
          is = [nr_freelist_frames (nr_grant_frames s)..<nr_freelist_frames new_nr];
          first = ENTRIES_PER_GRANT_FRAME * nr_grant_frames s;
          last = ENTRIES_PER_GRANT_FRAME * new_nr - 1
      in case grow_pages e is s of
           (Some i, s) \<Rightarrow>
             Some (- ENOMEM, drop_pages (rev [nr_freelist_frames (nr_grant_frames s)..<Suc i]) s)
         | (None, s) \<Rightarrow>
             (case link_entries first (last - first) s of None \<Rightarrow> None
              | Some s \<Rightarrow>
                 (case set_gnttab_entry last (gnttab_free_head s) s of None \<Rightarrow> None
                  | Some s \<Rightarrow>
                     Some (0, check_free_callbacks
                       (s\<lparr>gnttab_free_head := first,
                          gnttab_free_count := gnttab_free_count s + int extra_entries,
                          nr_grant_frames := new_nr\<rparr>)))))"

definition gnttab_expand :: "gnt_env \<Rightarrow> nat \<Rightarrow> gnttab \<Rightarrow> (int \<times> gnttab) option" where
  "gnttab_expand e req_entries s =
     (let cur = nr_grant_frames s;
          extra = (req_entries + (ENTRIES_PER_GRANT_FRAME - 1)) div ENTRIES_PER_GRANT_FRAME
      in if cur + extra > max_nr_grant_frames e s then Some (- ENOSPC, s)
         else case gnttab_map e cur (cur + extra - 1) s of None \<Rightarrow> None
              | Some (rc, s) \<Rightarrow> if rc = 0 then grow_gnttab_list e extra s else Some (rc, s))"

section \<open>Taking and returning references\<close>

fun gnt_walk :: "gnttab \<Rightarrow> nat \<Rightarrow> nat \<Rightarrow> nat option" where
  "gnt_walk s 0 head = Some head"
| "gnt_walk s (Suc n) head =
     (case gnttab_entry s head of None \<Rightarrow> None | Some nx \<Rightarrow> gnt_walk s n nx)"

definition take_entries :: "int \<Rightarrow> gnttab \<Rightarrow> (int \<times> gnttab) option" where
  "take_entries count s =
     (let ref = gnttab_free_head s;
          s = s\<lparr>gnttab_free_count := gnttab_free_count s - count\<rparr>
      in case gnt_walk s (nat (count - 1)) ref of None \<Rightarrow> None
         | Some head \<Rightarrow>
             (case gnttab_entry s head of None \<Rightarrow> None
              | Some nx \<Rightarrow>
                  (case set_gnttab_entry head GNTTAB_LIST_END (s\<lparr>gnttab_free_head := nx\<rparr>) of
                     None \<Rightarrow> None | Some s \<Rightarrow> Some (int ref, s))))"

definition get_free_entries :: "gnt_env \<Rightarrow> int \<Rightarrow> gnttab \<Rightarrow> (int \<times> gnttab) option" where
  "get_free_entries e count s =
     (if gnttab_free_count s < count
      then (case gnttab_expand e (nat (count - gnttab_free_count s)) s of None \<Rightarrow> None
            | Some (rc, s) \<Rightarrow> if rc < 0 then Some (rc, s) else take_entries count s)
      else take_entries count s)"

definition put_free_entry :: "nat \<Rightarrow> gnttab \<Rightarrow> gnttab option" where
  "put_free_entry ref s =
     (case set_gnttab_entry ref (gnttab_free_head s) s of None \<Rightarrow> None
      | Some s \<Rightarrow> Some (check_free_callbacks
          (s\<lparr>gnttab_free_head := ref, gnttab_free_count := gnttab_free_count s + 1\<rparr>)))"

definition gnttab_free_grant_reference :: "nat \<Rightarrow> gnttab \<Rightarrow> gnttab option" where
  "gnttab_free_grant_reference ref s = put_free_entry ref s"

text \<open>
  The walk to the end of a private list; \<open>fuel\<close> bounds the steps, and running out of it is
  \<open>None\<close>, as a wild access is. A list of \<open>n\<close> references needs \<open>n\<close> steps.
\<close>

fun gnt_last :: "gnttab \<Rightarrow> nat \<Rightarrow> nat \<Rightarrow> nat \<Rightarrow> (nat \<times> nat) option" where
  "gnt_last s 0 ref count = None"
| "gnt_last s (Suc fuel) ref count =
     (case gnttab_entry s ref of None \<Rightarrow> None
      | Some nx \<Rightarrow> if nx = GNTTAB_LIST_END then Some (ref, count)
                   else gnt_last s fuel nx (count + 1))"

definition gnttab_free_grant_references :: "nat \<Rightarrow> nat \<Rightarrow> gnttab \<Rightarrow> gnttab option" where
  "gnttab_free_grant_references fuel head s =
     (if head = GNTTAB_LIST_END then Some s
      else case gnt_last s fuel head 1 of None \<Rightarrow> None
           | Some (ref, count) \<Rightarrow>
               (case set_gnttab_entry ref (gnttab_free_head s) s of None \<Rightarrow> None
                | Some s \<Rightarrow> Some (check_free_callbacks
                    (s\<lparr>gnttab_free_head := head,
                       gnttab_free_count := gnttab_free_count s + int count\<rparr>))))"

definition gnttab_alloc_grant_references ::
    "gnt_env \<Rightarrow> u16 \<Rightarrow> gnttab \<Rightarrow> (int \<times> nat option \<times> gnttab) option" where
  "gnttab_alloc_grant_references e count s =
     (case get_free_entries e (int (unat count)) s of None \<Rightarrow> None
      | Some (h, s) \<Rightarrow> if h < 0 then Some (- ENOSPC, None, s) else Some (0, Some (nat h), s))"

definition gnttab_empty_grant_references :: "nat \<Rightarrow> bool" where
  "gnttab_empty_grant_references private_head \<longleftrightarrow> private_head = GNTTAB_LIST_END"

text \<open>The result and the new private head.\<close>

definition gnttab_claim_grant_reference :: "nat \<Rightarrow> gnttab \<Rightarrow> (int \<times> nat) option" where
  "gnttab_claim_grant_reference private_head s =
     (if private_head = GNTTAB_LIST_END then Some (- ENOSPC, private_head)
      else map_option (Pair (int private_head)) (gnttab_entry s private_head))"

definition gnttab_release_grant_reference :: "nat \<Rightarrow> nat \<Rightarrow> gnttab \<Rightarrow> (nat \<times> gnttab) option" where
  "gnttab_release_grant_reference private_head rel s =
     map_option (Pair rel) (set_gnttab_entry rel private_head s)"

section \<open>Granting access\<close>

definition set_shared :: "nat \<Rightarrow> (grant_entry_v1 \<Rightarrow> grant_entry_v1) \<Rightarrow> gnttab \<Rightarrow> gnttab" where
  "set_shared r f s = s\<lparr>shared := (shared s)(r := f (shared s r))\<rparr>"

definition gnttab_grant_foreign_access_ref :: "nat \<Rightarrow> u16 \<Rightarrow> u32 \<Rightarrow> u16 \<Rightarrow> gnttab \<Rightarrow> gnttab option" where
  "gnttab_grant_foreign_access_ref ref dmn fr fl s =
     (let s = set_shared ref (\<lambda>g. g\<lparr>frame := fr, domid := dmn\<rparr>) s
      in if fl AND (GTF_accept_transfer OR GTF_reading OR GTF_writing) \<noteq> 0 then None
         else Some (set_shared ref (\<lambda>g. g\<lparr>flags := GTF_permit_access OR fl\<rparr>) s))"

definition gnttab_grant_foreign_access ::
    "gnt_env \<Rightarrow> u16 \<Rightarrow> u32 \<Rightarrow> u16 \<Rightarrow> gnttab \<Rightarrow> (int \<times> gnttab) option" where
  "gnttab_grant_foreign_access e dmn fr fl s =
     (case get_free_entries e 1 s of None \<Rightarrow> None
      | Some (ref, s) \<Rightarrow>
          if ref < 0 then Some (- ENOSPC, s)
          else map_option (Pair ref) (gnttab_grant_foreign_access_ref (nat ref) dmn fr fl s))"

definition gnttab_query_foreign_access :: "nat \<Rightarrow> gnttab \<Rightarrow> u16" where
  "gnttab_query_foreign_access ref s = flags (shared s ref) AND (GTF_reading OR GTF_writing)"

text \<open>
  The compare-and-exchange loop races with the hypervisor, which sets and clears the access
  bits: \<open>ws\<close> is what it writes to the entry's flags before each attempt, and it is quiet
  when \<open>ws\<close> is used up.
\<close>

fun end_foreign_access_ref :: "u16 list \<Rightarrow> nat \<Rightarrow> gnttab \<Rightarrow> bool \<times> gnttab" where
  "end_foreign_access_ref [] ref s =
     (if flags (shared s ref) AND (GTF_reading OR GTF_writing) \<noteq> 0 then (False, s)
      else (True, set_shared ref (\<lambda>g. g\<lparr>flags := 0\<rparr>) s))"
| "end_foreign_access_ref (w # ws) ref s =
     (let nflags = flags (shared s ref)
      in if nflags AND (GTF_reading OR GTF_writing) \<noteq> 0 then (False, s)
         else let s = set_shared ref (\<lambda>g. g\<lparr>flags := w\<rparr>) s
              in if w = nflags then (True, set_shared ref (\<lambda>g. g\<lparr>flags := 0\<rparr>) s)
                 else end_foreign_access_ref ws ref s)"

definition gnttab_end_foreign_access_ref :: "u16 list \<Rightarrow> nat \<Rightarrow> gnttab \<Rightarrow> int \<times> gnttab" where
  "gnttab_end_foreign_access_ref ws ref s =
     (case end_foreign_access_ref ws ref s of (ok, s) \<Rightarrow> (if ok then 1 else 0, s))"

section \<open>Deferred release\<close>

definition arm_timer :: "gnttab \<Rightarrow> gnttab" where
  "arm_timer s = (if deferred_timer_pending s then s else s\<lparr>deferred_timer_pending := True\<rparr>)"

text \<open>\<open>addr\<close> is the result of \<open>kmalloc\<close>; without memory the entry is leaked.\<close>

definition gnttab_add_deferred :: "nat option \<Rightarrow> nat \<Rightarrow> nat option \<Rightarrow> gnttab \<Rightarrow> gnttab" where
  "gnttab_add_deferred addr ref pg s =
     (case addr of None \<Rightarrow> s
      | Some a \<Rightarrow> arm_timer (s\<lparr>deferred_list := deferred_list s @
          [\<lparr>de_addr = a, de_ref = ref, de_warn_delay = 60, de_page = pg\<rparr>]\<rparr>))"

definition free_page :: "nat option \<Rightarrow> gnttab \<Rightarrow> gnttab" where
  "free_page pg s = (case pg of None \<Rightarrow> s | Some p \<Rightarrow> s\<lparr>freed_pages := freed_pages s @ [p]\<rparr>)"

definition gnttab_end_foreign_access ::
    "u16 list \<Rightarrow> nat option \<Rightarrow> nat \<Rightarrow> nat option \<Rightarrow> gnttab \<Rightarrow> gnttab option" where
  "gnttab_end_foreign_access ws addr ref pg s =
     (case gnttab_end_foreign_access_ref ws ref s of
        (ok, s) \<Rightarrow> if ok \<noteq> 0 then map_option (free_page pg) (put_free_entry ref s)
                   else Some (gnttab_add_deferred addr ref pg s))"

text \<open>
  Taking the first entry of the list when it is empty treats the list head as an entry, which
  is a wild access. \<open>sched\<close> gives the hypervisor's writes to each entry visited.
\<close>

fun handle_deferred_loop ::
    "(nat \<Rightarrow> u16 list) \<Rightarrow> nat \<Rightarrow> nat option \<Rightarrow> gnttab \<Rightarrow> gnttab option" where
  "handle_deferred_loop sched 0 first s = Some s"
| "handle_deferred_loop sched (Suc nr) first s =
     (case deferred_list s of [] \<Rightarrow> None
      | e # es \<Rightarrow>
          if Some (de_addr e) = first then Some s
          else (case end_foreign_access_ref (sched (de_ref e)) (de_ref e) (s\<lparr>deferred_list := es\<rparr>) of
                  (True, s) \<Rightarrow>
                    (case put_free_entry (de_ref e) s of None \<Rightarrow> None
                     | Some s \<Rightarrow>
                         let s = free_page (de_page e) s
                         in if deferred_list s = [] then Some s
                            else handle_deferred_loop sched nr first s)
                | (False, s) \<Rightarrow>
                    let e' = e\<lparr>de_warn_delay := de_warn_delay e - 1\<rparr>;
                        first = (if first = None then Some (de_addr e) else first)
                    in handle_deferred_loop sched nr first
                         (s\<lparr>deferred_list := deferred_list s @ [e']\<rparr>)))"

definition gnttab_handle_deferred :: "(nat \<Rightarrow> u16 list) \<Rightarrow> gnttab \<Rightarrow> gnttab option" where
  "gnttab_handle_deferred sched s =
     (case handle_deferred_loop sched 10 None s of None \<Rightarrow> None
      | Some s \<Rightarrow> Some (if deferred_list s \<noteq> [] then arm_timer s else s))"

text \<open>
  Ending access to a batch: \<open>refs\<close> and \<open>pages\<close> are the caller's arrays (\<open>pages\<close> may be
  \<open>NULL\<close>), returned as the call leaves them; \<open>mem\<close> are the results of the successive
  \<open>kmalloc\<close> calls.
\<close>

fun gnttab_multi_end_foreign_access ::
    "(nat \<Rightarrow> u16 list) \<Rightarrow> nat option list \<Rightarrow> nat list \<Rightarrow> nat option list option \<Rightarrow> gnttab \<Rightarrow>
     (nat list \<times> nat option list option \<times> gnttab) option" where
  "gnttab_multi_end_foreign_access sched mem [] pages s = Some ([], pages, s)"
| "gnttab_multi_end_foreign_access sched mem (r # rs) None s =
     (if r = GRANT_INVALID_REF
      then map_option (\<lambda>(rs', pg', s). (r # rs', pg', s))
             (gnttab_multi_end_foreign_access sched mem rs None s)
      else (case gnttab_end_foreign_access_ref (sched r) r s of
              (ok, s) \<Rightarrow>
                (case (if ok \<noteq> 0 then map_option (Pair mem) (put_free_entry r s)
                       else Some (tl mem, gnttab_add_deferred (if mem = [] then None else hd mem) r None s))
                 of None \<Rightarrow> None
                  | Some (mem, s) \<Rightarrow>
                      map_option (\<lambda>(rs', pg', s). (GRANT_INVALID_REF # rs', pg', s))
                        (gnttab_multi_end_foreign_access sched mem rs None s))))"
| "gnttab_multi_end_foreign_access sched mem (r # rs) (Some []) s = None"
| "gnttab_multi_end_foreign_access sched mem (r # rs) (Some (pg # pgs)) s =
     (case (if r = GRANT_INVALID_REF then Some (mem, pg, s)
            else (case gnttab_end_foreign_access_ref (sched r) r s of
                    (ok, s) \<Rightarrow>
                      if ok \<noteq> 0 then map_option (\<lambda>s. (mem, pg, s)) (put_free_entry r s)
                      else Some (tl mem, None,
                             gnttab_add_deferred (if mem = [] then None else hd mem) r pg s)))
      of None \<Rightarrow> None
       | Some (mem, pg, s) \<Rightarrow>
           map_option (\<lambda>(rs', pg', s). (GRANT_INVALID_REF # rs', map_option (Cons None) pg', s))
             (gnttab_multi_end_foreign_access sched mem rs (Some pgs) (free_page pg s)))"

section \<open>Transfers\<close>

definition gnttab_grant_foreign_transfer_ref :: "nat \<Rightarrow> u16 \<Rightarrow> u32 \<Rightarrow> gnttab \<Rightarrow> gnttab" where
  "gnttab_grant_foreign_transfer_ref ref dmn pfn s =
     set_shared ref (\<lambda>g. g\<lparr>frame := pfn, domid := dmn, flags := GTF_accept_transfer\<rparr>) s"

definition gnttab_grant_foreign_transfer ::
    "gnt_env \<Rightarrow> u16 \<Rightarrow> u32 \<Rightarrow> gnttab \<Rightarrow> (int \<times> gnttab) option" where
  "gnttab_grant_foreign_transfer e dmn pfn s =
     (case get_free_entries e 1 s of None \<Rightarrow> None
      | Some (ref, s) \<Rightarrow>
          if ref < 0 then Some (- ENOSPC, s)
          else Some (ref, gnttab_grant_foreign_transfer_ref (nat ref) dmn pfn s))"

text \<open>
  Both loops race with the hypervisor, which commits and completes the transfer: \<open>ws\<close> is what
  it writes to flags and frame before each further read. If it goes quiet between the two
  the code spins for ever; a completed transfer of frame 0 is \<open>BUG\<close>.
\<close>

datatype transfer_end = Frame u32 | Spins | Frame_BUG

definition read_frame :: "nat \<Rightarrow> gnttab \<Rightarrow> transfer_end" where
  "read_frame ref s = (if frame (shared s ref) = 0 then Frame_BUG else Frame (frame (shared s ref)))"

definition xen_writes :: "nat \<Rightarrow> u16 \<times> u32 \<Rightarrow> gnttab \<Rightarrow> gnttab" where
  "xen_writes ref w s = set_shared ref (\<lambda>g. g\<lparr>flags := fst w, frame := snd w\<rparr>) s"

fun wait_completed :: "(u16 \<times> u32) list \<Rightarrow> u16 \<Rightarrow> nat \<Rightarrow> gnttab \<Rightarrow> transfer_end \<times> gnttab" where
  "wait_completed [] fl ref s =
     (if fl AND GTF_transfer_completed \<noteq> 0 then (read_frame ref s, s)
      else if flags (shared s ref) AND GTF_transfer_completed \<noteq> 0 then (read_frame ref s, s)
      else (Spins, s))"
| "wait_completed (w # ws) fl ref s =
     (if fl AND GTF_transfer_completed \<noteq> 0 then (read_frame ref s, s)
      else let s = xen_writes ref w s in wait_completed ws (flags (shared s ref)) ref s)"

fun gnttab_end_foreign_transfer_ref ::
    "(u16 \<times> u32) list \<Rightarrow> nat \<Rightarrow> gnttab \<Rightarrow> transfer_end \<times> gnttab" where
  "gnttab_end_foreign_transfer_ref [] ref s =
     (let fl = flags (shared s ref)
      in if fl AND GTF_transfer_committed = 0
         then (Frame 0, set_shared ref (\<lambda>g. g\<lparr>flags := 0\<rparr>) s)
         else wait_completed [] fl ref s)"
| "gnttab_end_foreign_transfer_ref (w # ws) ref s =
     (let fl = flags (shared s ref)
      in if fl AND GTF_transfer_committed = 0
         then let s = xen_writes ref w s
              in if flags (shared s ref) = fl
                 then (Frame 0, set_shared ref (\<lambda>g. g\<lparr>flags := 0\<rparr>) s)
                 else gnttab_end_foreign_transfer_ref ws ref s
         else wait_completed (w # ws) fl ref s)"

definition gnttab_end_foreign_transfer ::
    "(u16 \<times> u32) list \<Rightarrow> nat \<Rightarrow> gnttab \<Rightarrow> (transfer_end \<times> gnttab) option" where
  "gnttab_end_foreign_transfer ws ref s =
     (case gnttab_end_foreign_transfer_ref ws ref s of
        (Frame f, s) \<Rightarrow> map_option (Pair (Frame f)) (put_free_entry ref s)
      | (r, s) \<Rightarrow> Some (r, s))"

section \<open>Initialisation\<close>

definition gnttab_init :: "gnt_env \<Rightarrow> gnttab \<Rightarrow> (int \<times> gnttab) option" where
  "gnttab_init e s =
     (if \<not> running_on_xen e then Some (- ENODEV, s)
      else let s = s\<lparr>nr_grant_frames := 1, boot_max_nr_grant_frames := raw_max_nr_grant_frames e\<rparr>
      in if \<not> kmalloc_list e then Some (- ENOMEM, s)
      else let nr_glist = nr_freelist_frames 1
      in case grow_pages e [0..<nr_glist] s of
           (Some i, s) \<Rightarrow> Some (- ENOMEM, drop_pages (rev [0..<i]) s)
         | (None, s) \<Rightarrow>
             (case gnttab_resume e s of None \<Rightarrow> None
              | Some (rc, s) \<Rightarrow>
                  if rc < 0 then Some (- ENODEV, drop_pages (rev [0..<nr_glist]) s)
                  else let n = nr_grant_frames s * ENTRIES_PER_GRANT_FRAME
                  in case link_entries NR_RESERVED_ENTRIES (n - 1 - NR_RESERVED_ENTRIES) s of None \<Rightarrow> None
                     | Some s \<Rightarrow>
                         (case set_gnttab_entry (n - 1) GNTTAB_LIST_END s of None \<Rightarrow> None
                          | Some s \<Rightarrow>
                              Some (0, s\<lparr>gnttab_free_count := int (n - NR_RESERVED_ENTRIES),
                                         gnttab_free_head := NR_RESERVED_ENTRIES\<rparr>))))"

end
