(* ===== verification/Gnttab_Props.thy ===== *)
theory Gnttab_Props
  imports Gnttab
begin

text \<open>
  Correctness of the grant reference allocator of \<open>Gnttab\<close>: the list threaded through
  \<open>gnttab_list\<close> as a list of references, what each operation does to it, the allocator
  contract, ending access, and the deferred entries.
\<close>

section \<open>The free list as a list of references\<close>

definition gnt_next :: "gnttab \<Rightarrow> nat \<Rightarrow> nat" where
  "gnt_next s r = (case gnttab_entry s r of None \<Rightarrow> r | Some v \<Rightarrow> v)"

definition gnt_free :: "gnttab \<Rightarrow> nat list" where
  "gnt_free s = chain_list (gnt_next s) (nat (gnttab_free_count s)) (gnttab_free_head s)"

definition gnt_refs :: "gnttab \<Rightarrow> nat set" where
  "gnt_refs s = {NR_RESERVED_ENTRIES..<ENTRIES_PER_GRANT_FRAME * nr_grant_frames s}"

definition gnt_pages :: "gnttab \<Rightarrow> bool" where
  "gnt_pages s \<longleftrightarrow> (\<forall>p < nr_freelist_frames (nr_grant_frames s). gnttab_list s p \<noteq> None) \<and>
     1 \<le> nr_grant_frames s \<and> nr_grant_frames s \<le> boot_max_nr_grant_frames s \<and>
     ENTRIES_PER_GRANT_FRAME * boot_max_nr_grant_frames s \<le> 2 ^ 31"

text \<open>What the free list does not touch.\<close>

definition outside :: "gnttab \<Rightarrow> (nat \<Rightarrow> grant_entry_v1) \<times> deferred_entry list \<times> nat list \<times> bool" where
  "outside s = (shared s, deferred_list s, freed_pages s, deferred_timer_pending s)"

definition gnt_inv :: "gnttab \<Rightarrow> bool" where
  "gnt_inv s \<longleftrightarrow> gnt_pages s \<and> 0 \<le> gnttab_free_count s \<and>
     linked (gnt_next s) (gnttab_free_head s) GNTTAB_LIST_END (gnt_free s) \<and>
     distinct (gnt_free s) \<and> set (gnt_free s) \<subseteq> gnt_refs s"

lemma gnt_inv_free_list:
  assumes "gnt_pages s" and "linked (gnt_next s) (gnttab_free_head s) GNTTAB_LIST_END xs"
    and "gnttab_free_count s = int (length xs)" and "distinct xs" and "set xs \<subseteq> gnt_refs s"
  shows "gnt_inv s \<and> gnt_free s = xs"
proof -
  have "gnt_free s = xs" using linked_chain_list [OF assms(2)] assms(3) by (simp add: gnt_free_def)
  then show ?thesis using assms by (simp add: gnt_inv_def)
qed

lemma length_gnt_free: "gnt_inv s \<Longrightarrow> int (length (gnt_free s)) = gnttab_free_count s"
  by (simp add: gnt_free_def gnt_inv_def)

lemma gnt_entry_page:
  "gnt_pages s \<Longrightarrow> r < ENTRIES_PER_GRANT_FRAME * nr_grant_frames s \<Longrightarrow> gnttab_list s (r div RPP) \<noteq> None"
  unfolding gnt_pages_def nr_freelist_frames_def RPP_def ENTRIES_PER_GRANT_FRAME_def by auto

lemma gnt_entry_Some:
  "gnt_pages s \<Longrightarrow> r < ENTRIES_PER_GRANT_FRAME * nr_grant_frames s \<Longrightarrow> gnttab_entry s r = Some (gnt_next s r)"
  using gnt_entry_page [of s r] by (auto simp: gnttab_entry_def gnt_next_def)

definition put_entry :: "nat \<Rightarrow> nat \<Rightarrow> gnttab \<Rightarrow> gnttab" where
  "put_entry r v s =
     s\<lparr>gnttab_list := (gnttab_list s)(r div RPP \<mapsto> (the (gnttab_list s (r div RPP)))(r mod RPP := v))\<rparr>"

lemma set_entry_put:
  "gnt_pages s \<Longrightarrow> r < ENTRIES_PER_GRANT_FRAME * nr_grant_frames s \<Longrightarrow>
   set_gnttab_entry r v s = Some (put_entry r v s)"
  using gnt_entry_page [of s r] by (auto simp: set_gnttab_entry_def put_entry_def)

lemma div_mod_same: "(a :: nat) div n = b div n \<Longrightarrow> a mod n = b mod n \<Longrightarrow> a = b"
  by (metis div_mod_decomp)

lemma gnt_next_put:
  assumes "gnttab_list s (r div RPP) \<noteq> None"
  shows "gnt_next (put_entry r v s) = (gnt_next s)(r := v)"
proof
  fix x
  show "gnt_next (put_entry r v s) x = ((gnt_next s)(r := v)) x"
    using assms div_mod_same [of x RPP r]
    by (auto simp: gnt_next_def gnttab_entry_def put_entry_def)
qed

lemma put_entry_frame [simp]:
  "nr_grant_frames (put_entry r v s) = nr_grant_frames s"
  "gnttab_free_count (put_entry r v s) = gnttab_free_count s"
  "gnttab_free_head (put_entry r v s) = gnttab_free_head s"
  "gnttab_free_callback_list (put_entry r v s) = gnttab_free_callback_list s"
  "callbacks (put_entry r v s) = callbacks s"
  "deferred_list (put_entry r v s) = deferred_list s"
  "deferred_timer_pending (put_entry r v s) = deferred_timer_pending s"
  "shared (put_entry r v s) = shared s"
  "freed_pages (put_entry r v s) = freed_pages s"
  "called (put_entry r v s) = called s"
  "resume_frames (put_entry r v s) = resume_frames s"
  "boot_max_nr_grant_frames (put_entry r v s) = boot_max_nr_grant_frames s"
  by (simp_all add: put_entry_def)

lemma gnt_pages_put [simp]: "gnt_pages s \<Longrightarrow> gnt_pages (put_entry r v s)"
  by (simp add: gnt_pages_def put_entry_def)

lemma gnt_refs_put [simp]: "gnt_refs (put_entry r v s) = gnt_refs s"
  by (simp add: gnt_refs_def)

text \<open>Callbacks touch nothing the free list depends on.\<close>

definition same_list :: "gnttab \<Rightarrow> gnttab \<Rightarrow> bool" where
  "same_list s t \<longleftrightarrow> gnttab_list t = gnttab_list s \<and> nr_grant_frames t = nr_grant_frames s \<and>
     boot_max_nr_grant_frames t = boot_max_nr_grant_frames s \<and>
     gnttab_free_count t = gnttab_free_count s \<and> gnttab_free_head t = gnttab_free_head s"

lemma free_callbacks_loop_frame:
  "same_list s (free_callbacks_loop cs s) \<and> outside (free_callbacks_loop cs s) = outside s"
  by (induction cs s rule: free_callbacks_loop.induct) (auto simp: same_list_def outside_def Let_def)

lemma check_callbacks_frame:
  "same_list s (check_free_callbacks s) \<and> outside (check_free_callbacks s) = outside s"
  using free_callbacks_loop_frame [of "s\<lparr>gnttab_free_callback_list := []\<rparr>"]
  by (auto simp: check_free_callbacks_def do_free_callbacks_def same_list_def outside_def)

lemma same_list_gnt:
  assumes "same_list s t"
  shows "gnt_inv t = gnt_inv s \<and> gnt_free t = gnt_free s \<and> gnt_refs t = gnt_refs s \<and>
         gnt_next t = gnt_next s \<and> gnt_pages t = gnt_pages s"
proof -
  have "gnt_next t = gnt_next s"
    using assms by (auto simp: same_list_def gnt_next_def gnttab_entry_def fun_eq_iff)
  then show ?thesis
    using assms by (auto simp: same_list_def gnt_inv_def gnt_free_def gnt_refs_def gnt_pages_def)
qed

lemma outside_upd [simp]:
  "outside (s\<lparr>gnttab_list := l\<rparr>) = outside s" "outside (s\<lparr>gnttab_free_count := c\<rparr>) = outside s"
  "outside (s\<lparr>gnttab_free_head := h\<rparr>) = outside s" "outside (s\<lparr>nr_grant_frames := n\<rparr>) = outside s"
  "outside (put_entry r v s) = outside s"
  by (simp_all add: outside_def)

lemma gnt_walk_linked:
  "linked (gnt_next s) h GNTTAB_LIST_END (ys @ y # zs) \<Longrightarrow> gnt_pages s \<Longrightarrow> set ys \<subseteq> gnt_refs s \<Longrightarrow>
   gnt_walk s (length ys) h = Some y"
  by (induction ys arbitrary: h) (auto simp: gnt_entry_Some gnt_refs_def)

lemma gnt_upd [simp]:
  "gnttab_entry (s\<lparr>gnttab_free_count := c\<rparr>) r = gnttab_entry s r"
  "gnttab_entry (s\<lparr>gnttab_free_head := h\<rparr>) r = gnttab_entry s r"
  "gnttab_entry (s\<lparr>nr_grant_frames := n\<rparr>) r = gnttab_entry s r"
  by (simp_all add: gnttab_entry_def)

lemma gnt_next_upd [simp]:
  "gnt_next (s\<lparr>gnttab_free_count := c\<rparr>) = gnt_next s"
  "gnt_next (s\<lparr>gnttab_free_head := h\<rparr>) = gnt_next s"
  "gnt_next (s\<lparr>nr_grant_frames := n\<rparr>) = gnt_next s"
  by (auto simp: gnt_next_def fun_eq_iff)

lemma gnt_pages_upd [simp]:
  "gnt_pages (s\<lparr>gnttab_free_count := c\<rparr>) = gnt_pages s"
  "gnt_pages (s\<lparr>gnttab_free_head := h\<rparr>) = gnt_pages s"
  by (auto simp: gnt_pages_def)

lemma gnt_walk_upd [simp]: "gnt_walk (s\<lparr>gnttab_free_count := c\<rparr>) n h = gnt_walk s n h"
  by (induction n arbitrary: h) (auto split: option.splits)

lemma take_entries_ok:
  assumes inv: "gnt_inv s" and n: "1 \<le> n" "n \<le> length (gnt_free s)"
  shows "\<exists>s'. take_entries (int n) s = Some (int (gnttab_free_head s), s') \<and> gnt_inv s' \<and>
           gnt_free s' = drop n (gnt_free s) \<and> gnt_refs s' = gnt_refs s \<and>
           linked (gnt_next s') (gnttab_free_head s) GNTTAB_LIST_END (take n (gnt_free s)) \<and>
           gnttab_free_count s' = gnttab_free_count s - int n \<and> outside s' = outside s"
proof -
  obtain ys y zs where split: "gnt_free s = ys @ y # zs" "length ys = n - 1"
  proof (rule that)
    show "gnt_free s = take (n - 1) (gnt_free s) @ gnt_free s ! (n - 1) # drop n (gnt_free s)"
      using id_take_nth_drop [of "n - 1" "gnt_free s"] n by simp
    show "length (take (n - 1) (gnt_free s)) = n - 1" using n by simp
  qed
  then have tk: "take n (gnt_free s) = ys @ [y]" "drop n (gnt_free s) = zs" using n by auto
  let ?h = "gnttab_free_head s" and ?E = GNTTAB_LIST_END
  have l: "linked (gnt_next s) ?h ?E (ys @ y # zs)" and d: "distinct (ys @ y # zs)"
    and sub: "set (ys @ y # zs) \<subseteq> gnt_refs s" and pg: "gnt_pages s"
    using inv split by (auto simp: gnt_inv_def)
  have y: "y < ENTRIES_PER_GRANT_FRAME * nr_grant_frames s" using sub by (auto simp: gnt_refs_def)
  let ?t = "s\<lparr>gnttab_free_count := gnttab_free_count s - int n\<rparr>"
  let ?u = "?t\<lparr>gnttab_free_head := gnt_next s y\<rparr>"
  let ?v = "put_entry y ?E ?u"
  have w: "gnt_walk s (n - 1) ?h = Some y"
    using gnt_walk_linked [OF l pg] sub split(2) by auto
  have nxt: "gnt_next ?v = (gnt_next s)(y := ?E)"
    using gnt_next_put [of ?u y ?E] gnt_entry_page [OF pg y] by simp
  have pu: "gnt_pages ?u" using pg by simp
  have set: "set_gnttab_entry y ?E ?u = Some ?v"
    by (rule set_entry_put [OF pu]) (use y in simp)
  have run: "take_entries (int n) s = Some (int ?h, ?v)"
    using n by (simp add: take_entries_def Let_def w [simplified] nat_diff_distrib gnt_entry_Some [OF pg y] set)
  have lz: "linked ((gnt_next s)(y := ?E)) (gnt_next s y) ?E zs"
    using linked_drop [OF l] d by simp
  have len: "gnttab_free_count s = int (length (gnt_free s))" using length_gnt_free [OF inv] by simp
  have "gnt_inv ?v \<and> gnt_free ?v = zs"
  proof (rule gnt_inv_free_list)
    show "linked (gnt_next ?v) (gnttab_free_head ?v) ?E zs" using lz nxt by simp
    show "gnttab_free_count ?v = int (length zs)" using len split n by simp
    show "set zs \<subseteq> gnt_refs ?v" using sub by (auto simp: gnt_refs_def)
  qed (use pu d in auto)
  moreover have "linked (gnt_next ?v) ?h ?E (ys @ [y])"
    unfolding nxt by (rule linked_take_cut [OF l]) (use d in auto)
  ultimately show ?thesis using run tk by (auto simp: gnt_refs_def)
qed

section \<open>Growth\<close>

lemma grow_pages_list:
  "\<exists>L. snd (grow_pages e is s) = s\<lparr>gnttab_list := L\<rparr> \<and> (\<forall>p. p \<notin> set is \<longrightarrow> L p = gnttab_list s p) \<and>
     (case fst (grow_pages e is s) of None \<Rightarrow> \<forall>p \<in> set is. L p \<noteq> None | Some i \<Rightarrow> i \<in> set is)"
  if "distinct is"
  using that
proof (induction e "is" s rule: grow_pages.induct)
  case (1 e s)
  show ?case by (rule exI [of _ "gnttab_list s"]) simp
next
  case (2 e i "is" s)
  show ?case
  proof (cases "get_free_page e i")
    case None
    then show ?thesis by (intro exI [of _ "(gnttab_list s)(i := None)"]) (simp add: fun_upd_def)
  next
    case (Some p)
    from 2(1) [OF Some] 2(2) obtain L where
      L: "snd (grow_pages e is (s\<lparr>gnttab_list := (gnttab_list s)(i \<mapsto> p)\<rparr>)) = s\<lparr>gnttab_list := L\<rparr>"
      "\<forall>q. q \<notin> set is \<longrightarrow> L q = ((gnttab_list s)(i \<mapsto> p)) q"
      "case fst (grow_pages e is (s\<lparr>gnttab_list := (gnttab_list s)(i \<mapsto> p)\<rparr>)) of
         None \<Rightarrow> \<forall>p \<in> set is. L p \<noteq> None | Some i \<Rightarrow> i \<in> set is" by auto
    have "L i = Some p" using L(2) 2(2) by simp
    then show ?thesis using L Some 2(2) by (intro exI [of _ L]) (auto split: option.splits)
  qed
qed

lemma drop_pages_list:
  "\<exists>L. drop_pages is s = s\<lparr>gnttab_list := L\<rparr> \<and> (\<forall>p. p \<notin> set is \<longrightarrow> L p = gnttab_list s p)"
proof (induction "is" arbitrary: s)
  case Nil
  show ?case by (rule exI [of _ "gnttab_list s"]) simp
next
  case (Cons i "is")
  obtain L where "drop_pages is (s\<lparr>gnttab_list := (gnttab_list s)(i := None)\<rparr>) = s\<lparr>gnttab_list := L\<rparr>"
    "\<forall>p. p \<notin> set is \<longrightarrow> L p = ((gnttab_list s)(i := None)) p"
    using Cons.IH [of "s\<lparr>gnttab_list := (gnttab_list s)(i := None)\<rparr>"] by auto
  then show ?case by (intro exI [of _ L]) auto
qed

lemma set_entry_page:
  "gnttab_list s (r div RPP) \<noteq> None \<Longrightarrow> set_gnttab_entry r v s = Some (put_entry r v s)"
  by (auto simp: set_gnttab_entry_def put_entry_def)

lemma put_entry_pages: "gnttab_list s p \<noteq> None \<Longrightarrow> gnttab_list (put_entry r v s) p \<noteq> None"
  by (simp add: put_entry_def)

lemma link_entries_list:
  assumes "\<And>x. i \<le> x \<Longrightarrow> x < i + n \<Longrightarrow> gnttab_list s (x div RPP) \<noteq> None"
  shows "\<exists>L. link_entries i n s = Some (s\<lparr>gnttab_list := L\<rparr>) \<and>
           (\<forall>p. gnttab_list s p \<noteq> None \<longrightarrow> L p \<noteq> None) \<and>
           gnt_next (s\<lparr>gnttab_list := L\<rparr>) = (\<lambda>x. if i \<le> x \<and> x < i + n then x + 1 else gnt_next s x)"
  using assms
proof (induction n arbitrary: i s)
  case 0
  show ?case by (rule exI [of _ "gnttab_list s"]) (auto simp: fun_eq_iff)
next
  case (Suc n)
  let ?s = "put_entry i (i + 1) s"
  have p: "gnttab_list s (i div RPP) \<noteq> None" using Suc.prems by simp
  have "\<And>x. i + 1 \<le> x \<Longrightarrow> x < i + 1 + n \<Longrightarrow> gnttab_list ?s (x div RPP) \<noteq> None"
    using Suc.prems put_entry_pages by simp
  from Suc.IH [OF this] obtain L where
    L: "link_entries (i + 1) n ?s = Some (?s\<lparr>gnttab_list := L\<rparr>)"
       "\<forall>p. gnttab_list ?s p \<noteq> None \<longrightarrow> L p \<noteq> None"
       "gnt_next (?s\<lparr>gnttab_list := L\<rparr>) =
         (\<lambda>x. if i + 1 \<le> x \<and> x < i + 1 + n then x + 1 else gnt_next ?s x)" by blast
  have eq: "?s\<lparr>gnttab_list := L\<rparr> = s\<lparr>gnttab_list := L\<rparr>" by (simp add: put_entry_def)
  have "gnt_next (s\<lparr>gnttab_list := L\<rparr>) = (\<lambda>x. if i \<le> x \<and> x < i + Suc n then x + 1 else gnt_next s x)"
    using L(3) unfolding eq gnt_next_put [OF p] by (auto simp: fun_eq_iff)
  then show ?case
    using L(1,2) p put_entry_pages by (intro exI [of _ L]) (auto simp: set_entry_page eq [simplified])
qed

lemma linked_upt:
  "(\<And>x. i \<le> x \<Longrightarrow> x < i + n \<Longrightarrow> nx x = x + 1) \<Longrightarrow> i + n \<le> e \<Longrightarrow>
   linked nx (i + n) e ys \<Longrightarrow> linked nx i e ([i..<i + n] @ ys)" for e :: nat
proof (induction n arbitrary: i)
  case 0
  then show ?case by simp
next
  case (Suc n)
  have "linked nx (i + 1) e ([i + 1..<i + 1 + n] @ ys)" using Suc.prems by (intro Suc.IH) auto
  moreover have "[i..<i + Suc n] = i # [i + 1..<i + 1 + n]" by (subst upt_conv_Cons) auto
  ultimately show ?case using Suc.prems by (simp del: upt_Suc)
qed

lemma gnt_pages_grow:
  assumes "gnt_pages s" and "nr_grant_frames s \<le> n" and "n \<le> boot_max_nr_grant_frames s"
    and "\<forall>p < nr_freelist_frames n. L p \<noteq> None"
  shows "gnt_pages (s\<lparr>gnttab_list := L, nr_grant_frames := n\<rparr>)"
  using assms by (auto simp: gnt_pages_def)

lemma entry_page_bound: "x < ENTRIES_PER_GRANT_FRAME * n \<Longrightarrow> x div RPP < nr_freelist_frames n"
  unfolding nr_freelist_frames_def RPP_def ENTRIES_PER_GRANT_FRAME_def by auto

lemma gnt_next_list: "gnttab_list t = gnttab_list s \<Longrightarrow> gnt_next t = gnt_next s"
  by (auto simp: gnt_next_def gnttab_entry_def fun_eq_iff)

lemma gnt_next_page: "gnttab_list t (r div RPP) = gnttab_list s (r div RPP) \<Longrightarrow> gnt_next t r = gnt_next s r"
  by (simp add: gnt_next_def gnttab_entry_def)

lemma grow_gnttab_list_ok:
  assumes inv: "gnt_inv s" and ex: "0 < ex" "nr_grant_frames s + ex \<le> boot_max_nr_grant_frames s"
  shows "\<exists>rc s'. grow_gnttab_list e ex s = Some (rc, s') \<and> gnt_inv s' \<and> outside s' = outside s \<and>
           (if rc = 0 then nr_grant_frames s' = nr_grant_frames s + ex \<and>
              gnt_free s' = [ENTRIES_PER_GRANT_FRAME * nr_grant_frames s
                             ..< ENTRIES_PER_GRANT_FRAME * (nr_grant_frames s + ex)] @ gnt_free s
            else rc = - ENOMEM \<and> nr_grant_frames s' = nr_grant_frames s \<and> gnt_free s' = gnt_free s)"
proof -
  let ?nr = "nr_grant_frames s" and ?E = ENTRIES_PER_GRANT_FRAME
  let ?is = "[nr_freelist_frames ?nr..<nr_freelist_frames (?nr + ex)]"
  let ?first = "?E * ?nr" and ?n = "?E * (?nr + ex) - 1 - ?E * ?nr"
  have pg: "gnt_pages s" and l: "linked (gnt_next s) (gnttab_free_head s) GNTTAB_LIST_END (gnt_free s)"
    and sub: "set (gnt_free s) \<subseteq> gnt_refs s" and d: "distinct (gnt_free s)"
    using inv by (auto simp: gnt_inv_def)
  obtain L where L: "snd (grow_pages e ?is s) = s\<lparr>gnttab_list := L\<rparr>"
    "\<forall>p. p \<notin> set ?is \<longrightarrow> L p = gnttab_list s p"
    "case fst (grow_pages e ?is s) of None \<Rightarrow> \<forall>p \<in> set ?is. L p \<noteq> None | Some i \<Rightarrow> i \<in> set ?is"
    using grow_pages_list [of ?is e s] by auto
  have old: "\<And>M. \<forall>p < nr_freelist_frames ?nr. M p = gnttab_list s p \<Longrightarrow>
      x < ?first \<Longrightarrow> gnt_next (s\<lparr>gnttab_list := M\<rparr>) x = gnt_next s x" for x
    by (rule gnt_next_page) (simp add: entry_page_bound)
  have oldl: "linked (gnt_next (s\<lparr>gnttab_list := M\<rparr>)) (gnttab_free_head s) GNTTAB_LIST_END (gnt_free s)"
    if "\<forall>p < nr_freelist_frames ?nr. M p = gnttab_list s p" for M
    using l sub old [OF that] by (subst linked_cong [of _ _ "gnt_next s"]) (auto simp: gnt_refs_def)
  show ?thesis
  proof (cases "fst (grow_pages e ?is s)")
    case (Some i)
    let ?ds = "rev [nr_freelist_frames ?nr..<Suc i]"
    obtain M where M: "drop_pages ?ds (s\<lparr>gnttab_list := L\<rparr>) = s\<lparr>gnttab_list := M\<rparr>"
      "\<forall>p. p \<notin> set ?ds \<longrightarrow> M p = L p"
      using drop_pages_list [of ?ds "s\<lparr>gnttab_list := L\<rparr>"] by auto
    have keep: "\<forall>p < nr_freelist_frames ?nr. M p = gnttab_list s p" using M(2) L(2) by simp
    let ?t = "s\<lparr>gnttab_list := M\<rparr>"
    have run: "grow_gnttab_list e ex s = Some (- ENOMEM, ?t)"
      using Some L(1) M(1) by (simp add: grow_gnttab_list_def Let_def split_beta split: prod.split)
    have "gnt_inv ?t \<and> gnt_free ?t = gnt_free s"
      by (rule gnt_inv_free_list)
         (use keep pg oldl [OF keep] length_gnt_free [OF inv] d sub in \<open>auto simp: gnt_pages_def gnt_refs_def\<close>)
    then show ?thesis using run by auto
  next
    case None
    let ?u = "s\<lparr>gnttab_list := L\<rparr>"
    have pgL: "L p \<noteq> None" if "p < nr_freelist_frames (?nr + ex)" for p
      using L(2,3) None pg that by (cases "p \<in> set ?is") (auto simp: gnt_pages_def)
    have lt: "?first + ?n < ?E * (?nr + ex)" "?first + ?n = ?E * (?nr + ex) - 1"
      using ex by (auto simp: ENTRIES_PER_GRANT_FRAME_def)
    obtain M where M: "link_entries ?first ?n ?u = Some (s\<lparr>gnttab_list := M\<rparr>)"
      "\<forall>p. L p \<noteq> None \<longrightarrow> M p \<noteq> None"
      "gnt_next (s\<lparr>gnttab_list := M\<rparr>) =
        (\<lambda>x. if ?first \<le> x \<and> x < ?first + ?n then x + 1 else gnt_next ?u x)"
      using link_entries_list [of ?first ?n ?u] pgL entry_page_bound lt(1) by auto
    let ?last = "?first + ?n"
    let ?v = "s\<lparr>gnttab_list := M\<rparr>" and ?w = "put_entry ?last (gnttab_free_head s) (s\<lparr>gnttab_list := M\<rparr>)"
    let ?x = "?w\<lparr>gnttab_free_head := ?first, gnttab_free_count := gnttab_free_count s + int (ex * ?E),
                nr_grant_frames := ?nr + ex\<rparr>"
    have page: "gnttab_list ?v (?last div RPP) \<noteq> None"
      using M(2) pgL entry_page_bound [OF lt(1)] by simp
    have run: "grow_gnttab_list e ex s = Some (0, check_free_callbacks ?x)"
      using None L(1) M(1) set_entry_page [OF page] lt(2)
      by (simp add: grow_gnttab_list_def Let_def split_beta split: prod.split)
    have nx: "gnt_next ?x = (gnt_next ?v)(?last := gnttab_free_head s)"
      using gnt_next_put [OF page] gnt_next_list [of ?x ?w] by simp
    have keep: "\<forall>p < nr_freelist_frames ?nr. L p = gnttab_list s p" using L(2) by simp
    have low: "\<forall>r \<in> set (gnt_free s). r < ?first" using sub by (auto simp: gnt_refs_def)
    have hi: "?first + (?n + 1) \<le> GNTTAB_LIST_END" "?n + 1 = ex * ?E"
      using ex pg by (auto simp: gnt_pages_def gnt_consts)
    have "linked (gnt_next ?x) ?first GNTTAB_LIST_END ([?first..<?last] @ ?last # gnt_free s)"
    proof (rule linked_upt)
      show "gnt_next ?x y = y + 1" if "?first \<le> y" "y < ?last" for y
        using that less_imp_neq [OF that(2)] by (simp only: nx M(3) fun_upd_apply if_False if_True simp_thms)
      have "linked (gnt_next ?x) (gnttab_free_head s) GNTTAB_LIST_END (gnt_free s)"
        using oldl [OF keep] low unfolding nx M(3)
        by (subst linked_cong [of _ _ "gnt_next ?u"]) auto
      then show "linked (gnt_next ?x) ?last GNTTAB_LIST_END (?last # gnt_free s)"
        using hi unfolding nx by simp
    qed (use hi in simp)
    moreover have all: "[?first..<?last] @ ?last # gnt_free s = [?first..<?E * (?nr + ex)] @ gnt_free s"
    proof -
      have "Suc ?last = ?E * (?nr + ex)" using lt by linarith
      moreover have "[?first..<Suc ?last] = [?first..<?last] @ [?last]" by (rule upt_Suc_append) simp
      ultimately show ?thesis by (metis append.assoc append_Cons append_Nil)
    qed
    ultimately have "linked (gnt_next ?x) ?first GNTTAB_LIST_END ([?first..<?E * (?nr + ex)] @ gnt_free s)"
      by (simp only:)
    moreover have "set (gnt_free s) \<subseteq> gnt_refs ?x"
      by (rule subset_trans [OF sub]) (auto simp: gnt_refs_def ENTRIES_PER_GRANT_FRAME_def)
    ultimately have "gnt_inv ?x \<and> gnt_free ?x = [?first..<?E * (?nr + ex)] @ gnt_free s"
      using M(2) pgL pg ex length_gnt_free [OF inv] d low
      by (intro gnt_inv_free_list) (auto simp: gnt_pages_def gnt_refs_def put_entry_def gnt_consts)
    then show ?thesis
      using run check_callbacks_frame [of ?x] same_list_gnt [of ?x "check_free_callbacks ?x"]
      by (auto simp: same_list_def)
  qed
qed

lemma gnttab_map_list:
  "gnttab_map e a b s = Some (rc, t) \<Longrightarrow>
   rc = 0 \<and> same_list s t \<and> outside t = outside s"
proof -
  have "gnttab_map_from e a n s = Some t \<Longrightarrow> same_list s t \<and> outside t = outside s" for n t s
    by (induction e a n s rule: gnttab_map_from.induct)
       (auto simp: same_list_def outside_def Let_def split: if_splits)
  then show "gnttab_map e a b s = Some (rc, t) \<Longrightarrow> rc = 0 \<and> same_list s t \<and> outside t = outside s"
    by (auto simp: gnttab_map_def)
qed

lemma gnttab_map_BUG: "gnttab_map e a b s = None \<Longrightarrow> \<exists>i. add_to_physmap e i \<noteq> 0"
proof -
  have "gnttab_map_from e a n s = None \<Longrightarrow> \<exists>i. add_to_physmap e i \<noteq> 0" for n s
    by (induction e a n s rule: gnttab_map_from.induct) (auto simp: Let_def split: if_splits)
  then show "gnttab_map e a b s = None \<Longrightarrow> \<exists>i. add_to_physmap e i \<noteq> 0"
    by (auto simp: gnttab_map_def)
qed

text \<open>The outcomes of \<open>gnttab_expand\<close>: a failed hypercall, an error that changes no reference, or
  whole frames of new references in front of the list.\<close>

lemma gnttab_expand_ok:
  assumes inv: "gnt_inv s" and k: "0 < k"
  obtains (bug) i where "gnttab_expand e k s = None" "add_to_physmap e i \<noteq> 0"
  | (err) rc s' where "gnttab_expand e k s = Some (rc, s')" "rc = - ENOSPC \<or> rc = - ENOMEM" "gnt_inv s'"
      "gnt_free s' = gnt_free s" "nr_grant_frames s' = nr_grant_frames s" "outside s' = outside s"
  | (ok) s' ex where "gnttab_expand e k s = Some (0, s')" "gnt_inv s'" "k \<le> ENTRIES_PER_GRANT_FRAME * ex"
      "nr_grant_frames s' = nr_grant_frames s + ex" "outside s' = outside s"
      "gnt_free s' = [ENTRIES_PER_GRANT_FRAME * nr_grant_frames s
                      ..< ENTRIES_PER_GRANT_FRAME * (nr_grant_frames s + ex)] @ gnt_free s"
proof -
  define ex where "ex = (k + (ENTRIES_PER_GRANT_FRAME - 1)) div ENTRIES_PER_GRANT_FRAME"
  have ex: "0 < ex" "k \<le> ENTRIES_PER_GRANT_FRAME * ex"
    using k by (auto simp: ex_def ENTRIES_PER_GRANT_FRAME_def)
  show ?thesis
  proof (cases "nr_grant_frames s + ex > max_nr_grant_frames e s")
    case True
    then have "gnttab_expand e k s = Some (- ENOSPC, s)" by (simp add: gnttab_expand_def Let_def ex_def)
    then show ?thesis using inv by (intro err) auto
  next
    case False
    then have fit: "nr_grant_frames s + ex \<le> boot_max_nr_grant_frames s"
      by (auto simp: max_nr_grant_frames_def Let_def split: if_splits)
    show ?thesis
    proof (cases "gnttab_map e (nr_grant_frames s) (nr_grant_frames s + ex - 1) s")
      case None
      then have "gnttab_expand e k s = None" using False by (simp add: gnttab_expand_def Let_def ex_def)
      then show ?thesis using gnttab_map_BUG [OF None] by (metis bug)
    next
      case (Some m)
      then obtain t where t: "gnttab_map e (nr_grant_frames s) (nr_grant_frames s + ex - 1) s = Some (0, t)"
        "same_list s t" "outside t = outside s" using gnttab_map_list by (cases m) blast
      have run: "gnttab_expand e k s = grow_gnttab_list e ex t"
        using False t(1) by (simp add: gnttab_expand_def Let_def ex_def)
      note same = same_list_gnt [OF t(2)]
      have nr: "nr_grant_frames t = nr_grant_frames s" "boot_max_nr_grant_frames t = boot_max_nr_grant_frames s"
        using t(2) by (auto simp: same_list_def)
      obtain rc s' where g: "grow_gnttab_list e ex t = Some (rc, s')" "gnt_inv s'" "outside s' = outside t"
        "if rc = 0 then nr_grant_frames s' = nr_grant_frames t + ex \<and>
              gnt_free s' = [ENTRIES_PER_GRANT_FRAME * nr_grant_frames t
                             ..< ENTRIES_PER_GRANT_FRAME * (nr_grant_frames t + ex)] @ gnt_free t
            else rc = - ENOMEM \<and> nr_grant_frames s' = nr_grant_frames t \<and> gnt_free s' = gnt_free t"
        using grow_gnttab_list_ok [of t ex e] inv same nr fit ex(1) by auto
      show ?thesis
      proof (cases "rc = 0")
        case True
        then show ?thesis using g same nr run ex t(3) by (intro ok [of s' ex]) auto
      next
        case False
        then show ?thesis using g same nr run t(3) by (intro err [of rc s']) auto
      qed
    qed
  qed
qed

section \<open>Putting references back\<close>

lemma put_free_entry_ok:
  assumes inv: "gnt_inv s" and r: "r \<in> gnt_refs s" "r \<notin> set (gnt_free s)"
  shows "\<exists>s'. put_free_entry r s = Some s' \<and> gnt_inv s' \<and> gnt_free s' = r # gnt_free s \<and>
           gnt_refs s' = gnt_refs s \<and> outside s' = outside s"
proof -
  have pg: "gnt_pages s" and l: "linked (gnt_next s) (gnttab_free_head s) GNTTAB_LIST_END (gnt_free s)"
    using inv by (auto simp: gnt_inv_def)
  have b: "r < ENTRIES_PER_GRANT_FRAME * nr_grant_frames s" using r by (simp add: gnt_refs_def)
  let ?w = "put_entry r (gnttab_free_head s) s"
  let ?x = "?w\<lparr>gnttab_free_head := r, gnttab_free_count := gnttab_free_count s + 1\<rparr>"
  have run: "put_free_entry r s = Some (check_free_callbacks ?x)"
    by (simp add: put_free_entry_def set_entry_put [OF pg b])
  have nx: "gnt_next ?x = (gnt_next s)(r := gnttab_free_head s)"
    using gnt_next_put [OF gnt_entry_page [OF pg b]] gnt_next_list [of ?x ?w] by simp
  have "gnt_inv ?x \<and> gnt_free ?x = r # gnt_free s"
  proof (rule gnt_inv_free_list)
    show "linked (gnt_next ?x) (gnttab_free_head ?x) GNTTAB_LIST_END (r # gnt_free s)"
      using l r b pg unfolding nx by (auto simp: gnt_pages_def gnt_consts)
  qed (use pg r inv length_gnt_free [OF inv] in \<open>auto simp: gnt_inv_def gnt_refs_def\<close>)
  then show ?thesis
    using run check_callbacks_frame [of ?x] same_list_gnt [of ?x "check_free_callbacks ?x"]
    by (auto simp: gnt_refs_def)
qed

lemma gnt_last_linked:
  "linked (gnt_next s) h GNTTAB_LIST_END (xs @ [y]) \<Longrightarrow> gnt_pages s \<Longrightarrow> set (xs @ [y]) \<subseteq> gnt_refs s \<Longrightarrow>
   length xs < fuel \<Longrightarrow> gnt_last s fuel h c = Some (y, c + length xs)"
proof (induction xs arbitrary: h c fuel)
  case Nil
  then show ?case by (cases fuel) (auto simp: gnt_entry_Some gnt_refs_def)
next
  case (Cons x xs)
  then obtain f where f: "fuel = Suc f" by (cases fuel) auto
  have "gnttab_entry s x = Some (gnt_next s x)" using Cons.prems by (auto intro!: gnt_entry_Some simp: gnt_refs_def)
  moreover have "gnt_next s x \<noteq> GNTTAB_LIST_END" using Cons.prems(1) by (cases xs) auto
  ultimately show ?case using Cons.IH [of "gnt_next s x" f "c + 1"] Cons.prems f by auto
qed

lemma gnttab_free_grant_references_ok:
  assumes inv: "gnt_inv s" and c: "linked (gnt_next s) h GNTTAB_LIST_END xs" "distinct xs"
    "set xs \<subseteq> gnt_refs s" "set xs \<inter> set (gnt_free s) = {}" and fuel: "length xs \<le> fuel"
  shows "\<exists>s'. gnttab_free_grant_references fuel h s = Some s' \<and> gnt_inv s' \<and>
           gnt_free s' = xs @ gnt_free s \<and> gnt_refs s' = gnt_refs s \<and> outside s' = outside s"
proof (cases xs rule: rev_cases)
  case Nil
  then show ?thesis using inv c(1) by (auto simp: gnttab_free_grant_references_def)
next
  case (snoc ys y)
  have pg: "gnt_pages s" and l: "linked (gnt_next s) (gnttab_free_head s) GNTTAB_LIST_END (gnt_free s)"
    using inv by (auto simp: gnt_inv_def)
  have b: "y < ENTRIES_PER_GRANT_FRAME * nr_grant_frames s" using c(3) snoc by (auto simp: gnt_refs_def)
  let ?w = "put_entry y (gnttab_free_head s) s"
  let ?x = "?w\<lparr>gnttab_free_head := h, gnttab_free_count := gnttab_free_count s + int (length xs)\<rparr>"
  have h: "h \<noteq> GNTTAB_LIST_END" using c(1) snoc by (cases ys) auto
  have "gnt_last s fuel h 1 = Some (y, length xs)"
    using gnt_last_linked [of s h ys y fuel 1] c(1,3) pg fuel snoc by simp
  then have run: "gnttab_free_grant_references fuel h s = Some (check_free_callbacks ?x)"
    using h set_entry_put [OF pg b] by (simp add: gnttab_free_grant_references_def)
  have nx: "gnt_next ?x = (gnt_next s)(y := gnttab_free_head s)"
    using gnt_next_put [OF gnt_entry_page [OF pg b]] gnt_next_list [of ?x ?w] by simp
  have "gnt_inv ?x \<and> gnt_free ?x = xs @ gnt_free s"
  proof (rule gnt_inv_free_list)
    show "linked (gnt_next ?x) (gnttab_free_head ?x) GNTTAB_LIST_END (xs @ gnt_free s)"
      unfolding nx using linked_snoc_upd [of "gnt_next s" h GNTTAB_LIST_END ys y _ "gnt_free s"] c l snoc
      by auto
  qed (use pg c inv length_gnt_free [OF inv] in \<open>auto simp: gnt_inv_def gnt_refs_def\<close>)
  then show ?thesis
    using run check_callbacks_frame [of ?x] same_list_gnt [of ?x "check_free_callbacks ?x"]
    by (auto simp: gnt_refs_def)
qed

section \<open>Allocation\<close>

text \<open>References created by growth, in the order they come to stand in front of the list.\<close>

definition gnt_grown :: "gnttab \<Rightarrow> gnttab \<Rightarrow> nat list" where
  "gnt_grown s s' = [ENTRIES_PER_GRANT_FRAME * nr_grant_frames s
                     ..< ENTRIES_PER_GRANT_FRAME * nr_grant_frames s']"

definition gnt_hands_out :: "nat \<Rightarrow> nat \<Rightarrow> nat list \<Rightarrow> gnttab \<Rightarrow> gnttab \<Rightarrow> bool" where
  "gnt_hands_out n h xs s s' \<longleftrightarrow> gnt_inv s' \<and> length xs = n \<and> distinct xs \<and>
     linked (gnt_next s') h GNTTAB_LIST_END xs \<and> set xs \<inter> set (gnt_free s') = {} \<and>
     set xs \<subseteq> gnt_refs s' \<and> xs @ gnt_free s' = gnt_grown s s' @ gnt_free s \<and>
     (n \<le> length (gnt_free s) \<longrightarrow> nr_grant_frames s' = nr_grant_frames s) \<and>
     nr_grant_frames s \<le> nr_grant_frames s' \<and> outside s' = outside s"

lemma take_entries_hands_out:
  assumes inv: "gnt_inv t" and n: "1 \<le> n" "n \<le> length (gnt_free t)"
    and t: "gnt_free t = gnt_grown s t @ gnt_free s" "outside t = outside s"
      "n \<le> length (gnt_free s) \<longrightarrow> nr_grant_frames t = nr_grant_frames s" "nr_grant_frames s \<le> nr_grant_frames t"
  shows "\<exists>h xs s'. take_entries (int n) t = Some (int h, s') \<and> gnt_hands_out n h xs s s'"
proof -
  obtain s' where s': "take_entries (int n) t = Some (int (gnttab_free_head t), s')" "gnt_inv s'"
    "gnt_free s' = drop n (gnt_free t)" "gnt_refs s' = gnt_refs t" "outside s' = outside t"
    "linked (gnt_next s') (gnttab_free_head t) GNTTAB_LIST_END (take n (gnt_free t))"
    using take_entries_ok [OF inv n] by auto
  have nr: "nr_grant_frames s' = nr_grant_frames t"
  proof -
    have "1 \<le> nr_grant_frames s'" "1 \<le> nr_grant_frames t"
      using inv s'(2) by (auto simp: gnt_inv_def gnt_pages_def)
    then show ?thesis using s'(4) by (auto simp: gnt_refs_def gnt_consts atLeastLessThan_eq_iff)
  qed
  have d: "distinct (gnt_free t)" "set (gnt_free t) \<subseteq> gnt_refs t" using inv by (auto simp: gnt_inv_def)
  have "set (take n (gnt_free t)) \<inter> set (gnt_free s') = {}"
    using set_take_disj_set_drop_if_distinct [OF d(1), of n n] s'(3) by simp
  moreover have "set (take n (gnt_free t)) \<subseteq> gnt_refs s'"
    using set_take_subset [of n "gnt_free t"] d(2) s'(4) by simp
  moreover have "take n (gnt_free t) @ gnt_free s' = gnt_grown s s' @ gnt_free s"
  proof -
    have "take n (gnt_free t) @ gnt_free s' = gnt_free t" unfolding s'(3) by (rule append_take_drop_id)
    then show ?thesis using t(1) nr by (simp add: gnt_grown_def)
  qed
  moreover have "length (take n (gnt_free t)) = n" "distinct (take n (gnt_free t))"
    using n d(1) by auto
  moreover have "n \<le> length (gnt_free s) \<longrightarrow> nr_grant_frames s' = nr_grant_frames s" using t(3) nr by simp
  moreover have "nr_grant_frames s \<le> nr_grant_frames s'" using t(4) nr by simp
  ultimately have "gnt_hands_out n (gnttab_free_head t) (take n (gnt_free t)) s s'"
    unfolding gnt_hands_out_def using s'(2,5,6) t(2) by (intro conjI) (assumption | simp)+
  then show ?thesis using s'(1) by blast
qed

lemma get_free_entries_ok:
  assumes inv: "gnt_inv s" and n: "1 \<le> n"
  obtains (bug) i where "get_free_entries e (int n) s = None" "add_to_physmap e i \<noteq> 0"
  | (err) rc s' where "get_free_entries e (int n) s = Some (rc, s')" "rc = - ENOSPC \<or> rc = - ENOMEM"
      "gnt_inv s'" "gnt_free s' = gnt_free s" "nr_grant_frames s' = nr_grant_frames s"
      "outside s' = outside s" "length (gnt_free s) < n"
  | (ok) h xs s' where "get_free_entries e (int n) s = Some (int h, s')" "gnt_hands_out n h xs s s'"
proof (cases "gnttab_free_count s < int n")
  case False
  then have "n \<le> length (gnt_free s)" using length_gnt_free [OF inv] by simp
  then show ?thesis
    using take_entries_hands_out [OF inv n, of s] False ok
    by (auto simp: get_free_entries_def gnt_grown_def)
next
  case True
  let ?k = "nat (int n - gnttab_free_count s)"
  have k: "0 < ?k" and short: "length (gnt_free s) < n" using True length_gnt_free [OF inv] by auto
  show ?thesis
  proof (cases rule: gnttab_expand_ok [OF inv k, where e = e, case_names bug err ok])
    case (bug i)
    then show ?thesis using True that(1) by (simp add: get_free_entries_def)
  next
    case (err rc s')
    then show ?thesis using True short by (intro that(2) [of rc s']) (auto simp: get_free_entries_def)
  next
    case (ok t ex)
    have "length (gnt_free t) = ENTRIES_PER_GRANT_FRAME * ex + length (gnt_free s)"
      using ok(6) by (simp add: distrib_left)
    then have "n \<le> length (gnt_free t)" using ok(3) length_gnt_free [OF inv] by linarith
    then obtain h xs s' where "take_entries (int n) t = Some (int h, s')" "gnt_hands_out n h xs s s'"
      using take_entries_hands_out [OF ok(2) n, of s] ok short by (auto simp: gnt_grown_def)
    then show ?thesis using ok(1) True by (intro that(3)) (auto simp: get_free_entries_def)
  qed
qed

lemma alloc_refs_cases:
  assumes inv: "gnt_inv g" and n: "0 < n" "n < 2 ^ 16" and xen: "\<forall>i. add_to_physmap e i = 0"
  obtains (none) g' where "gnttab_alloc_grant_references e (of_nat n) g = Some (- ENOSPC, None, g')"
      "gnt_inv g'" "gnt_free g' = gnt_free g" "length (gnt_free g) < n" "outside g' = outside g" "gnt_refs g' = gnt_refs g"
  | (some) h xs g' where "gnttab_alloc_grant_references e (of_nat n) g = Some (0, Some h, g')" "gnt_hands_out n h xs g g'"
proof -
  have un: "unat (of_nat n :: u16) = n" using n(2) by (simp add: unat_of_nat take_bit_nat_eq_self_iff)
  show thesis
  proof (cases rule: get_free_entries_ok [OF inv, of n e, case_names pos bug err ok])
    case pos
    then show ?case using n by simp
  next
    case (bug i)
    then show ?thesis using xen by simp
  next
    case (err rc s')
    then show ?thesis using un by (intro none [of s']) (auto simp: gnttab_alloc_grant_references_def gnt_refs_def)
  next
    case (ok h xs s')
    then show ?thesis using un by (intro some [of h s' xs]) (auto simp: gnttab_alloc_grant_references_def)
  qed
qed

text \<open>
  C21: Allocating a batch of references. \<open>gnttab_alloc_grant_references\<close> either fails with
  \<open>-ENOSPC\<close>, and then only when fewer references are free than asked for and none is lost,
  or hands out a private list of exactly \<open>count\<close> distinct references that were free or
  have just been created by growing the table, in list order, and that are no longer free;
  it crashes only if the hypervisor refuses to map a grant frame.
\<close>

theorem gnttab_alloc_private_list:
  assumes inv: "gnt_inv s" and n: "count \<noteq> 0" and xen: "\<forall>i. add_to_physmap e i = 0"
  shows "\<exists>rc h s'. gnttab_alloc_grant_references e count s = Some (rc, h, s') \<and>
    (case h of
       None \<Rightarrow> rc = - ENOSPC \<and> gnt_inv s' \<and> gnt_free s' = gnt_free s \<and> outside s' = outside s \<and>
         length (gnt_free s) < unat count
     | Some h \<Rightarrow> rc = 0 \<and> (\<exists>xs. gnt_hands_out (unat count) h xs s s'))"
proof -
  have n1: "1 \<le> unat count" using n by (simp add: Suc_leI unat_gt_0)
  show ?thesis
  proof (cases rule: get_free_entries_ok [OF inv n1, where e = e, case_names bug err ok])
    case (bug i)
    then show ?thesis using xen by simp
  qed (auto simp: gnttab_alloc_grant_references_def)
qed

text \<open>
  C34: Round trip. Freeing the private list that an allocation handed out, untouched, always
  succeeds, restores every reference to the free list in the order it had, and puts back
  the free count, whether or not the table grew in between.
\<close>

theorem gnttab_alloc_free_roundtrip:
  assumes inv: "gnt_inv s" and a: "gnttab_alloc_grant_references e count s = Some (0, Some h, s')"
    and n: "count \<noteq> 0" and xen: "\<forall>i. add_to_physmap e i = 0"
  shows "\<exists>t. gnttab_free_grant_references (unat count) h s' = Some t \<and> gnt_inv t \<and>
           gnt_free t = gnt_grown s s' @ gnt_free s \<and>
           gnttab_free_count t = gnttab_free_count s + int (length (gnt_grown s s')) \<and>
           outside t = outside s"
proof -
  have n1: "1 \<le> unat count" using n by (simp add: Suc_leI unat_gt_0)
  obtain xs where xs: "gnt_hands_out (unat count) h xs s s'"
    by (cases rule: get_free_entries_ok [OF inv n1, where e = e, case_names bug err ok])
       (use a xen in \<open>auto simp: gnttab_alloc_grant_references_def\<close>)
  then obtain t where t: "gnttab_free_grant_references (unat count) h s' = Some t" "gnt_inv t"
    "gnt_free t = xs @ gnt_free s'" "outside t = outside s'"
    using gnttab_free_grant_references_ok [of s' h xs "unat count"] by (auto simp: gnt_hands_out_def)
  then show ?thesis
    using xs length_gnt_free [OF inv] length_gnt_free [OF t(2)] by (auto simp: gnt_hands_out_def)
qed

text \<open>A small table: one frame, two free references.\<close>

definition gnt_example :: gnttab where
  "gnt_example =
     \<lparr>gnttab_list = (\<lambda>p. if p = 0 then Some (\<lambda>i. if i = 8 then 9 else GNTTAB_LIST_END) else None),
      nr_grant_frames = 1, boot_max_nr_grant_frames = 4, gnttab_free_count = 2, gnttab_free_head = 8,
      shared = (\<lambda>_. \<lparr>flags = 0, domid = 0, frame = 0\<rparr>), gnttab_free_callback_list = [],
      callbacks = (\<lambda>_. \<lparr>cb_fn = 0, cb_arg = 0, cb_count = 0, cb_queued = False\<rparr>),
      deferred_list = [], deferred_timer_pending = False, resume_frames = 4096, called = [],
      freed_pages = [], physmap_calls = []\<rparr>"

definition gnt_example_env :: gnt_env where
  "gnt_example_env =
     \<lparr>query_size = (0, 0, 32), add_to_physmap = (\<lambda>_. 0), get_free_page = (\<lambda>_. Some (\<lambda>_. 0)),
      running_on_xen = True, kmalloc_list = True, mmio = 4096, ioremap_ok = True\<rparr>"

lemma gnt_example_inv: "gnt_inv gnt_example \<and> gnt_free gnt_example = [8, 9]"
proof -
  have f: "gnt_free gnt_example = [8, 9]"
    by (simp add: gnt_free_def gnt_example_def gnt_next_def gnttab_entry_def gnt_consts numeral_2_eq_2)
  show ?thesis unfolding gnt_inv_def f
    by (auto simp: gnt_example_def gnt_pages_def gnt_refs_def gnt_consts gnt_next_def gnttab_entry_def
        nr_freelist_frames_def)
qed

lemma gnt_example_alloc:
  "\<exists>s'. gnttab_alloc_grant_references gnt_example_env 2 gnt_example = Some (0, Some 8, s') \<and>
        gnt_free s' = []"
  by (simp add: gnttab_alloc_grant_references_def get_free_entries_def take_entries_def gnt_example_def
      gnttab_entry_def gnt_consts set_gnttab_entry_def gnt_free_def)

theorem gnttab_alloc_private_list_witness:
  "\<exists>rc h s'. gnttab_alloc_grant_references gnt_example_env 2 gnt_example = Some (rc, h, s') \<and>
    (case h of
       None \<Rightarrow> rc = - ENOSPC \<and> gnt_inv s' \<and> gnt_free s' = gnt_free gnt_example \<and>
         outside s' = outside gnt_example \<and> length (gnt_free gnt_example) < unat (2 :: u16)
     | Some h \<Rightarrow> rc = 0 \<and> (\<exists>xs. gnt_hands_out (unat (2 :: u16)) h xs gnt_example s'))"
  by (rule gnttab_alloc_private_list) (simp_all add: gnt_example_inv, simp add: gnt_example_env_def)

theorem gnttab_alloc_free_roundtrip_witness:
  "\<exists>s' t. gnttab_alloc_grant_references gnt_example_env 2 gnt_example = Some (0, Some 8, s') \<and>
     gnttab_free_grant_references 2 8 s' = Some t \<and> gnt_inv t"
proof -
  obtain s' where a: "gnttab_alloc_grant_references gnt_example_env 2 gnt_example = Some (0, Some 8, s')"
    using gnt_example_alloc by auto
  show ?thesis
    using gnttab_alloc_free_roundtrip [OF _ a] a gnt_example_inv by (auto simp: gnt_example_env_def)
qed

section \<open>Private lists\<close>

lemma gnttab_claim_ok:
  assumes "gnt_pages s" and "linked (gnt_next s) h GNTTAB_LIST_END xs" and "set xs \<subseteq> gnt_refs s"
  shows "gnttab_claim_grant_reference h s =
           (case xs of [] \<Rightarrow> Some (- ENOSPC, h) | x # ys \<Rightarrow> Some (int x, gnt_next s x)) \<and>
         (case xs of [] \<Rightarrow> True | x # ys \<Rightarrow> linked (gnt_next s) (gnt_next s x) GNTTAB_LIST_END ys)"
  using assms
  by (cases xs) (auto simp: gnttab_claim_grant_reference_def gnt_entry_Some gnt_refs_def)

lemma gnttab_release_ok:
  assumes inv: "gnt_inv s" and "linked (gnt_next s) h GNTTAB_LIST_END xs"
    and x: "x \<in> gnt_refs s" "x \<notin> set xs" "x \<notin> set (gnt_free s)"
  shows "\<exists>t. gnttab_release_grant_reference h x s = Some (x, t) \<and> gnt_inv t \<and> gnt_free t = gnt_free s \<and>
           gnt_refs t = gnt_refs s \<and> outside t = outside s \<and> linked (gnt_next t) x GNTTAB_LIST_END (x # xs)"
proof -
  have pg: "gnt_pages s" and l: "linked (gnt_next s) (gnttab_free_head s) GNTTAB_LIST_END (gnt_free s)"
    using inv by (auto simp: gnt_inv_def)
  have b: "x < ENTRIES_PER_GRANT_FRAME * nr_grant_frames s" using x by (simp add: gnt_refs_def)
  let ?t = "put_entry x h s"
  have nx: "gnt_next ?t = (gnt_next s)(x := h)" by (rule gnt_next_put [OF gnt_entry_page [OF pg b]])
  have "gnt_inv ?t \<and> gnt_free ?t = gnt_free s"
    by (rule gnt_inv_free_list)
      (use pg l nx x inv length_gnt_free [OF inv] in \<open>auto simp: gnt_inv_def gnt_refs_def\<close>)
  moreover have "x \<noteq> GNTTAB_LIST_END" using b pg by (auto simp: gnt_pages_def gnt_consts)
  moreover have "linked (gnt_next ?t) h GNTTAB_LIST_END xs" using assms(2) x unfolding nx by simp
  ultimately show ?thesis
    by (auto simp: gnttab_release_grant_reference_def set_entry_put [OF pg b] nx)
qed

section \<open>Callbacks\<close>

definition enough :: "gnttab \<Rightarrow> nat \<Rightarrow> bool" where
  "enough s c \<longleftrightarrow> int (unat (cb_count (callbacks s c))) \<le> gnttab_free_count s"

definition cb_call :: "gnttab \<Rightarrow> nat \<Rightarrow> nat \<times> nat" where
  "cb_call s c = (cb_fn (callbacks s c), cb_arg (callbacks s c))"

lemma free_callbacks_loop_result:
  "distinct cs \<Longrightarrow> gnttab_free_count s = n \<Longrightarrow>
   (\<forall>c. enough (free_callbacks_loop cs s) c = enough s c) \<and>
   called (free_callbacks_loop cs s) = called s @ map (cb_call s) (filter (enough s) cs) \<and>
   gnttab_free_callback_list (free_callbacks_loop cs s) =
     rev (filter (\<lambda>c. \<not> enough s c) cs) @ gnttab_free_callback_list s \<and>
   (\<forall>c. cb_queued (callbacks (free_callbacks_loop cs s) c) \<longleftrightarrow>
        cb_queued (callbacks s c) \<and> (c \<in> set cs \<longrightarrow> \<not> enough s c))"
proof (induction cs arbitrary: s)
  case Nil
  then show ?case by simp
next
  case (Cons c cs)
  let ?s = "s\<lparr>callbacks := (callbacks s)(c := (callbacks s c)\<lparr>cb_queued := False\<rparr>),
              called := called s @ [(cb_fn (callbacks s c), cb_arg (callbacks s c))]\<rparr>"
  let ?t = "s\<lparr>gnttab_free_callback_list := c # gnttab_free_callback_list s\<rparr>"
  have d: "c \<notin> set cs" "distinct cs" using Cons.prems by auto
  have e: "enough ?s = enough s" "enough ?t = enough s" "cb_call ?s = cb_call s" "cb_call ?t = cb_call s"
    by (auto simp: enough_def cb_call_def fun_eq_iff)
  show ?case
  proof (cases "enough s c")
    case True
    then have l: "free_callbacks_loop (c # cs) s = free_callbacks_loop cs ?s"
      by (simp add: enough_def Let_def)
    have ih: "(\<forall>x. enough (free_callbacks_loop cs ?s) x = enough s x) \<and>
      called (free_callbacks_loop cs ?s) = called ?s @ map (cb_call s) (filter (enough s) cs) \<and>
      gnttab_free_callback_list (free_callbacks_loop cs ?s) =
        rev (filter (\<lambda>c. \<not> enough s c) cs) @ gnttab_free_callback_list ?s \<and>
      (\<forall>x. cb_queued (callbacks (free_callbacks_loop cs ?s) x) \<longleftrightarrow>
        cb_queued (callbacks ?s x) \<and> (x \<in> set cs \<longrightarrow> \<not> enough s x))"
      using Cons.IH [of ?s] Cons.prems d unfolding e by simp
    show ?thesis using ih True d(1) unfolding l by (auto simp: cb_call_def)
  next
    case False
    then have l: "free_callbacks_loop (c # cs) s = free_callbacks_loop cs ?t"
      by (simp add: enough_def Let_def)
    have ih: "(\<forall>x. enough (free_callbacks_loop cs ?t) x = enough s x) \<and>
      called (free_callbacks_loop cs ?t) = called ?t @ map (cb_call s) (filter (enough s) cs) \<and>
      gnttab_free_callback_list (free_callbacks_loop cs ?t) =
        rev (filter (\<lambda>c. \<not> enough s c) cs) @ gnttab_free_callback_list ?t \<and>
      (\<forall>x. cb_queued (callbacks (free_callbacks_loop cs ?t) x) \<longleftrightarrow>
        cb_queued (callbacks ?t x) \<and> (x \<in> set cs \<longrightarrow> \<not> enough s x))"
      using Cons.IH [of ?t] Cons.prems d unfolding e by simp
    show ?thesis using ih False d(1) unfolding l by auto
  qed
qed

text \<open>
  No waiter is forgotten. When a reference is put back, exactly the callbacks whose count
  the grown free list covers are called, once each and in list order, and are marked as no
  longer queued; the others stay on the list, and each of them still waits for more
  references than are free.
\<close>

theorem put_free_entry_callbacks:
  assumes inv: "gnt_inv s" and r: "r \<in> gnt_refs s" "r \<notin> set (gnt_free s)"
    and d: "distinct (gnttab_free_callback_list s)"
    and n: "free = gnttab_free_count s + 1"
  shows "\<exists>t. put_free_entry r s = Some t \<and> gnttab_free_count t = free \<and>
    called t = called s @ map (cb_call s)
      (filter (\<lambda>c. int (unat (cb_count (callbacks s c))) \<le> free) (gnttab_free_callback_list s)) \<and>
    set (gnttab_free_callback_list t) =
      {c \<in> set (gnttab_free_callback_list s). free < int (unat (cb_count (callbacks s c)))} \<and>
    (\<forall>c \<in> set (gnttab_free_callback_list s).
       cb_queued (callbacks t c) \<longleftrightarrow> cb_queued (callbacks s c) \<and> c \<in> set (gnttab_free_callback_list t))"
proof -
  have pg: "gnt_pages s" using inv by (auto simp: gnt_inv_def)
  have b: "r < ENTRIES_PER_GRANT_FRAME * nr_grant_frames s" using r by (simp add: gnt_refs_def)
  let ?x = "(put_entry r (gnttab_free_head s) s)\<lparr>gnttab_free_head := r, gnttab_free_count := free\<rparr>"
  let ?y = "?x\<lparr>gnttab_free_callback_list := []\<rparr>"
  have run: "put_free_entry r s = Some (check_free_callbacks ?x)"
    using n by (simp add: put_free_entry_def set_entry_put [OF pg b])
  have chk: "check_free_callbacks ?x = free_callbacks_loop (gnttab_free_callback_list s) ?y"
    by (auto simp: check_free_callbacks_def do_free_callbacks_def put_entry_def)
  have e: "enough ?y = (\<lambda>c. int (unat (cb_count (callbacks s c))) \<le> free)" "cb_call ?y = cb_call s"
    "called ?y = called s" "callbacks ?y = callbacks s"
    by (auto simp: enough_def cb_call_def fun_eq_iff)
  note res = free_callbacks_loop_result [OF d, of ?y, OF refl, unfolded e, folded chk]
  have "gnttab_free_count (check_free_callbacks ?x) = free"
    using check_callbacks_frame [of ?x] by (auto simp: same_list_def)
  then show ?thesis using res unfolding run by auto
qed

theorem put_free_entry_callbacks_witness:
  "\<exists>t. put_free_entry 20 (gnt_example\<lparr>gnttab_free_callback_list := [1, 2],
          callbacks := (\<lambda>c. \<lparr>cb_fn = 7, cb_arg = c, cb_count = 2 + of_nat c, cb_queued = True\<rparr>)\<rparr>) = Some t \<and>
       set (gnttab_free_callback_list t) = {2}"
proof -
  let ?s = "gnt_example\<lparr>gnttab_free_callback_list := [1, 2],
          callbacks := (\<lambda>c. \<lparr>cb_fn = 7, cb_arg = c, cb_count = 2 + of_nat c, cb_queued = True\<rparr>)\<rparr>"
  have "same_list gnt_example ?s" by (simp add: same_list_def)
  from same_list_gnt [OF this] gnt_example_inv
  have i: "gnt_inv ?s" "gnt_free ?s = [8, 9]" "20 \<in> gnt_refs ?s"
    by (auto simp: gnt_refs_def gnt_consts gnt_example_def)
  from put_free_entry_callbacks [OF i(1) i(3) _ _ refl] show ?thesis
    unfolding i(2) by (auto simp: gnt_example_def)
qed

section \<open>Ending access\<close>

definition in_use :: "u16 \<Rightarrow> bool" where
  "in_use fl \<longleftrightarrow> fl AND (GTF_reading OR GTF_writing) \<noteq> 0"

lemma in_use_0 [simp]: "\<not> in_use 0" by (simp add: in_use_def)

lemma set_shared_list [simp]:
  "gnttab_list (set_shared r f s) = gnttab_list s"
  "nr_grant_frames (set_shared r f s) = nr_grant_frames s"
  "gnttab_free_count (set_shared r f s) = gnttab_free_count s"
  "gnttab_free_head (set_shared r f s) = gnttab_free_head s"
  "boot_max_nr_grant_frames (set_shared r f s) = boot_max_nr_grant_frames s"
  "deferred_list (set_shared r f s) = deferred_list s"
  "deferred_timer_pending (set_shared r f s) = deferred_timer_pending s"
  "freed_pages (set_shared r f s) = freed_pages s"
  "shared (set_shared r f s) = (shared s)(r := f (shared s r))"
  by (simp_all add: set_shared_def)

lemma end_foreign_access_ref_ok:
  "end_foreign_access_ref ws r s = (ok, t) \<Longrightarrow>
   same_list s t \<and> deferred_list t = deferred_list s \<and> freed_pages t = freed_pages s \<and>
   deferred_timer_pending t = deferred_timer_pending s \<and>
   (\<forall>x. x \<noteq> r \<longrightarrow> shared t x = shared s x) \<and>
   domid (shared t r) = domid (shared s r) \<and> frame (shared t r) = frame (shared s r) \<and>
   (if ok then flags (shared t r) = 0 else in_use (flags (shared t r)))"
proof (induction ws r s rule: end_foreign_access_ref.induct)
  case (1 r s)
  then show ?case by (auto simp: in_use_def same_list_def split: if_splits)
next
  case (2 w ws r s)
  let ?t = "set_shared r (\<lambda>g. g\<lparr>flags := w\<rparr>) s"
  show ?case
  proof (cases "in_use (flags (shared s r)) \<or> w = flags (shared s r)")
    case True
    then show ?thesis using 2(2) by (auto simp: in_use_def same_list_def Let_def split: if_splits)
  next
    case False
    then have "end_foreign_access_ref ws r ?t = (ok, t)" using 2(2) by (simp add: in_use_def Let_def)
    then show ?thesis using 2(1) [OF refl _ refl] False by (auto simp: in_use_def same_list_def)
  qed
qed



section \<open>Deferred entries\<close>

abbreviation deferred_refs :: "gnttab \<Rightarrow> nat list" where
  "deferred_refs s \<equiv> map de_ref (deferred_list s)"

definition deferred_ok :: "gnttab \<Rightarrow> bool" where
  "deferred_ok s \<longleftrightarrow> gnt_inv s \<and> distinct (deferred_refs s) \<and> set (deferred_refs s) \<subseteq> gnt_refs s \<and>
     set (deferred_refs s) \<inter> set (gnt_free s) = {}"

definition drained :: "gnttab \<Rightarrow> gnttab \<Rightarrow> bool" where
  "drained s t \<longleftrightarrow> deferred_ok t \<and> deferred_timer_pending t = deferred_timer_pending s \<and>
     gnt_refs t = gnt_refs s \<and> set (gnt_free s) \<subseteq> set (gnt_free t) \<and>
     set (gnt_free t) \<union> set (deferred_refs t) = set (gnt_free s) \<union> set (deferred_refs s) \<and>
     (\<forall>x. x \<notin> set (deferred_refs s) \<longrightarrow> shared t x = shared s x) \<and>
     (\<forall>x \<in> set (gnt_free t) - set (gnt_free s). flags (shared t x) = 0)"

lemma drained_trans:
  assumes a: "drained s t" and b: "drained t u"
  shows "drained s u"
proof -
  have at: "set (gnt_free s) \<subseteq> set (gnt_free t)"
    "set (gnt_free t) \<union> set (deferred_refs t) = set (gnt_free s) \<union> set (deferred_refs s)"
    "\<forall>x. x \<notin> set (deferred_refs s) \<longrightarrow> shared t x = shared s x"
    "\<forall>x \<in> set (gnt_free t) - set (gnt_free s). flags (shared t x) = 0"
    "set (deferred_refs t) \<inter> set (gnt_free t) = {}"
    using a unfolding drained_def deferred_ok_def by - ((elim conjE, assumption)+)
  have bt: "set (gnt_free t) \<subseteq> set (gnt_free u)"
    "set (gnt_free u) \<union> set (deferred_refs u) = set (gnt_free t) \<union> set (deferred_refs t)"
    "\<forall>x. x \<notin> set (deferred_refs t) \<longrightarrow> shared u x = shared t x"
    "\<forall>x \<in> set (gnt_free u) - set (gnt_free t). flags (shared u x) = 0"
    "deferred_ok u" "deferred_timer_pending u = deferred_timer_pending t" "gnt_refs u = gnt_refs t"
    using b unfolding drained_def by - ((elim conjE, assumption)+)
  have sub: "set (deferred_refs t) \<subseteq> set (deferred_refs s)" using at(1,2,5) by blast
  have "flags (shared u x) = 0" if x: "x \<in> set (gnt_free u) - set (gnt_free s)" for x
  proof (cases "x \<in> set (gnt_free t)")
    case True
    then have "x \<notin> set (deferred_refs t)" using at(5) by blast
    then show ?thesis using at(4) bt(3) x True by simp
  next
    case False
    then show ?thesis using bt(4) x by simp
  qed
  moreover have "shared u x = shared s x" if "x \<notin> set (deferred_refs s)" for x
  proof -
    have "x \<notin> set (deferred_refs t)" using that sub by blast
    then show ?thesis using that at(3) bt(3) by simp
  qed
  moreover have "set (gnt_free s) \<subseteq> set (gnt_free u)" using at(1) bt(1) by (rule subset_trans)
  moreover have "set (gnt_free u) \<union> set (deferred_refs u) = set (gnt_free s) \<union> set (deferred_refs s)"
    using at(2) bt(2) by (rule trans [rotated])
  moreover have "deferred_timer_pending t = deferred_timer_pending s" "gnt_refs t = gnt_refs s"
    using a unfolding drained_def by - ((elim conjE, assumption)+)
  ultimately show ?thesis unfolding drained_def using bt(5,6,7) by - (intro conjI allI impI ballI; (assumption | simp only: simp_thms))
qed

lemma free_page_frame [simp]:
  "same_list s (free_page pg s)" "shared (free_page pg s) = shared s"
  "deferred_list (free_page pg s) = deferred_list s"
  "deferred_timer_pending (free_page pg s) = deferred_timer_pending s"
  by (auto simp: free_page_def same_list_def split: option.splits)

lemma drained_freed:
  assumes "deferred_ok s" "deferred_list s = e # es" "gnt_inv x" "gnt_free x = de_ref e # gnt_free s"
    "gnt_refs x = gnt_refs s" "deferred_list x = es" "deferred_timer_pending x = deferred_timer_pending s"
    "\<forall>y. y \<noteq> de_ref e \<longrightarrow> shared x y = shared s y" "flags (shared x (de_ref e)) = 0"
  shows "drained s x"
  using assms by (auto simp: drained_def deferred_ok_def)

lemma drained_requeued:
  assumes "deferred_ok s" "deferred_list s = e # es" "gnt_inv x" "gnt_free x = gnt_free s"
    "gnt_refs x = gnt_refs s" "deferred_list x = es @ [e']" "de_ref e' = de_ref e"
    "deferred_timer_pending x = deferred_timer_pending s"
    "\<forall>y. y \<noteq> de_ref e \<longrightarrow> shared x y = shared s y"
  shows "drained s x"
  using assms by (auto simp: drained_def deferred_ok_def)

lemma handle_deferred_loop_ok:
  "deferred_ok s \<Longrightarrow> deferred_list s \<noteq> [] \<Longrightarrow>
   \<exists>t. handle_deferred_loop sched n first s = Some t \<and> drained s t"
proof (induction n arbitrary: first s)
  case 0
  then show ?case by (simp add: drained_def)
next
  case (Suc n)
  obtain e es where dl: "deferred_list s = e # es" using Suc.prems(2) by (cases "deferred_list s") auto
  let ?r = "de_ref e" and ?u = "s\<lparr>deferred_list := es\<rparr>"
  have su: "same_list s ?u" by (simp add: same_list_def)
  note gu = same_list_gnt [OF su]
  have r: "?r \<in> gnt_refs s" "?r \<notin> set (gnt_free s)" "?r \<notin> set (map de_ref es)"
    "distinct (map de_ref es)" "set (map de_ref es) \<subseteq> gnt_refs s" "set (map de_ref es) \<inter> set (gnt_free s) = {}"
    and inv: "gnt_inv s"
    using Suc.prems(1) dl by (auto simp: deferred_ok_def)
  obtain ok v where v: "end_foreign_access_ref (sched ?r) ?r ?u = (ok, v)" by (cases "end_foreign_access_ref (sched ?r) ?r ?u") auto
  note ve = end_foreign_access_ref_ok [OF v]
  have gv: "gnt_inv v" "gnt_free v = gnt_free s" "gnt_refs v = gnt_refs s"
    using ve gu inv same_list_gnt [of ?u v] by auto
  show ?case
  proof (cases "Some (de_addr e) = first")
    case True
    then show ?thesis using Suc.prems dl by (auto simp: drained_def)
  next
    case neq: False
    show ?thesis
    proof (cases ok)
      case True
      obtain w where w: "put_free_entry ?r v = Some w" "gnt_inv w" "gnt_free w = ?r # gnt_free v"
        "gnt_refs w = gnt_refs v" "outside w = outside v"
        using put_free_entry_ok [of v ?r] gv r by auto
      let ?x = "free_page (de_page e) w"
      have gx: "gnt_inv ?x" "gnt_free ?x = ?r # gnt_free s" "gnt_refs ?x = gnt_refs s" "deferred_list ?x = es"
        "shared ?x = shared v" "deferred_timer_pending ?x = deferred_timer_pending s"
        using w gv ve same_list_gnt [of w ?x] by (auto simp: outside_def)
      have d: "drained s ?x"
        by (rule drained_freed [OF Suc.prems(1) dl gx(1,2,3,4,6)]) (use ve True gx(5) in auto)
      then show ?thesis
      proof (cases "es = []")
        case True
        then show ?thesis using d neq dl v w(1) \<open>ok\<close> gx(4) by (simp add: Let_def)
      next
        case False
        then obtain t where "handle_deferred_loop sched n first ?x = Some t" "drained ?x t"
          using Suc.IH [of ?x first] d gx(4) by (auto simp: drained_def)
        then show ?thesis using drained_trans [OF d] False neq dl v w(1) \<open>ok\<close> gx(4) by (simp add: Let_def)
      qed
    next
      case False
      let ?e = "e\<lparr>de_warn_delay := de_warn_delay e - 1\<rparr>"
      let ?x = "v\<lparr>deferred_list := deferred_list v @ [?e]\<rparr>"
      let ?f = "if first = None then Some (de_addr e) else first"
      have dx: "deferred_list ?x = es @ [?e]" using ve by simp
      have sx: "same_list v ?x" by (simp add: same_list_def)
      have d: "drained s ?x"
        by (rule drained_requeued [OF Suc.prems(1) dl _ _ _ dx])
           (use ve gv same_list_gnt [OF sx] in auto)
      then obtain t where "handle_deferred_loop sched n ?f ?x = Some t" "drained ?x t"
        using Suc.IH [of ?x ?f] dx by (auto simp: drained_def)
      then show ?thesis using drained_trans [OF d] False neq dl v by (simp add: Let_def)
    qed
  qed
qed

text \<open>
  C28: The deferred timer. When it fires with entries queued, \<open>gnttab_handle_deferred\<close> does not
  crash; every reference it knew is afterwards either free or still deferred, none is in both
  places; a reference becomes free only once its flags are clear; and the timer is armed
  again exactly when entries remain (so the next firing again finds the list non-empty).
\<close>

theorem gnttab_handle_deferred_ok:
  assumes "deferred_ok s" and "deferred_list s \<noteq> []" and "\<not> deferred_timer_pending s"
  shows "\<exists>t. gnttab_handle_deferred sched s = Some t \<and> deferred_ok t \<and>
     set (gnt_free t) \<union> set (deferred_refs t) = set (gnt_free s) \<union> set (deferred_refs s) \<and>
     set (gnt_free s) \<subseteq> set (gnt_free t) \<and>
     (\<forall>x \<in> set (gnt_free t) - set (gnt_free s). flags (shared t x) = 0) \<and>
     (deferred_timer_pending t \<longleftrightarrow> deferred_list t \<noteq> [])"
proof -
  obtain t where t: "handle_deferred_loop sched 10 None s = Some t" "drained s t"
    using handle_deferred_loop_ok [OF assms(1,2)] by blast
  let ?t = "arm_timer t"
  have same: "same_list t ?t" "deferred_list ?t = deferred_list t" "shared ?t = shared t"
    "deferred_timer_pending ?t"
    by (auto simp: arm_timer_def same_list_def)
  then show ?thesis
    using t same_list_gnt [OF same(1)] assms(3)
    by (cases "deferred_list t = []") (auto simp: gnttab_handle_deferred_def drained_def deferred_ok_def)
qed

definition gnt_deferred_example :: gnttab where
  "gnt_deferred_example =
     gnt_example\<lparr>deferred_list := [\<lparr>de_addr = 1, de_ref = 20, de_warn_delay = 60, de_page = None\<rparr>,
                                  \<lparr>de_addr = 2, de_ref = 21, de_warn_delay = 60, de_page = Some 5\<rparr>]\<rparr>"

theorem gnttab_handle_deferred_ok_witness:
  "\<exists>t. gnttab_handle_deferred (\<lambda>r. if r = 20 then [GTF_reading] else []) gnt_deferred_example = Some t \<and>
       set (gnt_free t) \<union> set (deferred_refs t) = {20, 21, 8, 9}"
proof -
  have "same_list gnt_example gnt_deferred_example" by (simp add: same_list_def gnt_deferred_example_def)
  from same_list_gnt [OF this] gnt_example_inv
  have i: "deferred_ok gnt_deferred_example" "set (gnt_free gnt_deferred_example) = {8, 9}"
    by (auto simp: deferred_ok_def gnt_refs_def gnt_consts gnt_example_def gnt_deferred_example_def)
  have d: "set (deferred_refs gnt_deferred_example) = {20, 21}" "deferred_list gnt_deferred_example \<noteq> []"
    "\<not> deferred_timer_pending gnt_deferred_example"
    by (auto simp: gnt_example_def gnt_deferred_example_def)
  have u: "{8, 9} \<union> {20, 21} = {20, 21, 8, 9 :: nat}" by simp
  show ?thesis
    using gnttab_handle_deferred_ok [OF i(1) d(2,3), of "\<lambda>r. if r = 20 then [GTF_reading] else []"]
    unfolding i(2) d(1) u by (elim exE conjE) (intro exI conjI; assumption)
qed

section \<open>The allocator contract\<close>

definition gnt_alloc1 :: "gnt_env \<Rightarrow> gnttab \<Rightarrow> nat \<times> gnttab" where
  "gnt_alloc1 e s = (case get_free_entries e 1 s of None \<Rightarrow> (0, s) | Some (r, t) \<Rightarrow> (nat r, t))"

definition gnt_release1 :: "nat \<Rightarrow> gnttab \<Rightarrow> gnttab" where
  "gnt_release1 r s = (case gnttab_free_grant_reference r s of None \<Rightarrow> s | Some t \<Rightarrow> t)"

lemma gnt_alloc1_ok:
  assumes inv: "gnt_inv s" and f: "gnt_free s = x # xs"
  shows "fst (gnt_alloc1 e s) = x \<and> gnt_inv (snd (gnt_alloc1 e s)) \<and> gnt_free (snd (gnt_alloc1 e s)) = xs \<and>
         gnt_refs (snd (gnt_alloc1 e s)) = gnt_refs s"
proof -
  have "linked (gnt_next s) (gnttab_free_head s) GNTTAB_LIST_END (x # xs)"
    using inv f by (simp add: gnt_inv_def)
  then have h: "gnttab_free_head s = x" by simp
  obtain t where t: "take_entries 1 s = Some (int x, t)" "gnt_inv t" "gnt_free t = xs" "gnt_refs t = gnt_refs s"
    using take_entries_ok [OF inv, of 1] f h by auto
  have "1 \<le> gnttab_free_count s" using length_gnt_free [OF inv] f by simp
  then have "gnt_alloc1 e s = (x, t)" using t(1) by (simp add: gnt_alloc1_def get_free_entries_def)
  then show ?thesis using t by simp
qed

lemma gnt_release1_ok:
  assumes "gnt_inv s" and "x \<in> gnt_refs s" and "x \<notin> set (gnt_free s)"
  shows "gnt_inv (gnt_release1 x s) \<and> gnt_free (gnt_release1 x s) = x # gnt_free s \<and>
         gnt_refs (gnt_release1 x s) = gnt_refs s"
proof -
  obtain t where t: "put_free_entry x s = Some t" "gnt_inv t" "gnt_free t = x # gnt_free s" "gnt_refs t = gnt_refs s"
    using put_free_entry_ok [OF assms] by blast
  then have "gnt_release1 x s = t" by (simp add: gnt_release1_def gnttab_free_grant_reference_def)
  then show ?thesis using t by simp
qed

interpretation gnt: id_allocator gnt_inv gnt_free gnt_refs "gnt_alloc1 e" gnt_release1 for e
proof unfold_locales
  fix s :: gnttab and x :: nat and xs
  show "gnt_inv s \<Longrightarrow> distinct (gnt_free s)" "gnt_inv s \<Longrightarrow> set (gnt_free s) \<subseteq> gnt_refs s"
    by (auto simp: gnt_inv_def)
  show "fst (gnt_alloc1 e s) = x \<and> gnt_inv (snd (gnt_alloc1 e s)) \<and> gnt_free (snd (gnt_alloc1 e s)) = xs \<and>
        gnt_refs (snd (gnt_alloc1 e s)) = gnt_refs s" if "gnt_inv s" "gnt_free s = x # xs" for s xs
    using that by (rule gnt_alloc1_ok)
  show "gnt_inv (gnt_release1 x s) \<and> gnt_free (gnt_release1 x s) = x # gnt_free s \<and>
        gnt_refs (gnt_release1 x s) = gnt_refs s"
    if "gnt_inv s" "x \<in> gnt_refs s" "x \<notin> set (gnt_free s)"
    using that by (rule gnt_release1_ok)
qed

section \<open>Initialisation\<close>

text \<open>
  After \<open>gnttab_init\<close> succeeds the allocator's invariant holds, and the free list is every
  reference of the first grant frame but the eight reserved ones, in ascending order, for
  every number of frames the hypervisor grants (4 if it cannot say).
\<close>

theorem gnttab_init_ok:
  assumes "gnttab_init e s = Some (0, t)" and "1 \<le> raw_max_nr_grant_frames e"
    and "raw_max_nr_grant_frames e \<le> 2 ^ 22"
  shows "gnt_inv t \<and> gnt_free t = [NR_RESERVED_ENTRIES..<ENTRIES_PER_GRANT_FRAME] \<and>
         boot_max_nr_grant_frames t = raw_max_nr_grant_frames e"
proof -
  let ?s = "s\<lparr>nr_grant_frames := 1, boot_max_nr_grant_frames := raw_max_nr_grant_frames e\<rparr>"
  have one: "nr_freelist_frames 1 = 1" by (simp add: nr_freelist_frames_def gnt_consts)
  obtain p where p: "get_free_page e 0 = Some p"
    using assms(1) by (cases "get_free_page e 0") (auto simp: gnttab_init_def Let_def one [simplified] split: if_splits)
  let ?a = "?s\<lparr>gnttab_list := (gnttab_list s)(0 \<mapsto> p)\<rparr>"
  have g: "grow_pages e [0..<1] ?s = (None, ?a)" using p by simp
  obtain b where b: "gnttab_resume e ?a = Some (0, b)"
  proof (cases "gnttab_resume e ?a")
    case None
    then show ?thesis using assms(1) p by (simp add: gnttab_init_def Let_def one [simplified] split: if_splits)
  next
    case (Some x)
    then obtain rc u where x: "x = (rc, u)" by (cases x)
    have "rc \<le> 0" using Some x
      by (auto simp: gnttab_resume_def Let_def split: if_splits)
    then show ?thesis using assms(1) p Some x that
      by (cases "rc < 0") (auto simp: gnttab_init_def Let_def one [simplified] split: if_splits)
  qed
  have fr: "gnttab_list b = gnttab_list ?a \<and> nr_grant_frames b = 1 \<and>
            boot_max_nr_grant_frames b = raw_max_nr_grant_frames e"
    using b gnttab_map_list [of e 0 0]
    by (auto simp: gnttab_resume_def Let_def same_list_def split: if_splits)
  have pages: "\<And>x. 8 \<le> x \<Longrightarrow> x < 8 + 503 \<Longrightarrow> gnttab_list b (x div RPP) \<noteq> None"
    using fr by (auto simp: RPP_def)
  from link_entries_list [of 8 503 b, OF this] obtain L where
    L: "link_entries 8 503 b = Some (b\<lparr>gnttab_list := L\<rparr>)" "\<forall>p. gnttab_list b p \<noteq> None \<longrightarrow> L p \<noteq> None"
       "gnt_next (b\<lparr>gnttab_list := L\<rparr>) = (\<lambda>x. if 8 \<le> x \<and> x < 8 + 503 then x + 1 else gnt_next b x)"
    by auto
  let ?c = "b\<lparr>gnttab_list := L\<rparr>"
  let ?t = "(put_entry 511 GNTTAB_LIST_END ?c)\<lparr>gnttab_free_count := 504, gnttab_free_head := 8\<rparr>"
  have L0: "gnttab_list ?c (511 div RPP) \<noteq> None" using L(2) fr by (simp add: RPP_def)
  have t: "t = ?t"
    using assms(1) p b L(1) fr set_entry_page [OF L0]
    by (auto simp: gnttab_init_def Let_def one [simplified] gnt_consts split: if_splits)
  have nx: "gnt_next t = (gnt_next ?c)(511 := GNTTAB_LIST_END)"
    using gnt_next_put [OF L0] unfolding t by simp
  have "linked (gnt_next t) 8 GNTTAB_LIST_END ([8..<8 + 503] @ [511])"
    by (rule linked_upt) (simp_all add: nx L(3) GNTTAB_LIST_END_def)
  moreover have "[8..<8 + 503] @ [511] = [8..<Suc 511]"
    using upt_Suc_append [of 8 511] by (simp only: numeral_plus_numeral add_num_simps)
  moreover define xs where "xs = [8..<Suc 511]"
  ultimately have l: "linked (gnt_next t) 8 GNTTAB_LIST_END xs" by (simp only:)
  have xs: "length xs = 504" "distinct xs" "set xs = {8..<512}"
    unfolding xs_def by (simp_all only: length_upt distinct_upt set_upt) simp_all
  have "gnt_inv t \<and> gnt_free t = xs"
  proof (rule gnt_inv_free_list)
    show "gnt_pages t"
      using assms(2,3) fr L(2) by (auto simp: t gnt_pages_def one [simplified] put_entry_def gnt_consts)
    show "linked (gnt_next t) (gnttab_free_head t) GNTTAB_LIST_END xs" using l by (simp add: t)
    show "set xs \<subseteq> gnt_refs t" using fr by (simp add: t gnt_refs_def gnt_consts xs)
  qed (simp_all add: t xs)
  moreover have "[NR_RESERVED_ENTRIES..<ENTRIES_PER_GRANT_FRAME] = xs"
    unfolding xs_def NR_RESERVED_ENTRIES_def ENTRIES_PER_GRANT_FRAME_def
    by (rule arg_cong [where f = "\<lambda>n. [8..<n]"]) simp
  ultimately show ?thesis using fr by (simp add: t)
qed

theorem gnttab_init_ok_witness:
  "\<exists>t. gnttab_init gnt_example_env gnt_example = Some (0, t) \<and> gnt_inv t"
proof -
  let ?b = "gnt_example\<lparr>nr_grant_frames := 1, boot_max_nr_grant_frames := 32,
              gnttab_list := (gnttab_list gnt_example)(0 \<mapsto> (\<lambda>_. 0)), physmap_calls := [(0, 1)]\<rparr>"
  have "\<And>x. 8 \<le> x \<Longrightarrow> x < 8 + 503 \<Longrightarrow> gnttab_list ?b (x div RPP) \<noteq> None" by (simp add: RPP_def)
  from link_entries_list [of 8 503 ?b, OF this] obtain L where
    L: "link_entries 8 503 ?b = Some (?b\<lparr>gnttab_list := L\<rparr>)" "L 0 \<noteq> None" by auto
  have one: "nr_freelist_frames 1 = 1" by (simp add: nr_freelist_frames_def gnt_consts)
  have set: "set_gnttab_entry 511 v (?b\<lparr>gnttab_list := L\<rparr>) = Some (put_entry 511 v (?b\<lparr>gnttab_list := L\<rparr>))" for v
    by (rule set_entry_page) (use L(2) in \<open>simp add: RPP_def\<close>)
  have "\<exists>t. gnttab_init gnt_example_env gnt_example = Some (0, t)"
    using L(1) set
    by (simp add: gnttab_init_def gnt_example_env_def raw_max_nr_grant_frames_def one [simplified] gnttab_resume_def
        max_nr_grant_frames_def gnttab_map_def gnt_example_def gnt_consts Let_def)
  then show ?thesis
    using gnttab_init_ok [of gnt_example_env gnt_example]
    by (auto simp: gnt_example_env_def raw_max_nr_grant_frames_def)
qed

text \<open>The contract for a driver that takes and gives back single references, in any order.\<close>

lemma gnttab_singles_conserve:
  assumes "gnt_inv s" and "distinct held" and "set held \<subseteq> gnt_refs s" and "set held \<inter> set (gnt_free s) = {}"
    and run: "id_run gnt_free (gnt_alloc1 e) gnt_release1 ops (s, held) = Some (t, held')"
  shows "gnt_inv t \<and> distinct held' \<and> set held' \<inter> set (gnt_free t) = {} \<and>
         set held' \<union> set (gnt_free t) = set held \<union> set (gnt_free s)"
proof -
  have "gnt.owned s held" using assms by (simp add: gnt.owned_def)
  from gnt.run_conserves [OF run this] show ?thesis by (simp add: gnt.owned_def)
qed

section \<open>Granting through a reference\<close>

lemma shared_frame [simp]:
  "gnt_next (g\<lparr>shared := sh\<rparr>) = gnt_next g" "gnt_inv (g\<lparr>shared := sh\<rparr>) = gnt_inv g"
  "gnt_free (g\<lparr>shared := sh\<rparr>) = gnt_free g" "gnt_refs (g\<lparr>shared := sh\<rparr>) = gnt_refs g"
  "gnt_pages (g\<lparr>shared := sh\<rparr>) = gnt_pages g"
proof -
  show n: "gnt_next (g\<lparr>shared := sh\<rparr>) = gnt_next g" by (intro ext) (simp add: gnt_next_def gnttab_entry_def)
  then show f: "gnt_free (g\<lparr>shared := sh\<rparr>) = gnt_free g" by (simp add: gnt_free_def)
  show r: "gnt_refs (g\<lparr>shared := sh\<rparr>) = gnt_refs g" by (simp add: gnt_refs_def)
  show p: "gnt_pages (g\<lparr>shared := sh\<rparr>) = gnt_pages g" by (simp add: gnt_pages_def)
  show "gnt_inv (g\<lparr>shared := sh\<rparr>) = gnt_inv g" unfolding gnt_inv_def n f r p by simp
qed

definition entry_for :: "u16 \<Rightarrow> u16 \<Rightarrow> u32 \<Rightarrow> grant_entry_v1" where
  "entry_for dmn fl f = \<lparr>flags = GTF_permit_access OR fl, domid = dmn, frame = f\<rparr>"

definition plain_flags :: "u16 \<Rightarrow> bool" where
  "plain_flags fl \<longleftrightarrow> fl AND (GTF_accept_transfer OR GTF_reading OR GTF_writing) = 0"

lemma plain_flags_readonly [simp]: "plain_flags GTF_readonly" "plain_flags 0"
  by (simp_all add: plain_flags_def GTF_readonly_def GTF_accept_transfer_def GTF_reading_def GTF_writing_def)

lemma grant_ref_ok:
  "plain_flags fl \<Longrightarrow> gnttab_grant_foreign_access_ref r dmn f fl g = Some (g\<lparr>shared := (shared g)(r := entry_for dmn fl f)\<rparr>)"
  by (cases "shared g r") (simp add: gnttab_grant_foreign_access_ref_def set_shared_def plain_flags_def entry_for_def Let_def)

end
