(* ===== verification/Gnttab_Clients.thy ===== *)
theory Gnttab_Clients
  imports Gnttab_Props "HOL-Library.Multiset"
begin

text \<open>
  The clients of the grant table: drivers that take references one by one or in private lists,
  claim from and put back into their lists, and give all of it back in any order, while the table
  grows.
\<close>

section \<open>What an operation does to the references it is not about\<close>

lemma set_entry_next:
  assumes "set_gnttab_entry r v s = Some t"
  shows "gnt_next t = (gnt_next s)(r := v)" and "gnt_refs t = gnt_refs s" and "nr_grant_frames t = nr_grant_frames s"
proof -
  have p: "gnttab_list s (r div RPP) \<noteq> None" using assms by (auto simp: set_gnttab_entry_def split: option.splits)
  have t: "t = put_entry r v s" using assms set_entry_page [OF p] by simp
  show "gnt_next t = (gnt_next s)(r := v)" unfolding t by (rule gnt_next_put [OF p])
  show "gnt_refs t = gnt_refs s" "nr_grant_frames t = nr_grant_frames s" by (simp_all add: t)
qed

lemma callbacks_next [simp]: "gnt_next (check_free_callbacks s) = gnt_next s"
  using check_callbacks_frame [of s] same_list_gnt by blast

lemma link_entries_low: "link_entries i n s = Some t \<Longrightarrow> x < i \<Longrightarrow> gnt_next t x = gnt_next s x"
proof (induction n arbitrary: i s)
  case (Suc n)
  then obtain u where u: "set_gnttab_entry i (i + 1) s = Some u" "link_entries (i + 1) n u = Some t"
    by (auto split: option.splits)
  then show ?case using Suc.IH [OF u(2)] Suc.prems(2) set_entry_next(1) [OF u(1)] by simp
qed simp

lemma grow_low:
  assumes "grow_gnttab_list e ex s = Some (rc, t)" and "0 < ex" and x: "x < ENTRIES_PER_GRANT_FRAME * nr_grant_frames s"
  shows "gnt_next t x = gnt_next s x"
proof -
  let ?nr = "nr_grant_frames s" and ?E = ENTRIES_PER_GRANT_FRAME
  let ?is = "[nr_freelist_frames ?nr..<nr_freelist_frames (?nr + ex)]"
  obtain r u where g: "grow_pages e ?is s = (r, u)" by fastforce
  obtain L where L: "u = s\<lparr>gnttab_list := L\<rparr>" "\<forall>p. p \<notin> set ?is \<longrightarrow> L p = gnttab_list s p"
    using grow_pages_list [of ?is e s] g by auto
  have nr: "nr_grant_frames u = ?nr" by (simp add: L(1))
  have page: "x div RPP < nr_freelist_frames ?nr" using entry_page_bound [OF x] .
  have nu: "gnt_next u x = gnt_next s x" by (rule gnt_next_page) (use page L in simp)
  show ?thesis
  proof (cases r)
    case (Some i)
    obtain M where M: "drop_pages (rev [nr_freelist_frames ?nr..<Suc i]) u = u\<lparr>gnttab_list := M\<rparr>"
      "\<forall>p. p \<notin> set (rev [nr_freelist_frames ?nr..<Suc i]) \<longrightarrow> M p = gnttab_list u p"
      using drop_pages_list by blast
    have "t = u\<lparr>gnttab_list := M\<rparr>" using assms(1) g Some M(1) nr by (auto simp: grow_gnttab_list_def Let_def)
    moreover have "gnt_next (u\<lparr>gnttab_list := M\<rparr>) x = gnt_next u x" by (rule gnt_next_page) (use page M(2) in simp)
    ultimately show ?thesis using nu by simp
  next
    case None
    obtain v w where v: "link_entries (?E * ?nr) (?E * (?nr + ex) - 1 - ?E * ?nr) u = Some v"
      and w: "set_gnttab_entry (?E * (?nr + ex) - 1) (gnttab_free_head v) v = Some w"
      and t: "t = check_free_callbacks (w\<lparr>gnttab_free_head := ?E * ?nr, gnttab_free_count := gnttab_free_count w + int (ex * ?E),
        nr_grant_frames := ?nr + ex\<rparr>)"
      using assms(1) g None by (auto simp: grow_gnttab_list_def Let_def split: option.splits)
    have "x \<noteq> ?E * (?nr + ex) - 1" using x assms(2) by (auto simp: ENTRIES_PER_GRANT_FRAME_def)
    then show ?thesis using link_entries_low [OF v x] set_entry_next(1) [OF w] nu by (simp add: t)
  qed
qed

lemma take_entries_next:
  assumes inv: "gnt_inv s" and n: "1 \<le> n" "n \<le> length (gnt_free s)" and run: "take_entries (int n) s = Some (h, t)"
    and x: "x \<notin> set (gnt_free s)"
  shows "gnt_next t x = gnt_next s x"
proof -
  let ?u = "s\<lparr>gnttab_free_count := gnttab_free_count s - int n\<rparr>"
  obtain ys y zs where f: "gnt_free s = ys @ y # zs" "length ys = n - 1"
    using n id_take_nth_drop [of "n - 1" "gnt_free s"] by (metis Suc_diff_1 Suc_le_lessD length_take less_imp_le_nat min.absorb2 zero_less_one less_le_trans)
  have "gnt_walk s (length ys) (gnttab_free_head s) = Some y"
    by (rule gnt_walk_linked [of _ _ _ _ zs]) (use inv f in \<open>auto simp: gnt_inv_def\<close>)
  moreover have "nat (int n - 1) = length ys" using f(2) n(1) by simp
  ultimately obtain nx where "set_gnttab_entry y GNTTAB_LIST_END (?u\<lparr>gnttab_free_head := nx\<rparr>) = Some t"
    using run by (auto simp: take_entries_def Let_def split: option.splits)
  then have "gnt_next t = (gnt_next s)(y := GNTTAB_LIST_END)" using set_entry_next(1) by simp
  then show ?thesis using x f(1) by simp
qed

lemma expand_low:
  assumes run: "gnttab_expand e k s = Some (rc, t)" and "0 < k" and x: "x < ENTRIES_PER_GRANT_FRAME * nr_grant_frames s"
  shows "gnt_next t x = gnt_next s x"
proof -
  let ?ex = "(k + (ENTRIES_PER_GRANT_FRAME - 1)) div ENTRIES_PER_GRANT_FRAME"
  have ex: "0 < ?ex" using assms(2) by (auto simp: ENTRIES_PER_GRANT_FRAME_def)
  show ?thesis
  proof (cases "nr_grant_frames s + ?ex > max_nr_grant_frames e s")
    case True
    then show ?thesis using run by (simp add: gnttab_expand_def Let_def)
  next
    case False
    then obtain rc' u where m: "gnttab_map e (nr_grant_frames s) (nr_grant_frames s + ?ex - 1) s = Some (rc', u)"
      using run by (auto simp: gnttab_expand_def Let_def split: option.splits)
    then have u: "rc' = 0" "same_list s u" using gnttab_map_list by blast+
    have "grow_gnttab_list e ?ex u = Some (rc, t)" using run False m u(1) by (simp add: gnttab_expand_def Let_def)
    from grow_low [OF this ex, of x] show ?thesis using x u(2) same_list_gnt [OF u(2)] by (simp add: same_list_def)
  qed
qed

lemma get_entries_next:
  assumes inv: "gnt_inv s" and n: "1 \<le> n" and run: "get_free_entries e (int n) s = Some (h, t)"
    and x: "x \<in> gnt_refs s" "x \<notin> set (gnt_free s)"
  shows "gnt_next t x = gnt_next s x"
proof (cases "gnttab_free_count s < int n")
  case False
  then have "n \<le> length (gnt_free s)" using length_gnt_free [OF inv] by simp
  then show ?thesis using take_entries_next [OF inv n _ _ x(2)] run False by (simp add: get_free_entries_def)
next
  case True
  let ?k = "nat (int n - gnttab_free_count s)"
  have k: "0 < ?k" using True by simp
  have low: "x < ENTRIES_PER_GRANT_FRAME * nr_grant_frames s" using x(1) by (simp add: gnt_refs_def)
  show ?thesis
  proof (cases rule: gnttab_expand_ok [OF inv k, where e = e, case_names bug err ok])
    case (bug i)
    then show ?thesis using run True by (simp add: get_free_entries_def)
  next
    case (err rc s')
    then show ?thesis using run True expand_low [OF err(1) k low] by (auto simp: get_free_entries_def)
  next
    case (ok s' ex)
    have len: "length (gnt_free s') = ENTRIES_PER_GRANT_FRAME * ex + length (gnt_free s)"
      using ok(6) by (simp add: distrib_left)
    then have "n \<le> length (gnt_free s')" using ok(3) length_gnt_free [OF inv] by linarith
    moreover have "take_entries (int n) s' = Some (h, t)" using run True ok(1) by (simp add: get_free_entries_def)
    moreover have "x \<notin> set (gnt_free s')" using x(2) low ok(6) by auto
    ultimately show ?thesis using take_entries_next [OF ok(2) n] expand_low [OF ok(1) k low] by simp
  qed
qed

section \<open>Drivers that hold references\<close>

text \<open>
  \<open>held\<close> are the single references, \<open>priv\<close> the private lists: what the driver keeps is the head, and
  with it goes the references its links run through.
\<close>

definition gnt_everything :: "gnttab \<Rightarrow> nat list \<Rightarrow> (nat \<times> nat list) list \<Rightarrow> nat multiset" where
  "gnt_everything s held priv = mset held + (\<Sum>p \<leftarrow> priv. mset (snd p)) + mset (gnt_free s)"

definition gnt_clients_ok :: "gnttab \<Rightarrow> nat list \<Rightarrow> (nat \<times> nat list) list \<Rightarrow> bool" where
  "gnt_clients_ok s held priv \<longleftrightarrow> gnt_inv s \<and> (\<forall>(h, xs) \<in> set priv. linked (gnt_next s) h GNTTAB_LIST_END xs) \<and>
     (\<forall>r. count (gnt_everything s held priv) r \<le> 1) \<and> set_mset (gnt_everything s held priv) \<subseteq> gnt_refs s"

text \<open>
  One reference, with or without access granted on it, or a whole list is allocated, which may fail
  or grow the table; a reference is claimed from a private list or put back into one; a single
  reference that is held, or a whole private list, is freed.
\<close>

inductive gnt_clients :: "gnt_env \<Rightarrow> gnttab \<times> nat list \<times> (nat \<times> nat list) list \<Rightarrow>
    gnttab \<times> nat list \<times> (nat \<times> nat list) list \<Rightarrow> bool" for e x where
  start: "gnt_clients e x x"
| grant: "gnt_clients e x (s, held, priv) \<Longrightarrow> gnttab_grant_foreign_access e dmn fr fl s = Some (r, t) \<Longrightarrow>
    gnt_clients e x (t, if r < 0 then held else nat r # held, priv)"
| alloc: "gnt_clients e x (s, held, priv) \<Longrightarrow> n \<noteq> 0 \<Longrightarrow> gnttab_alloc_grant_references e n s = Some (rc, h, t) \<Longrightarrow>
    gnt_clients e x (t, held,
      (case h of None \<Rightarrow> priv | Some h \<Rightarrow> (h, chain_list (gnt_next t) (unat n) h) # priv))"
| claim: "gnt_clients e x (s, held, ps @ (h, xs) # qs) \<Longrightarrow> gnttab_claim_grant_reference h s = Some (r, h') \<Longrightarrow> 0 \<le> r \<Longrightarrow>
    gnt_clients e x (s, nat r # held, ps @ (h', tl xs) # qs)"
| release: "gnt_clients e x (s, held, ps @ (h, xs) # qs) \<Longrightarrow> r \<in> set held \<Longrightarrow> gnttab_release_grant_reference h r s = Some (h', t) \<Longrightarrow>
    gnt_clients e x (t, remove1 r held, ps @ (h', r # xs) # qs)"
| free: "gnt_clients e x (s, held, priv) \<Longrightarrow> r \<in> set held \<Longrightarrow> gnttab_free_grant_reference r s = Some t \<Longrightarrow>
    gnt_clients e x (t, remove1 r held, priv)"
| free_list: "gnt_clients e x (s, held, ps @ (h, xs) # qs) \<Longrightarrow> gnttab_free_grant_references fuel h s = Some t \<Longrightarrow>
    gnt_clients e x (t, held, ps @ qs)"

lemma count_priv: "(h, xs) \<in> set priv \<Longrightarrow> mset xs \<subseteq># (\<Sum>p \<leftarrow> priv. mset (snd p))"
  by (induction priv) (auto intro: subset_mset.order_trans)

lemma one_of_two:
  assumes "\<forall>r. count (A + B) r \<le> (1 :: nat)" and "x \<in># A"
  shows "x \<notin># B"
proof -
  have "count A x + count B x \<le> 1" using spec [OF assms(1), of x] by simp
  moreover have "0 < count A x" using assms(2) by (simp only: count_greater_zero_iff)
  ultimately have "count B x = 0" by linarith
  then show ?thesis by (simp only: not_in_iff)
qed

lemma priv_apart:
  assumes ok: "gnt_clients_ok s held priv" and p: "(h, xs) \<in> set priv" and x: "x \<in> set xs"
  shows "x \<in> gnt_refs s" and "x \<notin> set (gnt_free s)" and "x \<notin> set held"
proof -
  let ?P = "\<Sum>p \<leftarrow> priv. mset (snd p)"
  have xp: "x \<in># ?P" using count_priv [OF p] x by (auto dest: mset_subset_eqD)
  then show "x \<in> gnt_refs s" using ok by (auto simp: gnt_clients_ok_def gnt_everything_def)
  have "\<forall>r. count (?P + (mset held + mset (gnt_free s))) r \<le> 1"
    using ok by (simp add: gnt_clients_ok_def gnt_everything_def ac_simps)
  from one_of_two [OF this xp] show "x \<notin> set (gnt_free s)" "x \<notin> set held" by simp_all
qed

lemma held_apart:
  assumes ok: "gnt_clients_ok s held priv" and x: "x \<in> set held"
  shows "x \<in> gnt_refs s" and "x \<notin> set (gnt_free s)"
proof -
  let ?P = "\<Sum>p \<leftarrow> priv. mset (snd p)"
  show "x \<in> gnt_refs s" using ok x by (auto simp: gnt_clients_ok_def gnt_everything_def)
  have "\<forall>r. count (mset held + (?P + mset (gnt_free s))) r \<le> 1"
    using ok by (simp add: gnt_clients_ok_def gnt_everything_def ac_simps)
  from one_of_two [OF this, of x] x show "x \<notin> set (gnt_free s)" by simp
qed

text \<open>Two lists have nothing in common.\<close>

lemma lists_apart:
  assumes ok: "gnt_clients_ok s held (ps @ (h, xs) # qs)" and p: "(k, ys) \<in> set (ps @ qs)" and x: "x \<in> set xs"
  shows "x \<notin> set ys"
proof -
  let ?P = "\<Sum>p \<leftarrow> ps @ qs. mset (snd p)"
  have "\<forall>r. count (mset xs + (?P + mset held + mset (gnt_free s))) r \<le> 1"
    using ok by (simp add: gnt_clients_ok_def gnt_everything_def ac_simps)
  from one_of_two [OF this, of x] x have "x \<notin># ?P" by simp
  then show ?thesis using count_priv [OF p] by (auto dest: mset_subset_eqD)
qed

text \<open>A step that keeps all references and adds those of new frames.\<close>

definition gnt_kept :: "gnttab \<times> nat list \<times> (nat \<times> nat list) list \<Rightarrow> gnttab \<times> nat list \<times> (nat \<times> nat list) list \<Rightarrow> bool" where
  "gnt_kept x y \<longleftrightarrow> (case (x, y) of ((s, held, priv), (t, held', priv')) \<Rightarrow>
     nr_grant_frames s \<le> nr_grant_frames t \<and>
     gnt_everything t held' priv' = gnt_everything s held priv + mset (gnt_grown s t))"

lemma kept_ok:
  assumes ok: "gnt_clients_ok s held priv" and k: "gnt_kept (s, held, priv) (t, held', priv')"
    and inv: "gnt_inv t" and l: "\<forall>(h, xs) \<in> set priv'. linked (gnt_next t) h GNTTAB_LIST_END xs"
  shows "gnt_clients_ok t held' priv'"
proof -
  let ?A = "gnt_everything s held priv" and ?g = "gnt_grown s t"
  have e: "gnt_everything t held' priv' = ?A + mset ?g" and nr: "nr_grant_frames s \<le> nr_grant_frames t"
    using k by (simp_all add: gnt_kept_def)
  have sub: "set_mset ?A \<subseteq> gnt_refs s" and one: "count ?A r \<le> 1" for r using ok by (simp_all add: gnt_clients_ok_def)
  have "count (?A + mset ?g) r \<le> 1" for r
  proof (cases "r \<in> set ?g")
    case True
    then have "r \<notin> gnt_refs s" by (auto simp: gnt_grown_def gnt_refs_def)
    then have "count ?A r = 0" using sub by (meson count_eq_zero_iff subsetD)
    moreover have "count (mset ?g) r = 1" using True by (simp add: gnt_grown_def)
    ultimately show ?thesis by simp
  next
    case False
    then have "count (mset ?g) r = 0" by (simp add: count_mset_0_iff)
    then show ?thesis using one [of r] unfolding count_union by linarith
  qed
  moreover have "set_mset (?A + mset ?g) \<subseteq> gnt_refs t"
  proof -
    have "1 \<le> nr_grant_frames s" using ok by (simp add: gnt_clients_ok_def gnt_inv_def gnt_pages_def)
    then have "gnt_refs s \<subseteq> gnt_refs t" "set ?g \<subseteq> gnt_refs t"
      using nr by (auto simp: gnt_refs_def gnt_grown_def gnt_consts)
    then show ?thesis using sub by auto
  qed
  ultimately show ?thesis using inv l by (simp add: gnt_clients_ok_def e)
qed

lemma grown_same [simp]: "nr_grant_frames t = nr_grant_frames s \<Longrightarrow> gnt_grown s t = []"
  by (simp add: gnt_grown_def)

lemma get_entries_step:
  assumes ok: "gnt_clients_ok s held priv" and n: "1 \<le> n" and run: "get_free_entries e (int n) s = Some (h, t)"
  shows "gnt_inv t \<and> nr_grant_frames s \<le> nr_grant_frames t \<and> (\<forall>(h, xs) \<in> set priv. linked (gnt_next t) h GNTTAB_LIST_END xs) \<and>
    (if h < 0 then gnt_free t = gnt_free s \<and> nr_grant_frames t = nr_grant_frames s
     else \<exists>xs. linked (gnt_next t) (nat h) GNTTAB_LIST_END xs \<and> length xs = n \<and> xs @ gnt_free t = gnt_grown s t @ gnt_free s)"
proof -
  have inv: "gnt_inv s" and lk: "\<forall>(h, xs) \<in> set priv. linked (gnt_next s) h GNTTAB_LIST_END xs"
    using ok by (simp_all add: gnt_clients_ok_def)
  have keep: "\<forall>(h, xs) \<in> set priv. linked (gnt_next t) h GNTTAB_LIST_END xs"
  proof (clarify)
    fix k xs assume p: "(k, xs) \<in> set priv"
    have "linked (gnt_next t) k GNTTAB_LIST_END xs = linked (gnt_next s) k GNTTAB_LIST_END xs"
      by (rule linked_cong) (rule get_entries_next [OF inv n run priv_apart(1,2) [OF ok p]])
    then show "linked (gnt_next t) k GNTTAB_LIST_END xs" using lk p by auto
  qed
  show ?thesis
  proof (cases rule: get_free_entries_ok [OF inv n, where e = e, case_names bug err ok])
    case (bug i)
    then show ?thesis using run by simp
  next
    case (err rc s')
    then show ?thesis using run keep by auto
  next
    case (ok h' xs s')
    then show ?thesis using run keep by (auto simp: gnt_hands_out_def)
  qed
qed

lemma grant_kept:
  assumes ok: "gnt_clients_ok s held priv" and run: "gnttab_grant_foreign_access e dmn fr fl s = Some (r, t)"
  defines "held' \<equiv> (if r < 0 then held else nat r # held)"
  shows "gnt_clients_ok t held' priv \<and> gnt_kept (s, held, priv) (t, held', priv)"
proof -
  obtain h u where g: "get_free_entries e 1 s = Some (h, u)" using run by (auto simp: gnttab_grant_foreign_access_def split: option.splits)
  have g1: "get_free_entries e (int 1) s = Some (h, u)" using g by simp
  note st = get_entries_step [OF ok _ g1, simplified]
  have "\<exists>sh. t = u\<lparr>shared := sh\<rparr> \<and> (if h < 0 then r < 0 else r = h)"
    using run g by (auto simp: gnttab_grant_foreign_access_def gnttab_grant_foreign_access_ref_def set_shared_def Let_def
        split: if_splits intro: exI [of _ "shared u"])
  then obtain sh where t: "t = u\<lparr>shared := sh\<rparr>" and r: "if h < 0 then r < 0 else r = h" by blast
  have nr: "nr_grant_frames t = nr_grant_frames u" "gnt_grown s t = gnt_grown s u" by (simp_all add: t gnt_grown_def)
  have k: "gnt_kept (s, held, priv) (t, held', priv)"
  proof (cases "h < 0")
    case True
    then show ?thesis using st r nr by (simp add: gnt_kept_def held'_def gnt_everything_def t)
  next
    case False
    then obtain xs where xs: "linked (gnt_next u) (nat h) GNTTAB_LIST_END xs" "length xs = 1" "xs @ gnt_free u = gnt_grown s u @ gnt_free s"
      using st by auto
    then have "xs = [nat h]" by (cases xs) auto
    then have "mset (gnt_free u) + {#nat h#} = mset (gnt_grown s u) + mset (gnt_free s)"
      using arg_cong [OF xs(3), of mset] by simp
    then show ?thesis using st r nr False by (simp add: gnt_kept_def held'_def gnt_everything_def t)
  qed
  then show ?thesis using kept_ok [OF ok k] st by (simp add: t)
qed

lemma alloc_kept:
  assumes ok: "gnt_clients_ok s held priv" and n: "n \<noteq> 0" and run: "gnttab_alloc_grant_references e n s = Some (rc, h, t)"
  defines "priv' \<equiv> (case h of None \<Rightarrow> priv | Some h \<Rightarrow> (h, chain_list (gnt_next t) (unat n) h) # priv)"
  shows "gnt_clients_ok t held priv' \<and> gnt_kept (s, held, priv) (t, held, priv')"
proof -
  have n1: "1 \<le> unat n" using n by (simp add: Suc_leI unat_gt_0)
  obtain k where g: "get_free_entries e (int (unat n)) s = Some (k, t)" and h: "h = (if k < 0 then None else Some (nat k))"
    using run by (auto simp: gnttab_alloc_grant_references_def split: option.splits if_splits)
  note st = get_entries_step [OF ok n1 g]
  have "gnt_kept (s, held, priv) (t, held, priv') \<and> (\<forall>(h, xs) \<in> set priv'. linked (gnt_next t) h GNTTAB_LIST_END xs)"
  proof (cases "k < 0")
    case True
    then show ?thesis using st h by (simp add: gnt_kept_def priv'_def gnt_everything_def)
  next
    case False
    then obtain xs where xs: "linked (gnt_next t) (nat k) GNTTAB_LIST_END xs" "length xs = unat n" "xs @ gnt_free t = gnt_grown s t @ gnt_free s"
      using st by auto
    have c: "chain_list (gnt_next t) (unat n) (nat k) = xs" using linked_chain_list [OF xs(1)] xs(2) by simp
    have "mset xs + mset (gnt_free t) = mset (gnt_grown s t) + mset (gnt_free s)" using arg_cong [OF xs(3), of mset] by simp
    then show ?thesis using st h False c xs(1) by (simp add: gnt_kept_def priv'_def gnt_everything_def ac_simps)
  qed
  then show ?thesis using kept_ok [OF ok] st by blast
qed

lemma claim_kept:
  assumes ok: "gnt_clients_ok s held (ps @ (h, xs) # qs)" and run: "gnttab_claim_grant_reference h s = Some (r, h')" "0 \<le> r"
  shows "gnt_clients_ok s (nat r # held) (ps @ (h', tl xs) # qs) \<and>
    gnt_kept (s, held, ps @ (h, xs) # qs) (s, nat r # held, ps @ (h', tl xs) # qs)"
proof -
  have l: "linked (gnt_next s) h GNTTAB_LIST_END xs" and inv: "gnt_inv s" using ok by (auto simp: gnt_clients_ok_def)
  have e: "h \<noteq> GNTTAB_LIST_END" "r = int h" "gnttab_entry s h = Some h'"
    using run by (auto simp: gnttab_claim_grant_reference_def split: if_splits)
  then obtain ys where xs: "xs = h # ys" using l by (cases xs) auto
  have "h' = gnt_next s h" using e(3) by (simp add: gnt_next_def)
  then have l': "linked (gnt_next s) h' GNTTAB_LIST_END ys" using l xs by simp
  have k: "gnt_kept (s, held, ps @ (h, xs) # qs) (s, nat r # held, ps @ (h', tl xs) # qs)"
    using e xs by (simp add: gnt_kept_def gnt_everything_def)
  show ?thesis using kept_ok [OF ok k inv] k l' ok xs by (auto simp: gnt_clients_ok_def)
qed

lemma put_entry_inv:
  assumes inv: "gnt_inv s" and run: "set_gnttab_entry r v s = Some t" and r: "r \<notin> set (gnt_free s)"
  shows "gnt_inv t \<and> gnt_free t = gnt_free s"
proof -
  have t: "t = put_entry r v s"
    using run set_entry_page [of s r v] by (cases "gnttab_list s (r div RPP)") (simp_all add: set_gnttab_entry_def)
  show ?thesis
  proof (rule gnt_inv_free_list)
    show "linked (gnt_next t) (gnttab_free_head t) GNTTAB_LIST_END (gnt_free s)"
      using inv r by (simp add: set_entry_next(1) [OF run] gnt_inv_def) (simp add: t)
  qed (use inv t length_gnt_free [OF inv] in \<open>auto simp: gnt_inv_def\<close>)
qed

lemma remove_held: "r \<in> set held \<Longrightarrow> mset held = add_mset r (mset (remove1 r held))"
  by simp

lemma release_kept:
  assumes ok: "gnt_clients_ok s held (ps @ (h, xs) # qs)" and r: "r \<in> set held"
    and run: "gnttab_release_grant_reference h r s = Some (h', t)"
  shows "gnt_clients_ok t (remove1 r held) (ps @ (h', r # xs) # qs) \<and>
    gnt_kept (s, held, ps @ (h, xs) # qs) (t, remove1 r held, ps @ (h', r # xs) # qs)"
proof -
  have inv: "gnt_inv s" and lk: "\<forall>(h, xs) \<in> set (ps @ (h, xs) # qs). linked (gnt_next s) h GNTTAB_LIST_END xs"
    using ok by (simp_all add: gnt_clients_ok_def)
  have set: "set_gnttab_entry r h s = Some t" and h': "h' = r" using run by (auto simp: gnttab_release_grant_reference_def)
  note n = set_entry_next [OF set] and f = put_entry_inv [OF inv set held_apart(2) [OF ok r]]
  have "r < 2 ^ 31"
    using held_apart(1) [OF ok r] inv by (auto simp: gnt_refs_def gnt_inv_def gnt_pages_def gnt_consts)
  then have r_end: "r \<noteq> GNTTAB_LIST_END" by (simp add: gnt_consts)
  have keep: "linked (gnt_next t) k GNTTAB_LIST_END ys" if "(k, ys) \<in> set (ps @ (h, xs) # qs)" for k ys
  proof -
    have "r \<notin> set ys" using priv_apart(3) [OF ok that] r by blast
    then show ?thesis using lk that unfolding n(1) by auto
  qed
  have "\<forall>(k, ys) \<in> set (ps @ (h', r # xs) # qs). linked (gnt_next t) k GNTTAB_LIST_END ys"
    using keep r_end h' n(1) by auto
  moreover have k: "gnt_kept (s, held, ps @ (h, xs) # qs) (t, remove1 r held, ps @ (h', r # xs) # qs)"
    unfolding gnt_kept_def using f n(3) remove_held [OF r] by (simp add: gnt_everything_def)
  ultimately show ?thesis using kept_ok [OF ok k] f by blast
qed

lemma free_kept:
  assumes ok: "gnt_clients_ok s held priv" and r: "r \<in> set held" and run: "gnttab_free_grant_reference r s = Some t"
  shows "gnt_clients_ok t (remove1 r held) priv \<and> gnt_kept (s, held, priv) (t, remove1 r held, priv)"
proof -
  have inv: "gnt_inv s" and lk: "\<forall>(h, xs) \<in> set priv. linked (gnt_next s) h GNTTAB_LIST_END xs"
    using ok by (simp_all add: gnt_clients_ok_def)
  obtain u where u: "set_gnttab_entry r (gnttab_free_head s) s = Some u"
    and t: "t = check_free_callbacks (u\<lparr>gnttab_free_head := r, gnttab_free_count := gnttab_free_count u + 1\<rparr>)"
    using run by (auto simp: gnttab_free_grant_reference_def put_free_entry_def split: option.splits)
  have n: "gnt_next t = (gnt_next s)(r := gnttab_free_head s)" using set_entry_next(1) [OF u] by (simp add: t)
  have f: "gnt_inv t" "gnt_free t = r # gnt_free s" "gnt_refs t = gnt_refs s"
    using put_free_entry_ok [OF inv held_apart [OF ok r]] run by (auto simp: gnttab_free_grant_reference_def)
  have "same_list (u\<lparr>gnttab_free_head := r, gnttab_free_count := gnttab_free_count u + 1\<rparr>) t" using check_callbacks_frame t by blast
  then have nr: "nr_grant_frames t = nr_grant_frames s" using set_entry_next(3) [OF u] by (simp add: same_list_def)
  have keep: "linked (gnt_next t) k GNTTAB_LIST_END ys" if "(k, ys) \<in> set priv" for k ys
  proof -
    have "r \<notin> set ys" using priv_apart(3) [OF ok that] r by blast
    then show ?thesis using lk that unfolding n by auto
  qed
  have k: "gnt_kept (s, held, priv) (t, remove1 r held, priv)"
    unfolding gnt_kept_def using f nr remove_held [OF r] by (simp add: gnt_everything_def)
  show ?thesis using kept_ok [OF ok k f(1)] keep k by blast
qed

lemma gnt_last_mono: "gnt_last s f r c = Some v \<Longrightarrow> f \<le> f' \<Longrightarrow> gnt_last s f' r c = Some v"
proof (induction f arbitrary: f' r c)
  case (Suc f)
  obtain g where g: "f' = Suc g" "f \<le> g" using Suc.prems(2) by (cases f') simp_all
  obtain nx where nx: "gnttab_entry s r = Some nx" using Suc.prems(1) by (simp split: option.splits)
  show ?case
  proof (cases "nx = GNTTAB_LIST_END")
    case True
    then show ?thesis using Suc.prems(1) nx g by simp
  next
    case False
    then show ?thesis using Suc.IH [OF _ g(2), of nx "c + 1"] Suc.prems(1) nx g by simp
  qed
qed simp

lemma part_distinct:
  assumes one: "\<forall>r. count A r \<le> 1" and sub: "mset xs \<subseteq># A"
  shows "distinct xs"
  unfolding distinct_count_atmost_1
proof
  fix x
  have c: "count (mset xs) x \<le> 1" using one mset_subset_eq_count [OF sub, of x] le_trans by blast
  show "count (mset xs) x = (if x \<in> set xs then 1 else 0)"
  proof (cases "x \<in> set xs")
    case True
    then have "0 < count (mset xs) x" by (simp only: count_greater_zero_iff set_mset_mset)
    then have "count (mset xs) x = 1" using c by linarith
    then show ?thesis using True by (simp only: if_True)
  qed (simp add: count_mset_0_iff)
qed

lemma free_list_next:
  assumes run: "gnttab_free_grant_references fuel h s = Some t" and l: "linked (gnt_next s) h GNTTAB_LIST_END xs"
    and fuel: "length xs \<le> fuel" and pg: "gnt_pages s" and sub: "set xs \<subseteq> gnt_refs s" and x: "x \<notin> set xs"
  shows "gnt_next t x = gnt_next s x \<and> nr_grant_frames t = nr_grant_frames s"
proof (cases xs rule: rev_cases)
  case Nil
  then show ?thesis using run l by (simp add: gnttab_free_grant_references_def)
next
  case (snoc ys y)
  have h: "h \<noteq> GNTTAB_LIST_END" using l snoc by (cases ys) auto
  have "gnt_last s fuel h 1 = Some (y, length xs)" using gnt_last_linked [of s h ys y fuel 1] l pg sub fuel snoc by simp
  then obtain u where u: "set_gnttab_entry y (gnttab_free_head s) s = Some u"
    and t: "t = check_free_callbacks (u\<lparr>gnttab_free_head := h, gnttab_free_count := gnttab_free_count u + int (length xs)\<rparr>)"
    using run h by (auto simp: gnttab_free_grant_references_def split: option.splits)
  have "same_list (u\<lparr>gnttab_free_head := h, gnttab_free_count := gnttab_free_count u + int (length xs)\<rparr>) t"
    using check_callbacks_frame t by blast
  then show ?thesis using set_entry_next(1,3) [OF u] x snoc t by (simp add: same_list_def)
qed

lemma free_list_kept:
  assumes ok: "gnt_clients_ok s held (ps @ (h, xs) # qs)" and run: "gnttab_free_grant_references fuel h s = Some t"
  shows "gnt_clients_ok t held (ps @ qs) \<and> gnt_kept (s, held, ps @ (h, xs) # qs) (t, held, ps @ qs)"
proof -
  have inv: "gnt_inv s" and lk: "\<forall>(h, xs) \<in> set (ps @ (h, xs) # qs). linked (gnt_next s) h GNTTAB_LIST_END xs"
    using ok by (simp_all add: gnt_clients_ok_def)
  then have l: "linked (gnt_next s) h GNTTAB_LIST_END xs" by simp
  let ?f = "max fuel (length xs)"
  have run': "gnttab_free_grant_references ?f h s = Some t"
    using run gnt_last_mono [of s fuel h 1 _ ?f] by (auto simp: gnttab_free_grant_references_def split: if_splits option.splits)
  have mem: "(h, xs) \<in> set (ps @ (h, xs) # qs)" by simp
  have "mset xs \<subseteq># gnt_everything s held (ps @ (h, xs) # qs)" by (simp add: gnt_everything_def)
  moreover have "\<forall>r. count (gnt_everything s held (ps @ (h, xs) # qs)) r \<le> 1" using ok by (simp add: gnt_clients_ok_def)
  ultimately have d: "distinct xs" by (intro part_distinct)
  have sub: "set xs \<subseteq> gnt_refs s" "set xs \<inter> set (gnt_free s) = {}" using priv_apart [OF ok mem] by auto
  obtain t' where t': "gnttab_free_grant_references ?f h s = Some t'" "gnt_inv t'" "gnt_free t' = xs @ gnt_free s" "gnt_refs t' = gnt_refs s"
    using gnttab_free_grant_references_ok [OF inv l d sub] by (metis max.cobounded2)
  then have f: "gnt_inv t" "gnt_free t = xs @ gnt_free s" using run' by simp_all
  have pg: "gnt_pages s" using inv by (simp add: gnt_inv_def)
  have n: "\<forall>x. x \<notin> set xs \<longrightarrow> gnt_next t x = gnt_next s x"
    using free_list_next [OF run' l max.cobounded2 pg sub(1)] by blast
  have "GNTTAB_LIST_END \<notin> set xs" using linked_not_end [OF l] .
  then have nr: "nr_grant_frames t = nr_grant_frames s" using free_list_next [OF run' l max.cobounded2 pg sub(1)] by blast
  have keep: "linked (gnt_next t) k GNTTAB_LIST_END ys" if p: "(k, ys) \<in> set (ps @ qs)" for k ys
  proof -
    have "linked (gnt_next t) k GNTTAB_LIST_END ys = linked (gnt_next s) k GNTTAB_LIST_END ys"
      by (rule linked_cong) (use n lists_apart [OF ok p] in blast)
    then show ?thesis using lk p by auto
  qed
  have k: "gnt_kept (s, held, ps @ (h, xs) # qs) (t, held, ps @ qs)"
    unfolding gnt_kept_def using f nr by (simp add: gnt_everything_def)
  show ?thesis using kept_ok [OF ok k f(1)] keep k by blast
qed

lemma upt_split: "i \<le> j \<Longrightarrow> j \<le> k \<Longrightarrow> [i..<k] = [i..<j] @ [j..<k]"
  using upt_add_eq_append [of i j "k - j"] by simp

lemma kept_trans:
  assumes "gnt_kept x y" and "gnt_kept y z"
  shows "gnt_kept x z"
proof -
  obtain s held priv t held' priv' u held'' priv'' where x: "x = (s, held, priv)" "y = (t, held', priv')" "z = (u, held'', priv'')"
    by (metis prod_cases3)
  let ?E = ENTRIES_PER_GRANT_FRAME
  have nr: "nr_grant_frames s \<le> nr_grant_frames t" "nr_grant_frames t \<le> nr_grant_frames u"
    using assms by (simp_all add: gnt_kept_def x)
  then have "[?E * nr_grant_frames s..<?E * nr_grant_frames u] =
      [?E * nr_grant_frames s..<?E * nr_grant_frames t] @ [?E * nr_grant_frames t..<?E * nr_grant_frames u]"
    by (intro upt_split) simp_all
  then have "mset (gnt_grown s u) = mset (gnt_grown s t) + mset (gnt_grown t u)" by (simp only: gnt_grown_def mset_append)
  then show ?thesis using assms nr by (simp add: gnt_kept_def x ac_simps)
qed

lemma clients_kept:
  "gnt_clients e x y \<Longrightarrow> (case x of (s, held, priv) \<Rightarrow> gnt_clients_ok s held priv) \<Longrightarrow>
    (case y of (t, held', priv') \<Rightarrow> gnt_clients_ok t held' priv') \<and> gnt_kept x y"
proof (induction rule: gnt_clients.induct)
  case start
  then show ?case by (simp add: gnt_kept_def split: prod.splits)
next
  case (grant s' held' priv' dmn fr fl r t)
  then have ok: "gnt_clients_ok s' held' priv'" and k: "gnt_kept x (s', held', priv')" by simp_all
  show ?case using grant_kept [OF ok grant.hyps(2)] kept_trans [OF k] unfolding prod.case by blast
next
  case (alloc s' held' priv' n rc h t)
  then have ok: "gnt_clients_ok s' held' priv'" and k: "gnt_kept x (s', held', priv')" by simp_all
  show ?case using alloc_kept [OF ok alloc.hyps(2,3)] kept_trans [OF k] unfolding prod.case by blast
next
  case (claim s' held' ps h xs qs r h')
  then have ok: "gnt_clients_ok s' held' (ps @ (h, xs) # qs)" and k: "gnt_kept x (s', held', ps @ (h, xs) # qs)" by simp_all
  show ?case using claim_kept [OF ok claim.hyps(2,3)] kept_trans [OF k] unfolding prod.case by blast
next
  case (release s' held' ps h xs qs r h' t)
  then have ok: "gnt_clients_ok s' held' (ps @ (h, xs) # qs)" and k: "gnt_kept x (s', held', ps @ (h, xs) # qs)" by simp_all
  show ?case using release_kept [OF ok release.hyps(2,3)] kept_trans [OF k] unfolding prod.case by blast
next
  case (free s' held' priv' r t)
  then have ok: "gnt_clients_ok s' held' priv'" and k: "gnt_kept x (s', held', priv')" by simp_all
  show ?case using free_kept [OF ok free.hyps(2,3)] kept_trans [OF k] unfolding prod.case by blast
next
  case (free_list s' held' ps h xs qs fuel t)
  then have ok: "gnt_clients_ok s' held' (ps @ (h, xs) # qs)" and k: "gnt_kept x (s', held', ps @ (h, xs) # qs)" by simp_all
  show ?case using free_list_kept [OF ok free_list.hyps(2)] kept_trans [OF k] unfolding prod.case by blast
qed

text \<open>
  C9: No reference is lost or handed out twice. Drivers take single references and private lists of any
  size, claim from their lists and put references back into them, and free what they hold, in any
  order; an allocation may fail or grow the table. All along, the references held, those in private lists and those on
  the free list are together the ones that were there at the start and those of the frames added
  since, each once; the private lists stay linked, and the allocator's invariant holds.
\<close>

theorem gnttab_clients_conserve:
  assumes "gnt_clients e (s, held, priv) (t, held', priv')" and "gnt_clients_ok s held priv"
  shows "gnt_clients_ok t held' priv' \<and>
    mset held' + (\<Sum>p \<leftarrow> priv'. mset (snd p)) + mset (gnt_free t) =
      mset held + (\<Sum>p \<leftarrow> priv. mset (snd p)) + mset (gnt_free s) +
      mset [ENTRIES_PER_GRANT_FRAME * nr_grant_frames s..<ENTRIES_PER_GRANT_FRAME * nr_grant_frames t]"
  using clients_kept [OF assms(1)] assms(2) by (simp add: gnt_kept_def gnt_everything_def gnt_grown_def)

text \<open>Two references are allocated as a list, the first is claimed and freed, then the rest of the list.\<close>

theorem gnttab_clients_conserve_witness:
  "\<exists>t. gnt_clients gnt_example_env (gnt_example, [], []) (t, [], []) \<and> gnt_clients_ok t [] [] \<and>
     mset (gnt_free t) = {#8, 9#} + mset [512..<512 * nr_grant_frames t]"
proof -
  let ?e = gnt_example_env and ?s = gnt_example
  have f: "gnt_inv ?s" "gnt_free ?s = [8, 9]" using gnt_example_inv by auto
  have ok: "gnt_clients_ok ?s [] []"
    using f by (auto simp: gnt_clients_ok_def gnt_everything_def gnt_refs_def gnt_example_def gnt_consts)
  obtain t1 where t1: "gnttab_alloc_grant_references ?e 2 ?s = Some (0, Some 8, t1)" using gnt_example_alloc by blast
  define n where "n = gnt_next t1 8"
  have "unat (2 :: u16) = Suc (Suc 0)" by simp
  then have "chain_list (gnt_next t1) (unat (2 :: u16)) 8 = [8, n]" by (simp only: chain_list.simps n_def)
  then have r1: "gnt_clients ?e (?s, [], []) (t1, [], [] @ (8, [8, n]) # [])"
    using gnt_clients.alloc [OF gnt_clients.start _ t1] by simp
  have o1: "gnt_clients_ok t1 [] [(8, [8, n])]" using clients_kept [OF r1] ok by simp
  then have i1: "gnt_inv t1" "linked (gnt_next t1) 8 GNTTAB_LIST_END [8, n]" "8 \<in> gnt_refs t1"
    using priv_apart(1) [OF o1, of 8 "[8, n]" 8] by (simp_all add: gnt_clients_ok_def)
  have "gnttab_entry t1 8 = Some n" using i1(1,3) gnt_entry_Some [of t1 8] by (simp add: gnt_inv_def gnt_refs_def n_def)
  then have "gnttab_claim_grant_reference 8 t1 = Some (int 8, n)" by (simp add: gnttab_claim_grant_reference_def gnt_consts)
  from gnt_clients.claim [OF r1 this] have r2: "gnt_clients ?e (?s, [], []) (t1, [8], [] @ (n, [n]) # [])" by simp
  have o2: "gnt_clients_ok t1 [8] [(n, [n])]" using clients_kept [OF r2] ok by simp
  obtain t2 where t2: "gnttab_free_grant_reference 8 t1 = Some t2"
    using put_free_entry_ok [OF i1(1) held_apart [OF o2, of 8]] by (auto simp: gnttab_free_grant_reference_def)
  from gnt_clients.free [OF r2 _ t2] have r3: "gnt_clients ?e (?s, [], []) (t2, [], [] @ (n, [n]) # [])" by simp
  have o3: "gnt_clients_ok t2 [] [(n, [n])]" using clients_kept [OF r3] ok by simp
  then have i3: "gnt_inv t2" "linked (gnt_next t2) n GNTTAB_LIST_END [n]" by (simp_all add: gnt_clients_ok_def)
  obtain t where t: "gnttab_free_grant_references 1 n t2 = Some t"
    using gnttab_free_grant_references_ok [OF i3, of 1] priv_apart [OF o3, of n "[n]" n] by auto
  from gnt_clients.free_list [OF r3 t] have r: "gnt_clients ?e (?s, [], []) (t, [], [])" by simp
  have "nr_grant_frames ?s = 1" by (simp add: gnt_example_def)
  then show ?thesis using gnttab_clients_conserve [OF r ok] r f(2) by (intro exI [of _ t]) (simp add: ENTRIES_PER_GRANT_FRAME_def)
qed

end
