(* ===== verification/Xs_Wire.thy ===== *)
theory Xs_Wire
  imports Xen_Prelude
begin

text \<open>
  The xenstore wire format and the string handling of \<^verbatim>\<open>xenbus_xs.c\<close>: the message header of
  \<^verbatim>\<open>xs_wire.h\<close> as bytes, error names, path joining, splitting a payload into its strings, and
  the tokens that name watches. A C string is the list of its bytes before the terminating
  zero; \<open>sprintf\<close> of a pointer with \<open>%lX\<close> and \<open>simple_strtoul\<close> are the kernel library's.
\<close>

section \<open>Message headers\<close>

record xsd_sockmsg =
  m_type :: u32
  req_id :: u32
  tx_id :: u32
  m_len :: u32

definition XS_DIRECTORY :: u32 where "XS_DIRECTORY = 1"
definition XS_READ :: u32 where "XS_READ = 2"
definition XS_WATCH :: u32 where "XS_WATCH = 4"
definition XS_UNWATCH :: u32 where "XS_UNWATCH = 5"
definition XS_TRANSACTION_START :: u32 where "XS_TRANSACTION_START = 6"
definition XS_TRANSACTION_END :: u32 where "XS_TRANSACTION_END = 7"
definition XS_WRITE :: u32 where "XS_WRITE = 11"
definition XS_MKDIR :: u32 where "XS_MKDIR = 12"
definition XS_RM :: u32 where "XS_RM = 13"
definition XS_WATCH_EVENT :: u32 where "XS_WATCH_EVENT = 15"
definition XS_ERROR :: u32 where "XS_ERROR = 16"
definition XS_RESET_WATCHES :: u32 where "XS_RESET_WATCHES = 21"
definition XS_LINUX_WEAK_WRITE :: u32 where "XS_LINUX_WEAK_WRITE = 128"
definition XENSTORE_PAYLOAD_MAX :: u32 where "XENSTORE_PAYLOAD_MAX = 4096"

lemmas xs_types = XS_DIRECTORY_def XS_READ_def XS_WATCH_def XS_UNWATCH_def XS_TRANSACTION_START_def
  XS_TRANSACTION_END_def XS_WRITE_def XS_MKDIR_def XS_RM_def XS_WATCH_EVENT_def XS_ERROR_def
  XS_RESET_WATCHES_def XS_LINUX_WEAK_WRITE_def

text \<open>A 32-bit field in memory, least significant byte first.\<close>

definition le32 :: "u32 \<Rightarrow> u8 list" where
  "le32 w = [ucast w, ucast (drop_bit 8 w), ucast (drop_bit 16 w), ucast (drop_bit 24 w)]"

definition of_le32 :: "u8 list \<Rightarrow> u32" where
  "of_le32 bs = ucast (bs ! 0) OR push_bit 8 (ucast (bs ! 1)) OR push_bit 16 (ucast (bs ! 2)) OR
     push_bit 24 (ucast (bs ! 3))"

lemma of_le32_le32 [simp]: "of_le32 (le32 w) = w"
proof (rule bit_word_eqI)
  fix n assume "n < LENGTH(32)"
  then have "n < 8 \<or> (8 \<le> n \<and> n < 16) \<or> (16 \<le> n \<and> n < 24) \<or> (24 \<le> n \<and> n < 32)" by auto
  then show "bit (of_le32 (le32 w)) n \<longleftrightarrow> bit w n"
    unfolding of_le32_def le32_def by (elim disjE) (auto simp: bit_simps)
qed

lemma length_le32 [simp]: "length (le32 w) = 4" by (simp add: le32_def)

definition hdr_bytes :: "xsd_sockmsg \<Rightarrow> u8 list" where
  "hdr_bytes h = le32 (m_type h) @ le32 (req_id h) @ le32 (tx_id h) @ le32 (m_len h)"

definition hdr_of_bytes :: "u8 list \<Rightarrow> xsd_sockmsg" where
  "hdr_of_bytes bs = \<lparr>m_type = of_le32 (take 4 bs), req_id = of_le32 (take 4 (drop 4 bs)),
     tx_id = of_le32 (take 4 (drop 8 bs)), m_len = of_le32 (take 4 (drop 12 bs))\<rparr>"

lemma length_hdr_bytes [simp]: "length (hdr_bytes h) = 16"
  by (simp add: hdr_bytes_def)

lemma hdr_roundtrip [simp]: "hdr_of_bytes (hdr_bytes h) = h"
  by (simp add: hdr_of_bytes_def hdr_bytes_def)

section \<open>Strings\<close>

definition bytes :: "string \<Rightarrow> u8 list" where "bytes s = map of_char s"

definition cstr :: "u8 list \<Rightarrow> u8 list" where "cstr bs = takeWhile (\<lambda>b. b \<noteq> 0) bs"

text \<open>The table built by \<open>XSD_ERROR\<close>.\<close>

definition xsd_errors :: "(int \<times> u8 list) list" where
  "xsd_errors =
     [(22, bytes ''EINVAL''), (13, bytes ''EACCES''), (17, bytes ''EEXIST''), (21, bytes ''EISDIR''),
      (2, bytes ''ENOENT''), (12, bytes ''ENOMEM''), (28, bytes ''ENOSPC''), (5, bytes ''EIO''),
      (39, bytes ''ENOTEMPTY''), (38, bytes ''ENOSYS''), (30, bytes ''EROFS''), (16, bytes ''EBUSY''),
      (11, bytes ''EAGAIN''), (106, bytes ''EISCONN''), (7, bytes ''E2BIG'')]"

fun get_error_from :: "(int \<times> u8 list) list \<Rightarrow> u8 list \<Rightarrow> int" where
  "get_error_from [] e = EINVAL"
| "get_error_from ((n, s) # es) e = (if e = s then n else get_error_from es e)"

definition get_error :: "u8 list \<Rightarrow> int" where "get_error e = get_error_from xsd_errors e"

definition join :: "u8 list \<Rightarrow> u8 list \<Rightarrow> u8 list" where
  "join dir name = (if name = [] then dir else dir @ bytes ''/'' @ name)"

text \<open>
  The number of strings in a payload; the byte after the payload is zero, so the last one
  need not be terminated.
\<close>

function count_strings :: "u8 list \<Rightarrow> nat" where
  "count_strings bs = (if bs = [] then 0 else 1 + count_strings (drop (length (cstr bs) + 1) bs))"
  by pat_completeness auto
termination by (relation "measure length") auto

declare count_strings.simps [simp del]

text \<open>
  \<open>split\<close> copies only the payload, so looking for the end of a last string without a
  terminating zero runs past the copy: \<open>None\<close>.
\<close>

function split_strings :: "u8 list \<Rightarrow> u8 list list option" where
  "split_strings bs =
     (if bs = [] then Some []
      else if 0 \<notin> set bs then None
      else map_option (Cons (cstr bs)) (split_strings (drop (length (cstr bs) + 1) bs)))"
  by pat_completeness auto
termination by (relation "measure length") auto

declare split_strings.simps [simp del]

definition zterm :: "u8 list list \<Rightarrow> u8 list" where
  "zterm ss = concat (map (\<lambda>s. s @ [0]) ss)"

lemma cstr_append_zero [simp]: "0 \<notin> set s \<Longrightarrow> cstr (s @ 0 # bs) = s"
  unfolding cstr_def by (induction s) auto

lemma cstr_id [simp]: "0 \<notin> set s \<Longrightarrow> cstr s = s"
  unfolding cstr_def by (induction s) auto

lemma split_strings_zterm: "\<forall>s \<in> set ss. 0 \<notin> set s \<Longrightarrow> split_strings (zterm ss) = Some ss"
  by (induction ss) (auto simp: zterm_def split_strings.simps [of "[]"] split_strings.simps [of "_ @ _"])

lemma count_strings_zterm: "\<forall>s \<in> set ss. 0 \<notin> set s \<Longrightarrow> count_strings (zterm ss) = length ss"
  by (induction ss) (auto simp: zterm_def count_strings.simps [of "[]"] count_strings.simps [of "_ @ _"])

lemma zero_split:
  assumes "0 \<in> set bs"
  shows "bs = cstr bs @ 0 # drop (length (cstr bs) + 1) bs"
proof -
  obtain ys zs where "bs = ys @ 0 # zs" "0 \<notin> set ys" using split_list_first [OF assms] by blast
  then show ?thesis by simp
qed

lemma split_strings_Some:
  "split_strings bs = Some ss \<longleftrightarrow> bs = zterm ss \<and> (\<forall>s \<in> set ss. 0 \<notin> set s)"
proof (rule iffI)
  show "split_strings bs = Some ss \<Longrightarrow> bs = zterm ss \<and> (\<forall>s \<in> set ss. 0 \<notin> set s)"
  proof (induction bs arbitrary: ss rule: split_strings.induct)
    case (1 bs)
    show ?case
    proof (cases "bs = []")
      case True
      then show ?thesis using 1(2) by (simp add: split_strings.simps [of "[]"] zterm_def)
    next
      case False
      then have z: "0 \<in> set bs" and "split_strings bs = map_option (Cons (cstr bs))
          (split_strings (drop (length (cstr bs) + 1) bs))"
        using 1(2) by (auto simp: split_strings.simps [of bs] split: if_splits)
      then obtain tt where t: "split_strings (drop (length (cstr bs) + 1) bs) = Some tt" "ss = cstr bs # tt"
        using 1(2) by (metis (no_types, lifting) map_option_eq_Some)
      have "0 \<notin> set (cstr bs)" using set_takeWhileD by (force simp: cstr_def)
      then show ?thesis using 1(1) [OF False _ t(1)] zero_split [OF z] t(2) z by (auto simp: zterm_def)
    qed
  qed
qed (use split_strings_zterm in blast)

section \<open>Numbers\<close>

definition digit_val :: "u8 \<Rightarrow> nat option" where
  "digit_val b =
     (if 48 \<le> b \<and> b \<le> 57 then Some (unat b - 48)
      else if 97 \<le> b \<and> b \<le> 102 then Some (unat b - 87)
      else if 65 \<le> b \<and> b \<le> 70 then Some (unat b - 55) else None)"

fun parse_digits :: "nat \<Rightarrow> u64 \<Rightarrow> u8 list \<Rightarrow> u64" where
  "parse_digits base acc [] = acc"
| "parse_digits base acc (b # bs) =
     (case digit_val b of None \<Rightarrow> acc
      | Some d \<Rightarrow> if d < base then parse_digits base (acc * of_nat base + of_nat d) bs else acc)"

definition is_x :: "u8 \<Rightarrow> bool" where "is_x b \<longleftrightarrow> b = 120 \<or> b = 88"

text \<open>Base 0 takes the base from the prefix.\<close>

definition simple_strtoul :: "nat \<Rightarrow> u8 list \<Rightarrow> u64" where
  "simple_strtoul base bs =
     (let base = (if base \<noteq> 0 then base
                  else if bs \<noteq> [] \<and> hd bs = 48
                  then (if length bs > 2 \<and> is_x (bs ! 1) \<and> digit_val (bs ! 2) \<noteq> None then 16 else 8)
                  else 10);
          bs = (if base = 16 \<and> length bs > 1 \<and> hd bs = 48 \<and> is_x (bs ! 1) then drop 2 bs else bs)
      in parse_digits base 0 bs)"

definition hex_digit :: "nat \<Rightarrow> u8" where
  "hex_digit d = (if d < 10 then of_nat (48 + d) else of_nat (55 + d))"

fun hex_nat :: "nat \<Rightarrow> u8 list" where
  "hex_nat n = (if n < 16 then [hex_digit n] else hex_nat (n div 16) @ [hex_digit (n mod 16)])"

declare hex_nat.simps [simp del]

definition watch_token :: "u64 \<Rightarrow> u8 list" where "watch_token w = hex_nat (unat w)"

lemma digit_val_hex: "d < 16 \<Longrightarrow> digit_val (hex_digit d) = Some d \<and> hex_digit d \<noteq> 0 \<and> \<not> is_x (hex_digit d)"
proof -
  have "\<forall>d \<in> {0..<16}. digit_val (hex_digit d) = Some d \<and> hex_digit d \<noteq> 0 \<and> \<not> is_x (hex_digit d)"
    by code_simp
  then show "d < 16 \<Longrightarrow> ?thesis" by auto
qed

lemma parse_digits_append_hex:
  "parse_digits 16 a (hex_nat n @ [hex_digit d]) = parse_digits 16 a (hex_nat n) * 16 + of_nat d"
  if "d < 16"
proof -
  have "\<forall>b \<in> set bs. \<exists>e < 16. b = hex_digit e \<Longrightarrow>
        parse_digits 16 a (bs @ [hex_digit d]) = parse_digits 16 a bs * 16 + of_nat d" for bs a
    using that by (induction bs arbitrary: a) (auto simp: digit_val_hex)
  moreover have "\<forall>b \<in> set (hex_nat n). \<exists>e < 16. b = hex_digit e"
  proof (induction n rule: hex_nat.induct)
    case (1 n)
    have "\<exists>e < 16. hex_digit (n mod 16) = hex_digit e" by (rule exI [of _ "n mod 16"]) simp
    then show ?case using 1 by (subst hex_nat.simps) auto
  qed
  ultimately show ?thesis by blast
qed

lemma parse_hex_nat: "parse_digits 16 0 (hex_nat n) = of_nat n"
proof (induction n rule: hex_nat.induct)
  case (1 n)
  show ?case
  proof (cases "n < 16")
    case True
    then show ?thesis by (subst hex_nat.simps) (simp add: digit_val_hex)
  next
    case False
    have "parse_digits 16 0 (hex_nat n) = of_nat (n div 16) * 16 + of_nat (n mod 16)"
      using 1 [OF False] False parse_digits_append_hex [of "n mod 16" 0 "n div 16"]
      by (subst hex_nat.simps) simp
    also have "\<dots> = of_nat (n div 16 * 16 + n mod 16)" by (simp only: of_nat_add of_nat_mult of_nat_numeral)
    finally show ?thesis by simp
  qed
qed

lemma hex_nat_digits: "\<forall>b \<in> set (hex_nat n). b \<noteq> 0 \<and> \<not> is_x b"
  by (induction n rule: hex_nat.induct) (subst hex_nat.simps, auto simp: digit_val_hex)

lemma token_roundtrip [simp]: "simple_strtoul 16 (watch_token w) = w"
proof -
  have "Suc 0 < length (hex_nat (unat w)) \<longrightarrow> \<not> is_x (hex_nat (unat w) ! Suc 0)"
    using hex_nat_digits [of "unat w"] by auto
  then show ?thesis by (auto simp: simple_strtoul_def watch_token_def parse_hex_nat)
qed

lemma token_no_zero: "0 \<notin> set (watch_token w)"
  using hex_nat_digits by (auto simp: watch_token_def)

lemma token_inj: "watch_token v = watch_token w \<longleftrightarrow> v = w"
  by (metis token_roundtrip)

text \<open>
  Two watches never share a token, and a token read from an event payload names the watch that
  registered it, for every 64-bit address.
\<close>

lemma watch_token_roundtrip:
  "simple_strtoul 16 (cstr (watch_token w @ 0 # rest)) = w \<and> (watch_token v = watch_token w \<longleftrightarrow> v = w)"
  by (simp add: token_no_zero token_inj)

end
