(* ===== verification/Xenbus_Xs.thy ===== *)
theory Xenbus_Xs
  imports Xs_Ring Xs_Wire
begin

text \<open>
  The xenstore client of \<^verbatim>\<open>xen-platform-pci/3.12.49/xenbus_xs.c\<close>: requests and replies, the
  operations on nodes, transactions, watches, the reader and the watch thread, suspend and
  resume. A thread that waits runs against an explicit schedule: \<open>ring_ev\<close> is what the daemon
  (or a signal) does during the waits on the rings, \<open>incoming\<close> are the messages the reader
  thread gets while a requester waits for its reply, \<open>mem\<close> are the results of the successive
  allocations (all succeed once the list is used up). The result is \<open>None\<close> where a call never
  returns: it waits for ever, meets \<open>BUG_ON\<close>, or reads outside its buffer.
\<close>

section \<open>State\<close>

record xenbus_watch =
  watch_node :: "u8 list"
  XBWF_new_thread :: bool

record watch_event =
  handle :: u64
  vec :: "u8 list list"

text \<open>
  A watch is named by its address. A mutex is true while a suspend holds it. \<open>delivered\<close>
  records the callbacks the watch thread has made, and whether in a thread of their own.
\<close>

record xs =
  ring :: xs_intf
  ring_ev :: "xb_event list"
  incoming :: "(xsd_sockmsg \<times> u8 list) list"
  mem :: "bool list"
  reply_list :: "(xsd_sockmsg \<times> u8 list) list"
  transaction_count :: int
  transaction_mutex :: bool
  request_mutex :: bool
  response_mutex :: bool
  watch_mutex :: bool
  watches :: "u64 list"
  watch_data :: "u64 \<Rightarrow> xenbus_watch"
  watch_events :: "watch_event list"
  delivered :: "(watch_event \<times> bool) list"

datatype 'a res = Ok 'a | Err int

definition xs_alloc :: "xs \<Rightarrow> bool \<times> xs" where
  "xs_alloc s = (case mem s of [] \<Rightarrow> (True, s) | b # bs \<Rightarrow> (b, s\<lparr>mem := bs\<rparr>))"

section \<open>Incoming messages\<close>

definition find_watch :: "u8 list \<Rightarrow> xs \<Rightarrow> u64 option" where
  "find_watch token s = (let c = simple_strtoul 16 token in if c \<in> set (watches s) then Some c else None)"

text \<open>
  The payload of a watch event is split into strings; \<open>vec[XS_WATCH_TOKEN]\<close> is outside the
  payload when there are fewer than two.
\<close>

definition store_msg :: "xsd_sockmsg \<times> u8 list \<Rightarrow> xs \<Rightarrow> (int \<times> xs) option" where
  "store_msg m s =
     (if m_type (fst m) = XS_WATCH_EVENT
      then (case xs_alloc s of
              (False, s) \<Rightarrow> Some (- ENOMEM, s)
            | (True, s) \<Rightarrow>
                (case split_strings (snd m) of
                   None \<Rightarrow> None
                 | Some v \<Rightarrow>
                     if length v < 2 then None
                     else (case find_watch (v ! 1) s of
                             None \<Rightarrow> Some (0, s)
                           | Some w \<Rightarrow>
                               Some (0, s\<lparr>watch_events := watch_events s @ [\<lparr>handle = w, vec = v\<rparr>]\<rparr>))))
      else Some (0, s\<lparr>reply_list := reply_list s @ [m]\<rparr>))"

text \<open>The reader waits for data; a save and restore may make it disappear again.\<close>

function process_wait :: "xb_event list \<Rightarrow> xs_intf \<Rightarrow> xb_wait_result" where
  "process_wait es s =
     (case xb_wait_for_data_to_read es s of
        Ready s1 es1 \<Rightarrow> (let (t, es2) = xb_race es1 s1
                        in if xb_data_to_read t then Ready t es2 else process_wait es2 t)
      | r \<Rightarrow> r)"
  by pat_completeness auto
termination
proof (relation "measure (\<lambda>(es, s). length es)", goal_cases)
  case 1
  then show ?case by simp
next
  case (2 es s s1 es1 x t es2)
  then have w: "wait_event_interruptible xb_data_to_read es s = Ready s1 es1" and r: "xb_race es1 s1 = (t, es2)"
    by (simp_all add: xb_wait_for_data_to_read_def)
  have "length es2 < length es1"
    using 2(4) wait_Ready_cond [OF w] race_same_len [OF r] by (metis not_less)
  then show ?case using wait_Ready_len [OF w] by simp
qed

declare process_wait.simps [simp del]

definition xs_take :: "nat \<Rightarrow> xs \<Rightarrow> (int \<times> u8 list \<times> xs) option" where
  "xs_take n s =
     (case xb_read (ring_ev s) n [] (ring s) of
        Done err bs r ev \<Rightarrow> Some (err, bs, s\<lparr>ring := r, ring_ev := ev\<rparr>)
      | Blocked \<Rightarrow> None)"

definition process_msg :: "xs \<Rightarrow> (int \<times> xs) option" where
  "process_msg s =
     (case process_wait (ring_ev s) (ring s) of
        Asleep \<Rightarrow> None
      | Interrupted r ev \<Rightarrow> Some (- ERESTARTSYS, s\<lparr>ring := r, ring_ev := ev\<rparr>)
      | Ready r ev \<Rightarrow>
          if response_mutex s then None
          else (case xs_alloc (s\<lparr>ring := r, ring_ev := ev\<rparr>) of
                  (False, s) \<Rightarrow> Some (- ENOMEM, s)
                | (True, s) \<Rightarrow>
                    (case xs_take 16 s of
                       None \<Rightarrow> None
                     | Some (err, hb, s) \<Rightarrow>
                         if err \<noteq> 0 then Some (err, s)
                         else let hdr = hdr_of_bytes hb
                              in if m_len hdr > XENSTORE_PAYLOAD_MAX then Some (- EINVAL, s)
                              else (case xs_alloc s of
                                      (False, s) \<Rightarrow> Some (- ENOMEM, s)
                                    | (True, s) \<Rightarrow>
                                        (case xs_take (unat (m_len hdr)) s of
                                           None \<Rightarrow> None
                                         | Some (err, body, s) \<Rightarrow>
                                             if err \<noteq> 0 then Some (err, s)
                                             else store_msg (hdr, body) s)))))"

section \<open>Requests\<close>

definition xs_put :: "u8 list \<Rightarrow> xs \<Rightarrow> (int \<times> xs) option" where
  "xs_put data s =
     (case xb_write (ring_ev s) data (ring s) of
        Done err _ r ev \<Rightarrow> Some (err, s\<lparr>ring := r, ring_ev := ev\<rparr>)
      | Blocked \<Rightarrow> None)"

text \<open>Writing a message and its vectors one after the other, up to the first error.\<close>

fun send_vecs :: "(u8 list \<Rightarrow> 's \<Rightarrow> (int \<times> 's) option) \<Rightarrow> u8 list list \<Rightarrow> 's \<Rightarrow> (int \<times> 's) option" where
  "send_vecs put [] s = Some (0, s)"
| "send_vecs put (v # vs) s =
     (case put v s of None \<Rightarrow> None
      | Some (err, s) \<Rightarrow> if err \<noteq> 0 then Some (err, s) else send_vecs put vs s)"

text \<open>
  While the reply list is empty the reader thread stores the next message; its errors are
  only logged.
\<close>

fun read_reply_wait :: "(xsd_sockmsg \<times> u8 list) list \<Rightarrow> xs \<Rightarrow> ((xsd_sockmsg \<times> u8 list) \<times> xs) option" where
  "read_reply_wait [] s =
     (case reply_list s of [] \<Rightarrow> None | m # ms \<Rightarrow> Some (m, s\<lparr>reply_list := ms, incoming := []\<rparr>))"
| "read_reply_wait (n # ns) s =
     (case reply_list s of
        [] \<Rightarrow> (case store_msg n s of None \<Rightarrow> None | Some (_, s) \<Rightarrow> read_reply_wait ns s)
      | m # ms \<Rightarrow> Some (m, s\<lparr>reply_list := ms, incoming := n # ns\<rparr>))"

definition read_reply :: "xs \<Rightarrow> ((xsd_sockmsg \<times> u8 list) \<times> xs) option" where
  "read_reply s = read_reply_wait (incoming s) s"

definition request_hdr :: "u32 \<Rightarrow> u32 \<Rightarrow> u8 list list \<Rightarrow> xsd_sockmsg" where
  "request_hdr t ty vecs =
     \<lparr>m_type = ty, req_id = 0, tx_id = t, m_len = fold (\<lambda>v n. n + of_nat (length v)) vecs 0\<rparr>"

text \<open>The payload of the reply and its length, or an error.\<close>

definition talkv_result :: "u32 \<Rightarrow> xsd_sockmsg \<times> u8 list \<Rightarrow> (u8 list \<times> u32) res" where
  "talkv_result ty m =
     (if m_type (fst m) = XS_ERROR then Err (- get_error (cstr (snd m)))
      else if m_type (fst m) \<noteq> ty \<and> ty \<noteq> XS_LINUX_WEAK_WRITE then Err (- EINVAL)
      else Ok (snd m, m_len (fst m)))"

definition xs_talkv :: "u32 \<Rightarrow> u32 \<Rightarrow> u8 list list \<Rightarrow> xs \<Rightarrow> ((u8 list \<times> u32) res \<times> xs) option" where
  "xs_talkv t ty vecs s =
     (if request_mutex s then None
      else (case send_vecs xs_put (hdr_bytes (request_hdr t ty vecs) # vecs) s of
              None \<Rightarrow> None
            | Some (err, s) \<Rightarrow>
                if err \<noteq> 0 then Some (Err err, s)
                else (case read_reply s of None \<Rightarrow> None
                      | Some (m, s) \<Rightarrow> Some (talkv_result ty m, s))))"

definition xs_single :: "u32 \<Rightarrow> u32 \<Rightarrow> u8 list \<Rightarrow> xs \<Rightarrow> ((u8 list \<times> u32) res \<times> xs) option" where
  "xs_single t ty str s = xs_talkv t ty [str @ [0]] s"

definition xs_error :: "((u8 list \<times> u32) res \<times> xs) option \<Rightarrow> (int \<times> xs) option" where
  "xs_error r = map_option (\<lambda>(r, s). (case r of Err e \<Rightarrow> e | Ok _ \<Rightarrow> 0, s)) r"

section \<open>Operations on nodes\<close>

text \<open>\<open>k\<close> continues with the path when it could be allocated.\<close>

definition with_path :: "u8 list \<Rightarrow> u8 list \<Rightarrow> (int \<Rightarrow> 'a) \<Rightarrow> (u8 list \<Rightarrow> xs \<Rightarrow> ('a \<times> xs) option) \<Rightarrow> xs \<Rightarrow>
    ('a \<times> xs) option" where
  "with_path dir node err k s =
     (case xs_alloc s of (False, s) \<Rightarrow> Some (err (- ENOMEM), s) | (True, s) \<Rightarrow> k (join dir node) s)"

definition xs_split :: "u8 list \<Rightarrow> xs \<Rightarrow> (u8 list list res \<times> xs) option" where
  "xs_split strings s =
     (case xs_alloc s of
        (False, s) \<Rightarrow> Some (Err (- ENOMEM), s)
      | (True, s) \<Rightarrow> map_option (\<lambda>v. (Ok v, s)) (split_strings strings))"

definition xenbus_directory :: "u32 \<Rightarrow> u8 list \<Rightarrow> u8 list \<Rightarrow> xs \<Rightarrow> (u8 list list res \<times> xs) option" where
  "xenbus_directory t dir node =
     with_path dir node Err
       (\<lambda>path s. case xs_single t XS_DIRECTORY path s of None \<Rightarrow> None
          | Some (Err e, s) \<Rightarrow> Some (Err e, s)
          | Some (Ok (strings, len), s) \<Rightarrow> xs_split (take (unat len) strings) s)"

definition xenbus_exists :: "u32 \<Rightarrow> u8 list \<Rightarrow> u8 list \<Rightarrow> xs \<Rightarrow> (int \<times> xs) option" where
  "xenbus_exists t dir node s =
     map_option (\<lambda>(r, s). (case r of Err _ \<Rightarrow> 0 | Ok _ \<Rightarrow> 1, s)) (xenbus_directory t dir node s)"

definition xenbus_read :: "u32 \<Rightarrow> u8 list \<Rightarrow> u8 list \<Rightarrow> xs \<Rightarrow> ((u8 list \<times> u32) res \<times> xs) option" where
  "xenbus_read t dir node = with_path dir node Err (\<lambda>path. xs_single t XS_READ path)"

definition xenbus_write :: "u32 \<Rightarrow> u8 list \<Rightarrow> u8 list \<Rightarrow> u8 list \<Rightarrow> xs \<Rightarrow> (int \<times> xs) option" where
  "xenbus_write t dir node string =
     with_path dir node id (\<lambda>path s. xs_error (xs_talkv t XS_WRITE [path @ [0], string] s))"

definition xenbus_mkdir :: "u32 \<Rightarrow> u8 list \<Rightarrow> u8 list \<Rightarrow> xs \<Rightarrow> (int \<times> xs) option" where
  "xenbus_mkdir t dir node = with_path dir node id (\<lambda>path s. xs_error (xs_single t XS_MKDIR path s))"

definition xenbus_rm :: "u32 \<Rightarrow> u8 list \<Rightarrow> u8 list \<Rightarrow> xs \<Rightarrow> (int \<times> xs) option" where
  "xenbus_rm t dir node = with_path dir node id (\<lambda>path s. xs_error (xs_single t XS_RM path s))"

text \<open>
  \<open>scan\<close> is what \<open>vsscanf\<close> makes of the value with the caller's format: the number of
  conversions and the values; \<open>text\<close> is what \<open>kvasprintf\<close> printed.
\<close>

definition xenbus_scanf :: "u32 \<Rightarrow> u8 list \<Rightarrow> u8 list \<Rightarrow> (u8 list \<Rightarrow> int \<times> 'v) \<Rightarrow> xs \<Rightarrow>
    ((int \<times> 'v option) \<times> xs) option" where
  "xenbus_scanf t dir node scan s =
     (case xenbus_read t dir node s of None \<Rightarrow> None
      | Some (Err e, s) \<Rightarrow> Some ((e, None), s)
      | Some (Ok (val, _), s) \<Rightarrow>
          (case scan (cstr val) of (n, v) \<Rightarrow> Some ((if n = 0 then - ERANGE else n, Some v), s)))"

definition xenbus_printf :: "u32 \<Rightarrow> u8 list \<Rightarrow> u8 list \<Rightarrow> u8 list \<Rightarrow> xs \<Rightarrow> (int \<times> xs) option" where
  "xenbus_printf t dir node txt s =
     (case xs_alloc s of (False, s) \<Rightarrow> Some (- ENOMEM, s) | (True, s) \<Rightarrow> xenbus_write t dir node txt s)"

text \<open>One entry per name: a scanner, or \<open>None\<close> to take the whole value.\<close>

fun xenbus_gather :: "u32 \<Rightarrow> u8 list \<Rightarrow> (u8 list \<times> (u8 list \<Rightarrow> int \<times> 'v) option) list \<Rightarrow>
    xs \<Rightarrow> ((int \<times> ('v + u8 list) list) \<times> xs) option" where
  "xenbus_gather t dir [] s = Some ((0, []), s)"
| "xenbus_gather t dir ((name, fmt) # rest) s =
     (case xenbus_read t dir name s of None \<Rightarrow> None
      | Some (Err e, s) \<Rightarrow> Some ((e, []), s)
      | Some (Ok (p, _), s) \<Rightarrow>
          (case (case fmt of None \<Rightarrow> (0, Inr p)
                 | Some scan \<Rightarrow> (case scan (cstr p) of (n, v) \<Rightarrow> (if n = 0 then - EINVAL else 0, Inl v)))
           of (ret, v) \<Rightarrow>
             if ret = 0
             then map_option (\<lambda>((r, vs), s). ((r, v # vs), s)) (xenbus_gather t dir rest s)
             else Some ((ret, [v]), s)))"

section \<open>Transactions\<close>

definition transaction_start :: "xs \<Rightarrow> xs option" where
  "transaction_start s =
     (if transaction_mutex s then None else Some (s\<lparr>transaction_count := transaction_count s + 1\<rparr>))"

definition transaction_end :: "xs \<Rightarrow> xs" where
  "transaction_end s = s\<lparr>transaction_count := transaction_count s - 1\<rparr>"

definition xenbus_transaction_start :: "xs \<Rightarrow> (u32 res \<times> xs) option" where
  "xenbus_transaction_start s =
     (case transaction_start s of None \<Rightarrow> None
      | Some s \<Rightarrow>
          (case xs_single 0 XS_TRANSACTION_START [] s of None \<Rightarrow> None
           | Some (Err e, s) \<Rightarrow> Some (Err e, transaction_end s)
           | Some (Ok (id_str, _), s) \<Rightarrow> Some (Ok (ucast (simple_strtoul 0 (cstr id_str))), s)))"

definition xenbus_transaction_end :: "u32 \<Rightarrow> bool \<Rightarrow> xs \<Rightarrow> (int \<times> xs) option" where
  "xenbus_transaction_end t abort s =
     map_option (\<lambda>(err, s). (err, transaction_end s))
       (xs_error (xs_single t XS_TRANSACTION_END (if abort then bytes ''F'' else bytes ''T'') s))"

text \<open>A request passed through from user space: the new header and the reply's payload.\<close>

definition xenbus_dev_request_and_reply :: "xsd_sockmsg \<Rightarrow> u8 list \<Rightarrow> xs \<Rightarrow>
    ((xsd_sockmsg \<times> u8 list res) \<times> xs) option" where
  "xenbus_dev_request_and_reply msg payload s =
     (case (if m_type msg = XS_TRANSACTION_START then transaction_start s else Some s) of None \<Rightarrow> None
      | Some s \<Rightarrow>
          if request_mutex s then None
          else (case (case xs_put (hdr_bytes msg @ payload) s of None \<Rightarrow> None
                      | Some (err, s) \<Rightarrow>
                          if err \<noteq> 0 then Some ((msg\<lparr>m_type := XS_ERROR\<rparr>, Err err), s)
                          else (case read_reply s of None \<Rightarrow> None
                                | Some (r, s) \<Rightarrow>
                                    Some ((msg\<lparr>m_type := m_type (fst r), m_len := m_len (fst r)\<rparr>, Ok (snd r)), s)))
                of None \<Rightarrow> None
                 | Some ((msg', ret), s) \<Rightarrow>
                     Some ((msg', ret),
                       if m_type msg = XS_TRANSACTION_END \<or>
                          m_type msg = XS_TRANSACTION_START \<and> m_type msg' = XS_ERROR
                       then transaction_end s else s)))"

section \<open>Watches\<close>

definition xs_watch :: "u8 list \<Rightarrow> u8 list \<Rightarrow> xs \<Rightarrow> (int \<times> xs) option" where
  "xs_watch path token s = xs_error (xs_talkv 0 XS_WATCH [path @ [0], token @ [0]] s)"

definition xs_unwatch :: "u8 list \<Rightarrow> u8 list \<Rightarrow> xs \<Rightarrow> (int \<times> xs) option" where
  "xs_unwatch path token s = xs_error (xs_talkv 0 XS_UNWATCH [path @ [0], token @ [0]] s)"

definition register_xenbus_watch :: "u64 \<Rightarrow> xs \<Rightarrow> (int \<times> xs) option" where
  "register_xenbus_watch w s =
     (if watch_mutex s then None
      else if find_watch (watch_token w) s \<noteq> None then None
      else map_option (\<lambda>(err, s). (err, if err \<noteq> 0 then s\<lparr>watches := remove1 w (watches s)\<rparr> else s))
             (xs_watch (watch_node (watch_data s w)) (watch_token w) (s\<lparr>watches := w # watches s\<rparr>)))"

text \<open>A failing \<open>XS_UNWATCH\<close> is only logged.\<close>

definition unregister_xenbus_watch :: "u64 \<Rightarrow> xs \<Rightarrow> xs option" where
  "unregister_xenbus_watch w s =
     (if XBWF_new_thread (watch_data s w) \<or> watch_mutex s \<or> find_watch (watch_token w) s = None then None
      else map_option (\<lambda>(err, s). s\<lparr>watch_events := filter (\<lambda>e. handle e \<noteq> w) (watch_events s)\<rparr>)
             (xs_unwatch (watch_node (watch_data s w)) (watch_token w)
                (s\<lparr>watches := remove1 w (watches s)\<rparr>)))"

definition xenwatch_handle_callback :: "watch_event \<Rightarrow> bool \<Rightarrow> xs \<Rightarrow> xs" where
  "xenwatch_handle_callback e own s = s\<lparr>delivered := delivered s @ [(e, own)]\<rparr>"

text \<open>One round of the watch thread.\<close>

definition xenwatch_thread :: "xs \<Rightarrow> xs" where
  "xenwatch_thread s =
     (case watch_events s of [] \<Rightarrow> s
      | e # es \<Rightarrow>
          xenwatch_handle_callback e (XBWF_new_thread (watch_data s (handle e))) (s\<lparr>watch_events := es\<rparr>))"

text \<open>
  One round of the reader thread; an error is only logged.
\<close>

definition xenbus_thread :: "xs \<Rightarrow> xs option" where
  "xenbus_thread s = map_option snd (process_msg s)"

section \<open>Suspend and resume\<close>

text \<open>\<open>others\<close> are the steps of other threads while the suspend waits for transactions to end.\<close>

fun wait_transactions :: "(xs \<Rightarrow> xs) list \<Rightarrow> xs \<Rightarrow> xs option" where
  "wait_transactions [] s = (if transaction_count s = 0 then Some s else None)"
| "wait_transactions (f # fs) s = (if transaction_count s = 0 then Some s else wait_transactions fs (f s))"

definition transaction_suspend :: "(xs \<Rightarrow> xs) list \<Rightarrow> xs \<Rightarrow> xs option" where
  "transaction_suspend others s =
     (if transaction_mutex s then None else wait_transactions others (s\<lparr>transaction_mutex := True\<rparr>))"

definition transaction_resume :: "xs \<Rightarrow> xs" where
  "transaction_resume s = s\<lparr>transaction_mutex := False\<rparr>"

definition xs_suspend :: "(xs \<Rightarrow> xs) list \<Rightarrow> xs \<Rightarrow> xs option" where
  "xs_suspend others s =
     (case transaction_suspend others s of None \<Rightarrow> None
      | Some s \<Rightarrow> if watch_mutex s \<or> request_mutex s \<or> response_mutex s then None
                  else Some (s\<lparr>watch_mutex := True, request_mutex := True, response_mutex := True\<rparr>))"

text \<open>Every watch is registered again with the new daemon; failures are ignored.\<close>

fun rewatch :: "u64 list \<Rightarrow> xs \<Rightarrow> xs option" where
  "rewatch [] s = Some s"
| "rewatch (w # ws) s =
     (case xs_watch (watch_node (watch_data s w)) (watch_token w) s of None \<Rightarrow> None
      | Some (_, s) \<Rightarrow> rewatch ws s)"

definition xs_resume :: "xs \<Rightarrow> xs option" where
  "xs_resume s =
     (let s = transaction_resume (s\<lparr>response_mutex := False, request_mutex := False\<rparr>)
      in map_option (\<lambda>s. s\<lparr>watch_mutex := False\<rparr>) (rewatch (watches s) s))"

definition xs_suspend_cancel :: "xs \<Rightarrow> xs" where
  "xs_suspend_cancel s =
     s\<lparr>response_mutex := False, request_mutex := False, watch_mutex := False, transaction_mutex := False\<rparr>"

section \<open>Initialisation\<close>

text \<open>
  \<open>quirk\<close> is \<open>xen_strict_xenbus_quirk\<close>, \<open>scan\<close> the \<open>%d\<close> conversion; \<open>watch_task\<close> and
  \<open>bus_task\<close> the results of starting the two threads (a pid, or a negative error).
\<close>

definition xs_reset_watches :: "bool \<Rightarrow> (u8 list \<Rightarrow> int \<times> int) \<Rightarrow> xs \<Rightarrow> xs option" where
  "xs_reset_watches quirk scan s =
     (if quirk then Some s
      else (case xenbus_scanf 0 (bytes ''control'') (bytes ''platform-feature-xs_reset_watches'') scan s of
              None \<Rightarrow> None
            | Some ((err, v), s) \<Rightarrow>
                if err \<noteq> 1 \<or> v = None \<or> the v = 0 then Some s
                else map_option snd (xs_error (xs_single 0 XS_RESET_WATCHES [] s))))"

definition xs_init :: "int \<Rightarrow> int \<Rightarrow> bool \<Rightarrow> (u8 list \<Rightarrow> int \<times> int) \<Rightarrow> xs \<Rightarrow> (int \<times> xs) option" where
  "xs_init watch_task bus_task quirk scan s =
     (let s = s\<lparr>reply_list := [], request_mutex := False, response_mutex := False,
                transaction_mutex := False, watch_mutex := False, transaction_count := 0\<rparr>
      in if watch_task < 0 then Some (watch_task, s)
         else if bus_task < 0 then Some (bus_task, s)
         else map_option (Pair 0) (xs_reset_watches quirk scan s))"

end
