(* ===== verification/Xenbus_Xs_Props.thy ===== *)
theory Xenbus_Xs_Props
  imports Xenbus_Xs
begin

text \<open>
  Correctness of the xenstore client: what a request puts on the wire and what its caller gets
  back, what the reader thread makes of the daemon's bytes, the accounting of
  transactions, watches and their events, and suspend.
\<close>

section \<open>What each step leaves alone\<close>

text \<open>The part of the state that only transactions, watches and suspends change.\<close>

definition client :: "xs \<Rightarrow> int \<times> bool list \<times> u64 list \<times> (u64 \<Rightarrow> xenbus_watch) \<times> (watch_event \<times> bool) list" where
  "client s = (transaction_count s, [transaction_mutex s, request_mutex s, response_mutex s, watch_mutex s],
     watches s, watch_data s, delivered s)"

lemma xs_alloc_frame: "xs_alloc s = (b, t) \<Longrightarrow>
  client t = client s \<and> ring t = ring s \<and> ring_ev t = ring_ev s \<and> reply_list t = reply_list s \<and>
  watch_events t = watch_events s \<and> incoming t = incoming s"
  by (auto simp: xs_alloc_def client_def split: list.splits)

definition event_for :: "xsd_sockmsg \<times> u8 list \<Rightarrow> xs \<Rightarrow> watch_event \<Rightarrow> bool" where
  "event_for m s e \<longleftrightarrow> m_type (fst m) = XS_WATCH_EVENT \<and> split_strings (snd m) = Some (vec e) \<and>
     2 \<le> length (vec e) \<and> find_watch (vec e ! 1) s = Some (handle e)"

lemma find_watch_client: "client t = client s \<Longrightarrow> find_watch tok t = find_watch tok s"
  by (simp add: find_watch_def client_def Let_def)

lemma find_watch_mem: "find_watch tok s = Some w \<Longrightarrow> w \<in> set (watches s)"
  by (auto simp: find_watch_def Let_def split: if_splits)

lemma find_watch_token [simp]: "find_watch (watch_token w) s = (if w \<in> set (watches s) then Some w else None)"
  by (simp add: find_watch_def)

lemma store_msg_frame:
  assumes "store_msg m s = Some (err, t)"
  shows "client t = client s \<and> ring t = ring s \<and> ring_ev t = ring_ev s \<and> incoming t = incoming s \<and>
         reply_list t = reply_list s @ (if m_type (fst m) = XS_WATCH_EVENT then [] else [m]) \<and>
         (watch_events t = watch_events s \<or>
          (\<exists>e. event_for m s e \<and> watch_events t = watch_events s @ [e]))"
proof (cases "m_type (fst m) = XS_WATCH_EVENT")
  case False
  then show ?thesis using assms by (auto simp: store_msg_def client_def)
next
  case True
  obtain b u where u: "xs_alloc s = (b, u)" by (cases "xs_alloc s")
  note fu = xs_alloc_frame [OF u]
  show ?thesis
  proof (cases "b \<and> split_strings (snd m) \<noteq> None")
    case False
    then show ?thesis using assms True u fu by (cases b) (auto simp: store_msg_def)
  next
    case b: True
    then obtain v where v: "split_strings (snd m) = Some v" by auto
    have len: "\<not> length v < 2" using assms True u b v by (auto simp: store_msg_def split: if_splits)
    show ?thesis
    proof (cases "find_watch (v ! 1) u")
      case None
      then show ?thesis using assms True u fu b v len by (auto simp: store_msg_def)
    next
      case (Some w)
      then have "event_for m s \<lparr>handle = w, vec = v\<rparr>"
        using True v len fu find_watch_client [of u s] by (simp add: event_for_def)
      moreover have "t = u\<lparr>watch_events := watch_events u @ [\<lparr>handle = w, vec = v\<rparr>]\<rparr>"
        using assms True u b v len Some by (auto simp: store_msg_def)
      ultimately show ?thesis using fu True by (auto simp: client_def)
    qed
  qed
qed

lemma xs_put_frame:
  "xs_put data s = Some (err, t) \<Longrightarrow>
   client t = client s \<and> incoming t = incoming s \<and> reply_list t = reply_list s \<and>
   watch_events t = watch_events s"
  by (auto simp: xs_put_def client_def split: xb_result.splits)

lemma send_vecs_frame:
  "send_vecs xs_put vs s = Some (err, t) \<Longrightarrow>
   client t = client s \<and> incoming t = incoming s \<and> reply_list t = reply_list s \<and>
   watch_events t = watch_events s"
  by (induction vs arbitrary: s)
    (auto split: option.splits prod.splits if_splits dest: xs_put_frame)

text \<open>A reply is waited for: the ring is left alone, new events name registered watches.\<close>

definition events_grow :: "xs \<Rightarrow> xs \<Rightarrow> bool" where
  "events_grow s t \<longleftrightarrow>
     (\<exists>es. watch_events t = watch_events s @ es \<and> (\<forall>e \<in> set es. handle e \<in> set (watches s)))"

lemma events_grow_refl [simp]: "events_grow s s" by (simp add: events_grow_def)

lemma events_grow_eq: "watch_events t = watch_events s \<Longrightarrow> events_grow s t" by (simp add: events_grow_def)

lemma events_grow_trans:
  "events_grow s t \<Longrightarrow> events_grow t u \<Longrightarrow> watches t = watches s \<Longrightarrow> events_grow s u"
  by (force simp: events_grow_def)

lemma store_msg_events: "store_msg m s = Some (err, t) \<Longrightarrow> events_grow s t"
  using store_msg_frame [of m s err t] find_watch_mem
  by (auto simp: events_grow_def event_for_def)

lemma client_watches: "client t = client s \<Longrightarrow> watches t = watches s"
  by (simp add: client_def)

lemma read_reply_wait_frame:
  "read_reply_wait ns s = Some (m, t) \<Longrightarrow>
   client t = client s \<and> ring t = ring s \<and> ring_ev t = ring_ev s \<and> events_grow s t"
proof (induction ns s rule: read_reply_wait.induct)
  case (1 s)
  then show ?case by (auto simp: client_def events_grow_def split: list.splits)
next
  case (2 n ns s)
  show ?case
  proof (cases "reply_list s")
    case Nil
    then obtain err u where u: "store_msg n s = Some (err, u)" "read_reply_wait ns u = Some (m, t)"
      using 2(2) by (auto split: option.splits)
    then show ?thesis
      using 2(1) [OF Nil u(1) refl u(2)] store_msg_frame [OF u(1)] store_msg_events [OF u(1)]
        events_grow_trans client_watches by metis
  next
    case (Cons a list)
    then show ?thesis using 2(2) by (auto simp: client_def events_grow_def)
  qed
qed

lemma xs_talkv_frame:
  assumes "xs_talkv tid ty vs s = Some (r, t)"
  shows "client t = client s \<and> events_grow s t"
proof -
  obtain err u where u: "send_vecs xs_put (hdr_bytes (request_hdr tid ty vs) # vs) s = Some (err, u)"
    using assms by (auto simp: xs_talkv_def split: if_splits option.splits)
  note fu = send_vecs_frame [OF u]
  show ?thesis
  proof (cases "err = 0")
    case False
    then show ?thesis using assms u fu by (auto simp: xs_talkv_def events_grow_eq split: if_splits)
  next
    case True
    then obtain m where "read_reply u = Some (m, t)"
      using assms u by (auto simp: xs_talkv_def split: if_splits option.splits)
    then show ?thesis
      using read_reply_wait_frame [of "incoming u" u m t] fu events_grow_trans [of s u t] client_watches [of u s]
      by (auto simp: read_reply_def events_grow_eq)
  qed
qed

section \<open>What goes on the wire\<close>

text \<open>
  A sender of bytes: a call appends to what has been sent, all of its data if it succeeds, and
  a prefix if a signal interrupts it.
\<close>

locale byte_sender =
  fixes ok :: "'s \<Rightarrow> bool"
    and put :: "u8 list \<Rightarrow> 's \<Rightarrow> (int \<times> 's) option"
    and sent :: "'s \<Rightarrow> u8 list"
  assumes put_law: "ok s \<Longrightarrow> put data s = Some (err, t) \<Longrightarrow>
    ok t \<and> (err = 0 \<or> err = - ERESTARTSYS) \<and>
    (\<exists>k. sent t = sent s @ take k data \<and> (err = 0 \<longrightarrow> length data \<le> k))"
begin

lemma send_stream:
  "ok s \<Longrightarrow> send_vecs put vs s = Some (err, t) \<Longrightarrow>
   ok t \<and> (err = 0 \<or> err = - ERESTARTSYS) \<and>
   (\<exists>k. sent t = sent s @ take k (concat vs) \<and> (err = 0 \<longrightarrow> length (concat vs) \<le> k))"
proof (induction vs arbitrary: s)
  case Nil
  then show ?case by auto
next
  case (Cons v vs)
  obtain e u where u: "put v s = Some (e, u)" using Cons.prems(2) by (auto split: option.splits)
  obtain k where k: "ok u" "e = 0 \<or> e = - ERESTARTSYS" "sent u = sent s @ take k v" "e = 0 \<longrightarrow> length v \<le> k"
    using put_law [OF Cons.prems(1) u] by blast
  show ?case
  proof (cases "e = 0")
    case False
    then have "t = u" "err = e" using Cons.prems(2) u by auto
    moreover have "take k v = take (min k (length v)) (v @ concat vs)" by (simp add: min_def)
    ultimately show ?thesis using k False by (intro conjI exI [of _ "min k (length v)"]) auto
  next
    case True
    then have "send_vecs put vs u = Some (err, t)" using Cons.prems(2) u by simp
    from Cons.IH [OF k(1) this] obtain j where
      j: "ok t" "err = 0 \<or> err = - ERESTARTSYS" "sent t = sent u @ take j (concat vs)"
         "err = 0 \<longrightarrow> length (concat vs) \<le> j" by blast
    have "sent t = sent s @ take (length v + j) (concat (v # vs))" using j(3) k(3,4) True by simp
    then show ?thesis using j by (intro conjI exI [of _ "length v + j"]) auto
  qed
qed

end

definition xs_ok :: "xs \<Rightarrow> bool" where
  "xs_ok s \<longleftrightarrow> xs_wf (ring s) \<and> (\<forall>e \<in> set (ring_ev s). polite e)"

definition xs_sent :: "xs \<Rightarrow> u8 list" where "xs_sent s = out_stream (ring s)"

interpretation xs_put: byte_sender xs_ok xs_put xs_sent
proof unfold_locales
  fix s data err t
  assume ok: "xs_ok s" and p: "xs_put data s = Some (err, t)"
  obtain u r ev where w: "xb_write (ring_ev s) data (ring s) = Done err u r ev"
    and t: "t = s\<lparr>ring := r, ring_ev := ev\<rparr>"
    using p by (auto simp: xs_put_def split: xb_result.splits)
  show "xs_ok t \<and> (err = 0 \<or> err = - ERESTARTSYS) \<and>
    (\<exists>k. xs_sent t = xs_sent s @ take k data \<and> (err = 0 \<longrightarrow> length data \<le> k))"
    using xb_write_polite [OF w, where acc = "[]"] ok unfolding t xs_ok_def xs_sent_def
    by (simp add: subset_iff)
qed

definition request_bytes :: "u32 \<Rightarrow> u32 \<Rightarrow> u8 list list \<Rightarrow> u8 list" where
  "request_bytes tid ty vs = hdr_bytes (request_hdr tid ty vs) @ concat vs"

lemma request_len:
  "length (concat vs) < 2 ^ 32 \<Longrightarrow> unat (m_len (request_hdr tid ty vs)) = length (concat vs)"
proof -
  have "fold (\<lambda>v n. n + of_nat (length v)) vs a = a + (of_nat (length (concat vs)) :: u32)" for a
    by (induction vs arbitrary: a) (auto simp: add.assoc)
  then show "length (concat vs) < 2 ^ 32 \<Longrightarrow> ?thesis" by (simp add: request_hdr_def)
qed

lemma xs_ok_ring: "ring t = ring s \<Longrightarrow> ring_ev t = ring_ev s \<Longrightarrow> xs_ok t = xs_ok s \<and> xs_sent t = xs_sent s"
  by (simp add: xs_ok_def xs_sent_def)

text \<open>
  C20: The request on the wire. With a daemon that keeps to the protocol, a request adds to the
  byte stream exactly one message, its header (type, request id 0, transaction id, and a
  length that is the number of payload bytes) followed by the vectors in order, all of it
  unless a signal interrupts the writer, when it is a prefix and the caller gets
  \<open>-ERESTARTSYS\<close>; it touches neither transactions nor watches, and every event that arrives
  meanwhile is for a registered watch.
\<close>

theorem xs_talkv_wire:
  assumes ok: "xs_ok s" and run: "xs_talkv tid ty vs s = Some (r, t)"
  shows "\<exists>k. xs_sent t = xs_sent s @ take k (hdr_bytes (request_hdr tid ty vs) @ concat vs) \<and>
     (r \<noteq> Err (- ERESTARTSYS) \<longrightarrow> 16 + length (concat vs) \<le> k) \<and>
     (length (concat vs) < 2 ^ 32 \<longrightarrow> unat (m_len (request_hdr tid ty vs)) = length (concat vs)) \<and>
     xs_ok t \<and> client t = client s \<and> events_grow s t"
proof -
  let ?msg = "hdr_bytes (request_hdr tid ty vs) # vs"
  obtain err u where u: "send_vecs xs_put ?msg s = Some (err, u)"
    using run by (auto simp: xs_talkv_def split: if_splits option.splits)
  obtain k where k: "xs_ok u" "err = 0 \<or> err = - ERESTARTSYS"
    "xs_sent u = xs_sent s @ take k (concat ?msg)" "err = 0 \<longrightarrow> length (concat ?msg) \<le> k"
    using xs_put.send_stream [OF ok u] by blast
  have same: "xs_ok t \<and> xs_sent t = xs_sent u" and res: "err = 0 \<or> r = Err err"
  proof -
    show "err = 0 \<or> r = Err err" using run u by (auto simp: xs_talkv_def split: if_splits)
    show "xs_ok t \<and> xs_sent t = xs_sent u"
    proof (cases "err = 0")
      case True
      then obtain m where "read_reply u = Some (m, t)"
        using run u by (auto simp: xs_talkv_def split: if_splits option.splits)
      then show ?thesis
        using read_reply_wait_frame [of "incoming u" u m t] xs_ok_ring [of t u] k(1) by (simp add: read_reply_def)
    next
      case False
      then show ?thesis using run u k(1) by (auto simp: xs_talkv_def split: if_splits)
    qed
  qed
  show ?thesis
    using k same res xs_talkv_frame [OF run] request_len [of vs tid ty]
    by (intro exI [of _ k]) auto
qed

section \<open>Replies\<close>

text \<open>With room for the request and a reply on its way, a request completes.\<close>

lemma send_vecs_fits:
  "xs_wf (ring s) \<Longrightarrow> ring_ev s = [] \<Longrightarrow> length (concat vs) + length (out_bytes (ring s)) \<le> 1024 \<Longrightarrow>
   \<exists>r. send_vecs xs_put vs s = Some (0, s\<lparr>ring := r\<rparr>) \<and> xs_wf r \<and>
       out_bytes r = out_bytes (ring s) @ concat vs \<and> in_bytes r = in_bytes (ring s)"
proof (induction vs arbitrary: s)
  case Nil
  then show ?case by (intro exI [of _ "ring s"]) simp
next
  case (Cons v vs)
  obtain r where r: "xb_write [] v (ring s) = Done 0 () r []" "xs_wf r"
    "out_bytes r = out_bytes (ring s) @ v" "in_bytes r = in_bytes (ring s)"
    using xb_write_fits [of "ring s" v] Cons.prems by auto
  have p: "xs_put v s = Some (0, s\<lparr>ring := r\<rparr>)" using r(1) Cons.prems(2) by (simp add: xs_put_def)
  obtain r' where "send_vecs xs_put vs (s\<lparr>ring := r\<rparr>) = Some (0, s\<lparr>ring := r\<rparr>\<lparr>ring := r'\<rparr>)" "xs_wf r'"
    "out_bytes r' = out_bytes r @ concat vs" "in_bytes r' = in_bytes r"
    using Cons.IH [of "s\<lparr>ring := r\<rparr>"] Cons.prems r by auto
  then show ?case using p r by auto
qed

definition expects :: "xsd_sockmsg \<times> u8 list \<Rightarrow> nat \<Rightarrow> xs \<Rightarrow> bool" where
  "expects m n s \<longleftrightarrow> xs_wf (ring s) \<and> ring_ev s = [] \<and> reply_list s = [] \<and> \<not> request_mutex s \<and>
     16 + n + length (out_bytes (ring s)) \<le> 1024 \<and> m_type (fst m) \<noteq> XS_WATCH_EVENT \<and>
     (\<exists>rest. incoming s = m # rest)"

lemma xs_talkv_reply:
  assumes "expects m (length (concat vs)) s"
  shows "\<exists>t. xs_talkv tid ty vs s = Some (talkv_result ty m, t) \<and> client t = client s \<and> mem t = mem s \<and>
     watch_events t = watch_events s \<and> reply_list t = [] \<and>
     out_bytes (ring t) = out_bytes (ring s) @ hdr_bytes (request_hdr tid ty vs) @ concat vs"
proof -
  obtain rest where rest: "incoming s = m # rest" using assms by (auto simp: expects_def)
  obtain r where r: "send_vecs xs_put (hdr_bytes (request_hdr tid ty vs) # vs) s = Some (0, s\<lparr>ring := r\<rparr>)"
    "out_bytes r = out_bytes (ring s) @ hdr_bytes (request_hdr tid ty vs) @ concat vs"
    using send_vecs_fits [of s "hdr_bytes (request_hdr tid ty vs) # vs"] assms by (auto simp: expects_def)
  have rr: "read_reply (s\<lparr>ring := r\<rparr>) = Some (m, s\<lparr>ring := r, reply_list := [], incoming := rest\<rparr>)"
    using assms rest by (cases rest) (auto simp: expects_def read_reply_def store_msg_def)
  show ?thesis using assms r rr by (simp add: expects_def xs_talkv_def client_def del: send_vecs.simps)
qed

text \<open>The names of errors in the protocol, and their numbers on Linux.\<close>

definition protocol_errors :: "(string \<times> int) set" where
  "protocol_errors =
     {(''ENOENT'', 2), (''EIO'', 5), (''E2BIG'', 7), (''EAGAIN'', 11), (''ENOMEM'', 12), (''EACCES'', 13), (''EBUSY'', 16), (''EEXIST'', 17),
      (''EISDIR'', 21), (''EINVAL'', 22), (''ENOSPC'', 28), (''EROFS'', 30), (''ENOSYS'', 38), (''ENOTEMPTY'', 39), (''EISCONN'', 106)}"

lemma get_error_known: "(e, n) \<in> protocol_errors \<Longrightarrow> get_error (bytes e) = n"
  unfolding protocol_errors_def
  by (elim insertE emptyE; simp add: get_error_def xsd_errors_def bytes_def)

lemma get_error_unknown: "\<forall>(e, n) \<in> protocol_errors. x \<noteq> bytes e \<Longrightarrow> get_error x = 22"
  by (simp add: protocol_errors_def get_error_def xsd_errors_def)

text \<open>
  C35: Listing a directory, when there is room for the request and the answer is the next message. If the daemon answers
  with the names of the entries, each ended by a zero, \<open>xenbus_directory\<close> returns exactly those
  names, for any number of them; if it answers with the name of an error, the caller gets the
  negated number of that error, and -22 (\<open>EINVAL\<close>) for a name that is none; if it answers with a message of
  another type, also -22. The request on the wire is the \<open>XS_DIRECTORY\<close> message for \<open>dir/node\<close>.
\<close>

theorem xenbus_directory_reply:
  assumes e: "expects (h, body) (length (join dir node) + 1) s" and m: "mem s = []"
    and z: "\<forall>n \<in> set names. 0 \<notin> set n"
  shows "\<exists>t. out_bytes (ring t) = out_bytes (ring s) @
               hdr_bytes (request_hdr tid XS_DIRECTORY [join dir node @ [0]]) @ join dir node @ [0] \<and>
     (m_type h = XS_DIRECTORY \<and> body = zterm names \<and> unat (m_len h) = length body \<longrightarrow>
        xenbus_directory tid dir node s = Some (Ok names, t)) \<and>
     (m_type h = XS_ERROR \<longrightarrow>
        (\<forall>(name, n) \<in> protocol_errors. cstr body = bytes name \<longrightarrow> xenbus_directory tid dir node s = Some (Err (- n), t)) \<and>
        ((\<forall>(name, n) \<in> protocol_errors. cstr body \<noteq> bytes name) \<longrightarrow> xenbus_directory tid dir node s = Some (Err (- 22), t))) \<and>
     (m_type h \<noteq> XS_ERROR \<and> m_type h \<noteq> XS_DIRECTORY \<longrightarrow> xenbus_directory tid dir node s = Some (Err (- 22), t))"
proof -
  have "expects (h, body) (length (concat [join dir node @ [0]])) s" using e by simp
  from xs_talkv_reply [OF this, of tid XS_DIRECTORY] obtain t where
    t: "xs_talkv tid XS_DIRECTORY [join dir node @ [0]] s = Some (talkv_result XS_DIRECTORY (h, body), t)"
       "mem t = mem s" "out_bytes (ring t) = out_bytes (ring s) @
          hdr_bytes (request_hdr tid XS_DIRECTORY [join dir node @ [0]]) @ join dir node @ [0]" by auto
  have "xenbus_directory tid dir node s = Some (Ok names, t)"
    if "m_type h = XS_DIRECTORY" "body = zterm names" "unat (m_len h) = length body"
    using that t m z
    by (simp add: xenbus_directory_def with_path_def xs_alloc_def xs_single_def talkv_result_def
        xs_types xs_split_def split_strings_zterm)
  moreover have err: "xenbus_directory tid dir node s = Some (Err (- get_error (cstr body)), t)"
    if "m_type h = XS_ERROR"
    using that t m
    by (simp add: xenbus_directory_def with_path_def xs_alloc_def xs_single_def talkv_result_def)
  moreover have "xenbus_directory tid dir node s = Some (Err (- n), t)"
    if "m_type h = XS_ERROR" "(name, n) \<in> protocol_errors" "cstr body = bytes name" for name n
    using err [OF that(1)] get_error_known [OF that(2)] that(3) by simp
  moreover have "xenbus_directory tid dir node s = Some (Err (- 22), t)"
    if "m_type h = XS_ERROR" "\<forall>(name, n) \<in> protocol_errors. cstr body \<noteq> bytes name"
    using err [OF that(1)] get_error_unknown [OF that(2)] by simp
  moreover have "xenbus_directory tid dir node s = Some (Err (- 22), t)"
    if "m_type h \<noteq> XS_ERROR" "m_type h \<noteq> XS_DIRECTORY"
  proof -
    have "talkv_result XS_DIRECTORY (h, body) = Err (- 22)" using that by (simp add: talkv_result_def xs_types)
    then show ?thesis using t m by (simp add: xenbus_directory_def with_path_def xs_alloc_def xs_single_def)
  qed
  ultimately show ?thesis using t(3) by blast
qed

definition xs_example :: xs where
  "xs_example = \<lparr>ring = xs_intf0, ring_ev = [], incoming = [], mem = [], reply_list = [], transaction_count = 0,
     transaction_mutex = False, request_mutex = False, response_mutex = False, watch_mutex = False,
     watches = [], watch_data = (\<lambda>_. \<lparr>watch_node = [], XBWF_new_thread = False\<rparr>), watch_events = [], delivered = []\<rparr>"

lemma out_bytes_intf0 [simp]: "out_bytes xs_intf0 = []"
  by (simp add: xs_intf0_def ring_bytes_def)

theorem xenbus_directory_reply_witness:
  "\<exists>t. xenbus_directory 0 (bytes ''device'') (bytes ''vbd'')
         (xs_example\<lparr>incoming := [(\<lparr>m_type = XS_DIRECTORY, req_id = 0, tx_id = 0, m_len = 8\<rparr>,
                                  zterm [bytes ''768'', bytes ''832''])]\<rparr>)
       = Some (Ok [bytes ''768'', bytes ''832''], t)"
proof -
  let ?s = "xs_example\<lparr>incoming := [(\<lparr>m_type = XS_DIRECTORY, req_id = 0, tx_id = 0, m_len = 8\<rparr>,
                                     zterm [bytes ''768'', bytes ''832''])]\<rparr>"
  have "expects (\<lparr>m_type = XS_DIRECTORY, req_id = 0, tx_id = 0, m_len = 8\<rparr>, zterm [bytes ''768'', bytes ''832''])
          (length (join (bytes ''device'') (bytes ''vbd'')) + 1) ?s"
    using xs_wf0 by (simp add: expects_def xs_example_def join_def bytes_def xs_types)
  from xenbus_directory_reply [OF this, of "[bytes ''768'', bytes ''832'']" 0] show ?thesis
    by (auto simp: xs_example_def zterm_def bytes_def)
qed

theorem xs_talkv_wire_witness:
  "\<exists>t k. xs_talkv 7 XS_READ [[65, 0]] (xs_example\<lparr>incoming := [(\<lparr>m_type = XS_READ, req_id = 0, tx_id = 7, m_len = 1\<rparr>, [66])]\<rparr>)
       = Some (Ok ([66], 1), t) \<and>
     xs_sent t = xs_sent xs_example @ take k (hdr_bytes (request_hdr 7 XS_READ [[65, 0]]) @ [65, 0]) \<and> 18 \<le> k"
proof -
  let ?m = "(\<lparr>m_type = XS_READ, req_id = 0, tx_id = 7, m_len = 1\<rparr>, [66])"
  let ?s = "xs_example\<lparr>incoming := [?m]\<rparr>"
  have "expects ?m (length (concat [[65, 0]])) ?s"
    using xs_wf0 by (simp add: expects_def xs_example_def xs_types)
  from xs_talkv_reply [OF this, of 7 XS_READ] obtain t where
    t: "xs_talkv 7 XS_READ [[65, 0]] ?s = Some (Ok ([66], 1), t)" by (auto simp: talkv_result_def xs_types)
  have "xs_ok ?s" "xs_sent ?s = xs_sent xs_example"
    using xs_wf0 by (simp_all add: xs_ok_def xs_example_def xs_sent_def)
  from xs_talkv_wire [OF this(1) t] this(2) t show ?thesis by auto
qed

section \<open>The reader thread\<close>

lemma process_wait_kept:
  "\<forall>e \<in> set es. polite e \<Longrightarrow> xs_wf r \<Longrightarrow>
   case process_wait es r of Asleep \<Rightarrow> True
   | Ready t es' \<Rightarrow> peer_kept r t \<and> set es' \<subseteq> set es
   | Interrupted t es' \<Rightarrow> peer_kept r t \<and> set es' \<subseteq> set es"
proof (induction es r rule: process_wait.induct)
  case (1 es r)
  show ?case
  proof (cases "xb_wait_for_data_to_read es r")
    case (Ready s1 es1)
    note w = Ready [unfolded xb_wait_for_data_to_read_def]
    obtain t es2 where race: "xb_race es1 s1 = (t, es2)" by (cases "xb_race es1 s1")
    have k1: "peer_kept r s1 \<and> set es1 \<subseteq> set es" using wait_kept [OF w 1(2,3)] by blast
    then have k2: "peer_kept s1 t \<and> set es2 \<subseteq> set es1"
      using 1(2) by (intro race_kept [OF race]) (auto simp: peer_kept_def)
    have k: "peer_kept r t" "set es2 \<subseteq> set es" using k1 k2 peer_kept_trans by blast+
    show ?thesis
    proof (cases "xb_data_to_read t")
      case True
      then show ?thesis using k by (simp add: process_wait.simps [of es r] Ready race)
    next
      case False
      have "xs_wf t" "\<forall>e \<in> set es2. polite e" using k 1(2) by (auto simp: peer_kept_def)
      with 1(1) [OF Ready race [symmetric] refl False]
      have "case process_wait es2 t of Asleep \<Rightarrow> True
        | Ready u es' \<Rightarrow> peer_kept t u \<and> set es' \<subseteq> set es2
        | Interrupted u es' \<Rightarrow> peer_kept t u \<and> set es' \<subseteq> set es2" by blast
      then show ?thesis
        using k peer_kept_trans [OF k(1)] False
        by (auto simp: process_wait.simps [of es r] Ready race split: xb_wait_result.splits)
    qed
  qed (use 1 wait_kept in \<open>force simp: process_wait.simps [of es r] xb_wait_for_data_to_read_def\<close>)+
qed

lemma xs_take_polite:
  assumes ok: "xs_ok s" and run: "xs_take n s = Some (err, bs, t)"
  shows "xs_ok t \<and> t = s\<lparr>ring := ring t, ring_ev := ring_ev t\<rparr> \<and> (err = 0 \<longrightarrow> length bs = n) \<and>
         in_moved [] (ring s) bs (ring t)"
proof -
  obtain r ev where r: "xb_read (ring_ev s) n [] (ring s) = Done err bs r ev" "t = s\<lparr>ring := r, ring_ev := ev\<rparr>"
    using run by (auto simp: xs_take_def split: xb_result.splits)
  then show ?thesis using xb_read_polite [OF r(1)] ok by (auto simp: xs_ok_def)
qed

lemma client_ring [simp]: "client (s\<lparr>ring := r, ring_ev := ev\<rparr>) = client s"
  by (simp add: client_def)

definition stored :: "xs \<Rightarrow> xsd_sockmsg \<times> u8 list \<Rightarrow> xs \<Rightarrow> xs \<Rightarrow> bool" where
  "stored s m u t \<longleftrightarrow> client u = client s \<and> reply_list u = reply_list s \<and> watch_events u = watch_events s \<and>
     ring u = ring t \<and> store_msg m u = Some (0, t)"

lemma process_msg_stored:
  assumes ok: "xs_ok s" and run: "process_msg s = Some (0, t)"
  shows "\<exists>hb body u. length hb = 16 \<and> length body = unat (m_len (hdr_of_bytes hb)) \<and>
           in_moved [] (ring s) (hb @ body) (ring t) \<and> stored s (hdr_of_bytes hb, body) u t"
proof -
  obtain r ev where w: "process_wait (ring_ev s) (ring s) = Ready r ev"
    using run by (cases "process_wait (ring_ev s) (ring s)") (auto simp: process_msg_def)
  have k: "peer_kept (ring s) r" "set ev \<subseteq> set (ring_ev s)"
    using process_wait_kept [of "ring_ev s" "ring s"] ok w by (auto simp: xs_ok_def)
  let ?s1 = "s\<lparr>ring := r, ring_ev := ev\<rparr>"
  have ok1: "xs_ok ?s1" using k ok by (auto simp: xs_ok_def peer_kept_def)
  have nm: "\<not> response_mutex s" using run w by (auto simp: process_msg_def split: if_splits)
  obtain b1 s2 where a1: "xs_alloc ?s1 = (b1, s2)" by (cases "xs_alloc ?s1")
  note f1 = xs_alloc_frame [OF a1]
  have b1: b1 using run w nm a1 by (cases b1) (auto simp: process_msg_def)
  have ok2: "xs_ok s2" using ok1 f1 by (simp add: xs_ok_def)
  obtain e1 hb s3 where t1: "xs_take 16 s2 = Some (e1, hb, s3)"
    using run w nm a1 b1 by (cases "xs_take 16 s2") (auto simp: process_msg_def)
  have e1: "e1 = 0" using run w nm a1 b1 t1 by (auto simp: process_msg_def split: if_splits)
  note p1 = xs_take_polite [OF ok2 t1]
  have small: "\<not> m_len (hdr_of_bytes hb) > XENSTORE_PAYLOAD_MAX"
    using run w nm a1 b1 t1 e1 by (auto simp: process_msg_def Let_def split: if_splits)
  obtain b2 s4 where a2: "xs_alloc s3 = (b2, s4)" by (cases "xs_alloc s3")
  note f2 = xs_alloc_frame [OF a2]
  have b2: b2 using run w nm a1 b1 t1 e1 small a2 by (cases b2) (auto simp: process_msg_def Let_def)
  obtain e2 body s5 where t2: "xs_take (unat (m_len (hdr_of_bytes hb))) s4 = Some (e2, body, s5)"
    using run w nm a1 b1 t1 e1 small a2 b2
    by (cases "xs_take (unat (m_len (hdr_of_bytes hb))) s4") (auto simp: process_msg_def Let_def)
  have st: "e2 = 0 \<and> store_msg (hdr_of_bytes hb, body) s5 = Some (0, t)"
    using run w nm a1 b1 t1 e1 small a2 b2 t2 by (auto simp: process_msg_def Let_def split: if_splits)
  have ok4: "xs_ok s4" using p1 f2 by (simp add: xs_ok_def)
  note p2 = xs_take_polite [OF ok4 t2]
  have m1: "in_moved [] (ring s) [] r" using k by (simp add: peer_kept_def)
  have m2: "in_moved [] r hb (ring s3)" using p1 f1 by simp
  have m3: "in_moved hb (ring s3) (hb @ body) (ring s5)"
    using p2 f2 by (auto simp: in_moved_def)
  have r5: "ring s5 = ring t" using store_msg_frame [of _ s5 0 t] st by metis
  have s3: "client s3 = client s2" "reply_list s3 = reply_list s2" "watch_events s3 = watch_events s2"
    using p1 client_ring by (metis, (metis xs.select_convs xs.surjective xs.update_convs)+)
  have s5: "client s5 = client s4" "reply_list s5 = reply_list s4" "watch_events s5 = watch_events s4"
    using p2 client_ring by (metis, (metis xs.select_convs xs.surjective xs.update_convs)+)
  have "stored s (hdr_of_bytes hb, body) s5 t"
    using st r5 f1 f2 s3 s5 by (simp add: stored_def)
  moreover have "in_moved [] (ring s) (hb @ body) (ring t)"
    using in_moved_trans [OF m1 in_moved_trans [OF m2 m3]] r5 by simp
  ultimately show ?thesis using p1 p2 e1 st by blast
qed

text \<open>What a complete message does to the queues.\<close>

definition queued :: "xs \<Rightarrow> xsd_sockmsg \<times> u8 list \<Rightarrow> xs \<Rightarrow> bool" where
  "queued s m t \<longleftrightarrow>
     (if m_type (fst m) = XS_WATCH_EVENT
      then reply_list t = reply_list s \<and>
           (\<exists>v. split_strings (snd m) = Some v \<and> 2 \<le> length v \<and>
             watch_events t = watch_events s @
               (case find_watch (v ! 1) s of None \<Rightarrow> [] | Some w \<Rightarrow> [\<lparr>handle = w, vec = v\<rparr>]))
      else reply_list t = reply_list s @ [m] \<and> watch_events t = watch_events s)"

lemma store_msg_queued:
  assumes "store_msg m s = Some (0, t)"
  shows "queued s m t \<and> client t = client s"
proof -
  obtain b u where u: "xs_alloc s = (b, u)" by (cases "xs_alloc s")
  note f = xs_alloc_frame [OF u] find_watch_client [of u s]
  show ?thesis
  proof (cases "m_type (fst m) = XS_WATCH_EVENT")
    case False
    then show ?thesis using assms by (auto simp: store_msg_def queued_def client_def)
  next
    case True
    then show ?thesis
      using assms u f
      by (cases b) (auto simp: store_msg_def queued_def client_def split: option.splits if_splits)
  qed
qed

text \<open>
  C11: The reader never loses step with the daemon. If the bytes waiting in the response ring,
  followed by what the daemon adds while the reader runs, begin with a message, header and
  as many payload bytes as the header says, then a round of the reader that reports no error
  consumes exactly that message and files it: a reply at the end of the reply list, a watch
  event, split into its strings, at the end of the event queue if its token names a
  registered watch and nowhere otherwise.
\<close>

theorem process_msg_stream:
  assumes ok: "xs_ok s" and run: "process_msg s = Some (0, t)"
    and new: "supplied (ring t) = supplied (ring s) @ new"
    and msg: "in_bytes (ring s) @ new = hdr_bytes h @ body @ rest" and len: "length body = unat (m_len h)"
  shows "in_bytes (ring t) = rest \<and> queued s (h, body) t \<and> client t = client s"
proof -
  obtain hb bd u where u: "length hb = 16" "length bd = unat (m_len (hdr_of_bytes hb))"
    "in_moved [] (ring s) (hb @ bd) (ring t)" "stored s (hdr_of_bytes hb, bd) u t"
    using process_msg_stored [OF ok run] by blast
  have eq: "hb @ bd @ in_bytes (ring t) = hdr_bytes h @ body @ rest"
    using u(3) new msg by (auto simp: in_moved_def)
  then have hb: "hb = hdr_bytes h" using u(1) by (metis append_eq_append_conv length_hdr_bytes)
  then have "bd @ in_bytes (ring t) = body @ rest" "length bd = length body" using eq u(2) len by auto
  then have bd: "bd = body" "in_bytes (ring t) = rest" by auto
  have "queued u (h, body) t \<and> client t = client u"
    using u(4) store_msg_queued unfolding stored_def hb bd(1) hdr_roundtrip by blast
  then show ?thesis
    using u(4) bd(2) find_watch_client [of u s] by (auto simp: stored_def queued_def)
qed

text \<open>A whole message in the ring and memory at hand: the reader succeeds.\<close>

lemma process_msg_returns:
  assumes wf: "xs_wf (ring s)" and ev: "ring_ev s = []" "mem s = []" "\<not> response_mutex s"
    and msg: "in_bytes (ring s) = hdr_bytes h @ body @ rest" "length body = unat (m_len h)"
      "m_len h \<le> XENSTORE_PAYLOAD_MAX" "m_type h \<noteq> XS_WATCH_EVENT"
  shows "\<exists>t. process_msg s = Some (0, t) \<and> supplied (ring t) = supplied (ring s)"
proof -
  have "in_bytes (ring s) \<noteq> []" using msg(1) by (metis append_is_Nil_conv length_0_conv length_hdr_bytes zero_neq_numeral)
  then have d: "xb_data_to_read (ring s)" by (auto simp: xb_data_to_read_def ring_bytes_def)
  have w: "process_wait [] (ring s) = Ready (ring s) []"
    by (simp add: process_wait.simps [of "[]"] xb_wait_for_data_to_read_def d)
  obtain r1 where r1: "xb_read [] 16 [] (ring s) = Done 0 (hdr_bytes h) r1 []" "xs_wf r1"
    "in_bytes r1 = body @ rest" "supplied r1 = supplied (ring s)"
    using xb_read_fits [OF wf, of 16 "[]"] msg(1) by auto
  obtain r2 where r2: "xb_read [] (unat (m_len h)) [] r1 = Done 0 body r2 []" "supplied r2 = supplied r1"
    using xb_read_fits [OF r1(2), of "unat (m_len h)" "[]"] r1(3) msg(2) by auto
  have m: "\<not> m_len h > XENSTORE_PAYLOAD_MAX" using msg(3) by simp
  show ?thesis
    using w r1 r2 ev msg(4) m
    by (simp add: process_msg_def xs_alloc_def xs_take_def store_msg_def Let_def)
qed

theorem process_msg_stream_witness:
  "\<exists>s t. process_msg s = Some (0, t) \<and>
     reply_list t = reply_list s @ [(\<lparr>m_type = XS_READ, req_id = 0, tx_id = 0, m_len = 0\<rparr>, [])]"
proof -
  let ?h = "\<lparr>m_type = XS_READ, req_id = 0, tx_id = 0, m_len = 0\<rparr>"
  define r where "r = xs_intf0\<lparr>rsp := take 1022 (rsp xs_intf0) @ take 2 (hdr_bytes ?h), xs_rsp_prod := 14\<rparr>"
  define s where "s = xs_example\<lparr>ring := r\<lparr>rsp := blit 0 (drop 2 (hdr_bytes ?h)) (rsp r)\<rparr>\<rparr>"
  have ib: "in_bytes (ring s) = hdr_bytes ?h"
    by (simp add: s_def r_def xs_intf0_def ring_bytes_def hdr_bytes_def le32_def blit_def xs_types upt_rec
        nth_append nth_Cons')
  have wf: "xs_wf (ring s)"
    by (simp add: xs_wf_def s_def r_def xs_intf0_def blit_def ring_bytes_def)
  have nw: "m_type ?h \<noteq> XS_WATCH_EVENT" by (simp add: xs_types)
  obtain t where t: "process_msg s = Some (0, t)" "supplied (ring t) = supplied (ring s)"
    using process_msg_returns [OF wf _ _ _ _ _ _ nw, of "[]" "[]"] ib
    by (auto simp: s_def xs_example_def XENSTORE_PAYLOAD_MAX_def)
  have "xs_ok s" using wf by (simp add: xs_ok_def s_def xs_example_def)
  from process_msg_stream [OF this t(1), of "[]" ?h "[]" "[]"] t ib nw show ?thesis
    by (auto simp: queued_def)
qed

section \<open>Transactions\<close>

lemma xs_single_count: "xs_single tid ty str s = Some (r, t) \<Longrightarrow> transaction_count t = transaction_count s"
  unfolding xs_single_def using xs_talkv_frame by (fastforce simp: client_def)

lemma xs_error_Some: "xs_error r = Some (e, t) \<Longrightarrow> \<exists>x. r = Some (x, t)"
  by (auto simp: xs_error_def)

lemma transaction_start_count:
  "xenbus_transaction_start s = Some (r, t) \<Longrightarrow>
   transaction_count t = transaction_count s + (case r of Ok _ \<Rightarrow> 1 | Err _ \<Rightarrow> 0)"
  by (auto simp: xenbus_transaction_start_def transaction_start_def transaction_end_def
      split: option.splits res.splits if_splits dest!: xs_single_count)

lemma transaction_end_count:
  "xenbus_transaction_end tid abort s = Some (err, u) \<Longrightarrow> transaction_count u = transaction_count s - 1"
  by (auto simp: xenbus_transaction_end_def transaction_end_def dest!: xs_error_Some xs_single_count)

text \<open>
  C22: The count of open transactions, which a suspend waits to become zero, is exact for the
  kernel's own calls: starting one adds one if and only if it succeeds, and ending one takes
  one away even when the daemon or a signal makes the request fail; a request passed
  through from user space adds one if and only if it is a start that the daemon accepts, and
  takes one away if it is an end.
\<close>

theorem transaction_count_balance:
  "(xenbus_transaction_start s = Some (r, t) \<longrightarrow>
      transaction_count t = transaction_count s + (case r of Ok _ \<Rightarrow> 1 | Err _ \<Rightarrow> 0)) \<and>
   (xenbus_transaction_end tid abort s = Some (err, u) \<longrightarrow> transaction_count u = transaction_count s - 1) \<and>
   (xenbus_dev_request_and_reply msg payload s = Some ((msg', reply), v) \<longrightarrow>
      transaction_count v = transaction_count s +
        (if m_type msg = XS_TRANSACTION_END then - 1
         else if m_type msg = XS_TRANSACTION_START \<and> m_type msg' \<noteq> XS_ERROR then 1 else 0))"
proof (intro conjI impI)
  assume "xenbus_transaction_start s = Some (r, t)"
  then show "transaction_count t = transaction_count s + (case r of Ok _ \<Rightarrow> 1 | Err _ \<Rightarrow> 0)"
    by (rule transaction_start_count)
next
  assume "xenbus_transaction_end tid abort s = Some (err, u)"
  then show "transaction_count u = transaction_count s - 1" by (rule transaction_end_count)
next
  assume run: "xenbus_dev_request_and_reply msg payload s = Some ((msg', reply), v)"
  have put: "transaction_count b = transaction_count a" if "xs_put d a = Some (e, b)" for d a e b
    using xs_put_frame [OF that] by (simp add: client_def)
  have rd: "transaction_count b = transaction_count a" if "read_reply a = Some (m, b)" for a m b
    using read_reply_wait_frame that by (fastforce simp: client_def read_reply_def)
  show "transaction_count v = transaction_count s +
        (if m_type msg = XS_TRANSACTION_END then - 1
         else if m_type msg = XS_TRANSACTION_START \<and> m_type msg' \<noteq> XS_ERROR then 1 else 0)"
    using run
    by (auto simp: xenbus_dev_request_and_reply_def transaction_start_def transaction_end_def xs_types
        split: option.splits if_splits dest!: put rd)
qed

theorem transaction_count_balance_witness:
  "\<exists>r t. xenbus_transaction_start (xs_example\<lparr>incoming :=
           [(\<lparr>m_type = XS_TRANSACTION_START, req_id = 0, tx_id = 0, m_len = 2\<rparr>, [52, 50])]\<rparr>) = Some (r, t) \<and>
         transaction_count t = 1"
proof -
  let ?m = "(\<lparr>m_type = XS_TRANSACTION_START, req_id = 0, tx_id = 0, m_len = 2\<rparr>, [52, 50])"
  let ?s = "xs_example\<lparr>incoming := [?m]\<rparr>"
  have "expects ?m (length (concat [[0]])) (?s\<lparr>transaction_count := 1\<rparr>)"
    using xs_wf0 by (simp add: expects_def xs_example_def xs_types)
  from xs_talkv_reply [OF this, of 0 XS_TRANSACTION_START]
  obtain t where "xenbus_transaction_start ?s = Some (Ok (ucast (simple_strtoul 0 (cstr [52, 50]))), t)"
    by (auto simp: xenbus_transaction_start_def transaction_start_def xs_single_def xs_example_def talkv_result_def
        xs_types)
  from this transaction_count_balance [of ?s] show ?thesis by (fastforce simp: xs_example_def)
qed

section \<open>Watches and their events\<close>

text \<open>Every registered watch once, every pending event for a registered watch.\<close>

definition watch_inv :: "xs \<Rightarrow> bool" where
  "watch_inv s \<longleftrightarrow> distinct (watches s) \<and> (\<forall>e \<in> set (watch_events s). handle e \<in> set (watches s))"

lemma watch_inv_grow: "watch_inv s \<Longrightarrow> client t = client s \<Longrightarrow> events_grow s t \<Longrightarrow> watch_inv t"
  by (auto simp: watch_inv_def client_def events_grow_def)

lemma process_msg_client:
  assumes run: "process_msg s = Some (err, t)"
  shows "client t = client s \<and> events_grow s t"
proof -
  have alloc: "client b = client a \<and> events_grow a b" if "xs_alloc a = (x, b)" for a b x
    using xs_alloc_frame [OF that] by (simp add: events_grow_eq)
  have tk: "client b = client a \<and> events_grow a b" if "xs_take n a = Some (e, bs, b)" for n a e bs b
    using that by (auto simp: xs_take_def client_def events_grow_def split: xb_result.splits)
  have st: "client b = client a \<and> events_grow a b" if "store_msg m a = Some (e, b)" for m a e b
    using store_msg_frame [OF that] store_msg_events [OF that] by simp
  have tr: "client c = client a \<and> events_grow a c"
    if "client b = client a \<and> events_grow a b" "client c = client b \<and> events_grow b c" for a b c
    using that events_grow_trans client_watches by metis
  have r0: "client (s\<lparr>ring := r, ring_ev := ev\<rparr>) = client s \<and> events_grow s (s\<lparr>ring := r, ring_ev := ev\<rparr>)"
    for r ev by (simp add: events_grow_eq)
  show ?thesis
  proof (cases "process_wait (ring_ev s) (ring s)")
    case (Ready r ev)
    let ?s1 = "s\<lparr>ring := r, ring_ev := ev\<rparr>"
    obtain b1 s2 where a1: "xs_alloc ?s1 = (b1, s2)" by (cases "xs_alloc ?s1")
    have nm: "\<not> response_mutex s" using run Ready by (auto simp: process_msg_def split: if_splits)
    note c2 = tr [OF r0 alloc [OF a1]]
    show ?thesis
    proof (cases b1)
      case False
      then show ?thesis using run Ready nm a1 c2 by (simp add: process_msg_def)
    next
      case b1: True
      then obtain e1 hb s3 where t1: "xs_take 16 s2 = Some (e1, hb, s3)"
        using run Ready nm a1 by (cases "xs_take 16 s2") (auto simp: process_msg_def)
      note c3 = tr [OF c2 tk [OF t1]]
      show ?thesis
      proof (cases "e1 = 0 \<and> \<not> m_len (hdr_of_bytes hb) > XENSTORE_PAYLOAD_MAX")
        case False
        then show ?thesis
          using run Ready nm a1 b1 t1 c3 by (auto simp: process_msg_def Let_def split: if_splits)
      next
        case ok: True
        obtain b2 s4 where a2: "xs_alloc s3 = (b2, s4)" by (cases "xs_alloc s3")
        note c4 = tr [OF c3 alloc [OF a2]]
        show ?thesis
        proof (cases b2)
          case False
          then show ?thesis using run Ready nm a1 b1 t1 ok a2 c4 by (simp add: process_msg_def Let_def)
        next
          case b2: True
          then obtain e2 body s5 where t2: "xs_take (unat (m_len (hdr_of_bytes hb))) s4 = Some (e2, body, s5)"
            using run Ready nm a1 b1 t1 ok a2
            by (cases "xs_take (unat (m_len (hdr_of_bytes hb))) s4") (auto simp: process_msg_def Let_def)
          note c5 = tr [OF c4 tk [OF t2]]
          show ?thesis
            using run Ready nm a1 b1 t1 ok a2 b2 t2 c5 tr [OF c5 st]
            by (cases "e2 = 0") (auto simp: process_msg_def Let_def)
        qed
      qed
    qed
  qed (use run r0 in \<open>auto simp: process_msg_def\<close>)
qed

lemma xs_watch_frame: "xs_watch p tok s = Some (e, t) \<Longrightarrow> client t = client s \<and> events_grow s t"
  using xs_talkv_frame by (force simp: xs_watch_def dest!: xs_error_Some)

lemma xs_unwatch_frame: "xs_unwatch p tok s = Some (e, t) \<Longrightarrow> client t = client s \<and> events_grow s t"
  using xs_talkv_frame by (force simp: xs_unwatch_def dest!: xs_error_Some)

text \<open>
  The reader thread, the watch thread, requests, drivers that register and unregister watches, a
  suspend and its end, in any order. Beside the state goes the set of the watches whose last
  registration the daemon refused (or a signal cut short).
\<close>

inductive xs_step :: "u64 set \<times> xs \<Rightarrow> u64 set \<times> xs \<Rightarrow> bool" where
  reader: "xenbus_thread s = Some t \<Longrightarrow> xs_step (R, s) (R, t)"
| watcher: "xs_step (R, s) (R, xenwatch_thread s)"
| request: "xs_talkv tid ty vs s = Some (r, t) \<Longrightarrow> xs_step (R, s) (R, t)"
| register: "register_xenbus_watch w s = Some (0, t) \<Longrightarrow> xs_step (R, s) (R - {w}, t)"
| refused: "register_xenbus_watch w s = Some (err, t) \<Longrightarrow> err \<noteq> 0 \<Longrightarrow> xs_step (R, s) (insert w R, t)"
| unregister: "unregister_xenbus_watch w s = Some t \<Longrightarrow> xs_step (R, s) (R - {w}, t)"
| suspend: "xs_suspend [] s = Some t \<Longrightarrow> xs_step (R, s) (R, t)"
| resume: "xs_resume s = Some t \<Longrightarrow> xs_step (R, s) (R, t)"
| cancel: "xs_step (R, s) (R, xs_suspend_cancel s)"

definition pending_ok :: "u64 set \<Rightarrow> xs \<Rightarrow> bool" where
  "pending_ok R s \<longleftrightarrow> distinct (watches s) \<and> (\<forall>e \<in> set (watch_events s). handle e \<in> set (watches s) \<union> R)"

lemma pending_ok_none: "watch_inv s = pending_ok {} s"
  by (simp add: watch_inv_def pending_ok_def)

lemma pending_grow: "pending_ok R s \<Longrightarrow> client t = client s \<Longrightarrow> events_grow s t \<Longrightarrow> pending_ok R t"
  by (auto simp: pending_ok_def client_def events_grow_def)

lemma rewatch_frame: "rewatch ws s = Some t \<Longrightarrow> client t = client s \<and> events_grow s t"
proof (induction ws arbitrary: s)
  case (Cons w ws)
  obtain e u where u: "xs_watch (watch_node (watch_data s w)) (watch_token w) s = Some (e, u)" "rewatch ws u = Some t"
    using Cons.prems by (auto split: option.splits)
  note f = xs_watch_frame [OF u(1)]
  show ?case using Cons.IH [OF u(2)] f events_grow_trans client_watches by metis
qed simp

lemma unregister_ok:
  assumes run: "unregister_xenbus_watch w s = Some t" and d: "distinct (watches s)"
  shows "w \<notin> set (watches t) \<and> (\<forall>e \<in> set (watch_events t). handle e \<noteq> w) \<and>
         watches t = remove1 w (watches s) \<and>
         (\<exists>es. watch_events t = filter (\<lambda>e. handle e \<noteq> w) (watch_events s) @ es \<and>
               (\<forall>e \<in> set es. handle e \<in> set (watches t)))"
proof -
  obtain err u where u: "xs_unwatch (watch_node (watch_data s w)) (watch_token w)
      (s\<lparr>watches := remove1 w (watches s)\<rparr>) = Some (err, u)"
    and t: "t = u\<lparr>watch_events := filter (\<lambda>e. handle e \<noteq> w) (watch_events u)\<rparr>"
    using run by (auto simp: unregister_xenbus_watch_def split: if_splits)
  have w: "watches u = remove1 w (watches s)" using xs_unwatch_frame [OF u] by (simp add: client_def)
  obtain es where es: "watch_events u = watch_events s @ es" "\<forall>e \<in> set es. handle e \<in> set (remove1 w (watches s))"
    using xs_unwatch_frame [OF u] by (auto simp: events_grow_def)
  have "filter (\<lambda>e. handle e \<noteq> w) es = es" using es(2) d by (intro filter_True) auto
  then show ?thesis using w es d t by auto
qed

lemma register_ok:
  assumes run: "register_xenbus_watch w s = Some (err, t)" and inv: "pending_ok R s"
  shows "pending_ok (if err = 0 then R - {w} else insert w R) t \<and> watches t = (if err = 0 then w # watches s else watches s)"
proof -
  let ?s = "s\<lparr>watches := w # watches s\<rparr>"
  have n: "w \<notin> set (watches s)" using run by (auto simp: register_xenbus_watch_def split: if_splits)
  obtain u where u: "xs_watch (watch_node (watch_data s w)) (watch_token w) ?s = Some (err, u)"
    "t = (if err \<noteq> 0 then u\<lparr>watches := remove1 w (watches u)\<rparr> else u)"
    using run by (auto simp: register_xenbus_watch_def split: if_splits)
  note f = xs_watch_frame [OF u(1)]
  have "pending_ok (R - {w}) ?s" using inv n by (auto simp: pending_ok_def)
  then have p: "pending_ok (R - {w}) u" using f pending_grow by blast
  have w: "watches u = w # watches s" using f by (simp add: client_def)
  show ?thesis
  proof (cases "err = 0")
    case True
    then show ?thesis using u(2) p w by simp
  next
    case False
    then have "watches t = watches s" "watch_events t = watch_events u" using u(2) w by simp_all
    then show ?thesis using p w inv False by (auto simp: pending_ok_def)
  qed
qed

lemma xs_step_inv: "xs_step (R, s) (R', t) \<Longrightarrow> pending_ok R s \<Longrightarrow> pending_ok R' t"
proof (induction "(R, s)" "(R', t)" rule: xs_step.induct)
  case reader
  then show ?case using process_msg_client pending_grow by (fastforce simp: xenbus_thread_def)
next
  case watcher
  then show ?case
    by (auto simp: xenwatch_thread_def xenwatch_handle_callback_def pending_ok_def split: list.splits)
next
  case request
  then show ?case using xs_talkv_frame pending_grow by blast
next
  case register
  then show ?case using register_ok by fastforce
next
  case refused
  then show ?case using register_ok by fastforce
next
  case (unregister w)
  have d: "distinct (watches s)" "\<forall>e \<in> set (watch_events s). handle e \<in> set (watches s) \<union> R"
    using unregister.prems by (auto simp: pending_ok_def)
  obtain es where es: "watches t = remove1 w (watches s)"
    "watch_events t = filter (\<lambda>e. handle e \<noteq> w) (watch_events s) @ es" "\<forall>e \<in> set es. handle e \<in> set (watches t)"
    using unregister_ok [OF unregister.hyps(1) d(1)] by blast
  have "set (watches t) = set (watches s) - {w}" using es(1) d(1) by simp
  then show ?case using es d unregister.hyps(2) by (auto simp: pending_ok_def)
next
  case suspend
  then show ?case
    by (auto simp: xs_suspend_def transaction_suspend_def pending_ok_def split: if_splits option.splits)
next
  case resume
  let ?s = "transaction_resume (s\<lparr>response_mutex := False, request_mutex := False\<rparr>)"
  obtain u where u: "rewatch (watches s) ?s = Some u" "t = u\<lparr>watch_mutex := False\<rparr>"
    using resume.hyps(1) by (auto simp: xs_resume_def Let_def transaction_resume_def)
  have "pending_ok R ?s" using resume.prems by (simp add: pending_ok_def transaction_resume_def)
  then have "pending_ok R u" using rewatch_frame [OF u(1)] pending_grow by blast
  then show ?case using resume.hyps(2) by (simp add: u(2) pending_ok_def)
next
  case cancel
  then show ?case by (auto simp: xs_suspend_cancel_def pending_ok_def)
qed

lemma xenwatch_thread_watches [simp]: "watches (xenwatch_thread s) = watches s"
  by (simp add: xenwatch_thread_def xenwatch_handle_callback_def split: list.split)


text \<open>
  The other case does occur. The watch is on the list while the daemon's answer is waited for; an
  event for it that arrives before a refusal is queued, and the refusal takes the watch off the list and
  leaves the event pending: the watch thread will run the callback of a watch that is not registered.
\<close>

lemma refused_watch_pending:
  assumes quiet: "xs_wf (ring s)" "ring_ev s = []" "mem s = []" "reply_list s = []" "\<not> request_mutex s" "\<not> watch_mutex s"
    and new: "w \<notin> set (watches s)"
    and room: "16 + (length (watch_node (watch_data s w)) + 1 + (length (watch_token w) + 1)) + length (out_bytes (ring s)) \<le> 1024"
    and inc: "incoming s = (eh, eb) # (h, body) # rest" "m_type eh = XS_WATCH_EVENT" "split_strings eb = Some v" "2 \<le> length v"
      "v ! 1 = watch_token w" "m_type h = XS_ERROR"
  shows "\<exists>err t. register_xenbus_watch w s = Some (err, t) \<and> err < 0 \<and> w \<notin> set (watches t) \<and>
    watch_events t = watch_events s @ [\<lparr>handle = w, vec = v\<rparr>]"
proof -
  let ?s = "s\<lparr>watches := w # watches s\<rparr>"
  let ?vs = "[watch_node (watch_data s w) @ [0], watch_token w @ [0]]"
  obtain r where r: "send_vecs xs_put (hdr_bytes (request_hdr 0 XS_WATCH ?vs) # ?vs) ?s = Some (0, ?s\<lparr>ring := r\<rparr>)"
    using send_vecs_fits [of ?s "hdr_bytes (request_hdr 0 XS_WATCH ?vs) # ?vs"] quiet room by auto
  have f: "find_watch (v ! 1) (?s\<lparr>ring := r\<rparr>) = Some w" unfolding inc(5) by simp
  let ?t = "?s\<lparr>ring := r, watch_events := watch_events s @ [\<lparr>handle = w, vec = v\<rparr>], incoming := rest, reply_list := []\<rparr>"
  have st: "store_msg (eh, eb) (?s\<lparr>ring := r\<rparr>) = Some (0, ?s\<lparr>ring := r, watch_events := watch_events s @ [\<lparr>handle = w, vec = v\<rparr>]\<rparr>)"
    using inc(2-4) f quiet(3) by (simp add: store_msg_def xs_alloc_def)
  have "read_reply (?s\<lparr>ring := r\<rparr>) = Some ((h, body), ?t)"
    using st inc(1,6) quiet(4) by (cases rest) (simp_all add: read_reply_def store_msg_def xs_types)
  then have "xs_talkv 0 XS_WATCH ?vs ?s = Some (Err (- get_error (cstr body)), ?t)"
    using r quiet(5) inc(6) by (simp add: xs_talkv_def talkv_result_def del: send_vecs.simps)
  then have "xs_watch (watch_node (watch_data s w)) (watch_token w) ?s = Some (- get_error (cstr body), ?t)"
    by (simp add: xs_watch_def xs_error_def)
  moreover have pos: "0 < get_error (cstr body)" by (simp add: get_error_def xsd_errors_def)
  moreover have "- get_error (cstr body) \<noteq> 0" using pos by linarith
  ultimately have "register_xenbus_watch w s = Some (- get_error (cstr body), ?t\<lparr>watches := watches s\<rparr>)"
    using quiet(6) new unfolding register_xenbus_watch_def by simp
  then show ?thesis using pos new by simp
qed

text \<open>
  C13: Unregistering is final. After \<open>unregister_xenbus_watch\<close> no event for the watch is pending,
  the pending events of all other watches are as before and in order, with any that arrived
  meanwhile behind them, and no later activity of the reader, of the watch thread or of
  requests makes an event for it pending again.
\<close>

theorem unregister_watch_final:
  assumes run: "unregister_xenbus_watch w s = Some t" and inv: "watch_inv s"
    and later: "(\<lambda>a b. xenbus_thread a = Some b \<or> b = xenwatch_thread a \<or>
                   (\<exists>tid ty vs r. xs_talkv tid ty vs a = Some (r, b)))\<^sup>*\<^sup>* t u"
  shows "(\<forall>e \<in> set (watch_events u). handle e \<noteq> w) \<and>
         (\<exists>es. watch_events t = filter (\<lambda>e. handle e \<noteq> w) (watch_events s) @ es)"
proof -
  have "watch_inv t" using xs_step_inv [OF xs_step.unregister [OF run, of "{}"]] inv by (simp add: pending_ok_none)
  then have t: "w \<notin> set (watches t)" "watch_inv t"
    "\<exists>es. watch_events t = filter (\<lambda>e. handle e \<noteq> w) (watch_events s) @ es"
    using unregister_ok [OF run] inv unfolding watch_inv_def by blast+
  from later t have "w \<notin> set (watches u) \<and> watch_inv u"
  proof (induction rule: rtranclp_induct)
    case base
    then show ?case by simp
  next
    case (step y z)
    then have y: "w \<notin> set (watches y)" "watch_inv y" by auto
    have "watches z = watches y \<and> xs_step ({}, y) ({}, z)"
      using step.hyps(2)
    proof (elim disjE exE)
      assume "xenbus_thread y = Some z"
      then show ?thesis using process_msg_client xs_step.reader by (fastforce simp: xenbus_thread_def client_def)
    next
      assume "z = xenwatch_thread y"
      then show ?thesis using xs_step.watcher by simp
    next
      fix tid ty vs r assume "xs_talkv tid ty vs y = Some (r, z)"
      then show ?thesis using xs_talkv_frame xs_step.request client_watches by blast
    qed
    then show ?case using y xs_step_inv [of "{}" y "{}" z] pending_ok_none by auto
  qed
  then show ?thesis using t(3) by (auto simp: watch_inv_def)
qed

text \<open>Two watches, an event pending for each, and the daemon about to acknowledge an unwatch.\<close>

definition xs_watch_example :: xs where
  "xs_watch_example = xs_example\<lparr>watches := [4096, 8192],
     watch_events := [\<lparr>handle = 4096, vec = [bytes ''a'', bytes ''1000'']\<rparr>,
                      \<lparr>handle = 8192, vec = [bytes ''b'', bytes ''2000'']\<rparr>],
     incoming := [(\<lparr>m_type = XS_UNWATCH, req_id = 0, tx_id = 0, m_len = 3\<rparr>, bytes ''OK'' @ [0])]\<rparr>"

lemma token_4096: "watch_token 4096 = [49, 48, 48, 48]"
  by (simp add: watch_token_def hex_nat.simps [of "_ :: nat"] hex_digit_def)

lemma watch_inv_example: "watch_inv xs_watch_example"
  by (simp add: watch_inv_def xs_watch_example_def)

lemma unregister_example: "\<exists>t. unregister_xenbus_watch 4096 xs_watch_example = Some t"
proof -
  let ?m = "(\<lparr>m_type = XS_UNWATCH, req_id = 0, tx_id = 0, m_len = 3\<rparr>, bytes ''OK'' @ [0])"
  let ?vs = "[[] @ [0], watch_token 4096 @ [0]]"
  let ?s = "xs_watch_example\<lparr>watches := remove1 4096 (watches xs_watch_example)\<rparr>"
  have "expects ?m (length (concat ?vs)) ?s"
    using xs_wf0 by (simp add: expects_def xs_watch_example_def xs_example_def xs_types token_4096)
  from xs_talkv_reply [OF this, of 0 XS_UNWATCH] obtain t where
    "xs_talkv 0 XS_UNWATCH ?vs ?s = Some (talkv_result XS_UNWATCH ?m, t)" by blast
  then show ?thesis
    by (simp add: unregister_xenbus_watch_def xs_unwatch_def xs_watch_example_def xs_example_def xs_error_def)
qed


lemma refused_watch_pending_witness:
  "\<exists>err t. register_xenbus_watch 4096 (xs_example\<lparr>incoming :=
       [(\<lparr>m_type = XS_WATCH_EVENT, req_id = 0, tx_id = 0, m_len = 7\<rparr>, zterm [[97], [49, 48, 48, 48]]),
        (\<lparr>m_type = XS_ERROR, req_id = 0, tx_id = 0, m_len = 7\<rparr>, bytes ''EINVAL'' @ [0])]\<rparr>) = Some (err, t) \<and> err < 0 \<and>
     watches t = [] \<and> map handle (watch_events t) = [4096]"
proof -
  let ?s = "xs_example\<lparr>incoming :=
       [(\<lparr>m_type = XS_WATCH_EVENT, req_id = 0, tx_id = 0, m_len = 7\<rparr>, zterm [[97], [49, 48, 48, 48]]),
        (\<lparr>m_type = XS_ERROR, req_id = 0, tx_id = 0, m_len = 7\<rparr>, bytes ''EINVAL'' @ [0])]\<rparr>"
  have v: "split_strings (zterm [[97], [49, 48, 48, 48]]) = Some [[97], [49, 48, 48, 48]]"
    by (rule split_strings_zterm) simp
  have "\<exists>err t. register_xenbus_watch 4096 ?s = Some (err, t) \<and> err < 0 \<and> 4096 \<notin> set (watches t) \<and>
    watch_events t = watch_events ?s @ [\<lparr>handle = 4096, vec = [[97], [49, 48, 48, 48]]\<rparr>]"
    by (rule refused_watch_pending [where eh = "\<lparr>m_type = XS_WATCH_EVENT, req_id = 0, tx_id = 0, m_len = 7\<rparr>"
        and eb = "zterm [[97], [49, 48, 48, 48]]" and h = "\<lparr>m_type = XS_ERROR, req_id = 0, tx_id = 0, m_len = 7\<rparr>"
        and body = "bytes ''EINVAL'' @ [0]" and rest = "[]"])
      (use v xs_wf0 in \<open>simp_all add: xs_example_def token_4096\<close>)
  then obtain err t where t: "register_xenbus_watch 4096 ?s = Some (err, t)" "err < 0"
    "watch_events t = watch_events ?s @ [\<lparr>handle = 4096, vec = [[97], [49, 48, 48, 48]]\<rparr>]" by blast
  have "pending_ok {} ?s" by (simp add: pending_ok_def xs_example_def)
  from register_ok [OF t(1) this] t(2) have "watches t = []" by (simp add: xs_example_def)
  then show ?thesis using t by (simp add: xs_example_def)
qed

theorem unregister_watch_final_witness:
  "\<exists>t. unregister_xenbus_watch 4096 xs_watch_example = Some t \<and>
       (\<forall>e \<in> set (watch_events (xenwatch_thread t)). handle e \<noteq> 4096)"
proof -
  obtain t where t: "unregister_xenbus_watch 4096 xs_watch_example = Some t" using unregister_example by blast
  have "(\<lambda>a b. xenbus_thread a = Some b \<or> b = xenwatch_thread a \<or>
           (\<exists>tid ty vs r. xs_talkv tid ty vs a = Some (r, b)))\<^sup>*\<^sup>* t (xenwatch_thread t)"
    by (intro r_into_rtranclp) simp
  from unregister_watch_final [OF t watch_inv_example this] t show ?thesis by blast
qed

section \<open>Suspend and resume\<close>

definition watch_request :: "xs \<Rightarrow> u64 \<Rightarrow> u8 list" where
  "watch_request s w = request_bytes 0 XS_WATCH [watch_node (watch_data s w) @ [0], watch_token w @ [0]]"

lemma wait_transactions_zero: "wait_transactions fs s = Some t \<Longrightarrow> transaction_count t = 0"
  by (induction fs s rule: wait_transactions.induct) (auto split: if_splits)

text \<open>Without a signal a writer is not interrupted.\<close>

lemma wait_no_signal:
  "wait_event_interruptible c es s = r \<Longrightarrow> Signal \<notin> set es \<Longrightarrow>
   (\<forall>t es'. r = Ready t es' \<longrightarrow> Signal \<notin> set es') \<and> (\<forall>t es'. r \<noteq> Interrupted t es')"
  by (induction c es s rule: wait_event_interruptible.induct) (auto split: if_splits)

lemma race_no_signal: "xb_race es s = (t, es') \<Longrightarrow> Signal \<notin> set es \<Longrightarrow> Signal \<notin> set es'"
  by (cases "(es, s)" rule: xb_race.cases) auto

lemma xb_write_no_signal:
  "xb_write es data s = Done rc u s' es' \<Longrightarrow> Signal \<notin> set es \<Longrightarrow> rc \<noteq> - ERESTARTSYS \<and> Signal \<notin> set es'"
proof (induction es data s rule: xb_write.induct)
  case (1 es data s)
  note prems = 1(3,4) and IH0 = 1(1) and IH = 1(2)
  show ?case
  proof (cases "data = []")
    case True
    then show ?thesis using prems by auto
  next
    case ne: False
    show ?thesis
    proof (cases "wait_event_interruptible xb_write_ready es s")
      case (Ready s1 es1)
      obtain t es2 where race: "xb_race es1 s1 = (t, es2)" by (cases "xb_race es1 s1")
      obtain off avail where ch: "get_output_chunk (xs_req_cons t) (xs_req_prod t) = (off, avail)"
        by (cases "get_output_chunk (xs_req_cons t) (xs_req_prod t)")
      have ns: "Signal \<notin> set es2" using wait_no_signal [OF Ready prems(2)] race_no_signal [OF race] by simp
      show ?thesis
      proof (cases "check_indexes (xs_req_cons t) (xs_req_prod t)")
        case False
        then show ?thesis using prems(1) ne Ready race ns by (simp add: xb_write.simps [of es data s])
      next
        case ok: True
        show ?thesis
        proof (cases "avail = 0")
          case True
          then have "xb_write es2 data t = Done rc u s' es'"
            using prems(1) ne Ready race ch ok by (simp add: xb_write.simps [of es data s])
          then show ?thesis
            using IH0 [OF ne Ready refl race [symmetric] refl refl _ refl ch [symmetric]] ok ch True ns by auto
        next
          case False
          define n where "n = min (unat avail) (length data)"
          then have "xb_write es2 (drop n data) (xb_write_chunk off (take n data) t) = Done rc u s' es'"
            using prems(1) ne Ready race ch ok False by (simp add: xb_write.simps [of es data s] Let_def)
          then show ?thesis
            using IH [OF ne Ready refl race [symmetric] refl refl _ refl ch [symmetric] False n_def] ok ch ns by auto
        qed
      qed
    next
      case (Interrupted t es1)
      then show ?thesis using wait_no_signal [OF Interrupted prems(2)] by simp
    next
      case Asleep
      then show ?thesis using prems(1) ne by (simp add: xb_write.simps [of es data s])
    qed
  qed
qed

definition no_signal :: "xs \<Rightarrow> bool" where "no_signal s \<longleftrightarrow> Signal \<notin> set (ring_ev s)"

lemma send_no_signal:
  "send_vecs xs_put vs s = Some (err, t) \<Longrightarrow> no_signal s \<Longrightarrow> err \<noteq> - ERESTARTSYS \<and> no_signal t"
proof (induction vs arbitrary: s)
  case (Cons v vs)
  obtain e u where u: "xs_put v s = Some (e, u)" using Cons.prems(1) by (auto split: option.splits)
  have "e \<noteq> - ERESTARTSYS \<and> no_signal u"
    using u Cons.prems(2) xb_write_no_signal by (auto simp: xs_put_def no_signal_def split: xb_result.splits)
  then show ?case using Cons u by (cases "e = 0") auto
qed auto

lemma talkv_no_signal:
  assumes ok: "xs_ok s" and ns: "no_signal s" and run: "xs_talkv tid ty vs s = Some (r, t)"
  shows "xs_ok t \<and> no_signal t \<and> client t = client s \<and> xs_sent t = xs_sent s @ request_bytes tid ty vs"
proof -
  let ?msg = "hdr_bytes (request_hdr tid ty vs) # vs"
  obtain err u where u: "send_vecs xs_put ?msg s = Some (err, u)"
    using run by (auto simp: xs_talkv_def split: if_splits option.splits)
  obtain k where k: "xs_ok u" "err = 0 \<or> err = - ERESTARTSYS"
    "xs_sent u = xs_sent s @ take k (concat ?msg)" "err = 0 \<longrightarrow> length (concat ?msg) \<le> k"
    using xs_put.send_stream [OF ok u] by blast
  have e: "err = 0" "no_signal u" using send_no_signal [OF u ns] k(2) by blast+
  then obtain m where m: "read_reply u = Some (m, t)"
    using run u by (auto simp: xs_talkv_def split: if_splits option.splits)
  then have f: "ring t = ring u" "ring_ev t = ring_ev u"
    using read_reply_wait_frame [of "incoming u" u m t] by (simp_all add: read_reply_def)
  have "xs_ok t = xs_ok u \<and> xs_sent t = xs_sent u" by (rule xs_ok_ring [OF f])
  moreover have "take k (concat ?msg) = concat ?msg" using k(4) e(1) by simp
  ultimately show ?thesis
    using k e f(2) xs_talkv_frame [OF run] by (simp add: no_signal_def request_bytes_def)
qed

lemma rewatch_sent:
  "rewatch ws s = Some t \<Longrightarrow> xs_ok s \<Longrightarrow> no_signal s \<Longrightarrow>
   xs_ok t \<and> client t = client s \<and> xs_sent t = xs_sent s @ concat (map (watch_request s) ws)"
proof (induction ws arbitrary: s)
  case Nil
  then show ?case by auto
next
  case (Cons w ws)
  let ?vs = "[watch_node (watch_data s w) @ [0], watch_token w @ [0]]"
  obtain e u where u: "xs_watch (watch_node (watch_data s w)) (watch_token w) s = Some (e, u)" "rewatch ws u = Some t"
    using Cons.prems(1) by (auto split: option.splits)
  then obtain r where r: "xs_talkv 0 XS_WATCH ?vs s = Some (r, u)"
    by (auto simp: xs_watch_def dest!: xs_error_Some)
  note k = talkv_no_signal [OF Cons.prems(2,3) r]
  have "watch_request u = watch_request s" using k by (simp add: watch_request_def client_def fun_eq_iff)
  with Cons.IH [OF u(2)] k show ?case by (simp add: watch_request_def)
qed

text \<open>With an answer for each on its way and room for all of the requests, the watches are registered again.\<close>

definition answered :: "u64 list \<Rightarrow> xs \<Rightarrow> bool" where
  "answered ws s \<longleftrightarrow> xs_wf (ring s) \<and> ring_ev s = [] \<and> reply_list s = [] \<and> \<not> request_mutex s \<and>
     length (concat (map (watch_request s) ws)) + length (out_bytes (ring s)) \<le> 1024 \<and>
     length ws \<le> length (incoming s) \<and> (\<forall>m \<in> set (incoming s). m_type (fst m) \<noteq> XS_WATCH_EVENT)"

lemma rewatch_returns: "answered ws s \<Longrightarrow> \<exists>t. rewatch ws s = Some t"
proof (induction ws arbitrary: s)
  case (Cons w ws)
  let ?vs = "[watch_node (watch_data s w) @ [0], watch_token w @ [0]]"
  let ?q = "hdr_bytes (request_hdr 0 XS_WATCH ?vs) # ?vs"
  have a: "xs_wf (ring s)" "ring_ev s = []" "reply_list s = []" "\<not> request_mutex s"
    "length (concat ?q) + length (concat (map (watch_request s) ws)) + length (out_bytes (ring s)) \<le> 1024"
    using Cons.prems by (simp_all add: answered_def watch_request_def request_bytes_def)
  obtain m rest where inc: "incoming s = m # rest" "m_type (fst m) \<noteq> XS_WATCH_EVENT"
    "length ws \<le> length rest" "\<forall>m \<in> set rest. m_type (fst m) \<noteq> XS_WATCH_EVENT"
    using Cons.prems by (cases "incoming s") (auto simp: answered_def)
  obtain r where r: "send_vecs xs_put ?q s = Some (0, s\<lparr>ring := r\<rparr>)" "xs_wf r" "out_bytes r = out_bytes (ring s) @ concat ?q"
    using send_vecs_fits [OF a(1,2), of ?q] a(5) by auto
  let ?u = "s\<lparr>ring := r, reply_list := [], incoming := rest\<rparr>"
  have "read_reply (s\<lparr>ring := r\<rparr>) = Some (m, ?u)"
    using a(3) inc(1,2) by (cases rest) (auto simp: read_reply_def store_msg_def)
  then have "xs_talkv 0 XS_WATCH ?vs s = Some (talkv_result XS_WATCH m, ?u)"
    using r(1) a(4) by (simp add: xs_talkv_def del: send_vecs.simps)
  then obtain e where e: "xs_watch (watch_node (watch_data s w)) (watch_token w) s = Some (e, ?u)"
    by (auto simp: xs_watch_def xs_error_def)
  have "watch_request ?u = watch_request s" by (simp add: watch_request_def fun_eq_iff)
  then have "answered ws ?u" using a inc r(2,3) by (simp add: answered_def)
  then show ?case using Cons.IH e by simp
qed simp

text \<open>
  C30: Suspend and resume. When \<open>xs_suspend\<close> returns no transaction is open, and until
  the resume no request, transaction start, registration or unregistration can proceed and
  the reader takes no message. A resume that no signal interrupts gives every lock back, keeps the
  list of watches, and sends the new daemon exactly one whole watch request for each watch on the list, in list
  order, whatever the daemon answers to them; and it does return when the daemon answers each request and the
  ring has room for them.
\<close>

theorem xs_suspend_quiesces:
  assumes susp: "xs_suspend others s = Some t"
    and others: "\<forall>f \<in> set others. \<forall>s. transaction_mutex s \<longrightarrow> transaction_mutex (f s)"
  shows "transaction_count t = 0 \<and> xs_talkv tid ty vs t = None \<and> xenbus_transaction_start t = None \<and>
     register_xenbus_watch w t = None \<and> unregister_xenbus_watch w t = None \<and>
     (process_msg t = Some (err, v) \<longrightarrow> err = - ERESTARTSYS) \<and>
     (xs_resume t = Some u \<and> xs_ok t \<and> no_signal t \<longrightarrow>
        \<not> transaction_mutex u \<and> \<not> request_mutex u \<and> \<not> response_mutex u \<and> \<not> watch_mutex u \<and>
        watches u = watches t \<and> xs_sent u = xs_sent t @ concat (map (watch_request t) (watches t))) \<and>
     (answered (watches t) (t\<lparr>request_mutex := False\<rparr>) \<longrightarrow> (\<exists>u. xs_resume t = Some u))"
proof -
  have wt: "transaction_mutex x" if "wait_transactions fs y = Some x" "transaction_mutex y"
    "\<forall>f \<in> set fs. \<forall>s. transaction_mutex s \<longrightarrow> transaction_mutex (f s)" for fs y x
    using that by (induction fs y rule: wait_transactions.induct) (auto split: if_splits)
  obtain x where x: "wait_transactions others (s\<lparr>transaction_mutex := True\<rparr>) = Some x"
    and t: "t = x\<lparr>watch_mutex := True, request_mutex := True, response_mutex := True\<rparr>"
    using susp by (auto simp: xs_suspend_def transaction_suspend_def split: if_splits option.splits)
  have c: "transaction_count x = 0" "transaction_mutex x"
    using wait_transactions_zero [OF x] wt [OF x _ others] by auto
  have pm: "process_msg t = Some (err, v) \<Longrightarrow> err = - ERESTARTSYS"
    by (auto simp: process_msg_def t split: xb_wait_result.splits)
  let ?r = "transaction_resume (t\<lparr>response_mutex := False, request_mutex := False\<rparr>)"
  have r: "ring ?r = ring t" "ring_ev ?r = ring_ev t" "watches ?r = watches t" "watch_request ?r = watch_request t"
    by (auto simp: transaction_resume_def watch_request_def fun_eq_iff)
  have res: "\<not> transaction_mutex u \<and> \<not> request_mutex u \<and> \<not> response_mutex u \<and> \<not> watch_mutex u \<and>
        watches u = watches t \<and> xs_sent u = xs_sent t @ concat (map (watch_request t) (watches t))"
    if hyp: "xs_resume t = Some u" "xs_ok t" "no_signal t"
  proof -
    obtain y where y: "rewatch (watches t) ?r = Some y" "u = y\<lparr>watch_mutex := False\<rparr>"
      using hyp(1) unfolding xs_resume_def Let_def map_option_eq_Some r(3) by blast
    have "xs_ok ?r" "xs_sent ?r = xs_sent t" using hyp(2) xs_ok_ring [of ?r t] r by auto
    moreover have "no_signal ?r" using hyp(3) by (simp add: no_signal_def r(2))
    ultimately have f: "client y = client ?r" and p: "xs_sent y = xs_sent t @ concat (map (watch_request t) (watches t))"
      using rewatch_sent [OF y(1)] by (simp_all add: r(4))
    have "xs_sent u = xs_sent y" by (simp add: y(2) xs_sent_def)
    then show ?thesis using f p y(2) by (simp add: client_def transaction_resume_def)
  qed
  have ret: "\<exists>u. xs_resume t = Some u" if "answered (watches t) (t\<lparr>request_mutex := False\<rparr>)"
  proof -
    have "watch_request (t\<lparr>request_mutex := False\<rparr>) = watch_request t" by (simp add: watch_request_def fun_eq_iff)
    then have "answered (watches t) ?r"
      using that r(4) by (simp add: answered_def) (simp add: transaction_resume_def)
    then show ?thesis using rewatch_returns r(3) by (auto simp: xs_resume_def Let_def)
  qed
  show ?thesis
    using c pm res ret
    by (simp add: t xs_talkv_def xenbus_transaction_start_def transaction_start_def register_xenbus_watch_def
        unregister_xenbus_watch_def)
qed

theorem xs_suspend_quiesces_witness:
  "let s = xs_watch_example\<lparr>transaction_count := 1, watch_events := [],
       incoming := replicate 2 (\<lparr>m_type = XS_WATCH, req_id = 0, tx_id = 0, m_len = 3\<rparr>, bytes ''OK'' @ [0])\<rparr>
   in \<exists>t u. xs_suspend [transaction_end] s = Some t \<and> transaction_count t = 0 \<and> xs_resume t = Some u \<and>
     xs_sent u = xs_sent s @ watch_request s 4096 @ watch_request s 8192"
proof -
  let ?s = "xs_watch_example\<lparr>transaction_count := 1, watch_events := [],
       incoming := replicate 2 (\<lparr>m_type = XS_WATCH, req_id = 0, tx_id = 0, m_len = 3\<rparr>, bytes ''OK'' @ [0])\<rparr>"
  let ?t = "?s\<lparr>transaction_count := 0, transaction_mutex := True, watch_mutex := True, request_mutex := True, response_mutex := True\<rparr>"
  have t: "xs_suspend [transaction_end] ?s = Some ?t"
    by (simp add: xs_suspend_def transaction_suspend_def transaction_end_def xs_watch_example_def xs_example_def)
  have tok: "watch_token 8192 = [50, 48, 48, 48]"
    by (simp add: watch_token_def hex_nat.simps [of "_ :: nat"] hex_digit_def)
  have "answered (watches ?t) (?t\<lparr>request_mutex := False\<rparr>)"
    using xs_wf0 by (simp add: answered_def watch_request_def request_bytes_def xs_watch_example_def xs_example_def
        token_4096 tok xs_types hdr_bytes_def)
  moreover have "\<forall>f \<in> set [transaction_end]. \<forall>s. transaction_mutex s \<longrightarrow> transaction_mutex (f s)"
    by (simp add: transaction_end_def)
  ultimately obtain u where u: "xs_resume ?t = Some u" using xs_suspend_quiesces [OF t] by blast
  have "xs_ok ?t" "no_signal ?t" using xs_wf0 by (simp_all add: xs_ok_def no_signal_def xs_watch_example_def xs_example_def)
  then have "xs_sent u = xs_sent ?t @ concat (map (watch_request ?t) (watches ?t))"
    using xs_suspend_quiesces [OF t, where u = u] u by (simp add: transaction_end_def)
  moreover have "xs_sent ?t = xs_sent ?s" "watch_request ?t = watch_request ?s" "watches ?t = [4096, 8192]"
    by (simp_all add: xs_sent_def watch_request_def fun_eq_iff xs_watch_example_def)
  ultimately have "xs_sent u = xs_sent ?s @ watch_request ?s 4096 @ watch_request ?s 8192" by simp
  then show ?thesis using t u unfolding Let_def by (intro exI [of _ ?t] exI [of _ u]) simp
qed

text \<open>
  A limit of the reader: when memory for a payload is short, or its length is too large, the
  header has been consumed and the payload stays in the ring, where the next round takes it
  for a header.
\<close>

lemma process_msg_short_of_memory:
  assumes wf: "xs_wf (ring s)" and ev: "ring_ev s = []" "mem s = [True, False]" "\<not> response_mutex s"
    and msg: "in_bytes (ring s) = hdr_bytes h @ body" "m_len h \<le> XENSTORE_PAYLOAD_MAX"
  shows "\<exists>t. process_msg s = Some (- ENOMEM, t) \<and> in_bytes (ring t) = body"
proof -
  have "in_bytes (ring s) \<noteq> []" using msg(1) by (metis append_is_Nil_conv length_0_conv length_hdr_bytes zero_neq_numeral)
  then have d: "xb_data_to_read (ring s)" by (auto simp: xb_data_to_read_def ring_bytes_def)
  have w: "process_wait [] (ring s) = Ready (ring s) []"
    by (simp add: process_wait.simps [of "[]"] xb_wait_for_data_to_read_def d)
  obtain r1 where r1: "xb_read [] 16 [] (ring s) = Done 0 (hdr_bytes h) r1 []" "in_bytes r1 = body"
    using xb_read_fits [OF wf, of 16 "[]"] msg(1) by auto
  have m: "\<not> m_len h > XENSTORE_PAYLOAD_MAX" using msg(2) by simp
  show ?thesis using w r1 ev m by (simp add: process_msg_def xs_alloc_def xs_take_def Let_def)
qed

end
