(* ===== verification/Evtchn.thy ===== *)
theory Evtchn
  imports Xen_Prelude
begin

text \<open>
  Event channels of the platform device, \<^verbatim>\<open>xen-platform-pci/evtchn.c\<close>: binding ports to the
  driver's interrupt numbers and the interrupt handler's scan of the two-level pending bitmap.
  The mask and pending bitmaps are 64 words of 64 bits (\<open>NR_EVENT_CHANNELS\<close> = 4096). Locks are
  not modelled: each critical section is one step. What handlers and the hypervisor do while a
  handler runs is a list of state changes, one per handler call.
\<close>

section \<open>State\<close>

record irq_info =
  irq_handler :: "nat option"
  irq_dev_id :: nat
  irq_port :: nat
  irq_close :: bool
  irq_inuse :: bool
  in_handler :: bool

text \<open>
  \<open>hyp\<close> records the hypercalls. \<open>serviced\<close> and \<open>handled\<close> record the ports the interrupt
  handler has cleared, and the calls \<open>(irq, dev_id)\<close> of handlers it has made.
\<close>

datatype evtchn_op = EVTCHNOP_unmask nat | EVTCHNOP_close nat | EVTCHNOP_alloc_unbound nat | EVTCHNOP_send nat

record evtchn =
  irq_evtchn :: "irq_info list"
  evtchn_to_irq :: "nat \<Rightarrow> int"
  evtchn_pending :: "nat \<Rightarrow> u64"
  evtchn_mask :: "nat \<Rightarrow> u64"
  evtchn_upcall_pending :: bool
  evtchn_pending_sel :: u64
  last_processed_l1i :: nat
  last_processed_l2i :: nat
  hyp :: "evtchn_op list"
  serviced :: "nat list"
  handled :: "(nat \<times> nat) list"

definition NR_EVENT_CHANNELS :: nat where "NR_EVENT_CHANNELS = 4096"
definition BITS_PER_LONG :: nat where "BITS_PER_LONG = 64"

definition upd_irq :: "nat \<Rightarrow> (irq_info \<Rightarrow> irq_info) \<Rightarrow> evtchn \<Rightarrow> evtchn" where
  "upd_irq irq f s = s\<lparr>irq_evtchn := (irq_evtchn s)[irq := f (irq_evtchn s ! irq)]\<rparr>"

section \<open>Binding\<close>

definition alloc_xen_irq :: "evtchn \<Rightarrow> int \<times> evtchn" where
  "alloc_xen_irq s =
     (case find (\<lambda>irq. \<not> irq_inuse (irq_evtchn s ! irq)) [1..<length (irq_evtchn s)] of
        None \<Rightarrow> (- ENOSPC, s)
      | Some irq \<Rightarrow> (int irq, upd_irq irq (irq_inuse_update (\<lambda>_. True)) s))"

definition free_xen_irq :: "nat \<Rightarrow> evtchn \<Rightarrow> evtchn" where
  "free_xen_irq irq s = upd_irq irq (irq_inuse_update (\<lambda>_. False)) s"

definition irq_to_evtchn_port :: "nat \<Rightarrow> evtchn \<Rightarrow> nat" where
  "irq_to_evtchn_port irq s = irq_port (irq_evtchn s ! irq)"

definition port_word :: "nat \<Rightarrow> nat" where "port_word port = port div BITS_PER_LONG"
definition port_bit :: "nat \<Rightarrow> nat" where "port_bit port = port mod BITS_PER_LONG"

definition mask_evtchn :: "nat \<Rightarrow> evtchn \<Rightarrow> evtchn" where
  "mask_evtchn port s =
     s\<lparr>evtchn_mask := (evtchn_mask s)(port_word port := set_bit (port_bit port) (evtchn_mask s (port_word port)))\<rparr>"

text \<open>The hypervisor clears the mask bit, and raises the selector and the upcall if the port is pending.\<close>

definition unmask_evtchn :: "nat \<Rightarrow> evtchn \<Rightarrow> evtchn" where
  "unmask_evtchn port s =
     (let w = port_word port; b = port_bit port;
          s = s\<lparr>evtchn_mask := (evtchn_mask s)(w := unset_bit b (evtchn_mask s w)),
                hyp := hyp s @ [EVTCHNOP_unmask port]\<rparr>
      in if bit (evtchn_pending s w) b
         then s\<lparr>evtchn_pending_sel := set_bit w (evtchn_pending_sel s), evtchn_upcall_pending := True\<rparr>
         else s)"

definition bind_port :: "nat \<Rightarrow> nat \<Rightarrow> nat \<Rightarrow> nat \<Rightarrow> bool \<Rightarrow> evtchn \<Rightarrow> evtchn" where
  "bind_port irq port handler dev_id cl s =
     unmask_evtchn port
       (upd_irq irq (\<lambda>i. i\<lparr>irq_handler := Some handler, irq_dev_id := dev_id, irq_port := port, irq_close := cl\<rparr>)
          (s\<lparr>evtchn_to_irq := (evtchn_to_irq s)(port := int irq)\<rparr>))"

text \<open>\<open>alloc\<close> is the result of \<open>EVTCHNOP_alloc_unbound\<close> for the remote domain: an error, or a port.\<close>

definition bind_listening_port_to_irqhandler ::
    "(nat \<Rightarrow> int + nat) \<Rightarrow> nat \<Rightarrow> nat \<Rightarrow> nat \<Rightarrow> evtchn \<Rightarrow> int \<times> evtchn" where
  "bind_listening_port_to_irqhandler alloc remote_domain handler dev_id s =
     (case alloc_xen_irq s of (irq, s) \<Rightarrow>
        if irq < 0 then (irq, s)
        else let s = s\<lparr>hyp := hyp s @ [EVTCHNOP_alloc_unbound remote_domain]\<rparr>
        in case alloc remote_domain of
             Inl err \<Rightarrow> (err, free_xen_irq (nat irq) s)
           | Inr port \<Rightarrow> (irq, bind_port (nat irq) port handler dev_id True s))"

definition bind_caller_port_to_irqhandler :: "nat \<Rightarrow> nat \<Rightarrow> nat \<Rightarrow> evtchn \<Rightarrow> int \<times> evtchn" where
  "bind_caller_port_to_irqhandler caller_port handler dev_id s =
     (case alloc_xen_irq s of (irq, s) \<Rightarrow>
        if irq < 0 then (irq, s)
        else (irq, bind_port (nat irq) caller_port handler dev_id False s))"

text \<open>\<open>others\<close> is what other processors do while the call spins until the handler has returned.\<close>

fun wait_handler :: "(evtchn \<Rightarrow> evtchn) list \<Rightarrow> nat \<Rightarrow> evtchn \<Rightarrow> evtchn option" where
  "wait_handler [] irq s = (if in_handler (irq_evtchn s ! irq) then None else Some s)"
| "wait_handler (f # fs) irq s = (if in_handler (irq_evtchn s ! irq) then wait_handler fs irq (f s) else Some s)"

definition unbind_irq :: "nat \<Rightarrow> evtchn \<Rightarrow> evtchn" where
  "unbind_irq irq s =
     (let port = irq_port (irq_evtchn s ! irq);
          s = (if port \<noteq> 0
               then let s = mask_evtchn port (s\<lparr>evtchn_to_irq := (evtchn_to_irq s)(port := -1)\<rparr>)
                    in if irq_close (irq_evtchn s ! irq) then s\<lparr>hyp := hyp s @ [EVTCHNOP_close port]\<rparr> else s
               else s)
      in upd_irq irq (\<lambda>i. i\<lparr>irq_handler := None, irq_port := 0\<rparr>) s)"

definition unbind_from_irqhandler :: "(evtchn \<Rightarrow> evtchn) list \<Rightarrow> nat \<Rightarrow> evtchn \<Rightarrow> evtchn option" where
  "unbind_from_irqhandler others irq s =
     map_option (free_xen_irq irq) (wait_handler others irq (unbind_irq irq s))"

definition notify_remote_via_irq :: "nat \<Rightarrow> evtchn \<Rightarrow> evtchn" where
  "notify_remote_via_irq irq s =
     (let port = irq_port (irq_evtchn s ! irq)
      in if port \<noteq> 0 then s\<lparr>hyp := hyp s @ [EVTCHNOP_send port]\<rparr> else s)"

definition irq_resume :: "evtchn \<Rightarrow> evtchn" where
  "irq_resume s =
     (let s = fold mask_evtchn [0..<NR_EVENT_CHANNELS] s
      in s\<lparr>evtchn_to_irq := (\<lambda>p. if p < NR_EVENT_CHANNELS then -1 else evtchn_to_irq s p),
           irq_evtchn := map (irq_port_update (\<lambda>_. 0)) (irq_evtchn s)\<rparr>)"

text \<open>Every lock initialised; the platform interrupt requested, with its result.\<close>

definition xen_irq_init :: "int \<Rightarrow> evtchn \<Rightarrow> int \<times> evtchn" where
  "xen_irq_init request s = (request, s)"

section \<open>The interrupt handler\<close>

definition active_evtchns :: "evtchn \<Rightarrow> nat \<Rightarrow> u64" where
  "active_evtchns s idx = evtchn_pending s idx AND NOT (evtchn_mask s idx)"

text \<open>The least set bit, and the bits from \<open>i\<close> on.\<close>

definition ffs :: "u64 \<Rightarrow> nat" where
  "ffs w = (case find (bit w) [0..<64] of None \<Rightarrow> 0 | Some n \<Rightarrow> n)"

definition mask_low :: "u64 \<Rightarrow> nat \<Rightarrow> u64" where
  "mask_low w i = w AND push_bit i (NOT 0)"

definition clear_pending :: "nat \<Rightarrow> nat \<Rightarrow> evtchn \<Rightarrow> evtchn" where
  "clear_pending w b s =
     s\<lparr>evtchn_pending := (evtchn_pending s)(w := unset_bit b (evtchn_pending s w)),
       serviced := serviced s @ [w * BITS_PER_LONG + b]\<rparr>"

text \<open>One handler call; the next state change happens while it runs.\<close>

definition run_handler :: "nat \<Rightarrow> (evtchn \<Rightarrow> evtchn) list \<Rightarrow> evtchn \<Rightarrow> (evtchn \<Rightarrow> evtchn) list \<times> evtchn" where
  "run_handler irq env s =
     (let s = upd_irq irq (in_handler_update (\<lambda>_. True)) s;
          s = s\<lparr>handled := handled s @ [(irq, irq_dev_id (irq_evtchn s ! irq))]\<rparr>;
          s = (case env of [] \<Rightarrow> s | f # _ \<Rightarrow> f s)
      in (tl env, upd_irq irq (in_handler_update (\<lambda>_. False)) s))"

definition last_processed :: "nat \<Rightarrow> nat \<Rightarrow> evtchn \<Rightarrow> evtchn" where
  "last_processed l1i l2i s = s\<lparr>last_processed_l1i := l1i, last_processed_l2i := l2i\<rparr>"

text \<open>Servicing one port: no handler runs when the port is not bound.\<close>

definition service_port :: "nat \<Rightarrow> nat \<Rightarrow> (evtchn \<Rightarrow> evtchn) list \<Rightarrow> evtchn \<Rightarrow> (evtchn \<Rightarrow> evtchn) list \<times> evtchn" where
  "service_port l1i l2i env s =
     (let s = clear_pending l1i l2i s;
          irq = evtchn_to_irq s (l1i * BITS_PER_LONG + l2i)
      in if irq < 0 \<or> irq_handler (irq_evtchn s ! nat irq) = None then (env, s)
         else (case run_handler (nat irq) env s of (env, s) \<Rightarrow> (env, last_processed l1i l2i s)))"

definition popcount :: "u64 \<Rightarrow> nat" where "popcount w = card {n. n < 64 \<and> bit w n}"

lemma ffs_bit:
  assumes "w \<noteq> 0"
  shows "bit w (ffs w) \<and> ffs w < 64 \<and> (\<forall>n < ffs w. \<not> bit w n)"
proof -
  obtain n where "bit w n" "n < 64" using assms bit_eqI [of w 0] bit_imp_le_length [of w] by fastforce
  then obtain m where m: "find (bit w) [0..<64] = Some m"
    by (cases "find (bit w) [0..<64]") (auto simp: find_None_iff)
  then have "ffs w = m" by (simp add: ffs_def)
  then show ?thesis using m by (auto simp: find_Some_iff)
qed

lemma bit_mask_low: "bit (mask_low w i) n \<longleftrightarrow> bit w n \<and> i \<le> n"
  using bit_imp_le_length [of w n] by (auto simp: mask_low_def bit_simps)

lemma popcount_unset: "bit w b \<Longrightarrow> popcount (unset_bit b w) < popcount w"
proof -
  assume b: "bit w b"
  have "b < 64" using bit_imp_le_length [OF b] by simp
  have "{n. n < 64 \<and> bit (unset_bit b w) n} = {n. n < 64 \<and> bit w n} - {b}"
    by (auto simp: bit_unset_bit_iff)
  moreover have "b \<in> {n. n < 64 \<and> bit w n}" using b \<open>b < 64\<close> by simp
  ultimately show ?thesis unfolding popcount_def by (simp only: card_Diff1_less finite_Collect_conjI finite_Collect_less_nat simp_thms)
qed

lemma service_port_env: "service_port l1i l2i env s = (env', t) \<Longrightarrow>
  (env' = env \<and> t = clear_pending l1i l2i s \<or> env' = tl env \<and>
   (env = [] \<longrightarrow> evtchn_pending t = evtchn_pending (clear_pending l1i l2i s) \<and> evtchn_mask t = evtchn_mask s))"
  by (auto simp: service_port_def Let_def run_handler_def last_processed_def upd_irq_def clear_pending_def
      split: if_splits list.splits)

function scan_word :: "nat \<Rightarrow> nat \<Rightarrow> (evtchn \<Rightarrow> evtchn) list \<Rightarrow> evtchn \<Rightarrow> (evtchn \<Rightarrow> evtchn) list \<times> evtchn \<times> nat" where
  "scan_word l1i l2i env s =
     (let l2i = (l2i + 1) mod BITS_PER_LONG;
          masked_l2 = mask_low (active_evtchns s l1i) l2i
      in if masked_l2 = 0 then (env, s, BITS_PER_LONG - 1)
         else let l2i = ffs masked_l2
              in case service_port l1i l2i env s of (env, s) \<Rightarrow>
                   if l2i \<noteq> BITS_PER_LONG - 1 then scan_word l1i l2i env s else (env, s, l2i))"
  by pat_completeness auto
termination
proof (relation "measures [\<lambda>(l1i, l2i, env, s). length env, \<lambda>(l1i, l2i, env, s). popcount (evtchn_pending s l1i)]",
    goal_cases)
  case 1
  then show ?case by simp
next
  case (2 l1i l2i env s l2i' m l2 env' t)
  then have b: "bit (evtchn_pending s l1i) l2"
    using ffs_bit [of m] by (auto simp: bit_mask_low active_evtchns_def bit_simps)
  have "service_port l1i l2 env s = (env', t)" using 2 by simp
  from service_port_env [OF this] show ?case
    using popcount_unset [OF b] by (cases env) (auto simp: clear_pending_def)
qed

declare scan_word.simps [simp del]

definition total_pending :: "evtchn \<Rightarrow> nat" where
  "total_pending s = (\<Sum>w < 64. popcount (evtchn_pending s w))"

lemma total_pending_clear:
  assumes "bit (evtchn_pending s w) b" and "w < 64"
  shows "total_pending (clear_pending w b s) < total_pending s"
  unfolding total_pending_def
proof (rule sum_strict_mono_ex1)
  show "\<forall>x\<in>{..<64}. popcount (evtchn_pending (clear_pending w b s) x) \<le> popcount (evtchn_pending s x)"
    using popcount_unset [OF assms(1)] by (auto simp: clear_pending_def)
  show "\<exists>a\<in>{..<64}. popcount (evtchn_pending (clear_pending w b s) a) < popcount (evtchn_pending s a)"
    using popcount_unset [OF assms(1)] assms(2) by (auto simp: clear_pending_def intro!: bexI [of _ w])
qed simp

lemma service_port_progress:
  assumes run: "service_port w b env s = (env', t)" and b: "bit (evtchn_pending s w) b" and w: "w < 64"
  shows "length env' < length env \<or> length env' = length env \<and> total_pending t < total_pending s"
  using service_port_env [OF run] total_pending_clear [OF b w]
  by (cases env) (auto simp: total_pending_def)

lemma scan_word_progress:
  "scan_word w l2i env s = (env', t, l2) \<Longrightarrow> w < 64 \<Longrightarrow>
   length env' < length env \<or> length env' = length env \<and> total_pending t < total_pending s \<or>
   env' = env \<and> t = s \<and> l2 = 63 \<and> mask_low (active_evtchns s w) ((l2i + 1) mod 64) = 0"
proof (induction w l2i env s rule: scan_word.induct)
  case (1 w l2i env s)
  define m where "m = mask_low (active_evtchns s w) ((l2i + 1) mod 64)"
  show ?case
  proof (cases "m = 0")
    case True
    then show ?thesis using 1(2) by (simp add: scan_word.simps [of w l2i] m_def BITS_PER_LONG_def)
  next
    case False
    then have b: "bit (evtchn_pending s w) (ffs m)"
      using ffs_bit [of m] by (auto simp: m_def bit_mask_low active_evtchns_def bit_simps)
    obtain env1 s1 where s1: "service_port w (ffs m) env s = (env1, s1)" by (cases "service_port w (ffs m) env s")
    note pr = service_port_progress [OF s1 b 1(3)]
    show ?thesis
    proof (cases "ffs m = 63")
      case True
      then show ?thesis
        using 1(2) False pr s1 by (simp add: scan_word.simps [of w l2i] m_def BITS_PER_LONG_def Let_def)
    next
      case ne: False
      then have r: "scan_word w (ffs m) env1 s1 = (env', t, l2)"
        using 1(2) False s1 by (simp add: scan_word.simps [of w l2i] m_def BITS_PER_LONG_def Let_def)
      have "length env' < length env1 \<or> length env' = length env1 \<and> total_pending t < total_pending s1 \<or>
            env' = env1 \<and> t = s1"
        using 1(1) [OF refl m_def [folded BITS_PER_LONG_def] False refl s1 [symmetric] _ r 1(3)] ne
        by (auto simp: BITS_PER_LONG_def)
      then show ?thesis using pr by auto
    qed
  qed
qed

lemma popcount_mask: "bit l1 i \<Longrightarrow> popcount (unset_bit i l1) < popcount l1"
  by (rule popcount_unset)

function scan :: "u64 \<Rightarrow> nat \<Rightarrow> nat \<Rightarrow> (evtchn \<Rightarrow> evtchn) list \<Rightarrow> evtchn \<Rightarrow> (evtchn \<Rightarrow> evtchn) list \<times> evtchn" where
  "scan l1 l1i l2i env s =
     (if l1 = 0 then (env, s)
      else let l1i = (l1i + 1) mod BITS_PER_LONG; masked_l1 = mask_low l1 l1i
      in if masked_l1 = 0 then scan l1 (BITS_PER_LONG - 1) (BITS_PER_LONG - 1) env s
         else let l1i = ffs masked_l1
         in case scan_word l1i l2i env s of (env, s, l2i) \<Rightarrow>
              scan (if active_evtchns s l1i = 0 then unset_bit l1i l1 else l1) l1i l2i env s)"
  by pat_completeness auto
termination
proof (relation "measures [\<lambda>(l1, l1i, l2i, env, s). length env, \<lambda>(l1, l1i, l2i, env, s). total_pending s,
    \<lambda>(l1, l1i, l2i, env, s). popcount l1, \<lambda>(l1, l1i, l2i, env, s). if l2i = 63 then 0 else 1,
    \<lambda>(l1, l1i, l2i, env, s). if mask_low l1 ((l1i + 1) mod 64) = 0 then 1 else 0]", goal_cases)
  case 1
  then show ?case by simp
next
  case (2 l1 l1i l2i env s l1i' m)
  have "mask_low l1 0 = l1" by (rule bit_eqI) (simp add: bit_mask_low)
  then show ?case using 2 by (simp add: BITS_PER_LONG_def)
next
  case (3 l1 l1i l2i env s l1i' m w env' y t l2)
  have w: "w < 64" "bit l1 w" using ffs_bit [of m] 3 by (auto simp: bit_mask_low)
  have run: "scan_word w l2i env s = (env', t, l2)" using 3 by simp
  have pc: "popcount (if active_evtchns t w = 0 then unset_bit w l1 else l1) \<le> popcount l1"
    using popcount_unset [OF w(2)] by simp
  show ?case
  proof (cases "env' = env \<and> t = s \<and> l2 = 63 \<and> mask_low (active_evtchns s w) ((l2i + 1) mod 64) = 0")
    case np: True
    show ?thesis
    proof (cases "active_evtchns s w = 0")
      case True
      then show ?thesis using np popcount_unset [OF w(2)] by simp
    next
      case False
      have "mask_low (active_evtchns s w) 0 = active_evtchns s w" by (rule bit_eqI) (simp add: bit_mask_low)
      then have "l2i \<noteq> 63" using np False by auto
      then show ?thesis using np False by simp
    qed
  next
    case False
    then show ?thesis using scan_word_progress [OF run w(1)] by auto
  qed
qed

declare scan.simps [simp del]

definition evtchn_interrupt :: "(evtchn \<Rightarrow> evtchn) list \<Rightarrow> evtchn \<Rightarrow> evtchn" where
  "evtchn_interrupt env s =
     (let s = s\<lparr>evtchn_upcall_pending := False\<rparr>;
          l1 = evtchn_pending_sel s;
          s = s\<lparr>evtchn_pending_sel := 0\<rparr>
      in snd (scan l1 (last_processed_l1i s) (last_processed_l2i s) env s))"

end
