(* ===== verification/Evtchn_Props.thy ===== *)
theory Evtchn_Props
  imports Evtchn
begin

text \<open>
  Correctness of event channels: the interrupt handler services every pending port and calls
  exactly the bound handlers, and the tables stay consistent under binding and unbinding.
\<close>

section \<open>The scan\<close>

definition pend :: "evtchn \<Rightarrow> nat \<Rightarrow> bool" where
  "pend s p \<longleftrightarrow> bit (evtchn_pending s (port_word p)) (port_bit p)"

definition unmasked :: "evtchn \<Rightarrow> nat \<Rightarrow> bool" where
  "unmasked s p \<longleftrightarrow> \<not> bit (evtchn_mask s (port_word p)) (port_bit p)"

text \<open>The interrupt a port is bound to and its handler's argument.\<close>

definition binding :: "evtchn \<Rightarrow> nat \<Rightarrow> (nat \<times> nat) option" where
  "binding s p =
     (let irq = evtchn_to_irq s p
      in if irq < 0 \<or> irq_handler (irq_evtchn s ! nat irq) = None then None
         else Some (nat irq, irq_dev_id (irq_evtchn s ! nat irq)))"

text \<open>Between calls the hypervisor may only raise ports; the handlers bind and mask nothing.\<close>

definition raising :: "(evtchn \<Rightarrow> evtchn) \<Rightarrow> bool" where
  "raising f \<longleftrightarrow> (\<forall>s. evtchn_mask (f s) = evtchn_mask s \<and> binding (f s) = binding s \<and>
     serviced (f s) = serviced s \<and> handled (f s) = handled s \<and> (\<forall>p. pend s p \<longrightarrow> pend (f s) p) \<and>
     evtchn_to_irq (f s) = evtchn_to_irq s \<and>
     (\<forall>i. irq_handler (irq_evtchn (f s) ! i) = irq_handler (irq_evtchn s ! i) \<and>
          irq_dev_id (irq_evtchn (f s) ! i) = irq_dev_id (irq_evtchn s ! i)))"

definition served :: "evtchn \<Rightarrow> nat list \<Rightarrow> evtchn \<Rightarrow> bool" where
  "served s new t \<longleftrightarrow> serviced t = serviced s @ new \<and> handled t = handled s @ List.map_filter (binding s) new \<and>
     evtchn_mask t = evtchn_mask s \<and> binding t = binding s \<and>
     (\<forall>p. pend s p \<longrightarrow> p \<in> set new \<or> pend t p) \<and> (\<forall>p \<in> set new. unmasked s p)"

lemma map_filter_append: "List.map_filter f (xs @ ys) = List.map_filter f xs @ List.map_filter f ys"
  by (simp add: List.map_filter_def)

lemma served_refl: "served s [] s" by (simp add: served_def List.map_filter_simps)

lemma served_trans: "served s a t \<Longrightarrow> served t b u \<Longrightarrow> served s (a @ b) u"
  by (auto simp: served_def map_filter_append unmasked_def)

lemma flag_nth:
  "irq_handler (xs[i := in_handler_update f (xs ! i)] ! j) = irq_handler (xs ! j)"
  "irq_dev_id (xs[i := in_handler_update f (xs ! i)] ! j) = irq_dev_id (xs ! j)"
  by (cases "i < length xs"; cases "i = j"; simp add: list_update_beyond not_less)+

lemma binding_upd_flag [simp]:
  "irq_handler (irq_evtchn (upd_irq i (in_handler_update f) s) ! j) = irq_handler (irq_evtchn s ! j)"
  "irq_dev_id (irq_evtchn (upd_irq i (in_handler_update f) s) ! j) = irq_dev_id (irq_evtchn s ! j)"
  by (simp_all add: upd_irq_def flag_nth)

lemma upd_irq_sel [simp]:
  "evtchn_to_irq (upd_irq i f s) = evtchn_to_irq s" "evtchn_mask (upd_irq i f s) = evtchn_mask s"
  "evtchn_pending (upd_irq i f s) = evtchn_pending s" "serviced (upd_irq i f s) = serviced s"
  "handled (upd_irq i f s) = handled s"
  by (simp_all add: upd_irq_def)

lemma service_port_served:
  assumes run: "service_port w b env s = (env', t)" and env: "\<forall>f \<in> set env. raising f"
    and p: "b < 64" "bit (active_evtchns s w) b"
  shows "served s [w * 64 + b] t \<and> set env' \<subseteq> set env"
proof -
  let ?p = "w * 64 + b"
  have wb: "port_word ?p = w" "port_bit ?p = b"
    using p by (simp_all add: port_word_def port_bit_def BITS_PER_LONG_def)
  let ?c = "clear_pending w b s"
  have c: "serviced ?c = serviced s @ [?p]" "handled ?c = handled s" "evtchn_mask ?c = evtchn_mask s"
    "binding ?c = binding s" "evtchn_to_irq ?c = evtchn_to_irq s" "irq_evtchn ?c = irq_evtchn s"
    by (auto simp: clear_pending_def BITS_PER_LONG_def binding_def fun_eq_iff Let_def)
  have pc: "pend s q \<Longrightarrow> q \<noteq> ?p \<Longrightarrow> pend ?c q" for q
    using div_mult_mod_eq [of q 64]
    by (auto simp: pend_def clear_pending_def bit_unset_bit_iff port_word_def port_bit_def BITS_PER_LONG_def)
  have um: "unmasked s ?p" using p by (simp add: unmasked_def wb active_evtchns_def bit_simps)
  show ?thesis
  proof (cases "binding s ?p")
    case None
    then have "t = ?c" "env' = env" using run c
      by (auto simp: service_port_def Let_def BITS_PER_LONG_def binding_def split: if_splits prod.splits)
    then show ?thesis using c pc um None by (auto simp: served_def List.map_filter_simps)
  next
    case (Some x)
    let ?irq = "nat (evtchn_to_irq s ?p)"
    let ?d = "upd_irq ?irq (in_handler_update (\<lambda>_. True)) ?c"
    let ?e = "?d\<lparr>handled := handled ?d @ [(?irq, irq_dev_id (irq_evtchn ?d ! ?irq))]\<rparr>"
    let ?f = "case env of [] \<Rightarrow> ?e | f # _ \<Rightarrow> f ?e"
    have x: "x = (?irq, irq_dev_id (irq_evtchn s ! ?irq))"
      using Some by (auto simp: binding_def Let_def split: if_splits)
    have t: "t = last_processed w b (upd_irq ?irq (in_handler_update (\<lambda>_. False)) ?f)" "env' = tl env"
      using run Some c
      by (auto simp: service_port_def Let_def BITS_PER_LONG_def binding_def run_handler_def split: if_splits)
    have e: "serviced ?e = serviced s @ [?p]" "handled ?e = handled s @ [x]" "evtchn_mask ?e = evtchn_mask s"
      "binding ?e = binding s" "\<And>q. pend ?e q = pend ?c q"
      using c x by (auto simp: binding_def fun_eq_iff pend_def Let_def)
    have f: "serviced ?f = serviced s @ [?p]" "handled ?f = handled s @ [x]" "evtchn_mask ?f = evtchn_mask s"
      "binding ?f = binding s" "\<And>q. pend ?c q \<Longrightarrow> pend ?f q"
      using e env by (cases env; simp add: raising_def)+
    have "binding t = binding ?f" unfolding t
      by (rule ext) (simp add: binding_def last_processed_def Let_def)
    moreover have "pend t q = pend ?f q" for q unfolding t by (simp add: pend_def last_processed_def)
    moreover have "serviced t = serviced ?f" "handled t = handled ?f" "evtchn_mask t = evtchn_mask ?f"
      unfolding t by (simp_all add: last_processed_def)
    ultimately have "served s [?p] t"
      using f pc um Some by (auto simp: served_def List.map_filter_simps)
    then show ?thesis using t(2) by (cases env) auto
  qed
qed

lemma scan_word_served:
  "scan_word w l2i env s = (env', t, l2) \<Longrightarrow> \<forall>f \<in> set env. raising f \<Longrightarrow>
   \<exists>new. served s new t \<and> set env' \<subseteq> set env"
proof (induction w l2i env s rule: scan_word.induct)
  case (1 w l2i env s)
  define m where "m = mask_low (active_evtchns s w) ((l2i + 1) mod 64)"
  show ?case
  proof (cases "m = 0")
    case True
    then show ?thesis
      using 1(2) served_refl by (auto simp: scan_word.simps [of w l2i] m_def BITS_PER_LONG_def)
  next
    case False
    then have b: "ffs m < 64" "bit (active_evtchns s w) (ffs m)"
      using ffs_bit [of m] by (auto simp: m_def bit_mask_low)
    obtain env1 s1 where s1: "service_port w (ffs m) env s = (env1, s1)" by (cases "service_port w (ffs m) env s")
    note sv = service_port_served [OF s1 1(3) b]
    show ?thesis
    proof (cases "ffs m = 63")
      case True
      then show ?thesis
        using 1(2) False sv s1 by (auto simp: scan_word.simps [of w l2i] m_def BITS_PER_LONG_def Let_def)
    next
      case ne: False
      then have r: "scan_word w (ffs m) env1 s1 = (env', t, l2)"
        using 1(2) False s1 by (simp add: scan_word.simps [of w l2i] m_def BITS_PER_LONG_def Let_def)
      have "\<forall>f \<in> set env1. raising f" using sv 1(3) by auto
      then obtain new where "served s1 new t" "set env' \<subseteq> set env1"
        using 1(1) [OF refl m_def [folded BITS_PER_LONG_def] False refl s1 [symmetric] _ r] ne
        by (auto simp: BITS_PER_LONG_def)
      then show ?thesis using sv served_trans by blast
    qed
  qed
qed

lemma scan_served:
  "scan l1 l1i l2i env s = (env', t) \<Longrightarrow> \<forall>f \<in> set env. raising f \<Longrightarrow>
   \<exists>new. served s new t \<and> (\<forall>p. bit l1 (port_word p) \<and> pend s p \<and> unmasked s p \<longrightarrow> p \<in> set new)"
proof (induction l1 l1i l2i env s rule: scan.induct)
  case (1 l1 l1i l2i env s)
  define m where "m = mask_low l1 ((l1i + 1) mod 64)"
  show ?case
  proof (cases "l1 = 0")
    case True
    then have "t = s" using 1(3) by (simp add: scan.simps [of 0])
    then show ?thesis using True served_refl by auto
  next
    case l1: False
    show ?thesis
    proof (cases "m = 0")
      case True
      then show ?thesis
        using 1(1) [OF l1 refl m_def [folded BITS_PER_LONG_def]] 1(3,4) l1
        by (simp add: scan.simps [of l1 l1i] m_def BITS_PER_LONG_def Let_def)
    next
      case False
      define w where "w = ffs m"
      obtain env1 s1 l2 where s1: "scan_word w l2i env s = (env1, s1, l2)" by (cases "scan_word w l2i env s")
      define l1' where "l1' = (if active_evtchns s1 w = 0 then unset_bit w l1 else l1)"
      obtain new1 where n1: "served s new1 s1" "set env1 \<subseteq> set env" using scan_word_served [OF s1 1(4)] by blast
      have r: "scan l1' w l2 env1 s1 = (env', t)"
        using 1(3) l1 False s1 by (simp add: scan.simps [of l1 l1i] m_def w_def l1'_def BITS_PER_LONG_def Let_def split: if_splits)
      obtain new2 where n2: "served s1 new2 t"
        "\<forall>p. bit l1' (port_word p) \<and> pend s1 p \<and> unmasked s1 p \<longrightarrow> p \<in> set new2"
        using 1(2) [OF l1 refl m_def [folded BITS_PER_LONG_def] False w_def s1 [symmetric] refl,
            folded l1'_def, OF r] 1(4) n1(2) by auto
      have "p \<in> set (new1 @ new2)" if p: "bit l1 (port_word p)" "pend s p" "unmasked s p" for p
      proof (cases "p \<in> set new1")
        case nin: False
        then have ps: "pend s1 p" "unmasked s1 p"
          using n1(1) p by (auto simp: served_def unmasked_def)
        then have "bit (active_evtchns s1 (port_word p)) (port_bit p)"
          using bit_imp_le_length [of "evtchn_pending s1 (port_word p)" "port_bit p"]
          by (auto simp: active_evtchns_def pend_def unmasked_def bit_simps)
        then have "bit l1' (port_word p)" using p(1) by (auto simp: l1'_def bit_unset_bit_iff)
        then show ?thesis using n2(2) ps by simp
      qed simp
      then show ?thesis using served_trans [OF n1(1) n2(1)] by blast
    qed
  qed
qed

text \<open>
  C12: The interrupt handler misses nothing and always returns. While handlers run the
  hypervisor may raise any further ports. Every port that is pending and not masked in a
  word selected at entry is serviced before the handler returns; only unmasked ports are
  serviced; and the handler calls made are exactly those of the serviced ports that are
  bound, in the order of service, with the interrupt number and argument of the binding.
\<close>

theorem evtchn_interrupt_services:
  assumes "\<forall>f \<in> set env. raising f"
  shows "\<exists>new. serviced (evtchn_interrupt env s) = serviced s @ new \<and>
     (\<forall>p. bit (evtchn_pending_sel s) (port_word p) \<and> pend s p \<and> unmasked s p \<longrightarrow> p \<in> set new) \<and>
     (\<forall>p \<in> set new. unmasked s p) \<and>
     handled (evtchn_interrupt env s) = handled s @ List.map_filter (binding s) new"
proof -
  let ?s = "s\<lparr>evtchn_upcall_pending := False, evtchn_pending_sel := 0\<rparr>"
  obtain env' t where t: "scan (evtchn_pending_sel s) (last_processed_l1i s) (last_processed_l2i s) env ?s = (env', t)"
    by (cases "scan (evtchn_pending_sel s) (last_processed_l1i s) (last_processed_l2i s) env ?s")
  have "binding ?s = binding s" "\<And>p. pend ?s p = pend s p" "\<And>p. unmasked ?s p = unmasked s p"
    by (auto simp: binding_def pend_def unmasked_def fun_eq_iff Let_def)
  then show ?thesis
    using scan_served [OF t assms] t by (auto simp: evtchn_interrupt_def Let_def served_def)
qed

section \<open>The tables\<close>

definition evt_inv :: "evtchn \<Rightarrow> bool" where
  "evt_inv s \<longleftrightarrow> length (irq_evtchn s) = 256 \<and>
     (\<forall>p irq. evtchn_to_irq s p = int irq \<longrightarrow> 1 \<le> irq \<and> irq < 256 \<and> irq_port (irq_evtchn s ! irq) = p \<and>
        irq_inuse (irq_evtchn s ! irq) \<and> irq_handler (irq_evtchn s ! irq) \<noteq> None) \<and>
     (\<forall>irq. 1 \<le> irq \<and> irq < 256 \<and> irq_port (irq_evtchn s ! irq) \<noteq> 0 \<longrightarrow>
        evtchn_to_irq s (irq_port (irq_evtchn s ! irq)) = int irq)"

lemma evt_inv_irq:
  "evt_inv s \<Longrightarrow> evtchn_to_irq s p = int irq \<Longrightarrow>
   1 \<le> irq \<and> irq < 256 \<and> irq_port (irq_evtchn s ! irq) = p \<and>
   irq_inuse (irq_evtchn s ! irq) \<and> irq_handler (irq_evtchn s ! irq) \<noteq> None"
  unfolding evt_inv_def by blast

lemma evt_inv_port:
  "evt_inv s \<Longrightarrow> 1 \<le> irq \<Longrightarrow> irq < 256 \<Longrightarrow> irq_port (irq_evtchn s ! irq) \<noteq> 0 \<Longrightarrow>
   evtchn_to_irq s (irq_port (irq_evtchn s ! irq)) = int irq"
  unfolding evt_inv_def by blast

lemma evt_inv_len: "evt_inv s \<Longrightarrow> length (irq_evtchn s) = 256"
  unfolding evt_inv_def by blast

lemma alloc_xen_irq_ok:
  assumes inv: "evt_inv s"
  shows "case alloc_xen_irq s of (r, t) \<Rightarrow>
     if r < 0 then r = - ENOSPC \<and> t = s \<and> (\<forall>irq. 1 \<le> irq \<and> irq < 256 \<longrightarrow> irq_inuse (irq_evtchn s ! irq))
     else 1 \<le> nat r \<and> nat r < 256 \<and> \<not> irq_inuse (irq_evtchn s ! nat r) \<and> irq_port (irq_evtchn s ! nat r) = 0 \<and>
       t = upd_irq (nat r) (irq_inuse_update (\<lambda>_. True)) s"
proof (cases "find (\<lambda>irq. \<not> irq_inuse (irq_evtchn s ! irq)) [1..<length (irq_evtchn s)]")
  case None
  then have "alloc_xen_irq s = (- ENOSPC, s)" by (simp add: alloc_xen_irq_def)
  moreover have "\<forall>irq. 1 \<le> irq \<and> irq < 256 \<longrightarrow> irq_inuse (irq_evtchn s ! irq)"
    using None evt_inv_len [OF inv] by (simp add: find_None_iff)
  ultimately show ?thesis by simp
next
  case (Some irq)
  then have i: "1 \<le> irq" "irq < 256" "\<not> irq_inuse (irq_evtchn s ! irq)"
    using evt_inv_len [OF inv] by (auto simp: find_Some_iff)
  have "irq_port (irq_evtchn s ! irq) = 0"
    using evt_inv_port [OF inv i(1,2)] evt_inv_irq [OF inv] i(3) by blast
  moreover have "alloc_xen_irq s = (int irq, upd_irq irq (irq_inuse_update (\<lambda>_. True)) s)"
    using Some by (simp add: alloc_xen_irq_def)
  ultimately show ?thesis using i by simp
qed

lemma irq_nth [simp]:
  "length (irq_evtchn s) = 256 \<Longrightarrow> j < 256 \<Longrightarrow>
   irq_evtchn (upd_irq i f s) ! j = (if i = j then f (irq_evtchn s ! j) else irq_evtchn s ! j)"
  by (simp add: upd_irq_def nth_list_update)

lemma length_upd_irq [simp]: "length (irq_evtchn (upd_irq i f s)) = length (irq_evtchn s)"
  by (simp add: upd_irq_def)

lemma unmask_sel [simp]:
  "irq_evtchn (unmask_evtchn p s) = irq_evtchn s" "evtchn_to_irq (unmask_evtchn p s) = evtchn_to_irq s"
  "evtchn_pending (unmask_evtchn p s) = evtchn_pending s"
  "evtchn_mask (unmask_evtchn p s) =
     (evtchn_mask s)(port_word p := unset_bit (port_bit p) (evtchn_mask s (port_word p)))"
  by (simp_all add: unmask_evtchn_def Let_def)

lemma mask_sel [simp]:
  "irq_evtchn (mask_evtchn p s) = irq_evtchn s" "evtchn_to_irq (mask_evtchn p s) = evtchn_to_irq s"
  by (simp_all add: mask_evtchn_def)

lemma port_eq: "port_word p = port_word q \<and> port_bit p = port_bit q \<longleftrightarrow> p = q"
  unfolding port_word_def port_bit_def BITS_PER_LONG_def by (metis div_mult_mod_eq)

definition bound :: "nat \<Rightarrow> nat \<Rightarrow> nat \<Rightarrow> nat \<Rightarrow> evtchn \<Rightarrow> evtchn \<Rightarrow> bool" where
  "bound irq port handler dev_id s t \<longleftrightarrow> 1 \<le> irq \<and> irq < 256 \<and> \<not> irq_inuse (irq_evtchn s ! irq) \<and> evt_inv t \<and>
     binding t = (binding s)(port := Some (irq, dev_id)) \<and> unmasked t port \<and>
     irq_to_evtchn_port irq t = port \<and> (\<forall>q. q \<noteq> port \<longrightarrow> unmasked t q = unmasked s q)"

lemma bind_port_bound:
  assumes inv: "evt_inv s" and irq: "1 \<le> irq" "irq < 256" "\<not> irq_inuse (irq_evtchn s ! irq)"
    "irq_port (irq_evtchn s ! irq) = 0"
    and port: "port \<noteq> 0" "evtchn_to_irq s port < 0"
    and s': "evtchn_to_irq s' = evtchn_to_irq s" "irq_evtchn s' = irq_evtchn (upd_irq irq (irq_inuse_update (\<lambda>_. True)) s)"
      "evtchn_mask s' = evtchn_mask s"
  shows "bound irq port handler dev_id s (bind_port irq port handler dev_id cl s')"
proof -
  let ?t = "bind_port irq port handler dev_id cl s'"
  have len: "length (irq_evtchn s) = 256" using inv by (simp add: evt_inv_def)
  have len': "length (irq_evtchn s') = 256" using len s' by simp
  have ti: "evtchn_to_irq ?t = (evtchn_to_irq s)(port := int irq)" by (simp add: bind_port_def s')
  have tb: "irq_evtchn ?t ! j = (if j = irq
      then (irq_evtchn s ! irq)\<lparr>irq_inuse := True, irq_handler := Some handler, irq_dev_id := dev_id,
                               irq_port := port, irq_close := cl\<rparr>
      else irq_evtchn s ! j)" if "j < 256" for j
    using that len len' irq(2) by (auto simp: bind_port_def s')
  have other: "evtchn_to_irq s p \<noteq> int irq" for p
    using evt_inv_irq [OF inv, of p irq] irq(3) by blast
  have lt: "nat (evtchn_to_irq s p) < 256" if "evtchn_to_irq s p \<ge> 0" for p
    using evt_inv_irq [OF inv, of p "nat (evtchn_to_irq s p)"] that by simp
  have bind: "binding ?t = (binding s)(port := Some (irq, dev_id))"
  proof
    fix p show "binding ?t p = ((binding s)(port := Some (irq, dev_id))) p"
      using tb irq(2) lt [of p] other [of p] by (auto simp: binding_def ti Let_def)
  qed
  have "evt_inv ?t"
    unfolding evt_inv_def
  proof (intro conjI allI impI)
    show "length (irq_evtchn ?t) = 256" using len' by (simp add: bind_port_def)
  next
    fix p i assume a: "evtchn_to_irq ?t p = int i"
    have "1 \<le> i \<and> i < 256 \<and> irq_port (irq_evtchn ?t ! i) = p \<and> irq_inuse (irq_evtchn ?t ! i) \<and>
          irq_handler (irq_evtchn ?t ! i) \<noteq> None"
    proof (cases "p = port")
      case True
      then have "i = irq" using a by (simp add: ti)
      then show ?thesis using tb [OF irq(2)] irq True by simp
    next
      case False
      then have e: "evtchn_to_irq s p = int i" using a by (simp add: ti)
      then have "i \<noteq> irq" using other [of p] by auto
      then show ?thesis using evt_inv_irq [OF inv e] tb [of i] by simp
    qed
    then show "1 \<le> i" "i < 256" "irq_port (irq_evtchn ?t ! i) = p" "irq_inuse (irq_evtchn ?t ! i)"
      "irq_handler (irq_evtchn ?t ! i) \<noteq> None" by auto
  next
    fix i assume a: "1 \<le> i \<and> i < 256 \<and> irq_port (irq_evtchn ?t ! i) \<noteq> 0"
    show "evtchn_to_irq ?t (irq_port (irq_evtchn ?t ! i)) = int i"
    proof (cases "i = irq")
      case True
      then show ?thesis using tb [OF irq(2)] by (simp add: ti)
    next
      case False
      then have "evtchn_to_irq s (irq_port (irq_evtchn s ! i)) = int i"
        using a tb [of i] evt_inv_port [OF inv, of i] by simp
      then show ?thesis using False a tb [of i] port(2) by (auto simp: ti)
    qed
  qed
  moreover have "unmasked ?t q = (q = port \<or> unmasked s q)" for q
    using port_eq [of q port] by (auto simp: unmasked_def bind_port_def s' bit_unset_bit_iff)
  ultimately show ?thesis
    using bind irq tb [OF irq(2)] by (auto simp: bound_def irq_to_evtchn_port_def)
qed

lemma upd_irq_inuse_frame [simp]: "hyp (upd_irq i f s) = hyp s" by (simp add: upd_irq_def)

text \<open>
  C31: Binding. Binding an unbound port to a handler, whether the port is the caller's or one
  the hypervisor allocates, takes an interrupt number nobody uses, leaves every other
  port's binding and mask alone, unmasks the port, and keeps the tables consistent; it fails
  with \<open>-ENOSPC\<close> only when all 255 numbers are in use, and when the hypervisor refuses a port
  the number taken is given back.
\<close>

theorem evtchn_bind_ok:
  assumes inv: "evt_inv s" and port: "port \<noteq> 0" "evtchn_to_irq s port < 0"
  shows "(case bind_caller_port_to_irqhandler port handler dev_id s of (r, t) \<Rightarrow>
            if r < 0 then r = - ENOSPC \<and> t = s \<and> (\<forall>irq. 1 \<le> irq \<and> irq < 256 \<longrightarrow> irq_inuse (irq_evtchn s ! irq))
            else bound (nat r) port handler dev_id s t) \<and>
         (case bind_listening_port_to_irqhandler alloc rdom handler dev_id s of (r, t) \<Rightarrow>
            (case alloc rdom of
               Inl err \<Rightarrow> irq_evtchn t = irq_evtchn s \<and> evtchn_to_irq t = evtchn_to_irq s \<and> (r = err \<or> r = - ENOSPC)
             | Inr p \<Rightarrow> p = port \<and> 0 \<le> r \<longrightarrow> bound (nat r) port handler dev_id s t))"
proof -
  obtain r s1 where a: "alloc_xen_irq s = (r, s1)" by (cases "alloc_xen_irq s")
  note ok = alloc_xen_irq_ok [OF inv, unfolded a, simplified]
  show ?thesis
  proof (cases "r < 0")
    case True
    then show ?thesis
      using ok a by (auto simp: bind_caller_port_to_irqhandler_def bind_listening_port_to_irqhandler_def
          split: sum.splits)
  next
    case False
    let ?i = "nat r"
    have i: "1 \<le> ?i" "?i < 256" "\<not> irq_inuse (irq_evtchn s ! ?i)" "irq_port (irq_evtchn s ! ?i) = 0"
      and s1: "s1 = upd_irq ?i (irq_inuse_update (\<lambda>_. True)) s"
      using ok False by auto
    let ?s2 = "s1\<lparr>hyp := hyp s1 @ [EVTCHNOP_alloc_unbound rdom]\<rparr>"
    have b1: "bound ?i port handler dev_id s (bind_port ?i port handler dev_id False s1)"
      by (rule bind_port_bound [OF inv i port]) (simp_all add: s1)
    have b2: "bound ?i port handler dev_id s (bind_port ?i port handler dev_id True ?s2)"
      by (rule bind_port_bound [OF inv i port]) (simp_all add: s1)
    have undo: "irq_evtchn (free_xen_irq ?i ?s2) = irq_evtchn s"
    proof (rule nth_equalityI)
      show "length (irq_evtchn (free_xen_irq ?i ?s2)) = length (irq_evtchn s)"
        by (simp add: free_xen_irq_def s1)
      fix j assume "j < length (irq_evtchn (free_xen_irq ?i ?s2))"
      then have j: "j < 256" using evt_inv_len [OF inv] by (simp add: free_xen_irq_def s1)
      show "irq_evtchn (free_xen_irq ?i ?s2) ! j = irq_evtchn s ! j"
        using evt_inv_len [OF inv] j i(3) by (cases "irq_evtchn s ! j") (auto simp: free_xen_irq_def s1)
    qed
    have undo2: "evtchn_to_irq (free_xen_irq ?i ?s2) = evtchn_to_irq s" by (simp add: free_xen_irq_def s1)
    show ?thesis
      using a False b1 b2 undo undo2
      by (auto simp: bind_caller_port_to_irqhandler_def bind_listening_port_to_irqhandler_def Let_def
          split: sum.splits)
  qed
qed

text \<open>
  Unbinding. Unbinding the interrupt of a port whose handler is not running removes the
  port's binding, masks it, closes it exactly if it was allocated by binding, and frees the
  interrupt number, with every other binding and mask unchanged and the tables consistent;
  while the handler runs and nobody else acts, the call waits.
\<close>

theorem evtchn_unbind_ok:
  assumes inv: "evt_inv s" and port: "port \<noteq> 0" "evtchn_to_irq s port = int irq"
  shows "if in_handler (irq_evtchn s ! irq) then unbind_from_irqhandler [] irq s = None
     else \<exists>t. unbind_from_irqhandler [] irq s = Some t \<and> evt_inv t \<and> binding t = (binding s)(port := None) \<and>
       \<not> unmasked t port \<and> (\<forall>q. q \<noteq> port \<longrightarrow> unmasked t q = unmasked s q) \<and>
       \<not> irq_inuse (irq_evtchn t ! irq) \<and>
       hyp t = hyp s @ (if irq_close (irq_evtchn s ! irq) then [EVTCHNOP_close port] else [])"
proof -
  note i = evt_inv_irq [OF inv port(2)]
  note len = evt_inv_len [OF inv]
  let ?u = "unbind_irq irq s" and ?t = "free_xen_irq irq (unbind_irq irq s)"
  have ub: "irq_evtchn ?u ! irq = (irq_evtchn s ! irq)\<lparr>irq_handler := None, irq_port := 0\<rparr>"
    using i len port(1) by (simp add: unbind_irq_def Let_def mask_evtchn_def upd_irq_def)
  have tb: "irq_evtchn ?t ! j = (if j = irq then (irq_evtchn s ! irq)\<lparr>irq_handler := None, irq_port := 0, irq_inuse := False\<rparr>
      else irq_evtchn s ! j)" for j
    using i len port(1)
    by (simp add: unbind_irq_def Let_def mask_evtchn_def upd_irq_def free_xen_irq_def nth_list_update)
  have ti: "evtchn_to_irq ?t = (evtchn_to_irq s)(port := -1)"
    using i port(1) by (simp add: unbind_irq_def Let_def mask_evtchn_def upd_irq_def free_xen_irq_def)
  have tm: "evtchn_mask ?t = (evtchn_mask s)(port_word port := set_bit (port_bit port) (evtchn_mask s (port_word port)))"
    using i port(1) by (simp add: unbind_irq_def Let_def mask_evtchn_def upd_irq_def free_xen_irq_def)
  have th: "hyp ?t = hyp s @ (if irq_close (irq_evtchn s ! irq) then [EVTCHNOP_close port] else [])"
    using i port(1) by (simp add: unbind_irq_def Let_def mask_evtchn_def free_xen_irq_def)
  have only: "evtchn_to_irq s p = int irq \<longleftrightarrow> p = port" for p
    using evt_inv_irq [OF inv, of p irq] i port(2) by auto
  show ?thesis
  proof (cases "in_handler (irq_evtchn s ! irq)")
    case True
    then show ?thesis using ub by (simp add: unbind_from_irqhandler_def)
  next
    case False
    have "binding ?t = (binding s)(port := None)"
    proof
      fix p
      have "0 \<le> evtchn_to_irq s p \<Longrightarrow> p \<noteq> port \<Longrightarrow> nat (evtchn_to_irq s p) \<noteq> irq" using only [of p] by auto
      then show "binding ?t p = ((binding s)(port := None)) p"
        using tb by (auto simp: binding_def ti Let_def)
    qed
    moreover have "evt_inv ?t"
      unfolding evt_inv_def
    proof (intro conjI allI impI)
      show "length (irq_evtchn ?t) = 256" using len port(1) by (simp add: unbind_irq_def Let_def free_xen_irq_def)
    next
      fix p j assume a: "evtchn_to_irq ?t p = int j"
      then have e: "evtchn_to_irq s p = int j" "p \<noteq> port" by (auto simp: ti split: if_splits)
      then have "j \<noteq> irq" using only by auto
      then show "1 \<le> j" "j < 256" "irq_port (irq_evtchn ?t ! j) = p" "irq_inuse (irq_evtchn ?t ! j)"
        "irq_handler (irq_evtchn ?t ! j) \<noteq> None"
        using evt_inv_irq [OF inv e(1)] tb [of j] by simp_all
    next
      fix j assume a: "1 \<le> j \<and> j < 256 \<and> irq_port (irq_evtchn ?t ! j) \<noteq> 0"
      then have j: "j \<noteq> irq" using tb [of j] by auto
      then have "evtchn_to_irq s (irq_port (irq_evtchn s ! j)) = int j"
        using a tb [of j] evt_inv_port [OF inv, of j] by simp
      then show "evtchn_to_irq ?t (irq_port (irq_evtchn ?t ! j)) = int j"
        using j tb [of j] port(2) by (auto simp: ti)
    qed
    moreover have "unmasked ?t q = (q \<noteq> port \<and> unmasked s q)" for q
      using port_eq [of q port] bit_imp_le_length
      by (auto simp: unmasked_def tm bit_set_bit_iff port_bit_def BITS_PER_LONG_def)
    ultimately show ?thesis
      using False ub tb [of irq] th by (auto simp: unbind_from_irqhandler_def)
  qed
qed

section \<open>Witnesses\<close>

definition evtchn_example :: evtchn where
  "evtchn_example = \<lparr>irq_evtchn = replicate 256 \<lparr>irq_handler = None, irq_dev_id = 0, irq_port = 0, irq_close = False,
       irq_inuse = False, in_handler = False\<rparr>,
     evtchn_to_irq = (\<lambda>_. -1), evtchn_pending = (\<lambda>w. if w = 0 then 0x28 else 0), evtchn_mask = (\<lambda>_. 0),
     evtchn_upcall_pending = True, evtchn_pending_sel = 1, last_processed_l1i = 63, last_processed_l2i = 63,
     hyp = [], serviced = [], handled = []\<rparr>"

lemma evtchn_example_inv: "evt_inv evtchn_example"
  by (simp add: evt_inv_def evtchn_example_def)

theorem evtchn_bind_ok_witness:
  "bound 1 5 7 9 evtchn_example (snd (bind_caller_port_to_irqhandler 5 7 9 evtchn_example))"
proof -
  have "alloc_xen_irq evtchn_example = (1, upd_irq 1 (irq_inuse_update (\<lambda>_. True)) evtchn_example)"
    by (simp add: alloc_xen_irq_def evtchn_example_def upt_conv_Cons)
  then have "fst (bind_caller_port_to_irqhandler 5 7 9 evtchn_example) = 1"
    by (simp add: bind_caller_port_to_irqhandler_def)
  then show ?thesis
    using evtchn_bind_ok [OF evtchn_example_inv, of 5 7 9 "\<lambda>_. Inr 5" 0]
    by (auto simp: evtchn_example_def split: prod.splits)
qed

theorem evtchn_unbind_ok_witness:
  "\<exists>s t. unbind_from_irqhandler [] 1 s = Some t \<and> binding s 5 = Some (1, 9) \<and> binding t 5 = None"
proof -
  define s where "s = snd (bind_caller_port_to_irqhandler 5 7 9 evtchn_example)"
  have al: "alloc_xen_irq evtchn_example = (1, upd_irq 1 (irq_inuse_update (\<lambda>_. True)) evtchn_example)"
    by (simp add: alloc_xen_irq_def evtchn_example_def upt_conv_Cons)
  then have s: "s = bind_port 1 5 7 9 False (upd_irq 1 (irq_inuse_update (\<lambda>_. True)) evtchn_example)"
    by (simp add: s_def bind_caller_port_to_irqhandler_def)
  have b: "bound 1 5 7 9 evtchn_example s" unfolding s
    by (rule bind_port_bound [OF evtchn_example_inv]) (simp_all add: evtchn_example_def)
  have "evtchn_to_irq s 5 = int 1" "\<not> in_handler (irq_evtchn s ! 1)"
    unfolding s by (simp_all add: bind_port_def evtchn_example_def upd_irq_def)
  moreover have "evt_inv s" "binding s 5 = Some (1, 9)" using b by (auto simp: bound_def)
  ultimately obtain t where "unbind_from_irqhandler [] 1 s = Some t" "binding t = (binding s)(5 := None)"
    using evtchn_unbind_ok [of s 5 1] by auto
  then show ?thesis using \<open>binding s 5 = Some (1, 9)\<close> by (intro exI [of _ s] exI [of _ t]) simp
qed

theorem evtchn_interrupt_services_witness:
  "{3, 5} \<subseteq> set (serviced (evtchn_interrupt [] evtchn_example))"
proof -
  have "bit (0x28 :: u64) 3" "bit (0x28 :: u64) 5" by simp_all
  then have "pend evtchn_example 3" "pend evtchn_example 5" "unmasked evtchn_example 3" "unmasked evtchn_example 5"
    by (simp_all add: pend_def unmasked_def evtchn_example_def port_word_def port_bit_def BITS_PER_LONG_def)
  moreover have "port_word 3 = 0" "port_word 5 = 0" by (simp_all add: port_word_def BITS_PER_LONG_def)
  moreover have "bit (evtchn_pending_sel evtchn_example) 0" by (simp add: evtchn_example_def)
  ultimately show ?thesis using evtchn_interrupt_services [of "[]" evtchn_example] by auto
qed

end
