(* ===== verification/Xenbus_Client.thy ===== *)
theory Xenbus_Client
  imports Xenbus_Xs_Props Gnttab_Props
begin

text \<open>
  The helpers of \<^verbatim>\<open>xenbus_client.c\<close> that device drivers call: watches on paths, switching
  the device's state in the store, reporting errors, granting ring pages, event channels. The
  ring mapping functions of the file are for other builds. The state is the store client and
  the grant table together.
\<close>

section \<open>State\<close>

datatype xenbus_state =
  XenbusStateUnknown | XenbusStateInitialising | XenbusStateInitWait | XenbusStateInitialised
| XenbusStateConnected | XenbusStateClosing | XenbusStateClosed | XenbusStateReconfiguring
| XenbusStateReconfigured

fun state_num :: "xenbus_state \<Rightarrow> nat" where
  "state_num XenbusStateUnknown = 0"
| "state_num XenbusStateInitialising = 1"
| "state_num XenbusStateInitWait = 2"
| "state_num XenbusStateInitialised = 3"
| "state_num XenbusStateConnected = 4"
| "state_num XenbusStateClosing = 5"
| "state_num XenbusStateClosed = 6"
| "state_num XenbusStateReconfiguring = 7"
| "state_num XenbusStateReconfigured = 8"

definition xenbus_strstate :: "nat \<Rightarrow> string" where
  "xenbus_strstate n =
     (let name = [''Unknown'', ''Initialising'', ''InitWait'', ''Initialised'', ''Connected'',
                  ''Closing'', ''Closed'', ''Reconfiguring'', ''Reconfigured'']
      in if n < length name then name ! n else ''INVALID'')"

record xenbus_device =
  nodename :: "u8 list"
  otherend :: "u8 list"
  otherend_id :: u16
  dev_state :: xenbus_state
  dev_down :: bool

text \<open>\<open>scan_d\<close> is the kernel's \<open>sscanf\<close> with \<open>%d\<close>; \<open>print_d\<close> its \<open>%d\<close> in \<open>printf\<close>.\<close>

fun print_nat :: "nat \<Rightarrow> u8 list" where
  "print_nat n = (if n < 10 then [of_nat (48 + n)] else print_nat (n div 10) @ [of_nat (48 + n mod 10)])"

declare print_nat.simps [simp del]

definition print_d :: "int \<Rightarrow> u8 list" where
  "print_d i = (if i < 0 then bytes ''-'' @ print_nat (nat (- i)) else print_nat (nat i))"

section \<open>Reporting errors\<close>

definition error_path :: "xenbus_device \<Rightarrow> u8 list" where
  "error_path dev = bytes ''error/'' @ nodename dev"

text \<open>Both buffers are allocated in any case; a failure to write is only logged.\<close>

definition dev_error :: "xenbus_device \<Rightarrow> int \<Rightarrow> u8 list \<Rightarrow> xs \<Rightarrow> xs option" where
  "dev_error dev err msg s =
     (case xs_alloc s of (b1, s) \<Rightarrow>
        (case xs_alloc s of (b2, s) \<Rightarrow>
           if b1 \<and> b2
           then map_option snd (xenbus_write 0 (error_path dev) (bytes ''error'')
                                  (print_d (- err) @ bytes '' '' @ msg) s)
           else Some s))"

definition xenbus_dev_error :: "xenbus_device \<Rightarrow> int \<Rightarrow> u8 list \<Rightarrow> xs \<Rightarrow> xs option" where
  "xenbus_dev_error dev err msg s = dev_error dev err msg s"

section \<open>Switching state\<close>

text \<open>
  Requests consume replies, which bounds the retries: every round that starts a transaction
  has taken one off the schedule.
\<close>

definition replies :: "xs \<Rightarrow> nat" where "replies s = length (incoming s) + length (reply_list s)"

lemma store_msg_replies: "store_msg m s = Some (e, t) \<Longrightarrow> length (reply_list t) \<le> Suc (length (reply_list s))"
  using store_msg_frame [of m s e t] by auto

lemma read_reply_wait_replies:
  "read_reply_wait ns s = Some (m, t) \<Longrightarrow> replies t < length ns + length (reply_list s)"
proof (induction ns s rule: read_reply_wait.induct)
  case (1 s)
  then show ?case by (auto simp: replies_def split: list.splits)
next
  case (2 n ns s)
  show ?case
  proof (cases "reply_list s")
    case Nil
    then obtain e u where u: "store_msg n s = Some (e, u)" "read_reply_wait ns u = Some (m, t)"
      using 2(2) by (auto split: option.splits)
    then show ?thesis using 2(1) [OF Nil u(1) refl u(2)] store_msg_replies [OF u(1)] by simp
  next
    case (Cons a as)
    then show ?thesis using 2(2) by (auto simp: replies_def)
  qed
qed

lemma xs_talkv_replies:
  assumes "xs_talkv tid ty vs s = Some (r, t)"
  shows "replies t \<le> replies s \<and> (\<forall>x. r = Ok x \<longrightarrow> replies t < replies s)"
proof -
  obtain e u where u: "send_vecs xs_put (hdr_bytes (request_hdr tid ty vs) # vs) s = Some (e, u)"
    using assms by (auto simp: xs_talkv_def split: if_splits option.splits)
  have f: "replies u = replies s" using send_vecs_frame [OF u] by (simp add: replies_def)
  show ?thesis
  proof (cases "e = 0")
    case False
    then show ?thesis using assms u f by (auto simp: xs_talkv_def split: if_splits)
  next
    case True
    then obtain m where "read_reply u = Some (m, t)"
      using assms u by (auto simp: xs_talkv_def split: if_splits option.splits)
    then show ?thesis using read_reply_wait_replies [of "incoming u" u m t] f
      by (simp add: read_reply_def replies_def)
  qed
qed

lemma xs_alloc_replies: "xs_alloc s = (b, t) \<Longrightarrow> replies t = replies s"
  using xs_alloc_frame [of s b t] by (simp add: replies_def)

lemma transaction_start_replies:
  "xenbus_transaction_start s = Some (Ok t, u) \<Longrightarrow> replies u < replies s"
proof -
  assume run: "xenbus_transaction_start s = Some (Ok t, u)"
  then obtain x where x: "xs_single 0 XS_TRANSACTION_START [] (s\<lparr>transaction_count := transaction_count s + 1\<rparr>) = Some (Ok x, u)"
    by (auto simp: xenbus_transaction_start_def transaction_start_def split: if_splits option.splits res.splits)
  then show "replies u < replies s" using xs_talkv_replies by (fastforce simp: xs_single_def replies_def)
qed

lemma xenbus_scanf_replies: "xenbus_scanf t d n sc s = Some (r, u) \<Longrightarrow> replies u \<le> replies s"
proof -
  assume "xenbus_scanf t d n sc s = Some (r, u)"
  then obtain x where x: "xenbus_read t d n s = Some (x, u)"
    by (auto simp: xenbus_scanf_def split: option.splits res.splits prod.splits)
  then show ?thesis
    using xs_talkv_replies xs_alloc_replies
    by (fastforce simp: xenbus_read_def with_path_def xs_single_def split: prod.splits bool.splits)
qed

lemma xenbus_write_replies: "xenbus_write t d n v s = Some (r, u) \<Longrightarrow> replies u \<le> replies s"
  using xs_talkv_replies xs_alloc_replies
  by (fastforce simp: xenbus_write_def with_path_def split: prod.splits bool.splits dest!: xs_error_Some)

lemma xenbus_printf_replies: "xenbus_printf t d n v s = Some (r, u) \<Longrightarrow> replies u \<le> replies s"
  using xenbus_write_replies xs_alloc_replies
  by (fastforce simp: xenbus_printf_def split: prod.splits bool.splits)

lemma transaction_end_replies: "xenbus_transaction_end t ab s = Some (r, u) \<Longrightarrow> replies u \<le> replies s"
  using xs_talkv_replies
  by (fastforce simp: xenbus_transaction_end_def xs_single_def transaction_end_def replies_def dest!: xs_error_Some)

text \<open>
  \<open>fatal\<close> is \<open>xenbus_switch_fatal\<close> at the caller's depth: it gets the error and its message,
  and returns the device and the store client.
\<close>

type_synonym fatal = "int \<Rightarrow> u8 list \<Rightarrow> xenbus_device \<Rightarrow> xs \<Rightarrow> (xenbus_device \<times> xs) option"

text \<open>Inside the transaction: read the node's state, then write the new one; true is abort.\<close>

definition switch_body :: "fatal \<Rightarrow> (u8 list \<Rightarrow> int \<times> int) \<Rightarrow> u32 \<Rightarrow> xenbus_device \<Rightarrow> xenbus_state \<Rightarrow> xs \<Rightarrow>
    (bool \<times> xenbus_device \<times> xs) option" where
  "switch_body fatal scan_d xbt dev state s =
     (case xenbus_scanf xbt (nodename dev) (bytes ''state'') scan_d s of None \<Rightarrow> None
      | Some ((n, _), s) \<Rightarrow>
          if n \<noteq> 1 then Some (True, dev, s)
          else (case xenbus_printf xbt (nodename dev) (bytes ''state'') (print_d (int (state_num state))) s of
                  None \<Rightarrow> None
                | Some (err, s) \<Rightarrow>
                    if err \<noteq> 0
                    then map_option (\<lambda>(dev, s). (True, dev, s)) (fatal err (bytes ''writing new state'') dev s)
                    else Some (False, dev, s)))"

lemma switch_body_replies:
  "switch_body fatal scan_d xbt dev state s = Some (False, dev', t) \<Longrightarrow> replies t \<le> replies s"
  by (auto simp: switch_body_def split: option.splits if_splits
      dest!: xenbus_scanf_replies xenbus_printf_replies)

function switch_loop :: "fatal \<Rightarrow> (u8 list \<Rightarrow> int \<times> int) \<Rightarrow> xenbus_device \<Rightarrow> xenbus_state \<Rightarrow> xs \<Rightarrow>
    (xenbus_device \<times> xs) option" where
  "switch_loop fatal scan_d dev state s =
     (case xenbus_transaction_start s of None \<Rightarrow> None
      | Some (Err err, s) \<Rightarrow> fatal err (bytes ''starting transaction'') dev s
      | Some (Ok xbt, s) \<Rightarrow>
          (case switch_body fatal scan_d xbt dev state s of None \<Rightarrow> None
           | Some (abort, dev, s) \<Rightarrow>
               (case xenbus_transaction_end xbt abort s of None \<Rightarrow> None
                | Some (err, s) \<Rightarrow>
                    if err \<noteq> 0
                    then (if err = - EAGAIN \<and> \<not> abort then switch_loop fatal scan_d dev state s
                          else fatal err (bytes ''ending transaction'') dev s)
                    else Some (dev\<lparr>dev_state := state\<rparr>, s))))"
  by pat_completeness auto
termination
proof (relation "measure (\<lambda>(fatal, scan_d, dev, state, s). replies s)", goal_cases)
  case 1
  then show ?case by simp
next
  case (2 fatal scan_d dev state s x r s1 xbt y abort z dev' s2 w err s3)
  then show ?case
    using transaction_start_replies [of s xbt s1] switch_body_replies [of fatal scan_d xbt dev state s1 dev' s2]
      transaction_end_replies [of xbt abort s2 err s3]
    by simp
qed

declare switch_loop.simps [simp del]

definition switch_state_at :: "fatal \<Rightarrow> (u8 list \<Rightarrow> int \<times> int) \<Rightarrow> xenbus_device \<Rightarrow> xenbus_state \<Rightarrow> xs \<Rightarrow>
    (xenbus_device \<times> xs) option" where
  "switch_state_at fatal scan_d dev state s =
     (if state = dev_state dev then Some (dev, s) else switch_loop fatal scan_d dev state s)"

text \<open>Below the first level an error is only reported; at the first it also switches to Closing.\<close>

definition switch_fatal_deep :: fatal where
  "switch_fatal_deep err msg dev s = map_option (Pair dev) (dev_error dev err msg s)"

definition xenbus_switch_fatal :: "(u8 list \<Rightarrow> int \<times> int) \<Rightarrow> fatal" where
  "xenbus_switch_fatal scan_d err msg dev s =
     (case dev_error dev err msg s of None \<Rightarrow> None
      | Some s \<Rightarrow> switch_state_at switch_fatal_deep scan_d dev XenbusStateClosing s)"

text \<open>The result is 0 on every path.\<close>

definition xenbus_switch_state :: "(u8 list \<Rightarrow> int \<times> int) \<Rightarrow> xenbus_device \<Rightarrow> xenbus_state \<Rightarrow> xs \<Rightarrow>
    (int \<times> xenbus_device \<times> xs) option" where
  "xenbus_switch_state scan_d dev state s =
     map_option (Pair 0) (switch_state_at (xenbus_switch_fatal scan_d) scan_d dev state s)"

definition xenbus_frontend_closed :: "(u8 list \<Rightarrow> int \<times> int) \<Rightarrow> xenbus_device \<Rightarrow> xs \<Rightarrow>
    (int \<times> xenbus_device \<times> xs) option" where
  "xenbus_frontend_closed scan_d dev s =
     map_option (\<lambda>(_, dev, s). (0, dev\<lparr>dev_down := True\<rparr>, s))
       (xenbus_switch_state scan_d dev XenbusStateClosed s)"

definition xenbus_dev_fatal :: "(u8 list \<Rightarrow> int \<times> int) \<Rightarrow> xenbus_device \<Rightarrow> int \<Rightarrow> u8 list \<Rightarrow> xs \<Rightarrow>
    (xenbus_device \<times> xs) option" where
  "xenbus_dev_fatal scan_d dev err msg s =
     (case dev_error dev err msg s of None \<Rightarrow> None
      | Some s \<Rightarrow> map_option snd (xenbus_switch_state scan_d dev XenbusStateClosing s))"

section \<open>Watches on paths\<close>

text \<open>The empty path stands for \<open>NULL\<close>.\<close>

definition xenbus_watch_path :: "(u8 list \<Rightarrow> int \<times> int) \<Rightarrow> xenbus_device \<Rightarrow> u8 list \<Rightarrow> u64 \<Rightarrow> xs \<Rightarrow>
    (int \<times> xenbus_device \<times> xs) option" where
  "xenbus_watch_path scan_d dev path w s =
     (let s = s\<lparr>watch_data := (watch_data s)(w := (watch_data s w)\<lparr>watch_node := path\<rparr>)\<rparr>
      in case register_xenbus_watch w s of None \<Rightarrow> None
         | Some (err, s) \<Rightarrow>
             if err \<noteq> 0
             then map_option (Pair err)
                    (xenbus_dev_fatal scan_d dev err (bytes ''adding watch on '' @ path)
                       (s\<lparr>watch_data := (watch_data s)(w := (watch_data s w)\<lparr>watch_node := []\<rparr>)\<rparr>))
             else Some (0, dev, s))"

definition xenbus_watch_path2 :: "(u8 list \<Rightarrow> int \<times> int) \<Rightarrow> xenbus_device \<Rightarrow> u8 list \<Rightarrow> u8 list \<Rightarrow> u64 \<Rightarrow> xs \<Rightarrow>
    (int \<times> xenbus_device \<times> xs) option" where
  "xenbus_watch_path2 scan_d dev path path2 w s =
     (case xs_alloc s of
        (False, s) \<Rightarrow> map_option (Pair (- ENOMEM))
                        (xenbus_dev_fatal scan_d dev (- ENOMEM) (bytes ''allocating path for watch'') s)
      | (True, s) \<Rightarrow> xenbus_watch_path scan_d dev (path @ bytes ''/'' @ path2) w s)"

section \<open>Granting ring pages\<close>

definition xenbus_grant_ring :: "(u8 list \<Rightarrow> int \<times> int) \<Rightarrow> gnt_env \<Rightarrow> xenbus_device \<Rightarrow> u32 \<Rightarrow> xs \<times> gnttab \<Rightarrow>
    (int \<times> xenbus_device \<times> xs \<times> gnttab) option" where
  "xenbus_grant_ring scan_d e dev ring_mfn = (\<lambda>(s, g).
     case gnttab_grant_foreign_access e (otherend_id dev) ring_mfn 0 g of None \<Rightarrow> None
     | Some (err, g) \<Rightarrow>
         if err < 0
         then map_option (\<lambda>(dev, s). (err, dev, s, g))
                (xenbus_dev_fatal scan_d dev err (bytes ''granting access to ring page'') s)
         else Some (err, dev, s, g))"

text \<open>One page after the other, up to the first failure; the references obtained so far stay in \<open>refs\<close>.\<close>

fun grant_pages :: "(u8 list \<Rightarrow> int \<times> int) \<Rightarrow> gnt_env \<Rightarrow> nat \<Rightarrow> u32 list \<Rightarrow> int \<Rightarrow> nat list \<Rightarrow> xenbus_device \<Rightarrow> xs \<Rightarrow>
    gnttab \<Rightarrow> (int \<times> nat list \<times> xenbus_device \<times> xs \<times> gnttab) option" where
  "grant_pages scan_d e i [] err refs dev s g = Some (err, refs, dev, s, g)"
| "grant_pages scan_d e i (pfn # pages) err refs dev s g =
     (case gnttab_grant_foreign_access e (otherend_id dev) pfn 0 g of None \<Rightarrow> None
      | Some (err, g) \<Rightarrow>
          if err < 0
          then map_option (\<lambda>(dev, s). (err, refs, dev, s, g))
                 (xenbus_dev_fatal scan_d dev err (bytes ''granting access to ring page #'' @ print_nat i) s)
          else grant_pages scan_d e (i + 1) pages err (refs @ [nat err]) dev s g)"

definition xenbus_multi_grant_ring :: "(u8 list \<Rightarrow> int \<times> int) \<Rightarrow> gnt_env \<Rightarrow> u32 list \<Rightarrow> xenbus_device \<Rightarrow> xs \<Rightarrow>
    gnttab \<Rightarrow> (int \<times> nat list \<times> xenbus_device \<times> xs \<times> gnttab) option" where
  "xenbus_multi_grant_ring scan_d e pages dev s g = grant_pages scan_d e 0 pages (- EINVAL) [] dev s g"

section \<open>Event channels and peers\<close>

text \<open>\<open>op\<close> is the hypercall's result: an error, or the port.\<close>

definition xenbus_alloc_evtchn :: "(u8 list \<Rightarrow> int \<times> int) \<Rightarrow> (u16 \<Rightarrow> int + nat) \<Rightarrow> xenbus_device \<Rightarrow> xs \<Rightarrow>
    (int \<times> nat option \<times> xenbus_device \<times> xs) option" where
  "xenbus_alloc_evtchn scan_d op dev s =
     (case op (otherend_id dev) of
        Inl err \<Rightarrow> map_option (\<lambda>(dev, s). (err, None, dev, s))
                      (xenbus_dev_fatal scan_d dev err (bytes ''allocating event channel'') s)
      | Inr port \<Rightarrow> Some (0, Some port, dev, s))"

definition xenbus_free_evtchn :: "(nat \<Rightarrow> int) \<Rightarrow> xenbus_device \<Rightarrow> nat \<Rightarrow> xs \<Rightarrow> (int \<times> xs) option" where
  "xenbus_free_evtchn close dev port s =
     (let err = close port
      in if err \<noteq> 0
         then map_option (Pair err)
                (xenbus_dev_error dev err (bytes ''freeing event channel '' @ print_nat port) s)
         else Some (0, s))"

text \<open>The number read, or 0 (Unknown).\<close>

definition xenbus_read_driver_state :: "(u8 list \<Rightarrow> int \<times> int) \<Rightarrow> u8 list \<Rightarrow> xs \<Rightarrow> (int \<times> xs) option" where
  "xenbus_read_driver_state scan_d path s =
     map_option (\<lambda>((n, v), s). (if n \<noteq> 1 then 0 else (case v of None \<Rightarrow> 0 | Some r \<Rightarrow> r), s))
       (xenbus_scanf 0 path (bytes ''state'') scan_d s)"

section \<open>Properties\<close>

text \<open>Reporting an error and switching state leave the transaction count as it was.\<close>

lemma xenbus_write_client: "xenbus_write t d n v s = Some (r, u) \<Longrightarrow> client u = client s"
proof -
  assume run: "xenbus_write t d n v s = Some (r, u)"
  obtain b s1 where a: "xs_alloc s = (b, s1)" by (cases "xs_alloc s")
  show "client u = client s"
    using run a xs_alloc_frame [OF a] xs_talkv_frame
    by (cases b) (auto simp: xenbus_write_def with_path_def dest!: xs_error_Some)
qed

lemma dev_error_client: "dev_error dev err msg s = Some t \<Longrightarrow> client t = client s"
proof -
  assume run: "dev_error dev err msg s = Some t"
  obtain b1 s1 where a1: "xs_alloc s = (b1, s1)" by (cases "xs_alloc s")
  obtain b2 s2 where a2: "xs_alloc s1 = (b2, s2)" by (cases "xs_alloc s1")
  show "client t = client s"
    using run a1 a2 xs_alloc_frame [OF a1] xs_alloc_frame [OF a2] xenbus_write_client
    by (cases "b1 \<and> b2") (auto simp: dev_error_def)
qed

lemma xenbus_scanf_client: "xenbus_scanf t d n sc s = Some (r, u) \<Longrightarrow> client u = client s"
proof -
  assume run: "xenbus_scanf t d n sc s = Some (r, u)"
  then obtain x where x: "xenbus_read t d n s = Some (x, u)"
    by (auto simp: xenbus_scanf_def split: option.splits res.splits prod.splits)
  obtain b s1 where a: "xs_alloc s = (b, s1)" by (cases "xs_alloc s")
  show "client u = client s"
    using x a xs_alloc_frame [OF a] xs_talkv_frame
    by (cases b) (auto simp: xenbus_read_def with_path_def xs_single_def)
qed

lemma xenbus_printf_client: "xenbus_printf t d n v s = Some (r, u) \<Longrightarrow> client u = client s"
proof -
  assume run: "xenbus_printf t d n v s = Some (r, u)"
  obtain b s1 where a: "xs_alloc s = (b, s1)" by (cases "xs_alloc s")
  show "client u = client s"
    using run a xs_alloc_frame [OF a] xenbus_write_client by (cases b) (auto simp: xenbus_printf_def)
qed

lemma start_end_count:
  "xenbus_transaction_start s = Some (r, t) \<Longrightarrow>
     transaction_count t = transaction_count s + (case r of Ok _ \<Rightarrow> 1 | Err _ \<Rightarrow> 0)"
  "xenbus_transaction_end xbt abort s = Some (err, u) \<Longrightarrow> transaction_count u = transaction_count s - 1"
  by (rule transaction_start_count, assumption, rule transaction_end_count, assumption)

definition keeps_count :: "fatal \<Rightarrow> bool" where
  "keeps_count fatal \<longleftrightarrow> (\<forall>err msg dev s dev' t. fatal err msg dev s = Some (dev', t) \<longrightarrow>
     transaction_count t = transaction_count s \<and> dev'\<lparr>dev_state := dev_state dev\<rparr> = dev)"

lemma dev_state_trans:
  "d2\<lparr>dev_state := dev_state d1\<rparr> = d1 \<Longrightarrow> d3\<lparr>dev_state := dev_state d2\<rparr> = d2 \<Longrightarrow>
   d3\<lparr>dev_state := dev_state d1\<rparr> = d1"
  by (cases d1; cases d2; cases d3) simp

lemma switch_body_count:
  assumes fatal: "keeps_count fatal"
    and run: "switch_body fatal scan_d xbt dev state s = Some (abort, dev', t)"
  shows "transaction_count t = transaction_count s \<and> dev'\<lparr>dev_state := dev_state dev\<rparr> = dev"
proof -
  obtain n v s1 where s1: "xenbus_scanf xbt (nodename dev) (bytes ''state'') scan_d s = Some ((n, v), s1)"
    using run by (auto simp: switch_body_def split: option.splits)
  have c1: "transaction_count s1 = transaction_count s"
    using xenbus_scanf_client [OF s1] by (simp add: client_def)
  show ?thesis
  proof (cases "n = 1")
    case False
    then show ?thesis using run s1 c1 by (simp add: switch_body_def)
  next
    case True
    then obtain err s2 where
      s2: "xenbus_printf xbt (nodename dev) (bytes ''state'') (print_d (int (state_num state))) s1 = Some (err, s2)"
      using run s1 by (auto simp: switch_body_def split: option.splits)
    have c2: "transaction_count s2 = transaction_count s1"
      using xenbus_printf_client [OF s2] by (simp add: client_def)
    show ?thesis
      using run s1 s2 True c1 c2 fatal
      by (cases "err = 0") (auto simp: switch_body_def keeps_count_def)
  qed
qed

lemma switch_loop_count:
  "keeps_count fatal \<Longrightarrow> switch_loop fatal scan_d dev state s = Some (dev', t) \<Longrightarrow>
   transaction_count t = transaction_count s \<and> dev'\<lparr>dev_state := dev_state dev\<rparr> = dev"
proof (induction fatal scan_d dev state s rule: switch_loop.induct)
  case (1 fatal scan_d dev state s)
  obtain r s1 where s1: "xenbus_transaction_start s = Some (r, s1)"
    using 1(3) by (auto simp: switch_loop.simps [of fatal scan_d dev state s] split: option.splits)
  have c1: "transaction_count s1 = transaction_count s + (case r of Ok _ \<Rightarrow> 1 | Err _ \<Rightarrow> 0)"
    using start_end_count s1 by blast
  show ?case
  proof (cases r)
    case (Err err)
    then show ?thesis
      using 1(2,3) s1 c1 by (auto simp: switch_loop.simps [of fatal scan_d dev state s] keeps_count_def)
  next
    case (Ok xbt)
    then obtain abort d2 s2 where s2: "switch_body fatal scan_d xbt dev state s1 = Some (abort, d2, s2)"
      using 1(3) s1 by (auto simp: switch_loop.simps [of fatal scan_d dev state s] split: option.splits)
    note b = switch_body_count [OF 1(2) s2]
    obtain err s3 where s3: "xenbus_transaction_end xbt abort s2 = Some (err, s3)"
      using 1(3) s1 Ok s2 by (auto simp: switch_loop.simps [of fatal scan_d dev state s] split: option.splits)
    have c3: "transaction_count s3 = transaction_count s2 - 1" using start_end_count s3 by blast
    have c: "transaction_count s3 = transaction_count s" using b c1 c3 Ok by simp
    show ?thesis
    proof (cases "err = 0")
      case True
      then show ?thesis
        using 1(3) s1 Ok s2 s3 c b by (auto simp: switch_loop.simps [of fatal scan_d dev state s])
    next
      case err: False
      show ?thesis
      proof (cases "err = - EAGAIN \<and> \<not> abort")
        case True
        then have "switch_loop fatal scan_d d2 state s3 = Some (dev', t)"
          using 1(3) s1 Ok s2 s3 by (simp add: switch_loop.simps [of fatal scan_d dev state s])
        moreover have "abort = False" using True by simp
        ultimately have "transaction_count t = transaction_count s3 \<and> dev'\<lparr>dev_state := dev_state d2\<rparr> = d2"
          using 1(1) [OF s1 refl Ok s2 refl refl s3 refl err True 1(2)] by blast
        then show ?thesis using c b dev_state_trans by auto
      next
        case False
        then have "fatal err (bytes ''ending transaction'') d2 s3 = Some (dev', t)"
          using 1(3) s1 Ok s2 s3 err by (auto simp: switch_loop.simps [of fatal scan_d dev state s] split: if_splits)
        then have "transaction_count t = transaction_count s3 \<and> dev'\<lparr>dev_state := dev_state d2\<rparr> = d2"
          using 1(2) unfolding keeps_count_def by blast
        then show ?thesis using c b dev_state_trans by auto
      qed
    qed
  qed
qed

lemma switch_fatal_deep_count: "keeps_count switch_fatal_deep"
  using dev_error_client by (fastforce simp: keeps_count_def switch_fatal_deep_def client_def)

lemma switch_state_at_count:
  "keeps_count fatal \<Longrightarrow> switch_state_at fatal scan_d dev state s = Some (dev', t) \<Longrightarrow>
   transaction_count t = transaction_count s \<and> dev'\<lparr>dev_state := dev_state dev\<rparr> = dev"
  using switch_loop_count by (auto simp: switch_state_at_def split: if_splits)

lemma xenbus_switch_fatal_count: "keeps_count (xenbus_switch_fatal scan_d)"
  unfolding keeps_count_def
proof (intro allI impI)
  fix err msg dev s dev' t
  assume run: "xenbus_switch_fatal scan_d err msg dev s = Some (dev', t)"
  then obtain u where u: "dev_error dev err msg s = Some u"
    "switch_state_at switch_fatal_deep scan_d dev XenbusStateClosing u = Some (dev', t)"
    by (auto simp: xenbus_switch_fatal_def split: option.splits)
  show "transaction_count t = transaction_count s \<and> dev'\<lparr>dev_state := dev_state dev\<rparr> = dev"
    using dev_error_client [OF u(1)] switch_state_at_count [OF switch_fatal_deep_count u(2)]
    by (simp add: client_def)
qed

text \<open>
  C32: Switching a device's state closes every transaction it opens, through retries and error
  reports, so the count a suspend waits for is unchanged; it never changes anything of the
  device but its state; and it does nothing at all when the state is the cached one already.
\<close>

theorem xenbus_switch_state_balanced:
  assumes "xenbus_switch_state scan_d dev state s = Some (r, dev', t)"
  shows "transaction_count t = transaction_count s \<and> dev'\<lparr>dev_state := dev_state dev\<rparr> = dev \<and>
     (state = dev_state dev \<longrightarrow> dev' = dev \<and> t = s)"
proof -
  have run: "switch_state_at (xenbus_switch_fatal scan_d) scan_d dev state s = Some (dev', t)"
    using assms by (auto simp: xenbus_switch_state_def)
  show ?thesis
    using switch_state_at_count [OF xenbus_switch_fatal_count run] run
    by (auto simp: switch_state_at_def)
qed

text \<open>Replies on their way, and room for \<open>n\<close> bytes of requests.\<close>

definition ready :: "nat \<Rightarrow> (xsd_sockmsg \<times> u8 list) list \<Rightarrow> xs \<Rightarrow> bool" where
  "ready n ms s \<longleftrightarrow> xs_wf (ring s) \<and> ring_ev s = [] \<and> mem s = [] \<and> reply_list s = [] \<and> \<not> request_mutex s \<and>
     n + length (out_bytes (ring s)) \<le> 1024 \<and> incoming s = ms \<and>
     (\<forall>m \<in> set ms. m_type (fst m) \<noteq> XS_WATCH_EVENT)"

lemma talk_ready:
  assumes r: "ready n (m # ms) s" and n: "16 + length (concat vs) + k \<le> n"
  shows "\<exists>t. xs_talkv tid ty vs s = Some (talkv_result ty m, t) \<and> ready k ms t \<and> client t = client s \<and>
     out_bytes (ring t) = out_bytes (ring s) @ request_bytes tid ty vs"
proof -
  obtain q where q: "send_vecs xs_put (hdr_bytes (request_hdr tid ty vs) # vs) s = Some (0, s\<lparr>ring := q\<rparr>)"
    "out_bytes q = out_bytes (ring s) @ request_bytes tid ty vs" "xs_wf q"
    using send_vecs_fits [of s "hdr_bytes (request_hdr tid ty vs) # vs"] r n
    by (auto simp: ready_def request_bytes_def)
  have rr: "read_reply (s\<lparr>ring := q\<rparr>) = Some (m, s\<lparr>ring := q, reply_list := [], incoming := ms\<rparr>)"
    using r by (cases ms) (auto simp: ready_def read_reply_def store_msg_def)
  have "length (out_bytes q) = length (out_bytes (ring s)) + (16 + length (concat vs))"
    by (simp only: q(2) request_bytes_def length_append length_hdr_bytes)
  then have k: "ready k ms (s\<lparr>ring := q, reply_list := [], incoming := ms\<rparr>)" using r n q(3) by (simp add: ready_def)
  have "\<not> request_mutex s" using r by (simp add: ready_def)
  then show ?thesis using k q rr by (simp add: xs_talkv_def client_def del: send_vecs.simps)
qed

lemma ready_alloc: "ready n ms s \<Longrightarrow> xs_alloc s = (True, s)" by (simp add: ready_def xs_alloc_def)

lemma ready_count: "ready n ms (s\<lparr>transaction_count := c\<rparr>) = ready n ms s" by (simp add: ready_def)

lemma switch_state_commits:
  assumes rdy: "ready n [m1, m2, m3, m4] s" and ne: "state \<noteq> dev_state dev" and nm: "\<not> transaction_mutex s"
    and m: "talkv_result XS_TRANSACTION_START m1 = Ok (id_str, l1)" "talkv_result XS_READ m2 = Ok (val, l2)"
      "talkv_result XS_WRITE m3 = Ok (w, l3)" "talkv_result XS_TRANSACTION_END m4 = Ok (c, l4)"
    and scan: "scan_d (cstr val) = (1, cur)"
    and path: "path = join (nodename dev) (bytes ''state'')" and x: "x = ucast (simple_strtoul 0 (cstr id_str))"
    and num: "num = print_d (int (state_num state))"
    and n: "69 + 2 * length path + length num \<le> n"
  shows "\<exists>t. xenbus_switch_state scan_d dev state s = Some (0, dev\<lparr>dev_state := state\<rparr>, t) \<and>
     transaction_count t = transaction_count s \<and>
     out_bytes (ring t) = out_bytes (ring s) @ request_bytes 0 XS_TRANSACTION_START [[0]] @
       request_bytes x XS_READ [path @ [0]] @ request_bytes x XS_WRITE [path @ [0], num] @
       request_bytes x XS_TRANSACTION_END [bytes ''T'' @ [0]]"
proof -
  let ?s0 = "s\<lparr>transaction_count := transaction_count s + 1\<rparr>"
  have r0: "ready n [m1, m2, m3, m4] ?s0" using rdy by (simp add: ready_def)
  obtain s1 where s1: "xs_talkv 0 XS_TRANSACTION_START [[0]] ?s0 = Some (Ok (id_str, l1), s1)"
    "ready (n - 17) [m2, m3, m4] s1" "client s1 = client ?s0"
    "out_bytes (ring s1) = out_bytes (ring s) @ request_bytes 0 XS_TRANSACTION_START [[0]]"
    using talk_ready [OF r0, of "[[0]]" "n - 17" 0 XS_TRANSACTION_START] n m(1) by auto
  have t1: "xenbus_transaction_start s = Some (Ok x, s1)"
    using nm s1(1) by (simp add: xenbus_transaction_start_def transaction_start_def xs_single_def x)
  obtain s2 where s2: "xs_talkv x XS_READ [path @ [0]] s1 = Some (Ok (val, l2), s2)"
    "ready (n - 34 - length path) [m3, m4] s2" "client s2 = client s1"
    "out_bytes (ring s2) = out_bytes (ring s1) @ request_bytes x XS_READ [path @ [0]]"
    using talk_ready [OF s1(2), of "[path @ [0]]" "n - 34 - length path" x XS_READ] n m(2) by auto
  have t2: "xenbus_scanf x (nodename dev) (bytes ''state'') scan_d s1 = Some ((1, Some cur), s2)"
    using s2(1) scan
    by (simp add: xenbus_scanf_def xenbus_read_def with_path_def ready_alloc [OF s1(2)] xs_single_def path)
  have room: "16 + length (concat [path @ [0], num]) + 18 \<le> n - 34 - length path" using n by simp
  obtain s3 where s3: "xs_talkv x XS_WRITE [path @ [0], num] s2 = Some (Ok (w, l3), s3)"
    "ready 18 [m4] s3" "client s3 = client s2"
    "out_bytes (ring s3) = out_bytes (ring s2) @ request_bytes x XS_WRITE [path @ [0], num]"
    using talk_ready [OF s2(2) room, of x XS_WRITE] m(3) by auto
  have t3: "xenbus_printf x (nodename dev) (bytes ''state'') num s2 = Some (0, s3)"
    using s3(1) by (simp add: xenbus_printf_def xenbus_write_def with_path_def ready_alloc [OF s2(2)] xs_error_def path)
  have b: "switch_body (xenbus_switch_fatal scan_d) scan_d x dev state s1 = Some (False, dev, s3)"
    using t2 t3 by (simp add: switch_body_def num)
  have lt: "16 + length (concat [bytes ''T'' @ [0]]) + 0 \<le> 18" by (simp add: bytes_def)
  obtain s4 where s4: "xs_talkv x XS_TRANSACTION_END [bytes ''T'' @ [0]] s3 = Some (Ok (c, l4), s4)"
    "client s4 = client s3"
    "out_bytes (ring s4) = out_bytes (ring s3) @ request_bytes x XS_TRANSACTION_END [bytes ''T'' @ [0]]"
    using talk_ready [OF s3(2) lt, of x XS_TRANSACTION_END] m(4) by auto
  have t4: "xenbus_transaction_end x False s3 = Some (0, transaction_end s4)"
    using s4(1) by (simp add: xenbus_transaction_end_def xs_single_def xs_error_def)
  have run: "xenbus_switch_state scan_d dev state s = Some (0, dev\<lparr>dev_state := state\<rparr>, transaction_end s4)"
    using ne t1 b t4
    by (simp add: xenbus_switch_state_def switch_state_at_def switch_loop.simps [of _ scan_d dev state s])
  have "transaction_count s4 = transaction_count s + 1"
    using s1(3) s2(3) s3(3) s4(2) by (simp add: client_def)
  then show ?thesis
    using run s1(4) s2(4) s3(4) s4(3) by (simp add: transaction_end_def)
qed

text \<open>
  C23: A device announces its state. When the daemon grants a transaction, answers the read of
  the node's present state, accepts the write and commits, \<open>xenbus_switch_state\<close> returns with
  the new state cached, and has put exactly four requests on the wire: start, read of
  \<open>nodename/state\<close>, write of the new state in decimal, and commit, the last three under the
  transaction's id.
\<close>

theorem xenbus_switch_state_announces:
  assumes rdy: "ready n [m1, m2, m3, m4] s" and ne: "state \<noteq> dev_state dev" and nm: "\<not> transaction_mutex s"
    and m: "talkv_result XS_TRANSACTION_START m1 = Ok (id_str, l1)" "talkv_result XS_READ m2 = Ok (val, l2)"
      "talkv_result XS_WRITE m3 = Ok (w, l3)" "talkv_result XS_TRANSACTION_END m4 = Ok (c, l4)"
    and scan: "scan_d (cstr val) = (1, cur)"
    and path: "path = join (nodename dev) (bytes ''state'')" and x: "x = ucast (simple_strtoul 0 (cstr id_str))"
    and num: "num = print_d (int (state_num state))"
    and n: "69 + 2 * length path + length num \<le> n"
  shows "\<exists>t. xenbus_switch_state scan_d dev state s = Some (0, dev\<lparr>dev_state := state\<rparr>, t) \<and>
     transaction_count t = transaction_count s \<and>
     out_bytes (ring t) = out_bytes (ring s) @ request_bytes 0 XS_TRANSACTION_START [[0]] @
       request_bytes x XS_READ [path @ [0]] @ request_bytes x XS_WRITE [path @ [0], num] @
       request_bytes x XS_TRANSACTION_END [bytes ''T'' @ [0]]"
  by (rule switch_state_commits [where scan_d = scan_d and val = val, OF assms])

lemma print_d_4: "print_d 4 = [52]"
  by (simp add: print_d_def print_nat.simps [of 4])

theorem xenbus_switch_state_announces_witness:
  "\<exists>t. xenbus_switch_state (\<lambda>_. (1, 1))
         \<lparr>nodename = [100], otherend = [], otherend_id = 0, dev_state = XenbusStateInitialised, dev_down = False\<rparr>
         XenbusStateConnected
         (xs_example\<lparr>incoming := [(\<lparr>m_type = XS_TRANSACTION_START, req_id = 0, tx_id = 0, m_len = 2\<rparr>, [55, 0]),
            (\<lparr>m_type = XS_READ, req_id = 0, tx_id = 0, m_len = 1\<rparr>, [51]),
            (\<lparr>m_type = XS_WRITE, req_id = 0, tx_id = 0, m_len = 3\<rparr>, [79, 75, 0]),
            (\<lparr>m_type = XS_TRANSACTION_END, req_id = 0, tx_id = 0, m_len = 3\<rparr>, [79, 75, 0])]\<rparr>)
       = Some (0, \<lparr>nodename = [100], otherend = [], otherend_id = 0, dev_state = XenbusStateConnected, dev_down = False\<rparr>, t)"
proof -
  let ?d = "\<lparr>nodename = [100], otherend = [], otherend_id = 0, dev_state = XenbusStateInitialised, dev_down = False\<rparr>"
  let ?ms = "[(\<lparr>m_type = XS_TRANSACTION_START, req_id = 0, tx_id = 0, m_len = 2\<rparr>, [55, 0]),
            (\<lparr>m_type = XS_READ, req_id = 0, tx_id = 0, m_len = 1\<rparr>, [51]),
            (\<lparr>m_type = XS_WRITE, req_id = 0, tx_id = 0, m_len = 3\<rparr>, [79, 75, 0]),
            (\<lparr>m_type = XS_TRANSACTION_END, req_id = 0, tx_id = 0, m_len = 3\<rparr>, [79, 75, 0])]"
  have "ready 1000 ?ms (xs_example\<lparr>incoming := ?ms\<rparr>)"
    using xs_wf0 by (simp add: ready_def xs_example_def xs_types)
  from xenbus_switch_state_announces [OF this, of XenbusStateConnected ?d "[55, 0]" 2 "[51]" 1 "[79, 75, 0]" 3
      "[79, 75, 0]" 3 "\<lambda>_. (1, 1)" 1, OF _ _ _ _ _ _ _ refl refl refl] show ?thesis
    by (auto simp: talkv_result_def xs_types xs_example_def join_def bytes_def print_d_4)
qed

theorem xenbus_switch_state_balanced_witness:
  "\<exists>r dev' t. xenbus_switch_state (\<lambda>_. (1, 1))
         \<lparr>nodename = [100], otherend = [], otherend_id = 0, dev_state = XenbusStateInitialised, dev_down = False\<rparr>
         XenbusStateConnected
         (xs_example\<lparr>incoming := [(\<lparr>m_type = XS_TRANSACTION_START, req_id = 0, tx_id = 0, m_len = 2\<rparr>, [55, 0]),
            (\<lparr>m_type = XS_READ, req_id = 0, tx_id = 0, m_len = 1\<rparr>, [51]),
            (\<lparr>m_type = XS_WRITE, req_id = 0, tx_id = 0, m_len = 3\<rparr>, [79, 75, 0]),
            (\<lparr>m_type = XS_TRANSACTION_END, req_id = 0, tx_id = 0, m_len = 3\<rparr>, [79, 75, 0])]\<rparr>) = Some (r, dev', t) \<and>
     dev_state dev' = XenbusStateConnected \<and> transaction_count t = 0 \<and> nodename dev' = [100]"
proof -
  let ?d = "\<lparr>nodename = [100], otherend = [], otherend_id = 0, dev_state = XenbusStateInitialised, dev_down = False\<rparr>"
  let ?ms = "[(\<lparr>m_type = XS_TRANSACTION_START, req_id = 0, tx_id = 0, m_len = 2\<rparr>, [55, 0]),
            (\<lparr>m_type = XS_READ, req_id = 0, tx_id = 0, m_len = 1\<rparr>, [51]),
            (\<lparr>m_type = XS_WRITE, req_id = 0, tx_id = 0, m_len = 3\<rparr>, [79, 75, 0]),
            (\<lparr>m_type = XS_TRANSACTION_END, req_id = 0, tx_id = 0, m_len = 3\<rparr>, [79, 75, 0])]"
  have "ready 1000 ?ms (xs_example\<lparr>incoming := ?ms\<rparr>)"
    using xs_wf0 by (simp add: ready_def xs_example_def xs_types)
  from switch_state_commits [OF this, of XenbusStateConnected ?d "[55, 0]" 2 "[51]" 1 "[79, 75, 0]" 3
      "[79, 75, 0]" 3 "\<lambda>_. (1, 1)" 1, OF _ _ _ _ _ _ _ refl refl refl]
  obtain t where t: "xenbus_switch_state (\<lambda>_. (1, 1)) ?d XenbusStateConnected (xs_example\<lparr>incoming := ?ms\<rparr>) =
      Some (0, ?d\<lparr>dev_state := XenbusStateConnected\<rparr>, t)"
    by (auto simp: talkv_result_def xs_types xs_example_def join_def bytes_def print_d_4)
  have "transaction_count t = 0" using xenbus_switch_state_balanced [OF t] by (simp add: xs_example_def)
  then show ?thesis using t by (intro exI [of _ 0] exI [of _ "?d\<lparr>dev_state := XenbusStateConnected\<rparr>"] exI [of _ t]) simp
qed

section \<open>Granting the pages of a ring\<close>

lemma grant_access_ok:
  assumes inv: "gnt_inv g" and run: "gnttab_grant_foreign_access e dmn fr 0 g = Some (r, g')"
  shows "gnt_inv g' \<and>
    (if r < 0 then gnt_free g' = gnt_free g \<and> shared g' = shared g
     else nat r \<in> gnt_refs g' \<and> nat r # gnt_free g' = gnt_grown g g' @ gnt_free g \<and>
       gnt_refs g \<subseteq> gnt_refs g' \<and>
       shared g' = (shared g)(nat r := \<lparr>flags = GTF_permit_access, domid = dmn, frame = fr\<rparr>))"
proof -
  have set: "gnt_inv (set_shared i f h) = gnt_inv h \<and> gnt_free (set_shared i f h) = gnt_free h \<and>
             gnt_refs (set_shared i f h) = gnt_refs h \<and> nr_grant_frames (set_shared i f h) = nr_grant_frames h" for i f h
    using same_list_gnt [of h "set_shared i f h"] by (simp add: same_list_def)
  show ?thesis
  proof (cases rule: get_free_entries_ok [OF inv, of 1, where e = e, simplified, case_names bug err ok])
    case (bug i)
    then show ?thesis using run by (simp add: gnttab_grant_foreign_access_def)
  next
    case (err rc s')
    then show ?thesis using run by (auto simp: gnttab_grant_foreign_access_def outside_def)
  next
    case (ok h xs s')
    have xs: "xs = [h]" using ok(2) by (cases xs) (auto simp: gnt_hands_out_def)
    have ho: "gnt_inv s'" "h # gnt_free s' = gnt_grown g s' @ gnt_free g" "h \<in> gnt_refs s'" "shared s' = shared g"
      using ok(2) by (auto simp: gnt_hands_out_def xs outside_def)
    have g': "r = int h" "g' = set_shared h (\<lambda>x. x\<lparr>flags := GTF_permit_access OR 0\<rparr>)
                     (set_shared h (\<lambda>x. x\<lparr>frame := fr, domid := dmn\<rparr>) s')"
      using run ok(1) by (auto simp: gnttab_grant_foreign_access_def gnttab_grant_foreign_access_ref_def Let_def)
    have "nr_grant_frames g \<le> nr_grant_frames s'"
    proof (rule ccontr)
      assume "\<not> ?thesis"
      then have "h # gnt_free s' = gnt_free g" and lt: "nr_grant_frames s' < nr_grant_frames g"
        using ho(2) by (auto simp: gnt_grown_def ENTRIES_PER_GRANT_FRAME_def)
      then have "1 \<le> length (gnt_free g)" by (metis One_nat_def Suc_leI length_greater_0_conv list.distinct(1))
      then show False using ok(2) lt by (simp add: gnt_hands_out_def)
    qed
    then have "gnt_refs g \<subseteq> gnt_refs s'" by (auto simp: gnt_refs_def ENTRIES_PER_GRANT_FRAME_def)
    then show ?thesis
      using ho set by (simp add: g' gnt_grown_def) (simp add: fun_eq_iff)
  qed
qed

lemma grant_access_err_refs:
  assumes inv: "gnt_inv g" and run: "gnttab_grant_foreign_access e dmn fr 0 g = Some (r, g')" and r: "r < 0"
  shows "gnt_refs g' = gnt_refs g"
  by (cases rule: get_free_entries_ok [OF inv, of 1, where e = e, simplified, case_names bug err ok])
     (use run r in \<open>auto simp: gnttab_grant_foreign_access_def gnt_refs_def\<close>)

definition held_refs :: "nat list \<Rightarrow> gnttab \<Rightarrow> bool" where
  "held_refs refs g \<longleftrightarrow> gnt_inv g \<and> distinct refs \<and> set refs \<subseteq> gnt_refs g \<and> set refs \<inter> set (gnt_free g) = {}"

lemma gnt_grown_disjoint: "r \<in> gnt_refs g \<Longrightarrow> r \<notin> set (gnt_grown g g')"
  by (auto simp: gnt_grown_def gnt_refs_def)

lemma grant_access_held:
  assumes held: "held_refs refs g" and run: "gnttab_grant_foreign_access e dmn fr 0 g = Some (r, g')" and r: "0 \<le> r"
  shows "held_refs (refs @ [nat r]) g' \<and> set (gnt_free g) \<subseteq> insert (nat r) (set (gnt_free g')) \<and>
     shared g' = (shared g)(nat r := \<lparr>flags = GTF_permit_access, domid = dmn, frame = fr\<rparr>)"
proof -
  have inv: "gnt_inv g" using held by (simp add: held_refs_def)
  have a: "gnt_inv g'" "nat r \<in> gnt_refs g'" "nat r # gnt_free g' = gnt_grown g g' @ gnt_free g"
    "gnt_refs g \<subseteq> gnt_refs g'"
    "shared g' = (shared g)(nat r := \<lparr>flags = GTF_permit_access, domid = dmn, frame = fr\<rparr>)"
    using grant_access_ok [OF inv run] r by auto
  have all: "insert (nat r) (set (gnt_free g')) = set (gnt_grown g g') \<union> set (gnt_free g)"
    using arg_cong [OF a(3), of set] by simp
  have disj: "set refs \<inter> (set (gnt_grown g g') \<union> set (gnt_free g)) = {}"
    using held gnt_grown_disjoint by (fastforce simp: held_refs_def)
  have "distinct (nat r # gnt_free g')"
    unfolding a(3) using inv gnt_grown_disjoint by (auto simp: gnt_inv_def gnt_grown_def gnt_refs_def)
  then have "nat r \<notin> set (gnt_free g')" by simp
  moreover have "nat r \<notin> set refs" "set refs \<inter> set (gnt_free g') = {}" using disj all by blast+
  ultimately show ?thesis using held a(1,2,4,5) all by (auto simp: held_refs_def)
qed

lemma grant_pages_ok:
  "grant_pages scan_d e i pages err acc dev s g = Some (r, refs, dev', s', g') \<Longrightarrow> held_refs acc g \<Longrightarrow>
   \<exists>new. refs = acc @ new \<and> held_refs refs g' \<and> length new \<le> length pages \<and>
     set (gnt_free g) \<subseteq> set new \<union> set (gnt_free g') \<and>
     (\<forall>j < length new. shared g' (new ! j) =
        \<lparr>flags = GTF_permit_access, domid = otherend_id dev, frame = pages ! j\<rparr>) \<and>
     (\<forall>x. x \<notin> set new \<longrightarrow> shared g' x = shared g x) \<and>
     (if length new = length pages
      then dev' = dev \<and> s' = s \<and> r = (if pages = [] then err else int (last new)) else r < 0)"
proof (induction pages arbitrary: i err acc g)
  case Nil
  then show ?case by auto
next
  case (Cons p pages)
  obtain r1 g1 where g1: "gnttab_grant_foreign_access e (otherend_id dev) p 0 g = Some (r1, g1)"
    using Cons.prems(1) by (auto split: option.splits)
  show ?case
  proof (cases "r1 < 0")
    case True
    then have "gnt_inv g1 \<and> gnt_free g1 = gnt_free g \<and> shared g1 = shared g"
      using grant_access_ok [OF _ g1] Cons.prems(2) by (auto simp: held_refs_def)
    moreover have "gnt_refs g1 = gnt_refs g" using grant_access_err_refs [OF _ g1 True] Cons.prems(2)
      by (simp add: held_refs_def)
    ultimately show ?thesis using Cons.prems g1 True by (auto simp: held_refs_def)
  next
    case False
    then have h: "held_refs (acc @ [nat r1]) g1" "set (gnt_free g) \<subseteq> insert (nat r1) (set (gnt_free g1))"
      "shared g1 = (shared g)(nat r1 := \<lparr>flags = GTF_permit_access, domid = otherend_id dev, frame = p\<rparr>)"
      using grant_access_held [OF Cons.prems(2) g1] by auto
    have "grant_pages scan_d e (i + 1) pages r1 (acc @ [nat r1]) dev s g1 = Some (r, refs, dev', s', g')"
      using Cons.prems(1) g1 False by simp
    from Cons.IH [OF this h(1)] obtain new where
      n: "refs = (acc @ [nat r1]) @ new" "held_refs refs g'" "length new \<le> length pages"
      "set (gnt_free g1) \<subseteq> set new \<union> set (gnt_free g')"
      "\<forall>j < length new. shared g' (new ! j) =
        \<lparr>flags = GTF_permit_access, domid = otherend_id dev, frame = pages ! j\<rparr>"
      "\<forall>x. x \<notin> set new \<longrightarrow> shared g' x = shared g1 x"
      "if length new = length pages
       then dev' = dev \<and> s' = s \<and> r = (if pages = [] then r1 else int (last new)) else r < 0" by blast
    have nin: "nat r1 \<notin> set new" using n(1,2) by (auto simp: held_refs_def)
    have "\<forall>j < length (nat r1 # new). shared g' ((nat r1 # new) ! j) =
        \<lparr>flags = GTF_permit_access, domid = otherend_id dev, frame = (p # pages) ! j\<rparr>"
      using n(5,6) nin h(3) by (auto simp: nth_Cons split: nat.splits)
    then show ?thesis
      using n h(2,3) False
      by (intro exI [of _ "nat r1 # new"]) (auto split: if_splits)
  qed
qed

text \<open>
  Granting a ring's pages to the peer. The references returned are distinct, taken off the
  free list, and entry \<open>j\<close> permits the device's peer, and nobody else, access to page \<open>j\<close>;
  no other entry changes and no reference is lost. The result is negative exactly when not
  every page was granted (or there was none), and then the references of the pages granted
  before the failure are still held.
\<close>

theorem xenbus_multi_grant_ring_ok:
  assumes inv: "gnt_inv g"
    and run: "xenbus_multi_grant_ring scan_d e pages dev s g = Some (r, refs, dev', s', g')"
  shows "gnt_inv g' \<and> distinct refs \<and> set refs \<subseteq> gnt_refs g' \<and> set refs \<inter> set (gnt_free g') = {} \<and>
     set (gnt_free g) \<subseteq> set refs \<union> set (gnt_free g') \<and> length refs \<le> length pages \<and>
     (\<forall>j < length refs. shared g' (refs ! j) =
        \<lparr>flags = GTF_permit_access, domid = otherend_id dev, frame = pages ! j\<rparr>) \<and>
     (\<forall>x. x \<notin> set refs \<longrightarrow> shared g' x = shared g x) \<and>
     (0 \<le> r \<longleftrightarrow> pages \<noteq> [] \<and> length refs = length pages)"
proof -
  have "held_refs [] g" using inv by (simp add: held_refs_def)
  from grant_pages_ok [OF run [unfolded xenbus_multi_grant_ring_def] this] show ?thesis
    by (auto simp: held_refs_def split: if_splits)
qed

theorem xenbus_multi_grant_ring_ok_witness:
  "\<exists>dev' s' g'. xenbus_multi_grant_ring (\<lambda>_. (1, 1)) gnt_example_env [100, 101]
      \<lparr>nodename = [], otherend = [], otherend_id = 3, dev_state = XenbusStateUnknown, dev_down = False\<rparr>
      xs_example gnt_example = Some (9, [8, 9], dev', s', g') \<and>
     shared g' 9 = \<lparr>flags = GTF_permit_access, domid = 3, frame = 101\<rparr> \<and> gnt_inv g'"
proof -
  let ?d = "\<lparr>nodename = [], otherend = [], otherend_id = 3, dev_state = XenbusStateUnknown, dev_down = False\<rparr>"
  have "\<exists>g'. xenbus_multi_grant_ring (\<lambda>_. (1, 1)) gnt_example_env [100, 101] ?d xs_example gnt_example =
           Some (9, [8, 9], ?d, xs_example, g')"
    by (simp add: xenbus_multi_grant_ring_def gnttab_grant_foreign_access_def get_free_entries_def take_entries_def
        gnt_example_def gnttab_entry_def gnt_consts set_gnttab_entry_def gnttab_grant_foreign_access_ref_def
        set_shared_def Let_def)
  then obtain g' where g: "xenbus_multi_grant_ring (\<lambda>_. (1, 1)) gnt_example_env [100, 101] ?d xs_example gnt_example =
           Some (9, [8, 9], ?d, xs_example, g')" by blast
  have "\<forall>j < length [8, 9 :: nat]. shared g' ([8, 9] ! j) =
        \<lparr>flags = GTF_permit_access, domid = otherend_id ?d, frame = [100, 101] ! j\<rparr>" "gnt_inv g'"
    using xenbus_multi_grant_ring_ok [OF _ g] gnt_example_inv by blast+
  then have "shared g' 9 = \<lparr>flags = GTF_permit_access, domid = 3, frame = 101\<rparr>" "gnt_inv g'"
    by (auto dest: spec [of _ 1])
  then show ?thesis using g by blast
qed

end
