(* ===== verification/Balloon.thy ===== *)
theory Balloon
  imports Xenbus_Client
begin

text \<open>
  The balloon driver, \<^verbatim>\<open>xen-balloon/balloon.c\<close> and the target attributes of
  \<^verbatim>\<open>sysfs.c\<close>, as the module is built (HVM, no backend support): the pages given back to Xen,
  the statistics, the reservation changes and the worker that moves the allocation towards
  the target. Statistics are 64-bit words; a page is its frame number. The hypervisor's
  answers are functions of the number of the hypercall, the allocator's are a list.
\<close>

section \<open>State\<close>

record balloon =
  current_pages :: u64
  target_pages :: u64
  driver_pages :: u64
  balloon_low :: u64
  balloon_high :: u64
  ballooned_pages :: "nat list"
  PageReserved :: "nat \<Rightarrow> bool"
  p2m :: "nat \<Rightarrow> nat option"
  managed_pages :: int
  present_pages :: int
  flag :: bool
  work_scheduled :: bool
  released :: "nat list"
  scrubbed :: "nat list"
  pool :: "nat option list"
  hypercalls :: nat
  store :: xs

text \<open>
  \<open>populate\<close> and \<open>decrease\<close> are the results of \<open>XENMEM_populate_physmap\<close> and
  \<open>XENMEM_decrease_reservation\<close> for a number of frames.
\<close>

record bal_env =
  PageHighMem :: "nat \<Rightarrow> bool"
  auto_translated :: bool
  populate :: "nat \<Rightarrow> nat \<Rightarrow> int"
  decrease :: "nat \<Rightarrow> nat \<Rightarrow> int"
  num_physpages :: u64

definition FRAME_LIST_SIZE :: nat where "FRAME_LIST_SIZE = 512"

section \<open>The list of ballooned pages\<close>

definition balloon_append :: "bal_env \<Rightarrow> nat \<Rightarrow> bool \<Rightarrow> balloon \<Rightarrow> balloon option" where
  "balloon_append e page account s =
     (let s = (if PageHighMem e page
               then s\<lparr>ballooned_pages := ballooned_pages s @ [page], balloon_high := balloon_high s + 1\<rparr>
               else s\<lparr>ballooned_pages := page # ballooned_pages s, balloon_low := balloon_low s + 1\<rparr>)
      in if account
         then Some (s\<lparr>managed_pages := managed_pages s - 1, PageReserved := (PageReserved s)(page := True),
                      p2m := (p2m s)(page := None), present_pages := present_pages s - 1\<rparr>)
         else if \<not> PageReserved s page then None else Some s)"

definition balloon_retrieve :: "bal_env \<Rightarrow> balloon \<Rightarrow> (nat option \<times> balloon) option" where
  "balloon_retrieve e s =
     (case ballooned_pages s of [] \<Rightarrow> Some (None, s)
      | page # rest \<Rightarrow>
          if \<not> PageReserved s page then None
          else let s = s\<lparr>ballooned_pages := rest\<rparr>;
                   s = (if PageHighMem e page then s\<lparr>balloon_high := balloon_high s - 1\<rparr>
                        else s\<lparr>balloon_low := balloon_low s - 1\<rparr>)
               in Some (Some page, s\<lparr>managed_pages := managed_pages s + 1, present_pages := present_pages s + 1\<rparr>))"

definition balloon_first_page :: "balloon \<Rightarrow> nat option" where
  "balloon_first_page s = (case ballooned_pages s of [] \<Rightarrow> None | p # _ \<Rightarrow> Some p)"

fun next_in :: "nat list \<Rightarrow> nat \<Rightarrow> nat option" where
  "next_in (p # q # ps) x = (if p = x then Some q else next_in (q # ps) x)"
| "next_in _ x = None"

definition balloon_next_page :: "nat \<Rightarrow> balloon \<Rightarrow> nat option" where
  "balloon_next_page page s = next_in (ballooned_pages s) page"

text \<open>The frames of the first \<open>n\<close> pages; running out of pages is \<open>BUG\<close>.\<close>

fun fill_frames :: "nat \<Rightarrow> nat option \<Rightarrow> balloon \<Rightarrow> nat list option" where
  "fill_frames 0 page s = Some []"
| "fill_frames (Suc n) page s =
     (case page of None \<Rightarrow> None
      | Some p \<Rightarrow> map_option (Cons p) (fill_frames n (balloon_next_page p s) s))"

section \<open>Targets\<close>

definition current_target :: "balloon \<Rightarrow> u64" where
  "current_target s =
     (let target = target_pages s
      in if target > current_pages s + balloon_low s + balloon_high s
         then current_pages s + balloon_low s + balloon_high s else target)"

definition MB2PAGES :: "u64 \<Rightarrow> u64" where "MB2PAGES mb = push_bit 8 mb"

definition min_pages_for :: "u64 \<Rightarrow> u64" where
  "min_pages_for max_pfn =
     (if max_pfn < MB2PAGES 128 then MB2PAGES 8 + drop_bit 1 max_pfn
      else if max_pfn < MB2PAGES 512 then MB2PAGES 40 + drop_bit 2 max_pfn
      else if max_pfn < MB2PAGES 2048 then MB2PAGES 104 + drop_bit 3 max_pfn
      else MB2PAGES 296 + drop_bit 5 max_pfn)"

definition balloon_minimum_target :: "bal_env \<Rightarrow> balloon \<Rightarrow> u64" where
  "balloon_minimum_target e s = min (min_pages_for (num_physpages e)) (current_target s)"

definition balloon_set_new_target :: "bal_env \<Rightarrow> u64 \<Rightarrow> balloon \<Rightarrow> balloon" where
  "balloon_set_new_target e target s =
     (let s = s\<lparr>target_pages := max target (balloon_minimum_target e s)\<rparr>
      in s\<lparr>flag := target_pages s \<noteq> target, work_scheduled := True\<rparr>)"

section \<open>Changing the reservation\<close>

fun give_pages :: "bal_env \<Rightarrow> nat list \<Rightarrow> nat \<Rightarrow> balloon \<Rightarrow> balloon option" where
  "give_pages e frames 0 s = Some s"
| "give_pages e frames (Suc n) s =
     (case balloon_retrieve e s of
        Some (Some page, s) \<Rightarrow>
          if \<not> auto_translated e \<and> p2m s page \<noteq> None then None
          else (case frames of [] \<Rightarrow> None
                | fr # frs \<Rightarrow>
                    give_pages e frs n
                      (s\<lparr>p2m := (p2m s)(page \<mapsto> fr), PageReserved := (PageReserved s)(page := False),
                         released := released s @ [page]\<rparr>))
      | _ \<Rightarrow> None)"

text \<open>The result is an error, 0 when all pages were populated, 1 when only some were.\<close>

definition increase_reservation :: "bal_env \<Rightarrow> nat \<Rightarrow> balloon \<Rightarrow> (int \<times> balloon) option" where
  "increase_reservation e nr s =
     (let nr = min nr FRAME_LIST_SIZE
      in case fill_frames nr (balloon_first_page s) s of None \<Rightarrow> None
         | Some frames \<Rightarrow>
             let rc = populate e (hypercalls s) nr;
                 s = s\<lparr>hypercalls := hypercalls s + 1\<rparr>
             in if rc < 0 then Some (rc, s)
                else (case give_pages e frames (nat rc) s of None \<Rightarrow> None
                      | Some s \<Rightarrow>
                          Some (if rc \<noteq> int nr then 1 else 0,
                                s\<lparr>current_pages := current_pages s + of_int rc\<rparr>)))"

text \<open>Up to \<open>n\<close> pages from the allocator, low ones scrubbed; true if it ran out.\<close>

fun take_pages :: "bal_env \<Rightarrow> nat \<Rightarrow> balloon \<Rightarrow> nat list \<times> bool \<times> balloon" where
  "take_pages e 0 s = ([], False, s)"
| "take_pages e (Suc n) s =
     (case pool s of
        Some page # rest \<Rightarrow>
          let s = s\<lparr>pool := rest\<rparr>;
              s = (if PageHighMem e page then s else s\<lparr>scrubbed := scrubbed s @ [page]\<rparr>)
          in case take_pages e n s of (ps, slp, s) \<Rightarrow> (page # ps, slp, s)
      | None # rest \<Rightarrow> ([], True, s\<lparr>pool := rest\<rparr>)
      | [] \<Rightarrow> ([], True, s))"

fun append_pages :: "bal_env \<Rightarrow> nat list \<Rightarrow> balloon \<Rightarrow> balloon option" where
  "append_pages e [] s = Some s"
| "append_pages e (p # ps) s =
     (case balloon_append e p True s of None \<Rightarrow> None | Some s \<Rightarrow> append_pages e ps s)"

definition decrease_reservation :: "bal_env \<Rightarrow> nat \<Rightarrow> balloon \<Rightarrow> (int \<times> balloon) option" where
  "decrease_reservation e nr s =
     (case take_pages e (min nr FRAME_LIST_SIZE) s of (pages, need_sleep, s) \<Rightarrow>
        (case append_pages e pages s of None \<Rightarrow> None
         | Some s \<Rightarrow>
             let ret = decrease e (hypercalls s) (length pages);
                 s = s\<lparr>hypercalls := hypercalls s + 1\<rparr>
             in if ret \<noteq> int (length pages) then None
                else Some (if need_sleep then 1 else 0,
                           s\<lparr>current_pages := current_pages s - of_nat (length pages)\<rparr>)))"

section \<open>The worker\<close>

definition credit :: "balloon \<Rightarrow> int" where
  "credit s = sint (current_target s - current_pages s)"

text \<open>\<open>fuel\<close> bounds the rounds; running out of it is \<open>None\<close>.\<close>

fun balloon_loop :: "bal_env \<Rightarrow> nat \<Rightarrow> balloon \<Rightarrow> balloon option" where
  "balloon_loop e 0 s = None"
| "balloon_loop e (Suc fuel) s =
     (let c = credit s
      in if c > 0
         then (case increase_reservation e (nat c) s of None \<Rightarrow> None
               | Some (r, s) \<Rightarrow> if r \<noteq> 0 then Some s else balloon_loop e fuel s)
         else if c < 0
         then (case decrease_reservation e (nat (- c)) s of None \<Rightarrow> None
               | Some (r, s) \<Rightarrow> if r \<noteq> 0 then Some s else balloon_loop e fuel s)
         else Some s)"

definition store_write :: "u8 list \<Rightarrow> u8 list \<Rightarrow> u8 list \<Rightarrow> balloon \<Rightarrow> balloon option" where
  "store_write dir node val s =
     map_option (\<lambda>(_, x). s\<lparr>store := x\<rparr>) (xenbus_write 0 dir node val (store s))"

text \<open>The report is printed into 16 bytes on the stack; overrunning them is \<open>None\<close>.\<close>

definition balloon_process :: "bal_env \<Rightarrow> nat \<Rightarrow> balloon \<Rightarrow> balloon option" where
  "balloon_process e fuel s =
     (if current_target s = current_pages s then Some s
      else case store_write (bytes ''control/uvp'') (bytes ''Balloon_flag'') (bytes ''1'') s of None \<Rightarrow> None
      | Some s \<Rightarrow>
          (case balloon_loop e fuel s of None \<Rightarrow> None
           | Some s \<Rightarrow>
               (case (if current_target s \<noteq> current_pages s \<or> flag s
                      then (let buffer = print_nat (unat (push_bit 2 (current_pages s)))
                            in if length buffer \<ge> 16 then None
                               else store_write (bytes ''memory'') (bytes ''target'') buffer s)
                      else Some s) of None \<Rightarrow> None
                | Some s \<Rightarrow> store_write (bytes ''control/uvp'') (bytes ''Balloon_flag'') (bytes ''0'') s)))"

section \<open>Setting the target\<close>

text \<open>\<open>scan\<close> is the conversion \<open>%llu\<close>; the store holds KiB.\<close>

definition watch_target :: "bal_env \<Rightarrow> (u8 list \<Rightarrow> int \<times> u64) \<Rightarrow> balloon \<Rightarrow> balloon option" where
  "watch_target e scan s =
     (case xenbus_scanf 0 (bytes ''memory'') (bytes ''target'') scan (store s) of None \<Rightarrow> None
      | Some ((err, v), x) \<Rightarrow>
          (case v of
             None \<Rightarrow> Some (s\<lparr>store := x\<rparr>)
           | Some new_target \<Rightarrow>
               if err \<noteq> 1 then Some (s\<lparr>store := x\<rparr>)
               else Some (balloon_set_new_target e (drop_bit 2 new_target) (s\<lparr>store := x\<rparr>))))"

definition balloon_init_watcher :: "u64 \<Rightarrow> balloon \<Rightarrow> balloon option" where
  "balloon_init_watcher w s =
     map_option (\<lambda>(_, x). s\<lparr>store := x\<rparr>) (register_xenbus_watch w (store s))"

text \<open>
  Writes by an administrator: \<open>cap\<close> is \<open>capable(CAP_SYS_ADMIN)\<close>, \<open>copied\<close> whether the copy
  from user space succeeded, \<open>memparse\<close> the kernel's parser of sizes. The buffer on the stack
  is filled only as far as the user's bytes go; \<open>stack\<close> is what its 64 bytes held before.
\<close>

definition balloon_write :: "bal_env \<Rightarrow> bool \<Rightarrow> bool \<Rightarrow> (u8 list \<Rightarrow> u64) \<Rightarrow> u8 list \<Rightarrow> u8 list \<Rightarrow> balloon \<Rightarrow>
    int \<times> balloon" where
  "balloon_write e cap copied memparse stack buffer s =
     (if \<not> cap then (-1, s)
      else if length buffer \<le> 1 then (-74, s)
      else if length buffer > 64 then (-27, s)
      else if \<not> copied then (-14, s)
      else (int (length buffer),
            let memstring = (buffer @ drop (length buffer) stack)[63 := 0]
            in balloon_set_new_target e (drop_bit 12 (memparse (cstr memstring))) s))"

definition store_target_kb :: "bal_env \<Rightarrow> bool \<Rightarrow> u8 list \<Rightarrow> balloon \<Rightarrow> int \<times> balloon" where
  "store_target_kb e cap buf s =
     (if \<not> cap then (-1, s)
      else if length buf \<le> 1 then (-74, s)
      else (int (length buf),
            balloon_set_new_target e (drop_bit 12 (push_bit 10 (simple_strtoul 0 (cstr buf)))) s))"

definition store_target :: "bal_env \<Rightarrow> bool \<Rightarrow> (u8 list \<Rightarrow> u64) \<Rightarrow> u8 list \<Rightarrow> balloon \<Rightarrow> int \<times> balloon" where
  "store_target e cap memparse buf s =
     (if \<not> cap then (-1, s)
      else if length buf \<le> 1 then (-74, s)
      else (int (length buf), balloon_set_new_target e (drop_bit 12 (memparse (cstr buf))) s))"

section \<open>Initialisation and other drivers\<close>

text \<open>\<open>pod\<close> is the answer to \<open>XENMEM_get_pod_target\<close>: result, total, entries, cache.\<close>

definition balloon_init :: "bal_env \<Rightarrow> bool \<Rightarrow> int \<times> u64 \<times> u64 \<times> u64 \<Rightarrow> bool \<Rightarrow> balloon \<Rightarrow> int \<times> balloon" where
  "balloon_init e on_xen pod proc_ok s =
     (if \<not> on_xen then (- ENODEV, s)
      else case pod of (rc, tot, entries, cache) \<Rightarrow>
        let cur = tot + entries - cache;
            cur = (if rc \<noteq> 0 \<or> cur > num_physpages e then num_physpages e else cur);
            s = s\<lparr>current_pages := cur, target_pages := cur, balloon_low := 0, balloon_high := 0, driver_pages := 0\<rparr>
        in if \<not> proc_ok then (-1, s) else (0, s))"

definition balloon_update_driver_allowance :: "u64 \<Rightarrow> balloon \<Rightarrow> balloon" where
  "balloon_update_driver_allowance delta s = s\<lparr>driver_pages := driver_pages s + delta\<rparr>"

definition balloon_release_driver_page :: "bal_env \<Rightarrow> nat \<Rightarrow> balloon \<Rightarrow> balloon option" where
  "balloon_release_driver_page e page s =
     (case balloon_append e page True s of None \<Rightarrow> None
      | Some s \<Rightarrow> Some (s\<lparr>current_pages := current_pages s - 1, driver_pages := driver_pages s - 1,
                           work_scheduled := True\<rparr>))"

end
