(* ===== verification/Balloon_Props.thy ===== *)
theory Balloon_Props
  imports Balloon "HOL-Library.Multiset"
begin

text \<open>
  The balloon driver neither loses nor duplicates a page, its statistics count the list of
  ballooned pages, its worker reaches the target when nobody refuses it a page, and targets
  respect the floor.
\<close>

section \<open>The invariant\<close>

definition pool_pages :: "balloon \<Rightarrow> nat list" where
  "pool_pages s = map the (filter (\<lambda>p. p \<noteq> None) (pool s))"

definition low_count :: "bal_env \<Rightarrow> nat list \<Rightarrow> nat" where
  "low_count e ps = length (filter (\<lambda>p. \<not> PageHighMem e p) ps)"

definition high_count :: "bal_env \<Rightarrow> nat list \<Rightarrow> nat" where
  "high_count e ps = length (filter (PageHighMem e) ps)"

definition ballooned_ok :: "bal_env \<Rightarrow> balloon \<Rightarrow> bool" where
  "ballooned_ok e s \<longleftrightarrow>
     distinct (ballooned_pages s) \<and>
     (\<forall>p \<in> set (ballooned_pages s). PageReserved s p \<and> p2m s p = None) \<and>
     unat (balloon_low s) = low_count e (ballooned_pages s) \<and>
     unat (balloon_high s) = high_count e (ballooned_pages s)"

definition total_pages :: "balloon \<Rightarrow> nat" where
  "total_pages s = unat (current_pages s) + length (ballooned_pages s)"

definition bal_inv :: "bal_env \<Rightarrow> balloon \<Rightarrow> bool" where
  "bal_inv e s \<longleftrightarrow> ballooned_ok e s \<and> distinct (pool_pages s @ ballooned_pages s) \<and> total_pages s < 2 ^ 62"

text \<open>Every page the driver has seen: held, to be handed out by the allocator, or given back to it.\<close>

definition all_pages :: "balloon \<Rightarrow> nat multiset" where
  "all_pages s = mset (ballooned_pages s) + mset (released s) + mset (pool_pages s)"

lemma count_split: "low_count e ps + high_count e ps = length ps"
  unfolding low_count_def high_count_def using sum_length_filter_compl [of "PageHighMem e" ps] by simp

lemma count_simps [simp]:
  "low_count e [] = 0" "high_count e [] = 0"
  "low_count e (p # ps) = (if PageHighMem e p then 0 else 1) + low_count e ps"
  "high_count e (p # ps) = (if PageHighMem e p then 1 else 0) + high_count e ps"
  "low_count e (ps @ qs) = low_count e ps + low_count e qs"
  "high_count e (ps @ qs) = high_count e ps + high_count e qs"
  by (simp_all add: low_count_def high_count_def)

lemma pool_pages_simps:
  "pool s = [] \<Longrightarrow> pool_pages s = []"
  "pool s = Some p # r \<Longrightarrow> pool_pages s = p # pool_pages (s\<lparr>pool := r\<rparr>)"
  "pool s = None # r \<Longrightarrow> pool_pages s = pool_pages (s\<lparr>pool := r\<rparr>)"
  by (simp_all add: pool_pages_def)

lemma count_le: "low_count e ps \<le> length ps" "high_count e ps \<le> length ps"
  using count_split [of e ps] by simp_all

lemma unat64_Suc: "unat a + 1 < 2 ^ 64 \<Longrightarrow> unat (a + 1 :: u64) = Suc (unat a)"
  using unat64_add_nat [of a 1] by simp

lemma unat64_pred: "0 < unat a \<Longrightarrow> unat (a - 1 :: u64) = unat a - 1"
  using unat64_sub_nat [of 1 a] by simp

section \<open>Single pages\<close>

definition same_env :: "balloon \<Rightarrow> balloon \<Rightarrow> bool" where
  "same_env s s' \<longleftrightarrow> target_pages s' = target_pages s \<and> driver_pages s' = driver_pages s \<and> flag s' = flag s \<and>
     work_scheduled s' = work_scheduled s \<and> store s' = store s"

lemma same_env_refl [simp]: "same_env s s"
  by (simp add: same_env_def)

lemma same_env_trans: "same_env s t \<Longrightarrow> same_env t u \<Longrightarrow> same_env s u"
  by (simp add: same_env_def)

lemma balloon_append_ok:
  assumes "ballooned_ok e s" and "page \<notin> set (ballooned_pages s)" and "length (ballooned_pages s) < 2 ^ 62"
  obtains s' where "balloon_append e page True s = Some s'" and "ballooned_ok e s'"
    and "mset (ballooned_pages s') = add_mset page (mset (ballooned_pages s))"
    and "released s' = released s" and "pool s' = pool s" and "current_pages s' = current_pages s"
    and "hypercalls s' = hypercalls s" and "same_env s s'"
proof
  have low: "unat (balloon_low s + 1) = Suc (unat (balloon_low s))"
    and high: "unat (balloon_high s + 1) = Suc (unat (balloon_high s))"
    using assms(1,3) count_le [of e "ballooned_pages s"] by (intro unat64_Suc; simp add: ballooned_ok_def)+
  let ?s = "if PageHighMem e page
       then s\<lparr>ballooned_pages := ballooned_pages s @ [page], balloon_high := balloon_high s + 1\<rparr>
       else s\<lparr>ballooned_pages := page # ballooned_pages s, balloon_low := balloon_low s + 1\<rparr>"
  let ?t = "?s\<lparr>managed_pages := managed_pages ?s - 1, PageReserved := (PageReserved ?s)(page := True),
                      p2m := (p2m ?s)(page := None), present_pages := present_pages ?s - 1\<rparr>"
  show "balloon_append e page True s = Some ?t" by (simp add: balloon_append_def Let_def)
  show "ballooned_ok e ?t" using assms(1,2) low high by (simp add: ballooned_ok_def)
qed (simp_all add: same_env_def)

lemma balloon_retrieve_ok:
  assumes "ballooned_ok e s" and "ballooned_pages s = page # rest"
  obtains s' where "balloon_retrieve e s = Some (Some page, s')" and "ballooned_ok e s'"
    and "ballooned_pages s' = rest" and "p2m s' page = None" and "page \<notin> set rest"
    and "released s' = released s" and "pool s' = pool s" and "current_pages s' = current_pages s"
    and "hypercalls s' = hypercalls s" and "same_env s s'"
proof
  have low: "\<not> PageHighMem e page \<Longrightarrow> unat (balloon_low s - 1) = unat (balloon_low s) - 1"
    and high: "PageHighMem e page \<Longrightarrow> unat (balloon_high s - 1) = unat (balloon_high s) - 1"
    using assms by (intro unat64_pred; simp add: ballooned_ok_def)+
  let ?s = "s\<lparr>ballooned_pages := rest\<rparr>"
  let ?t = "if PageHighMem e page then ?s\<lparr>balloon_high := balloon_high ?s - 1\<rparr>
            else ?s\<lparr>balloon_low := balloon_low ?s - 1\<rparr>"
  let ?u = "?t\<lparr>managed_pages := managed_pages ?t + 1, present_pages := present_pages ?t + 1\<rparr>"
  show "balloon_retrieve e s = Some (Some page, ?u)"
    using assms by (simp add: balloon_retrieve_def ballooned_ok_def Let_def)
  show "ballooned_ok e ?u" using assms low high by (simp add: ballooned_ok_def)
  show "page \<notin> set rest" "p2m ?u page = None" using assms by (simp_all add: ballooned_ok_def)
qed (simp_all add: same_env_def)

section \<open>Lists of pages\<close>

lemma next_in_last: "distinct (ps @ [p]) \<Longrightarrow> next_in (ps @ p # qs) p = (case qs of [] \<Rightarrow> None | q # _ \<Rightarrow> Some q)"
proof (induction ps)
  case Nil
  then show ?case by (cases qs) simp_all
next
  case (Cons a ps)
  then show ?case by (cases "ps @ p # qs") (auto split: list.splits)
qed

lemma fill_frames_walk:
  assumes "ballooned_pages s = ps @ qs" and "distinct (ps @ qs)" and "n \<le> length qs"
  shows "fill_frames n (case qs of [] \<Rightarrow> None | q # _ \<Rightarrow> Some q) s = Some (take n qs)"
  using assms
proof (induction n arbitrary: ps qs)
  case (Suc n)
  then obtain q qs' where qs: "qs = q # qs'" by (cases qs) auto
  have "balloon_next_page q s = (case qs' of [] \<Rightarrow> None | q # _ \<Rightarrow> Some q)"
    unfolding balloon_next_page_def Suc.prems(1) qs using Suc.prems(2) qs by (intro next_in_last) auto
  moreover have "fill_frames n (case qs' of [] \<Rightarrow> None | q # _ \<Rightarrow> Some q) s = Some (take n qs')"
    using Suc.prems qs by (intro Suc.IH [of "ps @ [q]"]) auto
  ultimately show ?case using qs by simp
qed simp

lemma fill_frames_ok:
  assumes "ballooned_ok e s" and "n \<le> length (ballooned_pages s)"
  shows "fill_frames n (balloon_first_page s) s = Some (take n (ballooned_pages s))"
  using fill_frames_walk [of s "[]" "ballooned_pages s" n] assms
  by (simp add: ballooned_ok_def balloon_first_page_def)

section \<open>Increasing the reservation\<close>

lemma fit_length: "ballooned_ok e s \<Longrightarrow> length (ballooned_pages s) = unat (balloon_low s) + unat (balloon_high s)"
  unfolding ballooned_ok_def by (simp add: count_split)

lemma give_pages_ok:
  assumes "ballooned_ok e s" and "n \<le> length (ballooned_pages s)" and "n \<le> length frames"
  obtains s' where "give_pages e frames n s = Some s'" and "ballooned_ok e s'"
    and "ballooned_pages s' = drop n (ballooned_pages s)"
    and "released s' = released s @ take n (ballooned_pages s)" and "pool s' = pool s"
    and "current_pages s' = current_pages s" and "hypercalls s' = hypercalls s" and "same_env s s'"
proof -
  have "\<exists>s'. give_pages e frames n s = Some s' \<and> ballooned_ok e s' \<and>
      ballooned_pages s' = drop n (ballooned_pages s) \<and>
      released s' = released s @ take n (ballooned_pages s) \<and> pool s' = pool s \<and>
      current_pages s' = current_pages s \<and> hypercalls s' = hypercalls s \<and> same_env s s'"
    using assms
  proof (induction n arbitrary: s frames)
    case (Suc n)
    then obtain p ps fr frs where ps: "ballooned_pages s = p # ps" and fr: "frames = fr # frs"
      by (cases "ballooned_pages s"; cases frames) auto
    obtain t where ret: "balloon_retrieve e s = Some (Some p, t)" and t: "ballooned_ok e t"
      "ballooned_pages t = ps" "p2m t p = None" "p \<notin> set ps" "released t = released s" "pool t = pool s"
      "current_pages t = current_pages s" "hypercalls t = hypercalls s" "same_env s t"
      using balloon_retrieve_ok [OF Suc.prems(1) ps] by metis
    let ?u = "t\<lparr>p2m := (p2m t)(p \<mapsto> fr), PageReserved := (PageReserved t)(p := False), released := released t @ [p]\<rparr>"
    have ok: "ballooned_ok e ?u" using t by (auto simp: ballooned_ok_def)
    have "same_env s ?u" using t(9) by (simp add: same_env_def)
    moreover have "\<exists>s'. give_pages e frs n ?u = Some s' \<and> ballooned_ok e s' \<and>
      ballooned_pages s' = drop n (ballooned_pages ?u) \<and>
      released s' = released ?u @ take n (ballooned_pages ?u) \<and> pool s' = pool ?u \<and>
      current_pages s' = current_pages ?u \<and> hypercalls s' = hypercalls ?u \<and> same_env ?u s'"
      using Suc.prems ps fr t(2) by (intro Suc.IH ok) auto
    ultimately show ?case using ret t ps fr by (auto intro: same_env_trans)
  qed auto
  then show thesis using that by blast
qed

lemma take_drop_mset: "mset (drop k xs) + (mset ys + mset (take k xs)) = mset xs + mset ys"
  by (metis append_take_drop_id mset_append union_assoc union_commute)

lemma increase_reservation_ok:
  assumes inv: "bal_inv e s" and n: "n \<le> length (ballooned_pages s)"
    and answer: "\<And>k m. populate e k m \<le> int m"
  obtains r s' where "increase_reservation e n s = Some (r, s')" and "bal_inv e s'"
    and "all_pages s' = all_pages s" and "total_pages s' = total_pages s" and "pool s' = pool s"
    and "same_env s s'" and "unat (current_pages s) \<le> unat (current_pages s')"
    and "unat (current_pages s') \<le> unat (current_pages s) + n"
    and "r = 0 \<longleftrightarrow> populate e (hypercalls s) (min n FRAME_LIST_SIZE) = int (min n FRAME_LIST_SIZE)"
    and "r = 0 \<Longrightarrow> unat (current_pages s') = unat (current_pages s) + min n FRAME_LIST_SIZE"
proof -
  define m where "m = min n FRAME_LIST_SIZE"
  define rc where "rc = populate e (hypercalls s) m"
  let ?s = "s\<lparr>hypercalls := hypercalls s + 1\<rparr>"
  have m: "m \<le> length (ballooned_pages s)" "m \<le> n" and rc: "rc \<le> int m"
    using n answer by (auto simp: m_def rc_def)
  have ok: "ballooned_ok e s" using inv by (simp add: bal_inv_def)
  have run: "increase_reservation e n s =
      (if rc < 0 then Some (rc, ?s)
       else (case give_pages e (take m (ballooned_pages s)) (nat rc) ?s of None \<Rightarrow> None
             | Some t \<Rightarrow> Some (if rc \<noteq> int m then 1 else 0, t\<lparr>current_pages := current_pages t + of_int rc\<rparr>)))"
    using fill_frames_ok [OF ok m(1)] by (simp add: increase_reservation_def Let_def flip: m_def rc_def)
  show thesis
  proof (cases "rc < 0")
    case True
    show thesis
    proof (rule that)
      show "increase_reservation e n s = Some (rc, ?s)" using run True by simp
      show "bal_inv e ?s" using inv by (simp add: bal_inv_def ballooned_ok_def pool_pages_def total_pages_def)
    qed (use True in \<open>simp_all add: all_pages_def pool_pages_def total_pages_def same_env_def flip: m_def rc_def\<close>)
  next
    case False
    have ok': "ballooned_ok e ?s" using ok by (simp add: ballooned_ok_def)
    obtain t where give: "give_pages e (take m (ballooned_pages s)) (nat rc) ?s = Some t" and t: "ballooned_ok e t"
      "ballooned_pages t = drop (nat rc) (ballooned_pages s)" "released t = released s @ take (nat rc) (ballooned_pages s)"
      "pool t = pool s" "current_pages t = current_pages s" "same_env ?s t"
      by (rule give_pages_ok [OF ok', of "nat rc" "take m (ballooned_pages s)"]) (use m rc in auto)
    let ?u = "t\<lparr>current_pages := current_pages t + of_int rc\<rparr>"
    have tot: "unat (current_pages s) + length (ballooned_pages s) < 2 ^ 62"
      using inv by (simp add: bal_inv_def total_pages_def)
    have cur: "unat (current_pages ?u) = unat (current_pages s) + nat rc"
      using unat64_add_nat [of "current_pages s" "nat rc"] tot m rc False t(5) by (simp add: nat_le_iff)
    have pages: "pool_pages ?u = pool_pages s" by (simp add: pool_pages_def t(4))
    show thesis
    proof (rule that)
      show "increase_reservation e n s = Some (if rc \<noteq> int m then 1 else 0, ?u)"
        using run False give by simp
      show total: "total_pages ?u = total_pages s"
        using m rc False unfolding total_pages_def cur by (simp add: t(2) nat_le_iff)
      have "distinct (pool_pages s @ drop (nat rc) (ballooned_pages s))"
        using inv set_drop_subset [of "nat rc" "ballooned_pages s"] by (auto simp: bal_inv_def)
      then show "bal_inv e ?u"
        using inv t(1) unfolding bal_inv_def total pages by (simp add: ballooned_ok_def t(2))
      show "all_pages ?u = all_pages s"
        unfolding all_pages_def pages by (simp add: t(2,3) take_drop_mset)
    qed (use t cur m rc False in \<open>auto simp: same_env_def simp flip: m_def rc_def split: if_splits\<close>)
  qed
qed

section \<open>Decreasing the reservation\<close>

lemma pool_pages_frame [simp]:
  "pool_pages (s\<lparr>scrubbed := x\<rparr>) = pool_pages s" "pool_pages (s\<lparr>hypercalls := h\<rparr>) = pool_pages s"
  "pool_pages (s\<lparr>current_pages := c\<rparr>) = pool_pages s" "pool_pages (s\<lparr>ballooned_pages := b\<rparr>) = pool_pages s"
  by (simp_all add: pool_pages_def)

lemma take_pages_ok:
  assumes "take_pages e n s = (ps, short, s')"
  shows "pool_pages s = ps @ pool_pages s' \<and> length ps \<le> n \<and> (short \<longleftrightarrow> length ps < n) \<and>
    ballooned_pages s' = ballooned_pages s \<and> released s' = released s \<and> current_pages s' = current_pages s \<and>
    hypercalls s' = hypercalls s \<and> same_env s s' \<and>
    balloon_low s' = balloon_low s \<and> balloon_high s' = balloon_high s \<and> PageReserved s' = PageReserved s \<and>
    p2m s' = p2m s \<and> ((\<forall>i < n. i < length (pool s) \<and> pool s ! i \<noteq> None) \<longrightarrow> length ps = n \<and> pool s' = drop n (pool s))"
  using assms
proof (induction n arbitrary: s ps)
  case (Suc n)
  show ?case
  proof (cases "pool s")
    case Nil
    then show ?thesis using Suc.prems by (auto simp: pool_pages_def)
  next
    case (Cons x r)
    show ?thesis
    proof (cases x)
      case None
      then show ?thesis using Suc.prems Cons by (auto simp: pool_pages_def same_env_def)
    next
      case (Some p)
      let ?s = "s\<lparr>pool := r\<rparr>"
      let ?t = "if PageHighMem e p then ?s else ?s\<lparr>scrubbed := scrubbed ?s @ [p]\<rparr>"
      obtain qs where rec: "take_pages e n ?t = (qs, short, s')" and ps: "ps = p # qs"
        using Suc.prems Cons Some by (auto simp: Let_def split: prod.splits if_splits)
      have all: "(\<forall>i < Suc n. i < length (x # r) \<and> (x # r) ! i \<noteq> None) \<longleftrightarrow>
          x \<noteq> None \<and> (\<forall>i < n. i < length r \<and> r ! i \<noteq> None)"
        by (auto simp: less_Suc_eq_0_disj)
      show ?thesis
        using Suc.IH [OF rec] unfolding Cons all
        by (simp add: ps pool_pages_simps(2) [OF Cons [unfolded Some]] Some same_env_def split: if_splits)
    qed
  qed
qed simp

lemma append_pages_ok:
  assumes "ballooned_ok e s" and "distinct (ps @ ballooned_pages s)"
    and "length (ballooned_pages s) + length ps < 2 ^ 62"
  obtains s' where "append_pages e ps s = Some s'" and "ballooned_ok e s'"
    and "mset (ballooned_pages s') = mset ps + mset (ballooned_pages s)"
    and "released s' = released s" and "pool s' = pool s" and "current_pages s' = current_pages s"
    and "hypercalls s' = hypercalls s" and "same_env s s'"
proof -
  have "\<exists>s'. append_pages e ps s = Some s' \<and> ballooned_ok e s' \<and>
      mset (ballooned_pages s') = mset ps + mset (ballooned_pages s) \<and>
      released s' = released s \<and> pool s' = pool s \<and> current_pages s' = current_pages s \<and>
      hypercalls s' = hypercalls s \<and> same_env s s'"
    using assms
  proof (induction ps arbitrary: s)
    case (Cons p ps)
    obtain t where app: "balloon_append e p True s = Some t" and t: "ballooned_ok e t"
      "mset (ballooned_pages t) = add_mset p (mset (ballooned_pages s))" "released t = released s" "pool t = pool s"
      "current_pages t = current_pages s" "hypercalls t = hypercalls s" "same_env s t"
      by (rule balloon_append_ok [OF Cons.prems(1), of p]) (use Cons.prems in auto)
    have "set (ballooned_pages t) = insert p (set (ballooned_pages s))" and "length (ballooned_pages t) = Suc (length (ballooned_pages s))"
      using t(2) by (metis set_mset_add_mset_insert set_mset_mset, metis size_add_mset size_mset)
    moreover have "distinct (ballooned_pages t)" using t(1) by (simp add: ballooned_ok_def)
    ultimately have "\<exists>s'. append_pages e ps t = Some s' \<and> ballooned_ok e s' \<and>
      mset (ballooned_pages s') = mset ps + mset (ballooned_pages t) \<and>
      released s' = released t \<and> pool s' = pool t \<and> current_pages s' = current_pages t \<and>
      hypercalls s' = hypercalls t \<and> same_env t s'"
      using Cons.prems by (intro Cons.IH t(1)) auto
    then show ?case using app t by (auto intro: same_env_trans)
  qed simp
  then show thesis using that by blast
qed

lemma decrease_reservation_ok:
  assumes inv: "bal_inv e s" and n: "n \<le> unat (current_pages s)"
    and answer: "\<And>k m. decrease e k m = int m"
  obtains r s' where "decrease_reservation e n s = Some (r, s')" and "bal_inv e s'"
    and "all_pages s' = all_pages s" and "total_pages s' = total_pages s" and "same_env s s'"
    and "unat (current_pages s') \<le> unat (current_pages s)"
    and "unat (current_pages s) \<le> unat (current_pages s') + n"
    and "r = 0 \<Longrightarrow> unat (current_pages s') = unat (current_pages s) - min n FRAME_LIST_SIZE"
    and "(\<forall>i < n. i < length (pool s) \<and> pool s ! i \<noteq> None) \<Longrightarrow> r = 0 \<and> pool s' = drop (min n FRAME_LIST_SIZE) (pool s)"
proof -
  define m where "m = min n FRAME_LIST_SIZE"
  obtain ps short t where take: "take_pages e m s = (ps, short, t)" by (cases "take_pages e m s")
  note t = take_pages_ok [OF take]
  have len: "length ps \<le> unat (current_pages s)" and m: "m \<le> n" using t n by (auto simp: m_def)
  have lenn: "length ps \<le> n" using t m by simp
  have tot: "unat (current_pages s) + length (ballooned_pages s) < 2 ^ 62"
    using inv by (simp add: bal_inv_def total_pages_def)
  have ok: "ballooned_ok e t" using inv t by (simp add: bal_inv_def ballooned_ok_def)
  have dist: "distinct (ps @ pool_pages t @ ballooned_pages t)" using inv t by (simp add: bal_inv_def)
  obtain u where app: "append_pages e ps t = Some u" and u: "ballooned_ok e u"
      "mset (ballooned_pages u) = mset ps + mset (ballooned_pages t)" "released u = released t" "pool u = pool t"
      "current_pages u = current_pages t" "hypercalls u = hypercalls t" "same_env t u"
    by (rule append_pages_ok [OF ok, of ps]) (use dist len tot t in auto)
  let ?v = "u\<lparr>hypercalls := hypercalls u + 1, current_pages := current_pages u - of_nat (length ps)\<rparr>"
  have pages: "pool_pages ?v = pool_pages t" by (simp add: pool_pages_def u(4))
  have cur: "unat (current_pages ?v) = unat (current_pages s) - length ps"
    using unat64_sub_nat [of "length ps" "current_pages s"] len t u(5) by simp
  have lenu: "length (ballooned_pages u) = length ps + length (ballooned_pages s)"
    using u(2) t by (metis size_mset size_union)
  have setu: "set (ballooned_pages u) = set ps \<union> set (ballooned_pages s)"
    using u(2) t by (metis set_mset_mset set_mset_union)
  show thesis
  proof (rule that)
    show "decrease_reservation e n s = Some (if short then 1 else 0, ?v)"
      using take app answer by (simp add: decrease_reservation_def Let_def flip: m_def)
    show total: "total_pages ?v = total_pages s"
      using len unfolding total_pages_def cur by (simp add: lenu)
    have "distinct (pool_pages t @ ballooned_pages u)"
      using dist u(1) setu t by (auto simp: ballooned_ok_def)
    then show "bal_inv e ?v"
      using inv u(1) unfolding bal_inv_def total pages by (simp add: ballooned_ok_def)
    show "all_pages ?v = all_pages s"
      unfolding all_pages_def pages using t u(2,3) by (simp add: ac_simps)
    show "same_env s ?v" using t u(7) by (simp add: same_env_def)
    show "unat (current_pages ?v) \<le> unat (current_pages s)" "unat (current_pages s) \<le> unat (current_pages ?v) + n"
      using cur lenn by simp_all
    show "unat (current_pages ?v) = unat (current_pages s) - min n FRAME_LIST_SIZE" if "(if short then 1 else 0) = (0 :: int)"
      using that cur t by (auto simp: m_def min_def split: if_splits)
    show "(if short then 1 else 0) = (0 :: int) \<and> pool ?v = drop (min n FRAME_LIST_SIZE) (pool s)"
      if "\<forall>i < n. i < length (pool s) \<and> pool s ! i \<noteq> None"
      using that t u(4) m by (simp add: m_def)
  qed
qed

section \<open>The worker\<close>

lemma inv_total:
  assumes "bal_inv e s"
  shows "unat (current_pages s + balloon_low s + balloon_high s) = total_pages s" and "total_pages s < 2 ^ 62"
proof -
  have len: "length (ballooned_pages s) = unat (balloon_low s) + unat (balloon_high s)"
    by (rule fit_length [of e]) (use assms in \<open>simp add: bal_inv_def\<close>)
  show "total_pages s < 2 ^ 62" using assms by (simp add: bal_inv_def)
  then show "unat (current_pages s + balloon_low s + balloon_high s) = total_pages s"
    using unat64_add [of "current_pages s" "balloon_low s"] unat64_add [of "current_pages s + balloon_low s" "balloon_high s"] len
    by (simp add: total_pages_def)
qed

lemma current_target_unat:
  assumes "bal_inv e s"
  shows "unat (current_target s) = min (unat (target_pages s)) (total_pages s)"
  using inv_total [OF assms] by (simp add: current_target_def Let_def word_less_nat_alt)

lemma credit_int:
  assumes "bal_inv e s"
  shows "credit s = int (min (unat (target_pages s)) (total_pages s)) - int (unat (current_pages s))"
proof -
  have "unat (current_target s) < 2 ^ 62" "unat (current_pages s) < 2 ^ 62"
    using current_target_unat [OF assms] inv_total(2) [OF assms] by (auto simp: total_pages_def)
  then show ?thesis
    unfolding credit_def by (subst sint64_diff) (simp_all add: current_target_unat [OF assms])
qed

text \<open>What the worker keeps, and that it moves only towards the target.\<close>

definition worked :: "bal_env \<Rightarrow> balloon \<Rightarrow> balloon \<Rightarrow> bool" where
  "worked e s s' \<longleftrightarrow> bal_inv e s' \<and> all_pages s' = all_pages s \<and> total_pages s' = total_pages s \<and> same_env s s' \<and>
     (0 \<le> credit s \<longrightarrow> 0 \<le> credit s' \<and> credit s' \<le> credit s) \<and>
     (credit s \<le> 0 \<longrightarrow> credit s \<le> credit s' \<and> credit s' \<le> 0)"

lemma worked_refl: "bal_inv e s \<Longrightarrow> worked e s s"
  by (simp add: worked_def)

lemma worked_trans: "worked e s t \<Longrightarrow> worked e t u \<Longrightarrow> worked e s u"
  unfolding worked_def by (auto intro: same_env_trans)

definition refuses_nothing :: "bal_env \<Rightarrow> balloon \<Rightarrow> bool" where
  "refuses_nothing e s \<longleftrightarrow> (\<forall>k m. populate e k m = int m) \<and>
     (\<forall>i < nat (- credit s). i < length (pool s) \<and> pool s ! i \<noteq> None)"

lemma increase_worked:
  assumes inv: "bal_inv e s" and pos: "0 < credit s" and answer: "\<And>k m. populate e k m \<le> int m"
  obtains r s' where "increase_reservation e (nat (credit s)) s = Some (r, s')" and "worked e s s'"
    and "r = 0 \<Longrightarrow> \<bar>credit s'\<bar> < \<bar>credit s\<bar>" and "refuses_nothing e s \<Longrightarrow> r = 0 \<and> refuses_nothing e s'"
proof -
  have n: "nat (credit s) \<le> length (ballooned_pages s)"
    using credit_int [OF inv] unfolding total_pages_def nat_le_iff by linarith
  obtain r s' where run: "increase_reservation e (nat (credit s)) s = Some (r, s')" and inv': "bal_inv e s'"
    and keep: "all_pages s' = all_pages s" "total_pages s' = total_pages s" "pool s' = pool s" "same_env s s'"
    and grow: "unat (current_pages s) \<le> unat (current_pages s')"
      "unat (current_pages s') \<le> unat (current_pages s) + nat (credit s)"
    and r: "r = 0 \<longleftrightarrow> populate e (hypercalls s) (min (nat (credit s)) FRAME_LIST_SIZE) = int (min (nat (credit s)) FRAME_LIST_SIZE)"
    and step: "r = 0 \<Longrightarrow> unat (current_pages s') = unat (current_pages s) + min (nat (credit s)) FRAME_LIST_SIZE"
    using increase_reservation_ok [OF inv n answer] by metis
  have tgt: "target_pages s' = target_pages s" using keep(4) by (simp add: same_env_def)
  have diff: "credit s' - credit s = int (unat (current_pages s)) - int (unat (current_pages s'))"
    using credit_int [OF inv] credit_int [OF inv'] keep(2) tgt by simp
  show thesis
  proof (rule that [OF run])
    have pos': "0 \<le> credit s'" "credit s' \<le> credit s" using grow diff pos by linarith+
    then show "worked e s s'" using inv' keep pos by (simp add: worked_def)
    show "\<bar>credit s'\<bar> < \<bar>credit s\<bar>" if "r = 0"
      using step [OF that] diff pos by (auto simp: FRAME_LIST_SIZE_def min_def split: if_splits)
    show "r = 0 \<and> refuses_nothing e s'" if "refuses_nothing e s"
      using that r pos' by (simp add: refuses_nothing_def)
  qed
qed

lemma decrease_worked:
  assumes inv: "bal_inv e s" and neg: "credit s < 0" and answer: "\<And>k m. decrease e k m = int m"
  obtains r s' where "decrease_reservation e (nat (- credit s)) s = Some (r, s')" and "worked e s s'"
    and "r = 0 \<Longrightarrow> \<bar>credit s'\<bar> < \<bar>credit s\<bar>" and "refuses_nothing e s \<Longrightarrow> r = 0 \<and> refuses_nothing e s'"
proof -
  have n: "nat (- credit s) \<le> unat (current_pages s)"
    using credit_int [OF inv] unfolding nat_le_iff by linarith
  obtain r s' where run: "decrease_reservation e (nat (- credit s)) s = Some (r, s')" and inv': "bal_inv e s'"
    and keep: "all_pages s' = all_pages s" "total_pages s' = total_pages s" "same_env s s'"
    and shrink: "unat (current_pages s') \<le> unat (current_pages s)"
      "unat (current_pages s) \<le> unat (current_pages s') + nat (- credit s)"
    and step: "r = 0 \<Longrightarrow> unat (current_pages s') = unat (current_pages s) - min (nat (- credit s)) FRAME_LIST_SIZE"
    and full: "(\<forall>i < nat (- credit s). i < length (pool s) \<and> pool s ! i \<noteq> None) \<Longrightarrow>
      r = 0 \<and> pool s' = drop (min (nat (- credit s)) FRAME_LIST_SIZE) (pool s)"
    using decrease_reservation_ok [OF inv n answer] by metis
  have tgt: "target_pages s' = target_pages s" using keep(3) by (simp add: same_env_def)
  have diff: "credit s' - credit s = int (unat (current_pages s)) - int (unat (current_pages s'))"
    using credit_int [OF inv] credit_int [OF inv'] keep(2) tgt by simp
  show thesis
  proof (rule that [OF run])
    have "credit s \<le> credit s'" "credit s' \<le> 0" using shrink diff neg by linarith+
    then show "worked e s s'" using inv' keep neg by (simp add: worked_def)
    show "\<bar>credit s'\<bar> < \<bar>credit s\<bar>" if "r = 0"
      using step [OF that] diff neg n by (auto simp: FRAME_LIST_SIZE_def min_def split: if_splits)
    show "r = 0 \<and> refuses_nothing e s'" if "refuses_nothing e s"
    proof -
      have r: "r = 0" and pool: "pool s' = drop (min (nat (- credit s)) FRAME_LIST_SIZE) (pool s)"
        using that full by (auto simp: refuses_nothing_def)
      have "nat (- credit s') = nat (- credit s) - min (nat (- credit s)) FRAME_LIST_SIZE"
        using diff step [OF r] n neg by (auto simp: min_def split: if_splits)
      then show ?thesis
        using that r pool unfolding refuses_nothing_def by (auto simp: less_diff_conv add.commute)
    qed
  qed
qed

lemma credit_zero:
  assumes "bal_inv e s" and "credit s = 0"
  shows "current_pages s = current_target s"
proof -
  have "unat (current_pages s) = unat (current_target s)"
    using credit_int [OF assms(1)] assms(2) unfolding current_target_unat [OF assms(1)] by linarith
  then show ?thesis by (simp add: word_unat_eq_iff)
qed

lemma balloon_loop_total:
  assumes "bal_inv e s" and "\<And>k m. populate e k m \<le> int m" and "\<And>k m. decrease e k m = int m"
    and "nat \<bar>credit s\<bar> < fuel"
  shows "\<exists>s'. balloon_loop e fuel s = Some s' \<and> worked e s s' \<and>
    (refuses_nothing e s \<longrightarrow> current_pages s' = current_target s')"
  using assms(1,4)
proof (induction fuel arbitrary: s)
  case (Suc fuel)
  note inv = Suc.prems(1)
  consider "credit s = 0" | "0 < credit s" | "credit s < 0" by linarith
  then show ?case
  proof cases
    case 1
    then show ?thesis using inv credit_zero worked_refl by (auto simp: Let_def)
  next
    case 2
    obtain r t where t: "increase_reservation e (nat (credit s)) s = Some (r, t)" "worked e s t"
      "r = 0 \<Longrightarrow> \<bar>credit t\<bar> < \<bar>credit s\<bar>" "refuses_nothing e s \<Longrightarrow> r = 0 \<and> refuses_nothing e t"
      using increase_worked [OF inv 2 assms(2)] by metis
    show ?thesis
    proof (cases "r = 0")
      case True
      have "bal_inv e t" "nat \<bar>credit t\<bar> < fuel"
        using t(2,3) True Suc.prems(2) by (auto simp: worked_def)
      from Suc.IH [OF this] show ?thesis using t 2 True worked_trans [OF t(2)] by (auto simp: Let_def)
    qed (use t 2 in \<open>auto simp: Let_def\<close>)
  next
    case 3
    obtain r t where t: "decrease_reservation e (nat (- credit s)) s = Some (r, t)" "worked e s t"
      "r = 0 \<Longrightarrow> \<bar>credit t\<bar> < \<bar>credit s\<bar>" "refuses_nothing e s \<Longrightarrow> r = 0 \<and> refuses_nothing e t"
      using decrease_worked [OF inv 3 assms(3)] by metis
    show ?thesis
    proof (cases "r = 0")
      case True
      have "bal_inv e t" "nat \<bar>credit t\<bar> < fuel"
        using t(2,3) True Suc.prems(2) by (auto simp: worked_def)
      from Suc.IH [OF this] show ?thesis using t 3 True worked_trans [OF t(2)] by (auto simp: Let_def)
    qed (use t 3 in \<open>auto simp: Let_def\<close>)
  qed
qed simp


definition bal_example :: balloon where
  "bal_example = \<lparr>current_pages = 10, target_pages = 12, driver_pages = 0, balloon_low = 2, balloon_high = 1,
     ballooned_pages = [7, 8, 900], PageReserved = (\<lambda>_. True), p2m = (\<lambda>_. None), managed_pages = 0, present_pages = 0,
     flag = True, work_scheduled = False, released = [], scrubbed = [], pool = [Some 20, None, Some 21], hypercalls = 0,
     store = xs_example\<rparr>"

definition bal_example_env :: bal_env where
  "bal_example_env = \<lparr>PageHighMem = (\<lambda>p. p \<ge> 500), auto_translated = False, populate = (\<lambda>_ n. int n),
     decrease = (\<lambda>_ n. int n), num_physpages = 13\<rparr>"

lemma bal_example_inv: "bal_inv bal_example_env bal_example"
  by (simp add: bal_inv_def ballooned_ok_def bal_example_def bal_example_env_def total_pages_def pool_pages_def)

lemma bal_example_credit: "credit bal_example = 2"
  by (subst credit_int [OF bal_example_inv]) (simp add: bal_example_def total_pages_def)

lemma bal_example_full: "refuses_nothing bal_example_env bal_example"
  by (simp add: refuses_nothing_def bal_example_credit) (simp add: bal_example_env_def)


section \<open>The worker's reports\<close>

lemma print_nat_length: "n < 10 ^ Suc k \<Longrightarrow> length (print_nat n) \<le> Suc k"
proof (induction k arbitrary: n)
  case (Suc k)
  have "n div 10 < 10 ^ Suc k" using Suc.prems by (simp add: less_mult_imp_div_less mult.commute)
  from Suc.IH [OF this] show ?case by (subst print_nat.simps) simp
qed (simp add: print_nat.simps)

lemma print_kib_length:
  assumes "unat x < 2 ^ 47"
  shows "length (print_nat (unat (push_bit 2 (x :: u64)))) \<le> 15"
proof -
  have "unat (push_bit 2 x) = unat x * 4"
    using assms by (simp add: push_bit_eq_mult unat_word_ariths)
  then have "unat (push_bit 2 x) < 10 ^ Suc 14" using assms by simp
  from print_nat_length [OF this] show ?thesis by simp
qed

lemma store_write_ready:
  assumes r: "ready n (m # ms) (store s)" and n: "17 + length (join dir node) + length val + k \<le> n"
  shows "\<exists>x. store_write dir node val s = Some (s\<lparr>store := x\<rparr>) \<and> ready k ms x \<and>
     out_bytes (ring x) = out_bytes (ring (store s)) @ request_bytes 0 XS_WRITE [join dir node @ [0], val]"
proof -
  obtain x where "xs_talkv 0 XS_WRITE [join dir node @ [0], val] (store s) = Some (talkv_result XS_WRITE m, x)"
    "ready k ms x"
    "out_bytes (ring x) = out_bytes (ring (store s)) @ request_bytes 0 XS_WRITE [join dir node @ [0], val]"
    using talk_ready [OF r, of "[join dir node @ [0], val]" k 0 XS_WRITE] n by auto
  then show ?thesis
    using ready_alloc [OF r] by (auto simp: store_write_def xenbus_write_def with_path_def xs_error_def)
qed

lemma store_frame [simp]:
  "bal_inv e (s\<lparr>store := x\<rparr>) = bal_inv e s" "credit (s\<lparr>store := x\<rparr>) = credit s"
  "all_pages (s\<lparr>store := x\<rparr>) = all_pages s" "total_pages (s\<lparr>store := x\<rparr>) = total_pages s"
  "current_target (s\<lparr>store := x\<rparr>) = current_target s" "refuses_nothing e (s\<lparr>store := x\<rparr>) = refuses_nothing e s"
  by (simp_all add: bal_inv_def ballooned_ok_def credit_def current_target_def all_pages_def total_pages_def
      pool_pages_def refuses_nothing_def Let_def)

lemma worked_store: "worked e (s\<lparr>store := x\<rparr>) t \<Longrightarrow> worked e s (t\<lparr>store := store s\<rparr>)"
  by (simp add: worked_def same_env_def)

lemma bytes_length: "length (bytes cs) = length cs"
  by (simp add: bytes_def)

definition balloon_flag_path :: "u8 list" where
  "balloon_flag_path = join (bytes ''control/uvp'') (bytes ''Balloon_flag'')"

definition memory_target_path :: "u8 list" where
  "memory_target_path = join (bytes ''memory'') (bytes ''target'')"

lemma path_lengths: "length balloon_flag_path = 24" "length memory_target_path = 13"
  by (simp_all add: balloon_flag_path_def memory_target_path_def join_def bytes_def)

text \<open>
  C33: One run of the worker, with three replies of the daemon on their way: when the allocation
  is at the target already it does nothing at all; otherwise it raises
  \<open>control/uvp/Balloon_flag\<close>, moves the allocation as above, writes the KiB it reached to
  \<open>memory/target\<close> exactly when it could not reach the target or the target had been raised
  to the floor, and lowers the flag; these are the only requests it puts on the wire. The
  number fits the 16 bytes it is printed into as long as there are fewer than \<open>2\<^sup>4\<^sup>7\<close> pages.
\<close>

theorem balloon_process_reports:
  assumes inv: "bal_inv e s" and answers: "\<And>k m. populate e k m \<le> int m" "\<And>k m. decrease e k m = int m"
    and fuel: "nat \<bar>credit s\<bar> < fuel" and rdy: "ready 200 [m1, m2, m3] (store s)"
    and size: "total_pages s < 2 ^ 47"
  shows "\<exists>s' t. balloon_process e fuel s = Some s' \<and> worked e s t \<and> s'\<lparr>store := store s\<rparr> = t \<and>
    (refuses_nothing e s \<longrightarrow> current_pages s' = current_target s') \<and>
    (current_target s = current_pages s \<longrightarrow> s' = s) \<and>
    (current_target s \<noteq> current_pages s \<longrightarrow> out_bytes (ring (store s')) = out_bytes (ring (store s)) @
       request_bytes 0 XS_WRITE [balloon_flag_path @ [0], bytes ''1''] @
       (if current_target s' \<noteq> current_pages s' \<or> flag s
        then request_bytes 0 XS_WRITE [memory_target_path @ [0], print_nat (unat (push_bit 2 (current_pages s')))] else []) @
       request_bytes 0 XS_WRITE [balloon_flag_path @ [0], bytes ''0''])"
proof (cases "current_target s = current_pages s")
  case True
  then show ?thesis using worked_refl [OF inv] by (auto simp: balloon_process_def)
next
  case False
  obtain x where x: "store_write (bytes ''control/uvp'') (bytes ''Balloon_flag'') (bytes ''1'') s = Some (s\<lparr>store := x\<rparr>)"
    "ready 150 [m2, m3] x"
    "out_bytes (ring x) = out_bytes (ring (store s)) @ request_bytes 0 XS_WRITE [balloon_flag_path @ [0], bytes ''1'']"
    using store_write_ready [OF rdy, of "bytes ''control/uvp''" "bytes ''Balloon_flag''" "bytes ''1''" 150]
    by (auto simp: path_lengths bytes_length simp flip: balloon_flag_path_def)
  let ?s = "s\<lparr>store := x\<rparr>"
  have "bal_inv e ?s" "nat \<bar>credit ?s\<bar> < fuel" using inv fuel by simp_all
  from balloon_loop_total [OF this(1) answers this(2)] obtain u where
    u: "balloon_loop e fuel ?s = Some u" "worked e ?s u" "refuses_nothing e ?s \<longrightarrow> current_pages u = current_target u"
    by blast
  have env: "store u = x" "flag u = flag s" using u(2) by (simp_all add: worked_def same_env_def)
  let ?report = "current_target u \<noteq> current_pages u \<or> flag s"
  let ?buffer = "print_nat (unat (push_bit 2 (current_pages u)))"
  let ?msg = "if ?report then request_bytes 0 XS_WRITE [memory_target_path @ [0], ?buffer] else []"
  have "total_pages u < 2 ^ 47" using u(2) size by (simp add: worked_def)
  then have len: "length ?buffer \<le> 15" by (intro print_kib_length) (simp add: total_pages_def)
  obtain y m where y: "(if ?report then store_write (bytes ''memory'') (bytes ''target'') ?buffer u else Some u) =
      Some (u\<lparr>store := y\<rparr>)"
    "\<exists>ms. ready 60 (m # ms) y" "out_bytes (ring y) = out_bytes (ring x) @ ?msg"
  proof (cases ?report)
    case True
    have "17 + length memory_target_path + length ?buffer + 60 \<le> 150" using len by (simp add: path_lengths)
    with store_write_ready [of 150 m2 "[m3]" u "bytes ''memory''" "bytes ''target''" ?buffer 60] x(2) env(1)
    obtain y where "store_write (bytes ''memory'') (bytes ''target'') ?buffer u = Some (u\<lparr>store := y\<rparr>)"
      "ready 60 [m3] y"
      "out_bytes (ring y) = out_bytes (ring x) @ request_bytes 0 XS_WRITE [memory_target_path @ [0], ?buffer]"
      by (auto simp flip: memory_target_path_def)
    with True that [of y m3] show thesis by auto
  next
    case False
    have "ready 60 [m2, m3] x" using x(2) by (simp add: ready_def)
    moreover have "u\<lparr>store := x\<rparr> = u" using env(1) by (intro balloon.equality) simp_all
    ultimately show thesis using False that [of x m2] by auto
  qed
  from y(2) obtain ms where ms: "ready 60 (m # ms) y" by blast
  obtain z where z: "store_write (bytes ''control/uvp'') (bytes ''Balloon_flag'') (bytes ''0'') (u\<lparr>store := y\<rparr>) =
      Some (u\<lparr>store := z\<rparr>)"
    "out_bytes (ring z) = out_bytes (ring y) @ request_bytes 0 XS_WRITE [balloon_flag_path @ [0], bytes ''0'']"
    using store_write_ready [of 60 m ms "u\<lparr>store := y\<rparr>" "bytes ''control/uvp''" "bytes ''Balloon_flag''" "bytes ''0''" 0] ms
    by (auto simp: path_lengths bytes_length simp flip: balloon_flag_path_def)
  have run: "balloon_process e fuel s = Some (u\<lparr>store := z\<rparr>)"
    using False x(1) u(1) y(1) z(1) env(2) len by (auto simp: balloon_process_def Let_def split: if_splits)
  show ?thesis
    unfolding run using worked_store [OF u(2)] u(3) False x(3) y(3) z(2)
    by (intro exI [of _ "u\<lparr>store := z\<rparr>"] exI [of _ "u\<lparr>store := store s\<rparr>"]) simp
qed

theorem balloon_process_reports_witness:
  "\<exists>s'. balloon_process bal_example_env 3 (bal_example\<lparr>store := xs_example\<lparr>incoming := replicate 3
       (\<lparr>m_type = XS_WRITE, req_id = 0, tx_id = 0, m_len = 3\<rparr>, [79, 75, 0])\<rparr>\<rparr>) = Some s' \<and>
     current_pages s' = current_target s' \<and> bal_inv bal_example_env s'"
proof -
  let ?m = "(\<lparr>m_type = XS_WRITE, req_id = 0, tx_id = 0, m_len = 3\<rparr>, [79, 75, 0 :: u8])"
  let ?s = "bal_example\<lparr>store := xs_example\<lparr>incoming := replicate 3 ?m\<rparr>\<rparr>"
  have rdy: "ready 200 [?m, ?m, ?m] (store ?s)"
    using xs_wf0 by (simp add: ready_def xs_example_def xs_types numeral_3_eq_3)
  have inv: "bal_inv bal_example_env ?s" using bal_example_inv by simp
  have answers: "populate bal_example_env k m \<le> int m" "decrease bal_example_env k m = int m" for k m
    by (simp_all add: bal_example_env_def)
  have "nat \<bar>credit ?s\<bar> < 3" by (simp add: bal_example_credit)
  moreover have "total_pages ?s < 2 ^ 47" by (simp add: total_pages_def bal_example_def)
  ultimately obtain s' t where
    s': "balloon_process bal_example_env 3 ?s = Some s'" "worked bal_example_env ?s t" "s'\<lparr>store := store ?s\<rparr> = t"
    "refuses_nothing bal_example_env ?s \<longrightarrow> current_pages s' = current_target s'"
    using balloon_process_reports [OF inv answers _ rdy] by blast
  have "bal_inv bal_example_env s'" using s'(2,3) by (auto simp: worked_def)
  then show ?thesis using s' bal_example_full by auto
qed

section \<open>Targets\<close>

lemma unat_shift8: "unat x < 2 ^ 56 \<Longrightarrow> unat (MB2PAGES x) = unat x * 256"
  using unsigned_less [of x, where ?'a = nat] by (simp add: MB2PAGES_def push_bit_eq_mult unat_word_ariths)

lemma min_pages_unat:
  "unat (min_pages_for x) =
     (if unat x < 32768 then 2048 + unat x div 2
      else if unat x < 131072 then 10240 + unat x div 4
      else if unat x < 524288 then 26624 + unat x div 8
      else 75776 + unat x div 32)"
proof -
  have bound: "unat x div n < 2 ^ 63" if "2 \<le> n" for n
    using that unsigned_less [of x, where ?'a = nat] by (simp add: div_less_iff_less_mult)
  have mb: "MB2PAGES 8 = 2048" "MB2PAGES 40 = 10240" "MB2PAGES 104 = 26624" "MB2PAGES 296 = 75776"
    "MB2PAGES 128 = 32768" "MB2PAGES 512 = 131072" "MB2PAGES 2048 = 524288"
    by (simp_all add: MB2PAGES_def push_bit_eq_mult)
  show ?thesis
    using bound [of 2] bound [of 4] bound [of 8] bound [of 32]
    by (simp add: min_pages_for_def mb word_less_nat_alt unat64_add)
qed

lemma min_pages_mono: "x \<le> y \<Longrightarrow> min_pages_for x \<le> min_pages_for y"
  unfolding word_le_nat_alt min_pages_unat by (auto intro: div_le_mono le_trans)

text \<open>
  C36: A new target is the requested one, raised to the floor if it lies below: the floor is what
  \<open>min_pages_for\<close> says of the machine's pages, or the present target where that is lower; so
  the worker is never sent below the floor and a raised target is flagged. The piecewise floor
  grows with the memory and, from 16 MiB on, never exceeds it.
\<close>

theorem balloon_set_new_target_floor:
  assumes inv: "bal_inv e s" and s': "s' = balloon_set_new_target e target s"
  shows "target_pages s' = max target (balloon_minimum_target e s) \<and>
    min (min_pages_for (num_physpages e)) (current_target s) \<le> current_target s' \<and>
    (flag s' \<longleftrightarrow> target < balloon_minimum_target e s) \<and> work_scheduled s' \<and>
    balloon_minimum_target e s \<le> current_target s \<and>
    (4096 \<le> n \<longrightarrow> min_pages_for n \<le> n) \<and> (n \<le> n' \<longrightarrow> min_pages_for n \<le> min_pages_for n')"
proof -
  have tgt: "target_pages s' = max target (balloon_minimum_target e s)"
    and fl: "flag s' = (max target (balloon_minimum_target e s) \<noteq> target)" and w: "work_scheduled s'"
    by (simp_all add: s' balloon_set_new_target_def Let_def)
  have inv': "bal_inv e s'" and tot: "total_pages s' = total_pages s"
    using inv by (simp_all add: s' balloon_set_new_target_def Let_def bal_inv_def ballooned_ok_def total_pages_def pool_pages_def)
  have "unat (current_target s') = min (max (unat target) (unat (balloon_minimum_target e s))) (total_pages s)"
    unfolding current_target_unat [OF inv'] tgt tot by (simp add: max_def word_le_nat_alt)
  moreover have "unat (balloon_minimum_target e s) \<le> unat (current_target s)"
    by (simp add: balloon_minimum_target_def min_def word_le_nat_alt)
  moreover have "unat (current_target s) \<le> total_pages s"
    by (simp add: current_target_unat [OF inv])
  ultimately have "balloon_minimum_target e s \<le> current_target s'" "balloon_minimum_target e s \<le> current_target s"
    by (simp_all add: word_le_nat_alt)
  moreover have "4096 \<le> n \<longrightarrow> min_pages_for n \<le> n"
    unfolding word_le_nat_alt min_pages_unat by auto
  moreover have "max a b \<noteq> a \<longleftrightarrow> a < b" for a b :: u64 by (auto simp: max_def)
  ultimately show ?thesis
    using tgt fl w min_pages_mono by (simp flip: balloon_minimum_target_def)
qed

theorem balloon_set_new_target_floor_witness:
  "target_pages (balloon_set_new_target bal_example_env 3 bal_example) = 12 \<and> min_pages_for 4096 \<le> (4096 :: u64)"
proof -
  have "target_pages (balloon_set_new_target bal_example_env 3 bal_example) =
      max 3 (balloon_minimum_target bal_example_env bal_example) \<and> min_pages_for 4096 \<le> (4096 :: u64)"
    using balloon_set_new_target_floor [OF bal_example_inv refl, of 3 4096] by simp
  moreover have "balloon_minimum_target bal_example_env bal_example = 12"
    by (simp add: balloon_minimum_target_def min_pages_for_def current_target_def bal_example_def bal_example_env_def
        MB2PAGES_def Let_def push_bit_eq_mult)
  ultimately show ?thesis by simp
qed

end
