(* ===== verification/Blkfront.thy ===== *)
theory Blkfront
  imports Ring Gnttab
begin

text \<open>
  The data path of the disk front end, \<^verbatim>\<open>xen-vbd/3.12.49/blkfront.c\<close>: requests of the block
  layer become ring requests whose segments are granted page by page; the shadow array keeps a
  copy of every request in flight, and its free entries are a list threaded through the ids;
  large requests put their segments on indirect pages; after a suspend the requests in flight
  are submitted again, split where the new backend takes fewer segments. \<open>None\<close> is a \<open>BUG\<close> or
  a wild access. Everything here runs under \<open>io_lock\<close>.
\<close>

section \<open>Requests\<close>

definition BLKIF_OP_READ :: u8 where "BLKIF_OP_READ = 0"
definition BLKIF_OP_WRITE :: u8 where "BLKIF_OP_WRITE = 1"
definition BLKIF_OP_WRITE_BARRIER :: u8 where "BLKIF_OP_WRITE_BARRIER = 2"
definition BLKIF_OP_FLUSH_DISKCACHE :: u8 where "BLKIF_OP_FLUSH_DISKCACHE = 3"
definition BLKIF_OP_PACKET :: u8 where "BLKIF_OP_PACKET = 4"
definition BLKIF_OP_DISCARD :: u8 where "BLKIF_OP_DISCARD = 5"
definition BLKIF_OP_INDIRECT :: u8 where "BLKIF_OP_INDIRECT = 6"
definition BLKIF_MAX_SEGMENTS_PER_REQUEST :: nat where "BLKIF_MAX_SEGMENTS_PER_REQUEST = 11"
definition BLKIF_MAX_INDIRECT_PAGES_PER_REQUEST :: nat where "BLKIF_MAX_INDIRECT_PAGES_PER_REQUEST = 8"
definition BLKIF_SEGS_PER_INDIRECT_FRAME :: nat where "BLKIF_SEGS_PER_INDIRECT_FRAME = 512"
definition BLKIF_RSP_OKAY :: int where "BLKIF_RSP_OKAY = 0"
definition BLKIF_RSP_ERROR :: int where "BLKIF_RSP_ERROR = -1"
definition BLKIF_RSP_EOPNOTSUPP :: int where "BLKIF_RSP_EOPNOTSUPP = -2"

lemmas blkif_ops = BLKIF_OP_READ_def BLKIF_OP_WRITE_def BLKIF_OP_WRITE_BARRIER_def BLKIF_OP_FLUSH_DISKCACHE_def
  BLKIF_OP_PACKET_def BLKIF_OP_DISCARD_def BLKIF_OP_INDIRECT_def

definition BLKIF_INDIRECT_PAGES :: "nat \<Rightarrow> nat" where
  "BLKIF_INDIRECT_PAGES n = (n + BLKIF_SEGS_PER_INDIRECT_FRAME - 1) div BLKIF_SEGS_PER_INDIRECT_FRAME"

record blkif_request_segment =
  gref :: nat
  first_sect :: u8
  last_sect :: u8

text \<open>
  The three layouts of a ring request; \<open>id\<close> and \<open>sector_number\<close> are at the same place in
  each. The segments of the first are the \<open>nr_segments\<close> valid ones. In the layouts of discard
  and indirect requests the byte of \<open>nr_segments\<close> holds the flag and the indirect operation.
\<close>

datatype blkif_body =
  Rw (rw_op: u8) (rw_handle: u16) (rw_seg: "blkif_request_segment list")
| Discard (discard_flag: u8) (discard_handle: u16) (nr_sectors: u64)
| Indirect (indirect_op: u8) (ind_handle: u16) (ind_nr_segments: nat) (indirect_grefs: "nat list")

record blkif_request =
  rid :: nat
  sector_number :: u64
  body :: blkif_body

record blkif_response =
  rsp_id :: nat
  rsp_operation :: u8
  rsp_status :: int

fun req_nr_segments :: "blkif_body \<Rightarrow> nat" where
  "req_nr_segments (Rw _ _ segs) = length segs"
| "req_nr_segments (Discard fl _ _) = unat fl"
| "req_nr_segments (Indirect iop _ _ _) = unat iop"

text \<open>
  What the driver reads of a request of the block layer; \<open>rq_sg\<close> is what \<open>blk_rq_map_sg\<close>
  makes of it: machine frame, offset and length of each piece.
\<close>

datatype cmd_type = REQ_TYPE_FS | REQ_TYPE_BLOCK_PC | REQ_TYPE_other

record blk_req =
  rq_no :: nat
  rq_cmd_type :: cmd_type
  rq_cmd_len :: nat
  rq_flush_fua :: bool
  rq_discard :: bool
  rq_secure :: bool
  rq_write :: bool
  rq_pos :: u64
  rq_sectors :: u64
  rq_sg :: "(u32 \<times> nat \<times> nat) list"

section \<open>State\<close>

text \<open>
  Segment arrays live in an explicit store (\<open>None\<close> once freed), since the entries of \<open>indirect_segs\<close> and the
  resume entries point to the same arrays; \<open>seg_pages\<close> are the frames of an array's pages. The
  length of \<open>frames\<close> is the room allocated.
\<close>

record seg_array =
  seg_pages :: "u32 list"
  segs :: "blkif_request_segment list"

record blk_shadow =
  req :: blkif_request
  request :: "blk_req option"
  frames :: "u32 list"

record blk_resume_entry =
  copy :: blk_shadow
  ent_segs :: "nat option"

datatype blkif_state = BLKIF_STATE_DISCONNECTED | BLKIF_STATE_CONNECTED | BLKIF_STATE_SUSPENDED

text \<open>
  \<open>rq_pending\<close>, \<open>rq_stopped\<close> and \<open>ended\<close> are the block layer's queue: the requests to peek at,
  whether the queue is stopped, and the requests ended with their results. \<open>notified\<close> counts
  the event channel notifications, \<open>nr_seg_slots\<close> is the
  length of the array \<open>indirect_segs\<close>, and \<open>flush_updates\<close> counts the calls of \<open>xlvbd_flush\<close>.
\<close>

record blkfront_info =
  connected :: blkif_state
  bring :: front_ring
  bsring :: "(blkif_request, blkif_response) sring"
  max_segs_per_req :: nat
  vhandle :: u16
  backend_id :: u16
  shadow :: "nat \<Rightarrow> blk_shadow"
  shadow_free :: nat
  indirect_segs :: "nat \<Rightarrow> nat option"
  nr_seg_slots :: nat
  seg_store :: "nat \<Rightarrow> seg_array option"
  resume_list :: "blk_resume_entry list"
  resume_split :: "blk_resume_entry list"
  feature_flush :: nat
  flush_op :: u8
  feature_discard :: bool
  feature_secdiscard :: bool
  restart_callback :: nat
  rq_pending :: "blk_req list"
  rq_stopped :: bool
  ended :: "(blk_req \<times> int) list"
  notified :: nat
  flush_updates :: nat
  gnt :: gnttab

text \<open>
  \<open>genv\<close> is what the grant table asks of its surroundings, \<open>hyp_writes\<close> what the hypervisor
  writes to an entry while access to it is being ended, \<open>kmem\<close> the memory for an entry whose
  release is deferred.
\<close>

record blk_env =
  genv :: gnt_env
  hyp_writes :: "nat \<Rightarrow> u16 list"
  kmem :: "nat \<Rightarrow> nat option"

definition ring_size :: "blkfront_info \<Rightarrow> nat" where
  "ring_size s = unat (f_nr_ents (bring s))"

section \<open>Request ids\<close>

fun shadow_init_from :: "nat \<Rightarrow> nat \<Rightarrow> (nat \<Rightarrow> blk_shadow) \<Rightarrow> (nat \<Rightarrow> blk_shadow)" where
  "shadow_init_from i 0 sh = sh"
| "shadow_init_from i (Suc n) sh =
     shadow_init_from (i + 1) n (sh(i := (sh i)\<lparr>req := (req (sh i))\<lparr>rid := i + 1\<rparr>\<rparr>))"

definition shadow_init :: "nat \<Rightarrow> (nat \<Rightarrow> blk_shadow) \<Rightarrow> (nat \<Rightarrow> blk_shadow)" where
  "shadow_init n sh =
     (let sh = shadow_init_from 0 (n - 1) sh; i = n - 1
      in sh(i := (sh i)\<lparr>req := (req (sh i))\<lparr>rid := 0x0fffffff\<rparr>\<rparr>))"

definition GET_ID_FROM_FREELIST :: "blkfront_info \<Rightarrow> (nat \<times> blkfront_info) option" where
  "GET_ID_FROM_FREELIST s =
     (let free = shadow_free s
      in if free \<ge> ring_size s then None
         else let s = s\<lparr>shadow_free := rid (req (shadow s free))\<rparr>
              in Some (free, s\<lparr>shadow := (shadow s)(free := (shadow s free)\<lparr>req := (req (shadow s free))\<lparr>rid := 0x0fffffee\<rparr>\<rparr>)\<rparr>))"

definition ADD_ID_TO_FREELIST :: "nat \<Rightarrow> blkfront_info \<Rightarrow> int \<times> blkfront_info" where
  "ADD_ID_TO_FREELIST i s =
     (if rid (req (shadow s i)) \<noteq> i then (- EINVAL, s)
      else if request (shadow s i) = None then (- ENXIO, s)
      else (0, s\<lparr>shadow := (shadow s)(i := (shadow s i)\<lparr>req := (req (shadow s i))\<lparr>rid := shadow_free s\<rparr>,
                                        request := None\<rparr>),
                 shadow_free := i\<rparr>))"

definition op_name :: "u8 \<Rightarrow> string" where
  "op_name op =
     (let names = [''read'', ''write'', ''barrier'', ''flush'', ''packet'', ''discard'', ''indirect'']
      in if unat op \<ge> length names then ''unknown'' else names ! unat op)"

section \<open>Submitting a request\<close>

definition flush_requests :: "blkfront_info \<Rightarrow> blkfront_info" where
  "flush_requests s =
     (case RING_PUSH_REQUESTS_AND_CHECK_NOTIFY (bring s) (bsring s) of (notify, sr) \<Rightarrow>
        let s = s\<lparr>bsring := sr\<rparr> in if notify then s\<lparr>notified := notified s + 1\<rparr> else s)"

text \<open>Claim a reference of the private list for each frame and grant the frame through it.\<close>

fun claim_grants :: "u16 \<Rightarrow> u32 list \<Rightarrow> u16 \<Rightarrow> nat \<Rightarrow> gnttab \<Rightarrow> (nat list \<times> nat \<times> gnttab) option" where
  "claim_grants dmn [] fl head g = Some ([], head, g)"
| "claim_grants dmn (f # fs) fl head g =
     (case gnttab_claim_grant_reference head g of None \<Rightarrow> None
      | Some (ref, head) \<Rightarrow>
          if ref = - ENOSPC then None
          else (case gnttab_grant_foreign_access_ref (nat ref) dmn f fl g of None \<Rightarrow> None
                | Some g \<Rightarrow> map_option (\<lambda>(refs, head, g). (nat ref # refs, head, g)) (claim_grants dmn fs fl head g)))"

definition data_flags :: "blk_req \<Rightarrow> u16" where
  "data_flags r = (if rq_write r then GTF_readonly else 0)"

definition sg_segment :: "nat \<Rightarrow> u32 \<times> nat \<times> nat \<Rightarrow> blkif_request_segment" where
  "sg_segment ref p =
     (case p of (_, offset, len) \<Rightarrow>
        let fsect = (of_nat (offset div 512) :: u32)
        in \<lparr>gref = ref, first_sect = ucast fsect, last_sect = ucast (fsect + of_nat (len div 512) - 1)\<rparr>)"

definition request_op :: "blkfront_info \<Rightarrow> blk_req \<Rightarrow> u8" where
  "request_op s r =
     (let op = (if rq_write r then BLKIF_OP_WRITE else BLKIF_OP_READ);
          op = (if rq_flush_fua r then flush_op s else op)
      in if rq_cmd_type r = REQ_TYPE_BLOCK_PC then BLKIF_OP_PACKET else op)"

definition wanted_refs :: "blkfront_info \<Rightarrow> nat" where
  "wanted_refs s =
     (let n = max_segs_per_req s
      in if n > BLKIF_MAX_SEGMENTS_PER_REQUEST then n + BLKIF_INDIRECT_PAGES n else n)"

text \<open>\<open>a\<close> with its first elements overwritten.\<close>

definition store_prefix :: "'a list \<Rightarrow> 'a list \<Rightarrow> 'a list" where
  "store_prefix xs a = xs @ drop (length xs) a"

text \<open>
  The body of a read or write: the indirect pages are granted first, then the data pages; the
  segments go to the ring request or to the array of the id.
\<close>

definition map_request :: "nat \<Rightarrow> blk_req \<Rightarrow> nat \<Rightarrow> blkfront_info \<Rightarrow> (blkif_body \<times> nat \<times> blkfront_info) option" where
  "map_request i r head s =
     (let n = length (rq_sg r); op = request_op s r; fs = map fst (rq_sg r)
      in if n > max_segs_per_req s then None
         else if n \<le> BLKIF_MAX_SEGMENTS_PER_REQUEST
         then (case claim_grants (backend_id s) fs (data_flags r) head (gnt s) of None \<Rightarrow> None
               | Some (refs, head, g) \<Rightarrow>
                   Some (Rw op (vhandle s) (map2 sg_segment refs (rq_sg r)), head,
                         s\<lparr>gnt := g, shadow := (shadow s)(i := (shadow s i)\<lparr>frames := store_prefix fs (frames (shadow s i))\<rparr>)\<rparr>))
         else (case Option.bind (indirect_segs s i) (\<lambda>p. map_option (Pair p) (seg_store s p)) of None \<Rightarrow> None
               | Some (p, a) \<Rightarrow>
                   (case claim_grants (backend_id s) (take (BLKIF_INDIRECT_PAGES n) (seg_pages a)) GTF_readonly head (gnt s) of
                      None \<Rightarrow> None
                    | Some (prefs, head, g) \<Rightarrow>
                        (case claim_grants (backend_id s) fs (data_flags r) head g of None \<Rightarrow> None
                         | Some (refs, head, g) \<Rightarrow>
                             Some (Indirect op (vhandle s) n prefs, head,
                                   s\<lparr>gnt := g,
                                     seg_store := (seg_store s)(p \<mapsto> a\<lparr>segs := store_prefix (map2 sg_segment refs (rq_sg r)) (segs a)\<rparr>),
                                     shadow := (shadow s)(i := (shadow s i)\<lparr>frames := store_prefix fs (frames (shadow s i))\<rparr>)\<rparr>)))))"

definition blkif_queue_request :: "blk_env \<Rightarrow> blk_req \<Rightarrow> blkfront_info \<Rightarrow> (int \<times> blkfront_info) option" where
  "blkif_queue_request e r s =
     (if connected s \<noteq> BLKIF_STATE_CONNECTED then Some (1, s)
      else let nr_segs = wanted_refs s
      in case gnttab_alloc_grant_references (genv e) (of_nat nr_segs) (gnt s) of None \<Rightarrow> None
         | Some (rc, head, g) \<Rightarrow>
             (case head of
                None \<Rightarrow> Some (1, s\<lparr>gnt := gnttab_request_free_callback (restart_callback s) 0 0 (of_nat nr_segs) g\<rparr>)
              | Some head \<Rightarrow>
                  (case GET_ID_FROM_FREELIST (s\<lparr>gnt := g\<rparr>) of None \<Rightarrow> None
                   | Some (i, s) \<Rightarrow>
                       let s = s\<lparr>shadow := (shadow s)(i := (shadow s i)\<lparr>request := Some r\<rparr>)\<rparr>
                       in (case (if rq_discard r \<or> rq_secure r
                                 then Some (Discard (if rq_secure r \<and> feature_secdiscard s then 1 else 0)
                                              (vhandle s) (rq_sectors r), head, s)
                                 else map_request i r head s) of None \<Rightarrow> None
                           | Some (b, head, s) \<Rightarrow>
                               let q = \<lparr>rid = i, sector_number = rq_pos r, body = b\<rparr>;
                                   s = s\<lparr>bsring := ring_put (f_nr_ents (bring s)) (req_prod_pvt (bring s)) (Req q) (bsring s),
                                         bring := (bring s)\<lparr>req_prod_pvt := req_prod_pvt (bring s) + 1\<rparr>,
                                         shadow := (shadow s)(i := (shadow s i)\<lparr>req := q\<rparr>)\<rparr>
                               in (case gnttab_free_grant_references (nr_segs + 1) head (gnt s) of None \<Rightarrow> None
                                   | Some g \<Rightarrow> Some (0, s\<lparr>gnt := g\<rparr>))))))"

section \<open>The request function of the queue\<close>

definition unsupported :: "blkfront_info \<Rightarrow> blk_req \<Rightarrow> bool" where
  "unsupported s r \<longleftrightarrow>
     (rq_cmd_type r \<noteq> REQ_TYPE_FS \<and> (rq_cmd_type r \<noteq> REQ_TYPE_BLOCK_PC \<or> rq_cmd_len r \<noteq> 0)) \<or>
     (rq_flush_fua r \<and> flush_op s = 0)"

definition end_request :: "blk_req \<Rightarrow> int \<Rightarrow> blkfront_info \<Rightarrow> blkfront_info" where
  "end_request r err s = s\<lparr>ended := ended s @ [(r, err)]\<rparr>"

fun queue_requests :: "blk_env \<Rightarrow> blk_req list \<Rightarrow> nat \<Rightarrow> blkfront_info \<Rightarrow> (nat \<times> blkfront_info) option" where
  "queue_requests e [] queued s = Some (queued, s\<lparr>rq_pending := []\<rparr>)"
| "queue_requests e (r # rs) queued s =
     (if RING_FULL (bring s) then Some (queued, s\<lparr>rq_pending := r # rs, rq_stopped := True\<rparr>)
      else if unsupported s r then queue_requests e rs queued (end_request r (- EIO) s)
      else (case blkif_queue_request e r s of None \<Rightarrow> None
            | Some (rc, s) \<Rightarrow>
                if rc \<noteq> 0 then Some (queued, s\<lparr>rq_pending := r # rs, rq_stopped := True\<rparr>)
                else queue_requests e rs (queued + 1) s))"

definition do_blkif_request :: "blk_env \<Rightarrow> blkfront_info \<Rightarrow> blkfront_info option" where
  "do_blkif_request e s =
     (case queue_requests e (rq_pending s) 0 s of None \<Rightarrow> None
      | Some (queued, s) \<Rightarrow> Some (if queued \<noteq> 0 then flush_requests s else s))"

section \<open>Requests to be submitted again\<close>

fun regrant :: "u16 \<Rightarrow> (nat \<times> u32) list \<Rightarrow> u16 \<Rightarrow> gnttab \<Rightarrow> gnttab option" where
  "regrant dmn [] fl g = Some g"
| "regrant dmn ((r, f) # rs) fl g =
     (case gnttab_grant_foreign_access_ref r dmn f fl g of None \<Rightarrow> None | Some g \<Rightarrow> regrant dmn rs fl g)"

text \<open>
  The array of the slot is moved to the highest empty slot, or freed when there is none; an
  index beyond the array of slots is a wild access.
\<close>

definition displace_segs :: "nat \<Rightarrow> nat option \<Rightarrow> blkfront_info \<Rightarrow> blkfront_info option" where
  "displace_segs i new s =
     (if i \<ge> nr_seg_slots s then None
      else case indirect_segs s i of
             None \<Rightarrow> Some (s\<lparr>indirect_segs := (indirect_segs s)(i := new)\<rparr>)
           | Some old \<Rightarrow>
               if ring_size s > nr_seg_slots s then None
               else (case find (\<lambda>j. indirect_segs s j = None) (rev [0..<ring_size s]) of
                       Some j \<Rightarrow> Some (s\<lparr>indirect_segs := (indirect_segs s)(j \<mapsto> old, i := new)\<rparr>)
                     | None \<Rightarrow> Some (s\<lparr>seg_store := (seg_store s)(old := None),
                                       indirect_segs := (indirect_segs s)(i := new)\<rparr>)))"

definition entry_flags :: "blk_resume_entry \<Rightarrow> u16" where
  "entry_flags ent = (case request (copy ent) of None \<Rightarrow> 0 | Some r \<Rightarrow> data_flags r)"

text \<open>The first segments of a large request as a small one; the entry remembers the id.\<close>

definition split_request :: "nat \<Rightarrow> blk_resume_entry \<Rightarrow> blkif_request_segment list \<Rightarrow> blkfront_info \<Rightarrow>
    (blkif_request \<times> blk_resume_entry \<times> blkfront_info) option" where
  "split_request i ent sgs s =
     (let n = BLKIF_MAX_SEGMENTS_PER_REQUEST; first = take n sgs; fs = take n (frames (copy ent))
      in case body (req (copy ent)) of
           Indirect iop h _ _ \<Rightarrow>
             if length first < n \<or> length fs < n then None
             else (case regrant (backend_id s) (zip (map gref first) fs) (entry_flags ent) (gnt s) of None \<Rightarrow> None
                   | Some g \<Rightarrow>
                       Some ((req (copy ent))\<lparr>rid := i, body := Rw iop h first\<rparr>,
                             ent\<lparr>copy := (copy ent)\<lparr>req := (req (copy ent))\<lparr>rid := i\<rparr>\<rparr>\<rparr>,
                             s\<lparr>gnt := g,
                               shadow := (shadow s)(i := (shadow s i)\<lparr>frames := store_prefix fs (frames (shadow s i))\<rparr>)\<rparr>))
         | _ \<Rightarrow> None)"

text \<open>
  An entry's request in a new slot. The last result tells whether the entry waits on
  \<open>resume_split\<close>. In a discard request the byte read as the number of segments is the flag,
  and the entry has no frames: a flag other than 0 is a wild read.
\<close>

definition resubmit :: "nat \<Rightarrow> blk_resume_entry \<Rightarrow> blkfront_info \<Rightarrow>
    (blkif_request \<times> blk_resume_entry option \<times> blkfront_info) option" where
  "resubmit i ent s =
     (let q = (req (copy ent))\<lparr>rid := i\<rparr>; fs = frames (copy ent)
      in case body q of
           Indirect iop h n grefs \<Rightarrow>
             (case displace_segs i (ent_segs ent) s of None \<Rightarrow> None
              | Some s \<Rightarrow>
                  (case Option.bind (ent_segs ent) (seg_store s) of None \<Rightarrow> None
                   | Some a \<Rightarrow>
                       if n > max_segs_per_req s
                       then map_option (\<lambda>(q, ent, s). (q, Some ent, s)) (split_request i ent (segs a) s)
                       else if length fs < n then None
                       else (case regrant (backend_id s)
                                    (zip (take (BLKIF_INDIRECT_PAGES n) grefs) (seg_pages a)) GTF_readonly (gnt s) of
                               None \<Rightarrow> None
                             | Some g \<Rightarrow>
                                 (case regrant (backend_id s) (zip (map gref (take n (segs a))) fs) (entry_flags ent) g of
                                    None \<Rightarrow> None
                                  | Some g \<Rightarrow>
                                      Some (q, None, s\<lparr>gnt := g, shadow := (shadow s)(i := (shadow s i)
                                        \<lparr>frames := store_prefix (take n fs) (frames (shadow s i))\<rparr>)\<rparr>)))))
         | Rw op h sgs \<Rightarrow>
             if length fs < length sgs then None
             else (case regrant (backend_id s) (zip (map gref sgs) fs) (entry_flags ent) (gnt s) of None \<Rightarrow> None
                   | Some g \<Rightarrow>
                       Some (q, None, s\<lparr>gnt := g, shadow := (shadow s)(i := (shadow s i)
                         \<lparr>frames := store_prefix (take (length sgs) fs) (frames (shadow s i))\<rparr>)\<rparr>))
         | Discard fl h n \<Rightarrow> if fl = 0 then Some (q, None, s) else None)"

definition requeue_entry :: "blk_resume_entry \<Rightarrow> blkfront_info \<Rightarrow> blkfront_info option" where
  "requeue_entry ent s =
     (case GET_ID_FROM_FREELIST s of None \<Rightarrow> None
      | Some (i, s) \<Rightarrow>
          (case resubmit i ent
                  (s\<lparr>shadow := (shadow s)(i := (copy ent)\<lparr>req := (req (copy ent))\<lparr>rid := i\<rparr>, frames := frames (shadow s i)\<rparr>)\<rparr>) of
             None \<Rightarrow> None
           | Some (q, wait, s) \<Rightarrow>
               Some (s\<lparr>bsring := ring_put (f_nr_ents (bring s)) (req_prod_pvt (bring s)) (Req q) (bsring s),
                       bring := (bring s)\<lparr>req_prod_pvt := req_prod_pvt (bring s) + 1\<rparr>,
                       resume_split := resume_split s @ (case wait of None \<Rightarrow> [] | Some ent \<Rightarrow> [ent])\<rparr>)))"

fun requeue_entries :: "blk_resume_entry list \<Rightarrow> bool \<Rightarrow> blkfront_info \<Rightarrow> (bool \<times> blkfront_info) option" where
  "requeue_entries [] queued s = Some (queued, s\<lparr>resume_list := []\<rparr>)"
| "requeue_entries (ent # ents) queued s =
     (if RING_FULL (bring s) then Some (queued, s\<lparr>resume_list := ent # ents\<rparr>)
      else case requeue_entry ent s of None \<Rightarrow> None | Some s \<Rightarrow> requeue_entries ents True s)"

text \<open>Starting the queue clears its flag and runs its request function.\<close>

definition blk_start_queue :: "blk_env \<Rightarrow> blkfront_info \<Rightarrow> blkfront_info option" where
  "blk_start_queue e s = do_blkif_request e (s\<lparr>rq_stopped := False\<rparr>)"

definition kick_pending_request_queues :: "blk_env \<Rightarrow> blkfront_info \<Rightarrow> blkfront_info option" where
  "kick_pending_request_queues e s =
     (case requeue_entries (resume_list s) False s of None \<Rightarrow> None
      | Some (queued, s) \<Rightarrow>
          let s = (if queued then flush_requests s else s)
          in if resume_split s = [] \<and> resume_list s = [] \<and> \<not> RING_FULL (bring s)
             then Option.bind (blk_start_queue e s) (do_blkif_request e)
             else Some s)"

definition blkif_restart_queue :: "blk_env \<Rightarrow> blkfront_info \<Rightarrow> blkfront_info option" where
  "blkif_restart_queue e s =
     (if connected s = BLKIF_STATE_CONNECTED then kick_pending_request_queues e s else Some s)"

section \<open>Responses\<close>

fun end_refs :: "blk_env \<Rightarrow> nat list \<Rightarrow> gnttab \<Rightarrow> gnttab option" where
  "end_refs e [] g = Some g"
| "end_refs e (r # rs) g =
     (case gnttab_end_foreign_access (hyp_writes e r) (kmem e r) r None g of None \<Rightarrow> None | Some g \<Rightarrow> end_refs e rs g)"

definition end_gnt :: "blk_env \<Rightarrow> nat list \<Rightarrow> blkfront_info \<Rightarrow> blkfront_info option" where
  "end_gnt e refs s = map_option (\<lambda>g. s\<lparr>gnt := g\<rparr>) (end_refs e refs (gnt s))"

text \<open>The next piece of a split request: the array moves up, and the entry waits for a slot.\<close>

definition next_piece :: "blk_resume_entry \<Rightarrow> blkif_request_segment list \<Rightarrow> blk_resume_entry" where
  "next_piece ent sgs =
     (case body (req (copy ent)) of
        Indirect iop h n grefs \<Rightarrow>
          let n' = n - BLKIF_MAX_SEGMENTS_PER_REQUEST;
              b = (if n' \<le> BLKIF_MAX_SEGMENTS_PER_REQUEST then Rw iop h (take n' sgs) else Indirect iop h n' grefs)
          in ent\<lparr>copy := (copy ent)\<lparr>frames := drop BLKIF_MAX_SEGMENTS_PER_REQUEST (frames (copy ent)),
                                     req := (req (copy ent))\<lparr>body := b\<rparr>\<rparr>\<rparr>
      | _ \<Rightarrow> ent)"

definition blkif_completion :: "blk_env \<Rightarrow> nat \<Rightarrow> int \<Rightarrow> blkfront_info \<Rightarrow> (bool \<times> blkfront_info) option" where
  "blkif_completion e i status s =
     (case body (req (shadow s i)) of
        Discard _ _ _ \<Rightarrow> Some (True, s)
      | Rw _ _ sgs \<Rightarrow> map_option (Pair True) (end_gnt e (map gref sgs) s)
      | Indirect iop h n grefs \<Rightarrow>
          (case (if i \<ge> nr_seg_slots s then None
                 else Option.bind (indirect_segs s i) (\<lambda>p. map_option (Pair p) (seg_store s p))) of
             None \<Rightarrow> None
           | Some (p, a) \<Rightarrow>
               (case find (\<lambda>t. rid (req (copy t)) = i) (resume_split s) of
                  None \<Rightarrow>
                    (case end_gnt e (map gref (take n (segs a))) s of None \<Rightarrow> None
                     | Some s \<Rightarrow>
                         (case gnttab_multi_end_foreign_access (hyp_writes e) (map (kmem e) grefs)
                                 (take (BLKIF_INDIRECT_PAGES n) grefs) None (gnt s) of None \<Rightarrow> None
                          | Some (refs, _, g) \<Rightarrow>
                              Some (True, s\<lparr>gnt := g, shadow := (shadow s)(i := (shadow s i)\<lparr>req := (req (shadow s i))
                                \<lparr>body := Indirect iop h n (store_prefix refs grefs)\<rparr>\<rparr>)\<rparr>)))
                | Some ent \<Rightarrow>
                    (case end_gnt e (map gref (take BLKIF_MAX_SEGMENTS_PER_REQUEST (segs a)))
                            (s\<lparr>resume_split := remove1 ent (resume_split s)\<rparr>) of None \<Rightarrow> None
                     | Some s \<Rightarrow>
                         if status \<noteq> BLKIF_RSP_OKAY then Some (True, s)
                         else let m = ind_nr_segments (body (req (copy ent)));
                                  sgs = store_prefix (drop BLKIF_MAX_SEGMENTS_PER_REQUEST (take m (segs a))) (segs a)
                              in Some (False, s\<lparr>seg_store := (seg_store s)(p \<mapsto> a\<lparr>segs := sgs\<rparr>),
                                                resume_list := resume_list s @ [next_piece ent sgs]\<rparr>)))))"

text \<open>
  The result a response gives its request, and what it teaches the driver: a flush the backend
  does not know switches flushes off, a discard it does not know switches discards off. An
  operation no request has is \<open>BUG\<close>.
\<close>

definition response_result :: "nat \<Rightarrow> blkif_response \<Rightarrow> blkfront_info \<Rightarrow> (int \<times> blkfront_info) option" where
  "response_result i p s =
     (let op = rsp_operation p; st = rsp_status p;
          ret = (if st = BLKIF_RSP_OKAY then 0 else - EIO);
          n = (case body (req (shadow s i)) of Indirect _ _ n _ \<Rightarrow> n | b \<Rightarrow> req_nr_segments b)
      in if op = BLKIF_OP_FLUSH_DISKCACHE \<or> op = BLKIF_OP_WRITE_BARRIER
         then (let ret = (if st = BLKIF_RSP_EOPNOTSUPP \<or> st = BLKIF_RSP_ERROR \<and> n = 0 then - EOPNOTSUPP else ret)
               in if ret = 0 then Some (0, s)
                  else Some (if ret = - EOPNOTSUPP then 0 else ret,
                             s\<lparr>feature_flush := 0, flush_updates := flush_updates s + 1\<rparr>))
         else if op = BLKIF_OP_READ \<or> op = BLKIF_OP_WRITE \<or> op = BLKIF_OP_PACKET then Some (ret, s)
         else if op = BLKIF_OP_DISCARD
         then (if st = BLKIF_RSP_EOPNOTSUPP
               then Some (- EOPNOTSUPP, s\<lparr>feature_discard := False, feature_secdiscard := False\<rparr>)
               else Some (ret, s))
         else None)"

text \<open>The request of a free slot is \<open>NULL\<close>; ending it is a wild access, as is ending none.\<close>

definition handle_response :: "blk_env \<Rightarrow> blkif_response \<Rightarrow> blkfront_info \<Rightarrow> blkfront_info option" where
  "handle_response e p s =
     (if rsp_id p \<ge> ring_size s then Some s
      else let i = rsp_id p; r = request (shadow s i)
      in case blkif_completion e i (rsp_status p) s of None \<Rightarrow> None
         | Some (fin, s) \<Rightarrow>
             (case ADD_ID_TO_FREELIST i s of (ret, s) \<Rightarrow>
                if ret \<noteq> 0 then Some s
                else if \<not> fin then Some s
                else (case response_result i p s of None \<Rightarrow> None
                      | Some (ret, s) \<Rightarrow>
                          (case r of None \<Rightarrow> None | Some r \<Rightarrow> Some (end_request r ret s)))))"

fun handle_responses :: "blk_env \<Rightarrow> nat \<Rightarrow> ring_idx \<Rightarrow> blkfront_info \<Rightarrow> blkfront_info option" where
  "handle_responses e 0 i s = Some s"
| "handle_responses e (Suc n) i s =
     (case RING_GET_RESPONSE (f_nr_ents (bring s)) (bsring s) i of None \<Rightarrow> None
      | Some p \<Rightarrow> (case handle_response e p s of None \<Rightarrow> None | Some s \<Rightarrow> handle_responses e n (i + 1) s))"

text \<open>
  \<open>peers\<close> is what the backend does to the ring at each final check; it is quiet when the list
  is used up. A slot it has not filled with a response reads as \<open>None\<close>.
\<close>

definition drain :: "blk_env \<Rightarrow> blkfront_info \<Rightarrow> blkfront_info option" where
  "drain e s =
     (let rp = rsp_prod (bsring s)
      in map_option (\<lambda>s. s\<lparr>bring := (bring s)\<lparr>rsp_cons := rp\<rparr>\<rparr>)
           (handle_responses e (unat (rp - rsp_cons (bring s))) (rsp_cons (bring s)) s))"

fun int_loop :: "blk_env \<Rightarrow> ((blkif_request, blkif_response) sring \<Rightarrow> (blkif_request, blkif_response) sring) list \<Rightarrow>
    blkfront_info \<Rightarrow> blkfront_info option" where
  "int_loop e [] s =
     (case drain e s of None \<Rightarrow> None
      | Some s \<Rightarrow> Some (s\<lparr>bsring := (bsring s)\<lparr>rsp_event := rsp_cons (bring s) + 1\<rparr>\<rparr>))"
| "int_loop e (peer # peers) s =
     (case drain e s of None \<Rightarrow> None
      | Some s \<Rightarrow>
          if rsp_cons (bring s) \<noteq> req_prod_pvt (bring s)
          then (case RING_FINAL_CHECK_FOR_RESPONSES peer (bring s) (bsring s) of (work, sr) \<Rightarrow>
                  if work \<noteq> 0 then int_loop e peers (s\<lparr>bsring := sr\<rparr>) else Some (s\<lparr>bsring := sr\<rparr>))
          else Some (s\<lparr>bsring := (bsring s)\<lparr>rsp_event := rsp_cons (bring s) + 1\<rparr>\<rparr>))"

definition blkif_int :: "blk_env \<Rightarrow> ((blkif_request, blkif_response) sring \<Rightarrow> (blkif_request, blkif_response) sring) list \<Rightarrow>
    blkfront_info \<Rightarrow> blkfront_info option" where
  "blkif_int e peers s =
     (if connected s \<noteq> BLKIF_STATE_CONNECTED then Some s
      else Option.bind (int_loop e peers s) (kick_pending_request_queues e))"

section \<open>Recovery after a suspend\<close>

definition saved_segs :: "blkif_body \<Rightarrow> nat" where
  "saved_segs b = (case b of Rw _ _ sgs \<Rightarrow> length sgs | Indirect _ _ n _ \<Rightarrow> n | Discard _ _ _ \<Rightarrow> 0)"

text \<open>Stage 1: copies of the requests in flight; \<open>mem\<close> is whether memory for a slot's copy was found.\<close>

fun save_shadow :: "(nat \<Rightarrow> bool) \<Rightarrow> nat list \<Rightarrow> blk_resume_entry list \<Rightarrow> blkfront_info \<Rightarrow>
    (bool \<times> blk_resume_entry list \<times> blkfront_info) option" where
  "save_shadow mem [] ents s = Some (True, ents, s)"
| "save_shadow mem (i # is) ents s =
     (let sh = shadow s i; n = saved_segs (body (req sh))
      in if request sh = None then save_shadow mem is ents s
         else if \<not> mem i then Some (False, ents, s)
         else if length (frames sh) < n then None
         else let c = sh\<lparr>frames := take n (frames sh)\<rparr>
         in (case body (req sh) of
               Indirect _ _ _ _ \<Rightarrow>
                 if i \<ge> nr_seg_slots s then None
                 else save_shadow mem is (ents @ [\<lparr>copy = c, ent_segs = indirect_segs s i\<rparr>])
                        (s\<lparr>indirect_segs := (indirect_segs s)(i := None)\<rparr>)
             | _ \<Rightarrow> save_shadow mem is (ents @ [\<lparr>copy = c, ent_segs = None\<rparr>]) s))"

text \<open>Stage 2: the slots are cleared; filling more than was allocated for a slot is a wild write.\<close>

fun clear_shadow :: "nat list \<Rightarrow> blkfront_info \<Rightarrow> blkfront_info option" where
  "clear_shadow [] s = Some s"
| "clear_shadow (i # is) s =
     (if length (frames (shadow s i)) < max_segs_per_req s then None
      else clear_shadow is (s\<lparr>shadow := (shadow s)(i :=
             \<lparr>req = \<lparr>rid = 0, sector_number = 0, body = Rw 0 0 []\<rparr>, request = None,
              frames = store_prefix (replicate (max_segs_per_req s) (-1)) (frames (shadow s i))\<rparr>)\<rparr>))"

definition blkif_recover_shadow :: "(nat \<Rightarrow> bool) \<Rightarrow> nat \<Rightarrow> nat \<Rightarrow> blkfront_info \<Rightarrow> (int \<times> blkfront_info) option" where
  "blkif_recover_shadow mem old_ring_size nr s =
     (case save_shadow mem [0..<old_ring_size] [] s of None \<Rightarrow> None
      | Some (False, _, s) \<Rightarrow> Some (- ENOMEM, s)
      | Some (True, ents, s) \<Rightarrow>
          (case clear_shadow [0..<old_ring_size] (s\<lparr>resume_list := resume_list s @ ents\<rparr>) of None \<Rightarrow> None
           | Some s \<Rightarrow> Some (0, s\<lparr>shadow := shadow_init nr (shadow s),
                                  shadow_free := unat (req_prod_pvt (bring s))\<rparr>)))"

section \<open>Geometry\<close>

text \<open>Heads, sectors and cylinders; the number of cylinders is kept in 16 bits.\<close>

definition blkif_getgeo :: "u64 \<Rightarrow> u8 \<times> u8 \<times> u16" where
  "blkif_getgeo nsect =
     (let heads = 0xff; sectors = 0x3f;
          cyl = (ucast (nsect div (ucast heads * ucast sectors)) :: u16)
      in (heads, sectors,
          if (ucast cyl + 1) * ucast heads * ucast sectors < nsect then 0xffff else cyl))"

end
