(* ===== verification/Blkfront_Props.thy ===== *)
theory Blkfront_Props
  imports Blkfront Gnttab_Props "HOL-Library.Multiset"
begin

text \<open>
  The disk front end: its request ids are an allocator in the sense of \<^verbatim>\<open>Freelist\<close>; no request
  of the block layer is lost or ended twice, whatever the backend answers; what a submitted
  request says and grants; splitting; recovery; geometry.
\<close>

section \<open>The list of free ids\<close>

definition blk_next :: "blkfront_info \<Rightarrow> nat \<Rightarrow> nat" where
  "blk_next s i = rid (req (shadow s i))"

fun walk :: "(nat \<Rightarrow> nat) \<Rightarrow> nat \<Rightarrow> nat \<Rightarrow> nat \<Rightarrow> nat list" where
  "walk nx n 0 h = []"
| "walk nx n (Suc k) h = (if h \<ge> n then [] else h # walk nx n k (nx h))"

definition SHADOW_END :: nat where "SHADOW_END = 0x0fffffff"

definition blk_free :: "blkfront_info \<Rightarrow> nat list" where
  "blk_free s = walk (blk_next s) (ring_size s) (ring_size s) (shadow_free s)"

lemma walk_linked: "linked nx h e xs \<Longrightarrow> set xs \<subseteq> {..<n} \<Longrightarrow> n \<le> e \<Longrightarrow> length xs \<le> k \<Longrightarrow> walk nx n k h = xs"
proof (induction xs arbitrary: h k)
  case Nil
  then show ?case by (cases k) simp_all
next
  case (Cons x xs)
  then show ?case by (cases k) auto
qed

lemma distinct_below_length: "distinct xs \<Longrightarrow> set xs \<subseteq> {..<n} \<Longrightarrow> length xs \<le> (n :: nat)"
  using card_mono [of "{..<n}" "set xs"] by (simp add: distinct_card)

text \<open>The free ids are \<open>xs\<close>, and every other id below the ring size carries a request.\<close>

definition ids_are :: "nat list \<Rightarrow> blkfront_info \<Rightarrow> bool" where
  "ids_are xs s \<longleftrightarrow> linked (blk_next s) (shadow_free s) SHADOW_END xs \<and> distinct xs \<and> set xs \<subseteq> {..<ring_size s} \<and>
     ring_size s \<le> 512 \<and>
     (\<forall>i < ring_size s. i \<notin> set xs \<longrightarrow> rid (req (shadow s i)) = i \<and> request (shadow s i) \<noteq> None) \<and>
     (\<forall>i \<in> set xs. request (shadow s i) = None) \<and> (\<forall>i \<ge> ring_size s. request (shadow s i) = None)"

definition blk_ids_inv :: "blkfront_info \<Rightarrow> bool" where
  "blk_ids_inv s \<longleftrightarrow> ids_are (blk_free s) s"

lemma ids_are_free: "ids_are xs s \<Longrightarrow> blk_free s = xs"
  unfolding blk_free_def ids_are_def
  by (intro walk_linked [where e = SHADOW_END]) (auto simp: SHADOW_END_def distinct_below_length)

lemma ids_are_inv: "ids_are xs s \<Longrightarrow> blk_ids_inv s"
  using ids_are_free by (simp add: blk_ids_inv_def)

lemma ids_are_iff: "ids_are xs s \<longleftrightarrow> blk_ids_inv s \<and> blk_free s = xs"
  using ids_are_free by (auto simp: blk_ids_inv_def)

text \<open>The part of the state the ids depend on.\<close>

definition same_ids :: "blkfront_info \<Rightarrow> blkfront_info \<Rightarrow> bool" where
  "same_ids s t \<longleftrightarrow> ring_size t = ring_size s \<and> shadow_free t = shadow_free s \<and>
     (\<forall>i. rid (req (shadow t i)) = rid (req (shadow s i)) \<and> request (shadow t i) = request (shadow s i))"

lemma same_ids_are: "same_ids s t \<Longrightarrow> ids_are xs t = ids_are xs s"
  unfolding same_ids_def ids_are_def blk_next_def by simp

lemma same_ids_refl [simp]: "same_ids s s" by (simp add: same_ids_def)

lemma same_ids_trans: "same_ids s t \<Longrightarrow> same_ids t u \<Longrightarrow> same_ids s u" by (simp add: same_ids_def)

lemma get_id_empty: "ids_are [] s \<Longrightarrow> GET_ID_FROM_FREELIST s = None"
  by (auto simp: ids_are_def GET_ID_FROM_FREELIST_def SHADOW_END_def Let_def)

lemma get_id_next:
  assumes "ids_are (x # xs) s"
  shows "GET_ID_FROM_FREELIST s = Some (x, s\<lparr>shadow_free := rid (req (shadow s x)),
      shadow := (shadow s)(x := (shadow s x)\<lparr>req := (req (shadow s x))\<lparr>rid := 0x0fffffee\<rparr>\<rparr>)\<rparr>)"
  using assms by (auto simp: ids_are_def GET_ID_FROM_FREELIST_def Let_def)

text \<open>Taking the first free id, with a request and its own number written to the slot.\<close>

lemma ids_take:
  assumes xs: "ids_are (x # xs) s" and t: "shadow_free t = blk_next s x" "ring_size t = ring_size s"
    "\<And>i. i \<noteq> x \<Longrightarrow> rid (req (shadow t i)) = rid (req (shadow s i)) \<and> request (shadow t i) = request (shadow s i)"
    "rid (req (shadow t x)) = x" "request (shadow t x) \<noteq> None"
  shows "ids_are xs t"
proof -
  have x: "x \<notin> set xs" and l: "linked (blk_next s) (blk_next s x) SHADOW_END xs"
    using xs by (auto simp: ids_are_def)
  have "linked (blk_next t) (blk_next s x) SHADOW_END xs = linked (blk_next s) (blk_next s x) SHADOW_END xs"
    using t(3) x by (intro linked_cong) (metis blk_next_def)
  moreover have "request (shadow t i) = None" if "i \<in> set xs" for i
    using that x xs t(3) by (metis ids_are_def list.set_intros(2))
  moreover have "rid (req (shadow t i)) = i \<and> request (shadow t i) \<noteq> None" if "i < ring_size s" "i \<notin> set xs" for i
  proof (cases "i = x")
    case False
    then have "rid (req (shadow s i)) = i \<and> request (shadow s i) \<noteq> None" using xs that by (simp add: ids_are_def)
    then show ?thesis using t(3) [OF False] by simp
  qed (use t in simp)
  moreover have "request (shadow t i) = None" if "ring_size s \<le> i" for i
  proof -
    have "i \<noteq> x" "request (shadow s i) = None" using xs that by (auto simp: ids_are_def)
    then show ?thesis using t(3) by simp
  qed
  ultimately show ?thesis
    using xs l t(1,2) unfolding ids_are_def by simp
qed

lemma ids_release:
  assumes xs: "ids_are xs s" and i: "i < ring_size s" "i \<notin> set xs"
  obtains t where "ADD_ID_TO_FREELIST i s = (0, t)" and "ids_are (i # xs) t" and "ring_size t = ring_size s"
    and "\<And>j. request (shadow t j) = (if j = i then None else request (shadow s j))"
proof
  let ?t = "s\<lparr>shadow := (shadow s)(i := (shadow s i)\<lparr>req := (req (shadow s i))\<lparr>rid := shadow_free s\<rparr>, request := None\<rparr>),
              shadow_free := i\<rparr>"
  show "ADD_ID_TO_FREELIST i s = (0, ?t)"
    using assms by (auto simp: ADD_ID_TO_FREELIST_def ids_are_def)
  have "linked (blk_next ?t) (shadow_free s) SHADOW_END xs = linked (blk_next s) (shadow_free s) SHADOW_END xs"
    using i by (intro linked_cong) (auto simp: blk_next_def)
  then show "ids_are (i # xs) ?t"
    using assms by (auto simp: ids_are_def blk_next_def ring_size_def SHADOW_END_def)
qed (simp_all add: ring_size_def)

lemma ids_no_release:
  assumes xs: "ids_are xs s" and i: "i \<in> set xs"
  shows "ADD_ID_TO_FREELIST i s = (- EINVAL, s)"
proof -
  obtain ys zs where yz: "xs = ys @ i # zs" using i by (meson split_list)
  have d: "distinct xs" and l: "linked (blk_next s) (shadow_free s) SHADOW_END xs"
    and sub: "set xs \<subseteq> {..<ring_size s}" "ring_size s \<le> 512"
    using xs by (simp_all add: ids_are_def)
  have "linked (blk_next s) (blk_next s i) SHADOW_END zs" using l unfolding yz by (rule linked_drop)
  then have "blk_next s i = (case zs of [] \<Rightarrow> SHADOW_END | z # _ \<Rightarrow> z)" by (rule linked_head)
  moreover have "i < 512" using sub i by auto
  ultimately have "blk_next s i \<noteq> i"
    using d yz by (cases zs) (auto simp: SHADOW_END_def)
  then show ?thesis by (simp add: ADD_ID_TO_FREELIST_def blk_next_def)
qed

text \<open>The allocator the driver uses: an id is taken with a request, and given back with the response.\<close>

definition take_id :: "blk_req \<Rightarrow> blkfront_info \<Rightarrow> nat \<times> blkfront_info" where
  "take_id r s =
     (case GET_ID_FROM_FREELIST s of None \<Rightarrow> (0, s)
      | Some (i, s) \<Rightarrow> (i, s\<lparr>shadow := (shadow s)(i := (shadow s i)\<lparr>req := (req (shadow s i))\<lparr>rid := i\<rparr>, request := Some r\<rparr>)\<rparr>))"

definition give_id :: "nat \<Rightarrow> blkfront_info \<Rightarrow> blkfront_info" where
  "give_id i s = snd (ADD_ID_TO_FREELIST i s)"

lemma take_id_ok:
  assumes "blk_ids_inv s" and "blk_free s = x # xs"
  shows "fst (take_id r s) = x \<and> blk_ids_inv (snd (take_id r s)) \<and> blk_free (snd (take_id r s)) = xs \<and>
    ring_size (snd (take_id r s)) = ring_size s"
proof -
  have i: "ids_are (x # xs) s" using assms ids_are_iff by blast
  have "ids_are xs (snd (take_id r s))"
    by (rule ids_take [OF i]) (simp_all add: take_id_def get_id_next [OF i] blk_next_def ring_size_def)
  then show ?thesis using ids_are_iff by (simp add: take_id_def get_id_next [OF i] ring_size_def)
qed

interpretation blk: id_allocator blk_ids_inv blk_free "\<lambda>s. {..<ring_size s}" "take_id r" give_id for r
proof (unfold_locales, goal_cases)
  case (3 s x xs)
  then show ?case using take_id_ok by simp
next
  case (4 s x)
  obtain t where "ADD_ID_TO_FREELIST x s = (0, t)" "ids_are (x # blk_free s) t" "ring_size t = ring_size s"
    by (rule ids_release [of "blk_free s" s x]) (use 4 in \<open>auto simp: blk_ids_inv_def\<close>)
  then show ?case using ids_are_iff by (simp add: give_id_def)
qed (auto simp: blk_ids_inv_def ids_are_def)

section \<open>No request is lost or ended twice\<close>

definition req_ms :: "blk_req option \<Rightarrow> blk_req multiset" where
  "req_ms r = (case r of None \<Rightarrow> {#} | Some r \<Rightarrow> {#r#})"

lemma req_ms_simps [simp]: "req_ms None = {#}" "req_ms (Some r) = {#r#}"
  by (simp_all add: req_ms_def)

definition in_flight :: "blkfront_info \<Rightarrow> blk_req multiset" where
  "in_flight s = (\<Sum>i < 512. req_ms (request (shadow s i)))"

definition waiting :: "blkfront_info \<Rightarrow> blk_req multiset" where
  "waiting s = (\<Sum>ent \<leftarrow> resume_list s. req_ms (request (copy ent)))"

definition all_requests :: "blkfront_info \<Rightarrow> blk_req multiset" where
  "all_requests s = mset (rq_pending s) + in_flight s + waiting s + mset (map fst (ended s))"

lemma in_flight_upd:
  assumes "i < 512" and "\<And>j. j \<noteq> i \<Longrightarrow> request (shadow t j) = request (shadow s j)"
  shows "in_flight t + req_ms (request (shadow s i)) = in_flight s + req_ms (request (shadow t i))"
proof -
  have "(\<Sum>j \<in> {..<512} - {i}. req_ms (request (shadow t j))) = (\<Sum>j \<in> {..<512} - {i}. req_ms (request (shadow s j)))"
    using assms(2) by (intro sum.cong) auto
  then show ?thesis
    using assms(1) sum.remove [of "{..<512}" i "\<lambda>j. req_ms (request (shadow t j))"]
      sum.remove [of "{..<512}" i "\<lambda>j. req_ms (request (shadow s j))"]
    by (simp add: in_flight_def ac_simps)
qed

lemma in_flight_cong: "(\<And>j. request (shadow t j) = request (shadow s j)) \<Longrightarrow> in_flight t = in_flight s"
  by (simp add: in_flight_def)

text \<open>A waiting entry has a request; an entry of a split request belongs to the slot of its id.\<close>

definition split_entry_ok :: "blkfront_info \<Rightarrow> blk_resume_entry \<Rightarrow> bool" where
  "split_entry_ok s ent \<longleftrightarrow>
     (let i = rid (req (copy ent))
      in i < ring_size s \<and> request (copy ent) \<noteq> None \<and> request (shadow s i) = request (copy ent) \<and>
         is_Indirect (body (req (shadow s i))))"

definition entries_ok :: "blkfront_info \<Rightarrow> bool" where
  "entries_ok s \<longleftrightarrow> (\<forall>ent \<in> set (resume_list s). request (copy ent) \<noteq> None) \<and>
     (\<forall>ent \<in> set (resume_split s). split_entry_ok s ent) \<and>
     distinct (map (\<lambda>ent. rid (req (copy ent))) (resume_split s))"

definition blk_inv :: "blkfront_info \<Rightarrow> bool" where
  "blk_inv s \<longleftrightarrow> blk_ids_inv s \<and> entries_ok s"

text \<open>Steps that only fill in the slots they have taken, or touch nothing of the requests.\<close>

definition keeps :: "blkfront_info \<Rightarrow> blkfront_info \<Rightarrow> bool" where
  "keeps s t \<longleftrightarrow> same_ids s t \<and> (\<forall>i. is_Indirect (body (req (shadow t i))) = is_Indirect (body (req (shadow s i)))) \<and>
     rq_pending t = rq_pending s \<and> ended t = ended s \<and> resume_list t = resume_list s \<and> resume_split t = resume_split s"

lemma keeps_refl [simp]: "keeps s s" by (simp add: keeps_def)

lemma keeps_trans: "keeps s t \<Longrightarrow> keeps t u \<Longrightarrow> keeps s u"
  unfolding keeps_def using same_ids_trans by metis

lemma keeps_inv:
  assumes "keeps s t"
  shows "blk_inv t = blk_inv s" and "all_requests t = all_requests s" and "blk_free t = blk_free s"
    and "in_flight t = in_flight s"
proof -
  have "ids_are xs t = ids_are xs s" for xs using assms same_ids_are by (simp add: keeps_def)
  moreover have "blk_next t = blk_next s" using assms by (simp add: keeps_def same_ids_def blk_next_def fun_eq_iff)
  ultimately show free: "blk_free t = blk_free s" and "blk_inv t = blk_inv s"
    using assms unfolding blk_inv_def blk_ids_inv_def
    by (auto simp: blk_free_def keeps_def same_ids_def entries_ok_def split_entry_ok_def Let_def)
  show fl: "in_flight t = in_flight s" using assms by (intro in_flight_cong) (simp add: keeps_def same_ids_def)
  show "all_requests t = all_requests s"
    using assms fl by (simp add: all_requests_def waiting_def keeps_def)
qed

lemma keeps_fields:
  "keeps s (s\<lparr>gnt := g\<rparr>)" "keeps s (s\<lparr>bsring := sr\<rparr>)" "keeps s (s\<lparr>rq_stopped := b\<rparr>)" "keeps s (s\<lparr>notified := n\<rparr>)"
  "keeps s (s\<lparr>seg_store := st\<rparr>)" "keeps s (s\<lparr>indirect_segs := ind\<rparr>)"
  by (simp_all add: keeps_def same_ids_def ring_size_def)

lemma flush_requests_keeps: "keeps s (flush_requests s)"
  by (auto simp: flush_requests_def keeps_def same_ids_def ring_size_def Let_def split: prod.splits)

lemma map_request_keeps:
  assumes "map_request i r h s = Some (b, h', t)"
  shows "keeps s t" and "bring t = bring s" and "shadow_free t = shadow_free s"
  using assms
  by (auto simp: map_request_def keeps_def same_ids_def ring_size_def Let_def split: if_splits option.splits prod.splits)

lemma queue_request_full:
  assumes run: "blkif_queue_request e r s = Some (rc, t)" and rc: "rc \<noteq> 0"
  shows "keeps s t"
  using assms keeps_fields(1)
  by (auto simp: blkif_queue_request_def Let_def split: if_splits option.splits prod.splits)

text \<open>A request has been given the free slot \<open>x\<close>; nothing else of the requests changed.\<close>

definition slot_taken :: "nat \<Rightarrow> blk_req \<Rightarrow> blkfront_info \<Rightarrow> blkfront_info \<Rightarrow> bool" where
  "slot_taken x r s t \<longleftrightarrow> shadow_free t = blk_next s x \<and> ring_size t = ring_size s \<and>
     (\<forall>i. i \<noteq> x \<longrightarrow> rid (req (shadow t i)) = rid (req (shadow s i)) \<and> request (shadow t i) = request (shadow s i) \<and>
        is_Indirect (body (req (shadow t i))) = is_Indirect (body (req (shadow s i)))) \<and>
     rid (req (shadow t x)) = x \<and> request (shadow t x) = Some r"

lemma slot_taken_ok:
  assumes inv: "blk_inv s" and free: "blk_free s = x # xs" and t: "slot_taken x r s t"
    and split: "resume_split t = resume_split s @ ents" "length ents \<le> 1" "\<And>ent. ent \<in> set ents \<Longrightarrow>
      rid (req (copy ent)) = x \<and> request (copy ent) = Some r \<and> is_Indirect (body (req (shadow t x)))"
    and list: "set (resume_list t) \<subseteq> set (resume_list s)"
  shows "blk_inv t" and "blk_free t = xs" and "in_flight t = add_mset r (in_flight s)" and "x < ring_size s"
proof -
  have i: "ids_are (x # xs) s" using inv free ids_are_iff by (auto simp: blk_inv_def)
  show x: "x < ring_size s" using i by (auto simp: ids_are_def)
  have none: "request (shadow s x) = None" and x512: "x < 512" using i by (auto simp: ids_are_def)
  have it: "ids_are xs t" by (rule ids_take [OF i]) (use t in \<open>auto simp: slot_taken_def\<close>)
  then show "blk_free t = xs" by (rule ids_are_free)
  show "in_flight t = add_mset r (in_flight s)"
    using in_flight_upd [of x t s] x512 t none by (auto simp: slot_taken_def)
  have old: "rid (req (copy ent)) \<noteq> x \<and> split_entry_ok t ent" if "ent \<in> set (resume_split s)" for ent
  proof -
    have ok: "split_entry_ok s ent" using inv that by (simp add: blk_inv_def entries_ok_def)
    then have ne: "rid (req (copy ent)) \<noteq> x" using none by (auto simp: split_entry_ok_def Let_def)
    with ok t show ?thesis by (simp add: split_entry_ok_def Let_def slot_taken_def)
  qed
  have new: "split_entry_ok t ent" if "ent \<in> set ents" for ent
    using split(3) [OF that] t x by (simp add: split_entry_ok_def Let_def slot_taken_def)
  have "distinct (map (\<lambda>ent. rid (req (copy ent))) ents)" using split(2) by (cases ents) auto
  moreover have "set (map (\<lambda>ent. rid (req (copy ent))) (resume_split s)) \<inter> set (map (\<lambda>ent. rid (req (copy ent))) ents) = {}"
    using old split(3) by auto
  ultimately have "distinct (map (\<lambda>ent. rid (req (copy ent))) (resume_split t))"
    using inv by (simp add: split(1) blk_inv_def entries_ok_def)
  moreover have "\<forall>ent \<in> set (resume_list t). request (copy ent) \<noteq> None"
    using inv list by (auto simp: blk_inv_def entries_ok_def)
  moreover have "\<forall>ent \<in> set (resume_split t). split_entry_ok t ent"
    using old new by (auto simp: split(1))
  ultimately show "blk_inv t"
    using ids_are_inv [OF it] by (simp add: blk_inv_def entries_ok_def)
qed

lemma no_free_id: "blk_inv s \<Longrightarrow> GET_ID_FROM_FREELIST s = Some (x, t) \<Longrightarrow> \<exists>xs. blk_free s = x # xs"
proof -
  assume inv: "blk_inv s" and get: "GET_ID_FROM_FREELIST s = Some (x, t)"
  have i: "ids_are (blk_free s) s" using inv by (simp add: blk_inv_def blk_ids_inv_def)
  show ?thesis
  proof (cases "blk_free s")
    case Nil
    then show ?thesis using get get_id_empty i by simp
  next
    case (Cons y ys)
    then show ?thesis using get get_id_next i by force
  qed
qed

lemma queue_request_done:
  assumes inv: "blk_inv s" and run: "blkif_queue_request e r s = Some (0, t)"
  shows "\<exists>x xs. blk_free s = x # xs \<and> slot_taken x r s t \<and> resume_list t = resume_list s \<and>
    resume_split t = resume_split s \<and> ended t = ended s \<and> rq_pending t = rq_pending s"
proof -
  obtain rc head g where alloc: "gnttab_alloc_grant_references (genv e) (of_nat (wanted_refs s)) (gnt s) = Some (rc, Some head, g)"
    using run by (auto simp: blkif_queue_request_def Let_def split: if_splits option.splits)
  obtain x u where get: "GET_ID_FROM_FREELIST (s\<lparr>gnt := g\<rparr>) = Some (x, u)"
    using run alloc by (auto simp: blkif_queue_request_def Let_def split: if_splits option.splits)
  have inv': "blk_inv (s\<lparr>gnt := g\<rparr>)" using inv keeps_inv(1) [OF keeps_fields(1)] by simp
  obtain xs where free: "blk_free s = x # xs"
    using no_free_id [OF inv' get] keeps_inv(3) [OF keeps_fields(1)] by auto
  have u: "u = s\<lparr>gnt := g, shadow_free := rid (req (shadow s x)),
      shadow := (shadow s)(x := (shadow s x)\<lparr>req := (req (shadow s x))\<lparr>rid := 0x0fffffee\<rparr>\<rparr>)\<rparr>"
    using get by (auto simp: GET_ID_FROM_FREELIST_def Let_def split: if_splits)
  let ?v = "u\<lparr>shadow := (shadow u)(x := (shadow u x)\<lparr>request := Some r\<rparr>)\<rparr>"
  obtain b h' w where w: "(if rq_discard r \<or> rq_secure r
      then Some (Discard (if rq_secure r \<and> feature_secdiscard ?v then 1 else 0) (vhandle ?v) (rq_sectors r), head, ?v)
      else map_request x r head ?v) = Some (b, h', w)"
    and t: "\<exists>g. t = w\<lparr>bsring := ring_put (f_nr_ents (bring w)) (req_prod_pvt (bring w)) (Req \<lparr>rid = x, sector_number = rq_pos r, body = b\<rparr>) (bsring w),
       bring := (bring w)\<lparr>req_prod_pvt := req_prod_pvt (bring w) + 1\<rparr>,
       shadow := (shadow w)(x := (shadow w x)\<lparr>req := \<lparr>rid = x, sector_number = rq_pos r, body = b\<rparr>\<rparr>), gnt := g\<rparr>"
    using run alloc get by (simp add: blkif_queue_request_def Let_def split: if_splits option.splits prod.splits) force+
  have k: "keeps ?v w" "bring w = bring ?v" "shadow_free w = shadow_free ?v"
    using w map_request_keeps by (auto split: if_splits)
  have "slot_taken x r s t"
    using k t unfolding slot_taken_def keeps_def same_ids_def by (auto simp: u blk_next_def ring_size_def)
  moreover have "resume_list t = resume_list s" "resume_split t = resume_split s" "ended t = ended s" "rq_pending t = rq_pending s"
    using k t by (auto simp: keeps_def u)
  ultimately show ?thesis using free by blast
qed

lemma queue_requests_conserve:
  "queue_requests e rs q s = Some (q', t) \<Longrightarrow> blk_inv s \<Longrightarrow>
   blk_inv t \<and> resume_list t = resume_list s \<and>
   mset (rq_pending t) + in_flight t + mset (map fst (ended t)) = mset rs + in_flight s + mset (map fst (ended s))"
proof (induction rs arbitrary: q s)
  case Nil
  have k: "blk_inv (s\<lparr>rq_pending := []\<rparr>) = blk_inv s"
    by (simp add: blk_inv_def blk_ids_inv_def ids_are_def blk_free_def blk_next_def [abs_def] ring_size_def entries_ok_def split_entry_ok_def)
  show ?case using Nil k by (auto simp: in_flight_def)
next
  case (Cons r rs)
  have pend: "blk_inv (u\<lparr>rq_pending := p, rq_stopped := True\<rparr>) = blk_inv u"
    "in_flight (u\<lparr>rq_pending := p, rq_stopped := True\<rparr>) = in_flight u" for u p
    by (simp_all add: blk_inv_def blk_ids_inv_def ids_are_def blk_free_def blk_next_def [abs_def] ring_size_def
        entries_ok_def split_entry_ok_def in_flight_def)
  have ended: "blk_inv (end_request r x u) = blk_inv u" "in_flight (end_request r x u) = in_flight u" for u x
    by (simp_all add: blk_inv_def blk_ids_inv_def ids_are_def blk_free_def blk_next_def [abs_def] ring_size_def
        entries_ok_def split_entry_ok_def in_flight_def end_request_def)
  consider (full) "RING_FULL (bring s)" | (bad) "\<not> RING_FULL (bring s)" "unsupported s r"
    | (good) "\<not> RING_FULL (bring s)" "\<not> unsupported s r" by blast
  then show ?case
  proof cases
    case full
    then show ?thesis using Cons.prems pend by auto
  next
    case bad
    then have "queue_requests e rs q (end_request r (- EIO) s) = Some (q', t)" using Cons.prems by simp
    from Cons.IH [OF this] Cons.prems(2) show ?thesis by (simp add: ended) (simp add: end_request_def)
  next
    case good
    then obtain rc u where u: "blkif_queue_request e r s = Some (rc, u)"
      using Cons.prems by (auto split: option.splits)
    show ?thesis
    proof (cases "rc = 0")
      case True
      obtain x xs where x: "blk_free s = x # xs" "slot_taken x r s u"
        and f: "resume_list u = resume_list s" "resume_split u = resume_split s" "ended u = ended s"
        using queue_request_done [OF Cons.prems(2)] u True by blast
      have inv: "blk_inv u" and fl: "in_flight u = add_mset r (in_flight s)"
        by (rule slot_taken_ok [OF Cons.prems(2) x, of "[]"]; simp add: f)+
      have "queue_requests e rs (q + 1) u = Some (q', t)" using Cons.prems good u True by simp
      from Cons.IH [OF this inv] show ?thesis by (simp add: fl f)
    next
      case False
      have k: "keeps s u" using queue_request_full u False by blast
      have "q' = q \<and> t = u\<lparr>rq_pending := r # rs, rq_stopped := True\<rparr>" using Cons.prems good u False by auto
      then show ?thesis using keeps_inv [OF k] k Cons.prems(2) by (simp add: pend) (simp add: keeps_def)
    qed
  qed
qed

lemma do_blkif_request_conserve:
  assumes "do_blkif_request e s = Some t" and "blk_inv s"
  shows "blk_inv t \<and> all_requests t = all_requests s"
proof -
  obtain q u where u: "queue_requests e (rq_pending s) 0 s = Some (q, u)"
    and t: "t = (if q \<noteq> 0 then flush_requests u else u)"
    using assms(1) by (auto simp: do_blkif_request_def split: option.splits)
  have c: "blk_inv u" "resume_list u = resume_list s"
    "mset (rq_pending u) + in_flight u + mset (map fst (ended u)) = mset (rq_pending s) + in_flight s + mset (map fst (ended s))"
    using queue_requests_conserve [OF u assms(2)] by auto
  have "keeps u t" using t flush_requests_keeps by simp
  moreover have "all_requests u = all_requests s"
    using c(2,3) by (simp add: all_requests_def waiting_def ac_simps)
  ultimately show ?thesis using keeps_inv c(1) by metis
qed

section \<open>Submitting again conserves requests\<close>

lemma displace_segs_keeps: "displace_segs i new s = Some t \<Longrightarrow> keeps s t \<and> bring t = bring s \<and> shadow_free t = shadow_free s"
  by (auto simp: displace_segs_def keeps_def same_ids_def ring_size_def split: if_splits option.splits)

lemma split_request_keeps:
  assumes "split_request i ent sgs s = Some (q, ent', t)"
  shows "keeps s t \<and> bring t = bring s \<and> shadow_free t = shadow_free s \<and>
    rid (req (copy ent')) = i \<and> request (copy ent') = request (copy ent)"
  using assms
  by (auto simp: split_request_def keeps_def same_ids_def ring_size_def Let_def
      split: if_splits option.splits blkif_body.splits)

lemma resubmit_keeps:
  assumes "resubmit i ent s = Some (q, wait, t)"
  shows "keeps s t \<and> bring t = bring s \<and> shadow_free t = shadow_free s \<and>
    (\<forall>ent'. wait = Some ent' \<longrightarrow> rid (req (copy ent')) = i \<and> request (copy ent') = request (copy ent) \<and>
       is_Indirect (body (req (copy ent))))"
proof (cases "body (req (copy ent))")
  case (Rw op h sgs)
  then show ?thesis using assms
    by (auto simp: resubmit_def keeps_def same_ids_def ring_size_def Let_def split: if_splits option.splits)
next
  case (Discard fl h n)
  then show ?thesis using assms by (auto simp: resubmit_def Let_def split: if_splits)
next
  case (Indirect iop h n grefs)
  obtain u where u: "displace_segs i (ent_segs ent) s = Some u"
    using assms Indirect by (auto simp: resubmit_def Let_def split: option.splits)
  note d = displace_segs_keeps [OF u]
  have "keeps u t \<and> bring t = bring u \<and> shadow_free t = shadow_free u \<and>
    (\<forall>ent'. wait = Some ent' \<longrightarrow> rid (req (copy ent')) = i \<and> request (copy ent') = request (copy ent))"
  proof (cases "n > max_segs_per_req u")
    case True
    then have "\<exists>(a :: seg_array) ent'. split_request i ent (segs a) u = Some (q, ent', t) \<and> wait = Some ent'"
      using assms Indirect u by (auto simp: resubmit_def Let_def split: option.splits)
    then show ?thesis using split_request_keeps by fastforce
  next
    case False
    then show ?thesis using assms Indirect u
      by (auto simp: resubmit_def keeps_def same_ids_def ring_size_def Let_def split: if_splits option.splits)
  qed
  with d Indirect show ?thesis using keeps_trans by fastforce
qed

lemma requeue_entry_conserve:
  assumes run: "requeue_entry ent s = Some t" and inv: "blk_inv s" and r: "request (copy ent) = Some r"
  shows "blk_inv t \<and> in_flight t = add_mset r (in_flight s) \<and> rq_pending t = rq_pending s \<and> ended t = ended s \<and>
    resume_list t = resume_list s"
proof -
  obtain x u where get: "GET_ID_FROM_FREELIST s = Some (x, u)"
    using run by (auto simp: requeue_entry_def split: option.splits)
  obtain xs where free: "blk_free s = x # xs" using no_free_id [OF inv get] by blast
  have u: "u = s\<lparr>shadow_free := rid (req (shadow s x)),
      shadow := (shadow s)(x := (shadow s x)\<lparr>req := (req (shadow s x))\<lparr>rid := 0x0fffffee\<rparr>\<rparr>)\<rparr>"
    using get by (auto simp: GET_ID_FROM_FREELIST_def Let_def split: if_splits)
  let ?v = "u\<lparr>shadow := (shadow u)(x := (copy ent)\<lparr>req := (req (copy ent))\<lparr>rid := x\<rparr>, frames := frames (shadow u x)\<rparr>)\<rparr>"
  obtain q wait w where w: "resubmit x ent ?v = Some (q, wait, w)"
    and t: "t = w\<lparr>bsring := ring_put (f_nr_ents (bring w)) (req_prod_pvt (bring w)) (Req q) (bsring w),
       bring := (bring w)\<lparr>req_prod_pvt := req_prod_pvt (bring w) + 1\<rparr>,
       resume_split := resume_split w @ (case wait of None \<Rightarrow> [] | Some ent \<Rightarrow> [ent])\<rparr>"
    using run get by (auto simp: requeue_entry_def split: option.splits)
  note k = resubmit_keeps [OF w]
  have kw: "keeps ?v w" and kb: "bring w = bring ?v" "shadow_free w = shadow_free ?v" using k by blast+
  have st: "slot_taken x r s t"
    using kw kb r unfolding slot_taken_def keeps_def same_ids_def by (auto simp: t u blk_next_def ring_size_def)
  have f: "resume_split t = resume_split s @ (case wait of None \<Rightarrow> [] | Some ent \<Rightarrow> [ent])"
    "resume_list t = resume_list s" "ended t = ended s" "rq_pending t = rq_pending s"
    using kw by (auto simp: keeps_def t u)
  have new: "rid (req (copy e)) = x \<and> request (copy e) = Some r \<and> is_Indirect (body (req (shadow t x)))"
    if "e \<in> set (case wait of None \<Rightarrow> [] | Some ent \<Rightarrow> [ent])" for e
  proof -
    have e: "wait = Some e" using that by (cases wait) auto
    then have "is_Indirect (body (req (shadow ?v x)))" using k by simp
    then have "is_Indirect (body (req (shadow w x)))" using kw by (simp add: keeps_def)
    then show ?thesis using k e r by (simp add: t)
  qed
  have "length (case wait of None \<Rightarrow> [] | Some ent \<Rightarrow> [ent]) \<le> 1" by (cases wait) simp_all
  moreover have "set (resume_list t) \<subseteq> set (resume_list s)" using f(2) by simp
  ultimately show ?thesis using slot_taken_ok [OF inv free st f(1) _ new] f by blast
qed

lemma requeue_entries_conserve:
  "requeue_entries ents q s = Some (q', t) \<Longrightarrow> blk_inv s \<Longrightarrow> set ents \<subseteq> set (resume_list s) \<Longrightarrow>
   blk_inv t \<and> rq_pending t = rq_pending s \<and> ended t = ended s \<and>
   in_flight t + waiting t = in_flight s + (\<Sum>ent \<leftarrow> ents. req_ms (request (copy ent)))"
proof (induction ents arbitrary: q s)
  case Nil
  have "blk_inv (s\<lparr>resume_list := []\<rparr>)"
    using Nil(2) by (simp add: blk_inv_def blk_ids_inv_def ids_are_def blk_free_def blk_next_def [abs_def]
        ring_size_def entries_ok_def split_entry_ok_def)
  then show ?case using Nil by (auto simp: in_flight_def waiting_def)
next
  case (Cons ent ents)
  obtain r where r: "request (copy ent) = Some r"
    using Cons.prems(2,3) by (auto simp: blk_inv_def entries_ok_def)
  show ?case
  proof (cases "RING_FULL (bring s)")
    case True
    then have t: "t = s\<lparr>resume_list := ent # ents\<rparr>" using Cons.prems by auto
    have "blk_inv t"
      using Cons.prems(2,3) unfolding t
      by (simp add: blk_inv_def blk_ids_inv_def ids_are_def blk_free_def blk_next_def [abs_def]
          ring_size_def entries_ok_def split_entry_ok_def) blast
    then show ?thesis by (simp add: t in_flight_def waiting_def)
  next
    case False
    then obtain u where u: "requeue_entry ent s = Some u" "requeue_entries ents True u = Some (q', t)"
      using Cons.prems by (auto split: option.splits)
    note c = requeue_entry_conserve [OF u(1) Cons.prems(2) r]
    have "set ents \<subseteq> set (resume_list u)" using c Cons.prems(3) by simp
    from Cons.IH [OF u(2) conjunct1 [OF c] this] c show ?thesis by (simp add: r)
  qed
qed

lemma kick_conserve:
  assumes "kick_pending_request_queues e s = Some t" and "blk_inv s"
  shows "blk_inv t \<and> all_requests t = all_requests s"
proof -
  obtain q u where u: "requeue_entries (resume_list s) False s = Some (q, u)"
    using assms(1) by (auto simp: kick_pending_request_queues_def split: option.splits)
  have c: "blk_inv u" "rq_pending u = rq_pending s" "ended u = ended s" "in_flight u + waiting u = in_flight s + waiting s"
    using requeue_entries_conserve [OF u assms(2)] by (auto simp: waiting_def)
  let ?v = "if q then flush_requests u else u"
  have "keeps u ?v" using flush_requests_keeps by simp
  moreover have "all_requests u = all_requests s" using c(2,3,4) by (simp add: all_requests_def add.assoc)
  ultimately have v: "blk_inv ?v" "all_requests ?v = all_requests s" using c(1) keeps_inv by metis+
  show ?thesis
  proof (cases "resume_split ?v = [] \<and> resume_list ?v = [] \<and> \<not> RING_FULL (bring ?v)")
    case True
    then obtain w where w: "do_blkif_request e (?v\<lparr>rq_stopped := False\<rparr>) = Some w" "do_blkif_request e w = Some t"
      using assms(1) u by (auto simp: kick_pending_request_queues_def blk_start_queue_def Let_def bind_eq_Some_conv)
    have "blk_inv (?v\<lparr>rq_stopped := False\<rparr>)" "all_requests (?v\<lparr>rq_stopped := False\<rparr>) = all_requests s"
      using v keeps_inv [OF keeps_fields(3)] by metis+
    then show ?thesis using do_blkif_request_conserve w by metis
  next
    case False
    then have "t = ?v" using assms(1) u by (auto simp: kick_pending_request_queues_def Let_def)
    then show ?thesis using v by simp
  qed
qed

section \<open>Responses conserve requests\<close>

lemma next_piece_request [simp]: "request (copy (next_piece ent sgs)) = request (copy ent)"
  by (simp add: next_piece_def Let_def split: blkif_body.splits)

lemma end_gnt_keeps: "end_gnt e refs s = Some t \<Longrightarrow> \<exists>g. t = s\<lparr>gnt := g\<rparr>"
  by (auto simp: end_gnt_def)

definition split_entry :: "nat \<Rightarrow> blkfront_info \<Rightarrow> blk_resume_entry option" where
  "split_entry i s = find (\<lambda>t. rid (req (copy t)) = i) (resume_split s)"

text \<open>What a completion leaves: the entry of a split request is gone, and waits again when more is to come.\<close>

definition completed :: "nat \<Rightarrow> bool \<Rightarrow> blkfront_info \<Rightarrow> blkfront_info \<Rightarrow> bool" where
  "completed i fin s t \<longleftrightarrow> same_ids s t \<and>
     (\<forall>j. is_Indirect (body (req (shadow t j))) = is_Indirect (body (req (shadow s j)))) \<and>
     rq_pending t = rq_pending s \<and> ended t = ended s \<and>
     (if is_Indirect (body (req (shadow s i))) \<and> split_entry i s \<noteq> None
      then resume_split t = remove1 (the (split_entry i s)) (resume_split s) \<and>
           (\<exists>sgs. resume_list t = resume_list s @ (if fin then [] else [next_piece (the (split_entry i s)) sgs]))
      else fin \<and> resume_split t = resume_split s \<and> resume_list t = resume_list s)"

lemma blkif_completion_completed:
  assumes "blkif_completion e i st s = Some (fin, t)"
  shows "completed i fin s t"
proof (cases "body (req (shadow s i))")
  case (Rw op h sgs)
  then show ?thesis using assms end_gnt_keeps [of e "map gref sgs" s]
    by (auto simp: blkif_completion_def completed_def same_ids_def ring_size_def)
next
  case (Discard fl h n)
  then show ?thesis using assms by (auto simp: blkif_completion_def completed_def)
next
  case (Indirect iop h n grefs)
  obtain p a where a: "(if i \<ge> nr_seg_slots s then None
      else Option.bind (indirect_segs s i) (\<lambda>p. map_option (Pair p) (seg_store s p))) = Some (p, a)"
    using assms Indirect by (auto simp: blkif_completion_def split: option.splits)
  show ?thesis
  proof (cases "split_entry i s")
    case None
    obtain u where u: "end_gnt e (map gref (take n (segs a))) s = Some u"
      using assms Indirect a None by (auto simp: blkif_completion_def split_entry_def split: option.splits)
    show ?thesis using assms Indirect a None u end_gnt_keeps [OF u]
      by (auto simp: blkif_completion_def split_entry_def completed_def same_ids_def ring_size_def split: option.splits if_splits)
  next
    case (Some ent)
    obtain u where u: "end_gnt e (map gref (take BLKIF_MAX_SEGMENTS_PER_REQUEST (segs a)))
        (s\<lparr>resume_split := remove1 ent (resume_split s)\<rparr>) = Some u"
      using assms Indirect a Some by (auto simp: blkif_completion_def split_entry_def split: option.splits)
    show ?thesis using assms Indirect a Some u end_gnt_keeps [OF u]
      by (auto simp: blkif_completion_def split_entry_def completed_def same_ids_def ring_size_def Let_def split: if_splits)
  qed
qed

lemma split_entry_in:
  assumes "split_entry i s = Some ent" and "blk_inv s"
  shows "ent \<in> set (resume_split s)" and "rid (req (copy ent)) = i" and "request (shadow s i) = request (copy ent)"
    and "request (copy ent) \<noteq> None"
proof -
  show ent: "ent \<in> set (resume_split s)" and rid: "rid (req (copy ent)) = i"
    using assms(1) by (auto simp: split_entry_def find_Some_iff)
  have "split_entry_ok s ent" using ent assms(2) by (simp add: blk_inv_def entries_ok_def)
  then show "request (shadow s i) = request (copy ent)" "request (copy ent) \<noteq> None"
    using rid by (auto simp: split_entry_ok_def Let_def)
qed

lemma remove1_other_ids:
  "distinct (map f xs) \<Longrightarrow> x \<in> set xs \<Longrightarrow> y \<in> set (remove1 x xs) \<Longrightarrow> f y \<noteq> f x"
  by (induction xs) (auto split: if_splits, metis imageI)

lemma distinct_map_remove1: "distinct (map f xs) \<Longrightarrow> distinct (map f (remove1 x xs))"
  by (induction xs) (auto dest: notin_set_remove1 in_set_remove1 [THEN iffD1] set_remove1_subset [THEN subsetD])

lemma completed_entries:
  assumes inv: "blk_inv s" and c: "completed i fin s t"
  shows "blk_inv t" and "\<And>ent. ent \<in> set (resume_split t) \<Longrightarrow> rid (req (copy ent)) \<noteq> i"
    and "in_flight t = in_flight s"
    and "waiting t = waiting s + (if fin then {#} else req_ms (request (shadow s i)))"
    and "blk_free t = blk_free s"
proof -
  have ids: "same_ids s t" using c by (simp add: completed_def)
  have next_eq: "blk_next t = blk_next s" using ids by (simp add: same_ids_def blk_next_def fun_eq_iff)
  then show free: "blk_free t = blk_free s" using ids by (simp add: blk_free_def same_ids_def)
  show "in_flight t = in_flight s" using ids by (intro in_flight_cong) (simp add: same_ids_def)
  have ok: "split_entry_ok t ent = split_entry_ok s ent" for ent
    using c by (simp add: split_entry_ok_def completed_def same_ids_def Let_def)
  have idinv: "blk_ids_inv t" using inv same_ids_are [OF ids] free by (simp add: blk_inv_def blk_ids_inv_def)
  have es: "entries_ok s" using inv by (simp add: blk_inv_def)
  show "blk_inv t"
  proof (cases "is_Indirect (body (req (shadow s i))) \<and> split_entry i s \<noteq> None")
    case True
    then obtain ent where ent: "split_entry i s = Some ent" by blast
    have "set (resume_split t) \<subseteq> set (resume_split s)" "distinct (map (\<lambda>ent. rid (req (copy ent))) (resume_split t))"
      using c True ent es by (auto simp: completed_def entries_ok_def distinct_map_remove1 dest: set_remove1_subset [THEN subsetD])
    moreover have "\<forall>e \<in> set (resume_list t). request (copy e) \<noteq> None"
      using c True ent es split_entry_in [OF ent inv] by (auto simp: completed_def entries_ok_def split: if_splits)
    ultimately show ?thesis using es idinv ok unfolding blk_inv_def entries_ok_def by blast
  next
    case False
    then show ?thesis using c es idinv ok by (auto simp: completed_def blk_inv_def entries_ok_def)
  qed
  show "rid (req (copy ent)) \<noteq> i" if "ent \<in> set (resume_split t)" for ent
  proof (cases "is_Indirect (body (req (shadow s i))) \<and> split_entry i s \<noteq> None")
    case True
    then obtain x where x: "split_entry i s = Some x" by blast
    have "ent \<in> set (remove1 x (resume_split s))" using that c True x by (simp add: completed_def)
    then show ?thesis
      using remove1_other_ids [of "\<lambda>ent. rid (req (copy ent))" "resume_split s" x ent] split_entry_in(1,2) [OF x inv] es
      by (simp add: entries_ok_def)
  next
    case False
    then have ent: "ent \<in> set (resume_split s)" using that c by (auto simp: completed_def split: if_splits)
    then have "split_entry_ok s ent" using es by (simp add: entries_ok_def)
    then show ?thesis using False ent
      by (auto simp: split_entry_def find_None_iff split_entry_ok_def Let_def)
  qed
  show "waiting t = waiting s + (if fin then {#} else req_ms (request (shadow s i)))"
    using c split_entry_in [OF _ inv] by (auto simp: completed_def waiting_def split: if_splits)
qed

lemma response_result_keeps: "response_result i p s = Some (ret, t) \<Longrightarrow> keeps s t"
  by (auto simp: response_result_def keeps_def same_ids_def ring_size_def Let_def split: if_splits)

lemma end_request_inv [simp]:
  "blk_inv (end_request r x s) = blk_inv s" "in_flight (end_request r x s) = in_flight s"
  by (simp_all add: blk_inv_def blk_ids_inv_def ids_are_def blk_free_def blk_next_def [abs_def] ring_size_def
      entries_ok_def split_entry_ok_def in_flight_def end_request_def)

lemma handle_response_conserve:
  assumes run: "handle_response e p s = Some t" and inv: "blk_inv s"
  shows "blk_inv t \<and> all_requests t = all_requests s"
proof (cases "rsp_id p \<ge> ring_size s")
  case True
  then show ?thesis using run inv by (simp add: handle_response_def)
next
  case False
  define i where "i = rsp_id p"
  have i: "i < ring_size s" using False by (simp add: i_def)
  obtain fin u where u: "blkif_completion e i (rsp_status p) s = Some (fin, u)"
    using run False by (auto simp: handle_response_def Let_def i_def split: option.splits)
  have cu: "completed i fin s u" using blkif_completion_completed [OF u] .
  note cc = completed_entries [OF inv cu]
  have size: "ring_size u = ring_size s" and req: "request (shadow u i) = request (shadow s i)"
    and pend: "rq_pending u = rq_pending s" "ended u = ended s"
    using cu by (simp_all add: completed_def same_ids_def)
  have iu: "ids_are (blk_free s) u" using cc(1,5) by (simp add: blk_inv_def blk_ids_inv_def)
  show ?thesis
  proof (cases "i \<in> set (blk_free s)")
    case True
    have none: "request (shadow s i) = None" using True iu req by (auto simp: ids_are_def)
    have "t = u" using run False u ids_no_release [OF iu True] by (simp add: handle_response_def i_def Let_def)
    then show ?thesis using cc none pend by (simp add: all_requests_def)
  next
    case nf: False
    obtain r where r: "request (shadow s i) = Some r" using iu i nf size req
      by (cases "request (shadow s i)") (auto simp: ids_are_def)
    obtain v where v: "ADD_ID_TO_FREELIST i u = (0, v)" "ids_are (i # blk_free s) v" "ring_size v = ring_size u"
      "\<And>j. request (shadow v j) = (if j = i then None else request (shadow u j))"
      by (rule ids_release [OF iu, of i]) (use i nf size in auto)
    have vf: "v = u\<lparr>shadow := shadow v, shadow_free := shadow_free v\<rparr>"
      and vb: "\<And>j. body (req (shadow v j)) = body (req (shadow u j))"
      using v(1) by (auto simp: ADD_ID_TO_FREELIST_def split: if_splits)
    have vl: "resume_list v = resume_list u" "resume_split v = resume_split u" "rq_pending v = rq_pending u" "ended v = ended u"
      by (subst vf, simp)+
    have "i < 512" using i size iu by (auto simp: ids_are_def)
    then have fl: "in_flight s = add_mset r (in_flight v)"
      using in_flight_upd [of i v u] v(4) r req cc(3) by simp
    have "split_entry_ok v ent" if "ent \<in> set (resume_split v)" for ent
    proof -
      have "split_entry_ok u ent" "rid (req (copy ent)) \<noteq> i"
        using that cc(1,2) vl by (simp_all add: blk_inv_def entries_ok_def)
      then show ?thesis using v(3,4) vb by (simp add: split_entry_ok_def Let_def)
    qed
    then have inv_v: "blk_inv v"
      using cc(1) ids_are_inv [OF v(2)] vl by (simp add: blk_inv_def entries_ok_def)
    have wv: "waiting v = waiting s + (if fin then {#} else {#r#})" using cc(4) vl r by (simp add: waiting_def)
    show ?thesis
    proof (cases "fin")
      case nd: False
      have "t = v" using run False u v(1) nd by (simp add: handle_response_def i_def Let_def)
      then show ?thesis using inv_v fl wv vl pend nd by (simp add: all_requests_def)
    next
      case d: True
      obtain ret w where w: "response_result i p v = Some (ret, w)" "t = end_request r ret w"
        using run False u v(1) d r by (auto simp: handle_response_def i_def Let_def split: option.splits)
      note k = response_result_keeps [OF w(1)]
      have "blk_inv t" using w(2) inv_v keeps_inv(1) [OF k] by simp
      moreover have "all_requests t = add_mset r (all_requests w)"
        unfolding w(2) by (simp add: all_requests_def) (simp add: end_request_def waiting_def)
      moreover have "all_requests v + {#r#} = all_requests s" using fl wv vl pend d by (simp add: all_requests_def)
      ultimately show ?thesis using keeps_inv(2) [OF k] by simp
    qed
  qed
qed

lemma handle_responses_conserve:
  "handle_responses e n i s = Some t \<Longrightarrow> blk_inv s \<Longrightarrow> blk_inv t \<and> all_requests t = all_requests s"
proof (induction n arbitrary: i s)
  case (Suc n)
  then obtain p u where "handle_response e p s = Some u" "handle_responses e n (i + 1) u = Some t"
    by (auto split: option.splits)
  with handle_response_conserve Suc show ?case by metis
qed simp

lemma ring_size_rsp_cons [simp]: "ring_size (s\<lparr>bring := (bring s)\<lparr>rsp_cons := c\<rparr>\<rparr>) = ring_size s"
  by (simp add: ring_size_def)

lemma keeps_bring: "ring_size (s\<lparr>bring := b\<rparr>) = ring_size s \<Longrightarrow> keeps s (s\<lparr>bring := b\<rparr>)"
  by (simp add: keeps_def same_ids_def)

lemma drain_conserve:
  assumes "drain e s = Some t" and "blk_inv s"
  shows "blk_inv t \<and> all_requests t = all_requests s"
proof -
  obtain u where u: "handle_responses e (unat (rsp_prod (bsring s) - rsp_cons (bring s))) (rsp_cons (bring s)) s = Some u"
    and t: "t = u\<lparr>bring := (bring u)\<lparr>rsp_cons := rsp_prod (bsring s)\<rparr>\<rparr>"
    using assms(1) by (auto simp: drain_def Let_def)
  have "keeps u t" unfolding t by (rule keeps_bring) simp
  then show ?thesis using handle_responses_conserve [OF u assms(2)] keeps_inv by metis
qed

lemma int_loop_conserve:
  "int_loop e peers s = Some t \<Longrightarrow> blk_inv s \<Longrightarrow> blk_inv t \<and> all_requests t = all_requests s"
proof (induction e peers s rule: int_loop.induct)
  case (1 e s)
  then obtain u where u: "drain e s = Some u" "t = u\<lparr>bsring := (bsring u)\<lparr>rsp_event := rsp_cons (bring u) + 1\<rparr>\<rparr>"
    by (auto split: option.splits)
  have "keeps u t" unfolding u(2) by (rule keeps_fields)
  then show ?case using drain_conserve [OF u(1) 1(2)] keeps_inv by metis
next
  case (2 e peer peers s)
  then obtain u where u: "drain e s = Some u" by (auto split: option.splits)
  have cu: "blk_inv u" "all_requests u = all_requests s" using drain_conserve [OF u 2(3)] by auto
  have k: "blk_inv (u\<lparr>bsring := sr\<rparr>)" "all_requests (u\<lparr>bsring := sr\<rparr>) = all_requests s" for sr
    using cu keeps_inv [OF keeps_fields(2)] by metis+
  obtain work sr where chk: "RING_FINAL_CHECK_FOR_RESPONSES peer (bring u) (bsring u) = (work, sr)" by fastforce
  show ?case
  proof (cases "rsp_cons (bring u) \<noteq> req_prod_pvt (bring u) \<and> work \<noteq> 0")
    case True
    then have "int_loop e peers (u\<lparr>bsring := sr\<rparr>) = Some t" using 2(2) u chk by simp
    then show ?thesis using 2(1) [OF u _ chk [symmetric]] True k by metis
  next
    case False
    then have "\<exists>sr. t = u\<lparr>bsring := sr\<rparr>" using 2(2) u chk by (auto split: if_splits)
    then show ?thesis using k by blast
  qed
qed

lemma blkif_int_conserve:
  assumes "blkif_int e peers s = Some t" and "blk_inv s"
  shows "blk_inv t \<and> all_requests t = all_requests s"
proof (cases "connected s = BLKIF_STATE_CONNECTED")
  case True
  then obtain u where "int_loop e peers s = Some u" "kick_pending_request_queues e u = Some t"
    using assms(1) by (auto simp: blkif_int_def bind_eq_Some_conv)
  then show ?thesis using int_loop_conserve kick_conserve assms(2) by metis
next
  case False
  then show ?thesis using assms by (simp add: blkif_int_def)
qed

section \<open>Recovery conserves requests\<close>

definition entry_of :: "blkfront_info \<Rightarrow> nat \<Rightarrow> blk_resume_entry" where
  "entry_of s i =
     \<lparr>copy = (shadow s i)\<lparr>frames := take (saved_segs (body (req (shadow s i)))) (frames (shadow s i))\<rparr>,
      ent_segs = (if is_Indirect (body (req (shadow s i))) then indirect_segs s i else None)\<rparr>"

definition used :: "blkfront_info \<Rightarrow> nat \<Rightarrow> bool" where
  "used s i \<longleftrightarrow> request (shadow s i) \<noteq> None"

lemma save_shadow_ok:
  "save_shadow mem is ents s = Some (True, ents', t) \<Longrightarrow> distinct is \<Longrightarrow>
   ents' = ents @ map (entry_of s) (filter (used s) is) \<and> (\<exists>ind. t = s\<lparr>indirect_segs := ind\<rparr>)"
proof (induction "is" arbitrary: ents s)
  case (Cons i "is")
  have cong: "map (entry_of (s\<lparr>indirect_segs := (indirect_segs s)(i := None)\<rparr>)) (filter (used (s\<lparr>indirect_segs := (indirect_segs s)(i := None)\<rparr>)) is)
      = map (entry_of s) (filter (used s) is)"
  proof -
    have "used (s\<lparr>indirect_segs := (indirect_segs s)(i := None)\<rparr>) = used s" by (simp add: used_def fun_eq_iff)
    then show ?thesis using Cons.prems(2) by (auto simp: entry_of_def)
  qed
  show ?case
  proof (cases "request (shadow s i) = None")
    case True
    then show ?thesis using Cons.IH [of ents s] Cons.prems by (simp add: used_def Let_def)
  next
    case False
    show ?thesis
    proof (cases "body (req (shadow s i))")
      case (Indirect iop h n grefs)
      let ?t = "s\<lparr>indirect_segs := (indirect_segs s)(i := None)\<rparr>"
      have "save_shadow mem is (ents @ [entry_of s i]) ?t = Some (True, ents', t)"
        using Cons.prems False Indirect
        by (simp add: entry_of_def saved_segs_def Let_def split: if_splits)
      from Cons.IH [OF this] Cons.prems(2)
      have "ents' = (ents @ [entry_of s i]) @ map (entry_of s) (filter (used s) is) \<and> (\<exists>ind. t = ?t\<lparr>indirect_segs := ind\<rparr>)"
        unfolding cong by simp
      moreover have "filter (used s) (i # is) = i # filter (used s) is" using False by (simp add: used_def)
      ultimately show ?thesis by auto
    qed (use Cons.IH [of "ents @ [entry_of s i]" s] Cons.prems False in
        \<open>auto simp: used_def entry_of_def saved_segs_def Let_def split: if_splits\<close>)
  qed
next
  case Nil
  then show ?case by (auto intro: exI [of _ "indirect_segs s"])
qed

lemma clear_shadow_ok:
  "clear_shadow is s = Some t \<Longrightarrow> \<exists>sh. t = s\<lparr>shadow := sh\<rparr> \<and> (\<forall>i. request (sh i) = (if i \<in> set is then None else request (shadow s i)))"
proof (induction "is" arbitrary: s)
  case (Cons i "is")
  let ?u = "s\<lparr>shadow := (shadow s)(i :=
             \<lparr>req = \<lparr>rid = 0, sector_number = 0, body = Rw 0 0 []\<rparr>, request = None,
              frames = store_prefix (replicate (max_segs_per_req s) (-1)) (frames (shadow s i))\<rparr>)\<rparr>"
  have "clear_shadow is ?u = Some t" using Cons.prems by (simp split: if_splits)
  from Cons.IH [OF this] show ?case by auto
next
  case Nil
  then show ?case by (intro exI [of _ "shadow s"]) simp
qed

lemma shadow_init_from_ids:
  "rid (req (shadow_init_from i n sh j)) = (if i \<le> j \<and> j < i + n then j + 1 else rid (req (sh j))) \<and>
   request (shadow_init_from i n sh j) = request (sh j)"
  by (induction n arbitrary: i sh) (auto simp: not_less_eq_eq dest: le_antisym)

lemma shadow_init_ids:
  assumes "0 < n"
  shows "rid (req (shadow_init n sh j)) = (if j < n - 1 then j + 1 else if j = n - 1 then SHADOW_END else rid (req (sh j)))"
    and "request (shadow_init n sh j) = request (sh j)"
  using assms by (auto simp: shadow_init_def shadow_init_from_ids Let_def SHADOW_END_def)

lemma linked_upto:
  "i \<le> n \<Longrightarrow> (\<And>j. i \<le> j \<Longrightarrow> j < n \<Longrightarrow> nx j = (if Suc j < n then Suc j else e)) \<Longrightarrow> n \<le> e \<Longrightarrow>
   linked nx (if i < n then i else e) e [i..<n]"
proof (induction "n - i" arbitrary: i)
  case (Suc k)
  then have "[i..<n] = i # [Suc i..<n]" by (simp add: upt_conv_Cons)
  moreover have "linked nx (if Suc i < n then Suc i else e) e [Suc i..<n]"
    using Suc by (intro Suc(1)) auto
  moreover have "nx i = (if Suc i < n then Suc i else e)" "i < n" using Suc(2,3) Suc(4) [of i] by auto
  ultimately show ?case using Suc(5) by (simp split: if_splits)
qed simp

lemma shadow_init_ids_are:
  assumes "0 < ring_size s" and "ring_size s \<le> 512" and "\<And>i. request (shadow s i) = None"
  shows "ids_are [0..<ring_size s] (s\<lparr>shadow := shadow_init (ring_size s) (shadow s), shadow_free := 0\<rparr>)"
proof -
  let ?t = "s\<lparr>shadow := shadow_init (ring_size s) (shadow s), shadow_free := 0\<rparr>"
  have "linked (blk_next ?t) (if 0 < ring_size s then 0 else SHADOW_END) SHADOW_END [0..<ring_size s]"
    using assms shadow_init_ids [OF assms(1)]
    by (intro linked_upto) (auto simp: blk_next_def SHADOW_END_def)
  then show ?thesis
    using assms shadow_init_ids [OF assms(1)] by (auto simp: ids_are_def ring_size_def)
qed

lemma waiting_append: "waiting (s\<lparr>resume_list := xs @ ys\<rparr>) =
    (\<Sum>ent \<leftarrow> xs. req_ms (request (copy ent))) + (\<Sum>ent \<leftarrow> ys. req_ms (request (copy ent)))"
  by (simp add: waiting_def)

lemma in_flight_entries:
  assumes "n \<le> 512" and "\<And>i. n \<le> i \<Longrightarrow> request (shadow s i) = None"
  shows "(\<Sum>ent \<leftarrow> map (entry_of s) (filter (used s) [0..<n]). req_ms (request (copy ent))) = in_flight s"
proof -
  have "(\<Sum>ent \<leftarrow> map (entry_of s) (filter (used s) is). req_ms (request (copy ent))) = (\<Sum>i \<leftarrow> is. req_ms (request (shadow s i)))" for "is"
    by (induction "is") (auto simp: used_def entry_of_def)
  also have "(\<Sum>i \<leftarrow> [0..<n]. req_ms (request (shadow s i))) = (\<Sum>i < n. req_ms (request (shadow s i)))"
    by (simp add: sum_list_distinct_conv_sum_set lessThan_atLeast0)
  also have "\<dots> = in_flight s"
    unfolding in_flight_def using assms by (intro sum.mono_neutral_left) auto
  finally show ?thesis .
qed

text \<open>
  A new connection: the ring, its page and the limits may be different; the slots, the lists and
  the queue are those of the old one, and the new ring is empty.
\<close>

definition reconnected :: "blkfront_info \<Rightarrow> blkfront_info \<Rightarrow> bool" where
  "reconnected s u \<longleftrightarrow> (\<forall>i. request (shadow u i) = request (shadow s i)) \<and> rq_pending u = rq_pending s \<and>
     ended u = ended s \<and> resume_list u = resume_list s \<and> resume_split u = resume_split s \<and>
     0 < ring_size u \<and> ring_size u \<le> 512 \<and> req_prod_pvt (bring u) = 0"

lemma recover_ok:
  assumes inv: "blk_inv s" and rec: "reconnected s u"
    and run: "blkif_recover_shadow mem (ring_size s) (ring_size u) u = Some (0, t)"
  shows "ids_are [0..<ring_size u] t \<and> rq_pending t = rq_pending s \<and> ended t = ended s \<and> resume_split t = resume_split s \<and>
    resume_list t = resume_list s @ map (entry_of u) (filter (used u) [0..<ring_size s]) \<and>
    (\<forall>i. request (shadow t i) = None)"
proof -
  obtain ents v w where v: "save_shadow mem [0..<ring_size s] [] u = Some (True, ents, v)"
    and w: "clear_shadow [0..<ring_size s] (v\<lparr>resume_list := resume_list v @ ents\<rparr>) = Some w"
    and t: "t = w\<lparr>shadow := shadow_init (ring_size u) (shadow w), shadow_free := unat (req_prod_pvt (bring w))\<rparr>"
    using run by (auto simp: blkif_recover_shadow_def split: option.splits bool.splits prod.splits)
  obtain ind where ents: "ents = map (entry_of u) (filter (used u) [0..<ring_size s])" and v': "v = u\<lparr>indirect_segs := ind\<rparr>"
    using save_shadow_ok [OF v] by auto
  obtain sh where w': "w = v\<lparr>resume_list := resume_list v @ ents, shadow := sh\<rparr>"
    and sh: "\<And>i. request (sh i) = (if i < ring_size s then None else request (shadow u i))"
    using clear_shadow_ok [OF w] v' by auto
  have "request (shadow s i) = None" if "ring_size s \<le> i" for i
    using inv that by (simp add: blk_inv_def blk_ids_inv_def ids_are_def)
  then have none: "request (shadow w i) = None" for i
    using sh [of i] rec by (auto simp: w' reconnected_def)
  have size: "ring_size w = ring_size u" by (simp add: w' v' ring_size_def)
  have "ids_are [0..<ring_size w] (w\<lparr>shadow := shadow_init (ring_size w) (shadow w), shadow_free := 0\<rparr>)"
    using none rec size by (intro shadow_init_ids_are) (auto simp: reconnected_def)
  moreover have "t = w\<lparr>shadow := shadow_init (ring_size w) (shadow w), shadow_free := 0\<rparr>"
    using rec unfolding t size by (simp add: w' v' reconnected_def)
  moreover have "request (shadow t i) = None" for i
    using none shadow_init_ids(2) [of "ring_size u"] rec by (simp add: t reconnected_def)
  ultimately show ?thesis
    using rec ents size by (simp add: w' v' reconnected_def)
qed

lemma recover_requests:
  assumes inv: "blk_inv s" and rec: "reconnected s u"
    and run: "blkif_recover_shadow mem (ring_size s) (ring_size u) u = Some (0, t)"
  shows "all_requests t = all_requests s"
proof -
  note r = recover_ok [OF inv rec run]
  have s512: "ring_size s \<le> 512" and beyond: "\<And>i. ring_size s \<le> i \<Longrightarrow> request (shadow u i) = None"
    using inv rec by (auto simp: blk_inv_def blk_ids_inv_def ids_are_def reconnected_def)
  have "waiting t = waiting s + in_flight u"
    using r in_flight_entries [OF s512 beyond] by (simp add: waiting_def)
  moreover have "in_flight u = in_flight s" using rec by (intro in_flight_cong) (simp add: reconnected_def)
  moreover have "in_flight t = {#}" using r by (simp add: in_flight_def)
  ultimately show ?thesis using r by (auto simp: all_requests_def)
qed

lemma recover_conserve:
  assumes inv: "blk_inv s" and rec: "reconnected s u" and split: "resume_split s = []"
    and run: "blkif_recover_shadow mem (ring_size s) (ring_size u) u = Some (0, t)"
  shows "blk_inv t \<and> all_requests t = all_requests s"
proof -
  note r = recover_ok [OF inv rec run]
  have ent: "request (copy (entry_of u i)) = request (shadow s i)" for i
    using rec by (simp add: entry_of_def reconnected_def)
  have "entries_ok t"
    using r inv rec split by (auto simp: entries_ok_def blk_inv_def used_def ent reconnected_def entry_of_def)
  then show ?thesis using r ids_are_inv recover_requests [OF inv rec run] by (auto simp: blk_inv_def)
qed

section \<open>Any history of the device\<close>

text \<open>
  The block layer submits a request, the queue runs, the backend has done anything at all to
  the ring page and the interrupt is served, the worker restarts the queue, or the device is
  connected again and recovers; the list is what has been submitted. The connection may change at
  any time but while a split request is unfinished: what goes wrong then is shown by
  \<open>split_entry_survives_suspend\<close> in \<^verbatim>\<open>Blkfront_Recover\<close>.
\<close>

inductive blk_reach :: "blk_env \<Rightarrow> blkfront_info \<Rightarrow> blk_req list \<Rightarrow> blkfront_info \<Rightarrow> bool" for e s0 where
  start: "blk_reach e s0 [] s0"
| submit: "blk_reach e s0 rs s \<Longrightarrow> blk_reach e s0 (rs @ [r]) (s\<lparr>rq_pending := rq_pending s @ [r]\<rparr>)"
| run: "blk_reach e s0 rs s \<Longrightarrow> do_blkif_request e s = Some t \<Longrightarrow> blk_reach e s0 rs t"
| interrupt: "blk_reach e s0 rs s \<Longrightarrow> blkif_int e peers (s\<lparr>bsring := pg\<rparr>) = Some t \<Longrightarrow> blk_reach e s0 rs t"
| restart: "blk_reach e s0 rs s \<Longrightarrow> blkif_restart_queue e s = Some t \<Longrightarrow> blk_reach e s0 rs t"
| reconnect: "blk_reach e s0 rs s \<Longrightarrow> resume_split s = [] \<Longrightarrow> reconnected s u \<Longrightarrow>
    blkif_recover_shadow mem (ring_size s) (ring_size u) u = Some (0, t) \<Longrightarrow> blk_reach e s0 rs t"

lemma blk_reach_conserve:
  "blk_reach e s0 rs s \<Longrightarrow> blk_inv s0 \<Longrightarrow> blk_inv s \<and> all_requests s = all_requests s0 + mset rs"
proof (induction rule: blk_reach.induct)
  case (submit rs s r)
  have "blk_inv (s\<lparr>rq_pending := p\<rparr>) = blk_inv s" for p
    by (simp add: blk_inv_def blk_ids_inv_def ids_are_def blk_free_def blk_next_def [abs_def] ring_size_def
        entries_ok_def split_entry_ok_def)
  then show ?case using submit by (simp add: all_requests_def in_flight_def waiting_def)
next
  case (run rs s t)
  then show ?case using do_blkif_request_conserve by metis
next
  case (interrupt rs s peers pg t)
  have "blk_inv (s\<lparr>bsring := pg\<rparr>)" "all_requests (s\<lparr>bsring := pg\<rparr>) = all_requests s"
    using interrupt keeps_inv [OF keeps_fields(2)] by auto
  then show ?case using interrupt blkif_int_conserve by metis
next
  case (restart rs s t)
  then show ?case using kick_conserve by (metis blkif_restart_queue_def option.inject)
next
  case (reconnect rs s u mem t)
  then show ?case using recover_conserve by metis
qed simp

text \<open>
  C1: No request of the block layer is lost, and none is ended twice: in every history, with any
  behaviour of the backend, and with any number of reconnections as long as none falls between the
  pieces of a split request, what was submitted is exactly what waits in the queue, is in flight,
  waits to be submitted again, or has been ended. So if the submitted requests are distinct,
  the ended ones are distinct and were submitted.
\<close>

theorem blk_requests_conserved:
  assumes "blk_reach e s0 rs s" and "blk_inv s0"
  shows "blk_inv s \<and>
    mset (rq_pending s) + in_flight s + waiting s + mset (map fst (ended s)) = all_requests s0 + mset rs \<and>
    (all_requests s0 = {#} \<and> distinct rs \<longrightarrow> distinct (map fst (ended s)) \<and> set (map fst (ended s)) \<subseteq> set rs)"
proof -
  note c = blk_reach_conserve [OF assms]
  have "distinct (map fst (ended s)) \<and> set (map fst (ended s)) \<subseteq> set rs" if "all_requests s0 = {#}" "distinct rs"
  proof -
    have sub: "mset (map fst (ended s)) \<subseteq># mset rs"
      using c that(1) by (metis add_0 all_requests_def mset_subset_eq_add_right)
    then obtain ys where "mset rs = mset (map fst (ended s) @ ys)"
      by (metis ex_mset mset_append subset_mset.add_diff_inverse)
    then have "distinct (map fst (ended s) @ ys)" using that(2) mset_eq_imp_distinct_iff by blast
    then show ?thesis using sub by (metis distinct_append set_mset_mono set_mset_mset)
  qed
  then show ?thesis using c by (simp add: all_requests_def)
qed

definition blk_request_example :: blk_req where
  "blk_request_example = \<lparr>rq_no = 1, rq_cmd_type = REQ_TYPE_FS, rq_cmd_len = 0, rq_flush_fua = False, rq_discard = False,
     rq_secure = False, rq_write = True, rq_pos = 5, rq_sectors = 8, rq_sg = [(77, 512, 1024)]\<rparr>"

definition blk_example :: blkfront_info where
  "blk_example = \<lparr>connected = BLKIF_STATE_CONNECTED, bring = \<lparr>req_prod_pvt = 0, rsp_cons = 0, f_nr_ents = 2\<rparr>,
     bsring = \<lparr>req_prod = 0, req_event = 1, rsp_prod = 0, rsp_event = 1, pvt_pad = [], pad44 = [],
       ring = replicate 2 (Rsp \<lparr>rsp_id = 0, rsp_operation = 0, rsp_status = 0\<rparr>)\<rparr>,
     max_segs_per_req = 2, vhandle = 3, backend_id = 9,
     shadow = (\<lambda>i. \<lparr>req = \<lparr>rid = if i = 0 then 1 else SHADOW_END, sector_number = 0, body = Rw 0 0 []\<rparr>,
       request = None, frames = [0, 0]\<rparr>),
     shadow_free = 0, indirect_segs = (\<lambda>_. None), nr_seg_slots = 0, seg_store = (\<lambda>_. None), resume_list = [],
     resume_split = [], feature_flush = 0, flush_op = 0, feature_discard = False, feature_secdiscard = False,
     restart_callback = 0, rq_pending = [], rq_stopped = False, ended = [], notified = 0, flush_updates = 0,
     gnt = gnt_example\<rparr>"

definition blk_example_env :: blk_env where
  "blk_example_env = \<lparr>genv = gnt_example_env, hyp_writes = (\<lambda>_. []), kmem = (\<lambda>_. None)\<rparr>"

lemma blk_example_inv: "blk_inv blk_example" and blk_example_free: "blk_free blk_example = [0, 1]"
  and blk_example_empty: "all_requests blk_example = {#}"
proof -
  have "ids_are [0, 1] blk_example"
    by (auto simp: ids_are_def blk_example_def ring_size_def blk_next_def SHADOW_END_def less_2_cases_iff)
  then show "blk_inv blk_example" "blk_free blk_example = [0, 1]"
    by (simp_all add: ids_are_iff blk_inv_def entries_ok_def blk_example_def)
  show "all_requests blk_example = {#}"
    by (simp add: all_requests_def in_flight_def waiting_def blk_example_def)
qed

section \<open>What a submitted request grants\<close>

lemma plain_flags_used [simp]: "plain_flags (data_flags r)"
  by (simp add: data_flags_def)

definition grant_all :: "u16 \<Rightarrow> u16 \<Rightarrow> (nat \<times> u32) list \<Rightarrow> (nat \<Rightarrow> grant_entry_v1) \<Rightarrow> nat \<Rightarrow> grant_entry_v1" where
  "grant_all dmn fl ps sh = fold (\<lambda>(r, f) sh. sh(r := entry_for dmn fl f)) ps sh"

lemma grant_all_simps [simp]:
  "grant_all dmn fl [] sh = sh"
  "grant_all dmn fl ((r, f) # ps) sh = grant_all dmn fl ps (sh(r := entry_for dmn fl f))"
  by (simp_all add: grant_all_def)

lemma grant_all_other: "r \<notin> fst ` set ps \<Longrightarrow> grant_all dmn fl ps sh r = sh r"
  by (induction ps arbitrary: sh) auto

lemma grant_all_zip_other: "r \<notin> set rs \<Longrightarrow> grant_all dmn fl (zip rs fs) sh r = sh r"
  by (rule grant_all_other) (auto dest: set_zip_leftD)

lemma grant_all_these:
  "distinct rs \<Longrightarrow> length rs = length fs \<Longrightarrow> map (grant_all dmn fl (zip rs fs) sh) rs = map (entry_for dmn fl) fs"
proof (induction rs arbitrary: fs sh)
  case (Cons r rs)
  then obtain f fs' where fs: "fs = f # fs'" "length rs = length fs'" by (cases fs) auto
  have "r \<notin> fst ` set (zip rs fs')" using Cons.prems(1) by (auto dest: set_zip_leftD)
  then show ?case using Cons fs by (simp add: grant_all_other)
qed simp

lemma claim_grants_ok:
  assumes "plain_flags fl"
  shows "gnt_pages g \<Longrightarrow> linked (gnt_next g) h GNTTAB_LIST_END (xs @ ys) \<Longrightarrow> set (xs @ ys) \<subseteq> gnt_refs g \<Longrightarrow>
    length xs = length fs \<Longrightarrow>
    \<exists>h'. claim_grants dmn fs fl h g = Some (xs, h', g\<lparr>shared := grant_all dmn fl (zip xs fs) (shared g)\<rparr>) \<and>
      linked (gnt_next g) h' GNTTAB_LIST_END ys"
proof (induction fs arbitrary: xs h g)
  case Nil
  then show ?case by (cases g) auto
next
  case (Cons f fs)
  then obtain x xs' where xs: "xs = x # xs'" "length xs' = length fs" by (cases xs) auto
  let ?g = "g\<lparr>shared := (shared g)(x := entry_for dmn fl f)\<rparr>"
  have claim: "gnttab_claim_grant_reference h g = Some (int x, gnt_next g x)"
    and l: "linked (gnt_next g) (gnt_next g x) GNTTAB_LIST_END (xs' @ ys)"
    using gnttab_claim_ok [OF Cons.prems(1,2,3)] xs by simp_all
  obtain h' where "claim_grants dmn fs fl (gnt_next g x) ?g =
      Some (xs', h', ?g\<lparr>shared := grant_all dmn fl (zip xs' fs) (shared ?g)\<rparr>)"
    "linked (gnt_next ?g) h' GNTTAB_LIST_END ys"
  proof -
    have "\<exists>h'. claim_grants dmn fs fl (gnt_next g x) ?g =
        Some (xs', h', ?g\<lparr>shared := grant_all dmn fl (zip xs' fs) (shared ?g)\<rparr>) \<and>
      linked (gnt_next ?g) h' GNTTAB_LIST_END ys"
      by (rule Cons.IH) (use Cons.prems l xs in auto)
    then show thesis using that by blast
  qed
  then show ?case using claim grant_ref_ok [OF assms] xs by (simp del: fun_upd_apply)
qed

text \<open>
  \<open>h\<close> heads a private list \<open>xs\<close> of references of \<open>g\<close>, taken from \<open>g0\<close>.
\<close>

lemma map_request_ok:
  assumes h: "gnt_hands_out m h xs g0 (gnt s)" and n: "length (rq_sg r) \<le> max_segs_per_req s"
    and m: "m = wanted_refs s" and x: "indirect_segs s i = Some p" "seg_store s p = Some a"
      "length (seg_pages a) \<ge> BLKIF_INDIRECT_PAGES (length (rq_sg r))"
    and big: "\<not> length (rq_sg r) \<le> BLKIF_MAX_SEGMENTS_PER_REQUEST"
  defines "k \<equiv> BLKIF_INDIRECT_PAGES (length (rq_sg r))"
  defines "prefs \<equiv> take k xs" and "refs \<equiv> take (length (rq_sg r)) (drop k xs)"
  defines "sh \<equiv> grant_all (backend_id s) (data_flags r) (zip refs (map fst (rq_sg r)))
      (grant_all (backend_id s) GTF_readonly (zip prefs (take k (seg_pages a))) (shared (gnt s)))"
  shows "\<exists>h'. map_request i r h s = Some (Indirect (request_op s r) (vhandle s) (length (rq_sg r)) prefs, h',
      s\<lparr>gnt := (gnt s)\<lparr>shared := sh\<rparr>,
        seg_store := (seg_store s)(p \<mapsto> a\<lparr>segs := store_prefix (map2 sg_segment refs (rq_sg r)) (segs a)\<rparr>),
        shadow := (shadow s)(i := (shadow s i)\<lparr>frames := store_prefix (map fst (rq_sg r)) (frames (shadow s i))\<rparr>)\<rparr>) \<and>
    linked (gnt_next (gnt s)) h' GNTTAB_LIST_END (drop (k + length (rq_sg r)) xs) \<and>
    length prefs = k \<and> length refs = length (rq_sg r)"
proof -
  let ?n = "length (rq_sg r)" and ?g = "gnt s"
  have mono: "BLKIF_INDIRECT_PAGES ?n \<le> BLKIF_INDIRECT_PAGES (max_segs_per_req s)"
    using n by (simp add: BLKIF_INDIRECT_PAGES_def div_le_mono)
  then have len: "k + ?n \<le> length xs"
    using h m n big by (simp add: gnt_hands_out_def wanted_refs_def Let_def k_def)
  have xs: "xs = prefs @ refs @ drop (k + ?n) xs"
    unfolding prefs_def refs_def by (metis append_take_drop_id drop_drop add.commute)
  have lens: "length prefs = k" "length refs = ?n" using len by (simp_all add: prefs_def refs_def)
  have g: "gnt_pages ?g" "linked (gnt_next ?g) h GNTTAB_LIST_END xs" "set xs \<subseteq> gnt_refs ?g"
    using h by (auto simp: gnt_hands_out_def gnt_inv_def)
  let ?g1 = "?g\<lparr>shared := grant_all (backend_id s) GTF_readonly (zip prefs (take k (seg_pages a))) (shared ?g)\<rparr>"
  obtain h1 where c1: "claim_grants (backend_id s) (take k (seg_pages a)) GTF_readonly h ?g = Some (prefs, h1, ?g1)"
    and l1: "linked (gnt_next ?g) h1 GNTTAB_LIST_END (refs @ drop (k + ?n) xs)"
  proof -
    have "linked (gnt_next ?g) h GNTTAB_LIST_END (prefs @ (refs @ drop (k + ?n) xs))"
      "set (prefs @ (refs @ drop (k + ?n) xs)) \<subseteq> gnt_refs ?g"
      using g(2,3) xs by simp_all
    from claim_grants_ok [OF plain_flags_readonly(1) g(1) this, of "take k (seg_pages a)"] show thesis
      using that lens x(3) by (auto simp: k_def)
  qed
  have "gnt_pages ?g1" "linked (gnt_next ?g1) h1 GNTTAB_LIST_END (refs @ drop (k + ?n) xs)"
    "set (refs @ drop (k + ?n) xs) \<subseteq> gnt_refs ?g1"
    using g l1 xs by (simp_all, metis Un_subset_iff set_append)
  from claim_grants_ok [where fs = "map fst (rq_sg r)" and dmn = "backend_id s", OF plain_flags_used [of r] this] lens
  obtain h2 where
    c2: "claim_grants (backend_id s) (map fst (rq_sg r)) (data_flags r) h1 ?g1 = Some (refs, h2, ?g\<lparr>shared := sh\<rparr>)"
    and l2: "linked (gnt_next ?g) h2 GNTTAB_LIST_END (drop (k + ?n) xs)"
    by (auto simp: sh_def)
  have "map_request i r h s = Some (Indirect (request_op s r) (vhandle s) ?n prefs, h2,
      s\<lparr>gnt := ?g\<lparr>shared := sh\<rparr>,
        seg_store := (seg_store s)(p \<mapsto> a\<lparr>segs := store_prefix (map2 sg_segment refs (rq_sg r)) (segs a)\<rparr>),
        shadow := (shadow s)(i := (shadow s i)\<lparr>frames := store_prefix (map fst (rq_sg r)) (frames (shadow s i))\<rparr>)\<rparr>)"
    using n big x c1 c2 by (simp add: map_request_def Let_def k_def)
  then show ?thesis using l2 lens by blast
qed

lemma map_request_small:
  assumes h: "gnt_hands_out m h xs g0 (gnt s)" and n: "length (rq_sg r) \<le> max_segs_per_req s"
    and m: "m = wanted_refs s" and small: "length (rq_sg r) \<le> BLKIF_MAX_SEGMENTS_PER_REQUEST"
  defines "refs \<equiv> take (length (rq_sg r)) xs"
  defines "sh \<equiv> grant_all (backend_id s) (data_flags r) (zip refs (map fst (rq_sg r))) (shared (gnt s))"
  shows "\<exists>h'. map_request i r h s = Some (Rw (request_op s r) (vhandle s) (map2 sg_segment refs (rq_sg r)), h',
      s\<lparr>gnt := (gnt s)\<lparr>shared := sh\<rparr>,
        shadow := (shadow s)(i := (shadow s i)\<lparr>frames := store_prefix (map fst (rq_sg r)) (frames (shadow s i))\<rparr>)\<rparr>) \<and>
    linked (gnt_next (gnt s)) h' GNTTAB_LIST_END (drop (length (rq_sg r)) xs) \<and> length refs = length (rq_sg r)"
proof -
  let ?n = "length (rq_sg r)" and ?g = "gnt s"
  have len: "?n \<le> length xs" using h m n by (auto simp: gnt_hands_out_def wanted_refs_def Let_def)
  have lens: "length refs = ?n" using len by (simp add: refs_def)
  have "gnt_pages ?g" "linked (gnt_next ?g) h GNTTAB_LIST_END (refs @ drop ?n xs)" "set (refs @ drop ?n xs) \<subseteq> gnt_refs ?g"
    using h by (simp_all add: gnt_hands_out_def gnt_inv_def refs_def flip: set_append)
  from claim_grants_ok [where fs = "map fst (rq_sg r)" and dmn = "backend_id s", OF plain_flags_used [of r] this] lens
  obtain h2 where
    "claim_grants (backend_id s) (map fst (rq_sg r)) (data_flags r) h ?g = Some (refs, h2, ?g\<lparr>shared := sh\<rparr>)"
    "linked (gnt_next ?g) h2 GNTTAB_LIST_END (drop ?n xs)"
    by (auto simp: sh_def)
  then show ?thesis using n small lens by (simp add: map_request_def Let_def)
qed

text \<open>The operation on the ring, and the flags of the grants of data pages.\<close>

definition wanted_op :: "blkfront_info \<Rightarrow> blk_req \<Rightarrow> u8" where
  "wanted_op s r =
     (if rq_cmd_type r = REQ_TYPE_BLOCK_PC then BLKIF_OP_PACKET
      else if rq_flush_fua r then flush_op s else if rq_write r then BLKIF_OP_WRITE else BLKIF_OP_READ)"

lemma request_op_wanted: "request_op s r = wanted_op s r"
  by (simp add: request_op_def wanted_op_def)

definition wanted_flags :: "blk_req \<Rightarrow> u16" where
  "wanted_flags r = GTF_permit_access OR (if rq_write r then GTF_readonly else 0)"

lemma entry_data_flags: "entry_for dmn (data_flags r) f = \<lparr>flags = wanted_flags r, domid = dmn, frame = f\<rparr>"
  by (simp add: entry_for_def data_flags_def wanted_flags_def)

definition ring_request :: "blkfront_info \<Rightarrow> blk_req \<Rightarrow> nat \<Rightarrow> nat list \<Rightarrow> nat list \<Rightarrow> blkif_request" where
  "ring_request s r x prefs refs =
     \<lparr>rid = x, sector_number = rq_pos r,
      body = (if length (rq_sg r) \<le> BLKIF_MAX_SEGMENTS_PER_REQUEST
              then Rw (wanted_op s r) (vhandle s) (map2 sg_segment refs (rq_sg r))
              else Indirect (wanted_op s r) (vhandle s) (length (rq_sg r)) prefs)\<rparr>"

text \<open>
  The request \<open>r\<close> is on the ring under the id \<open>x\<close>: the data pages are granted through \<open>refs\<close>,
  read-only exactly for a write, the indirect pages, which hold the segments, through \<open>prefs\<close>.
\<close>

definition submitted :: "blk_req \<Rightarrow> nat \<Rightarrow> nat list \<Rightarrow> nat list \<Rightarrow> blkfront_info \<Rightarrow> blkfront_info \<Rightarrow> bool" where
  "submitted r x prefs refs s t \<longleftrightarrow>
     bsring t = ring_put (f_nr_ents (bring s)) (req_prod_pvt (bring s)) (Req (ring_request s r x prefs refs)) (bsring s) \<and>
     bring t = (bring s)\<lparr>req_prod_pvt := req_prod_pvt (bring s) + 1\<rparr> \<and>
     req (shadow t x) = ring_request s r x prefs refs \<and> request (shadow t x) = Some r \<and>
     take (length (rq_sg r)) (frames (shadow t x)) = map fst (rq_sg r) \<and>
     length refs = length (rq_sg r) \<and> distinct (prefs @ refs) \<and>
     map (shared (gnt t)) refs = map (\<lambda>(f, _). \<lparr>flags = wanted_flags r, domid = backend_id s, frame = f\<rparr>) (rq_sg r) \<and>
     (\<forall>i. i \<notin> set (prefs @ refs) \<longrightarrow> shared (gnt t) i = shared (gnt s) i) \<and>
     (if length (rq_sg r) \<le> BLKIF_MAX_SEGMENTS_PER_REQUEST then prefs = []
      else \<exists>p a. indirect_segs s x = Some p \<and> seg_store t p = Some a \<and>
             take (length (rq_sg r)) (segs a) = map2 sg_segment refs (rq_sg r) \<and>
             map (shared (gnt t)) prefs =
               map (entry_for (backend_id s) GTF_readonly) (take (BLKIF_INDIRECT_PAGES (length (rq_sg r))) (seg_pages a)))"

text \<open>The indirect pages of the id are there when the device takes more segments than fit a slot.\<close>

definition has_indirect :: "blkfront_info \<Rightarrow> nat \<Rightarrow> bool" where
  "has_indirect s x \<longleftrightarrow> max_segs_per_req s \<le> BLKIF_MAX_SEGMENTS_PER_REQUEST \<or>
     (\<exists>p a. indirect_segs s x = Some p \<and> seg_store s p = Some a \<and>
        length (seg_pages a) \<ge> BLKIF_INDIRECT_PAGES (max_segs_per_req s))"

lemma take_store_prefix [simp]: "length xs = n \<Longrightarrow> take n (store_prefix xs ys) = xs"
  by (simp add: store_prefix_def)

lemma refs_frames:
  assumes "gnt_inv g" and "gnt_inv h" and "gnt_refs h = gnt_refs g"
  shows "nr_grant_frames h = nr_grant_frames g"
proof -
  have "1 \<le> nr_grant_frames g" "1 \<le> nr_grant_frames h" using assms by (auto simp: gnt_inv_def gnt_pages_def)
  then show ?thesis using assms(3) by (auto simp: gnt_refs_def gnt_consts atLeastLessThan_eq_iff)
qed

lemma request_callback_frame:
  "gnt_inv (gnttab_request_free_callback c fn arg n g) = gnt_inv g \<and> gnt_free (gnttab_request_free_callback c fn arg n g) = gnt_free g"
proof -
  let ?g = "g\<lparr>callbacks := (callbacks g)(c := \<lparr>cb_fn = fn, cb_arg = arg, cb_count = n, cb_queued = True\<rparr>),
                gnttab_free_callback_list := c # gnttab_free_callback_list g\<rparr>"
  have "same_list g ?g" by (simp add: same_list_def)
  then have "gnt_inv ?g = gnt_inv g" "gnt_free ?g = gnt_free g" using same_list_gnt [of g ?g] by auto
  moreover have "gnt_inv (check_free_callbacks ?g) = gnt_inv ?g" "gnt_free (check_free_callbacks ?g) = gnt_free ?g"
    using same_list_gnt [OF conjunct1 [OF check_callbacks_frame [of ?g]]] by auto
  ultimately show ?thesis by (simp add: gnttab_request_free_callback_def)
qed

lemma queue_request_grants:
  assumes inv: "blk_inv s" and gi: "gnt_inv (gnt s)" and xen: "\<forall>i. add_to_physmap (genv e) i = 0"
    and conn: "connected s = BLKIF_STATE_CONNECTED" and free: "blk_free s = x # xs"
    and r: "\<not> rq_discard r" "\<not> rq_secure r" "length (rq_sg r) \<le> max_segs_per_req s"
    and w: "0 < wanted_refs s" "wanted_refs s < 2 ^ 16" and ind: "has_indirect s x"
  shows "\<exists>rc t. blkif_queue_request e r s = Some (rc, t) \<and>
    (if rc \<noteq> 0
     then rc = 1 \<and> length (gnt_free (gnt s)) < wanted_refs s \<and> keeps s t \<and>
       gnt_inv (gnt t) \<and> gnt_free (gnt t) = gnt_free (gnt s)
     else blk_free t = xs \<and> blk_inv t \<and> gnt_inv (gnt t) \<and>
       (\<exists>prefs refs. submitted r x prefs refs s t \<and> set (prefs @ refs) \<inter> set (gnt_free (gnt t)) = {} \<and>
          prefs @ refs @ gnt_free (gnt t) = gnt_grown (gnt s) (gnt t) @ gnt_free (gnt s)))"
proof -
  have un: "wanted_refs (s\<lparr>gnt := g\<rparr>) = wanted_refs s" for g by (simp add: wanted_refs_def)
  show ?thesis
  proof (cases rule: alloc_refs_cases [OF gi w xen, case_names none some])
    case (none g')
    have "blkif_queue_request e r s =
        Some (1, s\<lparr>gnt := gnttab_request_free_callback (restart_callback s) 0 0 (of_nat (wanted_refs s)) g'\<rparr>)"
      using conn none(1) by (simp add: blkif_queue_request_def Let_def)
    then show ?thesis using none request_callback_frame keeps_fields(1) by (auto simp: xen)
  next
    case (some h ys g)
    let ?s1 = "s\<lparr>gnt := g\<rparr>"
    have k1: "keeps s ?s1" by (rule keeps_fields)
    have ids1: "ids_are (x # xs) ?s1" using inv free keeps_inv [OF k1] ids_are_iff by (simp add: blk_inv_def)
    let ?s2 = "?s1\<lparr>shadow_free := rid (req (shadow s x)), shadow := (shadow s)(x := (shadow s x)\<lparr>req := (req (shadow s x))\<lparr>rid := 0x0fffffee\<rparr>\<rparr>)\<rparr>"
    have get: "GET_ID_FROM_FREELIST ?s1 = Some (x, ?s2)" using get_id_next [OF ids1] by simp
    let ?s3 = "?s2\<lparr>shadow := (shadow ?s2)(x := (shadow ?s2 x)\<lparr>request := Some r\<rparr>)\<rparr>"
    have op: "request_op ?s3 r = wanted_op s r" and wr: "wanted_refs ?s3 = wanted_refs s"
      by (simp_all add: request_op_wanted wanted_op_def wanted_refs_def)
    have ho: "gnt_hands_out (wanted_refs s) h ys (gnt s) (gnt ?s3)" using some(2) by simp
    have gf: "gnt_inv g" "distinct ys" "set ys \<inter> set (gnt_free g) = {}" "set ys \<subseteq> gnt_refs g"
      and cons: "ys @ gnt_free g = gnt_grown (gnt s) g @ gnt_free (gnt s)" and out: "outside g = outside (gnt s)"
      and lenys: "length ys = wanted_refs s"
      using some(2) by (simp_all add: gnt_hands_out_def)
    let ?n = "length (rq_sg r)" and ?small = "length (rq_sg r) \<le> BLKIF_MAX_SEGMENTS_PER_REQUEST"
    obtain prefs refs h' sh st where map: "map_request x r h ?s3 = Some (body (ring_request s r x prefs refs), h',
        ?s3\<lparr>gnt := g\<lparr>shared := sh\<rparr>, seg_store := st,
          shadow := (shadow ?s3)(x := (shadow ?s3 x)\<lparr>frames := store_prefix (map fst (rq_sg r)) (frames (shadow ?s3 x))\<rparr>)\<rparr>)"
      and l: "linked (gnt_next g) h' GNTTAB_LIST_END (drop (length (prefs @ refs)) ys)"
      and pr: "prefs @ refs = take (length (prefs @ refs)) ys" and len: "length refs = ?n"
      and shr: "map sh refs = map (entry_for (backend_id s) (data_flags r)) (map fst (rq_sg r))"
      and oth: "\<forall>i. i \<notin> set (prefs @ refs) \<longrightarrow> sh i = shared g i"
      and ind': "if ?small then prefs = []
        else \<exists>p a. indirect_segs s x = Some p \<and> st p = Some a \<and> take ?n (segs a) = map2 sg_segment refs (rq_sg r) \<and>
             map sh prefs = map (entry_for (backend_id s) GTF_readonly) (take (BLKIF_INDIRECT_PAGES ?n) (seg_pages a))"
    proof (cases ?small)
      case True
      let ?refs = "take ?n ys" and ?sh = "grant_all (backend_id s) (data_flags r) (zip (take ?n ys) (map fst (rq_sg r))) (shared g)"
      obtain h' where m: "map_request x r h ?s3 = Some (Rw (wanted_op s r) (vhandle s) (map2 sg_segment ?refs (rq_sg r)), h',
          ?s3\<lparr>gnt := g\<lparr>shared := ?sh\<rparr>,
            shadow := (shadow ?s3)(x := (shadow ?s3 x)\<lparr>frames := store_prefix (map fst (rq_sg r)) (frames (shadow ?s3 x))\<rparr>)\<rparr>)"
        "linked (gnt_next g) h' GNTTAB_LIST_END (drop ?n ys)" "length ?refs = ?n"
        using map_request_small [OF ho, of r x] r(3) wr op True by auto
      show thesis
      proof (rule that [of "[]" ?refs h' "seg_store s" ?sh])
        show "map ?sh ?refs = map (entry_for (backend_id s) (data_flags r)) (map fst (rq_sg r))"
          using gf(2) m(3) by (intro grant_all_these) simp_all
        show "\<forall>i. i \<notin> set ([] @ ?refs) \<longrightarrow> ?sh i = shared g i"
          by (simp add: grant_all_zip_other)
      qed (use m True in \<open>simp_all add: ring_request_def\<close>)
    next
      case False
      obtain p a where pa: "indirect_segs s x = Some p" "seg_store s p = Some a"
        "length (seg_pages a) \<ge> BLKIF_INDIRECT_PAGES (max_segs_per_req s)"
        using ind False r(3) by (auto simp: has_indirect_def)
      have mono: "BLKIF_INDIRECT_PAGES ?n \<le> BLKIF_INDIRECT_PAGES (max_segs_per_req s)"
        using r(3) by (simp add: BLKIF_INDIRECT_PAGES_def div_le_mono)
      let ?k = "BLKIF_INDIRECT_PAGES ?n"
      let ?prefs = "take ?k ys" and ?refs = "take ?n (drop ?k ys)"
      let ?sh1 = "grant_all (backend_id s) GTF_readonly (zip ?prefs (take ?k (seg_pages a))) (shared g)"
      let ?sh = "grant_all (backend_id s) (data_flags r) (zip ?refs (map fst (rq_sg r))) ?sh1"
      obtain h' where m: "map_request x r h ?s3 = Some (Indirect (wanted_op s r) (vhandle s) ?n ?prefs, h',
          ?s3\<lparr>gnt := g\<lparr>shared := ?sh\<rparr>,
            seg_store := (seg_store s)(p \<mapsto> a\<lparr>segs := store_prefix (map2 sg_segment ?refs (rq_sg r)) (segs a)\<rparr>),
            shadow := (shadow ?s3)(x := (shadow ?s3 x)\<lparr>frames := store_prefix (map fst (rq_sg r)) (frames (shadow ?s3 x))\<rparr>)\<rparr>)"
        "linked (gnt_next g) h' GNTTAB_LIST_END (drop (?k + ?n) ys)" "length ?prefs = ?k" "length ?refs = ?n"
        using map_request_ok [OF ho, of r x p a] r(3) wr op False pa mono by auto
      have dist: "distinct (?prefs @ ?refs)" and pre: "?prefs @ ?refs = take (?k + ?n) ys"
        using gf(2) distinct_take [of ys "?k + ?n"] by (simp_all add: take_add)
      show thesis
      proof (rule that [of ?prefs ?refs h' _ ?sh])
        show "map ?sh ?refs = map (entry_for (backend_id s) (data_flags r)) (map fst (rq_sg r))"
          using dist m(4) by (intro grant_all_these) simp_all
        show "\<forall>i. i \<notin> set (?prefs @ ?refs) \<longrightarrow> ?sh i = shared g i"
          by (simp add: grant_all_zip_other)
        have "map ?sh ?prefs = map ?sh1 ?prefs"
          using dist by (intro map_cong refl grant_all_zip_other) auto
        also have "\<dots> = map (entry_for (backend_id s) GTF_readonly) (take ?k (seg_pages a))"
          using dist m(3) pa(3) mono by (intro grant_all_these) simp_all
        finally show "if ?small then ?prefs = []
          else \<exists>p' a'. indirect_segs s x = Some p' \<and>
            ((seg_store s)(p \<mapsto> a\<lparr>segs := store_prefix (map2 sg_segment ?refs (rq_sg r)) (segs a)\<rparr>)) p' = Some a' \<and>
            take ?n (segs a') = map2 sg_segment ?refs (rq_sg r) \<and>
            map ?sh ?prefs = map (entry_for (backend_id s) GTF_readonly) (take (BLKIF_INDIRECT_PAGES ?n) (seg_pages a'))"
          using False pa(1) m(4) by simp
        show "map_request x r h ?s3 = Some (body (ring_request s r x ?prefs ?refs), h',
          ?s3\<lparr>gnt := g\<lparr>shared := ?sh\<rparr>,
            seg_store := (seg_store s)(p \<mapsto> a\<lparr>segs := store_prefix (map2 sg_segment ?refs (rq_sg r)) (segs a)\<rparr>),
            shadow := (shadow ?s3)(x := (shadow ?s3 x)\<lparr>frames := store_prefix (map fst (rq_sg r)) (frames (shadow ?s3 x))\<rparr>)\<rparr>)"
          using m(1) False by (simp add: ring_request_def)
      qed (use m pre in simp_all)
    qed
    let ?q = "ring_request s r x prefs refs" and ?rest = "drop (length (prefs @ refs)) ys" and ?g1 = "g\<lparr>shared := sh\<rparr>"
    have ys: "ys = (prefs @ refs) @ ?rest" using pr by (metis append_take_drop_id)
    have dist: "distinct ((prefs @ refs) @ ?rest)" using gf(2) ys by simp
    have rest: "distinct ?rest" "set ?rest \<inter> set (gnt_free g) = {}" "set ?rest \<subseteq> gnt_refs g"
      using gf set_drop_subset [of "length (prefs @ refs)" ys] by auto
    obtain g2 where g2: "gnttab_free_grant_references (wanted_refs s + 1) h' ?g1 = Some g2" "gnt_inv g2"
      "gnt_free g2 = ?rest @ gnt_free g" "gnt_refs g2 = gnt_refs g" "outside g2 = outside ?g1"
    proof -
      have "length ?rest \<le> wanted_refs s + 1" using lenys unfolding length_drop by linarith
      then show thesis
        using that gnttab_free_grant_references_ok [of ?g1 h' ?rest "wanted_refs s + 1"] gf(1) l rest by auto
    qed
    have sh2: "shared g2 = sh" and shg: "shared g = shared (gnt s)" using g2(5) out by (simp_all add: outside_def)
    let ?t = "?s3\<lparr>gnt := g2, seg_store := st,
        bsring := ring_put (f_nr_ents (bring s)) (req_prod_pvt (bring s)) (Req ?q) (bsring s),
        bring := (bring s)\<lparr>req_prod_pvt := req_prod_pvt (bring s) + 1\<rparr>,
        shadow := (shadow ?s3)(x := (shadow ?s3 x)\<lparr>frames := store_prefix (map fst (rq_sg r)) (frames (shadow ?s3 x)), req := ?q\<rparr>)\<rparr>"
    have q: "\<lparr>rid = x, sector_number = rq_pos r, body = body ?q\<rparr> = ?q" by (simp add: ring_request_def)
    have run: "blkif_queue_request e r s = Some (0, ?t)"
      using conn some(1) get map r(1,2) g2(1) by (simp add: blkif_queue_request_def Let_def q)
    obtain x' xs' where "blk_free s = x' # xs'" "slot_taken x' r s ?t" "resume_list ?t = resume_list s" "resume_split ?t = resume_split s"
      using queue_request_done [OF inv run] by blast
    then have ids: "blk_inv ?t" "blk_free ?t = xs"
      using slot_taken_ok [OF inv free, of r ?t "[]"] free by simp_all
    have grown: "gnt_grown (gnt s) g2 = gnt_grown (gnt s) g"
      using refs_frames [OF gf(1) g2(2,4)] by (simp add: gnt_grown_def)
    have "submitted r x prefs refs s ?t"
      using len dist shr oth ind' sh2 shg
      by (auto simp: submitted_def ring_request_def entry_data_flags comp_def split_def split: if_splits)
    moreover have "set (prefs @ refs) \<inter> set (gnt_free g2) = {}"
    proof -
      have "set (prefs @ refs) \<subseteq> set ys" "set (prefs @ refs) \<inter> set ?rest = {}"
        using dist set_take_subset [of "length (prefs @ refs)" ys] unfolding pr [symmetric] by auto
      then show ?thesis using gf(3) unfolding g2(3) by auto
    qed
    moreover have "prefs @ refs @ gnt_free g2 = gnt_grown (gnt s) g2 @ gnt_free (gnt s)"
      using cons ys unfolding g2(3) grown by (metis append.assoc)
    ultimately show ?thesis using run ids g2(2) by (intro exI [of _ 0] exI [of _ ?t]) (auto simp del: append_assoc)
  qed
qed

text \<open>
  C10: Submitting a read or write. With a free id and enough room for the segments,
  \<open>blkif_queue_request\<close> either finds too few free references, and then only asks to be called
  back, or puts the request on the ring under the first free id: each segment names a fresh
  reference of its own that lets exactly the backend at exactly the segment's frame, for
  reading only when the request is a write; large requests have their segments on indirect
  pages granted read-only; the references used and those returned are together what was free.
\<close>

theorem blkif_queue_request_grants:
  assumes inv: "blk_inv s" and gi: "gnt_inv (gnt s)" and xen: "\<forall>i. add_to_physmap (genv e) i = 0"
    and conn: "connected s = BLKIF_STATE_CONNECTED" and free: "blk_free s = x # xs"
    and r: "\<not> rq_discard r" "\<not> rq_secure r" "length (rq_sg r) \<le> max_segs_per_req s"
    and w: "0 < wanted_refs s" "wanted_refs s < 2 ^ 16" and ind: "has_indirect s x"
  shows "\<exists>rc t. blkif_queue_request e r s = Some (rc, t) \<and>
    (if rc \<noteq> 0
     then rc = 1 \<and> length (gnt_free (gnt s)) < wanted_refs s \<and> keeps s t \<and>
       gnt_inv (gnt t) \<and> gnt_free (gnt t) = gnt_free (gnt s)
     else blk_free t = xs \<and> blk_inv t \<and> gnt_inv (gnt t) \<and>
       (\<exists>prefs refs. submitted r x prefs refs s t \<and> set (prefs @ refs) \<inter> set (gnt_free (gnt t)) = {} \<and>
          prefs @ refs @ gnt_free (gnt t) = gnt_grown (gnt s) (gnt t) @ gnt_free (gnt s)))"
  using assms by (rule queue_request_grants)

lemma blk_example_request:
  "\<not> rq_discard blk_request_example" "\<not> rq_secure blk_request_example"
  "\<forall>i. add_to_physmap (genv blk_example_env) i = 0"
  by (simp_all add: blk_example_env_def gnt_example_env_def blk_request_example_def)

lemma blk_example_waiting:
  fixes ps defines "s \<equiv> blk_example\<lparr>rq_pending := ps\<rparr>"
  shows "blk_inv s" "blk_free s = [0, 1]" "connected s = BLKIF_STATE_CONNECTED"
    "length (rq_sg blk_request_example) \<le> max_segs_per_req s" "wanted_refs s = 2" "has_indirect s 0"
    "gnt_inv (gnt s)" "gnt_free (gnt s) = [8, 9]"
    "\<not> RING_FULL (bring s)" "\<not> unsupported s blk_request_example"
proof -
  have "ids_are [0, 1] s"
    by (auto simp: ids_are_def s_def blk_example_def ring_size_def blk_next_def SHADOW_END_def less_2_cases_iff)
  then show "blk_inv s" "blk_free s = [0, 1]"
    by (simp_all add: ids_are_iff blk_inv_def entries_ok_def blk_example_def s_def)
  show "gnt_inv (gnt s)" "gnt_free (gnt s) = [8, 9]"
    using gnt_example_inv by (simp_all add: s_def blk_example_def)
  show "connected s = BLKIF_STATE_CONNECTED"
    "length (rq_sg blk_request_example) \<le> max_segs_per_req s" "wanted_refs s = 2" "has_indirect s 0"
    "\<not> RING_FULL (bring s)" "\<not> unsupported s blk_request_example"
    by (simp_all add: s_def blk_example_def blk_request_example_def wanted_refs_def
        has_indirect_def BLKIF_MAX_SEGMENTS_PER_REQUEST_def RING_FULL_def RING_FREE_REQUESTS_def unsupported_def)
qed

theorem blkif_queue_request_grants_witness:
  "\<exists>t prefs refs. blkif_queue_request blk_example_env blk_request_example blk_example = Some (0, t) \<and>
     submitted blk_request_example 0 prefs refs blk_example t"
proof -
  have s: "blk_example\<lparr>rq_pending := []\<rparr> = blk_example" by (simp add: blk_example_def)
  note h = blk_example_waiting [of "[]", unfolded s]
  have "0 < wanted_refs blk_example" "wanted_refs blk_example < 2 ^ 16" using h(5) by simp_all
  from blkif_queue_request_grants [OF h(1,7) blk_example_request(3) h(3,2) blk_example_request(1,2) h(4) this h(6)] h(5,8)
  show ?thesis by (auto split: if_splits)
qed

theorem blk_requests_conserved_witness:
  "\<exists>s. blk_reach blk_example_env blk_example [blk_request_example] s \<and> rq_pending s = [] \<and>
     in_flight s + waiting s + mset (map fst (ended s)) = {#blk_request_example#} \<and> distinct (map fst (ended s))"
proof -
  let ?r = blk_request_example
  let ?s = "blk_example\<lparr>rq_pending := [?r]\<rparr>"
  note h = blk_example_waiting [of "[?r]"]
  have "blk_reach blk_example_env blk_example ([] @ [?r]) (blk_example\<lparr>rq_pending := rq_pending blk_example @ [?r]\<rparr>)"
    by (intro blk_reach.submit blk_reach.start)
  then have r: "blk_reach blk_example_env blk_example [?r] ?s" by (simp add: blk_example_def)
  have "0 < wanted_refs ?s" "wanted_refs ?s < 2 ^ 16" using h(5) by simp_all
  from queue_request_grants [OF h(1,7) blk_example_request(3) h(3,2) blk_example_request(1,2) h(4) this h(6)] h(5,8)
  obtain t where t: "blkif_queue_request blk_example_env ?r ?s = Some (0, t)" by (auto split: if_splits)
  let ?u = "flush_requests (t\<lparr>rq_pending := []\<rparr>)"
  have "do_blkif_request blk_example_env ?s = Some ?u"
    using t h(9,10) by (simp add: do_blkif_request_def)
  then have u: "blk_reach blk_example_env blk_example [?r] ?u" by (rule blk_reach.run [OF r])
  have p: "rq_pending ?u = []" by (simp add: flush_requests_def Let_def split: prod.split)
  from blk_requests_conserved [OF u blk_example_inv] u p blk_example_empty show ?thesis
    by (intro exI [of _ ?u]) simp
qed

end
