(* ===== verification/Blkfront_Recover.thy ===== *)
theory Blkfront_Recover
  imports Blkfront_Props
begin

text \<open>
  What the disk front end submits again after a suspend: the copies blkif_recover_shadow
  makes of the requests in flight, and the pieces of a request that is too large for the new
  backend; and the geometry it reports.
\<close>

section \<open>Requests in flight at a suspend\<close>

text \<open>
  C25: Recovery after a suspend. Every request that was in flight waits to be submitted again,
  after those that already waited, in the order of the ids and with its sector, segments and
  frames; all ids of the new ring are free, and none is in use.
\<close>

theorem blkif_recover_resubmits:
  assumes "blk_inv s" and "reconnected s u"
    and "blkif_recover_shadow mem (ring_size s) (ring_size u) u = Some (0, t)"
  shows "resume_list t = resume_list s @ map (entry_of u) (filter (used u) [0..<ring_size s]) \<and>
    blk_free t = [0..<ring_size u] \<and> (\<forall>i. \<not> used t i) \<and> rq_pending t = rq_pending s \<and> ended t = ended s"
  using recover_ok [OF assms] ids_are_iff by (auto simp: used_def)

definition recover_example :: blkfront_info where
  "recover_example = blk_example\<lparr>shadow_free := 1,
     shadow := (\<lambda>i. if i = 0 then \<lparr>req = \<lparr>rid = 0, sector_number = 40, body = Rw 0 3 [\<lparr>gref = 8, first_sect = 0, last_sect = 7\<rparr>]\<rparr>,
         request = Some blk_request_example, frames = [5, 0]\<rparr>
       else \<lparr>req = \<lparr>rid = SHADOW_END, sector_number = 0, body = Rw 0 0 []\<rparr>, request = None, frames = [0, 0]\<rparr>)\<rparr>"

theorem blkif_recover_resubmits_witness:
  "\<exists>t. blkif_recover_shadow (\<lambda>_. True) 2 2 recover_example = Some (0, t) \<and>
     map (sector_number \<circ> req \<circ> copy) (resume_list t) = [40] \<and> blk_free t = [0..<2]"
proof -
  let ?s = recover_example
  have "ids_are [1] ?s"
    by (auto simp: ids_are_def recover_example_def blk_example_def ring_size_def blk_next_def SHADOW_END_def less_2_cases_iff)
  then have inv: "blk_inv ?s"
    by (simp add: ids_are_iff blk_inv_def entries_ok_def blk_example_def recover_example_def)
  have size: "ring_size ?s = 2" by (simp add: ring_size_def recover_example_def blk_example_def)
  then have rec: "reconnected ?s ?s"
    by (simp add: reconnected_def recover_example_def blk_example_def)
  have two: "[0..<2] = [0, Suc 0]" by (simp add: numeral_2_eq_2)
  obtain t where t: "blkif_recover_shadow (\<lambda>_. True) 2 2 ?s = Some (0, t)"
    by (simp add: blkif_recover_shadow_def two recover_example_def blk_example_def saved_segs_def Let_def)
  from blkif_recover_resubmits [OF inv rec, of "\<lambda>_. True" t] t size have
    "resume_list t = resume_list ?s @ map (entry_of ?s) (filter (used ?s) [0..<2])" "blk_free t = [0..<2]" by simp_all
  then show ?thesis using t
    by (simp add: two used_def entry_of_def) (simp add: recover_example_def blk_example_def)
qed

section \<open>Geometry\<close>

text \<open>
  C37: The geometry reported to partitioning tools: 255 heads, 63 sectors, and as many cylinders as fit
  the disk, or 65535 when 16 bits cannot hold that many; the 16-bit wrap-around of the
  quotient is always noticed.
\<close>

theorem blkif_getgeo_saturates:
  "\<exists>c. blkif_getgeo nsect = (255, 63, c) \<and> unat c = min (unat nsect div (255 * 63)) 65535"
proof -
  let ?q = "unat nsect div 16065"
  let ?c = "ucast (nsect div 16065) :: u16"
  have q: "unat (nsect div 16065) = ?q" by (simp add: unat_div)
  have q64: "?q * 16065 \<le> unat nsect" "unat nsect < 2 ^ 64" "unat nsect < (?q + 1) * 16065"
    using unsigned_less [of nsect, where ?'a = nat] by (simp_all add: dividend_less_div_times mult.commute)
  have c: "unat ?c = ?q mod 65536" by (simp add: unsigned_ucast_eq take_bit_eq_mod q)
  have "(unat ?c + 1) * 16065 < 2 ^ 64"
    using unat_lt16 [of ?c] by simp
  then have m: "unat ((ucast ?c + 1 :: u64) * 16065) = (unat ?c + 1) * 16065"
  proof -
    have "(ucast c :: u64) = of_nat (unat c)" for c :: u16
      using unat_lt16 [of c] by (simp add: word_unat_eq_iff unsigned_ucast_eq take_bit_eq_mod)
    then have "(ucast ?c + 1 :: u64) * 16065 = of_nat ((unat ?c + 1) * 16065)" by (simp only: of_nat_add of_nat_mult of_nat_1 of_nat_numeral)
    then show ?thesis using \<open>(unat ?c + 1) * 16065 < 2 ^ 64\<close> by (simp only: unat_of_nat64)
  qed
  have lt: "((ucast ?c + 1 :: u64) * 16065 < nsect) = (65536 \<le> ?q)"
  proof (cases "65536 \<le> ?q")
    case True
    have "?q mod 65536 + 1 < ?q"
    proof (cases "?q = 65536")
      case True
      then show ?thesis by simp
    next
      case False
      have "?q mod 65536 < 65536" by simp
      then show ?thesis using False True by linarith
    qed
    then have "(?q mod 65536 + 1) * 16065 < ?q * 16065" by (simp only: mult_less_cancel2) simp
    then have "(unat ?c + 1) * 16065 < unat nsect" unfolding c using q64(1) by (rule order_less_le_trans)
    then show ?thesis using True m by (simp add: word_less_nat_alt)
  next
    case False
    then have "unat ?c = ?q" using c by simp
    then show ?thesis using False m q64(3) by (simp add: word_less_nat_alt)
  qed
  have "blkif_getgeo nsect = (255, 63, if 65536 \<le> ?q then 0xffff else ?c)"
    unfolding blkif_getgeo_def Let_def using lt by (simp add: mult.assoc)
  then show ?thesis using c by simp
qed

section \<open>Splitting a request the new backend cannot take\<close>

lemma displace_segs_ok:
  assumes "displace_segs i new s = Some t"
  shows "indirect_segs t i = new" and "seg_store t p = Some a \<Longrightarrow> seg_store s p = Some a"
    and "shadow t = shadow s" "max_segs_per_req t = max_segs_per_req s"
proof -
  have "\<exists>ind st. t = s\<lparr>indirect_segs := ind, seg_store := st\<rparr> \<and> ind i = new \<and> (\<forall>a. st p = Some a \<longrightarrow> seg_store s p = Some a)"
  proof (cases "indirect_segs s i")
    case None
    then have "t = s\<lparr>indirect_segs := (indirect_segs s)(i := new), seg_store := seg_store s\<rparr>"
      using assms by (simp add: displace_segs_def split: if_splits)
    then show ?thesis by (intro exI [of _ "(indirect_segs s)(i := new)"] exI [of _ "seg_store s"]) simp
  next
    case (Some old)
    note run = assms [unfolded displace_segs_def Some option.case]
    show ?thesis
    proof (cases "find (\<lambda>j. indirect_segs s j = None) (rev [0..<ring_size s])")
      case None
      then have "t = s\<lparr>seg_store := (seg_store s)(old := None), indirect_segs := (indirect_segs s)(i := new)\<rparr>"
        using run by (simp split: if_splits)
      then show ?thesis
        by (intro exI [of _ "(indirect_segs s)(i := new)"] exI [of _ "(seg_store s)(old := None)"]) auto
    next
      case (Some j)
      then have "t = s\<lparr>indirect_segs := (indirect_segs s)(j \<mapsto> old, i := new), seg_store := seg_store s\<rparr>"
        using run by (simp split: if_splits)
      then show ?thesis
        by (intro exI [of _ "(indirect_segs s)(j \<mapsto> old, i := new)"] exI [of _ "seg_store s"]) simp
    qed
  qed
  then show "indirect_segs t i = new" "seg_store t p = Some a \<Longrightarrow> seg_store s p = Some a"
    "shadow t = shadow s" "max_segs_per_req t = max_segs_per_req s" by auto
qed

text \<open>The segments of an entry that are still to be sent, and the segments a request on the ring has.\<close>

definition left_to_send :: "blk_resume_entry \<Rightarrow> blkfront_info \<Rightarrow> blkif_request_segment list" where
  "left_to_send ent s =
     (case body (req (copy ent)) of
        Rw _ _ sgs \<Rightarrow> sgs
      | Indirect _ _ n _ \<Rightarrow> (case Option.bind (ent_segs ent) (seg_store s) of None \<Rightarrow> [] | Some a \<Rightarrow> take n (segs a))
      | Discard _ _ _ \<Rightarrow> [])"

definition sent_segs :: "blkif_request \<Rightarrow> blk_resume_entry \<Rightarrow> blkfront_info \<Rightarrow> blkif_request_segment list" where
  "sent_segs q ent t = (case body q of Rw _ _ sgs \<Rightarrow> sgs | _ \<Rightarrow> left_to_send ent t)"

text \<open>An indirect request has more segments than fit a slot, and its array holds them.\<close>

definition large_ok :: "blk_resume_entry \<Rightarrow> blkfront_info \<Rightarrow> bool" where
  "large_ok ent s \<longleftrightarrow>
     (case body (req (copy ent)) of
        Indirect _ _ n _ \<Rightarrow> BLKIF_MAX_SEGMENTS_PER_REQUEST < n \<and>
          (case Option.bind (ent_segs ent) (seg_store s) of None \<Rightarrow> False | Some a \<Rightarrow> n \<le> length (segs a))
      | _ \<Rightarrow> True)"

lemma resubmit_piece:
  assumes "resubmit i ent s = Some (q, Some w, t)"
  shows "\<exists>iop h n gs p a. body (req (copy ent)) = Indirect iop h n gs \<and> ent_segs ent = Some p \<and> seg_store s p = Some a \<and>
    seg_store t p = Some a \<and> indirect_segs t i = Some p \<and> n > max_segs_per_req s \<and>
    q = (req (copy ent))\<lparr>rid := i, body := Rw iop h (take BLKIF_MAX_SEGMENTS_PER_REQUEST (segs a))\<rparr> \<and>
    w = ent\<lparr>copy := (copy ent)\<lparr>req := (req (copy ent))\<lparr>rid := i\<rparr>\<rparr>\<rparr>"
proof (cases "body (req (copy ent))")
  case (Indirect iop h n gs)
  then obtain u p a where u: "displace_segs i (ent_segs ent) s = Some u" and p: "ent_segs ent = Some p" "seg_store u p = Some a"
    using assms by (auto simp: resubmit_def Let_def bind_eq_Some_conv split: option.splits)
  note d = displace_segs_ok [OF u]
  have split: "n > max_segs_per_req u" "split_request i ent (segs a) u = Some (q, w, t)"
    using assms Indirect u p by (auto simp: resubmit_def Let_def split: option.splits if_splits)
  then have "q = (req (copy ent))\<lparr>rid := i, body := Rw iop h (take BLKIF_MAX_SEGMENTS_PER_REQUEST (segs a))\<rparr>"
    "w = ent\<lparr>copy := (copy ent)\<lparr>req := (req (copy ent))\<lparr>rid := i\<rparr>\<rparr>\<rparr>"
    "seg_store t = seg_store u" "indirect_segs t = indirect_segs u"
    using Indirect by (auto simp: split_request_def Let_def split: option.splits if_splits)
  then show ?thesis using Indirect p d split(1) by auto
qed (use assms in \<open>auto simp: resubmit_def Let_def split: option.splits if_splits\<close>)

lemma resubmit_whole:
  assumes "resubmit i ent s = Some (q, None, t)" and "large_ok ent s"
  shows "sector_number q = sector_number (req (copy ent)) \<and> sent_segs q ent t = left_to_send ent s"
proof (cases "body (req (copy ent))")
  case (Indirect iop h n gs)
  then obtain u p a where u: "displace_segs i (ent_segs ent) s = Some u" and p: "ent_segs ent = Some p" "seg_store u p = Some a"
    using assms by (auto simp: resubmit_def Let_def bind_eq_Some_conv split: option.splits)
  note d = displace_segs_ok [OF u]
  have "q = (req (copy ent))\<lparr>rid := i\<rparr>" "seg_store t = seg_store u"
    using assms Indirect u p by (auto simp: resubmit_def Let_def split: option.splits if_splits)
  then show ?thesis using Indirect p d by (simp add: sent_segs_def left_to_send_def)
next
  case (Rw op h sgs)
  then have "q = (req (copy ent))\<lparr>rid := i\<rparr>" "body q = Rw op h sgs"
    using assms by (auto simp: resubmit_def Let_def split: option.splits if_splits)
  then show ?thesis using Rw by (simp add: sent_segs_def left_to_send_def)
next
  case (Discard fl h n)
  then have "q = (req (copy ent))\<lparr>rid := i\<rparr>" "body q = Discard fl h n"
    using assms by (auto simp: resubmit_def Let_def split: option.splits if_splits)
  then show ?thesis using Discard by (simp add: sent_segs_def left_to_send_def)
qed

lemma completion_piece:
  assumes "blkif_completion e i BLKIF_RSP_OKAY u = Some (False, v)"
    and w: "find (\<lambda>t. rid (req (copy t)) = i) (resume_split u) = Some w"
    and p: "indirect_segs u i = Some p" "seg_store u p = Some a"
    and b: "body (req (copy w)) = Indirect iop h n gs"
  defines "sgs \<equiv> store_prefix (drop BLKIF_MAX_SEGMENTS_PER_REQUEST (take n (segs a))) (segs a)"
  shows "resume_list v = resume_list u @ [next_piece w sgs] \<and> seg_store v p = Some (a\<lparr>segs := sgs\<rparr>)"
proof -
  obtain x1 x2 x3 x4 where ind: "body (req (shadow u i)) = Indirect x1 x2 x3 x4"
    using assms(1) by (auto simp: blkif_completion_def split: blkif_body.splits)
  have "i < nr_seg_slots u" using assms(1) ind by (auto simp: blkif_completion_def split: if_splits)
  then obtain u' where "end_gnt e (map gref (take BLKIF_MAX_SEGMENTS_PER_REQUEST (segs a))) (u\<lparr>resume_split := remove1 w (resume_split u)\<rparr>) = Some u'"
    and v: "v = u'\<lparr>seg_store := (seg_store u')(p \<mapsto> a\<lparr>segs := sgs\<rparr>), resume_list := resume_list u' @ [next_piece w sgs]\<rparr>"
    using assms(1) ind w p b by (auto simp: blkif_completion_def sgs_def Let_def split: option.splits)
  then have "seg_store u' = seg_store u" "resume_list u' = resume_list u" by (auto simp: end_gnt_def)
  then show ?thesis using v by simp
qed

text \<open>
  The life of an entry that is submitted again: the requests put on the ring with their segments,
  and whether the last piece is among them. A piece follows when the backend has answered the
  one before with success. Between two steps anything may happen to the device, as long as the
  entry waits for its slot's response and its array is not touched. The run may stop before the
  last piece for any reason: an error of the backend, a suspend, a crash of the driver.
\<close>

inductive split_run :: "blk_env \<Rightarrow> blk_resume_entry \<Rightarrow> blkfront_info \<Rightarrow> (blkif_request \<times> blkif_request_segment list) list \<Rightarrow> bool \<Rightarrow> bool"
  for e where
  stops: "split_run e ent s [] False"
| last: "resubmit i ent s = Some (q, None, t) \<Longrightarrow> split_run e ent s [(q, sent_segs q ent t)] True"
| piece: "resubmit i ent s = Some (q, Some w, t) \<Longrightarrow>
    find (\<lambda>x. rid (req (copy x)) = i) (resume_split u) = Some w \<Longrightarrow> indirect_segs u i = indirect_segs t i \<Longrightarrow>
    (\<And>p. ent_segs ent = Some p \<Longrightarrow> seg_store u p = seg_store t p) \<Longrightarrow>
    blkif_completion e i BLKIF_RSP_OKAY u = Some (False, v) \<Longrightarrow> resume_list v = resume_list u @ [ent'] \<Longrightarrow>
    (\<And>p. ent_segs ent' = Some p \<Longrightarrow> seg_store s' p = seg_store v p) \<Longrightarrow>
    split_run e ent' s' rs fin \<Longrightarrow> split_run e ent s ((q, sent_segs q ent t) # rs) fin"

lemma split_run_segments:
  "split_run e ent s rs fin \<Longrightarrow> large_ok ent s \<Longrightarrow>
    (\<exists>rest. left_to_send ent s = concat (map snd rs) @ rest \<and> (fin \<longrightarrow> rest = [])) \<and> (\<forall>q \<in> fst ` set rs. sector_number q = sector_number (req (copy ent)))"
proof (induction rule: split_run.induct)
  case (stops ent s)
  then show ?case by simp
next
  case (last i ent s q t)
  then show ?case using resubmit_whole by auto
next
  case (piece i ent s q w t u v ent' s' rs fin)
  let ?m = BLKIF_MAX_SEGMENTS_PER_REQUEST
  obtain iop h n gs p a where b: "body (req (copy ent)) = Indirect iop h n gs" and p: "ent_segs ent = Some p"
    "seg_store s p = Some a" "seg_store t p = Some a" "indirect_segs t i = Some p"
    and q: "q = (req (copy ent))\<lparr>rid := i, body := Rw iop h (take ?m (segs a))\<rparr>"
    and w: "w = ent\<lparr>copy := (copy ent)\<lparr>req := (req (copy ent))\<lparr>rid := i\<rparr>\<rparr>\<rparr>"
    using resubmit_piece [OF piece.hyps(1)] by blast
  have n: "?m < n" "n \<le> length (segs a)" using piece.prems b p by (simp_all add: large_ok_def)
  let ?sgs = "store_prefix (drop ?m (take n (segs a))) (segs a)"
  have "body (req (copy w)) = Indirect iop h n gs" using w b by simp
  from completion_piece [OF piece.hyps(5,2) _ _ this] piece.hyps(3,4,6) p
  have ent': "ent' = next_piece w ?sgs" and v: "seg_store v p = Some (a\<lparr>segs := ?sgs\<rparr>)" by auto
  have segs: "ent_segs ent' = Some p" and sec: "sector_number (req (copy ent')) = sector_number (req (copy ent))"
    using w b p ent' by (simp_all add: next_piece_def Let_def)
  then have s': "seg_store s' p = Some (a\<lparr>segs := ?sgs\<rparr>)" using piece.hyps(7) v by simp
  have len: "length ?sgs = length (segs a)" using n by (simp add: store_prefix_def)
  have nm: "n - ?m \<le> length (segs a)" using n by simp
  have take: "take (n - ?m) ?sgs = drop ?m (take n (segs a))" using n by (simp add: store_prefix_def)
  have "large_ok ent' s'" and left: "left_to_send ent' s' = drop ?m (take n (segs a))"
    using w b ent' segs s' n take len nm by (simp_all add: large_ok_def left_to_send_def next_piece_def Let_def)
  then obtain rest where IH: "drop ?m (take n (segs a)) = concat (map snd rs) @ rest" "fin \<longrightarrow> rest = []"
    "\<forall>q \<in> fst ` set rs. sector_number q = sector_number (req (copy ent))"
    using piece.IH sec by auto
  have tk: "take ?m (segs a) @ drop ?m (take n (segs a)) = take n (segs a)"
    using n by (metis append_take_drop_id min.absorb2 min.commute order_less_imp_le take_take)
  have "left_to_send ent s = concat (map snd ((q, sent_segs q ent t) # rs)) @ rest"
    using tk [symmetric] IH(1) q b p by (simp add: sent_segs_def left_to_send_def)
  then show ?case using IH(2,3) q by auto
qed

text \<open>
  C24: A request the new backend cannot take whole. However far its submission gets, as long as the
  entry's array is left alone between the pieces, the pieces put on the ring are a beginning of the
  segments of the request, each once and in order, and all of them once the last piece is there. All of them, however, are sent for the
  sector the request starts at: \<open>split_request\<close> and \<open>blkif_completion\<close> move the segments and the
  frames on, never the sector number, so the data of every piece goes to the first sectors.
\<close>

theorem split_pieces_at_one_sector:
  assumes "split_run e ent s rs fin" and "large_ok ent s"
  shows "(\<exists>rest. left_to_send ent s = concat (map snd rs) @ rest \<and> (fin \<longrightarrow> rest = [])) \<and>
    map (sector_number \<circ> fst) rs = replicate (length rs) (sector_number (req (copy ent)))"
proof -
  note r = split_run_segments [OF assms]
  have "map (sector_number \<circ> fst) rs = replicate (length rs) (sector_number (req (copy ent)))"
    by (rule replicate_eqI) (use r [THEN conjunct2] in auto)
  then show ?thesis using r [THEN conjunct1] by (rule conjI [rotated])
qed

lemma regrant_ok:
  "plain_flags fl \<Longrightarrow> \<exists>g'. regrant dmn rs fl g = Some g' \<and> gnttab_list g' = gnttab_list g"
proof (induction rs arbitrary: g)
  case (Cons x rs)
  obtain r f where x: "x = (r, f)" by fastforce
  from Cons.IH [OF Cons.prems, of "g\<lparr>shared := (shared g)(r := entry_for dmn fl f)\<rparr>"] show ?case
    by (simp add: x grant_ref_ok [OF Cons.prems])
qed simp

lemma end_access_pages:
  assumes "gnttab_list g (r div RPP) \<noteq> None"
  shows "\<exists>g'. gnttab_end_foreign_access ws a r None g = Some g' \<and> (\<forall>p. gnttab_list g p \<noteq> None \<longrightarrow> gnttab_list g' p \<noteq> None)"
proof -
  obtain ok h where h: "gnttab_end_foreign_access_ref ws r g = (ok, h)" by fastforce
  have l: "gnttab_list h = gnttab_list g" using end_foreign_access_ref_ok h
    by (auto simp: gnttab_end_foreign_access_ref_def same_list_def split: prod.splits)
  show ?thesis
  proof (cases "ok = 0")
    case True
    then show ?thesis using h l by (simp add: gnttab_end_foreign_access_def gnttab_add_deferred_def arm_timer_def split: option.split)
  next
    case False
    let ?u = "put_entry r (gnttab_free_head h) h"
    let ?v = "check_free_callbacks (?u\<lparr>gnttab_free_head := r, gnttab_free_count := gnttab_free_count ?u + 1\<rparr>)"
    have "put_free_entry r h = Some ?v" using assms l by (simp add: put_free_entry_def set_entry_page)
    moreover have "gnttab_list ?v = gnttab_list ?u" using check_callbacks_frame by (simp add: same_list_def)
    ultimately show ?thesis using False h l put_entry_pages
      by (simp add: gnttab_end_foreign_access_def free_page_def)
  qed
qed

lemma end_refs_ok:
  "\<forall>r \<in> set rs. gnttab_list g (r div RPP) \<noteq> None \<Longrightarrow> \<exists>g'. end_refs e rs g = Some g'"
proof (induction rs arbitrary: g)
  case (Cons r rs)
  have "gnttab_list g (r div RPP) \<noteq> None" using Cons.prems by simp
  from end_access_pages [OF this] obtain g' where
    "gnttab_end_foreign_access (hyp_writes e r) (kmem e r) r None g = Some g'"
    "\<forall>p. gnttab_list g p \<noteq> None \<longrightarrow> gnttab_list g' p \<noteq> None" by blast
  then show ?case using Cons by simp
qed simp

text \<open>A read of twelve pages from sector 40, when the new backend takes eleven.\<close>

definition split_example_entry :: blk_resume_entry where
  "split_example_entry =
     \<lparr>copy = \<lparr>req = \<lparr>rid = 0, sector_number = 40, body = Indirect BLKIF_OP_READ 3 12 [8]\<rparr>,
       request = Some blk_request_example, frames = map word_of_nat [100..<112]\<rparr>, ent_segs = Some 0\<rparr>"

definition split_example :: blkfront_info where
  "split_example = blk_example\<lparr>max_segs_per_req := 11, nr_seg_slots := 2,
     seg_store := [0 \<mapsto> \<lparr>seg_pages = [7], segs = map (\<lambda>k. \<lparr>gref = k, first_sect = 0, last_sect = 7\<rparr>) [9..<21]\<rparr>],
     shadow := (\<lambda>i. (copy split_example_entry)\<lparr>frames := replicate 11 0\<rparr>)\<rparr>"

theorem split_pieces_at_one_sector_witness:
  "\<exists>rs. split_run blk_example_env split_example_entry split_example rs True \<and> length rs = 2 \<and>
     map (sector_number \<circ> fst) rs = replicate 2 40 \<and> concat (map (map gref \<circ> snd) rs) = [9..<21]"
proof -
  let ?s = split_example and ?ent = split_example_entry
  have large: "large_ok ?ent ?s"
    by (simp add: large_ok_def split_example_entry_def split_example_def BLKIF_MAX_SEGMENTS_PER_REQUEST_def)
  let ?sg = "\<lambda>k. \<lparr>gref = k, first_sect = 0, last_sect = 7\<rparr>"
  let ?q = "(req (copy ?ent))\<lparr>rid := 0, body := Rw BLKIF_OP_READ 3 (map ?sg [9..<20])\<rparr>"
  have plain: "plain_flags (entry_flags x)" for x by (cases "request (copy x)") (simp_all add: entry_flags_def)
  obtain g where g: "regrant 9 (zip [9..<20] (take 11 (map word_of_nat [100..<112]))) (entry_flags ?ent) (gnt ?s) = Some g"
    "gnttab_list g = gnttab_list (gnt ?s)" using regrant_ok [OF plain] by blast
  define t where "t = ?s\<lparr>indirect_segs := (indirect_segs ?s)(0 \<mapsto> 0), gnt := g,
    shadow := (shadow ?s)(0 := (shadow ?s 0)\<lparr>frames := store_prefix (take 11 (map word_of_nat [100..<112])) (replicate 11 0)\<rparr>)\<rparr>"
  have "displace_segs 0 (Some 0) ?s = Some (?s\<lparr>indirect_segs := (indirect_segs ?s)(0 \<mapsto> 0)\<rparr>)"
    by (simp add: displace_segs_def split_example_def blk_example_def)
  then have r: "resubmit 0 ?ent ?s = Some (?q, Some ?ent, t)"
    using g(1)
    by (simp add: resubmit_def split_request_def Let_def t_def split_example_def split_example_entry_def blk_example_def
      BLKIF_MAX_SEGMENTS_PER_REQUEST_def)
  define u where "u = t\<lparr>resume_split := [?ent]\<rparr>"
  have "gnttab_list g (k div RPP) \<noteq> None" if "k < 1024" for k
    using g(2) that by (simp add: split_example_def blk_example_def gnt_example_def RPP_def)
  then have "\<forall>k \<in> set [9..<20]. gnttab_list g (k div RPP) \<noteq> None" by simp
  from end_refs_ok [OF this] obtain h where h: "end_refs blk_example_env [9..<20] g = Some h" by blast
  let ?segs = "map ?sg ([20] @ [10..<21])"
  define ent' where "ent' = next_piece ?ent ?segs"
  define v where "v = u\<lparr>resume_split := [], gnt := h, seg_store := [0 \<mapsto> \<lparr>seg_pages = [7], segs = ?segs\<rparr>], resume_list := [ent']\<rparr>"
  have c: "blkif_completion blk_example_env 0 BLKIF_RSP_OKAY u = Some (False, v)"
    using h
    by (simp add: blkif_completion_def Let_def v_def u_def t_def ent'_def split_example_def split_example_entry_def
      blk_example_def BLKIF_MAX_SEGMENTS_PER_REQUEST_def store_prefix_def end_gnt_def)
  let ?q2 = "\<lparr>rid = 0, sector_number = 40, body = Rw BLKIF_OP_READ 3 [?sg 20]\<rparr>"
  obtain h2 where "regrant 9 (zip [20] (drop 11 (map word_of_nat [100..<112]))) (entry_flags ent') h = Some h2"
    using regrant_ok [OF plain] by blast
  then obtain t2 where r2: "resubmit 0 ent' v = Some (?q2, None, t2)"
    by (simp add: resubmit_def Let_def ent'_def v_def u_def t_def next_piece_def split_example_def split_example_entry_def
      blk_example_def BLKIF_MAX_SEGMENTS_PER_REQUEST_def)
  define rs where "rs = [(?q, sent_segs ?q ?ent t), (?q2, sent_segs ?q2 ent' t2)]"
  have run: "split_run blk_example_env ?ent ?s rs True"
    unfolding rs_def
  proof (rule split_run.piece [OF r _ _ _ c])
    show "split_run blk_example_env ent' v [(?q2, sent_segs ?q2 ent' t2)] True" by (rule split_run.last [OF r2])
  qed (simp_all add: u_def v_def split_example_entry_def t_def split_example_def blk_example_def)
  have two: "length rs = 2" by (simp add: rs_def)
  have "sector_number (req (copy ?ent)) = 40" by (simp add: split_example_entry_def)
  then have m: "concat (map snd rs) = left_to_send ?ent ?s" "map (sector_number \<circ> fst) rs = replicate 2 40"
    using split_pieces_at_one_sector [OF run large] two by auto
  have "map gref (left_to_send ?ent ?s) = [9..<21]"
    by (simp add: left_to_send_def split_example_entry_def split_example_def)
  then have "map gref (concat (map snd rs)) = [9..<21]" using m(1) by (simp only:)
  then show ?thesis using run two m(2) by (intro exI [of _ rs]) (simp add: map_concat)
qed

section \<open>A suspend between two pieces\<close>

lemma stale_entry_answer:
  assumes ids: "ids_are xs s" and w: "split_entry i s = Some w" "request (copy w) = Some r'"
    and slot: "request (shadow s i) = Some r" "is_Indirect (body (req (shadow s i)))"
    and run: "handle_response e p s = Some t" "rsp_id p = i" "rsp_status p = BLKIF_RSP_OKAY"
  shows "all_requests t + {#r#} = all_requests s + {#r'#}"
proof -
  have i: "i < ring_size s" "i \<notin> set xs" "i < 512"
    using ids slot(1) by (auto simp: ids_are_def) (metis leI option.distinct(1), metis leI le_trans not_le option.distinct(1))
  obtain fin u where u: "blkif_completion e i BLKIF_RSP_OKAY s = Some (fin, u)"
    using run i(1) by (auto simp: handle_response_def Let_def split: option.splits)
  have fin: "\<not> fin"
    using u slot(2) w(1) by (auto simp: blkif_completion_def split_entry_def Let_def split: blkif_body.splits option.splits if_splits)
  have cu: "completed i fin s u" using blkif_completion_completed [OF u] .
  have wu: "waiting u = waiting s + {#r'#}" using cu slot(2) w fin by (auto simp: completed_def waiting_def)
  have same: "same_ids s u" and f: "rq_pending u = rq_pending s" "ended u = ended s" using cu by (simp_all add: completed_def)
  then have iu: "ids_are xs u" "ring_size u = ring_size s" "\<And>j. request (shadow u j) = request (shadow s j)"
    using ids same_ids_are by (auto simp: same_ids_def)
  obtain v where v: "ADD_ID_TO_FREELIST i u = (0, v)" "\<And>j. request (shadow v j) = (if j = i then None else request (shadow u j))"
    by (rule ids_release [OF iu(1), of i]) (use i iu in auto)
  have t: "t = v" using run i(1) u v(1) fin by (simp add: handle_response_def Let_def)
  have vf: "v = u\<lparr>shadow := shadow v, shadow_free := shadow_free v\<rparr>" using v(1) by (auto simp: ADD_ID_TO_FREELIST_def split: if_splits)
  have vl: "resume_list v = resume_list u" "rq_pending v = rq_pending u" "ended v = ended u" by (subst vf, simp)+
  have "in_flight s = add_mset r (in_flight v)" using in_flight_upd [of i v s] v(2) slot(1) i(3) iu(3) by simp
  moreover have "waiting v = waiting u" using vl by (simp add: waiting_def)
  ultimately show ?thesis using t wu vl f by (simp add: all_requests_def)
qed


section \<open>Three pieces\<close>

lemma piece_answered:
  assumes run: "handle_response e p s = Some t" "rsp_id p = i" "rsp_status p = BLKIF_RSP_OKAY"
    and ids: "ids_are xs s" and slot: "request (shadow s i) \<noteq> None" "is_Indirect (body (req (shadow s i)))"
    and w: "split_entry i s = Some w"
  shows "\<exists>sgs. resume_list t = resume_list s @ [next_piece w sgs] \<and> shadow_free t = i \<and> i < ring_size t \<and> bring t = bring s \<and>
    indirect_segs t = indirect_segs s \<and> nr_seg_slots t = nr_seg_slots s"
proof -
  have i: "i < ring_size s" "rid (req (shadow s i)) = i"
    using ids slot(1) by (auto simp: ids_are_def) (metis leI option.distinct(1))+
  obtain x1 x2 x3 x4 where b: "body (req (shadow s i)) = Indirect x1 x2 x3 x4" using slot(2) by (cases "body (req (shadow s i))") auto
  obtain fin u where u: "blkif_completion e i BLKIF_RSP_OKAY s = Some (fin, u)"
    using run i(1) by (auto simp: handle_response_def Let_def split: option.splits)
  obtain q a where a: "(if i \<ge> nr_seg_slots s then None
      else Option.bind (indirect_segs s i) (\<lambda>p. map_option (Pair p) (seg_store s p))) = Some (q, a)"
    using u b by (auto simp: blkif_completion_def split: option.splits)
  obtain u' where u': "end_gnt e (map gref (take BLKIF_MAX_SEGMENTS_PER_REQUEST (segs a))) (s\<lparr>resume_split := remove1 w (resume_split s)\<rparr>) = Some u'"
    using u b a w by (auto simp: blkif_completion_def split_entry_def split: option.splits)
  obtain sgs st where fu: "\<not> fin" "u = u'\<lparr>seg_store := st, resume_list := resume_list u' @ [next_piece w sgs]\<rparr>"
    using u b a w u' by (auto simp: blkif_completion_def split_entry_def Let_def)
  obtain g where g: "u' = s\<lparr>resume_split := remove1 w (resume_split s), gnt := g\<rparr>" using end_gnt_keeps [OF u'] by auto
  have n: "request (shadow u i) \<noteq> None" "rid (req (shadow u i)) = i" using slot(1) i by (simp_all add: fu g)
  let ?t = "u\<lparr>shadow := (shadow u)(i := (shadow u i)\<lparr>req := (req (shadow u i))\<lparr>rid := shadow_free u\<rparr>, request := None\<rparr>), shadow_free := i\<rparr>"
  have "ADD_ID_TO_FREELIST i u = (0, ?t)" using n by (simp add: ADD_ID_TO_FREELIST_def)
  then have "t = ?t" using run i(1) u fu(1) by (simp add: handle_response_def Let_def)
  then show ?thesis using i(1) by (intro exI [of _ sgs]) (simp add: fu g ring_size_def)
qed

lemma displace_own:
  assumes "displace_segs i new s = Some t" and "indirect_segs s i = new" and "\<forall>j < ring_size s. indirect_segs s j \<noteq> None"
  shows "new = None \<or> (\<exists>p. new = Some p \<and> seg_store t p = None)"
proof (cases new)
  case (Some p)
  have "find (\<lambda>j. indirect_segs s j = None) (rev [0..<ring_size s]) = None" using assms(3) by (auto simp: find_None_iff)
  then show ?thesis using assms Some by (auto simp: displace_segs_def split: if_splits)
qed simp

text \<open>
  The array of a request in three pieces or more is freed while it is still needed. When the first
  piece has been answered, the entry takes the same id again, whose slot holds the very array the
  entry brings along; if no slot is empty to put that array aside, it is freed, and the driver goes on to
  read the next segments from it.
\<close>

lemma third_piece_frees_own_array:
  assumes ids: "ids_are xs s" and slot: "request (shadow s i) \<noteq> None" "is_Indirect (body (req (shadow s i)))"
    and w: "split_entry i s = Some w" "body (req (copy w)) = Indirect iop h n gs" "2 * BLKIF_MAX_SEGMENTS_PER_REQUEST < n"
    and arrays: "indirect_segs s i = ent_segs w" "\<forall>j < ring_size s. indirect_segs s j \<noteq> None"
    and idle: "resume_list s = []" "\<not> RING_FULL (bring s)"
    and answer: "handle_response e p s = Some t" "rsp_id p = i" "rsp_status p = BLKIF_RSP_OKAY"
  shows "kick_pending_request_queues e t = None"
proof -
  obtain sgs where t: "resume_list t = [next_piece w sgs]" "shadow_free t = i" "i < ring_size t" "bring t = bring s"
    "indirect_segs t = indirect_segs s"
    using piece_answered [OF answer ids slot w(1)] idle(1) by auto
  let ?w = "next_piece w sgs"
  have b: "body (req (copy ?w)) = Indirect iop h (n - BLKIF_MAX_SEGMENTS_PER_REQUEST) gs" and es: "ent_segs ?w = ent_segs w"
    using w(2,3) by (simp_all add: next_piece_def Let_def)
  let ?u = "t\<lparr>shadow_free := rid (req (shadow t i)), shadow := (shadow t)(i := (shadow t i)\<lparr>req := (req (shadow t i))\<lparr>rid := 0x0fffffee\<rparr>\<rparr>)\<rparr>"
  have get: "GET_ID_FROM_FREELIST t = Some (i, ?u)" using t(2,3) by (simp add: GET_ID_FROM_FREELIST_def Let_def)
  let ?v = "?u\<lparr>shadow := (shadow ?u)(i := (copy ?w)\<lparr>req := (req (copy ?w))\<lparr>rid := i\<rparr>, frames := frames (shadow ?u i)\<rparr>)\<rparr>"
  have own: "ent_segs ?w = None \<or> (\<exists>p. ent_segs ?w = Some p \<and> seg_store x p = None)" if "displace_segs i (ent_segs ?w) ?v = Some x" for x
    by (rule displace_own [OF that]) (use arrays t es in \<open>simp_all add: ring_size_def\<close>)
  have "resubmit i ?w ?v = None"
  proof (cases "displace_segs i (ent_segs ?w) ?v")
    case None
    then show ?thesis using b by (simp add: resubmit_def Let_def)
  next
    case (Some x)
    then have "Option.bind (ent_segs ?w) (seg_store x) = None" using own by auto
    then show ?thesis using b Some by (simp add: resubmit_def Let_def)
  qed
  then have "requeue_entry ?w t = None" using get by (simp add: requeue_entry_def)
  then show ?thesis using t idle(2) by (simp add: kick_pending_request_queues_def)
qed

section \<open>A split request of three pieces, in slot 1\<close>

definition three_pieces_entry :: blk_resume_entry where
  "three_pieces_entry =
     \<lparr>copy = \<lparr>req = \<lparr>rid = 1, sector_number = 40, body = Indirect BLKIF_OP_READ 3 23 [8]\<rparr>,
       request = Some blk_request_example, frames = replicate 23 0\<rparr>, ent_segs = Some 0\<rparr>"

definition three_pieces :: "blk_req \<Rightarrow> blkfront_info" where
  "three_pieces r = blk_example\<lparr>max_segs_per_req := 11, nr_seg_slots := 2, shadow_free := 0,
     indirect_segs := (\<lambda>j. if j = 1 then Some 0 else Some 1),
     seg_store := (\<lambda>_. Some \<lparr>seg_pages = [7], segs = map (\<lambda>k. \<lparr>gref = k, first_sect = 0, last_sect = 7\<rparr>) [9..<32]\<rparr>),
     resume_split := [three_pieces_entry],
     shadow := (\<lambda>i. if i = 1 then (copy three_pieces_entry)\<lparr>request := Some r\<rparr>
       else \<lparr>req = \<lparr>rid = SHADOW_END, sector_number = 0, body = Rw 0 0 []\<rparr>, request = None, frames = replicate 11 0\<rparr>)\<rparr>"

definition piece_done :: blkif_response where
  "piece_done = \<lparr>rsp_id = 1, rsp_operation = BLKIF_OP_READ, rsp_status = BLKIF_RSP_OKAY\<rparr>"

lemma three_pieces_ids: "ids_are [0] (three_pieces r)"
  by (auto simp: ids_are_def three_pieces_def three_pieces_entry_def blk_example_def ring_size_def blk_next_def SHADOW_END_def less_2_cases_iff)

lemma three_pieces_fields: "split_entry 1 (three_pieces r) = Some three_pieces_entry" "ring_size (three_pieces r) = 2"
  "request (shadow (three_pieces r) 1) = Some r" "is_Indirect (body (req (shadow (three_pieces r) 1)))"
  "resume_list (three_pieces r) = []" "\<not> RING_FULL (bring (three_pieces r))"
  by (simp_all add: three_pieces_def three_pieces_entry_def split_entry_def blk_example_def ring_size_def RING_FULL_def RING_FREE_REQUESTS_def)

lemma three_pieces_answer: "\<exists>t. handle_response blk_example_env piece_done (three_pieces r) = Some t"
proof -
  let ?s = "three_pieces r"
  have "gnttab_list (gnt ?s) (k div RPP) \<noteq> None" if "k < 1024" for k
    using that by (simp add: three_pieces_def blk_example_def gnt_example_def RPP_def)
  then have "\<forall>k \<in> set [9..<20]. gnttab_list (gnt ?s) (k div RPP) \<noteq> None" by simp
  from end_refs_ok [OF this] obtain h where "end_refs blk_example_env [9..<20] (gnt ?s) = Some h" by blast
  then obtain u where "blkif_completion blk_example_env 1 BLKIF_RSP_OKAY ?s = Some (False, u)"
    by (simp add: blkif_completion_def three_pieces_def three_pieces_entry_def blk_example_def BLKIF_MAX_SEGMENTS_PER_REQUEST_def
        end_gnt_def Let_def)
  then show ?thesis
    using three_pieces_fields(2) [of r] by (auto simp: handle_response_def piece_done_def split: prod.split)
qed

lemma third_piece_frees_own_array_witness:
  "\<exists>t. handle_response blk_example_env piece_done (three_pieces blk_request_example) = Some t \<and>
     kick_pending_request_queues blk_example_env t = None"
proof -
  let ?s = "three_pieces blk_request_example" and ?w = three_pieces_entry
  obtain t where t: "handle_response blk_example_env piece_done ?s = Some t" using three_pieces_answer by blast
  note f = three_pieces_fields [of blk_request_example]
  have b: "body (req (copy ?w)) = Indirect BLKIF_OP_READ 3 23 [8]" "2 * BLKIF_MAX_SEGMENTS_PER_REQUEST < 23"
    by (simp_all add: three_pieces_entry_def BLKIF_MAX_SEGMENTS_PER_REQUEST_def)
  have n: "request (shadow ?s 1) \<noteq> None" using f(3) by simp
  have a: "indirect_segs ?s 1 = ent_segs ?w" "\<forall>j < ring_size ?s. indirect_segs ?s j \<noteq> None"
    by (simp_all add: three_pieces_def three_pieces_entry_def)
  have p: "rsp_id piece_done = 1" "rsp_status piece_done = BLKIF_RSP_OKAY" by (simp_all add: piece_done_def)
  show ?thesis using third_piece_frees_own_array [OF three_pieces_ids n f(4,1) b a f(5,6) t p] t by blast
qed


end
