(* ===== verification/Netfront.thy ===== *)
theory Netfront
  imports Ring Gnttab
begin

text \<open>
  The data path of the network front end, \<^verbatim>\<open>xen-vnif/3.12.49/netfront.c\<close>: sending cuts a packet
  into pieces that lie in one page each and grants every piece through an id of its own;
  receiving keeps page buffers posted on the ring and joins the pieces the backend has filled.
  \<open>None\<close> is a \<open>BUG\<close>, a \<open>panic\<close> or a wild access. The send side runs under \<open>tx_lock\<close>, the
  receive side under \<open>rx_lock\<close>.
\<close>

section \<open>Packets and descriptors\<close>

definition PAGE_SIZE :: nat where "PAGE_SIZE = 4096"
definition PFN_UP :: "nat \<Rightarrow> nat" where "PFN_UP x = (x + PAGE_SIZE - 1) div PAGE_SIZE"
definition MAX_SKB_FRAGS :: nat where "MAX_SKB_FRAGS = 17"
definition NET_TX_RING_SIZE :: nat where "NET_TX_RING_SIZE = 256"
definition NET_RX_RING_SIZE :: nat where "NET_RX_RING_SIZE = 256"
definition TX_MAX_TARGET :: nat where "TX_MAX_TARGET = min NET_TX_RING_SIZE 256"
definition RX_MAX_TARGET :: nat where "RX_MAX_TARGET = min NET_RX_RING_SIZE 256"
definition RX_MIN_TARGET :: nat where "RX_MIN_TARGET = 8"
definition RX_DFL_MIN_TARGET :: nat where "RX_DFL_MIN_TARGET = 64"
definition RX_COPY_THRESHOLD :: nat where "RX_COPY_THRESHOLD = 256"
definition XEN_NETIF_MAX_TX_SIZE :: nat where "XEN_NETIF_MAX_TX_SIZE = 0xffff"
definition XEN_NETTXF_csum_blank :: u16 where "XEN_NETTXF_csum_blank = 1"
definition XEN_NETTXF_data_validated :: u16 where "XEN_NETTXF_data_validated = 2"
definition XEN_NETTXF_more_data :: u16 where "XEN_NETTXF_more_data = 4"
definition XEN_NETTXF_extra_info :: u16 where "XEN_NETTXF_extra_info = 8"
definition XEN_NETRXF_data_validated :: u16 where "XEN_NETRXF_data_validated = 1"
definition XEN_NETRXF_csum_blank :: u16 where "XEN_NETRXF_csum_blank = 2"
definition XEN_NETRXF_more_data :: u16 where "XEN_NETRXF_more_data = 4"
definition XEN_NETRXF_extra_info :: u16 where "XEN_NETRXF_extra_info = 8"
definition XEN_NETIF_EXTRA_TYPE_GSO :: u8 where "XEN_NETIF_EXTRA_TYPE_GSO = 1"
definition XEN_NETIF_EXTRA_TYPE_MAX :: u8 where "XEN_NETIF_EXTRA_TYPE_MAX = 4"
definition XEN_NETIF_EXTRA_FLAG_MORE :: u8 where "XEN_NETIF_EXTRA_FLAG_MORE = 1"
definition XEN_NETIF_GSO_TYPE_TCPV4 :: u8 where "XEN_NETIF_GSO_TYPE_TCPV4 = 1"
definition XEN_NETIF_RSP_NULL :: int where "XEN_NETIF_RSP_NULL = 1"

lemmas net_consts = PAGE_SIZE_def MAX_SKB_FRAGS_def NET_TX_RING_SIZE_def NET_RX_RING_SIZE_def TX_MAX_TARGET_def
  RX_MAX_TARGET_def RX_MIN_TARGET_def RX_DFL_MIN_TARGET_def RX_COPY_THRESHOLD_def XEN_NETIF_MAX_TX_SIZE_def

text \<open>
  A packet of the stack: the bytes of its linear part start at offset \<open>head_offset\<close> of a page and
  run on through pages with the frames \<open>head_mfn\<close>; a fragment lies at \<open>frag_offset\<close> of a block
  of \<open>2 ^ frag_order\<close> pages with the frames \<open>frag_mfn\<close>. \<open>needs_gso\<close> is what \<open>netif_needs_gso\<close> answers.
\<close>

datatype csum = CHECKSUM_NONE | CHECKSUM_UNNECESSARY | CHECKSUM_COMPLETE | CHECKSUM_PARTIAL

record skb_frag =
  frag_offset :: nat
  frag_size :: nat
  frag_order :: nat
  frag_mfn :: "nat \<Rightarrow> u32"

record sk_buff =
  skb_no :: nat
  head_offset :: nat
  head_len :: nat
  head_mfn :: "nat \<Rightarrow> u32"
  skb_frags :: "skb_frag list"
  tx_summed :: csum
  gso_size :: u16
  needs_gso :: bool

definition skb_len :: "sk_buff \<Rightarrow> nat" where
  "skb_len skb = head_len skb + (\<Sum>f \<leftarrow> skb_frags skb. frag_size f)"

definition skb_is_gso :: "sk_buff \<Rightarrow> bool" where "skb_is_gso skb \<longleftrightarrow> gso_size skb \<noteq> 0"

record netif_tx_request =
  tx_gref :: nat
  tx_offset :: u16
  tx_flags :: u16
  tx_id :: u16
  tx_size :: u16

record netif_extra_info =
  ex_type :: u8
  ex_flags :: u8
  ex_gso_size :: u16
  ex_gso_type :: u8
  ex_gso_pad :: u8
  ex_gso_features :: u16

text \<open>A slot of the send ring is a request or, cast, an extra descriptor.\<close>

datatype tx_slot = Tx netif_tx_request | Extra netif_extra_info

record netif_tx_response =
  txr_id :: u16
  txr_status :: int

record netif_rx_request =
  rxq_id :: u16
  rxq_pad :: u16
  rxq_gref :: nat

record netif_rx_response =
  rx_id :: u16
  rx_offset :: u16
  rx_flags :: u16
  rx_status :: "16 word"

text \<open>
  A request and a response share the eight bytes of a slot: \<open>rxq_pad\<close> are the two bytes the compiler
  leaves before the reference, where a response has its offset. A request read as a response:
\<close>

definition rx_view :: "(netif_rx_request, netif_rx_response) sring_entry \<Rightarrow> netif_rx_response" where
  "rx_view x =
     (case x of Rsp r \<Rightarrow> r
      | Req q \<Rightarrow> \<lparr>rx_id = rxq_id q, rx_offset = rxq_pad q, rx_flags = of_nat (rxq_gref q), rx_status = of_nat (rxq_gref q div 65536)\<rparr>)"

text \<open>The same eight bytes of a response slot read as an extra descriptor.\<close>

definition rx_extra :: "netif_rx_response \<Rightarrow> netif_extra_info" where
  "rx_extra r =
     \<lparr>ex_type = ucast (rx_id r), ex_flags = ucast (drop_bit 8 (rx_id r)), ex_gso_size = rx_offset r,
      ex_gso_type = ucast (rx_flags r), ex_gso_pad = ucast (drop_bit 8 (rx_flags r)), ex_gso_features = rx_status r\<rparr>"

text \<open>
  A receive buffer: its fragments (page, offset, size), of which the first is the page it was
  allocated with, and the bytes pulled into the linear part.
\<close>

record rx_skb =
  rx_no :: nat
  rx_frags :: "(nat \<times> nat \<times> nat) list"
  rx_head :: nat
  rx_len :: nat
  pull_to :: nat
  rx_gso :: u16
  rx_summed :: csum

section \<open>State\<close>

text \<open>Slots of \<open>tx_skbs\<close> hold a packet or, being smaller than \<open>PAGE_OFFSET\<close>, the next free id.\<close>

datatype tx_entry = Link nat | Skb sk_buff

text \<open>
  The hooks of an accelerator: what they answer. \<open>h_poll\<close> takes the budget and leaves the rest.
\<close>

record accel_hooks =
  h_start_xmit :: "sk_buff \<Rightarrow> bool"
  h_check_ready :: bool
  h_poll :: "int \<Rightarrow> int \<times> bool"
  h_start_napi_irq :: bool

text \<open>
  The last fields are the device of the network stack and what the driver has done to it:
  \<open>queue_stopped\<close>, \<open>running\<close>, \<open>can_sg\<close>, the packets dropped and counted, freed and passed up, the
  times napi was scheduled or completed, the notifications sent.
\<close>

record netfront_info =
  tx :: front_ring
  txs :: "(tx_slot, netif_tx_response) sring"
  rx :: front_ring
  rxs :: "(netif_rx_request, netif_rx_response) sring"
  copying_receiver :: bool
  carrier :: bool
  rx_min_target :: u32
  rx_max_target :: u32
  rx_target :: u32
  rx_batch :: "rx_skb list"
  rx_refill_timer :: bool
  tx_skbs :: "nat \<Rightarrow> tx_entry"
  rx_skbs :: "nat \<Rightarrow> rx_skb option"
  gref_tx_head :: nat
  grant_tx_ref :: "nat \<Rightarrow> nat"
  gref_rx_head :: nat
  grant_rx_ref :: "nat \<Rightarrow> nat"
  otherend :: u16
  hooks :: "accel_hooks option"
  ngnt :: gnttab
  driver_pages :: int
  queue_stopped :: bool
  running :: bool
  can_sg :: bool
  tx_dropped :: nat
  tx_packets :: nat
  tx_bytes :: nat
  tx_freed :: "sk_buff list"
  rx_errors :: nat
  rx_packets :: nat
  rx_bytes :: nat
  rx_freed :: "rx_skb list"
  passed_up :: "rx_skb list"
  napi_scheduled :: bool
  irqs_stopped :: nat
  notified :: nat
  rx_gso_csum_fixups :: nat

text \<open>
  The surroundings: the hypervisor's writes to an entry while access to it is being ended and
  while a transfer is awaited; the packet buffer and the page of each allocation, when there is
  memory; the frame of a page, whether memory is auto-translated, whether the reservation can be
  changed and pages mapped; \<open>__pskb_pull_tail\<close>; and of a received packet its protocol, that of its
  IP header, the length of the header in words, and what \<open>skb_partial_csum_set\<close> answers.
\<close>

record net_env =
  nhyp :: "nat \<Rightarrow> u16 list"
  nflip :: "nat \<Rightarrow> (u16 \<times> u32) list"
  rx_alloc :: "nat \<Rightarrow> (nat \<times> nat) option"
  page_mfn :: "nat \<Rightarrow> u32"
  auto_translated :: bool
  reservation_ok :: bool
  remap_ok :: bool
  pull_tail :: "nat \<Rightarrow> rx_skb \<Rightarrow> rx_skb"
  eth_proto :: "rx_skb \<Rightarrow> u16"
  ip_proto :: "rx_skb \<Rightarrow> u8"
  ip_ihl :: "rx_skb \<Rightarrow> nat"
  partial_csum_set :: "rx_skb \<Rightarrow> nat \<Rightarrow> nat \<Rightarrow> bool"

section \<open>Sending\<close>

definition add_id_to_freelist :: "nat \<Rightarrow> (nat \<Rightarrow> tx_entry) \<Rightarrow> nat \<Rightarrow> tx_entry" where
  "add_id_to_freelist i list = (let list = list(i := list 0) in list(0 := Link i))"

text \<open>The array has one slot more than there are ids; an id beyond it is a wild access.\<close>

definition get_id_from_freelist :: "(nat \<Rightarrow> tx_entry) \<Rightarrow> (nat \<times> (nat \<Rightarrow> tx_entry)) option" where
  "get_id_from_freelist list =
     (case list 0 of Link i \<Rightarrow> (if i \<le> NET_TX_RING_SIZE then Some (i, list(0 := list i)) else None) | Skb _ \<Rightarrow> None)"

definition netfront_tx_slot_available :: "netfront_info \<Rightarrow> bool" where
  "netfront_tx_slot_available s \<longleftrightarrow>
     req_prod_pvt (tx s) - rsp_cons (tx s) < of_nat (TX_MAX_TARGET - MAX_SKB_FRAGS - 2)"

definition netfront_check_accelerator_queue_ready :: "netfront_info \<Rightarrow> bool" where
  "netfront_check_accelerator_queue_ready s = (case hooks s of None \<Rightarrow> True | Some h \<Rightarrow> h_check_ready h)"

definition netfront_accelerator_call_stop_napi_irq :: "netfront_info \<Rightarrow> netfront_info" where
  "netfront_accelerator_call_stop_napi_irq s =
     (case hooks s of None \<Rightarrow> s | Some _ \<Rightarrow> s\<lparr>irqs_stopped := irqs_stopped s + 1\<rparr>)"

definition netfront_check_queue_ready :: "netfront_info \<Rightarrow> bool" where
  "netfront_check_queue_ready s \<longleftrightarrow> queue_stopped s \<and> netfront_tx_slot_available s \<and> running s"

definition network_maybe_wake_tx :: "netfront_info \<Rightarrow> netfront_info" where
  "network_maybe_wake_tx s =
     (if queue_stopped s \<and> netfront_tx_slot_available s \<and> running s \<and> netfront_check_accelerator_queue_ready s
      then s\<lparr>queue_stopped := False\<rparr> else s)"

definition put_tx :: "ring_idx \<Rightarrow> tx_slot \<Rightarrow> netfront_info \<Rightarrow> netfront_info" where
  "put_tx i q s = s\<lparr>txs := ring_put (f_nr_ents (tx s)) i (Req q) (txs s)\<rparr>"

text \<open>
  A fresh id and a fresh reference for a piece of the packet: the new request, with its flags
  clear. A reference that is negative as a 16-bit number is \<open>BUG\<close>.
\<close>

definition tx_piece :: "sk_buff \<Rightarrow> u32 \<Rightarrow> nat \<Rightarrow> nat \<Rightarrow> netfront_info \<Rightarrow> (netif_tx_request \<times> netfront_info) option" where
  "tx_piece skb mfn offset len s =
     (case get_id_from_freelist (tx_skbs s) of None \<Rightarrow> None
      | Some (i, list) \<Rightarrow>
          let s = s\<lparr>tx_skbs := list(i := Skb skb)\<rparr>
          in case gnttab_claim_grant_reference (gref_tx_head s) (ngnt s) of None \<Rightarrow> None
             | Some (ref, head) \<Rightarrow>
                 if sint (word_of_int ref :: u16) < 0 then None
                 else (case gnttab_grant_foreign_access_ref (nat ref) (otherend s) mfn GTF_readonly (ngnt s) of None \<Rightarrow> None
                       | Some g \<Rightarrow>
                           Some (\<lparr>tx_gref = nat ref, tx_offset = of_nat offset, tx_flags = 0, tx_id = of_nat i, tx_size = of_nat len\<rparr>,
                                 s\<lparr>gref_tx_head := head, ngnt := g, grant_tx_ref := (grant_tx_ref s)(i := nat ref)\<rparr>)))"

text \<open>
  \<open>tx\<close> is the request being filled in at \<open>ti\<close>, not yet final, and \<open>pr\<close> the next free slot. The
  pieces of the linear part: \<open>k\<close> is the page reached, \<open>offset\<close> an offset in it.
\<close>

function make_head :: "sk_buff \<Rightarrow> nat \<Rightarrow> nat \<Rightarrow> nat \<Rightarrow> ring_idx \<Rightarrow> netif_tx_request \<Rightarrow> ring_idx \<Rightarrow> netfront_info \<Rightarrow>
    (ring_idx \<times> netif_tx_request \<times> ring_idx \<times> netfront_info) option" where
  "make_head skb k offset len ti t pr s =
     (if offset < PAGE_SIZE \<and> len > PAGE_SIZE - offset
      then let n = PAGE_SIZE - offset;
               s = put_tx ti (Tx (t\<lparr>tx_size := of_nat n, tx_flags := tx_flags t OR XEN_NETTXF_more_data\<rparr>)) s
           in (case tx_piece skb (head_mfn skb (k + 1)) 0 (len - n) s of None \<Rightarrow> None
               | Some (t, s) \<Rightarrow> make_head skb (k + 1) 0 (len - n) pr t (pr + 1) s)
      else Some (ti, t, pr, s))"
  by pat_completeness auto
termination by (relation "measure (\<lambda>(skb, k, offset, len, ti, t, pr, s). len)") (auto simp: PAGE_SIZE_def)

declare make_head.simps [simp del]

text \<open>The pieces of one fragment, from page \<open>k\<close> of its block on.\<close>

function make_frag :: "sk_buff \<Rightarrow> skb_frag \<Rightarrow> nat \<Rightarrow> nat \<Rightarrow> nat \<Rightarrow> ring_idx \<Rightarrow> netif_tx_request \<Rightarrow> ring_idx \<Rightarrow> netfront_info \<Rightarrow>
    (ring_idx \<times> netif_tx_request \<times> ring_idx \<times> netfront_info) option" where
  "make_frag skb f k offset len ti t pr s =
     (if offset < PAGE_SIZE \<and> len \<noteq> 0
      then let bytes = min (PAGE_SIZE - offset) len;
               s = put_tx ti (Tx (t\<lparr>tx_flags := tx_flags t OR XEN_NETTXF_more_data\<rparr>)) s
           in (case tx_piece skb (frag_mfn f k) offset bytes s of None \<Rightarrow> None
               | Some (t, s) \<Rightarrow> make_frag skb f (k + 1) 0 (len - bytes) pr t (pr + 1) s)
      else Some (ti, t, pr, s))"
  by pat_completeness auto
termination by (relation "measure (\<lambda>(skb, f, k, offset, len, ti, t, pr, s). len)") (auto simp: PAGE_SIZE_def)

declare make_frag.simps [simp del]

fun make_frags :: "sk_buff \<Rightarrow> skb_frag list \<Rightarrow> ring_idx \<Rightarrow> netif_tx_request \<Rightarrow> ring_idx \<Rightarrow> netfront_info \<Rightarrow>
    (ring_idx \<times> netif_tx_request \<times> ring_idx \<times> netfront_info) option" where
  "make_frags skb [] ti t pr s = Some (ti, t, pr, s)"
| "make_frags skb (f # fs) ti t pr s =
     (if frag_offset f + frag_size f > PAGE_SIZE * 2 ^ frag_order f then None
      else case make_frag skb f (frag_offset f div PAGE_SIZE) (frag_offset f mod PAGE_SIZE) (frag_size f) ti t pr s of
             None \<Rightarrow> None
           | Some (ti, t, pr, s) \<Rightarrow> make_frags skb fs ti t pr s)"

text \<open>\<open>t\<close> is the request of the first slot \<open>i\<close>, final but for its flags and size.\<close>

definition xennet_make_frags :: "sk_buff \<Rightarrow> ring_idx \<Rightarrow> netif_tx_request \<Rightarrow> netfront_info \<Rightarrow> netfront_info option" where
  "xennet_make_frags skb i t s =
     (case make_head skb 0 (head_offset skb mod PAGE_SIZE) (head_len skb) i t (req_prod_pvt (tx s)) s of None \<Rightarrow> None
      | Some (ti, t, pr, s) \<Rightarrow>
          (case make_frags skb (skb_frags skb) ti t pr s of None \<Rightarrow> None
           | Some (ti, t, pr, s) \<Rightarrow>
               let s = put_tx ti (Tx t) s in Some (s\<lparr>tx := (tx s)\<lparr>req_prod_pvt := pr\<rparr>\<rparr>)))"

definition xennet_count_skb_frag_slots :: "sk_buff \<Rightarrow> nat" where
  "xennet_count_skb_frag_slots skb =
     (\<Sum>f \<leftarrow> skb_frags skb. if frag_size f = 0 then 0 else PFN_UP (frag_offset f mod PAGE_SIZE + frag_size f))"

text \<open>Returning the packet of an answered request.\<close>

definition tx_done :: "nat \<Rightarrow> nat \<Rightarrow> sk_buff \<Rightarrow> netfront_info \<Rightarrow> netfront_info option" where
  "tx_done i ref skb s =
     (case gnttab_release_grant_reference (gref_tx_head s) ref (ngnt s) of None \<Rightarrow> None
      | Some (head, g) \<Rightarrow>
          Some (s\<lparr>gref_tx_head := head, ngnt := g, grant_tx_ref := (grant_tx_ref s)(i := GRANT_INVALID_REF),
                  tx_skbs := add_id_to_freelist i (tx_skbs s), tx_freed := tx_freed s @ [skb]\<rparr>))"

definition tx_gc_response :: "net_env \<Rightarrow> netif_tx_response \<Rightarrow> netfront_info \<Rightarrow> netfront_info option" where
  "tx_gc_response e p s =
     (if txr_status p = XEN_NETIF_RSP_NULL then Some s
      else let i = unat (txr_id p) in
           if i > NET_TX_RING_SIZE then None
           else let ref = grant_tx_ref s i
           in if gnttab_query_foreign_access ref (ngnt s) \<noteq> 0 then None
              else case tx_skbs s i of
                Link _ \<Rightarrow> None
              | Skb skb \<Rightarrow>
                  (case gnttab_end_foreign_access_ref (nhyp e ref) ref (ngnt s) of (_, g) \<Rightarrow> tx_done i ref skb (s\<lparr>ngnt := g\<rparr>)))"

fun tx_gc_responses :: "net_env \<Rightarrow> nat \<Rightarrow> ring_idx \<Rightarrow> netfront_info \<Rightarrow> netfront_info option" where
  "tx_gc_responses e 0 cons s = Some s"
| "tx_gc_responses e (Suc n) cons s =
     (case RING_GET_RESPONSE (f_nr_ents (tx s)) (txs s) cons of None \<Rightarrow> None
      | Some p \<Rightarrow> (case tx_gc_response e p s of None \<Rightarrow> None | Some s \<Rightarrow> tx_gc_responses e n (cons + 1) s))"

text \<open>One round: everything up to the producer index read at its start, and the next event.\<close>

definition tx_gc_round :: "net_env \<Rightarrow> netfront_info \<Rightarrow> netfront_info option" where
  "tx_gc_round e s =
     (let pr = rsp_prod (txs s)
      in case tx_gc_responses e (unat (pr - rsp_cons (tx s))) (rsp_cons (tx s)) s of None \<Rightarrow> None
         | Some s \<Rightarrow>
             Some (s\<lparr>tx := (tx s)\<lparr>rsp_cons := pr\<rparr>,
                     txs := (txs s)\<lparr>rsp_event := pr + drop_bit 1 (req_prod (txs s) - pr) + 1\<rparr>\<rparr>))"

text \<open>
  \<open>peers\<close> is what the backend does to the page in each round before the producer index is read
  again; it is quiet when the list is used up.
\<close>

fun tx_gc_loop :: "net_env \<Rightarrow> ((tx_slot, netif_tx_response) sring \<Rightarrow> (tx_slot, netif_tx_response) sring) list \<Rightarrow>
    netfront_info \<Rightarrow> netfront_info option" where
  "tx_gc_loop e [] s = tx_gc_round e s"
| "tx_gc_loop e (peer # peers) s =
     (case tx_gc_round e s of None \<Rightarrow> None
      | Some s \<Rightarrow>
          let s = s\<lparr>txs := peer (txs s)\<rparr>
          in if rsp_cons (tx s) \<noteq> rsp_prod (txs s) then tx_gc_loop e peers s else Some s)"

definition network_tx_buf_gc :: "net_env \<Rightarrow> ((tx_slot, netif_tx_response) sring \<Rightarrow> (tx_slot, netif_tx_response) sring) list \<Rightarrow>
    netfront_info \<Rightarrow> netfront_info option" where
  "network_tx_buf_gc e peers s =
     (if \<not> carrier s then None else map_option network_maybe_wake_tx (tx_gc_loop e peers s))"

text \<open>
  \<open>network_start_xmit\<close> in two parts: the requests of a packet that fits, up to the notification,
  and the whole function.
\<close>

definition tx_csum_flags :: "sk_buff \<Rightarrow> u16" where
  "tx_csum_flags skb =
     (if tx_summed skb = CHECKSUM_PARTIAL then XEN_NETTXF_csum_blank OR XEN_NETTXF_data_validated
      else if tx_summed skb = CHECKSUM_UNNECESSARY then XEN_NETTXF_data_validated else 0)"

definition gso_extra :: "sk_buff \<Rightarrow> netif_extra_info" where
  "gso_extra skb =
     \<lparr>ex_type = XEN_NETIF_EXTRA_TYPE_GSO, ex_flags = 0, ex_gso_size = gso_size skb,
      ex_gso_type = XEN_NETIF_GSO_TYPE_TCPV4, ex_gso_pad = 0, ex_gso_features = 0\<rparr>"

definition xmit_requests :: "sk_buff \<Rightarrow> netfront_info \<Rightarrow> netfront_info option" where
  "xmit_requests skb s =
     (let i = req_prod_pvt (tx s)
      in case tx_piece skb (head_mfn skb 0) (head_offset skb mod PAGE_SIZE) (head_len skb) s of None \<Rightarrow> None
         | Some (t, s) \<Rightarrow>
             let t = t\<lparr>tx_flags := tx_csum_flags skb\<rparr>;
                 (t, last, s) =
                   (if skb_is_gso skb
                    then (t\<lparr>tx_flags := tx_flags t OR XEN_NETTXF_extra_info\<rparr>, i + 1, put_tx (i + 1) (Extra (gso_extra skb)) s)
                    else (t, i, s));
                 s = s\<lparr>tx := (tx s)\<lparr>req_prod_pvt := last + 1\<rparr>\<rparr>
             in (case xennet_make_frags skb i t s of None \<Rightarrow> None
                 | Some s \<Rightarrow>
                     (case RING_GET_REQUEST (f_nr_ents (tx s)) (txs s) i of
                        Some (Tx t) \<Rightarrow>
                          let s = put_tx i (Tx (t\<lparr>tx_size := of_nat (skb_len skb)\<rparr>)) s
                          in (case RING_PUSH_REQUESTS_AND_CHECK_NOTIFY (tx s) (txs s) of (notify, sr) \<Rightarrow>
                                let s = s\<lparr>txs := sr\<rparr> in Some (if notify then s\<lparr>notified := notified s + 1\<rparr> else s))
                      | _ \<Rightarrow> None)))"

definition drop_tx :: "sk_buff \<Rightarrow> netfront_info \<Rightarrow> netfront_info" where
  "drop_tx skb s = s\<lparr>tx_dropped := tx_dropped s + 1, tx_freed := tx_freed s @ [skb]\<rparr>"

definition network_start_xmit :: "net_env \<Rightarrow> sk_buff \<Rightarrow>
    ((tx_slot, netif_tx_response) sring \<Rightarrow> (tx_slot, netif_tx_response) sring) list \<Rightarrow>
    netfront_info \<Rightarrow> netfront_info option" where
  "network_start_xmit e skb peers s =
     (let slots = PFN_UP (head_offset skb mod PAGE_SIZE + head_len skb) + xennet_count_skb_frag_slots skb
      in if (case hooks s of None \<Rightarrow> False | Some h \<Rightarrow> h_start_xmit h skb) then Some s
         else if skb_len skb > XEN_NETIF_MAX_TX_SIZE then Some (drop_tx skb s)
         else if slots > MAX_SKB_FRAGS + 1 then Some (drop_tx skb s)
         else if \<not> carrier s \<or> (slots > 1 \<and> \<not> can_sg s) \<or> needs_gso skb then Some (drop_tx skb s)
         else case xmit_requests skb s of None \<Rightarrow> None
              | Some s \<Rightarrow>
                  (case network_tx_buf_gc e peers
                          (s\<lparr>tx_packets := tx_packets s + 1, tx_bytes := tx_bytes s + skb_len skb\<rparr>) of None \<Rightarrow> None
                   | Some s \<Rightarrow> Some (if netfront_tx_slot_available s then s else s\<lparr>queue_stopped := True\<rparr>)))"

fun release_tx_bufs :: "net_env \<Rightarrow> nat list \<Rightarrow> netfront_info \<Rightarrow> netfront_info option" where
  "release_tx_bufs e [] s = Some s"
| "release_tx_bufs e (i # is) s =
     (case tx_skbs s i of
        Link _ \<Rightarrow> release_tx_bufs e is s
      | Skb skb \<Rightarrow>
          (case gnttab_end_foreign_access_ref (nhyp e (grant_tx_ref s i)) (grant_tx_ref s i) (ngnt s) of (_, g) \<Rightarrow>
             (case tx_done i (grant_tx_ref s i) skb (s\<lparr>ngnt := g\<rparr>) of None \<Rightarrow> None | Some s \<Rightarrow> release_tx_bufs e is s)))"

definition netif_release_tx_bufs :: "net_env \<Rightarrow> netfront_info \<Rightarrow> netfront_info option" where
  "netif_release_tx_bufs e s = release_tx_bufs e [1..<NET_TX_RING_SIZE + 1] s"

end
