(* ===== verification/Netfront_Pieces.thy ===== *)
theory Netfront_Pieces
  imports Netfront Gnttab_Props
begin

text \<open>
  How a packet is cut up, for the proofs about \<^verbatim>\<open>network_start_xmit\<close>. Its loops are turned into two
  functional steps: the list of the packet's pieces, each of them in one page, and the list of
  requests, which is written to the slots in order. What a backend reads back, following the
  flags in the requests, is then a function of these lists.
\<close>


section \<open>Pieces\<close>

function pieces :: "(nat \<Rightarrow> u32) \<Rightarrow> nat \<Rightarrow> nat \<Rightarrow> (u32 \<times> nat \<times> nat) list" where
  "pieces mfn a len =
     (if len = 0 then []
      else let n = min (PAGE_SIZE - a mod PAGE_SIZE) len
           in (mfn (a div PAGE_SIZE), a mod PAGE_SIZE, n) # pieces mfn (a + n) (len - n))"
  by pat_completeness auto
termination by (relation "measure (\<lambda>(mfn, a, len). len)") (auto simp: PAGE_SIZE_def)

declare pieces.simps [simp del]

lemma pieces_0 [simp]: "pieces mfn a 0 = []" by (simp add: pieces.simps)

text \<open>A byte of memory is a frame and an offset in it.\<close>

definition bytes_at :: "(nat \<Rightarrow> u32) \<Rightarrow> nat \<Rightarrow> nat \<Rightarrow> (u32 \<times> nat) list" where
  "bytes_at mfn a len = map (\<lambda>j. (mfn ((a + j) div PAGE_SIZE), (a + j) mod PAGE_SIZE)) [0..<len]"

fun piece_bytes :: "u32 \<times> nat \<times> nat \<Rightarrow> (u32 \<times> nat) list" where
  "piece_bytes (m, off, n) = map (\<lambda>j. (m, off + j)) [0..<n]"

lemma PAGE_SIZE_pos [simp]: "0 < PAGE_SIZE" by (simp add: PAGE_SIZE_def)

lemma in_page:
  assumes "a mod PAGE_SIZE + j < PAGE_SIZE"
  shows "(a + j) div PAGE_SIZE = a div PAGE_SIZE" and "(a + j) mod PAGE_SIZE = a mod PAGE_SIZE + j"
proof -
  have eq: "a + j = (a mod PAGE_SIZE + j) + PAGE_SIZE * (a div PAGE_SIZE)" by simp
  show "(a + j) div PAGE_SIZE = a div PAGE_SIZE" unfolding eq by (subst div_mult_self2) (use assms in simp_all)
  show "(a + j) mod PAGE_SIZE = a mod PAGE_SIZE + j" unfolding eq by (subst mod_mult_self2) (use assms in simp)
qed

lemma next_page:
  "(a + (PAGE_SIZE - a mod PAGE_SIZE)) div PAGE_SIZE = a div PAGE_SIZE + 1"
  "(a + (PAGE_SIZE - a mod PAGE_SIZE)) mod PAGE_SIZE = 0"
proof -
  have r: "a mod PAGE_SIZE < PAGE_SIZE" by simp
  have "x + r = a \<Longrightarrow> r < p \<Longrightarrow> a + (p - r) = x + p" for x r p :: nat by arith
  from this [OF div_mult_mod_eq [of a PAGE_SIZE] r]
  have eq: "a + (PAGE_SIZE - a mod PAGE_SIZE) = (a div PAGE_SIZE + 1) * PAGE_SIZE" by simp
  show "(a + (PAGE_SIZE - a mod PAGE_SIZE)) div PAGE_SIZE = a div PAGE_SIZE + 1"
    "(a + (PAGE_SIZE - a mod PAGE_SIZE)) mod PAGE_SIZE = 0" unfolding eq by simp_all
qed

lemma bytes_at_split: "bytes_at mfn a (n + m) = bytes_at mfn a n @ bytes_at mfn (a + n) m"
proof -
  have "[n..<n + m] = map (\<lambda>j. j + n) [0..<m]" by (simp only: map_add_upt add.commute)
  then show ?thesis unfolding bytes_at_def upt_add_eq_append [OF le0] map_append
    by (simp add: add.commute add.left_commute)
qed

lemma pieces_bytes: "concat (map piece_bytes (pieces mfn a len)) = bytes_at mfn a len"
proof (induction mfn a len rule: pieces.induct)
  case (1 mfn a len)
  show ?case
  proof (cases "len = 0")
    case False
    let ?n = "min (PAGE_SIZE - a mod PAGE_SIZE) len"
    have "piece_bytes (mfn (a div PAGE_SIZE), a mod PAGE_SIZE, ?n) = bytes_at mfn a ?n"
      by (auto simp: bytes_at_def in_page)
    moreover have "bytes_at mfn a len = bytes_at mfn a ?n @ bytes_at mfn (a + ?n) (len - ?n)"
      using bytes_at_split [of mfn a ?n "len - ?n"] by simp
    ultimately show ?thesis using 1 [OF False refl] False
      by (subst pieces.simps) (simp add: Let_def del: piece_bytes.simps)
  qed (simp add: bytes_at_def)
qed

lemma length_pieces: "0 < len \<Longrightarrow> length (pieces mfn a len) = PFN_UP (a mod PAGE_SIZE + len)"
proof (induction mfn a len rule: pieces.induct)
  case (1 mfn a len)
  let ?r = "a mod PAGE_SIZE" let ?n = "min (PAGE_SIZE - ?r) len"
  have r: "?r < PAGE_SIZE" by (simp add: PAGE_SIZE_def)
  have unfold: "pieces mfn a len = (mfn (a div PAGE_SIZE), ?r, ?n) # pieces mfn (a + ?n) (len - ?n)"
    using 1(2) by (subst pieces.simps) (simp add: Let_def)
  show ?case
  proof (cases "len \<le> PAGE_SIZE - ?r")
    case True
    then show ?thesis using 1(2) r by (simp add: unfold PFN_UP_def PAGE_SIZE_def)
  next
    case False
    then have n: "?n = PAGE_SIZE - ?r" by simp
    have "length (pieces mfn (a + ?n) (len - ?n)) = PFN_UP ((a + ?n) mod PAGE_SIZE + (len - ?n))"
      using 1(1) [OF _ refl] 1(2) False by simp
    moreover have "(a + ?n) mod PAGE_SIZE = 0" using next_page(2) n by simp
    moreover have "Suc (PFN_UP (len - (PAGE_SIZE - x))) = PFN_UP (x + len)" if "x < PAGE_SIZE" "PAGE_SIZE - x < len" for x
    proof -
      have "x + len + PAGE_SIZE - 1 = (len - (PAGE_SIZE - x) + PAGE_SIZE - 1) + PAGE_SIZE" using that by simp
      then show ?thesis unfolding PFN_UP_def by (simp add: PAGE_SIZE_def)
    qed
    ultimately show ?thesis using False r n by (simp add: unfold)
  qed
qed

lemma pieces_sizes: "(m, off, n) \<in> set (pieces mfn a len) \<Longrightarrow> off < PAGE_SIZE \<and> 0 < n \<and> n \<le> PAGE_SIZE"
proof (induction mfn a len rule: pieces.induct)
  case (1 mfn a len)
  have pos: "len \<noteq> 0" using 1(2) by (cases "len = 0") simp_all
  then have "(m, off, n) = (mfn (a div PAGE_SIZE), a mod PAGE_SIZE, min (PAGE_SIZE - a mod PAGE_SIZE) len) \<or>
      (m, off, n) \<in> set (pieces mfn (a + min (PAGE_SIZE - a mod PAGE_SIZE) len) (len - min (PAGE_SIZE - a mod PAGE_SIZE) len))"
    using 1(2) by (subst (asm) pieces.simps) (simp add: Let_def)
  then show ?case using 1(1) [OF pos refl] pos by auto
qed

lemma pieces_total: "(\<Sum>(m, off, n) \<leftarrow> pieces mfn a len. n) = len"
proof -
  have "length (concat (map piece_bytes ps)) = (\<Sum>(m, off, n) \<leftarrow> ps. n)" for ps by (induction ps) auto
  from this [of "pieces mfn a len"] show ?thesis unfolding pieces_bytes by (simp add: bytes_at_def)
qed

section \<open>The loops as one\<close>

fun emit :: "sk_buff \<Rightarrow> (u32 \<times> nat \<times> nat) list \<Rightarrow> ring_idx \<Rightarrow> netif_tx_request \<Rightarrow> ring_idx \<Rightarrow> netfront_info \<Rightarrow>
    (ring_idx \<times> netif_tx_request \<times> ring_idx \<times> netfront_info) option" where
  "emit skb [] ti t pr s = Some (ti, t, pr, s)"
| "emit skb ((m, off, n) # ps) ti t pr s =
     (case tx_piece skb m off n (put_tx ti (Tx (t\<lparr>tx_flags := tx_flags t OR XEN_NETTXF_more_data\<rparr>)) s) of None \<Rightarrow> None
      | Some (t, s) \<Rightarrow> emit skb ps pr t (pr + 1) s)"

lemma emit_append:
  "emit skb (ps @ qs) ti t pr s =
     (case emit skb ps ti t pr s of None \<Rightarrow> None | Some (ti, t, pr, s) \<Rightarrow> emit skb qs ti t pr s)"
  by (induction skb ps ti t pr s rule: emit.induct) (auto split: option.split)

lemma tx_piece_size:
  "tx_piece skb m off n s = map_option (\<lambda>(t, s). (t\<lparr>tx_size := of_nat n\<rparr>, s)) (tx_piece skb m off n' s)"
  by (auto simp: tx_piece_def Let_def split: option.split prod.split)

lemma make_head_emit:
  "offset = a mod PAGE_SIZE \<Longrightarrow> k = a div PAGE_SIZE \<Longrightarrow> 0 < len \<Longrightarrow> tx_size t = of_nat len \<Longrightarrow>
   make_head skb k offset len ti t pr s =
     emit skb (tl (pieces (head_mfn skb) a len)) ti (t\<lparr>tx_size := of_nat (min (PAGE_SIZE - offset) len)\<rparr>) pr s"
proof (induction skb k offset len ti t pr s arbitrary: a rule: make_head.induct)
  case (1 skb k offset len ti t pr s)
  have off: "offset < PAGE_SIZE" using 1(2) by (simp add: PAGE_SIZE_def)
  have unfold: "pieces (head_mfn skb) a len =
      (head_mfn skb k, offset, min (PAGE_SIZE - offset) len) # pieces (head_mfn skb) (a + min (PAGE_SIZE - offset) len) (len - min (PAGE_SIZE - offset) len)"
    using 1(2-4) by (subst pieces.simps) (simp add: Let_def)
  show ?case
  proof (cases "len > PAGE_SIZE - offset")
    case False
    then have "make_head skb k offset len ti t pr s = Some (ti, t, pr, s)" by (subst make_head.simps) simp
    moreover have "t\<lparr>tx_size := of_nat len\<rparr> = t" using 1(5) by simp
    ultimately show ?thesis using False unfold by simp
  next
    case True
    define n where "n = PAGE_SIZE - offset"
    define b where "b = a + n"
    have n: "min (PAGE_SIZE - offset) len = n" and pos: "0 < len - n" using True by (simp_all add: n_def)
    have b: "b mod PAGE_SIZE = 0" "b div PAGE_SIZE = k + 1"
      using next_page [of a] 1(2,3) by (simp_all add: b_def n_def)
    let ?s = "put_tx ti (Tx (t\<lparr>tx_size := of_nat n, tx_flags := tx_flags t OR XEN_NETTXF_more_data\<rparr>)) s"
    have run: "make_head skb k offset len ti t pr s =
        (case tx_piece skb (head_mfn skb (k + 1)) 0 (len - n) ?s of None \<Rightarrow> None
         | Some (t, s) \<Rightarrow> make_head skb (k + 1) 0 (len - n) pr t (pr + 1) s)"
      using True off unfolding n_def by (subst make_head.simps) (simp only: Let_def simp_thms if_True)
    obtain ps where unfold': "pieces (head_mfn skb) b (len - n) = (head_mfn skb (k + 1), 0, min PAGE_SIZE (len - n)) # ps"
      using pos b by (subst (asm) pieces.simps) (simp add: Let_def)
    have IH: "make_head skb (k + 1) 0 (len - n) pr t' (pr + 1) s' =
        emit skb ps pr (t'\<lparr>tx_size := of_nat (min PAGE_SIZE (len - n))\<rparr>) (pr + 1) s'"
      if hyp: "tx_piece skb (head_mfn skb (k + 1)) 0 (len - n) ?s = Some (t', s')" for t' s'
    proof -
      have "tx_size t' = of_nat (len - n)"
        using hyp by (auto simp: tx_piece_def Let_def split: option.splits prod.splits if_splits)
      then show ?thesis
        using 1(1) [OF _ n_def refl hyp refl, of b] off True b pos unfold' by simp
    qed
    show ?thesis
    proof (cases "tx_piece skb (head_mfn skb (k + 1)) 0 (len - n) ?s")
      case None
      then have "tx_piece skb (head_mfn skb (k + 1)) 0 (min PAGE_SIZE (len - n)) ?s = None"
        by (subst tx_piece_size [of _ _ _ _ _ "len - n"]) simp
      then show ?thesis using None run unfold n b_def unfold' by simp
    next
      case (Some x)
      obtain t' s' where x: "x = (t', s')" by fastforce
      have "tx_piece skb (head_mfn skb (k + 1)) 0 (min PAGE_SIZE (len - n)) ?s = Some (t'\<lparr>tx_size := of_nat (min PAGE_SIZE (len - n))\<rparr>, s')"
        using Some x by (subst tx_piece_size [of _ _ _ _ _ "len - n"]) simp
      then show ?thesis using Some x run unfold n IH [of t' s'] unfold' by (simp add: b_def)
    qed
  qed
qed

lemma make_frag_emit:
  "offset = a mod PAGE_SIZE \<Longrightarrow> k = a div PAGE_SIZE \<Longrightarrow>
   make_frag skb f k offset len ti t pr s = emit skb (pieces (frag_mfn f) a len) ti t pr s"
proof (induction skb f k offset len ti t pr s arbitrary: a rule: make_frag.induct)
  case (1 skb f k offset len ti t pr s)
  have off: "offset < PAGE_SIZE" using 1(2) by (simp add: PAGE_SIZE_def)
  show ?case
  proof (cases "len = 0")
    case True
    then show ?thesis by (subst make_frag.simps) simp
  next
    case False
    define n where "n = min (PAGE_SIZE - offset) len"
    let ?s = "put_tx ti (Tx (t\<lparr>tx_flags := tx_flags t OR XEN_NETTXF_more_data\<rparr>)) s"
    have run: "make_frag skb f k offset len ti t pr s =
        (case tx_piece skb (frag_mfn f k) offset n ?s of None \<Rightarrow> None
         | Some (t, s) \<Rightarrow> make_frag skb f (k + 1) 0 (len - n) pr t (pr + 1) s)"
      using False off unfolding n_def by (subst make_frag.simps) (simp only: Let_def simp_thms if_True not_False_eq_True)
    have unfold: "pieces (frag_mfn f) a len = (frag_mfn f k, offset, n) # pieces (frag_mfn f) (a + n) (len - n)"
      using 1(2,3) False by (subst pieces.simps) (simp add: Let_def n_def)
    have IH: "make_frag skb f (k + 1) 0 (len - n) pr t' (pr + 1) s' = emit skb (pieces (frag_mfn f) (a + n) (len - n)) pr t' (pr + 1) s'"
      if hyp: "tx_piece skb (frag_mfn f k) offset n ?s = Some (t', s')" for t' s'
    proof (cases "n = len")
      case True
      then show ?thesis by (subst make_frag.simps) simp
    next
      case nl: False
      then have "n = PAGE_SIZE - offset" by (simp add: n_def)
      then have "(a + n) mod PAGE_SIZE = 0" "(a + n) div PAGE_SIZE = k + 1"
        using next_page [of a] 1(2,3) by simp_all
      then show ?thesis using 1(1) [OF _ n_def refl hyp refl, of "a + n"] off False by simp
    qed
    show ?thesis unfolding run unfold emit.simps
      using IH by (cases "tx_piece skb (frag_mfn f k) offset n ?s") (auto simp del: One_nat_def add_Suc_right)
  qed
qed

lemma make_frags_emit:
  "\<forall>f \<in> set fs. frag_offset f + frag_size f \<le> PAGE_SIZE * 2 ^ frag_order f \<Longrightarrow>
   make_frags skb fs ti t pr s =
     emit skb (concat (map (\<lambda>f. pieces (frag_mfn f) (frag_offset f) (frag_size f)) fs)) ti t pr s"
proof (induction skb fs ti t pr s rule: make_frags.induct)
  case (2 skb f fs ti t pr s)
  then show ?case by (auto simp: emit_append make_frag_emit split: option.split)
qed simp


section \<open>Ids, references and the ring apart\<close>

fun take_pieces :: "sk_buff \<Rightarrow> (u32 \<times> nat \<times> nat) list \<Rightarrow> netfront_info \<Rightarrow> (netif_tx_request list \<times> netfront_info) option" where
  "take_pieces skb [] s = Some ([], s)"
| "take_pieces skb ((m, off, n) # ps) s =
     (case tx_piece skb m off n s of None \<Rightarrow> None
      | Some (t, s) \<Rightarrow> map_option (\<lambda>(ts, s). (t # ts, s)) (take_pieces skb ps s))"

fun idxs :: "ring_idx \<Rightarrow> nat \<Rightarrow> ring_idx list" where
  "idxs i 0 = []"
| "idxs i (Suc n) = i # idxs (i + 1) n"

fun finish :: "netif_tx_request list \<Rightarrow> netif_tx_request list" where
  "finish [] = []"
| "finish [t] = [t]"
| "finish (t # u # ts) = t\<lparr>tx_flags := tx_flags t OR XEN_NETTXF_more_data\<rparr> # finish (u # ts)"

definition write_slots :: "u32 \<Rightarrow> (ring_idx \<times> tx_slot) list \<Rightarrow> (tx_slot, 'p) sring \<Rightarrow> (tx_slot, 'p) sring" where
  "write_slots nr ws sr = fold (\<lambda>(i, q). ring_put nr i (Req q)) ws sr"

lemma length_idxs [simp]: "length (idxs i n) = n" by (induction n arbitrary: i) auto

lemma length_finish [simp]: "length (finish ts) = length ts" by (induction ts rule: finish.induct) auto

lemma put_tx_txs: "put_tx i q s = s\<lparr>txs := ring_put (f_nr_ents (tx s)) i (Req q) (txs s)\<rparr>"
  by (simp add: put_tx_def)

lemma tx_piece_txs:
  "tx_piece skb m off n (s\<lparr>txs := r\<rparr>) = map_option (\<lambda>(t, s). (t, s\<lparr>txs := r\<rparr>)) (tx_piece skb m off n s)"
  by (auto simp: tx_piece_def Let_def split: option.split prod.split)

lemma take_pieces_txs:
  "take_pieces skb ps (s\<lparr>txs := r\<rparr>) = map_option (\<lambda>(ts, s). (ts, s\<lparr>txs := r\<rparr>)) (take_pieces skb ps s)"
proof (induction skb ps s rule: take_pieces.induct)
  case (2 skb m off n ps s)
  show ?case
  proof (cases "tx_piece skb m off n s")
    case (Some x)
    then show ?thesis using 2 [OF Some] by (cases x) (auto simp: tx_piece_txs map_option_case split: option.split prod.split)
  qed (simp add: tx_piece_txs)
qed simp

lemma tx_piece_tx: "tx_piece skb m off n s = Some (t, s') \<Longrightarrow> tx s' = tx s \<and> txs s' = txs s"
  by (auto simp: tx_piece_def Let_def split: option.splits prod.splits if_splits)

lemma emit_finish:
  "(case emit skb ps ti t pr s of None \<Rightarrow> None | Some (ti, t, pr, s) \<Rightarrow> Some (pr, put_tx ti (Tx t) s)) =
   map_option (\<lambda>(ts, s'). (pr + of_nat (length ps),
       s'\<lparr>txs := write_slots (f_nr_ents (tx s)) (zip (ti # idxs pr (length ps)) (map Tx (finish (t # ts)))) (txs s)\<rparr>))
     (take_pieces skb ps s)"
proof (induction ps arbitrary: ti t pr s)
  case Nil
  then show ?case by (simp add: put_tx_txs write_slots_def)
next
  case (Cons p ps)
  obtain m off n where p: "p = (m, off, n)" using prod_cases3 by blast
  show ?case
  proof (cases "tx_piece skb m off n s")
    case None
    then show ?thesis by (simp add: p put_tx_txs tx_piece_txs)
  next
    case (Some x)
    obtain u s1 where x: "x = (u, s1)" by fastforce
    have tx: "tx s1 = tx s" "txs s1 = txs s" using tx_piece_tx Some x by auto
    let ?r = "ring_put (f_nr_ents (tx s)) ti (Req (Tx (t\<lparr>tx_flags := tx_flags t OR XEN_NETTXF_more_data\<rparr>))) (txs s)"
    have e: "emit skb (p # ps) ti t pr s = emit skb ps pr u (pr + 1) (s1\<lparr>txs := ?r\<rparr>)"
      using Some x by (simp add: p put_tx_txs tx_piece_txs)
    have tp: "take_pieces skb (p # ps) s = map_option (\<lambda>(ts, s). (u # ts, s)) (take_pieces skb ps s1)"
      using Some x by (simp add: p)
    show ?thesis unfolding e tp Cons.IH [of pr u "pr + 1" "s1\<lparr>txs := ?r\<rparr>"] take_pieces_txs
      by (cases "take_pieces skb ps s1") (auto simp: tx write_slots_def algebra_simps)
  qed
qed

section \<open>Reading the ring back\<close>

definition tx_at :: "u32 \<Rightarrow> (tx_slot, 'p) sring \<Rightarrow> ring_idx \<Rightarrow> tx_slot option" where
  "tx_at nr sr i = RING_GET_REQUEST nr sr i"

lemma length_ring_put [simp]: "length (ring (ring_put nr i q sr)) = length (ring sr)"
  by (simp add: ring_put_def)

lemma tx_at_put:
  "ring_slot nr i < length (ring sr) \<Longrightarrow>
   RING_GET_REQUEST nr (ring_put nr i (Req q) sr) j = (if ring_slot nr j = ring_slot nr i then Some q else RING_GET_REQUEST nr sr j)"
  by (auto simp: RING_GET_REQUEST_def ring_put_def)

lemma length_write_slots [simp]: "length (ring (write_slots nr ws sr)) = length (ring sr)"
  unfolding write_slots_def by (induction ws arbitrary: sr) auto

lemma write_slots_Cons: "write_slots nr ((i, q) # ws) sr = write_slots nr ws (ring_put nr i (Req q) sr)"
  by (simp add: write_slots_def)

lemma write_slots_other:
  "\<forall>i. ring_slot nr i < length (ring sr) \<Longrightarrow> \<forall>(i, q) \<in> set ws. ring_slot nr j \<noteq> ring_slot nr i \<Longrightarrow>
   RING_GET_REQUEST nr (write_slots nr ws sr) j = RING_GET_REQUEST nr sr j"
proof (induction ws arbitrary: sr)
  case (Cons w ws)
  then show ?case by (cases w) (simp add: write_slots_Cons tx_at_put)
qed (simp add: write_slots_def)

lemma write_slots_same:
  "\<forall>i. ring_slot nr i < length (ring sr) \<Longrightarrow> distinct (map (ring_slot nr \<circ> fst) ws) \<Longrightarrow>
   map (RING_GET_REQUEST nr (write_slots nr ws sr)) (map fst ws) = map (Some \<circ> snd) ws"
proof (induction ws arbitrary: sr)
  case (Cons w ws)
  obtain i q where w: "w = (i, q)" by fastforce
  have "RING_GET_REQUEST nr (write_slots nr ws (ring_put nr i (Req q) sr)) i = Some q"
  proof -
    have "ring_slot nr i \<notin> (ring_slot nr \<circ> fst) ` set ws" using Cons.prems(2) w by simp
    then have "\<forall>(a, b) \<in> set ws. ring_slot nr i \<noteq> ring_slot nr a" by force
    then show ?thesis using Cons.prems(1) by (subst write_slots_other) (simp_all add: tx_at_put)
  qed
  moreover have "map (RING_GET_REQUEST nr (write_slots nr ws (ring_put nr i (Req q) sr))) (map fst ws) = map (Some \<circ> snd) ws"
    by (rule Cons.IH) (use Cons.prems in auto)
  ultimately show ?case by (simp add: w write_slots_Cons)
qed simp

lemma slot_256: "ring_slot 256 i = unat i mod 256"
  using ring_slot_pow2 [of 8 "unat i"] by simp

lemma idxs_nth: "k < n \<Longrightarrow> idxs i n ! k = i + of_nat k"
  by (induction n arbitrary: i k) (auto simp: nth_Cons' algebra_simps)

lemma slots_distinct:
  assumes "n \<le> 256"
  shows "distinct (map (ring_slot 256) (idxs i n))"
proof -
  have slot: "ring_slot 256 (i + of_nat k) = (unat i + k) mod 256" if "k < 256" for k
  proof -
    have "(unat i + k) mod 2 ^ 32 mod 256 = (unat i + k) mod 256"
      by (rule mod_mod_cancel) simp
    moreover have "unat (i + of_nat k) = (unat i + k) mod 2 ^ 32"
      using that by (simp add: unat_word_ariths)
    ultimately show ?thesis by (simp add: slot_256)
  qed
  have neq: "(x + k) mod 256 \<noteq> (x + l) mod 256" if "k < l" "l < 256" for x k l :: nat
  proof
    assume "(x + k) mod 256 = (x + l) mod 256"
    then have "256 dvd (x + l) - (x + k)" using mod_eq_dvd_iff_nat [of "x + k" "x + l" 256] that by (metis add_le_cancel_left less_imp_le)
    then show False using that nat_dvd_not_less [of "l - k" 256] by simp
  qed
  have "ring_slot 256 (i + of_nat a) \<noteq> ring_slot 256 (i + of_nat b)" if "a < n" "b < n" "a \<noteq> b" for a b
  proof -
    have "a < 256" "b < 256" using that assms by simp_all
    then show ?thesis using slot neq [of a b "unat i"] neq [of b a "unat i"] that(3) by (cases "a < b") auto
  qed
  then show ?thesis by (simp add: distinct_conv_nth idxs_nth)
qed


section \<open>Ids and references of the send side\<close>

text \<open>\<open>xs\<close> are the free ids, in the order in which they will be used; 257 ends the list.\<close>

definition tx_next :: "netfront_info \<Rightarrow> nat \<Rightarrow> nat" where
  "tx_next s i = (case tx_skbs s i of Link n \<Rightarrow> n | Skb _ \<Rightarrow> NET_TX_RING_SIZE + 1)"

definition is_free :: "netfront_info \<Rightarrow> nat \<Rightarrow> bool" where
  "is_free s i \<longleftrightarrow> (case tx_skbs s i of Link _ \<Rightarrow> True | Skb _ \<Rightarrow> False)"

definition tx_ids :: "nat set" where "tx_ids = {1..NET_TX_RING_SIZE}"

definition tx_free :: "nat list \<Rightarrow> netfront_info \<Rightarrow> bool" where
  "tx_free xs s \<longleftrightarrow> linked (tx_next s) (tx_next s 0) (NET_TX_RING_SIZE + 1) xs \<and> distinct xs \<and> is_free s 0 \<and>
     set xs = {i \<in> tx_ids. is_free s i}"

text \<open>\<open>ys\<close> are the references held in reserve.\<close>

definition tx_refs :: "nat list \<Rightarrow> netfront_info \<Rightarrow> bool" where
  "tx_refs ys s \<longleftrightarrow> gnt_pages (ngnt s) \<and> linked (gnt_next (ngnt s)) (gref_tx_head s) GNTTAB_LIST_END ys \<and>
     distinct ys \<and> set ys \<subseteq> gnt_refs (ngnt s) \<and> (\<forall>y \<in> set ys. y < 2 ^ 15)"

definition piece_req :: "u32 \<times> nat \<times> nat \<Rightarrow> nat \<Rightarrow> nat \<Rightarrow> netif_tx_request" where
  "piece_req p x y = (case p of (m, off, n) \<Rightarrow>
     \<lparr>tx_gref = y, tx_offset = of_nat off, tx_flags = 0, tx_id = of_nat x, tx_size = of_nat n\<rparr>)"

definition sent_piece :: "sk_buff \<Rightarrow> u32 \<Rightarrow> nat \<Rightarrow> nat \<Rightarrow> netfront_info \<Rightarrow> netfront_info" where
  "sent_piece skb m x y s =
     s\<lparr>tx_skbs := (tx_skbs s)(0 := tx_skbs s x, x := Skb skb), gref_tx_head := gnt_next (ngnt s) y,
       ngnt := (ngnt s)\<lparr>shared := (shared (ngnt s))(y := entry_for (otherend s) GTF_readonly m)\<rparr>,
       grant_tx_ref := (grant_tx_ref s)(x := y)\<rparr>"

lemma sint16_small: "y < 2 ^ 15 \<Longrightarrow> \<not> sint (word_of_int (int y) :: u16) < 0"
  by (simp add: signed_of_nat signed_take_bit_int_eq_self)

lemma tx_piece_ok:
  assumes "tx_free (x # xs) s" and "tx_refs (y # ys) s"
  shows "tx_piece skb m off n s = Some (piece_req (m, off, n) x y, sent_piece skb m x y s)"
    and "tx_free xs (sent_piece skb m x y s)" and "tx_refs ys (sent_piece skb m x y s)"
proof -
  have "set (x # xs) = {i \<in> tx_ids. is_free s i}" using assms(1) unfolding tx_free_def by blast
  then have "x \<in> {i \<in> tx_ids. is_free s i}" by (metis list.set_intros(1))
  then have x: "x \<in> tx_ids" "is_free s x" "is_free s 0" "tx_next s 0 = x" "x \<notin> set xs" "x \<noteq> 0"
    using assms(1) by (simp_all add: tx_free_def, simp add: tx_ids_def)
  then have "tx_skbs s 0 = Link x" "tx_skbs s x = Link (tx_next s x)"
    by (auto simp: is_free_def tx_next_def split: tx_entry.splits)
  moreover have "gnttab_claim_grant_reference (gref_tx_head s) (ngnt s) = Some (int y, gnt_next (ngnt s) y)"
    using assms(2) gnttab_claim_ok [of "ngnt s" "gref_tx_head s" "y # ys"] by (simp add: tx_refs_def)
  ultimately show "tx_piece skb m off n s = Some (piece_req (m, off, n) x y, sent_piece skb m x y s)"
    using x(1,6) assms(2) sint16_small [of y]
    by (simp add: tx_piece_def get_id_from_freelist_def tx_ids_def grant_ref_ok tx_refs_def piece_req_def sent_piece_def fun_upd_twist)
  let ?t = "sent_piece skb m x y s"
  have nx: "tx_next ?t i = (if i = 0 then tx_next s x else if i = x then NET_TX_RING_SIZE + 1 else tx_next s i)"
    and fr: "is_free ?t i = (if i = 0 then True else i \<noteq> x \<and> is_free s i)" for i
    using x by (auto simp: tx_next_def is_free_def sent_piece_def)
  have "linked (tx_next s) (tx_next s x) (NET_TX_RING_SIZE + 1) xs" using assms(1) by (simp add: tx_free_def)
  moreover have "linked (tx_next ?t) h e xs = linked (tx_next s) h e xs" for h e
    using assms(1) x by (intro linked_cong) (auto simp: nx tx_free_def tx_ids_def)
  moreover have "set (x # xs) = {i \<in> tx_ids. is_free s i}" using assms(1) by (simp only: tx_free_def)
  then have "set xs = {i \<in> tx_ids. is_free s i} - {x}" using x(5) by (metis Diff_insert_absorb list.simps(15))
  then have sx: "i \<in> set xs \<longleftrightarrow> i \<in> tx_ids \<and> is_free s i \<and> i \<noteq> x" for i by simp
  have "set xs = {i \<in> tx_ids. is_free ?t i}"
  proof (rule set_eqI)
    fix i
    have "i \<in> tx_ids \<Longrightarrow> i \<noteq> 0" by (cases i) (simp_all add: tx_ids_def)
    then show "i \<in> set xs \<longleftrightarrow> i \<in> {i \<in> tx_ids. is_free ?t i}" using sx [of i] fr [of i] by auto
  qed
  ultimately show "tx_free xs ?t" using assms(1) by (simp add: tx_free_def nx fr)
  show "tx_refs ys ?t" using assms(2) by (simp add: tx_refs_def sent_piece_def)
qed

fun send_pieces :: "sk_buff \<Rightarrow> (u32 \<times> nat \<times> nat) list \<Rightarrow> nat list \<Rightarrow> nat list \<Rightarrow> netfront_info \<Rightarrow> netfront_info" where
  "send_pieces skb ((m, off, n) # ps) (x # xs) (y # ys) s = send_pieces skb ps xs ys (sent_piece skb m x y s)"
| "send_pieces skb _ _ _ s = s"

lemma take_pieces_ok:
  "length ps = length xs \<Longrightarrow> length ps = length ys \<Longrightarrow> tx_free (xs @ xs') s \<Longrightarrow> tx_refs (ys @ ys') s \<Longrightarrow>
   take_pieces skb ps s = Some (map2 (\<lambda>p (x, y). piece_req p x y) ps (zip xs ys), send_pieces skb ps xs ys s) \<and>
   tx_free xs' (send_pieces skb ps xs ys s) \<and> tx_refs ys' (send_pieces skb ps xs ys s)"
proof (induction skb ps xs ys s rule: send_pieces.induct)
  case (1 skb m off n ps x xs y ys s)
  then show ?case using tx_piece_ok [of x "xs @ xs'" s y "ys @ ys'" skb m] by simp
qed auto

text \<open>What sending touches.\<close>

lemma send_pieces_frame:
  "\<exists>h g. send_pieces skb ps xs ys s =
     s\<lparr>tx_skbs := tx_skbs (send_pieces skb ps xs ys s), gref_tx_head := h, ngnt := (ngnt s)\<lparr>shared := g\<rparr>,
       grant_tx_ref := grant_tx_ref (send_pieces skb ps xs ys s)\<rparr>"
proof -
  have triv: "\<exists>h g. s = s\<lparr>gref_tx_head := h, ngnt := ngnt s\<lparr>shared := g\<rparr>\<rparr>" for s
    by (intro exI [of _ "gref_tx_head s"] exI [of _ "shared (ngnt s)"]) simp
  show ?thesis
proof (induction skb ps xs ys s rule: send_pieces.induct)
  case (1 skb m off n ps x xs y ys s)
  then obtain h g where "send_pieces skb ps xs ys (sent_piece skb m x y s) =
     (sent_piece skb m x y s)\<lparr>tx_skbs := tx_skbs (send_pieces skb ps xs ys (sent_piece skb m x y s)), gref_tx_head := h,
       ngnt := (ngnt (sent_piece skb m x y s))\<lparr>shared := g\<rparr>, grant_tx_ref := grant_tx_ref (send_pieces skb ps xs ys (sent_piece skb m x y s))\<rparr>"
    by blast
  then show ?case unfolding send_pieces.simps by (simp add: sent_piece_def) metis
qed (simp_all add: triv)
qed

lemma send_pieces_maps:
  "length ps = length xs \<Longrightarrow> length ps = length ys \<Longrightarrow> distinct xs \<Longrightarrow> distinct ys \<Longrightarrow> 0 \<notin> set xs \<Longrightarrow>
   map (grant_tx_ref (send_pieces skb ps xs ys s)) xs = ys \<and>
   map (shared (ngnt (send_pieces skb ps xs ys s))) ys = map (\<lambda>(m, _). entry_for (otherend s) GTF_readonly m) ps \<and>
   (\<forall>i. i \<notin> set xs \<longrightarrow> grant_tx_ref (send_pieces skb ps xs ys s) i = grant_tx_ref s i \<and>
      (i \<noteq> 0 \<longrightarrow> tx_skbs (send_pieces skb ps xs ys s) i = tx_skbs s i)) \<and>
   (\<forall>i \<in> set xs. tx_skbs (send_pieces skb ps xs ys s) i = Skb skb) \<and>
   (\<forall>r. r \<notin> set ys \<longrightarrow> shared (ngnt (send_pieces skb ps xs ys s)) r = shared (ngnt s) r)"
proof (induction skb ps xs ys s rule: send_pieces.induct)
  case (1 skb m off n ps x xs y ys s)
  let ?s = "sent_piece skb m x y s"
  have IH: "map (grant_tx_ref (send_pieces skb ps xs ys ?s)) xs = ys"
    "map (shared (ngnt (send_pieces skb ps xs ys ?s))) ys = map (\<lambda>(m, _). entry_for (otherend ?s) GTF_readonly m) ps"
    "\<And>i. i \<notin> set xs \<Longrightarrow> grant_tx_ref (send_pieces skb ps xs ys ?s) i = grant_tx_ref ?s i"
    "\<And>i. i \<notin> set xs \<Longrightarrow> i \<noteq> 0 \<Longrightarrow> tx_skbs (send_pieces skb ps xs ys ?s) i = tx_skbs ?s i"
    "\<And>i. i \<in> set xs \<Longrightarrow> tx_skbs (send_pieces skb ps xs ys ?s) i = Skb skb"
    "\<And>r. r \<notin> set ys \<Longrightarrow> shared (ngnt (send_pieces skb ps xs ys ?s)) r = shared (ngnt ?s) r"
    using 1 by auto
  have x: "x \<notin> set xs" "y \<notin> set ys" "x \<noteq> 0" using 1 by auto
  have other: "otherend ?s = otherend s" by (simp add: sent_piece_def)
  show ?case
    using IH x other by (auto simp: sent_piece_def)
qed auto


section \<open>What the backend reads\<close>

fun read_more :: "u32 \<Rightarrow> (tx_slot, 'p) sring \<Rightarrow> nat \<Rightarrow> ring_idx \<Rightarrow> (netif_tx_request list \<times> ring_idx) option" where
  "read_more nr sr 0 i = None"
| "read_more nr sr (Suc n) i =
     (case RING_GET_REQUEST nr sr i of
        Some (Tx q) \<Rightarrow>
          (if tx_flags q AND XEN_NETTXF_more_data \<noteq> 0
           then map_option (\<lambda>(qs, j). (q # qs, j)) (read_more nr sr n (i + 1)) else Some ([q], i + 1))
      | _ \<Rightarrow> None)"

text \<open>
  A packet of the ring as the protocol has it: the first request, an extra descriptor when it
  says so, and further requests while there is more data; and the slot after it.
\<close>

definition backend_reads :: "u32 \<Rightarrow> (tx_slot, 'p) sring \<Rightarrow> ring_idx \<Rightarrow>
    (netif_tx_request \<times> netif_extra_info option \<times> netif_tx_request list \<times> ring_idx) option" where
  "backend_reads nr sr i =
     (case RING_GET_REQUEST nr sr i of
        Some (Tx q) \<Rightarrow>
          (let more = (tx_flags q AND XEN_NETTXF_more_data \<noteq> 0);
               rest = (\<lambda>ex j. if more then map_option (\<lambda>(qs, j). (q, ex, qs, j)) (read_more nr sr 256 j) else Some (q, ex, [], j))
           in if tx_flags q AND XEN_NETTXF_extra_info \<noteq> 0
              then (case RING_GET_REQUEST nr sr (i + 1) of Some (Extra x) \<Rightarrow> rest (Some x) (i + 2) | _ \<Rightarrow> None)
              else rest None (i + 1))
      | _ \<Rightarrow> None)"

text \<open>
  The memory it finds through the references: the size of the first request is that of the whole packet.
\<close>

definition granted_bytes :: "gnttab \<Rightarrow> netif_tx_request \<Rightarrow> nat \<Rightarrow> (u32 \<times> nat) list" where
  "granted_bytes g q n = piece_bytes (frame (shared g (tx_gref q)), unat (tx_offset q), n)"

definition received_bytes :: "gnttab \<Rightarrow> netif_tx_request \<Rightarrow> netif_tx_request list \<Rightarrow> (u32 \<times> nat) list" where
  "received_bytes g q qs =
     granted_bytes g q (unat (tx_size q) - (\<Sum>p \<leftarrow> qs. unat (tx_size p))) @
     concat (map (\<lambda>p. granted_bytes g p (unat (tx_size p))) qs)"

definition packet_bytes :: "sk_buff \<Rightarrow> (u32 \<times> nat) list" where
  "packet_bytes skb = bytes_at (head_mfn skb) (head_offset skb mod PAGE_SIZE) (head_len skb) @
     concat (map (\<lambda>f. bytes_at (frag_mfn f) (frag_offset f) (frag_size f)) (skb_frags skb))"

lemma read_more_ok:
  "map (RING_GET_REQUEST nr sr) (idxs i (length qs)) = map (Some \<circ> Tx) qs \<Longrightarrow> qs \<noteq> [] \<Longrightarrow>
   \<forall>q \<in> set (butlast qs). tx_flags q AND XEN_NETTXF_more_data \<noteq> 0 \<Longrightarrow> tx_flags (last qs) AND XEN_NETTXF_more_data = 0 \<Longrightarrow>
   length qs \<le> n \<Longrightarrow> read_more nr sr n i = Some (qs, i + of_nat (length qs))"
proof (induction n arbitrary: i qs)
  case (Suc n)
  then obtain q qs' where q: "qs = q # qs'" by (cases qs) auto
  show ?case
  proof (cases qs')
    case Nil
    then show ?thesis using Suc q by simp
  next
    case (Cons r rs)
    then have "read_more nr sr n (i + 1) = Some (qs', i + 1 + of_nat (length qs'))"
      using Suc.prems q by (intro Suc.IH) simp_all
    then show ?thesis using Suc.prems q Cons by (simp add: algebra_simps)
  qed
qed simp

lemma or_and_right [simp]: "(x OR y) AND y = (y :: u16)"
  by (rule bit_word_eqI) (auto simp: bit_simps)

lemma more_not_0 [simp]: "XEN_NETTXF_more_data \<noteq> 0" by (simp add: XEN_NETTXF_more_data_def)

lemma finish_more: "q \<in> set (butlast (finish ts)) \<Longrightarrow> tx_flags q AND XEN_NETTXF_more_data \<noteq> 0"
proof (induction ts rule: finish.induct)
  case (3 t u ts)
  have "finish (u # ts) \<noteq> []" using length_finish [of "u # ts"] by fastforce
  then show ?case using 3 by auto
qed auto

lemma last_finish: "ts \<noteq> [] \<Longrightarrow> last (finish ts) = last ts"
proof (induction ts rule: finish.induct)
  case (3 t u ts)
  have "finish (u # ts) \<noteq> []" using length_finish [of "u # ts"] by fastforce
  then show ?case using 3 by simp
qed auto

text \<open>Setting the flag changes nothing else of a request.\<close>

lemma finish_fields:
  "map tx_gref (finish ts) = map tx_gref ts" "map tx_offset (finish ts) = map tx_offset ts"
  "map tx_size (finish ts) = map tx_size ts"
  by (induction ts rule: finish.induct) auto

section \<open>The requests of a packet\<close>

definition head_piece :: "sk_buff \<Rightarrow> u32 \<times> nat \<times> nat" where
  "head_piece skb = (head_mfn skb 0, head_offset skb mod PAGE_SIZE,
     min (PAGE_SIZE - head_offset skb mod PAGE_SIZE) (head_len skb))"

definition more_pieces :: "sk_buff \<Rightarrow> (u32 \<times> nat \<times> nat) list" where
  "more_pieces skb = tl (pieces (head_mfn skb) (head_offset skb mod PAGE_SIZE) (head_len skb)) @
     concat (map (\<lambda>f. pieces (frag_mfn f) (frag_offset f) (frag_size f)) (skb_frags skb))"

lemma head_pieces:
  "0 < head_len skb \<Longrightarrow> pieces (head_mfn skb) (head_offset skb mod PAGE_SIZE) (head_len skb) =
     head_piece skb # tl (pieces (head_mfn skb) (head_offset skb mod PAGE_SIZE) (head_len skb))"
  by (subst (1 2) pieces.simps) (simp add: head_piece_def Let_def div_less)

lemma packet_pieces: "concat (map piece_bytes (head_piece skb # more_pieces skb)) = packet_bytes skb"
proof -
  have a: "piece_bytes (head_piece skb) @ concat (map piece_bytes (tl (pieces (head_mfn skb) (head_offset skb mod PAGE_SIZE) (head_len skb)))) =
      bytes_at (head_mfn skb) (head_offset skb mod PAGE_SIZE) (head_len skb)"
  proof (cases "head_len skb = 0")
    case True
    then show ?thesis by (simp add: head_piece_def bytes_at_def)
  next
    case False
    then show ?thesis using head_pieces [of skb] pieces_bytes
      by (metis concat.simps(2) list.simps(9) neq0_conv)
  qed
  have b: "concat (map piece_bytes (concat (map (\<lambda>f. pieces (frag_mfn f) (frag_offset f) (frag_size f)) fs))) =
      concat (map (\<lambda>f. bytes_at (frag_mfn f) (frag_offset f) (frag_size f)) fs)" for fs
    by (induction fs) (simp_all add: pieces_bytes)
  show ?thesis
    by (simp only: more_pieces_def packet_bytes_def list.map concat.simps map_append concat_append append_assoc [symmetric] a b)
qed

lemma more_pieces_sizes: "(m, off, n) \<in> set (more_pieces skb) \<Longrightarrow> off < PAGE_SIZE \<and> n \<le> PAGE_SIZE"
proof -
  assume "(m, off, n) \<in> set (more_pieces skb)"
  moreover have "set (tl xs) \<subseteq> set xs" for xs :: "(u32 \<times> nat \<times> nat) list" by (cases xs) auto
  ultimately obtain mfn a len where "(m, off, n) \<in> set (pieces mfn a len)"
    unfolding more_pieces_def set_append set_concat set_map by blast
  then show ?thesis using pieces_sizes by blast
qed

lemma pieces_sum: "snd (snd (head_piece skb)) + (\<Sum>(m, off, n) \<leftarrow> more_pieces skb. n) = skb_len skb"
proof -
  have len: "length (concat (map piece_bytes ps)) = (\<Sum>(m, off, n) \<leftarrow> ps. n)" for ps by (induction ps) auto
  have "length (packet_bytes skb) = skb_len skb"
    by (simp add: packet_bytes_def skb_len_def bytes_at_def length_concat comp_def)
  then show ?thesis unfolding packet_pieces [symmetric] len by (simp add: split_def)
qed

lemma more_pieces_length:
  "length (more_pieces skb) + 1 \<le> max 1 (PFN_UP (head_offset skb mod PAGE_SIZE + head_len skb)) + xennet_count_skb_frag_slots skb"
proof -
  have a: "length (concat (map (\<lambda>f. pieces (frag_mfn f) (frag_offset f) (frag_size f)) fs)) =
      (\<Sum>f \<leftarrow> fs. if frag_size f = 0 then 0 else PFN_UP (frag_offset f mod PAGE_SIZE + frag_size f))" for fs
    by (induction fs) (simp_all add: length_pieces)
  have b: "length (tl (pieces (head_mfn skb) (head_offset skb mod PAGE_SIZE) (head_len skb))) + 1
      \<le> max 1 (PFN_UP (head_offset skb mod PAGE_SIZE + head_len skb))"
    by (cases "head_len skb = 0") (simp_all add: length_pieces)
  show ?thesis unfolding more_pieces_def xennet_count_skb_frag_slots_def length_append a using b by linarith
qed

lemma xennet_make_frags_emit:
  assumes "\<forall>f \<in> set (skb_frags skb). frag_offset f + frag_size f \<le> PAGE_SIZE * 2 ^ frag_order f"
    and "tx_size t = of_nat (head_len skb)"
  shows "xennet_make_frags skb i t s =
     map_option (\<lambda>(ts, s'). s'\<lparr>txs := write_slots (f_nr_ents (tx s)) (zip (i # idxs (req_prod_pvt (tx s)) (length (more_pieces skb)))
           (map Tx (finish (t\<lparr>tx_size := of_nat (snd (snd (head_piece skb)))\<rparr> # ts)))) (txs s),
         tx := (tx s')\<lparr>req_prod_pvt := req_prod_pvt (tx s) + of_nat (length (more_pieces skb))\<rparr>\<rparr>)
       (take_pieces skb (more_pieces skb) s)"
proof -
  let ?t = "t\<lparr>tx_size := of_nat (snd (snd (head_piece skb)))\<rparr>"
  let ?a = "head_offset skb mod PAGE_SIZE" and ?pr = "req_prod_pvt (tx s)"
  let ?hs = "tl (pieces (head_mfn skb) ?a (head_len skb))"
  have head: "make_head skb 0 ?a (head_len skb) i t ?pr s = emit skb ?hs i ?t ?pr s"
  proof (cases "head_len skb = 0")
    case True
    then have "?t = t" using assms(2) by (simp add: head_piece_def)
    then show ?thesis using True by (subst make_head.simps) simp
  next
    case False
    then show ?thesis using assms(2) make_head_emit [of ?a ?a 0 "head_len skb" t skb i ?pr s]
      by (simp add: head_piece_def div_less)
  qed
  have nest: "(case x of None \<Rightarrow> None | Some (a, b, c, d) \<Rightarrow> (case F a b c d of None \<Rightarrow> None | Some (a, b, c, d) \<Rightarrow> G a b c d)) =
      (case (case x of None \<Rightarrow> None | Some (a, b, c, d) \<Rightarrow> F a b c d) of None \<Rightarrow> None | Some (a, b, c, d) \<Rightarrow> G a b c d)"
    for x :: "(ring_idx \<times> netif_tx_request \<times> ring_idx \<times> netfront_info) option" and
      F :: "_ \<Rightarrow> _ \<Rightarrow> _ \<Rightarrow> _ \<Rightarrow> (ring_idx \<times> netif_tx_request \<times> ring_idx \<times> netfront_info) option" and
      G :: "_ \<Rightarrow> _ \<Rightarrow> _ \<Rightarrow> _ \<Rightarrow> netfront_info option"
    by (cases x) auto
  have eq: "(case make_head skb 0 ?a (head_len skb) i t ?pr s of None \<Rightarrow> None
         | Some (ti, t, pr, s) \<Rightarrow> make_frags skb (skb_frags skb) ti t pr s) = emit skb (more_pieces skb) i ?t ?pr s"
    unfolding head more_pieces_def emit_append make_frags_emit [OF assms(1)] by (rule refl)
  have "xennet_make_frags skb i t s = (case emit skb (more_pieces skb) i ?t ?pr s of None \<Rightarrow> None
      | Some (ti, t, pr, s) \<Rightarrow> Some ((put_tx ti (Tx t) s)\<lparr>tx := (tx s)\<lparr>req_prod_pvt := pr\<rparr>\<rparr>))"
    unfolding xennet_make_frags_def nest eq
    by (cases "emit skb (more_pieces skb) i ?t ?pr s") (auto simp: Let_def put_tx_def)
  also have "\<dots> = map_option (\<lambda>(pr, s). s\<lparr>tx := (tx s)\<lparr>req_prod_pvt := pr\<rparr>\<rparr>)
      (case emit skb (more_pieces skb) i ?t ?pr s of None \<Rightarrow> None | Some (ti, t, pr, s) \<Rightarrow> Some (pr, put_tx ti (Tx t) s))"
    by (auto simp: put_tx_def split: option.split)
  finally show ?thesis unfolding emit_finish by (auto simp: option.map_comp comp_def split_def)
qed

end
