(* ===== verification/Netfront_Tx.thy ===== *)
theory Netfront_Tx
  imports Netfront_Pieces
begin

text \<open>
  The send side of the network front end: the invariant that ties ids, references and slots
  together, what sending a packet makes of it, and what collecting the responses makes of it.
\<close>


section \<open>The invariant of the send side\<close>

definition tx_in_use :: "netfront_info \<Rightarrow> nat set" where "tx_in_use s = {i \<in> tx_ids. \<not> is_free s i}"

text \<open>
  Every id in use has a reference of its own, and there are as many references in reserve as
  free ids; nobody else has any of them.
\<close>

definition tx_ok :: "nat list \<Rightarrow> nat list \<Rightarrow> netfront_info \<Rightarrow> bool" where
  "tx_ok xs ys s \<longleftrightarrow> gnt_inv (ngnt s) \<and> f_nr_ents (tx s) = 256 \<and> length (ring (txs s)) = 256 \<and>
     tx_free xs s \<and> tx_refs ys s \<and> length xs = length ys \<and>
     inj_on (grant_tx_ref s) (tx_in_use s) \<and> grant_tx_ref s ` tx_in_use s \<inter> set ys = {} \<and>
     (\<forall>i \<in> tx_in_use s. grant_tx_ref s i \<in> gnt_refs (ngnt s) \<and> grant_tx_ref s i < 2 ^ 15) \<and>
     (grant_tx_ref s ` tx_in_use s \<union> set ys) \<inter> set (gnt_free (ngnt s)) = {}"

definition outstanding :: "netfront_info \<Rightarrow> nat" where
  "outstanding s = unat (req_prod_pvt (tx s) - rsp_cons (tx s))"

lemma tx_in_use_free: "tx_free xs s \<Longrightarrow> card (tx_in_use s) + length xs = 256"
proof -
  assume f: "tx_free xs s"
  have fin: "finite tx_ids" by (simp add: tx_ids_def)
  have "tx_in_use s \<union> set xs = tx_ids" "tx_in_use s \<inter> set xs = {}" using f by (auto simp: tx_free_def tx_in_use_def)
  moreover have "distinct xs" using f unfolding tx_free_def by blast
  then have "card (set xs) = length xs" by (rule distinct_card)
  moreover have "finite (tx_in_use s)" using fin by (simp add: tx_in_use_def)
  ultimately have "card tx_ids = card (tx_in_use s) + length xs" by (metis card_Un_disjoint List.finite_set)
  then show ?thesis by (simp add: tx_ids_def NET_TX_RING_SIZE_def)
qed

lemma slot_pos: "\<forall>i. ring_slot 256 i < (256 :: nat)" by (simp add: slot_256)

text \<open>The slots a packet takes: the first, the one of the extra descriptor, and those of the other pieces.\<close>

definition extra_slots :: "sk_buff \<Rightarrow> nat" where "extra_slots skb = (if skb_is_gso skb then 1 else 0)"

definition first_req :: "sk_buff \<Rightarrow> nat \<Rightarrow> nat \<Rightarrow> netif_tx_request" where
  "first_req skb x y = (piece_req (head_piece skb) x y)
     \<lparr>tx_flags := tx_csum_flags skb OR (if skb_is_gso skb then XEN_NETTXF_extra_info else 0)\<rparr>"

definition rest_reqs :: "sk_buff \<Rightarrow> nat list \<Rightarrow> nat list \<Rightarrow> netif_tx_request list" where
  "rest_reqs skb xs ys = map2 (\<lambda>p (x, y). piece_req p x y) (more_pieces skb) (zip xs ys)"

lemma send_pieces_ring:
  "send_pieces skb ps xs ys (s\<lparr>txs := r, tx := q\<rparr>) = (send_pieces skb ps xs ys s)\<lparr>txs := r, tx := q\<rparr>"
proof (induction skb ps xs ys s rule: send_pieces.induct)
  case (1 skb m off n ps x xs y ys s)
  have "sent_piece skb m x y (s\<lparr>txs := r, tx := q\<rparr>) = (sent_piece skb m x y s)\<lparr>txs := r, tx := q\<rparr>"
    by (simp add: sent_piece_def)
  then show ?case using 1 by simp
qed simp_all

lemma send_pieces_tx: "tx (send_pieces skb ps xs ys s) = tx s" "txs (send_pieces skb ps xs ys s) = txs s"
  by (induction skb ps xs ys s rule: send_pieces.induct) (simp_all add: sent_piece_def)

lemma write_slots_frame [simp]: "rsp_prod (write_slots nr ws sr) = rsp_prod sr"
  unfolding write_slots_def by (induction ws arbitrary: sr) (auto simp: ring_put_def)

lemma xmit_requests_run:
  assumes free: "tx_free (x # xs @ xs') s" and refs: "tx_refs (y # ys @ ys') s"
    and len: "length xs = length (more_pieces skb)" "length ys = length (more_pieces skb)"
    and room: "length (more_pieces skb) + 2 \<le> 256"
    and ring: "f_nr_ents (tx s) = 256" "length (ring (txs s)) = 256"
    and blocks: "\<forall>f \<in> set (skb_frags skb). frag_offset f + frag_size f \<le> PAGE_SIZE * 2 ^ frag_order f"
  defines "i \<equiv> req_prod_pvt (tx s)" and "n \<equiv> length (more_pieces skb)"
  defines "j \<equiv> i + of_nat (extra_slots skb) + 1"
  defines "fin \<equiv> finish (first_req skb x y # rest_reqs skb xs ys)"
  shows "\<exists>t. xmit_requests skb s = Some t \<and> tx t = (tx s)\<lparr>req_prod_pvt := j + of_nat n\<rparr> \<and>
    req_prod (txs t) = j + of_nat n \<and> rsp_prod (txs t) = rsp_prod (txs s) \<and> length (ring (txs t)) = 256 \<and>
    RING_GET_REQUEST 256 (txs t) i = Some (Tx ((hd fin)\<lparr>tx_size := of_nat (skb_len skb)\<rparr>)) \<and>
    (skb_is_gso skb \<longrightarrow> RING_GET_REQUEST 256 (txs t) (i + 1) = Some (Extra (gso_extra skb))) \<and>
    map (RING_GET_REQUEST 256 (txs t)) (idxs j n) = map (Some \<circ> Tx) (tl fin) \<and>
    (\<exists>h. t = (send_pieces skb (head_piece skb # more_pieces skb) (x # xs) (y # ys) s)
      \<lparr>txs := txs t, tx := tx t, notified := h\<rparr>) \<and> tx_free xs' t \<and> tx_refs ys' t"
proof -
  let ?m = "head_mfn skb 0" and ?off = "head_offset skb mod PAGE_SIZE"
  let ?u = "piece_req (?m, ?off, head_len skb) x y" and ?s0 = "sent_piece skb ?m x y s"
  let ?fl = "tx_csum_flags skb OR (if skb_is_gso skb then XEN_NETTXF_extra_info else 0)"
  let ?t1 = "?u\<lparr>tx_flags := ?fl\<rparr>"
  define r where "r = (if skb_is_gso skb then ring_put 256 (i + 1) (Req (Extra (gso_extra skb))) (txs s) else txs s)"
  define s1 where "s1 = ?s0\<lparr>txs := r, tx := (tx s)\<lparr>req_prod_pvt := j\<rparr>\<rparr>"
  define s2 where "s2 = send_pieces skb (more_pieces skb) xs ys s1"
  have p0: "tx_piece skb ?m ?off (head_len skb) s = Some (?u, ?s0)" and f0: "tx_free (xs @ xs') ?s0" and r0: "tx_refs (ys @ ys') ?s0"
    using tx_piece_ok [OF free refs] by simp_all
  have "tx_free (xs @ xs') s1" "tx_refs (ys @ ys') s1"
    using f0 r0 by (simp_all add: s1_def tx_free_def tx_refs_def tx_next_def [abs_def] is_free_def)
  from take_pieces_ok [OF len(1) [symmetric] len(2) [symmetric] this, of skb]
  have take: "take_pieces skb (more_pieces skb) s1 = Some (rest_reqs skb xs ys, s2)" and f2: "tx_free xs' s2" and r2: "tx_refs ys' s2"
    by (simp_all add: s2_def rest_reqs_def)
  have size: "?t1\<lparr>tx_size := of_nat (snd (snd (head_piece skb)))\<rparr> = first_req skb x y"
    by (simp add: first_req_def piece_req_def head_piece_def)
  let ?all = "send_pieces skb (head_piece skb # more_pieces skb) (x # xs) (y # ys) s"
  have s2: "s2 = ?all\<lparr>txs := r, tx := (tx s)\<lparr>req_prod_pvt := j\<rparr>\<rparr>"
    unfolding s2_def s1_def send_pieces_ring by (simp add: head_piece_def)
  define w where "w = write_slots 256 (zip (i # idxs j n) (map Tx fin)) r"
  have frags: "xennet_make_frags skb i ?t1 s1 = Some (s2\<lparr>txs := w, tx := (tx s2)\<lparr>req_prod_pvt := j + of_nat n\<rparr>\<rparr>)"
    using xennet_make_frags_emit [OF blocks, of ?t1 i s1] take size
    by (simp add: piece_req_def w_def fin_def n_def s1_def ring)
  have lr: "length (ring r) = 256" by (simp add: r_def ring)
  have slots: "\<forall>k. ring_slot 256 k < length (ring r)" using slot_pos by (simp add: lr)
  have fl: "length fin = Suc n" using len by (simp add: fin_def rest_reqs_def n_def)
  have all: "i # (if skb_is_gso skb then [i + 1] else []) @ idxs j n = idxs i (Suc (extra_slots skb + n))"
    by (simp add: extra_slots_def j_def add.assoc)
  have dist: "distinct (map (ring_slot 256) (i # (if skb_is_gso skb then [i + 1] else []) @ idxs j n))"
    unfolding all using room by (intro slots_distinct) (simp add: extra_slots_def n_def)
  have fsts: "map fst (zip (i # idxs j n) (map Tx fin)) = i # idxs j n" using fl by simp
  have snds: "map snd (zip (i # idxs j n) (map Tx fin)) = map Tx fin" using fl by simp
  have "distinct (map (ring_slot 256) (i # idxs j n))" using dist by (auto split: if_splits)
  then have read: "map (RING_GET_REQUEST 256 w) (i # idxs j n) = map Some (map Tx fin)"
    using write_slots_same [OF slots, of "zip (i # idxs j n) (map Tx fin)"]
    unfolding w_def fsts by (simp only: map_map [symmetric] fsts snds)
  obtain q qs where fin: "fin = q # qs" "length qs = n" using fl by (cases fin) auto
  have at_i: "RING_GET_REQUEST 256 w i = Some (Tx q)" and rest: "map (RING_GET_REQUEST 256 w) (idxs j n) = map (Some \<circ> Tx) qs"
    using read fin by simp_all
  let ?q = "q\<lparr>tx_size := of_nat (skb_len skb)\<rparr>"
  define f where "f = (ring_put 256 i (Req (Tx ?q)) w)\<lparr>req_prod := j + of_nat n\<rparr>"
  have lw: "length (ring w) = 256" by (simp add: w_def lr)
  have get: "RING_GET_REQUEST 256 f k = (if ring_slot 256 k = ring_slot 256 i then Some (Tx ?q) else RING_GET_REQUEST 256 w k)" for k
    using tx_at_put [of 256 i w "Tx ?q" k] slot_pos by (simp add: f_def lw RING_GET_REQUEST_def)
  obtain h where run: "xmit_requests skb s = Some (s2\<lparr>txs := f, tx := (tx s)\<lparr>req_prod_pvt := j + of_nat n\<rparr>, notified := h\<rparr>)"
  proof -
    have t2: "tx s2 = (tx s)\<lparr>req_prod_pvt := j\<rparr>" by (simp add: s2)
    have "xmit_requests skb s = (case xennet_make_frags skb i ?t1 s1 of None \<Rightarrow> None
        | Some s \<Rightarrow>
            (case RING_GET_REQUEST (f_nr_ents (tx s)) (txs s) i of
               Some (Tx t) \<Rightarrow>
                 let s = put_tx i (Tx (t\<lparr>tx_size := of_nat (skb_len skb)\<rparr>)) s
                 in (case RING_PUSH_REQUESTS_AND_CHECK_NOTIFY (tx s) (txs s) of (notify, sr) \<Rightarrow>
                       let s = s\<lparr>txs := sr\<rparr> in Some (if notify then s\<lparr>notified := notified s + 1\<rparr> else s))
             | _ \<Rightarrow> None))"
      unfolding xmit_requests_def p0 i_def [symmetric]
      by (cases "skb_is_gso skb")
        (simp_all add: Let_def s1_def r_def put_tx_def j_def extra_slots_def sent_piece_def piece_req_def ring add.assoc)
    also have "\<dots> = (let s = put_tx i (Tx ?q) (s2\<lparr>txs := w, tx := (tx s2)\<lparr>req_prod_pvt := j + of_nat n\<rparr>\<rparr>)
                 in (case RING_PUSH_REQUESTS_AND_CHECK_NOTIFY (tx s) (txs s) of (notify, sr) \<Rightarrow>
                       let s = s\<lparr>txs := sr\<rparr> in Some (if notify then s\<lparr>notified := notified s + 1\<rparr> else s)))"
      by (simp add: frags t2 at_i ring)
    also have "\<dots> = Some (s2\<lparr>txs := f, tx := (tx s)\<lparr>req_prod_pvt := j + of_nat n\<rparr>, notified :=
        if fst (RING_PUSH_REQUESTS_AND_CHECK_NOTIFY ((tx s)\<lparr>req_prod_pvt := j + of_nat n\<rparr>) (ring_put 256 i (Req (Tx ?q)) w))
        then notified s2 + 1 else notified s2\<rparr>)"
      by (simp add: put_tx_def t2 ring RING_PUSH_REQUESTS_AND_CHECK_NOTIFY_def Let_def f_def)
    finally show thesis by (rule that)
  qed
  let ?t = "s2\<lparr>txs := f, tx := (tx s)\<lparr>req_prod_pvt := j + of_nat n\<rparr>, notified := h\<rparr>"
  have other: "ring_slot 256 k \<noteq> ring_slot 256 i" if "k \<in> set (idxs j n)" for k
  proof -
    have "ring_slot 256 i \<notin> ring_slot 256 ` set (idxs j n)" using dist by auto
    then show ?thesis using that by (metis image_eqI)
  qed
  have extra: "RING_GET_REQUEST 256 f (i + 1) = Some (Extra (gso_extra skb))" if "skb_is_gso skb"
  proof -
    have ne: "\<forall>k \<in> set (i # idxs j n). ring_slot 256 (i + 1) \<noteq> ring_slot 256 k"
    proof -
      have "ring_slot 256 (i + 1) \<notin> ring_slot 256 ` set (idxs j n)" "ring_slot 256 i \<noteq> ring_slot 256 (i + 1)"
        using dist that by auto
      then show ?thesis by (metis image_eqI set_ConsD)
    qed
    have "\<forall>(k, v) \<in> set (zip (i # idxs j n) (map Tx fin)). ring_slot 256 (i + 1) \<noteq> ring_slot 256 k"
      using ne set_zip_leftD by fastforce
    then have "RING_GET_REQUEST 256 w (i + 1) = RING_GET_REQUEST 256 r (i + 1)"
      unfolding w_def by (rule write_slots_other [OF slots])
    moreover have "RING_GET_REQUEST 256 r (i + 1) = Some (Extra (gso_extra skb))"
      using that tx_at_put [of 256 "i + 1" "txs s" "Extra (gso_extra skb)" "i + 1"] slot_pos by (simp add: r_def ring)
    ultimately show ?thesis using get [of "i + 1"] ne by simp
  qed
  have more: "map (RING_GET_REQUEST 256 f) (idxs j n) = map (Some \<circ> Tx) (tl fin)"
  proof -
    have "map (RING_GET_REQUEST 256 f) (idxs j n) = map (RING_GET_REQUEST 256 w) (idxs j n)"
      using other by (intro map_cong refl) (simp add: get)
    then show ?thesis using rest fin by simp
  qed
  have rp: "rsp_prod f = rsp_prod (txs s)" "length (ring f) = 256"
    by (simp_all add: f_def ring_put_def w_def r_def ring)
  have t: "?t = ?all\<lparr>txs := f, tx := (tx s)\<lparr>req_prod_pvt := j + of_nat n\<rparr>, notified := h\<rparr>"
    by (simp add: s2)
  have res: "tx_free xs' ?t" "tx_refs ys' ?t"
    using f2 r2 by (simp_all add: tx_free_def tx_refs_def tx_next_def [abs_def] is_free_def)
  have rpf: "req_prod f = j + of_nat n" by (simp add: f_def)
  have ti: "RING_GET_REQUEST 256 f i = Some (Tx ((hd fin)\<lparr>tx_size := of_nat (skb_len skb)\<rparr>))" using get [of i] fin by simp
  have al: "\<exists>h. ?t = ?all\<lparr>txs := txs ?t, tx := tx ?t, notified := h\<rparr>"
    by (rule exI [of _ h]) (use t in simp)
  show ?thesis
    by (intro exI [of _ ?t] conjI run al res impI) (use rpf rp ti extra more in simp_all)
qed


lemma map_triple: "map (\<lambda>p. (f p, g p, h p)) xs = zip (map f xs) (zip (map g xs) (map h xs))"
  by (induction xs) auto

lemma rest_fields:
  assumes "length xs = length (more_pieces skb)" and "length ys = length (more_pieces skb)"
  shows "map tx_gref (rest_reqs skb xs ys) = ys" "map tx_offset (rest_reqs skb xs ys) = map (\<lambda>p. of_nat (fst (snd p))) (more_pieces skb)"
    "map tx_size (rest_reqs skb xs ys) = map (\<lambda>p. of_nat (snd (snd p))) (more_pieces skb)"
    "\<forall>q \<in> set (rest_reqs skb xs ys). tx_flags q = 0"
proof -
  have "length xs = length ps \<Longrightarrow> length ys = length ps \<Longrightarrow>
      map tx_gref (map2 (\<lambda>p (x, y). piece_req p x y) ps (zip xs ys)) = ys \<and>
      map tx_offset (map2 (\<lambda>p (x, y). piece_req p x y) ps (zip xs ys)) = map (\<lambda>p. of_nat (fst (snd p))) ps \<and>
      map tx_size (map2 (\<lambda>p (x, y). piece_req p x y) ps (zip xs ys)) = map (\<lambda>p. of_nat (snd (snd p))) ps \<and>
      (\<forall>q \<in> set (map2 (\<lambda>p (x, y). piece_req p x y) ps (zip xs ys)). tx_flags q = 0)" for ps
  proof (induction ps arbitrary: xs ys)
    case (Cons p ps)
    then show ?case by (cases xs; cases ys) (auto simp: piece_req_def split: prod.splits)
  qed simp
  from this [OF assms] show "map tx_gref (rest_reqs skb xs ys) = ys"
    "map tx_offset (rest_reqs skb xs ys) = map (\<lambda>p. of_nat (fst (snd p))) (more_pieces skb)"
    "map tx_size (rest_reqs skb xs ys) = map (\<lambda>p. of_nat (snd (snd p))) (more_pieces skb)"
    "\<forall>q \<in> set (rest_reqs skb xs ys). tx_flags q = 0"
    unfolding rest_reqs_def by blast+
qed

lemma unat16 [simp]: "n < 65536 \<Longrightarrow> unat (of_nat n :: u16) = n"
  by (simp add: unat_of_nat take_bit_nat_eq_self_iff)

lemma first_flags:
  "tx_flags (first_req skb x y) AND XEN_NETTXF_more_data = 0"
  "tx_flags (first_req skb x y) AND XEN_NETTXF_extra_info \<noteq> 0 \<longleftrightarrow> skb_is_gso skb"
  "(tx_flags (first_req skb x y) OR XEN_NETTXF_more_data) AND XEN_NETTXF_extra_info \<noteq> 0 \<longleftrightarrow> skb_is_gso skb"
  by (auto simp: first_req_def tx_csum_flags_def XEN_NETTXF_more_data_def XEN_NETTXF_extra_info_def
      XEN_NETTXF_csum_blank_def XEN_NETTXF_data_validated_def)

lemma xmit_backend_reads:
  fixes x y :: nat and i :: ring_idx
  assumes len: "length xs = length (more_pieces skb)" "length ys = length (more_pieces skb)"
    and small: "length (more_pieces skb) \<le> 256"
  defines "fin \<equiv> finish (first_req skb x y # rest_reqs skb xs ys)" and "n \<equiv> length (more_pieces skb)"
  defines "q \<equiv> (hd fin)\<lparr>tx_size := of_nat (skb_len skb)\<rparr>" and "j \<equiv> i + of_nat (extra_slots skb) + 1"
  assumes at_i: "RING_GET_REQUEST 256 sr i = Some (Tx q)"
    and ex: "skb_is_gso skb \<longrightarrow> RING_GET_REQUEST 256 sr (i + 1) = Some (Extra (gso_extra skb))"
    and more: "map (RING_GET_REQUEST 256 sr) (idxs j n) = map (Some \<circ> Tx) (tl fin)"
  shows "backend_reads 256 sr i =
    Some (q, if skb_is_gso skb then Some (gso_extra skb) else None, tl fin, j + of_nat n)"
proof (cases "rest_reqs skb xs ys")
  case Nil
  moreover have "length (rest_reqs skb xs ys) = n" using len by (simp add: rest_reqs_def n_def)
  ultimately have "n = 0" "fin = [first_req skb x y]" by (simp_all add: fin_def)
  then show ?thesis using at_i ex first_flags [of skb x y]
    by (simp add: backend_reads_def Let_def q_def j_def extra_slots_def)
next
  case (Cons u us)
  let ?r = "rest_reqs skb xs ys"
  have fin: "fin = (first_req skb x y)\<lparr>tx_flags := tx_flags (first_req skb x y) OR XEN_NETTXF_more_data\<rparr> # finish ?r"
    by (simp add: fin_def Cons)
  have lr: "length (finish ?r) = n" using len by (simp add: rest_reqs_def n_def)
  have ne: "finish ?r \<noteq> []" using Cons length_finish [of ?r] by (metis length_0_conv list.distinct(1))
  have "last ?r \<in> set ?r" by (rule last_in_set) (simp add: Cons)
  then have last: "tx_flags (last (finish ?r)) = 0" using rest_fields(4) [OF len] Cons last_finish [of ?r] by simp
  have rd: "read_more 256 sr 256 j = Some (finish ?r, j + of_nat n)"
  proof -
    have "map (RING_GET_REQUEST 256 sr) (idxs j (length (finish ?r))) = map (Some \<circ> Tx) (finish ?r)"
      using more unfolding lr fin list.sel .
    moreover have "\<forall>q \<in> set (butlast (finish ?r)). tx_flags q AND XEN_NETTXF_more_data \<noteq> 0" using finish_more by blast
    moreover have "tx_flags (last (finish ?r)) AND XEN_NETTXF_more_data = 0" unfolding last by simp
    moreover have "length (finish ?r) \<le> 256" using small unfolding lr n_def .
    ultimately show ?thesis using read_more_ok ne lr by metis
  qed
  have j: "j = (if skb_is_gso skb then i + 2 else i + 1)" by (simp add: j_def extra_slots_def add.assoc)
  show ?thesis using at_i ex rd first_flags [of skb x y]
    by (cases "skb_is_gso skb") (simp_all add: backend_reads_def Let_def q_def fin j)
qed

lemma xmit_bytes:
  fixes x y :: nat
  assumes len: "length xs = length (more_pieces skb)" "length ys = length (more_pieces skb)"
    and fits: "skb_len skb \<le> XEN_NETIF_MAX_TX_SIZE"
    and sh: "map (shared g) (y # ys) = map (\<lambda>(m, _). entry_for dmn GTF_readonly m) (head_piece skb # more_pieces skb)"
  defines "fin \<equiv> finish (first_req skb x y # rest_reqs skb xs ys)"
  defines "q \<equiv> (hd fin)\<lparr>tx_size := of_nat (skb_len skb)\<rparr>"
  shows "received_bytes g q (tl fin) = packet_bytes skb" and "unat (tx_size q) = skb_len skb"
    and "map tx_gref (q # tl fin) = y # ys"
proof -
  have ff: "map tx_gref fin = y # ys" "map tx_offset fin = map (\<lambda>p. of_nat (fst (snd p))) (head_piece skb # more_pieces skb)"
    "map tx_size fin = map (\<lambda>p. of_nat (snd (snd p))) (head_piece skb # more_pieces skb)"
    unfolding fin_def finish_fields using rest_fields [OF len] by (simp_all add: first_req_def piece_req_def head_piece_def)
  then have ne: "fin \<noteq> []" by auto
  then have fin: "fin = hd fin # tl fin" by simp
  have hd: "tx_gref q = y" "tx_offset q = of_nat (fst (snd (head_piece skb)))"
    and tl: "map tx_gref (tl fin) = ys" "map tx_offset (tl fin) = map (\<lambda>p. of_nat (fst (snd p))) (more_pieces skb)"
      "map tx_size (tl fin) = map (\<lambda>p. of_nat (snd (snd p))) (more_pieces skb)"
    using ff by (subst (asm) (1 2 3) fin, simp add: q_def)+
  show "map tx_gref (q # tl fin) = y # ys" using hd tl by simp
  show sz: "unat (tx_size q) = skb_len skb" using fits by (simp add: q_def XEN_NETIF_MAX_TX_SIZE_def)
  have off: "unat (of_nat (fst (snd (head_piece skb))) :: u16) = fst (snd (head_piece skb))"
    using mod_less_divisor [OF PAGE_SIZE_pos, of "head_offset skb"] by (simp add: head_piece_def PAGE_SIZE_def)
  have small: "fst (snd p) < 65536 \<and> snd (snd p) < 65536" if "p \<in> set (more_pieces skb)" for p
    using that more_pieces_sizes [of "fst p" "fst (snd p)" "snd (snd p)" skb] by (simp add: PAGE_SIZE_def)
  have sizes: "map (\<lambda>p. unat (tx_size p)) (tl fin) = map (snd \<circ> snd) (more_pieces skb)"
  proof -
    have "map (\<lambda>p. unat (tx_size p)) (tl fin) = map unat (map tx_size (tl fin))" by simp
    also have "\<dots> = map (snd \<circ> snd) (more_pieces skb)" unfolding tl using small by simp
    finally show ?thesis .
  qed
  have offs: "map (\<lambda>p. unat (tx_offset p)) (tl fin) = map (fst \<circ> snd) (more_pieces skb)"
  proof -
    have "map (\<lambda>p. unat (tx_offset p)) (tl fin) = map unat (map tx_offset (tl fin))" by simp
    also have "\<dots> = map (fst \<circ> snd) (more_pieces skb)" unfolding tl using small by simp
    finally show ?thesis .
  qed
  have frames: "map (\<lambda>p. frame (shared g (tx_gref p))) (tl fin) = map fst (more_pieces skb)"
  proof -
    have "map (\<lambda>p. frame (shared g (tx_gref p))) (tl fin) = map frame (map (shared g) (map tx_gref (tl fin)))" by simp
    also have "\<dots> = map fst (more_pieces skb)" unfolding tl using sh by (simp add: split_def entry_for_def)
    finally show ?thesis .
  qed
  have "map (\<lambda>p. (frame (shared g (tx_gref p)), unat (tx_offset p), unat (tx_size p))) (tl fin) = more_pieces skb"
    unfolding map_triple sizes offs frames by (simp flip: map_triple)
  then have rest: "concat (map (\<lambda>p. granted_bytes g p (unat (tx_size p))) (tl fin)) = concat (map piece_bytes (more_pieces skb))"
    unfolding granted_bytes_def by (metis (no_types, lifting) list.map_comp comp_def map_eq_conv)
  have "(\<Sum>p \<leftarrow> tl fin. unat (tx_size p)) = (\<Sum>(m, off, n) \<leftarrow> more_pieces skb. n)"
    unfolding sizes by (simp add: comp_def split_def)
  then have "unat (tx_size q) - (\<Sum>p \<leftarrow> tl fin. unat (tx_size p)) = snd (snd (head_piece skb))"
    using pieces_sum [of skb] sz by simp
  moreover have "frame (shared g y) = fst (head_piece skb)" using sh by (simp add: split_def entry_for_def)
  ultimately have "granted_bytes g q (unat (tx_size q) - (\<Sum>p \<leftarrow> tl fin. unat (tx_size p))) = piece_bytes (head_piece skb)"
    using hd off by (simp add: granted_bytes_def)
  then show "received_bytes g q (tl fin) = packet_bytes skb"
    using rest packet_pieces [of skb] by (simp add: received_bytes_def)
qed

section \<open>A packet as the backend reads it\<close>

lemma send_pieces_ok:
  fixes skb :: sk_buff
  assumes inv: "tx_ok (xs @ xs') (ys @ ys') s" and ls: "length xs = length ps" "length ys = length ps"
  defines "u \<equiv> send_pieces skb ps xs ys s"
  assumes t: "t = u\<lparr>txs := r, tx := f, notified := h\<rparr>" and r: "length (ring r) = 256" "f_nr_ents f = 256"
    and res: "tx_free xs' t" "tx_refs ys' t"
  shows "tx_ok xs' ys' t" and "grant_tx_ref t ` tx_in_use t \<union> set ys' = grant_tx_ref s ` tx_in_use s \<union> set (ys @ ys')"
proof -
  have free: "tx_free (xs @ xs') s" and refs: "tx_refs (ys @ ys') s" and len: "length (xs @ xs') = length (ys @ ys')"
    and old_inj: "inj_on (grant_tx_ref s) (tx_in_use s)" and apart: "grant_tx_ref s ` tx_in_use s \<inter> set (ys @ ys') = {}"
    and val: "\<And>i. i \<in> tx_in_use s \<Longrightarrow> grant_tx_ref s i \<in> gnt_refs (ngnt s) \<and> grant_tx_ref s i < 2 ^ 15"
    and gf: "(grant_tx_ref s ` tx_in_use s \<union> set (ys @ ys')) \<inter> set (gnt_free (ngnt s)) = {}" and gi: "gnt_inv (ngnt s)"
    using inv unfolding tx_ok_def by blast+
  have dy: "distinct (ys @ ys')" "set (ys @ ys') \<subseteq> gnt_refs (ngnt s)" "\<forall>y \<in> set (ys @ ys'). y < 2 ^ 15"
    using refs unfolding tx_refs_def by blast+
  have dx: "distinct (xs @ xs')" "set (xs @ xs') = {i \<in> tx_ids. is_free s i}" using free unfolding tx_free_def by blast+
  have "0 \<notin> tx_ids" by (simp add: tx_ids_def)
  then have x0: "0 \<notin> set xs" using dx(2) by auto
  have m: "map (grant_tx_ref u) xs = ys" "\<And>i. i \<notin> set xs \<Longrightarrow> grant_tx_ref u i = grant_tx_ref s i"
    "\<And>i. i \<notin> set xs \<Longrightarrow> i \<noteq> 0 \<Longrightarrow> tx_skbs u i = tx_skbs s i" "\<And>i. i \<in> set xs \<Longrightarrow> tx_skbs u i = Skb skb"
    using send_pieces_maps [OF ls(1) [symmetric] ls(2) [symmetric] _ _ x0, of skb s, folded u_def] dx(1) dy(1) by auto
  obtain h' g where fr: "u = s\<lparr>tx_skbs := tx_skbs u, gref_tx_head := h', ngnt := (ngnt s)\<lparr>shared := g\<rparr>, grant_tx_ref := grant_tx_ref u\<rparr>"
    using send_pieces_frame [of skb ps xs ys s, folded u_def] by blast
  have nt: "ngnt t = (ngnt s)\<lparr>shared := g\<rparr>" unfolding t by (subst fr) simp
  have gt: "grant_tx_ref t = grant_tx_ref u" "tx_skbs t = tx_skbs u" by (simp_all add: t)
  have "i \<in> tx_in_use t \<longleftrightarrow> i \<in> set xs \<union> tx_in_use s" for i
  proof (cases "i \<in> set xs")
    case True
    then have "i \<in> tx_ids" using dx(2) by auto
    then show ?thesis using True m(4) by (simp add: tx_in_use_def is_free_def gt)
  next
    case False
    then show ?thesis using m(3) [of i] \<open>0 \<notin> tx_ids\<close> by (cases "i = 0") (auto simp: tx_in_use_def is_free_def gt)
  qed
  then have use: "tx_in_use t = set xs \<union> tx_in_use s" by blast
  have dis: "set xs \<inter> tx_in_use s = {}" using dx(2) by (auto simp: tx_in_use_def)
  have im_new: "grant_tx_ref t ` set xs = set ys" using m(1) gt by (metis set_map)
  have im_old: "grant_tx_ref t ` tx_in_use s = grant_tx_ref s ` tx_in_use s"
    using m(2) dis gt by (intro image_cong refl) auto
  have im: "grant_tx_ref t ` tx_in_use t = set ys \<union> grant_tx_ref s ` tx_in_use s" unfolding use image_Un im_new im_old ..
  have "inj_on (grant_tx_ref t) (set xs)" using m(1) dy(1) gt distinct_map [of "grant_tx_ref u" xs] by simp
  moreover have "inj_on (grant_tx_ref t) (tx_in_use s)" using old_inj m(2) dis gt by (subst inj_on_cong [of _ _ "grant_tx_ref s"]) auto
  moreover have "set ys \<inter> grant_tx_ref s ` tx_in_use s = {}" using apart by auto
  ultimately have inj: "inj_on (grant_tx_ref t) (tx_in_use t)"
    unfolding use inj_on_Un using im_new im_old dis by (metis Diff_triv Int_commute)
  have vals: "\<forall>i \<in> tx_in_use t. grant_tx_ref t i \<in> gnt_refs (ngnt t) \<and> grant_tx_ref t i < 2 ^ 15"
  proof
    fix i assume "i \<in> tx_in_use t"
    then have "grant_tx_ref t i \<in> set ys \<union> grant_tx_ref s ` tx_in_use s" using im by blast
    then show "grant_tx_ref t i \<in> gnt_refs (ngnt t) \<and> grant_tx_ref t i < 2 ^ 15"
      using dy(2,3) val unfolding nt by auto
  qed
  show "grant_tx_ref t ` tx_in_use t \<union> set ys' = grant_tx_ref s ` tx_in_use s \<union> set (ys @ ys')" unfolding im by auto
  have "set ys \<inter> set ys' = {}" using dy(1) by simp
  then have ap: "grant_tx_ref t ` tx_in_use t \<inter> set ys' = {}" unfolding im using apart by auto
  have gf': "(grant_tx_ref t ` tx_in_use t \<union> set ys') \<inter> set (gnt_free (ngnt t)) = {}" unfolding im nt using gf by auto
  show "tx_ok xs' ys' t" unfolding tx_ok_def
    using gi nt res len ls inj vals ap gf' r by (simp add: t)
qed

lemma network_room:
  assumes "tx_ok xs ys s" and "netfront_tx_slot_available s" and "card (tx_in_use s) \<le> outstanding s"
    and "PFN_UP (head_offset skb mod PAGE_SIZE + head_len skb) + xennet_count_skb_frag_slots skb \<le> MAX_SKB_FRAGS + 1"
  shows "length (more_pieces skb) + 1 \<le> 19" "20 \<le> length xs" "outstanding s < 237"
proof -
  show "length (more_pieces skb) + 1 \<le> 19" using more_pieces_length [of skb] assms(4) by (simp add: MAX_SKB_FRAGS_def)
  show o: "outstanding s < 237"
    using assms(2) by (simp add: netfront_tx_slot_available_def outstanding_def net_consts word_less_nat_alt)
  have "tx_free xs s" using assms(1) unfolding tx_ok_def by blast
  from tx_in_use_free [OF this] show "20 \<le> length xs" using o assms(3) by simp
qed

text \<open>
  C15: Sending a packet. While the queue is not stopped there is always room: every packet that
  passes the checks of \<open>network_start_xmit\<close> finds the ids, the references and the ring slots it
  needs. What the backend then reads from the ring, following the protocol and the references,
  is exactly the packet, byte by byte in order, with its length and its segmentation request,
  readable and not writable; the ring is not overrun, and the bookkeeping stays consistent.
\<close>

theorem xmit_requests_decodes:
  assumes ok: "tx_ok xs ys s" and avail: "netfront_tx_slot_available s" "card (tx_in_use s) \<le> outstanding s"
    and slots: "PFN_UP (head_offset skb mod PAGE_SIZE + head_len skb) + xennet_count_skb_frag_slots skb \<le> MAX_SKB_FRAGS + 1"
    and fits: "skb_len skb \<le> XEN_NETIF_MAX_TX_SIZE"
    and blocks: "\<forall>f \<in> set (skb_frags skb). frag_offset f + frag_size f \<le> PAGE_SIZE * 2 ^ frag_order f"
  shows "\<exists>t q qs n. xmit_requests skb s = Some t \<and>
    backend_reads 256 (txs t) (req_prod_pvt (tx s)) =
      Some (q, if skb_is_gso skb then Some (gso_extra skb) else None, qs, req_prod (txs t)) \<and>
    received_bytes (ngnt t) q qs = packet_bytes skb \<and> unat (tx_size q) = skb_len skb \<and>
    (\<forall>r \<in> tx_gref ` set (q # qs). flags (shared (ngnt t) r) = GTF_permit_access OR GTF_readonly \<and>
       domid (shared (ngnt t) r) = otherend s) \<and>
    req_prod (txs t) = req_prod_pvt (tx t) \<and> outstanding t \<le> 256 \<and>
    tx_ok (drop n xs) (drop n ys) t \<and> card (tx_in_use t) \<le> outstanding t"
proof -
  define N where "N = length (more_pieces skb)"
  note room = network_room [OF ok avail slots]
  have lens: "length xs = length ys" and free: "tx_free xs s" and refs: "tx_refs ys s"
    and ring: "f_nr_ents (tx s) = 256" "length (ring (txs s)) = 256"
    using ok unfolding tx_ok_def by blast+
  have "length (take (Suc N) xs) = Suc N" "length (take (Suc N) ys) = Suc N" using room lens N_def by simp_all
  then obtain x xs1 y ys1 where xs: "take (Suc N) xs = x # xs1" "length xs1 = N" and ys: "take (Suc N) ys = y # ys1" "length ys1 = N"
    by (metis length_Suc_conv)
  let ?xs' = "drop (Suc N) xs" and ?ys' = "drop (Suc N) ys" and ?ps = "head_piece skb # more_pieces skb"
  let ?all = "send_pieces skb ?ps (x # xs1) (y # ys1) s" and ?i = "req_prod_pvt (tx s)"
  let ?fin = "finish (first_req skb x y # rest_reqs skb xs1 ys1)" and ?e = "extra_slots skb"
  let ?q = "(hd ?fin)\<lparr>tx_size := of_nat (skb_len skb)\<rparr>" and ?j = "?i + of_nat ?e + 1"
  have split: "xs = (x # xs1) @ ?xs'" "ys = (y # ys1) @ ?ys'" by (metis append_take_drop_id xs(1), metis append_take_drop_id ys(1))
  have fr: "tx_free (x # xs1 @ ?xs') s" "tx_refs (y # ys1 @ ?ys') s" using free refs split by (metis append_Cons)+
  have l1: "length xs1 = length (more_pieces skb)" "length ys1 = length (more_pieces skb)" using xs ys N_def by simp_all
  have rm: "length (more_pieces skb) + 2 \<le> 256" using room by simp
  obtain t h where run: "xmit_requests skb s = Some t" and t_tx: "tx t = (tx s)\<lparr>req_prod_pvt := ?j + of_nat N\<rparr>"
    and rp: "req_prod (txs t) = ?j + of_nat N" and lr: "length (ring (txs t)) = 256"
    and ats: "RING_GET_REQUEST 256 (txs t) ?i = Some (Tx ?q)"
      "skb_is_gso skb \<longrightarrow> RING_GET_REQUEST 256 (txs t) (?i + 1) = Some (Extra (gso_extra skb))"
      "map (RING_GET_REQUEST 256 (txs t)) (idxs ?j N) = map (Some \<circ> Tx) (tl ?fin)"
    and t: "t = ?all\<lparr>txs := txs t, tx := tx t, notified := h\<rparr>" and res: "tx_free ?xs' t" "tx_refs ?ys' t"
    using xmit_requests_run [OF fr l1 rm ring blocks] unfolding N_def by blast
  have reads: "backend_reads 256 (txs t) ?i = Some (?q, if skb_is_gso skb then Some (gso_extra skb) else None, tl ?fin, req_prod (txs t))"
    using xmit_backend_reads [OF l1 _ ats(1,2)] ats(3) rm rp unfolding N_def by simp
  have "distinct (x # xs1 @ ?xs')" "set (x # xs1 @ ?xs') \<subseteq> tx_ids" "distinct (y # ys1 @ ?ys')"
    using fr unfolding tx_free_def tx_refs_def by blast+
  then have d: "distinct (x # xs1)" "distinct (y # ys1)" "0 \<notin> set (x # xs1)" by (auto simp: tx_ids_def)
  have lps: "length ?ps = length (x # xs1)" "length ?ps = length (y # ys1)" using l1 by simp_all
  have nt: "ngnt t = ngnt ?all" by (subst t) simp
  have sh: "map (shared (ngnt t)) (y # ys1) = map (\<lambda>(m, _). entry_for (otherend s) GTF_readonly m) ?ps"
    unfolding nt using send_pieces_maps [OF lps d, of skb s] by blast
  note bytes = xmit_bytes [OF l1 fits sh, of x]
  have acc: "\<forall>r \<in> tx_gref ` set (?q # tl ?fin). flags (shared (ngnt t) r) = GTF_permit_access OR GTF_readonly \<and>
       domid (shared (ngnt t) r) = otherend s"
  proof
    fix r assume "r \<in> tx_gref ` set (?q # tl ?fin)"
    then have "r \<in> set (map tx_gref (?q # tl ?fin))" by (simp only: set_map)
    then have "shared (ngnt t) r \<in> set (map (shared (ngnt t)) (y # ys1))" unfolding bytes(3) set_map by (rule imageI)
    then show "flags (shared (ngnt t) r) = GTF_permit_access OR GTF_readonly \<and> domid (shared (ngnt t) r) = otherend s"
      unfolding sh by (auto simp: entry_for_def split: prod.splits)
  qed
  have out: "outstanding t = outstanding s + ?e + 1 + N"
  proof -
    define k where "k = ?e + 1 + N"
    have k: "outstanding s + k \<le> 256" using room by (simp add: k_def N_def extra_slots_def)
    have eq: "?j + of_nat N - rsp_cons (tx s) = (?i - rsp_cons (tx s)) + of_nat k" by (simp add: k_def)
    have "unat (of_nat k :: u32) = k" using k by (intro unat_of_nat32) simp
    then have "unat ((?i - rsp_cons (tx s)) + of_nat k) = unat (?i - rsp_cons (tx s)) + k"
      using k by (subst unat_plus_if') (simp_all add: outstanding_def)
    moreover have "req_prod_pvt (tx t) = ?j + of_nat N" "rsp_cons (tx t) = rsp_cons (tx s)" by (simp_all add: t_tx)
    ultimately have "outstanding t = outstanding s + k" unfolding outstanding_def using eq by metis
    then show ?thesis by (simp add: k_def)
  qed
  have ok': "tx_ok ((x # xs1) @ ?xs') ((y # ys1) @ ?ys') s" using ok split by metis
  have tok: "tx_ok ?xs' ?ys' t"
    by (rule send_pieces_ok(1) [OF ok' lps(1) [symmetric] lps(2) [symmetric] t lr _ res]) (simp add: t_tx ring)
  have "card (tx_in_use t) + length ?xs' = 256" "card (tx_in_use s) + length xs = 256"
    using tx_in_use_free res(1) free by blast+
  then have card: "card (tx_in_use t) \<le> outstanding t" "outstanding t \<le> 256"
    using out avail(2) room N_def by (simp_all add: extra_slots_def)
  show ?thesis
    by (intro exI [of _ t] exI [of _ ?q] exI [of _ "tl ?fin"] exI [of _ "Suc N"] conjI run reads bytes(1,2) acc tok card)
      (simp add: rp t_tx)
qed


text \<open>A packet, and a table with the references of both rings in reserve.\<close>

definition net_gnt_example :: gnttab where
  "net_gnt_example =
     gnt_example\<lparr>gnttab_list := (\<lambda>p. if p = 0 then Some (\<lambda>i. if i \<in> {99, 355, 655} then GNTTAB_LIST_END else i + 1) else None),
       nr_grant_frames := 2, gnttab_free_count := 92\<rparr>"

definition net_example :: netfront_info where
  "net_example =
     \<lparr>tx = \<lparr>req_prod_pvt = 0, rsp_cons = 0, f_nr_ents = 256\<rparr>, txs = \<lparr>req_prod = 0, req_event = 1, rsp_prod = 0, rsp_event = 1, pvt_pad = [], pad44 = [], ring = replicate 256 (Rsp \<lparr>txr_id = 0, txr_status = 0\<rparr>)\<rparr>,
      rx = \<lparr>req_prod_pvt = 0, rsp_cons = 0, f_nr_ents = 256\<rparr>, rxs = \<lparr>req_prod = 0, req_event = 1, rsp_prod = 0, rsp_event = 1, pvt_pad = [], pad44 = [], ring = replicate 256 (Rsp \<lparr>rx_id = 0, rx_offset = 0, rx_flags = 0, rx_status = 0\<rparr>)\<rparr>,
      copying_receiver = True, carrier = True, rx_min_target = 64, rx_max_target = 256, rx_target = 64,
      rx_batch = [], rx_refill_timer = False, tx_skbs = (\<lambda>i. Link (i + 1)), rx_skbs = (\<lambda>_. None),
      gref_tx_head = 100, grant_tx_ref = (\<lambda>_. 0), gref_rx_head = 400, grant_rx_ref = (\<lambda>_. 0), otherend = 3,
      hooks = None, ngnt = net_gnt_example, driver_pages = 0, queue_stopped = False, running = True, can_sg = True,
      tx_dropped = 0, tx_packets = 0, tx_bytes = 0, tx_freed = [], rx_errors = 0, rx_packets = 0, rx_bytes = 0,
      rx_freed = [], passed_up = [], napi_scheduled = False, irqs_stopped = 0, notified = 0, rx_gso_csum_fixups = 0\<rparr>"

lemma net_gnt_next: "gnt_next net_gnt_example i = (if i div 1024 \<noteq> 0 then i else if i \<in> {99, 355, 655} then GNTTAB_LIST_END else i + 1)"
  by (auto simp: gnt_next_def gnttab_entry_def net_gnt_example_def RPP_def)

lemma net_gnt_example_list:
  "8 \<le> a \<Longrightarrow> b \<in> {99, 355, 655} \<Longrightarrow> a \<le> b \<Longrightarrow> (\<forall>c \<in> {99, 355, 655}. c < a \<or> b \<le> c) \<Longrightarrow>
   linked (gnt_next net_gnt_example) a GNTTAB_LIST_END [a..<Suc b]"
proof -
  assume h: "8 \<le> a" "b \<in> {99, 355, 655}" "a \<le> b" "\<forall>c \<in> {99, 355, 655}. c < a \<or> b \<le> c"
  have b: "b < 1024" using h(2) by auto
  have nx: "gnt_next net_gnt_example x = x + 1" if "a \<le> x" "x < a + (b - a)" for x
    using that h b by (auto simp: net_gnt_next)
  have "gnt_next net_gnt_example b = GNTTAB_LIST_END" using h(2) by (auto simp: net_gnt_next)
  then have "linked (gnt_next net_gnt_example) (a + (b - a)) GNTTAB_LIST_END [b]"
    using h(3) b by (simp add: GNTTAB_LIST_END_def)
  from linked_upt [OF nx _ this] show ?thesis using h(3) b by (simp add: GNTTAB_LIST_END_def)
qed

lemma net_gnt_example_inv: "gnt_inv net_gnt_example \<and> gnt_free net_gnt_example = [8..<100]"
proof (rule gnt_inv_free_list)
  show "gnt_pages net_gnt_example"
    by (simp add: gnt_pages_def net_gnt_example_def gnt_example_def nr_freelist_frames_def gnt_consts)
  show "linked (gnt_next net_gnt_example) (gnttab_free_head net_gnt_example) GNTTAB_LIST_END [8..<100]"
    using net_gnt_example_list [of 8 99] by (simp add: net_gnt_example_def gnt_example_def del: upt_Suc)
qed (auto simp: net_gnt_example_def gnt_example_def gnt_refs_def gnt_consts)

definition net_refs_example :: "nat \<Rightarrow> nat list" where "net_refs_example a = [a..<a + NET_TX_RING_SIZE]"

lemma net_example_fields:
  "gref_tx_head net_example = 100" "gref_rx_head net_example = 400" "ngnt net_example = net_gnt_example"
  "tx_skbs net_example = (\<lambda>i. Link (i + 1))" "nr_grant_frames net_gnt_example = 2"
  by (simp_all add: net_example_def net_gnt_example_def)

lemma net_example_refs: "tx_refs (net_refs_example 100) net_example"
proof -
  have "[100..<Suc 355] = net_refs_example 100" by (simp only: net_refs_example_def NET_TX_RING_SIZE_def) simp
  then have "linked (gnt_next net_gnt_example) 100 GNTTAB_LIST_END (net_refs_example 100)"
    using net_gnt_example_list [of 100 355] by simp
  moreover have "gnt_pages net_gnt_example" using net_gnt_example_inv unfolding gnt_inv_def by blast
  moreover have "set (net_refs_example 100) = {100..<356}" by (simp only: net_refs_example_def NET_TX_RING_SIZE_def set_upt) simp
  moreover have "distinct (net_refs_example 100)" by (simp add: net_refs_example_def)
  ultimately show ?thesis by (simp only: tx_refs_def net_example_fields) (auto simp: gnt_refs_def gnt_consts net_example_fields)
qed

definition net_ids_example :: "nat list" where "net_ids_example = [1..<1 + NET_TX_RING_SIZE]"

lemma net_example_free: "tx_free net_ids_example net_example"
proof -
  have nx: "tx_next net_example i = i + 1" "is_free net_example i" for i
    by (simp_all add: tx_next_def is_free_def net_example_fields)
  have "linked (tx_next net_example) (1 + NET_TX_RING_SIZE) (NET_TX_RING_SIZE + 1) []" by simp
  from linked_upt [OF _ _ this] have "linked (tx_next net_example) 1 (NET_TX_RING_SIZE + 1) net_ids_example"
    by (simp add: nx net_ids_example_def)
  moreover have "set net_ids_example = tx_ids" by (auto simp: net_ids_example_def tx_ids_def)
  moreover have "distinct net_ids_example" by (simp add: net_ids_example_def)
  ultimately show ?thesis by (simp add: tx_free_def nx)
qed

lemma net_example_unused: "tx_in_use net_example = {}"
  by (simp add: tx_in_use_def is_free_def net_example_fields)

lemma net_example_ok: "tx_ok net_ids_example (net_refs_example 100) net_example"
proof -
  have "set (net_refs_example 100) \<inter> set [8..<100] = {}" by (auto simp: net_refs_example_def)
  moreover have "length net_ids_example = length (net_refs_example 100)" by (simp add: net_refs_example_def net_ids_example_def)
  moreover have "f_nr_ents (tx net_example) = 256" "length (ring (txs net_example)) = 256" by (simp_all add: net_example_def)
  moreover have "gnt_inv (ngnt net_example)" "gnt_free (ngnt net_example) = [8..<100]"
    using net_gnt_example_inv by (simp_all only: net_example_fields simp_thms)
  ultimately show ?thesis using net_example_refs net_example_free
    by (simp only: tx_ok_def net_example_unused image_empty Un_empty_left inj_on_empty) simp
qed

definition net_skb_example :: sk_buff where
  "net_skb_example =
     \<lparr>skb_no = 1, head_offset = 4000, head_len = 200, head_mfn = (\<lambda>k. of_nat (k + 500)),
      skb_frags = [\<lparr>frag_offset = 4000, frag_size = 5000, frag_order = 2, frag_mfn = (\<lambda>k. of_nat (k + 600))\<rparr>],
      tx_summed = CHECKSUM_PARTIAL, gso_size = 1448, needs_gso = False\<rparr>"

theorem xmit_requests_decodes_witness:
  "\<exists>t q qs. xmit_requests net_skb_example net_example = Some t \<and>
    backend_reads 256 (txs t) 0 = Some (q, Some (gso_extra net_skb_example), qs, req_prod (txs t)) \<and>
    received_bytes (ngnt t) q qs = packet_bytes net_skb_example \<and> unat (tx_size q) = 5200"
proof -
  have len: "skb_len net_skb_example = 5200" by (simp add: net_skb_example_def skb_len_def)
  have "netfront_tx_slot_available net_example" "outstanding net_example = 0" "req_prod_pvt (tx net_example) = 0"
    by (simp_all add: net_example_def netfront_tx_slot_available_def outstanding_def net_consts)
  moreover have "PFN_UP (head_offset net_skb_example mod PAGE_SIZE + head_len net_skb_example)
      + xennet_count_skb_frag_slots net_skb_example \<le> MAX_SKB_FRAGS + 1"
    by (simp add: net_skb_example_def xennet_count_skb_frag_slots_def PFN_UP_def net_consts)
  moreover have "\<forall>f \<in> set (skb_frags net_skb_example). frag_offset f + frag_size f \<le> PAGE_SIZE * 2 ^ frag_order f"
    by (simp add: net_skb_example_def PAGE_SIZE_def)
  moreover have "skb_is_gso net_skb_example" by (simp add: net_skb_example_def skb_is_gso_def)
  moreover have "5200 \<le> XEN_NETIF_MAX_TX_SIZE" by (simp add: XEN_NETIF_MAX_TX_SIZE_def)
  ultimately show ?thesis
    using xmit_requests_decodes [OF net_example_ok, of net_skb_example] unfolding len
    by (simp add: net_example_unused del: One_nat_def) blast
qed


section \<open>Collecting the responses\<close>

lemma gnt_access_ended:
  assumes "gnttab_end_foreign_access_ref ws r g = (ok, g')"
  shows "gnt_inv g' = gnt_inv g" "gnt_free g' = gnt_free g" "gnt_refs g' = gnt_refs g" "gnt_next g' = gnt_next g"
    "gnt_pages g' = gnt_pages g" "\<And>x. x \<noteq> r \<Longrightarrow> shared g' x = shared g x"
proof -
  obtain b where "end_foreign_access_ref ws r g = (b, g')"
    using assms by (auto simp: gnttab_end_foreign_access_ref_def split: prod.splits)
  note e = end_foreign_access_ref_ok [OF this]
  then show "\<And>x. x \<noteq> r \<Longrightarrow> shared g' x = shared g x" by blast
  from e have "same_list g g'" by blast
  from same_list_gnt [OF this] show "gnt_inv g' = gnt_inv g" "gnt_free g' = gnt_free g" "gnt_refs g' = gnt_refs g"
    "gnt_next g' = gnt_next g" "gnt_pages g' = gnt_pages g" by blast+
qed

definition tx_returned :: "nat \<Rightarrow> sk_buff \<Rightarrow> nat \<Rightarrow> gnttab \<Rightarrow> netfront_info \<Rightarrow> netfront_info" where
  "tx_returned i skb h g s =
     s\<lparr>ngnt := g, gref_tx_head := h, grant_tx_ref := (grant_tx_ref s)(i := GRANT_INVALID_REF),
       tx_skbs := (tx_skbs s)(i := tx_skbs s 0, 0 := Link i), tx_freed := tx_freed s @ [skb]\<rparr>"

text \<open>An answered id goes back to the free list with its reference, and its packet is freed.\<close>

lemma tx_gc_response_ok:
  assumes ok: "tx_ok xs ys s" and i: "i \<in> tx_in_use s"
    and p: "txr_status p \<noteq> XEN_NETIF_RSP_NULL" "unat (txr_id p) = i"
    and quiet: "gnttab_query_foreign_access (grant_tx_ref s i) (ngnt s) = 0"
  shows "\<exists>skb h g. tx_skbs s i = Skb skb \<and>
    tx_gc_response e p s = Some (tx_returned i skb h g s) \<and>
    (\<forall>r. r \<noteq> grant_tx_ref s i \<longrightarrow> shared g r = shared (ngnt s) r) \<and>
    tx_ok (i # xs) (grant_tx_ref s i # ys) (tx_returned i skb h g s) \<and>
    tx_in_use (tx_returned i skb h g s) = tx_in_use s - {i}"
proof -
  have free: "tx_free xs s" and refs: "tx_refs ys s" and len: "length xs = length ys"
    and ring: "f_nr_ents (tx s) = 256" "length (ring (txs s)) = 256"
    and inj: "inj_on (grant_tx_ref s) (tx_in_use s)" and apart: "grant_tx_ref s ` tx_in_use s \<inter> set ys = {}"
    and val: "\<And>i. i \<in> tx_in_use s \<Longrightarrow> grant_tx_ref s i \<in> gnt_refs (ngnt s) \<and> grant_tx_ref s i < 2 ^ 15"
    and gf: "(grant_tx_ref s ` tx_in_use s \<union> set ys) \<inter> set (gnt_free (ngnt s)) = {}" and gi: "gnt_inv (ngnt s)"
    using ok unfolding tx_ok_def by blast+
  let ?r = "grant_tx_ref s i"
  have i': "i \<in> tx_ids" "\<not> is_free s i" "i \<noteq> 0" "i \<le> NET_TX_RING_SIZE" using i by (auto simp: tx_in_use_def tx_ids_def)
  then obtain skb where skb: "tx_skbs s i = Skb skb" by (auto simp: is_free_def split: tx_entry.splits)
  obtain k g1 where e1: "gnttab_end_foreign_access_ref (nhyp e ?r) ?r (ngnt s) = (k, g1)" by (metis prod.exhaust)
  note g1 = gnt_access_ended [OF e1]
  have l: "linked (gnt_next g1) (gref_tx_head s) GNTTAB_LIST_END ys" using refs unfolding tx_refs_def g1 by blast
  have r: "?r \<in> gnt_refs g1" "?r \<notin> set ys" "?r \<notin> set (gnt_free g1)" using val [OF i] apart gf i unfolding g1 by auto
  have "gnt_inv g1" using gi unfolding g1 .
  from gnttab_release_ok [OF this l r] obtain g where
    rel: "gnttab_release_grant_reference (gref_tx_head s) ?r g1 = Some (?r, g)" and
    g: "gnt_inv g" "gnt_free g = gnt_free (ngnt s)" "gnt_refs g = gnt_refs (ngnt s)" "outside g = outside g1"
      "linked (gnt_next g) ?r GNTTAB_LIST_END (?r # ys)" unfolding g1 by blast
  let ?t = "s\<lparr>ngnt := g, gref_tx_head := ?r, grant_tx_ref := (grant_tx_ref s)(i := GRANT_INVALID_REF),
      tx_skbs := (tx_skbs s)(i := tx_skbs s 0, 0 := Link i), tx_freed := tx_freed s @ [skb]\<rparr>"
  have run: "tx_gc_response e p s = Some ?t"
    using p quiet i' skb e1 rel by (simp add: tx_gc_response_def tx_done_def add_id_to_freelist_def Let_def)
  have sh: "\<forall>r. r \<noteq> ?r \<longrightarrow> shared g r = shared (ngnt s) r" using g(4) g1(6) by (simp add: outside_def)
  have f0: "is_free s 0" using free unfolding tx_free_def by blast
  then obtain n0 where n0: "tx_skbs s 0 = Link n0" by (auto simp: is_free_def split: tx_entry.splits)
  have nx: "tx_next ?t j = (if j = 0 then i else if j = i then tx_next s 0 else tx_next s j)"
    and fr: "is_free ?t j \<longleftrightarrow> j = i \<or> is_free s j" for j
    using i' n0 by (auto simp: tx_next_def is_free_def)
  have use: "tx_in_use ?t = tx_in_use s - {i}" using i' fr by (auto simp: tx_in_use_def)
  have sx: "set xs = {i \<in> tx_ids. is_free s i}" and dx: "distinct xs"
    and lx: "linked (tx_next s) (tx_next s 0) (NET_TX_RING_SIZE + 1) xs" using free unfolding tx_free_def by blast+
  have ix: "i \<notin> set xs" "0 \<notin> set xs" using sx i' by (auto simp: tx_ids_def)
  have "linked (tx_next ?t) (tx_next s 0) (NET_TX_RING_SIZE + 1) xs"
    using lx ix by (subst linked_cong [of xs _ "tx_next s"]) (auto simp: nx)
  then have tfree: "tx_free (i # xs) ?t" using i' ix dx sx fr f0 unfolding tx_free_def by (auto simp: nx)
  have dy: "distinct ys" "set ys \<subseteq> gnt_refs (ngnt s)" "\<forall>y \<in> set ys. y < 2 ^ 15" using refs unfolding tx_refs_def by blast+
  have gp: "gnt_pages g" using g(1) unfolding gnt_inv_def by blast
  have trefs: "tx_refs (?r # ys) ?t" using gp g(3,5) dy r(2) val [OF i] unfolding tx_refs_def by simp
  have same: "grant_tx_ref ?t j = grant_tx_ref s j" if "j \<in> tx_in_use ?t" for j using that unfolding use by simp
  then have im: "grant_tx_ref ?t ` tx_in_use ?t = grant_tx_ref s ` (tx_in_use s - {i})" unfolding use by force
  have "inj_on (grant_tx_ref s) (tx_in_use s - {i})" using inj by (rule inj_on_subset) blast
  then have tinj: "inj_on (grant_tx_ref ?t) (tx_in_use ?t)" using inj_on_cong [of "tx_in_use ?t" "grant_tx_ref ?t" "grant_tx_ref s"] same unfolding use by blast
  have "?r \<notin> grant_tx_ref s ` (tx_in_use s - {i})" using inj i by (auto dest: inj_onD)
  then have tapart: "grant_tx_ref ?t ` tx_in_use ?t \<inter> set (?r # ys) = {}" using apart unfolding im by auto
  have tgf: "(grant_tx_ref ?t ` tx_in_use ?t \<union> set (?r # ys)) \<inter> set (gnt_free (ngnt ?t)) = {}"
    using gf i unfolding im by (simp add: g(2)) blast
  have tval: "\<forall>j \<in> tx_in_use ?t. grant_tx_ref ?t j \<in> gnt_refs (ngnt ?t) \<and> grant_tx_ref ?t j < 2 ^ 15"
  proof
    fix j assume j: "j \<in> tx_in_use ?t"
    then have "j \<in> tx_in_use s" unfolding use by blast
    from val [OF this] show "grant_tx_ref ?t j \<in> gnt_refs (ngnt ?t) \<and> grant_tx_ref ?t j < 2 ^ 15"
      unfolding same [OF j] by (simp add: g(3))
  qed
  have "tx_ok (i # xs) (?r # ys) ?t" unfolding tx_ok_def
    using tfree trefs tinj tapart tgf tval by (simp add: g(1) ring len)
  moreover have "?t = tx_returned i skb ?r g s" by (simp add: tx_returned_def)
  ultimately show ?thesis using skb run sh use by metis
qed

text \<open>The ids that a list of responses gives back, and what is said of them together.\<close>

definition answered :: "netif_tx_response list \<Rightarrow> nat list" where
  "answered ps = map (\<lambda>p. unat (txr_id p)) (filter (\<lambda>p. txr_status p \<noteq> XEN_NETIF_RSP_NULL) ps)"

definition tx_quiet :: "netfront_info \<Rightarrow> nat set \<Rightarrow> bool" where
  "tx_quiet s is \<longleftrightarrow> (\<forall>i \<in> is. gnttab_query_foreign_access (grant_tx_ref s i) (ngnt s) = 0)"

lemma tx_gc_responses_ok:
  "tx_ok xs ys s \<Longrightarrow> map (RING_GET_RESPONSE 256 (txs s)) (idxs cons (length ps)) = map Some ps \<Longrightarrow>
   distinct (answered ps) \<Longrightarrow> set (answered ps) \<subseteq> tx_in_use s \<Longrightarrow> tx_quiet s (set (answered ps)) \<Longrightarrow>
   \<exists>h g R K skbs. tx_gc_responses e (length ps) cons s =
       Some (s\<lparr>ngnt := g, gref_tx_head := h, grant_tx_ref := R, tx_skbs := K, tx_freed := tx_freed s @ skbs\<rparr>) \<and>
     map Skb skbs = map (tx_skbs s) (answered ps) \<and>
     tx_ok (rev (answered ps) @ xs) (rev (map (grant_tx_ref s) (answered ps)) @ ys)
       (s\<lparr>ngnt := g, gref_tx_head := h, grant_tx_ref := R, tx_skbs := K, tx_freed := tx_freed s @ skbs\<rparr>) \<and>
     tx_in_use (s\<lparr>ngnt := g, gref_tx_head := h, grant_tx_ref := R, tx_skbs := K, tx_freed := tx_freed s @ skbs\<rparr>) =
       tx_in_use s - set (answered ps) \<and>
     (\<forall>i \<in> tx_in_use s - set (answered ps). K i = tx_skbs s i \<and> R i = grant_tx_ref s i)"
proof (induction ps arbitrary: xs ys s cons)
  case Nil
  have "s\<lparr>ngnt := ngnt s, gref_tx_head := gref_tx_head s, grant_tx_ref := grant_tx_ref s, tx_skbs := tx_skbs s,
      tx_freed := tx_freed s @ []\<rparr> = s" by simp
  then show ?case using Nil(1) unfolding answered_def by (intro exI [of _ "ngnt s"] exI [of _ "gref_tx_head s"] exI [of _ "grant_tx_ref s"] exI [of _ "tx_skbs s"] exI [of _ "[]"]) simp
next
  case (Cons p ps)
  have ring: "f_nr_ents (tx s) = 256" using Cons.prems(1) unfolding tx_ok_def by blast
  have p: "RING_GET_RESPONSE 256 (txs s) cons = Some p"
    "map (RING_GET_RESPONSE 256 (txs s)) (idxs (cons + 1) (length ps)) = map Some ps" using Cons.prems(2) by simp_all
  show ?case
  proof (cases "txr_status p = XEN_NETIF_RSP_NULL")
    case True
    then have a: "answered (p # ps) = answered ps" by (simp add: answered_def)
    have "tx_gc_responses e (length (p # ps)) cons s = tx_gc_responses e (length ps) (cons + 1) s"
      using p True by (simp add: ring tx_gc_response_def)
    then show ?thesis using Cons.IH [OF Cons.prems(1) p(2)] Cons.prems(3-5) unfolding a by simp
  next
    case False
    define i where "i = unat (txr_id p)"
    have a: "answered (p # ps) = i # answered ps" using False by (simp add: answered_def i_def)
    have i: "i \<in> tx_in_use s" "i \<notin> set (answered ps)" "distinct (answered ps)" "set (answered ps) \<subseteq> tx_in_use s"
      "gnttab_query_foreign_access (grant_tx_ref s i) (ngnt s) = 0" using Cons.prems(3-5) unfolding a tx_quiet_def by auto
    obtain skb h g where r: "tx_skbs s i = Skb skb" "tx_gc_response e p s = Some (tx_returned i skb h g s)"
      "\<forall>r. r \<noteq> grant_tx_ref s i \<longrightarrow> shared g r = shared (ngnt s) r"
      "tx_ok (i # xs) (grant_tx_ref s i # ys) (tx_returned i skb h g s)"
      "tx_in_use (tx_returned i skb h g s) = tx_in_use s - {i}"
      using tx_gc_response_ok [OF Cons.prems(1) i(1) False i_def [symmetric] i(5)] by blast
    let ?t = "tx_returned i skb h g s"
    have same: "tx_skbs ?t j = tx_skbs s j" "grant_tx_ref ?t j = grant_tx_ref s j" if "j \<in> tx_in_use s" "j \<noteq> i" for j
      using that by (auto simp: tx_returned_def tx_in_use_def tx_ids_def)
    have inj: "inj_on (grant_tx_ref s) (tx_in_use s)" using Cons.prems(1) unfolding tx_ok_def by blast
    have quiet: "tx_quiet ?t (set (answered ps))" unfolding tx_quiet_def
    proof
      fix j assume j: "j \<in> set (answered ps)"
      then have ji: "j \<noteq> i" "j \<in> tx_in_use s" using i by auto
      then have "grant_tx_ref s j \<noteq> grant_tx_ref s i" using inj i(1) by (metis inj_onD)
      then have "shared (ngnt ?t) (grant_tx_ref s j) = shared (ngnt s) (grant_tx_ref s j)" using r(3) by (simp add: tx_returned_def)
      moreover have "gnttab_query_foreign_access (grant_tx_ref s j) (ngnt s) = 0"
        using Cons.prems(5) j unfolding a tx_quiet_def by simp
      ultimately show "gnttab_query_foreign_access (grant_tx_ref ?t j) (ngnt ?t) = 0"
        unfolding same(2) [OF ji(2,1)] by (simp add: gnttab_query_foreign_access_def)
    qed
    have txs: "txs ?t = txs s" "tx ?t = tx s" "tx_freed ?t = tx_freed s @ [skb]" by (simp_all add: tx_returned_def)
    have sub: "set (answered ps) \<subseteq> tx_in_use ?t" using i unfolding r(5) by blast
    from Cons.IH [OF r(4) _ i(3) sub quiet, of "cons + 1"] p(2) obtain h' g' R K skbs where
      t: "tx_gc_responses e (length ps) (cons + 1) ?t =
       Some (?t\<lparr>ngnt := g', gref_tx_head := h', grant_tx_ref := R, tx_skbs := K, tx_freed := tx_freed ?t @ skbs\<rparr>)"
      "map Skb skbs = map (tx_skbs ?t) (answered ps)"
     "tx_ok (rev (answered ps) @ i # xs) (rev (map (grant_tx_ref ?t) (answered ps)) @ grant_tx_ref s i # ys)
       (?t\<lparr>ngnt := g', gref_tx_head := h', grant_tx_ref := R, tx_skbs := K, tx_freed := tx_freed ?t @ skbs\<rparr>)"
     "tx_in_use (?t\<lparr>ngnt := g', gref_tx_head := h', grant_tx_ref := R, tx_skbs := K, tx_freed := tx_freed ?t @ skbs\<rparr>) =
       tx_in_use ?t - set (answered ps)"
     "\<forall>i \<in> tx_in_use ?t - set (answered ps). K i = tx_skbs ?t i \<and> R i = grant_tx_ref ?t i" unfolding txs by blast
    have eq: "?t\<lparr>ngnt := g', gref_tx_head := h', grant_tx_ref := R, tx_skbs := K, tx_freed := tx_freed ?t @ skbs\<rparr> =
       s\<lparr>ngnt := g', gref_tx_head := h', grant_tx_ref := R, tx_skbs := K, tx_freed := tx_freed s @ (skb # skbs)\<rparr>"
      by (simp add: tx_returned_def)
    have "\<forall>j \<in> set (answered ps). j \<in> tx_in_use s \<and> j \<noteq> i" using i by auto
    then have maps: "map (tx_skbs ?t) (answered ps) = map (tx_skbs s) (answered ps)"
      "map (grant_tx_ref ?t) (answered ps) = map (grant_tx_ref s) (answered ps)" using same by (simp_all cong: map_cong)
    have "tx_gc_responses e (length (p # ps)) cons s = tx_gc_responses e (length ps) (cons + 1) ?t"
      using p(1) r(2) by (simp add: ring)
    moreover have "\<forall>j \<in> tx_in_use s - set (answered (p # ps)). K j = tx_skbs s j \<and> R j = grant_tx_ref s j"
      using t(5) same unfolding a r(5) by simp
    moreover have "tx_in_use s - {i} - set (answered ps) = tx_in_use s - set (i # answered ps)" by auto
    moreover have "map Skb (skb # skbs) = map (tx_skbs s) (i # answered ps)" using t(2) r(1) unfolding maps by simp
    moreover have "rev (i # answered ps) @ xs = rev (answered ps) @ i # xs"
      "rev (map (grant_tx_ref s) (i # answered ps)) @ ys = rev (map (grant_tx_ref s) (answered ps)) @ grant_tx_ref s i # ys" by simp_all
    ultimately show ?thesis using t(1,3,4) unfolding eq maps a r(5) by metis
  qed
qed


lemma outstanding_less:
  assumes "rsp_prod (txs s) - rsp_cons (tx s) = of_nat n" and "n \<le> outstanding s"
  shows "unat (rsp_prod (txs s) - rsp_cons (tx s)) = n"
    and "unat (req_prod_pvt (tx s) - rsp_prod (txs s)) = outstanding s - n"
proof -
  have "n < 2 ^ 32" using assms(2) unsigned_less [of "req_prod_pvt (tx s) - rsp_cons (tx s)", where 'a = nat]
    unfolding outstanding_def by simp
  then have u: "unat (of_nat n :: u32) = n" by (rule unat_of_nat32)
  then show "unat (rsp_prod (txs s) - rsp_cons (tx s)) = n" by (simp only: assms(1))
  have eq: "req_prod_pvt (tx s) - rsp_prod (txs s) = (req_prod_pvt (tx s) - rsp_cons (tx s)) - of_nat n"
    using assms(1) by (simp add: algebra_simps)
  have "of_nat n \<le> req_prod_pvt (tx s) - rsp_cons (tx s)"
    using assms(2) u by (simp only: word_le_nat_alt outstanding_def)
  then show "unat (req_prod_pvt (tx s) - rsp_prod (txs s)) = outstanding s - n"
    unfolding eq outstanding_def using u by (simp only: unat_sub)
qed

text \<open>
  The next event lies behind the responses taken and not behind the last request: a backend that
  answers everything crosses it.
\<close>

lemma tx_event_armed:
  fixes p q :: u32
  assumes "q \<noteq> p" "unat (q - p) < 2 ^ 31"
  shows "0 < unat (p + drop_bit 1 (q - p) + 1 - p)" and "unat (p + drop_bit 1 (q - p) + 1 - p) \<le> unat (q - p)"
proof -
  define d where "d = unat (q - p)"
  have d: "0 < d" using assms(1) by (metis d_def right_minus_eq unat_gt_0)
  have h: "unat (drop_bit 1 (q - p)) = d div 2" by (simp add: d_def unat_div)
  have b: "d < 2 ^ 31" using assms(2) by (simp add: d_def)
  have "unat (drop_bit 1 (q - p) + 1) = d div 2 + 1"
    using h b by (subst unat_plus_if') simp
  moreover have "p + drop_bit 1 (q - p) + 1 - p = drop_bit 1 (q - p) + 1" by simp
  ultimately have u: "unat (p + drop_bit 1 (q - p) + 1 - p) = d div 2 + 1" by metis
  show "0 < unat (p + drop_bit 1 (q - p) + 1 - p)" unfolding u by simp
  show "unat (p + drop_bit 1 (q - p) + 1 - p) \<le> unat (q - p)" unfolding u d_def [symmetric] using d by simp
qed

text \<open>
  C18: Collecting responses. If the backend answers requests that are in use, each at most once, and
  has let go of their pages, then every packet answered is freed once, in the order of the responses,
  its id and its reference are back in their free lists and no other id is touched; the slots are
  free again; a stopped queue is woken exactly when there is room and the device runs; and
  the next event is set so that the backend's next answers will raise an interrupt.
\<close>

theorem network_tx_buf_gc_returns:
  assumes ok: "tx_ok xs ys s" and up: "carrier s"
    and resp: "map (RING_GET_RESPONSE 256 (txs s)) (idxs (rsp_cons (tx s)) (length ps)) = map Some ps"
      "rsp_prod (txs s) - rsp_cons (tx s) = of_nat (length ps)" "length ps \<le> outstanding s"
    and sent: "req_prod (txs s) = req_prod_pvt (tx s)" "outstanding s \<le> 256"
    and ids: "distinct (answered ps)" "set (answered ps) \<subseteq> tx_in_use s"
    and quiet: "tx_quiet s (set (answered ps))"
  shows "\<exists>t skbs. network_tx_buf_gc e [] s = Some t \<and>
    map Skb skbs = map (tx_skbs s) (answered ps) \<and> tx_freed t = tx_freed s @ skbs \<and>
    tx_ok (rev (answered ps) @ xs) (rev (map (grant_tx_ref s) (answered ps)) @ ys) t \<and>
    tx_in_use t = tx_in_use s - set (answered ps) \<and>
    (\<forall>i \<in> tx_in_use t. tx_skbs t i = tx_skbs s i \<and> grant_tx_ref t i = grant_tx_ref s i) \<and>
    outstanding t = outstanding s - length ps \<and> rsp_cons (tx t) = rsp_prod (txs t) \<and>
    (queue_stopped t \<longleftrightarrow> queue_stopped s \<and>
       \<not> (netfront_tx_slot_available t \<and> running s \<and> netfront_check_accelerator_queue_ready s)) \<and>
    (outstanding t \<noteq> 0 \<longrightarrow> 0 < unat (rsp_event (txs t) - rsp_prod (txs t)) \<and>
       unat (rsp_event (txs t) - rsp_prod (txs t)) \<le> outstanding t)"
proof -
  note n = outstanding_less [OF resp(2,3)]
  obtain h g R K skbs where run: "tx_gc_responses e (length ps) (rsp_cons (tx s)) s =
       Some (s\<lparr>ngnt := g, gref_tx_head := h, grant_tx_ref := R, tx_skbs := K, tx_freed := tx_freed s @ skbs\<rparr>)"
    and skbs: "map Skb skbs = map (tx_skbs s) (answered ps)"
    and tok: "tx_ok (rev (answered ps) @ xs) (rev (map (grant_tx_ref s) (answered ps)) @ ys)
       (s\<lparr>ngnt := g, gref_tx_head := h, grant_tx_ref := R, tx_skbs := K, tx_freed := tx_freed s @ skbs\<rparr>)"
    and use: "tx_in_use (s\<lparr>ngnt := g, gref_tx_head := h, grant_tx_ref := R, tx_skbs := K, tx_freed := tx_freed s @ skbs\<rparr>) =
       tx_in_use s - set (answered ps)"
    and same: "\<forall>i \<in> tx_in_use s - set (answered ps). K i = tx_skbs s i \<and> R i = grant_tx_ref s i"
    using tx_gc_responses_ok [OF ok resp(1) ids quiet] by blast
  let ?u = "s\<lparr>ngnt := g, gref_tx_head := h, grant_tx_ref := R, tx_skbs := K, tx_freed := tx_freed s @ skbs\<rparr>"
  let ?pr = "rsp_prod (txs s)"
  define v where "v = ?u\<lparr>tx := (tx ?u)\<lparr>rsp_cons := ?pr\<rparr>,
     txs := (txs ?u)\<lparr>rsp_event := ?pr + drop_bit 1 (req_prod (txs ?u) - ?pr) + 1\<rparr>\<rparr>"
  define t where "t = network_maybe_wake_tx v"
  have t: "t = v\<lparr>queue_stopped := queue_stopped v \<and>
      \<not> (netfront_tx_slot_available v \<and> running v \<and> netfront_check_accelerator_queue_ready v)\<rparr>"
    by (auto simp: t_def network_maybe_wake_tx_def)
  have tt: "txs t = (txs s)\<lparr>rsp_event := ?pr + drop_bit 1 (req_prod (txs s) - ?pr) + 1\<rparr>"
    "tx t = (tx s)\<lparr>rsp_cons := ?pr\<rparr>" "tx_freed t = tx_freed s @ skbs" "grant_tx_ref t = R" "tx_skbs t = K"
    "queue_stopped t = (queue_stopped s \<and> \<not> (netfront_tx_slot_available v \<and> running s \<and> netfront_check_accelerator_queue_ready v))"
    by (simp_all add: t v_def)
  have avail: "netfront_tx_slot_available t = netfront_tx_slot_available v"
    "netfront_check_accelerator_queue_ready v = netfront_check_accelerator_queue_ready s"
    by (simp_all add: t v_def netfront_tx_slot_available_def netfront_check_accelerator_queue_ready_def)
  have gc: "network_tx_buf_gc e [] s = Some t"
    using run n(1) up by (simp add: network_tx_buf_gc_def tx_gc_round_def t_def v_def Let_def)
  have fields: "tx_ok as bs t = tx_ok as bs ?u" "tx_in_use t = tx_in_use ?u" for as bs
    by (simp_all add: tx_ok_def tx_in_use_def t v_def tx_free_def tx_refs_def is_free_def tx_next_def [abs_def])
  have out: "outstanding t = outstanding s - length ps" using n(2) by (simp add: outstanding_def tt)
  have ev: "0 < unat (rsp_event (txs t) - rsp_prod (txs t)) \<and> unat (rsp_event (txs t) - rsp_prod (txs t)) \<le> outstanding t"
    if "outstanding t \<noteq> 0"
  proof -
    have o: "outstanding t = unat (req_prod (txs s) - ?pr)" using n(2) out sent(1) by simp
    then have "req_prod (txs s) \<noteq> ?pr" "unat (req_prod (txs s) - ?pr) < 2 ^ 31" using that out sent(2) by auto
    from tx_event_armed [OF this] show ?thesis unfolding o by (simp add: tt)
  qed
  show ?thesis
    by (intro exI [of _ t] exI [of _ skbs] conjI gc skbs)
      (use tok use same ev out in \<open>simp_all only: fields tt avail front_ring.simps sring.simps simp_thms\<close>, simp_all)
qed


text \<open>The example with the first id in use and answered.\<close>

definition net_gc_example :: netfront_info where
  "net_gc_example = (sent_piece net_skb_example 7 1 100 net_example)
     \<lparr>txs := (txs net_example)\<lparr>req_prod := 1, rsp_prod := 1,
        ring := (ring (txs net_example))[0 := Rsp \<lparr>txr_id = 1, txr_status = 0\<rparr>]\<rparr>,
      tx := (tx net_example)\<lparr>req_prod_pvt := 1\<rparr>, notified := 0\<rparr>"

definition net_env_example :: net_env where
  "net_env_example =
     \<lparr>nhyp = (\<lambda>_. []), nflip = (\<lambda>_. []), rx_alloc = (\<lambda>_. None), page_mfn = of_nat, auto_translated = False,
      reservation_ok = True, remap_ok = True, pull_tail = (\<lambda>n k. k\<lparr>rx_frags := tl (rx_frags k), rx_head := rx_head k + n\<rparr>),
      eth_proto = (\<lambda>_. 0x800), ip_proto = (\<lambda>_. 6), ip_ihl = (\<lambda>_. 5), partial_csum_set = (\<lambda>_ _ _. True)\<rparr>"

lemma tx_fields_cong:
  "tx_skbs t = tx_skbs s \<Longrightarrow> tx_free xs t = tx_free xs s"
  "ngnt t = ngnt s \<Longrightarrow> gref_tx_head t = gref_tx_head s \<Longrightarrow> tx_refs ys t = tx_refs ys s"
  by (simp_all add: tx_free_def tx_refs_def tx_next_def [abs_def] is_free_def)

lemma net_gc_example_ok: "tx_ok [2..<1 + NET_TX_RING_SIZE] [101..<100 + NET_TX_RING_SIZE] net_gc_example"
proof -
  have pos: "0 < NET_TX_RING_SIZE" by (simp add: NET_TX_RING_SIZE_def)
  have split: "net_ids_example = [1] @ [2..<1 + NET_TX_RING_SIZE]" "net_refs_example 100 = [100] @ [101..<100 + NET_TX_RING_SIZE]"
    using upt_conv_Cons [of 1 "1 + NET_TX_RING_SIZE"] upt_conv_Cons [of 100 "100 + NET_TX_RING_SIZE"] pos
    unfolding net_ids_example_def net_refs_example_def by (simp_all add: numeral_2_eq_2 del: upt_Suc)
  note ok = net_example_ok [unfolded split]
  have f0: "tx_free (1 # [2..<1 + NET_TX_RING_SIZE]) net_example" and r0: "tx_refs (100 # [101..<100 + NET_TX_RING_SIZE]) net_example"
    using net_example_free net_example_refs unfolding split append_Cons append_Nil .
  note fr = tx_piece_ok(2) [OF f0 r0, of net_skb_example 7] tx_piece_ok(3) [OF f0 r0, of net_skb_example 7]
  have eqs: "tx_skbs net_gc_example = tx_skbs (sent_piece net_skb_example 7 1 100 net_example)"
    "ngnt net_gc_example = ngnt (sent_piece net_skb_example 7 1 100 net_example)"
    "gref_tx_head net_gc_example = gref_tx_head (sent_piece net_skb_example 7 1 100 net_example)"
    by (simp_all add: net_gc_example_def)
  have res: "tx_free [2..<1 + NET_TX_RING_SIZE] net_gc_example" "tx_refs [101..<100 + NET_TX_RING_SIZE] net_gc_example"
    using fr unfolding tx_fields_cong(1) [OF eqs(1)] tx_fields_cong(2) [OF eqs(2,3)] .
  have "net_gc_example = (send_pieces net_skb_example [(7, 0, 0)] [1] [100] net_example)
     \<lparr>txs := (txs net_example)\<lparr>req_prod := 1, rsp_prod := 1,
        ring := (ring (txs net_example))[0 := Rsp \<lparr>txr_id = 1, txr_status = 0\<rparr>]\<rparr>,
      tx := (tx net_example)\<lparr>req_prod_pvt := 1\<rparr>, notified := 0\<rparr>" by (simp add: net_gc_example_def)
  note eq = this
  show ?thesis by (rule send_pieces_ok(1) [OF ok _ _ eq _ _ res]) (simp_all add: net_example_def)
qed

theorem network_tx_buf_gc_returns_witness:
  "\<exists>t. network_tx_buf_gc net_env_example [] net_gc_example = Some t \<and>
     tx_freed t = [net_skb_example] \<and> tx_in_use t = {} \<and> outstanding t = 0"
proof -
  define p where "p = \<lparr>txr_id = 1, txr_status = 0\<rparr>"
  have sk: "tx_skbs net_gc_example = (\<lambda>i. Link (i + 1))(0 := Link (1 + 1), 1 := Skb net_skb_example)"
    and gr: "grant_tx_ref net_gc_example 1 = 100"
    and sh: "shared (ngnt net_gc_example) 100 = entry_for 3 GTF_readonly 7"
    by (simp_all add: net_gc_example_def sent_piece_def net_example_def)
  have use: "tx_in_use net_gc_example = {1}"
    by (auto simp: tx_in_use_def tx_ids_def is_free_def sk NET_TX_RING_SIZE_def)
  have a: "answered [p] = [1]" by (simp add: answered_def p_def XEN_NETIF_RSP_NULL_def)
  have "gnttab_query_foreign_access 100 (ngnt net_gc_example) = 0"
    by (simp add: gnttab_query_foreign_access_def sh entry_for_def GTF_permit_access_def GTF_readonly_def
        GTF_reading_def GTF_writing_def)
  then have q: "tx_quiet net_gc_example {1}" using gr by (simp add: tx_quiet_def)
  have r: "RING_GET_RESPONSE 256 (txs net_gc_example) 0 = Some p"
    by (simp add: net_gc_example_def net_example_def RING_GET_RESPONSE_def ring_slot_def p_def)
  have c: "rsp_cons (tx net_gc_example) = 0" "rsp_prod (txs net_gc_example) = 1" "req_prod (txs net_gc_example) = 1"
    "req_prod_pvt (tx net_gc_example) = 1" "carrier net_gc_example" "tx_freed net_gc_example = []"
    by (simp_all add: net_gc_example_def net_example_def sent_piece_def)
  then have o: "outstanding net_gc_example = 1" by (simp add: outstanding_def)
  have prems: "map (RING_GET_RESPONSE 256 (txs net_gc_example)) (idxs (rsp_cons (tx net_gc_example)) (length [p])) = map Some [p]"
    "rsp_prod (txs net_gc_example) - rsp_cons (tx net_gc_example) = of_nat (length [p])" "length [p] \<le> outstanding net_gc_example"
    "req_prod (txs net_gc_example) = req_prod_pvt (tx net_gc_example)" "outstanding net_gc_example \<le> 256"
    "distinct (answered [p])" "set (answered [p]) \<subseteq> tx_in_use net_gc_example" "tx_quiet net_gc_example (set (answered [p]))"
    using r q by (simp_all add: a c o use)
  obtain t skbs where t: "network_tx_buf_gc net_env_example [] net_gc_example = Some t"
    "map Skb skbs = map (tx_skbs net_gc_example) [1]" "tx_freed t = [] @ skbs" "tx_in_use t = {1} - set [1]" "outstanding t = 1 - length [p]"
    using network_tx_buf_gc_returns [OF net_gc_example_ok c(5) prems, of net_env_example] unfolding a c o use by blast
  then have "skbs = [net_skb_example]" by (auto simp: sk)
  then show ?thesis using t by (intro exI [of _ t]) simp
qed

end
