(* ===== verification/Netfront_Rx.thy ===== *)
theory Netfront_Rx
  imports Netfront
begin

text \<open>
  The receive side of the network front end, \<^verbatim>\<open>xen-vnif/3.12.49/netfront.c\<close>: filling the ring with
  page buffers, the interrupt, and the poll that takes responses, joins the pieces of a packet and
  passes it up. Every slot between \<open>rsp_cons\<close> and \<open>req_prod_pvt\<close> has its buffer in \<open>rx_skbs\<close> and its
  reference in \<open>grant_rx_ref\<close>. \<open>None\<close> is a \<open>BUG\<close>, a \<open>panic\<close> or a wild access. The contents of packets
  are left out.
\<close>

section \<open>Slots\<close>

definition xennet_rxidx :: "ring_idx \<Rightarrow> nat" where
  "xennet_rxidx i = unat (i AND of_nat (NET_RX_RING_SIZE - 1))"

definition xennet_get_rx_skb :: "ring_idx \<Rightarrow> netfront_info \<Rightarrow> rx_skb option \<times> netfront_info" where
  "xennet_get_rx_skb ri s =
     (let i = xennet_rxidx ri in (rx_skbs s i, s\<lparr>rx_skbs := (rx_skbs s)(i := None)\<rparr>))"

definition xennet_get_rx_ref :: "ring_idx \<Rightarrow> netfront_info \<Rightarrow> nat \<times> netfront_info" where
  "xennet_get_rx_ref ri s =
     (let i = xennet_rxidx ri in (grant_rx_ref s i, s\<lparr>grant_rx_ref := (grant_rx_ref s)(i := GRANT_INVALID_REF)\<rparr>))"

text \<open>
  What a response pointer reads, whatever was written to the slot last; and what the two
  assignments to a request leave in it.
\<close>

definition rx_response :: "ring_idx \<Rightarrow> netfront_info \<Rightarrow> netif_rx_response option" where
  "rx_response i s =
     (let k = ring_slot (f_nr_ents (rx s)) i
      in if k < length (ring (rxs s)) then Some (rx_view (ring (rxs s) ! k)) else None)"

definition put_rx :: "ring_idx \<Rightarrow> nat \<Rightarrow> nat \<Rightarrow> netfront_info \<Rightarrow> netfront_info option" where
  "put_rx i idv ref s =
     map_option (\<lambda>r. s\<lparr>rxs := ring_put (f_nr_ents (rx s)) i
         (Req \<lparr>rxq_id = of_nat idv, rxq_pad = rx_offset r, rxq_gref = ref\<rparr>) (rxs s)\<rparr>) (rx_response i s)"

definition frag_page :: "rx_skb \<Rightarrow> nat" where "frag_page skb = fst (hd (rx_frags skb))"

definition rx_notify :: "netfront_info \<Rightarrow> netfront_info" where
  "rx_notify s =
     (case RING_PUSH_REQUESTS_AND_CHECK_NOTIFY (rx s) (rxs s) of (notify, sr) \<Rightarrow>
        let s = s\<lparr>rxs := sr\<rparr> in if notify then s\<lparr>notified := notified s + 1\<rparr> else s)"

section \<open>Filling the ring\<close>

text \<open>Allocations \<open>i, i + 1, \<dots>\<close>, \<open>n\<close> of them: the number reached, and whether one failed.\<close>

fun fill_batch :: "net_env \<Rightarrow> nat \<Rightarrow> int \<Rightarrow> netfront_info \<Rightarrow> int \<times> bool \<times> netfront_info" where
  "fill_batch e 0 i s = (i, False, s)"
| "fill_batch e (Suc n) i s =
     (case rx_alloc e (nat i) of
        None \<Rightarrow> (i, True, s\<lparr>rx_refill_timer := True\<rparr>)
      | Some (no, pg) \<Rightarrow>
          fill_batch e n (i + 1)
            (s\<lparr>rx_batch := rx_batch s @
                [\<lparr>rx_no = no, rx_frags = [(pg, 0, 0)], rx_head = 0, rx_len = 0, pull_to = 0, rx_gso = 0,
                  rx_summed = CHECKSUM_NONE\<rparr>]\<rparr>))"

definition post_buffer :: "net_env \<Rightarrow> ring_idx \<Rightarrow> rx_skb \<Rightarrow> netfront_info \<Rightarrow> netfront_info option" where
  "post_buffer e i skb s =
     (let idv = xennet_rxidx i
      in if rx_skbs s idv \<noteq> None then None
         else let s = s\<lparr>rx_skbs := (rx_skbs s)(idv := Some skb)\<rparr>
         in (case gnttab_claim_grant_reference (gref_rx_head s) (ngnt s) of None \<Rightarrow> None
             | Some (ref, head) \<Rightarrow>
                 if sint (word_of_int ref :: u16) < 0 then None
                 else let s = s\<lparr>gref_rx_head := head, grant_rx_ref := (grant_rx_ref s)(idv := nat ref)\<rparr>
                 in (case (if \<not> copying_receiver s
                           then Some (gnttab_grant_foreign_transfer_ref (nat ref) (otherend s) (of_nat (frag_page skb)) (ngnt s))
                           else gnttab_grant_foreign_access_ref (nat ref) (otherend s) (page_mfn e (frag_page skb)) 0 (ngnt s)) of
                       None \<Rightarrow> None
                     | Some g \<Rightarrow> put_rx i idv (nat ref) (s\<lparr>ngnt := g\<rparr>))))"

fun post_buffers :: "net_env \<Rightarrow> ring_idx \<Rightarrow> rx_skb list \<Rightarrow> netfront_info \<Rightarrow> netfront_info option" where
  "post_buffers e i [] s = Some s"
| "post_buffers e i (skb # skbs) s =
     (case post_buffer e i skb s of None \<Rightarrow> None | Some s \<Rightarrow> post_buffers e (i + 1) skbs s)"

text \<open>The part from \<open>refill\<close> on: with flipping, the pages leave the reservation.\<close>

definition refill :: "net_env \<Rightarrow> netfront_info \<Rightarrow> netfront_info option" where
  "refill e s =
     (let req_prod = req_prod_pvt (rx s); skbs = rx_batch s; n = length skbs
      in case post_buffers e req_prod skbs (s\<lparr>rx_batch := []\<rparr>) of None \<Rightarrow> None
         | Some s \<Rightarrow>
             if \<not> copying_receiver s \<and> n \<noteq> 0 \<and> \<not> reservation_ok e then None
             else let s = (if \<not> copying_receiver s \<and> n \<noteq> 0 then s\<lparr>driver_pages := driver_pages s + int n\<rparr> else s)
             in Some (rx_notify (s\<lparr>rx := (rx s)\<lparr>req_prod_pvt := req_prod + of_nat n\<rparr>\<rparr>)))"

definition batch_target :: "netfront_info \<Rightarrow> int" where
  "batch_target s = sint (rx_target s - (req_prod_pvt (rx s) - rsp_cons (rx s)))"

definition adjust_target :: "netfront_info \<Rightarrow> netfront_info" where
  "adjust_target s =
     (if req_prod_pvt (rx s) - rsp_prod (rxs s) < rx_target s div 4
      then if rx_target s * 2 > rx_max_target s then s\<lparr>rx_target := rx_max_target s\<rparr> else s\<lparr>rx_target := rx_target s * 2\<rparr>
      else s)"

definition network_alloc_rx_buffers :: "net_env \<Rightarrow> netfront_info \<Rightarrow> netfront_info option" where
  "network_alloc_rx_buffers e s =
     (if \<not> carrier s then Some s
      else let i = int (length (rx_batch s))
      in case fill_batch e (nat (batch_target s - i)) i s of (i, failed, s) \<Rightarrow>
           if failed \<and> i \<noteq> 0 then refill e s
           else if word_of_int i < rx_target s div 2
                then Some (if req_prod_pvt (rx s) > req_prod (rxs s) then rx_notify s else s)
                else refill e (adjust_target s))"

section \<open>Taking responses\<close>

definition xennet_move_rx_slot :: "rx_skb option \<Rightarrow> nat \<Rightarrow> netfront_info \<Rightarrow> netfront_info option" where
  "xennet_move_rx_slot skb ref s =
     (let new = xennet_rxidx (req_prod_pvt (rx s))
      in if rx_skbs s new \<noteq> None then None
         else let s = s\<lparr>rx_skbs := (rx_skbs s)(new := skb), grant_rx_ref := (grant_rx_ref s)(new := ref)\<rparr>
         in map_option (\<lambda>s. s\<lparr>rx := (rx s)\<lparr>req_prod_pvt := req_prod_pvt (rx s) + 1\<rparr>\<rparr>) (put_rx (req_prod_pvt (rx s)) new ref s))"

text \<open>
  The extra descriptors from \<open>cons\<close> on: the error, the descriptors by type, the last position.
  The flags are read again after the slot's buffer has been moved.
\<close>

function xennet_get_extras :: "ring_idx \<Rightarrow> ring_idx \<Rightarrow> int \<Rightarrow> netif_extra_info list \<Rightarrow> netfront_info \<Rightarrow>
    (int \<times> netif_extra_info list \<times> netfront_info) option" where
  "xennet_get_extras rp cons err extras s =
     (if cons + 1 = rp then Some (- EBADR, extras, s\<lparr>rx := (rx s)\<lparr>rsp_cons := cons\<rparr>\<rparr>)
      else let cons = cons + 1 in
        (case rx_response cons s of None \<Rightarrow> None
         | Some r \<Rightarrow>
             let x = rx_extra r;
                 bad = (ex_type x = 0 \<or> ex_type x \<ge> XEN_NETIF_EXTRA_TYPE_MAX);
                 err = (if bad then - EINVAL else err);
                 extras = (if bad then extras else extras[unat (ex_type x) - 1 := x])
             in (case xennet_get_rx_skb cons s of (skb, s) \<Rightarrow>
                 (case xennet_get_rx_ref cons s of (ref, s) \<Rightarrow>
                  (case xennet_move_rx_slot skb ref s of None \<Rightarrow> None
                   | Some s \<Rightarrow>
                       (case rx_response cons s of None \<Rightarrow> None
                        | Some r \<Rightarrow>
                            if ex_flags (rx_extra r) AND XEN_NETIF_EXTRA_FLAG_MORE \<noteq> 0
                            then xennet_get_extras rp cons err extras s
                            else Some (err, extras, s\<lparr>rx := (rx s)\<lparr>rsp_cons := cons\<rparr>\<rparr>)))))))"
  by pat_completeness auto

lemma next_nearer: "c \<noteq> rp \<Longrightarrow> unat (rp - c - 1) < unat (rp - c)" for c rp :: u32
  using word_pred_less [of "rp - c"] unfolding word_less_nat_alt by simp

lemma next_before: "c + 1 \<noteq> rp \<Longrightarrow> unat (rp - c - 2) < unat (rp - c - 1)" for c rp :: u32
  using next_nearer [of "c + 1" rp] by (simp add: diff_diff_eq [symmetric])

termination xennet_get_extras
  by (relation "measure (\<lambda>(rp, cons, err, extras, s). unat (rp - cons - 1))") (simp_all add: next_before)

declare xennet_get_extras.simps [simp del]

text \<open>
  One response: its buffer goes back to the ring when the response is bad or no page came,
  is lost when it has no reference, and is queued otherwise.
\<close>

definition take_response :: "net_env \<Rightarrow> netif_rx_response \<Rightarrow> rx_skb option \<Rightarrow> nat \<Rightarrow> int \<times> rx_skb list \<times> nat \<times> netfront_info \<Rightarrow>
    (int \<times> rx_skb list \<times> nat \<times> netfront_info) option" where
  "take_response e r skb ref = (\<lambda>(err, queue, pages, s).
     if sint (rx_status r) < 0 \<or> int (unat (rx_offset r)) + sint (rx_status r) > int PAGE_SIZE
     then map_option (\<lambda>s. (- EINVAL, queue, pages, s)) (xennet_move_rx_slot skb ref s)
     else if ref = GRANT_INVALID_REF then Some (- EINVAL, queue, pages, s)
     else case (if copying_receiver s
                then (case gnttab_end_foreign_access_ref (nhyp e ref) ref (ngnt s) of
                        (ok, g) \<Rightarrow> if ok = 0 then None else Some (True, pages, g))
                else (case gnttab_end_foreign_transfer_ref (nflip e ref) ref (ngnt s) of
                        (Frame mfn, g) \<Rightarrow> Some (if mfn = 0 then (False, pages, g) else (True, pages + 1, g)) | _ \<Rightarrow> None)) of
            None \<Rightarrow> None
          | Some (False, pages, g) \<Rightarrow>
              map_option (\<lambda>s. (- ENOMEM, queue, pages, s)) (xennet_move_rx_slot skb ref (s\<lparr>ngnt := g\<rparr>))
          | Some (True, pages, g) \<Rightarrow>
              (case gnttab_release_grant_reference (gref_rx_head s) ref g of None \<Rightarrow> None
               | Some (head, g) \<Rightarrow>
                   map_option (\<lambda>skb. (err, queue @ [skb], pages, s\<lparr>ngnt := g, gref_rx_head := head\<rparr>)) skb))"

text \<open>
  The slots of a packet: \<open>r\<close> is the response in hand, \<open>ptr\<close> its slot, or \<open>None\<close> for the first, of
  which the poll has made a copy; \<open>next\<close> is the next slot and \<open>frags\<close> the number taken so far.
\<close>

function take_responses :: "net_env \<Rightarrow> ring_idx \<Rightarrow> ring_idx option \<Rightarrow> netif_rx_response \<Rightarrow> rx_skb option \<Rightarrow> nat \<Rightarrow> ring_idx \<Rightarrow> nat \<Rightarrow>
    int \<times> rx_skb list \<times> nat \<times> netfront_info \<Rightarrow> (nat \<times> int \<times> rx_skb list \<times> nat \<times> netfront_info) option" where
  "take_responses e rp ptr r skb ref nxt frags st =
     (case take_response e r skb ref st of None \<Rightarrow> None
      | Some (err, queue, pages, s) \<Rightarrow>
          (case (case ptr of None \<Rightarrow> Some r | Some k \<Rightarrow> rx_response k s) of None \<Rightarrow> None
           | Some r \<Rightarrow>
               if rx_flags r AND XEN_NETRXF_more_data = 0 then Some (frags, err, queue, pages, s)
               else if nxt = rp then Some (frags, - ENOENT, queue, pages, s)
               else (case rx_response nxt s of None \<Rightarrow> None
                     | Some r \<Rightarrow>
                         (case xennet_get_rx_skb nxt s of (skb, s) \<Rightarrow>
                          (case xennet_get_rx_ref nxt s of (ref, s) \<Rightarrow>
                             take_responses e rp (Some nxt) r skb ref (nxt + 1) (frags + 1) (err, queue, pages, s))))))"
  by pat_completeness auto

termination take_responses
  by (relation "measure (\<lambda>(e, rp, ptr, r, skb, ref, nxt, frags, st). unat (rp - nxt))") (simp_all add: next_nearer diff_diff_eq [symmetric])

declare take_responses.simps [simp del]

definition xennet_get_responses :: "net_env \<Rightarrow> netif_rx_response \<Rightarrow> ring_idx \<Rightarrow> nat \<Rightarrow> netfront_info \<Rightarrow>
    (int \<times> netif_extra_info list \<times> rx_skb list \<times> nat \<times> netfront_info) option" where
  "xennet_get_responses e r rp pages s =
     (let cons = rsp_cons (rx s);
          none = \<lparr>ex_type = 0, ex_flags = 0, ex_gso_size = 0, ex_gso_type = 0, ex_gso_pad = 0, ex_gso_features = 0\<rparr>;
          extras = replicate 3 none
      in case xennet_get_rx_skb cons s of (skb, s) \<Rightarrow>
        (case xennet_get_rx_ref cons s of (ref, s) \<Rightarrow>
         (let bound = MAX_SKB_FRAGS + (if sint (rx_status r) \<le> int RX_COPY_THRESHOLD then 1 else 0)
          in case (if rx_flags r AND XEN_NETRXF_extra_info \<noteq> 0 then xennet_get_extras rp cons 0 extras s
                   else Some (0, extras, s)) of None \<Rightarrow> None
             | Some (err, extras, s) \<Rightarrow>
                 let cons = (if rx_flags r AND XEN_NETRXF_extra_info \<noteq> 0 then rsp_cons (rx s) else cons)
                 in (case take_responses e rp None r skb ref (cons + 1) 1 (err, [], pages, s) of None \<Rightarrow> None
                     | Some (frags, err, queue, pages, s) \<Rightarrow>
                         let err = (if frags > bound then - E2BIG else err)
                         in Some (err, extras, queue, pages,
                              if err \<noteq> 0 then s\<lparr>rx := (rx s)\<lparr>rsp_cons := cons + of_nat frags\<rparr>\<rparr> else s)))))"

section \<open>Joining the pieces\<close>

text \<open>\<open>skb_add_rx_frag\<close>\<close>

definition add_rx_frag :: "nat \<Rightarrow> nat \<Rightarrow> nat \<Rightarrow> rx_skb \<Rightarrow> rx_skb" where
  "add_rx_frag pg off n skb = skb\<lparr>rx_frags := rx_frags skb @ [(pg, off, n)], rx_len := rx_len skb + n\<rparr>"

fun xennet_fill_frags :: "net_env \<Rightarrow> rx_skb \<Rightarrow> rx_skb list \<Rightarrow> ring_idx \<Rightarrow> netfront_info \<Rightarrow> (rx_skb \<times> ring_idx \<times> netfront_info) option" where
  "xennet_fill_frags e skb [] cons s = Some (skb, cons, s)"
| "xennet_fill_frags e skb (nskb # list) cons s =
     (case rx_response (cons + 1) s of None \<Rightarrow> None
      | Some r \<Rightarrow>
          (case (if length (rx_frags skb) = MAX_SKB_FRAGS
                 then if pull_to skb \<le> rx_head skb then None else Some (pull_tail e (pull_to skb - rx_head skb) skb)
                 else Some skb) of None \<Rightarrow> None
           | Some skb \<Rightarrow>
               if length (rx_frags skb) \<ge> MAX_SKB_FRAGS then None
               else xennet_fill_frags e
                      (add_rx_frag (frag_page nskb) (unat (rx_offset r)) (nat (sint (rx_status r))) skb)
                      list (cons + 1) (s\<lparr>rx_freed := rx_freed s @ [nskb\<lparr>rx_frags := []\<rparr>]\<rparr>)))"

definition xennet_set_skb_gso :: "netif_extra_info \<Rightarrow> rx_skb \<Rightarrow> int \<times> rx_skb" where
  "xennet_set_skb_gso x skb =
     (if ex_gso_size x = 0 then (- EINVAL, skb)
      else if ex_gso_type x \<noteq> XEN_NETIF_GSO_TYPE_TCPV4 then (- EINVAL, skb)
      else (0, skb\<lparr>rx_gso := ex_gso_size x\<rparr>))"

text \<open>Of \<open>skb_checksum_setup\<close> (\<^verbatim>\<open>include/xen/net-util.h\<close>): its result and the count of packets fixed up.\<close>

definition ETH_P_IP :: u16 where "ETH_P_IP = 0x800"
definition IPPROTO_TCP :: u8 where "IPPROTO_TCP = 6"
definition IPPROTO_UDP :: u8 where "IPPROTO_UDP = 17"

definition skb_checksum_setup :: "net_env \<Rightarrow> rx_skb \<Rightarrow> nat \<Rightarrow> int \<times> nat" where
  "skb_checksum_setup e skb fixups =
     (if rx_summed skb \<noteq> CHECKSUM_PARTIAL \<and> rx_gso skb = 0 then (0, fixups)
      else let fixups = (if rx_summed skb \<noteq> CHECKSUM_PARTIAL then fixups + 1 else fixups)
      in if eth_proto e skb \<noteq> ETH_P_IP then (- EPROTO, fixups)
         else if ip_proto e skb = IPPROTO_TCP then (if partial_csum_set e skb (4 * ip_ihl e skb) 16 then 0 else - EPROTO, fixups)
         else if ip_proto e skb = IPPROTO_UDP then (if partial_csum_set e skb (4 * ip_ihl e skb) 6 then 0 else - EPROTO, fixups)
         else (- EPROTO, fixups))"

section \<open>The poll\<close>

text \<open>
  What one turn of the receive loop makes of a packet that came in whole: the packet
  for the stack, or the buffers of a packet whose segmentation descriptor is wrong.
\<close>

definition join_packet :: "net_env \<Rightarrow> netif_rx_response \<Rightarrow> netif_extra_info list \<Rightarrow> rx_skb list \<Rightarrow> netfront_info \<Rightarrow>
    (rx_skb list + rx_skb) option \<times> netfront_info" where
  "join_packet e r extras queue s =
     (case queue of [] \<Rightarrow> (None, s)
      | skb # rest \<Rightarrow>
          let gso = extras ! 0;
              (err, skb) = (if ex_type gso \<noteq> 0 then xennet_set_skb_gso gso skb else (0, skb))
          in if err \<noteq> 0
             then (Some (Inl (skb # rest)), s\<lparr>rx := (rx s)\<lparr>rsp_cons := rsp_cons (rx s) + of_nat (length (skb # rest))\<rparr>\<rparr>)
             else let n = nat (sint (rx_status r));
                      skb = skb\<lparr>rx_frags := (frag_page skb, unat (rx_offset r), n) # tl (rx_frags skb),
                                rx_len := rx_len skb + n, pull_to := min n RX_COPY_THRESHOLD\<rparr>
             in (case xennet_fill_frags e skb rest (rsp_cons (rx s)) s of None \<Rightarrow> (None, s)
                 | Some (skb, i, s) \<Rightarrow>
                     (Some (Inr (skb\<lparr>rx_summed :=
                         (if rx_flags r AND XEN_NETRXF_csum_blank \<noteq> 0 then CHECKSUM_PARTIAL
                          else if rx_flags r AND XEN_NETRXF_data_validated \<noteq> 0 then CHECKSUM_UNNECESSARY
                          else CHECKSUM_NONE)\<rparr>)),
                      s\<lparr>rx := (rx s)\<lparr>rsp_cons := i + 1\<rparr>\<rparr>)))"

text \<open>
  The loop, with the packets done, \<open>rxq\<close>, \<open>errq\<close> and the number of pages flipped. Every turn takes
  at least one response, so \<open>fuel\<close> beyond their number is not used up.
\<close>

fun poll_loop :: "net_env \<Rightarrow> ring_idx \<Rightarrow> int \<Rightarrow> nat \<Rightarrow> int \<times> rx_skb list \<times> rx_skb list \<times> nat \<times> netfront_info \<Rightarrow>
    (int \<times> rx_skb list \<times> rx_skb list \<times> nat \<times> netfront_info) option" where
  "poll_loop e rp budget 0 st = None"
| "poll_loop e rp budget (Suc fuel) (work, rxq, errq, pages, s) =
     (if rsp_cons (rx s) = rp \<or> \<not> work < budget then Some (work, rxq, errq, pages, s)
      else case rx_response (rsp_cons (rx s)) s of None \<Rightarrow> None
      | Some r \<Rightarrow>
          (case xennet_get_responses e r rp pages s of None \<Rightarrow> None
           | Some (err, extras, queue, pages, s) \<Rightarrow>
               if err \<noteq> 0 then poll_loop e rp budget fuel (work, rxq, errq @ queue, pages, s\<lparr>rx_errors := rx_errors s + 1\<rparr>)
               else (case join_packet e r extras queue s of
                       (None, s) \<Rightarrow> None
                     | (Some (Inl skbs), s) \<Rightarrow>
                         poll_loop e rp budget fuel (work, rxq, errq @ skbs, pages, s\<lparr>rx_errors := rx_errors s + 1\<rparr>)
                     | (Some (Inr skb), s) \<Rightarrow> poll_loop e rp budget fuel (work + 1, rxq @ [skb], errq, pages, s))))"

fun pass_up :: "net_env \<Rightarrow> rx_skb list \<Rightarrow> int \<times> netfront_info \<Rightarrow> int \<times> netfront_info" where
  "pass_up e [] st = st"
| "pass_up e (skb # skbs) (work, s) =
     (let skb = (if pull_to skb > rx_head skb then pull_tail e (pull_to skb - rx_head skb) skb else skb);
          (err, fixups) = skb_checksum_setup e skb (rx_gso_csum_fixups s);
          s = s\<lparr>rx_gso_csum_fixups := fixups\<rparr>
      in if err \<noteq> 0
         then pass_up e skbs (work - 1, s\<lparr>rx_errors := rx_errors s + 1, rx_freed := rx_freed s @ [skb]\<rparr>)
         else pass_up e skbs (work, s\<lparr>rx_packets := rx_packets s + 1, rx_bytes := rx_bytes s + rx_len skb, passed_up := passed_up s @ [skb]\<rparr>))"

definition lower_target :: "netfront_info \<Rightarrow> netfront_info" where
  "lower_target s =
     (if req_prod_pvt (rx s) - rsp_prod (rxs s) > 3 * rx_target s div 4
      then if rx_target s - 1 < rx_min_target s then s\<lparr>rx_target := rx_min_target s\<rparr> else s\<lparr>rx_target := rx_target s - 1\<rparr>
      else s)"

text \<open>
  The end of the poll: the accelerator's turn, and the last look at the ring before the
  interrupt is relied upon again; \<open>peer\<close> is what the backend does to the page meanwhile.
\<close>

definition poll_end :: "((netif_rx_request, netif_rx_response) sring \<Rightarrow> (netif_rx_request, netif_rx_response) sring) \<Rightarrow>
    int \<Rightarrow> int \<Rightarrow> netfront_info \<Rightarrow> int \<times> netfront_info" where
  "poll_end peer budget work s =
     (let (work, accel_more) =
            (if work < budget
             then (case hooks s of
                     Some h \<Rightarrow> (case h_poll h (budget - work) of (left, busy) \<Rightarrow> (work + (budget - work - left), busy))
                   | None \<Rightarrow> (work, False))
             else (work, True))
      in if work < budget
         then (case RING_FINAL_CHECK_FOR_RESPONSES peer (rx s) (rxs s) of (found, sr) \<Rightarrow>
                let s = s\<lparr>rxs := sr\<rparr>;
                    accel_more = (case hooks s of Some h \<Rightarrow> if found = 0 \<and> \<not> accel_more then h_start_napi_irq h else accel_more
                                  | None \<Rightarrow> accel_more)
                in (work, if found = 0 \<and> \<not> accel_more then s\<lparr>napi_scheduled := False\<rparr> else s))
         else (work, s))"

definition netif_poll :: "net_env \<Rightarrow> ((netif_rx_request, netif_rx_response) sring \<Rightarrow> (netif_rx_request, netif_rx_response) sring) \<Rightarrow>
    int \<Rightarrow> netfront_info \<Rightarrow> (int \<times> netfront_info) option" where
  "netif_poll e peer budget s =
     (if \<not> carrier s then Some (0, s)
      else let rp = rsp_prod (rxs s)
      in case poll_loop e rp budget (Suc (unat (rp - rsp_cons (rx s)))) (0, [], [], 0, s) of None \<Rightarrow> None
         | Some (work, rxq, errq, pages, s) \<Rightarrow>
             if pages \<noteq> 0 \<and> \<not> auto_translated e \<and> \<not> remap_ok e then None
             else let s = (if pages \<noteq> 0 then s\<lparr>driver_pages := driver_pages s - int pages\<rparr> else s);
                      (work, s) = pass_up e rxq (work, s\<lparr>rx_freed := rx_freed s @ errq\<rparr>)
             in (case network_alloc_rx_buffers e (lower_target s) of None \<Rightarrow> None
                 | Some s \<Rightarrow> Some (poll_end peer budget work s)))"

section \<open>Interrupt, opening, timer\<close>

definition napi_schedule :: "netfront_info \<Rightarrow> netfront_info" where
  "napi_schedule s = (netfront_accelerator_call_stop_napi_irq s)\<lparr>napi_scheduled := True\<rparr>"

definition netif_int :: "net_env \<Rightarrow> ((tx_slot, netif_tx_response) sring \<Rightarrow> (tx_slot, netif_tx_response) sring) list \<Rightarrow>
    netfront_info \<Rightarrow> netfront_info option" where
  "netif_int e peers s =
     (if \<not> carrier s then Some s
      else map_option (\<lambda>s. if RING_HAS_UNCONSUMED_RESPONSES (rx s) (rxs s) \<noteq> 0 then napi_schedule s else s)
             (network_tx_buf_gc e peers s))"

definition network_open :: "net_env \<Rightarrow> netfront_info \<Rightarrow> netfront_info option" where
  "network_open e s =
     map_option (\<lambda>s. s\<lparr>queue_stopped := False\<rparr>)
       (if carrier s
        then map_option (\<lambda>s. let s = s\<lparr>rxs := (rxs s)\<lparr>rsp_event := rsp_cons (rx s) + 1\<rparr>\<rparr>
               in if RING_HAS_UNCONSUMED_RESPONSES (rx s) (rxs s) \<noteq> 0 then napi_schedule s else s)
               (network_alloc_rx_buffers e s)
        else Some s)"

definition rx_refill_timeout :: "netfront_info \<Rightarrow> netfront_info" where
  "rx_refill_timeout s = napi_schedule (s\<lparr>rx_refill_timer := False\<rparr>)"

end
