(* ===== verification/Netfront_Rx_Account.thy ===== *)
theory Netfront_Rx_Account
  imports Netfront_Rx "HOL-Library.Multiset"
begin

text \<open>
  Where the receive buffers of the network front end are: on the ring, waiting to be posted, passed
  up to the stack, or freed. Every step of the poll keeps this account: what it takes from one place it
  puts into another. Buffers are told apart by their number.
\<close>

section \<open>The account\<close>

definition skb_nos :: "rx_skb list \<Rightarrow> nat multiset" where
  "skb_nos ks = mset (map rx_no ks)"

definition slot_nos :: "rx_skb option \<Rightarrow> nat multiset" where
  "slot_nos k = (case k of None \<Rightarrow> {#} | Some k \<Rightarrow> {#rx_no k#})"

definition posted_nos :: "netfront_info \<Rightarrow> nat multiset" where
  "posted_nos s = (\<Sum>i < 256. slot_nos (rx_skbs s i))"

definition rx_buffers :: "netfront_info \<Rightarrow> nat multiset" where
  "rx_buffers s = posted_nos s + skb_nos (rx_batch s) + skb_nos (passed_up s) + skb_nos (rx_freed s)"

text \<open>A slot with a buffer has a reference.\<close>

definition slots_granted :: "netfront_info \<Rightarrow> bool" where
  "slots_granted s \<longleftrightarrow> (\<forall>i < 256. rx_skbs s i \<noteq> None \<longrightarrow> grant_rx_ref s i \<noteq> GRANT_INVALID_REF)"

lemma skb_nos_simps [simp]:
  "skb_nos [] = {#}" "skb_nos (k # ks) = add_mset (rx_no k) (skb_nos ks)" "skb_nos (ks @ ls) = skb_nos ks + skb_nos ls"
  by (simp_all add: skb_nos_def)

lemma slot_nos_simps [simp]: "slot_nos None = {#}" "slot_nos (Some k) = {#rx_no k#}"
  by (simp_all add: slot_nos_def)

lemma rxidx_small [simp]: "xennet_rxidx i < 256"
proof -
  have "unat (i AND of_nat (NET_RX_RING_SIZE - 1)) \<le> unat (of_nat (NET_RX_RING_SIZE - 1) :: u32)"
    by (meson word_and_le1 word_le_nat_alt)
  then show ?thesis by (simp add: xennet_rxidx_def NET_RX_RING_SIZE_def)
qed

lemma posted_upd:
  assumes "i < 256" and "\<And>j. j \<noteq> i \<Longrightarrow> rx_skbs t j = rx_skbs s j"
  shows "posted_nos t + slot_nos (rx_skbs s i) = posted_nos s + slot_nos (rx_skbs t i)"
proof -
  have "(\<Sum>j \<in> {..<256} - {i}. slot_nos (rx_skbs t j)) = (\<Sum>j \<in> {..<256} - {i}. slot_nos (rx_skbs s j))"
    using assms(2) by (intro sum.cong) auto
  then show ?thesis
    using assms(1) sum.remove [of "{..<256}" i "\<lambda>j. slot_nos (rx_skbs t j)"] sum.remove [of "{..<256}" i "\<lambda>j. slot_nos (rx_skbs s j)"]
    by (simp add: posted_nos_def ac_simps)
qed

text \<open>The part of the state the account depends on.\<close>

definition same_account :: "netfront_info \<Rightarrow> netfront_info \<Rightarrow> bool" where
  "same_account s t \<longleftrightarrow> rx_skbs t = rx_skbs s \<and> grant_rx_ref t = grant_rx_ref s \<and> rx_batch t = rx_batch s \<and>
     passed_up t = passed_up s \<and> rx_freed t = rx_freed s"

lemma same_account_kept: "same_account s t \<Longrightarrow> rx_buffers t = rx_buffers s \<and> slots_granted t = slots_granted s"
  by (simp add: same_account_def rx_buffers_def posted_nos_def slots_granted_def)

section \<open>Taking responses\<close>

lemma take_account:
  assumes "xennet_get_rx_skb c s = (k, s1)" and "xennet_get_rx_ref c s1 = (r, t)" and g: "slots_granted s"
  shows "rx_buffers t + slot_nos k = rx_buffers s \<and> slots_granted t \<and> (k \<noteq> None \<longrightarrow> r \<noteq> GRANT_INVALID_REF)"
proof -
  let ?i = "xennet_rxidx c"
  have k: "k = rx_skbs s ?i" "r = grant_rx_ref s ?i" and
    t: "t = s\<lparr>rx_skbs := (rx_skbs s)(?i := None), grant_rx_ref := (grant_rx_ref s)(?i := GRANT_INVALID_REF)\<rparr>"
    using assms(1,2) by (auto simp: xennet_get_rx_skb_def xennet_get_rx_ref_def Let_def)
  have "posted_nos t + slot_nos (rx_skbs s ?i) = posted_nos s + slot_nos (rx_skbs t ?i)"
    by (rule posted_upd) (simp_all add: t)
  then have "posted_nos t + slot_nos k = posted_nos s" by (simp add: k t)
  then have "rx_buffers t + slot_nos k = rx_buffers s"
    by (simp add: rx_buffers_def) (simp add: t ac_simps)
  moreover have "slots_granted t" using g by (simp add: slots_granted_def t)
  moreover have "k \<noteq> None \<longrightarrow> r \<noteq> GRANT_INVALID_REF" using g unfolding k slots_granted_def by simp
  ultimately show ?thesis by blast
qed

lemma put_rx_account: "put_rx i v r s = Some t \<Longrightarrow> same_account s t"
  by (auto simp: put_rx_def same_account_def)

text \<open>An empty slot is filled.\<close>

lemma fill_slot:
  assumes "rx_skbs s i = None" and "i < 256"
    and u: "rx_skbs u = (rx_skbs s)(i := k)" "rx_batch u = rx_batch s" "passed_up u = passed_up s" "rx_freed u = rx_freed s"
  shows "rx_buffers u = rx_buffers s + slot_nos k"
proof -
  have "posted_nos u + slot_nos (rx_skbs s i) = posted_nos s + slot_nos (rx_skbs u i)"
    by (rule posted_upd) (simp_all add: assms)
  then have "posted_nos u = posted_nos s + slot_nos k" using assms by simp
  then show ?thesis by (simp add: rx_buffers_def u ac_simps)
qed

lemma fill_granted:
  "rx_skbs u = (rx_skbs s)(i := k) \<Longrightarrow> grant_rx_ref u = (grant_rx_ref s)(i := r) \<Longrightarrow> (k \<noteq> None \<longrightarrow> r \<noteq> GRANT_INVALID_REF) \<Longrightarrow>
   slots_granted s \<Longrightarrow> slots_granted u"
  by (simp add: slots_granted_def)

lemma move_account:
  assumes run: "xennet_move_rx_slot k r s = Some t" and r: "k \<noteq> None \<longrightarrow> r \<noteq> GRANT_INVALID_REF" and g: "slots_granted s"
  shows "rx_buffers t = rx_buffers s + slot_nos k \<and> slots_granted t"
proof -
  let ?i = "xennet_rxidx (req_prod_pvt (rx s))"
  let ?u = "s\<lparr>rx_skbs := (rx_skbs s)(?i := k), grant_rx_ref := (grant_rx_ref s)(?i := r)\<rparr>"
  have none: "rx_skbs s ?i = None" using run by (auto simp: xennet_move_rx_slot_def Let_def split: if_splits)
  then obtain v where v: "put_rx (req_prod_pvt (rx s)) ?i r ?u = Some v" "t = v\<lparr>rx := (rx v)\<lparr>req_prod_pvt := req_prod_pvt (rx v) + 1\<rparr>\<rparr>"
    using run by (auto simp: xennet_move_rx_slot_def Let_def)
  have "same_account ?u t" using put_rx_account [OF v(1)] by (simp add: same_account_def v(2))
  moreover have "rx_buffers ?u = rx_buffers s + slot_nos k" by (rule fill_slot [OF none rxidx_small]) simp_all
  moreover have "slots_granted ?u" by (rule fill_granted [OF _ _ r g]) simp_all
  ultimately show ?thesis using same_account_kept by simp
qed

lemma extras_account:
  "xennet_get_extras rp c err ex s = Some (err', ex', t) \<Longrightarrow> slots_granted s \<Longrightarrow> rx_buffers t = rx_buffers s \<and> slots_granted t"
proof (induction "unat (rp - c - 1)" arbitrary: c err ex s rule: less_induct)
  case less
  have cons [simp]: "rx_buffers (v\<lparr>rx := x\<rparr>) = rx_buffers v" "slots_granted (v\<lparr>rx := x\<rparr>) = slots_granted v" for v x
    using same_account_kept [of v "v\<lparr>rx := x\<rparr>"] by (simp_all add: same_account_def)
  show ?case
  proof (cases "c + 1 = rp")
    case True
    then show ?thesis using less.prems by (subst (asm) xennet_get_extras.simps) auto
  next
    case False
    obtain k s1 where k: "xennet_get_rx_skb (c + 1) s = (k, s1)" by fastforce
    obtain r s2 where r: "xennet_get_rx_ref (c + 1) s1 = (r, s2)" by fastforce
    obtain q where q: "rx_response (c + 1) s = Some q"
      using less.prems(1) False by (subst (asm) xennet_get_extras.simps) (auto simp: Let_def split: option.splits)
    obtain s3 where mv: "xennet_move_rx_slot k r s2 = Some s3"
      using less.prems(1) False k r q by (subst (asm) xennet_get_extras.simps) (auto simp: Let_def split: option.splits)
    note tk = take_account [OF k r less.prems(2)]
    have m: "rx_buffers s3 = rx_buffers s" "slots_granted s3" using move_account [OF mv] tk by auto
    have "(\<exists>e x. xennet_get_extras rp (c + 1) e x s3 = Some (err', ex', t)) \<or> t = s3\<lparr>rx := (rx s3)\<lparr>rsp_cons := c + 1\<rparr>\<rparr>"
      using less.prems(1) False k r q mv
      by (subst (asm) xennet_get_extras.simps) (simp add: Let_def split: option.splits if_split_asm, blast+)
    then show ?thesis
    proof
      assume "\<exists>e x. xennet_get_extras rp (c + 1) e x s3 = Some (err', ex', t)"
      then obtain e x where "xennet_get_extras rp (c + 1) e x s3 = Some (err', ex', t)" by blast
      moreover have "unat (rp - (c + 1) - 1) < unat (rp - c - 1)" using next_before [OF False] by (simp add: algebra_simps)
      ultimately show ?thesis using less.hyps [of "c + 1" e x s3] m by simp
    qed (use m in simp)
  qed
qed

lemma response_account:
  assumes run: "take_response e r k ref (err, queue, pages, s) = Some (err', queue', pages', t)"
    and ref: "k \<noteq> None \<longrightarrow> ref \<noteq> GRANT_INVALID_REF" and g: "slots_granted s"
  shows "rx_buffers t + skb_nos queue' = rx_buffers s + skb_nos queue + slot_nos k \<and> slots_granted t"
proof -
  have gn [simp]: "rx_buffers (v\<lparr>ngnt := x\<rparr>) = rx_buffers v" "slots_granted (v\<lparr>ngnt := x\<rparr>) = slots_granted v"
    "rx_buffers (v\<lparr>ngnt := x, gref_rx_head := h\<rparr>) = rx_buffers v" "slots_granted (v\<lparr>ngnt := x, gref_rx_head := h\<rparr>) = slots_granted v" for v x h
    using same_account_kept [of v "v\<lparr>ngnt := x\<rparr>"] same_account_kept [of v "v\<lparr>ngnt := x, gref_rx_head := h\<rparr>"]
    by (simp_all add: same_account_def)
  consider (moved) u where "queue' = queue" "xennet_move_rx_slot k ref u = Some t" "rx_buffers u = rx_buffers s" "slots_granted u"
    | (kept) q where "queue' = queue @ [q]" "k = Some q" "rx_buffers t = rx_buffers s" "slots_granted t"
    | (lost) "ref = GRANT_INVALID_REF" "queue' = queue" "t = s"
    using run g unfolding take_response_def
    by (auto split: if_splits option.splits prod.splits bool.splits transfer_end.splits)
  then show ?thesis
  proof cases
    case moved
    then show ?thesis using move_account [OF moved(2) ref] by simp
  next
    case kept
    then show ?thesis by simp
  next
    case lost
    then show ?thesis using ref g by simp
  qed
qed

lemma responses_account:
  "take_responses e rp ptr r k ref nxt frags (err, queue, pages, s) = Some (n, err', queue', pages', t) \<Longrightarrow>
   (k \<noteq> None \<longrightarrow> ref \<noteq> GRANT_INVALID_REF) \<Longrightarrow> slots_granted s \<Longrightarrow>
   rx_buffers t + skb_nos queue' = rx_buffers s + skb_nos queue + slot_nos k \<and> slots_granted t"
proof (induction "unat (rp - nxt)" arbitrary: ptr r k ref nxt frags err queue pages s rule: less_induct)
  case less
  obtain err1 queue1 pages1 s1 where one: "take_response e r k ref (err, queue, pages, s) = Some (err1, queue1, pages1, s1)"
    using less.prems(1) by (subst (asm) take_responses.simps) (auto split: option.splits)
  note a1 = response_account [OF one less.prems(2,3)]
  obtain r1 where r1: "(case ptr of None \<Rightarrow> Some r | Some i \<Rightarrow> rx_response i s1) = Some r1"
    using less.prems(1) one by (subst (asm) take_responses.simps) (auto split: option.splits)
  show ?case
  proof (cases "rx_flags r1 AND XEN_NETRXF_more_data = 0 \<or> nxt = rp")
    case True
    then have "queue' = queue1 \<and> t = s1"
      using less.prems(1) one r1 by (subst (asm) take_responses.simps) (auto split: if_splits option.splits)
    then show ?thesis using a1 by simp
  next
    case False
    obtain k2 s2 where k2: "xennet_get_rx_skb nxt s1 = (k2, s2)" by fastforce
    obtain ref2 s3 where r2: "xennet_get_rx_ref nxt s2 = (ref2, s3)" by fastforce
    obtain q where q: "rx_response nxt s1 = Some q"
      using less.prems(1) one r1 False by (subst (asm) take_responses.simps) (auto split: option.splits)
    have rec: "take_responses e rp (Some nxt) q k2 ref2 (nxt + 1) (frags + 1) (err1, queue1, pages1, s3) = Some (n, err', queue', pages', t)"
      using less.prems(1) one r1 False k2 r2 q by (subst (asm) take_responses.simps) simp
    note tk = take_account [OF k2 r2 conjunct2 [OF a1]]
    have "unat (rp - (nxt + 1)) < unat (rp - nxt)" using next_nearer [of nxt rp] False by (simp add: diff_diff_eq)
    from less.hyps [OF this rec] tk
    have "rx_buffers t + skb_nos queue' = rx_buffers s3 + skb_nos queue1 + slot_nos k2 \<and> slots_granted t" by blast
    moreover have "rx_buffers s3 + skb_nos queue1 + slot_nos k2 = (rx_buffers s3 + slot_nos k2) + skb_nos queue1"
      by (simp only: ac_simps)
    ultimately show ?thesis using tk a1 by simp
  qed
qed

lemma rx_only_account [simp]:
  "rx_buffers (v\<lparr>rx := x\<rparr>) = rx_buffers v" "slots_granted (v\<lparr>rx := x\<rparr>) = slots_granted v"
  "rx_buffers (v\<lparr>rx_errors := y\<rparr>) = rx_buffers v" "slots_granted (v\<lparr>rx_errors := y\<rparr>) = slots_granted v"
  by (simp_all add: rx_buffers_def posted_nos_def slots_granted_def)

lemma get_responses_account:
  assumes run: "xennet_get_responses e r rp pages s = Some (err, extras, queue, pages', t)" and g: "slots_granted s"
  shows "rx_buffers t + skb_nos queue = rx_buffers s \<and> slots_granted t"
proof -
  let ?c = "rsp_cons (rx s)"
  obtain k s1 where k: "xennet_get_rx_skb ?c s = (k, s1)" by fastforce
  obtain ref s2 where ref: "xennet_get_rx_ref ?c s1 = (ref, s2)" by fastforce
  note tk = take_account [OF k ref g]
  obtain err1 ex1 s3 where x: "(if rx_flags r AND XEN_NETRXF_extra_info \<noteq> 0
      then xennet_get_extras rp ?c 0 (replicate 3 \<lparr>ex_type = 0, ex_flags = 0, ex_gso_size = 0, ex_gso_type = 0, ex_gso_pad = 0, ex_gso_features = 0\<rparr>) s2
      else Some (0, replicate 3 \<lparr>ex_type = 0, ex_flags = 0, ex_gso_size = 0, ex_gso_type = 0, ex_gso_pad = 0, ex_gso_features = 0\<rparr>, s2)) =
      Some (err1, ex1, s3)"
    using run by (simp add: xennet_get_responses_def k ref Let_def split: option.splits) fastforce
  have s3: "rx_buffers s3 = rx_buffers s2 \<and> slots_granted s3"
    using x tk extras_account [of rp ?c 0 _ s2 err1 ex1 s3] by (auto split: if_splits)
  obtain c n err2 q2 p2 s4 where y: "take_responses e rp None r k ref (c + 1) 1 (err1, [], pages, s3) = Some (n, err2, q2, p2, s4)"
    "queue = q2" "rx_buffers t = rx_buffers s4" "slots_granted t = slots_granted s4"
    using run unfolding xennet_get_responses_def Let_def k ref prod.case x option.case
    by (auto split: option.splits if_splits)
  from responses_account [OF y(1)] tk s3 show ?thesis unfolding y(2-4) by simp
qed

section \<open>Joining, passing up\<close>

text \<open>Pulling data into the linear part gives back the same buffer.\<close>

definition pull_same :: "net_env \<Rightarrow> bool" where
  "pull_same e \<longleftrightarrow> (\<forall>n k. rx_no (pull_tail e n k) = rx_no k)"

lemma freed_account [simp]:
  "rx_buffers (s\<lparr>rx_freed := rx_freed s @ ks\<rparr>) = rx_buffers s + skb_nos ks"
  "slots_granted (s\<lparr>rx_freed := f\<rparr>) = slots_granted s"
  by (simp_all add: rx_buffers_def posted_nos_def slots_granted_def)

lemma fill_frags_account:
  "xennet_fill_frags e k list c s = Some (k', c', t) \<Longrightarrow> pull_same e \<Longrightarrow> slots_granted s \<Longrightarrow>
   rx_buffers t = rx_buffers s + skb_nos list \<and> rx_no k' = rx_no k \<and> slots_granted t"
proof (induction list arbitrary: k c s)
  case (Cons q list)
  obtain r where r: "rx_response (c + 1) s = Some r" using Cons.prems(1) by (auto split: option.splits)
  obtain k1 where k1: "xennet_fill_frags e (add_rx_frag (frag_page q) (unat (rx_offset r)) (nat (sint (rx_status r))) k1) list (c + 1)
      (s\<lparr>rx_freed := rx_freed s @ [q\<lparr>rx_frags := []\<rparr>]\<rparr>) = Some (k', c', t)" "rx_no k1 = rx_no k"
    using Cons.prems(1,2) r by (auto simp: pull_same_def split: option.splits if_splits)
  from Cons.IH [OF k1(1) Cons.prems(2)] show ?case using Cons.prems(3) k1(2) by (simp add: add_rx_frag_def)
qed simp

lemma join_account:
  assumes run: "join_packet e r extras queue s = (Some res, t)" and p: "pull_same e" and g: "slots_granted s"
  shows "rx_buffers t + (case res of Inl ks \<Rightarrow> skb_nos ks | Inr k \<Rightarrow> {#rx_no k#}) = rx_buffers s + skb_nos queue \<and> slots_granted t"
proof -
  obtain k ks where q: "queue = k # ks" using run by (cases queue) (simp_all add: join_packet_def)
  obtain err k1 where k1: "(if ex_type (extras ! 0) \<noteq> 0 then xennet_set_skb_gso (extras ! 0) k else (0, k)) = (err, k1)" by fastforce
  have no1: "rx_no k1 = rx_no k" using k1 by (auto simp: xennet_set_skb_gso_def split: if_splits)
  show ?thesis
  proof (cases "err = 0")
    case False
    then show ?thesis using run no1 g by (auto simp: join_packet_def q k1 Let_def)
  next
    case True
    define k2 where "k2 = k1\<lparr>rx_frags := (frag_page k1, unat (rx_offset r), nat (sint (rx_status r))) # tl (rx_frags k1),
      rx_len := rx_len k1 + nat (sint (rx_status r)), pull_to := min (nat (sint (rx_status r))) RX_COPY_THRESHOLD\<rparr>"
    have no2: "rx_no k2 = rx_no k" by (simp add: k2_def no1)
    obtain k3 i u where fill: "xennet_fill_frags e k2 ks (rsp_cons (rx s)) s = Some (k3, i, u)"
      and res: "t = u\<lparr>rx := (rx u)\<lparr>rsp_cons := i + 1\<rparr>\<rparr>" "\<exists>c. res = Inr (k3\<lparr>rx_summed := c\<rparr>)"
      using run True unfolding join_packet_def q list.case k1 Let_def prod.case k2_def [symmetric]
      by (auto split: option.splits)
    from fill_frags_account [OF fill p g] res(2) no2 show ?thesis unfolding res(1) q by (auto simp: ac_simps)
  qed
qed

lemma poll_loop_account:
  "poll_loop e rp budget fuel (work, rxq, errq, pages, s) = Some (work', rxq', errq', pages', t) \<Longrightarrow> pull_same e \<Longrightarrow> slots_granted s \<Longrightarrow>
   rx_buffers t + skb_nos rxq' + skb_nos errq' = rx_buffers s + skb_nos rxq + skb_nos errq \<and> slots_granted t"
proof (induction fuel arbitrary: work rxq errq pages s)
  case (Suc fuel)
  show ?case
  proof (cases "rsp_cons (rx s) = rp \<or> \<not> work < budget")
    case True
    then show ?thesis using Suc.prems by auto
  next
    case False
    obtain r where r: "rx_response (rsp_cons (rx s)) s = Some r" using Suc.prems(1) False by (auto split: option.splits)
    obtain err ex q p1 s1 where g: "xennet_get_responses e r rp pages s = Some (err, ex, q, p1, s1)"
      using Suc.prems(1) False r by (auto split: option.splits)
    note a = get_responses_account [OF g Suc.prems(3)]
    have step: "(if err \<noteq> 0 then poll_loop e rp budget fuel (work, rxq, errq @ q, p1, s1\<lparr>rx_errors := rx_errors s1 + 1\<rparr>)
        else case join_packet e r ex q s1 of (None, s) \<Rightarrow> None
          | (Some (Inl skbs), s) \<Rightarrow> poll_loop e rp budget fuel (work, rxq, errq @ skbs, p1, s\<lparr>rx_errors := rx_errors s + 1\<rparr>)
          | (Some (Inr skb), s) \<Rightarrow> poll_loop e rp budget fuel (work + 1, rxq @ [skb], errq, p1, s)) = Some (work', rxq', errq', pages', t)"
      using Suc.prems(1) False r g by simp
    show ?thesis
    proof (cases "err = 0")
      case False
      from step False have "poll_loop e rp budget fuel (work, rxq, errq @ q, p1, s1\<lparr>rx_errors := rx_errors s1 + 1\<rparr>) = Some (work', rxq', errq', pages', t)"
        by simp
      from Suc.IH [OF this Suc.prems(2)] a show ?thesis by (simp add: ac_simps)
    next
      case True
      obtain res s2 where j: "join_packet e r ex q s1 = (Some res, s2)"
        using step True by (auto split: prod.splits option.splits)
      note b = join_account [OF j Suc.prems(2) conjunct2 [OF a]]
      show ?thesis
      proof (cases res)
        case (Inl ks)
        have "poll_loop e rp budget fuel (work, rxq, errq @ ks, p1, s2\<lparr>rx_errors := rx_errors s2 + 1\<rparr>) = Some (work', rxq', errq', pages', t)"
          using step True j Inl by simp
        from Suc.IH [OF this Suc.prems(2)] a b Inl show ?thesis by (simp add: ac_simps)
      next
        case (Inr k)
        have "poll_loop e rp budget fuel (work + 1, rxq @ [k], errq, p1, s2) = Some (work', rxq', errq', pages', t)"
          using step True j Inr by simp
        from Suc.IH [OF this Suc.prems(2)] a b Inr show ?thesis by (simp add: ac_simps)
      qed
    qed
  qed
qed simp

lemma pass_one_account [simp]:
  "rx_buffers (s\<lparr>rx_gso_csum_fixups := f, rx_packets := p, rx_bytes := b, passed_up := passed_up s @ ks\<rparr>) = rx_buffers s + skb_nos ks"
  "rx_buffers (s\<lparr>rx_gso_csum_fixups := f, rx_errors := n, rx_freed := rx_freed s @ ks\<rparr>) = rx_buffers s + skb_nos ks"
  "slots_granted (s\<lparr>rx_gso_csum_fixups := f, rx_packets := p, rx_bytes := b, passed_up := ps\<rparr>) = slots_granted s"
  "slots_granted (s\<lparr>rx_gso_csum_fixups := f, rx_errors := n, rx_freed := fs\<rparr>) = slots_granted s"
  "slots_granted (s\<lparr>rx_gso_csum_fixups := f\<rparr>) = slots_granted s"
  by (simp_all add: rx_buffers_def posted_nos_def slots_granted_def ac_simps)

lemma pass_up_account:
  "pass_up e ks (work, s) = (work', t) \<Longrightarrow> pull_same e \<Longrightarrow> slots_granted s \<Longrightarrow>
   rx_buffers t = rx_buffers s + skb_nos ks \<and> slots_granted t"
proof (induction ks arbitrary: work s)
  case (Cons k ks)
  define k1 where "k1 = (if pull_to k > rx_head k then pull_tail e (pull_to k - rx_head k) k else k)"
  have no: "rx_no k1 = rx_no k" using Cons.prems(2) by (simp add: k1_def pull_same_def)
  obtain err f where f: "skb_checksum_setup e k1 (rx_gso_csum_fixups s) = (err, f)" by fastforce
  have step: "(if err \<noteq> 0
      then pass_up e ks (work - 1, s\<lparr>rx_gso_csum_fixups := f, rx_errors := rx_errors s + 1, rx_freed := rx_freed s @ [k1]\<rparr>)
      else pass_up e ks (work, s\<lparr>rx_gso_csum_fixups := f, rx_packets := rx_packets s + 1, rx_bytes := rx_bytes s + rx_len k1,
        passed_up := passed_up s @ [k1]\<rparr>)) = (work', t)"
    using Cons.prems(1) by (simp add: k1_def [symmetric] f Let_def split: if_splits)
  show ?case
  proof (cases "err = 0")
    case True
    from step True have "pass_up e ks (work, s\<lparr>rx_gso_csum_fixups := f, rx_packets := rx_packets s + 1, rx_bytes := rx_bytes s + rx_len k1,
        passed_up := passed_up s @ [k1]\<rparr>) = (work', t)" by simp
    from Cons.IH [OF this Cons.prems(2)] Cons.prems(3) no show ?thesis by simp
  next
    case False
    from step False have "pass_up e ks (work - 1, s\<lparr>rx_gso_csum_fixups := f, rx_errors := rx_errors s + 1, rx_freed := rx_freed s @ [k1]\<rparr>) = (work', t)"
      by simp
    from Cons.IH [OF this Cons.prems(2)] Cons.prems(3) no show ?thesis by simp
  qed
qed simp

section \<open>Filling the ring\<close>

text \<open>The buffers a call allocates are those the allocator gives it.\<close>

lemma fill_batch_account:
  "fill_batch e n i s = (i', b, t) \<Longrightarrow>
   \<exists>new. rx_buffers t = rx_buffers s + mset new \<and> slots_granted t = slots_granted s \<and> (\<forall>m \<in> set new. \<exists>j pg. rx_alloc e j = Some (m, pg))"
proof (induction n arbitrary: i s)
  case (Suc n)
  show ?case
  proof (cases "rx_alloc e (nat i)")
    case None
    then show ?thesis using Suc.prems
      by (intro exI [of _ "[]"]) (auto simp: rx_buffers_def posted_nos_def slots_granted_def)
  next
    case (Some a)
    obtain m pg where a: "a = (m, pg)" by fastforce
    let ?k = "\<lparr>rx_no = m, rx_frags = [(pg, 0, 0)], rx_head = 0, rx_len = 0, pull_to = 0, rx_gso = 0, rx_summed = CHECKSUM_NONE\<rparr>"
    let ?s = "s\<lparr>rx_batch := rx_batch s @ [?k]\<rparr>"
    have "fill_batch e n (i + 1) ?s = (i', b, t)" using Suc.prems Some a by simp
    from Suc.IH [OF this] obtain new where new: "rx_buffers t = rx_buffers ?s + mset new" "slots_granted t = slots_granted ?s"
      "\<forall>m \<in> set new. \<exists>j pg. rx_alloc e j = Some (m, pg)" by blast
    have "rx_buffers ?s = rx_buffers s + {#m#}" "slots_granted ?s = slots_granted s"
      by (simp_all add: rx_buffers_def posted_nos_def slots_granted_def)
    then show ?thesis using new Some a by (intro exI [of _ "m # new"]) auto
  qed
qed auto

lemma post_buffer_account:
  assumes run: "post_buffer e i k s = Some t"
  shows "rx_buffers t = rx_buffers s + {#rx_no k#} \<and> rx_batch t = rx_batch s"
proof -
  let ?i = "xennet_rxidx i"
  have none: "rx_skbs s ?i = None" using run by (auto simp: post_buffer_def Let_def split: if_splits)
  let ?u = "\<lambda>r h g. s\<lparr>rx_skbs := (rx_skbs s)(?i := Some k), gref_rx_head := h, grant_rx_ref := (grant_rx_ref s)(?i := r), ngnt := g\<rparr>"
  obtain r h where c: "gnttab_claim_grant_reference (gref_rx_head s) (ngnt s) = Some (r, h)"
    using run none by (auto simp: post_buffer_def Let_def split: option.splits)
  obtain g where "put_rx i ?i (nat r) (?u (nat r) h g) = Some t"
    using run none c by (auto simp: post_buffer_def Let_def split: option.splits if_split_asm)
  then have u: "put_rx i ?i (nat r) (?u (nat r) h g) = Some t" .
  have "same_account (?u (nat r) h g) t" by (rule put_rx_account [OF u])
  moreover have "rx_buffers (?u (nat r) h g) = rx_buffers s + slot_nos (Some k)" by (rule fill_slot [OF none rxidx_small]) simp_all
  ultimately show ?thesis using same_account_kept [of "?u (nat r) h g" t] by (simp add: same_account_def)
qed

lemma post_buffers_account:
  "post_buffers e i ks s = Some t \<Longrightarrow> rx_buffers t = rx_buffers s + skb_nos ks \<and> rx_batch t = rx_batch s"
proof (induction ks arbitrary: i s)
  case (Cons k ks)
  obtain u where u: "post_buffer e i k s = Some u" "post_buffers e (i + 1) ks u = Some t"
    using Cons.prems by (auto split: option.splits)
  show ?case using Cons.IH [OF u(2)] post_buffer_account [OF u(1)] by simp
qed simp

lemma frame_account [simp]:
  "rx_buffers (s\<lparr>rxs := x\<rparr>) = rx_buffers s" "rx_buffers (s\<lparr>rxs := x, notified := n\<rparr>) = rx_buffers s"
  "rx_buffers (s\<lparr>rx_target := c\<rparr>) = rx_buffers s" "rx_buffers (s\<lparr>driver_pages := d\<rparr>) = rx_buffers s"
  "rx_buffers (s\<lparr>napi_scheduled := b\<rparr>) = rx_buffers s"
  by (simp_all add: rx_buffers_def posted_nos_def)

lemma rx_notify_account [simp]: "rx_buffers (rx_notify s) = rx_buffers s"
  by (simp add: rx_notify_def Let_def split: prod.splits)

lemma refill_account:
  assumes "refill e s = Some t"
  shows "rx_buffers t = rx_buffers s"
proof -
  let ?s = "s\<lparr>rx_batch := []\<rparr>"
  obtain u where u: "post_buffers e (req_prod_pvt (rx s)) (rx_batch s) ?s = Some u"
    using assms by (auto simp: refill_def Let_def split: option.splits)
  have "rx_buffers t = rx_buffers u"
    using assms u by (auto simp: refill_def Let_def split: if_splits)
  also have "\<dots> = rx_buffers ?s + skb_nos (rx_batch s)" using post_buffers_account [OF u] by simp
  also have "\<dots> = rx_buffers s" by (simp add: rx_buffers_def posted_nos_def ac_simps)
  finally show ?thesis .
qed

lemma adjust_account [simp]: "rx_buffers (adjust_target s) = rx_buffers s"
  by (simp add: adjust_target_def)

lemma lower_account [simp]: "rx_buffers (lower_target s) = rx_buffers s"
  by (simp add: lower_target_def)

lemma lower_granted [simp]: "slots_granted (lower_target s) = slots_granted s"
  by (simp add: lower_target_def slots_granted_def)

lemma alloc_account:
  assumes run: "network_alloc_rx_buffers e s = Some t"
  shows "\<exists>new. rx_buffers t = rx_buffers s + mset new \<and> (\<forall>n \<in> set new. \<exists>j pg. rx_alloc e j = Some (n, pg))"
proof (cases "carrier s")
  case False
  then show ?thesis using run by (intro exI [of _ "[]"]) (simp add: network_alloc_rx_buffers_def)
next
  case True
  let ?i = "int (length (rx_batch s))"
  obtain i b u where u: "fill_batch e (nat (batch_target s - ?i)) ?i s = (i, b, u)" by (metis prod_cases3)
  have "refill e u = Some t \<or> refill e (adjust_target u) = Some t \<or> t = u \<or> t = rx_notify u"
    using run True u by (auto simp: network_alloc_rx_buffers_def Let_def split: if_splits)
  then have "rx_buffers t = rx_buffers u" using refill_account adjust_account rx_notify_account by metis
  then show ?thesis using fill_batch_account [OF u] by auto
qed

section \<open>A whole poll\<close>

lemma poll_end_account: "poll_end peer budget work s = (work', t) \<Longrightarrow> rx_buffers t = rx_buffers s"
  by (auto simp: poll_end_def Let_def split: if_splits prod.splits option.splits)

lemma netif_poll_account:
  assumes run: "netif_poll e peer budget s = Some (work', t)" and p: "pull_same e" and g: "slots_granted s"
  shows "\<exists>new. rx_buffers t = rx_buffers s + mset new \<and> (\<forall>n \<in> set new. \<exists>j pg. rx_alloc e j = Some (n, pg))"
proof (cases "carrier s")
  case False
  then show ?thesis using run by (intro exI [of _ "[]"]) (simp add: netif_poll_def)
next
  case True
  obtain work rxq errq pages u where u: "poll_loop e (rsp_prod (rxs s)) budget (Suc (unat (rsp_prod (rxs s) - rsp_cons (rx s)))) (0, [], [], 0, s) =
      Some (work, rxq, errq, pages, u)" using run True by (auto simp: netif_poll_def Let_def split: option.splits)
  define v where "v = (if pages \<noteq> 0 then u\<lparr>driver_pages := driver_pages u - int pages\<rparr> else u)"
  obtain work2 w where w: "pass_up e rxq (work, v\<lparr>rx_freed := rx_freed v @ errq\<rparr>) = (work2, w)" by fastforce
  have "(case network_alloc_rx_buffers e (lower_target w) of None \<Rightarrow> None | Some s \<Rightarrow> Some (poll_end peer budget work2 s)) = Some (work', t)"
    using run True u w unfolding netif_poll_def Let_def v_def by (simp split: if_split_asm)
  then obtain x where x: "network_alloc_rx_buffers e (lower_target w) = Some x" "poll_end peer budget work2 x = (work', t)"
    by (auto split: option.splits)
  have "rx_buffers v = rx_buffers u" "slots_granted v = slots_granted u" by (simp_all add: v_def slots_granted_def)
  then have "rx_buffers w = rx_buffers u + skb_nos errq + skb_nos rxq"
    using pass_up_account [OF w p] poll_loop_account [OF u p g] by simp
  then have "rx_buffers w = rx_buffers s" using poll_loop_account [OF u p g] by (simp add: ac_simps)
  then show ?thesis using alloc_account [OF x(1)] poll_end_account [OF x(2)] by simp
qed

end
