(* ===== verification/Netfront_Rx_Props.thy ===== *)
theory Netfront_Rx_Props
  imports Netfront_Tx Netfront_Rx_Account "HOL-Library.Multiset"
begin

text \<open>
  The receive side of the network front end: the invariant that ties buffers, references and
  slots together, kept by taking, moving and releasing a slot; from these the poll, whatever the
  responses say; and the one content of the responses that stops the kernel.
\<close>


section \<open>The invariant of the receive side\<close>

text \<open>The positions from \<open>c\<close> up to the private producer, and the references posted there.\<close>

definition window :: "ring_idx \<Rightarrow> netfront_info \<Rightarrow> ring_idx list" where
  "window c s = idxs c (unat (req_prod_pvt (rx s) - c))"

definition window_refs :: "ring_idx \<Rightarrow> netfront_info \<Rightarrow> nat list" where
  "window_refs c s = map (\<lambda>i. grant_rx_ref s (xennet_rxidx i)) (window c s)"

definition fresh :: "rx_skb \<Rightarrow> bool" where
  "fresh k \<longleftrightarrow> length (rx_frags k) = 1 \<and> rx_head k = 0"

text \<open>All 256 references of the receive side: posted, in hand and in reserve.\<close>

definition refs_ok :: "gnttab \<Rightarrow> nat list \<Rightarrow> bool" where
  "refs_ok g rs \<longleftrightarrow> length rs = 256 \<and> distinct rs \<and> set rs \<subseteq> gnt_refs g \<and> set rs \<inter> set (gnt_free g) = {} \<and> (\<forall>r \<in> set rs. r < 2 ^ 15)"

text \<open>
  \<open>c\<close> is the first position not yet taken, \<open>hs\<close> are references in hand, \<open>zs\<close> those in reserve.
\<close>

definition rx_inv :: "nat list \<Rightarrow> nat list \<Rightarrow> ring_idx \<Rightarrow> netfront_info \<Rightarrow> bool" where
  "rx_inv hs zs c s \<longleftrightarrow> gnt_inv (ngnt s) \<and> f_nr_ents (rx s) = 256 \<and> length (ring (rxs s)) = 256 \<and>
     linked (gnt_next (ngnt s)) (gref_rx_head s) GNTTAB_LIST_END zs \<and>
     refs_ok (ngnt s) (window_refs c s @ hs @ zs) \<and>
     (\<forall>i < 256. rx_skbs s i \<noteq> None \<longleftrightarrow> i \<in> set (map xennet_rxidx (window c s))) \<and>
     (\<forall>i < 256. rx_skbs s i = None \<longrightarrow> grant_rx_ref s i = GRANT_INVALID_REF) \<and>
     (\<forall>i k. rx_skbs s i = Some k \<longrightarrow> fresh k)"

lemma refs_ok_mset: "mset rs = mset qs \<Longrightarrow> refs_ok g rs \<Longrightarrow> refs_ok g qs"
  using mset_eq_setD [of rs qs] mset_eq_length [of rs qs] mset_eq_imp_distinct_iff [of rs qs]
  unfolding refs_ok_def by metis

lemma refs_ok_gnt: "gnt_refs g = gnt_refs g' \<Longrightarrow> gnt_free g = gnt_free g' \<Longrightarrow> refs_ok g rs = refs_ok g' rs"
  by (simp add: refs_ok_def)

lemma rxidx_slot: "xennet_rxidx i = ring_slot 256 i"
  by (simp add: xennet_rxidx_def ring_slot_def NET_RX_RING_SIZE_def)

lemma rxidx_less [simp]: "xennet_rxidx i < 256"
  by (simp add: rxidx_slot slot_256)

lemma rxidx_distinct: "n \<le> 256 \<Longrightarrow> distinct (map xennet_rxidx (idxs c n))"
  using slots_distinct [of n c] by (simp add: rxidx_slot cong: map_cong)

lemma idxs_snoc: "idxs c (Suc n) = idxs c n @ [c + of_nat n]"
proof (induction n arbitrary: c)
  case (Suc n)
  have "idxs c (Suc (Suc n)) = c # idxs (c + 1) (Suc n)" by (rule idxs.simps)
  also have "\<dots> = (c # idxs (c + 1) n) @ [c + of_nat (Suc n)]" unfolding Suc [of "c + 1"] by (simp add: add.assoc)
  also have "\<dots> = idxs c (Suc n) @ [c + of_nat (Suc n)]" by (simp only: idxs.simps(2))
  finally show ?case .
qed simp

lemma length_window [simp]: "length (window c s) = unat (req_prod_pvt (rx s) - c)"
  by (simp add: window_def)

lemma length_window_refs [simp]: "length (window_refs c s) = unat (req_prod_pvt (rx s) - c)"
  by (simp add: window_refs_def)

lemma window_small: "rx_inv hs zs c s \<Longrightarrow> unat (req_prod_pvt (rx s) - c) + length hs + length zs = 256"
  by (simp add: rx_inv_def refs_ok_def)

lemma window_cons: "c \<noteq> req_prod_pvt (rx s) \<Longrightarrow> window c s = c # window (c + 1) s"
proof -
  assume "c \<noteq> req_prod_pvt (rx s)"
  then have "req_prod_pvt (rx s) - c \<noteq> 0" by simp
  then have "unat (req_prod_pvt (rx s) - c) = Suc (unat (req_prod_pvt (rx s) - c - 1))"
    by (metis Suc_pred' unat_gt_0 unat_minus_one)
  then show ?thesis by (simp add: window_def diff_diff_eq)
qed

lemma map_upd_idx:
  "xennet_rxidx j \<notin> set (map xennet_rxidx xs) \<Longrightarrow>
   map (\<lambda>i. (f(xennet_rxidx j := v)) (xennet_rxidx i)) xs = map (\<lambda>i. f (xennet_rxidx i)) xs"
  by (induction xs) auto

lemma rx_take:
  assumes inv: "rx_inv hs zs c s" and c: "c \<noteq> req_prod_pvt (rx s)"
  shows "\<exists>k. rx_skbs s (xennet_rxidx c) = Some k \<and> fresh k \<and>
    rx_inv (grant_rx_ref s (xennet_rxidx c) # hs) zs (c + 1)
      (s\<lparr>rx_skbs := (rx_skbs s)(xennet_rxidx c := None), grant_rx_ref := (grant_rx_ref s)(xennet_rxidx c := GRANT_INVALID_REF)\<rparr>)"
proof -
  let ?i = "xennet_rxidx c"
  let ?t = "s\<lparr>rx_skbs := (rx_skbs s)(?i := None), grant_rx_ref := (grant_rx_ref s)(?i := GRANT_INVALID_REF)\<rparr>"
  note w = window_cons [OF c]
  have "unat (req_prod_pvt (rx s) - c) \<le> 256" using window_small [OF inv] by simp
  then have "distinct (map xennet_rxidx (window c s))" unfolding window_def by (rule rxidx_distinct)
  then have d: "?i \<notin> set (map xennet_rxidx (window (c + 1) s))" unfolding w by simp
  have sk: "\<forall>i < 256. rx_skbs s i \<noteq> None \<longleftrightarrow> i \<in> set (map xennet_rxidx (window c s))"
    and nn: "\<forall>i < 256. rx_skbs s i = None \<longrightarrow> grant_rx_ref s i = GRANT_INVALID_REF"
    and fr: "\<forall>i k. rx_skbs s i = Some k \<longrightarrow> fresh k" and rf: "refs_ok (ngnt s) (window_refs c s @ hs @ zs)"
    using inv unfolding rx_inv_def by blast+
  have "?i \<in> set (map xennet_rxidx (window c s))" unfolding w by simp
  then obtain k where k: "rx_skbs s ?i = Some k" using sk rxidx_less by blast
  have wt: "window (c + 1) ?t = window (c + 1) s" by (simp add: window_def)
  have rt: "window_refs (c + 1) ?t = window_refs (c + 1) s"
    unfolding window_refs_def wt using map_upd_idx [OF d, of "grant_rx_ref s" GRANT_INVALID_REF] by simp
  have "window_refs c s = grant_rx_ref s ?i # window_refs (c + 1) s" by (simp add: window_refs_def w)
  then have "refs_ok (ngnt s) (window_refs (c + 1) s @ (grant_rx_ref s ?i # hs) @ zs)"
    using rf by (intro refs_ok_mset [OF _ rf]) simp
  moreover have "\<forall>i < 256. rx_skbs ?t i \<noteq> None \<longleftrightarrow> i \<in> set (map xennet_rxidx (window (c + 1) ?t))"
    using sk d unfolding w wt by auto
  moreover have "\<forall>i < 256. rx_skbs ?t i = None \<longrightarrow> grant_rx_ref ?t i = GRANT_INVALID_REF" using nn by simp
  moreover have "\<forall>i k. rx_skbs ?t i = Some k \<longrightarrow> fresh k" using fr by simp
  ultimately have "rx_inv (grant_rx_ref s ?i # hs) zs (c + 1) ?t"
    using inv unfolding rx_inv_def rt by simp
  then show ?thesis using k fr by blast
qed

lemma rx_response_ok: "rx_inv hs zs c s \<Longrightarrow> rx_response i s = Some (rx_view (ring (rxs s) ! xennet_rxidx i))"
  by (simp add: rx_response_def rx_inv_def rxidx_slot slot_256)

lemma put_rx_ok:
  assumes "rx_inv hs zs c s"
  shows "\<exists>q. put_rx i v r s = Some (s\<lparr>rxs := (rxs s)\<lparr>ring := (ring (rxs s))[xennet_rxidx i := q]\<rparr>\<rparr>)"
proof -
  have "f_nr_ents (rx s) = 256" using assms unfolding rx_inv_def by blast
  then show ?thesis using rx_response_ok [OF assms, of i] by (auto simp: put_rx_def ring_put_def rxidx_slot)
qed

lemma rx_move:
  assumes inv: "rx_inv (r # hs) zs c s" and k: "fresh k"
  shows "\<exists>q. xennet_move_rx_slot (Some k) r s =
      Some (s\<lparr>rx_skbs := (rx_skbs s)(xennet_rxidx (req_prod_pvt (rx s)) := Some k),
              grant_rx_ref := (grant_rx_ref s)(xennet_rxidx (req_prod_pvt (rx s)) := r),
              rxs := (rxs s)\<lparr>ring := (ring (rxs s))[xennet_rxidx (req_prod_pvt (rx s)) := q]\<rparr>,
              rx := (rx s)\<lparr>req_prod_pvt := req_prod_pvt (rx s) + 1\<rparr>\<rparr>) \<and>
    rx_inv hs zs c (s\<lparr>rx_skbs := (rx_skbs s)(xennet_rxidx (req_prod_pvt (rx s)) := Some k),
              grant_rx_ref := (grant_rx_ref s)(xennet_rxidx (req_prod_pvt (rx s)) := r),
              rxs := (rxs s)\<lparr>ring := (ring (rxs s))[xennet_rxidx (req_prod_pvt (rx s)) := q]\<rparr>,
              rx := (rx s)\<lparr>req_prod_pvt := req_prod_pvt (rx s) + 1\<rparr>\<rparr>) \<and>
    xennet_rxidx (req_prod_pvt (rx s)) \<notin> set (map xennet_rxidx (window c s)) \<and>
    unat (req_prod_pvt (rx s) + 1 - c) = Suc (unat (req_prod_pvt (rx s) - c))"
proof -
  let ?p = "req_prod_pvt (rx s)"
  let ?i = "xennet_rxidx ?p" and ?n = "unat (?p - c)"
  have n: "?n < 256" using window_small [OF inv] by simp
  have "?p + 1 - c = (?p - c) + 1" by simp
  moreover have "unat ((?p - c) + 1) = ?n + 1" using n by (subst unat_plus_if') simp
  ultimately have sn: "unat (?p + 1 - c) = Suc ?n" by (metis Suc_eq_plus1)
  have p: "c + of_nat ?n = ?p" by simp
  have idx: "idxs c (Suc ?n) = window c s @ [?p]" unfolding idxs_snoc window_def p ..
  have "distinct (map xennet_rxidx (idxs c (Suc ?n)))" using n by (intro rxidx_distinct) simp
  then have d: "?i \<notin> set (map xennet_rxidx (window c s))" unfolding idx by simp
  have sk: "\<forall>i < 256. rx_skbs s i \<noteq> None \<longleftrightarrow> i \<in> set (map xennet_rxidx (window c s))"
    and nn: "\<forall>i < 256. rx_skbs s i = None \<longrightarrow> grant_rx_ref s i = GRANT_INVALID_REF"
    and fr: "\<forall>i k. rx_skbs s i = Some k \<longrightarrow> fresh k" and rf: "refs_ok (ngnt s) (window_refs c s @ (r # hs) @ zs)"
    using inv unfolding rx_inv_def by blast+
  have none: "rx_skbs s ?i = None" using sk d rxidx_less by blast
  let ?u = "s\<lparr>rx_skbs := (rx_skbs s)(?i := Some k), grant_rx_ref := (grant_rx_ref s)(?i := r)\<rparr>"
  have f: "f_nr_ents (rx s) = 256" "length (ring (rxs s)) = 256" using inv unfolding rx_inv_def by blast+
  then obtain q where q: "put_rx ?p ?i r ?u = Some (?u\<lparr>rxs := (rxs s)\<lparr>ring := (ring (rxs s))[?i := q]\<rparr>\<rparr>)"
    by (simp add: put_rx_def rx_response_def rxidx_slot slot_256 ring_put_def)
  let ?t = "?u\<lparr>rxs := (rxs s)\<lparr>ring := (ring (rxs s))[?i := q]\<rparr>, rx := (rx s)\<lparr>req_prod_pvt := ?p + 1\<rparr>\<rparr>"
  have mv: "xennet_move_rx_slot (Some k) r s = Some ?t" using none q by (simp add: xennet_move_rx_slot_def Let_def)
  have wt: "window c ?t = window c s @ [?p]" by (simp add: window_def sn idx [unfolded window_def] del: idxs.simps)
  have "window_refs c ?t = window_refs c s @ [r]"
    unfolding window_refs_def wt using map_upd_idx [OF d, of "grant_rx_ref s" r] by simp
  then have "refs_ok (ngnt s) (window_refs c ?t @ hs @ zs)" using rf by simp
  moreover have "\<forall>i < 256. rx_skbs ?t i \<noteq> None \<longleftrightarrow> i \<in> set (map xennet_rxidx (window c ?t))" using sk unfolding wt by auto
  moreover have "\<forall>i < 256. rx_skbs ?t i = None \<longrightarrow> grant_rx_ref ?t i = GRANT_INVALID_REF" using nn by simp
  moreover have "\<forall>i k. rx_skbs ?t i = Some k \<longrightarrow> fresh k" using fr k by simp
  ultimately have "rx_inv hs zs c ?t" using inv unfolding rx_inv_def by simp
  then show ?thesis using mv d sn by blast
qed

lemma rx_release:
  assumes inv: "rx_inv (r # hs) zs c s" and e: "gnttab_end_foreign_access_ref ws r (ngnt s) = (ok, g)"
  shows "\<exists>g'. gnttab_release_grant_reference (gref_rx_head s) r g = Some (r, g') \<and>
    rx_inv hs (r # zs) c (s\<lparr>ngnt := g', gref_rx_head := r\<rparr>) \<and> (\<forall>x. x \<noteq> r \<longrightarrow> shared g' x = shared (ngnt s) x)"
proof -
  note g = gnt_access_ended [OF e]
  have rf: "refs_ok (ngnt s) (window_refs c s @ (r # hs) @ zs)" and gi: "gnt_inv (ngnt s)"
    and l: "linked (gnt_next (ngnt s)) (gref_rx_head s) GNTTAB_LIST_END zs" using inv unfolding rx_inv_def by blast+
  have r: "r \<in> gnt_refs g" "r \<notin> set zs" "r \<notin> set (gnt_free g)" using rf unfolding refs_ok_def g by auto
  from gnttab_release_ok [of g "gref_rx_head s" zs r] obtain g' where
    rel: "gnttab_release_grant_reference (gref_rx_head s) r g = Some (r, g')"
    and g': "gnt_inv g'" "gnt_free g' = gnt_free (ngnt s)" "gnt_refs g' = gnt_refs (ngnt s)" "outside g' = outside g"
      "linked (gnt_next g') r GNTTAB_LIST_END (r # zs)" using gi l r unfolding g by blast
  have "refs_ok (ngnt s) (window_refs c s @ hs @ (r # zs))" by (rule refs_ok_mset [OF _ rf]) simp
  moreover have "window c (s\<lparr>ngnt := g', gref_rx_head := r\<rparr>) = window c s"
    "window_refs c (s\<lparr>ngnt := g', gref_rx_head := r\<rparr>) = window_refs c s" by (simp_all add: window_refs_def window_def)
  ultimately have "rx_inv hs (r # zs) c (s\<lparr>ngnt := g', gref_rx_head := r\<rparr>)"
    using inv g' refs_ok_gnt [OF g'(3,2)] unfolding rx_inv_def by simp
  moreover have "\<forall>x. x \<noteq> r \<longrightarrow> shared g' x = shared (ngnt s) x" using g(6) g'(4) by (simp add: outside_def)
  ultimately show ?thesis using rel by blast
qed


section \<open>Taking, moving and releasing a slot\<close>

lemma end_access_local:
  "shared g r = shared g' r \<Longrightarrow> fst (gnttab_end_foreign_access_ref ws r g) = fst (gnttab_end_foreign_access_ref ws r g')"
proof -
  have "shared g r = shared g' r \<Longrightarrow> fst (end_foreign_access_ref ws r g) = fst (end_foreign_access_ref ws r g')"
  proof (induction ws arbitrary: g g')
    case (Cons w ws)
    have "shared (set_shared r f g) r = shared (set_shared r f g') r" for f using Cons.prems by simp
    then show ?case using Cons by (simp add: Let_def)
  qed simp
  then show "shared g r = shared g' r \<Longrightarrow> ?thesis"
    by (simp add: gnttab_end_foreign_access_ref_def split_def)
qed

text \<open>The backend has let go of the pages with the references \<open>R\<close>.\<close>

definition lets_go :: "net_env \<Rightarrow> gnttab \<Rightarrow> nat set \<Rightarrow> bool" where
  "lets_go e g R \<longleftrightarrow> (\<forall>r \<in> R. fst (gnttab_end_foreign_access_ref (nhyp e r) r g) \<noteq> 0)"

lemma lets_go_cong: "(\<And>r. r \<in> R \<Longrightarrow> shared g r = shared g' r) \<Longrightarrow> lets_go e g R = lets_go e g' R"
  unfolding lets_go_def by (metis end_access_local)

text \<open>Every response in \<open>[c, rp)\<close> is as \<open>E\<close> says.\<close>

definition pieces :: "(netif_rx_response \<Rightarrow> bool) \<Rightarrow> ring_idx \<Rightarrow> ring_idx \<Rightarrow> netfront_info \<Rightarrow> bool" where
  "pieces E c rp s \<longleftrightarrow> (\<forall>i \<in> set (idxs c (unat (rp - c))). \<forall>r. rx_response i s = Some r \<longrightarrow> E r)"

text \<open>No response announces more data and has no data itself.\<close>

definition no_empty_piece :: "netif_rx_response \<Rightarrow> bool" where
  "no_empty_piece r \<longleftrightarrow> (rx_flags r AND XEN_NETRXF_more_data \<noteq> 0 \<longrightarrow> rx_status r \<noteq> 0)"

definition poll_ok :: "(netif_rx_response \<Rightarrow> bool) \<Rightarrow> net_env \<Rightarrow> ring_idx \<Rightarrow> ring_idx \<Rightarrow> nat list \<Rightarrow> nat list \<Rightarrow> netfront_info \<Rightarrow> bool" where
  "poll_ok E e rp c hs zs s \<longleftrightarrow> rx_inv hs zs c s \<and> copying_receiver s \<and> unat (rp - c) \<le> unat (req_prod_pvt (rx s) - c) \<and>
     lets_go e (ngnt s) (set (window_refs c s) \<union> set hs) \<and> pieces E c rp s"

text \<open>What the receive path leaves alone while it takes responses.\<close>

definition rx_frame :: "netfront_info \<Rightarrow> netfront_info \<Rightarrow> bool" where
  "rx_frame s t \<longleftrightarrow> carrier t = carrier s \<and> copying_receiver t = copying_receiver s \<and> rx_batch t = rx_batch s \<and>
     rx_target t = rx_target s \<and> rx_min_target t = rx_min_target s \<and> rx_max_target t = rx_max_target s \<and>
     rsp_prod (rxs t) = rsp_prod (rxs s) \<and> hooks t = hooks s \<and> passed_up t = passed_up s \<and>
     napi_scheduled t = napi_scheduled s"

lemma rx_frame_refl [simp]: "rx_frame s s" by (simp add: rx_frame_def)
lemma rx_frame_trans [trans]: "rx_frame s t \<Longrightarrow> rx_frame t u \<Longrightarrow> rx_frame s u" by (simp add: rx_frame_def)

lemma unat_next: "(c :: u32) \<noteq> p \<Longrightarrow> unat (p - c) = Suc (unat (p - (c + 1)))"
proof -
  assume "c \<noteq> p"
  then have "p - c \<noteq> 0" by simp
  then show ?thesis by (metis Suc_pred' diff_diff_eq unat_gt_0 unat_minus_one)
qed

lemma poll_take:
  assumes ok: "poll_ok E e rp c hs zs s" and c: "c \<noteq> rp"
  shows "\<exists>k s1 r t. xennet_get_rx_skb c s = (Some k, s1) \<and> xennet_get_rx_ref c s1 = (r, t) \<and> fresh k \<and>
    poll_ok E e rp (c + 1) (r # hs) zs t \<and> rx_frame s t \<and> rx t = rx s \<and> rxs t = rxs s"
proof -
  let ?i = "xennet_rxidx c"
  have inv: "rx_inv hs zs c s" using ok unfolding poll_ok_def by blast
  have near: "unat (rp - c) \<le> unat (req_prod_pvt (rx s) - c)" using ok unfolding poll_ok_def by blast
  note rpc = unat_next [OF c]
  have p: "c \<noteq> req_prod_pvt (rx s)" using near rpc by auto
  define t where "t = s\<lparr>rx_skbs := (rx_skbs s)(?i := None), grant_rx_ref := (grant_rx_ref s)(?i := GRANT_INVALID_REF)\<rparr>"
  obtain k where k: "rx_skbs s ?i = Some k" "fresh k" "rx_inv (grant_rx_ref s ?i # hs) zs (c + 1) t"
    using rx_take [OF inv p] unfolding t_def by blast
  have tt: "rx t = rx s" "rxs t = rxs s" "ngnt t = ngnt s" "copying_receiver t = copying_receiver s" "rx_frame s t"
    by (simp_all add: t_def rx_frame_def)
  have "window_refs (c + 1) t = window_refs (c + 1) s"
  proof -
    have "unat (req_prod_pvt (rx s) - c) \<le> 256" using window_small [OF inv] by simp
    then have "distinct (map xennet_rxidx (window c s))" unfolding window_def by (rule rxidx_distinct)
    then have d: "?i \<notin> set (map xennet_rxidx (window (c + 1) s))" unfolding window_cons [OF p] by simp
    have "window (c + 1) t = window (c + 1) s" by (simp add: window_def tt)
    then show ?thesis using map_upd_idx [OF d, of "grant_rx_ref s" GRANT_INVALID_REF] by (simp add: window_refs_def t_def)
  qed
  moreover have "window_refs c s = grant_rx_ref s ?i # window_refs (c + 1) s" by (simp add: window_refs_def window_cons [OF p])
  ultimately have "lets_go e (ngnt t) (set (window_refs (c + 1) t) \<union> set (grant_rx_ref s ?i # hs))"
    using ok unfolding poll_ok_def tt by (simp add: insert_commute)
  moreover have "unat (rp - (c + 1)) \<le> unat (req_prod_pvt (rx t) - (c + 1))"
    using near rpc unat_next [OF p] unfolding tt by simp
  moreover have "pieces E (c + 1) rp t"
  proof -
    have "rx_response i t = rx_response i s" for i by (simp add: rx_response_def tt Let_def)
    then show ?thesis using ok unfolding poll_ok_def pieces_def rpc by simp
  qed
  ultimately have "poll_ok E e rp (c + 1) (grant_rx_ref s ?i # hs) zs t" using k(3) ok unfolding poll_ok_def tt by simp
  moreover have "xennet_get_rx_skb c s = (Some k, s\<lparr>rx_skbs := (rx_skbs s)(?i := None)\<rparr>)"
    using k(1) by (simp add: xennet_get_rx_skb_def Let_def)
  moreover have "xennet_get_rx_ref c (s\<lparr>rx_skbs := (rx_skbs s)(?i := None)\<rparr>) = (grant_rx_ref s ?i, t)"
    by (simp add: xennet_get_rx_ref_def Let_def t_def)
  ultimately show ?thesis using k(2) tt(1,2,5) by blast
qed

lemma idxs_mono: "n \<le> m \<Longrightarrow> set (idxs c n) \<subseteq> set (idxs c m)"
proof (induction m arbitrary: n c)
  case (Suc m)
  then show ?case by (cases n) auto
qed simp

lemma poll_move:
  assumes ok: "poll_ok E e rp c (r # hs) zs s" and k: "fresh k"
  shows "\<exists>t. xennet_move_rx_slot (Some k) r s = Some t \<and> poll_ok E e rp c hs zs t \<and> rx_frame s t \<and>
    rsp_cons (rx t) = rsp_cons (rx s)"
proof -
  have inv: "rx_inv (r # hs) zs c s" and near: "unat (rp - c) \<le> unat (req_prod_pvt (rx s) - c)"
    and ne: "pieces E c rp s" and lg: "lets_go e (ngnt s) (set (window_refs c s) \<union> set (r # hs))"
    using ok unfolding poll_ok_def by blast+
  let ?p = "req_prod_pvt (rx s)"
  let ?i = "xennet_rxidx ?p"
  obtain q t where t: "t = s\<lparr>rx_skbs := (rx_skbs s)(?i := Some k), grant_rx_ref := (grant_rx_ref s)(?i := r),
      rxs := (rxs s)\<lparr>ring := (ring (rxs s))[?i := q]\<rparr>, rx := (rx s)\<lparr>req_prod_pvt := ?p + 1\<rparr>\<rparr>"
    and mv: "xennet_move_rx_slot (Some k) r s = Some t" and inv': "rx_inv hs zs c t"
    and d: "?i \<notin> set (map xennet_rxidx (window c s))" and sn: "unat (?p + 1 - c) = Suc (unat (?p - c))"
    using rx_move [OF inv k] by blast
  have tt: "ngnt t = ngnt s" "copying_receiver t = copying_receiver s" "rx_frame s t" "rsp_cons (rx t) = rsp_cons (rx s)"
    "req_prod_pvt (rx t) = ?p + 1" by (simp_all add: t rx_frame_def)
  have f: "f_nr_ents (rx s) = 256" using inv unfolding rx_inv_def by blast
  have "rx_response i t = rx_response i s" if "i \<in> set (idxs c (unat (rp - c)))" for i
  proof -
    have "i \<in> set (window c s)" using that idxs_mono [OF near] unfolding window_def by blast
    then have "xennet_rxidx i \<noteq> ?i" using d by (metis image_eqI list.set_map)
    then show ?thesis by (simp add: rx_response_def t f rxidx_slot Let_def)
  qed
  then have "pieces E c rp t" using ne unfolding pieces_def by simp
  moreover have "set (window_refs c t) \<union> set hs = set (window_refs c s) \<union> set (r # hs)"
  proof -
    have "window c t = window c s @ [?p]" unfolding window_def tt sn idxs_snoc by simp
    moreover have "map (\<lambda>i. grant_rx_ref t (xennet_rxidx i)) (window c s) = window_refs c s"
      using map_upd_idx [OF d, of "grant_rx_ref s" r] by (simp add: window_refs_def t)
    ultimately have "window_refs c t = window_refs c s @ [r]" by (simp add: window_refs_def) (simp add: t)
    then show ?thesis by auto
  qed
  ultimately have "poll_ok E e rp c hs zs t" using ok inv' near lg unfolding poll_ok_def tt sn by simp
  then show ?thesis using mv tt by blast
qed

lemma poll_release:
  assumes ok: "poll_ok E e rp c (r # hs) zs s"
  shows "\<exists>k g g'. gnttab_end_foreign_access_ref (nhyp e r) r (ngnt s) = (k, g) \<and> k \<noteq> 0 \<and>
    gnttab_release_grant_reference (gref_rx_head s) r g = Some (r, g') \<and>
    poll_ok E e rp c hs (r # zs) (s\<lparr>ngnt := g', gref_rx_head := r\<rparr>) \<and> r \<noteq> GRANT_INVALID_REF"
proof -
  have inv: "rx_inv (r # hs) zs c s" and lg: "lets_go e (ngnt s) (set (window_refs c s) \<union> set (r # hs))"
    and ne: "pieces E c rp s" using ok unfolding poll_ok_def by blast+
  obtain k g where kg: "gnttab_end_foreign_access_ref (nhyp e r) r (ngnt s) = (k, g)" by (metis prod.exhaust)
  then have k: "k \<noteq> 0" using lg by (simp add: lets_go_def)
  obtain g' where g': "gnttab_release_grant_reference (gref_rx_head s) r g = Some (r, g')"
    "rx_inv hs (r # zs) c (s\<lparr>ngnt := g', gref_rx_head := r\<rparr>)" "\<forall>x. x \<noteq> r \<longrightarrow> shared g' x = shared (ngnt s) x"
    using rx_release [OF inv kg] by blast
  have rf: "refs_ok (ngnt s) (window_refs c s @ (r # hs) @ zs)" using inv unfolding rx_inv_def by blast
  then have "r \<notin> set (window_refs c s) \<union> set hs" "r \<in> gnt_refs (ngnt s)" unfolding refs_ok_def by auto
  then have r: "\<forall>x \<in> set (window_refs c s) \<union> set hs. shared g' x = shared (ngnt s) x" "r \<noteq> GRANT_INVALID_REF"
    using g'(3) by (auto simp: gnt_refs_def gnt_consts GRANT_INVALID_REF_def)
  let ?t = "s\<lparr>ngnt := g', gref_rx_head := r\<rparr>"
  have "lets_go e g' (set (window_refs c s) \<union> set hs)"
    using lg r(1) lets_go_cong [of "set (window_refs c s) \<union> set hs" g' "ngnt s" e] by (simp add: lets_go_def)
  moreover have "window_refs c ?t = window_refs c s" by (simp add: window_refs_def window_def)
  moreover have "pieces E c rp ?t" using ne by (simp add: pieces_def rx_response_def Let_def)
  ultimately have "poll_ok E e rp c hs (r # zs) ?t" using ok g'(2) unfolding poll_ok_def by simp
  then show ?thesis using kg k g'(1) r(2) by blast
qed


lemma poll_ok_cons [simp]:
  "poll_ok E e rp c hs zs (s\<lparr>rx := (rx s)\<lparr>rsp_cons := x\<rparr>\<rparr>) = poll_ok E e rp c hs zs s"
  "rx_frame s (s\<lparr>rx := (rx s)\<lparr>rsp_cons := x\<rparr>\<rparr>)"
  by (simp_all add: poll_ok_def rx_inv_def window_refs_def window_def pieces_def rx_response_def Let_def rx_frame_def)

lemma poll_response: "poll_ok E e rp c hs zs s \<Longrightarrow> \<exists>r. rx_response i s = Some r"
  using rx_response_ok unfolding poll_ok_def by blast

lemma xennet_get_extras_ok:
  "poll_ok E e rp (c + 1) hs zs s \<Longrightarrow>
   \<exists>err' ex' t. xennet_get_extras rp c err ex s = Some (err', ex', t) \<and> poll_ok E e rp (rsp_cons (rx t) + 1) hs zs t \<and>
     rx_frame s t \<and> unat (rp - (rsp_cons (rx t) + 1)) \<le> unat (rp - (c + 1))"
proof (induction "unat (rp - (c + 1))" arbitrary: c err ex s rule: less_induct)
  case less
  show ?case
  proof (cases "c + 1 = rp")
    case True
    then show ?thesis using less.prems by (subst xennet_get_extras.simps) simp
  next
    case False
    obtain r where r: "rx_response (c + 1) s = Some r" using poll_response [OF less.prems] by blast
    obtain k s1 ref s2 where take: "xennet_get_rx_skb (c + 1) s = (Some k, s1)" "xennet_get_rx_ref (c + 1) s1 = (ref, s2)"
      "fresh k" "poll_ok E e rp (c + 1 + 1) (ref # hs) zs s2" "rx_frame s s2" "rx s2 = rx s"
      using poll_take [OF less.prems False] by blast
    obtain s3 where mv: "xennet_move_rx_slot (Some k) ref s2 = Some s3" "poll_ok E e rp (c + 1 + 1) hs zs s3" "rx_frame s2 s3"
      using poll_move [OF take(4,3)] by blast
    obtain r' where r': "rx_response (c + 1) s3 = Some r'" using poll_response [OF mv(2)] by blast
    have fr: "rx_frame s s3" using take(5) mv(3) by (rule rx_frame_trans)
    let ?x = "rx_extra r"
    let ?bad = "ex_type ?x = 0 \<or> ex_type ?x \<ge> XEN_NETIF_EXTRA_TYPE_MAX"
    let ?err = "if ?bad then - EINVAL else err" and ?ex = "if ?bad then ex else ex[unat (ex_type ?x) - 1 := ?x]"
    have step: "xennet_get_extras rp c err ex s =
      (if ex_flags (rx_extra r') AND XEN_NETIF_EXTRA_FLAG_MORE \<noteq> 0 then xennet_get_extras rp (c + 1) ?err ?ex s3
       else Some (?err, ?ex, s3\<lparr>rx := (rx s3)\<lparr>rsp_cons := c + 1\<rparr>\<rparr>))"
      using False r take(1,2) mv(1) r' by (subst xennet_get_extras.simps) (simp add: Let_def)
    have near: "unat (rp - (c + 1 + 1)) < unat (rp - (c + 1))" using unat_next [OF False] by simp
    show ?thesis
    proof (cases "ex_flags (rx_extra r') AND XEN_NETIF_EXTRA_FLAG_MORE \<noteq> 0")
      case True
      from less.hyps [OF near mv(2), of ?err ?ex] obtain err' ex' t where
        t: "xennet_get_extras rp (c + 1) ?err ?ex s3 = Some (err', ex', t)" "poll_ok E e rp (rsp_cons (rx t) + 1) hs zs t"
          "rx_frame s3 t" "unat (rp - (rsp_cons (rx t) + 1)) \<le> unat (rp - (c + 1 + 1))" by blast
      have "rx_frame s t" using fr t(3) by (rule rx_frame_trans)
      moreover have "xennet_get_extras rp c err ex s = Some (err', ex', t)" using step True t(1) by simp
      ultimately show ?thesis using t(2,4) near by (meson le_trans less_imp_le)
    next
      case False
      let ?t = "s3\<lparr>rx := (rx s3)\<lparr>rsp_cons := c + 1\<rparr>\<rparr>"
      have "xennet_get_extras rp c err ex s = Some (?err, ?ex, ?t)" using step False by simp
      moreover have "poll_ok E e rp (rsp_cons (rx ?t) + 1) hs zs ?t" using mv(2) by simp
      moreover have "rx_frame s ?t" using fr by (rule rx_frame_trans) simp
      moreover have "unat (rp - (rsp_cons (rx ?t) + 1)) \<le> unat (rp - (c + 1))" using near by simp
      ultimately show ?thesis by blast
    qed
  qed
qed

lemma rx_frame_gnt [simp]: "rx_frame s (s\<lparr>ngnt := g, gref_rx_head := h\<rparr>)" by (simp add: rx_frame_def)

lemma take_response_ok:
  assumes ok: "poll_ok E e rp c (ref # hs) zs s" and k: "fresh k"
  shows "\<exists>err' qs t zs'. take_response e r (Some k) ref (err, queue, pages, s) = Some (err', queue @ qs, pages, t) \<and>
    poll_ok E e rp c hs zs' t \<and> rx_frame s t \<and> rsp_cons (rx t) = rsp_cons (rx s) \<and>
    (err' = 0 \<longrightarrow> err = 0 \<and> qs = [k] \<and> 0 \<le> sint (rx_status r)) \<and> set qs \<subseteq> {k} \<and> length zs \<le> length zs'"
proof (cases "sint (rx_status r) < 0 \<or> int (unat (rx_offset r)) + sint (rx_status r) > int PAGE_SIZE")
  case True
  obtain t where "xennet_move_rx_slot (Some k) ref s = Some t" "poll_ok E e rp c hs zs t" "rx_frame s t" "rsp_cons (rx t) = rsp_cons (rx s)"
    using poll_move [OF ok k] by blast
  then show ?thesis using True by (intro exI [of _ "- EINVAL"] exI [of _ "[]"] exI [of _ t] exI [of _ zs]) (simp add: take_response_def)
next
  case False
  obtain n g g' where g: "gnttab_end_foreign_access_ref (nhyp e ref) ref (ngnt s) = (n, g)" "n \<noteq> 0"
    "gnttab_release_grant_reference (gref_rx_head s) ref g = Some (ref, g')"
    "poll_ok E e rp c hs (ref # zs) (s\<lparr>ngnt := g', gref_rx_head := ref\<rparr>)" "ref \<noteq> GRANT_INVALID_REF"
    using poll_release [OF ok] by blast
  have "copying_receiver s" using ok unfolding poll_ok_def by blast
  then have "take_response e r (Some k) ref (err, queue, pages, s) =
      Some (err, queue @ [k], pages, s\<lparr>ngnt := g', gref_rx_head := ref\<rparr>)"
    using False g by (simp add: take_response_def)
  then show ?thesis using g(4) False
    by (intro exI [of _ err] exI [of _ "[k]"] exI [of _ "s\<lparr>ngnt := g', gref_rx_head := ref\<rparr>"] exI [of _ "ref # zs"]) simp
qed

lemma take_responses_ok:
  "poll_ok E e rp nxt [ref] zs s \<Longrightarrow> fresh k \<Longrightarrow>
   \<exists>n err' qs t zs'. take_responses e rp ptr r (Some k) ref nxt frags (err, queue, pages, s) =
       Some (frags + n, err', queue @ qs, pages, t) \<and> poll_ok E e rp (nxt + of_nat n) [] zs' t \<and> rx_frame s t \<and>
     rsp_cons (rx t) = rsp_cons (rx s) \<and> n \<le> unat (rp - nxt) \<and>
     (err' = 0 \<longrightarrow> err = 0 \<and> length qs = Suc n \<and> 0 \<le> sint (rx_status r)) \<and> (\<forall>q \<in> set qs. fresh q) \<and>
     (ptr = None \<longrightarrow> n \<noteq> 0 \<longrightarrow> rx_flags r AND XEN_NETRXF_more_data \<noteq> 0) \<and> length zs \<le> length zs'"
proof (induction "unat (rp - nxt)" arbitrary: nxt ref zs s k ptr r frags err queue rule: less_induct)
  case less
  obtain err1 qs1 s1 zs1 where one: "take_response e r (Some k) ref (err, queue, pages, s) = Some (err1, queue @ qs1, pages, s1)"
    "poll_ok E e rp nxt [] zs1 s1" "rx_frame s s1" "rsp_cons (rx s1) = rsp_cons (rx s)"
    "err1 = 0 \<longrightarrow> err = 0 \<and> qs1 = [k] \<and> 0 \<le> sint (rx_status r)" "set qs1 \<subseteq> {k}" "length zs \<le> length zs1"
    using take_response_ok [OF less.prems, of r err queue pages] by blast
  obtain r1 where r1: "(case ptr of None \<Rightarrow> Some r | Some i \<Rightarrow> rx_response i s1) = Some r1" "ptr = None \<longrightarrow> r1 = r"
    using poll_response [OF one(2)] by (cases ptr) auto
  have fr1: "\<forall>q \<in> set qs1. fresh q" using one(6) less.prems(2) by blast
  have unf: "take_responses e rp ptr r (Some k) ref nxt frags (err, queue, pages, s) =
      (if rx_flags r1 AND XEN_NETRXF_more_data = 0 then Some (frags, err1, queue @ qs1, pages, s1)
       else if nxt = rp then Some (frags, - ENOENT, queue @ qs1, pages, s1)
       else (case rx_response nxt s1 of None \<Rightarrow> None
             | Some r \<Rightarrow>
                 (case xennet_get_rx_skb nxt s1 of (skb, s) \<Rightarrow>
                  (case xennet_get_rx_ref nxt s of (ref, s) \<Rightarrow>
                     take_responses e rp (Some nxt) r skb ref (nxt + 1) (frags + 1) (err1, queue @ qs1, pages, s)))))"
    by (subst take_responses.simps) (simp add: one(1) r1(1) cong: option.case_cong)
  consider (last) "rx_flags r1 AND XEN_NETRXF_more_data = 0" | (short) "rx_flags r1 AND XEN_NETRXF_more_data \<noteq> 0" "nxt = rp"
    | (next_one) "rx_flags r1 AND XEN_NETRXF_more_data \<noteq> 0" "nxt \<noteq> rp" by blast
  then show ?case
  proof cases
    case last
    then show ?thesis using unf one fr1
      by (intro exI [of _ 0] exI [of _ err1] exI [of _ qs1] exI [of _ s1] exI [of _ zs1]) auto
  next
    case short
    then show ?thesis using unf one fr1
      by (intro exI [of _ 0] exI [of _ "- ENOENT"] exI [of _ qs1] exI [of _ s1] exI [of _ zs1]) auto
  next
    case next_one
    obtain r2 where r2: "rx_response nxt s1 = Some r2" using poll_response [OF one(2)] by blast
    obtain k2 s2 ref2 s3 where take: "xennet_get_rx_skb nxt s1 = (Some k2, s2)" "xennet_get_rx_ref nxt s2 = (ref2, s3)"
      "fresh k2" "poll_ok E e rp (nxt + 1) [ref2] zs1 s3" "rx_frame s1 s3" "rx s3 = rx s1"
      using poll_take [OF one(2) next_one(2)] by blast
    have near: "unat (rp - (nxt + 1)) < unat (rp - nxt)" using unat_next [OF next_one(2)] by simp
    from less.hyps [OF near take(4,3), of "Some nxt" r2 "frags + 1" err1 "queue @ qs1"] obtain n err' qs t zs' where
      t: "take_responses e rp (Some nxt) r2 (Some k2) ref2 (nxt + 1) (frags + 1) (err1, queue @ qs1, pages, s3) =
         Some (frags + 1 + n, err', (queue @ qs1) @ qs, pages, t)"
      "poll_ok E e rp (nxt + 1 + of_nat n) [] zs' t" "rx_frame s3 t" "rsp_cons (rx t) = rsp_cons (rx s3)"
      "n \<le> unat (rp - (nxt + 1))" "err' = 0 \<longrightarrow> err1 = 0 \<and> length qs = Suc n \<and> 0 \<le> sint (rx_status r2)" "\<forall>q \<in> set qs. fresh q" "length zs1 \<le> length zs'" by blast
    have "take_responses e rp ptr r (Some k) ref nxt frags (err, queue, pages, s) =
        Some (frags + Suc n, err', queue @ (qs1 @ qs), pages, t)"
      using unf next_one r2 take(1,2) t(1) by simp
    moreover have "rx_frame s t" using one(3) take(5) t(3) by (meson rx_frame_trans)
    moreover have "poll_ok E e rp (nxt + of_nat (Suc n)) [] zs' t" using t(2) by (simp add: add.assoc)
    moreover have "Suc n \<le> unat (rp - nxt)" using t(5) unat_next [OF next_one(2)] by simp
    moreover have "err' = 0 \<longrightarrow> err = 0 \<and> length (qs1 @ qs) = Suc (Suc n) \<and> 0 \<le> sint (rx_status r)"
    proof
      assume "err' = 0"
      then have e: "err1 = 0" "length qs = Suc n" using t(6) by blast+
      then have "err = 0" "qs1 = [k]" "0 \<le> sint (rx_status r)" using one(5) by blast+
      then show "err = 0 \<and> length (qs1 @ qs) = Suc (Suc n) \<and> 0 \<le> sint (rx_status r)" using e(2) by simp
    qed
    moreover have "length zs \<le> length zs'" using one(7) t(8) by simp
    moreover have "rsp_cons (rx t) = rsp_cons (rx s)" using one(4) take(6) t(4) by simp
    moreover have "\<forall>q \<in> set (qs1 @ qs). fresh q" using fr1 t(7) by auto
    moreover have "ptr = None \<longrightarrow> Suc n \<noteq> 0 \<longrightarrow> rx_flags r AND XEN_NETRXF_more_data \<noteq> 0" using r1(2) next_one(1) by blast
    ultimately show ?thesis by blast
  qed
qed


lemma unat_skip: "n \<le> unat (p - (c :: u32)) \<Longrightarrow> unat (p - (c + of_nat n)) = unat (p - c) - n"
proof -
  assume n: "n \<le> unat (p - c)"
  have "n < 2 ^ 32" using n unsigned_less [of "p - c", where 'a = nat] by simp
  then have u: "unat (of_nat n :: u32) = n" by (rule unat_of_nat32)
  have "of_nat n \<le> p - c" using n u by (simp only: word_le_nat_alt)
  then have "unat (p - c - of_nat n) = unat (p - c) - n" using u by (simp only: unat_sub)
  then show ?thesis by (simp only: diff_diff_eq)
qed

lemma xennet_get_responses_ok:
  assumes ok: "poll_ok E e rp c [] zs s" and c: "c = rsp_cons (rx s)" "c \<noteq> rp"
  shows "\<exists>err extras queue t c' zs'. xennet_get_responses e r rp pages s = Some (err, extras, queue, pages, t) \<and>
    rx_frame s t \<and> (\<forall>q \<in> set queue. fresh q) \<and> poll_ok E e rp c' [] zs' t \<and> unat (rp - c') < unat (rp - c) \<and>
    (err \<noteq> 0 \<longrightarrow> rsp_cons (rx t) = c') \<and>
    (err = 0 \<longrightarrow> queue \<noteq> [] \<and> rsp_cons (rx t) + of_nat (length queue) = c' \<and> 0 \<le> sint (rx_status r) \<and>
       length queue \<le> MAX_SKB_FRAGS + (if sint (rx_status r) \<le> int RX_COPY_THRESHOLD then 1 else 0) \<and>
       (length queue > 1 \<longrightarrow> rx_flags r AND XEN_NETRXF_more_data \<noteq> 0)) \<and> length zs \<le> length zs'"
proof -
  let ?none = "\<lparr>ex_type = 0, ex_flags = 0, ex_gso_size = 0, ex_gso_type = 0, ex_gso_pad = 0, ex_gso_features = 0\<rparr>"
  let ?bound = "MAX_SKB_FRAGS + (if sint (rx_status r) \<le> int RX_COPY_THRESHOLD then 1 else 0)"
  let ?has = "rx_flags r AND XEN_NETRXF_extra_info \<noteq> 0"
  obtain k s1 ref s2 where take: "xennet_get_rx_skb c s = (Some k, s1)" "xennet_get_rx_ref c s1 = (ref, s2)"
    "fresh k" "poll_ok E e rp (c + 1) [ref] zs s2" "rx_frame s s2" "rx s2 = rx s"
    using poll_take [OF ok c(2)] by blast
  obtain err1 ex s3 where ex: "(if ?has then xennet_get_extras rp c 0 (replicate 3 ?none) s2 else Some (0, replicate 3 ?none, s2)) = Some (err1, ex, s3)"
    "poll_ok E e rp (rsp_cons (rx s3) + 1) [ref] zs s3" "rx_frame s2 s3" "unat (rp - (rsp_cons (rx s3) + 1)) \<le> unat (rp - (c + 1))"
    "\<not> ?has \<longrightarrow> rsp_cons (rx s3) = c"
  proof (cases ?has)
    case True
    then show ?thesis using that xennet_get_extras_ok [OF take(4), of 0 "replicate 3 ?none"] by auto
  next
    case False
    then show ?thesis using that [of 0 "replicate 3 ?none" s2] take(4,6) c(1) by simp
  qed
  let ?c = "rsp_cons (rx s3)"
  obtain n err qs t zs' where t: "take_responses e rp None r (Some k) ref (?c + 1) 1 (err1, [], pages, s3) =
       Some (1 + n, err, [] @ qs, pages, t)" "poll_ok E e rp (?c + 1 + of_nat n) [] zs' t" "rx_frame s3 t"
    "rsp_cons (rx t) = ?c" "n \<le> unat (rp - (?c + 1))" "err = 0 \<longrightarrow> err1 = 0 \<and> length qs = Suc n \<and> 0 \<le> sint (rx_status r)"
    "\<forall>q \<in> set qs. fresh q" "n \<noteq> 0 \<longrightarrow> rx_flags r AND XEN_NETRXF_more_data \<noteq> 0" "length zs \<le> length zs'"
    using take_responses_ok [OF ex(2) take(3), of None r 1 err1 "[]" pages] by blast
  let ?err = "if 1 + n > ?bound then - E2BIG else err"
  let ?c' = "?c + of_nat (1 + n)"
  let ?t = "if ?err \<noteq> 0 then t\<lparr>rx := (rx t)\<lparr>rsp_cons := ?c'\<rparr>\<rparr> else t"
  have cc: "(if ?has then rsp_cons (rx s3) else c) = ?c" using ex(5) by auto
  have "xennet_get_responses e r rp pages s = Some (?err, ex, qs, pages, ?t)"
    by (simp only: xennet_get_responses_def Let_def c(1) [symmetric] take(1,2) ex(1) prod.case option.case cc t(1) append_Nil)
  moreover have "rx_frame s ?t" 
  proof -
    have "rx_frame s t" using take(5) ex(3) t(3) by (meson rx_frame_trans)
    moreover have "rx_frame t ?t" by simp
    ultimately show ?thesis by (rule rx_frame_trans)
  qed
  moreover have "poll_ok E e rp ?c' [] zs' ?t" using t(2) by (simp add: add.assoc)
  moreover have "unat (rp - ?c') < unat (rp - c)"
  proof -
    have "rp - ?c' = rp - (?c + 1 + of_nat n)" by simp
    then have "unat (rp - ?c') = unat (rp - (?c + 1)) - n" using unat_skip [OF t(5)] by (simp only:)
    then show ?thesis using ex(4) unat_next [OF c(2)] by linarith
  qed
  moreover have "?err \<noteq> 0 \<longrightarrow> rsp_cons (rx ?t) = ?c'" by simp
  moreover have "?err = 0 \<longrightarrow> qs \<noteq> [] \<and> rsp_cons (rx ?t) + of_nat (length qs) = ?c' \<and> 0 \<le> sint (rx_status r) \<and>
      length qs \<le> ?bound \<and> (length qs > 1 \<longrightarrow> rx_flags r AND XEN_NETRXF_more_data \<noteq> 0)"
    using t(4,6,8) by auto
  ultimately show ?thesis using t(7,9) by blast
qed


text \<open>Pulling the whole first fragment into an empty linear part drops that fragment.\<close>

definition pull_drops :: "net_env \<Rightarrow> bool" where
  "pull_drops e \<longleftrightarrow> (\<forall>skb p off n fs. rx_frags skb = (p, off, n) # fs \<longrightarrow> rx_head skb = 0 \<longrightarrow>
     length (rx_frags (pull_tail e n skb)) \<le> length fs)"

text \<open>A packet with room for \<open>m\<close> more pieces: enough fragments are free, or the first can make way for the last.\<close>

definition room_for :: "nat \<Rightarrow> rx_skb \<Rightarrow> bool" where
  "room_for m skb \<longleftrightarrow> length (rx_frags skb) + m \<le> MAX_SKB_FRAGS \<or>
     (length (rx_frags skb) + m \<le> MAX_SKB_FRAGS + 1 \<and> rx_head skb = 0 \<and> 0 < pull_to skb \<and>
      (\<exists>p off fs. rx_frags skb = (p, off, pull_to skb) # fs))"

lemma xennet_fill_frags_ok:
  "poll_ok E e rp c hs zs s \<Longrightarrow> pull_drops e \<Longrightarrow> room_for (length list) skb \<Longrightarrow>
   \<exists>skb' F. xennet_fill_frags e skb list cons s = Some (skb', cons + of_nat (length list), s\<lparr>rx_freed := F\<rparr>)"
proof (induction list arbitrary: skb cons s)
  case Nil
  show ?case by (intro exI [of _ skb] exI [of _ "rx_freed s"]) simp
next
  case (Cons nskb list)
  obtain r where r: "rx_response (cons + 1) s = Some r" using poll_response [OF Cons.prems(1)] by blast
  let ?skb = "if length (rx_frags skb) = MAX_SKB_FRAGS
     then if pull_to skb \<le> rx_head skb then None else Some (pull_tail e (pull_to skb - rx_head skb) skb) else Some skb"
  obtain skb1 where skb1: "?skb = Some skb1" "length (rx_frags skb1) < MAX_SKB_FRAGS" and
    room: "\<And>x. room_for (length list) (skb1\<lparr>rx_frags := rx_frags skb1 @ [x], rx_len := rx_len skb1 + n\<rparr>)" for n
  proof (cases "length (rx_frags skb) = MAX_SKB_FRAGS")
    case True
    then obtain p off fs where f: "rx_head skb = 0" "0 < pull_to skb" "rx_frags skb = (p, off, pull_to skb) # fs" "length list = 0"
      using Cons.prems(3) unfolding room_for_def by auto
    then have "length (rx_frags (pull_tail e (pull_to skb) skb)) \<le> length fs"
      using Cons.prems(2) unfolding pull_drops_def by blast
    then have "length (rx_frags (pull_tail e (pull_to skb) skb)) < MAX_SKB_FRAGS" using True f(3) by simp
    then show ?thesis using True f by (intro that [of "pull_tail e (pull_to skb) skb"]) (simp_all add: room_for_def)
  next
    case False
    then have "length (rx_frags skb) < MAX_SKB_FRAGS" using Cons.prems(3) by (auto simp: room_for_def)
    moreover have "room_for (length list) (skb\<lparr>rx_frags := rx_frags skb @ [x], rx_len := rx_len skb + n\<rparr>)" for x n
      using Cons.prems(3) by (auto simp: room_for_def)
    ultimately show ?thesis using False by (intro that [of skb]) auto
  qed
  let ?add = "add_rx_frag (frag_page nskb) (unat (rx_offset r)) (nat (sint (rx_status r))) skb1"
  let ?s = "s\<lparr>rx_freed := rx_freed s @ [nskb\<lparr>rx_frags := []\<rparr>]\<rparr>"
  have "poll_ok E e rp c hs zs ?s" using Cons.prems(1)
    by (simp add: poll_ok_def rx_inv_def window_refs_def window_def pieces_def rx_response_def Let_def)
  moreover have "room_for (length list) ?add" using room by (simp add: add_rx_frag_def)
  ultimately obtain skb' F where "xennet_fill_frags e ?add list (cons + 1) ?s =
      Some (skb', cons + 1 + of_nat (length list), ?s\<lparr>rx_freed := F\<rparr>)" using Cons.IH Cons.prems(2) by blast
  then have "xennet_fill_frags e skb (nskb # list) cons s = Some (skb', cons + of_nat (length (nskb # list)), s\<lparr>rx_freed := F\<rparr>)"
    using r skb1 by (simp add: add.assoc)
  then show ?case by blast
qed

lemma poll_ok_freed [simp]:
  "poll_ok E e rp c hs zs (s\<lparr>rx_freed := F\<rparr>) = poll_ok E e rp c hs zs s" "rx_frame s (s\<lparr>rx_freed := F\<rparr>)"
  "poll_ok E e rp c hs zs (s\<lparr>rx_errors := n\<rparr>) = poll_ok E e rp c hs zs s" "rx_frame s (s\<lparr>rx_errors := n\<rparr>)"
  by (simp_all add: poll_ok_def rx_inv_def window_refs_def window_def pieces_def rx_response_def Let_def rx_frame_def)

lemma join_packet_ok:
  assumes ok: "poll_ok E e rp c [] zs s" and pull: "pull_drops e"
    and q: "queue \<noteq> []" "\<forall>q \<in> set queue. fresh q" "rsp_cons (rx s) + of_nat (length queue) = c" "0 \<le> sint (rx_status r)"
    and len: "length queue \<le> MAX_SKB_FRAGS + (if sint (rx_status r) \<le> int RX_COPY_THRESHOLD then 1 else 0)"
    and pos: "length queue > 1 \<longrightarrow> rx_status r \<noteq> 0"
  shows "\<exists>res t. join_packet e r extras queue s = (Some res, t) \<and> poll_ok E e rp c [] zs t \<and> rx_frame s t \<and> rsp_cons (rx t) = c"
proof -
  obtain skb rest where qq: "queue = skb # rest" using q(1) by (cases queue) auto
  have fr: "fresh skb" using q(2) qq by simp
  let ?x = "extras ! 0"
  obtain err skb1 where g: "(if ex_type ?x \<noteq> 0 then xennet_set_skb_gso ?x skb else (0, skb)) = (err, skb1)" by (metis prod.exhaust)
  have s1: "rx_frags skb1 = rx_frags skb" "rx_head skb1 = rx_head skb"
    using g by (auto simp: xennet_set_skb_gso_def split: if_splits)
  show ?thesis
  proof (cases "err = 0")
    case False
    have "join_packet e r extras queue s =
        (Some (Inl (skb1 # rest)), s\<lparr>rx := (rx s)\<lparr>rsp_cons := rsp_cons (rx s) + of_nat (length (skb1 # rest))\<rparr>\<rparr>)"
      using g False by (simp add: join_packet_def qq del: length_Cons)
    moreover have "rsp_cons (rx s) + of_nat (length (skb1 # rest)) = c" using q(3) unfolding qq by simp
    ultimately show ?thesis using ok by simp
  next
    case True
    define n where "n = nat (sint (rx_status r))"
    define skb2 where "skb2 = skb1\<lparr>rx_frags := (frag_page skb1, unat (rx_offset r), n) # tl (rx_frags skb1),
        rx_len := rx_len skb1 + n, pull_to := min n RX_COPY_THRESHOLD\<rparr>"
    have l2: "rx_frags skb2 = [(frag_page skb1, unat (rx_offset r), n)]" "rx_head skb2 = 0" "pull_to skb2 = min n RX_COPY_THRESHOLD"
      using fr s1 by (auto simp: skb2_def fresh_def length_Suc_conv)
    have "room_for (length rest) skb2"
    proof (cases "length queue \<le> MAX_SKB_FRAGS")
      case True
      then show ?thesis by (simp add: room_for_def l2 qq)
    next
      case False
      then have small: "sint (rx_status r) \<le> int RX_COPY_THRESHOLD" "length queue = MAX_SKB_FRAGS + 1"
        using len by (auto split: if_splits)
      then have "rx_status r \<noteq> 0" using pos by (simp add: MAX_SKB_FRAGS_def)
      then have "sint (rx_status r) \<noteq> 0" by (metis signed_eq_0_iff)
      then have "0 < n" using q(4) by (simp add: n_def)
      then show ?thesis using small by (auto simp: room_for_def l2 qq n_def)
    qed
    then obtain skb3 F where fill: "xennet_fill_frags e skb2 rest (rsp_cons (rx s)) s =
        Some (skb3, rsp_cons (rx s) + of_nat (length rest), s\<lparr>rx_freed := F\<rparr>)"
      using xennet_fill_frags_ok [OF ok pull] by blast
    let ?t = "(s\<lparr>rx_freed := F\<rparr>)\<lparr>rx := (rx (s\<lparr>rx_freed := F\<rparr>))\<lparr>rsp_cons := rsp_cons (rx s) + of_nat (length rest) + 1\<rparr>\<rparr>"
    have "\<exists>res. join_packet e r extras queue s = (Some res, ?t)"
      using g True fill by (simp add: join_packet_def qq skb2_def n_def Let_def)
    moreover have "poll_ok E e rp c [] zs ?t" using ok by (simp only: poll_ok_cons poll_ok_freed)
    moreover have "rx_frame s ?t" by (rule rx_frame_trans [OF poll_ok_freed(2) poll_ok_cons(2)])
    moreover have "rsp_cons (rx ?t) = c" using q(3) unfolding qq by (simp add: ac_simps)
    ultimately show ?thesis by blast
  qed
qed

lemma poll_loop_ok:
  "poll_ok no_empty_piece e rp (rsp_cons (rx s)) [] zs s \<Longrightarrow> pull_drops e \<Longrightarrow> unat (rp - rsp_cons (rx s)) < fuel \<Longrightarrow>
   \<exists>work' rxq' errq' t zs'. poll_loop e rp budget fuel (work, rxq, errq, pages, s) = Some (work', rxq', errq', pages, t) \<and>
     poll_ok no_empty_piece e rp (rsp_cons (rx t)) [] zs' t \<and> rx_frame s t \<and> (rsp_cons (rx t) = rp \<or> budget \<le> work') \<and>
     work \<le> work' \<and> (work \<le> budget \<longrightarrow> work' \<le> budget) \<and> int (length rxq') - work' = int (length rxq) - work \<and> length zs \<le> length zs'"
proof (induction fuel arbitrary: s zs work rxq errq)
  case (Suc fuel)
  let ?c = "rsp_cons (rx s)"
  show ?case
  proof (cases "?c = rp \<or> \<not> work < budget")
    case True
    then show ?thesis using Suc.prems(1)
      by (intro exI [of _ work] exI [of _ rxq] exI [of _ errq] exI [of _ s] exI [of _ zs]) auto
  next
    case False
    then have c: "?c \<noteq> rp" and w: "work < budget" by auto
    obtain r where r: "rx_response ?c s = Some r" using poll_response [OF Suc.prems(1)] by blast
    obtain err extras queue u c' zs1 where u: "xennet_get_responses e r rp pages s = Some (err, extras, queue, pages, u)"
      "rx_frame s u" "\<forall>q \<in> set queue. fresh q" "poll_ok no_empty_piece e rp c' [] zs1 u" "unat (rp - c') < unat (rp - ?c)"
      "err \<noteq> 0 \<longrightarrow> rsp_cons (rx u) = c'"
      "err = 0 \<longrightarrow> queue \<noteq> [] \<and> rsp_cons (rx u) + of_nat (length queue) = c' \<and> 0 \<le> sint (rx_status r) \<and>
         length queue \<le> MAX_SKB_FRAGS + (if sint (rx_status r) \<le> int RX_COPY_THRESHOLD then 1 else 0) \<and>
         (length queue > 1 \<longrightarrow> rx_flags r AND XEN_NETRXF_more_data \<noteq> 0)" "length zs \<le> length zs1"
      using xennet_get_responses_ok [OF Suc.prems(1) refl c, of r pages] by blast
    have ne: "rx_flags r AND XEN_NETRXF_more_data \<noteq> 0 \<longrightarrow> rx_status r \<noteq> 0"
    proof -
      have "?c \<in> set (idxs ?c (unat (rp - ?c)))" unfolding unat_next [OF c] by simp
      then show ?thesis using Suc.prems(1) r unfolding poll_ok_def pieces_def no_empty_piece_def by blast
    qed
    have fuel: "unat (rp - c') < fuel" using u(5) Suc.prems(3) by simp
    let ?err = "\<lambda>v :: netfront_info. v\<lparr>rx_errors := rx_errors v + 1\<rparr>"
    have bad: "\<exists>work' rxq' errq' t zs'. poll_loop e rp budget fuel (work, rxq, errq @ skbs, pages, ?err v) = Some (work', rxq', errq', pages, t) \<and>
       poll_ok no_empty_piece e rp (rsp_cons (rx t)) [] zs' t \<and> rx_frame s t \<and> (rsp_cons (rx t) = rp \<or> budget \<le> work') \<and>
       work \<le> work' \<and> (work \<le> budget \<longrightarrow> work' \<le> budget) \<and> int (length rxq') - work' = int (length rxq) - work \<and> length zs \<le> length zs'"
      if "poll_ok no_empty_piece e rp c' [] zs1 v" "rx_frame s v" "rsp_cons (rx v) = c'" for skbs v
    proof -
      have "poll_ok no_empty_piece e rp (rsp_cons (rx (?err v))) [] zs1 (?err v)" "unat (rp - rsp_cons (rx (?err v))) < fuel"
        using that fuel by simp_all
      from Suc.IH [OF this(1) Suc.prems(2) this(2), of work rxq "errq @ skbs"] obtain work' rxq' errq' t zs' where
        t: "poll_loop e rp budget fuel (work, rxq, errq @ skbs, pages, ?err v) = Some (work', rxq', errq', pages, t)"
        "poll_ok no_empty_piece e rp (rsp_cons (rx t)) [] zs' t" "rx_frame (?err v) t" "rsp_cons (rx t) = rp \<or> budget \<le> work'"
        "work \<le> work'" "work \<le> budget \<longrightarrow> work' \<le> budget" "int (length rxq') - work' = int (length rxq) - work" "length zs1 \<le> length zs'" by blast
      have "length zs \<le> length zs'" using u(8) t(8) by (rule le_trans)
      moreover have "rx_frame s t" using that(2) t(3) poll_ok_freed(4) [of v] by (meson rx_frame_trans)
      ultimately show ?thesis using t by blast
    qed
    show ?thesis
    proof (cases "err = 0")
      case False
      then have "poll_loop e rp budget (Suc fuel) (work, rxq, errq, pages, s) =
          poll_loop e rp budget fuel (work, rxq, errq @ queue, pages, ?err u)" using c w r u(1) by simp
      then show ?thesis using bad [OF u(4,2), of queue] u(6) False by presburger
    next
      case True
      then have q: "queue \<noteq> []" "rsp_cons (rx u) + of_nat (length queue) = c'" "0 \<le> sint (rx_status r)"
         "length queue \<le> MAX_SKB_FRAGS + (if sint (rx_status r) \<le> int RX_COPY_THRESHOLD then 1 else 0)"
         "length queue > 1 \<longrightarrow> rx_status r \<noteq> 0" using u(7) ne by blast+
      obtain res v where j: "join_packet e r extras queue u = (Some res, v)" "poll_ok no_empty_piece e rp c' [] zs1 v" "rx_frame u v" "rsp_cons (rx v) = c'"
        using join_packet_ok [OF u(4) Suc.prems(2) q(1) u(3) q(2,3,4,5), of extras] by blast
      have fr: "rx_frame s v" using u(2) j(3) by (rule rx_frame_trans)
      show ?thesis
      proof (cases res)
        case (Inl skbs)
        then have "poll_loop e rp budget (Suc fuel) (work, rxq, errq, pages, s) =
            poll_loop e rp budget fuel (work, rxq, errq @ skbs, pages, ?err v)" using c w r u(1) True j(1) by simp
        then show ?thesis using bad [OF j(2) fr j(4), of skbs] by presburger
      next
        case (Inr skb)
        then have step: "poll_loop e rp budget (Suc fuel) (work, rxq, errq, pages, s) =
            poll_loop e rp budget fuel (work + 1, rxq @ [skb], errq, pages, v)" using c w r u(1) True j(1) by simp
        have "poll_ok no_empty_piece e rp (rsp_cons (rx v)) [] zs1 v" "unat (rp - rsp_cons (rx v)) < fuel" using j(2,4) fuel by simp_all
        from Suc.IH [OF this(1) Suc.prems(2) this(2), of "work + 1" "rxq @ [skb]" errq] obtain work' rxq' errq' t zs' where
          t: "poll_loop e rp budget fuel (work + 1, rxq @ [skb], errq, pages, v) = Some (work', rxq', errq', pages, t)"
          "poll_ok no_empty_piece e rp (rsp_cons (rx t)) [] zs' t" "rx_frame v t" "rsp_cons (rx t) = rp \<or> budget \<le> work'"
          "work + 1 \<le> work'" "work + 1 \<le> budget \<longrightarrow> work' \<le> budget" "int (length rxq') - work' = int (length (rxq @ [skb])) - (work + 1)" "length zs1 \<le> length zs'" by blast
        have "length zs \<le> length zs'" using u(8) t(8) by (rule le_trans)
        moreover have "rx_frame s t" using fr t(3) by (rule rx_frame_trans)
        ultimately show ?thesis using step t w
          by (intro exI [of _ work'] exI [of _ rxq'] exI [of _ errq'] exI [of _ t] exI [of _ zs']) simp
      qed
    qed
  qed
qed simp


section \<open>Filling the ring\<close>

lemma put_rx_pvt:
  "put_rx i v r (s\<lparr>rx := (rx s)\<lparr>req_prod_pvt := p\<rparr>\<rparr>) = map_option (\<lambda>t. t\<lparr>rx := (rx t)\<lparr>req_prod_pvt := p\<rparr>\<rparr>) (put_rx i v r s)"
  by (simp add: put_rx_def rx_response_def Let_def option.map_comp comp_def)

text \<open>\<open>upto p s\<close> is the state as if the private producer were \<open>p\<close>.\<close>

definition upto_pos :: "ring_idx \<Rightarrow> netfront_info \<Rightarrow> netfront_info" where
  "upto_pos p s = s\<lparr>rx := (rx s)\<lparr>req_prod_pvt := p\<rparr>\<rparr>"

lemma rx_inv_claim:
  assumes inv: "rx_inv [] (z # zs) c s" and sh: "g = (ngnt s)\<lparr>shared := sh\<rparr>"
  shows "rx_inv [z] zs c (s\<lparr>ngnt := g, gref_rx_head := gnt_next (ngnt s) z\<rparr>)"
    and "gnttab_claim_grant_reference (gref_rx_head s) (ngnt s) = Some (int z, gnt_next (ngnt s) z)"
    and "z < 2 ^ 15"
proof -
  have gi: "gnt_inv (ngnt s)" and l: "linked (gnt_next (ngnt s)) (gref_rx_head s) GNTTAB_LIST_END (z # zs)"
    and rf: "refs_ok (ngnt s) (window_refs c s @ [] @ z # zs)" using inv unfolding rx_inv_def by blast+
  have gp: "gnt_pages (ngnt s)" using gi unfolding gnt_inv_def by blast
  have sub: "set (z # zs) \<subseteq> gnt_refs (ngnt s)" and z: "z < 2 ^ 15" using rf unfolding refs_ok_def by auto
  then show "z < 2 ^ 15" by blast
  show "gnttab_claim_grant_reference (gref_rx_head s) (ngnt s) = Some (int z, gnt_next (ngnt s) z)"
    using gnttab_claim_ok [OF gp l sub] by simp
  let ?t = "s\<lparr>ngnt := g, gref_rx_head := gnt_next (ngnt s) z\<rparr>"
  have "window c ?t = window c s" "window_refs c ?t = window_refs c s" by (simp_all add: window_def window_refs_def)
  moreover have "refs_ok g (window_refs c s @ [z] @ zs)" using rf by (simp add: refs_ok_def sh)
  ultimately show "rx_inv [z] zs c ?t" using inv l unfolding rx_inv_def by (simp add: sh)
qed

lemma post_buffer_ok:
  assumes inv: "rx_inv [] (z # zs) c (upto_pos i s)" and k: "fresh k" and cp: "copying_receiver s"
  shows "\<exists>t. post_buffer e i k s = Some t \<and> rx_inv [] zs c (upto_pos (i + 1) t) \<and> rx_frame s t \<and> rx t = rx s"
proof -
  let ?h = "gnt_next (ngnt s) z" and ?i = "xennet_rxidx i"
  define g where "g = (ngnt s)\<lparr>shared := (shared (ngnt s))(z := entry_for (otherend s) 0 (page_mfn e (frag_page k)))\<rparr>"
  define u where "u = s\<lparr>ngnt := g, gref_rx_head := ?h\<rparr>"
  have uu: "upto_pos i u = (upto_pos i s)\<lparr>ngnt := g, gref_rx_head := ?h\<rparr>" by (simp add: upto_pos_def u_def)
  have cl: "gnttab_claim_grant_reference (gref_rx_head s) (ngnt s) = Some (int z, ?h)" and z: "z < 2 ^ 15"
    and inv1: "rx_inv [z] zs c (upto_pos i u)"
    using rx_inv_claim [OF inv] unfolding uu by (simp_all add: upto_pos_def g_def)
  have grant: "gnttab_grant_foreign_access_ref z (otherend s) (page_mfn e (frag_page k)) 0 (ngnt s) = Some g"
    by (simp add: grant_ref_ok g_def)
  let ?v = "u\<lparr>rx_skbs := (rx_skbs u)(?i := Some k), grant_rx_ref := (grant_rx_ref u)(?i := z)\<rparr>"
  obtain t' where mv: "xennet_move_rx_slot (Some k) z (upto_pos i u) = Some t'" "rx_inv [] zs c t'"
    using rx_move [OF inv1 k] by blast
  have none: "rx_skbs s ?i = None" using mv(1) by (auto simp: xennet_move_rx_slot_def upto_pos_def u_def Let_def split: if_splits)
  have "(upto_pos i u)\<lparr>rx_skbs := (rx_skbs (upto_pos i u))(?i := Some k), grant_rx_ref := (grant_rx_ref (upto_pos i u))(?i := z)\<rparr>
      = ?v\<lparr>rx := (rx ?v)\<lparr>req_prod_pvt := i\<rparr>\<rparr>" by (simp add: upto_pos_def)
  moreover have "req_prod_pvt (rx (upto_pos i u)) = i" "rx_skbs (upto_pos i u) ?i = None" using none by (simp_all add: upto_pos_def u_def)
  ultimately have "map_option (\<lambda>s. s\<lparr>rx := (rx s)\<lparr>req_prod_pvt := req_prod_pvt (rx s) + 1\<rparr>\<rparr>)
      (map_option (\<lambda>t. t\<lparr>rx := (rx t)\<lparr>req_prod_pvt := i\<rparr>\<rparr>) (put_rx i ?i z ?v)) = Some t'"
    using mv(1) unfolding xennet_move_rx_slot_def Let_def put_rx_pvt [symmetric] by simp
  then obtain t where t: "put_rx i ?i z ?v = Some t" "t' = upto_pos (i + 1) t" by (auto simp: upto_pos_def)
  have eq: "?v = (s\<lparr>rx_skbs := (rx_skbs s)(?i := Some k), gref_rx_head := ?h, grant_rx_ref := (grant_rx_ref s)(?i := z)\<rparr>)\<lparr>ngnt := g\<rparr>"
    by (simp add: u_def)
  have "post_buffer e i k s = Some t"
    using none cl z sint16_small [OF z] cp grant t(1) unfolding eq by (simp add: post_buffer_def Let_def)
  moreover have "rx_frame s t" "rx t = rx s" using t(1) by (auto simp: put_rx_def u_def rx_frame_def ring_put_def)
  ultimately show ?thesis using mv(2) t(2) by blast
qed

lemma post_buffers_ok:
  "rx_inv [] zs c (upto_pos i s) \<Longrightarrow> \<forall>k \<in> set ks. fresh k \<Longrightarrow> copying_receiver s \<Longrightarrow> length ks \<le> length zs \<Longrightarrow>
   \<exists>t. post_buffers e i ks s = Some t \<and> rx_inv [] (drop (length ks) zs) c (upto_pos (i + of_nat (length ks)) t) \<and>
     rx_frame s t \<and> rx t = rx s"
proof (induction ks arbitrary: zs i s)
  case (Cons k ks)
  then obtain z zs' where z: "zs = z # zs'" by (cases zs) auto
  obtain u where u: "post_buffer e i k s = Some u" "rx_inv [] zs' c (upto_pos (i + 1) u)" "rx_frame s u" "rx u = rx s"
    using post_buffer_ok Cons.prems(1-3) unfolding z by (metis list.set_intros(1))
  have "copying_receiver u" using u(3) Cons.prems(3) by (simp add: rx_frame_def)
  then obtain t where t: "post_buffers e (i + 1) ks u = Some t"
    "rx_inv [] (drop (length ks) zs') c (upto_pos (i + 1 + of_nat (length ks)) t)" "rx_frame u t" "rx t = rx u"
    using Cons.IH [OF u(2)] Cons.prems(2,4) z by auto
  have "rx_frame s t" using u(3) t(3) by (rule rx_frame_trans)
  then show ?case using u(1,4) t(1,2,4) z by (intro exI [of _ t]) (simp add: add.assoc)
qed simp

lemma rx_notify_inv:
  "rx_inv hs zs c (rx_notify s) = rx_inv hs zs c s" "rx_frame s (rx_notify s)" "rx (rx_notify s) = rx s"
  "ring (rxs (rx_notify s)) = ring (rxs s)"
proof -
  obtain n sr where sr: "RING_PUSH_REQUESTS_AND_CHECK_NOTIFY (rx s) (rxs s) = (n, sr)" by (metis prod.exhaust)
  then have r: "ring sr = ring (rxs s)" "rsp_prod sr = rsp_prod (rxs s)"
    by (auto simp: RING_PUSH_REQUESTS_AND_CHECK_NOTIFY_def RING_PUSH_REQUESTS_def Let_def)
  have s: "rx_notify s = (if n then s\<lparr>rxs := sr, notified := notified s + 1\<rparr> else s\<lparr>rxs := sr\<rparr>)"
    by (simp add: rx_notify_def sr Let_def)
  show "rx_inv hs zs c (rx_notify s) = rx_inv hs zs c s" "rx_frame s (rx_notify s)" "rx (rx_notify s) = rx s"
    "ring (rxs (rx_notify s)) = ring (rxs s)"
    unfolding s by (auto simp: rx_inv_def window_refs_def window_def rx_frame_def r)
qed

text \<open>The fill targets.\<close>

definition targets_ok :: "netfront_info \<Rightarrow> bool" where
  "targets_ok s \<longleftrightarrow> RX_MIN_TARGET \<le> unat (rx_min_target s) \<and> unat (rx_min_target s) \<le> unat (rx_target s) \<and>
     unat (rx_target s) \<le> unat (rx_max_target s) \<and> unat (rx_max_target s) \<le> RX_MAX_TARGET"

definition rx_ok :: "nat list \<Rightarrow> netfront_info \<Rightarrow> bool" where
  "rx_ok zs s \<longleftrightarrow> rx_inv [] zs (rsp_cons (rx s)) s \<and> copying_receiver s \<and> targets_ok s \<and>
     length (rx_batch s) \<le> length zs \<and> (\<forall>k \<in> set (rx_batch s). fresh k)"

lemma refill_ok:
  assumes "rx_inv [] zs c s" and "copying_receiver s" and "length (rx_batch s) \<le> length zs" and "\<forall>k \<in> set (rx_batch s). fresh k"
  shows "\<exists>t. refill e s = Some t \<and> rx_inv [] (drop (length (rx_batch s)) zs) c t \<and> rx_batch t = [] \<and>
    rsp_cons (rx t) = rsp_cons (rx s) \<and> req_prod_pvt (rx t) = req_prod_pvt (rx s) + of_nat (length (rx_batch s)) \<and>
    req_prod (rxs t) = req_prod_pvt (rx t) \<and> rx_frame s (t\<lparr>rx_batch := rx_batch s\<rparr>)"
proof -
  let ?p = "req_prod_pvt (rx s)" and ?ks = "rx_batch s" and ?s = "s\<lparr>rx_batch := []\<rparr>"
  have "rx_inv [] zs c (upto_pos ?p ?s)" using assms(1)
    by (simp add: upto_pos_def rx_inv_def window_refs_def window_def)
  then obtain u where u: "post_buffers e ?p ?ks ?s = Some u" "rx_frame ?s u" "rx u = rx s"
    "rx_inv [] (drop (length ?ks) zs) c (upto_pos (?p + of_nat (length ?ks)) u)"
    using post_buffers_ok [of zs c ?p ?s ?ks e] assms by auto
  let ?v = "upto_pos (?p + of_nat (length ?ks)) u"
  have "copying_receiver u" using u(2) assms(2) by (simp add: rx_frame_def)
  then have t: "refill e s = Some (rx_notify ?v)" using u(1) by (simp add: refill_def Let_def upto_pos_def)
  have "req_prod (rxs (rx_notify ?v)) = req_prod_pvt (rx ?v)"
    by (auto simp: rx_notify_def RING_PUSH_REQUESTS_AND_CHECK_NOTIFY_def RING_PUSH_REQUESTS_def Let_def)
  moreover have "rx_frame s ((rx_notify ?v)\<lparr>rx_batch := rx_batch s\<rparr>)" "rx_batch (rx_notify ?v) = []"
    using u(2) rx_notify_inv(2) [of ?v] by (auto simp: rx_frame_def upto_pos_def)
  ultimately show ?thesis using t u(3,4) by (simp add: rx_notify_inv) (simp add: upto_pos_def)
qed


lemma fill_batch_ok:
  "\<exists>ks f tm. fill_batch e n i s = (i + int (length ks), f, s\<lparr>rx_batch := rx_batch s @ ks, rx_refill_timer := tm\<rparr>) \<and>
     length ks \<le> n \<and> (f \<or> length ks = n) \<and> (f \<longrightarrow> (\<exists>j. rx_alloc e j = None)) \<and> (\<forall>k \<in> set ks. fresh k)"
proof (induction n arbitrary: i s)
  case 0
  have "fill_batch e 0 i s = (i + int (length []), False, s\<lparr>rx_batch := rx_batch s @ [], rx_refill_timer := rx_refill_timer s\<rparr>)" by simp
  then show ?case by (intro exI [of _ "[]"] exI [of _ False] exI [of _ "rx_refill_timer s"]) simp
next
  case (Suc n)
  show ?case
  proof (cases "rx_alloc e (nat i)")
    case None
    then show ?thesis by (intro exI [of _ "[]"] exI [of _ True] exI [of _ True]) auto
  next
    case (Some a)
    obtain no pg where a: "a = (no, pg)" by (metis prod.exhaust)
    let ?k = "\<lparr>rx_no = no, rx_frags = [(pg, 0, 0)], rx_head = 0, rx_len = 0, pull_to = 0, rx_gso = 0, rx_summed = CHECKSUM_NONE\<rparr>"
    let ?s = "s\<lparr>rx_batch := rx_batch s @ [?k]\<rparr>"
    obtain ks f tm where ks: "fill_batch e n (i + 1) ?s =
        (i + 1 + int (length ks), f, ?s\<lparr>rx_batch := rx_batch ?s @ ks, rx_refill_timer := tm\<rparr>)"
      "length ks \<le> n" "f \<or> length ks = n" "f \<longrightarrow> (\<exists>j. rx_alloc e j = None)" "\<forall>k \<in> set ks. fresh k"
      using Suc [of "i + 1" ?s] by blast
    have "fill_batch e (Suc n) i s =
        (i + int (length (?k # ks)), f, s\<lparr>rx_batch := rx_batch s @ (?k # ks), rx_refill_timer := tm\<rparr>)"
      using Some a ks(1) by simp
    moreover have "fresh ?k" by (simp add: fresh_def)
    then have "\<forall>k \<in> set (?k # ks). fresh k" using ks(5) by (simp only: list.set ball_simps simp_thms)
    moreover have "length (?k # ks) \<le> Suc n" "f \<or> length (?k # ks) = Suc n" using ks(2,3) by simp_all
    ultimately show ?thesis using ks(4) by blast
  qed
qed

lemma sint_diff_small: "unat a \<le> 256 \<Longrightarrow> unat b \<le> 256 \<Longrightarrow> sint (a - b) = int (unat a) - int (unat b)" for a b :: u32
proof -
  assume h: "unat a \<le> 256" "unat b \<le> 256"
  define x where "x = int (unat a) - int (unat b)"
  have x: "- 256 \<le> x" "x \<le> 256" using h by (simp_all only: x_def)
  have "a - b = word_of_int x" by (simp add: x_def)
  then have "sint (a - b) = signed_take_bit 31 x" using sint_sbintrunc' [of x, where 'a = 32] by simp
  also have "\<dots> = x" using x by (intro signed_take_bit_int_eq_self) simp_all
  finally show ?thesis by (simp only: x_def)
qed

lemma adjust_target_ok:
  assumes "targets_ok s"
  shows "targets_ok (adjust_target s)" "unat (rx_target s) \<le> unat (rx_target (adjust_target s))"
    "rx (adjust_target s) = rx s" "rxs (adjust_target s) = rxs s" "rx_batch (adjust_target s) = rx_batch s"
proof -
  have t: "unat (rx_target s) \<le> 256" using assms by (simp add: targets_ok_def RX_MAX_TARGET_def NET_RX_RING_SIZE_def)
  then have d: "unat (rx_target s * 2) = 2 * unat (rx_target s)" by (simp add: unat_word_ariths)
  show "targets_ok (adjust_target s)" "unat (rx_target s) \<le> unat (rx_target (adjust_target s))"
    using assms d by (auto simp: targets_ok_def adjust_target_def word_less_nat_alt)
  show "rx (adjust_target s) = rx s" "rxs (adjust_target s) = rxs s" "rx_batch (adjust_target s) = rx_batch s"
    by (simp_all add: adjust_target_def)
qed

lemma lower_target_ok: "targets_ok s \<Longrightarrow> targets_ok (lower_target s)"
proof -
  assume h: "targets_ok s"
  then have "8 \<le> unat (rx_target s)" by (simp add: targets_ok_def RX_MIN_TARGET_def)
  then have "unat (rx_target s - 1) = unat (rx_target s) - 1" by (subst unat_minus_one) auto
  then show ?thesis using h by (auto simp: targets_ok_def lower_target_def word_less_nat_alt)
qed


text \<open>What is neither touched by filling nor by taking.\<close>

definition poll_frame :: "netfront_info \<Rightarrow> netfront_info \<Rightarrow> bool" where
  "poll_frame s t \<longleftrightarrow> carrier t = carrier s \<and> hooks t = hooks s \<and> passed_up t = passed_up s \<and> napi_scheduled t = napi_scheduled s \<and>
     rx_min_target t = rx_min_target s \<and> rx_max_target t = rx_max_target s \<and> rsp_prod (rxs t) = rsp_prod (rxs s)"

lemma rx_inv_batch [simp]:
  "rx_inv hs zs c (s\<lparr>rx_batch := b, rx_refill_timer := tm\<rparr>) = rx_inv hs zs c s"
  "rx_inv hs zs c (s\<lparr>rx_target := x\<rparr>) = rx_inv hs zs c s"
  by (simp_all add: rx_inv_def window_refs_def window_def)

lemma rx_inv_adjust [simp]: "rx_inv hs zs c (adjust_target s) = rx_inv hs zs c s" "rx_inv hs zs c (lower_target s) = rx_inv hs zs c s"
  by (auto simp: adjust_target_def lower_target_def)

lemma nat_diff3: "nat (int a - int b - int c) = a - b - c" by simp

lemma if_cases4:
  "q = (if a then x else if b then Some (if c then y else z) else w) \<Longrightarrow> q = x \<or> q = w \<or> q = Some y \<or> q = Some z"
  by (cases a; cases b; cases c) simp_all

lemma network_alloc_rx_buffers_ok:
  assumes ok: "rx_ok zs s" and up: "carrier s"
  shows "\<exists>t n. network_alloc_rx_buffers e s = Some t \<and> rx_ok (drop n zs) t \<and> rsp_cons (rx t) = rsp_cons (rx s) \<and> poll_frame s t \<and>
    ((\<forall>j. rx_alloc e j \<noteq> None) \<longrightarrow>
       unat (rx_target s) \<le> unat (req_prod_pvt (rx t) - rsp_cons (rx t)) + length (rx_batch t))"
proof -
  let ?c = "rsp_cons (rx s)" and ?i = "int (length (rx_batch s))"
  let ?posted = "unat (req_prod_pvt (rx s) - ?c)"
  have inv: "rx_inv [] zs ?c s" and cp: "copying_receiver s" and tg: "targets_ok s" and bt: "length (rx_batch s) \<le> length zs"
    and fr: "\<forall>k \<in> set (rx_batch s). fresh k" using ok unfolding rx_ok_def by blast+
  have pz: "?posted + length zs = 256" using window_small [OF inv] by simp
  have t256: "unat (rx_target s) \<le> 256" using tg by (simp add: targets_ok_def RX_MAX_TARGET_def NET_RX_RING_SIZE_def)
  have bat: "batch_target s = int (unat (rx_target s)) - int ?posted"
    unfolding batch_target_def by (rule sint_diff_small) (use t256 pz in simp_all)
  define n where "n = nat (batch_target s - ?i)"
  have n: "n = unat (rx_target s) - ?posted - length (rx_batch s)" unfolding n_def bat by (rule nat_diff3)
  obtain ks f tm where fill: "fill_batch e n ?i s = (?i + int (length ks), f, s\<lparr>rx_batch := rx_batch s @ ks, rx_refill_timer := tm\<rparr>)"
    "length ks \<le> n" "f \<or> length ks = n" "f \<longrightarrow> (\<exists>j. rx_alloc e j = None)" "\<forall>k \<in> set ks. fresh k"
    using fill_batch_ok [of e n ?i s] by blast
  define u where "u = s\<lparr>rx_batch := rx_batch s @ ks, rx_refill_timer := tm\<rparr>"
  have uu: "rx u = rx s" "rxs u = rxs s" "rx_batch u = rx_batch s @ ks" "copying_receiver u = copying_receiver s"
    "rx_target u = rx_target s" "targets_ok u = targets_ok s" "poll_frame s u" by (simp_all add: u_def targets_ok_def poll_frame_def)
  have iu: "rx_inv [] zs ?c u" using inv by (simp add: u_def)
  have lu: "length (rx_batch u) \<le> length zs" 
  proof -
    have "length (rx_batch u) = length (rx_batch s) + length ks" by (simp add: uu(3))
    then show ?thesis using fill(2) bt pz t256 unfolding n by linarith
  qed
  have fu: "\<forall>k \<in> set (rx_batch u). fresh k" using fr fill(5) unfolding uu(3) by auto
  have on_hand: "unat (rx_target s) \<le> ?posted + length (rx_batch u)" if "\<forall>j. rx_alloc e j \<noteq> None"
  proof -
    have "length ks = n" using that fill(3,4) by blast
    moreover have "length (rx_batch u) = length (rx_batch s) + length ks" by (simp add: uu(3))
    ultimately show ?thesis unfolding n by linarith
  qed
  have keep: "rx_ok zs u" using iu lu fu cp tg unfolding rx_ok_def uu by simp
  have un: "rx_ok zs (rx_notify u)" "poll_frame s (rx_notify u)" "rx (rx_notify u) = rx s" "rx_batch (rx_notify u) = rx_batch u"
    using keep uu(7) rx_notify_inv [where s = u] by (simp_all add: rx_ok_def uu targets_ok_def rx_frame_def poll_frame_def)
  have ref: "\<exists>t. refill e v = Some t \<and> rx_ok (drop (length (rx_batch u)) zs) t \<and> rsp_cons (rx t) = ?c \<and> poll_frame s t \<and>
      ((\<forall>j. rx_alloc e j \<noteq> None) \<longrightarrow> unat (rx_target s) \<le> unat (req_prod_pvt (rx t) - rsp_cons (rx t)) + length (rx_batch t))"
    if v: "rx_inv [] zs ?c v" "rx_batch v = rx_batch u" "targets_ok v" "copying_receiver v" "rx v = rx s" "poll_frame s v" for v
  proof -
    have "length (rx_batch v) \<le> length zs" "\<forall>k \<in> set (rx_batch v). fresh k" using lu fu v(2) by simp_all
    from refill_ok [OF v(1,4) this, of e] obtain t where t: "refill e v = Some t"
      "rx_inv [] (drop (length (rx_batch u)) zs) ?c t" "rx_batch t = []" "rsp_cons (rx t) = ?c"
      "req_prod_pvt (rx t) = req_prod_pvt (rx s) + of_nat (length (rx_batch u))" "rx_frame v (t\<lparr>rx_batch := rx_batch v\<rparr>)"
      unfolding v(2,5) by blast
    have tt: "targets_ok t" "copying_receiver t" "poll_frame s t"
      using t(6) v(3,4,6) by (simp_all add: targets_ok_def rx_frame_def poll_frame_def)
    have p: "unat (req_prod_pvt (rx t) - rsp_cons (rx t)) = ?posted + length (rx_batch u)"
    proof -
      have "req_prod_pvt (rx t) - rsp_cons (rx t) = (req_prod_pvt (rx s) - ?c) + of_nat (length (rx_batch u))" by (simp add: t(4,5))
      moreover have "?posted + length (rx_batch u) \<le> 256" using lu pz by simp
      moreover have "unat (of_nat (length (rx_batch u)) :: u32) = length (rx_batch u)"
        using lu pz by (intro unat_of_nat32) simp
      ultimately show ?thesis by (simp add: unat_plus_if')
    qed
    then show ?thesis using t(1-4) tt on_hand unfolding rx_ok_def by simp
  qed
  have alloc: "network_alloc_rx_buffers e s =
      (if f \<and> ?i + int (length ks) \<noteq> 0 then refill e u
       else if word_of_int (?i + int (length ks)) < rx_target u div 2
       then Some (if req_prod_pvt (rx u) > req_prod (rxs u) then rx_notify u else u) else refill e (adjust_target u))"
    using up fill(1) unfolding network_alloc_rx_buffers_def Let_def n_def u_def by simp
  have adj: "rx_inv [] zs ?c (adjust_target u)" "rx_batch (adjust_target u) = rx_batch u" "targets_ok (adjust_target u)"
    "copying_receiver (adjust_target u)" "rx (adjust_target u) = rx s" "poll_frame s (adjust_target u)"
    using iu tg cp uu adjust_target_ok [of u] by (simp_all add: adjust_target_def poll_frame_def)
  consider (force) "network_alloc_rx_buffers e s = refill e u" | (more) "network_alloc_rx_buffers e s = refill e (adjust_target u)"
    | (push) "network_alloc_rx_buffers e s = Some (rx_notify u)" | (wait) "network_alloc_rx_buffers e s = Some u"
    using if_cases4 [OF alloc] by blast
  then show ?thesis
  proof cases
    case force
    have "copying_receiver u" "targets_ok u" using cp tg uu by simp_all
    then show ?thesis using ref [OF iu refl _ _ uu(1,7)] force by metis
  next
    case more
    then show ?thesis using ref [OF adj] by metis
  next
    case push
    then show ?thesis using un on_hand by (intro exI [of _ "rx_notify u"] exI [of _ 0]) simp
  next
    case wait
    then show ?thesis using keep on_hand uu by (intro exI [of _ u] exI [of _ 0]) simp
  qed
qed

definition delivered :: "netfront_info \<Rightarrow> netfront_info \<Rightarrow> bool" where
  "delivered s t \<longleftrightarrow> rx t = rx s \<and> rxs t = rxs s \<and> rx_skbs t = rx_skbs s \<and> grant_rx_ref t = grant_rx_ref s \<and>
     gref_rx_head t = gref_rx_head s \<and> ngnt t = ngnt s \<and> rx_frame (s\<lparr>passed_up := passed_up t\<rparr>) t"

lemma delivered_refl [simp]: "delivered s s" by (simp add: delivered_def)

lemma delivered_trans: "delivered s t \<Longrightarrow> delivered t u \<Longrightarrow> delivered s u"
  by (simp add: delivered_def rx_frame_def)

lemma pass_up_ok:
  "\<exists>work' t. pass_up e ks (work, s) = (work', t) \<and> work' \<le> work \<and> work - int (length ks) \<le> work' \<and>
     int (length (passed_up t)) = int (length (passed_up s)) + int (length ks) - (work - work') \<and> delivered s t"
proof (induction ks arbitrary: work s)
  case (Cons k ks)
  let ?k = "if pull_to k > rx_head k then pull_tail e (pull_to k - rx_head k) k else k"
  obtain er fx where c: "skb_checksum_setup e ?k (rx_gso_csum_fixups s) = (er, fx)" by (metis prod.exhaust)
  let ?s = "s\<lparr>rx_gso_csum_fixups := fx\<rparr>"
  let ?bad = "?s\<lparr>rx_errors := rx_errors s + 1, rx_freed := rx_freed s @ [?k]\<rparr>"
  let ?good = "?s\<lparr>rx_packets := rx_packets s + 1, rx_bytes := rx_bytes s + rx_len ?k, passed_up := passed_up s @ [?k]\<rparr>"
  have step: "pass_up e (k # ks) (work, s) = (if er \<noteq> 0 then pass_up e ks (work - 1, ?bad) else pass_up e ks (work, ?good))"
    using c by (simp add: Let_def)
  have d: "delivered s ?bad" "delivered s ?good" by (simp_all add: delivered_def rx_frame_def)
  show ?case
  proof (cases "er = 0")
    case True
    obtain work' t where t: "pass_up e ks (work, ?good) = (work', t)" "work' \<le> work" "work - int (length ks) \<le> work'"
      "int (length (passed_up t)) = int (length (passed_up ?good)) + int (length ks) - (work - work')" "delivered ?good t"
      using Cons by blast
    have "delivered s t" using d(2) t(5) by (rule delivered_trans)
    then show ?thesis using step True t(1-4) by (intro exI [of _ work'] exI [of _ t]) simp
  next
    case False
    obtain work' t where t: "pass_up e ks (work - 1, ?bad) = (work', t)" "work' \<le> work - 1" "work - 1 - int (length ks) \<le> work'"
      "int (length (passed_up t)) = int (length (passed_up ?bad)) + int (length ks) - (work - 1 - work')" "delivered ?bad t"
      using Cons by blast
    have "delivered s t" using d(1) t(5) by (rule delivered_trans)
    then show ?thesis using step False t(1-4) by (intro exI [of _ work'] exI [of _ t]) simp
  qed
qed simp


text \<open>An accelerator uses up some of the budget it is given; a backend does not resize the page.\<close>

definition polls_within :: "netfront_info \<Rightarrow> bool" where
  "polls_within s \<longleftrightarrow> (case hooks s of None \<Rightarrow> True | Some h \<Rightarrow> \<forall>n > 0. 0 \<le> fst (h_poll h n) \<and> fst (h_poll h n) \<le> n)"

lemma final_check:
  assumes "RING_FINAL_CHECK_FOR_RESPONSES peer f sr = (n, sr')"
  shows "n = RING_HAS_UNCONSUMED_RESPONSES f sr'" "sr' = sr \<or> sr' = peer (sr\<lparr>rsp_event := rsp_cons f + 1\<rparr>)"
  using assms by (auto simp: RING_FINAL_CHECK_FOR_RESPONSES_def Let_def split: if_splits)

lemma poll_end_ok:
  assumes w: "0 \<le> work" "work \<le> budget" "polls_within s" and napi: "napi_scheduled s"
  shows "\<exists>work' sr b. poll_end peer budget work s = (work', s\<lparr>rxs := sr, napi_scheduled := b\<rparr>) \<and>
    work \<le> work' \<and> work' \<le> budget \<and> (hooks s = None \<longrightarrow> work' = work) \<and>
    (sr = rxs s \<or> sr = peer ((rxs s)\<lparr>rsp_event := rsp_cons (rx s) + 1\<rparr>)) \<and>
    (b \<or> RING_HAS_UNCONSUMED_RESPONSES (rx s) sr = 0 \<and> work' < budget)"
proof -
  define wa where "wa = (if work < budget
             then (case hooks s of
                     Some h \<Rightarrow> (case h_poll h (budget - work) of (left, busy) \<Rightarrow> (work + (budget - work - left), busy))
                   | None \<Rightarrow> (work, False))
             else (work, True))"
  obtain work' am where wa': "wa = (work', am)" by (metis prod.exhaust)
  have w': "work \<le> work' \<and> work' \<le> budget \<and> (hooks s = None \<longrightarrow> work' = work)"
  proof (cases "hooks s")
    case None
    then show ?thesis using wa' w(2) by (auto simp: wa_def split: if_splits)
  next
    case (Some h)
    obtain left busy where h: "h_poll h (budget - work) = (left, busy)" by (metis prod.exhaust)
    show ?thesis
    proof (cases "work < budget")
      case True
      have "\<forall>n > 0. 0 \<le> fst (h_poll h n) \<and> fst (h_poll h n) \<le> n" using w(3) Some by (simp add: polls_within_def)
      then have "0 \<le> left \<and> left \<le> budget - work" using True h by (metis diff_gt_0_iff_gt fst_conv)
      then show ?thesis using wa' Some h True by (simp add: wa_def)
    next
      case False
      then show ?thesis using wa' w(2) Some by (simp add: wa_def)
    qed
  qed
  obtain n sr where f: "RING_FINAL_CHECK_FOR_RESPONSES peer (rx s) (rxs s) = (n, sr)" by (metis prod.exhaust)
  define am' where "am' = (case hooks s of Some h \<Rightarrow> if n = 0 \<and> \<not> am then h_start_napi_irq h else am | None \<Rightarrow> am)"
  have pe: "poll_end peer budget work s =
      (if work' < budget then (work', if n = 0 \<and> \<not> am' then s\<lparr>rxs := sr, napi_scheduled := False\<rparr> else s\<lparr>rxs := sr\<rparr>)
       else (work', s))"
    unfolding poll_end_def wa_def [symmetric] wa' by (simp add: Let_def f am'_def)
  note fc = final_check [OF f]
  have id: "s = s\<lparr>rxs := rxs s, napi_scheduled := True\<rparr>" "s\<lparr>rxs := sr\<rparr> = s\<lparr>rxs := sr, napi_scheduled := True\<rparr>" using napi by simp_all
  consider (full) "\<not> work' < budget" | (stop) "work' < budget" "n = 0 \<and> \<not> am'" | (go) "work' < budget" "\<not> (n = 0 \<and> \<not> am')" by blast
  then show ?thesis
  proof cases
    case full
    then have "poll_end peer budget work s = (work', s\<lparr>rxs := rxs s, napi_scheduled := True\<rparr>)" using pe id(1) by simp
    then show ?thesis using w' by (intro exI [of _ work'] exI [of _ "rxs s"] exI [of _ True]) (metis)
  next
    case stop
    then have "poll_end peer budget work s = (work', s\<lparr>rxs := sr, napi_scheduled := False\<rparr>)" using pe by simp
    then show ?thesis using w' fc stop by metis
  next
    case go
    have "poll_end peer budget work s = (work', s\<lparr>rxs := sr, napi_scheduled := True\<rparr>)"
      using pe id(2) unfolding if_P [OF go(1)] if_not_P [OF go(2)] by simp
    then show ?thesis using w' fc by metis
  qed
qed

lemma rx_inv_granted: "rx_inv hs zs c s \<Longrightarrow> slots_granted s"
proof -
  assume inv: "rx_inv hs zs c s"
  have sk: "\<forall>i < 256. rx_skbs s i \<noteq> None \<longleftrightarrow> i \<in> set (map xennet_rxidx (window c s))" and
    rf: "refs_ok (ngnt s) (window_refs c s @ hs @ zs)" using inv unfolding rx_inv_def by blast+
  have "grant_rx_ref s i \<noteq> GRANT_INVALID_REF" if i: "i < 256" "rx_skbs s i \<noteq> None" for i
  proof -
    obtain j where "j \<in> set (window c s)" "i = xennet_rxidx j" using sk i by auto
    then have "grant_rx_ref s i \<in> set (window_refs c s)" by (simp add: window_refs_def)
    then have "grant_rx_ref s i \<in> gnt_refs (ngnt s)" using rf unfolding refs_ok_def by auto
    then show ?thesis by (auto simp: gnt_refs_def gnt_consts GRANT_INVALID_REF_def)
  qed
  then show "slots_granted s" unfolding slots_granted_def by blast
qed

lemma netif_poll_returns:
  assumes ok: "rx_ok zs s" and near: "unat (rsp_prod (rxs s) - rsp_cons (rx s)) \<le> unat (req_prod_pvt (rx s) - rsp_cons (rx s))"
    and quiet: "lets_go e (ngnt s) (set (window_refs (rsp_cons (rx s)) s))"
    and pieces: "pieces no_empty_piece (rsp_cons (rx s)) (rsp_prod (rxs s)) s" and pull: "pull_drops e"
    and peer: "\<forall>sr. length (ring (peer sr)) = length (ring sr)"
    and napi: "napi_scheduled s" "0 \<le> budget" "polls_within s"
  shows "\<exists>work t zs'. netif_poll e peer budget s = Some (work, t) \<and> rx_ok zs' t \<and> 0 \<le> work \<and> work \<le> budget \<and>
    (hooks s = None \<longrightarrow> int (length (passed_up t)) = int (length (passed_up s)) + work) \<and>
    (\<not> napi_scheduled t \<longrightarrow> RING_HAS_UNCONSUMED_RESPONSES (rx t) (rxs t) = 0 \<and> work < budget)"
proof (cases "carrier s")
  case False
  then show ?thesis using ok napi by (intro exI [of _ 0] exI [of _ s] exI [of _ zs]) (simp add: netif_poll_def)
next
  case True
  let ?rp = "rsp_prod (rxs s)"
  have start: "poll_ok no_empty_piece e ?rp (rsp_cons (rx s)) [] zs s"
    using ok near quiet pieces unfolding rx_ok_def poll_ok_def by simp
  obtain work1 rxq errq u zs1 where loop: "poll_loop e ?rp budget (Suc (unat (?rp - rsp_cons (rx s)))) (0, [], [], 0, s) =
       Some (work1, rxq, errq, 0, u)" "poll_ok no_empty_piece e ?rp (rsp_cons (rx u)) [] zs1 u" "rx_frame s u" "0 \<le> work1" "work1 \<le> budget"
    "int (length rxq) = work1" "length zs \<le> length zs1"
    using poll_loop_ok [OF start pull, of "Suc (unat (?rp - rsp_cons (rx s)))" budget 0 "[]" "[]" 0] napi(2) by auto
  let ?u = "u\<lparr>rx_freed := rx_freed u @ errq\<rparr>"
  obtain work2 v where pass: "pass_up e rxq (work1, ?u) = (work2, v)" "work2 \<le> work1" "0 \<le> work2"
    "int (length (passed_up v)) = int (length (passed_up u)) + work2" "delivered ?u v"
    using pass_up_ok [of e rxq work1 ?u] loop(6) by auto
  have fu: "carrier u" "copying_receiver u" "rx_batch u = rx_batch s" "targets_ok u" "hooks u = hooks s" "passed_up u = passed_up s"
    "napi_scheduled u" using loop(3) True ok napi(1) by (simp_all add: rx_frame_def rx_ok_def targets_ok_def)
  have fv: "carrier v" "copying_receiver v" "rx_batch v = rx_batch s" "targets_ok v" "hooks v = hooks s" "napi_scheduled v"
    "rx v = rx u" using pass(5) fu by (simp_all add: delivered_def rx_frame_def targets_ok_def)
  have iu: "rx_inv [] zs1 (rsp_cons (rx u)) u" using loop(2) unfolding poll_ok_def by blast
  have iv: "rx_inv [] zs1 (rsp_cons (rx v)) v"
    using iu pass(5) by (simp add: rx_inv_def window_refs_def window_def delivered_def)
  have rv: "rx_ok zs1 (lower_target v)"
  proof -
    have "targets_ok (lower_target v)" using fv(4) by (rule lower_target_ok)
    moreover have "rx (lower_target v) = rx v" "copying_receiver (lower_target v) = copying_receiver v" "rx_batch (lower_target v) = rx_batch v"
      by (simp_all add: lower_target_def)
    ultimately show ?thesis using ok iv fv loop(7) unfolding rx_ok_def by simp
  qed
  have lv: "carrier (lower_target v)" "poll_frame v (lower_target v)" using fv(1) by (simp_all add: lower_target_def poll_frame_def)
  obtain w n where w: "network_alloc_rx_buffers e (lower_target v) = Some w" "rx_ok (drop n zs1) w" "poll_frame (lower_target v) w"
    using network_alloc_rx_buffers_ok [OF rv lv(1), of e] by blast
  have fw: "hooks w = hooks s" "passed_up w = passed_up v" "napi_scheduled w" "polls_within w"
    using w(3) lv(2) fv(5,6) napi(3) by (simp_all add: poll_frame_def polls_within_def)
  have "work2 \<le> budget" using pass(2) loop(5) by simp
  from poll_end_ok [OF pass(3) this fw(4,3), of peer] obtain work3 sr b where
    fin: "poll_end peer budget work2 w = (work3, w\<lparr>rxs := sr, napi_scheduled := b\<rparr>)"
    "work2 \<le> work3" "work3 \<le> budget" "hooks w = None \<longrightarrow> work3 = work2"
    "sr = rxs w \<or> sr = peer ((rxs w)\<lparr>rsp_event := rsp_cons (rx w) + 1\<rparr>)"
    "b \<or> RING_HAS_UNCONSUMED_RESPONSES (rx w) sr = 0 \<and> work3 < budget" by metis
  let ?t = "w\<lparr>rxs := sr, napi_scheduled := b\<rparr>"
  have "length (ring sr) = length (ring (rxs w))" using fin(5) peer by auto
  then have "rx_ok (drop n zs1) ?t"
    using w(2) by (simp add: rx_ok_def rx_inv_def window_refs_def window_def targets_ok_def)
  moreover have "netif_poll e peer budget s = Some (work3, ?t)"
    using True loop(1) pass(1) w(1) fin(1) by (simp add: netif_poll_def Let_def)
  moreover have "hooks s = None \<longrightarrow> int (length (passed_up ?t)) = int (length (passed_up s)) + work3"
    using fin(4) fw(1,2) pass(4) fu(6) by simp
  ultimately show ?thesis using fin(2,3,6) pass(3)
    by (intro exI [of _ work3] exI [of _ ?t] exI [of _ "drop n zs1"]) (cases b; simp)
qed


text \<open>One buffer on the ring, filled with a packet of 100 bytes.\<close>

definition net_rx_example :: netfront_info where
  "net_rx_example = net_example
     \<lparr>rx := \<lparr>req_prod_pvt = 1, rsp_cons = 0, f_nr_ents = 256\<rparr>,
      rxs := (rxs net_example)\<lparr>req_prod := 1, rsp_prod := 1,
        ring := (ring (rxs net_example))[0 := Rsp \<lparr>rx_id = 0, rx_offset = 16, rx_flags = 0, rx_status = 100\<rparr>]\<rparr>,
      rx_skbs := [0 \<mapsto> \<lparr>rx_no = 1, rx_frags = [(7, 0, 0)], rx_head = 0, rx_len = 0, pull_to = 0, rx_gso = 0, rx_summed = CHECKSUM_NONE\<rparr>],
      gref_rx_head := 401, grant_rx_ref := (\<lambda>_. GRANT_INVALID_REF)(0 := 400), napi_scheduled := True\<rparr>"

lemma net_rx_example_fields:
  "rx net_rx_example = \<lparr>req_prod_pvt = 1, rsp_cons = 0, f_nr_ents = 256\<rparr>" "ngnt net_rx_example = net_gnt_example"
  "length (ring (rxs net_rx_example)) = 256" "rsp_prod (rxs net_rx_example) = 1" "copying_receiver net_rx_example"
  "rx_batch net_rx_example = []" "targets_ok net_rx_example" "napi_scheduled net_rx_example" "hooks net_rx_example = None"
  "gref_rx_head net_rx_example = 401" "grant_rx_ref net_rx_example = (\<lambda>_. GRANT_INVALID_REF)(0 := 400)"
  by (simp_all add: net_rx_example_def net_example_def targets_ok_def net_consts)

lemma net_rx_example_window: "window 0 net_rx_example = [0]" "window_refs 0 net_rx_example = [400]"
proof -
  show "window 0 net_rx_example = [0]" by (simp add: window_def net_rx_example_fields)
  then show "window_refs 0 net_rx_example = [400]"
    by (simp add: window_refs_def net_rx_example_fields xennet_rxidx_def)
qed

definition net_rx_reserve :: "nat list" where "net_rx_reserve = [401..<400 + NET_TX_RING_SIZE]"

lemma net_rx_example_ok: "rx_ok net_rx_reserve net_rx_example"
proof -
  have r: "[401..<Suc 655] = net_rx_reserve" by (simp only: net_rx_reserve_def NET_TX_RING_SIZE_def) simp
  have l: "linked (gnt_next net_gnt_example) 401 GNTTAB_LIST_END net_rx_reserve"
    using net_gnt_example_list [of 401 655] unfolding r by simp
  have s: "set net_rx_reserve = {401..<656}" by (simp only: net_rx_reserve_def NET_TX_RING_SIZE_def set_upt) simp
  have d: "distinct net_rx_reserve" "length net_rx_reserve = 255" by (simp_all add: net_rx_reserve_def NET_TX_RING_SIZE_def del: upt_Suc)
  have g: "gnt_inv net_gnt_example" "gnt_free net_gnt_example = [8..<100]" using net_gnt_example_inv by blast+
  have f: "set (400 # net_rx_reserve) \<inter> set [8..<100] = {}" by (auto simp: s)
  have sub: "set (400 # net_rx_reserve) \<subseteq> gnt_refs net_gnt_example" by (auto simp: s gnt_refs_def gnt_consts net_gnt_example_def)
  have rf: "refs_ok net_gnt_example ([400] @ [] @ net_rx_reserve)"
    unfolding refs_ok_def g(2) using d f sub by (auto simp: s)
  have sk: "\<forall>i < 256. rx_skbs net_rx_example i \<noteq> None \<longleftrightarrow> i \<in> set (map xennet_rxidx [0])"
    "\<forall>i k. rx_skbs net_rx_example i = Some k \<longrightarrow> fresh k"
    "\<forall>i < 256. rx_skbs net_rx_example i = None \<longrightarrow> grant_rx_ref net_rx_example i = GRANT_INVALID_REF"
    by (auto simp: net_rx_example_def xennet_rxidx_def fresh_def split: if_splits)
  have "rx_inv [] net_rx_reserve 0 net_rx_example"
    unfolding rx_inv_def net_rx_example_window net_rx_example_fields(2,10) using g(1) l rf sk
    by (simp add: net_rx_example_fields(1,3))
  then show ?thesis unfolding rx_ok_def by (simp add: net_rx_example_fields)
qed


section \<open>A packet whose first piece is empty\<close>

lemma fill_frags_stops:
  "\<forall>i. rx_response i s \<noteq> None \<Longrightarrow> pull_to skb \<le> rx_head skb \<Longrightarrow> length (rx_frags skb) \<le> MAX_SKB_FRAGS \<Longrightarrow>
   MAX_SKB_FRAGS < length (rx_frags skb) + length list \<Longrightarrow> xennet_fill_frags e skb list cons s = None"
proof (induction list arbitrary: skb cons s)
  case (Cons n ns)
  obtain r where r: "rx_response (cons + 1) s = Some r" using Cons.prems(1) by blast
  show ?case
  proof (cases "length (rx_frags skb) = MAX_SKB_FRAGS")
    case True
    then show ?thesis using r Cons.prems(2) by simp
  next
    case False
    have "rx_response i (s\<lparr>rx_freed := F\<rparr>) = rx_response i s" for i F by (simp add: rx_response_def Let_def)
    then have "\<forall>i. rx_response i (s\<lparr>rx_freed := F\<rparr>) \<noteq> None" for F using Cons.prems(1) by simp
    then show ?thesis using r False Cons.prems by (simp add: add_rx_frag_def Cons.IH)
  qed
qed simp

lemma empty_first_stops:
  assumes "\<forall>i. rx_response i s \<noteq> None" and "fresh skb" and "length rest = MAX_SKB_FRAGS" and "rx_status r = 0"
    and "ex_type (extras ! 0) = 0"
  shows "\<exists>t. join_packet e r extras (skb # rest) s = (None, t)"
proof -
  let ?skb = "skb\<lparr>rx_frags := (frag_page skb, unat (rx_offset r), 0) # tl (rx_frags skb), rx_len := rx_len skb + 0, pull_to := min 0 RX_COPY_THRESHOLD\<rparr>"
  have "xennet_fill_frags e ?skb rest (rsp_cons (rx s)) s = None"
    using assms(1-3) by (intro fill_frags_stops) (auto simp: fresh_def MAX_SKB_FRAGS_def)
  then show ?thesis using assms(4,5) by (simp add: join_packet_def Let_def)
qed

text \<open>A response that is taken without complaint, and a packet of \<open>m\<close> more of them from \<open>c\<close> on.\<close>

definition good_piece :: "netif_rx_response \<Rightarrow> bool" where
  "good_piece q \<longleftrightarrow> 0 \<le> sint (rx_status q) \<and> int (unat (rx_offset q)) + sint (rx_status q) \<le> int PAGE_SIZE"

definition packet_at :: "ring_idx \<Rightarrow> nat \<Rightarrow> netfront_info \<Rightarrow> bool" where
  "packet_at c m s \<longleftrightarrow> (\<forall>j < m. \<exists>q. rx_response (c + of_nat j) s = Some q \<and> good_piece q \<and>
     (rx_flags q AND XEN_NETRXF_more_data \<noteq> 0 \<longleftrightarrow> Suc j < m))"

lemma packet_next:
  assumes "packet_at c (Suc m) s"
  shows "\<exists>q. rx_response c s = Some q \<and> good_piece q \<and> (rx_flags q AND XEN_NETRXF_more_data \<noteq> 0 \<longleftrightarrow> m \<noteq> 0)" "packet_at (c + 1) m s"
proof -
  show "\<exists>q. rx_response c s = Some q \<and> good_piece q \<and> (rx_flags q AND XEN_NETRXF_more_data \<noteq> 0 \<longleftrightarrow> m \<noteq> 0)"
    using assms [unfolded packet_at_def, rule_format, of 0] by simp
  have "\<exists>q. rx_response (c + 1 + of_nat j) s = Some q \<and> good_piece q \<and> (rx_flags q AND XEN_NETRXF_more_data \<noteq> 0 \<longleftrightarrow> Suc j < m)"
    if "j < m" for j
    using assms [unfolded packet_at_def, rule_format, of "Suc j"] that by (simp add: add.assoc)
  then show "packet_at (c + 1) m s" unfolding packet_at_def by blast
qed

lemma response_cong: "rx t = rx s \<Longrightarrow> rxs t = rxs s \<Longrightarrow> rx_response i t = rx_response i s"
  by (simp add: rx_response_def Let_def)

lemma packet_cong: "rx t = rx s \<Longrightarrow> rxs t = rxs s \<Longrightarrow> packet_at c m t = packet_at c m s"
  using response_cong unfolding packet_at_def by metis

lemma take_good:
  assumes ok: "poll_ok E e rp c (ref # hs) zs s" and q: "good_piece r"
  shows "\<exists>t. take_response e r (Some k) ref (err, queue, pages, s) = Some (err, queue @ [k], pages, t) \<and>
    poll_ok E e rp c hs (ref # zs) t \<and> rx t = rx s \<and> rxs t = rxs s"
proof -
  obtain n g g' where g: "gnttab_end_foreign_access_ref (nhyp e ref) ref (ngnt s) = (n, g)" "n \<noteq> 0"
    "gnttab_release_grant_reference (gref_rx_head s) ref g = Some (ref, g')"
    "poll_ok E e rp c hs (ref # zs) (s\<lparr>ngnt := g', gref_rx_head := ref\<rparr>)" "ref \<noteq> GRANT_INVALID_REF"
    using poll_release [OF ok] by blast
  have "copying_receiver s" using ok unfolding poll_ok_def by blast
  moreover have "\<not> (sint (rx_status r) < 0 \<or> int (unat (rx_offset r)) + sint (rx_status r) > int PAGE_SIZE)"
    using q unfolding good_piece_def by linarith
  ultimately have "take_response e r (Some k) ref (err, queue, pages, s) =
      Some (err, queue @ [k], pages, s\<lparr>ngnt := g', gref_rx_head := ref\<rparr>)"
    using g unfolding take_response_def prod.case by (simp only: if_False) simp
  then show ?thesis using g(4) by (intro exI conjI) (assumption, assumption, simp_all)
qed

lemma take_packet:
  "poll_ok E e rp nxt [ref] zs s \<Longrightarrow> good_piece r \<Longrightarrow> (rx_flags r AND XEN_NETRXF_more_data \<noteq> 0 \<longleftrightarrow> m \<noteq> 0) \<Longrightarrow>
   (\<forall>i. ptr = Some i \<longrightarrow> rx_response i s = Some r) \<Longrightarrow> m \<le> unat (rp - nxt) \<Longrightarrow> packet_at nxt m s \<Longrightarrow>
   \<exists>qs t. take_responses e rp ptr r (Some k) ref nxt frags (err, queue, pages, s) = Some (frags + m, err, queue @ k # qs, pages, t) \<and>
     length qs = m \<and> rx t = rx s \<and> rxs t = rxs s"
proof (induction m arbitrary: nxt ref zs s k ptr r frags queue)
  case 0
  obtain t where t: "take_response e r (Some k) ref (err, queue, pages, s) = Some (err, queue @ [k], pages, t)"
    "rx t = rx s" "rxs t = rxs s" using take_good [OF 0(1,2)] by blast
  have "(case ptr of None \<Rightarrow> Some r | Some i \<Rightarrow> rx_response i t) = Some r"
    using 0(4) response_cong [OF t(2,3)] by (cases ptr) simp_all
  then have "take_responses e rp ptr r (Some k) ref nxt frags (err, queue, pages, s) = Some (frags, err, queue @ [k], pages, t)"
    using t(1) 0(3) by (subst take_responses.simps) simp
  then show ?case using t by (intro exI [of _ "[]"] exI [of _ t]) simp
next
  case (Suc m)
  obtain t where t: "take_response e r (Some k) ref (err, queue, pages, s) = Some (err, queue @ [k], pages, t)"
    "poll_ok E e rp nxt [] (ref # zs) t" "rx t = rx s" "rxs t = rxs s" using take_good [OF Suc.prems(1,2)] by blast
  have r1: "(case ptr of None \<Rightarrow> Some r | Some i \<Rightarrow> rx_response i t) = Some r"
    using Suc.prems(4) response_cong [OF t(3,4)] by (cases ptr) simp_all
  have ne: "nxt \<noteq> rp" using Suc.prems(5) by auto
  obtain q where q: "rx_response nxt t = Some q" "good_piece q" "rx_flags q AND XEN_NETRXF_more_data \<noteq> 0 \<longleftrightarrow> m \<noteq> 0"
    using packet_next(1) [OF Suc.prems(6)] response_cong [OF t(3,4)] by auto
  obtain k2 s2 ref2 u where u: "xennet_get_rx_skb nxt t = (Some k2, s2)" "xennet_get_rx_ref nxt s2 = (ref2, u)"
    "poll_ok E e rp (nxt + 1) [ref2] (ref # zs) u" "rx u = rx t" "rxs u = rxs t"
    using poll_take [OF t(2) ne] by blast
  have step: "take_responses e rp ptr r (Some k) ref nxt frags (err, queue, pages, s) =
      take_responses e rp (Some nxt) q (Some k2) ref2 (nxt + 1) (frags + 1) (err, queue @ [k], pages, u)"
    using t(1) r1 ne q(1) u(1,2) Suc.prems(3) by (subst take_responses.simps) simp
  have p: "packet_at (nxt + 1) m u" using packet_next(2) [OF Suc.prems(6)] packet_cong [of u s] u(4,5) t(3,4) by simp
  have rq: "\<forall>i. Some nxt = Some i \<longrightarrow> rx_response i u = Some q" using q(1) response_cong [OF u(4,5)] by simp
  have n: "m \<le> unat (rp - (nxt + 1))" using Suc.prems(5) unat_next [OF ne] by simp
  from Suc.IH [OF u(3) q(2,3) rq n p, of k2 "frags + 1" "queue @ [k]"] obtain qs v where
    v: "take_responses e rp (Some nxt) q (Some k2) ref2 (nxt + 1) (frags + 1) (err, queue @ [k], pages, u) =
        Some (frags + 1 + m, err, (queue @ [k]) @ k2 # qs, pages, v)" "length qs = m" "rx v = rx u" "rxs v = rxs u" by blast
  then show ?case using step u(4,5) t(3,4) by (intro exI [of _ "k2 # qs"] exI [of _ v]) simp
qed

text \<open>
  C38: A packet of eighteen pieces, all well formed and with more data announced up to the last, but the
  first of them empty. \<open>xennet_get_responses\<close> accepts it: it allows one piece more than a packet has
  fragments when the first is small, because a small first piece can be pulled into the linear
  part. With nothing to pull, \<open>xennet_fill_frags\<close> stops the kernel at the last piece, and so does the
  poll. The backend alone decides whether this happens.
\<close>

theorem netif_poll_empty_first:
  assumes ok: "rx_ok zs s" "carrier s" "0 < budget"
    and near: "unat (rsp_prod (rxs s) - rsp_cons (rx s)) \<le> unat (req_prod_pvt (rx s) - rsp_cons (rx s))"
    and quiet: "lets_go e (ngnt s) (set (window_refs (rsp_cons (rx s)) s))"
    and packet: "18 \<le> unat (rsp_prod (rxs s) - rsp_cons (rx s))" "packet_at (rsp_cons (rx s)) 18 s"
    and first: "rx_response (rsp_cons (rx s)) s = Some r" "rx_status r = 0" "rx_flags r AND XEN_NETRXF_extra_info = 0"
  shows "\<exists>extras queue t. xennet_get_responses e r (rsp_prod (rxs s)) 0 s = Some (0, extras, queue, 0, t) \<and> length queue = 18 \<and>
    fst (join_packet e r extras queue t) = None \<and> netif_poll e peer budget s = None"
proof -
  let ?c = "rsp_cons (rx s)" and ?rp = "rsp_prod (rxs s)"
  let ?none = "\<lparr>ex_type = 0, ex_flags = 0, ex_gso_size = 0, ex_gso_type = 0, ex_gso_pad = 0, ex_gso_features = 0\<rparr>"
  have start: "poll_ok (\<lambda>_. True) e ?rp ?c [] zs s"
    using ok near quiet unfolding rx_ok_def poll_ok_def pieces_def by simp
  have c: "?c \<noteq> ?rp" using packet(1) by auto
  obtain k s1 ref s2 where take: "xennet_get_rx_skb ?c s = (Some k, s1)" "xennet_get_rx_ref ?c s1 = (ref, s2)"
    "fresh k" "poll_ok (\<lambda>_. True) e ?rp (?c + 1) [ref] zs s2" "rx s2 = rx s" "rxs s2 = rxs s"
    using poll_take [OF start c] by blast
  have p18: "packet_at ?c (Suc 17) s" using packet(2) by simp
  have r: "good_piece r" "rx_flags r AND XEN_NETRXF_more_data \<noteq> 0 \<longleftrightarrow> (17 :: nat) \<noteq> 0"
    using packet_next(1) [OF p18] first(1) by auto
  have p17: "packet_at (?c + 1) 17 s2" using packet_next(2) [OF p18] packet_cong [OF take(5,6)] by simp
  have n: "17 \<le> unat (?rp - (?c + 1))" using packet(1) unat_next [OF c] by simp
  obtain qs t where t: "take_responses e ?rp None r (Some k) ref (?c + 1) 1 (0, [], 0, s2) = Some (1 + 17, 0, [] @ k # qs, 0, t)"
    "length qs = 17" "rx t = rx s2" "rxs t = rxs s2"
    using take_packet [OF take(4) r _ n p17, of None k 1 0 "[]" 0] by auto
  have small: "sint (rx_status r) \<le> int RX_COPY_THRESHOLD" using first(2) by simp
  have get: "xennet_get_responses e r ?rp 0 s = Some (0, replicate 3 ?none, k # qs, 0, t)"
    using take(1,2) t(1) first(3) small by (simp add: xennet_get_responses_def Let_def MAX_SKB_FRAGS_def)
  have "\<forall>i. rx_response i t \<noteq> None"
    using poll_response [OF start] response_cong [of t s] t(3,4) take(5,6) by (metis option.distinct(1))
  then obtain u where j: "join_packet e r (replicate 3 ?none) (k # qs) t = (None, u)"
    using empty_first_stops [of t k qs r "replicate 3 ?none" e] take(3) t(2) first(2) by (auto simp: MAX_SKB_FRAGS_def)
  have "poll_loop e ?rp budget (Suc (unat (?rp - ?c))) (0, [], [], 0, s) = None"
    using c ok(3) first(1) get j by simp
  then have "netif_poll e peer budget s = None" using ok(2) by (simp add: netif_poll_def)
  then show ?thesis using get j t(2) by simp
qed

text \<open>Eighteen buffers on the ring, all filled with empty pieces of one packet.\<close>

definition net_rx_packet :: netfront_info where
  "net_rx_packet = net_example
     \<lparr>rx := \<lparr>req_prod_pvt = 18, rsp_cons = 0, f_nr_ents = 256\<rparr>,
      rxs := (rxs net_example)\<lparr>req_prod := 18, rsp_prod := 18,
        ring := map (\<lambda>i. Rsp \<lparr>rx_id = of_nat i, rx_offset = 0, rx_flags = (if i < 17 then 4 else 0), rx_status = 0\<rparr>) [0..<256]\<rparr>,
      rx_skbs := (\<lambda>i. if i < 18 then Some \<lparr>rx_no = i, rx_frags = [(7 + i, 0, 0)], rx_head = 0, rx_len = 0, pull_to = 0, rx_gso = 0,
        rx_summed = CHECKSUM_NONE\<rparr> else None),
      gref_rx_head := 418, grant_rx_ref := (\<lambda>i. if i < 18 then 400 + i else GRANT_INVALID_REF), napi_scheduled := True\<rparr>"

lemma net_rx_packet_fields:
  "rx net_rx_packet = \<lparr>req_prod_pvt = 18, rsp_cons = 0, f_nr_ents = 256\<rparr>" "ngnt net_rx_packet = net_gnt_example"
  "length (ring (rxs net_rx_packet)) = 256" "rsp_prod (rxs net_rx_packet) = 18" "copying_receiver net_rx_packet"
  "rx_batch net_rx_packet = []" "targets_ok net_rx_packet" "gref_rx_head net_rx_packet = 418" "carrier net_rx_packet"
  "grant_rx_ref net_rx_packet = (\<lambda>i. if i < 18 then 400 + i else GRANT_INVALID_REF)"
  by (simp_all add: net_rx_packet_def net_example_def targets_ok_def net_consts)

lemma net_rx_packet_slot: "i < 256 \<Longrightarrow> rx_response (of_nat i) net_rx_packet =
    Some \<lparr>rx_id = of_nat i, rx_offset = 0, rx_flags = (if i < 17 then 4 else 0), rx_status = 0\<rparr>"
proof -
  assume i: "i < 256"
  then have "ring_slot 256 (of_nat i) = i" by (simp add: slot_256 unat_of_nat32)
  then show ?thesis using i by (simp add: rx_response_def net_rx_packet_fields) (simp add: net_rx_packet_def rx_view_def)
qed

lemma idxs_map: "idxs c n = map (\<lambda>j. c + of_nat j) [0..<n]"
  by (induction n) (simp_all add: idxs_snoc del: idxs.simps(2))

lemma net_rx_packet_window: "window 0 net_rx_packet = map of_nat [0..<18]" "window_refs 0 net_rx_packet = [400..<418]"
proof -
  have "unat (18 :: u32) = 18" by simp
  then show w: "window 0 net_rx_packet = map of_nat [0..<18]"
    unfolding window_def idxs_map by (simp add: net_rx_packet_fields del: upt_rec_numeral)
  have "grant_rx_ref net_rx_packet (xennet_rxidx (of_nat i)) = 400 + i" if "i < 18" for i
    using that by (simp add: net_rx_packet_fields rxidx_slot slot_256 unat_of_nat32)
  then have "window_refs 0 net_rx_packet = map (\<lambda>i. 400 + i) [0..<18]"
    unfolding window_refs_def w map_map by (intro map_cong refl) simp
  also have "\<dots> = [400..<418]" by (rule nth_equalityI) (simp_all del: upt_rec_numeral)
  finally show "window_refs 0 net_rx_packet = [400..<418]" .
qed

lemma net_rx_packet_ok: "rx_ok [418..<656] net_rx_packet"
proof -
  have r: "[418..<Suc 655] = [418..<656]" by simp
  have l: "linked (gnt_next net_gnt_example) 418 GNTTAB_LIST_END [418..<656]"
    using net_gnt_example_list [of 418 655] unfolding r by simp
  have g: "gnt_inv net_gnt_example" "gnt_free net_gnt_example = [8..<100]" using net_gnt_example_inv by blast+
  have all: "[400..<418] @ [] @ [418..<656] = [400..<656 :: nat]"
    using upt_add_eq_append [of 400 418 238] by (simp del: upt_rec_numeral)
  have f: "set [400..<656] \<inter> set [8..<100 :: nat] = {}" by (simp only: set_upt) auto
  have sub: "set [400..<656] \<subseteq> gnt_refs net_gnt_example"
    by (simp only: set_upt) (auto simp: gnt_refs_def gnt_consts net_gnt_example_def)
  have rf: "refs_ok net_gnt_example ([400..<418] @ [] @ [418..<656])"
    unfolding refs_ok_def g(2) all using f sub by (simp del: upt_rec_numeral)
  have ix: "xennet_rxidx (of_nat i) = i" if "i < 18" for i
    using that by (simp add: rxidx_slot slot_256 unat_of_nat32)
  have "set (map xennet_rxidx (map of_nat [0..<18])) = {..<18}"
    using ix by (auto simp del: upt_rec_numeral intro!: image_eqI)
  then have sk: "\<forall>i < 256. rx_skbs net_rx_packet i \<noteq> None \<longleftrightarrow> i \<in> set (map xennet_rxidx (map of_nat [0..<18]))"
    by (simp add: net_rx_packet_def)
  have fr: "\<forall>i k. rx_skbs net_rx_packet i = Some k \<longrightarrow> fresh k"
    "\<forall>i < 256. rx_skbs net_rx_packet i = None \<longrightarrow> grant_rx_ref net_rx_packet i = GRANT_INVALID_REF"
    by (auto simp: net_rx_packet_def fresh_def split: if_splits)
  have "rx_inv [] [418..<656] 0 net_rx_packet"
    unfolding rx_inv_def net_rx_packet_window net_rx_packet_fields(2,8) using g(1) l rf sk fr
    by (simp add: net_rx_packet_fields(1,3) del: upt_rec_numeral)
  then show ?thesis unfolding rx_ok_def by (simp add: net_rx_packet_fields del: upt_rec_numeral)
qed

theorem netif_poll_empty_first_witness: "netif_poll net_env_example id 64 net_rx_packet = None"
proof -
  have "lets_go net_env_example (ngnt net_rx_packet) (set (window_refs (rsp_cons (rx net_rx_packet)) net_rx_packet))"
    by (simp add: net_rx_packet_fields net_rx_packet_window lets_go_def gnttab_end_foreign_access_ref_def net_env_example_def
        net_gnt_example_def gnt_example_def del: upt_rec_numeral)
  moreover have "packet_at (rsp_cons (rx net_rx_packet)) 18 net_rx_packet"
    by (simp add: packet_at_def net_rx_packet_slot net_rx_packet_fields good_piece_def PAGE_SIZE_def XEN_NETRXF_more_data_def)
  ultimately show ?thesis
    using netif_poll_empty_first [OF net_rx_packet_ok, of 64 net_env_example
      "\<lparr>rx_id = 0, rx_offset = 0, rx_flags = 4, rx_status = 0\<rparr>" id] net_rx_packet_slot [of 0]
    by (simp add: net_rx_packet_fields XEN_NETRXF_extra_info_def) blast
qed

end
