(* ===== verification/Scsifront.thy ===== *)
theory Scsifront
  imports Ring Gnttab "HOL-Library.Monad_Syntax"
begin

text \<open>
  The data path of the SCSI front end, \<^verbatim>\<open>xen-scsi/scsifront.c\<close>, with the set-up of its tables from
  \<^verbatim>\<open>xen-scsi/xenbus.c\<close>: commands take an id from a free list and grants from a pool; a backend
  that maps grants for good gets its data through pages of the pool, others get the pages of the
  command; more than 26 segments go through indirect pages; responses return both. Everything
  runs under the host's lock, except that \<open>scsifront_queuecommand\<close> counts itself in \<open>callers\<close> before it
  takes it (line 650): the count is faithful for one caller at a time, a race between two is not modelled.
  \<open>None\<close> is a \<open>BUG\<close> or a wild access.
\<close>

section \<open>Requests and responses\<close>

definition VSCSIIF_ACT_SCSI_CDB :: u8 where "VSCSIIF_ACT_SCSI_CDB = 1"
definition VSCSIIF_ACT_SCSI_RESET :: u8 where "VSCSIIF_ACT_SCSI_RESET = 3"
definition SG_PAGE_SIZE :: nat where "SG_PAGE_SIZE = 4096"
definition VSCSIIF_SG_TABLESIZE :: nat where "VSCSIIF_SG_TABLESIZE = 26"
definition MAX_VSCSI_INDIRECT_SEGMENTS :: nat where "MAX_VSCSI_INDIRECT_SEGMENTS = 128"
definition SEGS_PER_VSCSI_INDIRECT_FRAME :: nat where "SEGS_PER_VSCSI_INDIRECT_FRAME = 512"
definition VSCSIIF_MAX_COMMAND_SIZE :: nat where "VSCSIIF_MAX_COMMAND_SIZE = 16"
definition VSCSIIF_SENSE_BUFFERSIZE :: nat where "VSCSIIF_SENSE_BUFFERSIZE = 96"
definition VSCSIIF_IN_USE :: nat where "VSCSIIF_IN_USE = 0x0fff"
definition VSCSIIF_NONE :: nat where "VSCSIIF_NONE = 0x0ffe"

text \<open>Eight pages hold 128 slots of 252 bytes, the size of either message.\<close>

definition VSCSIIF_MAX_REQS :: nat where "VSCSIIF_MAX_REQS = unat (RING_SIZE_of 252 (8 * 4096))"

definition DMA_TO_DEVICE :: u8 where "DMA_TO_DEVICE = 1"
definition DMA_FROM_DEVICE :: u8 where "DMA_FROM_DEVICE = 2"
definition DMA_NONE :: u8 where "DMA_NONE = 3"
definition DMA_VSCSI_INDIRECT :: u8 where "DMA_VSCSI_INDIRECT = 4"

definition VSCSI_INDIRECT_PAGES :: "nat \<Rightarrow> nat" where
  "VSCSI_INDIRECT_PAGES n = (n + SEGS_PER_VSCSI_INDIRECT_FRAME - 1) div SEGS_PER_VSCSI_INDIRECT_FRAME"

record vscsiif_segment =
  vgref :: nat
  voffset :: u16
  vlength :: u16

datatype vscsiif_body =
  VRw "vscsiif_segment list" | VIndirect u8 "nat list" u16

text \<open>\<open>rq_cmnd\<close> are the bytes of the command that are set.\<close>

record vscsiif_request =
  rqid :: u16
  rq_act :: u8
  rq_cmd_len :: nat
  rq_cmnd :: "u8 list"
  timeout_per_command :: u16
  rq_device :: "u16 \<times> u16 \<times> u16"
  rq_direction :: u8
  rq_body :: vscsiif_body

record vscsiif_response =
  rs_rqid :: u16
  rs_sense_len :: u8
  rs_sense_buffer :: "u8 list"
  rs_rslt :: int
  rs_residual_len :: u32

text \<open>A command of the SCSI layer; its device is channel, id and lun.\<close>

record sg_entry =
  sg_pfn :: nat
  sg_offset :: nat
  sg_length :: nat

record scsi_cmnd =
  sc_no :: nat
  sc_device :: "u16 \<times> u16 \<times> u16"
  sc_cmd_len :: nat
  sc_cmnd :: "u8 list"
  sc_data_direction :: u8
  sc_timeout :: u16
  sc_bufflen :: nat
  sc_sg :: "sg_entry list"

section \<open>State\<close>

text \<open>\<open>gr_gref\<close> is \<open>GRANT_INVALID_REF\<close> while the page is not granted.\<close>

record grant =
  gr_gref :: nat
  gr_pfn :: nat

record vscsifrnt_shadow =
  next_free :: nat
  act :: u8
  nr_segments :: nat
  shadow_direction :: u8
  wait_reset :: bool
  rslt_reset :: int
  sc :: "scsi_cmnd option"
  grants_used :: "grant list"
  indirect_grants :: "grant list"

text \<open>
  \<open>seg_room\<close> is the length of each array \<open>grants_used\<close>. \<open>vmem\<close> is the memory by page and offset,
  \<open>vseg_pages\<close> the segments written to the pages used as indirect ones. \<open>finished\<close> records the commands
  handed back, each with result, residual length and sense data; \<open>vnotified\<close> counts notifications.
\<close>

record vscsifrnt_info =
  backend_dom :: u16
  vring :: front_ring
  vsring :: "(vscsiif_request, vscsiif_response) sring"
  grants :: "grant list"
  indirect_pages :: "nat list"
  max_indirect_segments :: nat
  seg_room :: nat
  persistent_gnts_c :: u32
  feature_persistent :: bool
  vshadow :: "nat \<Rightarrow> vscsifrnt_shadow"
  vshadow_free :: nat
  waiting_resp :: bool
  waiting_sync :: bool
  waiting_pause :: bool
  pause :: bool
  callers :: nat
  vgnt :: gnttab
  vmem :: "nat \<times> nat \<Rightarrow> u8"
  vseg_pages :: "nat \<Rightarrow> nat \<Rightarrow> vscsiif_segment"
  finished :: "(scsi_cmnd \<times> int \<times> u32 \<times> u8 list) list"
  vnotified :: nat

record scsi_env =
  sgenv :: gnt_env
  shyp :: "nat \<Rightarrow> u16 list"
  skmem :: "nat \<Rightarrow> nat option"

section \<open>Request ids\<close>

definition upd_shadow :: "nat \<Rightarrow> (vscsifrnt_shadow \<Rightarrow> vscsifrnt_shadow) \<Rightarrow> vscsifrnt_info \<Rightarrow> vscsifrnt_info" where
  "upd_shadow i f s = s\<lparr>vshadow := (vshadow s)(i := f (vshadow s i))\<rparr>"

definition get_id_from_freelist :: "vscsifrnt_info \<Rightarrow> (nat \<times> vscsifrnt_info) option" where
  "get_id_from_freelist s =
     (let free = vshadow_free s
      in if free \<ge> VSCSIIF_MAX_REQS then None
         else Some (free, upd_shadow free (\<lambda>h. h\<lparr>next_free := VSCSIIF_IN_USE, wait_reset := False\<rparr>)
                            (s\<lparr>vshadow_free := next_free (vshadow s free)\<rparr>)))"

definition add_id_to_freelist :: "nat \<Rightarrow> vscsifrnt_info \<Rightarrow> vscsifrnt_info" where
  "add_id_to_freelist i s =
     (upd_shadow i (\<lambda>h. h\<lparr>next_free := vshadow_free s, sc := None\<rparr>) s)\<lparr>vshadow_free := i\<rparr>"

fun shadow_init_upto :: "nat \<Rightarrow> (nat \<Rightarrow> vscsifrnt_shadow) \<Rightarrow> (nat \<Rightarrow> vscsifrnt_shadow)" where
  "shadow_init_upto 0 sh = sh"
| "shadow_init_upto (Suc n) sh =
     (let sh = shadow_init_upto n sh in sh(n := (sh n)\<lparr>next_free := n + 1, wait_reset := False\<rparr>))"

definition shadow_init :: "nat \<Rightarrow> vscsifrnt_info \<Rightarrow> vscsifrnt_info" where
  "shadow_init n s = upd_shadow (n - 1) (\<lambda>h. h\<lparr>next_free := VSCSIIF_NONE\<rparr>) (s\<lparr>vshadow := shadow_init_upto n (vshadow s)\<rparr>)"

section \<open>The pool of grants\<close>

text \<open>
  \<open>head\<close> is the private list of references, \<open>None\<close> where the code has not set the variable. The
  page \<open>pfn\<close> is used only without persistent grants.
\<close>

definition get_grant :: "nat option \<Rightarrow> nat \<Rightarrow> u16 \<Rightarrow> vscsifrnt_info \<Rightarrow> (grant \<times> nat option \<times> vscsifrnt_info) option" where
  "get_grant head pfn fl s =
     (case grants s of
        [] \<Rightarrow> None
      | g # gs \<Rightarrow>
          (let s = s\<lparr>grants := gs\<rparr>
           in if gr_gref g \<noteq> GRANT_INVALID_REF
              then Some (g, head, s\<lparr>persistent_gnts_c := persistent_gnts_c s - 1\<rparr>)
              else do {
                h \<leftarrow> head;
                (ref, h) \<leftarrow> gnttab_claim_grant_reference h (vgnt s);
                if ref = - ENOSPC \<or> \<not> feature_persistent s \<and> pfn = 0 then None
                else do {
                  let g = g\<lparr>gr_gref := nat ref, gr_pfn := (if feature_persistent s then gr_pfn g else pfn)\<rparr>;
                  t \<leftarrow> gnttab_grant_foreign_access_ref (gr_gref g) (backend_dom s) (of_nat (gr_pfn g)) fl (vgnt s);
                  Some (g, Some h, s\<lparr>vgnt := t\<rparr>)
                }
              }))"

section \<open>Mapping a command's data\<close>

text \<open>
  What the two nested loops over the scatter list visit: the entry with its index, and offset and
  size of a piece within a page. An entry starts inside its page.
\<close>

function entry_pieces :: "nat \<Rightarrow> sg_entry \<Rightarrow> nat \<Rightarrow> nat \<Rightarrow> nat \<Rightarrow> (nat \<times> sg_entry \<times> nat \<times> nat) list" where
  "entry_pieces i sg off len data_len =
     (if len = 0 \<or> data_len = 0 \<or> SG_PAGE_SIZE \<le> off then []
      else let n = min (min len (SG_PAGE_SIZE - off)) data_len
           in (i, sg, off, n) # entry_pieces i sg 0 (len - n) (data_len - n))"
  by pat_completeness auto
termination by (relation "measure (\<lambda>(i, sg, off, len, d). len)") auto

declare entry_pieces.simps [simp del]

fun sg_pieces :: "nat \<Rightarrow> sg_entry list \<Rightarrow> nat \<Rightarrow> (nat \<times> sg_entry \<times> nat \<times> nat) list" where
  "sg_pieces i [] data_len = []"
| "sg_pieces i (sg # sgs) data_len =
     (let ps = entry_pieces i sg (sg_offset sg) (sg_length sg) data_len
      in ps @ sg_pieces (i + 1) sgs (data_len - sum_list (map (\<lambda>(_, _, _, n). n) ps)))"

definition scsifront_calculate_segs :: "scsi_cmnd \<Rightarrow> nat" where
  "scsifront_calculate_segs c = length (sg_pieces 0 (sc_sg c) (sc_bufflen c))"

definition copy_page :: "nat \<Rightarrow> nat \<Rightarrow> nat \<Rightarrow> nat \<Rightarrow> (nat \<times> nat \<Rightarrow> u8) \<Rightarrow> (nat \<times> nat \<Rightarrow> u8)" where
  "copy_page dst src off len m =
     (\<lambda>(p, x). if p = dst \<and> off \<le> x \<and> x < off + len then m (src, x) else m (p, x))"

text \<open>
  The state of the loops: private list, grants and indirect grants taken so far, segments of the
  ring request or of the current indirect page, whose frame number is \<open>mp_page\<close>.
\<close>

record map_state =
  mp_head :: "nat option"
  mp_used :: "grant list"
  mp_indirect :: "grant list"
  mp_segs :: "vscsiif_segment list"
  mp_page :: nat
  mp_info :: vscsifrnt_info

definition map_indirect_page :: "map_state \<Rightarrow> map_state option" where
  "map_indirect_page m =
     (let s = mp_info m
      in do {
        (pfn, s) \<leftarrow> (if feature_persistent s then Some (0, s)
                    else case indirect_pages s of [] \<Rightarrow> None | p # ps \<Rightarrow> Some (p, s\<lparr>indirect_pages := ps\<rparr>));
        (g, h, s) \<leftarrow> get_grant (mp_head m) pfn 0 s;
        Some (m\<lparr>mp_head := h, mp_indirect := mp_indirect m @ [g], mp_page := gr_pfn g, mp_info := s\<rparr>)
      })"

definition map_piece :: "bool \<Rightarrow> bool \<Rightarrow> nat \<times> sg_entry \<times> nat \<times> nat \<Rightarrow> map_state \<Rightarrow> map_state option" where
  "map_piece write indirect piece m =
     (case piece of (_, sg, off, n) \<Rightarrow>
        let k = length (mp_used m)
        in do {
          m \<leftarrow> (if indirect \<and> k mod SEGS_PER_VSCSI_INDIRECT_FRAME = 0 then map_indirect_page m else Some m);
          (g, h, s) \<leftarrow> get_grant (mp_head m) (sg_pfn sg) (if write then 1 else 0) (mp_info m);
          if seg_room s \<le> k then None
          else do {
            s \<leftarrow> (if write \<and> feature_persistent s
                  then if sg_offset sg + sg_length sg > SG_PAGE_SIZE then None
                       else Some (s\<lparr>vmem := copy_page (gr_pfn g) (sg_pfn sg) (sg_offset sg) (sg_length sg) (vmem s)\<rparr>)
                  else Some s);
            let seg = \<lparr>vgref = gr_gref g, voffset = of_nat off, vlength = of_nat n\<rparr>;
            Some (m\<lparr>mp_head := h, mp_used := mp_used m @ [g],
                    mp_segs := (if indirect then mp_segs m else mp_segs m @ [seg]),
                    mp_info := (if indirect
                                then s\<lparr>vseg_pages := (vseg_pages s)(mp_page m :=
                                       (vseg_pages s (mp_page m))(k mod SEGS_PER_VSCSI_INDIRECT_FRAME := seg))\<rparr>
                                else s)\<rparr>)
          }
        })"

fun map_pieces :: "bool \<Rightarrow> bool \<Rightarrow> (nat \<times> sg_entry \<times> nat \<times> nat) list \<Rightarrow> map_state \<Rightarrow> map_state option" where
  "map_pieces write indirect [] m = Some m"
| "map_pieces write indirect (p # ps) m = do {
     m \<leftarrow> map_piece write indirect p m;
     map_pieces write indirect ps m
   }"

definition max_grefs :: "vscsifrnt_info \<Rightarrow> nat" where
  "max_grefs s =
     (if max_indirect_segments s \<noteq> 0
      then max_indirect_segments s + VSCSI_INDIRECT_PAGES (max_indirect_segments s) else VSCSIIF_SG_TABLESIZE)"

text \<open>\<open>PFN_UP (data_len + offset of the first entry)\<close>.\<close>

definition command_pages :: "scsi_cmnd \<Rightarrow> nat" where
  "command_pages c = (sc_bufflen c + sg_offset (hd (sc_sg c)) + SG_PAGE_SIZE - 1) div SG_PAGE_SIZE"

text \<open>The number of segments or an error, with direction and body of the ring request.\<close>

definition map_data_for_request ::
    "scsi_env \<Rightarrow> scsi_cmnd \<Rightarrow> nat \<Rightarrow> vscsifrnt_info \<Rightarrow> (int \<times> u8 \<times> vscsiif_body \<times> vscsifrnt_info) option" where
  "map_data_for_request e c i s =
     (let dir = sc_data_direction c
      in if dir = DMA_NONE \<or> sc_bufflen c = 0 then Some (0, dir, VRw [], s)
         else do {
           let fresh = unat (persistent_gnts_c s) < max_grefs s;
           (rc, head, s) \<leftarrow> (if fresh
                            then do {
                              (rc, h, g) \<leftarrow> gnttab_alloc_grant_references (sgenv e)
                                             (of_nat (max_grefs s - unat (persistent_gnts_c s))) (vgnt s);
                              Some (rc, h, s\<lparr>vgnt := g\<rparr>)
                            }
                            else Some (0, None, s));
           if rc \<noteq> 0 then Some (- ENOMEM, dir, VRw [], s)
           else do {
             let nseg = scsifront_calculate_segs c;
             let indirect = VSCSIIF_SG_TABLESIZE < nseg;
             let rdir = (if indirect then DMA_VSCSI_INDIRECT else dir);
             let s = upd_shadow i (\<lambda>h. h\<lparr>shadow_direction := rdir\<rparr>) s;
             (cnt, m) \<leftarrow> (if max_grefs s < command_pages c
                         then Some (- E2BIG, \<lparr>mp_head = head, mp_used = [], mp_indirect = [], mp_segs = [], mp_page = 0, mp_info = s\<rparr>)
                         else do {
                           m \<leftarrow> map_pieces (dir = DMA_TO_DEVICE) indirect (sg_pieces 0 (sc_sg c) (sc_bufflen c))
                                  \<lparr>mp_head = head, mp_used = [], mp_indirect = [], mp_segs = [], mp_page = 0, mp_info = s\<rparr>;
                           Some (int (length (mp_used m)), m)
                         });
             let s = upd_shadow i (\<lambda>h. h\<lparr>grants_used := mp_used m, indirect_grants := mp_indirect m\<rparr>) (mp_info m);
             let b = (if indirect then VIndirect dir (map gr_gref (mp_indirect m)) (of_nat nseg) else VRw (mp_segs m));
             if fresh
             then do {
               h \<leftarrow> mp_head m;
               g \<leftarrow> gnttab_free_grant_references (max_grefs s + 1) h (vgnt s);
               Some (cnt, rdir, b, s\<lparr>vgnt := g\<rparr>)
             }
             else Some (cnt, rdir, b, s)
           }
         })"

section \<open>Sending\<close>

definition scsifront_do_request :: "vscsifrnt_info \<Rightarrow> vscsifrnt_info" where
  "scsifront_do_request s =
     (case RING_PUSH_REQUESTS_AND_CHECK_NOTIFY (vring s) (vsring s) of (notify, sr) \<Rightarrow>
        let s = s\<lparr>vsring := sr\<rparr> in if notify then s\<lparr>vnotified := vnotified s + 1\<rparr> else s)"

definition scsifront_enter :: "vscsifrnt_info \<Rightarrow> bool \<times> vscsifrnt_info" where
  "scsifront_enter s = (if pause s then (True, s) else (False, s\<lparr>callers := callers s + 1\<rparr>))"

definition scsifront_return :: "vscsifrnt_info \<Rightarrow> vscsifrnt_info" where
  "scsifront_return s =
     (let s = s\<lparr>callers := callers s - 1\<rparr>
      in if callers s \<noteq> 0 \<or> \<not> waiting_pause s then s else s\<lparr>waiting_pause := False\<rparr>)"

text \<open>The slot is reserved and an id taken; the request is filled in afterwards.\<close>

definition scsifront_pre_request :: "vscsifrnt_info \<Rightarrow> (nat \<times> vscsifrnt_info) option" where
  "scsifront_pre_request s =
     get_id_from_freelist (s\<lparr>vring := (vring s)\<lparr>req_prod_pvt := req_prod_pvt (vring s) + 1\<rparr>\<rparr>)"

definition fill_request :: "vscsiif_request \<Rightarrow> vscsifrnt_info \<Rightarrow> vscsifrnt_info" where
  "fill_request q s = s\<lparr>vsring := ring_put (f_nr_ents (vring s)) (req_prod_pvt (vring s) - 1) (Req q) (vsring s)\<rparr>"

definition command_bytes :: "scsi_cmnd \<Rightarrow> u8 list" where
  "command_bytes c =
     (if sc_cmd_len c = 0 then replicate VSCSIIF_MAX_COMMAND_SIZE 0 else take (sc_cmd_len c) (sc_cmnd c))"

definition SCSI_MLQUEUE_HOST_BUSY :: int where "SCSI_MLQUEUE_HOST_BUSY = 0x1055"
definition DID_ERROR :: int where "DID_ERROR = 7"
definition DID_RESET :: int where "DID_RESET = 8"
definition FAILED :: int where "FAILED = 0x2003"

definition scsifront_queuecommand :: "scsi_env \<Rightarrow> scsi_cmnd \<Rightarrow> vscsifrnt_info \<Rightarrow> (int \<times> vscsifrnt_info) option" where
  "scsifront_queuecommand e c s =
     (case scsifront_enter s of
        (True, s) \<Rightarrow> Some (SCSI_MLQUEUE_HOST_BUSY, s)
      | (False, s) \<Rightarrow>
          if RING_FULL (vring s) then Some (SCSI_MLQUEUE_HOST_BUSY, scsifront_return s)
          else do {
            (i, s) \<leftarrow> scsifront_pre_request s;
            if sc_cmd_len c > VSCSIIF_MAX_COMMAND_SIZE then None
            else do {
              let s = upd_shadow i (\<lambda>h. h\<lparr>sc := Some c, act := VSCSIIF_ACT_SCSI_CDB,
                                          shadow_direction := sc_data_direction c\<rparr>) s;
              (cnt, dir, b, s) \<leftarrow> map_data_for_request e c i s;
              if cnt < 0
              then let s = add_id_to_freelist i s;
                       s = s\<lparr>vring := (vring s)\<lparr>req_prod_pvt := req_prod_pvt (vring s) - 1\<rparr>\<rparr>;
                       s = scsifront_return (scsifront_do_request s)
                   in if cnt = - ENOMEM then Some (SCSI_MLQUEUE_HOST_BUSY, s)
                      else Some (0, s\<lparr>finished := finished s @ [(c, DID_ERROR * 65536, 0, [])]\<rparr>)
              else let q = \<lparr>rqid = of_nat i, rq_act = VSCSIIF_ACT_SCSI_CDB, rq_cmd_len = sc_cmd_len c,
                            rq_cmnd = command_bytes c, timeout_per_command = sc_timeout c,
                            rq_device = sc_device c, rq_direction = dir, rq_body = b\<rparr>;
                       s = upd_shadow i (\<lambda>h. h\<lparr>nr_segments := nat cnt\<rparr>) (fill_request q s)
                   in Some (0, scsifront_return (scsifront_do_request s))
            }
          })"

definition scsifront_eh_abort_handler :: "scsi_cmnd \<Rightarrow> int" where
  "scsifront_eh_abort_handler c = FAILED"

section \<open>Responses\<close>

definition scsifront_intr :: "vscsifrnt_info \<Rightarrow> vscsifrnt_info" where
  "scsifront_intr s = s\<lparr>waiting_resp := True\<rparr>"

text \<open>Data of a read comes back through the pages of the pool.\<close>

fun copy_back :: "(nat \<times> sg_entry \<times> nat \<times> nat) list \<Rightarrow> grant list \<Rightarrow> (nat \<times> nat \<Rightarrow> u8) \<Rightarrow> (nat \<times> nat \<Rightarrow> u8) option" where
  "copy_back [] gs m = Some m"
| "copy_back ((i, sg, _, _) # ps) gs m =
     (if sg_offset sg + sg_length sg > SG_PAGE_SIZE \<or> length gs \<le> i then None
      else copy_back ps gs (copy_page (sg_pfn sg) (gr_pfn (gs ! i)) (sg_offset sg) (sg_length sg) m))"

text \<open>
  A grant the backend still maps goes to the front of the pool, another is ended and goes to
  the back. \<open>strict\<close> is the \<open>BUG\<close> of the data grants; the page of an indirect grant is kept for
  the next command.
\<close>

definition put_grant :: "scsi_env \<Rightarrow> bool \<Rightarrow> grant \<Rightarrow> vscsifrnt_info \<Rightarrow> vscsifrnt_info option" where
  "put_grant e strict g s =
     (if gnttab_query_foreign_access (gr_gref g) (vgnt s) \<noteq> 0
      then if strict \<and> \<not> feature_persistent s then None
           else Some (s\<lparr>grants := g # grants s, persistent_gnts_c := persistent_gnts_c s + 1\<rparr>)
      else do {
        t \<leftarrow> gnttab_end_foreign_access (shyp e (gr_gref g)) (skmem e (gr_gref g)) (gr_gref g) None (vgnt s);
        let s = (if strict \<or> feature_persistent s then s else s\<lparr>indirect_pages := gr_pfn g # indirect_pages s\<rparr>);
        Some (s\<lparr>vgnt := t, grants := grants s @ [g\<lparr>gr_gref := GRANT_INVALID_REF\<rparr>]\<rparr>)
      })"

fun put_grants :: "scsi_env \<Rightarrow> bool \<Rightarrow> grant list \<Rightarrow> vscsifrnt_info \<Rightarrow> vscsifrnt_info option" where
  "put_grants e strict [] s = Some s"
| "put_grants e strict (g # gs) s = do { s \<leftarrow> put_grant e strict g s; put_grants e strict gs s }"

definition scsifront_gnttab_done :: "scsi_env \<Rightarrow> nat \<Rightarrow> scsi_cmnd \<Rightarrow> vscsifrnt_info \<Rightarrow> vscsifrnt_info option" where
  "scsifront_gnttab_done e i c s =
     (let h = vshadow s i; n = nr_segments h
      in if sc_data_direction c = DMA_NONE then Some s
         else do {
           m \<leftarrow> (if sc_data_direction c = DMA_FROM_DEVICE \<and> feature_persistent s
                 then copy_back (sg_pieces 0 (sc_sg c) (sc_bufflen c)) (grants_used h) (vmem s) else Some (vmem s));
           s \<leftarrow> put_grants e True (take n (grants_used h)) (s\<lparr>vmem := m\<rparr>);
           if shadow_direction h = DMA_VSCSI_INDIRECT
           then put_grants e False (take (VSCSI_INDIRECT_PAGES n) (indirect_grants h)) s
           else Some s
         })"

definition scsifront_cdb_cmd_done :: "scsi_env \<Rightarrow> vscsiif_response \<Rightarrow> vscsifrnt_info \<Rightarrow> vscsifrnt_info option" where
  "scsifront_cdb_cmd_done e p s =
     (let i = unat (rs_rqid p)
      in do {
        c \<leftarrow> sc (vshadow s i);
        s \<leftarrow> scsifront_gnttab_done e i c s;
        let n = min VSCSIIF_SENSE_BUFFERSIZE (unat (rs_sense_len p));
        Some ((add_id_to_freelist i s)
          \<lparr>finished := finished s @ [(c, rs_rslt p, rs_residual_len p, take n (rs_sense_buffer p))]\<rparr>)
      })"

text \<open>Another result than 0 or -1 is only reported.\<close>

definition scsifront_sync_cmd_done :: "vscsiif_response \<Rightarrow> vscsifrnt_info \<Rightarrow> vscsifrnt_info" where
  "scsifront_sync_cmd_done p s =
     (let i = unat (rs_rqid p); s = upd_shadow i (\<lambda>h. h\<lparr>wait_reset := True\<rparr>) s; r = rslt_reset (vshadow s i)
      in if r = 0 then upd_shadow i (\<lambda>h. h\<lparr>rslt_reset := rs_rslt p\<rparr>) s
         else if r = - 1 then add_id_to_freelist i s
         else s)"

definition scsifront_do_response :: "scsi_env \<Rightarrow> vscsiif_response \<Rightarrow> vscsifrnt_info \<Rightarrow> vscsifrnt_info option" where
  "scsifront_do_response e p s =
     (let i = unat (rs_rqid p)
      in if i \<ge> VSCSIIF_MAX_REQS then None
         else if act (vshadow s i) = VSCSIIF_ACT_SCSI_CDB then scsifront_cdb_cmd_done e p s
         else Some (scsifront_sync_cmd_done p s))"

fun do_responses :: "scsi_env \<Rightarrow> nat \<Rightarrow> ring_idx \<Rightarrow> vscsifrnt_info \<Rightarrow> vscsifrnt_info option" where
  "do_responses e 0 i s = Some s"
| "do_responses e (Suc n) i s = do {
     p \<leftarrow> RING_GET_RESPONSE (f_nr_ents (vring s)) (vsring s) i;
     s \<leftarrow> scsifront_do_response e p s;
     do_responses e n (i + 1) s
   }"

text \<open>\<open>peer\<close> is what the backend does to the ring at the final check.\<close>

definition scsifront_ring_drain ::
    "scsi_env \<Rightarrow> ((vscsiif_request, vscsiif_response) sring \<Rightarrow> (vscsiif_request, vscsiif_response) sring) \<Rightarrow>
     vscsifrnt_info \<Rightarrow> (bool \<times> vscsifrnt_info) option" where
  "scsifront_ring_drain e peer s =
     (let rp = rsp_prod (vsring s); i = rsp_cons (vring s)
      in do {
        s \<leftarrow> do_responses e (unat (rp - i)) i s;
        let s = s\<lparr>vring := (vring s)\<lparr>rsp_cons := rp\<rparr>\<rparr>;
        if rp \<noteq> req_prod_pvt (vring s)
        then (case RING_FINAL_CHECK_FOR_RESPONSES peer (vring s) (vsring s) of (work, sr) \<Rightarrow>
                Some (work \<noteq> 0, s\<lparr>vsring := sr\<rparr>))
        else Some (False, s\<lparr>vsring := (vsring s)\<lparr>rsp_event := rp + 1\<rparr>\<rparr>)
      })"

definition scsifront_cmd_done ::
    "scsi_env \<Rightarrow> ((vscsiif_request, vscsiif_response) sring \<Rightarrow> (vscsiif_request, vscsiif_response) sring) \<Rightarrow>
     vscsifrnt_info \<Rightarrow> (bool \<times> vscsifrnt_info) option" where
  "scsifront_cmd_done e peer s = do {
     (more_work, s) \<leftarrow> scsifront_ring_drain e peer s;
     Some (more_work, s\<lparr>waiting_sync := False\<rparr>)
   }"

text \<open>One round of the thread, woken by \<open>waiting_resp\<close>.\<close>

definition scsifront_schedule ::
    "scsi_env \<Rightarrow> ((vscsiif_request, vscsiif_response) sring \<Rightarrow> (vscsiif_request, vscsiif_response) sring) \<Rightarrow>
     vscsifrnt_info \<Rightarrow> vscsifrnt_info option" where
  "scsifront_schedule e peer s = do {
     (more_work, s) \<leftarrow> scsifront_cmd_done e peer (s\<lparr>waiting_resp := False\<rparr>);
     Some (if more_work then s\<lparr>waiting_resp := True\<rparr> else s)
   }"

text \<open>Whatever is still pending after a suspend ends with a reset.\<close>

fun finish_ids :: "scsi_env \<Rightarrow> nat list \<Rightarrow> vscsifrnt_info \<Rightarrow> vscsifrnt_info option" where
  "finish_ids e [] s = Some s"
| "finish_ids e (i # is) s =
     (if next_free (vshadow s i) \<noteq> VSCSIIF_IN_USE then finish_ids e is s
      else do {
        s \<leftarrow> scsifront_do_response e
              \<lparr>rs_rqid = of_nat i, rs_sense_len = 0, rs_sense_buffer = [], rs_rslt = DID_RESET * 65536, rs_residual_len = 0\<rparr> s;
        finish_ids e is s
      })"

definition scsifront_finish_all ::
    "scsi_env \<Rightarrow> ((vscsiif_request, vscsiif_response) sring \<Rightarrow> (vscsiif_request, vscsiif_response) sring) \<Rightarrow>
     vscsifrnt_info \<Rightarrow> vscsifrnt_info option" where
  "scsifront_finish_all e peer s = do {
     (_, s) \<leftarrow> scsifront_ring_drain e peer s;
     finish_ids e [0..<VSCSIIF_MAX_REQS] s
   }"

section \<open>Resetting a device\<close>

text \<open>
  \<open>ws\<close> are the waits while the ring is full: what the other threads do until the handler is
  woken, or \<open>None\<close> for a signal. The result tells whether there is room.
\<close>

fun wait_room :: "(vscsifrnt_info \<Rightarrow> vscsifrnt_info option) option list \<Rightarrow> bool \<Rightarrow> vscsifrnt_info \<Rightarrow>
    (bool \<times> vscsifrnt_info) option" where
  "wait_room [] err s =
     (if \<not> RING_FULL (vring s) then Some (True, s) else if err \<or> pause s then Some (False, s) else None)"
| "wait_room (w # ws) err s =
     (if \<not> RING_FULL (vring s) then Some (True, s)
      else if err \<or> pause s then Some (False, s)
      else (case w of
              None \<Rightarrow> wait_room ws True (s\<lparr>waiting_sync := True\<rparr>)
            | Some f \<Rightarrow> do { s \<leftarrow> f (s\<lparr>waiting_sync := True\<rparr>); wait_room ws False s }))"

definition send_reset :: "scsi_cmnd \<Rightarrow> vscsifrnt_info \<Rightarrow> (nat \<times> vscsifrnt_info) option" where
  "send_reset c s = do {
     (i, s) \<leftarrow> scsifront_pre_request s;
     let s = upd_shadow i (\<lambda>h. h\<lparr>act := VSCSIIF_ACT_SCSI_RESET, rslt_reset := 0\<rparr>) s;
     let q = \<lparr>rqid = of_nat i, rq_act = VSCSIIF_ACT_SCSI_RESET, rq_cmd_len = sc_cmd_len c,
              rq_cmnd = command_bytes c, timeout_per_command = sc_timeout c, rq_device = sc_device c,
              rq_direction = sc_data_direction c, rq_body = VRw []\<rparr>;
     Some (i, scsifront_do_request (fill_request q s))
   }"

text \<open>\<open>wait\<close> is what happens until the answer wakes the handler, with true for a signal.\<close>

definition end_reset :: "bool \<Rightarrow> nat \<Rightarrow> vscsifrnt_info \<Rightarrow> int \<times> vscsifrnt_info" where
  "end_reset interrupted i s =
     (if interrupted then (FAILED, scsifront_return (upd_shadow i (\<lambda>h. h\<lparr>rslt_reset := - 1\<rparr>) s))
      else (rslt_reset (vshadow s i), scsifront_return (add_id_to_freelist i s)))"

definition scsifront_dev_reset_handler ::
    "(vscsifrnt_info \<Rightarrow> vscsifrnt_info option) option list \<Rightarrow> (vscsifrnt_info \<Rightarrow> (bool \<times> vscsifrnt_info) option) \<Rightarrow>
     scsi_cmnd \<Rightarrow> vscsifrnt_info \<Rightarrow> (int \<times> vscsifrnt_info) option" where
  "scsifront_dev_reset_handler ws wait c s = do {
     (room, s) \<leftarrow> wait_room ws False s;
     if \<not> room then Some (FAILED, s)
     else (case scsifront_enter s of
             (True, s) \<Rightarrow> Some (FAILED, s)
           | (False, s) \<Rightarrow> do {
               (i, s) \<leftarrow> send_reset c s;
               (interrupted, s) \<leftarrow> wait s;
               Some (end_reset interrupted i s)
             })
   }"

end
