(* ===== verification/Scsifront_Pool.thy ===== *)
theory Scsifront_Pool
  imports Scsifront Gnttab_Props "HOL-Library.Multiset"
begin

text \<open>
  The pool of grants of the SCSI front end: no reference is in two places, a granted page is
  really granted to the backend; what taking a grant, putting grants back, and the private list
  of references of a command do to it.
\<close>

section \<open>The pool\<close>

definition granted :: "grant \<Rightarrow> bool" where "granted g \<longleftrightarrow> gr_gref g \<noteq> GRANT_INVALID_REF"

definition refs_of :: "grant multiset \<Rightarrow> nat multiset" where
  "refs_of G = image_mset gr_gref (filter_mset granted G)"

lemma refs_of_simps [simp]:
  "refs_of {#} = {#}" "refs_of (A + B) = refs_of A + refs_of B"
  "refs_of (add_mset g A) = (if granted g then {#gr_gref g#} else {#}) + refs_of A"
  by (simp_all add: refs_of_def)

lemma refs_of_invalid [simp]: "\<forall>g \<in> set gs. \<not> granted g \<Longrightarrow> refs_of (mset gs) = {#}"
  by (induction gs) auto

text \<open>A granted page is really granted to the backend, whatever the hypervisor has noted in the entry.\<close>

definition backed :: "u16 \<Rightarrow> gnttab \<Rightarrow> grant \<Rightarrow> bool" where
  "backed dmn g x \<longleftrightarrow> frame (shared g (gr_gref x)) = of_nat (gr_pfn x) \<and> domid (shared g (gr_gref x)) = dmn \<and>
     bit (flags (shared g (gr_gref x))) 0"

text \<open>
  \<open>live\<close> says that the entries of the grant table are those of this guest: after a migration the table is
  a new one. \<open>A\<close> are the grants outside the pool, all granted, \<open>xs\<close> the references of the private list, \<open>n\<close>
  the number of granted pages in the pool, which come first. No reference is in two places.
\<close>

definition refs_apart :: "nat multiset \<Rightarrow> gnttab \<Rightarrow> bool" where
  "refs_apart R g \<longleftrightarrow> (\<forall>r. count R r \<le> 1) \<and> set_mset R \<subseteq> gnt_refs g"

definition pool_base :: "bool \<Rightarrow> nat \<Rightarrow> nat list \<Rightarrow> grant multiset \<Rightarrow> vscsifrnt_info \<Rightarrow> bool" where
  "pool_base live n xs A s \<longleftrightarrow> gnt_inv (vgnt s) \<and>
     refs_apart (refs_of (mset (grants s) + A) + mset xs + mset (gnt_free (vgnt s))) (vgnt s) \<and>
     n \<le> length (grants s) \<and> (\<forall>g \<in> set (take n (grants s)). granted g) \<and> (\<forall>g \<in> set (drop n (grants s)). \<not> granted g) \<and>
     persistent_gnts_c s = of_nat n \<and> (\<forall>g \<in># A. granted g) \<and>
     (live \<longrightarrow> (\<forall>g \<in># mset (grants s) + A. granted g \<longrightarrow> backed (backend_dom s) (vgnt s) g))"

definition private_list :: "nat option \<Rightarrow> nat list \<Rightarrow> gnttab \<Rightarrow> bool" where
  "private_list head xs g \<longleftrightarrow>
     (case head of None \<Rightarrow> xs = [] | Some h \<Rightarrow> linked (gnt_next g) h GNTTAB_LIST_END xs)"

lemma zero_no_ref: "(0 :: nat) \<notin> gnt_refs g" by (simp add: gnt_refs_def NR_RESERVED_ENTRIES_def)

lemma get_grant_base:
  assumes inv: "pool_base live n xs A s" and pl: "private_list head xs (vgnt s)" and ne: "grants s \<noteq> []"
    and budget: "0 < n + length xs" and pfn: "feature_persistent s \<or> pfn \<noteq> 0" and fl: "fl = 0 \<or> fl = 1"
  shows "\<exists>g h xs' t. get_grant head pfn fl s = Some (g, h, s\<lparr>grants := tl (grants s), vgnt := t,
        persistent_gnts_c := persistent_gnts_c s - (if 0 < n then 1 else 0)\<rparr>) \<and>
     private_list h xs' t \<and> granted g \<and> (h = None \<longleftrightarrow> head = None) \<and>
     gr_pfn g = (if granted (hd (grants s)) \<or> feature_persistent s then gr_pfn (hd (grants s)) else pfn) \<and>
     (n - 1) + length xs' = n + length xs - 1 \<and>
     pool_base live (n - 1) xs' (add_mset g A) (s\<lparr>grants := tl (grants s), vgnt := t,
        persistent_gnts_c := persistent_gnts_c s - (if 0 < n then 1 else 0)\<rparr>)"
proof -
  obtain g gs where g: "grants s = g # gs" using ne by (cases "grants s") auto
  show ?thesis
  proof (cases n)
    case (Suc k)
    have gr: "granted g" using inv g Suc by (simp add: pool_base_def)
    have run: "get_grant head pfn fl s = Some (g, head, s\<lparr>grants := gs, persistent_gnts_c := persistent_gnts_c s - 1\<rparr>)"
      using g gr by (simp add: get_grant_def granted_def)
    have "pool_base live k xs (add_mset g A) (s\<lparr>grants := gs, persistent_gnts_c := persistent_gnts_c s - 1\<rparr>)"
      using inv g gr Suc by (auto simp: pool_base_def ac_simps)
    then show ?thesis
      using run gr g Suc pl by (intro exI [of _ g] exI [of _ head] exI [of _ xs] exI [of _ "vgnt s"]) simp
  next
    case 0
    then have gr: "\<not> granted g" using inv g by (simp add: pool_base_def)
    obtain x ys where xs: "xs = x # ys" using budget 0 by (cases xs) auto
    obtain h where h: "head = Some h" "linked (gnt_next (vgnt s)) h GNTTAB_LIST_END (x # ys)"
      using pl xs by (cases head) (auto simp: private_list_def)
    have gi: "gnt_inv (vgnt s)" "gnt_pages (vgnt s)" using inv by (simp_all add: pool_base_def gnt_inv_def)
    have xr: "set (x # ys) \<subseteq> gnt_refs (vgnt s)" using inv xs by (auto simp: pool_base_def refs_apart_def)
    have x0: "x \<noteq> 0" using xr zero_no_ref by (metis list.set_intros(1) subsetD)
    have claim: "gnttab_claim_grant_reference h (vgnt s) = Some (int x, gnt_next (vgnt s) x)"
      "linked (gnt_next (vgnt s)) (gnt_next (vgnt s) x) GNTTAB_LIST_END ys"
      using gnttab_claim_ok [OF gi(2) h(2) xr] by simp_all
    let ?p = "if feature_persistent s then gr_pfn g else pfn"
    let ?g = "g\<lparr>gr_gref := x, gr_pfn := ?p\<rparr>"
    let ?t = "vgnt s\<lparr>shared := (shared (vgnt s))(x := entry_for (backend_dom s) fl (of_nat ?p))\<rparr>"
    have pf: "plain_flags fl" using fl by (auto simp: plain_flags_def GTF_accept_transfer_def GTF_reading_def GTF_writing_def)
    have run: "get_grant head pfn fl s = Some (?g, Some (gnt_next (vgnt s) x), s\<lparr>grants := gs, vgnt := ?t\<rparr>)"
      using g gr h(1) claim(1) pfn by (auto simp: get_grant_def granted_def grant_ref_ok [OF pf] Let_def)
    have same: "gnt_inv ?t = gnt_inv (vgnt s)" "gnt_free ?t = gnt_free (vgnt s)" "gnt_refs ?t = gnt_refs (vgnt s)"
      "gnt_next ?t = gnt_next (vgnt s)"
      using same_list_gnt [of "vgnt s" ?t] by (auto simp: same_list_def)
    have gg: "granted ?g" using x0 by (simp add: granted_def GRANT_INVALID_REF_def)
    have R: "refs_apart (refs_of (mset (g # gs) + A) + mset (x # ys) + mset (gnt_free (vgnt s))) (vgnt s)"
      using inv g xs by (simp add: pool_base_def)
    have sum: "refs_of (mset gs + add_mset ?g A) + mset ys + mset (gnt_free (vgnt s)) =
      refs_of (mset (g # gs) + A) + mset (x # ys) + mset (gnt_free (vgnt s))"
      using gg gr by simp
    have R': "refs_apart (refs_of (mset gs + add_mset ?g A) + mset ys + mset (gnt_free ?t)) ?t"
      using R unfolding same refs_apart_def sum .
    have nx: "gr_gref y \<noteq> x" if "y \<in># mset gs + A" "granted y" for y
    proof
      assume e: "gr_gref y = x"
      have "gr_gref y \<in># refs_of (mset gs + A)" using that by (auto simp: refs_of_def)
      then have "1 \<le> count (refs_of (mset gs + A)) x" using e by (simp add: Suc_le_eq)
      then show False using R [unfolded refs_apart_def, THEN conjunct1, rule_format, of x] by auto
    qed
    have bk: "backed (backend_dom s) ?t y" if "live" "y \<in># mset gs + A" "granted y" for y
      using inv g that nx [OF that(2,3)] by (auto simp: pool_base_def backed_def)
    have bg: "backed (backend_dom s) ?t ?g"
      using fl by (auto simp: backed_def entry_for_def GTF_permit_access_def bit_simps)
    have "pool_base live 0 ys (add_mset ?g A) (s\<lparr>grants := gs, vgnt := ?t\<rparr>)"
      using inv g 0 gg bk bg R' by (auto simp: pool_base_def same)
    then show ?thesis
      using run gg g 0 xs claim(2) h(1) gr
      by (intro exI [of _ ?g] exI [of _ "Some (gnt_next (vgnt s) x)"] exI [of _ ys] exI [of _ ?t])
        (simp add: private_list_def same)
  qed
qed

lemma scsi_end_access:
  assumes inv: "gnt_inv g" and r: "r \<in> gnt_refs g" "r \<notin> set (gnt_free g)"
  shows "\<exists>g'. gnttab_end_foreign_access ws a r None g = Some g' \<and> gnt_inv g' \<and> gnt_refs g' = gnt_refs g \<and>
    (gnt_free g' = gnt_free g \<or> gnt_free g' = r # gnt_free g) \<and> (\<forall>x. x \<noteq> r \<longrightarrow> shared g' x = shared g x)"
proof -
  obtain ok h where h: "gnttab_end_foreign_access_ref ws r g = (ok, h)" by (cases "gnttab_end_foreign_access_ref ws r g")
  then obtain b where "end_foreign_access_ref ws r g = (b, h)"
    by (auto simp: gnttab_end_foreign_access_ref_def split: prod.splits)
  note e = end_foreign_access_ref_ok [OF this]
  have sl: "same_list g h" using e by blast
  note sh = same_list_gnt [OF sl]
  show ?thesis
  proof (cases "ok = 0")
    case True
    let ?d = "gnttab_add_deferred a r None h"
    have "same_list h ?d \<and> shared ?d = shared h"
      by (auto simp: gnttab_add_deferred_def arm_timer_def same_list_def split: option.splits)
    then show ?thesis
      using True h sh e inv same_list_gnt [of h ?d]
      by (intro exI [of _ ?d]) (auto simp: gnttab_end_foreign_access_def)
  next
    case False
    have "gnt_inv h" "r \<in> gnt_refs h" "r \<notin> set (gnt_free h)" using sh inv r by simp_all
    then obtain s' where s': "put_free_entry r h = Some s'" "gnt_inv s'" "gnt_free s' = r # gnt_free h"
      "gnt_refs s' = gnt_refs h" "outside s' = outside h"
      using put_free_entry_ok by blast
    then show ?thesis
      using False h sh e by (intro exI [of _ s']) (auto simp: gnttab_end_foreign_access_def free_page_def outside_def)
  qed
qed

lemma granted_invalid [simp]: "\<not> granted (g\<lparr>gr_gref := GRANT_INVALID_REF\<rparr>)"
  by (simp add: granted_def)

lemma refs_apart_sub: "refs_apart R g \<Longrightarrow> R' \<subseteq># R \<Longrightarrow> gnt_refs g' = gnt_refs g \<Longrightarrow> refs_apart R' g'"
  unfolding refs_apart_def by (metis le_trans mset_subset_eq_count set_mset_mono subset_trans)

text \<open>What putting grants back leaves alone.\<close>

definition pool_frame :: "vscsifrnt_info \<Rightarrow> vscsifrnt_info \<Rightarrow> bool" where
  "pool_frame s t \<longleftrightarrow> t = s\<lparr>vgnt := vgnt t, grants := grants t, persistent_gnts_c := persistent_gnts_c t,
     indirect_pages := indirect_pages t\<rparr>"

lemma pool_frame_refl: "pool_frame s s" by (simp add: pool_frame_def)

lemma pool_frame_trans: "pool_frame s t \<Longrightarrow> pool_frame t u \<Longrightarrow> pool_frame s u"
  unfolding pool_frame_def by (cases s; cases t; cases u) simp

lemma put_grant_base:
  assumes inv: "pool_base live n [] (add_mset g A) s"
    and quiet: "feature_persistent s \<or> gnttab_query_foreign_access (gr_gref g) (vgnt s) = 0"
  shows "\<exists>t n'. put_grant e strict g s = Some t \<and> pool_base live n' [] A t \<and> pool_frame s t \<and>
    (n' = n \<or> n' = n + 1 \<and> feature_persistent s) \<and>
    (\<forall>x. x \<noteq> gr_gref g \<longrightarrow> shared (vgnt t) x = shared (vgnt s) x) \<and>
    image_mset gr_pfn (mset (grants t)) = add_mset (gr_pfn g) (image_mset gr_pfn (mset (grants s))) \<and>
    indirect_pages t = (if strict \<or> feature_persistent s then indirect_pages s else gr_pfn g # indirect_pages s)"
proof -
  have gr: "granted g" using inv by (simp add: pool_base_def)
  have ap: "refs_apart (refs_of (mset (grants s) + add_mset g A) + mset (gnt_free (vgnt s))) (vgnt s)"
    using inv by (simp add: pool_base_def gr)
  show ?thesis
  proof (cases "gnttab_query_foreign_access (gr_gref g) (vgnt s) = 0")
    case False
    let ?t = "s\<lparr>grants := g # grants s, persistent_gnts_c := persistent_gnts_c s + 1\<rparr>"
    have sum: "refs_of (mset (g # grants s) + A) + mset (gnt_free (vgnt s)) =
      refs_of (mset (grants s) + add_mset g A) + mset (gnt_free (vgnt s))" by simp
    have ap': "refs_apart (refs_of (mset (g # grants s) + A) + mset (gnt_free (vgnt s))) (vgnt s)"
      using ap unfolding sum .
    have "pool_base live (Suc n) [] A ?t"
      using inv ap' by (simp add: pool_base_def gr ac_simps)
    moreover have "put_grant e strict g s = Some ?t" using False quiet by (simp add: put_grant_def)
    moreover have "pool_frame s ?t" by (simp add: pool_frame_def)
    ultimately show ?thesis using False quiet by (intro exI [of _ ?t] exI [of _ "Suc n"]) simp
  next
    case True
    have "1 \<le> count (refs_of (add_mset g A)) (gr_gref g)" using gr by simp
    moreover have "count (refs_of (mset (grants s) + add_mset g A) + mset (gnt_free (vgnt s))) (gr_gref g) \<le> 1"
      using ap by (simp add: refs_apart_def)
    ultimately have c: "count (refs_of (mset (grants s))) (gr_gref g) = 0" "count (refs_of A) (gr_gref g) = 0"
      "count (mset (gnt_free (vgnt s))) (gr_gref g) = 0"
      using gr by auto
    then have nf: "gr_gref g \<notin> set (gnt_free (vgnt s))" by (simp add: count_eq_zero_iff)
    have rr: "gr_gref g \<in> gnt_refs (vgnt s)" using ap gr by (auto simp: refs_apart_def)
    have gi: "gnt_inv (vgnt s)" using inv by (simp add: pool_base_def)
    obtain h where h: "gnttab_end_foreign_access (shyp e (gr_gref g)) (skmem e (gr_gref g)) (gr_gref g) None (vgnt s) = Some h"
      "gnt_inv h" "gnt_refs h = gnt_refs (vgnt s)" "gnt_free h = gnt_free (vgnt s) \<or> gnt_free h = gr_gref g # gnt_free (vgnt s)"
      "\<forall>x. x \<noteq> gr_gref g \<longrightarrow> shared h x = shared (vgnt s) x"
      using scsi_end_access [OF gi rr nf] by blast
    let ?is = "if strict \<or> feature_persistent s then indirect_pages s else gr_pfn g # indirect_pages s"
    let ?z = "g\<lparr>gr_gref := GRANT_INVALID_REF\<rparr>"
    let ?t = "s\<lparr>vgnt := h, grants := grants s @ [?z], indirect_pages := ?is\<rparr>"
    have run: "put_grant e strict g s = Some ?t" using True h(1) by (simp add: put_grant_def)
    have sub: "refs_of (mset (grants s @ [?z]) + A) + mset (gnt_free h)
        \<subseteq># refs_of (mset (grants s) + add_mset g A) + mset (gnt_free (vgnt s))"
      using h(4) gr by auto
    have bk: "backed (backend_dom s) h y" if "live" "y \<in># mset (grants s) + A" "granted y" for y
    proof -
      have "gr_gref y \<in># refs_of (mset (grants s)) + refs_of A" using that by (auto simp: refs_of_def)
      then have "gr_gref y \<noteq> gr_gref g" using c by (auto simp: count_eq_zero_iff)
      then show ?thesis using inv that h(5) by (auto simp: pool_base_def backed_def)
    qed
    have "pool_base live n [] A ?t"
      using inv h(2) bk refs_apart_sub [OF ap sub h(3)] by (auto simp: pool_base_def)
    moreover have "pool_frame s ?t" by (simp add: pool_frame_def)
    ultimately show ?thesis using run h(5) by (intro exI [of _ ?t] exI [of _ n]) simp
  qed
qed

lemma distinct_count: "distinct xs \<longleftrightarrow> (\<forall>r. count (mset xs) r \<le> 1)"
proof
  assume "\<forall>r. count (mset xs) r \<le> 1"
  then have "count (mset xs) a = (if a \<in> set xs then 1 else 0)" for a
    using count_greater_zero_iff [of "mset xs" a] not_in_iff [of a "mset xs"] by (simp add: le_antisym Suc_leI)
  then show "distinct xs" by (simp add: distinct_count_atmost_1)
qed (simp add: distinct_count_atmost_1)

lemma gnt_refs_mono: "nr_grant_frames s \<le> nr_grant_frames t \<Longrightarrow> gnt_refs s \<subseteq> gnt_refs t"
  by (auto simp: gnt_refs_def ENTRIES_PER_GRANT_FRAME_def)

lemma pool_alloc_base:
  assumes inv: "pool_base live n [] A s" and ho: "gnt_hands_out k h xs (vgnt s) g"
  shows "pool_base live n xs A (s\<lparr>vgnt := g\<rparr>)"
proof -
  let ?R = "refs_of (mset (grants s) + A)"
  have ap: "refs_apart (?R + mset (gnt_free (vgnt s))) (vgnt s)" using inv by (simp add: pool_base_def)
  have gi: "gnt_inv g" and app: "xs @ gnt_free g = gnt_grown (vgnt s) g @ gnt_free (vgnt s)"
    and fr: "nr_grant_frames (vgnt s) \<le> nr_grant_frames g" and sh: "shared g = shared (vgnt s)"
    and sub: "set xs \<subseteq> gnt_refs g"
    using ho by (auto simp: gnt_hands_out_def outside_def)
  have "mset xs + mset (gnt_free g) = mset (gnt_grown (vgnt s) g) + mset (gnt_free (vgnt s))"
    using app by (metis mset_append)
  then have eq: "?R + mset xs + mset (gnt_free g) = mset (gnt_grown (vgnt s) g) + (?R + mset (gnt_free (vgnt s)))"
    by (simp add: add.assoc)
  have in_refs: "set_mset (?R + mset (gnt_free (vgnt s))) \<subseteq> gnt_refs (vgnt s)" using ap by (simp add: refs_apart_def)
  have gr: "count (mset (gnt_grown (vgnt s) g)) r \<le> 1" "r \<in># mset (gnt_grown (vgnt s) g) \<Longrightarrow> r \<notin> gnt_refs (vgnt s)" for r
    using distinct_count [of "gnt_grown (vgnt s) g"] by (auto simp: gnt_grown_def gnt_refs_def)
  define X where "X = ?R + mset (gnt_free (vgnt s))"
  have X: "count X r \<le> 1" "set_mset X \<subseteq> gnt_refs (vgnt s)" for r
    using ap by (simp_all add: refs_apart_def X_def)
  have "count (mset (gnt_grown (vgnt s) g) + X) r \<le> 1" for r
  proof (cases "r \<in># mset (gnt_grown (vgnt s) g)")
    case True
    then have "r \<notin># X" using gr(2) X(2) by blast
    then have "count X r = 0" by (simp only: not_in_iff)
    then show ?thesis using gr(1) [of r] unfolding count_union by linarith
  next
    case False
    then have "count (mset (gnt_grown (vgnt s) g)) r = 0" by (simp only: not_in_iff)
    then show ?thesis using X(1) [of r] unfolding count_union by linarith
  qed
  moreover have "set_mset (?R + mset xs + mset (gnt_free g)) \<subseteq> gnt_refs g"
    using in_refs gnt_refs_mono [OF fr] sub gi by (auto simp: gnt_inv_def)
  ultimately have "refs_apart (?R + mset xs + mset (gnt_free g)) g" by (simp only: refs_apart_def eq X_def) simp
  then show ?thesis using inv gi sh by (simp add: pool_base_def backed_def)
qed

lemma pool_free_base:
  assumes inv: "pool_base live n xs A s" and l: "linked (gnt_next (vgnt s)) h GNTTAB_LIST_END xs" and f: "length xs \<le> fuel"
  shows "\<exists>g. gnttab_free_grant_references fuel h (vgnt s) = Some g \<and> pool_base live n [] A (s\<lparr>vgnt := g\<rparr>) \<and>
    shared g = shared (vgnt s)"
proof -
  let ?R = "refs_of (mset (grants s) + A)"
  have ap: "refs_apart (?R + mset xs + mset (gnt_free (vgnt s))) (vgnt s)" and gi: "gnt_inv (vgnt s)"
    using inv by (simp_all add: pool_base_def)
  have c: "count (mset xs + mset (gnt_free (vgnt s))) r \<le> 1" for r
  proof -
    have "count (mset xs + mset (gnt_free (vgnt s))) r \<le> count (?R + mset xs + mset (gnt_free (vgnt s))) r" by simp
    also have "\<dots> \<le> 1" using ap unfolding refs_apart_def by blast
    finally show ?thesis .
  qed
  then have "distinct (xs @ gnt_free (vgnt s))" unfolding distinct_count by simp
  then have d: "distinct xs" "set xs \<inter> set (gnt_free (vgnt s)) = {}" by simp_all
  have sub: "set xs \<subseteq> gnt_refs (vgnt s)" using ap by (auto simp: refs_apart_def)
  obtain g where g: "gnttab_free_grant_references fuel h (vgnt s) = Some g" "gnt_inv g" "gnt_free g = xs @ gnt_free (vgnt s)"
    "gnt_refs g = gnt_refs (vgnt s)" "outside g = outside (vgnt s)"
    using gnttab_free_grant_references_ok [OF gi l d(1) sub d(2) f] by blast
  have sh: "shared g = shared (vgnt s)" using g(5) by (simp add: outside_def)
  have "refs_apart (?R + mset [] + mset (gnt_free g)) g"
    using ap unfolding refs_apart_def g(3,4) by (simp add: add.assoc)
  then have "pool_base live n [] A (s\<lparr>vgnt := g\<rparr>)" using inv g(2) sh by (simp add: pool_base_def backed_def)
  then show ?thesis using g(1) sh by blast
qed

text \<open>\<open>X\<close> are grants that no command and no list takes part in, those of the ring.\<close>

definition pool_gen :: "bool \<Rightarrow> grant multiset \<Rightarrow> nat \<Rightarrow> nat list \<Rightarrow> grant multiset \<Rightarrow> vscsifrnt_info \<Rightarrow> bool" where
  "pool_gen live X n xs A s \<longleftrightarrow> pool_base live n xs (A + X) s"

abbreviation pool_inv :: "nat \<Rightarrow> nat list \<Rightarrow> grant multiset \<Rightarrow> vscsifrnt_info \<Rightarrow> bool" where
  "pool_inv \<equiv> pool_gen True {#}"

lemmas pool_inv_def = pool_gen_def pool_base_def

lemma get_grant_ok:
  assumes "pool_gen live X n xs A s" and "private_list head xs (vgnt s)" and "grants s \<noteq> []"
    and "0 < n + length xs" and "feature_persistent s \<or> pfn \<noteq> 0" and "fl = 0 \<or> fl = 1"
  shows "\<exists>g h xs' t. get_grant head pfn fl s = Some (g, h, s\<lparr>grants := tl (grants s), vgnt := t,
        persistent_gnts_c := persistent_gnts_c s - (if 0 < n then 1 else 0)\<rparr>) \<and>
     private_list h xs' t \<and> granted g \<and> (h = None \<longleftrightarrow> head = None) \<and>
     gr_pfn g = (if granted (hd (grants s)) \<or> feature_persistent s then gr_pfn (hd (grants s)) else pfn) \<and>
     (n - 1) + length xs' = n + length xs - 1 \<and>
     pool_gen live X (n - 1) xs' (add_mset g A) (s\<lparr>grants := tl (grants s), vgnt := t,
        persistent_gnts_c := persistent_gnts_c s - (if 0 < n then 1 else 0)\<rparr>)"
  using get_grant_base [OF assms(1) [unfolded pool_gen_def] assms(2-)] unfolding pool_gen_def union_mset_add_mset_left .

lemma put_grant_ok:
  assumes "pool_gen live X n [] (add_mset g A) s"
    and "feature_persistent s \<or> gnttab_query_foreign_access (gr_gref g) (vgnt s) = 0"
  shows "\<exists>t n'. put_grant e strict g s = Some t \<and> pool_gen live X n' [] A t \<and> pool_frame s t \<and>
    (n' = n \<or> n' = n + 1 \<and> feature_persistent s) \<and>
    (\<forall>x. x \<noteq> gr_gref g \<longrightarrow> shared (vgnt t) x = shared (vgnt s) x) \<and>
    image_mset gr_pfn (mset (grants t)) = add_mset (gr_pfn g) (image_mset gr_pfn (mset (grants s))) \<and>
    indirect_pages t = (if strict \<or> feature_persistent s then indirect_pages s else gr_pfn g # indirect_pages s)"
  using put_grant_base [OF assms(1) [unfolded pool_gen_def union_mset_add_mset_left] assms(2)] unfolding pool_gen_def .

lemma pool_alloc:
  "pool_gen live X n [] A s \<Longrightarrow> gnt_hands_out k h xs (vgnt s) g \<Longrightarrow> pool_gen live X n xs A (s\<lparr>vgnt := g\<rparr>)"
  unfolding pool_gen_def by (rule pool_alloc_base)

lemma pool_free:
  assumes "pool_gen live X n xs A s" and "linked (gnt_next (vgnt s)) h GNTTAB_LIST_END xs" and "length xs \<le> fuel"
  shows "\<exists>g. gnttab_free_grant_references fuel h (vgnt s) = Some g \<and> pool_gen live X n [] A (s\<lparr>vgnt := g\<rparr>) \<and>
    shared g = shared (vgnt s)"
  using pool_free_base [OF assms(1) [unfolded pool_gen_def] assms(2-)] unfolding pool_gen_def .

end
