(* ===== verification/Scsifront_Map.thy ===== *)
theory Scsifront_Map
  imports Scsifront_Pool
begin

text \<open>
  Mapping the data of a SCSI command: the loops over the scatter list, with what they place in the
  pages of the pool and write to the segments, and the outcomes of \<open>map_data_for_request\<close>.
\<close>

section \<open>Mapping a command\<close>

lemma pool_inv_upd [simp]:
  "pool_gen live X n xs A (s\<lparr>vmem := m\<rparr>) = pool_gen live X n xs A s"
  "pool_gen live X n xs A (s\<lparr>vseg_pages := v\<rparr>) = pool_gen live X n xs A s"
  "pool_gen live X n xs A (s\<lparr>indirect_pages := p\<rparr>) = pool_gen live X n xs A s"
  "pool_gen live X n xs A (s\<lparr>vshadow := h\<rparr>) = pool_gen live X n xs A s"
  "pool_gen live X n xs A (s\<lparr>vshadow_free := f\<rparr>) = pool_gen live X n xs A s"
  "pool_gen live X n xs A (s\<lparr>vring := r\<rparr>) = pool_gen live X n xs A s"
  "pool_gen live X n xs A (s\<lparr>vsring := r'\<rparr>) = pool_gen live X n xs A s"
  "pool_gen live X n xs A (s\<lparr>max_indirect_segments := k\<rparr>) = pool_gen live X n xs A s"
  "pool_gen live X n xs A (s\<lparr>feature_persistent := b\<rparr>) = pool_gen live X n xs A s"
  "pool_gen live X n xs A (s\<lparr>seg_room := k\<rparr>) = pool_gen live X n xs A s"
  "pool_gen live X n xs A (s\<lparr>pause := b\<rparr>) = pool_gen live X n xs A s"
  by (simp_all add: pool_inv_def)

text \<open>What mapping changes in the state.\<close>

definition map_frame :: "vscsifrnt_info \<Rightarrow> vscsifrnt_info \<Rightarrow> bool" where
  "map_frame s t \<longleftrightarrow> t = s\<lparr>vgnt := vgnt t, grants := grants t, persistent_gnts_c := persistent_gnts_c t,
     indirect_pages := indirect_pages t, vmem := vmem t, vseg_pages := vseg_pages t\<rparr>"

lemma map_frame_refl [simp]: "map_frame s s" by (simp add: map_frame_def)

lemma map_frame_trans: "map_frame s t \<Longrightarrow> map_frame t u \<Longrightarrow> map_frame s u"
  unfolding map_frame_def by (cases s; cases t; cases u) simp

definition head_pages :: "grant multiset \<Rightarrow> vscsifrnt_info \<Rightarrow> nat multiset" where
  "head_pages A s = image_mset gr_pfn (mset (grants s) + A)"

definition loop_inv :: "bool \<Rightarrow> grant multiset \<Rightarrow> grant multiset \<Rightarrow> nat \<Rightarrow> nat list \<Rightarrow> map_state \<Rightarrow> bool" where
  "loop_inv live X A n xs m \<longleftrightarrow>
     pool_gen live X n xs (mset (mp_used m) + mset (mp_indirect m) + A) (mp_info m) \<and>
     private_list (mp_head m) xs (vgnt (mp_info m)) \<and> (\<not> feature_persistent (mp_info m) \<longrightarrow> n = 0)"

definition loop_pages :: "grant multiset \<Rightarrow> map_state \<Rightarrow> nat multiset" where
  "loop_pages A m = head_pages (mset (mp_used m) + mset (mp_indirect m) + A) (mp_info m)"

text \<open>Taking a grant for the loop, in one of its two lists.\<close>

lemma loop_grant:
  assumes inv: "loop_inv live X A n xs m" and ne: "grants (mp_info m) \<noteq> []" and budget: "0 < n + length xs"
    and pfn: "feature_persistent (mp_info m) \<or> pfn \<noteq> 0" and fl: "fl = 0 \<or> fl = 1"
  obtains g h xs' t n' where "get_grant (mp_head m) pfn fl (mp_info m) = Some (g, h, t)"
    "pool_gen live X n' xs' (add_mset g (mset (mp_used m) + mset (mp_indirect m) + A)) t"
    "private_list h xs' (vgnt t)" "(h = None) = (mp_head m = None)" "\<not> feature_persistent t \<longrightarrow> n' = 0"
    "n' + length xs' = n + length xs - 1" "grants t = tl (grants (mp_info m))"
    "gr_pfn g = (if feature_persistent t then gr_pfn (hd (grants (mp_info m))) else pfn)"
    "map_frame (mp_info m) t" "vmem t = vmem (mp_info m)" "vseg_pages t = vseg_pages (mp_info m)"
    "indirect_pages t = indirect_pages (mp_info m)"
proof -
  let ?s = "mp_info m"
  have pi: "pool_gen live X n xs (mset (mp_used m) + mset (mp_indirect m) + A) ?s" and pl: "private_list (mp_head m) xs (vgnt ?s)"
    and np: "\<not> feature_persistent ?s \<longrightarrow> n = 0"
    using inv by (simp_all add: loop_inv_def)
  obtain g h xs' t where r: "get_grant (mp_head m) pfn fl ?s = Some (g, h, ?s\<lparr>grants := tl (grants ?s), vgnt := t,
        persistent_gnts_c := persistent_gnts_c ?s - (if 0 < n then 1 else 0)\<rparr>)"
    "private_list h xs' t" "granted g" "h = None \<longleftrightarrow> mp_head m = None"
    "gr_pfn g = (if granted (hd (grants ?s)) \<or> feature_persistent ?s then gr_pfn (hd (grants ?s)) else pfn)"
    "(n - 1) + length xs' = n + length xs - 1"
    "pool_gen live X (n - 1) xs' (add_mset g (mset (mp_used m) + mset (mp_indirect m) + A)) (?s\<lparr>grants := tl (grants ?s), vgnt := t,
        persistent_gnts_c := persistent_gnts_c ?s - (if 0 < n then 1 else 0)\<rparr>)"
    using get_grant_ok [OF pi pl ne budget pfn fl] by (elim exE conjE) (rule that)
  have ng: "\<not> granted (hd (grants ?s))" if "\<not> feature_persistent ?s"
    using that np pi ne by (cases "grants ?s") (auto simp: pool_inv_def)
  show thesis
    by (rule that [OF r(1) r(7)]) (use r np ng in \<open>auto simp: map_frame_def\<close>)
qed

text \<open>The pages of the indirect ones, in the list or used.\<close>

definition table_pages :: "map_state \<Rightarrow> nat multiset" where
  "table_pages m = mset (indirect_pages (mp_info m)) +
     (if feature_persistent (mp_info m) then {#} else image_mset gr_pfn (mset (mp_indirect m)))"

definition loop_kept :: "grant multiset \<Rightarrow> map_state \<Rightarrow> map_state \<Rightarrow> bool" where
  "loop_kept A m m' \<longleftrightarrow> map_frame (mp_info m) (mp_info m') \<and> (mp_head m' = None) = (mp_head m = None) \<and>
     (feature_persistent (mp_info m) \<longrightarrow> loop_pages A m' = loop_pages A m) \<and>
     table_pages m' = table_pages m"

lemma map_frame_fields:
  "map_frame s t \<Longrightarrow> feature_persistent t = feature_persistent s" "map_frame s t \<Longrightarrow> seg_room t = seg_room s"
  "map_frame s t \<Longrightarrow> backend_dom t = backend_dom s" "map_frame s t \<Longrightarrow> max_indirect_segments t = max_indirect_segments s"
  "map_frame s t \<Longrightarrow> vshadow t = vshadow s" "map_frame s t \<Longrightarrow> vring t = vring s" "map_frame s t \<Longrightarrow> vsring t = vsring s"
  "map_frame s t \<Longrightarrow> vshadow_free t = vshadow_free s" "map_frame s t \<Longrightarrow> finished t = finished s" 
  "map_frame s t \<Longrightarrow> pause t = pause s"
  by (simp_all add: map_frame_def) (cases s; cases t; simp)+

lemma loop_kept_refl: "loop_kept A m m" by (simp add: loop_kept_def)

lemma loop_kept_trans: "loop_kept A m m' \<Longrightarrow> loop_kept A m' m'' \<Longrightarrow> loop_kept A m m''"
  unfolding loop_kept_def using map_frame_trans map_frame_fields(1) by metis

lemma map_indirect_ok:
  assumes inv: "loop_inv live X A n xs m" and ne: "grants (mp_info m) \<noteq> []" and budget: "0 < n + length xs"
    and pg: "\<not> feature_persistent (mp_info m) \<longrightarrow> indirect_pages (mp_info m) \<noteq> [] \<and> hd (indirect_pages (mp_info m)) \<noteq> 0"
  obtains g h xs' t n' where
    "map_indirect_page m = Some (m\<lparr>mp_head := h, mp_indirect := mp_indirect m @ [g], mp_page := gr_pfn g, mp_info := t\<rparr>)"
    "loop_inv live X A n' xs' (m\<lparr>mp_head := h, mp_indirect := mp_indirect m @ [g], mp_page := gr_pfn g, mp_info := t\<rparr>)"
    "loop_kept A m (m\<lparr>mp_head := h, mp_indirect := mp_indirect m @ [g], mp_page := gr_pfn g, mp_info := t\<rparr>)"
    "n' + length xs' = n + length xs - 1" "length (grants t) = length (grants (mp_info m)) - 1"
    "vmem t = vmem (mp_info m)"
proof -
  let ?s = "mp_info m"
  define p where p: "p = (if feature_persistent ?s then 0 else hd (indirect_pages ?s))"
  define s where s: "s = ?s\<lparr>indirect_pages := (if feature_persistent ?s then indirect_pages ?s else tl (indirect_pages ?s))\<rparr>"
  have id: "?s\<lparr>indirect_pages := indirect_pages ?s\<rparr> = ?s" by simp
  have "(if feature_persistent ?s then Some (0, ?s)
      else case indirect_pages ?s of [] \<Rightarrow> None | p # ps \<Rightarrow> Some (p, ?s\<lparr>indirect_pages := ps\<rparr>)) = Some (p, s)"
    using pg by (cases "indirect_pages ?s"; cases "feature_persistent ?s") (simp_all add: p s id)
  note ps = this s
  have pp: "\<not> feature_persistent ?s \<longrightarrow> p = hd (indirect_pages ?s)" by (simp add: p)
  let ?m = "m\<lparr>mp_info := s\<rparr>"
  have same: "feature_persistent s = feature_persistent ?s" "grants s = grants ?s" "vmem s = vmem ?s" by (simp_all add: ps(2))
  have li: "loop_inv live X A n xs ?m" using inv by (simp add: loop_inv_def ps(2))
  have ne': "grants (mp_info ?m) \<noteq> []" using ne by (simp add: ps(2))
  have pf: "feature_persistent (mp_info ?m) \<or> p \<noteq> 0" using pg pp by (auto simp: s)
  obtain g h xs' t n' where r: "get_grant (mp_head ?m) p 0 (mp_info ?m) = Some (g, h, t)"
    "pool_gen live X n' xs' (add_mset g (mset (mp_used ?m) + mset (mp_indirect ?m) + A)) t"
    "private_list h xs' (vgnt t)" "(h = None) = (mp_head ?m = None)" "\<not> feature_persistent t \<longrightarrow> n' = 0"
    "n' + length xs' = n + length xs - 1" "grants t = tl (grants (mp_info ?m))"
    "gr_pfn g = (if feature_persistent t then gr_pfn (hd (grants (mp_info ?m))) else p)"
    "map_frame (mp_info ?m) t" "vmem t = vmem (mp_info ?m)" "vseg_pages t = vseg_pages (mp_info ?m)"
    "indirect_pages t = indirect_pages (mp_info ?m)"
    by (rule loop_grant [OF li ne' budget pf, of 0]) simp_all
  let ?m' = "m\<lparr>mp_head := h, mp_indirect := mp_indirect m @ [g], mp_page := gr_pfn g, mp_info := t\<rparr>"
  have mf: "map_frame ?s t" using r(9) unfolding map_frame_def ps(2) by (cases "mp_info m"; cases t) simp
  have run: "map_indirect_page m = Some ?m'"
    using r(1) ps(1) by (simp add: map_indirect_page_def)
  have inv': "loop_inv live X A n' xs' ?m'" using r(2,3,5) by (simp add: loop_inv_def)
  have pers: "loop_pages A ?m' = loop_pages A m" if "feature_persistent ?s"
    using that r(7,8) ne map_frame_fields(1) [OF mf] same
    by (cases "grants ?s") (simp_all add: loop_pages_def head_pages_def)
  have tab: "table_pages ?m' = table_pages m"
  proof (cases "feature_persistent ?s")
    case True
    then show ?thesis using ps(2) r(12) map_frame_fields(1) [OF mf] by (simp add: table_pages_def)
  next
    case False
    then have "gr_pfn g = hd (indirect_pages ?s)" "indirect_pages t = tl (indirect_pages ?s)"
      using ps(2) pp r(8,12) map_frame_fields(1) [OF mf] by simp_all
    then show ?thesis using False pg map_frame_fields(1) [OF mf] by (cases "indirect_pages ?s") (simp_all add: table_pages_def)
  qed
  have "loop_kept A m ?m'" using mf r(4) pers tab by (simp add: loop_kept_def)
  then show thesis
    using run inv' r(6,7,10) same by (intro that [where h = h and g = g and t = t and n' = n' and xs' = xs']) simp_all
qed

definition seg_of :: "grant \<Rightarrow> nat \<times> sg_entry \<times> nat \<times> nat \<Rightarrow> vscsiif_segment" where
  "seg_of g p = (case p of (_, _, off, n) \<Rightarrow> \<lparr>vgref = gr_gref g, voffset = of_nat off, vlength = of_nat n\<rparr>)"

text \<open>Grants a piece takes, and what it needs of its entry.\<close>

definition need :: "bool \<Rightarrow> map_state \<Rightarrow> nat" where
  "need indirect m = (if indirect \<and> length (mp_used m) mod SEGS_PER_VSCSI_INDIRECT_FRAME = 0 then 2 else 1)"

definition entry_ok :: "bool \<Rightarrow> sg_entry \<Rightarrow> bool" where
  "entry_ok within sg \<longleftrightarrow> sg_pfn sg \<noteq> 0 \<and> (within \<longrightarrow> sg_offset sg + sg_length sg \<le> SG_PAGE_SIZE)"

text \<open>What a piece adds to the state of the loops.\<close>

definition piece_added :: "bool \<Rightarrow> bool \<Rightarrow> nat \<times> sg_entry \<times> nat \<times> nat \<Rightarrow> grant \<Rightarrow> map_state \<Rightarrow> map_state \<Rightarrow> bool" where
  "piece_added write indirect p g m m' \<longleftrightarrow> (case p of (_, sg, _, _) \<Rightarrow>
     let s = mp_info m; t = mp_info m'; k = length (mp_used m) mod SEGS_PER_VSCSI_INDIRECT_FRAME in
     mp_used m' = mp_used m @ [g] \<and> (\<not> feature_persistent s \<longrightarrow> gr_pfn g = sg_pfn sg) \<and>
     mp_segs m' = (if indirect then mp_segs m else mp_segs m @ [seg_of g p]) \<and>
     (if need indirect m = 2 then \<exists>gi. mp_indirect m' = mp_indirect m @ [gi] \<and> mp_page m' = gr_pfn gi
      else mp_indirect m' = mp_indirect m \<and> mp_page m' = mp_page m) \<and>
     vmem t = (if write \<and> feature_persistent s
               then copy_page (gr_pfn g) (sg_pfn sg) (sg_offset sg) (sg_length sg) (vmem s) else vmem s) \<and>
     (indirect \<longrightarrow> vseg_pages t (mp_page m') k = seg_of g p \<and>
        (need indirect m \<noteq> 2 \<longrightarrow> (\<forall>j. j \<noteq> k \<longrightarrow> vseg_pages t (mp_page m') j = vseg_pages s (mp_page m) j))))"

lemma map_piece_grant:
  assumes inv: "loop_inv live X A n xs m" and k: "length (mp_used m) < seg_room (mp_info m)"
    and budget: "0 < n + length xs" "grants (mp_info m) \<noteq> []"
    and sg: "entry_ok (write \<and> feature_persistent (mp_info m)) sg"
  obtains g h xs' t n' s' where "get_grant (mp_head m) (sg_pfn sg) (if write then 1 else 0) (mp_info m) = Some (g, h, t)"
    "(if write \<and> feature_persistent t
      then if sg_offset sg + sg_length sg > SG_PAGE_SIZE then None
           else Some (t\<lparr>vmem := copy_page (gr_pfn g) (sg_pfn sg) (sg_offset sg) (sg_length sg) (vmem t)\<rparr>)
      else Some t) = Some s'"
    "\<And>v sgs. loop_inv live X A n' xs' (m\<lparr>mp_head := h, mp_used := mp_used m @ [g], mp_segs := sgs, mp_info := s'\<lparr>vseg_pages := v\<rparr>\<rparr>)"
    "\<And>v sgs. loop_kept A m (m\<lparr>mp_head := h, mp_used := mp_used m @ [g], mp_segs := sgs, mp_info := s'\<lparr>vseg_pages := v\<rparr>\<rparr>)"
    "n' + length xs' = n + length xs - 1" "length (grants s') = length (grants (mp_info m)) - 1"
    "seg_room t = seg_room (mp_info m)" "\<not> feature_persistent (mp_info m) \<longrightarrow> gr_pfn g = sg_pfn sg"
    "vseg_pages s' = vseg_pages (mp_info m)"
    "vmem s' = (if write \<and> feature_persistent (mp_info m)
               then copy_page (gr_pfn g) (sg_pfn sg) (sg_offset sg) (sg_length sg) (vmem (mp_info m)) else vmem (mp_info m))"
proof -
  let ?s = "mp_info m"
  have pf: "feature_persistent ?s \<or> sg_pfn sg \<noteq> 0" using sg by (simp add: entry_ok_def)
  obtain g h xs' t n' where r: "get_grant (mp_head m) (sg_pfn sg) (if write then 1 else 0) ?s = Some (g, h, t)"
    "pool_gen live X n' xs' (add_mset g (mset (mp_used m) + mset (mp_indirect m) + A)) t"
    "private_list h xs' (vgnt t)" "(h = None) = (mp_head m = None)" "\<not> feature_persistent t \<longrightarrow> n' = 0"
    "n' + length xs' = n + length xs - 1" "grants t = tl (grants ?s)"
    "gr_pfn g = (if feature_persistent t then gr_pfn (hd (grants ?s)) else sg_pfn sg)"
    "map_frame ?s t" "vmem t = vmem ?s" "vseg_pages t = vseg_pages ?s" "indirect_pages t = indirect_pages ?s"
    by (rule loop_grant [OF inv budget(2,1) pf, of "if write then 1 else 0"]) auto
  have fp: "feature_persistent t = feature_persistent ?s" and room: "seg_room t = seg_room ?s"
    using map_frame_fields [OF r(9)] by simp_all
  define mem where "mem = (if write \<and> feature_persistent ?s
      then copy_page (gr_pfn g) (sg_pfn sg) (sg_offset sg) (sg_length sg) (vmem ?s) else vmem ?s)"
  have idm: "t\<lparr>vmem := vmem ?s\<rparr> = t" using r(10) by simp
  have c: "(if write \<and> feature_persistent t
      then if sg_offset sg + sg_length sg > SG_PAGE_SIZE then None
           else Some (t\<lparr>vmem := copy_page (gr_pfn g) (sg_pfn sg) (sg_offset sg) (sg_length sg) (vmem t)\<rparr>)
      else Some t) = Some (t\<lparr>vmem := mem\<rparr>)"
    using sg r(10) idm by (auto simp: entry_ok_def fp mem_def)
  let ?m = "\<lambda>v sgs. m\<lparr>mp_head := h, mp_used := mp_used m @ [g], mp_segs := sgs, mp_info := (t\<lparr>vmem := mem\<rparr>)\<lparr>vseg_pages := v\<rparr>\<rparr>"
  have inv': "loop_inv live X A n' xs' (?m v sgs)" for v sgs
    using r(2,3,5) by (simp add: loop_inv_def)
  have mf: "map_frame ?s (t\<lparr>vmem := mem, vseg_pages := v\<rparr>)" for v
    using r(9) unfolding map_frame_def by (cases "mp_info m"; cases t) simp
  have pers: "loop_pages A (?m v sgs) = loop_pages A m" if "feature_persistent ?s" for v sgs
    using that r(7,8) budget(2) fp by (cases "grants ?s") (simp_all add: loop_pages_def head_pages_def)
  have tab: "table_pages (?m v sgs) = table_pages m" for v sgs by (simp add: table_pages_def r(12) fp)
  have kept: "loop_kept A m (?m v sgs)" for v sgs using mf r(4) pers tab by (simp add: loop_kept_def)
  show thesis
    by (rule that [OF r(1) c inv' kept r(6)]) (use r fp room in \<open>simp_all add: mem_def\<close>)
qed

lemma map_piece_ok:
  assumes inv: "loop_inv live X A n xs m" and k: "length (mp_used m) < seg_room (mp_info m)"
    and budget: "need indirect m \<le> n + length xs" "need indirect m \<le> length (grants (mp_info m))"
    and pg: "need indirect m = 2 \<longrightarrow> \<not> feature_persistent (mp_info m) \<longrightarrow>
      indirect_pages (mp_info m) \<noteq> [] \<and> hd (indirect_pages (mp_info m)) \<noteq> 0"
    and sg: "entry_ok (write \<and> feature_persistent (mp_info m)) sg"
  obtains g m' n' xs' where "map_piece write indirect (i, sg, off, l) m = Some m'" "loop_inv live X A n' xs' m'" "loop_kept A m m'"
    "n' + length xs' = n + length xs - need indirect m"
    "length (grants (mp_info m')) = length (grants (mp_info m)) - need indirect m"
    "piece_added write indirect (i, sg, off, l) g m m'"
proof -
  let ?k = "length (mp_used m)"
  let ?go = "indirect \<and> ?k mod SEGS_PER_VSCSI_INDIRECT_FRAME = 0"
  obtain m1 n1 xs1 where m1: "(if ?go then map_indirect_page m else Some m) = Some m1" "loop_inv live X A n1 xs1 m1" "loop_kept A m m1"
    "n1 + length xs1 = n + length xs - (need indirect m - 1)"
    "length (grants (mp_info m1)) = length (grants (mp_info m)) - (need indirect m - 1)"
    "vmem (mp_info m1) = vmem (mp_info m)" "mp_used m1 = mp_used m" "mp_segs m1 = mp_segs m"
    "if ?go then \<exists>gi. mp_indirect m1 = mp_indirect m @ [gi] \<and> mp_page m1 = gr_pfn gi else m1 = m"
  proof (cases ?go)
    case True
    then have nd: "need indirect m = 2" by (simp add: need_def)
    have ne: "grants (mp_info m) \<noteq> []" and b: "0 < n + length xs" using budget nd by auto
    have pg': "\<not> feature_persistent (mp_info m) \<longrightarrow> indirect_pages (mp_info m) \<noteq> [] \<and> hd (indirect_pages (mp_info m)) \<noteq> 0"
      using pg nd by simp
    obtain g h xs' t n' where r:
      "map_indirect_page m = Some (m\<lparr>mp_head := h, mp_indirect := mp_indirect m @ [g], mp_page := gr_pfn g, mp_info := t\<rparr>)"
      "loop_inv live X A n' xs' (m\<lparr>mp_head := h, mp_indirect := mp_indirect m @ [g], mp_page := gr_pfn g, mp_info := t\<rparr>)"
      "loop_kept A m (m\<lparr>mp_head := h, mp_indirect := mp_indirect m @ [g], mp_page := gr_pfn g, mp_info := t\<rparr>)"
      "n' + length xs' = n + length xs - 1" "length (grants t) = length (grants (mp_info m)) - 1"
      "vmem t = vmem (mp_info m)"
      by (rule map_indirect_ok [OF inv ne b pg'])
    show ?thesis
      by (rule that [OF _ r(2,3)]) (use True r nd in simp_all)
  next
    case False
    then have "need indirect m = 1" by (simp add: need_def)
    then show ?thesis using False inv loop_kept_refl by (intro that [of m n xs]) auto
  qed
  note fr = map_frame_fields [OF loop_kept_def [THEN iffD1, OF m1(3), THEN conjunct1]]
  have nd: "need indirect m \<noteq> 0" by (simp add: need_def)
  have k1: "length (mp_used m1) < seg_room (mp_info m1)" using k m1(7) fr by simp
  have b1: "0 < n1 + length xs1" "grants (mp_info m1) \<noteq> []"
    using budget nd m1(4) m1(5) by auto
  have sg1: "entry_ok (write \<and> feature_persistent (mp_info m1)) sg" using sg fr by simp
  obtain g h xs' t n' s' where r: "get_grant (mp_head m1) (sg_pfn sg) (if write then 1 else 0) (mp_info m1) = Some (g, h, t)"
    "(if write \<and> feature_persistent t
      then if sg_offset sg + sg_length sg > SG_PAGE_SIZE then None
           else Some (t\<lparr>vmem := copy_page (gr_pfn g) (sg_pfn sg) (sg_offset sg) (sg_length sg) (vmem t)\<rparr>)
      else Some t) = Some s'"
    "\<And>v sgs. loop_inv live X A n' xs' (m1\<lparr>mp_head := h, mp_used := mp_used m1 @ [g], mp_segs := sgs, mp_info := s'\<lparr>vseg_pages := v\<rparr>\<rparr>)"
    "\<And>v sgs. loop_kept A m1 (m1\<lparr>mp_head := h, mp_used := mp_used m1 @ [g], mp_segs := sgs, mp_info := s'\<lparr>vseg_pages := v\<rparr>\<rparr>)"
    "n' + length xs' = n1 + length xs1 - 1" "length (grants s') = length (grants (mp_info m1)) - 1"
    "seg_room t = seg_room (mp_info m1)" "\<not> feature_persistent (mp_info m1) \<longrightarrow> gr_pfn g = sg_pfn sg"
    "vseg_pages s' = vseg_pages (mp_info m1)"
    "vmem s' = (if write \<and> feature_persistent (mp_info m1)
               then copy_page (gr_pfn g) (sg_pfn sg) (sg_offset sg) (sg_length sg) (vmem (mp_info m1)) else vmem (mp_info m1))"
    by (rule map_piece_grant [OF m1(2) k1 b1 sg1]) (rule that)
  let ?seg = "seg_of g (i, sg, off, l)"
  let ?segs = "if indirect then mp_segs m1 else mp_segs m1 @ [?seg]"
  let ?v = "if indirect then (vseg_pages s')(mp_page m1 := (vseg_pages s' (mp_page m1))(?k mod SEGS_PER_VSCSI_INDIRECT_FRAME := ?seg))
            else vseg_pages s'"
  let ?m' = "m1\<lparr>mp_head := h, mp_used := mp_used m1 @ [g], mp_segs := ?segs, mp_info := s'\<lparr>vseg_pages := ?v\<rparr>\<rparr>"
  have "map_piece write indirect (i, sg, off, l) m = Some ?m'"
    using m1(1,7) r(1,2,7) k fr by (simp add: map_piece_def seg_of_def Let_def)
  moreover have "loop_kept A m ?m'" by (rule loop_kept_trans [OF m1(3) r(4)])
  moreover have "piece_added write indirect (i, sg, off, l) g m ?m'"
    using m1(6-9) r(8-10) fr by (auto simp: piece_added_def need_def Let_def split: if_splits)
  moreover have "n' + length xs' = n + length xs - need indirect m" using r(5) m1(4) nd by simp
  moreover have "length (grants (mp_info ?m')) = length (grants (mp_info m)) - need indirect m"
    using r(6) m1(5) nd by simp
  ultimately show thesis using r(3) by (intro that [of ?m' n' xs' g])
qed

text \<open>After the pieces \<open>ps\<close>, starting from the state \<open>s0\<close>.\<close>

definition entry_of_piece :: "nat \<times> sg_entry \<times> nat \<times> nat \<Rightarrow> sg_entry" where
  "entry_of_piece p = (case p of (_, sg, _, _) \<Rightarrow> sg)"

definition data_placed :: "bool \<Rightarrow> (nat \<times> sg_entry \<times> nat \<times> nat) list \<Rightarrow> vscsifrnt_info \<Rightarrow> map_state \<Rightarrow> bool" where
  "data_placed write ps s0 m \<longleftrightarrow>
     length (mp_used m) = length ps \<and>
     (\<not> feature_persistent s0 \<longrightarrow> (\<forall>k < length ps. gr_pfn (mp_used m ! k) = sg_pfn (entry_of_piece (ps ! k)))) \<and>
     (if write \<and> feature_persistent s0
      then (\<forall>p x. p \<notin> gr_pfn ` set (mp_used m) \<longrightarrow> vmem (mp_info m) (p, x) = vmem s0 (p, x)) \<and>
           (\<forall>k < length ps. \<forall>x. let sg = entry_of_piece (ps ! k) in
              sg_offset sg \<le> x \<and> x < sg_offset sg + sg_length sg \<longrightarrow>
              vmem (mp_info m) (gr_pfn (mp_used m ! k), x) = vmem s0 (sg_pfn sg, x))
      else vmem (mp_info m) = vmem s0)"

definition segs_written :: "bool \<Rightarrow> (nat \<times> sg_entry \<times> nat \<times> nat) list \<Rightarrow> map_state \<Rightarrow> bool" where
  "segs_written indirect ps m \<longleftrightarrow>
     (if \<not> indirect then mp_segs m = map2 seg_of (mp_used m) ps \<and> mp_indirect m = []
      else if ps = [] then mp_indirect m = []
      else \<exists>gi. mp_indirect m = [gi] \<and> mp_page m = gr_pfn gi \<and>
        (\<forall>k < length ps. vseg_pages (mp_info m) (gr_pfn gi) k = seg_of (mp_used m ! k) (ps ! k)))"

lemma used_apart:
  assumes "\<forall>q. count (loop_pages A m') q \<le> 1" and "mp_used m' = us @ [g]"
  shows "gr_pfn g \<notin> gr_pfn ` set us"
proof
  assume "gr_pfn g \<in> gr_pfn ` set us"
  then have "0 < count (image_mset gr_pfn (mset us)) (gr_pfn g)" by (simp add: count_greater_zero_iff)
  moreover have "image_mset gr_pfn (mset us) + {#gr_pfn g#} \<subseteq># loop_pages A m'"
    using assms(2) by (simp add: loop_pages_def head_pages_def)
  then have "count (image_mset gr_pfn (mset us)) (gr_pfn g) + 1 \<le> count (loop_pages A m') (gr_pfn g)"
    using mset_subset_eq_count [of _ _ "gr_pfn g"] by fastforce
  ultimately show False using assms(1) [rule_format, of "gr_pfn g"] by linarith
qed

lemma data_placed_step:
  assumes d: "data_placed write ps s0 m" and a: "piece_added write indirect p g m m'"
    and f: "feature_persistent (mp_info m) = feature_persistent s0"
    and u: "feature_persistent s0 \<longrightarrow> (\<forall>q. count (loop_pages A m') q \<le> 1)"
    and src: "write \<and> feature_persistent s0 \<longrightarrow> sg_pfn (entry_of_piece p) \<notin># loop_pages A m'"
  shows "data_placed write (ps @ [p]) s0 m'"
proof -
  obtain i sg off n where p: "p = (i, sg, off, n)" by (cases p)
  have us: "mp_used m' = mp_used m @ [g]" and len: "length (mp_used m) = length ps"
    using d a by (simp_all add: piece_added_def data_placed_def p Let_def)
  have np: "gr_pfn (mp_used m' ! k) = sg_pfn (entry_of_piece ((ps @ [p]) ! k))"
    if "\<not> feature_persistent s0" "k < length (ps @ [p])" for k
  proof (cases "k = length ps")
    case True
    then show ?thesis using that(1) a f us len by (simp add: piece_added_def p Let_def entry_of_piece_def nth_append)
  next
    case False
    then have "k < length ps" using that(2) by simp
    then show ?thesis using that(1) d us len by (simp add: data_placed_def nth_append)
  qed
  show ?thesis
  proof (cases "write \<and> feature_persistent s0")
    case False
    then have "vmem (mp_info m') = vmem s0"
      using d a f by (auto simp: piece_added_def p Let_def data_placed_def)
    then show ?thesis using False np us len by (auto simp: data_placed_def)
  next
    case True
    then have mem: "vmem (mp_info m') = copy_page (gr_pfn g) (sg_pfn sg) (sg_offset sg) (sg_length sg) (vmem (mp_info m))"
      using a f by (simp add: piece_added_def p Let_def)
    have old: "\<forall>p x. p \<notin> gr_pfn ` set (mp_used m) \<longrightarrow> vmem (mp_info m) (p, x) = vmem s0 (p, x)"
      "\<forall>k < length ps. \<forall>x. sg_offset (entry_of_piece (ps ! k)) \<le> x \<and>
          x < sg_offset (entry_of_piece (ps ! k)) + sg_length (entry_of_piece (ps ! k)) \<longrightarrow>
          vmem (mp_info m) (gr_pfn (mp_used m ! k), x) = vmem s0 (sg_pfn (entry_of_piece (ps ! k)), x)"
      using d True by (simp_all add: data_placed_def Let_def)
    have ap: "gr_pfn g \<notin> gr_pfn ` set (mp_used m)" using used_apart [OF _ us] u True by blast
    have ns: "sg_pfn sg \<notin> gr_pfn ` set (mp_used m)"
      using src True us by (auto simp: entry_of_piece_def p loop_pages_def head_pages_def)
    have "vmem (mp_info m') (q, x) = vmem s0 (q, x)" if "q \<notin> gr_pfn ` set (mp_used m')" for q x
      using that us old(1) by (auto simp: mem copy_page_def)
    moreover have "vmem (mp_info m') (gr_pfn (mp_used m' ! k), x) = vmem s0 (sg_pfn (entry_of_piece ((ps @ [p]) ! k)), x)"
      if k: "k < length (ps @ [p])" and x: "sg_offset (entry_of_piece ((ps @ [p]) ! k)) \<le> x"
        "x < sg_offset (entry_of_piece ((ps @ [p]) ! k)) + sg_length (entry_of_piece ((ps @ [p]) ! k))" for k x
    proof (cases "k = length ps")
      case True
      then show ?thesis using x us len old(1) ns by (simp add: mem copy_page_def nth_append entry_of_piece_def p)
    next
      case False
      then have k': "k < length ps" using k by simp
      then have "gr_pfn (mp_used m ! k) \<noteq> gr_pfn g" using ap len by (metis image_eqI nth_mem)
      then show ?thesis using k' x us len old(2) by (simp add: mem copy_page_def nth_append)
    qed
    ultimately show ?thesis using True np us len by (simp add: data_placed_def Let_def)
  qed
qed

lemma segs_written_step:
  assumes w: "segs_written indirect ps m" and a: "piece_added write indirect p g m m'"
    and len: "length (mp_used m) = length ps" "length ps < SEGS_PER_VSCSI_INDIRECT_FRAME"
  shows "segs_written indirect (ps @ [p]) m'"
proof -
  obtain i sg off n where p: "p = (i, sg, off, n)" by (cases p)
  have us: "mp_used m' = mp_used m @ [g]" using a by (simp add: piece_added_def p Let_def)
  show ?thesis
  proof (cases indirect)
    case False
    then show ?thesis using w a len us by (simp add: segs_written_def piece_added_def need_def p Let_def)
  next
    case True
    have md: "length ps mod SEGS_PER_VSCSI_INDIRECT_FRAME = length ps" using len(2) by simp
    have nd: "need indirect m = (if ps = [] then 2 else 1)"
      using True len(1) md by (simp add: need_def)
    show ?thesis
    proof (cases "ps = []")
      case True
      then show ?thesis using \<open>indirect\<close> w a len us nd md
        by (auto simp: segs_written_def piece_added_def p Let_def)
    next
      case False
      then obtain gi where gi: "mp_indirect m = [gi]" "mp_page m = gr_pfn gi"
        "\<forall>k < length ps. vseg_pages (mp_info m) (gr_pfn gi) k = seg_of (mp_used m ! k) (ps ! k)"
        using w \<open>indirect\<close> by (auto simp: segs_written_def)
      have m': "mp_indirect m' = [gi]" "mp_page m' = gr_pfn gi"
        using a False nd gi(1,2) \<open>indirect\<close> by (simp_all add: piece_added_def p Let_def)
      moreover have v: "vseg_pages (mp_info m') (gr_pfn gi) (length ps) = seg_of g p"
          "\<forall>j. j \<noteq> length ps \<longrightarrow> vseg_pages (mp_info m') (gr_pfn gi) j = vseg_pages (mp_info m) (gr_pfn gi) j"
        using a False nd gi(1,2) \<open>indirect\<close> len(1) md m'(2) by (simp_all add: piece_added_def p Let_def)
      moreover have "vseg_pages (mp_info m') (gr_pfn gi) k = seg_of (mp_used m' ! k) ((ps @ [p]) ! k)"
        if "k < length (ps @ [p])" for k
        using that us len(1) v gi(3) by (cases "k = length ps") (simp_all add: nth_append)
      ultimately show ?thesis using \<open>indirect\<close> by (auto simp: segs_written_def)
    qed
  qed
qed

definition grants_needed :: "bool \<Rightarrow> 'a list \<Rightarrow> 'a list \<Rightarrow> nat" where
  "grants_needed indirect ps qs = length qs + (if indirect \<and> ps = [] \<and> qs \<noteq> [] then 1 else 0)"

lemma map_pieces_ok:
  assumes "loop_inv live X A n xs m" "data_placed write ps s0 m" "segs_written indirect ps m" "map_frame s0 (mp_info m)"
    and "length ps + length qs \<le> seg_room s0" "length ps + length qs \<le> SEGS_PER_VSCSI_INDIRECT_FRAME"
    and "grants_needed indirect ps qs \<le> n + length xs" "grants_needed indirect ps qs \<le> length (grants (mp_info m))"
    and "indirect \<and> ps = [] \<and> qs \<noteq> [] \<longrightarrow> \<not> feature_persistent s0 \<longrightarrow>
      indirect_pages (mp_info m) \<noteq> [] \<and> hd (indirect_pages (mp_info m)) \<noteq> 0"
    and "\<forall>p \<in> set qs. entry_ok (write \<and> feature_persistent s0) (entry_of_piece p)"
    and "feature_persistent s0 \<longrightarrow> (\<forall>q. count (loop_pages A m) q \<le> 1)"
    and "write \<and> feature_persistent s0 \<longrightarrow> (\<forall>p \<in> set qs. sg_pfn (entry_of_piece p) \<notin># loop_pages A m)"
  shows "\<exists>m' n' xs'. map_pieces write indirect qs m = Some m' \<and> loop_inv live X A n' xs' m' \<and> loop_kept A m m' \<and>
    n' + length xs' = n + length xs - grants_needed indirect ps qs \<and>
    length (grants (mp_info m')) = length (grants (mp_info m)) - grants_needed indirect ps qs \<and>
    data_placed write (ps @ qs) s0 m' \<and> segs_written indirect (ps @ qs) m'"
  using assms
proof (induction qs arbitrary: ps m n xs)
  case Nil
  then show ?case using loop_kept_refl
    by (intro exI [of _ m] exI [of _ n] exI [of _ xs]) (simp add: grants_needed_def)
next
  case (Cons q qs)
  note pr = Cons.prems
  obtain i sg off l where q: "q = (i, sg, off, l)" by (cases q)
  have len: "length (mp_used m) = length ps" using pr(2) by (simp add: data_placed_def)
  note fr = map_frame_fields [OF pr(4)]
  have lt: "length ps < SEGS_PER_VSCSI_INDIRECT_FRAME" using pr(6) by simp
  then have md: "length ps mod SEGS_PER_VSCSI_INDIRECT_FRAME = length ps" by simp
  have nd: "need indirect m = (if indirect \<and> ps = [] then 2 else 1)"
    using len md by (auto simp: need_def)
  have gn: "grants_needed indirect ps (q # qs) = need indirect m + length qs"
    by (simp add: grants_needed_def nd)
  have gn': "grants_needed indirect (ps @ [q]) qs = length qs" by (simp add: grants_needed_def)
  have k: "length (mp_used m) < seg_room (mp_info m)" using len pr(5) fr by simp
  have b: "need indirect m \<le> n + length xs" "need indirect m \<le> length (grants (mp_info m))"
    using pr(7,8) gn by simp_all
  have pg: "need indirect m = 2 \<longrightarrow> \<not> feature_persistent (mp_info m) \<longrightarrow>
      indirect_pages (mp_info m) \<noteq> [] \<and> hd (indirect_pages (mp_info m)) \<noteq> 0"
    using pr(9) nd fr by (auto split: if_splits)
  have sg: "entry_ok (write \<and> feature_persistent (mp_info m)) sg" using pr(10) fr q by (simp add: entry_of_piece_def)
  obtain g m1 n1 xs1 where r: "map_piece write indirect q m = Some m1" "loop_inv live X A n1 xs1 m1" "loop_kept A m m1"
    "n1 + length xs1 = n + length xs - need indirect m"
    "length (grants (mp_info m1)) = length (grants (mp_info m)) - need indirect m"
    "piece_added write indirect q g m m1"
    using map_piece_ok [OF pr(1) k b pg sg] unfolding q by metis
  have mf: "map_frame s0 (mp_info m1)" using map_frame_trans pr(4) r(3) by (auto simp: loop_kept_def)
  have lp: "feature_persistent s0 \<longrightarrow> loop_pages A m1 = loop_pages A m" using r(3) fr by (simp add: loop_kept_def)
  have dp: "data_placed write (ps @ [q]) s0 m1"
    by (rule data_placed_step [where A = A, OF pr(2) r(6) fr(1)]) (use pr(11,12) lp in auto)
  have sw: "segs_written indirect (ps @ [q]) m1" by (rule segs_written_step [OF pr(3) r(6) len lt])
  have "\<exists>m' n' xs'. map_pieces write indirect qs m1 = Some m' \<and> loop_inv live X A n' xs' m' \<and> loop_kept A m1 m' \<and>
    n' + length xs' = n1 + length xs1 - grants_needed indirect (ps @ [q]) qs \<and>
    length (grants (mp_info m')) = length (grants (mp_info m1)) - grants_needed indirect (ps @ [q]) qs \<and>
    data_placed write ((ps @ [q]) @ qs) s0 m' \<and> segs_written indirect ((ps @ [q]) @ qs) m'"
    by (rule Cons.IH [OF r(2) dp sw mf]) (use pr(5-8,10-12) lp r(4,5) gn gn' in auto)
  then obtain m' n' xs' where t: "map_pieces write indirect qs m1 = Some m'" "loop_inv live X A n' xs' m'" "loop_kept A m1 m'"
    "n' + length xs' = n1 + length xs1 - length qs" "length (grants (mp_info m')) = length (grants (mp_info m1)) - length qs"
    "data_placed write (ps @ q # qs) s0 m'" "segs_written indirect (ps @ q # qs) m'"
    using gn' by auto
  show ?case
    using r(1,4,5) t loop_kept_trans [OF r(3) t(3)] gn
    by (intro exI [of _ m'] exI [of _ n'] exI [of _ xs']) simp
qed

text \<open>The room a backend leaves for segments; one indirect page is enough for it.\<close>

definition room_ok :: "vscsifrnt_info \<Rightarrow> bool" where
  "room_ok s \<longleftrightarrow>
     (if max_indirect_segments s = 0 then seg_room s = VSCSIIF_SG_TABLESIZE
      else seg_room s = max_indirect_segments s \<and> VSCSIIF_SG_TABLESIZE < max_indirect_segments s \<and>
        max_indirect_segments s \<le> MAX_VSCSI_INDIRECT_SEGMENTS)"

lemmas seg_consts = VSCSIIF_SG_TABLESIZE_def MAX_VSCSI_INDIRECT_SEGMENTS_def SEGS_PER_VSCSI_INDIRECT_FRAME_def

lemma room_max_grefs:
  "room_ok s \<Longrightarrow> max_grefs s = (if max_indirect_segments s = 0 then 26 else max_indirect_segments s + 1)"
  by (auto simp: room_ok_def max_grefs_def VSCSI_INDIRECT_PAGES_def seg_consts)

lemma room_bounds: "room_ok s \<Longrightarrow> 26 \<le> max_grefs s \<and> max_grefs s \<le> 129 \<and> seg_room s \<le> 128 \<and> max_grefs s \<le> seg_room s + 1"
  using room_max_grefs [of s] by (auto simp: room_ok_def seg_consts)

definition take_refs :: "scsi_env \<Rightarrow> vscsifrnt_info \<Rightarrow> (int \<times> nat option \<times> vscsifrnt_info) option" where
  "take_refs e s =
     (if unat (persistent_gnts_c s) < max_grefs s
      then do {
        (rc, h, g) \<leftarrow> gnttab_alloc_grant_references (sgenv e) (of_nat (max_grefs s - unat (persistent_gnts_c s))) (vgnt s);
        Some (rc, h, s\<lparr>vgnt := g\<rparr>)
      }
      else Some (0, None, s))"

lemma pool_count:
  assumes "pool_gen live X n xs A s" and "length (grants s) < 2 ^ 32"
  shows "unat (persistent_gnts_c s) = n"
  using assms by (auto simp: pool_inv_def unat_of_nat take_bit_nat_eq_self_iff)

lemma take_refs_ok:
  assumes inv: "pool_gen live X n [] A s" and l: "length (grants s) < 2 ^ 32" and room: "room_ok s"
    and xen: "\<forall>i. add_to_physmap (sgenv e) i = 0"
  obtains (busy) g where "take_refs e s = Some (- ENOSPC, None, s\<lparr>vgnt := g\<rparr>)" "pool_gen live X n [] A (s\<lparr>vgnt := g\<rparr>)"
      "length (gnt_free (vgnt s)) < max_grefs s - n"
  | (got) h xs g where "take_refs e s = Some (0, h, s\<lparr>vgnt := g\<rparr>)" "pool_gen live X n xs A (s\<lparr>vgnt := g\<rparr>)"
      "private_list h xs g" "(h = None) = (max_grefs s \<le> n)" "max_grefs s \<le> n + length xs" "h \<noteq> None \<longrightarrow> n + length xs = max_grefs s"
      "shared g = shared (vgnt s)"
proof (cases "n < max_grefs s")
  case False
  have id: "s\<lparr>vgnt := vgnt s\<rparr> = s" by simp
  show ?thesis
    by (rule got [of None "vgnt s" "[]"])
      (use False inv in \<open>simp_all add: take_refs_def pool_count [OF inv l] private_list_def id\<close>)
next
  case True
  note un = pool_count [OF inv l]
  have gi: "gnt_inv (vgnt s)" using inv by (simp add: pool_inv_def)
  have w: "0 < max_grefs s - n" "max_grefs s - n < 2 ^ 16" using True room_bounds [OF room] by (simp_all add: le_less_trans [OF diff_le_self])
  show ?thesis
  proof (cases rule: alloc_refs_cases [OF gi w xen, case_names none some])
    case (none g)
    have "pool_gen live X n [] A (s\<lparr>vgnt := g\<rparr>)"
      using inv none(2,3,5,6) by (simp add: pool_inv_def refs_apart_def backed_def outside_def)
    then show ?thesis using none True by (intro busy [of g]) (simp_all add: take_refs_def un)
  next
    case (some h xs g)
    have p: "pool_gen live X n xs A (s\<lparr>vgnt := g\<rparr>)" by (rule pool_alloc [OF inv some(2)])
    show ?thesis
      by (rule got [of "Some h" g xs])
        (use some True p in \<open>simp_all add: take_refs_def un gnt_hands_out_def private_list_def outside_def\<close>)
  qed
qed

lemma map_data_none: "sc_data_direction c = DMA_NONE \<or> sc_bufflen c = 0 \<Longrightarrow>
  map_data_for_request e c i s = Some (0, sc_data_direction c, VRw [], s)"
  by (auto simp: map_data_for_request_def Let_def)

lemma map_data_busy:
  assumes "take_refs e s = Some (- ENOSPC, None, t)" and "sc_data_direction c \<noteq> DMA_NONE" "sc_bufflen c \<noteq> 0"
  shows "map_data_for_request e c i s = Some (- ENOMEM, sc_data_direction c, VRw [], t)"
  using assms by (auto simp: map_data_for_request_def take_refs_def Let_def split: if_splits bind_split_asm)

definition initial_map :: "nat option \<Rightarrow> vscsifrnt_info \<Rightarrow> map_state" where
  "initial_map h s = \<lparr>mp_head = h, mp_used = [], mp_indirect = [], mp_segs = [], mp_page = 0, mp_info = s\<rparr>"

text \<open>The body of the request, and the state after the references that are left have been freed.\<close>

definition indirect_command :: "scsi_cmnd \<Rightarrow> bool" where
  "indirect_command c \<longleftrightarrow> VSCSIIF_SG_TABLESIZE < scsifront_calculate_segs c"

definition mapped_body :: "scsi_cmnd \<Rightarrow> map_state \<Rightarrow> vscsiif_body" where
  "mapped_body c m = (if indirect_command c
     then VIndirect (sc_data_direction c) (map gr_gref (mp_indirect m)) (of_nat (scsifront_calculate_segs c)) else VRw (mp_segs m))"

definition mapped_direction :: "scsi_cmnd \<Rightarrow> u8" where
  "mapped_direction c = (if indirect_command c then DMA_VSCSI_INDIRECT else sc_data_direction c)"

definition shadow_mapped :: "nat \<Rightarrow> map_state \<Rightarrow> vscsifrnt_info" where
  "shadow_mapped i m = upd_shadow i (\<lambda>h. h\<lparr>grants_used := mp_used m, indirect_grants := mp_indirect m\<rparr>) (mp_info m)"

lemma map_data_run:
  assumes d: "sc_data_direction c \<noteq> DMA_NONE" "sc_bufflen c \<noteq> 0"
    and t: "take_refs e s = Some (0, h, t)"
    and fr: "(h = None) = (\<not> unat (persistent_gnts_c s) < max_grefs s)" "max_grefs t = max_grefs s"
    and loop: "(if max_grefs s < command_pages c
                then Some (- E2BIG, initial_map h (upd_shadow i (\<lambda>x. x\<lparr>shadow_direction := mapped_direction c\<rparr>) t))
                else do {
                  m \<leftarrow> map_pieces (sc_data_direction c = DMA_TO_DEVICE) (indirect_command c) (sg_pieces 0 (sc_sg c) (sc_bufflen c))
                         (initial_map h (upd_shadow i (\<lambda>x. x\<lparr>shadow_direction := mapped_direction c\<rparr>) t));
                  Some (int (length (mp_used m)), m)
                }) = Some (cnt, m)"
    and h: "(mp_head m = None) = (h = None)" "max_grefs (mp_info m) = max_grefs s"
    and free: "h \<noteq> None \<Longrightarrow> gnttab_free_grant_references (max_grefs s + 1) (the (mp_head m)) (vgnt (mp_info m)) = Some g"
  shows "map_data_for_request e c i s = Some (cnt, mapped_direction c, mapped_body c m,
    if h = None then shadow_mapped i m else (shadow_mapped i m)\<lparr>vgnt := g\<rparr>)"
proof -
  have mg: "max_grefs (upd_shadow i f s) = max_grefs s" for f s by (simp add: max_grefs_def upd_shadow_def)
  have vg: "vgnt (upd_shadow i f s) = vgnt s" for f s by (simp add: upd_shadow_def)
  show ?thesis
    unfolding map_data_for_request_def Let_def take_refs_def [symmetric] indirect_command_def [symmetric]
      mapped_direction_def [symmetric] initial_map_def [symmetric] t
    apply (simp only: d simp_thms if_False bind.bind_lunit case_prod_conv)
    apply (simp only: mg fr(2) d(2) simp_thms if_False refl if_True)
    apply (subst loop)
    apply (simp only: bind.bind_lunit case_prod_conv)
    using h free fr(1) by (cases h; cases "mp_head m") (simp_all add: mapped_body_def shadow_mapped_def mg vg)
qed

definition mapping_ready :: "bool \<Rightarrow> grant multiset \<Rightarrow> nat \<Rightarrow> grant multiset \<Rightarrow> vscsifrnt_info \<Rightarrow> bool" where
  "mapping_ready live X n A s \<longleftrightarrow> pool_gen live X n [] A s \<and> (\<not> feature_persistent s \<longrightarrow> n = 0) \<and> room_ok s \<and>
     seg_room s + 1 \<le> length (grants s) \<and> length (grants s) < 2 ^ 32 \<and>
     (feature_persistent s \<longrightarrow> (\<forall>q. count (head_pages A s) q \<le> 1)) \<and>
     (\<not> feature_persistent s \<and> max_indirect_segments s \<noteq> 0 \<longrightarrow> indirect_pages s \<noteq> [] \<and> hd (indirect_pages s) \<noteq> 0)"

definition data_ok :: "scsi_cmnd \<Rightarrow> vscsifrnt_info \<Rightarrow> grant multiset \<Rightarrow> bool" where
  "data_ok c s A \<longleftrightarrow> scsifront_calculate_segs c \<le> seg_room s \<and>
     (\<forall>p \<in> set (sg_pieces 0 (sc_sg c) (sc_bufflen c)).
        entry_ok (sc_data_direction c = DMA_TO_DEVICE \<and> feature_persistent s) (entry_of_piece p) \<and>
        (sc_data_direction c = DMA_TO_DEVICE \<and> feature_persistent s \<longrightarrow>
           sg_pfn (entry_of_piece p) \<notin># head_pages A s))"

definition mapping_done :: "bool \<Rightarrow> grant multiset \<Rightarrow> nat \<Rightarrow> grant multiset \<Rightarrow> scsi_cmnd \<Rightarrow> nat \<Rightarrow> vscsifrnt_info \<Rightarrow> map_state \<Rightarrow> vscsifrnt_info \<Rightarrow> bool" where
  "mapping_done live X n A c i s m t \<longleftrightarrow>
     pool_gen live X n [] (mset (mp_used m) + mset (mp_indirect m) + A) t \<and> (\<not> feature_persistent s \<longrightarrow> n = 0) \<and>
     map_frame s (t\<lparr>vshadow := vshadow s\<rparr>) \<and>
     vshadow t = (vshadow s)(i := (vshadow s i)\<lparr>shadow_direction := mapped_direction c,
           grants_used := mp_used m, indirect_grants := mp_indirect m\<rparr>) \<and>
     vmem t = vmem (mp_info m) \<and> vseg_pages t = vseg_pages (mp_info m) \<and>
     length (grants t) = length (grants s) - length (mp_used m) - length (mp_indirect m) \<and>
     (feature_persistent s \<longrightarrow> head_pages (mset (mp_used m) + mset (mp_indirect m) + A) t = head_pages A s) \<and>
     mset (indirect_pages t) + (if feature_persistent s then {#} else image_mset gr_pfn (mset (mp_indirect m))) = mset (indirect_pages s) \<and>
     data_placed (sc_data_direction c = DMA_TO_DEVICE) (sg_pieces 0 (sc_sg c) (sc_bufflen c)) s m \<and>
     segs_written (indirect_command c) (sg_pieces 0 (sc_sg c) (sc_bufflen c)) m"

lemma map_frame_upd_shadow: "map_frame (upd_shadow i f s) t \<Longrightarrow>
  map_frame s (t\<lparr>vshadow := vshadow s\<rparr>) \<and> vshadow t = (vshadow s)(i := f (vshadow s i))"
  unfolding map_frame_def upd_shadow_def by (cases s; cases t) simp

lemma map_data_ok:
  assumes rdy: "mapping_ready live X n A s" and dok: "data_ok c s A" and xen: "\<forall>i. add_to_physmap (sgenv e) i = 0"
    and d: "sc_data_direction c \<noteq> DMA_NONE" "sc_bufflen c \<noteq> 0"
  obtains (busy) g where "map_data_for_request e c i s = Some (- ENOMEM, sc_data_direction c, VRw [], s\<lparr>vgnt := g\<rparr>)"
      "pool_gen live X n [] A (s\<lparr>vgnt := g\<rparr>)" "n < max_grefs s"
  | (big) g b where "map_data_for_request e c i s = Some (- E2BIG, mapped_direction c, b,
        upd_shadow i (\<lambda>h. h\<lparr>shadow_direction := mapped_direction c, grants_used := [], indirect_grants := []\<rparr>) (s\<lparr>vgnt := g\<rparr>))"
      "pool_gen live X n [] A (s\<lparr>vgnt := g\<rparr>)" "max_grefs s < command_pages c"
  | (ok) m t n' where "map_data_for_request e c i s =
        Some (int (scsifront_calculate_segs c), mapped_direction c, mapped_body c m, t)" "mapping_done live X n' A c i s m t"
proof -
  have inv: "pool_gen live X n [] A s" and np: "\<not> feature_persistent s \<longrightarrow> n = 0" and room: "room_ok s"
    and len: "seg_room s + 1 \<le> length (grants s)" "length (grants s) < 2 ^ 32"
    and un: "feature_persistent s \<longrightarrow> (\<forall>q. count (head_pages A s) q \<le> 1)"
    and ip: "\<not> feature_persistent s \<and> max_indirect_segments s \<noteq> 0 \<longrightarrow> indirect_pages s \<noteq> [] \<and> hd (indirect_pages s) \<noteq> 0"
    using rdy by (simp_all add: mapping_ready_def)
  note rb = room_bounds [OF room]
  let ?w = "sc_data_direction c = DMA_TO_DEVICE" and ?ps = "sg_pieces 0 (sc_sg c) (sc_bufflen c)"
  show thesis
  proof (cases rule: take_refs_ok [OF inv len(2) room xen, case_names busy got])
    case (busy g)
    then show ?thesis using map_data_busy [OF busy(1) d] by (intro that(1)) simp_all
  next
    case (got h xs g)
    define s1 where "s1 = upd_shadow i (\<lambda>x. x\<lparr>shadow_direction := mapped_direction c\<rparr>) (s\<lparr>vgnt := g\<rparr>)"
    define m0 where "m0 = initial_map h s1"
    have m0: "mp_info m0 = s1" "mp_used m0 = []" "mp_indirect m0 = []" "mp_segs m0 = []" "mp_head m0 = h"
      by (simp_all add: m0_def initial_map_def)
    have s1: "feature_persistent s1 = feature_persistent s" "seg_room s1 = seg_room s" "grants s1 = grants s"
      "indirect_pages s1 = indirect_pages s" "vgnt s1 = g" "max_indirect_segments s1 = max_indirect_segments s"
      "vmem s1 = vmem s" "backend_dom s1 = backend_dom s" "persistent_gnts_c s1 = persistent_gnts_c s"
      by (simp_all add: s1_def upd_shadow_def)
    have mg: "max_grefs s1 = max_grefs s" "max_grefs (s\<lparr>vgnt := g\<rparr>) = max_grefs s" by (simp_all add: max_grefs_def s1)
    have fr: "(h = None) = (\<not> unat (persistent_gnts_c s) < max_grefs s)"
      using got(4) pool_count [OF inv len(2)] by auto
    have pi: "pool_gen live X n xs A s1" using got(2) by (simp add: pool_inv_def s1 backed_def)
    show ?thesis
    proof (cases "max_grefs s < command_pages c")
      case True
      obtain g' where g': "h \<noteq> None \<Longrightarrow> gnttab_free_grant_references (max_grefs s + 1) (the h) g = Some g'"
        "pool_gen live X n [] A (s\<lparr>vgnt := if h = None then g else g'\<rparr>)"
      proof (cases h)
        case None
        then show ?thesis using that got(2,3) by (simp add: private_list_def)
      next
        case (Some hh)
        then have "linked (gnt_next g) hh GNTTAB_LIST_END xs" using got(3) by (simp add: private_list_def)
        then show ?thesis using pool_free [OF got(2), of hh "max_grefs s + 1"] got(6) Some that by auto
      qed
      have "map_data_for_request e c i s = Some (- E2BIG, mapped_direction c, mapped_body c m0,
         if h = None then shadow_mapped i m0 else (shadow_mapped i m0)\<lparr>vgnt := g'\<rparr>)"
        by (rule map_data_run [OF d got(1) fr mg(2)])
          (use True g'(1) m0 mg s1 in \<open>simp_all add: m0_def s1_def\<close>)
      moreover have "(if h = None then shadow_mapped i m0 else (shadow_mapped i m0)\<lparr>vgnt := g'\<rparr>) =
          upd_shadow i (\<lambda>h. h\<lparr>shadow_direction := mapped_direction c, grants_used := [], indirect_grants := []\<rparr>)
            (s\<lparr>vgnt := if h = None then g else g'\<rparr>)"
        by (simp add: shadow_mapped_def m0 s1_def upd_shadow_def)
      ultimately show ?thesis using g'(2) True by (intro that(2)) simp_all
    next
      case False
      let ?ind = "indirect_command c"
      have ne: "?ind \<longrightarrow> ?ps \<noteq> []" by (auto simp: indirect_command_def scsifront_calculate_segs_def)
      have lp: "length ?ps \<le> seg_room s" using dok by (simp add: data_ok_def scsifront_calculate_segs_def)
      have im: "?ind \<longrightarrow> max_indirect_segments s \<noteq> 0"
        using lp room by (auto simp: indirect_command_def room_ok_def scsifront_calculate_segs_def split: if_splits)
      have gn: "grants_needed ?ind [] ?ps = length ?ps + (if ?ind then 1 else 0)"
        using ne by (simp add: grants_needed_def)
      have gmax: "grants_needed ?ind [] ?ps \<le> max_grefs s"
        using gn lp im room room_max_grefs [OF room] by (auto simp: room_ok_def seg_consts split: if_splits)
      have L: "loop_inv live X A n xs m0" using pi got(3) np by (simp add: loop_inv_def m0 s1)
      have D: "data_placed ?w [] s1 m0" by (simp add: data_placed_def m0)
      have S: "segs_written ?ind [] m0" by (simp add: segs_written_def m0)
      have F: "map_frame s1 (mp_info m0)" by (simp add: m0)
      have hp: "loop_pages A m0 = head_pages A s" by (simp add: loop_pages_def head_pages_def m0 s1)
      have "\<exists>m n' xs'. map_pieces ?w ?ind ?ps m0 = Some m \<and> loop_inv live X A n' xs' m \<and> loop_kept A m0 m \<and>
        n' + length xs' = n + length xs - grants_needed ?ind [] ?ps \<and>
        length (grants (mp_info m)) = length (grants (mp_info m0)) - grants_needed ?ind [] ?ps \<and>
        data_placed ?w ([] @ ?ps) s1 m \<and> segs_written ?ind ([] @ ?ps) m"
        by (rule map_pieces_ok [OF L D S F])
          (use lp rb gmax got(5) len dok ip im un in \<open>simp_all add: m0 s1 hp data_ok_def seg_consts\<close>)
      then obtain m n' xs' where m: "map_pieces ?w ?ind ?ps m0 = Some m" "loop_inv live X A n' xs' m" "loop_kept A m0 m"
        "n' + length xs' = n + length xs - grants_needed ?ind [] ?ps"
        "length (grants (mp_info m)) = length (grants s) - grants_needed ?ind [] ?ps"
        "data_placed ?w ?ps s1 m" "segs_written ?ind ?ps m"
        by (auto simp: m0 s1)
      have k: "map_frame s1 (mp_info m)" "(mp_head m = None) = (h = None)"
        "feature_persistent s \<longrightarrow> loop_pages A m = head_pages A s"
        "table_pages m = mset (indirect_pages s)"
        using m(3) hp by (simp_all add: loop_kept_def m0 s1 table_pages_def)
      have mi: "max_grefs (mp_info m) = max_grefs s" using map_frame_fields(4) [OF k(1)] s1 by (simp add: max_grefs_def)
      have li: "pool_gen live X n' xs' (mset (mp_used m) + mset (mp_indirect m) + A) (mp_info m)"
        "private_list (mp_head m) xs' (vgnt (mp_info m))" "\<not> feature_persistent s \<longrightarrow> n' = 0"
        using m(2) map_frame_fields(1) [OF k(1)] s1 by (simp_all add: loop_inv_def)
      obtain g' where g': "h \<noteq> None \<Longrightarrow>
          gnttab_free_grant_references (max_grefs s + 1) (the (mp_head m)) (vgnt (mp_info m)) = Some g'"
        "h = None \<Longrightarrow> g' = vgnt (mp_info m)"
        "pool_gen live X n' [] (mset (mp_used m) + mset (mp_indirect m) + A) ((mp_info m)\<lparr>vgnt := g'\<rparr>)"
      proof (cases "mp_head m")
        case None
        then show ?thesis using that [of "vgnt (mp_info m)"] li k(2) by (simp add: private_list_def)
      next
        case (Some hh)
        then have "linked (gnt_next (vgnt (mp_info m))) hh GNTTAB_LIST_END xs'" using li(2) by (simp add: private_list_def)
        moreover have "length xs' \<le> max_grefs s + 1" using m(4) got(6) Some k(2) by auto
        ultimately obtain g' where "gnttab_free_grant_references (max_grefs s + 1) hh (vgnt (mp_info m)) = Some g'"
          "pool_gen live X n' [] (mset (mp_used m) + mset (mp_indirect m) + A) ((mp_info m)\<lparr>vgnt := g'\<rparr>)"
          using pool_free [OF li(1)] by blast
        then show ?thesis by (intro that [of g']) (use Some k(2) in simp_all)
      qed
      define t where "t = (shadow_mapped i m)\<lparr>vgnt := g'\<rparr>"
      have sm: "(if h = None then shadow_mapped i m else (shadow_mapped i m)\<lparr>vgnt := g'\<rparr>) = t"
        using g'(2) by (auto simp: t_def shadow_mapped_def upd_shadow_def)
      have len': "length (mp_used m) = scsifront_calculate_segs c"
        using m(6) by (simp add: data_placed_def scsifront_calculate_segs_def)
      have run: "map_data_for_request e c i s = Some (int (scsifront_calculate_segs c), mapped_direction c, mapped_body c m, t)"
        unfolding sm [symmetric]
        by (rule map_data_run [OF d got(1) fr mg(2)])
          (use False m(1) m0_def s1_def k(2) mi g'(1) len' in \<open>simp_all add: s1_def\<close>)
      have pt: "pool_gen live X n' [] (mset (mp_used m) + mset (mp_indirect m) + A) t"
        using g'(3) by (simp add: t_def shadow_mapped_def upd_shadow_def pool_inv_def backed_def)
      have lu: "length (mp_used m) = length ?ps" using m(6) by (simp add: data_placed_def)
      have li': "length (mp_indirect m) = (if ?ind then 1 else 0)"
        using m(7) ne by (auto simp: segs_written_def split: if_splits)
      have tf: "grants t = grants (mp_info m)" "vmem t = vmem (mp_info m)" "vseg_pages t = vseg_pages (mp_info m)"
        "indirect_pages t = indirect_pages (mp_info m)"
        by (simp_all add: t_def shadow_mapped_def upd_shadow_def)
      have vs: "vshadow t = (vshadow s)(i := (vshadow s i)\<lparr>shadow_direction := mapped_direction c,
           grants_used := mp_used m, indirect_grants := mp_indirect m\<rparr>)"
        using map_frame_fields(5) [OF k(1)] by (simp add: t_def shadow_mapped_def upd_shadow_def s1_def)
      have mf: "map_frame s (t\<lparr>vshadow := vshadow s\<rparr>)"
        using k(1) unfolding t_def shadow_mapped_def upd_shadow_def s1_def map_frame_def
        by (cases "mp_info m"; cases s) simp
      have D1: "data_placed ?w ?ps s m" using m(6) unfolding data_placed_def s1 .
      have "feature_persistent (mp_info m) = feature_persistent s" using map_frame_fields(1) [OF k(1)] by (simp add: s1)
      then have "mapping_done live X n' A c i s m t"
        unfolding mapping_done_def using pt li(3) mf vs tf lu li' m(5,7) gn D1 k(3,4)
        by (simp add: loop_pages_def head_pages_def table_pages_def)
      then show ?thesis using run that(3) by blast
    qed
  qed
qed

end
