(* ===== verification/Scsifront_Props.thy ===== *)
theory Scsifront_Props
  imports Scsifront_Map Freelist
begin

text \<open>
  The invariant of the SCSI front end (ids, commands in flight, pool, indirect pages, ring), kept
  by queueing a command and by serving answers, in any history.
\<close>

section \<open>The invariant of the data path\<close>

definition vnext :: "vscsifrnt_info \<Rightarrow> nat \<Rightarrow> nat" where "vnext s i = next_free (vshadow s i)"

definition nr_ids :: "vscsifrnt_info \<Rightarrow> nat" where "nr_ids s = unat (f_nr_ents (vring s))"

lemma max_reqs: "VSCSIIF_MAX_REQS = 128"
  by (simp add: VSCSIIF_MAX_REQS_def RING_SIZE_of_def sring_header_def RD32_def RD16_def RD8_def RD4_def RD2_def)

text \<open>
  The free ids are \<open>fs\<close>; every other id below the ring size is in use, and none beyond it.
\<close>

definition vids :: "nat list \<Rightarrow> vscsifrnt_info \<Rightarrow> bool" where
  "vids fs s \<longleftrightarrow> linked (vnext s) (vshadow_free s) VSCSIIF_NONE fs \<and> distinct fs \<and> set fs \<subseteq> {..<nr_ids s} \<and>
     nr_ids s \<le> VSCSIIF_MAX_REQS \<and> (\<forall>i < nr_ids s. i \<notin> set fs \<longrightarrow> vnext s i = VSCSIIF_IN_USE) \<and>
     (\<forall>i \<in> set fs. sc (vshadow s i) = None) \<and>
     (\<forall>i. nr_ids s \<le> i \<longrightarrow> vnext s i \<noteq> VSCSIIF_IN_USE \<and> sc (vshadow s i) = None)"

text \<open>The grants a command holds.\<close>

definition data_grants :: "vscsifrnt_shadow \<Rightarrow> grant list" where
  "data_grants h = take (nr_segments h) (grants_used h)"

definition table_grants :: "vscsifrnt_shadow \<Rightarrow> grant list" where
  "table_grants h = (if shadow_direction h = DMA_VSCSI_INDIRECT
     then take (VSCSI_INDIRECT_PAGES (nr_segments h)) (indirect_grants h) else [])"

definition moves_data :: "vscsifrnt_shadow \<Rightarrow> bool" where
  "moves_data h \<longleftrightarrow> (case sc h of None \<Rightarrow> False | Some c \<Rightarrow> sc_data_direction c \<noteq> DMA_NONE)"

definition held :: "vscsifrnt_shadow \<Rightarrow> grant multiset" where
  "held h = (if moves_data h then mset (data_grants h) + mset (table_grants h) else {#})"

definition held_tables :: "vscsifrnt_shadow \<Rightarrow> grant multiset" where
  "held_tables h = (if moves_data h then mset (table_grants h) else {#})"

definition out_grants :: "vscsifrnt_info \<Rightarrow> grant multiset" where
  "out_grants s = (\<Sum>i<nr_ids s. held (vshadow s i))"

definition out_tables :: "vscsifrnt_info \<Rightarrow> grant multiset" where
  "out_tables s = (\<Sum>i<nr_ids s. held_tables (vshadow s i))"

text \<open>A command that can be ended when its answer comes.\<close>

definition in_flight_ok :: "vscsifrnt_info \<Rightarrow> vscsifrnt_shadow \<Rightarrow> bool" where
  "in_flight_ok s h \<longleftrightarrow> act h = VSCSIIF_ACT_SCSI_CDB \<and> (\<exists>c. sc h = Some c \<and>
     (sc_data_direction c = DMA_FROM_DEVICE \<and> feature_persistent s \<longrightarrow>
        (\<forall>(i, sg, _, _) \<in> set (sg_pieces 0 (sc_sg c) (sc_bufflen c)).
           sg_offset sg + sg_length sg \<le> SG_PAGE_SIZE \<and> i < length (grants_used h)))) \<and>
     length (data_grants h) \<le> seg_room s \<and> length (table_grants h) \<le> 1"

text \<open>\<open>X\<close> are further grants of the device, those of its ring.\<close>

definition scsi_gen :: "bool \<Rightarrow> grant multiset \<Rightarrow> nat \<Rightarrow> nat list \<Rightarrow> vscsifrnt_info \<Rightarrow> bool" where
  "scsi_gen live X n fs s \<longleftrightarrow> vids fs s \<and> room_ok s \<and> pool_gen live X n [] (out_grants s) s \<and>
     (\<not> feature_persistent s \<longrightarrow> n = 0) \<and>
     (\<forall>i < nr_ids s. i \<notin> set fs \<longrightarrow> in_flight_ok s (vshadow s i)) \<and>
     length (grants s) + size (out_grants s) = (seg_room s + 1) * nr_ids s \<and>
     (feature_persistent s \<longrightarrow> (\<forall>q. count (head_pages (out_grants s) s) q \<le> 1)) \<and>
     (feature_persistent s \<longrightarrow> indirect_pages s = []) \<and>
     (\<not> feature_persistent s \<and> max_indirect_segments s \<noteq> 0 \<longrightarrow>
        length (indirect_pages s) + size (out_tables s) = nr_ids s \<and> 0 \<notin> set (indirect_pages s) \<and>
        0 \<notin># image_mset gr_pfn (out_tables s))"

abbreviation scsi_core :: "nat \<Rightarrow> nat list \<Rightarrow> vscsifrnt_info \<Rightarrow> bool" where
  "scsi_core \<equiv> scsi_gen True {#}"

lemmas scsi_core_def = scsi_gen_def

text \<open>Changing the entry of one id.\<close>

lemma sum_upd:
  fixes f :: "'a \<Rightarrow> 'b multiset"
  assumes "i < (n :: nat)"
  shows "(\<Sum>j<n. f ((h(i := x)) j)) + f (h i) = (\<Sum>j<n. f (h j)) + f x"
proof -
  have "(\<Sum>j<n. f ((h(i := x)) j)) = f x + (\<Sum>j\<in>{..<n} - {i}. f ((h(i := x)) j))"
    using assms by (subst sum.remove [of _ i]) auto
  moreover have "(\<Sum>j\<in>{..<n} - {i}. f ((h(i := x)) j)) = (\<Sum>j\<in>{..<n} - {i}. f (h j))"
    by (rule sum.cong) auto
  moreover have "(\<Sum>j<n. f (h j)) = f (h i) + (\<Sum>j\<in>{..<n} - {i}. f (h j))"
    using assms by (subst sum.remove [of _ i]) auto
  ultimately show ?thesis by (simp add: ac_simps)
qed

lemma out_upd:
  assumes "vshadow t = (vshadow s)(i := x)" "vring t = vring s" "i < nr_ids s"
  shows "out_grants t + held (vshadow s i) = out_grants s + held x"
    and "out_tables t + held_tables (vshadow s i) = out_tables s + held_tables x"
  using sum_upd [OF assms(3), of held "vshadow s" x] sum_upd [OF assms(3), of held_tables "vshadow s" x] assms(1,2)
  by (simp_all add: out_grants_def out_tables_def nr_ids_def)

lemma held_None [simp]: "sc h = None \<Longrightarrow> held h = {#}" "sc h = None \<Longrightarrow> held_tables h = {#}"
  by (simp_all add: held_def held_tables_def moves_data_def)

lemma size_sum_le:
  fixes f :: "nat \<Rightarrow> 'b multiset"
  shows "(\<And>i. i < n \<Longrightarrow> size (f i) \<le> (if i \<in> B then k else 0)) \<Longrightarrow> size (\<Sum>i<n. f i) \<le> k * card ({..<n} \<inter> B)"
proof (induction n)
  case (Suc n)
  have "size (\<Sum>i<n. f i) \<le> k * card ({..<n} \<inter> B)" by (rule Suc.IH) (simp add: Suc.prems)
  moreover have "size (f n) \<le> (if n \<in> B then k else 0)" by (rule Suc.prems) simp
  moreover have "{..<Suc n} \<inter> B = (if n \<in> B then insert n ({..<n} \<inter> B) else {..<n} \<inter> B)"
    by (auto simp: less_Suc_eq)
  ultimately show ?case by (simp split: if_splits)
qed simp

lemma core_room:
  assumes c: "scsi_gen live X n fs s"
  shows "(seg_room s + 1) * length fs \<le> length (grants s)"
    and "\<not> feature_persistent s \<and> max_indirect_segments s \<noteq> 0 \<longrightarrow> length fs \<le> length (indirect_pages s)"
    and "length (grants s) < 2 ^ 32"
proof -
  have ids: "vids fs s" and room: "room_ok s" using c by (simp_all add: scsi_core_def)
  let ?B = "{..<nr_ids s} - set fs"
  have card: "card ({..<nr_ids s} \<inter> ?B) + length fs = nr_ids s"
    using ids by (simp add: vids_def Int_absorb1 Diff_subset card_Diff_subset distinct_card card_mono)
      (metis card_lessThan card_mono distinct_card finite_lessThan le_add_diff_inverse2)
  have fl: "in_flight_ok s (vshadow s i)" if "i < nr_ids s" "i \<notin> set fs" for i using c that by (simp add: scsi_core_def)
  have nn: "sc (vshadow s i) = None" if "i \<in> set fs" for i using ids that by (simp add: vids_def)
  have "size (held (vshadow s i)) \<le> (if i \<in> ?B then seg_room s + 1 else 0)" if "i < nr_ids s" for i
    using fl [OF that] nn [of i] that by (cases "i \<in> set fs") (simp, auto simp: held_def in_flight_ok_def)
  then have o: "size (out_grants s) \<le> (seg_room s + 1) * card ({..<nr_ids s} \<inter> ?B)"
    unfolding out_grants_def by (rule size_sum_le)
  have tot: "length (grants s) + size (out_grants s) = (seg_room s + 1) * nr_ids s" using c by (simp add: scsi_core_def)
  then have "length (grants s) + size (out_grants s) = (seg_room s + 1) * card ({..<nr_ids s} \<inter> ?B) + (seg_room s + 1) * length fs"
    using card by (metis distrib_left)
  then show "(seg_room s + 1) * length fs \<le> length (grants s)" using o by linarith
  have "size (held_tables (vshadow s i)) \<le> (if i \<in> ?B then 1 else 0)" if "i < nr_ids s" for i
    using fl [OF that] nn [of i] that by (cases "i \<in> set fs") (simp, auto simp: held_tables_def in_flight_ok_def)
  then have ot: "size (out_tables s) \<le> 1 * card ({..<nr_ids s} \<inter> ?B)"
    unfolding out_tables_def by (rule size_sum_le)
  show "\<not> feature_persistent s \<and> max_indirect_segments s \<noteq> 0 \<longrightarrow> length fs \<le> length (indirect_pages s)"
  proof
    assume "\<not> feature_persistent s \<and> max_indirect_segments s \<noteq> 0"
    then have "length (indirect_pages s) + size (out_tables s) = nr_ids s" using c by (simp add: scsi_core_def)
    then show "length fs \<le> length (indirect_pages s)" using ot card by linarith
  qed
  have "(seg_room s + 1) * nr_ids s \<le> 129 * 128"
    using room_bounds [OF room] ids by (intro mult_le_mono) (simp_all add: vids_def max_reqs)
  then show "length (grants s) < 2 ^ 32" using tot by simp
qed

text \<open>The parts of the state that stay as they were set up.\<close>

definition same_setup :: "vscsifrnt_info \<Rightarrow> vscsifrnt_info \<Rightarrow> bool" where
  "same_setup s t \<longleftrightarrow> feature_persistent t = feature_persistent s \<and> seg_room t = seg_room s \<and>
     max_indirect_segments t = max_indirect_segments s \<and> f_nr_ents (vring t) = f_nr_ents (vring s) \<and>
     backend_dom t = backend_dom s"

lemma same_setup_simps:
  assumes "same_setup s t"
  shows "room_ok t = room_ok s" "in_flight_ok t h = in_flight_ok s h" "nr_ids t = nr_ids s"
    "feature_persistent t = feature_persistent s" "seg_room t = seg_room s"
    "max_indirect_segments t = max_indirect_segments s"
  using assms by (simp_all add: same_setup_def room_ok_def in_flight_ok_def nr_ids_def)

lemma out_upd':
  assumes "vshadow t = (vshadow s)(i := x)" "nr_ids t = nr_ids s" "i < nr_ids s"
  shows "out_grants t + held (vshadow s i) = out_grants s + held x"
    and "out_tables t + held_tables (vshadow s i) = out_tables s + held_tables x"
  using sum_upd [OF assms(3), of held "vshadow s" x] sum_upd [OF assms(3), of held_tables "vshadow s" x] assms(1,2)
  by (simp_all add: out_grants_def out_tables_def)

text \<open>Taking the first free id for a command that keeps its grants.\<close>

lemma core_claim:
  assumes c: "scsi_gen live X n (x # xs) s" and set: "same_setup s t"
    and sh: "vshadow t = (vshadow s)(x := h)" "next_free h = VSCSIIF_IN_USE" "vshadow_free t = vnext s x" "in_flight_ok s h"
    and pool: "pool_gen live X n' [] (held h + out_grants s) t" "\<not> feature_persistent s \<longrightarrow> n' = 0"
      "length (grants t) + size (held h) = length (grants s)"
    and fp: "feature_persistent s \<longrightarrow> head_pages (held h + out_grants s) t = head_pages (out_grants s) s"
    and np: "mset (indirect_pages t) + (if feature_persistent s then {#} else image_mset gr_pfn (held_tables h)) = mset (indirect_pages s)"
  shows "scsi_gen live X n' xs t"
proof -
  note st = same_setup_simps [OF set]
  have v: "vids (x # xs) s" using c by (simp add: scsi_core_def)
  then have x: "x < nr_ids s" "sc (vshadow s x) = None" "x \<notin> set xs" by (simp_all add: vids_def)
  have o: "out_grants t = held h + out_grants s" "out_tables t = held_tables h + out_tables s"
    using out_upd' [OF sh(1) st(3) x(1)] x(2) by (simp_all add: ac_simps)
  have nx: "vnext t i = (if i = x then VSCSIIF_IN_USE else vnext s i)" for i using sh by (simp add: vnext_def)
  have "linked (vnext t) (vnext s x) VSCSIIF_NONE xs = linked (vnext s) (vnext s x) VSCSIIF_NONE xs"
    using x(3) by (intro linked_cong) (auto simp: nx)
  then have "vids xs t" using v sh by (auto simp: vids_def nx st)
  moreover have "in_flight_ok s (vshadow t i)" if "i < nr_ids s" "i \<notin> set xs" for i
    using that c sh by (cases "i = x") (simp_all add: scsi_core_def)
  moreover have "length (indirect_pages t) + size (out_tables t) = nr_ids s \<and> 0 \<notin> set (indirect_pages t) \<and>
        0 \<notin># image_mset gr_pfn (out_tables t)" if m: "\<not> feature_persistent s \<and> max_indirect_segments s \<noteq> 0"
  proof -
    have e: "mset (indirect_pages t) + image_mset gr_pfn (held_tables h) = mset (indirect_pages s)" using np m by simp
    have "size (mset (indirect_pages t) + image_mset gr_pfn (held_tables h)) = length (indirect_pages s)"
      unfolding e by simp
    then have l: "length (indirect_pages t) + size (held_tables h) = length (indirect_pages s)" by simp
    have z: "0 \<notin># mset (indirect_pages t) + image_mset gr_pfn (held_tables h)"
      using c m unfolding e by (simp add: scsi_core_def)
    show ?thesis using c m l z o by (simp add: scsi_core_def)
  qed
  moreover have "feature_persistent s \<longrightarrow> indirect_pages t = []" using np c by (cases "feature_persistent s") (simp_all add: scsi_core_def)
  ultimately show ?thesis
    unfolding scsi_core_def st o(1) using c pool fp unfolding scsi_core_def by simp
qed

text \<open>A command that failed gives its id back at once.\<close>

lemma core_restore:
  assumes c: "scsi_gen live X n (x # xs) s" and set: "same_setup s t"
    and sh: "vshadow t = (vshadow s)(x := h)" "next_free h = vnext s x" "sc h = None" "vshadow_free t = x"
    and pool: "pool_gen live X n [] (out_grants s) t" "grants t = grants s" "indirect_pages t = indirect_pages s"
  shows "scsi_gen live X n (x # xs) t"
proof -
  note st = same_setup_simps [OF set]
  have v: "vids (x # xs) s" using c by (simp add: scsi_core_def)
  then have x: "x < nr_ids s" "sc (vshadow s x) = None" "x \<notin> set xs" "x \<noteq> VSCSIIF_NONE" by (simp_all add: vids_def)
  have o: "out_grants t = out_grants s" "out_tables t = out_tables s"
    using out_upd' [OF sh(1) st(3) x(1)] x(2) sh(3) by simp_all
  have nx: "vnext t = vnext s" using sh by (auto simp: vnext_def)
  have "vids (x # xs) t" using v sh by (auto simp: vids_def nx st)
  moreover have "in_flight_ok s (vshadow t i)" if "i < nr_ids s" "i \<notin> set (x # xs)" for i
    using that c sh by (simp add: scsi_core_def)
  ultimately show ?thesis
    unfolding scsi_core_def st o pool(2,3) using c pool unfolding scsi_core_def head_pages_def by simp
qed

text \<open>A command that ends gives its id and its grants back.\<close>

lemma core_release:
  assumes c: "scsi_gen live X n fs s" and set: "same_setup s t" and i: "i < nr_ids s" "i \<notin> set fs"
    and sh: "vshadow t = (vshadow s)(i := h)" "next_free h = vshadow_free s" "sc h = None" "vshadow_free t = i"
    and pool: "pool_gen live X n' [] A t" "A + held (vshadow s i) = out_grants s" "\<not> feature_persistent s \<longrightarrow> n' = 0"
      "length (grants t) = length (grants s) + size (held (vshadow s i))"
    and fp: "feature_persistent s \<longrightarrow> head_pages A t = head_pages (out_grants s) s"
    and np: "mset (indirect_pages t) = (if feature_persistent s then {#} else image_mset gr_pfn (held_tables (vshadow s i))) + mset (indirect_pages s)"
  shows "scsi_gen live X n' (i # fs) t"
proof -
  note st = same_setup_simps [OF set]
  have v: "vids fs s" using c by (simp add: scsi_core_def)
  have og: "out_grants t + held (vshadow s i) = A + held (vshadow s i)"
    and ot: "out_tables t + held_tables (vshadow s i) = out_tables s"
    using out_upd' [OF sh(1) st(3) i(1)] pool(2) sh(3) by simp_all
  have "out_grants t = A" using og by (rule add_right_imp_eq)
  note o = this ot
  have nx: "vnext t j = (if j = i then vshadow_free s else vnext s j)" for j using sh by (simp add: vnext_def)
  have "linked (vnext t) (vshadow_free s) VSCSIIF_NONE fs = linked (vnext s) (vshadow_free s) VSCSIIF_NONE fs"
    using i(2) by (intro linked_cong) (auto simp: nx)
  moreover have "i < 128" using v i(1) by (simp add: vids_def max_reqs)
  then have "i \<noteq> VSCSIIF_NONE" by (simp add: VSCSIIF_NONE_def VSCSIIF_IN_USE_def)
  ultimately have "vids (i # fs) t" using v sh i by (auto simp: vids_def nx st)
  moreover have "in_flight_ok s (vshadow t j)" if "j < nr_ids s" "j \<notin> set (i # fs)" for j
    using that c sh by (simp add: scsi_core_def)
  moreover have "length (indirect_pages t) + size (out_tables t) = nr_ids s \<and> 0 \<notin> set (indirect_pages t) \<and>
        0 \<notin># image_mset gr_pfn (out_tables t)" if m: "\<not> feature_persistent s \<and> max_indirect_segments s \<noteq> 0"
  proof -
    have e: "mset (indirect_pages t) = image_mset gr_pfn (held_tables (vshadow s i)) + mset (indirect_pages s)" using np m by simp
    have l: "length (indirect_pages t) = size (held_tables (vshadow s i)) + length (indirect_pages s)"
      using arg_cong [OF e, of size] by simp
    have lo: "size (out_tables s) = size (out_tables t) + size (held_tables (vshadow s i))"
      unfolding o(2) [symmetric] by simp
    have z: "0 \<notin># image_mset gr_pfn (out_tables t + held_tables (vshadow s i))"
      using c m unfolding o(2) by (simp add: scsi_core_def)
    have "0 \<notin># mset (indirect_pages t)" unfolding e using c m z by (simp add: scsi_core_def)
    moreover have "length (indirect_pages s) + size (out_tables s) = nr_ids s" using c m by (simp add: scsi_core_def)
    ultimately show ?thesis using l lo z by simp
  qed
  moreover have "length (grants t) + size A = (seg_room s + 1) * nr_ids s"
  proof -
    have "size (out_grants s) = size A + size (held (vshadow s i))" unfolding pool(2) [symmetric] by simp
    then show ?thesis using c pool(4) by (simp add: scsi_core_def)
  qed
  moreover have "feature_persistent s \<longrightarrow> indirect_pages t = []" using np c by (cases "feature_persistent s") (simp_all add: scsi_core_def)
  ultimately show ?thesis
    unfolding scsi_core_def st o(1) using c pool fp unfolding scsi_core_def by simp
qed

section \<open>Queueing a command\<close>

definition same_core :: "vscsifrnt_info \<Rightarrow> vscsifrnt_info \<Rightarrow> bool" where
  "same_core s t \<longleftrightarrow> same_setup s t \<and> vshadow t = vshadow s \<and> vshadow_free t = vshadow_free s \<and> grants t = grants s \<and>
     persistent_gnts_c t = persistent_gnts_c s \<and> vgnt t = vgnt s \<and> indirect_pages t = indirect_pages s"

lemma same_core_core:
  assumes "same_core s t"
  shows "scsi_gen live X n fs t = scsi_gen live X n fs s"
proof -
  have set: "same_setup s t" using assms by (simp add: same_core_def)
  note st = same_setup_simps [OF set]
  have "vnext t = vnext s" using assms by (auto simp: same_core_def vnext_def)
  then have "vids fs t = vids fs s" using assms by (simp add: vids_def st same_core_def)
  moreover have "out_grants t = out_grants s" "out_tables t = out_tables s"
    using assms by (simp_all add: out_grants_def out_tables_def st same_core_def)
  moreover have "pool_gen live X n [] A t = pool_gen live X n [] A s" for A
    using assms set by (simp add: pool_inv_def same_core_def same_setup_def)
  ultimately show ?thesis
    using assms by (simp add: scsi_core_def st head_pages_def same_core_def)
qed

definition outstanding :: "nat list \<Rightarrow> vscsifrnt_info \<Rightarrow> bool" where
  "outstanding fs s \<longleftrightarrow> req_prod_pvt (vring s) - rsp_cons (vring s) = of_nat (nr_ids s - length fs)"

definition scsi_run :: "bool \<Rightarrow> grant multiset \<Rightarrow> nat \<Rightarrow> nat list \<Rightarrow> vscsifrnt_info \<Rightarrow> bool" where
  "scsi_run live X n fs s \<longleftrightarrow> scsi_gen live X n fs s \<and> outstanding fs s"

abbreviation scsi_inv :: "nat \<Rightarrow> nat list \<Rightarrow> vscsifrnt_info \<Rightarrow> bool" where
  "scsi_inv \<equiv> scsi_run True {#}"

lemmas scsi_inv_def = scsi_run_def

lemma free_le: "vids fs s \<Longrightarrow> length fs \<le> nr_ids s"
  by (auto simp: vids_def dest: card_mono [rotated] simp flip: distinct_card)

lemma ring_full_ids:
  assumes "scsi_run live X n fs s"
  shows "RING_FULL (vring s) \<longleftrightarrow> fs = []"
proof -
  have v: "vids fs s" using assms by (simp add: scsi_inv_def scsi_core_def)
  have l: "length fs \<le> nr_ids s" "nr_ids s \<le> 128" using free_le [OF v] v by (simp_all add: vids_def max_reqs)
  have N: "f_nr_ents (vring s) = of_nat (nr_ids s)" by (simp add: nr_ids_def)
  have "RING_FREE_REQUESTS (vring s) = of_nat (nr_ids s) - of_nat (nr_ids s - length fs)"
    using assms by (simp only: RING_FREE_REQUESTS_def scsi_inv_def outstanding_def N)
  also have "\<dots> = (of_nat (length fs) :: u32)" using l(1) by simp
  finally have "RING_FREE_REQUESTS (vring s) = of_nat (length fs)" .
  then have "unat (RING_FREE_REQUESTS (vring s)) = length fs" using l by (simp add: unat_of_nat take_bit_nat_eq_self_iff)
  then show ?thesis by (metis RING_FULL_def length_0_conv unat_0 word_unat_eq_iff)
qed

text \<open>Entries within a page give one piece each, until the length of the command is reached.\<close>

definition within_page :: "sg_entry \<Rightarrow> bool" where
  "within_page sg \<longleftrightarrow> 0 < sg_length sg \<and> sg_offset sg + sg_length sg \<le> SG_PAGE_SIZE"

lemma sg_pieces_0 [simp]: "sg_pieces i sgs 0 = []"
  by (induction sgs arbitrary: i) (simp_all add: entry_pieces.simps)

lemma entry_one_piece:
  "within_page sg \<Longrightarrow> 0 < d \<Longrightarrow>
   entry_pieces i sg (sg_offset sg) (sg_length sg) d = [(i, sg, sg_offset sg, min (sg_length sg) d)]"
  by (subst entry_pieces.simps, subst entry_pieces.simps) (auto simp: within_page_def Let_def min_def)

lemma sg_pieces_Cons:
  "within_page sg \<Longrightarrow> 0 < d \<Longrightarrow>
   sg_pieces i (sg # sgs) d = (i, sg, sg_offset sg, min (sg_length sg) d) # sg_pieces (i + 1) sgs (d - sg_length sg)"
  by (simp add: entry_one_piece) (simp add: min_def)

lemma piece_index:
  "\<forall>sg \<in> set sgs. within_page sg \<Longrightarrow> (k, sg, off, n) \<in> set (sg_pieces i sgs d) \<Longrightarrow>
   k < i + length (sg_pieces i sgs d) \<and> sg \<in> set sgs \<and> off = sg_offset sg \<and> n \<le> sg_length sg"
proof (induction sgs arbitrary: i d)
  case (Cons x xs)
  show ?case
  proof (cases "d = 0")
    case False
    then have e: "sg_pieces i (x # xs) d = (i, x, sg_offset x, min (sg_length x) d) # sg_pieces (i + 1) xs (d - sg_length x)"
      using Cons.prems(1) by (intro sg_pieces_Cons) simp_all
    show ?thesis
    proof (cases "(k, sg, off, n) = (i, x, sg_offset x, min (sg_length x) d)")
      case True
      then show ?thesis unfolding e by simp
    next
      case False
      then have "(k, sg, off, n) \<in> set (sg_pieces (i + 1) xs (d - sg_length x))" using Cons.prems(2) unfolding e by auto
      then show ?thesis using Cons.IH [of "i + 1" "d - sg_length x"] Cons.prems(1) unfolding e by simp
    qed
  qed (use Cons.prems in simp)
qed simp

definition entry_bytes :: "(nat \<times> nat \<Rightarrow> u8) \<Rightarrow> sg_entry \<Rightarrow> nat \<Rightarrow> nat \<Rightarrow> u8 list" where
  "entry_bytes m sg off n = map (\<lambda>x. m (sg_pfn sg, x)) [off..<off + n]"

lemma take_entry_bytes: "take d (entry_bytes m sg off n) = entry_bytes m sg off (min n d)"
  by (simp add: entry_bytes_def take_map min_def)

text \<open>The data of a command: the first bytes of its entries, as many as it transfers.\<close>

definition command_data :: "(nat \<times> nat \<Rightarrow> u8) \<Rightarrow> scsi_cmnd \<Rightarrow> u8 list" where
  "command_data m c = take (sc_bufflen c) (concat (map (\<lambda>sg. entry_bytes m sg (sg_offset sg) (sg_length sg)) (sc_sg c)))"

lemma pieces_data:
  "\<forall>sg \<in> set sgs. within_page sg \<Longrightarrow>
   concat (map (\<lambda>(_, sg, off, n). entry_bytes m sg off n) (sg_pieces i sgs d)) =
   take d (concat (map (\<lambda>sg. entry_bytes m sg (sg_offset sg) (sg_length sg)) sgs))"
proof (induction sgs arbitrary: i d)
  case (Cons x xs)
  show ?case
  proof (cases "d = 0")
    case False
    then have "sg_pieces i (x # xs) d = (i, x, sg_offset x, min (sg_length x) d) # sg_pieces (i + 1) xs (d - sg_length x)"
      using Cons.prems(1) by (intro sg_pieces_Cons) simp_all
    then show ?thesis using Cons by (simp add: take_entry_bytes) (simp add: entry_bytes_def)
  qed simp
qed simp

definition claimed :: "scsi_cmnd \<Rightarrow> nat \<Rightarrow> vscsifrnt_info \<Rightarrow> vscsifrnt_info" where
  "claimed c i s = s\<lparr>callers := callers s + 1, vring := (vring s)\<lparr>req_prod_pvt := req_prod_pvt (vring s) + 1\<rparr>,
     vshadow_free := vnext s i,
     vshadow := (vshadow s)(i := (vshadow s i)\<lparr>next_free := VSCSIIF_IN_USE, wait_reset := False, sc := Some c,
       act := VSCSIIF_ACT_SCSI_CDB, shadow_direction := sc_data_direction c\<rparr>)\<rparr>"

text \<open>What becomes of a command once its data has been mapped, or not.\<close>

definition refuse_command :: "int \<Rightarrow> scsi_cmnd \<Rightarrow> nat \<Rightarrow> vscsifrnt_info \<Rightarrow> int \<times> vscsifrnt_info" where
  "refuse_command cnt c i s =
     (let s = add_id_to_freelist i s;
          s = scsifront_return (scsifront_do_request (s\<lparr>vring := (vring s)\<lparr>req_prod_pvt := req_prod_pvt (vring s) - 1\<rparr>\<rparr>))
      in if cnt = - ENOMEM then (SCSI_MLQUEUE_HOST_BUSY, s)
         else (0, s\<lparr>finished := finished s @ [(c, DID_ERROR * 65536, 0, [])]\<rparr>))"

definition command_request :: "scsi_cmnd \<Rightarrow> nat \<Rightarrow> u8 \<Rightarrow> vscsiif_body \<Rightarrow> vscsiif_request" where
  "command_request c i dir b = \<lparr>rqid = of_nat i, rq_act = VSCSIIF_ACT_SCSI_CDB, rq_cmd_len = sc_cmd_len c,
     rq_cmnd = command_bytes c, timeout_per_command = sc_timeout c, rq_device = sc_device c, rq_direction = dir, rq_body = b\<rparr>"

definition send_command :: "vscsiif_request \<Rightarrow> int \<Rightarrow> nat \<Rightarrow> vscsifrnt_info \<Rightarrow> vscsifrnt_info" where
  "send_command q cnt i s =
     scsifront_return (scsifront_do_request (upd_shadow i (\<lambda>h. h\<lparr>nr_segments := nat cnt\<rparr>) (fill_request q s)))"

lemma queue_run:
  assumes "\<not> pause s" "\<not> RING_FULL (vring s)" "vids (i # fs) s" "sc_cmd_len c \<le> VSCSIIF_MAX_COMMAND_SIZE"
  shows "scsifront_queuecommand e c s =
    map_option (\<lambda>(cnt, dir, b, u). if cnt < 0 then refuse_command cnt c i u
                                   else (0, send_command (command_request c i dir b) cnt i u))
      (map_data_for_request e c i (claimed c i s))"
proof -
  have i: "vshadow_free s = i" "i < VSCSIIF_MAX_REQS" using assms(3) by (auto simp: vids_def)
  let ?s1 = "s\<lparr>callers := Suc (callers s)\<rparr>"
  have pre: "scsifront_pre_request ?s1 = Some (i, upd_shadow i (\<lambda>h. h\<lparr>next_free := VSCSIIF_IN_USE, wait_reset := False\<rparr>)
      (?s1\<lparr>vring := (vring s)\<lparr>req_prod_pvt := req_prod_pvt (vring s) + 1\<rparr>, vshadow_free := vnext s i\<rparr>))"
    using i by (simp add: scsifront_pre_request_def get_id_from_freelist_def vnext_def)
  have cl: "upd_shadow i (\<lambda>h. h\<lparr>sc := Some c, act := VSCSIIF_ACT_SCSI_CDB, shadow_direction := sc_data_direction c\<rparr>)
      (upd_shadow i (\<lambda>h. h\<lparr>next_free := VSCSIIF_IN_USE, wait_reset := False\<rparr>)
      (?s1\<lparr>vring := (vring s)\<lparr>req_prod_pvt := req_prod_pvt (vring s) + 1\<rparr>, vshadow_free := vnext s i\<rparr>)) = claimed c i s"
    by (simp add: upd_shadow_def claimed_def)
  show ?thesis
    using assms(1,2,4)
    by (cases "map_data_for_request e c i (claimed c i s)")
      (auto simp: scsifront_queuecommand_def scsifront_enter_def pre Let_def cl refuse_command_def send_command_def
        command_request_def)
qed

text \<open>The rest of the state of a command that is refused or sent.\<close>

lemma do_request_fields [simp]:
  "vshadow (scsifront_do_request s) = vshadow s" "vshadow_free (scsifront_do_request s) = vshadow_free s"
  "grants (scsifront_do_request s) = grants s" "vring (scsifront_do_request s) = vring s"
  "finished (scsifront_do_request s) = finished s" "same_setup s (scsifront_do_request s)"
  "vmem (scsifront_do_request s) = vmem s" "vseg_pages (scsifront_do_request s) = vseg_pages s"
  "vgnt (scsifront_do_request s) = vgnt s" "pause (scsifront_do_request s) = pause s"
  "persistent_gnts_c (scsifront_do_request s) = persistent_gnts_c s" "indirect_pages (scsifront_do_request s) = indirect_pages s"
  "feature_persistent (scsifront_do_request s) = feature_persistent s" "backend_dom (scsifront_do_request s) = backend_dom s"
  "seg_room (scsifront_do_request s) = seg_room s" "max_indirect_segments (scsifront_do_request s) = max_indirect_segments s"
  by (simp_all add: scsifront_do_request_def same_setup_def Let_def split: prod.splits)

lemma return_fields [simp]:
  "vshadow (scsifront_return s) = vshadow s" "vshadow_free (scsifront_return s) = vshadow_free s"
  "grants (scsifront_return s) = grants s" "vring (scsifront_return s) = vring s" "vsring (scsifront_return s) = vsring s"
  "finished (scsifront_return s) = finished s" "same_setup s (scsifront_return s)"
  "vmem (scsifront_return s) = vmem s" "vseg_pages (scsifront_return s) = vseg_pages s"
  "vgnt (scsifront_return s) = vgnt s" "pause (scsifront_return s) = pause s"
  "persistent_gnts_c (scsifront_return s) = persistent_gnts_c s" "indirect_pages (scsifront_return s) = indirect_pages s"
  "feature_persistent (scsifront_return s) = feature_persistent s" "backend_dom (scsifront_return s) = backend_dom s"
  "seg_room (scsifront_return s) = seg_room s" "max_indirect_segments (scsifront_return s) = max_indirect_segments s"
  by (simp_all add: scsifront_return_def same_setup_def Let_def)

lemma same_setup_trans: "same_setup s t \<Longrightarrow> same_setup t u \<Longrightarrow> same_setup s u"
  by (simp add: same_setup_def)

lemma pool_inv_cong:
  "vgnt t = vgnt s \<Longrightarrow> grants t = grants s \<Longrightarrow> persistent_gnts_c t = persistent_gnts_c s \<Longrightarrow> backend_dom t = backend_dom s \<Longrightarrow>
   pool_gen live X n xs A t = pool_gen live X n xs A s"
  by (simp add: pool_inv_def)

definition cmd_ok :: "scsi_cmnd \<Rightarrow> vscsifrnt_info \<Rightarrow> bool" where
  "cmd_ok c s \<longleftrightarrow> sc_cmd_len c \<le> VSCSIIF_MAX_COMMAND_SIZE \<and> sc_data_direction c \<noteq> DMA_VSCSI_INDIRECT \<and>
     scsifront_calculate_segs c \<le> seg_room s \<and>
     (\<forall>sg \<in> set (sc_sg c). within_page sg \<and> sg_pfn sg \<noteq> 0 \<and>
        (feature_persistent s \<longrightarrow> sg_pfn sg \<notin># head_pages (out_grants s) s))"

lemma claimed_fields [simp]:
  "feature_persistent (claimed c i s) = feature_persistent s" "seg_room (claimed c i s) = seg_room s"
  "max_indirect_segments (claimed c i s) = max_indirect_segments s" "grants (claimed c i s) = grants s"
  "indirect_pages (claimed c i s) = indirect_pages s" "vgnt (claimed c i s) = vgnt s" "vmem (claimed c i s) = vmem s"
  "persistent_gnts_c (claimed c i s) = persistent_gnts_c s" "backend_dom (claimed c i s) = backend_dom s"
  "finished (claimed c i s) = finished s" "same_setup s (claimed c i s)" "vshadow_free (claimed c i s) = vnext s i"
  "pause (claimed c i s) = pause s" "vsring (claimed c i s) = vsring s"
  by (simp_all add: claimed_def same_setup_def)

lemma head_pages_cong: "grants t = grants s \<Longrightarrow> head_pages A t = head_pages A s"
  by (simp add: head_pages_def)

lemma claimed_ready:
  assumes "scsi_gen live X n (i # fs) s"
  shows "mapping_ready live X n (out_grants s) (claimed c i s)"
proof -
  have p: "pool_gen live X n [] (out_grants s) (claimed c i s) = pool_gen live X n [] (out_grants s) s"
    by (rule pool_inv_cong) simp_all
  have r: "room_ok (claimed c i s) = room_ok s" by (simp add: room_ok_def)
  have h: "head_pages (out_grants s) (claimed c i s) = head_pages (out_grants s) s" by (rule head_pages_cong) simp
  have ip: "\<not> feature_persistent s \<and> max_indirect_segments s \<noteq> 0 \<longrightarrow> indirect_pages s \<noteq> [] \<and> hd (indirect_pages s) \<noteq> 0"
    using core_room(2) [OF assms] assms by (cases "indirect_pages s") (auto simp: scsi_core_def)
  show ?thesis
    unfolding mapping_ready_def p r h using assms core_room(1,3) [OF assms] ip by (simp add: scsi_core_def)
qed

lemma piece_entry:
  assumes "\<forall>sg \<in> set (sc_sg c). within_page sg" "p \<in> set (sg_pieces 0 (sc_sg c) d)"
  shows "entry_of_piece p \<in> set (sc_sg c)" "fst p < length (sg_pieces 0 (sc_sg c) d)"
proof -
  obtain k sg off n where "p = (k, sg, off, n)" by (cases p)
  then show "entry_of_piece p \<in> set (sc_sg c)" "fst p < length (sg_pieces 0 (sc_sg c) d)"
    using piece_index [OF assms(1), of k sg off n 0 d] assms(2) by (simp_all add: entry_of_piece_def)
qed

lemma cmd_data_ok:
  assumes "cmd_ok c s"
  shows "data_ok c (claimed c i s) (out_grants s)"
proof -
  have h: "head_pages (out_grants s) (claimed c i s) = head_pages (out_grants s) s" by (rule head_pages_cong) simp
  show ?thesis
    using assms piece_entry(1) [of c] unfolding data_ok_def h
    by (auto simp: cmd_ok_def entry_ok_def within_page_def)
qed

text \<open>The entry of the id once the request is filled in.\<close>

definition sent_shadow :: "scsi_cmnd \<Rightarrow> grant list \<Rightarrow> grant list \<Rightarrow> nat \<Rightarrow> vscsifrnt_shadow \<Rightarrow> bool" where
  "sent_shadow c us is k h \<longleftrightarrow> next_free h = VSCSIIF_IN_USE \<and> act h = VSCSIIF_ACT_SCSI_CDB \<and> sc h = Some c \<and>
     nr_segments h = k \<and> (if k = 0 then shadow_direction h \<noteq> DMA_VSCSI_INDIRECT else
       shadow_direction h = mapped_direction c \<and> grants_used h = us \<and> indirect_grants h = is)"

lemma sent_in_flight:
  assumes h: "sent_shadow c us is k h" and ok: "cmd_ok c s" and room: "room_ok s"
    and k: "k = (if sc_data_direction c = DMA_NONE \<or> sc_bufflen c = 0 then 0 else scsifront_calculate_segs c)"
    and l: "length us = k" "length is = (if k \<noteq> 0 \<and> indirect_command c then 1 else 0)"
  shows "in_flight_ok s h" and "held h = mset us + mset is" and "held_tables h = mset is"
proof -
  have room128: "seg_room s \<le> 128" using room_bounds [OF room] by simp
  have kl: "k \<le> seg_room s" using ok k by (simp add: cmd_ok_def)
  have ip: "VSCSI_INDIRECT_PAGES k = 1" if "k \<noteq> 0"
  proof -
    have "k \<le> 512" "1 \<le> k" using kl room128 that by simp_all
    then have "(k + 512 - 1) div 512 = 1" by (intro div_nat_eqI) simp_all
    then show ?thesis by (simp add: VSCSI_INDIRECT_PAGES_def seg_consts)
  qed
  have d: "data_grants h = us" and t: "table_grants h = is"
    using h l ip ok by (auto simp: sent_shadow_def data_grants_def table_grants_def mapped_direction_def cmd_ok_def split: if_splits)
  have none: "us = [] \<and> is = []" if "sc_data_direction c = DMA_NONE" using that k l by simp
  have sc: "sc h = Some c" "act h = VSCSIIF_ACT_SCSI_CDB" using h by (simp_all add: sent_shadow_def)
  show "held h = mset us + mset is" "held_tables h = mset is"
    using none by (auto simp: held_def held_tables_def moves_data_def sc d t)
  have "sg_offset sg + sg_length sg \<le> SG_PAGE_SIZE \<and> j < length (grants_used h)"
    if p: "(j, sg, x, y) \<in> set (sg_pieces 0 (sc_sg c) (sc_bufflen c))" and r: "sc_data_direction c = DMA_FROM_DEVICE" for j sg x y
  proof -
    have "sc_bufflen c \<noteq> 0" using p by (cases "sc_bufflen c") auto
    then have k': "k = length (sg_pieces 0 (sc_sg c) (sc_bufflen c))"
      using k r by (simp add: scsifront_calculate_segs_def DMA_FROM_DEVICE_def DMA_NONE_def)
    then have "k \<noteq> 0" using p by auto
    then have "grants_used h = us" using h by (simp add: sent_shadow_def)
    then show ?thesis
      using piece_entry [OF _ p] ok l(1) k' by (auto simp: cmd_ok_def within_page_def entry_of_piece_def)
  qed
  moreover have "length (table_grants h) \<le> 1" using t l(2) by simp
  ultimately show "in_flight_ok s h" using sc d l(1) kl by (auto simp: in_flight_ok_def)
qed

definition cmd_of :: "vscsifrnt_shadow \<Rightarrow> scsi_cmnd multiset" where
  "cmd_of h = (case sc h of None \<Rightarrow> {#} | Some c \<Rightarrow> {#c#})"

definition flying :: "vscsifrnt_info \<Rightarrow> scsi_cmnd multiset" where
  "flying s = (\<Sum>i<nr_ids s. cmd_of (vshadow s i))"

lemma flying_upd:
  assumes "vshadow t = (vshadow s)(i := x)" "nr_ids t = nr_ids s" "i < nr_ids s"
  shows "flying t + cmd_of (vshadow s i) = flying s + cmd_of x"
  using sum_upd [OF assms(3), of cmd_of "vshadow s" x] assms(1,2) by (simp add: flying_def)

lemma cmd_of_simps [simp]: "sc h = None \<Longrightarrow> cmd_of h = {#}" "sc h = Some c \<Longrightarrow> cmd_of h = {#c#}"
  by (simp_all add: cmd_of_def)

definition all_commands :: "vscsifrnt_info \<Rightarrow> scsi_cmnd multiset" where
  "all_commands s = flying s + mset (map fst (finished s))"

text \<open>The state \<open>u\<close> after the claim of \<open>i\<close>, whatever has been mapped.\<close>

definition after_claim :: "nat \<Rightarrow> vscsifrnt_info \<Rightarrow> vscsifrnt_info \<Rightarrow> bool" where
  "after_claim i s u \<longleftrightarrow> same_setup s u \<and> (\<forall>j. j \<noteq> i \<longrightarrow> vshadow u j = vshadow s j) \<and> vshadow_free u = vnext s i \<and>
     finished u = finished s \<and> req_prod_pvt (vring u) = req_prod_pvt (vring s) + 1 \<and> rsp_cons (vring u) = rsp_cons (vring s) \<and>
     pause u = pause s"

lemma refuse_ok:
  assumes inv: "scsi_run live X n (i # fs) s" and a: "after_claim i s u"
    and g: "grants u = grants s" "indirect_pages u = indirect_pages s" "pool_gen live X n [] (out_grants s) u"
    and r: "refuse_command cnt c i u = (rc, t)"
  shows "scsi_run live X n (i # fs) t \<and> same_setup s t \<and>
    all_commands t = all_commands s + (if rc = 0 then {#c#} else {#}) \<and> (rc = 0 \<longrightarrow> finished t \<noteq> finished s)"
proof -
  let ?h = "(vshadow u i)\<lparr>next_free := vnext s i, sc := None\<rparr>"
  have c: "scsi_gen live X n (i # fs) s" and o: "outstanding (i # fs) s" using inv by (simp_all add: scsi_inv_def)
  have v: "vids (i # fs) s" using c by (simp add: scsi_core_def)
  let ?u = "(add_id_to_freelist i u)\<lparr>vring := (vring u)\<lparr>req_prod_pvt := req_prod_pvt (vring u) - 1\<rparr>\<rparr>"
  have t: "vshadow t = (vshadow s)(i := ?h)" "vshadow_free t = i" "grants t = grants s" "indirect_pages t = indirect_pages s"
    "vgnt t = vgnt u" "persistent_gnts_c t = persistent_gnts_c u" "backend_dom t = backend_dom u"
    "req_prod_pvt (vring t) = req_prod_pvt (vring s)" "rsp_cons (vring t) = rsp_cons (vring s)"
    "map fst (finished t) = map fst (finished s) @ (if rc = 0 then [c] else [])" "rc = 0 \<longleftrightarrow> cnt \<noteq> - ENOMEM"
    "f_nr_ents (vring t) = f_nr_ents (vring u)" "feature_persistent t = feature_persistent u" "seg_room t = seg_room u"
    "max_indirect_segments t = max_indirect_segments u"
    using r a g
    by (auto simp: refuse_command_def Let_def after_claim_def add_id_to_freelist_def upd_shadow_def SCSI_MLQUEUE_HOST_BUSY_def
        split: if_splits)
  have "same_setup u t" using t(7,12-15) by (simp add: same_setup_def)
  then have set': "same_setup s t" using a same_setup_trans by (auto simp: after_claim_def)
  have p: "pool_gen live X n [] (out_grants s) t" using g(3) pool_inv_cong [of t u] t g(1) by simp
  have core: "scsi_gen live X n (i # fs) t"
    by (rule core_restore [OF c set' t(1)]) (use t p in simp_all)
  have nr: "nr_ids t = nr_ids s" using set' by (simp add: same_setup_def nr_ids_def)
  have "outstanding (i # fs) t" using o t nr by (simp add: outstanding_def)
  moreover have "flying t = flying s"
    using flying_upd [OF t(1) nr] v by (simp add: vids_def)
  moreover have "rc = 0 \<longrightarrow> finished t \<noteq> finished s" using t(10) by auto
  ultimately show ?thesis using core set' t(10) by (auto simp: scsi_inv_def all_commands_def)
qed

lemma send_ok:
  assumes inv: "scsi_run live X n (i # fs) s" and a: "after_claim i s u" and ok: "cmd_ok c s"
    and h: "sent_shadow c us is k ((vshadow u i)\<lparr>nr_segments := k\<rparr>)"
    and k: "k = (if sc_data_direction c = DMA_NONE \<or> sc_bufflen c = 0 then 0 else scsifront_calculate_segs c)"
    and l: "length us = k" "length is = (if k \<noteq> 0 \<and> indirect_command c then 1 else 0)"
    and pool: "pool_gen live X n' [] (mset us + mset is + out_grants s) u" "\<not> feature_persistent s \<longrightarrow> n' = 0"
      "length (grants u) + (length us + length is) = length (grants s)"
    and fp: "feature_persistent s \<longrightarrow> head_pages (mset us + mset is + out_grants s) u = head_pages (out_grants s) s"
    and np: "mset (indirect_pages u) + (if feature_persistent s then {#} else image_mset gr_pfn (mset is)) = mset (indirect_pages s)"
    and t: "t = send_command q (int k) i u"
  shows "scsi_run live X n' fs t \<and> same_setup s t \<and> all_commands t = all_commands s + {#c#}"
proof -
  let ?h = "(vshadow u i)\<lparr>nr_segments := k\<rparr>"
  have c: "scsi_gen live X n (i # fs) s" and o: "outstanding (i # fs) s" using inv by (simp_all add: scsi_inv_def)
  have v: "vids (i # fs) s" using c by (simp add: scsi_core_def)
  have room: "room_ok s" using c by (simp add: scsi_core_def)
  note sf = sent_in_flight [OF h ok room k l]
  have tt: "vshadow t = (vshadow s)(i := ?h)" "vshadow_free t = vnext s i" "grants t = grants u"
    "indirect_pages t = indirect_pages u" "finished t = finished s" 
    "req_prod_pvt (vring t) = req_prod_pvt (vring s) + 1" "rsp_cons (vring t) = rsp_cons (vring s)"
    using a by (auto simp: t send_command_def after_claim_def fill_request_def upd_shadow_def)
  have pt: "pool_gen live X n' [] A t = pool_gen live X n' [] A u" for A
    by (rule pool_inv_cong) (simp_all add: t send_command_def fill_request_def upd_shadow_def)
  have set: "same_setup s t"
    using a by (simp add: t send_command_def after_claim_def fill_request_def upd_shadow_def same_setup_def)
  have np': "mset (indirect_pages t) + (if feature_persistent s then {#} else image_mset gr_pfn (held_tables ?h)) = mset (indirect_pages s)"
    using np unfolding sf(3) tt(4) .
  have core: "scsi_gen live X n' fs t"
    by (rule core_claim [OF c set tt(1) _ _ _ _ _ _ _ np'])
      (use h sf tt pt pool fp in \<open>simp_all add: sent_shadow_def head_pages_def\<close>)
  have nr: "nr_ids t = nr_ids s" using set by (simp add: same_setup_def nr_ids_def)
  have lf: "Suc (length fs) \<le> nr_ids s" using free_le [OF v] by simp
  have "req_prod_pvt (vring t) - rsp_cons (vring t) = of_nat (nr_ids s - Suc (length fs)) + 1"
    using o by (simp add: tt outstanding_def)
  also have "\<dots> = (of_nat (Suc (nr_ids s - Suc (length fs))) :: u32)" by simp
  also have "Suc (nr_ids s - Suc (length fs)) = nr_ids s - length fs" using lf by simp
  finally have "outstanding fs t" by (simp add: outstanding_def nr)
  moreover have "flying t = flying s + {#c#}"
    using flying_upd [OF tt(1) nr] v h by (simp add: vids_def sent_shadow_def)
  ultimately show ?thesis using core set tt(5) by (simp add: scsi_inv_def all_commands_def)
qed

definition command_sent :: "bool \<Rightarrow> grant multiset \<Rightarrow> scsi_cmnd \<Rightarrow> nat \<Rightarrow> nat \<Rightarrow> vscsifrnt_info \<Rightarrow> vscsifrnt_info \<Rightarrow> bool" where
  "command_sent live X c i n s t \<longleftrightarrow>
     (if sc_data_direction c = DMA_NONE \<or> sc_bufflen c = 0
      then t = send_command (command_request c i (sc_data_direction c) (VRw [])) 0 i (claimed c i s)
      else \<exists>m u. mapping_done live X n (out_grants s) c i (claimed c i s) m u \<and>
        t = send_command (command_request c i (mapped_direction c) (mapped_body c m)) (int (scsifront_calculate_segs c)) i u)"

lemma same_core_inv:
  assumes "same_core s t" "req_prod_pvt (vring t) = req_prod_pvt (vring s)" "rsp_cons (vring t) = rsp_cons (vring s)"
    "finished t = finished s"
  shows "scsi_run live X n fs t = scsi_run live X n fs s" "all_commands t = all_commands s"
proof -
  have nr: "nr_ids t = nr_ids s" using assms(1) by (simp add: same_core_def same_setup_def nr_ids_def)
  show "scsi_run live X n fs t = scsi_run live X n fs s"
    using assms same_core_core [OF assms(1)] by (simp add: scsi_inv_def outstanding_def nr)
  show "all_commands t = all_commands s"
    using assms(1,4) by (simp add: all_commands_def flying_def nr same_core_def)
qed

lemma claimed_after: "after_claim i s (claimed c i s)"
  by (simp add: after_claim_def) (simp add: claimed_def)

lemma mapping_done_after:
  assumes "mapping_done live X n A c i (claimed c i s) m u"
  shows "after_claim i s u"
    and "vshadow u i = (vshadow s i)\<lparr>next_free := VSCSIIF_IN_USE, wait_reset := False, sc := Some c,
       act := VSCSIIF_ACT_SCSI_CDB, shadow_direction := mapped_direction c, grants_used := mp_used m, indirect_grants := mp_indirect m\<rparr>"
proof -
  have f: "map_frame (claimed c i s) (u\<lparr>vshadow := vshadow (claimed c i s)\<rparr>)"
    and v: "vshadow u = (vshadow (claimed c i s))(i := (vshadow (claimed c i s) i)\<lparr>shadow_direction := mapped_direction c,
           grants_used := mp_used m, indirect_grants := mp_indirect m\<rparr>)"
    using assms by (simp_all add: mapping_done_def)
  note ff = map_frame_fields [OF f, simplified]
  have "same_setup s u" using ff by (simp add: same_setup_def) (simp add: claimed_def)
  then show "after_claim i s u"
    using ff v by (simp add: after_claim_def) (simp add: claimed_def)
  show "vshadow u i = (vshadow s i)\<lparr>next_free := VSCSIIF_IN_USE, wait_reset := False, sc := Some c,
       act := VSCSIIF_ACT_SCSI_CDB, shadow_direction := mapped_direction c, grants_used := mp_used m, indirect_grants := mp_indirect m\<rparr>"
    unfolding v by (simp add: claimed_def)
qed

lemma queue_ok:
  assumes inv: "scsi_run live X n fs s" and cok: "cmd_ok c s" and xen: "\<forall>i. add_to_physmap (sgenv e) i = 0"
  obtains (refused) rc t where "scsifront_queuecommand e c s = Some (rc, t)" "scsi_run live X n fs t" "same_setup s t"
      "all_commands t = all_commands s + (if rc = 0 then {#c#} else {#})" "rc = 0 \<longrightarrow> finished t \<noteq> finished s"
  | (sent) t n' i fs' where "scsifront_queuecommand e c s = Some (0, t)" "fs = i # fs'" "scsi_run live X n' fs' t" "same_setup s t"
      "all_commands t = all_commands s + {#c#}" "command_sent live X c i n' s t"
proof (cases "pause s \<or> RING_FULL (vring s)")
  case True
  have "\<exists>t. scsifront_queuecommand e c s = Some (SCSI_MLQUEUE_HOST_BUSY, t) \<and> same_core s t \<and>
      req_prod_pvt (vring t) = req_prod_pvt (vring s) \<and> rsp_cons (vring t) = rsp_cons (vring s) \<and> finished t = finished s"
  proof (cases "pause s")
    case True
    then show ?thesis
      by (intro exI [of _ s]) (simp add: scsifront_queuecommand_def scsifront_enter_def same_core_def same_setup_def)
  next
    case False
    then show ?thesis
      using True by (intro exI [of _ "scsifront_return (s\<lparr>callers := callers s + 1\<rparr>)"])
        (simp add: scsifront_queuecommand_def scsifront_enter_def same_core_def same_setup_def)
  qed
  then obtain t where t: "scsifront_queuecommand e c s = Some (SCSI_MLQUEUE_HOST_BUSY, t)" "same_core s t"
    "req_prod_pvt (vring t) = req_prod_pvt (vring s)" "rsp_cons (vring t) = rsp_cons (vring s)" "finished t = finished s"
    by blast
  show ?thesis
    by (rule refused [OF t(1)])
      (use same_core_inv [OF t(2-5)] inv t(2) in \<open>simp_all add: same_core_def SCSI_MLQUEUE_HOST_BUSY_def\<close>)
next
  case False
  then obtain i fs' where fs: "fs = i # fs'" using ring_full_ids [OF inv] by (cases fs) auto
  have inv': "scsi_run live X n (i # fs') s" using inv fs by simp
  then have core: "scsi_gen live X n (i # fs') s" by (simp add: scsi_inv_def)
  then have v: "vids (i # fs') s" and np: "\<not> feature_persistent s \<longrightarrow> n = 0" and pool: "pool_gen live X n [] (out_grants s) s"
    by (simp_all add: scsi_core_def)
  have cl: "sc_cmd_len c \<le> VSCSIIF_MAX_COMMAND_SIZE" using cok by (simp add: cmd_ok_def)
  have run: "scsifront_queuecommand e c s =
    map_option (\<lambda>(cnt, dir, b, u). if cnt < 0 then refuse_command cnt c i u
                                   else (0, send_command (command_request c i dir b) cnt i u))
      (map_data_for_request e c i (claimed c i s))"
    using False cl by (intro queue_run [OF _ _ v]) simp_all
  have refusal: thesis if map: "map_data_for_request e c i (claimed c i s) = Some (cnt, dir, b, u)" "cnt < 0"
    and a: "after_claim i s u" "grants u = grants s" "indirect_pages u = indirect_pages s" "pool_gen live X n [] (out_grants s) u"
    for cnt dir b u
  proof -
    obtain rc t where rt: "refuse_command cnt c i u = (rc, t)" by (cases "refuse_command cnt c i u")
    show thesis
      by (rule refused [of rc t]) (use refuse_ok [OF inv' a rt] map run rt fs in simp_all)
  qed
  show ?thesis
  proof (cases "sc_data_direction c = DMA_NONE \<or> sc_bufflen c = 0")
    case True
    have map: "map_data_for_request e c i (claimed c i s) = Some (0, sc_data_direction c, VRw [], claimed c i s)"
      by (rule map_data_none [OF True])
    let ?t = "send_command (command_request c i (sc_data_direction c) (VRw [])) (int 0) i (claimed c i s)"
    have p: "pool_gen live X n [] A (claimed c i s) = pool_gen live X n [] A s" for A by (rule pool_inv_cong) simp_all
    have "scsi_run live X n fs' ?t \<and> same_setup s ?t \<and> all_commands ?t = all_commands s + {#c#}"
      by (rule send_ok [OF inv' claimed_after [of i s c] cok, of "[]" "[]" 0])
        (use True np pool cok in \<open>simp_all add: p sent_shadow_def head_pages_def\<close>, simp_all add: claimed_def cmd_ok_def)
    then show ?thesis using run map fs True by (intro sent [of ?t i fs' n]) (simp_all add: command_sent_def)
  next
    case False
    then have d: "sc_data_direction c \<noteq> DMA_NONE" "sc_bufflen c \<noteq> 0" by simp_all
    show ?thesis
    proof (cases rule: map_data_ok [OF claimed_ready [OF core, of c] cmd_data_ok [OF cok] xen d, where i = i, case_names busy big ok])
      case (busy g)
      show ?thesis
        by (rule refusal [OF busy(1)]) (use claimed_after [of i s c] busy(2) in
            \<open>simp_all add: after_claim_def same_setup_def pool_inv_def\<close>)
    next
      case (big g b)
      show ?thesis
        by (rule refusal [OF big(1)]) (use claimed_after [of i s c] big(2) in
            \<open>simp_all add: after_claim_def same_setup_def pool_inv_def upd_shadow_def\<close>)
    next
      case (ok m u n')
      note md = ok(2)
      have len: "length (mp_used m) = scsifront_calculate_segs c"
        using md by (simp add: mapping_done_def data_placed_def scsifront_calculate_segs_def)
      have ne: "indirect_command c \<Longrightarrow> scsifront_calculate_segs c \<noteq> 0" by (simp add: indirect_command_def)
      have li: "length (mp_indirect m) = (if scsifront_calculate_segs c \<noteq> 0 \<and> indirect_command c then 1 else 0)"
        using md ne by (auto simp: mapping_done_def segs_written_def scsifront_calculate_segs_def split: if_splits)
      have lg: "length (grants u) = length (grants s) - length (mp_used m) - length (mp_indirect m)"
        using md by (simp add: mapping_done_def)
      have lr: "length (mp_used m) + length (mp_indirect m) \<le> length (grants s)"
      proof -
        have "seg_room s + 1 \<le> length (grants s)" using core_room(1) [OF core] by simp
        moreover have "length (mp_used m) \<le> seg_room s" using len cok by (simp add: cmd_ok_def)
        moreover have "length (mp_indirect m) \<le> 1" using li by simp
        ultimately show ?thesis by linarith
      qed
      have h: "sent_shadow c (mp_used m) (mp_indirect m) (scsifront_calculate_segs c)
          ((vshadow u i)\<lparr>nr_segments := scsifront_calculate_segs c\<rparr>)"
        using cok mapping_done_after(2) [OF md]
        by (simp add: sent_shadow_def mapped_direction_def indirect_command_def cmd_ok_def)
      let ?t = "send_command (command_request c i (mapped_direction c) (mapped_body c m)) (int (scsifront_calculate_segs c)) i u"
      have "scsi_run live X n' fs' ?t \<and> same_setup s ?t \<and> all_commands ?t = all_commands s + {#c#}"
        by (rule send_ok [OF inv' mapping_done_after(1) [OF md] cok h _ len li])
          (use d md lg lr in \<open>simp_all add: mapping_done_def head_pages_def\<close>)
      then show ?thesis
        using run ok fs d by (intro sent [of ?t i fs' n']) (auto simp: command_sent_def)
    qed
  qed
qed

lemma queue_setup:
  assumes inv: "scsi_run live X n fs s" and cok: "cmd_ok c s" and xen: "\<forall>i. add_to_physmap (sgenv e) i = 0"
    and run: "scsifront_queuecommand e c s = Some (rc, t)"
  shows "same_setup s t"
  by (cases rule: queue_ok [OF inv cok xen, case_names refused sent]) (use run in simp_all)

section \<open>Answers\<close>

text \<open>The backend of a device without persistent grants has unmapped what it answers for.\<close>

definition quiet :: "grant list \<Rightarrow> vscsifrnt_info \<Rightarrow> bool" where
  "quiet gs s \<longleftrightarrow> feature_persistent s \<or> (\<forall>g \<in> set gs. gnttab_query_foreign_access (gr_gref g) (vgnt s) = 0)"

lemma query_shared:
  "shared g r = shared h r \<Longrightarrow> gnttab_query_foreign_access r g = gnttab_query_foreign_access r h"
  by (simp add: gnttab_query_foreign_access_def)

lemma pool_apart:
  assumes "pool_gen live X n [] (add_mset g A) s" "h \<in># A"
  shows "gr_gref h \<noteq> gr_gref g"
proof
  assume e: "gr_gref h = gr_gref g"
  obtain B where A: "A = add_mset h B" using assms(2) by (metis multi_member_split)
  have gr: "granted g" "granted h" using assms by (simp_all add: pool_inv_def A)
  have "refs_apart (refs_of (mset (grants s) + add_mset g (A + X)) + mset (gnt_free (vgnt s))) (vgnt s)"
    using assms(1) by (simp add: pool_inv_def gr)
  then have "count (refs_of (mset (grants s) + add_mset g (A + X)) + mset (gnt_free (vgnt s))) (gr_gref g) \<le> 1"
    unfolding refs_apart_def by blast
  moreover have "2 \<le> count (refs_of (mset (grants s) + add_mset g (A + X)) + mset (gnt_free (vgnt s))) (gr_gref g)"
    using gr e by (simp add: A)
  ultimately show False by linarith
qed

lemma put_grants_ok:
  assumes "pool_gen live X n [] (mset gs + A) s" "quiet gs s" "\<not> feature_persistent s \<longrightarrow> n = 0"
  shows "\<exists>t n'. put_grants e strict gs s = Some t \<and> pool_gen live X n' [] A t \<and> pool_frame s t \<and>
    (\<not> feature_persistent s \<longrightarrow> n' = 0) \<and>
    (\<forall>x. x \<notin> gr_gref ` set gs \<longrightarrow> shared (vgnt t) x = shared (vgnt s) x) \<and>
    image_mset gr_pfn (mset (grants t)) = image_mset gr_pfn (mset gs) + image_mset gr_pfn (mset (grants s)) \<and>
    mset (indirect_pages t) = (if strict \<or> feature_persistent s then {#} else image_mset gr_pfn (mset gs)) + mset (indirect_pages s)"
  using assms
proof (induction gs arbitrary: n s)
  case Nil
  then show ?case by (intro exI [of _ s] exI [of _ n]) (simp add: pool_frame_refl)
next
  case (Cons g gs)
  have inv: "pool_gen live X n [] (add_mset g (mset gs + A)) s" using Cons.prems(1) by simp
  have q: "feature_persistent s \<or> gnttab_query_foreign_access (gr_gref g) (vgnt s) = 0"
    using Cons.prems(2) by (auto simp: quiet_def)
  obtain u k where u: "put_grant e strict g s = Some u" "pool_gen live X k [] (mset gs + A) u" "pool_frame s u"
    "k = n \<or> k = n + 1 \<and> feature_persistent s" "\<forall>x. x \<noteq> gr_gref g \<longrightarrow> shared (vgnt u) x = shared (vgnt s) x"
    "image_mset gr_pfn (mset (grants u)) = add_mset (gr_pfn g) (image_mset gr_pfn (mset (grants s)))"
    "indirect_pages u = (if strict \<or> feature_persistent s then indirect_pages s else gr_pfn g # indirect_pages s)"
    using put_grant_ok [OF inv q, of e strict] by blast
  have fp: "feature_persistent u = feature_persistent s"
    using u(3) unfolding pool_frame_def by (cases s; cases u) simp
  have "gnttab_query_foreign_access (gr_gref h) (vgnt u) = 0" if "h \<in> set gs" "\<not> feature_persistent s" for h
  proof -
    have "gr_gref h \<noteq> gr_gref g" using pool_apart [OF inv] that(1) by simp
    then have "shared (vgnt u) (gr_gref h) = shared (vgnt s) (gr_gref h)" using u(5) by blast
    from query_shared [OF this] show ?thesis using Cons.prems(2) that by (simp add: quiet_def)
  qed
  then have qu: "quiet gs u" by (auto simp: quiet_def fp)
  have k0: "\<not> feature_persistent u \<longrightarrow> k = 0" using u(4) Cons.prems(3) fp by auto
  obtain t n' where t: "put_grants e strict gs u = Some t" "pool_gen live X n' [] A t" "pool_frame u t" "\<not> feature_persistent u \<longrightarrow> n' = 0"
    "\<forall>x. x \<notin> gr_gref ` set gs \<longrightarrow> shared (vgnt t) x = shared (vgnt u) x"
    "image_mset gr_pfn (mset (grants t)) = image_mset gr_pfn (mset gs) + image_mset gr_pfn (mset (grants u))"
    "mset (indirect_pages t) = (if strict \<or> feature_persistent u then {#} else image_mset gr_pfn (mset gs)) + mset (indirect_pages u)"
    using Cons.IH [OF u(2) qu k0] by blast
  show ?case
    using u t fp pool_frame_trans [OF u(3) t(3)] by (intro exI [of _ t] exI [of _ n']) simp
qed

lemma pool_frame_fields:
  "pool_frame s t \<Longrightarrow> feature_persistent t = feature_persistent s" "pool_frame s t \<Longrightarrow> vshadow t = vshadow s"
  "pool_frame s t \<Longrightarrow> vshadow_free t = vshadow_free s" "pool_frame s t \<Longrightarrow> vring t = vring s"
  "pool_frame s t \<Longrightarrow> vsring t = vsring s" "pool_frame s t \<Longrightarrow> finished t = finished s" "pool_frame s t \<Longrightarrow> vmem t = vmem s"
  "pool_frame s t \<Longrightarrow> same_setup s t"
  unfolding pool_frame_def same_setup_def by (cases s; cases t; simp)+

lemma copy_back_ok:
  "\<forall>(i, sg, _, _) \<in> set ps. sg_offset sg + sg_length sg \<le> SG_PAGE_SIZE \<and> i < length gs \<Longrightarrow> \<exists>m'. copy_back ps gs m = Some m'"
  by (induction ps arbitrary: m) auto

definition quiet_id :: "vscsifrnt_info \<Rightarrow> nat \<Rightarrow> bool" where
  "quiet_id s i \<longleftrightarrow> (moves_data (vshadow s i) \<longrightarrow> quiet (data_grants (vshadow s i) @ table_grants (vshadow s i)) s)"

lemma gnttab_done_moves:
  assumes "sc (vshadow s i) = Some c" "moves_data (vshadow s i)"
  shows "scsifront_gnttab_done e i c s = do {
      m \<leftarrow> (if sc_data_direction c = DMA_FROM_DEVICE \<and> feature_persistent s
            then copy_back (sg_pieces 0 (sc_sg c) (sc_bufflen c)) (grants_used (vshadow s i)) (vmem s) else Some (vmem s));
      s' \<leftarrow> put_grants e True (data_grants (vshadow s i)) (s\<lparr>vmem := m\<rparr>);
      put_grants e False (table_grants (vshadow s i)) s'
    }"
  using assms
  by (cases "shadow_direction (vshadow s i) = DMA_VSCSI_INDIRECT")
    (simp_all add: scsifront_gnttab_done_def moves_data_def data_grants_def table_grants_def Let_def cong: if_cong)

definition done_frame :: "vscsifrnt_info \<Rightarrow> vscsifrnt_info \<Rightarrow> bool" where
  "done_frame s t \<longleftrightarrow> pool_frame (s\<lparr>vmem := vmem t\<rparr>) t"

lemma done_frame_fields:
  assumes "done_frame s t"
  shows "vshadow t = vshadow s" "vshadow_free t = vshadow_free s" "vring t = vring s" "vsring t = vsring s"
    "finished t = finished s" "same_setup s t" "feature_persistent t = feature_persistent s"
  using pool_frame_fields [OF assms [unfolded done_frame_def]] by (simp_all add: same_setup_def)

lemma gnttab_done_ok:
  assumes c: "sc (vshadow s i) = Some c" and fl: "in_flight_ok s (vshadow s i)"
    and pool: "pool_gen live X n [] (held (vshadow s i) + A) s" "\<not> feature_persistent s \<longrightarrow> n = 0" and q: "quiet_id s i"
  shows "\<exists>t n'. scsifront_gnttab_done e i c s = Some t \<and> pool_gen live X n' [] A t \<and> done_frame s t \<and>
    (\<not> feature_persistent s \<longrightarrow> n' = 0) \<and>
    (\<forall>x. x \<notin> gr_gref ` set_mset (held (vshadow s i)) \<longrightarrow> shared (vgnt t) x = shared (vgnt s) x) \<and>
    image_mset gr_pfn (mset (grants t)) = image_mset gr_pfn (held (vshadow s i)) + image_mset gr_pfn (mset (grants s)) \<and>
    mset (indirect_pages t) = (if feature_persistent s then {#} else image_mset gr_pfn (held_tables (vshadow s i))) + mset (indirect_pages s)"
proof (cases "moves_data (vshadow s i)")
  case False
  then have "scsifront_gnttab_done e i c s = Some s" using c by (simp add: scsifront_gnttab_done_def moves_data_def)
  then show ?thesis using False pool
    by (intro exI [of _ s] exI [of _ n]) (simp add: held_def held_tables_def done_frame_def pool_frame_refl)
next
  case True
  let ?h = "vshadow s i"
  have h: "held ?h = mset (data_grants ?h) + mset (table_grants ?h)" "held_tables ?h = mset (table_grants ?h)"
    using True by (simp_all add: held_def held_tables_def)
  obtain m where m: "(if sc_data_direction c = DMA_FROM_DEVICE \<and> feature_persistent s
      then copy_back (sg_pieces 0 (sc_sg c) (sc_bufflen c)) (grants_used ?h) (vmem s) else Some (vmem s)) = Some m"
  proof (cases "sc_data_direction c = DMA_FROM_DEVICE \<and> feature_persistent s")
    case True
    then have "\<exists>m. copy_back (sg_pieces 0 (sc_sg c) (sc_bufflen c)) (grants_used ?h) (vmem s) = Some m"
      using fl c by (intro copy_back_ok) (auto simp: in_flight_ok_def)
    then show ?thesis using True that by auto
  next
    case False
    then show ?thesis using that [of "vmem s"] by (simp only: if_False)
  qed
  let ?s = "s\<lparr>vmem := m\<rparr>"
  have p1: "pool_gen live X n [] (mset (data_grants ?h) + (mset (table_grants ?h) + A)) ?s"
    using pool(1) by (simp add: h add.assoc)
  have q1: "quiet (data_grants ?h) ?s" and q2: "quiet (table_grants ?h) s"
    using q True by (auto simp: quiet_id_def quiet_def)
  have np1: "\<not> feature_persistent ?s \<longrightarrow> n = 0" using pool(2) by simp
  obtain u k where u: "put_grants e True (data_grants ?h) ?s = Some u" "pool_gen live X k [] (mset (table_grants ?h) + A) u"
    "pool_frame ?s u" "\<not> feature_persistent ?s \<longrightarrow> k = 0"
    "\<forall>x. x \<notin> gr_gref ` set (data_grants ?h) \<longrightarrow> shared (vgnt u) x = shared (vgnt ?s) x"
    "image_mset gr_pfn (mset (grants u)) = image_mset gr_pfn (mset (data_grants ?h)) + image_mset gr_pfn (mset (grants ?s))"
    "mset (indirect_pages u) = (if True \<or> feature_persistent ?s then {#} else image_mset gr_pfn (mset (data_grants ?h))) +
      mset (indirect_pages ?s)"
    using put_grants_ok [OF p1 q1 np1, of e True] by blast
  have fp: "feature_persistent u = feature_persistent s" using pool_frame_fields(1) [OF u(3)] by simp
  have ap: "gr_gref y \<noteq> gr_gref x" if "x \<in> set (data_grants ?h)" "y \<in> set (table_grants ?h)" for x y
  proof -
    have "x \<in># mset (data_grants ?h)" using that(1) by simp
    then obtain B where B: "mset (data_grants ?h) = add_mset x B" by (rule multi_member_split [THEN exE])
    have "pool_gen live X n [] (add_mset x (B + mset (table_grants ?h) + A)) ?s" using p1 unfolding B by (simp add: add.assoc)
    from pool_apart [OF this, of y] show ?thesis using that(2) by simp
  qed
  have q2': "quiet (table_grants ?h) u"
  proof -
    have "gnttab_query_foreign_access (gr_gref y) (vgnt u) = gnttab_query_foreign_access (gr_gref y) (vgnt s)"
      if "y \<in> set (table_grants ?h)" for y
    proof (rule query_shared)
      have "gr_gref y \<notin> gr_gref ` set (data_grants ?h)" using ap [OF _ that] by fastforce
      then show "shared (vgnt u) (gr_gref y) = shared (vgnt s) (gr_gref y)" using u(5) by simp
    qed
    then show ?thesis using q2 fp by (simp add: quiet_def)
  qed
  have np2: "\<not> feature_persistent u \<longrightarrow> k = 0" using u(4) fp by simp
  obtain t n' where t: "put_grants e False (table_grants ?h) u = Some t" "pool_gen live X n' [] A t"
    "pool_frame u t" "\<not> feature_persistent u \<longrightarrow> n' = 0"
    "\<forall>x. x \<notin> gr_gref ` set (table_grants ?h) \<longrightarrow> shared (vgnt t) x = shared (vgnt u) x"
    "image_mset gr_pfn (mset (grants t)) = image_mset gr_pfn (mset (table_grants ?h)) + image_mset gr_pfn (mset (grants u))"
    "mset (indirect_pages t) = (if False \<or> feature_persistent u then {#} else image_mset gr_pfn (mset (table_grants ?h))) +
      mset (indirect_pages u)"
    using put_grants_ok [OF u(2) q2' np2, of e False] by blast
  have fr: "done_frame s t"
  proof -
    have "pool_frame ?s t" by (rule pool_frame_trans [OF u(3) t(3)])
    then show ?thesis using pool_frame_fields(7) by (simp add: done_frame_def)
  qed
  have "scsifront_gnttab_done e i c s = Some t"
    by (simp add: gnttab_done_moves [OF c True] m u(1) t(1))
  moreover have "shared (vgnt t) x = shared (vgnt s) x" if "x \<notin> gr_gref ` set_mset (held ?h)" for x
    using that t(5) u(5) by (simp add: h image_Un)
  ultimately show ?thesis
    using t(2,4,6,7) u(6,7) fr fp by (intro exI [of _ t] exI [of _ n']) (simp add: h ac_simps)
qed

lemma out_split:
  assumes "i < nr_ids s"
  obtains A where "out_grants s = held (vshadow s i) + A"
    "\<And>j. j < nr_ids s \<Longrightarrow> j \<noteq> i \<Longrightarrow> set_mset (held (vshadow s j)) \<subseteq> set_mset A"
proof
  let ?A = "\<Sum>j\<in>{..<nr_ids s} - {i}. held (vshadow s j)"
  show "out_grants s = held (vshadow s i) + ?A"
    unfolding out_grants_def using assms by (subst sum.remove [of _ i]) auto
  fix j assume "j < nr_ids s" "j \<noteq> i"
  then have "?A = held (vshadow s j) + (\<Sum>k\<in>{..<nr_ids s} - {i} - {j}. held (vshadow s k))"
    by (subst sum.remove [of _ j]) auto
  then show "set_mset (held (vshadow s j)) \<subseteq> set_mset ?A" by simp
qed

lemma quiet_id_other:
  assumes q: "quiet_id s j" and sh: "vshadow t j = vshadow s j" "feature_persistent t = feature_persistent s"
    and keep: "\<forall>x. x \<notin> gr_gref ` B \<longrightarrow> shared (vgnt t) x = shared (vgnt s) x"
    and ap: "\<And>g b. g \<in># held (vshadow s j) \<Longrightarrow> b \<in> B \<Longrightarrow> gr_gref g \<noteq> gr_gref b"
  shows "quiet_id t j"
proof (cases "moves_data (vshadow s j)")
  case True
  let ?gs = "data_grants (vshadow s j) @ table_grants (vshadow s j)"
  have "gnttab_query_foreign_access (gr_gref g) (vgnt t) = gnttab_query_foreign_access (gr_gref g) (vgnt s)" if "g \<in> set ?gs" for g
  proof (rule query_shared)
    have "g \<in># held (vshadow s j)" using that True by (auto simp: held_def)
    then have "gr_gref g \<notin> gr_gref ` B" using ap by fastforce
    then show "shared (vgnt t) (gr_gref g) = shared (vgnt s) (gr_gref g)" using keep by simp
  qed
  then show ?thesis using q True by (auto simp: quiet_id_def quiet_def sh)
qed (simp add: quiet_id_def sh)

text \<open>The pages of the pool and of the commands in flight stay what they are together.\<close>

definition same_pages :: "vscsifrnt_info \<Rightarrow> vscsifrnt_info \<Rightarrow> bool" where
  "same_pages s t \<longleftrightarrow> head_pages (out_grants t) t = head_pages (out_grants s) s \<and>
     (\<not> feature_persistent s \<longrightarrow> mset (indirect_pages t) + image_mset gr_pfn (out_tables t) =
        mset (indirect_pages s) + image_mset gr_pfn (out_tables s))"

lemma same_pages_trans:
  "same_pages s t \<Longrightarrow> same_pages t u \<Longrightarrow> feature_persistent t = feature_persistent s \<Longrightarrow> same_pages s u"
  by (simp add: same_pages_def)

lemma response_ok:
  assumes core: "scsi_gen live X n fs s" and i: "i = unat (rs_rqid p)" "i < nr_ids s" "i \<notin> set fs" and q: "quiet_id s i"
  shows "\<exists>t n'. scsifront_do_response e p s = Some t \<and> scsi_gen live X n' (i # fs) t \<and> same_setup s t \<and>
    vring t = vring s \<and> vsring t = vsring s \<and> all_commands t = all_commands s \<and> same_pages s t \<and>
    (\<forall>j. j < nr_ids s \<longrightarrow> j \<noteq> i \<longrightarrow> quiet_id s j \<longrightarrow> quiet_id t j)"
proof -
  have fl: "in_flight_ok s (vshadow s i)" and v: "vids fs s" and np: "\<not> feature_persistent s \<longrightarrow> n = 0"
    and pool: "pool_gen live X n [] (out_grants s) s"
    using core i(2,3) by (simp_all add: scsi_core_def)
  obtain c where c: "sc (vshadow s i) = Some c" and act: "act (vshadow s i) = VSCSIIF_ACT_SCSI_CDB"
    using fl by (auto simp: in_flight_ok_def)
  have lt: "i < VSCSIIF_MAX_REQS" using v i(2) by (simp add: vids_def)
  obtain A where A: "out_grants s = held (vshadow s i) + A"
    "\<And>j. j < nr_ids s \<Longrightarrow> j \<noteq> i \<Longrightarrow> set_mset (held (vshadow s j)) \<subseteq> set_mset A"
    using out_split [OF i(2)] by blast
  have pA: "pool_gen live X n [] (held (vshadow s i) + A) s" using pool A(1) by (simp add: add.assoc)
  obtain u n' where u: "scsifront_gnttab_done e i c s = Some u" "pool_gen live X n' [] A u" "done_frame s u"
    "\<not> feature_persistent s \<longrightarrow> n' = 0"
    "\<forall>x. x \<notin> gr_gref ` set_mset (held (vshadow s i)) \<longrightarrow> shared (vgnt u) x = shared (vgnt s) x"
    "image_mset gr_pfn (mset (grants u)) = image_mset gr_pfn (held (vshadow s i)) + image_mset gr_pfn (mset (grants s))"
    "mset (indirect_pages u) = (if feature_persistent s then {#} else image_mset gr_pfn (held_tables (vshadow s i))) + mset (indirect_pages s)"
    using gnttab_done_ok [OF c fl pA np q, of e] by blast
  note uf = done_frame_fields [OF u(3)]
  let ?f = "(c, rs_rslt p, rs_residual_len p, take (min VSCSIIF_SENSE_BUFFERSIZE (unat (rs_sense_len p))) (rs_sense_buffer p))"
  let ?t = "(add_id_to_freelist i u)\<lparr>finished := finished u @ [?f]\<rparr>"
  let ?h = "(vshadow s i)\<lparr>next_free := vshadow_free s, sc := None\<rparr>"
  have run: "scsifront_do_response e p s = Some ?t"
    using lt act c u(1) by (simp add: scsifront_do_response_def scsifront_cdb_cmd_done_def i(1) [symmetric] Let_def)
  have t: "vshadow ?t = (vshadow s)(i := ?h)" "vshadow_free ?t = i" "vring ?t = vring s" "vsring ?t = vsring s"
    "grants ?t = grants u" "indirect_pages ?t = indirect_pages u" "vgnt ?t = vgnt u" "persistent_gnts_c ?t = persistent_gnts_c u"
    "backend_dom ?t = backend_dom u" "feature_persistent ?t = feature_persistent s"
    using uf by (simp_all add: add_id_to_freelist_def upd_shadow_def)
  have set: "same_setup s ?t" using uf(6) by (simp add: same_setup_def add_id_to_freelist_def upd_shadow_def)
  have p': "pool_gen live X n' [] A ?t" using u(2) pool_inv_cong [of ?t u] t by simp
  have lg: "length (grants u) = length (grants s) + size (held (vshadow s i))"
    using arg_cong [OF u(6), of size] by simp
  have "head_pages A ?t = head_pages (out_grants s) s"
    unfolding head_pages_def t(5) A(1) image_mset_union u(6) by (simp add: ac_simps)
  then have core': "scsi_gen live X n' (i # fs) ?t"
    by (intro core_release [OF core set i(2,3) t(1) _ _ _ p'])
      (use u(4,7) t lg A(1) in \<open>simp_all add: ac_simps\<close>)
  have pages: "same_pages s ?t"
  proof -
    have o: "out_grants ?t + held (vshadow s i) = out_grants s" "out_tables ?t + held_tables (vshadow s i) = out_tables s"
      using out_upd [OF t(1,3) i(2)] by simp_all
    show ?thesis
      using u(6,7) unfolding same_pages_def head_pages_def t(5,6) o [symmetric] by (simp add: ac_simps)
  qed
  have nr: "nr_ids ?t = nr_ids s" using t(3) by (simp add: nr_ids_def)
  have "flying ?t + {#c#} = flying s" using flying_upd [OF t(1) nr i(2)] c by simp
  then have "all_commands ?t = all_commands s"
    using uf(5) by (auto simp: all_commands_def)
  moreover have "quiet_id ?t j" if j: "j < nr_ids s" "j \<noteq> i" "quiet_id s j" for j
  proof (rule quiet_id_other [OF j(3), of ?t "set_mset (held (vshadow s i))"])
    show "vshadow ?t j = vshadow s j" unfolding t(1) using j(2) by simp
    show "\<forall>x. x \<notin> gr_gref ` set_mset (held (vshadow s i)) \<longrightarrow> shared (vgnt ?t) x = shared (vgnt s) x"
      using u(5) t(7) by simp
    show "gr_gref g \<noteq> gr_gref b" if g: "g \<in># held (vshadow s j)" and b: "b \<in> set_mset (held (vshadow s i))" for g b
    proof -
      obtain B where B: "held (vshadow s i) = add_mset b B" using b by (meson multi_member_split)
      have "pool_gen live X n [] (add_mset b (B + A)) s" using pA unfolding B by simp
      moreover have "g \<in># B + A" using A(2) [OF j(1,2)] g by auto
      ultimately show ?thesis by (rule pool_apart)
    qed
  qed (use t(10) in simp)
  ultimately show ?thesis using run core' set t(3,4) pages by blast
qed

definition rid_of :: "vscsiif_response \<Rightarrow> nat" where "rid_of p = unat (rs_rqid p)"

definition answerable :: "vscsifrnt_info \<Rightarrow> vscsiif_response \<Rightarrow> bool" where
  "answerable s p \<longleftrightarrow> rid_of p < nr_ids s \<and> sc (vshadow s (rid_of p)) \<noteq> None \<and> quiet_id s (rid_of p)"

text \<open>The backend has put the answers \<open>ps\<close> on the ring page \<open>pg\<close>, each for another command in flight.\<close>

definition answers :: "vscsifrnt_info \<Rightarrow> vscsiif_response list \<Rightarrow> (vscsiif_request, vscsiif_response) sring \<Rightarrow> bool" where
  "answers s ps pg \<longleftrightarrow> rsp_prod pg = rsp_cons (vring s) + of_nat (length ps) \<and>
     (\<forall>j < length ps. RING_GET_RESPONSE (f_nr_ents (vring s)) pg (rsp_cons (vring s) + of_nat j) = Some (ps ! j)) \<and>
     distinct (map rid_of ps) \<and> (\<forall>p \<in> set ps. answerable s p)"

lemma do_responses_ok:
  assumes "scsi_gen live X n fs s"
    and "\<forall>j < length ps. RING_GET_RESPONSE (f_nr_ents (vring s)) (vsring s) (ix + of_nat j) = Some (ps ! j)"
    and "distinct (map rid_of ps)" and "\<forall>p \<in> set ps. rid_of p < nr_ids s \<and> rid_of p \<notin> set fs \<and> quiet_id s (rid_of p)"
  shows "\<exists>t n'. do_responses e (length ps) ix s = Some t \<and> scsi_gen live X n' (rev (map rid_of ps) @ fs) t \<and>
    same_setup s t \<and> vring t = vring s \<and> vsring t = vsring s \<and> all_commands t = all_commands s \<and> same_pages s t \<and>
    (\<forall>j < nr_ids s. j \<notin> rid_of ` set ps \<longrightarrow> quiet_id s j \<longrightarrow> quiet_id t j)"
  using assms
proof (induction ps arbitrary: n fs s ix)
  case Nil
  then show ?case by (intro exI [of _ s] exI [of _ n]) (simp add: same_setup_def same_pages_def)
next
  case (Cons p ps)
  have get: "RING_GET_RESPONSE (f_nr_ents (vring s)) (vsring s) ix = Some p"
    using Cons.prems(2) [rule_format, of 0] by simp
  have pi: "rid_of p < nr_ids s" "rid_of p \<notin> set fs" "quiet_id s (rid_of p)" using Cons.prems(4) by simp_all
  obtain u k where u: "scsifront_do_response e p s = Some u" "scsi_gen live X k (rid_of p # fs) u" "same_setup s u"
    "vring u = vring s" "vsring u = vsring s" "all_commands u = all_commands s" "same_pages s u"
    "\<forall>j. j < nr_ids s \<longrightarrow> j \<noteq> rid_of p \<longrightarrow> quiet_id s j \<longrightarrow> quiet_id u j"
    using response_ok [OF Cons.prems(1) rid_of_def pi, of e] by blast
  have nr: "nr_ids u = nr_ids s" using u(4) by (simp add: nr_ids_def)
  have g': "\<forall>j < length ps. RING_GET_RESPONSE (f_nr_ents (vring u)) (vsring u) (ix + 1 + of_nat j) = Some (ps ! j)"
  proof (intro allI impI)
    fix j assume "j < length ps"
    then show "RING_GET_RESPONSE (f_nr_ents (vring u)) (vsring u) (ix + 1 + of_nat j) = Some (ps ! j)"
      using Cons.prems(2) [rule_format, of "Suc j"] u(4,5) by (simp add: ac_simps)
  qed
  have o: "\<forall>q \<in> set ps. rid_of q < nr_ids u \<and> rid_of q \<notin> set (rid_of p # fs) \<and> quiet_id u (rid_of q)"
  proof
    fix q assume q: "q \<in> set ps"
    then have "rid_of q \<noteq> rid_of p" using Cons.prems(3) by (metis distinct.simps(2) image_eqI list.simps(9) set_map)
    then show "rid_of q < nr_ids u \<and> rid_of q \<notin> set (rid_of p # fs) \<and> quiet_id u (rid_of q)"
      using Cons.prems(4) q u(8) nr by simp
  qed
  have d: "distinct (map rid_of ps)" using Cons.prems(3) by simp
  obtain t n' where t: "do_responses e (length ps) (ix + 1) u = Some t" "scsi_gen live X n' (rev (map rid_of ps) @ rid_of p # fs) t"
    "same_setup u t" "vring t = vring u" "vsring t = vsring u" "all_commands t = all_commands u" "same_pages u t"
    "\<forall>j < nr_ids u. j \<notin> rid_of ` set ps \<longrightarrow> quiet_id u j \<longrightarrow> quiet_id t j"
    using Cons.IH [OF u(2) g' d o] by blast
  have pages: "same_pages s t"
    using same_pages_trans [OF u(7) t(7)] u(3) by (simp add: same_setup_def)
  show ?case
    using get u(1,4-6,8) t nr same_setup_trans [OF u(3) t(3)] pages by (intro exI [of _ t] exI [of _ n']) simp
qed

lemma final_check_responses:
  "RING_FINAL_CHECK_FOR_RESPONSES peer r s = (w, s') \<Longrightarrow> s' = s \<or> s' = peer (s\<lparr>rsp_event := rsp_cons r + 1\<rparr>)"
  by (auto simp: RING_FINAL_CHECK_FOR_RESPONSES_def Let_def split: if_splits)

text \<open>A drain serves the answers that are there.\<close>

lemma drain_ok:
  assumes core: "scsi_gen live X n fs s" and a: "answers s ps (vsring s)"
  shows "\<exists>t n' more_to_do. scsifront_ring_drain e peer s = Some (more_to_do, t) \<and> scsi_gen live X n' (rev (map rid_of ps) @ fs) t \<and>
    same_setup s t \<and> all_commands t = all_commands s \<and> same_pages s t \<and>
    req_prod_pvt (vring t) = req_prod_pvt (vring s) \<and> rsp_cons (vring t) = rsp_cons (vring s) + of_nat (length ps) \<and>
    (\<forall>j < nr_ids s. j \<notin> rid_of ` set ps \<longrightarrow> quiet_id s j \<longrightarrow> quiet_id t j)"
proof -
  have v: "vids fs s" using core by (simp add: scsi_core_def)
  have g: "\<forall>j < length ps. RING_GET_RESPONSE (f_nr_ents (vring s)) (vsring s) (rsp_cons (vring s) + of_nat j) = Some (ps ! j)"
    using a by (simp add: answers_def)
  have ids: "\<forall>p \<in> set ps. rid_of p < nr_ids s \<and> rid_of p \<notin> set fs \<and> quiet_id s (rid_of p)"
    using a v unfolding answers_def answerable_def by (metis vids_def)
  have d: "distinct (map rid_of ps)" using a by (simp add: answers_def)
  obtain u k where u: "do_responses e (length ps) (rsp_cons (vring s)) s = Some u" "scsi_gen live X k (rev (map rid_of ps) @ fs) u"
    "same_setup s u" "vring u = vring s" "vsring u = vsring s" "all_commands u = all_commands s" "same_pages s u"
    "\<forall>j < nr_ids s. j \<notin> rid_of ` set ps \<longrightarrow> quiet_id s j \<longrightarrow> quiet_id u j"
    using do_responses_ok [OF core g d ids, of e] by blast
  have vu: "vids (rev (map rid_of ps) @ fs) u" using u(2) by (simp add: scsi_core_def)
  have nu: "nr_ids u = nr_ids s" using u(4) by (simp add: nr_ids_def)
  have len: "length ps + length fs \<le> nr_ids s" using free_le [OF vu] nu by simp
  have n128: "nr_ids s \<le> 128" using v by (simp add: vids_def max_reqs)
  let ?rp = "rsp_prod (vsring s)"
  have rp: "unat (?rp - rsp_cons (vring s)) = length ps"
    using a len n128 by (simp add: answers_def unat_of_nat take_bit_nat_eq_self_iff)
  let ?v = "u\<lparr>vring := (vring u)\<lparr>rsp_cons := ?rp\<rparr>\<rparr>"
  have "\<exists>mw sr. scsifront_ring_drain e peer s = Some (mw, ?v\<lparr>vsring := sr\<rparr>)"
    using u(1,4,5) rp
    by (cases "RING_FINAL_CHECK_FOR_RESPONSES peer (vring ?v) (vsring ?v)")
      (auto simp: scsifront_ring_drain_def Let_def)
  then obtain mw sr where dr: "scsifront_ring_drain e peer s = Some (mw, ?v\<lparr>vsring := sr\<rparr>)" by blast
  let ?t = "?v\<lparr>vsring := sr\<rparr>"
  have sct: "same_core u ?t" by (simp add: same_core_def same_setup_def)
  have nt: "nr_ids ?t = nr_ids u" by (simp add: nr_ids_def)
  have "scsi_gen live X k (rev (map rid_of ps) @ fs) ?t" using u(2) same_core_core [OF sct] by simp
  moreover have "same_setup s ?t" using u(3) by (simp add: same_setup_def)
  moreover have "all_commands ?t = all_commands s"
    using u(6) by (simp add: all_commands_def flying_def nt)
  moreover have "same_pages s ?t"
    using u(7) by (simp add: same_pages_def head_pages_def out_grants_def out_tables_def nt)
  moreover have "quiet_id ?t j = quiet_id u j" for j by (simp add: quiet_id_def quiet_def)
  moreover have "rsp_cons (vring ?t) = rsp_cons (vring s) + of_nat (length ps)" "req_prod_pvt (vring ?t) = req_prod_pvt (vring s)"
    using a u(4) by (simp_all add: answers_def)
  ultimately show ?thesis using dr u(8) by (intro exI [of _ ?t] exI [of _ k] exI [of _ mw]) simp
qed

lemma schedule_ok:
  assumes inv: "scsi_run live X n fs s" and a: "answers s ps pg"
  shows "\<exists>t n' fs'. scsifront_schedule e peer (s\<lparr>vsring := pg\<rparr>) = Some t \<and> scsi_run live X n' fs' t \<and> same_setup s t \<and>
    all_commands t = all_commands s"
proof -
  let ?s = "s\<lparr>vsring := pg, waiting_resp := False\<rparr>" and ?fs = "rev (map rid_of ps) @ fs"
  have core: "scsi_gen live X n fs s" and out: "outstanding fs s" using inv by (simp_all add: scsi_inv_def)
  have sc: "same_core s ?s" by (simp add: same_core_def same_setup_def)
  have core': "scsi_gen live X n fs ?s" using core same_core_core [OF sc] by simp
  have nr: "nr_ids ?s = nr_ids s" by (simp add: nr_ids_def)
  have a': "answers ?s ps (vsring ?s)" using a by (simp add: answers_def answerable_def quiet_id_def quiet_def nr)
  obtain v k mw where v: "scsifront_ring_drain e peer ?s = Some (mw, v)" "scsi_gen live X k ?fs v" "same_setup ?s v"
    "all_commands v = all_commands ?s" "req_prod_pvt (vring v) = req_prod_pvt (vring ?s)"
    "rsp_cons (vring v) = rsp_cons (vring ?s) + of_nat (length ps)"
    using drain_ok [OF core' a', of e peer] by blast
  let ?t = "if mw then v\<lparr>waiting_sync := False, waiting_resp := True\<rparr> else v\<lparr>waiting_sync := False\<rparr>"
  have run: "scsifront_schedule e peer (s\<lparr>vsring := pg\<rparr>) = Some ?t"
    using v(1) by (simp add: scsifront_schedule_def scsifront_cmd_done_def)
  have sct: "same_core v ?t" by (simp add: same_core_def same_setup_def)
  have coret: "scsi_gen live X k ?fs ?t" using v(2) same_core_core [OF sct] by simp
  have nt: "nr_ids ?t = nr_ids v" by (simp add: nr_ids_def)
  have nv: "nr_ids v = nr_ids s" using same_setup_simps(3) [OF v(3)] nr by simp
  have len: "length ps + length fs \<le> nr_ids s" using free_le [of ?fs v] v(2) nv by (simp add: scsi_core_def)
  have "req_prod_pvt (vring ?t) - rsp_cons (vring ?t) =
      (req_prod_pvt (vring s) - rsp_cons (vring s)) - of_nat (length ps)"
    using v(5,6) by simp
  also have "\<dots> = of_nat (nr_ids s - length fs) - of_nat (length ps)" using out by (simp only: outstanding_def)
  also have "\<dots> = of_nat (nr_ids s - length fs - length ps)" using len by simp
  finally have "outstanding ?fs ?t" unfolding outstanding_def nt nv by (simp add: diff_diff_left add.commute)
  moreover have "same_setup s ?t" using v(3) by (simp add: same_setup_def)
  moreover have "all_commands ?t = all_commands s"
    using v(4) by (simp add: all_commands_def flying_def nt nr)
  ultimately show ?thesis using run coret by (intro exI [of _ ?t] exI) (auto simp: scsi_inv_def)
qed

lemma do_request_rsp: "rsp_prod (vsring (scsifront_do_request s)) = rsp_prod (vsring s)"
  by (auto simp: scsifront_do_request_def RING_PUSH_REQUESTS_AND_CHECK_NOTIFY_def Let_def split: prod.splits)

section \<open>Any history of the device\<close>

text \<open>The hypervisor notes in an entry how the backend uses it, and changes nothing else.\<close>

definition hyp_marks :: "(nat \<Rightarrow> grant_entry_v1) \<Rightarrow> (nat \<Rightarrow> grant_entry_v1) \<Rightarrow> bool" where
  "hyp_marks sh sh' \<longleftrightarrow>
     (\<forall>r. frame (sh' r) = frame (sh r) \<and> domid (sh' r) = domid (sh r) \<and> bit (flags (sh' r)) 0 = bit (flags (sh r)) 0)"

definition env_ok :: "scsi_env \<Rightarrow> bool" where
  "env_ok e \<longleftrightarrow> (\<forall>i. add_to_physmap (sgenv e) i = 0)"

text \<open>
  A command is queued; the backend maps or unmaps pages and writes to memory; the interrupt comes;
  the thread serves answers. The list is what has been accepted.
\<close>

inductive scsi_reach :: "vscsifrnt_info \<Rightarrow> scsi_cmnd list \<Rightarrow> vscsifrnt_info \<Rightarrow> bool" for s0 where
  start: "scsi_reach s0 [] s0"
| queue: "scsi_reach s0 cs s \<Longrightarrow> env_ok e \<Longrightarrow> cmd_ok c s \<Longrightarrow> scsifront_queuecommand e c s = Some (rc, t) \<Longrightarrow>
    scsi_reach s0 (if rc = 0 then cs @ [c] else cs) t"
| backend: "scsi_reach s0 cs s \<Longrightarrow> hyp_marks (shared (vgnt s)) sh \<Longrightarrow>
    scsi_reach s0 cs (s\<lparr>vgnt := (vgnt s)\<lparr>shared := sh\<rparr>, vmem := m\<rparr>)"
| interrupt: "scsi_reach s0 cs s \<Longrightarrow> scsi_reach s0 cs (scsifront_intr s)"
| serve: "scsi_reach s0 cs s \<Longrightarrow> answers s ps pg \<Longrightarrow> scsifront_schedule e peer (s\<lparr>vsring := pg\<rparr>) = Some t \<Longrightarrow>
    scsi_reach s0 cs t"

lemma pool_inv_marks:
  assumes "hyp_marks (shared (vgnt s)) sh"
  shows "pool_gen live X n [] A (s\<lparr>vgnt := (vgnt s)\<lparr>shared := sh\<rparr>\<rparr>) = pool_gen live X n [] A s"
proof -
  have "same_list (vgnt s) ((vgnt s)\<lparr>shared := sh\<rparr>)" by (simp add: same_list_def)
  note sl = same_list_gnt [OF this]
  have "backed d ((vgnt s)\<lparr>shared := sh\<rparr>) g = backed d (vgnt s) g" for d g
    using assms by (simp add: backed_def hyp_marks_def)
  then show ?thesis using sl by (simp add: pool_inv_def refs_apart_def)
qed

lemma core_marks:
  assumes "hyp_marks (shared (vgnt s)) sh"
  shows "scsi_gen live X n fs (s\<lparr>vgnt := (vgnt s)\<lparr>shared := sh\<rparr>, vmem := m\<rparr>) = scsi_gen live X n fs s"
proof -
  let ?t = "s\<lparr>vgnt := (vgnt s)\<lparr>shared := sh\<rparr>, vmem := m\<rparr>"
  have "vnext ?t = vnext s" by (simp add: vnext_def fun_eq_iff)
  moreover have "nr_ids ?t = nr_ids s" by (simp add: nr_ids_def)
  moreover have "pool_gen live X n [] A ?t = pool_gen live X n [] A s" for A
    using pool_inv_marks [OF assms] pool_inv_upd(1) by metis
  moreover have "in_flight_ok ?t h = in_flight_ok s h" for h by (simp add: in_flight_ok_def)
  ultimately show ?thesis
    by (simp add: scsi_core_def vids_def out_grants_def out_tables_def room_ok_def head_pages_def)
qed

lemma scsi_reach_inv:
  "scsi_reach s0 cs s \<Longrightarrow> \<exists>n fs. scsi_run True X n fs s0 \<Longrightarrow>
   (\<exists>n fs. scsi_run True X n fs s) \<and> all_commands s = all_commands s0 + mset cs"
proof (induction rule: scsi_reach.induct)
  case (queue cs s e c rc t)
  then obtain n fs where inv: "scsi_run True X n fs s" by blast
  have xen: "\<forall>i. add_to_physmap (sgenv e) i = 0" using queue(2) by (simp add: env_ok_def)
  show ?case
  proof (cases rule: queue_ok [OF inv queue(3) xen, case_names refused sent])
    case (refused rc' t')
    then have "rc' = rc" "t' = t" using queue(4) by simp_all
    then show ?thesis using refused(2,4) queue(5,6) by (auto split: if_splits)
  next
    case (sent t' n' i fs')
    then have "rc = 0" "t' = t" using queue(4) by simp_all
    then show ?thesis using sent(3,5) queue(5,6) by auto
  qed
next
  case (backend cs s sh m)
  let ?t = "s\<lparr>vgnt := (vgnt s)\<lparr>shared := sh\<rparr>, vmem := m\<rparr>"
  have "scsi_run True X n fs ?t = scsi_run True X n fs s" for n fs
    using core_marks [OF backend(2)] by (simp add: scsi_inv_def outstanding_def nr_ids_def)
  moreover have "all_commands ?t = all_commands s" by (simp add: all_commands_def flying_def nr_ids_def)
  ultimately show ?case using backend by simp
next
  case (interrupt cs s)
  have "same_core s (scsifront_intr s)" by (simp add: same_core_def same_setup_def scsifront_intr_def)
  from same_core_inv [OF this] show ?case using interrupt by (simp add: scsifront_intr_def)
next
  case (serve cs s ps pg e peer t)
  then obtain n fs where inv: "scsi_run True X n fs s" by blast
  from schedule_ok [OF inv serve(2), of e peer] show ?case using serve by auto
qed simp

text \<open>
  C3: Whatever the order of commands and answers, the driver does not crash, loses no command and
  no grant. In every history the ids, the pool and the grant table stay consistent; the commands
  accepted are those in flight and those ended, each once; the grants in the pool and those
  held by commands are what was set up, \<open>seg_room + 1\<close> for each slot of the ring; a further
  command is taken without a \<open>BUG\<close> (it is sent, refused or ended with an error), and so is any set
  of answers to commands in flight from a backend that has unmapped the pages, unless it maps
  them for good. All the while the grants \<open>X\<close> of the ring stay apart from those of the commands, and the
  ring stays granted.
\<close>

theorem scsi_history_safe:
  assumes r: "scsi_reach s0 cs s" and init: "\<exists>n fs. scsi_run True X n fs s0"
  shows "(\<exists>n fs. scsi_run True X n fs s) \<and> flying s + mset (map fst (finished s)) = all_commands s0 + mset cs \<and>
    length (grants s) + size (out_grants s) = (seg_room s + 1) * nr_ids s \<and>
    (\<forall>e c. env_ok e \<and> cmd_ok c s \<longrightarrow> scsifront_queuecommand e c s \<noteq> None) \<and>
    (\<forall>e peer ps pg. answers s ps pg \<longrightarrow> scsifront_schedule e peer (s\<lparr>vsring := pg\<rparr>) \<noteq> None)"
proof -
  obtain n fs where inv: "scsi_run True X n fs s" and all: "all_commands s = all_commands s0 + mset cs"
    using scsi_reach_inv [OF r init] by blast
  have "scsifront_queuecommand e c s \<noteq> None" if "env_ok e" "cmd_ok c s" for e c
  proof -
    have xen: "\<forall>i. add_to_physmap (sgenv e) i = 0" using that(1) by (simp add: env_ok_def)
    show ?thesis by (cases rule: queue_ok [OF inv that(2) xen, case_names refused sent]) simp_all
  qed
  moreover have "scsifront_schedule e peer (s\<lparr>vsring := pg\<rparr>) \<noteq> None" if "answers s ps pg" for e peer ps pg
    using schedule_ok [OF inv that, of e peer] by auto
  moreover have "length (grants s) + size (out_grants s) = (seg_room s + 1) * nr_ids s"
    using inv by (simp add: scsi_inv_def scsi_core_def)
  ultimately show ?thesis using inv all by (auto simp: all_commands_def)
qed

definition scsi_cmnd_example :: scsi_cmnd where
  "scsi_cmnd_example = \<lparr>sc_no = 1, sc_device = (0, 2, 5), sc_cmd_len = 2, sc_cmnd = [0x2a, 7], sc_data_direction = DMA_TO_DEVICE,
     sc_timeout = 30, sc_bufflen = 1000, sc_sg = [\<lparr>sg_pfn = 77, sg_offset = 512, sg_length = 1024\<rparr>]\<rparr>"

definition scsi_gnt_example :: gnttab where
  "scsi_gnt_example = gnt_example\<lparr>shared := (\<lambda>r. \<lparr>flags = 1, domid = 9, frame = of_nat (r + 90)\<rparr>)\<rparr>"

definition scsi_example :: vscsifrnt_info where
  "scsi_example = \<lparr>backend_dom = 9, vring = \<lparr>req_prod_pvt = 0, rsp_cons = 0, f_nr_ents = 1\<rparr>,
     vsring = \<lparr>req_prod = 0, req_event = 1, rsp_prod = 0, rsp_event = 1, pvt_pad = [], pad44 = [],
       ring = [Rsp \<lparr>rs_rqid = 0, rs_sense_len = 0, rs_sense_buffer = [], rs_rslt = 0, rs_residual_len = 0\<rparr>]\<rparr>,
     grants = map (\<lambda>k. \<lparr>gr_gref = k, gr_pfn = k + 90\<rparr>) [10..<37], indirect_pages = [], max_indirect_segments = 0,
     seg_room = 26, persistent_gnts_c = 27, feature_persistent = True,
     vshadow = (\<lambda>_. \<lparr>next_free = VSCSIIF_NONE, act = 0, nr_segments = 0, shadow_direction = 0, wait_reset = False,
       rslt_reset = 0, sc = None, grants_used = [], indirect_grants = []\<rparr>),
     vshadow_free = 0, waiting_resp = False, waiting_sync = False, waiting_pause = False, pause = False, callers = 0,
     vgnt = scsi_gnt_example, vmem = (\<lambda>(p, x). of_nat x), vseg_pages = (\<lambda>_ _. \<lparr>vgref = 0, voffset = 0, vlength = 0\<rparr>),
     finished = [], vnotified = 0\<rparr>"

definition scsi_env_example :: scsi_env where
  "scsi_env_example = \<lparr>sgenv = gnt_example_env, shyp = (\<lambda>_. []), skmem = (\<lambda>_. None)\<rparr>"

lemma scsi_env_example_ok: "env_ok scsi_env_example" "\<forall>i. add_to_physmap (sgenv scsi_env_example) i = 0"
  by (simp_all add: env_ok_def scsi_env_example_def gnt_example_env_def)

lemma scsi_example_out [simp]: "out_grants scsi_example = {#}" "out_tables scsi_example = {#}"
  by (simp_all add: out_grants_def out_tables_def scsi_example_def)

lemma mset_map_refs:
  "0 \<notin> set rs \<Longrightarrow> refs_of (mset (map (\<lambda>k. \<lparr>gr_gref = k, gr_pfn = f k\<rparr>) rs)) = mset rs"
  by (induction rs) (auto simp: granted_def GRANT_INVALID_REF_def)

lemma scsi_example_pool: "pool_inv 27 [] {#} scsi_example"
proof -
  have sl: "same_list gnt_example scsi_gnt_example" by (simp add: same_list_def scsi_gnt_example_def)
  note g = same_list_gnt [OF sl] gnt_example_inv
  have r: "refs_of (mset (grants scsi_example)) = mset [10..<37]"
    by (simp add: scsi_example_def mset_map_refs del: upt_rec_numeral mset_map)
  have "distinct ([10..<37] @ [8, 9])" by simp
  then have "count (mset [10..<37] + mset [8, 9]) x \<le> 1" for x
    using distinct_count [of "[10..<37] @ [8, 9]"] by (simp only: mset_append)
  then have ap: "refs_apart (mset [10..<37] + mset [] + mset (gnt_free scsi_gnt_example)) scsi_gnt_example"
    using g by (auto simp: refs_apart_def gnt_refs_def gnt_example_def gnt_consts)
  have "backed 9 scsi_gnt_example \<lparr>gr_gref = k, gr_pfn = k + 90\<rparr>" for k
    by (simp add: backed_def scsi_gnt_example_def)
  moreover have "granted \<lparr>gr_gref = k, gr_pfn = k + 90\<rparr>" if "10 \<le> k" for k
    using that by (simp add: granted_def GRANT_INVALID_REF_def)
  ultimately show ?thesis
    using g ap unfolding pool_inv_def
    by (simp add: r del: upt_rec_numeral) (auto simp: scsi_example_def simp del: upt_rec_numeral)
qed


lemma scsi_example_fields [simp]:
  "feature_persistent scsi_example" "seg_room scsi_example = 26" "max_indirect_segments scsi_example = 0"
  "f_nr_ents (vring scsi_example) = 1" "req_prod_pvt (vring scsi_example) = 0" "rsp_cons (vring scsi_example) = 0"
  "nr_ids scsi_example = 1" "indirect_pages scsi_example = []" "length (grants scsi_example) = 27"
  "finished scsi_example = []" "persistent_gnts_c scsi_example = 27" "\<not> pause scsi_example" "vshadow_free scsi_example = 0"
  "next_free (vshadow scsi_example i) = VSCSIIF_NONE" "sc (vshadow scsi_example i) = None"
  "length (sring.ring (vsring scsi_example)) = 1"
  by (simp_all add: scsi_example_def nr_ids_def del: upt_rec_numeral)

lemma scsi_example_pages: "head_pages {#} scsi_example = mset [100..<127]"
  unfolding head_pages_def by (simp add: scsi_example_def)

lemma scsi_example_inv: "scsi_inv 27 [0] scsi_example"
proof -
  have v: "vids [0] scsi_example" by (simp add: vids_def max_reqs vnext_def) (simp add: VSCSIIF_NONE_def VSCSIIF_IN_USE_def)
  have h: "count (head_pages {#} scsi_example) q \<le> 1" for q
    using distinct_count [of "[100..<127]"] scsi_example_pages by simp
  have "scsi_core 27 [0] scsi_example"
    unfolding scsi_core_def using v h scsi_example_pool by (simp add: room_ok_def seg_consts)
  then show ?thesis by (simp add: scsi_inv_def outstanding_def)
qed

lemma scsi_example_cmd: "cmd_ok scsi_cmnd_example scsi_example"
proof -
  have s: "scsifront_calculate_segs scsi_cmnd_example = 1"
    by (simp add: scsifront_calculate_segs_def scsi_cmnd_example_def entry_pieces.simps SG_PAGE_SIZE_def)
  show "cmd_ok scsi_cmnd_example scsi_example"
    unfolding cmd_ok_def scsi_example_out scsi_example_pages s
    by (simp add: scsi_cmnd_example_def VSCSIIF_MAX_COMMAND_SIZE_def DMA_TO_DEVICE_def DMA_VSCSI_INDIRECT_def
        within_page_def SG_PAGE_SIZE_def del: upt_rec_numeral)
qed

lemma scsi_example_run: "\<exists>t. scsifront_queuecommand scsi_env_example scsi_cmnd_example scsi_example = Some (0, t) \<and> finished t = [] \<and>
    rsp_prod (vsring t) = rsp_cons (vring t)"
proof -
  have r: "\<not> RING_FULL (vring scsi_example)" using ring_full_ids [OF scsi_example_inv] by simp
  have v: "vids [0] scsi_example" using scsi_example_inv by (simp add: scsi_inv_def scsi_core_def)
  have l: "sc_cmd_len scsi_cmnd_example \<le> VSCSIIF_MAX_COMMAND_SIZE"
    by (simp add: scsi_cmnd_example_def VSCSIIF_MAX_COMMAND_SIZE_def)
  let ?s = "claimed scsi_cmnd_example 0 scsi_example"
  have np: "\<not> max_grefs ?s < command_pages scsi_cmnd_example"
    by (simp add: max_grefs_def command_pages_def scsi_cmnd_example_def SG_PAGE_SIZE_def VSCSIIF_SG_TABLESIZE_def)
  have d: "sc_data_direction scsi_cmnd_example \<noteq> DMA_NONE" "sc_bufflen scsi_cmnd_example \<noteq> 0"
    by (simp_all add: scsi_cmnd_example_def DMA_TO_DEVICE_def DMA_NONE_def)
  have core: "scsi_core 27 [0] scsi_example" using scsi_example_inv by (simp add: scsi_inv_def)
  show ?thesis
  proof (cases rule: map_data_ok [OF claimed_ready [OF core, of scsi_cmnd_example] cmd_data_ok [OF scsi_example_cmd, of 0]
        scsi_env_example_ok(2) d, where i = 0, case_names busy big ok])
    case (busy g)
    then show ?thesis by (simp add: max_grefs_def VSCSIIF_SG_TABLESIZE_def)
  next
    case (big g b)
    then show ?thesis using np by simp
  next
    case (ok m t n')
    note a = mapping_done_after(1) [OF ok(2)]
    have "map_frame ?s (t\<lparr>vshadow := vshadow ?s\<rparr>)" using ok(2) by (simp add: mapping_done_def)
    then have "vsring t = vsring ?s" using map_frame_fields(7) by fastforce
    then have v0: "rsp_prod (vsring t) = 0" by (simp add: scsi_example_def)
    show ?thesis
      using queue_run [OF _ r v l, of scsi_env_example] ok(1) a v0
      by (simp add: after_claim_def send_command_def fill_request_def upd_shadow_def do_request_rsp ring_put_def)
  qed
qed

theorem scsi_history_safe_witness:
  "\<exists>t. scsifront_queuecommand scsi_env_example scsi_cmnd_example scsi_example = Some (0, t) \<and>
    (\<exists>n fs. scsi_inv n fs t) \<and> flying t + mset (map fst (finished t)) = {#scsi_cmnd_example#} \<and>
    scsifront_queuecommand scsi_env_example scsi_cmnd_example scsi_example \<noteq> None"
proof -
  obtain t where t: "scsifront_queuecommand scsi_env_example scsi_cmnd_example scsi_example = Some (0, t)"
    using scsi_example_run by blast
  have r: "scsi_reach scsi_example [scsi_cmnd_example] t"
    using scsi_reach.queue [OF scsi_reach.start scsi_env_example_ok(1) scsi_example_cmd t] by simp
  have "all_commands scsi_example = {#}" by (simp add: all_commands_def flying_def)
  then show ?thesis
    using scsi_history_safe [OF r, of "{#}"] scsi_example_inv t by auto
qed

end
