(* ===== verification/Scsifront_Data.thy ===== *)
theory Scsifront_Data
  imports Scsifront_Props
begin

text \<open>
  What the backend finds behind the request of a SCSI command.
\<close>

section \<open>What the backend finds behind a request\<close>

definition backend_page :: "vscsifrnt_info \<Rightarrow> nat \<Rightarrow> nat option" where
  "backend_page t r =
     (let e = shared (vgnt t) r in if bit (flags e) 0 \<and> domid e = backend_dom t then Some (unat (frame e)) else None)"

definition backend_seg :: "vscsifrnt_info \<Rightarrow> vscsiif_segment \<Rightarrow> u8 list option" where
  "backend_seg t seg =
     map_option (\<lambda>p. map (\<lambda>x. vmem t (p, x)) [unat (voffset seg)..<unat (voffset seg) + unat (vlength seg)])
       (backend_page t (vgref seg))"

definition backend_segs :: "vscsifrnt_info \<Rightarrow> vscsiif_body \<Rightarrow> vscsiif_segment list option" where
  "backend_segs t b =
     (case b of VRw segs \<Rightarrow> Some segs
      | VIndirect d refs k \<Rightarrow>
          (case refs of [r] \<Rightarrow> map_option (\<lambda>p. map (vseg_pages t p) [0..<unat k]) (backend_page t r) | _ \<Rightarrow> None))"

definition backend_data :: "vscsifrnt_info \<Rightarrow> vscsiif_body \<Rightarrow> u8 list option" where
  "backend_data t b =
     (case backend_segs t b of None \<Rightarrow> None | Some segs \<Rightarrow> map_option concat (those (map (backend_seg t) segs)))"

definition addressable :: "scsi_cmnd \<Rightarrow> vscsifrnt_info \<Rightarrow> bool" where
  "addressable c s \<longleftrightarrow> (\<forall>sg \<in> set (sc_sg c). sg_pfn sg < 2 ^ 32) \<and> (\<forall>p \<in># head_pages (out_grants s) s. p < 2 ^ 32) \<and>
     (\<forall>p \<in> set (indirect_pages s). p < 2 ^ 32)"

lemma those_map_Some: "(\<And>x. x \<in> set xs \<Longrightarrow> f x = Some (g x)) \<Longrightarrow> those (map f xs) = Some (map g xs)"
  by (induction xs) auto

lemma backend_page_granted:
  assumes "pool_inv n [] A u" "g \<in># A" "gr_pfn g < 2 ^ 32" "vgnt t = vgnt u" "backend_dom t = backend_dom u"
  shows "backend_page t (gr_gref g) = Some (gr_pfn g)"
proof -
  have "backed (backend_dom u) (vgnt u) g" using assms(1,2) by (simp add: pool_inv_def)
  then show ?thesis
    using assms(3-5) by (simp add: backend_page_def backed_def Let_def unat_of_nat take_bit_nat_eq_self_iff)
qed

lemma send_command_fields [simp]:
  "vgnt (send_command q k i u) = vgnt u" "backend_dom (send_command q k i u) = backend_dom u"
  "vmem (send_command q k i u) = vmem u" "vseg_pages (send_command q k i u) = vseg_pages u"
  "vring (send_command q k i u) = vring u" "finished (send_command q k i u) = finished u"
  by (simp_all add: send_command_def fill_request_def upd_shadow_def)

lemma ring_put_get:
  assumes "length (ring pg) = unat nr" "nr \<noteq> 0"
  shows "RING_GET_REQUEST nr (ring_put nr ix (Req q) pg) ix = Some q"
proof -
  have "unat (ix AND (nr - 1)) \<le> unat (nr - 1)" by (meson word_and_le1 word_le_nat_alt)
  also have "\<dots> < unat nr" using assms(2) by (metis measure_unat)
  finally show ?thesis using assms(1) by (simp add: RING_GET_REQUEST_def ring_put_def ring_slot_def)
qed

lemma get_request_prod [simp]: "RING_GET_REQUEST nr (pg\<lparr>req_prod := x\<rparr>) ix = RING_GET_REQUEST nr pg ix"
  by (simp add: RING_GET_REQUEST_def)

lemma send_command_request:
  assumes "length (ring (vsring u)) = nr_ids u" "nr_ids u \<noteq> 0"
  shows "RING_GET_REQUEST (f_nr_ents (vring u)) (vsring (send_command q k i u)) (req_prod_pvt (vring u) - 1) = Some q \<and>
    req_prod (vsring (send_command q k i u)) = req_prod_pvt (vring u)"
proof -
  have nz: "f_nr_ents (vring u) \<noteq> 0" using assms(2) by (auto simp: nr_ids_def)
  have "vsring (send_command q k i u) = (ring_put (f_nr_ents (vring u)) (req_prod_pvt (vring u) - 1) (Req q) (vsring u))
      \<lparr>req_prod := req_prod_pvt (vring u)\<rparr>"
    by (simp add: send_command_def fill_request_def upd_shadow_def scsifront_do_request_def
        RING_PUSH_REQUESTS_AND_CHECK_NOTIFY_def Let_def)
  then show ?thesis
    using ring_put_get [OF _ nz, of "vsring u" "req_prod_pvt (vring u) - 1" q] assms(1)
    by (simp add: nr_ids_def)
qed

lemma mapped_bytes:
  assumes md: "mapping_done True {#} n A c i s0 m u" and s0: "vmem s0 = vmem s" "feature_persistent s0 = feature_persistent s"
    and wp: "\<forall>sg \<in> set (sc_sg c). within_page sg"
    and dir: "\<not> feature_persistent s \<or> sc_data_direction c = DMA_TO_DEVICE"
    and addr: "\<forall>g \<in> set (mp_used m). gr_pfn g < 2 ^ 32"
    and t: "vgnt t = vgnt u" "backend_dom t = backend_dom u" "vmem t = vmem u"
    and k: "k < length (sg_pieces 0 (sc_sg c) (sc_bufflen c))"
  shows "backend_seg t (seg_of (mp_used m ! k) (sg_pieces 0 (sc_sg c) (sc_bufflen c) ! k)) =
    Some (case sg_pieces 0 (sc_sg c) (sc_bufflen c) ! k of (_, sg, off, l) \<Rightarrow> entry_bytes (vmem s) sg off l)"
proof -
  let ?ps = "sg_pieces 0 (sc_sg c) (sc_bufflen c)"
  obtain j sg off l where p: "?ps ! k = (j, sg, off, l)" by (cases "?ps ! k")
  then have "(j, sg, off, l) \<in> set ?ps" using k nth_mem by metis
  then have pi: "sg \<in> set (sc_sg c)" "off = sg_offset sg" "l \<le> sg_length sg"
    using piece_index [OF wp] by blast+
  have w: "sg_offset sg + sg_length sg \<le> 4096" using wp pi(1) by (simp add: within_page_def SG_PAGE_SIZE_def)
  have dp: "data_placed (sc_data_direction c = DMA_TO_DEVICE) ?ps s0 m" using md by (simp add: mapping_done_def)
  then have g: "mp_used m ! k \<in> set (mp_used m)" using k by (simp add: data_placed_def)
  have page: "backend_page t (gr_gref (mp_used m ! k)) = Some (gr_pfn (mp_used m ! k))"
    using md g addr by (intro backend_page_granted [OF _ _ _ t(1,2)]) (auto simp: mapping_done_def)
  have mem: "vmem t = vmem (mp_info m)" using md t(3) by (simp add: mapping_done_def)
  have "vmem t (gr_pfn (mp_used m ! k), x) = vmem s (sg_pfn sg, x)" if x: "off \<le> x" "x < off + l" for x
  proof (cases "sc_data_direction c = DMA_TO_DEVICE \<and> feature_persistent s0")
    case True
    then have "vmem (mp_info m) (gr_pfn (mp_used m ! k), x) = vmem s0 (sg_pfn (entry_of_piece (?ps ! k)), x)"
      using dp k x pi(2,3) p unfolding data_placed_def Let_def by (simp add: entry_of_piece_def)
    then show ?thesis using s0 mem p by (simp add: entry_of_piece_def)
  next
    case False
    then have "\<not> feature_persistent s0" using dir s0(2) by auto
    then show ?thesis using dp k s0 mem p by (simp add: data_placed_def entry_of_piece_def)
  qed
  then show ?thesis
    using w pi by (simp add: p seg_of_def backend_seg_def page entry_bytes_def unat_of_nat take_bit_nat_eq_self_iff)
qed


lemma mapped_segs:
  assumes md: "mapping_done True {#} n A c i s0 m u" and t: "vgnt t = vgnt u" "backend_dom t = backend_dom u" "vseg_pages t = vseg_pages u"
    and addr: "\<forall>g \<in> set (mp_indirect m). gr_pfn g < 2 ^ 32" and few: "scsifront_calculate_segs c < 2 ^ 16"
  shows "backend_segs t (mapped_body c m) = Some (map2 seg_of (mp_used m) (sg_pieces 0 (sc_sg c) (sc_bufflen c)))"
proof -
  let ?ps = "sg_pieces 0 (sc_sg c) (sc_bufflen c)"
  have sw: "segs_written (indirect_command c) ?ps m" and len: "length (mp_used m) = length ?ps"
    using md by (simp_all add: mapping_done_def data_placed_def)
  show ?thesis
  proof (cases "indirect_command c")
    case False
    then show ?thesis using sw by (simp add: mapped_body_def backend_segs_def segs_written_def)
  next
    case True
    then have ne: "?ps \<noteq> []" by (auto simp: indirect_command_def scsifront_calculate_segs_def)
    then obtain gi where gi: "mp_indirect m = [gi]"
      "\<forall>k < length ?ps. vseg_pages (mp_info m) (gr_pfn gi) k = seg_of (mp_used m ! k) (?ps ! k)"
      using sw True by (auto simp: segs_written_def)
    have pg: "backend_page t (gr_gref gi) = Some (gr_pfn gi)"
      using md gi(1) addr by (intro backend_page_granted [OF _ _ _ t(1,2)]) (auto simp: mapping_done_def)
    have vs: "vseg_pages t = vseg_pages (mp_info m)" using md t(3) by (simp add: mapping_done_def)
    have "map (vseg_pages t (gr_pfn gi)) [0..<length ?ps] = map2 seg_of (mp_used m) ?ps"
      by (rule nth_equalityI) (use gi(2) vs len in simp_all)
    then show ?thesis
      using True gi(1) pg few
      by (simp add: mapped_body_def backend_segs_def unat_of_nat take_bit_nat_eq_self_iff scsifront_calculate_segs_def)
  qed
qed

lemma mapped_data:
  assumes md: "mapping_done True {#} n A c i s0 m u" and s0: "vmem s0 = vmem s" "feature_persistent s0 = feature_persistent s"
    and wp: "\<forall>sg \<in> set (sc_sg c). within_page sg"
    and dir: "\<not> feature_persistent s \<or> sc_data_direction c = DMA_TO_DEVICE"
    and addr: "\<forall>g \<in> set (mp_used m) \<union> set (mp_indirect m). gr_pfn g < 2 ^ 32" and few: "scsifront_calculate_segs c < 2 ^ 16"
    and t: "vgnt t = vgnt u" "backend_dom t = backend_dom u" "vmem t = vmem u" "vseg_pages t = vseg_pages u"
  shows "backend_data t (mapped_body c m) = Some (command_data (vmem s) c)"
proof -
  let ?ps = "sg_pieces 0 (sc_sg c) (sc_bufflen c)"
  let ?bytes = "\<lambda>(_, sg, off, l). entry_bytes (vmem s) sg off l"
  have len: "length (mp_used m) = length ?ps" using md by (simp add: mapping_done_def data_placed_def)
  have au: "\<forall>g \<in> set (mp_used m). gr_pfn g < 2 ^ 32" using addr by simp
  have "map (backend_seg t) (map2 seg_of (mp_used m) ?ps) = map (\<lambda>p. Some (?bytes p)) ?ps"
    by (rule nth_equalityI)
      (use len mapped_bytes [OF md s0 wp dir au t(1-3)] in \<open>simp_all split: prod.splits\<close>)
  then have "those (map (backend_seg t) (map2 seg_of (mp_used m) ?ps)) = Some (map ?bytes ?ps)"
    by (simp add: those_map_Some)
  moreover have "concat (map ?bytes ?ps) = command_data (vmem s) c"
    unfolding command_data_def by (rule pieces_data [OF wp])
  ultimately show ?thesis
    using mapped_segs [OF md t(1,2,4) _ few] addr by (simp add: backend_data_def)
qed


lemma scsi_example_addr: "addressable scsi_cmnd_example scsi_example"
  unfolding addressable_def scsi_example_out scsi_example_pages
  by (simp add: scsi_cmnd_example_def del: upt_rec_numeral)


end
