(* ===== verification/Scsifront_Ctl.thy ===== *)
theory Scsifront_Ctl
  imports Scsifront Xenbus_Client Evtchn
begin

text \<open>
  The control side of the SCSI front end, \<^verbatim>\<open>xen-scsi/xenbus.c\<close>: setting up a device and its ring,
  announcing it in the store, the negotiation with the backend, allocating the pool, suspend and
  resume, release, and the hot-plug of logical units. A result \<open>None\<close> is a \<open>BUG\<close>, an access to
  released memory, or a wait without end.
\<close>

section \<open>State\<close>

definition VSCSIIF_MAX_RING_ORDER :: u32 where "VSCSIIF_MAX_RING_ORDER = 3"

text \<open>
  \<open>scan_us\<close> are the numbers the kernel's \<open>sscanf\<close> reads with \<open>%u:%u:...\<close>; \<open>raw_ring p n\<close> is what a
  new block of pages holds, seen as a ring of \<open>n\<close> slots; \<open>lun_found\<close> tells whether a scan of the
  SCSI layer finds a unit.
\<close>

record scsi_ctl_env =
  cenv :: scsi_env
  scan_us :: "u8 list \<Rightarrow> u32 list"
  scan_i :: "u8 list \<Rightarrow> int \<times> int"
  evt_alloc :: "nat \<Rightarrow> int + nat"
  evt_others :: "(evtchn \<Rightarrow> evtchn) list"
  intr_handler :: nat
  intr_cookie :: nat
  raw_ring :: "nat \<Rightarrow> nat \<Rightarrow> (vscsiif_request, vscsiif_response) sring"
  lun_found :: "u32 \<times> u32 \<times> u32 \<Rightarrow> bool"

text \<open>
  The device with its data path, the store client and the event channels. \<open>sring_page\<close> is the first
  of the eight pages of the ring, \<open>host_refs\<close> the references of the driver to the SCSI host,
  whose memory holds the device too; \<open>free_pgs\<close>, \<open>free_blocks\<close> are the pages and blocks the kernel has
  to give, \<open>mem_res\<close> the results of the next allocations, success once it is used up.
\<close>

record scsi_dev =
  sd_info :: vscsifrnt_info
  sd_dev :: xenbus_device
  sd_xs :: xs
  sd_evt :: evtchn
  ring_ref :: "nat list"
  ring_size :: nat
  sring_page :: "nat option"
  sd_irq :: nat
  kthread :: bool
  host_refs :: nat
  host_gone :: bool
  sg_tablesize :: nat
  max_sectors :: nat
  luns :: "(u32 \<times> u32 \<times> u32) list"
  free_pgs :: "nat list"
  free_blocks :: "nat list"
  mem_res :: "bool list"

definition upd_info :: "(vscsifrnt_info \<Rightarrow> vscsifrnt_info) \<Rightarrow> scsi_dev \<Rightarrow> scsi_dev" where
  "upd_info f s = s\<lparr>sd_info := f (sd_info s)\<rparr>"

definition mem_ok :: "scsi_dev \<Rightarrow> bool \<times> scsi_dev" where
  "mem_ok s = (case mem_res s of [] \<Rightarrow> (True, s) | b # bs \<Rightarrow> (b, s\<lparr>mem_res := bs\<rparr>))"

definition alloc_page :: "scsi_dev \<Rightarrow> nat option \<times> scsi_dev" where
  "alloc_page s =
     (case mem_ok s of (ok, s) \<Rightarrow>
        if \<not> ok then (None, s)
        else (case free_pgs s of [] \<Rightarrow> (None, s) | p # ps \<Rightarrow> (Some p, s\<lparr>free_pgs := ps\<rparr>)))"

definition give_page :: "nat \<Rightarrow> scsi_dev \<Rightarrow> scsi_dev" where
  "give_page p s = s\<lparr>free_pgs := p # free_pgs s\<rparr>"

definition dev_fatal :: "scsi_ctl_env \<Rightarrow> int \<Rightarrow> u8 list \<Rightarrow> scsi_dev \<Rightarrow> scsi_dev option" where
  "dev_fatal e err msg s = do {
     (d, x) \<leftarrow> xenbus_dev_fatal (scan_i e) (sd_dev s) err msg (sd_xs s);
     Some (s\<lparr>sd_dev := d, sd_xs := x\<rparr>)
   }"

definition switch_to :: "scsi_ctl_env \<Rightarrow> xenbus_state \<Rightarrow> scsi_dev \<Rightarrow> scsi_dev option" where
  "switch_to e st s = do {
     (_, d, x) \<leftarrow> xenbus_switch_state (scan_i e) (sd_dev s) st (sd_xs s);
     Some (s\<lparr>sd_dev := d, sd_xs := x\<rparr>)
   }"

text \<open>The scanner for \<open>n\<close> numbers.\<close>

definition scan_nums :: "scsi_ctl_env \<Rightarrow> nat \<Rightarrow> u8 list \<Rightarrow> int \<times> u32 list" where
  "scan_nums e n t = (let vs = take n (scan_us e t) in (int (length vs), vs))"

section \<open>The pool\<close>

definition add_grant :: "nat \<Rightarrow> scsi_dev \<Rightarrow> scsi_dev" where
  "add_grant p = upd_info (\<lambda>i. i\<lparr>grants := \<lparr>gr_gref = GRANT_INVALID_REF, gr_pfn = p\<rparr> # grants i\<rparr>)"

text \<open>The result tells whether the memory was enough, and how many grants were added.\<close>

fun fill_grants :: "nat \<Rightarrow> nat \<Rightarrow> scsi_dev \<Rightarrow> bool \<times> nat \<times> scsi_dev" where
  "fill_grants 0 i s = (True, i, s)"
| "fill_grants (Suc n) i s =
     (case mem_ok s of
        (False, s) \<Rightarrow> (False, i, s)
      | (True, s) \<Rightarrow>
          if feature_persistent (sd_info s)
          then (case alloc_page s of
                  (None, s) \<Rightarrow> (False, i, s)
                | (Some p, s) \<Rightarrow> fill_grants n (i + 1) (add_grant p s))
          else fill_grants n (i + 1) (add_grant 0 s))"

fun drop_grants :: "grant list \<Rightarrow> scsi_dev \<Rightarrow> scsi_dev" where
  "drop_grants [] s = upd_info (\<lambda>i. i\<lparr>grants := []\<rparr>) s"
| "drop_grants (g # gs) s =
     drop_grants gs (if feature_persistent (sd_info s) then give_page (gr_pfn g) s else s)"

definition fill_grant_buffer :: "nat \<Rightarrow> scsi_dev \<Rightarrow> (int \<times> scsi_dev) option" where
  "fill_grant_buffer num s =
     (case fill_grants num 0 s of
        (True, _, s) \<Rightarrow> Some (0, s)
      | (False, i, s) \<Rightarrow>
          if i \<noteq> length (grants (sd_info s)) then None
          else Some (- ENOMEM, drop_grants (grants (sd_info s)) s))"

section \<open>Release\<close>

definition end_access :: "scsi_ctl_env \<Rightarrow> nat \<Rightarrow> scsi_dev \<Rightarrow> scsi_dev option" where
  "end_access e r s = do {
     g \<leftarrow> gnttab_end_foreign_access (shyp (cenv e) r) (skmem (cenv e) r) r None (vgnt (sd_info s));
     Some (upd_info (\<lambda>i. i\<lparr>vgnt := g\<rparr>) s)
   }"

fun end_ring_refs :: "scsi_ctl_env \<Rightarrow> nat list \<Rightarrow> scsi_dev \<Rightarrow> scsi_dev option" where
  "end_ring_refs e [] s = Some s"
| "end_ring_refs e (r # rs) s = do {
     s \<leftarrow> (if r \<noteq> GRANT_INVALID_REF then end_access e r s else Some s);
     end_ring_refs e rs s
   }"

definition clear_refs :: "scsi_dev \<Rightarrow> scsi_dev" where
  "clear_refs s = s\<lparr>ring_ref := replicate (ring_size s) GRANT_INVALID_REF @ drop (ring_size s) (ring_ref s)\<rparr>"

definition scsifront_free_ring :: "scsi_ctl_env \<Rightarrow> scsi_dev \<Rightarrow> scsi_dev option" where
  "scsifront_free_ring e s = do {
     s \<leftarrow> end_ring_refs e (take (ring_size s) (ring_ref s)) s;
     let s = clear_refs s;
     let s = (case sring_page s of None \<Rightarrow> s | Some p \<Rightarrow> s\<lparr>free_blocks := p # free_blocks s, sring_page := None\<rparr>);
     if sd_irq s \<noteq> 0
     then do {
       v \<leftarrow> unbind_from_irqhandler (evt_others e) (sd_irq s) (sd_evt s);
       Some (s\<lparr>sd_evt := v, sd_irq := 0\<rparr>)
     }
     else Some s
   }"

fun free_pool :: "scsi_ctl_env \<Rightarrow> grant list \<Rightarrow> scsi_dev \<Rightarrow> scsi_dev option" where
  "free_pool e [] s = Some s"
| "free_pool e (g # gs) s = do {
     s \<leftarrow> (if gr_gref g \<noteq> GRANT_INVALID_REF
          then do {
            s \<leftarrow> end_access e (gr_gref g) s;
            Some (upd_info (\<lambda>i. i\<lparr>persistent_gnts_c := persistent_gnts_c i - 1\<rparr>) s)
          }
          else Some s);
     free_pool e gs (if feature_persistent (sd_info s) then give_page (gr_pfn g) s else s)
   }"

fun free_used :: "scsi_ctl_env \<Rightarrow> bool \<Rightarrow> grant list \<Rightarrow> scsi_dev \<Rightarrow> scsi_dev option" where
  "free_used e pages [] s = Some s"
| "free_used e pages (g # gs) s = do {
     s \<leftarrow> end_access e (gr_gref g) s;
     free_used e pages gs (if pages then give_page (gr_pfn g) s else s)
   }"

definition free_command :: "scsi_ctl_env \<Rightarrow> vscsifrnt_shadow \<Rightarrow> scsi_dev \<Rightarrow> scsi_dev option" where
  "free_command e h s =
     (if sc h = None then Some s
      else do {
        s \<leftarrow> free_used e (feature_persistent (sd_info s)) (take (nr_segments h) (grants_used h)) s;
        if shadow_direction h \<noteq> DMA_VSCSI_INDIRECT then Some s
        else free_used e True (take (VSCSI_INDIRECT_PAGES (nr_segments h)) (indirect_grants h)) s
      })"

fun free_shadows :: "scsi_ctl_env \<Rightarrow> nat list \<Rightarrow> scsi_dev \<Rightarrow> scsi_dev option" where
  "free_shadows e [] s = Some s"
| "free_shadows e (i # is) s = do {
     s \<leftarrow> free_command e (vshadow (sd_info s) i) s;
     free_shadows e is (upd_info (upd_shadow i (\<lambda>h. h\<lparr>grants_used := [], indirect_grants := []\<rparr>)) s)
   }"

definition free_indirect_pages :: "scsi_dev \<Rightarrow> scsi_dev" where
  "free_indirect_pages s =
     upd_info (\<lambda>i. i\<lparr>indirect_pages := []\<rparr>) (fold give_page (indirect_pages (sd_info s)) s)"

definition scsifront_resume_free :: "scsi_ctl_env \<Rightarrow> scsi_dev \<Rightarrow> scsi_dev option" where
  "scsifront_resume_free e s = do {
     s \<leftarrow> free_pool e (grants (sd_info s)) (upd_info (\<lambda>i. i\<lparr>grants := []\<rparr>) s);
     if persistent_gnts_c (sd_info s) \<noteq> 0 then None
     else do {
       s \<leftarrow> (if indirect_pages (sd_info s) = [] then Some s
            else if feature_persistent (sd_info s) then None else Some (free_indirect_pages s));
       s \<leftarrow> free_shadows e [0..<unat (f_nr_ents (vring (sd_info s)))] s;
       scsifront_free_ring e (upd_info (\<lambda>i. i\<lparr>seg_room := 0\<rparr>) s)
     }
   }"

definition scsi_host_put :: "scsi_dev \<Rightarrow> scsi_dev option" where
  "scsi_host_put s = (if host_refs s = 0 then None else Some (s\<lparr>host_refs := host_refs s - 1\<rparr>))"

definition scsifront_free :: "scsi_ctl_env \<Rightarrow> scsi_dev \<Rightarrow> scsi_dev option" where
  "scsifront_free e s =
     (if host_refs s = 0 then None
      else do { s \<leftarrow> scsifront_resume_free e (s\<lparr>host_gone := True\<rparr>); scsi_host_put s })"

section \<open>The ring\<close>

text \<open>\<open>1U << ring_order\<close> pages, one reference each, up to the first failure.\<close>

fun grant_ring_pages :: "scsi_ctl_env \<Rightarrow> nat \<Rightarrow> nat list \<Rightarrow> scsi_dev \<Rightarrow> (int \<times> scsi_dev) option" where
  "grant_ring_pages e p [] s = Some (0, s)"
| "grant_ring_pages e p (i # is) s = do {
     (err, d, x, g) \<leftarrow> xenbus_grant_ring (scan_i e) (sgenv (cenv e)) (sd_dev s) (of_nat (p + i))
                        (sd_xs s, vgnt (sd_info s));
     let s = upd_info (\<lambda>j. j\<lparr>vgnt := g\<rparr>) (s\<lparr>sd_dev := d, sd_xs := x\<rparr>);
     if err < 0 then Some (err, s)
     else grant_ring_pages e p is (s\<lparr>ring_ref := (ring_ref s)[i := nat err]\<rparr>)
   }"

definition alloc_sring :: "scsi_dev \<Rightarrow> nat option \<times> scsi_dev" where
  "alloc_sring s =
     (case mem_ok s of (ok, s) \<Rightarrow>
        if \<not> ok then (None, s)
        else (case free_blocks s of [] \<Rightarrow> (None, s) | p # ps \<Rightarrow> (Some p, s\<lparr>free_blocks := ps\<rparr>)))"

definition init_sring :: "scsi_ctl_env \<Rightarrow> nat \<Rightarrow> scsi_dev \<Rightarrow> scsi_dev" where
  "init_sring e p s =
     (let fr = FRONT_RING_INIT 252 (of_nat (ring_size s * 4096))
      in upd_info (\<lambda>i. i\<lparr>vring := fr, vsring := SHARED_RING_INIT (raw_ring e p (unat (f_nr_ents fr)))\<rparr>)
           (s\<lparr>sring_page := Some p\<rparr>))"

definition scsifront_alloc_ring :: "scsi_ctl_env \<Rightarrow> scsi_dev \<Rightarrow> (int \<times> scsi_dev) option" where
  "scsifront_alloc_ring e s =
     (case alloc_sring (clear_refs s) of
        (None, s) \<Rightarrow> do {
          s \<leftarrow> dev_fatal e (- ENOMEM) (bytes ''fail to allocate shared ring (Front to Back)'') s;
          Some (- ENOMEM, s)
        }
      | (Some p, s) \<Rightarrow> do {
          (err, s) \<leftarrow> grant_ring_pages e p [0..<ring_size s] (init_sring e p s);
          if err < 0
          then do {
            s \<leftarrow> dev_fatal e err (bytes ''fail to grant shared ring (Front to Back)'') (s\<lparr>sring_page := None\<rparr>);
            s \<leftarrow> scsifront_free e s;
            Some (err, s)
          }
          else (case bind_listening_port_to_irqhandler (evt_alloc e) (unat (otherend_id (sd_dev s)))
                       (intr_handler e) (intr_cookie e) (sd_evt s) of (irq, v) \<Rightarrow>
                  let s = s\<lparr>sd_evt := v\<rparr>
                  in if irq \<le> 0
                     then do {
                       s \<leftarrow> dev_fatal e irq (bytes ''bind_listening_port_to_irqhandler'') s;
                       s \<leftarrow> scsifront_free e s;
                       Some (irq, s)
                     }
                     else Some (0, s\<lparr>sd_irq := nat irq\<rparr>))
        })"

text \<open>What the device announces, in this order.\<close>

definition ring_nodes :: "scsi_dev \<Rightarrow> u32 \<Rightarrow> (u8 list \<times> u8 list) list" where
  "ring_nodes s order =
     (bytes ''ring-page-order'', print_nat (unat order)) #
     (bytes ''num-ring-pages'', print_nat (ring_size s)) #
     map (\<lambda>i. (bytes ''ring-ref-'' @ print_nat (i + 1), print_nat (ring_ref s ! i))) [0..<ring_size s] @
     [(bytes ''event-channel'', print_nat (irq_to_evtchn_port (sd_irq s) (sd_evt s))),
      (bytes ''feature-persistent'', print_nat 1)]"

text \<open>Up to the first failure, with the node that could not be written.\<close>

fun write_nodes :: "u32 \<Rightarrow> u8 list \<Rightarrow> (u8 list \<times> u8 list) list \<Rightarrow> xs \<Rightarrow> (int \<times> u8 list \<times> xs) option" where
  "write_nodes xbt dir [] x = Some (0, [], x)"
| "write_nodes xbt dir ((name, val) # rest) x = do {
     (err, x) \<leftarrow> xenbus_printf xbt dir name val x;
     if err \<noteq> 0 then Some (err, name, x) else write_nodes xbt dir rest x
   }"

text \<open>
  One round: its result, or the transaction id to go on with when the store asks to retry. A
  transaction that could not be started is reported, and the round goes on with \<open>xbt\<close>.
\<close>

definition publish_round :: "scsi_ctl_env \<Rightarrow> u32 \<Rightarrow> u32 \<Rightarrow> scsi_dev \<Rightarrow> ((int + u32) \<times> scsi_dev) option" where
  "publish_round e order xbt s = do {
     (xbt, s) \<leftarrow> (case xenbus_transaction_start (sd_xs s) of None \<Rightarrow> None
                   | Some (Ok t, x) \<Rightarrow> Some (t, s\<lparr>sd_xs := x\<rparr>)
                   | Some (Err err, x) \<Rightarrow> do {
                       s \<leftarrow> dev_fatal e err (bytes ''starting transaction'') (s\<lparr>sd_xs := x\<rparr>);
                       Some (xbt, s)
                     });
     (err, what, x) \<leftarrow> write_nodes xbt (nodename (sd_dev s)) (ring_nodes s order) (sd_xs s);
     if err \<noteq> 0
     then do {
       (_, x) \<leftarrow> xenbus_transaction_end xbt True x;
       s \<leftarrow> dev_fatal e err (bytes ''writing '' @ what) (s\<lparr>sd_xs := x\<rparr>);
       Some (Inl err, s)
     }
     else do {
       (err, x) \<leftarrow> xenbus_transaction_end xbt False x;
       let s = s\<lparr>sd_xs := x\<rparr>;
       if err = 0 then Some (Inl 0, s)
       else if err = - EAGAIN then Some (Inr xbt, s)
       else do { s \<leftarrow> dev_fatal e err (bytes ''completing transaction'') s; Some (Inl err, s) }
     }
   }"

text \<open>No call makes the schedule of replies longer, and a write that succeeds has used one.\<close>

lemma dev_error_replies: "dev_error dev err msg s = Some t \<Longrightarrow> replies t \<le> replies s"
proof -
  assume run: "dev_error dev err msg s = Some t"
  obtain b1 s1 where a1: "xs_alloc s = (b1, s1)" by (cases "xs_alloc s")
  obtain b2 s2 where a2: "xs_alloc s1 = (b2, s2)" by (cases "xs_alloc s1")
  have r2: "replies s2 = replies s" using xs_alloc_replies [OF a1] xs_alloc_replies [OF a2] by simp
  show "replies t \<le> replies s"
  proof (cases "b1 \<and> b2")
    case True
    then show ?thesis using run a1 a2 r2 xenbus_write_replies by (fastforce simp: dev_error_def)
  next
    case False
    then have "t = s2" using run a1 a2 by (auto simp: dev_error_def)
    then show ?thesis using r2 by simp
  qed
qed

definition fatal_uses :: "fatal \<Rightarrow> bool" where
  "fatal_uses fatal \<longleftrightarrow> (\<forall>err msg dev s dev' t. fatal err msg dev s = Some (dev', t) \<longrightarrow> replies t \<le> replies s)"

lemma switch_body_uses:
  "fatal_uses fatal \<Longrightarrow> switch_body fatal scn xbt dev st s = Some (ab, dev', t) \<Longrightarrow> replies t \<le> replies s"
  unfolding fatal_uses_def
  by (auto simp: switch_body_def split: option.splits if_splits
      dest!: xenbus_scanf_replies xenbus_printf_replies) (meson le_trans)+

lemma start_replies: "xenbus_transaction_start s = Some (r, t) \<Longrightarrow> replies t \<le> replies s"
  using xs_talkv_replies
  by (fastforce simp: xenbus_transaction_start_def transaction_start_def xs_single_def transaction_end_def replies_def
      split: option.splits res.splits if_splits)

lemma switch_loop_uses:
  "fatal_uses fatal \<Longrightarrow> switch_loop fatal scn dev st s = Some (dev', t) \<Longrightarrow> replies t \<le> replies s"
proof (induction fatal scn dev st s rule: switch_loop.induct)
  case (1 fatal scn dev st s)
  obtain r s1 where s1: "xenbus_transaction_start s = Some (r, s1)"
    using 1(3) by (auto simp: switch_loop.simps [of fatal scn dev st s] split: option.splits)
  note c1 = start_replies [OF s1]
  show ?case
  proof (cases r)
    case (Err err)
    then show ?thesis
      using 1(2,3) s1 c1 by (fastforce simp: switch_loop.simps [of fatal scn dev st s] fatal_uses_def)
  next
    case (Ok xbt)
    then obtain abort d2 s2 where s2: "switch_body fatal scn xbt dev st s1 = Some (abort, d2, s2)"
      using 1(3) s1 by (auto simp: switch_loop.simps [of fatal scn dev st s] split: option.splits)
    obtain err s3 where s3: "xenbus_transaction_end xbt abort s2 = Some (err, s3)"
      using 1(3) s1 Ok s2 by (auto simp: switch_loop.simps [of fatal scn dev st s] split: option.splits)
    have c: "replies s3 \<le> replies s"
      using c1 switch_body_uses [OF 1(2) s2] transaction_end_replies [OF s3] by simp
    show ?thesis
    proof (cases "err = 0")
      case True
      then show ?thesis using 1(3) s1 Ok s2 s3 c by (auto simp: switch_loop.simps [of fatal scn dev st s])
    next
      case err: False
      show ?thesis
      proof (cases "err = - EAGAIN \<and> \<not> abort")
        case True
        then have "switch_loop fatal scn d2 st s3 = Some (dev', t)"
          using 1(3) s1 Ok s2 s3 by (simp add: switch_loop.simps [of fatal scn dev st s])
        then show ?thesis using 1(1) [OF s1 refl Ok s2 refl refl s3 refl err True 1(2)] c by simp
      next
        case False
        then have "fatal err (bytes ''ending transaction'') d2 s3 = Some (dev', t)"
          using 1(3) s1 Ok s2 s3 err by (auto simp: switch_loop.simps [of fatal scn dev st s] split: if_splits)
        then show ?thesis using 1(2) c unfolding fatal_uses_def by (meson le_trans)
      qed
    qed
  qed
qed

lemma switch_at_uses:
  "fatal_uses fatal \<Longrightarrow> switch_state_at fatal scn dev st s = Some (dev', t) \<Longrightarrow> replies t \<le> replies s"
  using switch_loop_uses by (auto simp: switch_state_at_def split: if_splits)

lemma deep_uses: "fatal_uses switch_fatal_deep"
  using dev_error_replies by (auto simp: fatal_uses_def switch_fatal_deep_def)

lemma fatal_uses_switch: "fatal_uses (xenbus_switch_fatal scn)"
  unfolding fatal_uses_def
proof (intro allI impI)
  fix err msg dev s dev' t
  assume run: "xenbus_switch_fatal scn err msg dev s = Some (dev', t)"
  then obtain u where u: "dev_error dev err msg s = Some u"
    "switch_state_at switch_fatal_deep scn dev XenbusStateClosing u = Some (dev', t)"
    by (auto simp: xenbus_switch_fatal_def split: option.splits)
  show "replies t \<le> replies s" using dev_error_replies [OF u(1)] switch_at_uses [OF deep_uses u(2)] by simp
qed

lemma dev_fatal_replies: "dev_fatal e err msg s = Some t \<Longrightarrow> replies (sd_xs t) \<le> replies (sd_xs s)"
proof -
  assume "dev_fatal e err msg s = Some t"
  then obtain d x where x: "xenbus_dev_fatal (scan_i e) (sd_dev s) err msg (sd_xs s) = Some (d, x)" "sd_xs t = x"
    by (auto simp: dev_fatal_def bind_eq_Some_conv)
  then obtain u where u: "dev_error (sd_dev s) err msg (sd_xs s) = Some u"
    "switch_state_at (xenbus_switch_fatal (scan_i e)) (scan_i e) (sd_dev s) XenbusStateClosing u = Some (d, x)"
    by (auto simp: xenbus_dev_fatal_def xenbus_switch_state_def split: option.splits)
  show ?thesis using dev_error_replies [OF u(1)] switch_at_uses [OF fatal_uses_switch u(2)] x(2) by simp
qed

lemma talkv_used:
  assumes "xs_talkv tid ty vs s = Some (r, t)"
  shows "replies t < replies s \<or> (\<exists>n. r = Err n \<and> n \<noteq> 0)"
proof -
  obtain n u where u: "send_vecs xs_put (hdr_bytes (request_hdr tid ty vs) # vs) s = Some (n, u)"
    using assms by (auto simp: xs_talkv_def split: if_splits option.splits)
  have f: "replies u = replies s" using send_vecs_frame [OF u] by (simp add: replies_def)
  show ?thesis
  proof (cases "n = 0")
    case False
    then show ?thesis using assms u f by (auto simp: xs_talkv_def split: if_splits)
  next
    case True
    then obtain m where "read_reply u = Some (m, t)"
      using assms u by (auto simp: xs_talkv_def split: if_splits option.splits)
    then show ?thesis using read_reply_wait_replies [of "incoming u" u m t] f by (simp add: read_reply_def replies_def)
  qed
qed

lemma printf_used: "xenbus_printf t d n v s = Some (0, u) \<Longrightarrow> replies u < replies s"
proof -
  assume run: "xenbus_printf t d n v s = Some (0, u)"
  obtain b1 s1 where a1: "xs_alloc s = (b1, s1)" by (cases "xs_alloc s")
  obtain b2 s2 where a2: "xs_alloc s1 = (b2, s2)" by (cases "xs_alloc s1")
  have b: "b1" "b2" using run a1 a2 by (cases b1; cases b2; simp add: xenbus_printf_def xenbus_write_def with_path_def)+
  then obtain r where r: "xs_talkv t XS_WRITE [join d n @ [0], v] s2 = Some (r, u)" "(case r of Err m \<Rightarrow> m | Ok _ \<Rightarrow> 0) = 0"
    using run a1 a2 by (auto simp: xenbus_printf_def xenbus_write_def with_path_def xs_error_def)
  show ?thesis
    using talkv_used [OF r(1)] r(2) xs_alloc_replies [OF a1] xs_alloc_replies [OF a2] by auto
qed

lemma write_nodes_cons:
  "write_nodes xbt d ((n, v) # ns) x = Some (err, w, y) \<Longrightarrow>
   \<exists>r z. xenbus_printf xbt d n v x = Some (r, z) \<and>
     (if r = 0 then write_nodes xbt d ns z = Some (err, w, y) else err = r \<and> w = n \<and> y = z)"
  by (auto simp: bind_eq_Some_conv split: if_splits)

lemma write_nodes_replies: "write_nodes xbt d ns x = Some (err, w, y) \<Longrightarrow> replies y \<le> replies x"
proof (induction ns arbitrary: x)
  case (Cons nv ns)
  obtain n v where nv: "nv = (n, v)" by (cases nv)
  obtain r z where z: "xenbus_printf xbt d n v x = Some (r, z)"
    "if r = 0 then write_nodes xbt d ns z = Some (err, w, y) else err = r \<and> w = n \<and> y = z"
    using write_nodes_cons Cons.prems nv by blast
  then show ?case using Cons.IH [of z] xenbus_printf_replies [OF z(1)] by (cases "r = 0") auto
qed simp

lemma publish_round_uses:
  assumes "publish_round e order xbt s = Some (Inr xbt', t)"
  shows "replies (sd_xs t) < replies (sd_xs s)"
proof -
  obtain r x where st: "xenbus_transaction_start (sd_xs s) = Some (r, x)"
    using assms by (auto simp: publish_round_def split: option.splits)
  obtain xb s1 where s1: "(case r of Ok t \<Rightarrow> Some (t, s\<lparr>sd_xs := x\<rparr>)
      | Err err \<Rightarrow> do { s \<leftarrow> dev_fatal e err (bytes ''starting transaction'') (s\<lparr>sd_xs := x\<rparr>); Some (xbt, s) }) = Some (xb, s1)"
    "do {
     (err, what, x) \<leftarrow> write_nodes xb (nodename (sd_dev s1)) (ring_nodes s1 order) (sd_xs s1);
     if err \<noteq> 0
     then do {
       (_, x) \<leftarrow> xenbus_transaction_end xb True x;
       s \<leftarrow> dev_fatal e err (bytes ''writing '' @ what) (s1\<lparr>sd_xs := x\<rparr>);
       Some (Inl err, s)
     }
     else do {
       (err, x) \<leftarrow> xenbus_transaction_end xb False x;
       let s = s1\<lparr>sd_xs := x\<rparr>;
       if err = 0 then Some (Inl 0, s)
       else if err = - EAGAIN then Some (Inr xb, s)
       else do { s \<leftarrow> dev_fatal e err (bytes ''completing transaction'') s; Some (Inl err, s) }
     }
   } = Some (Inr xbt', t)"
    using assms st by (cases r) (auto simp: publish_round_def bind_eq_Some_conv)
  have c: "replies (sd_xs s1) \<le> replies (sd_xs s)"
  proof (cases r)
    case (Err n)
    then show ?thesis
      using s1(1) dev_fatal_replies start_replies [OF st] by (fastforce simp: bind_eq_Some_conv)
  next
    case (Ok n)
    then show ?thesis using s1(1) start_replies [OF st] by auto
  qed
  obtain err what y where y: "write_nodes xb (nodename (sd_dev s1)) (ring_nodes s1 order) (sd_xs s1) = Some (err, what, y)"
    using s1(2) by (auto simp: bind_eq_Some_conv)
  have e0: "err = 0" using s1(2) y by (cases "err = 0") (auto simp: bind_eq_Some_conv)
  obtain z where z: "xenbus_printf xb (nodename (sd_dev s1)) (bytes ''ring-page-order'') (print_nat (unat order)) (sd_xs s1) = Some (0, z)"
      "replies y \<le> replies z"
    using write_nodes_cons [OF y [unfolded ring_nodes_def]] e0
    by (auto simp del: write_nodes.simps split: if_splits dest!: write_nodes_replies)
  obtain n w where w: "xenbus_transaction_end xb False y = Some (n, w)" "sd_xs t = w"
    using s1(2) y e0 by (auto simp: bind_eq_Some_conv Let_def split: if_splits)
  show ?thesis using c printf_used [OF z(1)] z(2) transaction_end_replies [OF w(1)] w(2) by simp
qed

function publish :: "scsi_ctl_env \<Rightarrow> u32 \<Rightarrow> u32 \<Rightarrow> scsi_dev \<Rightarrow> (int \<times> scsi_dev) option" where
  "publish e order xbt s =
     (case publish_round e order xbt s of None \<Rightarrow> None
      | Some (Inl err, s) \<Rightarrow> Some (err, s)
      | Some (Inr xbt, s) \<Rightarrow> publish e order xbt s)"
  by pat_completeness auto
termination
  by (relation "measure (\<lambda>(e, order, xbt, s). replies (sd_xs s))") (auto dest: publish_round_uses)

declare publish.simps [simp del]

text \<open>\<open>xbt\<close> is the transaction handle as the stack happens to hold it.\<close>

definition ring_order_of :: "int \<times> u32 list option \<Rightarrow> u32" where
  "ring_order_of r =
     (case r of (n, v) \<Rightarrow>
        let order = (if n \<noteq> 1 then VSCSIIF_MAX_RING_ORDER
                     else (case v of Some (o1 # _) \<Rightarrow> o1 | _ \<Rightarrow> VSCSIIF_MAX_RING_ORDER))
        in if order > VSCSIIF_MAX_RING_ORDER then VSCSIIF_MAX_RING_ORDER else order)"

definition scsifront_init_ring :: "scsi_ctl_env \<Rightarrow> u32 \<Rightarrow> scsi_dev \<Rightarrow> (int \<times> scsi_dev) option" where
  "scsifront_init_ring e xbt s = do {
     (r, x) \<leftarrow> xenbus_scanf 0 (otherend (sd_dev s)) (bytes ''max-ring-page-order'') (scan_nums e 1) (sd_xs s);
     let order = ring_order_of r;
     let s = s\<lparr>sd_xs := x, ring_size := 2 ^ unat order\<rparr>;
     (err, s) \<leftarrow> scsifront_alloc_ring e s;
     if err \<noteq> 0 then Some (err, s)
     else do {
       (err, s) \<leftarrow> publish e order xbt s;
       if err = 0 then Some (0, s)
       else do { s \<leftarrow> scsifront_free e s; Some (err, s) }
     }
   }"

section \<open>Probing and release\<close>

definition empty_shadow :: vscsifrnt_shadow where
  "empty_shadow = \<lparr>next_free = 0, act = 0, nr_segments = 0, shadow_direction = 0, wait_reset = False,
     rslt_reset = 0, sc = None, grants_used = [], indirect_grants = []\<rparr>"

text \<open>The device as \<open>scsi_host_alloc\<close> returns it, cleared; what lies outside it stays.\<close>

definition new_info :: "scsi_dev \<Rightarrow> vscsifrnt_info" where
  "new_info s = (sd_info s)\<lparr>backend_dom := otherend_id (sd_dev s), vring := \<lparr>req_prod_pvt = 0, rsp_cons = 0, f_nr_ents = 0\<rparr>,
     grants := [], indirect_pages := [], max_indirect_segments := 0, seg_room := 0, persistent_gnts_c := 0,
     feature_persistent := False, vshadow := (\<lambda>_. empty_shadow), vshadow_free := 0, waiting_resp := False,
     waiting_sync := False, waiting_pause := False, pause := False, callers := 0, finished := [], vnotified := 0\<rparr>"

definition new_scsi_device :: "scsi_dev \<Rightarrow> scsi_dev" where
  "new_scsi_device s = s\<lparr>sd_info := new_info s, ring_ref := replicate 8 0, ring_size := 0, sring_page := None, sd_irq := 0,
     kthread := False, host_refs := 1, host_gone := False, sg_tablesize := VSCSIIF_SG_TABLESIZE, max_sectors := 0, luns := []\<rparr>"

text \<open>
  \<open>host\<close> tells whether the SCSI host could be allocated; \<open>run\<close> and \<open>add\<close> are the results of
  starting the thread and of adding the host.
\<close>

definition scsifront_probe :: "scsi_ctl_env \<Rightarrow> bool \<Rightarrow> int \<Rightarrow> int \<Rightarrow> scsi_dev \<Rightarrow> (int \<times> scsi_dev) option" where
  "scsifront_probe e host run add s =
     (if \<not> host
      then do { s \<leftarrow> dev_fatal e (- ENOMEM) (bytes ''fail to allocate scsi host'') s; Some (- ENOMEM, s) }
      else let s = new_scsi_device s
      in if run < 0 then do { s \<leftarrow> scsifront_free e s; Some (run, s) }
      else let s = s\<lparr>kthread := True, max_sectors := (sg_tablesize s - 1) * 4096 div 512\<rparr>
      in if add \<noteq> 0 then do { s \<leftarrow> scsifront_free e s; Some (add, s) }
         else Some (0, s))"

text \<open>The id list is set up for the slots of the new ring.\<close>

definition reset_ids :: "vscsifrnt_info \<Rightarrow> vscsifrnt_info" where
  "reset_ids i = shadow_init (unat (f_nr_ents (vring i))) i"

definition scsifront_resume ::
    "scsi_ctl_env \<Rightarrow> ((vscsiif_request, vscsiif_response) sring \<Rightarrow> (vscsiif_request, vscsiif_response) sring) \<Rightarrow>
     u32 \<Rightarrow> scsi_dev \<Rightarrow> (int \<times> scsi_dev) option" where
  "scsifront_resume e peer xbt s = do {
     i \<leftarrow> scsifront_finish_all (cenv e) peer (sd_info s);
     s \<leftarrow> scsifront_resume_free e (s\<lparr>sd_info := i\<rparr>);
     (err, s) \<leftarrow> scsifront_init_ring e xbt s;
     if err \<noteq> 0 then do { s \<leftarrow> scsifront_free e s; Some (err, s) }
     else do {
       s \<leftarrow> switch_to e XenbusStateInitialised
              (upd_info (\<lambda>i. (reset_ids i)\<lparr>vshadow_free := unat (req_prod_pvt (vring i))\<rparr>) s);
       Some (0, s)
     }
   }"

text \<open>
  \<open>ws\<close> are the waits for the calls under way: what the other threads do until the last of them
  wakes the caller, or \<open>None\<close> for a signal.
\<close>

fun wait_callers :: "(vscsifrnt_info \<Rightarrow> vscsifrnt_info option) option list \<Rightarrow> bool \<Rightarrow> vscsifrnt_info \<Rightarrow>
    (int \<times> vscsifrnt_info) option" where
  "wait_callers [] err s = (if callers s = 0 \<or> err then Some (if err then - ERESTARTSYS else 0, s) else None)"
| "wait_callers (w # ws) err s =
     (if callers s = 0 \<or> err then Some (if err then - ERESTARTSYS else 0, s)
      else (case w of
              None \<Rightarrow> wait_callers ws True (s\<lparr>waiting_pause := True, waiting_sync := False\<rparr>)
            | Some f \<Rightarrow> do { s \<leftarrow> f (s\<lparr>waiting_pause := True, waiting_sync := False\<rparr>); wait_callers ws False s }))"

definition scsifront_suspend :: "(vscsifrnt_info \<Rightarrow> vscsifrnt_info option) option list \<Rightarrow> scsi_dev \<Rightarrow>
    (int \<times> scsi_dev) option" where
  "scsifront_suspend ws s = do {
     (err, i) \<leftarrow> wait_callers ws False ((sd_info s)\<lparr>pause := True\<rparr>);
     Some (err, s\<lparr>sd_info := i\<rparr>)
   }"

definition scsifront_suspend_cancel :: "scsi_dev \<Rightarrow> int \<times> scsi_dev" where
  "scsifront_suspend_cancel s = (0, upd_info (\<lambda>i. i\<lparr>pause := False\<rparr>) s)"

definition scsifront_remove :: "scsi_ctl_env \<Rightarrow> scsi_dev \<Rightarrow> (int \<times> scsi_dev) option" where
  "scsifront_remove e s = do {
     s \<leftarrow> scsifront_free e (if kthread s then s\<lparr>kthread := False\<rparr> else s);
     Some (0, s)
   }"

definition scsifront_disconnect :: "scsi_ctl_env \<Rightarrow> scsi_dev \<Rightarrow> (int \<times> scsi_dev) option" where
  "scsifront_disconnect e s = do {
     (_, d, x) \<leftarrow> xenbus_frontend_closed (scan_i e) (sd_dev s) (sd_xs s);
     Some (0, s\<lparr>host_gone := True, sd_dev := d, sd_xs := x\<rparr>)
   }"

section \<open>Logical units\<close>

datatype lun_op = VSCSIFRONT_OP_ADD_LUN | VSCSIFRONT_OP_DEL_LUN | VSCSIFRONT_OP_READD_LUN

text \<open>Buffers of 64 bytes.\<close>

definition lun_path :: "u8 list \<Rightarrow> string \<Rightarrow> u8 list" where
  "lun_path d leaf = take 63 (bytes ''vscsi-devs/'' @ d @ bytes leaf)"

definition XENBUS_EXIST_ERR :: "int \<Rightarrow> bool" where
  "XENBUS_EXIST_ERR err \<longleftrightarrow> err = - ENOENT \<or> err = - ERANGE"

text \<open>The results of the writes are not looked at, nor that of a scan for a new unit.\<close>

definition set_lun_state :: "u8 list \<Rightarrow> xenbus_state \<Rightarrow> scsi_dev \<Rightarrow> scsi_dev option" where
  "set_lun_state path st s = do {
     (_, x) \<leftarrow> xenbus_printf 0 (nodename (sd_dev s)) path (print_d (int (state_num st))) (sd_xs s);
     Some (s\<lparr>sd_xs := x\<rparr>)
   }"

definition hotplug_lun :: "scsi_ctl_env \<Rightarrow> lun_op \<Rightarrow> u32 \<Rightarrow> u32 \<times> u32 \<times> u32 \<Rightarrow> u8 list \<Rightarrow> scsi_dev \<Rightarrow> scsi_dev option" where
  "hotplug_lun e op state lun path s =
     (case op of
        VSCSIFRONT_OP_ADD_LUN \<Rightarrow>
          if unat state = state_num XenbusStateInitialised
          then if lun \<in> set (luns s) then set_lun_state path XenbusStateClosed s
               else set_lun_state path XenbusStateConnected (if lun_found e lun then s\<lparr>luns := lun # luns s\<rparr> else s)
          else Some s
      | VSCSIFRONT_OP_DEL_LUN \<Rightarrow>
          if unat state = state_num XenbusStateClosing \<and> lun \<in> set (luns s)
          then set_lun_state path XenbusStateClosed (s\<lparr>luns := removeAll lun (luns s)\<rparr>)
          else Some s
      | VSCSIFRONT_OP_READD_LUN \<Rightarrow>
          if unat state = state_num XenbusStateConnected then set_lun_state path XenbusStateConnected s else Some s)"

text \<open>A variable that \<open>sscanf\<close> does not reach keeps the value it has.\<close>

definition assigned :: "u32 list option \<Rightarrow> u32 list \<Rightarrow> u32 list" where
  "assigned v old = (case v of None \<Rightarrow> old | Some new \<Rightarrow> new @ drop (length new) old)"

text \<open>\<open>st\<close> and \<open>dv\<close> are the variables \<open>device_state\<close> and \<open>hst\<close>, \<open>chn\<close>, \<open>tgt\<close>, \<open>lun\<close>.\<close>

fun hotplug_luns :: "scsi_ctl_env \<Rightarrow> lun_op \<Rightarrow> u8 list list \<Rightarrow> u32 list \<Rightarrow> u32 list \<Rightarrow> scsi_dev \<Rightarrow> scsi_dev option" where
  "hotplug_luns e op [] st dv s = Some s"
| "hotplug_luns e op (d # ds) st dv s = do {
     ((n, v), x) \<leftarrow> xenbus_scanf 0 (otherend (sd_dev s)) (lun_path d ''/state'') (scan_nums e 1) (sd_xs s);
     let s = s\<lparr>sd_xs := x\<rparr>;
     let st = assigned v st;
     if XENBUS_EXIST_ERR n then hotplug_luns e op ds st dv s
     else do {
       ((n, v), x) \<leftarrow> xenbus_scanf 0 (otherend (sd_dev s)) (lun_path d ''/v-dev'') (scan_nums e 4) (sd_xs s);
       let s = s\<lparr>sd_xs := x\<rparr>;
       let dv = assigned v dv;
       if XENBUS_EXIST_ERR n then hotplug_luns e op ds st dv s
       else do {
         s \<leftarrow> hotplug_lun e op (st ! 0) (dv ! 1, dv ! 2, dv ! 3) (lun_path d ''/state'') s;
         hotplug_luns e op ds st dv s
       }
     }
   }"

text \<open>\<open>st\<close> and \<open>dv\<close> start with what the stack holds.\<close>

definition scsifront_do_lun_hotplug :: "scsi_ctl_env \<Rightarrow> lun_op \<Rightarrow> u32 list \<Rightarrow> u32 list \<Rightarrow> scsi_dev \<Rightarrow> scsi_dev option" where
  "scsifront_do_lun_hotplug e op st dv s = do {
     (r, x) \<leftarrow> xenbus_directory 0 (otherend (sd_dev s)) (bytes ''vscsi-devs'') (sd_xs s);
     (case r of Err _ \<Rightarrow> Some (s\<lparr>sd_xs := x\<rparr>) | Ok ds \<Rightarrow> hotplug_luns e op ds st dv (s\<lparr>sd_xs := x\<rparr>))
   }"

section \<open>Features of the backend\<close>

text \<open>The number read, with the error.\<close>

definition gather_num :: "scsi_ctl_env \<Rightarrow> u8 list \<Rightarrow> scsi_dev \<Rightarrow> (int \<times> u32 \<times> scsi_dev) option" where
  "gather_num e name s = do {
     ((err, vs), x) \<leftarrow> xenbus_gather 0 (otherend (sd_dev s)) [(name, Some (scan_nums e 1))] (sd_xs s);
     Some (err, (case vs of [Inl (v # _)] \<Rightarrow> v | _ \<Rightarrow> 0), s\<lparr>sd_xs := x\<rparr>)
   }"

definition scsifront_setup_persistent :: "scsi_ctl_env \<Rightarrow> scsi_dev \<Rightarrow> scsi_dev option" where
  "scsifront_setup_persistent e s = do {
     (err, v, s) \<leftarrow> gather_num e (bytes ''feature-persistent'') s;
     Some (upd_info (\<lambda>i. i\<lparr>feature_persistent := err = 0 \<and> v \<noteq> 0\<rparr>) s)
   }"

definition scsifront_setup_host :: "scsi_dev \<Rightarrow> scsi_dev" where
  "scsifront_setup_host s =
     (let i = sd_info s;
          nr_segs = (if max_indirect_segments i \<noteq> 0 then max_indirect_segments i else VSCSIIF_SG_TABLESIZE)
      in if \<not> pause i \<and> nr_segs > sg_tablesize s
         then s\<lparr>sg_tablesize := nr_segs, max_sectors := (nr_segs - 1) * 4096 div 512\<rparr> else s)"

fun alloc_indirect :: "nat \<Rightarrow> scsi_dev \<Rightarrow> bool \<times> scsi_dev" where
  "alloc_indirect 0 s = (True, s)"
| "alloc_indirect (Suc n) s =
     (case alloc_page s of
        (None, s) \<Rightarrow> (False, s)
      | (Some p, s) \<Rightarrow> alloc_indirect n (upd_info (\<lambda>i. i\<lparr>indirect_pages := p # indirect_pages i\<rparr>) s))"

text \<open>The arrays of the \<open>n\<close> ids, with those for indirect grants.\<close>

fun alloc_tables :: "nat \<Rightarrow> bool \<Rightarrow> scsi_dev \<Rightarrow> bool \<times> scsi_dev" where
  "alloc_tables 0 indirect s = (True, s)"
| "alloc_tables (Suc n) indirect s =
     (case mem_ok s of (b1, s) \<Rightarrow>
        (case (if indirect then mem_ok s else (True, s)) of (b2, s) \<Rightarrow>
           if b1 \<and> b2 then alloc_tables n indirect s else (False, s)))"

fun drop_tables :: "nat \<Rightarrow> vscsifrnt_info \<Rightarrow> vscsifrnt_info" where
  "drop_tables 0 i = i"
| "drop_tables (Suc n) i = upd_shadow n (\<lambda>h. h\<lparr>grants_used := [], indirect_grants := []\<rparr>) (drop_tables n i)"

definition out_of_memory :: "scsi_dev \<Rightarrow> int \<times> scsi_dev" where
  "out_of_memory s =
     (- ENOMEM, free_indirect_pages
        (upd_info (\<lambda>i. (drop_tables (unat (f_nr_ents (vring i))) i)\<lparr>seg_room := 0\<rparr>) s))"

definition indirect_room :: "int \<Rightarrow> u32 \<Rightarrow> nat" where
  "indirect_room err n =
     (if err = 0 \<and> unat n > VSCSIIF_SG_TABLESIZE then min (unat n) MAX_VSCSI_INDIRECT_SEGMENTS else 0)"

text \<open>\<open>segs\<close> segments for each command; with indirect pages unless \<open>ind\<close> is 0.\<close>

definition setup_pool :: "nat \<Rightarrow> nat \<Rightarrow> scsi_dev \<Rightarrow> (int \<times> scsi_dev) option" where
  "setup_pool ind segs s =
     (let nr = unat (f_nr_ents (vring (sd_info s)))
      in do {
        (err, s) \<leftarrow> fill_grant_buffer ((segs + VSCSI_INDIRECT_PAGES segs) * nr) s;
        if err \<noteq> 0 then Some (out_of_memory s)
        else do {
          (ok, s) \<leftarrow> (if \<not> feature_persistent (sd_info s) \<and> ind \<noteq> 0
                     then if indirect_pages (sd_info s) \<noteq> [] then None
                          else Some (alloc_indirect (VSCSI_INDIRECT_PAGES segs * nr) s)
                     else Some (True, s));
          if \<not> ok then Some (out_of_memory s)
          else (case alloc_tables nr (ind \<noteq> 0) s of
                  (False, s) \<Rightarrow> Some (out_of_memory s)
                | (True, s) \<Rightarrow> Some (0, upd_info (\<lambda>i. i\<lparr>seg_room := segs\<rparr>) s))
        }
      })"

definition scsifront_setup_indirect :: "scsi_ctl_env \<Rightarrow> scsi_dev \<Rightarrow> (int \<times> scsi_dev) option" where
  "scsifront_setup_indirect e s = do {
     (err, n, s) \<leftarrow> gather_num e (bytes ''feature-max-indirect-segments'') s;
     let ind = indirect_room err n;
     setup_pool ind (if ind \<noteq> 0 then ind else VSCSIIF_SG_TABLESIZE)
       (scsifront_setup_host (upd_info (\<lambda>i. i\<lparr>max_indirect_segments := ind\<rparr>) s))
   }"

section \<open>The backend's state\<close>

definition read_own_state :: "scsi_ctl_env \<Rightarrow> scsi_dev \<Rightarrow> (bool \<times> scsi_dev) option" where
  "read_own_state e s = do {
     (st, x) \<leftarrow> xenbus_read_driver_state (scan_i e) (nodename (sd_dev s)) (sd_xs s);
     Some (st = int (state_num XenbusStateInitialised), s\<lparr>sd_xs := x\<rparr>)
   }"

definition setup_features :: "scsi_ctl_env \<Rightarrow> scsi_dev \<Rightarrow> (int \<times> scsi_dev) option" where
  "setup_features e s = do {
     (own, s) \<leftarrow> read_own_state e s;
     if own then do { s \<leftarrow> scsifront_setup_persistent e s; scsifront_setup_indirect e s }
     else Some (0, s)
   }"

text \<open>\<open>xbt\<close>, \<open>st\<close> and \<open>dv\<close> are what uninitialised variables of the callees hold.\<close>

definition backend_connected :: "scsi_ctl_env \<Rightarrow> u32 list \<Rightarrow> u32 list \<Rightarrow> scsi_dev \<Rightarrow> scsi_dev option" where
  "backend_connected e st dv s = do {
     (err, s) \<leftarrow> setup_features e s;
     if err \<noteq> 0 then dev_fatal e err (bytes ''setup_indirect at '' @ otherend (sd_dev s)) s
     else if pause (sd_info s)
     then do {
       s \<leftarrow> scsifront_do_lun_hotplug e VSCSIFRONT_OP_READD_LUN st dv s;
       s \<leftarrow> switch_to e XenbusStateConnected s;
       Some (upd_info (\<lambda>i. i\<lparr>pause := False\<rparr>) s)
     }
     else do {
       (own, s) \<leftarrow> read_own_state e s;
       s \<leftarrow> (if own then scsifront_do_lun_hotplug e VSCSIFRONT_OP_ADD_LUN st dv s else Some s);
       if dev_state (sd_dev s) = XenbusStateConnected then Some s else switch_to e XenbusStateConnected s
     }
   }"

definition backend_init_wait :: "scsi_ctl_env \<Rightarrow> u32 \<Rightarrow> scsi_dev \<Rightarrow> scsi_dev option" where
  "backend_init_wait e xbt s =
     (if dev_state (sd_dev s) = XenbusStateInitialised then Some s
      else do {
        (err, s) \<leftarrow> scsifront_init_ring e xbt s;
        if err \<noteq> 0
        then do { s \<leftarrow> scsi_host_put s; dev_fatal e err (bytes ''scsi init ring at '' @ otherend (sd_dev s)) s }
        else switch_to e XenbusStateInitialised (upd_info reset_ids s)
      })"

definition scsifront_backend_changed :: "scsi_ctl_env \<Rightarrow> u32 \<Rightarrow> u32 list \<Rightarrow> u32 list \<Rightarrow> xenbus_state \<Rightarrow> scsi_dev \<Rightarrow>
    scsi_dev option" where
  "scsifront_backend_changed e xbt st dv backend_state s =
     (case backend_state of
        XenbusStateInitWait \<Rightarrow> backend_init_wait e xbt s
      | XenbusStateConnected \<Rightarrow> backend_connected e st dv s
      | XenbusStateClosed \<Rightarrow>
          if dev_state (sd_dev s) = XenbusStateClosed then Some s else map_option snd (scsifront_disconnect e s)
      | XenbusStateClosing \<Rightarrow> map_option snd (scsifront_disconnect e s)
      | XenbusStateReconfiguring \<Rightarrow> do {
          s \<leftarrow> scsifront_do_lun_hotplug e VSCSIFRONT_OP_DEL_LUN st dv s;
          switch_to e XenbusStateReconfiguring s
        }
      | XenbusStateReconfigured \<Rightarrow> do {
          s \<leftarrow> scsifront_do_lun_hotplug e VSCSIFRONT_OP_ADD_LUN st dv s;
          switch_to e XenbusStateConnected s
        }
      | _ \<Rightarrow> Some s)"

end
