(* ===== verification/Scsifront_Setup.thy ===== *)
theory Scsifront_Setup
  imports Scsifront_Ctl Scsifront_Props
begin

text \<open>
  The pieces of \<open>Scsifront_Ctl\<close> one by one: what each call leaves alone, the ring with its grants, the
  id list of a new device, and the pool, counted page by page on the way from the allocator to the
  persistent and the indirect list.
\<close>

section \<open>What the calls leave alone\<close>

lemma upd_info_fields [simp]:
  "sd_info (upd_info f s) = f (sd_info s)" "free_pgs (upd_info f s) = free_pgs s" "sring_page (upd_info f s) = sring_page s"
  "sd_dev (upd_info f s) = sd_dev s" "ring_ref (upd_info f s) = ring_ref s" "ring_size (upd_info f s) = ring_size s"
  "sd_irq (upd_info f s) = sd_irq s" "host_refs (upd_info f s) = host_refs s"
  by (simp_all add: upd_info_def)

text \<open>Only the store client, the device's state and the units.\<close>

definition store_only :: "scsi_dev \<Rightarrow> scsi_dev \<Rightarrow> bool" where
  "store_only s t \<longleftrightarrow> t = s\<lparr>sd_dev := sd_dev t, sd_xs := sd_xs t, luns := luns t\<rparr>"

lemma store_only_refl [simp]: "store_only s s" by (simp add: store_only_def)

lemma store_only_trans: "store_only s t \<Longrightarrow> store_only t u \<Longrightarrow> store_only s u"
  unfolding store_only_def by (cases s; cases t; cases u) simp

lemma store_only_upd [simp]: "store_only s (s\<lparr>sd_xs := x\<rparr>)" "store_only s (s\<lparr>sd_dev := d, sd_xs := x\<rparr>)" "store_only s (s\<lparr>luns := l\<rparr>)"
  by (simp_all add: store_only_def)

lemma store_only_fields:
  assumes "store_only s t"
  shows "sd_info t = sd_info s" "sd_evt t = sd_evt s" "ring_ref t = ring_ref s" "ring_size t = ring_size s"
    "sring_page t = sring_page s" "free_pgs t = free_pgs s" "sd_irq t = sd_irq s" "host_refs t = host_refs s"
    "mem_res t = mem_res s" "free_blocks t = free_blocks s"
  using assms unfolding store_only_def by (cases s; cases t; simp)+

lemma dev_fatal_store: "dev_fatal e err msg s = Some t \<Longrightarrow> store_only s t"
  by (auto simp: dev_fatal_def bind_eq_Some_conv)

lemma switch_to_store: "switch_to e st s = Some t \<Longrightarrow> store_only s t"
  by (auto simp: switch_to_def bind_eq_Some_conv)

lemma gather_num_store: "gather_num e nm s = Some (err, v, t) \<Longrightarrow> store_only s t"
  by (auto simp: gather_num_def bind_eq_Some_conv split: prod.splits)

lemma read_own_state_store: "read_own_state e s = Some (b, t) \<Longrightarrow> store_only s t"
  by (auto simp: read_own_state_def bind_eq_Some_conv split: prod.splits)

lemma set_lun_state_store: "set_lun_state p st s = Some t \<Longrightarrow> store_only s t"
  by (auto simp: set_lun_state_def bind_eq_Some_conv split: prod.splits)

lemma hotplug_lun_store: "hotplug_lun e op st lun p s = Some t \<Longrightarrow> store_only s t"
  by (auto simp: hotplug_lun_def split: lun_op.splits if_splits dest!: set_lun_state_store
      intro: store_only_trans [OF store_only_upd(3)])

lemma hotplug_luns_store: "hotplug_luns e op ds st dv s = Some t \<Longrightarrow> store_only s t"
proof (induction ds arbitrary: st dv s)
  case (Cons d ds)
  obtain n v x where x: "xenbus_scanf 0 (otherend (sd_dev s)) (lun_path d ''/state'') (scan_nums e 1) (sd_xs s) = Some ((n, v), x)"
    using Cons.prems by (auto simp: bind_eq_Some_conv)
  let ?s = "s\<lparr>sd_xs := x\<rparr>"
  show ?case
  proof (cases "XENBUS_EXIST_ERR n")
    case True
    then have "hotplug_luns e op ds (assigned v st) dv ?s = Some t" using Cons.prems x by simp
    then show ?thesis using Cons.IH store_only_trans [OF store_only_upd(1)] by blast
  next
    case f: False
    obtain n' v' x' where x': "xenbus_scanf 0 (otherend (sd_dev s)) (lun_path d ''/v-dev'') (scan_nums e 4) x = Some ((n', v'), x')"
      using Cons.prems x f by (auto simp: bind_eq_Some_conv Let_def)
    have u: "store_only s (s\<lparr>sd_xs := x'\<rparr>)" by simp
    show ?thesis
    proof (cases "XENBUS_EXIST_ERR n'")
      case True
      then have "hotplug_luns e op ds (assigned v st) (assigned v' dv) (s\<lparr>sd_xs := x'\<rparr>) = Some t"
        using Cons.prems x x' f by simp
      then show ?thesis using Cons.IH store_only_trans [OF u] by blast
    next
      case False
      obtain w where w: "hotplug_lun e op (assigned v st ! 0)
          (assigned v' dv ! 1, assigned v' dv ! 2, assigned v' dv ! 3) (lun_path d ''/state'') (s\<lparr>sd_xs := x'\<rparr>) = Some w"
        "hotplug_luns e op ds (assigned v st) (assigned v' dv) w = Some t"
        using Cons.prems x x' f False by (auto simp: bind_eq_Some_conv Let_def)
      show ?thesis
        using store_only_trans [OF u store_only_trans [OF hotplug_lun_store [OF w(1)] Cons.IH [OF w(2)]]] .
    qed
  qed
qed simp

lemma do_lun_hotplug_store:
  assumes "scsifront_do_lun_hotplug e op st dv s = Some t"
  shows "store_only s t"
proof -
  obtain r x where "(case r of Err _ \<Rightarrow> Some (s\<lparr>sd_xs := x\<rparr>) | Ok ds \<Rightarrow> hotplug_luns e op ds st dv (s\<lparr>sd_xs := x\<rparr>)) = Some t"
    using assms by (auto simp: scsifront_do_lun_hotplug_def bind_eq_Some_conv)
  then show ?thesis
    by (cases r) (auto dest!: hotplug_luns_store intro: store_only_trans [OF store_only_upd(1)])
qed

section \<open>Setting up the pool\<close>

definition memory_only :: "scsi_dev \<Rightarrow> scsi_dev \<Rightarrow> bool" where
  "memory_only s t \<longleftrightarrow> t = s\<lparr>sd_info := sd_info t, mem_res := mem_res t, free_pgs := free_pgs t\<rparr>"

lemma memory_only_refl [simp]: "memory_only s s" by (simp add: memory_only_def)

lemma memory_only_trans: "memory_only s t \<Longrightarrow> memory_only t u \<Longrightarrow> memory_only s u"
  unfolding memory_only_def by (cases s; cases t; cases u) simp

lemma memory_only_info [simp]: "memory_only s (upd_info f s)" by (simp add: memory_only_def upd_info_def)

lemma mem_ok_frame: "mem_ok s = (b, t) \<Longrightarrow> memory_only s t \<and> sd_info t = sd_info s \<and> free_pgs t = free_pgs s"
  by (auto simp: mem_ok_def memory_only_def split: list.splits)

lemma alloc_page_frame:
  "alloc_page s = (Some p, t) \<Longrightarrow> memory_only s t \<and> sd_info t = sd_info s \<and> free_pgs s = p # free_pgs t"
proof -
  assume run: "alloc_page s = (Some p, t)"
  obtain b u where u: "mem_ok s = (b, u)" by (cases "mem_ok s")
  then obtain ps where ps: "free_pgs u = p # ps" "t = u\<lparr>free_pgs := ps\<rparr>"
    using run by (auto simp: alloc_page_def split: if_splits list.splits)
  have "memory_only u t" using ps by (simp add: memory_only_def)
  then show ?thesis using mem_ok_frame [OF u] ps memory_only_trans by auto
qed

text \<open>The pages \<open>ps\<close> a new pool takes; without persistent grants it takes none.\<close>

definition empty_grant :: "nat \<Rightarrow> grant" where "empty_grant p = \<lparr>gr_gref = GRANT_INVALID_REF, gr_pfn = p\<rparr>"

lemma add_grant_info: "sd_info (add_grant p s) = (sd_info s)\<lparr>grants := empty_grant p # grants (sd_info s)\<rparr>"
  "free_pgs (add_grant p s) = free_pgs s" "memory_only s (add_grant p s)"
  by (simp_all add: add_grant_def upd_info_def empty_grant_def memory_only_def)

definition pages_taken :: "bool \<Rightarrow> nat list \<Rightarrow> scsi_dev \<Rightarrow> scsi_dev \<Rightarrow> bool" where
  "pages_taken persistent ps s t \<longleftrightarrow>
     (if persistent then free_pgs s = ps @ free_pgs t else free_pgs t = free_pgs s \<and> set ps \<subseteq> {0})"

lemma fill_grants_ok:
  "fill_grants n i s = (True, j, t) \<Longrightarrow>
   \<exists>ps. length ps = n \<and> memory_only s t \<and> pages_taken (feature_persistent (sd_info s)) ps s t \<and>
     sd_info t = (sd_info s)\<lparr>grants := map empty_grant (rev ps) @ grants (sd_info s)\<rparr>"
proof (induction n arbitrary: i s)
  case 0
  then show ?case by (intro exI [of _ "[]"]) (auto simp: pages_taken_def)
next
  case (Suc n)
  obtain b u where u: "mem_ok s = (b, u)" by (cases "mem_ok s")
  have b: "b" using Suc.prems u by (cases b) auto
  have fu: "sd_info u = sd_info s" "free_pgs u = free_pgs s" "memory_only s u" using mem_ok_frame [OF u] by auto
  obtain p v where v: "fill_grants n (i + 1) (add_grant p v) = (True, j, t)" "memory_only s v" "sd_info v = sd_info s"
    "if feature_persistent (sd_info s) then free_pgs s = p # free_pgs v else p = 0 \<and> free_pgs v = free_pgs s"
  proof (cases "feature_persistent (sd_info s)")
    case True
    then obtain p v where "alloc_page u = (Some p, v)" "fill_grants n (i + 1) (add_grant p v) = (True, j, t)"
      using Suc.prems u b fu by (auto split: prod.splits option.splits)
    then show thesis using alloc_page_frame [of u p v] fu True memory_only_trans that by auto
  next
    case False
    then have "fill_grants n (i + 1) (add_grant 0 u) = (True, j, t)" using Suc.prems u b fu by simp
    then show thesis using fu False that by auto
  qed
  obtain ps where ps: "length ps = n" "memory_only (add_grant p v) t"
    "pages_taken (feature_persistent (sd_info (add_grant p v))) ps (add_grant p v) t"
    "sd_info t = (sd_info (add_grant p v))\<lparr>grants := map empty_grant (rev ps) @ grants (sd_info (add_grant p v))\<rparr>"
    using Suc.IH [OF v(1)] by auto
  have "memory_only s t" using v(2) add_grant_info(3) ps(2) memory_only_trans by blast
  moreover have "pages_taken (feature_persistent (sd_info s)) (p # ps) s t"
    using ps(3) v(3,4) by (auto simp: add_grant_info pages_taken_def split: if_splits)
  moreover have "sd_info t = (sd_info s)\<lparr>grants := map empty_grant (rev (p # ps)) @ grants (sd_info s)\<rparr>"
    using ps(4) v(3) by (simp add: add_grant_info)
  ultimately show ?case using ps(1) by (intro exI [of _ "p # ps"]) simp
qed

lemma alloc_indirect_ok:
  "alloc_indirect n s = (True, t) \<Longrightarrow>
   \<exists>ps. length ps = n \<and> memory_only s t \<and> free_pgs s = ps @ free_pgs t \<and>
     sd_info t = (sd_info s)\<lparr>indirect_pages := rev ps @ indirect_pages (sd_info s)\<rparr>"
proof (induction n arbitrary: s)
  case 0
  then show ?case by (intro exI [of _ "[]"]) auto
next
  case (Suc n)
  then obtain p u where u: "alloc_page s = (Some p, u)"
    "alloc_indirect n (upd_info (\<lambda>i. i\<lparr>indirect_pages := p # indirect_pages i\<rparr>) u) = (True, t)"
    by (auto split: prod.splits option.splits)
  note f = alloc_page_frame [OF u(1)]
  obtain ps where ps: "length ps = n" "memory_only (upd_info (\<lambda>i. i\<lparr>indirect_pages := p # indirect_pages i\<rparr>) u) t"
    "free_pgs u = ps @ free_pgs t"
    "sd_info t = (sd_info u)\<lparr>indirect_pages := rev ps @ p # indirect_pages (sd_info u)\<rparr>"
    using Suc.IH [OF u(2)] by (auto simp: upd_info_def)
  have "memory_only s t" using f memory_only_info ps(2) memory_only_trans by blast
  then show ?case using f ps by (intro exI [of _ "p # ps"]) simp
qed

lemma alloc_tables_ok: "alloc_tables n ind s = (b, t) \<Longrightarrow> memory_only s t \<and> sd_info t = sd_info s \<and> free_pgs t = free_pgs s"
proof (induction n arbitrary: s)
  case (Suc n)
  obtain b1 u where u: "mem_ok s = (b1, u)" by (cases "mem_ok s")
  obtain b2 v where v: "(if ind then mem_ok u else (True, u)) = (b2, v)" by fastforce
  have f: "memory_only s v \<and> sd_info v = sd_info s \<and> free_pgs v = free_pgs s"
    using mem_ok_frame [OF u] mem_ok_frame [of u b2 v] v memory_only_trans by (auto split: if_splits)
  show ?case
  proof (cases "b1 \<and> b2")
    case True
    then have "alloc_tables n ind v = (b, t)" using Suc.prems u v by simp
    then show ?thesis using Suc.IH f memory_only_trans by metis
  next
    case False
    then show ?thesis using Suc.prems u v f by auto
  qed
qed simp

section \<open>The ring\<close>

lemma ring_slots: "k \<le> 3 \<Longrightarrow> unat (RING_SIZE_of 252 (of_nat (2 ^ k * 4096))) = 16 * 2 ^ k"
proof -
  assume "k \<le> 3"
  then consider "k = 0" | "k = 1" | "k = 2" | "k = 3" by linarith
  then show ?thesis
    by cases (simp_all add: RING_SIZE_of_def sring_header_def RD32_def RD16_def RD8_def RD4_def RD2_def)
qed

lemma ring_order_le: "unat (ring_order_of r) \<le> 3"
proof -
  have "ring_order_of r \<le> 3"
    by (simp add: ring_order_of_def VSCSIIF_MAX_RING_ORDER_def Let_def not_less split: prod.splits)
  then show ?thesis by (simp add: word_le_nat_alt)
qed

text \<open>Page \<open>i\<close> of the ring at \<open>p\<close>, granted to the backend for reading and writing.\<close>

definition ring_entry :: "u16 \<Rightarrow> nat \<Rightarrow> nat \<Rightarrow> grant_entry_v1" where
  "ring_entry dmn p i = \<lparr>flags = GTF_permit_access, domid = dmn, frame = of_nat (p + i)\<rparr>"

definition ring_granted :: "u16 \<Rightarrow> nat \<Rightarrow> nat \<Rightarrow> scsi_dev \<Rightarrow> bool" where
  "ring_granted dmn p n s \<longleftrightarrow> n \<le> length (ring_ref s) \<and> held_refs (take n (ring_ref s)) (vgnt (sd_info s)) \<and>
     (\<forall>i<n. shared (vgnt (sd_info s)) (ring_ref s ! i) = ring_entry dmn p i)"

text \<open>These pages as grants.\<close>

definition ring_grants :: "scsi_dev \<Rightarrow> grant multiset" where
  "ring_grants s = mset (map (\<lambda>i. \<lparr>gr_gref = ring_ref s ! i, gr_pfn = the (sring_page s) + i\<rparr>) [0..<ring_size s])"

lemma ring_granted_refs:
  assumes "ring_granted dmn p (ring_size s) s" and "sring_page s = Some p"
  shows "refs_of (ring_grants s) = mset (take (ring_size s) (ring_ref s))"
    and "\<forall>g \<in># ring_grants s. granted g \<and> backed dmn (vgnt (sd_info s)) g"
proof -
  let ?n = "ring_size s"
  have h: "?n \<le> length (ring_ref s)" "set (take ?n (ring_ref s)) \<subseteq> gnt_refs (vgnt (sd_info s))"
    "\<forall>i<?n. shared (vgnt (sd_info s)) (ring_ref s ! i) = ring_entry dmn p i"
    using assms(1) by (simp_all add: ring_granted_def held_refs_def)
  have gr: "ring_ref s ! i \<noteq> GRANT_INVALID_REF" if "i < ?n" for i
  proof -
    have "ring_ref s ! i \<in> set (take ?n (ring_ref s))" using that h(1) by (force simp: in_set_conv_nth)
    then show ?thesis using h(2) zero_no_ref by (metis GRANT_INVALID_REF_def subsetD)
  qed
  then show g: "\<forall>g \<in># ring_grants s. granted g \<and> backed dmn (vgnt (sd_info s)) g"
    using h(3) assms(2) by (auto simp: ring_grants_def granted_def backed_def ring_entry_def GTF_permit_access_def)
  have "filter_mset granted (ring_grants s) = ring_grants s" using g by (simp add: filter_mset_eq_conv)
  then have "refs_of (ring_grants s) = mset (map (\<lambda>i. ring_ref s ! i) [0..<?n])"
    by (simp add: refs_of_def) (simp add: ring_grants_def image_mset.compositionality comp_def)
  also have "map (\<lambda>i. ring_ref s ! i) [0..<?n] = take ?n (ring_ref s)" using h(1) by (intro nth_equalityI) simp_all
  finally show "refs_of (ring_grants s) = mset (take ?n (ring_ref s))" .
qed

text \<open>Neither the ring nor what belongs to it changes.\<close>

definition same_ring :: "scsi_dev \<Rightarrow> scsi_dev \<Rightarrow> bool" where
  "same_ring s t \<longleftrightarrow> ring_ref t = ring_ref s \<and> ring_size t = ring_size s \<and> sring_page t = sring_page s \<and>
     sd_irq t = sd_irq s \<and> sd_evt t = sd_evt s \<and> host_refs t = host_refs s \<and> host_gone t = host_gone s"

lemma same_ring_trans: "same_ring s t \<Longrightarrow> same_ring t u \<Longrightarrow> same_ring s u"
  by (simp add: same_ring_def)

lemma same_ring_grants: "same_ring s t \<Longrightarrow> ring_grants t = ring_grants s"
  by (simp add: same_ring_def ring_grants_def)

lemma store_only_ring: "store_only s t \<Longrightarrow> same_ring s t"
  unfolding store_only_def same_ring_def by (cases s; cases t) simp

lemma memory_only_ring: "memory_only s t \<Longrightarrow> same_ring s t"
  unfolding memory_only_def same_ring_def by (cases s; cases t) simp

lemma setup_host_ring: "same_ring s (scsifront_setup_host s)"
  by (simp add: same_ring_def scsifront_setup_host_def Let_def)

definition ring_only :: "scsi_dev \<Rightarrow> scsi_dev \<Rightarrow> bool" where
  "ring_only s t \<longleftrightarrow> t = s\<lparr>sd_info := sd_info t, sd_xs := sd_xs t, sd_dev := sd_dev t, ring_ref := ring_ref t\<rparr> \<and>
     sd_info t = (sd_info s)\<lparr>vgnt := vgnt (sd_info t)\<rparr>"

lemma vgnt_trans: "b = a\<lparr>vgnt := x\<rparr> \<Longrightarrow> a = i\<lparr>vgnt := y\<rparr> \<Longrightarrow> b = i\<lparr>vgnt := x\<rparr>" for i :: vscsifrnt_info
  by simp

lemma ring_only_trans: "ring_only s t \<Longrightarrow> ring_only t u \<Longrightarrow> ring_only s u"
proof -
  assume a: "ring_only s t" "ring_only t u"
  have "u = s\<lparr>sd_info := sd_info u, sd_xs := sd_xs u, sd_dev := sd_dev u, ring_ref := ring_ref u\<rparr>"
    using a [unfolded ring_only_def, THEN conjunct1] by (cases s; cases t; cases u) simp
  moreover have "sd_info u = (sd_info s)\<lparr>vgnt := vgnt (sd_info u)\<rparr>"
    using vgnt_trans a [unfolded ring_only_def, THEN conjunct2] by blast
  ultimately show ?thesis unfolding ring_only_def ..
qed

lemma grant_ring_pages_err: "grant_ring_pages e p is s = Some (err, t) \<Longrightarrow> \<not> err < 0 \<Longrightarrow> err = 0"
proof (induction "is" arbitrary: s)
  case (Cons i "is")
  obtain r d x g where r: "xenbus_grant_ring (scan_i e) (sgenv (cenv e)) (sd_dev s) (of_nat (p + i)) (sd_xs s, vgnt (sd_info s)) = Some (r, d, x, g)"
    using Cons.prems(1) by (auto simp: bind_eq_Some_conv)
  then show ?case using Cons by (cases "r < 0") (simp_all add: Let_def)
qed simp

lemma grant_ring_pages_ok:
  "grant_ring_pages e p [k..<n] s = Some (0, t) \<Longrightarrow> k \<le> n \<Longrightarrow> n \<le> length (ring_ref s) \<Longrightarrow>
   ring_granted (otherend_id (sd_dev s)) p k s \<Longrightarrow>
   ring_granted (otherend_id (sd_dev s)) p n t \<and> ring_only s t \<and> sd_dev t = sd_dev s \<and> length (ring_ref t) = length (ring_ref s)"
proof (induction "n - k" arbitrary: k s)
  case 0
  then show ?case by (simp add: ring_only_def)
next
  case (Suc m)
  let ?d = "otherend_id (sd_dev s)"
  have up: "[k..<n] = k # [Suc k..<n]" using Suc.hyps(2) by (simp add: upt_conv_Cons)
  obtain err d x g where r: "xenbus_grant_ring (scan_i e) (sgenv (cenv e)) (sd_dev s) (of_nat (p + k)) (sd_xs s, vgnt (sd_info s)) = Some (err, d, x, g)"
    using Suc.prems(1) unfolding up by (auto simp: bind_eq_Some_conv)
  let ?s = "upd_info (\<lambda>j. j\<lparr>vgnt := g\<rparr>) (s\<lparr>sd_dev := d, sd_xs := x\<rparr>)"
  have e0: "\<not> err < 0" using Suc.prems(1) r unfolding up by auto
  then have rest: "grant_ring_pages e p [Suc k..<n] (?s\<lparr>ring_ref := (ring_ref ?s)[k := nat err]\<rparr>) = Some (0, t)"
    using Suc.prems(1) r unfolding up by (auto simp: bind_eq_Some_conv Let_def)
  have acc: "gnttab_grant_foreign_access (sgenv (cenv e)) ?d (of_nat (p + k)) 0 (vgnt (sd_info s)) = Some (err, g)" "d = sd_dev s" "x = sd_xs s"
    using r e0 by (auto simp: xenbus_grant_ring_def split: option.splits if_splits)
  have held: "held_refs (take k (ring_ref s)) (vgnt (sd_info s))" using Suc.prems(4) by (simp add: ring_granted_def)
  have h: "held_refs (take k (ring_ref s) @ [nat err]) g"
    "shared g = (shared (vgnt (sd_info s)))(nat err := ring_entry ?d p k)"
    using grant_access_held [OF held acc(1)] e0 by (auto simp: ring_entry_def)
  have kl: "k < length (ring_ref s)" using Suc.hyps(2) Suc.prems(3) by simp
  have tk: "take (Suc k) ((ring_ref s)[k := nat err]) = take k (ring_ref s) @ [nat err]"
    using kl by (simp add: take_Suc_conv_app_nth)
  have nin: "nat err \<notin> set (take k (ring_ref s))" using h(1) by (simp add: held_refs_def)
  have old: "ring_ref s ! i \<noteq> nat err" if "i < k" for i
    using nin that kl by (metis in_set_conv_nth length_take min.absorb4 nth_take)
  let ?u = "?s\<lparr>ring_ref := (ring_ref ?s)[k := nat err]\<rparr>"
  have gr: "ring_granted ?d p (Suc k) ?u"
    using h Suc.prems(4) kl tk old
    by (auto simp: ring_granted_def upd_info_def less_Suc_eq nth_list_update)
  have "ring_granted (otherend_id (sd_dev ?u)) p n t \<and> ring_only ?u t \<and> sd_dev t = sd_dev ?u \<and> length (ring_ref t) = length (ring_ref ?u)"
    by (rule Suc.hyps(1)) (use Suc.hyps(2) Suc.prems(2,3) rest gr acc(2) in \<open>simp_all add: upd_info_def\<close>)
  moreover have "ring_only s ?u" using acc by (simp add: ring_only_def upd_info_def)
  ultimately show ?case using ring_only_trans [of s ?u t] acc(2) by (auto simp: upd_info_def)
qed

lemma free_ring_page: "scsifront_free_ring e s = Some t \<Longrightarrow> sring_page t = None"
proof -
  assume "scsifront_free_ring e s = Some t"
  then obtain u where "(let s = (case sring_page u of None \<Rightarrow> u | Some p \<Rightarrow> u\<lparr>free_blocks := p # free_blocks u, sring_page := None\<rparr>)
     in if sd_irq s \<noteq> 0
        then do { v \<leftarrow> unbind_from_irqhandler (evt_others e) (sd_irq s) (sd_evt s); Some (s\<lparr>sd_evt := v, sd_irq := 0\<rparr>) }
        else Some s) = Some t"
    by (auto simp: scsifront_free_ring_def bind_eq_Some_conv Let_def)
  then show "sring_page t = None"
    by (cases "sring_page u") (auto simp: bind_eq_Some_conv Let_def split: if_splits)
qed

lemma scsifront_free_page: "scsifront_free e s = Some t \<Longrightarrow> sring_page t = None"
  by (auto simp: scsifront_free_def scsifront_resume_free_def scsi_host_put_def bind_eq_Some_conv
      split: if_splits dest!: free_ring_page)

lemma alloc_sring_frame:
  "alloc_sring s = (Some p, t) \<Longrightarrow> t = s\<lparr>mem_res := mem_res t, free_blocks := free_blocks t\<rparr>"
  by (auto simp: alloc_sring_def mem_ok_def split: if_splits list.splits)

text \<open>The device with a ring, and what else its set-up has changed.\<close>

definition ring_info :: "scsi_ctl_env \<Rightarrow> nat \<Rightarrow> nat \<Rightarrow> gnttab \<Rightarrow> vscsifrnt_info \<Rightarrow> vscsifrnt_info" where
  "ring_info e p k g i = i\<lparr>vgnt := g, vring := FRONT_RING_INIT 252 (of_nat (2 ^ k * 4096)),
     vsring := SHARED_RING_INIT (raw_ring e p (16 * 2 ^ k))\<rparr>"

definition ring_state :: "scsi_ctl_env \<Rightarrow> nat \<Rightarrow> nat \<Rightarrow> gnttab \<Rightarrow> scsi_dev \<Rightarrow> scsi_dev \<Rightarrow> bool" where
  "ring_state e p k g s t \<longleftrightarrow> sring_page t = Some p \<and> ring_size t = 2 ^ k \<and> k \<le> 3 \<and> 0 < sd_irq t \<and>
     ring_granted (otherend_id (sd_dev s)) p (2 ^ k) t \<and> free_pgs t = free_pgs s \<and>
     sd_info t = ring_info e p k g (sd_info s)"

lemma ring_state_store:
  assumes "ring_state e p k g s t" and "store_only t u"
  shows "ring_state e p k g s u"
  using assms(1) unfolding ring_state_def ring_granted_def store_only_fields [OF assms(2)] .

lemma ring_only_fields:
  assumes "ring_only s t"
  shows "ring_size t = ring_size s" "sring_page t = sring_page s" "free_pgs t = free_pgs s" "host_refs t = host_refs s"
  using assms [unfolded ring_only_def, THEN conjunct1] by (cases s; cases t; simp)+

lemma alloc_ring_ok:
  assumes run: "scsifront_alloc_ring e s = Some (0, t)" and page: "sring_page t \<noteq> None"
    and k: "ring_size s = 2 ^ k" "k \<le> 3" and rr: "length (ring_ref s) = 8" and inv: "gnt_inv (vgnt (sd_info s))"
  shows "\<exists>p g. ring_state e p k g s t"
proof -
  have k8: "(2 :: nat) ^ k \<le> 8"
    using power_increasing [of k 3 "2 :: nat"] k(2) by simp
  obtain p u where u: "alloc_sring (clear_refs s) = (Some p, u)"
    using run by (cases "alloc_sring (clear_refs s)"; cases "fst (alloc_sring (clear_refs s))")
      (auto simp: scsifront_alloc_ring_def bind_eq_Some_conv)
  have uf: "sd_info u = sd_info s" "sd_dev u = sd_dev s" "ring_size u = 2 ^ k" "length (ring_ref u) = 8" "free_pgs u = free_pgs s"
    by (subst alloc_sring_frame [OF u], simp add: clear_refs_def k rr k8)+
  let ?v = "init_sring e p u"
  have vf: "vgnt (sd_info ?v) = vgnt (sd_info s)" "sd_dev ?v = sd_dev s" "ring_size ?v = 2 ^ k" "length (ring_ref ?v) = 8"
    "sring_page ?v = Some p" "free_pgs ?v = free_pgs s"
    "sd_info ?v = (sd_info s)\<lparr>vring := FRONT_RING_INIT 252 (of_nat (2 ^ k * 4096)),
       vsring := SHARED_RING_INIT (raw_ring e p (16 * 2 ^ k))\<rparr>"
    using uf ring_slots [OF k(2)] by (simp_all add: init_sring_def upd_info_def Let_def FRONT_RING_INIT_def)
  obtain err w where w: "grant_ring_pages e p [0..<2 ^ k] ?v = Some (err, w)"
    using run u uf(3) by (auto simp: scsifront_alloc_ring_def bind_eq_Some_conv)
  have start: "ring_granted (otherend_id (sd_dev ?v)) p 0 ?v" using inv vf by (simp add: ring_granted_def held_refs_def)
  have e0: "\<not> err < 0" using run u uf(3) w by (auto simp: scsifront_alloc_ring_def bind_eq_Some_conv)
  have err: "err = 0" using grant_ring_pages_err [OF w e0] .
  obtain irq x where x: "bind_listening_port_to_irqhandler (evt_alloc e) (unat (otherend_id (sd_dev w)))
                       (intr_handler e) (intr_cookie e) (sd_evt w) = (irq, x)" by fastforce
  have irq: "\<not> irq \<le> 0"
  proof
    assume "irq \<le> 0"
    then have "do { s \<leftarrow> dev_fatal e irq (bytes ''bind_listening_port_to_irqhandler'') (w\<lparr>sd_evt := x\<rparr>);
        s \<leftarrow> scsifront_free e s; Some (irq, s) } = Some (0, t)"
      using run u uf(3) w e0 x by (simp add: scsifront_alloc_ring_def Let_def)
    then obtain a where "scsifront_free e a = Some t" by (auto simp: bind_eq_Some_conv)
    then show False using scsifront_free_page page by simp
  qed
  then have t: "t = w\<lparr>sd_evt := x, sd_irq := nat irq\<rparr>"
    using run u uf(3) w e0 x by (simp add: scsifront_alloc_ring_def Let_def)
  have g: "ring_granted (otherend_id (sd_dev s)) p (2 ^ k) w" "ring_only ?v w"
    using grant_ring_pages_ok [of e p 0 "2 ^ k" ?v w] w err start vf k8 by auto
  note wf = ring_only_fields [OF g(2), unfolded vf]
  obtain h where h: "sd_info w = (sd_info ?v)\<lparr>vgnt := h\<rparr>" using g(2) [unfolded ring_only_def, THEN conjunct2] by blast
  have "sd_info t = ring_info e p k h (sd_info s)" using h vf(7) t by (simp add: ring_info_def)
  then show ?thesis using g(1) wf(1-3) t irq k
    by (intro exI [of _ p] exI [of _ h]) (simp add: ring_state_def ring_granted_def)
qed

lemma publish_round_store: "publish_round e order xbt s = Some (r, t) \<Longrightarrow> store_only s t"
proof -
  assume run: "publish_round e order xbt s = Some (r, t)"
  obtain xb u where u: "(case xenbus_transaction_start (sd_xs s) of None \<Rightarrow> None
                   | Some (Ok t, x) \<Rightarrow> Some (t, s\<lparr>sd_xs := x\<rparr>)
                   | Some (Err err, x) \<Rightarrow> do {
                       s \<leftarrow> dev_fatal e err (bytes ''starting transaction'') (s\<lparr>sd_xs := x\<rparr>);
                       Some (xbt, s)
                     }) = Some (xb, u)"
    using run by (auto simp: publish_round_def bind_eq_Some_conv)
  then have su: "store_only s u"
    by (auto simp: bind_eq_Some_conv split: option.splits res.splits dest!: dev_fatal_store
        intro: store_only_trans [OF store_only_upd(1)])
  obtain err what x where x: "write_nodes xb (nodename (sd_dev u)) (ring_nodes u order) (sd_xs u) = Some (err, what, x)"
    using run u by (auto simp: publish_round_def bind_eq_Some_conv)
  have w: "store_only s (u\<lparr>sd_xs := y\<rparr>)" for y by (rule store_only_trans [OF su]) simp
  show ?thesis
  proof (cases "err = 0")
    case True
    obtain n y where y: "xenbus_transaction_end xb False x = Some (n, y)"
      using run u x True by (auto simp: publish_round_def bind_eq_Some_conv)
    show ?thesis
      using run u x True y w
      by (auto simp: publish_round_def bind_eq_Some_conv Let_def split: if_splits dest!: dev_fatal_store
          intro: store_only_trans)
  next
    case False
    obtain n y where y: "xenbus_transaction_end xb True x = Some (n, y)"
      using run u x False by (auto simp: publish_round_def bind_eq_Some_conv)
    show ?thesis
      using run u x False y w
      by (auto simp: publish_round_def bind_eq_Some_conv Let_def dest!: dev_fatal_store intro: store_only_trans)
  qed
qed

lemma publish_store: "publish e order xbt s = Some (err, t) \<Longrightarrow> store_only s t"
proof (induction e order xbt s rule: publish.induct)
  case (1 e order xbt s)
  obtain r u where u: "publish_round e order xbt s = Some (r, u)"
    using 1(2) by (auto simp: publish.simps [of e order xbt s] split: option.splits)
  note su = publish_round_store [OF u]
  show ?case
  proof (cases r)
    case (Inl n)
    then show ?thesis using 1(2) u su by (simp add: publish.simps [of e order xbt s])
  next
    case (Inr xb)
    then have "publish e order xb u = Some (err, t)" using 1(2) u by (simp add: publish.simps [of e order xbt s])
    then show ?thesis using 1(1) [OF u refl Inr] su store_only_trans by blast
  qed
qed

lemma init_ring_ok:
  assumes run: "scsifront_init_ring e xbt s = Some (0, t)" and page: "sring_page t \<noteq> None"
    and rr: "length (ring_ref s) = 8" and inv: "gnt_inv (vgnt (sd_info s))"
  shows "\<exists>p k g. ring_state e p k g s t"
proof -
  obtain r x where r: "xenbus_scanf 0 (otherend (sd_dev s)) (bytes ''max-ring-page-order'') (scan_nums e 1) (sd_xs s) = Some (r, x)"
    using run by (auto simp: scsifront_init_ring_def bind_eq_Some_conv)
  let ?k = "unat (ring_order_of r)" and ?s = "s\<lparr>sd_xs := x, ring_size := 2 ^ unat (ring_order_of r)\<rparr>"
  obtain err u where u: "scsifront_alloc_ring e ?s = Some (err, u)"
    using run r by (auto simp: scsifront_init_ring_def bind_eq_Some_conv Let_def)
  have e0: "err = 0" using run r u by (cases "err = 0") (simp_all add: scsifront_init_ring_def Let_def)
  obtain n v where v: "publish e (ring_order_of r) xbt u = Some (n, v)"
    using run r u e0 by (auto simp: scsifront_init_ring_def bind_eq_Some_conv Let_def)
  have n: "n = 0" using run r u e0 v by (cases "n = 0") (auto simp: scsifront_init_ring_def bind_eq_Some_conv Let_def)
  have t: "t = v" using run r u e0 v n by (simp add: scsifront_init_ring_def Let_def)
  have pu: "sring_page u \<noteq> None" using page t store_only_fields(5) [OF publish_store [OF v]] by simp
  obtain p g where "ring_state e p ?k g ?s u"
    using alloc_ring_ok [of e ?s u ?k] u e0 pu ring_order_le rr inv by auto
  then have "ring_state e p ?k g ?s t" using ring_state_store publish_store [OF v] t by simp
  then show ?thesis by (intro exI [of _ p] exI [of _ ?k] exI [of _ g]) (simp add: ring_state_def)
qed

section \<open>The id list and the pool of a new device\<close>

lemma shadow_init_upto_eq:
  "shadow_init_upto n sh = (\<lambda>i. if i < n then (sh i)\<lparr>next_free := i + 1, wait_reset := False\<rparr> else sh i)"
  by (induction n) (auto simp: Let_def fun_eq_iff less_Suc_eq)

lemma reset_ids_vids:
  assumes n: "n = nr_ids i" "0 < n" "n \<le> 128" and free: "vshadow_free i = 0" 
    and sc: "\<forall>j. sc (vshadow i j) = None \<and> next_free (vshadow i j) \<noteq> VSCSIIF_IN_USE"
  shows "vids [0..<n] (reset_ids i)" "\<forall>j<n. sc (vshadow (reset_ids i) j) = None"
proof -
  let ?t = "reset_ids i"
  have r: "?t = shadow_init n i" using n(1) by (simp add: reset_ids_def nr_ids_def)
  have nx: "vnext ?t j = j + 1" if "j < n - 1" for j
    using that n less_le_trans [OF that, of n] by (simp add: r vnext_def shadow_init_def upd_shadow_def shadow_init_upto_eq)
  have nl: "vnext ?t (n - 1) = VSCSIIF_NONE" by (simp add: r vnext_def shadow_init_def upd_shadow_def)
  have "linked (vnext ?t) (n - 1) VSCSIIF_NONE [n - 1]" using nl n by (simp add: VSCSIIF_NONE_def)
  then have "linked (vnext ?t) 0 VSCSIIF_NONE ([0..<n - 1] @ [n - 1])"
    using linked_upt [of 0 "n - 1" "vnext ?t" VSCSIIF_NONE "[n - 1]"] nx n by (simp add: VSCSIIF_NONE_def)
  then have l: "linked (vnext ?t) 0 VSCSIIF_NONE [0..<n]"
    using n(2) by (metis Suc_pred' upt_Suc_append zero_le)
  show s: "\<forall>j<n. sc (vshadow ?t j) = None"
    using sc by (simp add: r shadow_init_def upd_shadow_def shadow_init_upto_eq)
  have "nr_ids ?t = n" "vshadow_free ?t = 0"
    using n(1) free by (simp_all add: r nr_ids_def shadow_init_def upd_shadow_def)
  moreover have "sc (vshadow ?t j) = None \<and> vnext ?t j \<noteq> VSCSIIF_IN_USE" if "n \<le> j" for j
    using sc that n(2) by (simp add: r shadow_init_def upd_shadow_def shadow_init_upto_eq vnext_def VSCSIIF_NONE_def VSCSIIF_IN_USE_def)
  ultimately show "vids [0..<n] ?t" using l s n by (auto simp: vids_def max_reqs)
qed

text \<open>What the pool is set up from.\<close>

definition pool_clear :: "grant multiset \<Rightarrow> vscsifrnt_info \<Rightarrow> bool" where
  "pool_clear X i \<longleftrightarrow> grants i = [] \<and> indirect_pages i = [] \<and> pool_gen True X 0 [] {#} i \<and>
     vids [0..<nr_ids i] i \<and> outstanding [0..<nr_ids i] i"

lemma pool_clear_sc: "pool_clear X i \<Longrightarrow> \<forall>j<nr_ids i. sc (vshadow i j) = None"
  by (auto simp: pool_clear_def vids_def)

lemma no_grants_out: "\<forall>j<nr_ids i. sc (vshadow i j) = None \<Longrightarrow> out_grants i = {#} \<and> out_tables i = {#}"
  by (simp add: out_grants_def out_tables_def held_def held_tables_def moves_data_def)

lemma empty_grant_ungranted [simp]: "\<not> granted (empty_grant p)" "gr_pfn (empty_grant p) = p"
  by (simp_all add: granted_def empty_grant_def)

lemma empty_grants_refs [simp]: "refs_of (image_mset empty_grant M) = {#}"
  by (induction M) auto

definition pool_pages_ok :: "bool \<Rightarrow> nat \<Rightarrow> nat list \<Rightarrow> nat list \<Rightarrow> bool" where
  "pool_pages_ok persistent ind ps qs \<longleftrightarrow> (persistent \<longrightarrow> distinct ps) \<and> 0 \<notin> set qs \<and>
     (ind = 0 \<or> persistent \<longrightarrow> qs = [])"

lemma new_pool_inv:
  assumes clear: "pool_clear X i" and ps: "length ps = (segs + VSCSI_INDIRECT_PAGES segs) * nr_ids i"
    and qs: "ind \<noteq> 0 \<and> \<not> feature_persistent i \<Longrightarrow> length qs = VSCSI_INDIRECT_PAGES segs * nr_ids i"
    and ok: "pool_pages_ok (feature_persistent i) ind ps qs"
    and segs: "segs = (if ind \<noteq> 0 then ind else VSCSIIF_SG_TABLESIZE)" "ind \<noteq> 0 \<Longrightarrow> VSCSIIF_SG_TABLESIZE < ind \<and> ind \<le> MAX_VSCSI_INDIRECT_SEGMENTS"
    and t: "t = i\<lparr>max_indirect_segments := ind, grants := map empty_grant (rev ps), indirect_pages := rev qs, seg_room := segs\<rparr>"
  shows "scsi_run True X 0 [0..<nr_ids i] t"
proof -
  have V: "VSCSI_INDIRECT_PAGES segs = 1"
    using segs by (auto simp: VSCSI_INDIRECT_PAGES_def seg_consts split: if_splits)
  have nr: "nr_ids t = nr_ids i" using t by (simp add: nr_ids_def)
  have out: "out_grants t = {#}" "out_tables t = {#}"
    using no_grants_out [of t] pool_clear_sc [OF clear] t nr by simp_all
  have vn: "vnext t = vnext i" using t by (simp add: vnext_def fun_eq_iff)
  have v: "vids [0..<nr_ids i] t" "outstanding [0..<nr_ids i] t"
    using clear t nr vn by (simp_all add: pool_clear_def vids_def outstanding_def)
  have pool: "pool_gen True X 0 [] {#} t"
    using clear t by (auto simp: pool_inv_def pool_clear_def)
  have room: "room_ok t" using segs t by (simp add: room_ok_def)
  have heads: "count (head_pages {#} t) q \<le> 1" if "feature_persistent t" for q
  proof -
    have "head_pages {#} t = mset ps"
      using t by (simp add: head_pages_def image_mset.compositionality comp_def flip: mset_map)
    then show ?thesis using ok that t by (auto simp: pool_pages_ok_def distinct_count_atmost_1)
  qed
  have "scsi_gen True X 0 [0..<nr_ids i] t"
    using v(1) room pool out heads ps qs ok t nr V by (auto simp: scsi_core_def pool_pages_ok_def)
  then show ?thesis using v(2) by (simp add: scsi_inv_def)
qed

lemma setup_host_info [simp]: "sd_info (scsifront_setup_host s) = sd_info s" "free_pgs (scsifront_setup_host s) = free_pgs s"
  by (simp_all add: scsifront_setup_host_def Let_def)

definition same_device :: "vscsifrnt_info \<Rightarrow> vscsifrnt_info \<Rightarrow> bool" where
  "same_device i j \<longleftrightarrow> pause j = pause i \<and> nr_ids j = nr_ids i \<and> vsring j = vsring i \<and> backend_dom j = backend_dom i \<and>
     finished j = finished i \<and> vgnt j = vgnt i"

lemma out_of_memory_err [simp]: "out_of_memory u \<noteq> (0, t)" "(0, t) \<noteq> out_of_memory u"
  by (auto simp: out_of_memory_def)

lemma setup_pool_ok:
  assumes run: "setup_pool ind segs s = Some (0, t)" and clear: "pool_clear X (sd_info s)"
    and ind: "max_indirect_segments (sd_info s) = ind" "segs = (if ind \<noteq> 0 then ind else VSCSIIF_SG_TABLESIZE)"
      "ind \<noteq> 0 \<Longrightarrow> VSCSIIF_SG_TABLESIZE < ind \<and> ind \<le> MAX_VSCSI_INDIRECT_SEGMENTS"
    and pages: "distinct (free_pgs s)" "0 \<notin> set (free_pgs s)"
  shows "scsi_run True X 0 [0..<nr_ids (sd_info s)] (sd_info t) \<and> same_device (sd_info s) (sd_info t) \<and> same_ring s t"
proof -
  let ?i = "sd_info s"
  let ?nr = "unat (f_nr_ents (vring ?i))"
  have nr: "?nr = nr_ids ?i" by (simp add: nr_ids_def)
  let ?num = "(segs + VSCSI_INDIRECT_PAGES segs) * nr_ids ?i"
  obtain n s2 where s2: "fill_grant_buffer ?num s = Some (n, s2)"
    using run by (auto simp: setup_pool_def nr Let_def bind_eq_Some_conv)
  have n0: "n = 0" using run s2 by (cases "n = 0") (simp_all add: setup_pool_def nr Let_def)
  then obtain j where "fill_grants ?num 0 s = (True, j, s2)"
    using s2 by (auto simp: fill_grant_buffer_def split: prod.splits bool.splits if_splits)
  from fill_grants_ok [OF this] obtain ps where ps: "length ps = ?num"
    "pages_taken (feature_persistent ?i) ps s s2"
    "sd_info s2 = ?i\<lparr>grants := map empty_grant (rev ps) @ grants ?i\<rparr>" "memory_only s s2"
    by auto
  have i2: "sd_info s2 = ?i\<lparr>grants := map empty_grant (rev ps)\<rparr>" using ps(3) clear by (simp add: pool_clear_def)
  have ind2: "indirect_pages (sd_info s2) = []" "feature_persistent (sd_info s2) = feature_persistent ?i"
    using clear by (simp_all add: i2 pool_clear_def)
  let ?own = "\<not> feature_persistent ?i \<and> ind \<noteq> 0"
  obtain ok s3 where s3: "(if ?own then alloc_indirect (VSCSI_INDIRECT_PAGES segs * nr_ids ?i) s2 else (True, s2)) = (ok, s3)"
    by fastforce
  have r3: "(if \<not> ok then Some (out_of_memory s3)
       else (case alloc_tables (nr_ids ?i) (ind \<noteq> 0) s3 of
               (False, s) \<Rightarrow> Some (out_of_memory s)
             | (True, s) \<Rightarrow> Some (0, upd_info (\<lambda>i. i\<lparr>seg_room := segs\<rparr>) s))) = Some (0, t)"
    using run s2 n0 s3 ind2 by (simp add: setup_pool_def nr Let_def split: if_splits)
  have ok: "ok" using r3 by (cases ok) auto
  obtain b s4 where s4: "alloc_tables (nr_ids ?i) (ind \<noteq> 0) s3 = (b, s4)" by fastforce
  have t: "t = upd_info (\<lambda>i. i\<lparr>seg_room := segs\<rparr>) s4" using r3 ok s4 by (cases b) auto
  have i4: "sd_info s4 = sd_info s3" "memory_only s3 s4" using alloc_tables_ok [OF s4] by simp_all
  obtain qs where qs: "?own \<Longrightarrow> length qs = VSCSI_INDIRECT_PAGES segs * nr_ids ?i \<and> free_pgs s2 = qs @ free_pgs s3"
    "\<not> ?own \<Longrightarrow> qs = []" "sd_info s3 = (sd_info s2)\<lparr>indirect_pages := rev qs\<rparr>" "memory_only s2 s3"
  proof (cases "?own")
    case True
    then have "alloc_indirect (VSCSI_INDIRECT_PAGES segs * nr_ids ?i) s2 = (True, s3)" using s3 ok by simp
    from alloc_indirect_ok [OF this] show thesis using that True ind2 by auto
  next
    case False
    then have "s3 = s2" using s3 by (simp split: if_splits)
    then show thesis using False ind2 by (intro that [of "[]"]) auto
  qed
  have it: "sd_info t = ?i\<lparr>max_indirect_segments := ind, grants := map empty_grant (rev ps), indirect_pages := rev qs, seg_room := segs\<rparr>"
    using ind(1) unfolding t upd_info_def by (simp add: i4 qs(3) i2)
  have pk: "pool_pages_ok (feature_persistent ?i) ind ps qs"
  proof -
    have "distinct ps" if "feature_persistent ?i" using ps(2) that pages by (simp add: pages_taken_def)
    moreover have "0 \<notin> set qs"
    proof (cases "?own")
      case True
      then have "free_pgs s = qs @ free_pgs s3" using qs(1) ps(2) by (simp add: pages_taken_def)
      then show ?thesis using pages(2) by simp
    next
      case False
      then show ?thesis using qs(2) by auto
    qed
    ultimately show ?thesis using qs(2) by (auto simp: pool_pages_ok_def)
  qed
  have "scsi_run True X 0 [0..<nr_ids ?i] (sd_info t)"
    by (rule new_pool_inv [OF clear ps(1) _ pk ind(2,3) it]) (use qs(1) in auto)
  moreover have "same_ring s t"
    using memory_only_trans [OF ps(4) memory_only_trans [OF qs(4) memory_only_trans [OF i4(2) memory_only_info]]]
    unfolding t by (rule memory_only_ring)
  ultimately show ?thesis by (simp add: it nr_ids_def same_device_def)
qed

lemma setup_indirect_ok:
  assumes run: "scsifront_setup_indirect e s = Some (0, t)" and clear: "pool_clear X (sd_info s)"
    and pages: "distinct (free_pgs s)" "0 \<notin> set (free_pgs s)"
  shows "scsi_run True X 0 [0..<nr_ids (sd_info s)] (sd_info t) \<and> same_device (sd_info s) (sd_info t) \<and> same_ring s t"
proof -
  obtain err v s1 where s1: "gather_num e (bytes ''feature-max-indirect-segments'') s = Some (err, v, s1)"
    using run by (auto simp: scsifront_setup_indirect_def bind_eq_Some_conv)
  let ?ind = "indirect_room err v"
  let ?s = "scsifront_setup_host (upd_info (\<lambda>i. i\<lparr>max_indirect_segments := ?ind\<rparr>) s1)"
  have i1: "sd_info s1 = sd_info s" "free_pgs s1 = free_pgs s" using store_only_fields [OF gather_num_store [OF s1]] by simp_all
  have si: "sd_info ?s = (sd_info s)\<lparr>max_indirect_segments := ?ind\<rparr>" "free_pgs ?s = free_pgs s" by (simp_all add: upd_info_def i1)
  have sd: "same_device (sd_info s) (sd_info ?s)" "pool_clear X (sd_info ?s)" "nr_ids (sd_info ?s) = nr_ids (sd_info s)"
    using clear by (simp_all add: i1 same_device_def nr_ids_def pool_clear_def vids_def outstanding_def vnext_def [abs_def])
  have "setup_pool ?ind (if ?ind \<noteq> 0 then ?ind else VSCSIIF_SG_TABLESIZE) ?s = Some (0, t)"
    using run s1 by (simp add: scsifront_setup_indirect_def Let_def)
  moreover have "?ind \<noteq> 0 \<Longrightarrow> VSCSIIF_SG_TABLESIZE < ?ind \<and> ?ind \<le> MAX_VSCSI_INDIRECT_SEGMENTS"
    by (auto simp: indirect_room_def seg_consts split: if_splits)
  moreover have "max_indirect_segments (sd_info ?s) = ?ind" by simp
  ultimately have "scsi_run True X 0 [0..<nr_ids (sd_info ?s)] (sd_info t) \<and> same_device (sd_info ?s) (sd_info t) \<and> same_ring ?s t"
    using setup_pool_ok [OF _ sd(2) _ refl] pages si(2) by metis
  moreover have "same_ring s ?s"
    using store_only_ring [OF gather_num_store [OF s1]] memory_only_ring [OF memory_only_info]
      setup_host_ring same_ring_trans by blast
  ultimately show ?thesis using sd same_ring_trans by (auto simp: same_device_def)
qed

end
