(* ===== verification/Scsifront_Ctl_Props.thy ===== *)
theory Scsifront_Ctl_Props
  imports Scsifront_Setup Evtchn_Props
begin

text \<open>
  The composition: a device that goes from probing to connection has the invariant on which the
  data path of \<open>Scsifront_Props\<close> rests. The example runs it against a calm store.
\<close>

section \<open>A device from probing to connection\<close>

lemma alloc_ring_failed:
  assumes run: "scsifront_alloc_ring e s = Some (err, t)" and err: "err \<noteq> 0" and page: "sring_page s = None"
  shows "sring_page t = None"
proof (cases "alloc_sring (clear_refs s)")
  case (Pair o1 u)
  show ?thesis
  proof (cases o1)
    case None
    have "sring_page u = None"
      using Pair page by (auto simp: alloc_sring_def mem_ok_def clear_refs_def split: list.splits if_splits)
    moreover have "store_only u t"
      using run Pair None by (auto simp: scsifront_alloc_ring_def bind_eq_Some_conv dest!: dev_fatal_store)
    ultimately show ?thesis using store_only_fields(5) by metis
  next
    case (Some p)
    obtain n w where w: "grant_ring_pages e p [0..<ring_size u] (init_sring e p u) = Some (n, w)"
      using run Pair Some by (auto simp: scsifront_alloc_ring_def bind_eq_Some_conv)
    show ?thesis
    proof (cases "n < 0")
      case True
      then show ?thesis
        using run Pair Some w scsifront_free_page by (auto simp: scsifront_alloc_ring_def bind_eq_Some_conv)
    next
      case False
      obtain irq x where x: "bind_listening_port_to_irqhandler (evt_alloc e) (unat (otherend_id (sd_dev w)))
          (intr_handler e) (intr_cookie e) (sd_evt w) = (irq, x)" by fastforce
      have "irq \<le> 0" using run Pair Some w False x err by (auto simp: scsifront_alloc_ring_def Let_def split: if_splits)
      then show ?thesis
        using run Pair Some w False x scsifront_free_page
        by (auto simp: scsifront_alloc_ring_def Let_def bind_eq_Some_conv)
    qed
  qed
qed

lemma init_ring_failed:
  assumes run: "scsifront_init_ring e xbt s = Some (err, t)" and err: "err \<noteq> 0" and page: "sring_page s = None"
  shows "sring_page t = None"
proof -
  obtain r x where r: "xenbus_scanf 0 (otherend (sd_dev s)) (bytes ''max-ring-page-order'') (scan_nums e 1) (sd_xs s) = Some (r, x)"
    using run by (auto simp: scsifront_init_ring_def bind_eq_Some_conv)
  let ?s = "s\<lparr>sd_xs := x, ring_size := 2 ^ unat (ring_order_of r)\<rparr>"
  obtain n u where u: "scsifront_alloc_ring e ?s = Some (n, u)"
    using run r by (auto simp: scsifront_init_ring_def bind_eq_Some_conv Let_def)
  show ?thesis
  proof (cases "n = 0")
    case True
    then obtain m v where v: "publish e (ring_order_of r) xbt u = Some (m, v)"
      using run r u by (auto simp: scsifront_init_ring_def bind_eq_Some_conv Let_def)
    then have "scsifront_free e v = Some t"
      using run r u True err by (auto simp: scsifront_init_ring_def bind_eq_Some_conv Let_def split: if_splits)
    then show ?thesis by (rule scsifront_free_page)
  next
    case False
    then have "n = err" "u = t" using run r u by (simp_all add: scsifront_init_ring_def Let_def)
    then show ?thesis using alloc_ring_failed [OF u False] page by simp
  qed
qed

lemma init_wait_ok:
  assumes run: "backend_init_wait e xbt s = Some t" and page: "sring_page s = None" "sring_page t \<noteq> None"
    and rr: "length (ring_ref s) = 8" and inv: "gnt_inv (vgnt (sd_info s))"
  shows "\<exists>p k g u. ring_state e p k g s u \<and> store_only (upd_info reset_ids u) t"
proof -
  have st: "dev_state (sd_dev s) \<noteq> XenbusStateInitialised"
    using run page by (auto simp: backend_init_wait_def)
  obtain err u where u: "scsifront_init_ring e xbt s = Some (err, u)"
    using run st by (auto simp: backend_init_wait_def bind_eq_Some_conv)
  have e0: "err = 0"
  proof (rule ccontr)
    assume e: "err \<noteq> 0"
    then obtain v where v: "scsi_host_put u = Some v" "dev_fatal e err (bytes ''scsi init ring at '' @ otherend (sd_dev v)) v = Some t"
      using run st u by (auto simp: backend_init_wait_def bind_eq_Some_conv)
    have "sring_page t = sring_page u"
      using v(1) store_only_fields(5) [OF dev_fatal_store [OF v(2)]] by (auto simp: scsi_host_put_def split: if_splits)
    then show False using init_ring_failed [OF u e page(1)] page(2) by simp
  qed
  have sw: "store_only (upd_info reset_ids u) t"
    using run st u e0 by (auto simp: backend_init_wait_def dest!: switch_to_store)
  have "sring_page u \<noteq> None" using store_only_fields(5) [OF sw] page(2) by simp
  then show ?thesis using init_ring_ok [of e xbt s u] u e0 rr inv sw by blast
qed

lemma reset_ids_fields:
  "grants (reset_ids i) = grants i" "persistent_gnts_c (reset_ids i) = persistent_gnts_c i"
  "indirect_pages (reset_ids i) = indirect_pages i" "vgnt (reset_ids i) = vgnt i" "vring (reset_ids i) = vring i"
  "nr_ids (reset_ids i) = nr_ids i" "seg_room (reset_ids i) = seg_room i" "pause (reset_ids i) = pause i"
  "vsring (reset_ids i) = vsring i" "backend_dom (reset_ids i) = backend_dom i" "finished (reset_ids i) = finished i"
  by (simp_all add: reset_ids_def nr_ids_def shadow_init_def upd_shadow_def)

lemma ring_state_clear:
  assumes rs: "ring_state e p k g s u" and new: "grants (sd_info s) = []" "persistent_gnts_c (sd_info s) = 0" "backend_dom (sd_info s) = otherend_id (sd_dev s)"
      "indirect_pages (sd_info s) = []" "vshadow_free (sd_info s) = 0"
      "\<forall>j. sc (vshadow (sd_info s) j) = None \<and> next_free (vshadow (sd_info s) j) \<noteq> VSCSIIF_IN_USE"
  shows "pool_clear (ring_grants u) (reset_ids (sd_info u))" "nr_ids (sd_info u) = 16 * 2 ^ k"
proof -
  have k: "k \<le> 3" and i: "sd_info u = ring_info e p k g (sd_info s)" using rs by (simp_all add: ring_state_def)
  show nr: "nr_ids (sd_info u) = 16 * 2 ^ k"
    using ring_slots [OF k] by (simp add: i ring_info_def nr_ids_def FRONT_RING_INIT_def)
  have k8: "(2 :: nat) ^ k \<le> 8" using power_increasing [of k 3 "2 :: nat"] k by simp
  have rg: "ring_granted (otherend_id (sd_dev s)) p (ring_size u) u" "sring_page u = Some p"
    using rs by (simp_all add: ring_state_def)
  have hr: "held_refs (take (ring_size u) (ring_ref u)) (vgnt (sd_info u))" using rg(1) by (simp add: ring_granted_def)
  then have "refs_apart (mset (take (ring_size u) (ring_ref u)) + mset (gnt_free (vgnt (sd_info u)))) (vgnt (sd_info u))"
    using distinct_count [of "take (ring_size u) (ring_ref u) @ gnt_free (vgnt (sd_info u))"]
    by (auto simp: refs_apart_def held_refs_def gnt_inv_def)
  then have pool: "pool_gen True (ring_grants u) 0 [] {#} (reset_ids (sd_info u))"
    using hr new i ring_granted_refs [OF rg] by (simp add: pool_inv_def reset_ids_fields held_refs_def ring_info_def)
  have v: "vids [0..<nr_ids (sd_info u)] (reset_ids (sd_info u))"
    by (rule reset_ids_vids(1)) (use nr k8 new i in \<open>simp_all add: ring_info_def\<close>)
  have "outstanding [0..<nr_ids (sd_info u)] (reset_ids (sd_info u))"
    by (simp add: outstanding_def reset_ids_fields) (simp add: i ring_info_def FRONT_RING_INIT_def)
  then show "pool_clear (ring_grants u) (reset_ids (sd_info u))"
    using v pool new by (simp add: pool_clear_def reset_ids_fields) (simp add: i ring_info_def)
qed

lemma give_pages_info [simp]: "sd_info (fold give_page ps s) = sd_info s"
  by (induction ps arbitrary: s) (simp_all add: give_page_def)

lemma out_of_memory_room: "out_of_memory u = (err, t) \<Longrightarrow> seg_room (sd_info t) = 0"
  by (auto simp: out_of_memory_def free_indirect_pages_def)

lemma setup_pool_failed:
  assumes run: "setup_pool ind segs s = Some (err, t)" and err: "err \<noteq> 0"
  shows "seg_room (sd_info t) = 0"
proof -
  let ?nr = "unat (f_nr_ents (vring (sd_info s)))"
  obtain n u where u: "fill_grant_buffer ((segs + VSCSI_INDIRECT_PAGES segs) * ?nr) s = Some (n, u)"
    using run by (auto simp: setup_pool_def Let_def bind_eq_Some_conv)
  show ?thesis
  proof (cases "n = 0")
    case False
    then have "out_of_memory u = (err, t)" using run u by (simp add: setup_pool_def Let_def)
    then show ?thesis by (rule out_of_memory_room)
  next
    case True
    obtain ok v where v: "(if \<not> feature_persistent (sd_info u) \<and> ind \<noteq> 0
        then if indirect_pages (sd_info u) \<noteq> [] then None
             else Some (alloc_indirect (VSCSI_INDIRECT_PAGES segs * ?nr) u)
        else Some (True, u)) = Some (ok, v)"
      using run u True by (auto simp: setup_pool_def Let_def bind_eq_Some_conv)
    define tb where "tb = alloc_tables ?nr (ind \<noteq> 0) v"
    obtain b w where w: "tb = (b, w)" by fastforce
    have "(if \<not> ok then Some (out_of_memory v)
        else (case tb of (False, s) \<Rightarrow> Some (out_of_memory s)
             | (True, s) \<Rightarrow> Some (0, upd_info (\<lambda>i. i\<lparr>seg_room := segs\<rparr>) s))) = Some (err, t)"
      using run u True v unfolding setup_pool_def Let_def tb_def by (cases ok) (simp_all del: neq0_conv)
    then have r: "(if \<not> ok then Some (out_of_memory v)
        else (case (b, w) of (False, s) \<Rightarrow> Some (out_of_memory s)
             | (True, s) \<Rightarrow> Some (0, upd_info (\<lambda>i. i\<lparr>seg_room := segs\<rparr>) s))) = Some (err, t)"
      unfolding w .
    have "out_of_memory v = (err, t) \<or> out_of_memory w = (err, t)" using r err by (cases ok; cases b) auto
    then show ?thesis using out_of_memory_room by blast
  qed
qed

lemma run_pause: "scsi_run live X n fs (i\<lparr>pause := b\<rparr>) = scsi_run live X n fs i"
proof -
  have "same_core i (i\<lparr>pause := b\<rparr>)" by (simp add: same_core_def same_setup_def)
  from same_core_core [OF this] show ?thesis by (simp add: scsi_inv_def outstanding_def nr_ids_def)
qed

lemma connected_ok:
  assumes run: "backend_connected e st dv s = Some t"
    and sr: "seg_room (sd_info s) = 0" "seg_room (sd_info t) \<noteq> 0"
    and clear: "pool_clear X (sd_info s)" and pages: "distinct (free_pgs s)" "0 \<notin> set (free_pgs s)"
  shows "scsi_run True X 0 [0..<nr_ids (sd_info s)] (sd_info t) \<and>
    same_device (sd_info s) ((sd_info t)\<lparr>pause := pause (sd_info s)\<rparr>) \<and> \<not> pause (sd_info t) \<and> same_ring s t"
proof -
  obtain own s1 where s1: "read_own_state e s = Some (own, s1)"
    using run by (auto simp: backend_connected_def setup_features_def bind_eq_Some_conv)
  note i1 = store_only_fields [OF read_own_state_store [OF s1]]
  obtain err u where u: "setup_features e s = Some (err, u)"
    using run by (auto simp: backend_connected_def bind_eq_Some_conv)
  show ?thesis
  proof (cases "err = 0")
    case False
    then have "seg_room (sd_info t) = seg_room (sd_info u)"
      using run u by (auto simp: backend_connected_def dest!: dev_fatal_store store_only_fields(1))
    moreover have "own" using u s1 False by (cases own) (auto simp: setup_features_def)
    ultimately have "\<exists>v. scsifront_setup_indirect e v = Some (err, u)"
      using u s1 by (auto simp: setup_features_def bind_eq_Some_conv)
    then have "seg_room (sd_info u) = 0"
      using False setup_pool_failed by (auto simp: scsifront_setup_indirect_def bind_eq_Some_conv Let_def)
    then show ?thesis using sr(2) \<open>seg_room (sd_info t) = seg_room (sd_info u)\<close> by simp
  next
    case True
    have it: "sd_info t = (sd_info u)\<lparr>pause := False\<rparr> \<and> same_ring u t"
    proof (cases "pause (sd_info u)")
      case p: True
      then obtain v w where v: "scsifront_do_lun_hotplug e VSCSIFRONT_OP_READD_LUN st dv u = Some v"
        "switch_to e XenbusStateConnected v = Some w" "t = upd_info (\<lambda>i. i\<lparr>pause := False\<rparr>) w"
        using run u True by (auto simp: backend_connected_def bind_eq_Some_conv)
      have "store_only u w" using store_only_trans [OF do_lun_hotplug_store [OF v(1)] switch_to_store [OF v(2)]] .
      then show ?thesis
        using store_only_fields(1) store_only_ring same_ring_trans [OF _ memory_only_ring [OF memory_only_info]] v(3) by fastforce
    next
      case p: False
      obtain o2 v where v: "read_own_state e u = Some (o2, v)"
        using run u True p by (auto simp: backend_connected_def bind_eq_Some_conv)
      obtain w where w: "(if o2 then scsifront_do_lun_hotplug e VSCSIFRONT_OP_ADD_LUN st dv v else Some v) = Some w"
        "(if dev_state (sd_dev w) = XenbusStateConnected then Some w else switch_to e XenbusStateConnected w) = Some t"
        using run u True p v by (auto simp: backend_connected_def bind_eq_Some_conv)
      have "store_only v w" using w(1) do_lun_hotplug_store by (auto split: if_splits)
      moreover have "store_only w t" using w(2) switch_to_store by (auto split: if_splits)
      ultimately have "store_only u t" using read_own_state_store [OF v] store_only_trans by blast
      then show ?thesis using store_only_fields(1) store_only_ring p by simp
    qed
    have own: "own"
    proof (rule ccontr)
      assume "\<not> own"
      then have "u = s1" using u s1 True by (simp add: setup_features_def)
      then show False using it sr i1 by simp
    qed
    then obtain v where v: "scsifront_setup_persistent e s1 = Some v" "scsifront_setup_indirect e v = Some (0, u)"
      using u s1 True by (auto simp: setup_features_def bind_eq_Some_conv)
    obtain n m w where w: "gather_num e (bytes ''feature-persistent'') s1 = Some (n, m, w)"
      "v = upd_info (\<lambda>i. i\<lparr>feature_persistent := n = 0 \<and> m \<noteq> 0\<rparr>) w"
      using v(1) by (auto simp: scsifront_setup_persistent_def bind_eq_Some_conv)
    note iw = store_only_fields [OF gather_num_store [OF w(1)]]
    have b: "sd_info v = (sd_info s)\<lparr>feature_persistent := n = 0 \<and> m \<noteq> 0\<rparr>" "free_pgs v = free_pgs s"
      by (simp_all add: w(2) iw i1)
    have cv: "pool_clear X (sd_info v)" "same_device (sd_info s) (sd_info v)" "nr_ids (sd_info v) = nr_ids (sd_info s)"
      using clear by (simp_all add: b same_device_def nr_ids_def pool_clear_def vids_def outstanding_def vnext_def [abs_def])
    have r: "scsi_run True X 0 [0..<nr_ids (sd_info v)] (sd_info u) \<and> same_device (sd_info v) (sd_info u) \<and> same_ring v u"
      using setup_indirect_ok [OF v(2) cv(1)] pages b(2) by simp
    have "same_ring s v"
      unfolding w(2)
      using store_only_ring [OF read_own_state_store [OF s1]] store_only_ring [OF gather_num_store [OF w(1)]]
        memory_only_ring [OF memory_only_info] same_ring_trans by blast
    then have "same_ring s t" using r it same_ring_trans by blast
    then show ?thesis using it r cv(2,3) by (simp add: same_device_def nr_ids_def run_pause)
  qed
qed

text \<open>
  C5: A device that has been set up is ready for commands. When probing succeeds, the backend reaches
  \<open>InitWait\<close> and the ring comes up, and then \<open>Connected\<close> and the tables can be allocated, the data path
  starts in a state that satisfies its invariant, with every id free, the whole pool unused and the
  grants of the ring apart from all others, whatever ring size and features the backend has announced. The pages of the ring are granted to
  the backend, each by a reference of its own that is off the free list, under the numbers that
  \<open>ring_ref\<close> holds.
\<close>

theorem scsi_device_ready:
  assumes probe: "scsifront_probe e True run add s0 = Some (0, s1)"
    and init: "scsifront_backend_changed e xbt st dv XenbusStateInitWait s1 = Some s2" "sring_page s2 \<noteq> None"
    and conn: "scsifront_backend_changed e xbt' st' dv' XenbusStateConnected s2 = Some s3" "seg_room (sd_info s3) \<noteq> 0"
    and kernel: "gnt_inv (vgnt (sd_info s0))" "distinct (free_pgs s0)" "0 \<notin> set (free_pgs s0)"
    and ok: "run \<ge> 0" "add = 0"
  shows "\<exists>k p. k \<le> 3 \<and> nr_ids (sd_info s3) = 16 * 2 ^ k \<and>
    scsi_run True (ring_grants s3) 0 [0..<nr_ids (sd_info s3)] (sd_info s3) \<and>
    backend_dom (sd_info s3) = otherend_id (sd_dev s0) \<and> vsring (sd_info s3) = SHARED_RING_INIT (raw_ring e p (16 * 2 ^ k)) \<and>
    sring_page s3 = Some p \<and> held_refs (take (2 ^ k) (ring_ref s3)) (vgnt (sd_info s3)) \<and>
    (\<forall>i<2 ^ k. shared (vgnt (sd_info s3)) (ring_ref s3 ! i) =
       \<lparr>flags = GTF_permit_access, domid = otherend_id (sd_dev s0), frame = of_nat (p + i)\<rparr>)"
proof -
  have s1: "s1 = (new_scsi_device s0)\<lparr>kthread := True, max_sectors := (sg_tablesize (new_scsi_device s0) - 1) * 4096 div 512\<rparr>"
    using probe ok by (simp add: scsifront_probe_def Let_def)
  have f1: "sd_info s1 = new_info s0" "sd_dev s1 = sd_dev s0" "sring_page s1 = None" "length (ring_ref s1) = 8" "free_pgs s1 = free_pgs s0"
    by (simp_all add: s1 new_scsi_device_def)
  have i1: "grants (sd_info s1) = []" "persistent_gnts_c (sd_info s1) = 0" "indirect_pages (sd_info s1) = []"
    "vshadow_free (sd_info s1) = 0" "\<forall>j. sc (vshadow (sd_info s1) j) = None \<and> next_free (vshadow (sd_info s1) j) \<noteq> VSCSIIF_IN_USE"
    "vgnt (sd_info s1) = vgnt (sd_info s0)"
    "seg_room (sd_info s1) = 0" "\<not> pause (sd_info s1)" "backend_dom (sd_info s1) = otherend_id (sd_dev s0)"
    by (simp_all add: f1 new_info_def empty_shadow_def VSCSIIF_IN_USE_def)
  have iw: "backend_init_wait e xbt s1 = Some s2" using init(1) by (simp add: scsifront_backend_changed_def)
  obtain p k g u where u: "ring_state e p k g s1 u" "store_only (upd_info reset_ids u) s2"
    using init_wait_ok [OF iw f1(3) init(2) f1(4)] kernel(1) i1(6) by auto
  note i2 = store_only_fields [OF u(2)]
  have iu: "sd_info u = ring_info e p k g (sd_info s1)" "free_pgs u = free_pgs s1" "k \<le> 3" "ring_granted (otherend_id (sd_dev s1)) p (2 ^ k) u"
    using u(1) by (simp_all add: ring_state_def)
  have clear: "pool_clear (ring_grants u) (reset_ids (sd_info u))" "nr_ids (sd_info u) = 16 * 2 ^ k"
    using ring_state_clear [OF u(1)] i1 f1(2) by simp_all
  have cn: "backend_connected e st' dv' s2 = Some s3" using conn(1) by (simp add: scsifront_backend_changed_def)
  have r: "scsi_run True (ring_grants u) 0 [0..<nr_ids (sd_info s2)] (sd_info s3) \<and>
    same_device (sd_info s2) ((sd_info s3)\<lparr>pause := pause (sd_info s2)\<rparr>) \<and> \<not> pause (sd_info s3) \<and> same_ring s2 s3"
    by (rule connected_ok [OF cn])
       (use conn(2) clear kernel i1 i2 iu f1 in \<open>simp_all add: reset_ids_fields ring_info_def\<close>)
  have sd: "nr_ids (sd_info s3) = 16 * 2 ^ k" "vgnt (sd_info s3) = vgnt (sd_info u)"
    "backend_dom (sd_info s3) = otherend_id (sd_dev s0)"
    "vsring (sd_info s3) = SHARED_RING_INIT (raw_ring e p (16 * 2 ^ k))" "nr_ids (sd_info s2) = 16 * 2 ^ k"
    using r clear(2) i1 by (simp_all add: same_device_def i2 reset_ids_fields nr_ids_def) (simp_all add: iu ring_info_def i1)
  have "same_ring u (upd_info reset_ids u)" by (rule memory_only_ring [OF memory_only_info])
  then have "same_ring u s3" using r store_only_ring [OF u(2)] same_ring_trans by blast
  then have "ring_ref s3 = ring_ref u" "ring_grants s3 = ring_grants u" "sring_page s3 = Some p"
    using same_ring_grants u(1) by (simp_all add: same_ring_def ring_state_def)
  then show ?thesis
    using r sd iu(3,4) f1(2) unfolding ring_granted_def ring_entry_def
    by (intro exI [of _ k] exI [of _ p]) simp
qed

section \<open>An example\<close>

text \<open>A calm store: the replies \<open>ms\<close> are on their way, and there is room for \<open>n\<close> bytes.\<close>

definition calm :: "nat \<Rightarrow> (xsd_sockmsg \<times> u8 list) list \<Rightarrow> xs \<Rightarrow> bool" where
  "calm n ms s \<longleftrightarrow> ready n ms s \<and> \<not> transaction_mutex s"

lemma calm_count [simp]: "calm n ms (s\<lparr>transaction_count := c\<rparr>) = calm n ms s" by (simp add: calm_def ready_def)

lemma calm_alloc: "calm n ms s \<Longrightarrow> xs_alloc s = (True, s)" using ready_alloc [of n ms s] by (simp add: calm_def)

lemma calm_talk:
  assumes "calm n (m # ms) s" and "48 \<le> n" and "length (concat vs) \<le> 32"
  shows "\<exists>t. xs_talkv tid ty vs s = Some (talkv_result ty m, t) \<and> calm (n - 48) ms t"
proof -
  have r: "ready n (m # ms) s" "16 + length (concat vs) + (n - 48) \<le> n" using assms by (simp add: calm_def, linarith)
  obtain t where "xs_talkv tid ty vs s = Some (talkv_result ty m, t)" "ready (n - 48) ms t" "client t = client s"
    using talk_ready [OF r, of tid ty] by blast
  then show ?thesis using assms(1) by (auto simp: calm_def client_def)
qed

lemma calm_read:
  assumes "calm n (m # ms) s" and "48 \<le> n" and "length (join d nm) \<le> 31"
  shows "\<exists>t. xenbus_read x d nm s = Some (talkv_result XS_READ m, t) \<and> calm (n - 48) ms t"
  using calm_talk [OF assms(1,2), of "[join d nm @ [0]]" x XS_READ] assms(3)
  by (simp add: xenbus_read_def with_path_def calm_alloc [OF assms(1)] xs_single_def)

lemma calm_printf:
  assumes "calm n (m # ms) s" and "48 \<le> n" and "length (join d nm) + length v \<le> 31" and "talkv_result XS_WRITE m = Ok r"
  shows "\<exists>t. xenbus_printf x d nm v s = Some (0, t) \<and> calm (n - 48) ms t"
  using calm_talk [OF assms(1,2), of "[join d nm @ [0], v]" x XS_WRITE] assms(3,4)
  by (auto simp: xenbus_printf_def xenbus_write_def with_path_def calm_alloc [OF assms(1)] xs_error_def)

lemma calm_start:
  assumes "calm n (m # ms) s" and "48 \<le> n" and "talkv_result XS_TRANSACTION_START m = Ok (v, l)"
  shows "\<exists>t x. xenbus_transaction_start s = Some (Ok x, t) \<and> calm (n - 48) ms t"
proof -
  have c: "calm n (m # ms) (s\<lparr>transaction_count := transaction_count s + 1\<rparr>)" and "\<not> transaction_mutex s"
    using assms(1) by (simp_all add: calm_def ready_def)
  then show ?thesis
    using calm_talk [OF c assms(2), of "[[0]]" 0 XS_TRANSACTION_START] assms(3)
    by (auto simp: xenbus_transaction_start_def transaction_start_def xs_single_def)
qed

lemma calm_end:
  assumes "calm n (m # ms) s" and "48 \<le> n" and "talkv_result XS_TRANSACTION_END m = Ok r"
  shows "\<exists>t. xenbus_transaction_end x False s = Some (0, t) \<and> calm (n - 48) ms t"
  using calm_talk [OF assms(1,2), of "[bytes ''T'' @ [0]]" x XS_TRANSACTION_END] assms(3)
  by (auto simp: xenbus_transaction_end_def xs_single_def xs_error_def bytes_def transaction_end_def calm_def ready_def)

definition store_reply :: "u32 \<Rightarrow> xsd_sockmsg \<times> u8 list" where
  "store_reply ty = (\<lparr>m_type = ty, req_id = 0, tx_id = 0, m_len = 2\<rparr>, [48, 0])"

lemma store_reply_results [simp]:
  "talkv_result XS_READ (store_reply XS_READ) = Ok ([48, 0], 2)"
  "talkv_result XS_WRITE (store_reply XS_WRITE) = Ok ([48, 0], 2)"
  "talkv_result XS_TRANSACTION_START (store_reply XS_TRANSACTION_START) = Ok ([48, 0], 2)"
  "talkv_result XS_TRANSACTION_END (store_reply XS_TRANSACTION_END) = Ok ([48, 0], 2)"
  "talkv_result XS_READ (store_reply XS_WRITE) = Err (- EINVAL)"
  by (simp_all add: talkv_result_def store_reply_def xs_types)

definition round_replies :: "(xsd_sockmsg \<times> u8 list) list" where
  "round_replies = [store_reply XS_TRANSACTION_START, store_reply XS_READ, store_reply XS_WRITE, store_reply XS_TRANSACTION_END]"

lemma calm_switch:
  assumes c: "calm n (round_replies @ ms) s" and n: "192 \<le> n" and d: "st \<noteq> dev_state d" "length (nodename d) \<le> 20"
  shows "\<exists>t. xenbus_switch_state (\<lambda>_. (1, k)) d st s = Some (0, d\<lparr>dev_state := st\<rparr>, t) \<and> calm (n - 192) ms t"
proof -
  have ns: "48 \<le> n" "48 \<le> n - 48" "48 \<le> n - 96" "48 \<le> n - 144" "n - 48 - 48 = n - 96" "n - 96 - 48 = n - 144" "n - 144 - 48 = n - 192"
    using n by linarith+
  note c1 = c [unfolded round_replies_def append_Cons append_Nil]
  obtain x s1 where s1: "xenbus_transaction_start s = Some (Ok x, s1)"
    "calm (n - 48) (store_reply XS_READ # store_reply XS_WRITE # store_reply XS_TRANSACTION_END # ms) s1"
    using calm_start [OF c1 ns(1)] by auto
  have j: "length (join (nodename d) (bytes ''state'')) \<le> 26" using d(2) by (simp add: join_def bytes_def)
  obtain s2 where s2: "xenbus_read x (nodename d) (bytes ''state'') s1 = Some (Ok ([48, 0], 2), s2)"
    "calm (n - 96) (store_reply XS_WRITE # store_reply XS_TRANSACTION_END # ms) s2"
    using calm_read [OF s1(2) ns(2), of "nodename d" "bytes ''state''" x] ns(5) j by auto
  have l: "length (print_d (int (state_num st))) = 1" by (cases st) (simp_all add: print_d_def print_nat.simps)
  obtain s3 where s3: "xenbus_printf x (nodename d) (bytes ''state'') (print_d (int (state_num st))) s2 = Some (0, s3)"
    "calm (n - 144) (store_reply XS_TRANSACTION_END # ms) s3"
    using calm_printf [OF s2(2) ns(3) _ store_reply_results(2), of "nodename d" "bytes ''state''" "print_d (int (state_num st))"] ns(6) j l by auto
  obtain s4 where s4: "xenbus_transaction_end x False s3 = Some (0, s4)" "calm (n - 192) ms s4"
    using calm_end [OF s3(2) ns(4) store_reply_results(4)] ns(7) by auto
  show ?thesis
    using d(1) s1 s2 s3 s4
    by (auto simp: xenbus_switch_state_def switch_state_at_def switch_loop.simps [of _ _ d st s] switch_body_def xenbus_scanf_def)
qed

lemma fill_grants_enough:
  "mem_res s = [] \<Longrightarrow> \<not> feature_persistent (sd_info s) \<Longrightarrow>
   \<exists>i. fill_grants n j s = (True, i, s\<lparr>sd_info := (sd_info s)\<lparr>grants := replicate n (empty_grant 0) @ grants (sd_info s)\<rparr>\<rparr>)"
proof (induction n arbitrary: j s)
  case (Suc n)
  have "\<exists>i. fill_grants n (j + 1) (add_grant 0 s) = (True, i, (add_grant 0 s)\<lparr>sd_info := (sd_info (add_grant 0 s))
      \<lparr>grants := replicate n (empty_grant 0) @ grants (sd_info (add_grant 0 s))\<rparr>\<rparr>)"
    by (rule Suc.IH) (use Suc.prems in \<open>simp_all add: add_grant_def upd_info_def\<close>)
  then show ?case using Suc.prems
    by (auto simp: mem_ok_def add_grant_def upd_info_def empty_grant_def replicate_app_Cons_same)
qed simp

lemma alloc_tables_enough: "mem_res s = [] \<Longrightarrow> alloc_tables n False s = (True, s)"
  by (induction n) (simp_all add: mem_ok_def)


definition scsi_ctl_example_env :: scsi_ctl_env where
  "scsi_ctl_example_env = \<lparr>cenv = scsi_env_example, scan_us = (\<lambda>_. [0]), scan_i = (\<lambda>_. (1, 3)), evt_alloc = (\<lambda>_. Inr 5),
     evt_others = [], intr_handler = 1, intr_cookie = 9,
     raw_ring = (\<lambda>_ n. \<lparr>req_prod = 7, req_event = 7, rsp_prod = 7, rsp_event = 7, pvt_pad = [], pad44 = [],
       ring = replicate n (Rsp \<lparr>rs_rqid = 0, rs_sense_len = 0, rs_sense_buffer = [], rs_rslt = 0, rs_residual_len = 0\<rparr>)\<rparr>),
     lun_found = (\<lambda>_. True)\<rparr>"

text \<open>The backend allows one page for the ring, and has no further features.\<close>

definition scsi_ctl_replies :: "(xsd_sockmsg \<times> u8 list) list" where
  "scsi_ctl_replies = store_reply XS_READ # store_reply XS_TRANSACTION_START # replicate 5 (store_reply XS_WRITE) @
     store_reply XS_TRANSACTION_END # round_replies @ store_reply XS_READ # replicate 3 (store_reply XS_WRITE) @ round_replies"

definition scsi_dev_example :: scsi_dev where
  "scsi_dev_example = \<lparr>sd_info = scsi_example\<lparr>vgnt := gnt_example\<rparr>,
     sd_dev = \<lparr>nodename = [100], otherend = [], otherend_id = 9, dev_state = XenbusStateInitialising, dev_down = False\<rparr>,
     sd_xs = xs_example\<lparr>incoming := scsi_ctl_replies\<rparr>, sd_evt = evtchn_example, ring_ref = [], ring_size = 0, sring_page = None,
     sd_irq = 0, kthread = False, host_refs = 0, host_gone = False, sg_tablesize = 0, max_sectors = 0, luns = [],
     free_pgs = [], free_blocks = [1000], mem_res = []\<rparr>"

definition scsi_probed :: scsi_dev where
  "scsi_probed = (new_scsi_device scsi_dev_example)\<lparr>kthread := True, max_sectors := 200\<rparr>"

lemma probe_example: "scsifront_probe scsi_ctl_example_env True 1 0 scsi_dev_example = Some (0, scsi_probed)"
  by (simp add: scsifront_probe_def scsi_probed_def new_scsi_device_def VSCSIIF_SG_TABLESIZE_def Let_def)

lemma calm_example: "calm 1000 scsi_ctl_replies (sd_xs scsi_probed)"
  using xs_wf0
  by (simp add: calm_def ready_def scsi_probed_def new_scsi_device_def scsi_dev_example_def xs_example_def scsi_ctl_replies_def
      round_replies_def store_reply_def xs_types)

lemma alloc_ring_example:
  assumes blocks: "free_blocks s = p # ps" and m: "mem_res s = []" and ring: "ring_size s = 1" "length (ring_ref s) = 8"
    and dev: "sd_evt s = evtchn_example" "otherend_id (sd_dev s) = 9"
    and g: "gnttab_grant_foreign_access (sgenv (cenv scsi_ctl_example_env)) 9 (of_nat p) 0 (vgnt (sd_info s)) = Some (int r, g)"
  shows "\<exists>t. scsifront_alloc_ring scsi_ctl_example_env s = Some (0, t) \<and> sd_xs t = sd_xs s \<and> sd_dev t = sd_dev s \<and>
    ring_size t = 1 \<and> ring_ref t ! 0 = r \<and> irq_to_evtchn_port (sd_irq t) (sd_evt t) = 5 \<and> mem_res t = [] \<and>
    sring_page t \<noteq> None \<and> pause (sd_info t) = pause (sd_info s)"
proof -
  obtain x xs where rr: "ring_ref s = x # xs" using ring(2) by (cases "ring_ref s") auto
  let ?c = "(clear_refs s)\<lparr>free_blocks := ps\<rparr>"
  have a: "alloc_sring (clear_refs s) = (Some p, ?c)"
    using blocks m by (simp add: alloc_sring_def mem_ok_def clear_refs_def)
  let ?i = "init_sring scsi_ctl_example_env p ?c"
  have fi: "ring_size ?i = 1" "sd_dev ?i = sd_dev s" "sd_xs ?i = sd_xs s" "ring_ref ?i = 0 # xs" "vgnt (sd_info ?i) = vgnt (sd_info s)"
    "sd_evt ?i = evtchn_example" "sring_page ?i = Some p" "mem_res ?i = []" "pause (sd_info ?i) = pause (sd_info s)"
    "ring_size ?c = 1"
    using ring m dev rr by (simp_all add: init_sring_def Let_def upd_info_def clear_refs_def GRANT_INVALID_REF_def)
  let ?w = "upd_info (\<lambda>j. j\<lparr>vgnt := g\<rparr>) (?i\<lparr>sd_dev := sd_dev s, sd_xs := sd_xs s\<rparr>)\<lparr>ring_ref := r # xs\<rparr>"
  have w: "grant_ring_pages scsi_ctl_example_env p [0..<1] ?i = Some (0, ?w)"
    using fi g dev(2) by (simp add: xenbus_grant_ring_def Let_def upd_info_def)
  have al: "alloc_xen_irq evtchn_example = (1, upd_irq 1 (irq_inuse_update (\<lambda>_. True)) evtchn_example)"
    by (simp add: alloc_xen_irq_def evtchn_example_def upt_conv_Cons)
  let ?v = "bind_port 1 5 1 9 True ((upd_irq 1 (irq_inuse_update (\<lambda>_. True)) evtchn_example)\<lparr>hyp := [EVTCHNOP_alloc_unbound 9]\<rparr>)"
  have "hyp (upd_irq 1 (irq_inuse_update (\<lambda>_. True)) evtchn_example) = []" by (simp add: upd_irq_def evtchn_example_def)
  then have b: "bind_listening_port_to_irqhandler (\<lambda>_. Inr 5) 9 1 9 evtchn_example = (1, ?v)"
    by (simp add: bind_listening_port_to_irqhandler_def al Let_def)
  have "irq_to_evtchn_port 1 ?v = 5"
    by (simp add: irq_to_evtchn_port_def bind_port_def unmask_evtchn_def upd_irq_def Let_def evtchn_example_def)
  then obtain v where v: "bind_listening_port_to_irqhandler (\<lambda>_. Inr 5) 9 1 9 evtchn_example = (1, v)" "irq_to_evtchn_port 1 v = 5"
    using b by blast
  have ev: "evt_alloc scsi_ctl_example_env = (\<lambda>_. Inr 5)" "intr_handler scsi_ctl_example_env = 1" "intr_cookie scsi_ctl_example_env = 9"
    by (simp_all add: scsi_ctl_example_env_def)
  have "scsifront_alloc_ring scsi_ctl_example_env s = Some (0, ?w\<lparr>sd_evt := v, sd_irq := 1\<rparr>)"
    using w v(1) fi dev(2) by (simp add: scsifront_alloc_ring_def a ev Let_def upd_info_def)
  then show ?thesis using fi v(2) by (intro exI [of _ "?w\<lparr>sd_evt := v, sd_irq := 1\<rparr>"]) (simp add: upd_info_def)
qed

lemma write_calm:
  assumes "calm n (store_reply XS_WRITE # ms) s" and "48 \<le> n" and "length (join d nm) + length v \<le> 31"
  shows "\<exists>t. write_nodes x d ((nm, v) # ns) s = write_nodes x d ns t \<and> calm (n - 48) ms t"
  using calm_printf [OF assms store_reply_results(2), of x] by auto

lemma publish_example:
  assumes c: "calm 952 (store_reply XS_TRANSACTION_START # replicate 5 (store_reply XS_WRITE) @ store_reply XS_TRANSACTION_END # ms) (sd_xs s)"
    and s: "nodename (sd_dev s) = [100]" "ring_size s = 1" "ring_ref s ! 0 = r" "length (print_nat r) \<le> 2" "irq_to_evtchn_port (sd_irq s) (sd_evt s) = 5"
  shows "\<exists>x. publish e 0 xbt s = Some (0, s\<lparr>sd_xs := x\<rparr>) \<and> calm 616 ms x"
proof -
  have r5: "replicate 5 (store_reply XS_WRITE) = [store_reply XS_WRITE, store_reply XS_WRITE, store_reply XS_WRITE, store_reply XS_WRITE, store_reply XS_WRITE]"
    by (simp add: eval_nat_numeral)
  note c0 = c [unfolded r5 append_Cons append_Nil]
  have nodes: "ring_nodes s 0 = [(bytes ''ring-page-order'', [48]), (bytes ''num-ring-pages'', [49]), (bytes ''ring-ref-'' @ [49], print_nat r),
      (bytes ''event-channel'', [53]), (bytes ''feature-persistent'', [49])]"
    using s print_nat.simps [of 0] print_nat.simps [of 1] print_nat.simps [of 5] by (simp add: ring_nodes_def)
  obtain x y0 where y0: "xenbus_transaction_start (sd_xs s) = Some (Ok x, y0)"
    "calm 904 (store_reply XS_WRITE # store_reply XS_WRITE # store_reply XS_WRITE # store_reply XS_WRITE # store_reply XS_WRITE # store_reply XS_TRANSACTION_END # ms) y0"
    using calm_start [OF c0 _ store_reply_results(3)] by auto
  obtain y1 where y1: "write_nodes x [100] (ring_nodes s 0) y0 = write_nodes x [100] (tl (ring_nodes s 0)) y1"
    "calm 856 (store_reply XS_WRITE # store_reply XS_WRITE # store_reply XS_WRITE # store_reply XS_WRITE # store_reply XS_TRANSACTION_END # ms) y1"
    using write_calm [OF y0(2), of "[100]" "bytes ''ring-page-order''" "[48]" x "tl (ring_nodes s 0)"] by (auto simp: nodes join_def bytes_def)
  obtain y2 where y2: "write_nodes x [100] (tl (ring_nodes s 0)) y1 = write_nodes x [100] (tl (tl (ring_nodes s 0))) y2"
    "calm 808 (store_reply XS_WRITE # store_reply XS_WRITE # store_reply XS_WRITE # store_reply XS_TRANSACTION_END # ms) y2"
    using write_calm [OF y1(2), of "[100]" "bytes ''num-ring-pages''" "[49]" x "tl (tl (ring_nodes s 0))"] by (auto simp: nodes join_def bytes_def)
  obtain y3 where y3: "write_nodes x [100] (tl (tl (ring_nodes s 0))) y2 = write_nodes x [100] (tl (tl (tl (ring_nodes s 0)))) y3"
    "calm 760 (store_reply XS_WRITE # store_reply XS_WRITE # store_reply XS_TRANSACTION_END # ms) y3"
    using write_calm [OF y2(2), of "[100]" "bytes ''ring-ref-'' @ [49]" "print_nat r" x "tl (tl (tl (ring_nodes s 0)))"] s(4) by (auto simp: nodes join_def bytes_def)
  obtain y4 where y4: "write_nodes x [100] (tl (tl (tl (ring_nodes s 0)))) y3 = write_nodes x [100] (tl (tl (tl (tl (ring_nodes s 0))))) y4"
    "calm 712 (store_reply XS_WRITE # store_reply XS_TRANSACTION_END # ms) y4"
    using write_calm [OF y3(2), of "[100]" "bytes ''event-channel''" "[53]" x "tl (tl (tl (tl (ring_nodes s 0))))"] by (auto simp: nodes join_def bytes_def)
  obtain y5 where y5: "write_nodes x [100] (tl (tl (tl (tl (ring_nodes s 0))))) y4 = Some (0, [], y5)"
    "calm 664 (store_reply XS_TRANSACTION_END # ms) y5"
    using write_calm [OF y4(2), of "[100]" "bytes ''feature-persistent''" "[49]" x "[]"] by (auto simp: nodes join_def bytes_def)
  obtain y6 where y6: "xenbus_transaction_end x False y5 = Some (0, y6)" "calm 616 ms y6"
    using calm_end [OF y5(2) _ store_reply_results(4), of x] by auto
  have nn: "ring_nodes (s\<lparr>sd_xs := y0\<rparr>) 0 = ring_nodes s 0" by (simp add: ring_nodes_def)
  have w: "write_nodes x [100] (ring_nodes s 0) y0 = Some (0, [], y5)"
    using y1(1) y2(1) y3(1) y4(1) y5(1) by simp
  have "publish_round e 0 xbt s = Some (Inl 0, s\<lparr>sd_xs := y6\<rparr>)"
    using y0(1) y6(1) s(1) w nn by (simp add: publish_round_def)
  then show ?thesis using y6(2) by (intro exI [of _ y6]) (simp add: publish.simps [of e 0 xbt s])
qed

text \<open>A ring of one page, announced and followed by \<open>Initialised\<close>.\<close>

lemma init_ring_example:
  assumes c: "calm 1000 scsi_ctl_replies (sd_xs s)" and d: "nodename (sd_dev s) = [100]" "otherend (sd_dev s) = []"
    and s: "free_blocks s = p # ps" "mem_res s = []" "length (ring_ref s) = 8" "sd_evt s = evtchn_example" "otherend_id (sd_dev s) = 9"
    and g: "gnttab_grant_foreign_access (sgenv (cenv scsi_ctl_example_env)) 9 (of_nat p) 0 (vgnt (sd_info s)) = Some (int r, g)"
    and r: "length (print_nat r) \<le> 2"
  shows "\<exists>t. scsifront_init_ring scsi_ctl_example_env 0 s = Some (0, t) \<and> sring_page t \<noteq> None \<and> sd_dev t = sd_dev s \<and>
    calm 616 (round_replies @ store_reply XS_READ # replicate 3 (store_reply XS_WRITE) @ round_replies) (sd_xs t) \<and> mem_res t = [] \<and>
    pause (sd_info t) = pause (sd_info s)"
proof -
  let ?e = scsi_ctl_example_env
  obtain x where x: "xenbus_read 0 [] (bytes ''max-ring-page-order'') (sd_xs s) = Some (Ok ([48, 0], 2), x)"
    "calm 952 (store_reply XS_TRANSACTION_START # replicate 5 (store_reply XS_WRITE) @
     store_reply XS_TRANSACTION_END # round_replies @ store_reply XS_READ # replicate 3 (store_reply XS_WRITE) @ round_replies) x"
    using calm_read [OF c [unfolded scsi_ctl_replies_def], of "[]" "bytes ''max-ring-page-order''" 0]
    by (auto simp: join_def bytes_def)
  have r0: "xenbus_scanf 0 (otherend (sd_dev s)) (bytes ''max-ring-page-order'') (scan_nums ?e 1) (sd_xs s) = Some ((1, Some [0]), x)"
    using x(1) by (simp add: d xenbus_scanf_def scan_nums_def scsi_ctl_example_env_def)
  have o: "ring_order_of (1, Some [0]) = 0" by (simp add: ring_order_of_def VSCSIIF_MAX_RING_ORDER_def)
  obtain u where u: "scsifront_alloc_ring ?e (s\<lparr>sd_xs := x, ring_size := 2 ^ unat (0 :: u32)\<rparr>) = Some (0, u)"
    "sd_xs u = x" "sd_dev u = sd_dev s" "ring_size u = 1" "ring_ref u ! 0 = r"
    "irq_to_evtchn_port (sd_irq u) (sd_evt u) = 5" "mem_res u = []" "sring_page u \<noteq> None" "pause (sd_info u) = pause (sd_info s)"
    using alloc_ring_example [of "s\<lparr>sd_xs := x, ring_size := 2 ^ unat (0 :: u32)\<rparr>" p ps r g] s g by auto
  obtain y where y: "publish ?e 0 0 u = Some (0, u\<lparr>sd_xs := y\<rparr>)"
    "calm 616 (round_replies @ store_reply XS_READ # replicate 3 (store_reply XS_WRITE) @ round_replies) y"
    using publish_example [of _ u r ?e 0] x(2) u d r by auto
  have "scsifront_init_ring ?e 0 s = Some (0, u\<lparr>sd_xs := y\<rparr>)"
    using r0 o u(1) y(1) by (simp add: scsifront_init_ring_def Let_def)
  then show ?thesis using u y(2) by simp
qed

lemma switch_example:
  assumes c: "calm 616 (round_replies @ ms) (sd_xs s)" and d: "nodename (sd_dev s) = [100]" "dev_state (sd_dev s) \<noteq> XenbusStateInitialised"
  shows "\<exists>x. switch_to scsi_ctl_example_env XenbusStateInitialised s =
     Some (s\<lparr>sd_dev := (sd_dev s)\<lparr>dev_state := XenbusStateInitialised\<rparr>, sd_xs := x\<rparr>) \<and> calm 424 ms x"
proof -
  have sc: "scan_i scsi_ctl_example_env = (\<lambda>_. (1, 3))" by (simp add: scsi_ctl_example_env_def)
  show ?thesis using calm_switch [OF c, of XenbusStateInitialised "sd_dev s" 3] d sc by (auto simp: switch_to_def)
qed

lemma init_wait_example:
  "\<exists>t. scsifront_backend_changed scsi_ctl_example_env 0 [] [] XenbusStateInitWait scsi_probed = Some t \<and> sring_page t \<noteq> None \<and>
     calm 424 (store_reply XS_READ # replicate 3 (store_reply XS_WRITE) @ round_replies) (sd_xs t) \<and> mem_res t = [] \<and>
     sd_dev t = (sd_dev scsi_probed)\<lparr>dev_state := XenbusStateInitialised\<rparr>"
proof -
  let ?e = scsi_ctl_example_env
  have d: "nodename (sd_dev scsi_probed) = [100]" "otherend (sd_dev scsi_probed) = []"
      "dev_state (sd_dev scsi_probed) = XenbusStateInitialising" "free_blocks scsi_probed = [1000]" "mem_res scsi_probed = []"
      "length (ring_ref scsi_probed) = 8" "sd_evt scsi_probed = evtchn_example" "otherend_id (sd_dev scsi_probed) = 9"
      "vgnt (sd_info scsi_probed) = gnt_example"
    by (simp_all add: scsi_probed_def new_scsi_device_def scsi_dev_example_def new_info_def)
  have "\<exists>g. gnttab_grant_foreign_access (sgenv (cenv ?e)) 9 (of_nat 1000) 0 gnt_example = Some (int 8, g)"
    by (simp add: gnttab_grant_foreign_access_def get_free_entries_def take_entries_def
        gnt_example_def gnttab_entry_def gnt_consts set_gnttab_entry_def gnttab_grant_foreign_access_ref_def
        set_shared_def Let_def)
  then obtain g where g: "gnttab_grant_foreign_access (sgenv (cenv ?e)) 9 (of_nat 1000) 0 (vgnt (sd_info scsi_probed)) = Some (int 8, g)"
    unfolding d(9) ..
  have r: "length (print_nat 8) \<le> 2" by (simp add: print_nat.simps)
  obtain u where u: "scsifront_init_ring ?e 0 scsi_probed = Some (0, u)" "sring_page u \<noteq> None" "sd_dev u = sd_dev scsi_probed"
    "calm 616 (round_replies @ store_reply XS_READ # replicate 3 (store_reply XS_WRITE) @ round_replies) (sd_xs u)" "mem_res u = []"
    using init_ring_example [OF calm_example d(1,2,4-8) g r] by blast
  let ?u = "upd_info reset_ids u"
  obtain x where x: "switch_to ?e XenbusStateInitialised ?u =
     Some (?u\<lparr>sd_dev := (sd_dev ?u)\<lparr>dev_state := XenbusStateInitialised\<rparr>, sd_xs := x\<rparr>)"
     "calm 424 (store_reply XS_READ # replicate 3 (store_reply XS_WRITE) @ round_replies) x"
    using switch_example [of _ ?u] u(3,4) d(1,3) by (auto simp: upd_info_def)
  show ?thesis
    using u x d(3) by (simp add: scsifront_backend_changed_def backend_init_wait_def) (simp add: upd_info_def)
qed

lemma setup_example:
  assumes "feature_persistent (sd_info s) = False" "mem_res s = []"
  shows "\<exists>t. setup_pool 0 VSCSIIF_SG_TABLESIZE s = Some (0, t) \<and> seg_room (sd_info t) = 26 \<and> pause (sd_info t) = pause (sd_info s) \<and>
     sd_xs t = sd_xs s \<and> sd_dev t = sd_dev s"
proof -
  let ?nr = "unat (f_nr_ents (vring (sd_info s)))"
  let ?n = "(VSCSIIF_SG_TABLESIZE + VSCSI_INDIRECT_PAGES VSCSIIF_SG_TABLESIZE) * ?nr"
  let ?t = "s\<lparr>sd_info := (sd_info s)\<lparr>grants := replicate ?n (empty_grant 0) @ grants (sd_info s)\<rparr>\<rparr>"
  obtain i where "fill_grants ?n 0 s = (True, i, ?t)" using fill_grants_enough [of s ?n 0] assms by auto
  then have f: "fill_grant_buffer ?n s = Some (0, ?t)" by (simp add: fill_grant_buffer_def)
  have al: "alloc_tables ?nr False ?t = (True, ?t)" using assms by (intro alloc_tables_enough) simp
  have "setup_pool 0 VSCSIIF_SG_TABLESIZE s = Some (0, upd_info (\<lambda>i. i\<lparr>seg_room := VSCSIIF_SG_TABLESIZE\<rparr>) ?t)"
    using f al by (simp add: setup_pool_def Let_def)
  then show ?thesis by (simp add: upd_info_def VSCSIIF_SG_TABLESIZE_def)
qed

lemma connected_example:
  assumes c: "calm 424 (store_reply XS_READ # replicate 3 (store_reply XS_WRITE) @ round_replies) (sd_xs s)"
    and d: "nodename (sd_dev s) = [100]" "otherend (sd_dev s) = []" "dev_state (sd_dev s) = XenbusStateInitialised"
    and m: "mem_res s = []" "\<not> pause (sd_info s)"
  shows "\<exists>t. scsifront_backend_changed scsi_ctl_example_env 0 [] [] XenbusStateConnected s = Some t \<and> seg_room (sd_info t) = 26"
proof -
  let ?e = scsi_ctl_example_env
  have sc: "scan_i ?e = (\<lambda>_. (1, 3))" by (simp add: scsi_ctl_example_env_def)
  have r3: "replicate 3 (store_reply XS_WRITE) = [store_reply XS_WRITE, store_reply XS_WRITE, store_reply XS_WRITE]"
    by (simp add: eval_nat_numeral)
  note c0 = c [unfolded r3 append_Cons append_Nil]
  obtain x1 where x1: "xenbus_read 0 [100] (bytes ''state'') (sd_xs s) = Some (Ok ([48, 0], 2), x1)"
    "calm 376 (store_reply XS_WRITE # store_reply XS_WRITE # store_reply XS_WRITE # round_replies) x1"
    using calm_read [OF c0, of "[100]" "bytes ''state''" 0] by (auto simp: join_def bytes_def)
  have own1: "read_own_state ?e s = Some (True, s\<lparr>sd_xs := x1\<rparr>)"
    using x1(1) d by (simp add: read_own_state_def xenbus_read_driver_state_def xenbus_scanf_def sc)
  obtain x2 where x2: "xenbus_read 0 [] (bytes ''feature-persistent'') x1 = Some (Err (- EINVAL), x2)"
    "calm 328 (store_reply XS_WRITE # store_reply XS_WRITE # round_replies) x2"
    using calm_read [OF x1(2), of "[]" "bytes ''feature-persistent''" 0] by (auto simp: join_def bytes_def)
  have p: "scsifront_setup_persistent ?e (s\<lparr>sd_xs := x1\<rparr>) = Some (upd_info (\<lambda>i. i\<lparr>feature_persistent := False\<rparr>) (s\<lparr>sd_xs := x2\<rparr>))"
    using x2(1) d by (simp add: scsifront_setup_persistent_def gather_num_def)
  obtain x3 where x3: "xenbus_read 0 [] (bytes ''feature-max-indirect-segments'') x2 = Some (Err (- EINVAL), x3)"
    "calm 280 (store_reply XS_WRITE # round_replies) x3"
    using calm_read [OF x2(2), of "[]" "bytes ''feature-max-indirect-segments''" 0] by (auto simp: join_def bytes_def)
  let ?s = "scsifront_setup_host (upd_info (\<lambda>i. i\<lparr>feature_persistent := False, max_indirect_segments := 0\<rparr>) (s\<lparr>sd_xs := x3\<rparr>))"
  have fs: "feature_persistent (sd_info ?s) = False" "mem_res ?s = []" "sd_xs ?s = x3" "sd_dev ?s = sd_dev s" "\<not> pause (sd_info ?s)"
    using m by (simp_all add: scsifront_setup_host_def Let_def upd_info_def)
  obtain t where t: "setup_pool 0 VSCSIIF_SG_TABLESIZE ?s = Some (0, t)" "seg_room (sd_info t) = 26" "\<not> pause (sd_info t)"
    "sd_xs t = x3" "sd_dev t = sd_dev s"
    using setup_example [OF fs(1,2)] fs(3-5) by auto
  have "upd_info (\<lambda>i. i\<lparr>max_indirect_segments := 0\<rparr>) (upd_info (\<lambda>i. i\<lparr>feature_persistent := False\<rparr>) (s\<lparr>sd_xs := x2\<rparr>)\<lparr>sd_xs := x3\<rparr>) =
      upd_info (\<lambda>i. i\<lparr>feature_persistent := False, max_indirect_segments := 0\<rparr>) (s\<lparr>sd_xs := x3\<rparr>)"
    by (simp add: upd_info_def)
  then have si: "scsifront_setup_indirect ?e (upd_info (\<lambda>i. i\<lparr>feature_persistent := False\<rparr>) (s\<lparr>sd_xs := x2\<rparr>)) = Some (0, t)"
    using x3(1) d t(1) by (simp add: scsifront_setup_indirect_def gather_num_def indirect_room_def upd_info_def Let_def)
  have f: "setup_features ?e s = Some (0, t)" using own1 p si by (simp add: setup_features_def)
  obtain x4 where x4: "xenbus_read 0 [100] (bytes ''state'') x3 = Some (Err (- EINVAL), x4)" "calm 232 (round_replies @ []) x4"
    using calm_read [OF x3(2), of "[100]" "bytes ''state''" 0] by (auto simp: join_def bytes_def)
  have own2: "read_own_state ?e t = Some (False, t\<lparr>sd_xs := x4\<rparr>)"
    using x4(1) d t by (simp add: read_own_state_def xenbus_read_driver_state_def xenbus_scanf_def sc)
  obtain x5 where x5: "xenbus_switch_state (\<lambda>_. (1, 3)) (sd_dev t) XenbusStateConnected x4 =
      Some (0, (sd_dev t)\<lparr>dev_state := XenbusStateConnected\<rparr>, x5)"
    using calm_switch [OF x4(2), of XenbusStateConnected "sd_dev t" 3] d t(5) by auto
  show ?thesis
    using f own2 x5 t(2,3,5) d(3) sc
    by (simp add: scsifront_backend_changed_def backend_connected_def switch_to_def)
qed

theorem scsi_device_ready_witness:
  "\<exists>s2 s3. scsifront_backend_changed scsi_ctl_example_env 0 [] [] XenbusStateInitWait scsi_probed = Some s2 \<and>
     scsifront_backend_changed scsi_ctl_example_env 0 [] [] XenbusStateConnected s2 = Some s3 \<and>
     scsi_run True (ring_grants s3) 0 [0..<nr_ids (sd_info s3)] (sd_info s3) \<and> backend_dom (sd_info s3) = 9"
proof -
  obtain s2 where s2: "scsifront_backend_changed scsi_ctl_example_env 0 [] [] XenbusStateInitWait scsi_probed = Some s2"
    "sring_page s2 \<noteq> None" "calm 424 (store_reply XS_READ # replicate 3 (store_reply XS_WRITE) @ round_replies) (sd_xs s2)"
    "mem_res s2 = []" "sd_dev s2 = (sd_dev scsi_probed)\<lparr>dev_state := XenbusStateInitialised\<rparr>"
    using init_wait_example by blast
  have d: "nodename (sd_dev scsi_probed) = [100]" "otherend (sd_dev scsi_probed) = []" "sring_page scsi_probed = None"
    "length (ring_ref scsi_probed) = 8" "gnt_inv (vgnt (sd_info scsi_probed))" "\<not> pause (sd_info scsi_probed)"
    using gnt_example_inv by (simp_all add: scsi_probed_def new_scsi_device_def scsi_dev_example_def new_info_def)
  have np: "\<not> pause (sd_info s2)"
    using init_wait_ok [of scsi_ctl_example_env 0 scsi_probed s2] s2(1,2) d
    by (auto simp: scsifront_backend_changed_def ring_state_def ring_info_def reset_ids_fields dest!: store_only_fields(1))
  obtain s3 where s3: "scsifront_backend_changed scsi_ctl_example_env 0 [] [] XenbusStateConnected s2 = Some s3" "seg_room (sd_info s3) = 26"
    using connected_example [OF s2(3)] s2(4,5) d np by auto
  have g: "gnt_inv (vgnt (sd_info scsi_dev_example))" "distinct (free_pgs scsi_dev_example)" "0 \<notin> set (free_pgs scsi_dev_example)"
    using gnt_example_inv by (simp_all add: scsi_dev_example_def)
  have "seg_room (sd_info s3) \<noteq> 0" using s3(2) by simp
  from scsi_device_ready [OF probe_example s2(1,2) s3(1) this g] show ?thesis
    using s2(1) s3(1) by (auto simp: scsi_dev_example_def)
qed

end
