(* ===== verification/Scsifront_Release.thy ===== *)
theory Scsifront_Release
  imports Scsifront_Ctl_Props
begin

text \<open>
  Suspend and resume of a SCSI device. After a migration the grant table is empty and the backend
  gone: the driver takes the answers it still finds, ends all other commands, gives every page,
  grant and the ring back, and sets the device up again.
\<close>

section \<open>Finishing what is pending\<close>

lemma linked_next: "linked nx h e xs \<Longrightarrow> x \<in> set xs \<Longrightarrow> nx x \<in> insert e (set xs)"
proof (induction xs arbitrary: h)
  case (Cons y ys)
  show ?case
  proof (cases "x = y")
    case True
    then have "linked nx (nx x) e ys" using Cons.prems(1) by simp
    then show ?thesis using linked_head by (cases ys) fastforce+
  next
    case False
    then show ?thesis using Cons by auto
  qed
qed simp

text \<open>Exactly the ids in flight are marked as in use.\<close>

lemma in_use_iff:
  assumes "vids fs s"
  shows "next_free (vshadow s i) = VSCSIIF_IN_USE \<longleftrightarrow> i < nr_ids s \<and> i \<notin> set fs"
proof
  assume u: "next_free (vshadow s i) = VSCSIIF_IN_USE"
  have "\<forall>j. nr_ids s \<le> j \<longrightarrow> vnext s j \<noteq> VSCSIIF_IN_USE" using assms unfolding vids_def by blast
  then have lt: "i < nr_ids s" using u by (metis not_le vnext_def)
  moreover have "i \<notin> set fs"
  proof
    assume "i \<in> set fs"
    then have "vnext s i \<in> insert VSCSIIF_NONE (set fs)" using assms linked_next by (fastforce simp: vids_def)
    moreover have "vnext s i = VSCSIIF_IN_USE" using u by (simp add: vnext_def)
    ultimately have "VSCSIIF_IN_USE < 128"
      using assms by (auto simp: vids_def max_reqs VSCSIIF_IN_USE_def VSCSIIF_NONE_def)
    then show False by (simp add: VSCSIIF_IN_USE_def)
  qed
  ultimately show "i < nr_ids s \<and> i \<notin> set fs" ..
qed (use assms in \<open>auto simp: vids_def vnext_def\<close>)

text \<open>Each answer ends one command, with the result it carries.\<close>

lemma put_grants_finished: "put_grants e strict gs s = Some t \<Longrightarrow> finished t = finished s"
proof (induction gs arbitrary: s)
  case (Cons g gs)
  then obtain u where u: "put_grant e strict g s = Some u" "put_grants e strict gs u = Some t"
    by (auto simp: bind_eq_Some_conv)
  have "finished u = finished s" using u(1) by (auto simp: put_grant_def bind_eq_Some_conv Let_def split: if_splits)
  then show ?case using Cons.IH [OF u(2)] by simp
qed simp

lemma gnttab_done_finished: "scsifront_gnttab_done e i c s = Some t \<Longrightarrow> finished t = finished s"
  by (auto simp: scsifront_gnttab_done_def bind_eq_Some_conv Let_def dest!: put_grants_finished split: if_splits)

lemma response_finished:
  assumes run: "scsifront_do_response e p s = Some t" and act: "act (vshadow s (unat (rs_rqid p))) = VSCSIIF_ACT_SCSI_CDB"
  shows "\<exists>c d. finished t = finished s @ [(c, rs_rslt p, d)]"
proof -
  have "scsifront_cdb_cmd_done e p s = Some t" using run act by (simp add: scsifront_do_response_def Let_def split: if_splits)
  then obtain c u where u: "scsifront_gnttab_done e (unat (rs_rqid p)) c s = Some u"
    "t = (add_id_to_freelist (unat (rs_rqid p)) u)\<lparr>finished := finished u @ [(c, rs_rslt p, rs_residual_len p,
      take (min VSCSIIF_SENSE_BUFFERSIZE (unat (rs_sense_len p))) (rs_sense_buffer p))]\<rparr>"
    by (auto simp: scsifront_cdb_cmd_done_def bind_eq_Some_conv Let_def)
  then show ?thesis using gnttab_done_finished [OF u(1)] by (auto simp: add_id_to_freelist_def upd_shadow_def)
qed

definition reset_answer :: "nat \<Rightarrow> vscsiif_response" where
  "reset_answer i = \<lparr>rs_rqid = of_nat i, rs_sense_len = 0, rs_sense_buffer = [], rs_rslt = DID_RESET * 65536, rs_residual_len = 0\<rparr>"

text \<open>What the two stages of the end keep.\<close>

definition ended :: "vscsifrnt_info \<Rightarrow> vscsifrnt_info \<Rightarrow> bool" where
  "ended s t \<longleftrightarrow> same_setup s t \<and> all_commands t = all_commands s \<and> same_pages s t"

lemma ended_trans: "ended s t \<Longrightarrow> ended t u \<Longrightarrow> ended s u"
  using same_setup_trans same_pages_trans by (auto simp: ended_def dest: same_setup_simps(4))

lemma finish_ids_ok:
  assumes "scsi_gen live X n fs s" "\<forall>j<nr_ids s. j \<notin> set fs \<longrightarrow> quiet_id s j"
  shows "\<exists>t n' fs' xs. finish_ids e is s = Some t \<and> scsi_gen live X n' fs' t \<and>
    set fs' = set fs \<union> (set is \<inter> {..<nr_ids s}) \<and> ended s t \<and> vring t = vring s \<and>
    finished t = finished s @ xs \<and> (\<forall>x \<in> set xs. fst (snd x) = DID_RESET * 65536)"
  using assms
proof (induction "is" arbitrary: n fs s)
  case Nil
  then show ?case
    by (intro exI [of _ s] exI [of _ n] exI [of _ fs] exI [of _ "[]"]) (simp add: ended_def same_setup_def same_pages_def)
next
  case (Cons i "is")
  have v: "vids fs s" using Cons.prems(1) by (simp add: scsi_core_def)
  show ?case
  proof (cases "next_free (vshadow s i) = VSCSIIF_IN_USE")
    case False
    then have run: "finish_ids e (i # is) s = finish_ids e is s" by simp
    have "i \<in> set fs" if "i < nr_ids s" using in_use_iff [OF v] False that by simp
    then have "set fs \<union> (set (i # is) \<inter> {..<nr_ids s}) = set fs \<union> (set is \<inter> {..<nr_ids s})" by auto
    then show ?thesis unfolding run using Cons.IH [OF Cons.prems] by simp
  next
    case True
    have lt: "i < nr_ids s" and ni: "i \<notin> set fs" using in_use_iff [OF v] True by simp_all
    have u16: "unat (rs_rqid (reset_answer i)) = i"
      using lt v by (simp add: reset_answer_def vids_def max_reqs unat_of_nat take_bit_nat_eq_self_iff)
    have act: "act (vshadow s (unat (rs_rqid (reset_answer i)))) = VSCSIIF_ACT_SCSI_CDB"
      using Cons.prems(1) lt ni unfolding u16 by (simp add: scsi_core_def in_flight_ok_def)
    obtain u k where u: "scsifront_do_response e (reset_answer i) s = Some u" "scsi_gen live X k (i # fs) u" "same_setup s u"
      "vring u = vring s" "all_commands u = all_commands s" "same_pages s u"
      "\<forall>j. j < nr_ids s \<longrightarrow> j \<noteq> i \<longrightarrow> quiet_id s j \<longrightarrow> quiet_id u j"
      using response_ok [OF Cons.prems(1) u16 [symmetric] lt ni, of e] Cons.prems(2) lt ni by blast
    obtain c d where f: "finished u = finished s @ [(c, DID_RESET * 65536, d)]"
      using response_finished [OF u(1) act] by (auto simp: reset_answer_def)
    have nr: "nr_ids u = nr_ids s" using u(4) by (simp add: nr_ids_def)
    have q: "\<forall>j<nr_ids u. j \<notin> set (i # fs) \<longrightarrow> quiet_id u j" using u(7) Cons.prems(2) nr by simp
    obtain t n' fs' xs where t: "finish_ids e is u = Some t" "scsi_gen live X n' fs' t"
      "set fs' = set (i # fs) \<union> (set is \<inter> {..<nr_ids u})" "ended u t" "vring t = vring u"
      "finished t = finished u @ xs" "\<forall>x \<in> set xs. fst (snd x) = DID_RESET * 65536"
      using Cons.IH [OF u(2) q] by blast
    have run: "finish_ids e (i # is) s = Some t"
      using True u(1) t(1) by (simp add: reset_answer_def)
    have "set fs' = set fs \<union> (set (i # is) \<inter> {..<nr_ids s})" using t(3) nr lt by auto
    moreover have "ended s t" using u t(4) ended_trans [of s u t] by (simp add: ended_def)
    ultimately show ?thesis
      using run t(2,5-7) u(4) f
      by (intro exI [of _ t] exI [of _ n'] exI [of _ fs'] exI [of _ "(c, DID_RESET * 65536, d) # xs"]) simp
  qed
qed

lemma size_sum:
  fixes f :: "nat \<Rightarrow> 'b multiset"
  shows "size (\<Sum>i<n. f i) = (\<Sum>i<n. size (f i))"
  by (induction n) simp_all

lemma flying_size:
  assumes "scsi_gen live X n fs s"
  shows "size (flying s) + length fs = nr_ids s"
proof -
  have v: "vids fs s" using assms by (simp add: scsi_core_def)
  have fl: "in_flight_ok s (vshadow s i)" if "i < nr_ids s" "i \<notin> set fs" for i using assms that by (simp add: scsi_core_def)
  have nn: "sc (vshadow s i) = None" if "i \<in> set fs" for i using v that by (simp add: vids_def)
  have "size (cmd_of (vshadow s i)) = (if i \<in> set fs then 0 else 1)" if "i < nr_ids s" for i
    using fl [OF that] nn [of i] by (cases "i \<in> set fs") (auto simp: in_flight_ok_def)
  then have "size (flying s) = (\<Sum>i<nr_ids s. if i \<in> set fs then 0 else 1)"
    unfolding flying_def size_sum by (intro sum.cong) auto
  also have "\<dots> = card ({..<nr_ids s} - set fs)" by (simp add: sum.If_cases Diff_eq)
  also have "\<dots> = nr_ids s - length fs"
    using v by (simp add: vids_def card_Diff_subset distinct_card)
  finally show ?thesis using free_le [OF v] by simp
qed

lemma all_ids_free:
  assumes "scsi_gen live X n fs s" "set fs = {..<nr_ids s}"
  shows "\<forall>i. sc (vshadow s i) = None \<and> next_free (vshadow s i) \<noteq> VSCSIIF_IN_USE"
    and "flying s = {#}" "out_grants s = {#}" "out_tables s = {#}"
proof -
  have v: "vids fs s" using assms by (simp add: scsi_core_def)
  show a: "\<forall>i. sc (vshadow s i) = None \<and> next_free (vshadow s i) \<noteq> VSCSIIF_IN_USE"
  proof
    fix i
    have "sc (vshadow s i) = None" if "i < nr_ids s" using v that assms(2) unfolding vids_def by blast
    moreover have "sc (vshadow s i) = None" if "nr_ids s \<le> i" using v that unfolding vids_def by blast
    ultimately show "sc (vshadow s i) = None \<and> next_free (vshadow s i) \<noteq> VSCSIIF_IN_USE"
      using in_use_iff [OF v, of i] assms(2) by (cases "i < nr_ids s") simp_all
  qed
  then show "flying s = {#}" "out_grants s = {#}" "out_tables s = {#}"
    using no_grants_out [of s] by (simp_all add: flying_def)
qed

text \<open>
  The answers \<open>ps\<close> in the ring are taken; every other command in flight is ended with \<open>DID_RESET\<close>.
\<close>

lemma finish_all_ok:
  assumes core: "scsi_gen live X n fs s" and a: "answers s ps (vsring s)"
    and q: "\<forall>j<nr_ids s. j \<notin> set fs \<longrightarrow> quiet_id s j"
  shows "\<exists>t n' fs'. scsifront_finish_all e peer s = Some t \<and> scsi_gen live X n' fs' t \<and> set fs' = {..<nr_ids t} \<and> ended s t \<and>
    (\<forall>x \<in> set (drop (length (finished s) + length ps) (finished t)). fst (snd x) = DID_RESET * 65536)"
proof -
  let ?fs = "rev (map rid_of ps) @ fs"
  obtain u k m where u: "scsifront_ring_drain e peer s = Some (m, u)" "scsi_gen live X k ?fs u" "same_setup s u"
    "all_commands u = all_commands s" "same_pages s u"
    "\<forall>j < nr_ids s. j \<notin> rid_of ` set ps \<longrightarrow> quiet_id s j \<longrightarrow> quiet_id u j"
    using drain_ok [OF core a, of e peer] by blast
  have nr: "nr_ids u = nr_ids s" by (rule same_setup_simps(3) [OF u(3)])
  have q': "\<forall>j<nr_ids u. j \<notin> set ?fs \<longrightarrow> quiet_id u j" using q u(6) nr by auto
  obtain t n' fs' xs where t: "finish_ids e [0..<VSCSIIF_MAX_REQS] u = Some t" "scsi_gen live X n' fs' t"
    "set fs' = set ?fs \<union> (set [0..<VSCSIIF_MAX_REQS] \<inter> {..<nr_ids u})" "ended u t" "vring t = vring u"
    "finished t = finished u @ xs" "\<forall>x \<in> set xs. fst (snd x) = DID_RESET * 65536"
    using finish_ids_ok [OF u(2) q', of e "[0..<VSCSIIF_MAX_REQS]"] by blast
  have v: "vids ?fs u" using u(2) by (simp add: scsi_core_def)
  have all: "set fs' = {..<nr_ids t}"
  proof -
    have "set ?fs \<subseteq> {..<nr_ids u}" "nr_ids u \<le> VSCSIIF_MAX_REQS" using v by (simp_all only: vids_def)
    then show ?thesis using t(3,5) by (auto simp: nr_ids_def)
  qed
  have "size (flying u) + length (finished u) = size (flying s) + length (finished s)"
    using arg_cong [OF u(4), of size] by (simp add: all_commands_def)
  then have "length (finished u) = length (finished s) + length ps"
    using flying_size [OF core] flying_size [OF u(2)] nr by simp
  then have "drop (length (finished s) + length ps) (finished t) = xs" using t(6) by simp
  moreover have "scsifront_finish_all e peer s = Some t" using u(1) t(1) by (simp add: scsifront_finish_all_def)
  moreover have "ended s t" using u t(4) ended_trans [of s u t] by (simp add: ended_def)
  ultimately show ?thesis using t(2,7) all by metis
qed

section \<open>Giving everything back\<close>

text \<open>\<open>R\<close> are the references in use beside the one that ends.\<close>

lemma end_access_ok:
  assumes "gnt_inv (vgnt (sd_info s))" and "refs_apart (add_mset r (R + mset (gnt_free (vgnt (sd_info s))))) (vgnt (sd_info s))"
  shows "\<exists>g. end_access e r s = Some (upd_info (\<lambda>i. i\<lparr>vgnt := g\<rparr>) s) \<and> gnt_inv g \<and> refs_apart (R + mset (gnt_free g)) g"
proof -
  let ?g = "vgnt (sd_info s)"
  have "count (add_mset r (R + mset (gnt_free ?g))) r \<le> 1" using assms(2) unfolding refs_apart_def by blast
  then have nf: "r \<notin> set (gnt_free ?g)" by auto
  have rr: "r \<in> gnt_refs ?g" using assms(2) by (simp add: refs_apart_def)
  obtain h where h: "gnttab_end_foreign_access (shyp (cenv e) r) (skmem (cenv e) r) r None ?g = Some h" "gnt_inv h"
    "gnt_refs h = gnt_refs ?g" "gnt_free h = gnt_free ?g \<or> gnt_free h = r # gnt_free ?g"
    using scsi_end_access [OF assms(1) rr nf] by blast
  have "R + mset (gnt_free h) \<subseteq># add_mset r (R + mset (gnt_free ?g))" using h(4) by auto
  then show ?thesis using h refs_apart_sub [OF assms(2) _ h(3)] by (intro exI [of _ h]) (simp add: end_access_def)
qed

lemma upd_info_upd_info: "upd_info f (upd_info g s) = upd_info (\<lambda>i. f (g i)) s"
  by (simp add: upd_info_def)

lemma end_ring_refs_ok:
  assumes "gnt_inv (vgnt (sd_info s))" "refs_apart (mset rs + mset (gnt_free (vgnt (sd_info s)))) (vgnt (sd_info s))"
  shows "\<exists>g. end_ring_refs e rs s = Some (upd_info (\<lambda>i. i\<lparr>vgnt := g\<rparr>) s) \<and> gnt_inv g"
  using assms
proof (induction rs arbitrary: s)
  case Nil
  then show ?case by (intro exI [of _ "vgnt (sd_info s)"]) (simp add: upd_info_def)
next
  case (Cons r rs)
  have "r \<in> gnt_refs (vgnt (sd_info s))" using Cons.prems(2) by (simp add: refs_apart_def)
  then have nz: "r \<noteq> GRANT_INVALID_REF" using zero_no_ref by (metis GRANT_INVALID_REF_def)
  obtain g where g: "end_access e r s = Some (upd_info (\<lambda>i. i\<lparr>vgnt := g\<rparr>) s)" "gnt_inv g"
    "refs_apart (mset rs + mset (gnt_free g)) g"
    using end_access_ok [of s r "mset rs" e] Cons.prems by auto
  obtain h where "end_ring_refs e rs (upd_info (\<lambda>i. i\<lparr>vgnt := g\<rparr>) s) =
      Some (upd_info (\<lambda>i. i\<lparr>vgnt := h\<rparr>) (upd_info (\<lambda>i. i\<lparr>vgnt := g\<rparr>) s))" "gnt_inv h"
    using Cons.IH [of "upd_info (\<lambda>i. i\<lparr>vgnt := g\<rparr>) s"] g by auto
  then show ?case using g(1) nz by (intro exI [of _ h]) (simp add: upd_info_upd_info)
qed

lemma free_pool_ok:
  assumes "gnt_inv (vgnt (sd_info s))" "refs_apart (refs_of (mset gs) + R + mset (gnt_free (vgnt (sd_info s)))) (vgnt (sd_info s))"
    and "persistent_gnts_c (sd_info s) = of_nat (length (filter granted gs))"
  shows "\<exists>g. free_pool e gs s = Some (upd_info (\<lambda>i. i\<lparr>vgnt := g, persistent_gnts_c := 0\<rparr>)
        (s\<lparr>free_pgs := (if feature_persistent (sd_info s) then rev (map gr_pfn gs) else []) @ free_pgs s\<rparr>)) \<and>
      gnt_inv g \<and> refs_apart (R + mset (gnt_free g)) g"
  using assms
proof (induction gs arbitrary: s)
  case Nil
  then show ?case by (intro exI [of _ "vgnt (sd_info s)"]) (simp add: upd_info_def)
next
  case (Cons x gs)
  obtain g where g: "(if gr_gref x \<noteq> GRANT_INVALID_REF
        then do {
          s \<leftarrow> end_access e (gr_gref x) s;
          Some (upd_info (\<lambda>i. i\<lparr>persistent_gnts_c := persistent_gnts_c i - 1\<rparr>) s)
        }
        else Some s) = Some (upd_info (\<lambda>i. i\<lparr>vgnt := g, persistent_gnts_c := of_nat (length (filter granted gs))\<rparr>) s)"
    "gnt_inv g" "refs_apart (refs_of (mset gs) + R + mset (gnt_free g)) g"
  proof (cases "granted x")
    case True
    obtain h where h: "end_access e (gr_gref x) s = Some (upd_info (\<lambda>i. i\<lparr>vgnt := h\<rparr>) s)" "gnt_inv h"
      "refs_apart (refs_of (mset gs) + R + mset (gnt_free h)) h"
      using end_access_ok [of s "gr_gref x" "refs_of (mset gs) + R" e] Cons.prems(1,2) True by auto
    have "gr_gref x \<noteq> GRANT_INVALID_REF" using True by (simp add: granted_def)
    then show thesis
      by (intro that [of h]) (use h True Cons.prems(3) in \<open>simp_all add: upd_info_def\<close>)
  next
    case False
    then have "gr_gref x = GRANT_INVALID_REF" by (simp add: granted_def)
    then show thesis
      by (intro that [of "vgnt (sd_info s)"]) (use False Cons.prems in \<open>simp_all add: upd_info_def\<close>)
  qed
  let ?u = "upd_info (\<lambda>i. i\<lparr>vgnt := g, persistent_gnts_c := of_nat (length (filter granted gs))\<rparr>) s"
  let ?v = "if feature_persistent (sd_info ?u) then give_page (gr_pfn x) ?u else ?u"
  have v: "sd_info ?v = sd_info ?u" by (simp add: give_page_def)
  obtain h where h: "free_pool e gs ?v = Some (upd_info (\<lambda>i. i\<lparr>vgnt := h, persistent_gnts_c := 0\<rparr>)
        (?v\<lparr>free_pgs := (if feature_persistent (sd_info ?v) then rev (map gr_pfn gs) else []) @ free_pgs ?v\<rparr>))"
      "gnt_inv h" "refs_apart (R + mset (gnt_free h)) h"
    using Cons.IH [of ?v] g(2,3) unfolding v by auto
  have run: "free_pool e (x # gs) s = free_pool e gs ?v" using g(1) by simp
  show ?case
    unfolding run using h by (intro exI [of _ h]) (simp add: give_page_def upd_info_def)
qed

lemma free_shadows_ok:
  assumes "\<forall>i. sc (vshadow (sd_info s) i) = None"
  shows "\<exists>sh. free_shadows e is s = Some (upd_info (\<lambda>i. i\<lparr>vshadow := sh\<rparr>) s) \<and>
    (\<forall>j. sc (sh j) = None \<and> next_free (sh j) = next_free (vshadow (sd_info s) j))"
  using assms
proof (induction "is" arbitrary: s)
  case Nil
  then show ?case by (intro exI [of _ "vshadow (sd_info s)"]) (simp add: upd_info_def)
next
  case (Cons i "is")
  let ?u = "upd_info (upd_shadow i (\<lambda>h. h\<lparr>grants_used := [], indirect_grants := []\<rparr>)) s"
  have run: "free_shadows e (i # is) s = free_shadows e is ?u"
    using Cons.prems by (simp add: free_command_def)
  have "\<forall>j. sc (vshadow (sd_info ?u) j) = None" using Cons.prems by (simp add: upd_shadow_def)
  from Cons.IH [OF this] obtain sh where sh: "free_shadows e is ?u = Some (upd_info (\<lambda>i. i\<lparr>vshadow := sh\<rparr>) ?u)"
    "\<forall>j. sc (sh j) = None \<and> next_free (sh j) = next_free (vshadow (sd_info ?u) j)"
    by blast
  show ?case
    unfolding run using sh by (intro exI [of _ sh]) (auto simp: upd_info_def upd_shadow_def)
qed

lemma unbind_ok: "\<not> in_handler (irq_evtchn v ! irq) \<Longrightarrow> \<exists>w. unbind_from_irqhandler others irq v = Some w"
proof -
  assume a: "\<not> in_handler (irq_evtchn v ! irq)"
  have "in_handler (irq_evtchn (unbind_irq irq v) ! irq) = in_handler (irq_evtchn v ! irq)"
    by (cases "irq < length (irq_evtchn v)") (simp_all add: unbind_irq_def upd_irq_def mask_evtchn_def Let_def list_update_beyond)
  then have "wait_handler others irq (unbind_irq irq v) = Some (unbind_irq irq v)" using a by (cases others) simp_all
  then show ?thesis by (simp add: unbind_from_irqhandler_def)
qed

text \<open>The ring: its references end, its pages go back to the kernel, its event channel is unbound.\<close>

lemma free_ring_ok:
  assumes "gnt_inv (vgnt (sd_info s))"
    and "refs_apart (mset (take (ring_size s) (ring_ref s)) + mset (gnt_free (vgnt (sd_info s)))) (vgnt (sd_info s))"
    and "sring_page s = Some p" and "\<not> in_handler (irq_evtchn (sd_evt s) ! sd_irq s)"
  shows "\<exists>t g. scsifront_free_ring e s = Some t \<and> sd_info t = (sd_info s)\<lparr>vgnt := g\<rparr> \<and> gnt_inv g \<and>
    sring_page t = None \<and> sd_irq t = 0 \<and> free_blocks t = p # free_blocks s \<and> free_pgs t = free_pgs s \<and>
    sd_dev t = sd_dev s \<and> sd_xs t = sd_xs s \<and> length (ring_ref t) = max (ring_size s) (length (ring_ref s)) \<and>
    host_refs t = host_refs s"
proof -
  obtain g where g: "end_ring_refs e (take (ring_size s) (ring_ref s)) s = Some (upd_info (\<lambda>i. i\<lparr>vgnt := g\<rparr>) s)" "gnt_inv g"
    using end_ring_refs_ok [OF assms(1,2)] by blast
  let ?u = "(clear_refs (upd_info (\<lambda>i. i\<lparr>vgnt := g\<rparr>) s))\<lparr>free_blocks := p # free_blocks s, sring_page := None\<rparr>"
  have u: "sd_info ?u = (sd_info s)\<lparr>vgnt := g\<rparr>" "sd_irq ?u = sd_irq s" "sd_evt ?u = sd_evt s" "free_pgs ?u = free_pgs s"
    "sd_dev ?u = sd_dev s" "sd_xs ?u = sd_xs s" "length (ring_ref ?u) = max (ring_size s) (length (ring_ref s))"
    "host_refs ?u = host_refs s"
    by (simp_all add: clear_refs_def upd_info_def)
  show ?thesis
  proof (cases "sd_irq s = 0")
    case True
    then have "scsifront_free_ring e s = Some ?u"
      using g(1) assms(3) by (simp add: scsifront_free_ring_def Let_def clear_refs_def upd_info_def)
    then show ?thesis using u g(2) True by (intro exI [of _ ?u] exI [of _ g]) simp
  next
    case False
    obtain w where w: "unbind_from_irqhandler (evt_others e) (sd_irq s) (sd_evt s) = Some w" using unbind_ok [OF assms(4)] by blast
    have "scsifront_free_ring e s = Some (?u\<lparr>sd_evt := w, sd_irq := 0\<rparr>)"
      using g(1) assms(3) False w by (simp add: scsifront_free_ring_def Let_def clear_refs_def upd_info_def)
    then show ?thesis using u g(2) by (intro exI [of _ "?u\<lparr>sd_evt := w, sd_irq := 0\<rparr>"] exI [of _ g]) simp
  qed
qed

lemma fold_give_pages: "fold give_page ps s = s\<lparr>free_pgs := rev ps @ free_pgs s\<rparr>"
  by (induction ps arbitrary: s) (simp_all add: give_page_def)

text \<open>The pages a device holds for its pool.\<close>

definition pool_memory :: "vscsifrnt_info \<Rightarrow> nat multiset" where
  "pool_memory i = (if feature_persistent i then head_pages (out_grants i) i
     else mset (indirect_pages i) + image_mset gr_pfn (out_tables i))"

lemma ended_memory: "ended s t \<Longrightarrow> pool_memory t = pool_memory s"
  using same_setup_simps(4) by (auto simp: ended_def pool_memory_def same_pages_def)

lemma resume_free_ok:
  assumes core: "scsi_gen live (ring_grants s) n fs (sd_info s)" and fs: "set fs = {..<nr_ids (sd_info s)}"
    and refs: "refs_of (ring_grants s) = mset (take (ring_size s) (ring_ref s))"
    and ring: "sring_page s = Some p" "\<not> in_handler (irq_evtchn (sd_evt s) ! sd_irq s)"
  shows "\<exists>t. scsifront_resume_free e s = Some t \<and> grants (sd_info t) = [] \<and> persistent_gnts_c (sd_info t) = 0 \<and>
    indirect_pages (sd_info t) = [] \<and> seg_room (sd_info t) = 0 \<and>
    (\<forall>j. sc (vshadow (sd_info t) j) = None \<and> next_free (vshadow (sd_info t) j) \<noteq> VSCSIIF_IN_USE) \<and>
    gnt_inv (vgnt (sd_info t)) \<and> finished (sd_info t) = finished (sd_info s) \<and> nr_ids (sd_info t) = nr_ids (sd_info s) \<and>
    backend_dom (sd_info t) = backend_dom (sd_info s) \<and>
    mset (free_pgs t) = pool_memory (sd_info s) + mset (free_pgs s) \<and> free_blocks t = p # free_blocks s \<and>
    sring_page t = None \<and> sd_irq t = 0 \<and> sd_dev t = sd_dev s \<and> sd_xs t = sd_xs s \<and>
    length (ring_ref t) = max (ring_size s) (length (ring_ref s)) \<and> host_refs t = host_refs s"
proof -
  let ?i = "sd_info s" and ?X = "ring_grants s"
  note free = all_ids_free [OF core fs]
  have "pool_gen live ?X n [] {#} ?i" using core free(3) by (simp add: scsi_core_def)
  then have pool: "gnt_inv (vgnt ?i)" "refs_apart (refs_of (mset (grants ?i)) + refs_of ?X + mset (gnt_free (vgnt ?i))) (vgnt ?i)"
    "persistent_gnts_c ?i = of_nat n" "\<forall>g \<in> set (take n (grants ?i)). granted g" "\<forall>g \<in> set (drop n (grants ?i)). \<not> granted g"
    "n \<le> length (grants ?i)"
    by (auto simp: pool_inv_def)
  have "filter granted (take n (grants ?i) @ drop n (grants ?i)) = take n (grants ?i)"
    using pool(4,5) unfolding filter_append by (simp add: filter_id_conv filter_empty_conv)
  then have cnt: "length (filter granted (grants ?i)) = n" using pool(6) by simp
  let ?s1 = "upd_info (\<lambda>i. i\<lparr>grants := []\<rparr>) s"
  obtain g where g: "free_pool e (grants ?i) ?s1 = Some (upd_info (\<lambda>i. i\<lparr>vgnt := g, persistent_gnts_c := 0\<rparr>)
        (?s1\<lparr>free_pgs := (if feature_persistent ?i then rev (map gr_pfn (grants ?i)) else []) @ free_pgs s\<rparr>))"
      "gnt_inv g" "refs_apart (refs_of ?X + mset (gnt_free g)) g"
    using free_pool_ok [of ?s1 "grants ?i" "refs_of ?X" e] pool(1,2,3) cnt by auto
  let ?ps = "(if feature_persistent ?i then rev (map gr_pfn (grants ?i)) else []) @ free_pgs s"
  let ?s2 = "upd_info (\<lambda>i. i\<lparr>vgnt := g, persistent_gnts_c := 0\<rparr>) (?s1\<lparr>free_pgs := ?ps\<rparr>)"
  have ind: "feature_persistent ?i \<longrightarrow> indirect_pages ?i = []" using core by (simp add: scsi_core_def)
  define qs where "qs = rev (indirect_pages ?i) @ ?ps"
  define i3 where "i3 = ?i\<lparr>grants := [], vgnt := g, persistent_gnts_c := 0, indirect_pages := []\<rparr>"
  let ?s3 = "s\<lparr>sd_info := i3, free_pgs := qs\<rparr>"
  have s3: "(if indirect_pages (sd_info ?s2) = [] then Some ?s2
      else if feature_persistent (sd_info ?s2) then None else Some (free_indirect_pages ?s2)) = Some ?s3"
    using ind by (cases "indirect_pages ?i = []")
      (simp_all add: free_indirect_pages_def fold_give_pages upd_info_def i3_def qs_def)
  have "\<forall>j. sc (vshadow (sd_info ?s3) j) = None" using free(1) by (simp add: i3_def)
  from free_shadows_ok [OF this, of e "[0..<unat (f_nr_ents (vring i3))]"] obtain sh
    where sh: "free_shadows e [0..<unat (f_nr_ents (vring i3))] ?s3 = Some (upd_info (\<lambda>i. i\<lparr>vshadow := sh\<rparr>) ?s3)"
      "\<forall>j. sc (sh j) = None \<and> next_free (sh j) = next_free (vshadow i3 j)"
    by auto
  let ?s4 = "upd_info (\<lambda>i. i\<lparr>seg_room := 0\<rparr>) (upd_info (\<lambda>i. i\<lparr>vshadow := sh\<rparr>) ?s3)"
  have f4: "sd_info ?s4 = i3\<lparr>vshadow := sh, seg_room := 0\<rparr>" "ring_size ?s4 = ring_size s" "ring_ref ?s4 = ring_ref s"
    "sring_page ?s4 = Some p" "sd_irq ?s4 = sd_irq s" "sd_evt ?s4 = sd_evt s" "free_pgs ?s4 = qs" "free_blocks ?s4 = free_blocks s"
    "sd_dev ?s4 = sd_dev s" "sd_xs ?s4 = sd_xs s" "host_refs ?s4 = host_refs s"
    using ring(1) by (simp_all add: upd_info_def)
  obtain t h where t: "scsifront_free_ring e ?s4 = Some t" "sd_info t = (sd_info ?s4)\<lparr>vgnt := h\<rparr>" "gnt_inv h"
    "sring_page t = None" "sd_irq t = 0" "free_blocks t = p # free_blocks ?s4" "free_pgs t = free_pgs ?s4"
    "sd_dev t = sd_dev ?s4" "sd_xs t = sd_xs ?s4" "length (ring_ref t) = max (ring_size ?s4) (length (ring_ref ?s4))"
    "host_refs t = host_refs ?s4"
    using free_ring_ok [of ?s4 p e] g(2,3) refs ring(2) f4 by (auto simp: i3_def)
  have run: "scsifront_resume_free e s = Some t"
    using g(1) s3 sh(1) t(1) by (simp add: scsifront_resume_free_def)
  have "mset qs = pool_memory ?i + mset (free_pgs s)"
    using free(3,4) ind by (simp add: qs_def pool_memory_def head_pages_def)
  then show ?thesis
    using run t f4 sh(2) free(1) by (intro exI [of _ t]) (simp add: i3_def nr_ids_def)
qed

section \<open>Resume\<close>

lemma ring_refs_held:
  assumes "pool_gen live (ring_grants s) n xs A i" and "ring_size s \<le> length (ring_ref s)"
  shows "refs_of (ring_grants s) = mset (take (ring_size s) (ring_ref s))"
proof -
  have "\<forall>g \<in># ring_grants s. granted g" using assms(1) by (simp add: pool_inv_def)
  then have "filter_mset granted (ring_grants s) = ring_grants s" by (simp add: filter_mset_eq_conv)
  then have "refs_of (ring_grants s) = mset (map (\<lambda>i. ring_ref s ! i) [0..<ring_size s])"
    by (simp add: refs_of_def) (simp add: ring_grants_def image_mset.compositionality comp_def)
  also have "map (\<lambda>i. ring_ref s ! i) [0..<ring_size s] = take (ring_size s) (ring_ref s)"
    using assms(2) by (intro nth_equalityI) simp_all
  finally show ?thesis .
qed

text \<open>The grant table of the new domain has no entry in use.\<close>

definition migrated :: "(nat \<Rightarrow> grant_entry_v1) \<Rightarrow> scsi_dev \<Rightarrow> scsi_dev" where
  "migrated sh s = upd_info (\<lambda>i. i\<lparr>vgnt := (vgnt i)\<lparr>shared := sh\<rparr>\<rparr>) s"

lemma core_migrated:
  assumes "scsi_gen live X n fs s"
  shows "scsi_gen False X n fs (s\<lparr>vgnt := (vgnt s)\<lparr>shared := sh\<rparr>\<rparr>)"
proof -
  let ?t = "s\<lparr>vgnt := (vgnt s)\<lparr>shared := sh\<rparr>\<rparr>"
  have "same_list (vgnt s) ((vgnt s)\<lparr>shared := sh\<rparr>)" by (simp add: same_list_def)
  note sl = same_list_gnt [OF this]
  have "vnext ?t = vnext s" "nr_ids ?t = nr_ids s" by (simp_all add: vnext_def fun_eq_iff nr_ids_def)
  moreover have "pool_gen False X n [] A ?t" if "pool_gen live X n [] A s" for A
    using that sl by (simp add: pool_inv_def refs_apart_def)
  moreover have "in_flight_ok ?t h = in_flight_ok s h" for h by (simp add: in_flight_ok_def)
  ultimately show ?thesis
    using assms by (simp add: scsi_core_def vids_def out_grants_def out_tables_def room_ok_def head_pages_def)
qed

lemma resume_end:
  assumes inv: "scsi_run True (ring_grants s) n fs (sd_info s)"
    and ring: "sring_page s = Some p" "ring_size s \<le> length (ring_ref s)" "\<not> in_handler (irq_evtchn (sd_evt s) ! sd_irq s)"
    and sh: "\<forall>r. flags (sh r) = 0"
    and a: "answers (sd_info (migrated sh s)) ps (vsring (sd_info s))"
  obtains i t where "scsifront_finish_all (cenv e) peer (sd_info (migrated sh s)) = Some i"
    "scsifront_resume_free e ((migrated sh s)\<lparr>sd_info := i\<rparr>) = Some t"
    "mset (map fst (finished i)) = all_commands (sd_info s)"
    "\<forall>x \<in> set (drop (length (finished (sd_info s)) + length ps) (finished i)). fst (snd x) = DID_RESET * 65536"
    "grants (sd_info t) = []" "persistent_gnts_c (sd_info t) = 0" "indirect_pages (sd_info t) = []" "seg_room (sd_info t) = 0"
    "\<forall>j. sc (vshadow (sd_info t) j) = None \<and> next_free (vshadow (sd_info t) j) \<noteq> VSCSIIF_IN_USE"
    "gnt_inv (vgnt (sd_info t))" "finished (sd_info t) = finished i" "backend_dom (sd_info t) = backend_dom (sd_info s)"
    "mset (free_pgs t) = pool_memory (sd_info s) + mset (free_pgs s)" "free_blocks t = p # free_blocks s"
    "sring_page t = None" "sd_irq t = 0" "sd_dev t = sd_dev s" "length (ring_ref t) = length (ring_ref s)"
proof -
  let ?m = "migrated sh s" and ?X = "ring_grants s"
  have m: "sd_info ?m = (sd_info s)\<lparr>vgnt := (vgnt (sd_info s))\<lparr>shared := sh\<rparr>\<rparr>" "ring_grants ?m = ?X"
    "ring_size ?m = ring_size s" "ring_ref ?m = ring_ref s" "sring_page ?m = sring_page s" "sd_irq ?m = sd_irq s"
    "sd_evt ?m = sd_evt s" "free_pgs ?m = free_pgs s" "free_blocks ?m = free_blocks s" "sd_dev ?m = sd_dev s"
    by (simp_all add: migrated_def upd_info_def ring_grants_def)
  have core0: "scsi_gen True ?X n fs (sd_info s)" using inv by (simp add: scsi_inv_def)
  have core: "scsi_gen False ?X n fs (sd_info ?m)" unfolding m(1) by (rule core_migrated [OF core0])
  have q: "\<forall>j<nr_ids (sd_info ?m). j \<notin> set fs \<longrightarrow> quiet_id (sd_info ?m) j"
    using sh by (simp add: m(1) quiet_id_def quiet_def gnttab_query_foreign_access_def)
  have a': "answers (sd_info ?m) ps (vsring (sd_info ?m))" using a by (simp add: m(1))
  obtain i n' fs' where i: "scsifront_finish_all (cenv e) peer (sd_info ?m) = Some i" "scsi_gen False ?X n' fs' i"
    "set fs' = {..<nr_ids i}" "ended (sd_info ?m) i"
    "\<forall>x \<in> set (drop (length (finished (sd_info ?m)) + length ps) (finished i)). fst (snd x) = DID_RESET * 65536"
    using finish_all_ok [OF core a' q, of "cenv e" peer] by blast
  let ?u = "?m\<lparr>sd_info := i\<rparr>"
  have u: "ring_grants ?u = ?X" "ring_size ?u = ring_size s" "ring_ref ?u = ring_ref s" "sring_page ?u = Some p"
    "sd_irq ?u = sd_irq s" "sd_evt ?u = sd_evt s" "sd_info ?u = i" "free_pgs ?u = free_pgs s" "free_blocks ?u = free_blocks s"
    "sd_dev ?u = sd_dev s"
    using ring(1) m by (simp_all add: ring_grants_def)
  have "pool_gen True ?X n [] (out_grants (sd_info s)) (sd_info s)" using core0 by (simp add: scsi_core_def)
  then have r: "refs_of ?X = mset (take (ring_size s) (ring_ref s))" by (rule ring_refs_held [OF _ ring(2)])
  obtain t where t: "scsifront_resume_free e ?u = Some t" "grants (sd_info t) = []" "persistent_gnts_c (sd_info t) = 0"
    "indirect_pages (sd_info t) = []" "seg_room (sd_info t) = 0"
    "\<forall>j. sc (vshadow (sd_info t) j) = None \<and> next_free (vshadow (sd_info t) j) \<noteq> VSCSIIF_IN_USE"
    "gnt_inv (vgnt (sd_info t))" "finished (sd_info t) = finished i" "backend_dom (sd_info t) = backend_dom i"
    "mset (free_pgs t) = pool_memory i + mset (free_pgs s)" "free_blocks t = p # free_blocks s"
    "sring_page t = None" "sd_irq t = 0" "sd_dev t = sd_dev s" "length (ring_ref t) = max (ring_size s) (length (ring_ref s))"
    using resume_free_ok [of False ?u n' fs' p e] i(2,3) r ring(3) unfolding u by blast
  have me: "pool_memory i = pool_memory (sd_info s)"
    using ended_memory [OF i(4)] by (simp add: m(1) pool_memory_def head_pages_def out_grants_def out_tables_def nr_ids_def)
  have ac: "all_commands i = all_commands (sd_info s)"
    using i(4) by (simp add: ended_def) (simp add: m(1) all_commands_def flying_def nr_ids_def)
  have "flying i = {#}" by (rule all_ids_free(2) [OF i(2,3)])
  then have fin: "mset (map fst (finished i)) = all_commands (sd_info s)" using ac by (simp add: all_commands_def)
  have bd: "backend_dom i = backend_dom (sd_info s)" using i(4) by (simp add: ended_def same_setup_def m(1))
  have l: "length (ring_ref t) = length (ring_ref s)" using t(15) ring(2) by simp
  have drp: "\<forall>x \<in> set (drop (length (finished (sd_info s)) + length ps) (finished i)). fst (snd x) = DID_RESET * 65536"
    using i(5) by (simp add: m(1))
  show thesis
    by (rule that [OF i(1) t(1) fin drp t(2-8) _ _ t(11-14) l]) (use t(9,10) me bd in simp_all)
qed

text \<open>
  C6: A device that is resumed after a migration loses nothing. Whatever commands were in flight,
  and whatever answers the backend had still put into the ring, the two steps that begin the
  resume come to their end without a \<open>BUG\<close>: every command is ended exactly once, those without an
  answer with \<open>DID_RESET\<close>; the pool is empty, no reference stays counted, every page of the pool and of
  the commands is back with the kernel, once each, as is the ring; the grant table is consistent.
\<close>

theorem scsi_resume_releases:
  assumes inv: "scsi_run True (ring_grants s) n fs (sd_info s)"
    and ring: "sring_page s = Some p" "ring_size s \<le> length (ring_ref s)" "\<not> in_handler (irq_evtchn (sd_evt s) ! sd_irq s)"
    and sh: "\<forall>r. flags (sh r) = 0"
    and a: "answers (sd_info (migrated sh s)) ps (vsring (sd_info s))"
  shows "\<exists>i t. scsifront_finish_all (cenv e) peer (sd_info (migrated sh s)) = Some i \<and>
    scsifront_resume_free e ((migrated sh s)\<lparr>sd_info := i\<rparr>) = Some t \<and>
    mset (map fst (finished (sd_info t))) = flying (sd_info s) + mset (map fst (finished (sd_info s))) \<and>
    (\<forall>x \<in> set (drop (length (finished (sd_info s)) + length ps) (finished (sd_info t))). fst (snd x) = DID_RESET * 65536) \<and>
    grants (sd_info t) = [] \<and> persistent_gnts_c (sd_info t) = 0 \<and> indirect_pages (sd_info t) = [] \<and>
    mset (free_pgs t) = pool_memory (sd_info s) + mset (free_pgs s) \<and> free_blocks t = p # free_blocks s \<and>
    sring_page t = None \<and> sd_irq t = 0 \<and> gnt_inv (vgnt (sd_info t))"
  by (rule resume_end [OF inv ring sh a, of e peer]) (auto simp: all_commands_def)

text \<open>
  C7: A device that comes back is ready again. When the resume succeeds and the new backend reaches
  \<open>Connected\<close> and the tables can be allocated, the data path has its invariant again, with every id
  free, whatever ring size and features this backend has; every command from before has
  been ended exactly once, and commands are no longer held off.
\<close>

theorem scsi_device_resumes:
  assumes inv: "scsi_run True (ring_grants s) n fs (sd_info s)"
    and ring: "sring_page s = Some p" "ring_size s \<le> 8" "length (ring_ref s) = 8"
      "\<not> in_handler (irq_evtchn (sd_evt s) ! sd_irq s)"
    and dev: "backend_dom (sd_info s) = otherend_id (sd_dev s)"
    and pages: "\<forall>q. count (pool_memory (sd_info s) + mset (free_pgs s)) q \<le> 1"
      "0 \<notin># pool_memory (sd_info s) + mset (free_pgs s)"
    and sh: "\<forall>r. flags (sh r) = 0"
    and a: "answers (sd_info (migrated sh s)) ps (vsring (sd_info s))"
    and resume: "scsifront_resume e peer xbt (migrated sh s) = Some (0, s2)" "sring_page s2 \<noteq> None"
    and conn: "scsifront_backend_changed e xbt' st dv XenbusStateConnected s2 = Some s3" "seg_room (sd_info s3) \<noteq> 0"
  shows "scsi_run True (ring_grants s3) 0 [0..<nr_ids (sd_info s3)] (sd_info s3) \<and> \<not> pause (sd_info s3) \<and>
    mset (map fst (finished (sd_info s3))) = flying (sd_info s) + mset (map fst (finished (sd_info s))) \<and>
    (\<forall>x \<in> set (drop (length (finished (sd_info s)) + length ps) (finished (sd_info s3))). fst (snd x) = DID_RESET * 65536)"
proof -
  have le: "ring_size s \<le> length (ring_ref s)" using ring(2,3) by simp
  obtain i t where i: "scsifront_finish_all (cenv e) peer (sd_info (migrated sh s)) = Some i"
    "scsifront_resume_free e ((migrated sh s)\<lparr>sd_info := i\<rparr>) = Some t"
    "mset (map fst (finished i)) = all_commands (sd_info s)"
    "\<forall>x \<in> set (drop (length (finished (sd_info s)) + length ps) (finished i)). fst (snd x) = DID_RESET * 65536"
    "grants (sd_info t) = []" "persistent_gnts_c (sd_info t) = 0" "indirect_pages (sd_info t) = []" "seg_room (sd_info t) = 0"
    "\<forall>j. sc (vshadow (sd_info t) j) = None \<and> next_free (vshadow (sd_info t) j) \<noteq> VSCSIIF_IN_USE"
    "gnt_inv (vgnt (sd_info t))" "finished (sd_info t) = finished i" "backend_dom (sd_info t) = backend_dom (sd_info s)"
    "mset (free_pgs t) = pool_memory (sd_info s) + mset (free_pgs s)"
    "sd_dev t = sd_dev s" "length (ring_ref t) = length (ring_ref s)"
    by (rule resume_end [OF inv ring(1) le ring(4) sh a, of e peer]) (rule that)
  let ?fin = "\<lambda>u. upd_info (\<lambda>i. (reset_ids i)\<lparr>vshadow_free := unat (req_prod_pvt (vring i))\<rparr>) u"
  obtain err u where u: "scsifront_init_ring e xbt t = Some (err, u)"
    using resume(1) i(1,2) by (auto simp: scsifront_resume_def bind_eq_Some_conv)
  have e0: "err = 0"
    using resume(1) i(1,2) u by (cases "err = 0") (auto simp: scsifront_resume_def bind_eq_Some_conv)
  have sw: "store_only (?fin u) s2"
    using resume(1) i(1,2) u e0 by (auto simp: scsifront_resume_def bind_eq_Some_conv dest!: switch_to_store)
  note f2 = store_only_fields [OF sw]
  have "sring_page u \<noteq> None" using resume(2) f2(5) by simp
  then obtain q k g where rs: "ring_state e q k g t u"
    using init_ring_ok [of e xbt t u] u e0 i(10,15) ring(3) by auto
  let ?t = "upd_info (\<lambda>i. i\<lparr>vshadow_free := 0\<rparr>) t" and ?u = "upd_info (\<lambda>i. i\<lparr>vshadow_free := 0\<rparr>) u"
  have rs': "ring_state e q k g ?t ?u"
    using rs unfolding ring_state_def ring_granted_def ring_info_def by (elim conjE) simp
  have clear: "pool_clear (ring_grants ?u) (reset_ids (sd_info ?u))"
    by (rule ring_state_clear [OF rs']) (use i dev in simp_all)
  have iu: "sd_info u = ring_info e q k g (sd_info t)" "free_pgs u = free_pgs t" using rs by (simp_all add: ring_state_def)
  have i2: "sd_info s2 = reset_ids (sd_info ?u)"
    using f2(1) by (simp add: reset_ids_def shadow_init_def upd_shadow_def iu ring_info_def FRONT_RING_INIT_def)
  have pg: "distinct (free_pgs s2)" "0 \<notin> set (free_pgs s2)"
  proof -
    have e: "mset (free_pgs s2) = pool_memory (sd_info s) + mset (free_pgs s)" using f2(6) iu(2) i(13) by simp
    show "distinct (free_pgs s2)" using pages(1) unfolding distinct_count e .
    show "0 \<notin> set (free_pgs s2)" using pages(2) unfolding e [symmetric] by simp
  qed
  have c2: "pool_clear (ring_grants ?u) (sd_info s2)" using clear unfolding i2 .
  have s0: "seg_room (sd_info s2) = 0" unfolding i2 using i(8) by (simp add: reset_ids_fields iu ring_info_def)
  have cn: "backend_connected e st dv s2 = Some s3" using conn(1) by (simp add: scsifront_backend_changed_def)
  note r = connected_ok [OF cn s0 conn(2) c2 pg]
  have "ring_grants s3 = ring_grants s2" using r same_ring_grants by blast
  also have "\<dots> = ring_grants (?fin u)" using same_ring_grants [OF store_only_ring [OF sw]] .
  also have "\<dots> = ring_grants ?u" by (simp add: ring_grants_def)
  finally have rg: "ring_grants s3 = ring_grants ?u" .
  have "nr_ids (sd_info s3) = nr_ids (sd_info s2)" "finished (sd_info s3) = finished (sd_info s2)"
    using r by (simp_all add: same_device_def nr_ids_def)
  moreover have "finished (sd_info s2) = finished i" unfolding i2 using i(11) by (simp add: reset_ids_fields iu ring_info_def)
  ultimately show ?thesis using r i(3,4) rg by (simp add: all_commands_def)
qed

section \<open>Examples\<close>

text \<open>A device with a ring of one page, page 130 under reference 40, and a command on its way.\<close>

definition scsi_running :: "vscsifrnt_info \<Rightarrow> scsi_dev" where
  "scsi_running i = scsi_dev_example\<lparr>sd_info := i, ring_ref := 40 # replicate 7 0, ring_size := 1, sring_page := Some 130, sd_irq := 1\<rparr>"

lemma running_grants: "ring_grants (scsi_running i) = {#\<lparr>gr_gref = 40, gr_pfn = 130\<rparr>#}"
  by (simp add: ring_grants_def scsi_running_def)

lemma example_ring_pool: "pool_gen True {#\<lparr>gr_gref = 40, gr_pfn = 130\<rparr>#} 27 [] {#} scsi_example"
proof -
  let ?g = "\<lparr>gr_gref = 40, gr_pfn = 130\<rparr>" and ?v = "vgnt scsi_example"
  have p: "pool_base True 27 [] {#} scsi_example" using scsi_example_pool by (simp add: pool_gen_def)
  have g: "granted ?g" "backed (backend_dom scsi_example) ?v ?g"
    by (simp_all add: granted_def GRANT_INVALID_REF_def backed_def scsi_example_def scsi_gnt_example_def)
  have v: "?v = scsi_gnt_example" by (simp add: scsi_example_def)
  have fr: "gnt_free scsi_gnt_example = [8, 9]" "gnt_refs scsi_gnt_example = gnt_refs gnt_example"
    using same_list_gnt [of gnt_example scsi_gnt_example] gnt_example_inv by (simp_all add: same_list_def scsi_gnt_example_def)
  have r: "refs_of (mset (grants scsi_example)) = mset [10..<37]"
    by (simp add: scsi_example_def mset_map_refs del: upt_rec_numeral mset_map)
  have ap: "refs_apart (mset [10..<37] + mset [8, 9]) scsi_gnt_example"
    using p r by (simp add: pool_base_def v fr del: upt_rec_numeral)
  have "40 \<in> gnt_refs gnt_example" by (simp add: gnt_refs_def gnt_example_def gnt_consts)
  then have "refs_apart (add_mset 40 (mset [10..<37] + mset [8, 9])) scsi_gnt_example"
    using ap by (auto simp: refs_apart_def fr simp del: upt_rec_numeral)
  then have "refs_apart (refs_of (mset (grants scsi_example) + {#?g#}) + mset [] + mset (gnt_free ?v)) ?v"
    using g r by (simp add: v fr add_mset_commute del: upt_rec_numeral)
  then show ?thesis using p g unfolding pool_gen_def pool_base_def by simp
qed

lemma example_ring_inv: "scsi_run True {#\<lparr>gr_gref = 40, gr_pfn = 130\<rparr>#} 27 [0] scsi_example"
  using scsi_example_inv example_ring_pool by (simp add: scsi_inv_def scsi_core_def)

theorem scsi_resume_releases_witness:
  "\<exists>s i t. flying (sd_info s) = {#scsi_cmnd_example#} \<and> sring_page s = Some 130 \<and>
    scsifront_finish_all scsi_env_example id (sd_info (migrated (shared gnt_example) s)) = Some i \<and>
    scsifront_resume_free scsi_ctl_example_env ((migrated (shared gnt_example) s)\<lparr>sd_info := i\<rparr>) = Some t \<and>
    mset (map fst (finished (sd_info t))) = {#scsi_cmnd_example#} \<and> grants (sd_info t) = [] \<and> sring_page t = None"
proof -
  let ?X = "{#\<lparr>gr_gref = 40, gr_pfn = 130\<rparr>#}"
  obtain t where t: "scsifront_queuecommand scsi_env_example scsi_cmnd_example scsi_example = Some (0, t)" "finished t = []"
    "rsp_prod (vsring t) = rsp_cons (vring t)"
    using scsi_example_run by blast
  obtain n fs where inv: "scsi_run True ?X n fs t" and all: "all_commands t = {#scsi_cmnd_example#}"
  proof (cases rule: queue_ok [OF example_ring_inv scsi_example_cmd scsi_env_example_ok(2), case_names refused sent])
    case (refused rc u)
    then show thesis using that t(1) by (auto simp: all_commands_def flying_def)
  next
    case (sent u n i fs)
    then show thesis using that t(1) by (auto simp: all_commands_def flying_def)
  qed
  have fl: "flying t = {#scsi_cmnd_example#}" using all t(2) by (simp add: all_commands_def)
  let ?s = "scsi_running t"
  have s: "sd_info ?s = t" "sring_page ?s = Some 130" "ring_size ?s \<le> length (ring_ref ?s)"
    "\<not> in_handler (irq_evtchn (sd_evt ?s) ! sd_irq ?s)" "cenv scsi_ctl_example_env = scsi_env_example"
    by (simp_all add: scsi_running_def scsi_dev_example_def evtchn_example_def scsi_ctl_example_env_def)
  have inv': "scsi_run True (ring_grants ?s) n fs (sd_info ?s)" using inv by (simp add: running_grants s(1))
  have z: "\<forall>r. flags (shared gnt_example r) = 0" by (simp add: gnt_example_def)
  have a: "answers (sd_info (migrated (shared gnt_example) ?s)) [] (vsring (sd_info ?s))"
    using t(3) by (simp add: answers_def migrated_def upd_info_def s(1))
  show ?thesis
    using scsi_resume_releases [OF inv' s(2-4) z a, of scsi_ctl_example_env id] fl t(2) s
    by (intro exI [of _ ?s]) auto
qed

text \<open>A device without persistent grants, at rest, that comes back to a backend with one ring page.\<close>

definition scsi_idle :: scsi_dev where
  "scsi_idle = (scsi_running (scsi_example\<lparr>grants := replicate 27 (empty_grant 0), persistent_gnts_c := 0,
     feature_persistent := False\<rparr>))\<lparr>sd_irq := 0\<rparr>"

lemma idle_info [simp]: "sd_info scsi_idle = scsi_example\<lparr>grants := replicate 27 (empty_grant 0), persistent_gnts_c := 0,
     feature_persistent := False\<rparr>"
  by (simp add: scsi_idle_def scsi_running_def)

lemma idle_pool: "pool_gen True (ring_grants scsi_idle) 0 [] {#} (sd_info scsi_idle)"
proof -
  let ?g = "\<lparr>gr_gref = 40, gr_pfn = 130\<rparr>" and ?v = "vgnt scsi_example"
  have x: "ring_grants scsi_idle = {#?g#}" by (simp add: scsi_idle_def ring_grants_def scsi_running_def)
  have e: "refs_of (replicate_mset 27 (empty_grant 0)) = {#}"
    using refs_of_invalid [of "replicate 27 (empty_grant 0)"] by simp
  have g: "granted ?g" "refs_of {#?g#} = {#40#}" by (simp_all add: granted_def GRANT_INVALID_REF_def refs_of_def)
  have p: "refs_apart (add_mset 40 (refs_of (mset (grants scsi_example)) + mset (gnt_free ?v))) ?v"
    "gnt_inv ?v" "backed (backend_dom scsi_example) ?v ?g"
    using example_ring_pool g(1) by (simp_all add: pool_inv_def)
  have "refs_apart (add_mset 40 (mset (gnt_free ?v))) ?v" by (rule refs_apart_sub [OF p(1) _ refl]) simp
  then show ?thesis using p(2,3) g x e by (simp add: pool_inv_def)
qed

lemma idle_inv: "scsi_run True (ring_grants scsi_idle) 0 [0] (sd_info scsi_idle)"
proof -
  have v: "vids [0] scsi_example" "outstanding [0] scsi_example" using scsi_example_inv by (simp_all add: scsi_inv_def scsi_core_def)
  let ?i = "sd_info scsi_idle"
  have n: "nr_ids ?i = 1" "vnext ?i = vnext scsi_example" by (simp add: nr_ids_def, simp add: vnext_def fun_eq_iff)
  have o: "out_grants ?i = {#}" "out_tables ?i = {#}" using no_grants_out [of ?i] by simp_all
  have "vids [0] ?i" "outstanding [0] ?i" using v n by (simp_all add: vids_def outstanding_def)
  then show ?thesis
    unfolding scsi_inv_def scsi_core_def o n using idle_pool by (simp add: room_ok_def seg_consts)
qed

lemma free_pool_empty: "\<forall>g \<in> set gs. \<not> granted g \<Longrightarrow> \<not> feature_persistent (sd_info s) \<Longrightarrow> free_pool e gs s = Some s"
  by (induction gs) (auto simp: granted_def)

lemma finish_ids_none: "\<forall>i. next_free (vshadow s i) \<noteq> VSCSIIF_IN_USE \<Longrightarrow> finish_ids e is s = Some s"
  by (induction "is") auto

lemma example_end:
  "\<exists>g g'. gnttab_end_foreign_access [] None 40 None gnt_example = Some g \<and>
     gnttab_grant_foreign_access gnt_example_env 9 (of_nat 130) 0 g = Some (int 40, g')"
  by (simp add: gnttab_end_foreign_access_def gnttab_end_foreign_access_ref_def check_free_callbacks_def free_page_def
      put_free_entry_def gnttab_grant_foreign_access_def get_free_entries_def take_entries_def
      gnt_example_def gnttab_entry_def gnt_consts set_gnttab_entry_def gnttab_grant_foreign_access_ref_def
      set_shared_def Let_def)

definition idle_freed :: "gnttab \<Rightarrow> scsi_dev" where
  "idle_freed g = scsi_idle\<lparr>sd_info := (sd_info scsi_idle)\<lparr>grants := [], seg_room := 0, vgnt := g\<rparr>,
     ring_ref := replicate 8 0, sring_page := None, free_blocks := 130 # free_blocks scsi_idle\<rparr>"

lemma idle_release:
  assumes g: "gnttab_end_foreign_access [] None 40 None gnt_example = Some g"
  shows "\<exists>i. scsifront_finish_all scsi_env_example peer (sd_info (migrated (shared gnt_example) scsi_idle)) = Some i \<and>
    scsifront_resume_free scsi_ctl_example_env ((migrated (shared gnt_example) scsi_idle)\<lparr>sd_info := i\<rparr>) = Some (idle_freed g)"
proof -
  let ?m = "migrated (shared gnt_example) scsi_idle"
  have v: "scsi_gnt_example\<lparr>shared := shared gnt_example\<rparr> = gnt_example"
    by (simp add: scsi_gnt_example_def gnt_example_def)
  have i: "sd_info ?m = (sd_info scsi_idle)\<lparr>vgnt := gnt_example\<rparr>"
    using v by (simp add: migrated_def upd_info_def) (simp add: scsi_example_def)
  have nu: "\<forall>j. next_free (vshadow (sd_info ?m) j) \<noteq> VSCSIIF_IN_USE"
    by (simp add: i VSCSIIF_NONE_def VSCSIIF_IN_USE_def)
  have d: "scsifront_ring_drain scsi_env_example peer (sd_info ?m) = Some (False, sd_info ?m)"
    by (simp add: scsifront_ring_drain_def i Let_def) (simp add: scsi_example_def)
  have f: "scsifront_finish_all scsi_env_example peer (sd_info ?m) = Some (sd_info ?m)"
    using finish_ids_none [OF nu] d by (simp add: scsifront_finish_all_def)
  let ?u = "upd_info (\<lambda>i. i\<lparr>grants := []\<rparr>) ?m" and ?w = "upd_info (\<lambda>i. i\<lparr>grants := [], seg_room := 0\<rparr>) ?m"
  have "\<forall>h \<in> set (replicate 27 (empty_grant 0)). \<not> granted h" by (simp add: granted_def empty_grant_def)
  then have p: "free_pool scsi_ctl_example_env (grants (sd_info ?m)) ?u = Some ?u"
    using free_pool_empty [of _ ?u] by (simp add: i)
  have h: "free_shadows scsi_ctl_example_env [0..<1] ?u = Some ?u"
    by (simp add: free_command_def i upd_shadow_def upd_info_def) (simp add: scsi_example_def fun_upd_idem)
  have r: "scsifront_free_ring scsi_ctl_example_env ?w = Some (idle_freed g)"
  proof -
    let ?t = "scsi_idle\<lparr>sd_info := (sd_info scsi_idle)\<lparr>grants := [], seg_room := 0, vgnt := gnt_example\<rparr>\<rparr>"
    have t: "?w = ?t" using i by (simp add: upd_info_def migrated_def)
    have n: "ring_size scsi_idle = 1" "ring_ref scsi_idle = 40 # replicate 7 0" "sring_page scsi_idle = Some 130"
      "sd_irq scsi_idle = 0" "cenv scsi_ctl_example_env = scsi_env_example" "shyp scsi_env_example 40 = []"
      "skmem scsi_env_example 40 = None" "replicate 8 (0 :: nat) = 0 # replicate 7 0"
      by (simp_all add: scsi_idle_def scsi_running_def scsi_ctl_example_env_def scsi_env_example_def eval_nat_numeral)
    show ?thesis using g unfolding t
      by (simp add: n scsifront_free_ring_def end_access_def upd_info_def clear_refs_def idle_freed_def Let_def
          GRANT_INVALID_REF_def)
  qed
  have "scsifront_resume_free scsi_ctl_example_env ?m = Some (idle_freed g)"
    using p h r by (simp add: scsifront_resume_free_def i upd_info_upd_info)
  then show ?thesis using f by (intro exI [of _ "sd_info ?m"]) simp
qed

lemma resume_example:
  "\<exists>s2. scsifront_resume scsi_ctl_example_env id 0 (migrated (shared gnt_example) scsi_idle) = Some (0, s2) \<and>
    sring_page s2 \<noteq> None \<and> calm 424 (store_reply XS_READ # replicate 3 (store_reply XS_WRITE) @ round_replies) (sd_xs s2) \<and>
    mem_res s2 = [] \<and> \<not> pause (sd_info s2) \<and> sd_dev s2 = (sd_dev scsi_idle)\<lparr>dev_state := XenbusStateInitialised\<rparr>"
proof -
  let ?e = scsi_ctl_example_env and ?m = "migrated (shared gnt_example) scsi_idle"
  obtain g g' where g: "gnttab_end_foreign_access [] None 40 None gnt_example = Some g"
    "gnttab_grant_foreign_access gnt_example_env 9 (of_nat 130) 0 g = Some (int 40, g')"
    using example_end by blast
  obtain i where i: "scsifront_finish_all (cenv ?e) id (sd_info ?m) = Some i"
    "scsifront_resume_free ?e (?m\<lparr>sd_info := i\<rparr>) = Some (idle_freed g)"
    using idle_release [OF g(1), of id] by (auto simp: scsi_ctl_example_env_def)
  let ?t = "idle_freed g"
  have d: "nodename (sd_dev ?t) = [100]" "otherend (sd_dev ?t) = []" "free_blocks ?t = 130 # [1000]" "mem_res ?t = []"
    "length (ring_ref ?t) = 8" "sd_evt ?t = evtchn_example" "otherend_id (sd_dev ?t) = 9"
    and v: "vgnt (sd_info ?t) = g" "dev_state (sd_dev ?t) \<noteq> XenbusStateInitialised" "sd_dev ?t = sd_dev scsi_idle" "sgenv (cenv ?e) = gnt_example_env"
      "\<not> pause (sd_info ?t)" "sd_xs ?t = sd_xs scsi_probed"
    by (simp_all add: idle_freed_def scsi_idle_def scsi_running_def scsi_dev_example_def scsi_ctl_example_env_def scsi_env_example_def
        scsi_probed_def new_scsi_device_def)
  have c: "calm 1000 scsi_ctl_replies (sd_xs ?t)" using calm_example unfolding v(6) .
  have gr: "gnttab_grant_foreign_access (sgenv (cenv ?e)) 9 (of_nat 130) 0 (vgnt (sd_info ?t)) = Some (int 40, g')"
    using g(2) v by simp
  have r: "length (print_nat 40) \<le> 2" by (simp add: print_nat.simps)
  obtain u where u: "scsifront_init_ring ?e 0 ?t = Some (0, u)" "sring_page u \<noteq> None" "sd_dev u = sd_dev ?t"
    "calm 616 (round_replies @ store_reply XS_READ # replicate 3 (store_reply XS_WRITE) @ round_replies) (sd_xs u)" "mem_res u = []"
    "pause (sd_info u) = pause (sd_info ?t)"
    using init_ring_example [OF c d gr r] by blast
  let ?u = "upd_info (\<lambda>i. (reset_ids i)\<lparr>vshadow_free := unat (req_prod_pvt (vring i))\<rparr>) u"
  have cu: "calm 616 (round_replies @ store_reply XS_READ # replicate 3 (store_reply XS_WRITE) @ round_replies) (sd_xs ?u)"
    "nodename (sd_dev ?u) = [100]" "dev_state (sd_dev ?u) \<noteq> XenbusStateInitialised"
    using u(3,4) d(1) v(2) by (simp_all add: upd_info_def)
  obtain x where x: "switch_to ?e XenbusStateInitialised ?u =
     Some (?u\<lparr>sd_dev := (sd_dev ?u)\<lparr>dev_state := XenbusStateInitialised\<rparr>, sd_xs := x\<rparr>)"
     "calm 424 (store_reply XS_READ # replicate 3 (store_reply XS_WRITE) @ round_replies) x"
    using switch_example [OF cu] by auto
  let ?s2 = "?u\<lparr>sd_dev := (sd_dev ?u)\<lparr>dev_state := XenbusStateInitialised\<rparr>, sd_xs := x\<rparr>"
  have "scsifront_resume ?e id 0 ?m = Some (0, ?s2)" using i u(1) x(1) by (simp add: scsifront_resume_def)
  moreover have "sring_page ?s2 \<noteq> None" "mem_res ?s2 = []" "\<not> pause (sd_info ?s2)"
    "sd_dev ?s2 = (sd_dev scsi_idle)\<lparr>dev_state := XenbusStateInitialised\<rparr>"
    using u v by (simp_all add: upd_info_def reset_ids_fields)
  ultimately show ?thesis using x(2) by (intro exI [of _ ?s2]) simp
qed

theorem scsi_device_resumes_witness:
  "\<exists>s2 s3. scsifront_resume scsi_ctl_example_env id 0 (migrated (shared gnt_example) scsi_idle) = Some (0, s2) \<and>
    scsifront_backend_changed scsi_ctl_example_env 0 [] [] XenbusStateConnected s2 = Some s3 \<and>
    scsi_run True (ring_grants s3) 0 [0..<nr_ids (sd_info s3)] (sd_info s3) \<and> \<not> pause (sd_info s3)"
proof -
  let ?s = scsi_idle
  obtain s2 where s2: "scsifront_resume scsi_ctl_example_env id 0 (migrated (shared gnt_example) ?s) = Some (0, s2)"
    "sring_page s2 \<noteq> None" "calm 424 (store_reply XS_READ # replicate 3 (store_reply XS_WRITE) @ round_replies) (sd_xs s2)"
    "mem_res s2 = []" "\<not> pause (sd_info s2)" "sd_dev s2 = (sd_dev ?s)\<lparr>dev_state := XenbusStateInitialised\<rparr>"
    using resume_example by blast
  have d: "nodename (sd_dev s2) = [100]" "otherend (sd_dev s2) = []" "dev_state (sd_dev s2) = XenbusStateInitialised"
    using s2(6) by (simp_all add: scsi_idle_def scsi_running_def scsi_dev_example_def)
  obtain s3 where s3: "scsifront_backend_changed scsi_ctl_example_env 0 [] [] XenbusStateConnected s2 = Some s3" "seg_room (sd_info s3) \<noteq> 0"
    using connected_example [OF s2(3) d s2(4,5)] by auto
  have r: "sring_page ?s = Some 130" "ring_size ?s \<le> 8" "length (ring_ref ?s) = 8" "\<not> in_handler (irq_evtchn (sd_evt ?s) ! sd_irq ?s)"
    "backend_dom (sd_info ?s) = otherend_id (sd_dev ?s)" "free_pgs ?s = []"
    by (simp_all add: scsi_idle_def scsi_running_def scsi_dev_example_def evtchn_example_def) (simp add: scsi_example_def)
  have m: "pool_memory (sd_info ?s) = {#}"
    using no_grants_out [of "sd_info ?s"] by (simp add: pool_memory_def head_pages_def)
  have pg: "\<forall>q. count (pool_memory (sd_info ?s) + mset (free_pgs ?s)) q \<le> 1" "0 \<notin># pool_memory (sd_info ?s) + mset (free_pgs ?s)"
    using m r(6) by simp_all
  have z: "\<forall>r. flags (shared gnt_example r) = 0" by (simp add: gnt_example_def)
  have a: "answers (sd_info (migrated (shared gnt_example) ?s)) [] (vsring (sd_info ?s))"
    by (simp add: answers_def migrated_def upd_info_def) (simp add: scsi_example_def)
  show ?thesis
    using scsi_device_resumes [OF idle_inv r(1-5) pg z a s2(1,2) s3] s2(1) s3(1) by (intro exI [of _ s2] exI [of _ s3]) simp
qed

end
