(* ===== verification/Xenbus_Probe.thy ===== *)
theory Xenbus_Probe
  imports Xenbus_Client "HOL-Library.Monad_Syntax"
begin

text \<open>
  The front-end bus of \<^verbatim>\<open>xenbus_probe.c\<close> as the module builds it: devices found in the store and
  by the watch on \<open>device\<close>, their drivers' probe and removal, the peer's state changes, suspend
  and resume, the reset of devices a previous kernel left behind, and start-up. The kernel's
  driver core, which keeps the bus and matches drivers with devices, is a parameter.
\<close>

section \<open>State\<close>

text \<open>
  \<open>otherend\<close> of the device is empty for \<open>NULL\<close>. \<open>xdrv\<close> is the driver the core has bound, a key
  of \<open>drivers\<close> below; \<open>otherend_watch\<close> is the address of the device's watch.
\<close>

record xdev =
  xen_dev :: xenbus_device
  devicetype :: "u8 list"
  bus_id :: "u8 list"
  otherend_watch :: u64
  xdrv :: "nat option"

text \<open>
  A driver's operations act on the store client and on a state of their own; a missing one is
  \<open>None\<close>. \<open>ids\<close> is an array of types that ends with an empty one.
\<close>

type_synonym 'p callback = "xdev \<Rightarrow> xs \<times> 'p \<Rightarrow> (int \<times> xdev \<times> xs \<times> 'p) option"

record 'p xenbus_driver =
  ids :: "u8 list list option"
  drv_probe :: "(u8 list \<Rightarrow> 'p callback) option"
  drv_otherend_changed :: "(int \<Rightarrow> 'p callback) option"
  drv_remove :: "'p callback option"
  drv_suspend :: "'p callback option"
  drv_suspend_cancel :: "'p callback option"
  drv_resume :: "'p callback option"
  read_otherend_details :: "xdev \<Rightarrow> xs \<Rightarrow> (int \<times> xdev \<times> xs) option"

datatype xsd_state = XENBUS_XSD_UNCOMMITTED | XENBUS_XSD_FOREIGN_INIT | XENBUS_XSD_FOREIGN_READY
  | XENBUS_XSD_LOCAL_INIT | XENBUS_XSD_LOCAL_READY

text \<open>
  \<open>bus_error\<close> is \<open>xenbus_frontend.error\<close>; \<open>chain\<close> holds the callbacks waiting for the store and
  \<open>chain_called\<close> those that were called, in order.
\<close>

record 'p xbus =
  bus_xs :: xs
  bus_error :: int
  devices :: "xdev list"
  drivers :: "nat \<Rightarrow> 'p xenbus_driver"
  world :: 'p
  store_irq :: int
  store_evtchn :: int
  store_mfn :: nat
  xsd :: xsd_state
  chain :: "nat list"
  chain_called :: "nat list"

text \<open>
  What the kernel and its library supply: the \<open>%d\<close> and \<open>%i\<close> conversions, the address of
  the watch in a freshly allocated device, and the driver core's registration of a device
  and of a driver and removal of a device, which call back into this file.
\<close>

record 'p kernel =
  k_scan_d :: "u8 list \<Rightarrow> int \<times> int"
  k_scan_i :: "u8 list \<Rightarrow> int \<times> int"
  k_fresh :: "'p xbus \<Rightarrow> u64"
  device_register :: "xdev \<Rightarrow> 'p xbus \<Rightarrow> (int \<times> 'p xbus) option"
  device_unregister :: "xdev \<Rightarrow> 'p xbus \<Rightarrow> 'p xbus option"
  driver_register :: "nat \<Rightarrow> 'p xbus \<Rightarrow> (int \<times> 'p xbus) option"

definition XEN_BUS_ID_SIZE :: nat where "XEN_BUS_ID_SIZE = 20"

definition slash :: u8 where "slash = 47"

section \<open>Drivers and devices\<close>

text \<open>The outer \<open>None\<close> is a read past an array without a terminator.\<close>

fun match_device :: "u8 list list \<Rightarrow> u8 list \<Rightarrow> u8 list option option" where
  "match_device [] ty = None"
| "match_device (t # ts) ty =
     (if t = [] then Some None else if t = ty then Some (Some t) else match_device ts ty)"

definition xenbus_match :: "xdev \<Rightarrow> 'p xenbus_driver \<Rightarrow> bool option" where
  "xenbus_match d drv =
     (case ids drv of None \<Rightarrow> Some False
      | Some arr \<Rightarrow> map_option (\<lambda>r. r \<noteq> None) (match_device arr (devicetype d)))"

definition free_otherend_details :: "xdev \<Rightarrow> xdev" where
  "free_otherend_details d = d\<lparr>xen_dev := (xen_dev d)\<lparr>otherend := []\<rparr>\<rparr>"

definition free_otherend_watch :: "xdev \<Rightarrow> xs \<Rightarrow> xs option" where
  "free_otherend_watch d s =
     (if watch_node (watch_data s (otherend_watch d)) \<noteq> []
      then do {
        s \<leftarrow> unregister_xenbus_watch (otherend_watch d) s;
        Some (s\<lparr>watch_data := (watch_data s)(otherend_watch d := (watch_data s (otherend_watch d))\<lparr>watch_node := []\<rparr>)\<rparr>)
      }
      else Some s)"

text \<open>
  A value that does not convert leaves the old number in place. The path read is a C string.
\<close>

definition set_details :: "(int + u8 list) list \<Rightarrow> xdev \<Rightarrow> xdev" where
  "set_details vs d =
     (case vs of
        [Inl i] \<Rightarrow> d\<lparr>xen_dev := (xen_dev d)\<lparr>otherend_id := of_int i\<rparr>\<rparr>
      | [Inl i, Inr p] \<Rightarrow> d\<lparr>xen_dev := (xen_dev d)\<lparr>otherend_id := of_int i, otherend := cstr p\<rparr>\<rparr>
      | _ \<Rightarrow> d)"

definition xenbus_read_otherend_details ::
    "'p kernel \<Rightarrow> u8 list \<Rightarrow> u8 list \<Rightarrow> xdev \<Rightarrow> xs \<Rightarrow> (int \<times> xdev \<times> xs) option" where
  "xenbus_read_otherend_details k id_node path_node d s = do {
     let old = uint (otherend_id (xen_dev d));
     let scan = (\<lambda>v. case k_scan_i k v of (n, i) \<Rightarrow> (n, if n = 0 then old else i));
     ((err, vs), s) \<leftarrow> xenbus_gather 0 (nodename (xen_dev d)) [(id_node, Some scan), (path_node, None)] s;
     let d = set_details vs d;
     if err \<noteq> 0
     then do {
       (x, s) \<leftarrow> xenbus_dev_fatal (k_scan_d k) (xen_dev d) err
                  (bytes ''reading other end details from '' @ nodename (xen_dev d)) s;
       Some (err, d\<lparr>xen_dev := x\<rparr>, s)
     }
     else do {
       (ex, s) \<leftarrow> (if otherend (xen_dev d) = [] then Some (0, s)
                  else xenbus_exists 0 (otherend (xen_dev d)) [] s);
       if ex = 0
       then do {
         (x, s) \<leftarrow> xenbus_dev_fatal (k_scan_d k) (xen_dev d) (- ENOENT)
                    (bytes ''unable to read other end from '' @ nodename (xen_dev d) @
                     bytes ''.  missing or inaccessible.'') s;
         Some (- ENOENT, free_otherend_details (d\<lparr>xen_dev := x\<rparr>), s)
       }
       else Some (0, d, s)
     }
   }"

definition read_backend_details :: "'p kernel \<Rightarrow> xdev \<Rightarrow> xs \<Rightarrow> (int \<times> xdev \<times> xs) option" where
  "read_backend_details k = xenbus_read_otherend_details k (bytes ''backend-id'') (bytes ''backend'')"

text \<open>
  The watch on the peer's state fires. \<open>shutdown\<close> is \<open>system_state > SYSTEM_RUNNING\<close>; the bus has
  two levels, so a closing peer is then answered with Closed. The comparison
  is of a prefix.
\<close>

definition otherend_changed ::
    "'p kernel \<Rightarrow> bool \<Rightarrow> 'p xenbus_driver \<Rightarrow> u8 list list \<Rightarrow> xdev \<Rightarrow> xs \<times> 'p \<Rightarrow> (xdev \<times> xs \<times> 'p) option" where
  "otherend_changed k shutdown drv v d = (\<lambda>(s, p).
     (let oe = otherend (xen_dev d)
      in if oe = [] \<or> take (length oe) (v ! 0) \<noteq> oe then Some (d, s, p)
         else do {
           (state, s) \<leftarrow> xenbus_read_driver_state (k_scan_d k) oe s;
           if shutdown
           then (if state = int (state_num XenbusStateClosing)
                 then do {
                   (_, x, s) \<leftarrow> xenbus_frontend_closed (k_scan_d k) (xen_dev d) s;
                   Some (d\<lparr>xen_dev := x\<rparr>, s, p)
                 }
                 else Some (d, s, p))
           else (case drv_otherend_changed drv of
                   None \<Rightarrow> Some (d, s, p)
                 | Some f \<Rightarrow> do { (_, d, s, p) \<leftarrow> f state d (s, p); Some (d, s, p) })
         }))"

definition talk_to_otherend :: "'p xenbus_driver \<Rightarrow> xdev \<Rightarrow> xs \<Rightarrow> (int \<times> xdev \<times> xs) option" where
  "talk_to_otherend drv d s = do {
     s \<leftarrow> free_otherend_watch d s;
     read_otherend_details drv (free_otherend_details d) s
   }"

definition watch_otherend :: "'p kernel \<Rightarrow> xdev \<Rightarrow> xs \<Rightarrow> (int \<times> xdev \<times> xs) option" where
  "watch_otherend k d s = do {
     (err, x, s) \<leftarrow> xenbus_watch_path2 (k_scan_d k) (xen_dev d) (otherend (xen_dev d)) (bytes ''state'')
                     (otherend_watch d) s;
     Some (err, d\<lparr>xen_dev := x\<rparr>, s)
   }"

text \<open>The core calls it for a device and a driver that match. Every failure up to the driver's own
  probe reports and switches to Closed, one of \<open>talk_to_otherend\<close> or of the watch does not.\<close>

definition probe_fail :: "'p kernel \<Rightarrow> int \<Rightarrow> 'p callback" where
  "probe_fail k err d = (\<lambda>(s, p). do {
     s \<leftarrow> xenbus_dev_error (xen_dev d) err (bytes ''xenbus_dev_probe on '' @ nodename (xen_dev d)) s;
     (_, x, s) \<leftarrow> xenbus_switch_state (k_scan_d k) (xen_dev d) XenbusStateClosed s;
     Some (- ENODEV, d\<lparr>xen_dev := x\<rparr>, s, p)
   })"

definition xenbus_dev_probe :: "'p kernel \<Rightarrow> 'p xenbus_driver \<Rightarrow> 'p callback" where
  "xenbus_dev_probe k drv d = (\<lambda>(s, p).
     (case drv_probe drv of None \<Rightarrow> probe_fail k (- ENODEV) d (s, p)
      | Some probe \<Rightarrow> do {
          arr \<leftarrow> ids drv;
          i \<leftarrow> match_device arr (devicetype d);
          (case i of None \<Rightarrow> probe_fail k (- ENODEV) d (s, p)
           | Some i \<Rightarrow> do {
               (err, d, s) \<leftarrow> talk_to_otherend drv d s;
               if err \<noteq> 0 then Some (err, d, s, p)
               else do {
                 (err, d, s, p) \<leftarrow> probe i d (s, p);
                 if err \<noteq> 0 then probe_fail k err d (s, p)
                 else do {
                   (err, d, s) \<leftarrow> watch_otherend k d s;
                   Some (err, d, s, p)
                 }
               }
             })
        }))"

definition xenbus_dev_remove :: "'p kernel \<Rightarrow> 'p xenbus_driver \<Rightarrow> 'p callback" where
  "xenbus_dev_remove k drv d = (\<lambda>(s, p). do {
     s \<leftarrow> free_otherend_watch d s;
     (_, d, s, p) \<leftarrow> (case drv_remove drv of None \<Rightarrow> Some (0, d, s, p) | Some f \<Rightarrow> f d (s, p));
     let d = free_otherend_details d;
     (_, x, s) \<leftarrow> xenbus_switch_state (k_scan_d k) (xen_dev d) XenbusStateClosed s;
     Some (0, d\<lparr>xen_dev := x\<rparr>, s, p)
   })"

text \<open>
  \<open>others\<close> are the steps of the watch thread during the five seconds, each ends in the state it
  leaves. This domain is not the initial one, so the early return is not taken.
\<close>

fun wait_down :: "(xdev \<times> xs \<Rightarrow> (xdev \<times> xs) option) list \<Rightarrow> xdev \<times> xs \<Rightarrow> (xdev \<times> xs) option" where
  "wait_down [] ds = Some ds"
| "wait_down (f # fs) ds =
     (if dev_down (xen_dev (fst ds)) then Some ds else do { ds \<leftarrow> f ds; wait_down fs ds })"

definition xenbus_dev_shutdown :: "'p kernel \<Rightarrow> (xdev \<times> xs \<Rightarrow> (xdev \<times> xs) option) list \<Rightarrow> xdev \<Rightarrow> xs \<Rightarrow>
    (xdev \<times> xs) option" where
  "xenbus_dev_shutdown k others d s =
     (if dev_state (xen_dev d) \<noteq> XenbusStateConnected then Some (d, s)
      else do {
        (_, x, s) \<leftarrow> xenbus_switch_state (k_scan_d k) (xen_dev d) XenbusStateClosing s;
        let d = d\<lparr>xen_dev := x\<rparr>;
        if devicetype d = bytes ''vfb'' then Some (d, s)
        else do {
          (d, s) \<leftarrow> wait_down others (d, s);
          Some (d\<lparr>xen_dev := (xen_dev d)\<lparr>dev_down := False\<rparr>\<rparr>, s)
        }
      })"

text \<open>The files in \<^verbatim>\<open>sysfs\<close> and the hotplug event; \<open>add\<close> fails when the event's buffer is full.\<close>

definition nodename_show :: "xdev \<Rightarrow> u8 list" where
  "nodename_show d = nodename (xen_dev d) @ [10]"

definition devtype_show :: "xdev \<Rightarrow> u8 list" where
  "devtype_show d = devicetype d @ [10]"

definition modalias_show :: "xdev \<Rightarrow> u8 list" where
  "modalias_show d = bytes ''xen:'' @ devicetype d @ [10]"

definition xenbus_uevent_frontend :: "(u8 list \<Rightarrow> 'e \<Rightarrow> 'e option) \<Rightarrow> xdev option \<Rightarrow> 'e \<Rightarrow> int \<times> 'e" where
  "xenbus_uevent_frontend add d env =
     (case d of None \<Rightarrow> (- ENODEV, env)
      | Some d \<Rightarrow>
          (case add (bytes ''XENBUS_TYPE='' @ devicetype d) env of None \<Rightarrow> (- ENOMEM, env)
           | Some env \<Rightarrow>
               (case add (bytes ''XENBUS_PATH='' @ nodename (xen_dev d)) env of None \<Rightarrow> (- ENOMEM, env)
                | Some env \<Rightarrow>
                    (case add (bytes ''MODALIAS=xen:'' @ devicetype d) env of None \<Rightarrow> (- ENOMEM, env)
                     | Some env \<Rightarrow> (0, env)))))"

definition xenbus_register_driver_common :: "'p kernel \<Rightarrow> nat \<Rightarrow> 'p xbus \<Rightarrow> (int \<times> 'p xbus) option" where
  "xenbus_register_driver_common k drv b =
     (if bus_error b \<noteq> 0 then Some (bus_error b, b) else driver_register k drv b)"

text \<open>
  The wait for the devices at the end does nothing in the module: the flag
  \<^verbatim>\<open>ready_to_wait_for_devices\<close> is set only in a built-in kernel.
\<close>

definition xenbus_register_frontend :: "'p kernel \<Rightarrow> nat \<Rightarrow> 'p xbus \<Rightarrow> (int \<times> 'p xbus) option" where
  "xenbus_register_frontend k drv b =
     xenbus_register_driver_common k drv
       (b\<lparr>drivers := (drivers b)(drv := (drivers b drv)\<lparr>read_otherend_details := read_backend_details k\<rparr>)\<rparr>)"

section \<open>The devices of the bus\<close>

definition cmp_dev :: "u8 list \<Rightarrow> xdev \<Rightarrow> bool" where
  "cmp_dev name d \<longleftrightarrow> nodename (xen_dev d) = name"

definition xenbus_device_find :: "u8 list \<Rightarrow> 'p xbus \<Rightarrow> xdev option" where
  "xenbus_device_find name b = find (cmp_dev name) (devices b)"

definition below :: "u8 list \<Rightarrow> u8 list \<Rightarrow> bool" where
  "below path name \<longleftrightarrow> take (length path) name = path \<and>
     \<not> (length name > length path \<and> name ! length path \<noteq> slash)"

definition cleanup_dev :: "u8 list \<Rightarrow> xdev \<Rightarrow> bool" where
  "cleanup_dev path d \<longleftrightarrow> below path (nodename (xen_dev d))"

partial_function (option) xenbus_cleanup_devices :: "'p kernel \<Rightarrow> u8 list \<Rightarrow> 'p xbus \<Rightarrow> 'p xbus option" where
  "xenbus_cleanup_devices k path b =
     (case find (cleanup_dev path) (devices b) of None \<Rightarrow> Some b
      | Some d \<Rightarrow> do { b \<leftarrow> device_unregister k d b; xenbus_cleanup_devices k path b })"

text \<open>\<open>device/<type>/<id>\<close> becomes \<open><type>-<id>\<close>.\<close>

definition after_slash :: "u8 list \<Rightarrow> u8 list option" where
  "after_slash name = (case dropWhile (\<lambda>c. c \<noteq> slash) name of [] \<Rightarrow> None | _ # rest \<Rightarrow> Some rest)"

definition frontend_bus_id :: "u8 list \<Rightarrow> int + u8 list" where
  "frontend_bus_id name =
     (case after_slash name of None \<Rightarrow> Inl (- EINVAL)
      | Some rest \<Rightarrow>
          if length rest \<ge> XEN_BUS_ID_SIZE then Inl (- EINVAL)
          else (case after_slash rest of None \<Rightarrow> Inl (- EINVAL)
                | Some num \<Rightarrow> Inr (takeWhile (\<lambda>c. c \<noteq> slash) rest @ bytes ''-'' @ num)))"

definition new_device :: "u8 list \<Rightarrow> u8 list \<Rightarrow> u64 \<Rightarrow> u8 list \<Rightarrow> xdev" where
  "new_device type name w i =
     \<lparr>xen_dev = \<lparr>nodename = name, otherend = [], otherend_id = 0, dev_state = XenbusStateInitialising,
                 dev_down = False\<rparr>,
      devicetype = type, bus_id = i, otherend_watch = w, xdrv = None\<rparr>"

definition xenbus_probe_node :: "'p kernel \<Rightarrow> u8 list \<Rightarrow> u8 list \<Rightarrow> 'p xbus \<Rightarrow> (int \<times> 'p xbus) option" where
  "xenbus_probe_node k type name b = do {
     (state, s) \<leftarrow> xenbus_read_driver_state (k_scan_d k) name (bus_xs b);
     let b = b\<lparr>bus_xs := s\<rparr>;
     if bus_error b \<noteq> 0 then Some (bus_error b, b)
     else if state \<noteq> int (state_num XenbusStateInitialising) then Some (0, b)
     else (case xs_alloc s of
             (False, s) \<Rightarrow> Some (- ENOMEM, b\<lparr>bus_xs := s\<rparr>)
           | (True, s) \<Rightarrow>
               (let w = k_fresh k b;
                    b = b\<lparr>bus_xs := s\<lparr>watch_data := (watch_data s)(w := \<lparr>watch_node = [], XBWF_new_thread = False\<rparr>)\<rparr>\<rparr>
                in (case frontend_bus_id name of
                      Inl err \<Rightarrow> Some (err, b)
                    | Inr i \<Rightarrow> device_register k (new_device type name w i) b)))
   }"

definition xenbus_probe_frontend :: "'p kernel \<Rightarrow> u8 list \<Rightarrow> u8 list \<Rightarrow> 'p xbus \<Rightarrow> (int \<times> 'p xbus) option" where
  "xenbus_probe_frontend k type name b =
     (if type = bytes ''console'' then Some (0, b)
      else (case xs_alloc (bus_xs b) of
              (False, s) \<Rightarrow> Some (- ENOMEM, b\<lparr>bus_xs := s\<rparr>)
            | (True, s) \<Rightarrow>
                xenbus_probe_node k type (bytes ''device/'' @ type @ bytes ''/'' @ name) (b\<lparr>bus_xs := s\<rparr>)))"

text \<open>One after the other up to the first error.\<close>

fun probe_each :: "('a \<Rightarrow> 's \<Rightarrow> (int \<times> 's) option) \<Rightarrow> 'a list \<Rightarrow> 's \<Rightarrow> (int \<times> 's) option" where
  "probe_each f [] b = Some (0, b)"
| "probe_each f (x # xs) b = do {
     (err, b) \<leftarrow> f x b;
     if err \<noteq> 0 then Some (err, b) else probe_each f xs b
   }"

definition xenbus_probe_device_type :: "'p kernel \<Rightarrow> u8 list \<Rightarrow> 'p xbus \<Rightarrow> (int \<times> 'p xbus) option" where
  "xenbus_probe_device_type k type b = do {
     (dir, s) \<leftarrow> xenbus_directory 0 (bytes ''device'') type (bus_xs b);
     (case dir of Err e \<Rightarrow> Some (e, b\<lparr>bus_xs := s\<rparr>)
      | Ok dir \<Rightarrow> probe_each (xenbus_probe_frontend k type) dir (b\<lparr>bus_xs := s\<rparr>))
   }"

definition xenbus_probe_devices :: "'p kernel \<Rightarrow> 'p xbus \<Rightarrow> (int \<times> 'p xbus) option" where
  "xenbus_probe_devices k b =
     (if bus_error b \<noteq> 0 then Some (bus_error b, b)
      else do {
        (dir, s) \<leftarrow> xenbus_directory 0 (bytes ''device'') [] (bus_xs b);
        (case dir of Err e \<Rightarrow> Some (e, b\<lparr>bus_xs := s\<rparr>)
         | Ok dir \<Rightarrow> probe_each (xenbus_probe_device_type k) dir (b\<lparr>bus_xs := s\<rparr>))
      })"

fun char_count :: "u8 list \<Rightarrow> u8 \<Rightarrow> nat" where
  "char_count [] c = 0"
| "char_count (x # xs) c = (if x = c then 1 else 0) + char_count xs c"

fun strsep_len_from :: "nat \<Rightarrow> u8 list \<Rightarrow> u8 \<Rightarrow> nat \<Rightarrow> int" where
  "strsep_len_from i [] c n = (if n = 0 then int i else - ERANGE)"
| "strsep_len_from i (x # xs) c n =
     (if x = c then (if n = 0 then int i else strsep_len_from (i + 1) xs c (n - 1))
      else strsep_len_from (i + 1) xs c n)"

definition strsep_len :: "u8 list \<Rightarrow> u8 \<Rightarrow> nat \<Rightarrow> int" where
  "strsep_len str c n = strsep_len_from 0 str c n"

definition node_type :: "u8 list \<Rightarrow> u8 list" where
  "node_type node = take (XEN_BUS_ID_SIZE - 1) (takeWhile (\<lambda>c. c \<noteq> slash) (the (after_slash node)))"

definition xenbus_dev_changed :: "'p kernel \<Rightarrow> u8 list \<Rightarrow> 'p xbus \<Rightarrow> 'p xbus option" where
  "xenbus_dev_changed k node b =
     (if bus_error b \<noteq> 0 \<or> char_count node slash < 2 then Some b
      else do {
        (ex, s) \<leftarrow> xenbus_exists 0 node [] (bus_xs b);
        let b = b\<lparr>bus_xs := s\<rparr>;
        if ex = 0 then xenbus_cleanup_devices k node b
        else let rootlen = strsep_len node slash 2
             in if rootlen < 0 then Some b
                else (case xs_alloc s of
                        (False, s) \<Rightarrow> Some (b\<lparr>bus_xs := s\<rparr>)
                      | (True, s) \<Rightarrow>
                          (let b = b\<lparr>bus_xs := s\<rparr>; root = take (nat rootlen) node
                           in if xenbus_device_find root b = None
                              then map_option snd (xenbus_probe_node k (node_type node) root b)
                              else Some b))
      })"

definition frontend_changed :: "'p kernel \<Rightarrow> u8 list list \<Rightarrow> 'p xbus \<Rightarrow> 'p xbus option" where
  "frontend_changed k v b = xenbus_dev_changed k (v ! 0) b"

section \<open>Suspend and resume\<close>

text \<open>\<open>bus_for_each_dev\<close>: up to the first device for which the function returns other than 0.\<close>

fun for_each_dev :: "'p callback \<Rightarrow> xdev list \<Rightarrow> xs \<times> 'p \<Rightarrow> (int \<times> xdev list \<times> xs \<times> 'p) option" where
  "for_each_dev f [] sp = Some (0, [], sp)"
| "for_each_dev f (d # ds) sp = do {
     (r, d, sp) \<leftarrow> f d sp;
     if r \<noteq> 0 then Some (r, d # ds, sp)
     else do { (r, ds, sp) \<leftarrow> for_each_dev f ds sp; Some (r, d # ds, sp) }
   }"

definition bus_for_each_dev :: "'p callback \<Rightarrow> 'p xbus \<Rightarrow> 'p xbus option" where
  "bus_for_each_dev f b = do {
     (_, ds, s, p) \<leftarrow> for_each_dev f (devices b) (bus_xs b, world b);
     Some (b\<lparr>devices := ds, bus_xs := s, world := p\<rparr>)
   }"

text \<open>An error of the driver is only logged.\<close>

definition suspend_dev :: "(nat \<Rightarrow> 'p xenbus_driver) \<Rightarrow> 'p callback" where
  "suspend_dev drvs d sp =
     (case xdrv d of None \<Rightarrow> Some (0, d, sp)
      | Some i \<Rightarrow> (case drv_suspend (drvs i) of None \<Rightarrow> Some (0, d, sp)
                  | Some f \<Rightarrow> do { (_, d, sp) \<leftarrow> f d sp; Some (0, d, sp) }))"

definition suspend_cancel_dev :: "(nat \<Rightarrow> 'p xenbus_driver) \<Rightarrow> 'p callback" where
  "suspend_cancel_dev drvs d sp =
     (case xdrv d of None \<Rightarrow> Some (0, d, sp)
      | Some i \<Rightarrow> (case drv_suspend_cancel (drvs i) of None \<Rightarrow> Some (0, d, sp)
                  | Some f \<Rightarrow> do { (_, d, sp) \<leftarrow> f d sp; Some (0, d, sp) }))"

definition resume_dev :: "'p kernel \<Rightarrow> (nat \<Rightarrow> 'p xenbus_driver) \<Rightarrow> 'p callback" where
  "resume_dev k drvs d = (\<lambda>(s, p).
     (case xdrv d of None \<Rightarrow> Some (0, d, s, p)
      | Some i \<Rightarrow> do {
          (err, d, s) \<leftarrow> talk_to_otherend (drvs i) d s;
          if err \<noteq> 0 then Some (err, d, s, p)
          else do {
            let d = d\<lparr>xen_dev := (xen_dev d)\<lparr>dev_state := XenbusStateInitialising\<rparr>\<rparr>;
            (err, d, s, p) \<leftarrow> (case drv_resume (drvs i) of None \<Rightarrow> Some (0, d, s, p) | Some f \<Rightarrow> f d (s, p));
            if err \<noteq> 0 then Some (err, d, s, p)
            else do {
              (err, d, s) \<leftarrow> watch_otherend k d s;
              Some (err, d, s, p)
            }
          }
        }))"

definition on_frontends :: "'p callback \<Rightarrow> 'p xbus \<Rightarrow> 'p xbus option" where
  "on_frontends f b = (if bus_error b = 0 then bus_for_each_dev f b else Some b)"

definition xenbus_suspend :: "(xs \<Rightarrow> xs) list \<Rightarrow> 'p xbus \<Rightarrow> 'p xbus option" where
  "xenbus_suspend others b = do {
     b \<leftarrow> on_frontends (suspend_dev (drivers b)) b;
     s \<leftarrow> xs_suspend others (bus_xs b);
     Some (b\<lparr>bus_xs := s\<rparr>)
   }"

text \<open>
  \<open>bound\<close> is the interrupt the event channel is bound to, or an error, which is ignored here.
  \<open>unplug\<close> is \<open>xen_unplug_emulated_devices\<close>, which tells the hypervisor through an I/O port to
  remove the emulated disks and network cards.
\<close>

definition xenbus_resume :: "'p kernel \<Rightarrow> bool \<Rightarrow> int \<Rightarrow> ('p \<Rightarrow> 'p) \<Rightarrow> 'p xbus \<Rightarrow> 'p xbus option" where
  "xenbus_resume k reset_devices bound unplug b = do {
     let (_, r, irq, _) = xb_init_comms reset_devices bound (ring (bus_xs b)) (store_irq b);
     s \<leftarrow> xs_resume ((bus_xs b)\<lparr>ring := r\<rparr>);
     b \<leftarrow> on_frontends (resume_dev k (drivers b)) (b\<lparr>bus_xs := s, store_irq := irq\<rparr>);
     Some (b\<lparr>world := unplug (world b)\<rparr>)
   }"

definition xenbus_suspend_cancel :: "'p xbus \<Rightarrow> 'p xbus option" where
  "xenbus_suspend_cancel b =
     on_frontends (suspend_cancel_dev (drivers b)) (b\<lparr>bus_xs := xs_suspend_cancel (bus_xs b)\<rparr>)"

section \<open>Those who wait for the store\<close>

definition is_xenstored_ready :: "'p xbus \<Rightarrow> bool" where
  "is_xenstored_ready b \<longleftrightarrow> xsd b = XENBUS_XSD_FOREIGN_READY \<or> xsd b = XENBUS_XSD_LOCAL_READY"

definition register_xenstore_notifier :: "nat \<Rightarrow> 'p xbus \<Rightarrow> 'p xbus" where
  "register_xenstore_notifier nb b =
     (if is_xenstored_ready b then b\<lparr>chain_called := chain_called b @ [nb]\<rparr>
      else b\<lparr>chain := chain b @ [nb]\<rparr>)"

definition unregister_xenstore_notifier :: "nat \<Rightarrow> 'p xbus \<Rightarrow> 'p xbus" where
  "unregister_xenstore_notifier nb b = b\<lparr>chain := remove1 nb (chain b)\<rparr>"

section \<open>Devices a previous kernel left connected\<close>

text \<open>\<open>backend_state\<close> and the store client; the watch thread runs this for the path of an event.\<close>

definition xenbus_reset_backend_state_changed ::
    "(u8 list \<Rightarrow> int \<times> int) \<Rightarrow> u8 list \<Rightarrow> int \<times> xs \<Rightarrow> (int \<times> xs) option" where
  "xenbus_reset_backend_state_changed scan path = (\<lambda>(_, s). do {
     ((n, v), s) \<leftarrow> xenbus_scanf 0 path [] scan s;
     Some (if n \<noteq> 1 then int (state_num XenbusStateUnknown) else (case v of None \<Rightarrow> 0 | Some i \<Rightarrow> i), s)
   })"

text \<open>\<open>fired\<close> are the events that arrive within the five seconds, each with its path.\<close>

fun xenbus_reset_wait_for_backend ::
    "(u8 list \<Rightarrow> int \<times> int) \<Rightarrow> u8 list list \<Rightarrow> int \<Rightarrow> int \<times> xs \<Rightarrow> (int \<times> xs) option" where
  "xenbus_reset_wait_for_backend scan [] expected bs = Some bs"
| "xenbus_reset_wait_for_backend scan (p # ps) expected bs =
     (if fst bs = expected then Some bs
      else do {
        bs \<leftarrow> xenbus_reset_backend_state_changed scan p bs;
        xenbus_reset_wait_for_backend scan ps expected bs
      })"

text \<open>Write the front end's state and wait for the backend's.\<close>

definition reset_step :: "'p kernel \<Rightarrow> (xenbus_state \<Rightarrow> u8 list list) \<Rightarrow> u8 list \<Rightarrow> xenbus_state \<Rightarrow>
    xenbus_state \<Rightarrow> int \<times> xs \<Rightarrow> (int \<times> xs) option" where
  "reset_step k fired fe new expected = (\<lambda>(bs, s). do {
     (_, s) \<leftarrow> xenbus_printf 0 fe (bytes ''state'') (print_d (int (state_num new))) s;
     xenbus_reset_wait_for_backend (k_scan_i k) (fired expected) (int (state_num expected)) (bs, s)
   })"

text \<open>
  From the backend's state on, the switch falls through to the end. \<open>w\<close> is the address of the
  watch, a variable on the stack.
\<close>

definition xenbus_reset_frontend :: "'p kernel \<Rightarrow> u64 \<Rightarrow> (xenbus_state \<Rightarrow> u8 list list) \<Rightarrow> u8 list \<Rightarrow> u8 list \<Rightarrow>
    int \<Rightarrow> xs \<Rightarrow> xs option" where
  "xenbus_reset_frontend k w fired fe be be_state s =
     (case xs_alloc s of
        (False, s) \<Rightarrow> Some s
      | (True, s) \<Rightarrow> do {
          let s = s\<lparr>watch_data := (watch_data s)(w := \<lparr>watch_node = be @ bytes ''/state'', XBWF_new_thread = False\<rparr>)\<rparr>;
          (_, s) \<leftarrow> register_xenbus_watch w s;
          bs \<leftarrow> (if be_state = int (state_num XenbusStateConnected)
                then reset_step k fired fe XenbusStateClosing XenbusStateClosing (int (state_num XenbusStateUnknown), s)
                else Some (int (state_num XenbusStateUnknown), s));
          bs \<leftarrow> (if be_state \<in> {int (state_num XenbusStateConnected), int (state_num XenbusStateClosing)}
                then reset_step k fired fe XenbusStateClosed XenbusStateClosed bs else Some bs);
          (_, s) \<leftarrow> (if be_state \<in> {int (state_num XenbusStateConnected), int (state_num XenbusStateClosing),
                                    int (state_num XenbusStateClosed)}
                then reset_step k fired fe XenbusStateInitialising XenbusStateInitWait bs else Some bs);
          unregister_xenbus_watch w s
        })"

definition xenbus_check_frontend :: "'p kernel \<Rightarrow> u64 \<Rightarrow> (u8 list \<Rightarrow> xenbus_state \<Rightarrow> u8 list list) \<Rightarrow> u8 list \<Rightarrow>
    u8 list \<Rightarrow> xs \<Rightarrow> xs option" where
  "xenbus_check_frontend k w fired cls dev s =
     (case xs_alloc s of
        (False, s) \<Rightarrow> Some s
      | (True, s) \<Rightarrow> do {
          let frontend = bytes ''device/'' @ cls @ bytes ''/'' @ dev;
          ((err, st), s) \<leftarrow> xenbus_scanf 0 frontend (bytes ''state'') (k_scan_i k) s;
          if err = 1 \<and> st \<in> {Some (int (state_num XenbusStateConnected)), Some (int (state_num XenbusStateClosed))}
          then do {
            (backend, s) \<leftarrow> xenbus_read 0 frontend (bytes ''backend'') s;
            (case backend of
               Err _ \<Rightarrow> Some s
             | Ok (be, _) \<Rightarrow> do {
                 ((err, st), s) \<leftarrow> xenbus_scanf 0 (cstr be) (bytes ''state'') (k_scan_i k) s;
                 (case st of
                    Some be_state \<Rightarrow>
                      if err = 1 then xenbus_reset_frontend k w (fired frontend) frontend (cstr be) be_state s
                      else Some s
                  | None \<Rightarrow> Some s)
               })
          }
          else Some s
        })"

fun check_frontends :: "'p kernel \<Rightarrow> u64 \<Rightarrow> (u8 list \<Rightarrow> xenbus_state \<Rightarrow> u8 list list) \<Rightarrow> u8 list \<Rightarrow>
    u8 list list \<Rightarrow> xs \<Rightarrow> xs option" where
  "check_frontends k w fired cls [] s = Some s"
| "check_frontends k w fired cls (d # ds) s = do {
     s \<leftarrow> xenbus_check_frontend k w fired cls d s;
     check_frontends k w fired cls ds s
   }"

fun reset_classes :: "'p kernel \<Rightarrow> u64 \<Rightarrow> (u8 list \<Rightarrow> xenbus_state \<Rightarrow> u8 list list) \<Rightarrow> u8 list list \<Rightarrow> xs \<Rightarrow> xs option" where
  "reset_classes k w fired [] s = Some s"
| "reset_classes k w fired (c # cs) s = do {
     (dev, s) \<leftarrow> xenbus_directory 0 (bytes ''device'') c s;
     s \<leftarrow> (case dev of Err _ \<Rightarrow> Some s | Ok dev \<Rightarrow> check_frontends k w fired c dev s);
     reset_classes k w fired cs s
   }"

definition xenbus_reset_state :: "'p kernel \<Rightarrow> u64 \<Rightarrow> (u8 list \<Rightarrow> xenbus_state \<Rightarrow> u8 list list) \<Rightarrow> xs \<Rightarrow> xs option" where
  "xenbus_reset_state k w fired s = do {
     (cls, s) \<leftarrow> xenbus_directory 0 (bytes ''device'') [] s;
     (case cls of Err _ \<Rightarrow> Some s | Ok cls \<Rightarrow> reset_classes k w fired cls s)
   }"

section \<open>Start-up\<close>

text \<open>\<open>fe\<close> is the address of \<open>fe_watch\<close>; the results of the three steps are ignored.\<close>

definition xenbus_probe :: "'p kernel \<Rightarrow> u64 \<Rightarrow> u64 \<Rightarrow> (u8 list \<Rightarrow> xenbus_state \<Rightarrow> u8 list list) \<Rightarrow> 'p xbus \<Rightarrow>
    'p xbus option" where
  "xenbus_probe k fe w fired b =
     (if \<not> is_xenstored_ready b then None
      else do {
        s \<leftarrow> xenbus_reset_state k w fired (bus_xs b);
        (_, b) \<leftarrow> xenbus_probe_devices k (b\<lparr>bus_xs := s\<rparr>);
        (_, s) \<leftarrow> register_xenbus_watch fe
          ((bus_xs b)\<lparr>watch_data := (watch_data (bus_xs b))(fe := \<lparr>watch_node = bytes ''device'', XBWF_new_thread = False\<rparr>)\<rparr>);
        Some (b\<lparr>bus_xs := s, chain_called := chain_called b @ chain b\<rparr>)
      })"

text \<open>
  What the hypervisor and the kernel answer at start-up: the hypercall page, registering the
  bus, the two parameters of the store, binding the event channel, the two threads of
  \<open>xs_init\<close>, registering the bus's device.
\<close>

record boot =
  running_on_xen :: bool
  bus_register_result :: int
  param_evtchn :: "int + int"
  param_pfn :: "int + nat"
  boot_reset_devices :: bool
  boot_bind :: int
  boot_watch_task :: int
  boot_bus_task :: int
  boot_quirk :: bool
  bus_dev_result :: int

definition xenbus_init :: "'p kernel \<Rightarrow> u64 \<Rightarrow> u64 \<Rightarrow> (u8 list \<Rightarrow> xenbus_state \<Rightarrow> u8 list list) \<Rightarrow> boot \<Rightarrow> 'p xbus \<Rightarrow>
    (int \<times> 'p xbus) option" where
  "xenbus_init k fe w fired e b =
     (if \<not> running_on_xen e then Some (- ENODEV, b)
      else let b = b\<lparr>bus_error := bus_register_result e\<rparr>
           in (case param_evtchn e of Inl err \<Rightarrow> Some (err, b)
               | Inr port \<Rightarrow>
                   let b = b\<lparr>store_evtchn := port\<rparr>
                   in (case param_pfn e of Inl err \<Rightarrow> Some (err, b)
                       | Inr pfn \<Rightarrow>
                           let b = b\<lparr>store_mfn := pfn, xsd := XENBUS_XSD_FOREIGN_READY\<rparr>;
                               (err, r, irq, _) = xb_init_comms (boot_reset_devices e) (boot_bind e)
                                                    (ring (bus_xs b)) (store_irq b);
                               b = b\<lparr>bus_xs := (bus_xs b)\<lparr>ring := r\<rparr>, store_irq := irq\<rparr>
                           in if err \<noteq> 0 then Some (err, b)
                              else do {
                                (err, s) \<leftarrow> xs_init (boot_watch_task e) (boot_bus_task e) (boot_quirk e) (k_scan_d k) (bus_xs b);
                                let b = b\<lparr>bus_xs := s\<rparr>;
                                if err \<noteq> 0 then Some (err, b)
                                else let b = (if bus_error b = 0 then b\<lparr>bus_error := bus_dev_result e\<rparr> else b)
                                     in do { b \<leftarrow> xenbus_probe k fe w fired b; Some (0, b) }
                              })))"

text \<open>\<open>xenbus_for_each_frontend\<close>, for other modules: the result of the last call.\<close>

definition xenbus_for_each_frontend :: "'p callback \<Rightarrow> 'p xbus \<Rightarrow> (int \<times> 'p xbus) option" where
  "xenbus_for_each_frontend f b = do {
     (r, ds, s, p) \<leftarrow> for_each_dev f (devices b) (bus_xs b, world b);
     Some (r, b\<lparr>devices := ds, bus_xs := s, world := p\<rparr>)
   }"

end
