(* ===== verification/Xenbus_Probe_Props.thy ===== *)
theory Xenbus_Probe_Props
  imports Xenbus_Probe
begin

text \<open>
  What holds of the front-end bus: which devices are on it and how they are named, the removal
  of devices whose node has gone, and the reset of devices left connected.
\<close>

section \<open>Names of devices\<close>

lemma bytes_slash [simp]: "bytes ''/'' = [slash]" by (simp add: bytes_def slash_def)

lemma bytes_device: "bytes ''device/'' = bytes ''device'' @ [slash]"
  by (simp add: bytes_def slash_def)

lemma slash_device [simp]: "slash \<notin> set (bytes ''device'')"
  by (simp add: bytes_def slash_def)

lemma after_slash_Some: "after_slash name = Some r \<longleftrightarrow> (\<exists>a. name = a @ slash # r \<and> slash \<notin> set a)"
proof
  assume "after_slash name = Some r"
  then obtain c where c: "dropWhile (\<lambda>c. c \<noteq> slash) name = c # r" by (auto simp: after_slash_def split: list.splits)
  then have "c = slash" using hd_dropWhile [of "\<lambda>c. c \<noteq> slash" name] by simp
  moreover have "name = takeWhile (\<lambda>c. c \<noteq> slash) name @ c # r" using c takeWhile_dropWhile_id [of "\<lambda>c. c \<noteq> slash" name] by simp
  moreover have "slash \<notin> set (takeWhile (\<lambda>c. c \<noteq> slash) name)" using set_takeWhileD by force
  ultimately show "\<exists>a. name = a @ slash # r \<and> slash \<notin> set a" by blast
next
  assume "\<exists>a. name = a @ slash # r \<and> slash \<notin> set a"
  then obtain a where a: "name = a @ slash # r" "slash \<notin> set a" by blast
  then have "dropWhile (\<lambda>c. c \<noteq> slash) name = slash # r" by (induction a arbitrary: name) auto
  then show "after_slash name = Some r" by (simp add: after_slash_def)
qed

lemma after_slash_append [simp]: "slash \<notin> set a \<Longrightarrow> after_slash (a @ slash # r) = Some r"
  by (auto simp: after_slash_Some)

lemma takeWhile_slash [simp]: "slash \<notin> set a \<Longrightarrow> takeWhile (\<lambda>c. c \<noteq> slash) (a @ slash # r) = a"
  by (induction a) auto

lemma frontend_bus_id_Inr:
  "frontend_bus_id name = Inr i \<longleftrightarrow>
     (\<exists>r t n. name = r @ slash # t @ slash # n \<and> slash \<notin> set r \<and> slash \<notin> set t \<and>
        length (t @ slash # n) < XEN_BUS_ID_SIZE \<and> i = t @ bytes ''-'' @ n)"
proof
  assume f: "frontend_bus_id name = Inr i"
  then obtain rest num where "after_slash name = Some rest" "after_slash rest = Some num"
    "length rest < XEN_BUS_ID_SIZE" "i = takeWhile (\<lambda>c. c \<noteq> slash) rest @ bytes ''-'' @ num"
    by (auto simp: frontend_bus_id_def split: option.splits if_splits)
  moreover from this obtain r t where "name = r @ slash # rest" "slash \<notin> set r" "rest = t @ slash # num" "slash \<notin> set t"
    by (auto simp: after_slash_Some)
  ultimately show "\<exists>r t n. name = r @ slash # t @ slash # n \<and> slash \<notin> set r \<and> slash \<notin> set t \<and>
        length (t @ slash # n) < XEN_BUS_ID_SIZE \<and> i = t @ bytes ''-'' @ n" by auto
qed (auto simp: frontend_bus_id_def)

lemma slash_split: "0 < char_count s c \<Longrightarrow> \<exists>a r. s = a @ c # r \<and> c \<notin> set a \<and> char_count s c = Suc (char_count r c)"
proof (induction s)
  case (Cons x s)
  show ?case
  proof (cases "x = c")
    case True
    then show ?thesis by (intro exI [of _ "[]"] exI [of _ s]) simp
  next
    case False
    then obtain a r where "s = a @ c # r" "c \<notin> set a" "char_count s c = Suc (char_count r c)" using Cons by auto
    then show ?thesis using False by (intro exI [of _ "x # a"] exI [of _ r]) simp
  qed
qed simp

lemma strsep_skip: "c \<notin> set a \<Longrightarrow> strsep_len_from i (a @ s) c n = strsep_len_from (i + length a) s c n"
  by (induction a arbitrary: i) auto

lemma strsep_end: "c \<notin> set a \<Longrightarrow> s = [] \<or> hd s = c \<Longrightarrow> strsep_len_from i (a @ s) c 0 = int (i + length a)"
  using strsep_skip [of c a i s 0] by (cases s) auto

text \<open>The root of a path are its first three components, whatever follows.\<close>

lemma strsep_root:
  assumes "slash \<notin> set r" "slash \<notin> set t" "slash \<notin> set n" "rest = [] \<or> hd rest = slash"
  shows "strsep_len (r @ slash # t @ slash # n @ rest) slash 2 = int (length (r @ slash # t @ slash # n))"
proof -
  have "strsep_len (r @ slash # t @ slash # n @ rest) slash 2
      = strsep_len_from (length r) (slash # t @ slash # n @ rest) slash 2"
    using strsep_skip [OF assms(1)] by (simp add: strsep_len_def)
  also have "\<dots> = strsep_len_from (length r + 1) (t @ slash # n @ rest) slash 1" by simp
  also have "\<dots> = strsep_len_from (length r + 1 + length t) (slash # n @ rest) slash 1"
    by (rule strsep_skip [OF assms(2)])
  also have "\<dots> = strsep_len_from (length r + 1 + length t + 1) (n @ rest) slash 0" by simp
  also have "\<dots> = int (length r + 1 + length t + 1 + length n)" by (rule strsep_end [OF assms(3,4)])
  finally show ?thesis by simp
qed

lemma node_parts:
  assumes "\<not> char_count node slash < 2"
  obtains r t n rest where "node = r @ slash # t @ slash # n @ rest" "slash \<notin> set r" "slash \<notin> set t"
    "slash \<notin> set n" "rest = [] \<or> hd rest = slash"
proof -
  obtain r s where r: "node = r @ slash # s" "slash \<notin> set r" "char_count node slash = Suc (char_count s slash)"
    using slash_split [of node slash] assms by auto
  then obtain t u where t: "s = t @ slash # u" "slash \<notin> set t" using slash_split [of s slash] assms by auto
  have "u = takeWhile (\<lambda>c. c \<noteq> slash) u @ dropWhile (\<lambda>c. c \<noteq> slash) u" by simp
  moreover have "slash \<notin> set (takeWhile (\<lambda>c. c \<noteq> slash) u)" using set_takeWhileD by force
  moreover have "dropWhile (\<lambda>c. c \<noteq> slash) u = [] \<or> hd (dropWhile (\<lambda>c. c \<noteq> slash) u) = slash"
    using hd_dropWhile [of "\<lambda>c. c \<noteq> slash" u] by blast
  moreover have "node = r @ slash # t @ slash # takeWhile (\<lambda>c. c \<noteq> slash) u @ dropWhile (\<lambda>c. c \<noteq> slash) u"
    using r t by simp
  ultimately show thesis using that r(2) t(2) by blast
qed

section \<open>The devices on the bus\<close>

definition ident :: "xdev \<Rightarrow> u8 list \<times> u8 list \<times> u8 list" where
  "ident d = (nodename (xen_dev d), devicetype d, bus_id d)"

definition idents :: "'p xbus \<Rightarrow> (u8 list \<times> u8 list \<times> u8 list) list" where
  "idents b = map ident (devices b)"

text \<open>
  The driver core adds a device at the end under a name not yet in use or fails without adding
  it, and removes exactly the device it is told to; drivers do not rename devices.
\<close>

definition core_ok :: "'p kernel \<Rightarrow> bool" where
  "core_ok k \<longleftrightarrow>
     (\<forall>d b r b'. device_register k d b = Some (r, b') \<longrightarrow>
        (if r = 0 then idents b' = idents b @ [ident d] \<and> bus_id d \<notin> bus_id ` set (devices b)
         else idents b' = idents b)) \<and>
     (\<forall>d b b'. d \<in> set (devices b) \<longrightarrow> device_unregister k d b = Some b' \<longrightarrow>
        idents b' = remove1 (ident d) (idents b))"

text \<open>A device's type is the second part of its path, and its name on the bus is made of the last two.\<close>

fun ident_ok :: "u8 list \<times> u8 list \<times> u8 list \<Rightarrow> bool" where
  "ident_ok (name, type, i) \<longleftrightarrow> frontend_bus_id name = Inr i \<and>
     (\<exists>r n. slash \<notin> set r \<and> name = r @ slash # type @ slash # n)"

definition dev_ok :: "xdev \<Rightarrow> bool" where "dev_ok d \<longleftrightarrow> ident_ok (ident d)"

definition idents_ok :: "(u8 list \<times> u8 list \<times> u8 list) list \<Rightarrow> bool" where
  "idents_ok is \<longleftrightarrow> (\<forall>x \<in> set is. ident_ok x) \<and> distinct (map (snd \<circ> snd) is)"

definition bus_ok :: "'p xbus \<Rightarrow> bool" where
  "bus_ok b \<longleftrightarrow> (\<forall>d \<in> set (devices b). dev_ok d) \<and> distinct (map (nodename \<circ> xen_dev) (devices b))"

lemma idents_ok_bus: "idents_ok (idents b) \<Longrightarrow> bus_ok b"
proof -
  assume ok: "idents_ok (idents b)"
  have "inj_on (nodename \<circ> xen_dev) (set (devices b))"
  proof (rule inj_onI)
    fix d d' assume d: "d \<in> set (devices b)" "d' \<in> set (devices b)" "(nodename \<circ> xen_dev) d = (nodename \<circ> xen_dev) d'"
    have "ident_ok (ident d)" "ident_ok (ident d')" using ok d by (auto simp: idents_ok_def idents_def)
    then have "bus_id d = bus_id d'" using d(3) by (auto simp: ident_def)
    moreover have "inj_on bus_id (set (devices b))"
      using ok by (simp add: idents_ok_def idents_def distinct_map ident_def o_def)
    ultimately show "d = d'" using d by (auto dest: inj_onD)
  qed
  moreover have "distinct (devices b)"
    using ok by (auto simp: idents_ok_def idents_def distinct_map)
  ultimately show ?thesis using ok by (auto simp: bus_ok_def distinct_map dev_ok_def idents_ok_def idents_def)
qed

lemma idents_upd [simp]:
  "idents (b\<lparr>bus_xs := s\<rparr>) = idents b" "devices (b\<lparr>bus_xs := s\<rparr>) = devices b"
  by (simp_all add: idents_def)

lemma device_register_ok:
  assumes "core_ok k" "idents_ok (idents b)" "ident_ok (ident d)" "device_register k d b = Some (r, b')"
  shows "idents_ok (idents b')"
proof -
  have "(if r = 0 then idents b' = idents b @ [ident d] \<and> bus_id d \<notin> bus_id ` set (devices b) else idents b' = idents b)"
    using assms(1,4) unfolding core_ok_def by blast
  moreover have "bus_id ` set (devices b) = set (map (snd \<circ> snd) (idents b))"
    by (simp add: idents_def ident_def image_image)
  ultimately show ?thesis
    using assms(2,3) by (auto simp: idents_ok_def ident_def split: if_splits)
qed

lemma probe_node_ok:
  assumes core: "core_ok k" and ok: "idents_ok (idents b)"
    and name: "\<And>i. frontend_bus_id name = Inr i \<Longrightarrow> ident_ok (name, type, i)"
    and run: "xenbus_probe_node k type name b = Some (r, b')"
  shows "idents_ok (idents b')"
proof -
  have reg: "idents_ok (idents b')"
    if "device_register k (new_device type name w i) (b\<lparr>bus_xs := s\<rparr>) = Some (r, b')" "frontend_bus_id name = Inr i" for w i s
    using device_register_ok [OF core _ _ that(1)] ok name [OF that(2)] by (simp add: ident_def new_device_def)
  show ?thesis
    using run ok
    by (auto simp: xenbus_probe_node_def Let_def bind_eq_Some_conv split: if_splits prod.splits bool.splits sum.splits
        dest: reg)
qed

lemma probe_each_ok:
  assumes "\<And>x b r b'. x \<in> set xs \<Longrightarrow> Q b \<Longrightarrow> f x b = Some (r, b') \<Longrightarrow> Q b'"
  shows "Q b \<Longrightarrow> probe_each f xs b = Some (r, b') \<Longrightarrow> Q b'"
  using assms
proof (induction xs arbitrary: b)
  case (Cons x xs)
  from Cons.prems(2) obtain e c where c: "f x b = Some (e, c)" "e \<noteq> 0 \<and> b' = c \<or> probe_each f xs c = Some (r, b')"
    by (auto simp: bind_eq_Some_conv split: if_splits)
  have "Q c" using Cons.prems(3) [OF _ Cons.prems(1) c(1)] by simp
  then show ?case using c(2) Cons.IH [of c] Cons.prems(3) by auto
qed simp

lemma probe_frontend_ok:
  assumes "core_ok k" "idents_ok (idents b)" "xenbus_probe_frontend k type name b = Some (r, b')"
  shows "idents_ok (idents b')"
proof -
  have n: "ident_ok (bytes ''device/'' @ type @ bytes ''/'' @ name, type, i)"
    if "frontend_bus_id (bytes ''device/'' @ type @ bytes ''/'' @ name) = Inr i" for i
    using that by (simp add: bytes_device, intro exI [of _ "bytes ''device''"]) simp
  obtain a s where a: "xs_alloc (bus_xs b) = (a, s)" by (cases "xs_alloc (bus_xs b)")
  have node: "idents_ok (idents b')"
    if "xenbus_probe_node k type (bytes ''device/'' @ type @ bytes ''/'' @ name) (b\<lparr>bus_xs := s\<rparr>) = Some (r, b')"
    using probe_node_ok [OF assms(1) _ n that] assms(2) by simp
  show ?thesis
    using assms(2,3) a node by (cases a) (auto simp: xenbus_probe_frontend_def split: if_splits)
qed

lemma probe_device_type_ok:
  assumes "core_ok k" "idents_ok (idents b)" "xenbus_probe_device_type k type b = Some (r, b')"
  shows "idents_ok (idents b')"
proof -
  obtain dir s where d: "xenbus_directory 0 (bytes ''device'') type (bus_xs b) = Some (dir, s)"
    using assms(3) by (auto simp: xenbus_probe_device_type_def bind_eq_Some_conv)
  have each: "idents_ok (idents b')"
    if "probe_each (xenbus_probe_frontend k type) ns (b\<lparr>bus_xs := s\<rparr>) = Some (r, b')" for ns
    using probe_each_ok [where Q = "\<lambda>b. idents_ok (idents b)", OF probe_frontend_ok [OF assms(1)] _ that] assms(2) by simp
  show ?thesis using assms(2,3) d each by (auto simp: xenbus_probe_device_type_def split: res.splits)
qed

lemma probe_devices_ok:
  assumes "core_ok k" "idents_ok (idents b)" "xenbus_probe_devices k b = Some (r, b')"
  shows "idents_ok (idents b')"
proof (cases "bus_error b = 0")
  case True
  obtain dir s where d: "xenbus_directory 0 (bytes ''device'') [] (bus_xs b) = Some (dir, s)"
    using assms(3) True by (auto simp: xenbus_probe_devices_def bind_eq_Some_conv)
  have each: "idents_ok (idents b')"
    if "probe_each (xenbus_probe_device_type k) ns (b\<lparr>bus_xs := s\<rparr>) = Some (r, b')" for ns
    using probe_each_ok [where Q = "\<lambda>b. idents_ok (idents b)", OF probe_device_type_ok [OF assms(1)] _ that] assms(2) by simp
  show ?thesis using assms(2,3) True d each by (auto simp: xenbus_probe_devices_def split: res.splits)
next
  case False
  then show ?thesis using assms(2,3) by (simp add: xenbus_probe_devices_def)
qed

section \<open>Devices whose node has gone\<close>

lemma remove1_first:
  assumes "find P xs = Some x" and "\<And>y. y \<in> set xs \<Longrightarrow> f y = f x \<Longrightarrow> P y"
  shows "\<exists>as bs. xs = as @ x # bs \<and> (\<forall>a \<in> set as. \<not> P a) \<and> P x \<and> remove1 (f x) (map f xs) = map f as @ map f bs"
proof -
  obtain i where i: "i < length xs" "P (xs ! i)" "x = xs ! i" "\<forall>j<i. \<not> P (xs ! j)"
    using assms(1) by (auto simp: find_Some_iff)
  have xs: "xs = take i xs @ x # drop (Suc i) xs" using i by (simp add: id_take_nth_drop)
  have np: "\<forall>a \<in> set (take i xs). \<not> P a" using i by (auto simp: in_set_conv_nth)
  then have "f x \<notin> f ` set (take i xs)" using assms(2) set_take_subset by fastforce
  then have "remove1 (f x) (map f (take i xs @ x # drop (Suc i) xs)) = map f (take i xs) @ map f (drop (Suc i) xs)"
    by (simp add: remove1_append)
  then show ?thesis using xs np i(2,3) by metis
qed

lemma cleanup_step:
  assumes core: "core_ok k" and d: "find (cleanup_dev path) (devices b) = Some d"
    and run: "device_unregister k d b = Some b'"
  shows "length (filter (below path \<circ> fst) (idents b')) < length (filter (below path \<circ> fst) (idents b)) \<and>
    filter (Not \<circ> below path \<circ> fst) (idents b') = filter (Not \<circ> below path \<circ> fst) (idents b)"
proof -
  have "cleanup_dev path d" using d by (auto simp: find_Some_iff)
  then have same: "\<And>y. y \<in> set (devices b) \<Longrightarrow> ident y = ident d \<Longrightarrow> cleanup_dev path y"
    by (simp add: cleanup_dev_def ident_def)
  obtain as bs where s: "devices b = as @ d # bs" "\<forall>a \<in> set as. \<not> cleanup_dev path a" "cleanup_dev path d"
    "remove1 (ident d) (map ident (devices b)) = map ident as @ map ident bs"
    using remove1_first [OF d, of ident] same by blast
  have "d \<in> set (devices b)" using s(1) by simp
  then have "idents b' = map ident as @ map ident bs"
    using core run s(4) unfolding core_ok_def idents_def by metis
  then show ?thesis using s(1,3) by (auto simp: idents_def cleanup_dev_def ident_def)
qed

lemma cleanup_ok:
  assumes core: "core_ok k" and total: "\<And>d b. d \<in> set (devices b) \<Longrightarrow> device_unregister k d b \<noteq> None"
  shows "\<exists>b'. xenbus_cleanup_devices k path b = Some b' \<and> idents b' = filter (Not \<circ> below path \<circ> fst) (idents b)"
proof (induction "length (filter (below path \<circ> fst) (idents b))" arbitrary: b rule: less_induct)
  case less
  show ?case
  proof (cases "find (cleanup_dev path) (devices b)")
    case None
    then have "filter (Not \<circ> below path \<circ> fst) (idents b) = idents b"
      by (auto simp: find_None_iff idents_def cleanup_dev_def ident_def filter_id_conv)
    then show ?thesis using None by (simp add: xenbus_cleanup_devices.simps [of k path b])
  next
    case (Some d)
    then have "d \<in> set (devices b)" by (auto simp: find_Some_iff)
    then obtain c where c: "device_unregister k d b = Some c" using total by blast
    note st = cleanup_step [OF core Some c]
    then show ?thesis using less [of c] Some c by (simp add: xenbus_cleanup_devices.simps [of k path b])
  qed
qed

text \<open>Without the totality of the core, what holds if it returns.\<close>

lemma cleanup_idents:
  assumes core: "core_ok k"
  shows "xenbus_cleanup_devices k path b = Some b' \<Longrightarrow> idents b' = filter (Not \<circ> below path \<circ> fst) (idents b)"
proof (induction "length (filter (below path \<circ> fst) (idents b))" arbitrary: b rule: less_induct)
  case less
  show ?case
  proof (cases "find (cleanup_dev path) (devices b)")
    case None
    then have "b' = b" using less(2) by (simp add: xenbus_cleanup_devices.simps [of k path b])
    then show ?thesis using None by (auto simp: find_None_iff idents_def cleanup_dev_def ident_def filter_id_conv)
  next
    case (Some d)
    then obtain c where c: "device_unregister k d b = Some c" "xenbus_cleanup_devices k path c = Some b'"
      using less(2) by (auto simp: xenbus_cleanup_devices.simps [of k path b] bind_eq_Some_conv)
    then show ?thesis using less(1) [OF _ c(2)] cleanup_step [OF core Some c(1)] by simp
  qed
qed

lemma dev_changed_ok:
  assumes core: "core_ok k" and ok: "idents_ok (idents b)" and run: "xenbus_dev_changed k node b = Some b'"
  shows "idents_ok (idents b')"
proof (cases "bus_error b \<noteq> 0 \<or> char_count node slash < 2")
  case True
  then show ?thesis using run ok by (simp add: xenbus_dev_changed_def)
next
  case False
  then obtain r t n rest where p: "node = r @ slash # t @ slash # n @ rest" "slash \<notin> set r" "slash \<notin> set t"
    "slash \<notin> set n" "rest = [] \<or> hd rest = slash"
    using node_parts [of node] by metis
  note root = strsep_root [OF p(2-5)]
  obtain ex s where ex: "xenbus_exists 0 node [] (bus_xs b) = Some (ex, s)"
    using run False by (auto simp: xenbus_dev_changed_def bind_eq_Some_conv)
  let ?root = "r @ slash # t @ slash # n"
  have tk: "take (nat (strsep_len node slash 2)) node = ?root" 
  proof -
    have "take (length ?root) (?root @ rest) = ?root" by simp
    then show ?thesis using root p(1) by (simp only: nat_int append_assoc append_Cons)
  qed
  have nm: "ident_ok (?root, node_type node, i)" if "frontend_bus_id ?root = Inr i" for i
  proof -
    have "after_slash ?root = Some (t @ slash # n)" using p(2) by simp
    then have "length (t @ slash # n) < XEN_BUS_ID_SIZE" using that by (auto simp: frontend_bus_id_def split: if_splits)
    then have "node_type node = t" using p(1-3) by (simp add: node_type_def)
    then show ?thesis using that p(2) by auto
  qed
  have node: "idents_ok (idents b')"
    if "xenbus_probe_node k (node_type node) ?root (b\<lparr>bus_xs := t\<rparr>) = Some (x, b')" for t x
    using probe_node_ok [OF core _ nm that] ok by simp
  have clean: "idents_ok (idents b')" if "xenbus_cleanup_devices k node (b\<lparr>bus_xs := s\<rparr>) = Some b'"
    using cleanup_idents [OF core that] ok
    by (auto simp: idents_ok_def intro: distinct_map_filter)
  show ?thesis
    using run False ex ok clean
    by (auto simp: xenbus_dev_changed_def Let_def tk split: if_splits bool.splits prod.splits dest: node)
qed

lemma char_count_append [simp]: "char_count (xs @ ys) c = char_count xs c + char_count ys c"
  by (induction xs) auto

lemma char_count_0: "c \<notin> set xs \<Longrightarrow> char_count xs c = 0" by (induction xs) auto

lemma probe_node_new:
  assumes "core_ok k" and "xenbus_probe_node k type name b = Some (r, b')"
  shows "set (idents b') \<subseteq> set (idents b) \<union> {x. fst x = name}"
proof -
  have reg: "set (idents b') \<subseteq> set (idents b) \<union> {x. fst x = name}"
    if "device_register k (new_device type name w i) (b\<lparr>bus_xs := s\<rparr>) = Some (r, b')" for w i s
  proof -
    have "idents b' = idents b @ [ident (new_device type name w i)] \<or> idents b' = idents b"
      using assms(1) that unfolding core_ok_def by (metis idents_upd(1))
    then show ?thesis by (auto simp: ident_def new_device_def)
  qed
  show ?thesis
    using assms(2)
    by (auto simp: xenbus_probe_node_def Let_def bind_eq_Some_conv split: if_splits prod.splits bool.splits sum.splits
        dest: subsetD [OF reg])
qed

text \<open>A device that a change adds is the one at the first three parts of the changed path.\<close>

lemma dev_changed_new:
  assumes core: "core_ok k" and run: "xenbus_dev_changed k node b = Some b'"
  shows "set (idents b') \<subseteq> set (idents b) \<union> {x. char_count (fst x) slash = 2 \<and> below (fst x) node}"
proof (cases "bus_error b \<noteq> 0 \<or> char_count node slash < 2")
  case True
  then show ?thesis using run by (simp add: xenbus_dev_changed_def)
next
  case False
  then obtain r t n rest where p: "node = r @ slash # t @ slash # n @ rest" "slash \<notin> set r" "slash \<notin> set t"
    "slash \<notin> set n" "rest = [] \<or> hd rest = slash"
    using node_parts [of node] by metis
  let ?root = "r @ slash # t @ slash # n"
  have tk: "take (nat (strsep_len node slash 2)) node = ?root"
  proof -
    have "take (length ?root) (?root @ rest) = ?root" by simp
    then show ?thesis using strsep_root [OF p(2-5)] p(1) by (simp only: nat_int append_assoc append_Cons)
  qed
  have c: "char_count ?root slash = 2" using p(2-4) by (simp add: char_count_0)
  have bl: "below ?root node" using p(1,5) by (cases rest) (auto simp: below_def nth_append)
  obtain ex s where ex: "xenbus_exists 0 node [] (bus_xs b) = Some (ex, s)"
    using run False by (auto simp: xenbus_dev_changed_def bind_eq_Some_conv)
  have new: "set (idents b') \<subseteq> set (idents b) \<union> {x. char_count (fst x) slash = 2 \<and> below (fst x) node}"
    if "xenbus_probe_node k (node_type node) ?root (b\<lparr>bus_xs := t\<rparr>) = Some (x, b')" for t x
    using probe_node_new [OF core that] c bl by auto
  have clean: "set (idents b') \<subseteq> set (idents b)" if "xenbus_cleanup_devices k node (b\<lparr>bus_xs := s\<rparr>) = Some b'"
    using cleanup_idents [OF core that] by auto
  show ?thesis
    using run False ex
    by (auto simp: xenbus_dev_changed_def Let_def tk split: if_splits bool.splits prod.splits
        dest: subsetD [OF new] subsetD [OF clean])
qed

section \<open>Every reachable state\<close>

text \<open>
  The steps that register and remove devices; any other, of the drivers or of suspend and resume,
  leaves the names of the devices as they are.
\<close>

inductive bus_reach :: "'p kernel \<Rightarrow> 'p xbus \<Rightarrow> bool" for k where
  bus_start: "devices b = [] \<Longrightarrow> bus_reach k b"
| bus_probe: "bus_reach k b \<Longrightarrow> xenbus_probe_devices k b = Some (r, b') \<Longrightarrow> bus_reach k b'"
| bus_changed: "bus_reach k b \<Longrightarrow> frontend_changed k v b = Some b' \<Longrightarrow> bus_reach k b'"
| bus_other: "bus_reach k b \<Longrightarrow> map ident (devices b') = map ident (devices b) \<Longrightarrow> bus_reach k b'"

lemma bus_reach_idents:
  assumes "core_ok k"
  shows "bus_reach k b \<Longrightarrow> idents_ok (idents b)"
proof (induction rule: bus_reach.induct)
  case (bus_start b)
  then show ?case by (simp add: idents_ok_def idents_def)
next
  case (bus_probe b r b')
  then show ?case using probe_devices_ok [OF assms] by blast
next
  case (bus_changed b v b')
  then show ?case using dev_changed_ok [OF assms] unfolding frontend_changed_def by blast
next
  case (bus_other b b')
  then show ?case by (simp add: idents_def)
qed

text \<open>
  C39: In every reachable state of the front-end bus each device is named as it should be: its
  type is the second part of its path, its name on the bus is the last two parts joined by a
  dash, of less than twenty bytes, whatever the store returned; and no two devices have the same
  path. A change in the store, however deep it is, adds no device but the one whose path is
  the first three parts of the changed path.
\<close>

theorem bus_devices_named:
  assumes "core_ok k" and "bus_reach k b"
  shows "bus_ok b \<and> (\<forall>v b' d. frontend_changed k v b = Some b' \<longrightarrow> d \<in> set (devices b') \<longrightarrow>
    ident d \<in> ident ` set (devices b) \<or>
    char_count (nodename (xen_dev d)) slash = 2 \<and> below (nodename (xen_dev d)) (v ! 0))"
proof (intro conjI allI impI)
  show "bus_ok b" by (rule idents_ok_bus [OF bus_reach_idents [OF assms]])
  fix v b' d assume run: "frontend_changed k v b = Some b'" and d: "d \<in> set (devices b')"
  have "ident d \<in> set (idents b')" using d by (simp add: idents_def)
  then show "ident d \<in> ident ` set (devices b) \<or>
    char_count (nodename (xen_dev d)) slash = 2 \<and> below (nodename (xen_dev d)) (v ! 0)"
    using dev_changed_new [OF assms(1) run [unfolded frontend_changed_def]] by (auto simp: idents_def ident_def)
qed

lemma below_iff: "below path name \<longleftrightarrow> name = path \<or> (\<exists>rest. name = path @ slash # rest)"
proof
  assume b: "below path name"
  then have pre: "name = path @ drop (length path) name" by (metis append_take_drop_id below_def)
  show "name = path \<or> (\<exists>rest. name = path @ slash # rest)"
  proof (cases "drop (length path) name")
    case Nil
    then show ?thesis using pre by simp
  next
    case (Cons x xs)
    then have "length path < length name" by (metis drop_eq_Nil leI list.distinct(1))
    then have "x = slash" using b Cons by (metis below_def hd_drop_conv_nth list.sel(1))
    then show ?thesis using pre Cons by metis
  qed
qed (auto simp: below_def)

text \<open>
  C40: When the node of a device or of a whole class has gone, the removal of devices ends, with
  exactly those devices removed whose name is the node's or the node's followed by a slash and more:
  one whose name only begins like the node stays, and so do all others, in order.
\<close>

theorem xenbus_cleanup_devices_exact:
  assumes "core_ok k" and "\<And>d b. d \<in> set (devices b) \<Longrightarrow> device_unregister k d b \<noteq> None"
  shows "\<exists>b'. xenbus_cleanup_devices k path b = Some b' \<and>
    map ident (devices b') = filter (\<lambda>(name, _). name \<noteq> path \<and> (\<forall>rest. name \<noteq> path @ slash # rest)) (map ident (devices b))"
  using cleanup_ok [OF assms, of path b] by (simp add: idents_def o_def case_prod_unfold below_iff)

section \<open>A new device\<close>

text \<open>
  A change below a node of the store that exists and holds a device in its first state, not yet
  on the bus, registers that device.
\<close>

lemma dev_changed_registers:
  assumes rdy: "ready n [m1, m2] (bus_xs b)"
    and m: "talkv_result XS_DIRECTORY m1 = Ok (str, l)" "split_strings (take (unat l) str) \<noteq> None"
      "talkv_result XS_READ m2 = Ok (val, l2)"
    and scan: "k_scan_d k (cstr val) = (1, 1)"
    and b: "bus_error b = 0" "xenbus_device_find (r @ slash # t @ slash # i) b = None"
    and node: "node = r @ slash # t @ slash # i @ rest" "slash \<notin> set r" "slash \<notin> set t" "slash \<notin> set i"
      "rest = [] \<or> hd rest = slash" "length (t @ slash # i) < XEN_BUS_ID_SIZE"
    and n: "50 + length node + length (r @ slash # t @ slash # i) \<le> n"
  shows "\<exists>s w. xenbus_dev_changed k node b =
    map_option snd (device_register k (new_device t (r @ slash # t @ slash # i) w (t @ bytes ''-'' @ i)) (b\<lparr>bus_xs := s\<rparr>))"
proof -
  let ?root = "r @ slash # t @ slash # i"
  have c: "\<not> char_count node slash < 2"
  using node(1) by simp
  have "talkv_result XS_DIRECTORY m1 = Ok (str, l)" by (rule m)
  then obtain s1 where s1: "xs_talkv 0 XS_DIRECTORY [node @ [0]] (bus_xs b) = Some (Ok (str, l), s1)"
    "ready (n - 17 - length node) [m2] s1"
    using talk_ready [OF rdy, of "[node @ [0]]" "n - 17 - length node" 0 XS_DIRECTORY] n by auto
  have ex: "xenbus_exists 0 node [] (bus_xs b) = Some (1, s1)"
    using s1 m(2) by (auto simp: xenbus_exists_def xenbus_directory_def with_path_def ready_alloc [OF rdy] ready_alloc [OF s1(2)]
        xs_single_def xs_split_def join_def)
  have "16 + length (concat [join ?root (bytes ''state'') @ [0]]) + 0 \<le> n - 17 - length node"
    using n by (simp add: join_def bytes_def)
  then obtain s2 where s2: "xs_talkv 0 XS_READ [join ?root (bytes ''state'') @ [0]] s1 = Some (Ok (val, l2), s2)" "ready 0 [] s2"
    using talk_ready [OF s1(2), of _ 0 0 XS_READ] m(3) by fastforce
  have st: "xenbus_read_driver_state (k_scan_d k) ?root s1 = Some (1, s2)"
    using s2(1) scan by (simp add: xenbus_read_driver_state_def xenbus_scanf_def xenbus_read_def with_path_def
        ready_alloc [OF s1(2)] xs_single_def)
  have root: "take (nat (strsep_len node slash 2)) node = ?root" "0 \<le> strsep_len node slash 2"
  proof -
    have "take (length ?root) (?root @ rest) = ?root" by simp
    then show "take (nat (strsep_len node slash 2)) node = ?root"
      using strsep_root [OF node(2-5)] node(1) by (simp only: nat_int append_assoc append_Cons)
    show "0 \<le> strsep_len node slash 2" using strsep_root [OF node(2-5)] node(1) by (simp only:)
  qed
  have ty: "node_type node = t" using node by (simp add: node_type_def)
  have id: "frontend_bus_id ?root = Inr (t @ bytes ''-'' @ i)" using node(2,3,6) by (auto simp: frontend_bus_id_Inr)
  have nf: "xenbus_device_find ?root (b\<lparr>bus_xs := s1\<rparr>) = None" using b(2) by (simp add: xenbus_device_find_def)
  show ?thesis
    using b(1) c root nf
    by (simp add: xenbus_dev_changed_def ex Let_def ready_alloc [OF s1(2)] ty xenbus_probe_node_def st
        ready_alloc [OF s2(2)] id) blast
qed

definition core_remove :: "xdev \<Rightarrow> xdev list \<Rightarrow> xdev list" where
  "core_remove d ds = takeWhile (\<lambda>x. ident x \<noteq> ident d) ds @ tl (dropWhile (\<lambda>x. ident x \<noteq> ident d) ds)"

definition kernel_example :: "unit kernel" where
  "kernel_example =
     \<lparr>k_scan_d = \<lambda>v. (1, int (unat (hd v)) - 48), k_scan_i = \<lambda>v. (1, int (unat (hd v)) - 48), k_fresh = \<lambda>_. 4096,
      device_register = \<lambda>d b. if bus_id d \<in> bus_id ` set (devices b) then Some (- EEXIST, b)
                             else Some (0, b\<lparr>devices := devices b @ [d]\<rparr>),
      device_unregister = \<lambda>d b. Some (b\<lparr>devices := core_remove d (devices b)\<rparr>),
      driver_register = \<lambda>_ b. Some (0, b)\<rparr>"

lemma core_remove_idents: "map ident (core_remove d ds) = remove1 (ident d) (map ident ds)"
  by (induction ds) (auto simp: core_remove_def)

lemma kernel_example_core: "core_ok kernel_example"
  by (auto simp: core_ok_def kernel_example_def idents_def core_remove_idents)

definition bus_example :: "unit xbus" where
  "bus_example =
     \<lparr>bus_xs = xs_example\<lparr>incoming := [(\<lparr>m_type = XS_DIRECTORY, req_id = 0, tx_id = 0, m_len = 0\<rparr>, []),
                                (\<lparr>m_type = XS_READ, req_id = 0, tx_id = 0, m_len = 1\<rparr>, [49])]\<rparr>,
      bus_error = 0, devices = [],
      drivers = \<lambda>_. \<lparr>ids = None, drv_probe = None, drv_otherend_changed = None, drv_remove = None, drv_suspend = None,
                    drv_suspend_cancel = None, drv_resume = None, read_otherend_details = read_backend_details kernel_example\<rparr>,
      world = (), store_irq = 0, store_evtchn = 0, store_mfn = 0, xsd = XENBUS_XSD_FOREIGN_READY, chain = [], chain_called = []\<rparr>"

text \<open>The node \<open>device/vif/0/state\<close> changes: the device \<open>vif-0\<close> appears.\<close>

lemma bus_example_vif:
  "\<exists>b. frontend_changed kernel_example [bytes ''device/vif/0/state''] bus_example = Some b \<and>
     map ident (devices b) = [(bytes ''device/vif/0'', bytes ''vif'', bytes ''vif-0'')]"
proof -
  have rdy: "ready 1000 [(\<lparr>m_type = XS_DIRECTORY, req_id = 0, tx_id = 0, m_len = 0\<rparr>, []),
       (\<lparr>m_type = XS_READ, req_id = 0, tx_id = 0, m_len = 1\<rparr>, [49])] (bus_xs bus_example)"
    using xs_wf0 by (simp add: ready_def bus_example_def xs_example_def xs_types)
  have node: "bytes ''device/vif/0/state'' = bytes ''device'' @ slash # bytes ''vif'' @ slash # bytes ''0'' @ slash # bytes ''state''"
    by (simp add: bytes_def slash_def)
  have parts: "slash \<notin> set (bytes ''vif'')" "slash \<notin> set (bytes ''0'')"
    "length (bytes ''vif'' @ slash # bytes ''0'') < XEN_BUS_ID_SIZE"
    "50 + length (bytes ''device/vif/0/state'') + length (bytes ''device'' @ slash # bytes ''vif'' @ slash # bytes ''0'') \<le> 1000"
    by (simp_all add: bytes_def slash_def XEN_BUS_ID_SIZE_def)
  have m: "talkv_result XS_DIRECTORY (\<lparr>m_type = XS_DIRECTORY, req_id = 0, tx_id = 0, m_len = 0\<rparr>, []) = Ok ([], 0)"
    "talkv_result XS_READ (\<lparr>m_type = XS_READ, req_id = 0, tx_id = 0, m_len = 1\<rparr>, [49]) = Ok ([49], 1)"
    "split_strings (take (unat (0 :: u32)) []) \<noteq> None" "k_scan_d kernel_example (cstr [49]) = (1, 1)"
    by (simp_all add: talkv_result_def xs_types split_strings.simps [of "[]"] kernel_example_def cstr_def)
  have b: "bus_error bus_example = 0" "xenbus_device_find x bus_example = None" for x
    by (simp_all add: bus_example_def xenbus_device_find_def)
  obtain s w where "xenbus_dev_changed kernel_example (bytes ''device/vif/0/state'') bus_example =
    map_option snd (device_register kernel_example
      (new_device (bytes ''vif'') (bytes ''device'' @ slash # bytes ''vif'' @ slash # bytes ''0'') w (bytes ''vif'' @ bytes ''-'' @ bytes ''0''))
      (bus_example\<lparr>bus_xs := s\<rparr>))"
    using dev_changed_registers [OF rdy m(1,3,2,4) b node slash_device parts(1,2) _ parts(3,4)] by auto
  moreover have "bytes ''device'' @ slash # bytes ''vif'' @ slash # bytes ''0'' = bytes ''device/vif/0''"
    "bytes ''vif'' @ bytes ''-'' @ bytes ''0'' = bytes ''vif-0''"
    by (simp_all add: bytes_def slash_def)
  ultimately show ?thesis
    by (simp add: frontend_changed_def kernel_example_def bus_example_def new_device_def ident_def)
qed

theorem bus_devices_named_witness:
  "\<exists>b. frontend_changed kernel_example [bytes ''device/vif/0/state''] bus_example = Some b \<and>
     map ident (devices b) = [(bytes ''device/vif/0'', bytes ''vif'', bytes ''vif-0'')] \<and> bus_ok b"
proof -
  from bus_example_vif obtain b where b: "frontend_changed kernel_example [bytes ''device/vif/0/state''] bus_example = Some b"
     "map ident (devices b) = [(bytes ''device/vif/0'', bytes ''vif'', bytes ''vif-0'')]"
    by (elim exE conjE)
  have "bus_reach kernel_example bus_example" by (rule bus_start) (simp add: bus_example_def)
  note r = bus_changed [OF this b(1)]
  show ?thesis by (intro exI [of _ b] conjI b conjunct1 [OF bus_devices_named [OF kernel_example_core r]])
qed

text \<open>The class \<open>vbd\<close> goes; \<open>vbdx\<close> and \<open>vif\<close> stay.\<close>

theorem xenbus_cleanup_devices_exact_witness:
  "\<exists>b. xenbus_cleanup_devices kernel_example (bytes ''device/vbd'')
       (bus_example\<lparr>devices := map (\<lambda>n. new_device [] (bytes n) 0 [])
         [''device/vbd/1'', ''device/vbdx/1'', ''device/vif/0'', ''device/vbd/2'']\<rparr>) = Some b \<and>
     map (nodename \<circ> xen_dev) (devices b) = map bytes [''device/vbdx/1'', ''device/vif/0'']"
proof -
  let ?b = "bus_example\<lparr>devices := map (\<lambda>n. new_device [] (bytes n) 0 [])
         [''device/vbd/1'', ''device/vbdx/1'', ''device/vif/0'', ''device/vbd/2'']\<rparr>"
  have total: "device_unregister kernel_example d b \<noteq> None" for d b by (simp add: kernel_example_def)
  obtain b where b: "xenbus_cleanup_devices kernel_example (bytes ''device/vbd'') ?b = Some b"
    "map ident (devices b) = filter (\<lambda>(name, _). name \<noteq> bytes ''device/vbd'' \<and> (\<forall>rest. name \<noteq> bytes ''device/vbd'' @ slash # rest))
       (map ident (devices ?b))"
    using xenbus_cleanup_devices_exact [OF kernel_example_core total] by blast
  have "map (nodename \<circ> xen_dev) (devices b) = map fst (map ident (devices b))" by (simp add: ident_def)
  also have "\<dots> = map bytes [''device/vbdx/1'', ''device/vif/0'']"
    by (simp add: b(2) new_device_def ident_def bytes_def slash_def)
  finally show ?thesis using b(1) by (intro exI [of _ b] conjI)
qed

section \<open>The reset of a device left connected\<close>

lemma wait_for_backend_client:
  "xenbus_reset_wait_for_backend scan ps expected bs = Some bs' \<Longrightarrow> client (snd bs') = client (snd bs)"
proof (induction ps arbitrary: bs)
  case (Cons p ps)
  show ?case
  proof (cases "fst bs = expected")
    case False
    then obtain c where c: "xenbus_reset_backend_state_changed scan p bs = Some c"
      "xenbus_reset_wait_for_backend scan ps expected c = Some bs'"
      using Cons.prems by (auto simp: bind_eq_Some_conv)
    then have "client (snd c) = client (snd bs)"
      using xenbus_scanf_client
      by (fastforce simp: xenbus_reset_backend_state_changed_def bind_eq_Some_conv split: prod.splits)
    then show ?thesis using Cons.IH [OF c(2)] by simp
  qed (use Cons.prems in simp)
qed simp

lemma reset_step_client: "reset_step k fired fe new expected bs = Some bs' \<Longrightarrow> client (snd bs') = client (snd bs)"
proof -
  assume run: "reset_step k fired fe new expected bs = Some bs'"
  obtain v s where bs: "bs = (v, s)" by (cases bs)
  obtain r t where t: "xenbus_printf 0 fe (bytes ''state'') (print_d (int (state_num new))) s = Some (r, t)"
    "xenbus_reset_wait_for_backend (k_scan_i k) (fired expected) (int (state_num expected)) (v, t) = Some bs'"
    using run bs by (auto simp: reset_step_def bind_eq_Some_conv)
  show "client (snd bs') = client (snd bs)"
    using xenbus_printf_client [OF t(1)] wait_for_backend_client [OF t(2)] bs by simp
qed

lemma optional_step_client:
  "(if c then reset_step k fired fe new expected bs else Some bs) = Some bs' \<Longrightarrow> client (snd bs') = client (snd bs)"
  by (cases c) (simp_all add: reset_step_client)

text \<open>
  The reset takes its watch, a variable on the stack, off the list before it returns, so no event
  can name it later. But the result of the registration is not looked at: when it failed, taking
  the watch off meets \<open>BUG_ON\<close>.
\<close>

lemma xenbus_reset_frontend_watch:
  assumes alloc: "xs_alloc s = (True, s1)"
    and reg: "register_xenbus_watch w
        (s1\<lparr>watch_data := (watch_data s1)(w := \<lparr>watch_node = be @ bytes ''/state'', XBWF_new_thread = False\<rparr>)\<rparr>) = Some (err, s2)"
  shows "(err \<noteq> 0 \<longrightarrow> xenbus_reset_frontend k w fired fe be be_state s = None) \<and>
    (xenbus_reset_frontend k w fired fe be be_state s = Some t \<longrightarrow> watches t = watches s)"
proof -
  let ?s = "s1\<lparr>watch_data := (watch_data s1)(w := \<lparr>watch_node = be @ bytes ''/state'', XBWF_new_thread = False\<rparr>)\<rparr>"
  have w1: "watches ?s = watches s" using xs_alloc_frame [OF alloc] by (simp add: client_def)
  have "find_watch (watch_token w) ?s = None" using reg by (simp add: register_xenbus_watch_def split: if_splits)
  then have new: "w \<notin> set (watches s)" using w1 by (auto split: if_splits)
  obtain e u where u: "xs_watch (watch_node (watch_data ?s w)) (watch_token w) (?s\<lparr>watches := w # watches ?s\<rparr>) = Some (e, u)"
    "err = e" "s2 = (if e \<noteq> 0 then u\<lparr>watches := remove1 w (watches u)\<rparr> else u)"
    using reg by (auto simp: register_xenbus_watch_def split: if_splits)
  have wu: "watches u = w # watches s"
    using u(1) w1 xs_talkv_frame by (auto simp: xs_watch_def client_def dest!: xs_error_Some)
  have w2: "watches s2 = (if err \<noteq> 0 then watches s else w # watches s)" using u wu by simp
  have steps: "\<exists>s3. client s3 = client s2 \<and> unregister_xenbus_watch w s3 = Some t"
    if run: "xenbus_reset_frontend k w fired fe be be_state s = Some t" for t
  proof -
    obtain b1 b2 b3 where b:
      "(if be_state = 4 then reset_step k fired fe XenbusStateClosing XenbusStateClosing (int (state_num XenbusStateUnknown), s2)
        else Some (int (state_num XenbusStateUnknown), s2)) = Some b1"
      "(if be_state \<in> {4, 5} then reset_step k fired fe XenbusStateClosed XenbusStateClosed b1 else Some b1) = Some b2"
      "(if be_state \<in> {4, 5, 6} then reset_step k fired fe XenbusStateInitialising XenbusStateInitWait b2 else Some b2) = Some b3"
      "unregister_xenbus_watch w (snd b3) = Some t"
      using run by (auto simp: xenbus_reset_frontend_def alloc Let_def reg bind_eq_Some_conv simp del: insert_iff)
    show ?thesis
      using b(4) optional_step_client [OF b(1)] optional_step_client [OF b(2)] optional_step_client [OF b(3)] by auto
  qed
  show ?thesis
  proof (intro conjI impI)
    assume e: "err \<noteq> 0"
    show "xenbus_reset_frontend k w fired fe be be_state s = None"
    proof (rule ccontr)
      assume "xenbus_reset_frontend k w fired fe be be_state s \<noteq> None"
      then obtain t s3 where "client s3 = client s2" "unregister_xenbus_watch w s3 = Some t" using steps by blast
      then have "w \<in> set (watches s2)" by (auto simp: unregister_xenbus_watch_def client_def split: if_splits)
      then show False using w2 e new by simp
    qed
  next
    assume run: "xenbus_reset_frontend k w fired fe be be_state s = Some t"
    then obtain s3 where s3: "client s3 = client s2" "unregister_xenbus_watch w s3 = Some t" using steps by blast
    then have "w \<in> set (watches s2)" by (auto simp: unregister_xenbus_watch_def client_def split: if_splits)
    then have "watches s3 = w # watches s" using w2 new s3(1) by (auto simp: client_def split: if_splits)
    then show "watches t = watches s"
      using s3(2) xs_talkv_frame
      by (auto simp: unregister_xenbus_watch_def xs_unwatch_def client_def split: if_splits dest!: xs_error_Some)
  qed
qed

end
