(* ===== verification/Spec2Isabelle.thy ===== *)
theory Spec2Isabelle
  imports Ring Xs_Ring Gnttab_Props Gnttab_Clients Xenbus_Xs_Props Evtchn_Props Xenbus_Client Balloon_Props Blkfront_Recover Netfront_Rx_Props Scsifront_Data Scsifront_Release Xenbus_Probe_Props
begin

text \<open>
  \<^bold>\<open>The program.\<close> The repository holds the Xen paravirtual front-end drivers for Linux guests that
  run fully virtualised (HVM): \<^verbatim>\<open>xen-platform-pci\<close> gives the guest grant references, event
  channels and the store (xenstore); \<^verbatim>\<open>xen-vbd\<close>, \<^verbatim>\<open>xen-vnif\<close> and \<^verbatim>\<open>xen-scsi\<close> are the disk, network
  and SCSI front ends; \<^verbatim>\<open>xen-balloon\<close> gives memory back to the host. The development models the
  tree \<^verbatim>\<open>uvp-xenpv/uvp-classic_xen_driver-3.12.xto3.16.x\<close> in its 3.12.49 variant, built as modules
  (\<^verbatim>\<open>MODULE\<close> defined, \<^verbatim>\<open>CONFIG_XEN\<close> not). Paths below are relative to it.

  \<^bold>\<open>How the parts work together.\<close> A front end finds its device through the bus of
  \<^verbatim>\<open>xenbus_probe.c\<close>, which reads the store through the client of \<^verbatim>\<open>xenbus_xs.c\<close>; the client sends
  requests and receives replies and watch events over two byte rings in a page shared with the
  store daemon (\<^verbatim>\<open>xenbus_comms.c\<close>). The front end then grants its backend a page for a ring of
  requests and responses (\<^verbatim>\<open>gnttab.c\<close>, \<^verbatim>\<open>ring.h\<close>), binds an event channel (\<^verbatim>\<open>evtchn.c\<close>) and tells
  the backend of both in the store. From then on each request names pages by grant references,
  and each response gives them back.

  \<^bold>\<open>Theories.\<close>

  \<^item> \<open>Xen_Prelude\<close>: the integer types, error numbers, and facts on free-running counters.
  \<^item> \<open>Freelist\<close>: the locale of a free list threaded through an array, and its laws. It is
    interpreted on the grant table and on the id lists of the disk and network front ends.
  \<^item> \<open>Ring\<close>: \<^verbatim>\<open>include/xen/interface/io/ring.h\<close>, both ends. Messages arrive intact and in order
    across the wrap-around of the 32-bit indices; no wake-up is lost; the ring size is maximal.
  \<^item> \<open>Gnttab\<close>, \<open>Gnttab_Props\<close>: \<^verbatim>\<open>xen-platform-pci/gnttab.c\<close>. The free list and its count, private
    lists, growth, callbacks, ending access against concurrent hypervisor writes, the deferred
    list, initialisation. \<open>Gnttab_Clients\<close>: whatever drivers take, pass between their private lists and
    give back, in any order and while the table grows, no reference is lost or handed out twice.
  \<^item> \<open>Evtchn\<close>, \<open>Evtchn_Props\<close>: \<^verbatim>\<open>xen-platform-pci/evtchn.c\<close>. The tables between ports and interrupt
    numbers, and the interrupt handler over the two-level bitmap.
  \<^item> \<open>Xs_Ring\<close>: \<^verbatim>\<open>xen-platform-pci/xenbus_comms.c\<close>, the byte rings as streams.
  \<^item> \<open>Xs_Wire\<close>: the message format of \<^verbatim>\<open>include/xen/interface/io/xs_wire.h\<close> and the strings.
  \<^item> \<open>Xenbus_Xs\<close>, \<open>Xenbus_Xs_Props\<close>: \<^verbatim>\<open>xen-platform-pci/3.12.49/xenbus_xs.c\<close>. Requests, directories,
    transactions, watches and whom their callbacks are made to, refused registrations included, suspend and resume.
  \<^item> \<open>Xenbus_Client\<close>: \<^verbatim>\<open>xen-platform-pci/xenbus_client.c\<close>. Switching state in a transaction that is
    retried, granting ring pages, reporting errors.
  \<^item> \<open>Xenbus_Probe\<close>, \<open>Xenbus_Probe_Props\<close>: \<^verbatim>\<open>xen-platform-pci/xenbus_probe.c\<close>. Which devices are on
    the bus, their names, their removal; start-up and the reset of left-over devices.
  \<^item> \<open>Balloon\<close>, \<open>Balloon_Props\<close>: \<^verbatim>\<open>xen-balloon/balloon.c\<close> and the targets of \<^verbatim>\<open>sysfs.c\<close>. The worker
    converges without losing a page; the floor of the target.
  \<^item> \<open>Blkfront\<close>, \<open>Blkfront_Props\<close>, \<open>Blkfront_Recover\<close>: the data path of
    \<^verbatim>\<open>xen-vbd/3.12.49/blkfront.c\<close>: submission, the interrupt, splitting, recovery after migration. The
    history of requests in \<open>Blkfront_Props\<close> has no reconnection between the pieces of a split request:
    \<open>Blkfront_Recover\<close> shows that a suspend there loses a request, that the pieces are all sent for one
    sector, and that from the third piece on the driver may free the array it reads from.
  \<^item> \<open>Netfront\<close>, \<open>Netfront_Pieces\<close>, \<open>Netfront_Tx\<close>: the sending side of \<^verbatim>\<open>xen-vnif/3.12.49/netfront.c\<close>;
    what the backend decodes from the ring is the packet. \<open>Netfront_Rx\<close>, \<open>Netfront_Rx_Account\<close>,
    \<open>Netfront_Rx_Props\<close>: the receiving side; the poll keeps every buffer and reference accounted for, unless the
    backend announces an empty piece with more to follow, which can stop the kernel.
  \<^item> \<open>Scsifront\<close>: the data path of \<^verbatim>\<open>xen-scsi/scsifront.c\<close>. \<open>Scsifront_Pool\<close> and \<open>Scsifront_Map\<close> show what
    the pool of grants and the mapping of a command keep, \<open>Scsifront_Props\<close> that no history of commands
    and answers loses a command or a grant or meets a \<open>BUG\<close>, \<open>Scsifront_Data\<close> that the backend finds the
    command and its data.
  \<^item> \<open>Scsifront_Ctl\<close>: the control side, \<^verbatim>\<open>xen-scsi/xenbus.c\<close>. \<open>Scsifront_Setup\<close> takes its steps one by
    one, the ring with its grants, the id list, the pool; \<open>Scsifront_Ctl_Props\<close> composes them: a device
    that goes from probing to connection has the invariant of the data path. \<open>Scsifront_Release\<close>: suspend
    and resume; after a migration every command is ended once and every page given back, and the
    device that connects again has its invariant again.

  \<^bold>\<open>Conventions.\<close> A structure is a record with the names of the source, a machine integer a word of
  its width where its wrap-around matters and otherwise a number, an array a function from
  indices. A call returns its results with the new state. Errors are the negative numbers of
  the source. \<open>None\<close> stands for a call that does not come back: it meets \<^verbatim>\<open>BUG\<close> or \<^verbatim>\<open>BUG_ON\<close>, touches
  memory that is not its own, or waits for ever. Locks are left out where they only serialise;
  a lock that something is held back by is a flag. One access is not under its lock:
  \<open>scsifront_queuecommand\<close> counts itself in \<open>callers\<close> (\<^verbatim>\<open>scsifront_enter\<close>, \<^verbatim>\<open>xen-scsi/scsifront.c:650\<close>) before it takes the
  host's lock; the count is modelled for one caller at a time, the race between two is not. What other threads, the peer domain or the
  hypervisor do while a call runs is an explicit argument: a list of steps for each wait, a
  function for each re-read of shared memory. Allocation may fail at any call: the store client
  takes the results from a list, which stands for success once it is used up.

  \<^bold>\<open>Outside code.\<close> The hypervisor, the kernel's allocator, block layer, network stack and driver
  core, and the drivers behind callbacks are arguments of the definitions, with what is relied
  on as named hypotheses: for the network an environment record \<open>net_env\<close>, for grants
  \<open>gnt_env\<close>, for the driver core \<open>core_ok\<close>.

  \<^bold>\<open>Termination.\<close> Every loop but one is a total function: the retries of a transaction,
  those of the announcement of a SCSI ring among them, consume replies, a wait consumes events of its schedule, the rounds of the balloon worker have a bound
  that the convergence theorem shows to be enough, the poll and the collection of responses run
  to a producer index read once per round. The removal of devices is a partial function, and its
  theorem shows that it returns.

  \<^bold>\<open>Not modelled.\<close> The control side of the disk and network front ends (negotiation with the
  backend, registration with the kernel), the device files, the accelerator
  plug-ins, platform set-up, the suspend thread, and the release of network receive buffers on
  removal. The paravirtual bus and the backend bus are not compiled. The older tree and the
  variants for other kernels repeat the same drivers. Packet and sector contents are followed
  only where they are framed: on sending a packet, and in the order of the pieces of a request.
\<close>

end
